(* ===== verification/Prelude.thy ===== *)
theory Prelude
  imports Main "HOL-Library.Word"
begin

text \<open>
  Shared vocabulary and generic lemmas of the development: the reading of a circular
  array as a list (used by every ring of the repository: the shared memory queue, the
  free ring of the memory pool and the fixed size ring queue), arithmetic modulo a
  capacity on \<open>nat\<close> and on machine words, and the collections that carry the
  component proofs.
\<close>

section \<open>Types\<close>

type_synonym byte = "8 word"

section \<open>Collections of facts\<close>

named_theorems ring_simps \<open>equations for reading and updating a circular array\<close>
named_theorems modulo_simps \<open>arithmetic modulo a capacity\<close>

section \<open>Loops in the option monad\<close>

text \<open>A \<open>for\<close> loop over indices whose body may fail.\<close>

fun for_option :: "'i list \<Rightarrow> ('i \<Rightarrow> 's \<Rightarrow> 's option) \<Rightarrow> 's \<Rightarrow> 's option" where
  "for_option [] f s = Some s"
| "for_option (i # is) f s = (case f i s of None \<Rightarrow> None | Some t \<Rightarrow> for_option is f t)"

lemma for_option_append:
  "for_option (is @ js) f s = (case for_option is f s of None \<Rightarrow> None | Some t \<Rightarrow> for_option js f t)"
  by (induction "is" arbitrary: s) (auto split: option.splits)

section \<open>Lists\<close>

text \<open>A key that identifies the elements of a list also identifies where it splits.\<close>

lemma split_unique:
  assumes "distinct (map f (ps @ c # rs))" "ps @ c # rs = ps' @ c' # rs'" "f c = f c'"
  shows "ps = ps' \<and> c = c' \<and> rs = rs'"
proof -
  let ?xs = "map f (ps @ c # rs)"
  have "?xs ! length ps = f c" by (simp add: nth_append)
  moreover have "?xs ! length ps' = f c'" unfolding assms(2) by (simp add: nth_append)
  moreover have "length ps < length ?xs" "length ps' < length ?xs"
    using arg_cong [OF assms(2), of length] by simp_all
  ultimately have "length ps = length ps'"
    using assms(1,3) nth_eq_iff_index_eq [of ?xs "length ps" "length ps'"] by metis
  with assms(2) show ?thesis by simp
qed

section \<open>Arithmetic modulo a capacity\<close>

lemma mod_add_once: "(a + b) mod c = (if a + b < c then a + b else a + b - c)"
  if "a < c" "b \<le> c" for a b c :: nat
  using that by (auto simp: mod_if)

lemma mod_Suc_once: "Suc a mod c = (if Suc a = c then 0 else Suc a)"
  if "a < c" for a c :: nat
  using that by (auto simp: mod_Suc)

lemma mod_diff_once: "(c + a - b) mod c = (if b \<le> a then a - b else c + a - b)"
  if "a < c" "b < c" for a b c :: nat
proof (cases "b \<le> a")
  case True
  then have "c + a - b = c + (a - b)" by simp
  then have "(c + a - b) mod c = (a - b) mod c" by (simp only: mod_add_self1)
  with True that show ?thesis by simp
next
  case False
  with that show ?thesis by simp
qed

text \<open>The number of used slots between a tail and a head index, both below the capacity.\<close>

definition ring_count :: "nat \<Rightarrow> nat \<Rightarrow> nat \<Rightarrow> nat" where
  "ring_count c h t = (c + h - t) mod c"

lemma ring_count_less [simp, modulo_simps]: "0 < c \<Longrightarrow> ring_count c h t < c"
  by (simp add: ring_count_def)

lemma ring_count_zero [modulo_simps]:
  "h < c \<Longrightarrow> t < c \<Longrightarrow> ring_count c h t = 0 \<longleftrightarrow> h = t"
  by (auto simp: ring_count_def mod_diff_once)

lemma ring_count_head: "(t + ring_count c h t) mod c = h" if "h < c" "t < c"
  using that by (auto simp: ring_count_def mod_diff_once)

lemma ring_count_full [modulo_simps]:
  "h < c \<Longrightarrow> t < c \<Longrightarrow> ring_count c h t = c - 1 \<longleftrightarrow> Suc h mod c = t"
  by (auto simp: ring_count_def mod_diff_once mod_Suc_once split: if_splits)

lemma ring_count_push [modulo_simps]:
  "h < c \<Longrightarrow> t < c \<Longrightarrow> Suc h mod c \<noteq> t \<Longrightarrow> ring_count c (Suc h mod c) t = Suc (ring_count c h t)"
  by (auto simp: ring_count_def mod_diff_once mod_Suc_once split: if_splits)

lemma ring_count_pop [modulo_simps]:
  "h < c \<Longrightarrow> t < c \<Longrightarrow> h \<noteq> t \<Longrightarrow> Suc (ring_count c h (Suc t mod c)) = ring_count c h t"
  by (auto simp: ring_count_def mod_diff_once mod_Suc_once split: if_splits)

lemma unat_succ_below [modulo_simps]: "unat (h + 1) = Suc (unat h)"
  if "unat h < unat c" for h c :: "'a::len word"
proof -
  have "unat c < 2 ^ LENGTH('a)" by simp
  with that have "unat h + 1 < 2 ^ LENGTH('a)" by linarith
  then show ?thesis by (simp add: unat_word_ariths mod_less)
qed

lemma unat_of_nat_small: "n < 2 ^ LENGTH('a) \<Longrightarrow> unat (of_nat n :: 'a::len word) = n"
  by (simp add: unsigned_of_nat take_bit_nat_eq_self)

lemma word_eq_unat: "x = y \<longleftrightarrow> unat x = unat y" for x y :: "'a::len word"
  by (simp add: word_eq_iff_unsigned [where ?'a = nat])

lemma word_mod_mod [simp]: "a mod b mod b = a mod b" for a b :: "'a::len word"
  by (simp add: word_eq_unat unat_mod_distrib)

section \<open>A circular array read as a list\<close>


text \<open>\<open>ring_list xs t n\<close> is the \<open>n\<close> elements of the circular array \<open>xs\<close> from index \<open>t\<close> on.\<close>

definition ring_list :: "'a list \<Rightarrow> nat \<Rightarrow> nat \<Rightarrow> 'a list" where
  "ring_list xs t n = map (\<lambda>k. xs ! ((t + k) mod length xs)) [0..<n]"

lemma ring_list_0 [simp, ring_simps]: "ring_list xs t 0 = []"
  by (simp add: ring_list_def)

lemma length_ring_list [simp, ring_simps]: "length (ring_list xs t n) = n"
  by (simp add: ring_list_def)

lemma ring_list_Cons:
  "ring_list xs t (Suc n) = xs ! (t mod length xs) # ring_list xs (Suc t mod length xs) n"
proof -
  have "map (\<lambda>k. xs ! ((t + k) mod length xs)) [0..<Suc n]
      = xs ! (t mod length xs) # map (\<lambda>k. xs ! ((t + Suc k) mod length xs)) [0..<n]"
    by (simp only: map_upt_Suc) simp
  then show ?thesis by (simp add: ring_list_def mod_simps)
qed

lemma ring_list_snoc:
  "ring_list xs t (Suc n) = ring_list xs t n @ [xs ! ((t + n) mod length xs)]"
  by (simp add: ring_list_def)

lemma ring_index_inj:
  assumes "a < c" "b < c" "(t + a) mod c = (t + b) mod c"
  shows "a = (b::nat)"
  using assms
proof (induction a b rule: linorder_wlog)
  case (le a b)
  then have "c dvd (t + b) - (t + a)"
    using mod_eq_dvd_iff_nat [of "t + a" "t + b" c] by simp
  with le show ?case by (auto dest: dvd_imp_le)
next
  case (sym a b)
  then show ?case by simp
qed

text \<open>Writing the slot after the last element extends the list by that element.\<close>

lemma ring_list_push [ring_simps]:
  assumes "n < length xs"
  shows "ring_list (xs[(t + n) mod length xs := d]) t (Suc n) = ring_list xs t n @ [d]"
proof -
  have "(t + n) mod length xs \<noteq> (t + k) mod length xs" if "k < n" for k
    using ring_index_inj [of k "length xs" n t] that assms by auto
  moreover from assms have "(t + n) mod length xs < length xs"
    by (intro mod_less_divisor) linarith
  ultimately show ?thesis by (simp add: ring_list_def)
qed

text \<open>Dropping the slot at the tail drops the first element.\<close>

lemma ring_list_pop [ring_simps]:
  "ring_list xs (Suc t mod length xs) n = tl (ring_list xs t (Suc n))"
  by (simp add: ring_list_Cons)

lemma ring_list_hd [ring_simps]:
  "0 < n \<Longrightarrow> hd (ring_list xs t n) = xs ! (t mod length xs)"
  by (cases n) (simp_all add: ring_list_Cons)

lemma ring_list_mod [simp, ring_simps]: "ring_list xs (t mod length xs) n = ring_list xs t n"
  by (simp add: ring_list_def mod_simps)

lemma ring_list_nth [ring_simps]: "k < n \<Longrightarrow> ring_list xs t n ! k = xs ! ((t + k) mod length xs)"
  by (simp add: ring_list_def)

section \<open>Arrays with C indices\<close>

text \<open>Reading and writing an element; outside the array \<open>None\<close>.\<close>

definition arr_get :: "'a list \<Rightarrow> int \<Rightarrow> 'a option" where
  "arr_get xs i = (if 0 \<le> i \<and> i < int (length xs) then Some (xs ! nat i) else None)"

definition arr_upd :: "'a list \<Rightarrow> int \<Rightarrow> ('a \<Rightarrow> 'a) \<Rightarrow> 'a list option" where
  "arr_upd xs i f = (if 0 \<le> i \<and> i < int (length xs) then Some (xs[nat i := f (xs ! nat i)]) else None)"

named_theorems arr_simps \<open>access to arrays inside their bounds\<close>

lemma arr_get_int [simp, arr_simps]: "p < length xs \<Longrightarrow> arr_get xs (int p) = Some (xs ! p)"
  by (simp add: arr_get_def)

lemma arr_upd_int [simp, arr_simps]: "p < length xs \<Longrightarrow> arr_upd xs (int p) f = Some (xs[p := f (xs ! p)])"
  by (simp add: arr_upd_def)

end
