(* ===== verification/SkipList.thy ===== *)
theory SkipList
  imports Prelude Complex_Main "HOL-Library.Monad_Syntax"
begin

text \<open>
  The skip list \<open>SkipList<std::string>\<close> of \<open>bis/src/server/skiplist.h\<close>: nodes live in an
  explicit heap, a pointer is a \<open>nat option\<close> (\<open>NULL\<close> is \<open>None\<close>) and every operation runs
  in the option monad, where \<open>None\<close> stands for a \<open>NULL\<close> or dangling dereference, a vector
  access out of range, a failed \<open>assert\<close> or a loop that does not end. A result \<open>Some\<close>
  therefore carries memory safety and termination.

  Scores are reals: the code only compares them, and finite doubles are ordered as the
  reals they denote. Spans and the \<open>int\<close> array \<open>ranks\<close> are 32-bit, lengths and ranks
  64-bit words, so every \<open>+\<close> and \<open>-\<close> wraps as the code's does. The allocator hands out
  increasing addresses and never reuses one, so a use after free is always a \<open>None\<close>.
\<close>

section \<open>Data\<close>

definition MAXLEVEL :: nat where
  "MAXLEVEL = 32"

text \<open>
  \<open>rand() < SKIPLIST_P * RAND_MAX\<close> compares in single precision: \<open>RAND_MAX\<close> (\<open>2^31 - 1\<close>)
  rounds to \<open>2^31\<close>, the bound is \<open>2^29\<close>, and the drawn \<open>int\<close> rounds to \<open>2^29\<close> from
  \<open>2^29 - 16\<close> on (spacing 32 below \<open>2^29\<close>, ties to even).
\<close>

definition below_SKIPLIST_P :: "int \<Rightarrow> bool" where
  "below_SKIPLIST_P r \<longleftrightarrow> r < 2 ^ 29 - 16"

text \<open>\<open>rnd k\<close> is what the \<open>k\<close>-th call of \<open>rand\<close> in the loop returns.\<close>

function skRandomLevel_loop :: "(nat \<Rightarrow> int) \<Rightarrow> nat \<Rightarrow> nat" where
  "skRandomLevel_loop rnd lvl =
     (if below_SKIPLIST_P (rnd (lvl - 1)) \<and> lvl < MAXLEVEL
      then skRandomLevel_loop rnd (lvl + 1) else lvl)"
  by auto
termination
  by (relation "measure (\<lambda>(_, lvl). MAXLEVEL - lvl)") auto

declare skRandomLevel_loop.simps [simp del]

definition skRandomLevel :: "(nat \<Rightarrow> int) \<Rightarrow> nat" where
  "skRandomLevel rnd = skRandomLevel_loop rnd 1"

record range =
  r_min :: "64 word"
  r_max :: "64 word"

record sl_data =
  d_val :: string
  d_lru :: "32 word"

record sl_level =
  lv_forward :: "nat option"
  lv_span :: "32 word"

record sl_node =
  n_data :: sl_data
  n_score :: real
  n_backward :: "nat option"
  n_level :: "sl_level list"

type_synonym sl_heap = "nat \<Rightarrow> sl_node option"

record skiplist =
  sl_heap :: sl_heap
  sl_brk :: nat
  sl_head :: nat
  sl_tail :: "nat option"
  sl_lenth :: "64 word"
  sl_lvl :: nat

definition val_cmp :: "string \<Rightarrow> string \<Rightarrow> bool" where
  "val_cmp a b \<longleftrightarrow> a = b"

definition new_node :: "nat \<Rightarrow> real \<Rightarrow> string \<Rightarrow> sl_node" where
  "new_node lvl score val =
     \<lparr>n_data = \<lparr>d_val = val, d_lru = 0\<rparr>, n_score = score, n_backward = None,
      n_level = replicate lvl \<lparr>lv_forward = None, lv_span = 0\<rparr>\<rparr>"

section \<open>Heap access\<close>

definition sl_lev :: "sl_heap \<Rightarrow> nat \<Rightarrow> nat \<Rightarrow> sl_level option" where
  "sl_lev h a i = do {
     n \<leftarrow> h a;
     if i < length (n_level n) then Some (n_level n ! i) else None
   }"

definition sl_upd :: "nat \<Rightarrow> nat \<Rightarrow> (sl_level \<Rightarrow> sl_level) \<Rightarrow> sl_heap \<Rightarrow> sl_heap option" where
  "sl_upd a i f h = do {
     n \<leftarrow> h a;
     if i < length (n_level n)
     then Some (h(a \<mapsto> n\<lparr>n_level := (n_level n)[i := f (n_level n ! i)]\<rparr>)) else None
   }"

definition sl_set_backward :: "nat \<Rightarrow> nat option \<Rightarrow> sl_heap \<Rightarrow> sl_heap option" where
  "sl_set_backward a p h = do { n \<leftarrow> h a; Some (h(a \<mapsto> n\<lparr>n_backward := p\<rparr>)) }"

definition sl_MakeNode :: "nat \<Rightarrow> real \<Rightarrow> string \<Rightarrow> skiplist \<Rightarrow> nat \<times> skiplist" where
  "sl_MakeNode lvl score val s =
     (sl_brk s,
      s\<lparr>sl_heap := (sl_heap s)(sl_brk s \<mapsto> new_node lvl score val), sl_brk := sl_brk s + 1\<rparr>)"

definition sl_FreeNode :: "nat \<Rightarrow> skiplist \<Rightarrow> skiplist" where
  "sl_FreeNode a s = s\<lparr>sl_heap := (sl_heap s)(a := None)\<rparr>"

text \<open>\<open>InitHead\<close>: the fresh node already has every pointer \<open>NULL\<close> and every span 0.\<close>

definition sl_InitHead :: "skiplist \<Rightarrow> skiplist" where
  "sl_InitHead s = (let (a, s) = sl_MakeNode MAXLEVEL (-1) '''' s in s\<lparr>sl_head := a\<rparr>)"

definition sl_new :: skiplist where
  "sl_new = sl_InitHead
     \<lparr>sl_heap = (\<lambda>_. None), sl_brk = 0, sl_head = 0, sl_tail = None, sl_lenth = 0, sl_lvl = 1\<rparr>"

section \<open>The search loops\<close>

text \<open>
  The inner loop every operation shares: on level \<open>i\<close>, while the next node exists and the
  test holds, add the span to the running rank and step forward. The test sees the next
  node and the rank it would reach.
\<close>

partial_function (option) sl_advance ::
  "sl_heap \<Rightarrow> (sl_node \<Rightarrow> 'r::len word \<Rightarrow> bool) \<Rightarrow> nat \<Rightarrow> nat \<Rightarrow> 'r word \<Rightarrow> (nat \<times> 'r word) option" where
  "sl_advance h P i x r = do {
     l \<leftarrow> sl_lev h x i;
     (case lv_forward l of
        None \<Rightarrow> Some (x, r)
      | Some y \<Rightarrow> do {
          n \<leftarrow> h y;
          if P n (r + ucast (lv_span l)) then sl_advance h P i y (r + ucast (lv_span l)) else Some (x, r)
        })
   }"

declare sl_advance.simps [code]

text \<open>
  The outer loop over \<open>i = level - 1 .. 0\<close>. It returns where it stopped and what the arrays
  \<open>update\<close> and \<open>ranks\<close> hold, entry \<open>i\<close> at index \<open>i\<close>.
\<close>

primrec sl_descend ::
  "sl_heap \<Rightarrow> (sl_node \<Rightarrow> 'r::len word \<Rightarrow> bool) \<Rightarrow> nat \<Rightarrow> nat \<Rightarrow> 'r word
     \<Rightarrow> ((nat \<times> 'r word) \<times> (nat \<times> 'r word) list) option" where
  "sl_descend h P 0 x r = Some ((x, r), [])"
| "sl_descend h P (Suc i) x r = do {
     (x, r) \<leftarrow> sl_advance h P i x r;
     (end, us) \<leftarrow> sl_descend h P i x r;
     Some (end, us @ [(x, r)])
   }"

definition sl_find :: "(sl_node \<Rightarrow> 'r::len word \<Rightarrow> bool) \<Rightarrow> skiplist
     \<Rightarrow> ((nat \<times> 'r word) \<times> (nat \<times> 'r word) list) option" where
  "sl_find P s = sl_descend (sl_heap s) P (sl_lvl s) (sl_head s) 0"

text \<open>The test of \<open>Insert\<close> and \<open>Delete\<close>.\<close>

definition before_member :: "real \<Rightarrow> string \<Rightarrow> sl_node \<Rightarrow> 32 word \<Rightarrow> bool" where
  "before_member score val n r \<longleftrightarrow>
     n_score n < score \<or> (n_score n = score \<and> \<not> val_cmp (d_val (n_data n)) val)"

definition sl_Search :: "real \<Rightarrow> skiplist \<Rightarrow> string option" where
  "sl_Search score s = do {
     ((x, _), _) \<leftarrow> sl_find (\<lambda>n (_ :: 32 word). n_score n < score) s;
     l \<leftarrow> sl_lev (sl_heap s) x 0;
     (case lv_forward l of
        None \<Rightarrow> Some ''''
      | Some y \<Rightarrow> do {
          n \<leftarrow> sl_heap s y;
          Some (if n_score n = score then d_val (n_data n) else '''')
        })
   }"

text \<open>\<open>GetRank\<close> looks at every node it steps on and returns when the member is found.\<close>

partial_function (option) sl_rank_advance ::
  "sl_heap \<Rightarrow> real \<Rightarrow> string \<Rightarrow> nat \<Rightarrow> nat \<Rightarrow> 64 word \<Rightarrow> (64 word + nat \<times> 64 word) option" where
  "sl_rank_advance h score val i x rank = do {
     l \<leftarrow> sl_lev h x i;
     (case lv_forward l of
        None \<Rightarrow> Some (Inr (x, rank))
      | Some y \<Rightarrow> do {
          n \<leftarrow> h y;
          if n_score n < score \<or> n_score n = score then
            (if val_cmp (d_val (n_data n)) val then Some (Inl (rank + ucast (lv_span l)))
             else sl_rank_advance h score val i y (rank + ucast (lv_span l)))
          else Some (Inr (x, rank))
        })
   }"

declare sl_rank_advance.simps [code]

primrec sl_rank_descend ::
  "sl_heap \<Rightarrow> real \<Rightarrow> string \<Rightarrow> nat \<Rightarrow> nat \<Rightarrow> 64 word \<Rightarrow> 64 word option" where
  "sl_rank_descend h score val 0 x rank = Some 0"
| "sl_rank_descend h score val (Suc i) x rank = do {
     res \<leftarrow> sl_rank_advance h score val i x rank;
     (case res of
        Inl found \<Rightarrow> Some found
      | Inr (x, rank) \<Rightarrow> sl_rank_descend h score val i x rank)
   }"

definition sl_GetRank :: "real \<Rightarrow> string \<Rightarrow> skiplist \<Rightarrow> 64 word option" where
  "sl_GetRank score val s = sl_rank_descend (sl_heap s) score val (sl_lvl s) (sl_head s) 0"

section \<open>Iterators and range lookups\<close>

record sl_itr =
  it_pos :: "nat option"
  it_end :: "nat option"

definition sl_deref :: "skiplist \<Rightarrow> sl_itr \<Rightarrow> sl_node option" where
  "sl_deref s it = do { a \<leftarrow> it_pos it; sl_heap s a }"

definition sl_itr_next :: "skiplist \<Rightarrow> sl_itr \<Rightarrow> sl_itr option" where
  "sl_itr_next s it =
     (if it_pos it = it_end it then None
      else do { a \<leftarrow> it_pos it; l \<leftarrow> sl_lev (sl_heap s) a 0; Some (it\<lparr>it_pos := lv_forward l\<rparr>) })"

definition sl_itr_prev :: "skiplist \<Rightarrow> sl_itr \<Rightarrow> sl_itr option" where
  "sl_itr_prev s it =
     (if it_pos it = it_end it then None
      else do { n \<leftarrow> sl_deref s it; Some (it\<lparr>it_pos := n_backward n\<rparr>) })"

definition sl_itr_eq :: "sl_itr \<Rightarrow> sl_itr \<Rightarrow> bool" where
  "sl_itr_eq a b \<longleftrightarrow> it_pos a = it_pos b"

text \<open>\<open>iterator(x, tail_->level[0].forward)\<close>: the tail is dereferenced.\<close>

definition sl_iterator :: "nat option \<Rightarrow> skiplist \<Rightarrow> sl_itr option" where
  "sl_iterator x s = do {
     t \<leftarrow> sl_tail s;
     l \<leftarrow> sl_lev (sl_heap s) t 0;
     Some \<lparr>it_pos = x, it_end = lv_forward l\<rparr>
   }"

definition sl_end :: "skiplist \<Rightarrow> sl_itr option" where
  "sl_end s = do {
     t \<leftarrow> sl_tail s;
     l \<leftarrow> sl_lev (sl_heap s) t 0;
     sl_iterator (lv_forward l) s
   }"

definition sl_being :: "skiplist \<Rightarrow> sl_itr option" where
  "sl_being s = do { l \<leftarrow> sl_lev (sl_heap s) (sl_head s) 0; sl_iterator (lv_forward l) s }"

definition sl_FirstInRangeByIdx :: "range \<Rightarrow> skiplist \<Rightarrow> sl_itr option" where
  "sl_FirstInRangeByIdx rng s =
     (if r_max rng < r_min rng then sl_end s
      else if r_min rng > sl_lenth s then sl_end s
      else do {
        ((x, traversed), _) \<leftarrow> sl_find (\<lambda>n (t :: 64 word). t < r_min rng) s;
        l \<leftarrow> sl_lev (sl_heap s) x 0;
        if lv_forward l = None \<or> traversed + 1 > r_max rng then sl_end s
        else sl_iterator (lv_forward l) s
      })"

definition sl_FirstInRangeByScore :: "real \<Rightarrow> real \<Rightarrow> skiplist \<Rightarrow> sl_itr option" where
  "sl_FirstInRangeByScore mn mx s = do {
     let (lo, hi) = (if mn > mx then (mx, mn) else (mn, mx));
     t \<leftarrow> sl_tail s;
     tn \<leftarrow> sl_heap s t;
     if lo > n_score tn then sl_end s
     else do {
       ((x, _), _) \<leftarrow> sl_find (\<lambda>n (_ :: 32 word). n_score n < lo) s;
       l \<leftarrow> sl_lev (sl_heap s) x 0;
       y \<leftarrow> lv_forward l;
       n \<leftarrow> sl_heap s y;
       if n_score n > hi then sl_end s else sl_iterator (Some y) s
     }
   }"

definition sl_LastInRangeByScore :: "real \<Rightarrow> real \<Rightarrow> skiplist \<Rightarrow> sl_itr option" where
  "sl_LastInRangeByScore mn mx s = do {
     let (lo, hi) = (if mn > mx then (mx, mn) else (mn, mx));
     t \<leftarrow> sl_tail s;
     tn \<leftarrow> sl_heap s t;
     if lo > n_score tn then sl_end s
     else if hi \<ge> n_score tn then sl_iterator (Some t) s
     else do {
       ((x, _), _) \<leftarrow> sl_find (\<lambda>n (_ :: 32 word). n_score n \<le> hi) s;
       n \<leftarrow> sl_heap s x;
       if n_score n < lo then sl_end s else sl_iterator (Some x) s
     }
   }"

section \<open>Insertion\<close>

text \<open>One round of the loop that links the new node \<open>x\<close> behind \<open>update[i]\<close>.\<close>

definition sl_link :: "(nat \<times> 32 word) list \<Rightarrow> nat \<Rightarrow> nat \<Rightarrow> sl_heap \<Rightarrow> sl_heap option" where
  "sl_link us x i h = do {
     let (u, rank) = us ! i;
     let rank0 = snd (us ! 0);
     l \<leftarrow> sl_lev h u i;
     h \<leftarrow> sl_upd x i (\<lambda>k. k\<lparr>lv_forward := lv_forward l\<rparr>) h;
     h \<leftarrow> sl_upd u i (\<lambda>k. k\<lparr>lv_forward := Some x\<rparr>) h;
     l \<leftarrow> sl_lev h u i;
     h \<leftarrow> sl_upd x i (\<lambda>k. k\<lparr>lv_span := lv_span l - (rank0 - rank)\<rparr>) h;
     sl_upd u i (\<lambda>k. k\<lparr>lv_span := (rank0 - rank) + 1\<rparr>) h
   }"

definition sl_Insert :: "(nat \<Rightarrow> int) \<Rightarrow> real \<Rightarrow> string \<Rightarrow> skiplist \<Rightarrow> skiplist option" where
  "sl_Insert rnd score val s = do {
     (_, us) \<leftarrow> sl_find (before_member score val) s;
     let lvl = skRandomLevel rnd;
     (h, us, level) \<leftarrow>
       (if lvl > sl_lvl s then do {
          h \<leftarrow> for_option [sl_lvl s..<lvl]
                 (\<lambda>i. sl_upd (sl_head s) i (\<lambda>k. k\<lparr>lv_span := ucast (sl_lenth s)\<rparr>)) (sl_heap s);
          Some (h, us @ map (\<lambda>_. (sl_head s, 0)) [sl_lvl s..<lvl], lvl)
        } else Some (sl_heap s, us, sl_lvl s));
     let (x, s) = sl_MakeNode lvl score val (s\<lparr>sl_heap := h, sl_lvl := level\<rparr>);
     h \<leftarrow> for_option [0..<lvl] (sl_link us x) (sl_heap s);
     h \<leftarrow> for_option [lvl..<level] (\<lambda>i. sl_upd (fst (us ! i)) i (\<lambda>k. k\<lparr>lv_span := lv_span k + 1\<rparr>)) h;
     h \<leftarrow> sl_set_backward x (if fst (us ! 0) = sl_head s then None else Some (fst (us ! 0))) h;
     l \<leftarrow> sl_lev h x 0;
     (h, tail) \<leftarrow>
       (case lv_forward l of
          Some y \<Rightarrow> do { h \<leftarrow> sl_set_backward y (Some x) h; Some (h, sl_tail s) }
        | None \<Rightarrow> Some (h, Some x));
     Some (s\<lparr>sl_heap := h, sl_tail := tail, sl_lenth := sl_lenth s + 1\<rparr>)
   }"

section \<open>Deletion\<close>

definition sl_unlink :: "(nat \<times> 32 word) list \<Rightarrow> nat \<Rightarrow> nat \<Rightarrow> sl_heap \<Rightarrow> sl_heap option" where
  "sl_unlink us x i h = do {
     let u = fst (us ! i);
     l \<leftarrow> sl_lev h u i;
     if lv_forward l = Some x then do {
       xl \<leftarrow> sl_lev h x i;
       h \<leftarrow> sl_upd u i (\<lambda>k. k\<lparr>lv_span := lv_span k + (lv_span xl - 1)\<rparr>) h;
       sl_upd u i (\<lambda>k. k\<lparr>lv_forward := lv_forward xl\<rparr>) h
     } else sl_upd u i (\<lambda>k. k\<lparr>lv_span := lv_span k - 1\<rparr>) h
   }"

text \<open>\<open>while (level_ > 1 && NULL == head_->level[level_-1].forward) --level_\<close>\<close>

fun sl_shrink :: "sl_heap \<Rightarrow> nat \<Rightarrow> nat \<Rightarrow> nat option" where
  "sl_shrink h head (Suc (Suc m)) = do {
     l \<leftarrow> sl_lev h head (Suc m);
     if lv_forward l = None then sl_shrink h head (Suc m) else Some (Suc (Suc m))
   }"
| "sl_shrink h head m = Some m"

definition sl_DeleteNode :: "nat \<Rightarrow> (nat \<times> 32 word) list \<Rightarrow> skiplist \<Rightarrow> skiplist option" where
  "sl_DeleteNode x us s = do {
     h \<leftarrow> for_option [0..<sl_lvl s] (sl_unlink us x) (sl_heap s);
     n \<leftarrow> h x;
     l \<leftarrow> sl_lev h x 0;
     (h, tail) \<leftarrow>
       (case lv_forward l of
          Some y \<Rightarrow> do { h \<leftarrow> sl_set_backward y (n_backward n) h; Some (h, sl_tail s) }
        | None \<Rightarrow> Some (h, n_backward n));
     level \<leftarrow> sl_shrink h (sl_head s) (sl_lvl s);
     Some (s\<lparr>sl_heap := h, sl_tail := tail, sl_lvl := level, sl_lenth := sl_lenth s + 1\<rparr>)
   }"

definition sl_Delete :: "real \<Rightarrow> string \<Rightarrow> skiplist \<Rightarrow> (int \<times> skiplist) option" where
  "sl_Delete score val s = do {
     ((x, _), us) \<leftarrow> sl_find (before_member score val) s;
     l \<leftarrow> sl_lev (sl_heap s) x 0;
     (case lv_forward l of
        None \<Rightarrow> Some (-1, s)
      | Some y \<Rightarrow> do {
          n \<leftarrow> sl_heap s y;
          if score = n_score n \<and> val_cmp (d_val (n_data n)) val then do {
            s \<leftarrow> sl_DeleteNode y us s;
            Some (0, sl_FreeNode y s)
          } else Some (-1, s)
        })
   }"

definition sl_Lenth :: "skiplist \<Rightarrow> 32 word" where
  "sl_Lenth s = ucast (sl_lenth s)"

end
