(* ===== verification/SkipListRep.thy ===== *)
theory SkipListRep
  imports SkipList
begin

text \<open>
  The abstract view of a skip list: the list of its cells in level-0 order, each with its
  address, height, score and member. \<open>sl_rep s cs\<close> says that the heap of \<open>s\<close> is the skip
  list over \<open>cs\<close>: on every level of every node the forward pointer is the next cell that
  is high enough, backward pointers and tail are right, and every span of a
  pointer that is not \<open>NULL\<close> is the distance to its target (the spans of \<open>NULL\<close> pointers are
  never read, and the code lets them go wrong). The search lemma at the end describes every search loop
  of the code whose test is true exactly on a prefix.
\<close>

section \<open>Cells and the representation predicate\<close>

record cell =
  c_adr :: nat
  c_hgt :: nat
  c_score :: real
  c_val :: string

text \<open>Where the pointer on level \<open>i\<close> leads past the cells \<open>cs\<close>, and how far that is.\<close>

fun fwd :: "nat \<Rightarrow> cell list \<Rightarrow> nat option \<times> nat" where
  "fwd i [] = (None, 0)"
| "fwd i (c # cs) = (if i < c_hgt c then (Some (c_adr c), 1) else (fst (fwd i cs), Suc (snd (fwd i cs))))"

definition bwd :: "cell list \<Rightarrow> nat option" where
  "bwd ps = (if length ps \<le> 1 then None else Some (c_adr (last ps)))"

definition cell_ok :: "sl_heap \<Rightarrow> cell \<Rightarrow> nat option \<Rightarrow> cell list \<Rightarrow> bool" where
  "cell_ok h c bk cs = (case h (c_adr c) of None \<Rightarrow> False | Some n \<Rightarrow>
     d_val (n_data n) = c_val c \<and> n_score n = c_score c \<and> n_backward n = bk
     \<and> length (n_level n) = c_hgt c
     \<and> (\<forall>i < c_hgt c. lv_forward (n_level n ! i) = fst (fwd i cs)
          \<and> (fst (fwd i cs) \<noteq> None \<longrightarrow> lv_span (n_level n ! i) = of_nat (snd (fwd i cs)))))"

definition chain :: "sl_heap \<Rightarrow> cell list \<Rightarrow> bool" where
  "chain h fs \<longleftrightarrow> (\<forall>ps c qs. fs = ps @ c # qs \<longrightarrow> cell_ok h c (bwd ps) qs)"

definition head_cell :: "skiplist \<Rightarrow> cell" where
  "head_cell s = \<lparr>c_adr = sl_head s, c_hgt = MAXLEVEL, c_score = -1, c_val = ''''\<rparr>"

definition sl_rep :: "skiplist \<Rightarrow> cell list \<Rightarrow> bool" where
  "sl_rep s cs \<longleftrightarrow>
     chain (sl_heap s) (head_cell s # cs)
     \<and> distinct (map c_adr (head_cell s # cs))
     \<and> (\<forall>a \<ge> sl_brk s. sl_heap s a = None)
     \<and> (\<forall>c \<in> set cs. 1 \<le> c_hgt c \<and> c_hgt c \<le> sl_lvl s)
     \<and> 1 \<le> sl_lvl s \<and> sl_lvl s \<le> MAXLEVEL
     \<and> sl_tail s = (if cs = [] then None else Some (c_adr (last cs)))"

section \<open>The next cell on a level\<close>

definition low :: "nat \<Rightarrow> cell list \<Rightarrow> bool" where
  "low i cs \<longleftrightarrow> (\<forall>c \<in> set cs. c_hgt c \<le> i)"

lemma low_simps [simp]: "low i []" "low i (c # cs) \<longleftrightarrow> c_hgt c \<le> i \<and> low i cs"
  "low i (as @ bs) \<longleftrightarrow> low i as \<and> low i bs"
  by (auto simp: low_def)

lemma not_lowE:
  assumes "\<not> low i cs"
  obtains as c bs where "cs = as @ c # bs" "low i as" "i < c_hgt c"
  using split_list_first_prop [of cs "\<lambda>c. i < c_hgt c"] assms by (auto simp: low_def not_le not_less)

lemma fwd_low: "low i as \<Longrightarrow> fwd i (as @ cs) = (fst (fwd i cs), length as + snd (fwd i cs))"
  by (induction as) auto

lemma fwd_high: "\<not> low i as \<Longrightarrow> fwd i (as @ cs) = fwd i as"
  by (induction as) auto

lemma fwd_hit: "low i as \<Longrightarrow> i < c_hgt c \<Longrightarrow> fwd i (as @ c # cs) = (Some (c_adr c), Suc (length as))"
  by (simp add: fwd_low)

lemma fwd_None: "fst (fwd i cs) = None \<longleftrightarrow> low i cs"
  by (induction cs) auto

lemma fwd_SomeE:
  assumes "fst (fwd i cs) = Some y"
  obtains as c bs where "cs = as @ c # bs" "low i as" "i < c_hgt c" "c_adr c = y"
    "snd (fwd i cs) = Suc (length as)"
proof -
  from assms have "\<not> low i cs" using fwd_None [of i cs] by auto
  then obtain as c bs where c: "cs = as @ c # bs" "low i as" "i < c_hgt c" by (rule not_lowE)
  with assms that show ?thesis by (simp add: fwd_hit)
qed

lemma snd_fwd_None: "fst (fwd i cs) = None \<Longrightarrow> snd (fwd i cs) = length cs"
  by (induction cs) (auto split: if_splits)

lemma snd_fwd_le: "snd (fwd i cs) \<le> length cs"
  by (induction cs) auto

text \<open>The cells of \<open>us\<close> up to the last one that reaches level \<open>i\<close>.\<close>

definition kept :: "nat \<Rightarrow> cell list \<Rightarrow> cell list" where
  "kept i us = rev (dropWhile (\<lambda>c. c_hgt c \<le> i) (rev us))"

lemma kept_low: "low i rest \<Longrightarrow> kept i (ps @ rest) = kept i ps"
  by (auto simp: kept_def low_def dropWhile_append1 dropWhile_append)

lemma kept_id: "ps \<noteq> [] \<Longrightarrow> i < c_hgt (last ps) \<Longrightarrow> kept i ps = ps"
  by (cases ps rule: rev_cases) (auto simp: kept_def)

lemma kept_split: "\<exists>rest. us = kept i us @ rest \<and> low i rest"
proof -
  let ?P = "\<lambda>c. c_hgt c \<le> i"
  have "us = kept i us @ rev (takeWhile ?P (rev us))"
    by (metis kept_def rev_append rev_rev_ident takeWhile_dropWhile_id)
  moreover have "low i (rev (takeWhile ?P (rev us)))"
    by (auto simp: low_def dest: set_takeWhileD)
  ultimately show ?thesis by blast
qed

lemma kept_high: "kept i us \<noteq> [] \<Longrightarrow> i < c_hgt (last (kept i us))"
proof -
  assume "kept i us \<noteq> []"
  then have "\<not> c_hgt (hd (dropWhile (\<lambda>c. c_hgt c \<le> i) (rev us))) \<le> i"
    by (intro hd_dropWhile) (auto simp: kept_def)
  with \<open>kept i us \<noteq> []\<close> show ?thesis by (simp add: kept_def last_rev)
qed

lemma kept_Cons_ne: "i < c_hgt c \<Longrightarrow> kept i (c # us) \<noteq> []"
  by (auto simp: kept_def dropWhile_append)

section \<open>Reading the chain\<close>

lemma chainD: "chain h (ps @ c # qs) \<Longrightarrow> cell_ok h c (bwd ps) qs"
  by (auto simp: chain_def)

lemma cell_okE:
  assumes "cell_ok h c bk cs"
  obtains n where "h (c_adr c) = Some n" "d_val (n_data n) = c_val c" "n_score n = c_score c"
    "n_backward n = bk" "length (n_level n) = c_hgt c"
    "\<And>i. i < c_hgt c \<Longrightarrow> lv_forward (n_level n ! i) = fst (fwd i cs)"
    "\<And>i. i < c_hgt c \<Longrightarrow> fst (fwd i cs) \<noteq> None \<Longrightarrow> lv_span (n_level n ! i) = of_nat (snd (fwd i cs))"
  using assms by (auto simp: cell_ok_def split: option.splits)

lemma chain_level:
  assumes "chain h (ps @ c # qs)" "i < c_hgt c"
  obtains l where "sl_lev h (c_adr c) i = Some l" "lv_forward l = fst (fwd i qs)"
    "fst (fwd i qs) \<noteq> None \<Longrightarrow> lv_span l = of_nat (snd (fwd i qs))"
  using chainD [OF assms(1)] assms(2) by (elim cell_okE) (auto simp: sl_lev_def)

section \<open>The search\<close>

text \<open>
  The test \<open>P\<close> of a search is true exactly on the cells before position \<open>k\<close>; it may look
  at the node and at its rank.
\<close>

definition tests_prefix ::
  "sl_heap \<Rightarrow> (sl_node \<Rightarrow> 'r::len word \<Rightarrow> bool) \<Rightarrow> cell list \<Rightarrow> nat \<Rightarrow> bool" where
  "tests_prefix h P fs k \<longleftrightarrow> (\<forall>ps c qs n r. fs = ps @ c # qs \<and> ps \<noteq> [] \<and> h (c_adr c) = Some n
     \<and> r = of_nat (length ps) \<longrightarrow> (P n r \<longleftrightarrow> length ps < k))"

lemma ucast_exact:
  "LENGTH('r) \<le> 32 \<or> d < 2 ^ 32 \<Longrightarrow> ucast (of_nat d :: 32 word) = (of_nat d :: 'r::len word)"
  by (cases "LENGTH('r) \<le> 32")
    (auto simp: unsigned_of_nat take_bit_nat_eq_self word_of_nat_eq_iff)

lemma advance:
  fixes P :: "sl_node \<Rightarrow> 'r::len word \<Rightarrow> bool"
  assumes ch: "chain h (us @ vs)" and P: "tests_prefix h P (us @ vs) (length us)"
    and small: "LENGTH('r) \<le> 32 \<or> length (us @ vs) < 2 ^ 32"
    and "us = ps @ rest" "ps \<noteq> []" "i < c_hgt (last ps)" "r = of_nat (length ps - 1)"
  shows "sl_advance h P i (c_adr (last ps)) r
    = Some (c_adr (last (kept i us)), of_nat (length (kept i us) - 1))"
  using assms(4-7)
proof (induction "length rest" arbitrary: ps rest r rule: less_induct)
  case less
  have fs: "us @ vs = butlast ps @ last ps # rest @ vs"
    using less.prems(1,2) by (metis append.assoc append_Cons append_Nil append_butlast_last_id)
  obtain l where l: "sl_lev h (c_adr (last ps)) i = Some l" "lv_forward l = fst (fwd i (rest @ vs))"
      "fst (fwd i (rest @ vs)) \<noteq> None \<Longrightarrow> lv_span l = of_nat (snd (fwd i (rest @ vs)))"
    using chain_level [OF ch [unfolded fs] less.prems(3)] by metis
  have stop: "kept i us = ps" if "low i rest"
    using that less.prems by (simp add: kept_low kept_id)
  show ?case
  proof (cases "lv_forward l")
    case None
    with l(2) have "low i rest" using fwd_None [of i "rest @ vs"] by simp
    with None l stop less.prems(4) show ?thesis by (simp add: sl_advance.simps)
  next
    case (Some y)
    with l(2) obtain as c bs where c: "rest @ vs = as @ c # bs" "low i as" "i < c_hgt c" "c_adr c = y"
        "snd (fwd i (rest @ vs)) = Suc (length as)" by (metis fwd_SomeE)
    have fs': "us @ vs = (ps @ as) @ c # bs" using less.prems(1) c(1) by simp
    obtain n where n: "h y = Some n"
      using chainD [OF ch [unfolded fs']] c by (auto elim: cell_okE)
    define r1 where "r1 = r + ucast (lv_span l)"
    have step: "sl_advance h P i (c_adr (last ps)) r
        = (if P n r1 then sl_advance h P i y r1 else Some (c_adr (last ps), r))"
      by (subst sl_advance.simps) (simp add: l(1) Some n r1_def)
    have r1: "r1 = of_nat (length (ps @ as))"
    proof -
      have "LENGTH('r) \<le> 32 \<or> Suc (length as) < 2 ^ 32"
        using small fs' less.prems(2) by (cases ps) auto
      then have "ucast (of_nat (Suc (length as)) :: 32 word) = (of_nat (Suc (length as)) :: 'r word)"
        by (rule ucast_exact)
      moreover have "lv_span l = of_nat (Suc (length as))" using l(2,3) Some c(5) by force
      ultimately show ?thesis using less.prems(2,4) by (cases ps) (auto simp: r1_def)
    qed
    have test: "P n r1 \<longleftrightarrow> length as < length rest"
      using P [unfolded tests_prefix_def, rule_format, of "ps @ as" c bs n r1] fs' less.prems(1,2) n c r1
      by auto
    show ?thesis
    proof (cases "length as < length rest")
      case True
      have "rest = take (length rest) (as @ c # bs)" using c(1) by (metis append_eq_conv_conj)
      with True obtain rest' where rest: "rest = as @ c # rest'"
        by (cases "length rest - length as") auto
      have "sl_advance h P i (c_adr (last (ps @ as @ [c]))) r1
          = Some (c_adr (last (kept i us)), of_nat (length (kept i us) - 1))"
        by (rule less.hyps [of rest']) (use rest less.prems c r1 in auto)
      with True test c(4) show ?thesis by (simp add: step)
    next
      case False
      moreover have "rest = take (length rest) (as @ c # bs)" using c(1) by (metis append_eq_conv_conj)
      ultimately have "rest = take (length rest) as" by simp
      with c(2) have "low i rest" unfolding low_def by (metis in_set_takeD)
      with stop have "kept i us = ps" by simp
      moreover have "sl_advance h P i (c_adr (last ps)) r = Some (c_adr (last ps), r)"
        using step False test by simp
      ultimately show ?thesis using less.prems(4) by simp
    qed
  qed
qed

lemma descend:
  fixes P :: "sl_node \<Rightarrow> 'r::len word \<Rightarrow> bool"
  assumes ch: "chain h (us @ vs)" and P: "tests_prefix h P (us @ vs) (length us)"
    and small: "LENGTH('r) \<le> 32 \<or> length (us @ vs) < 2 ^ 32"
  shows "us = ps @ rest \<Longrightarrow> ps \<noteq> [] \<Longrightarrow> m \<le> c_hgt (last ps) \<Longrightarrow> r = of_nat (length ps - 1)
    \<Longrightarrow> \<exists>e ups. sl_descend h P m (c_adr (last ps)) r = Some (e, ups) \<and> length ups = m
      \<and> (0 < m \<longrightarrow> e = ups ! 0)
      \<and> (\<forall>i<m. fst (ups ! i) = c_adr (last (kept i us))
           \<and> snd (ups ! i) = of_nat (length (kept i us) - 1))"
proof (induction m arbitrary: ps rest r)
  case (Suc m)
  define r' :: "'r word" where "r' = of_nat (length (kept m us) - 1)"
  have r': "sl_advance h P m (c_adr (last ps)) r = Some (c_adr (last (kept m us)), r')"
    unfolding r'_def using advance [OF ch P small, of ps rest m r] Suc.prems by auto
  obtain rest' where k: "us = kept m us @ rest'" using kept_split by blast
  have ne: "kept m us \<noteq> []"
    using Suc.prems by (metis kept_def Suc_le_lessD append_is_Nil_conv append_Nil2 kept_split
        kept_Cons_ne last_in_set low_def not_less append_Nil rev_is_Nil_conv Un_iff set_append)
  have hi: "m \<le> c_hgt (last (kept m us))" using kept_high [OF ne] by simp
  obtain e ups where IH: "sl_descend h P m (c_adr (last (kept m us))) r' = Some (e, ups)" "length ups = m"
      "0 < m \<longrightarrow> e = ups ! 0" "\<forall>i<m. fst (ups ! i) = c_adr (last (kept i us))
           \<and> snd (ups ! i) = of_nat (length (kept i us) - 1)"
    using Suc.IH [OF k ne hi r'_def] by auto
  have "0 = m \<Longrightarrow> e = (c_adr (last (kept m us)), r')" using IH(1) by auto
  with r' IH r'_def show ?case by (auto simp: nth_append less_Suc_eq)
qed auto

text \<open>
  Every search: if the test is true exactly on a prefix of the cells, then \<open>update[i]\<close> is
  the last cell of the prefix (with the head in front) that reaches level \<open>i\<close>, \<open>ranks[i]\<close>
  its position, and the walk ends in the last cell of the prefix.
\<close>

lemma find_prefix:
  fixes P :: "sl_node \<Rightarrow> 'r::len word \<Rightarrow> bool"
  assumes rep: "sl_rep s (us @ vs)"
    and P: "tests_prefix (sl_heap s) P (head_cell s # us @ vs) (Suc (length us))"
    and small: "LENGTH('r) \<le> 32 \<or> length (us @ vs) < 2 ^ 31"
  obtains ups where "sl_find P s = Some (ups ! 0, ups)" "length ups = sl_lvl s"
    "\<And>i. i < sl_lvl s \<Longrightarrow> fst (ups ! i) = c_adr (last (kept i (head_cell s # us)))"
    "\<And>i. i < sl_lvl s \<Longrightarrow> snd (ups ! i) = of_nat (length (kept i (head_cell s # us)) - 1)"
    "fst (ups ! 0) = c_adr (last (head_cell s # us))" "snd (ups ! 0) = of_nat (length us)"
proof -
  let ?h = "head_cell s"
  have "chain (sl_heap s) ((?h # us) @ vs)" and lv: "1 \<le> sl_lvl s" "sl_lvl s \<le> MAXLEVEL"
    using rep by (auto simp: sl_rep_def)
  have "LENGTH('r) \<le> 32 \<or> length ((?h # us) @ vs) < 2 ^ 32" using small by auto
  from descend [OF \<open>chain (sl_heap s) ((?h # us) @ vs)\<close> _ this, of "P" "[?h]" us "sl_lvl s" 0] P lv(2)
  obtain e ups where u: "sl_find P s = Some (e, ups)" "length ups = sl_lvl s" "e = ups ! 0"
      "\<And>i. i < sl_lvl s \<Longrightarrow> fst (ups ! i) = c_adr (last (kept i (?h # us)))"
      "\<And>i. i < sl_lvl s \<Longrightarrow> snd (ups ! i) = of_nat (length (kept i (?h # us)) - 1)"
    using lv(1) by (auto simp: sl_find_def head_cell_def)
  have "\<forall>c \<in> set us. 1 \<le> c_hgt c" using rep by (auto simp: sl_rep_def)
  then have k: "kept 0 (?h # us) = ?h # us"
    by (intro kept_id) (auto simp: head_cell_def MAXLEVEL_def Suc_le_eq)
  show ?thesis
    by (rule that [of ups]) (use u lv(1) k in auto)
qed

end
