(* ===== verification/SkipListUpdate.thy ===== *)
theory SkipListUpdate
  imports SkipListRep
begin

text \<open>
  \<open>Insert\<close> and \<open>Delete\<close> of the skip list over the representation by cells: every loop that
  rewrites one level per round is described by what it leaves on each level of each node,
  and from that the new list of cells is the old one with one cell put in or taken out.
\<close>

section \<open>What an update leaves\<close>

text \<open>Everything of a node but its levels.\<close>

definition shape :: "sl_heap \<Rightarrow> nat \<Rightarrow> (string \<times> real \<times> nat option \<times> nat) option" where
  "shape h a = map_option (\<lambda>n. (d_val (n_data n), n_score n, n_backward n, length (n_level n))) (h a)"

lemma cell_ok_iff:
  "cell_ok h c bk cs \<longleftrightarrow> shape h (c_adr c) = Some (c_val c, c_score c, bk, c_hgt c)
     \<and> (\<forall>i < c_hgt c. \<exists>l. sl_lev h (c_adr c) i = Some l \<and> lv_forward l = fst (fwd i cs)
          \<and> (fst (fwd i cs) \<noteq> None \<longrightarrow> lv_span l = of_nat (snd (fwd i cs))))"
  by (auto simp: cell_ok_def shape_def sl_lev_def split: option.splits)

text \<open>Both heaps agree outside the levels, and \<open>L\<close> says what the levels of the second are.\<close>

definition levels_to :: "sl_heap \<Rightarrow> sl_heap \<Rightarrow> (nat \<Rightarrow> nat \<Rightarrow> sl_level option) \<Rightarrow> bool" where
  "levels_to h h' L \<longleftrightarrow> shape h' = shape h \<and> (\<forall>a i. sl_lev h' a i = L a i)"

lemma levels_to_refl: "levels_to h h (sl_lev h)"
  by (simp add: levels_to_def)

lemma shape_None: "shape h a = None \<longleftrightarrow> h a = None"
  by (simp add: shape_def)

lemma levels_to_None: "levels_to h h' L \<Longrightarrow> h' a = None \<longleftrightarrow> h a = None"
  by (metis levels_to_def shape_None)

lemma levels_to_trans: "levels_to h h' L \<Longrightarrow> levels_to h' h'' L' \<Longrightarrow> levels_to h h'' L'"
  by (simp add: levels_to_def)

lemma upd_levels:
  assumes "sl_lev h a i = Some l"
  obtains h' where "sl_upd a i f h = Some h'"
    "levels_to h h' (\<lambda>x j. if x = a \<and> j = i then Some (f l) else sl_lev h x j)"
proof -
  from assms obtain n where n: "h a = Some n" "i < length (n_level n)" "l = n_level n ! i"
    by (auto simp: sl_lev_def split: bind_splits if_splits)
  let ?h = "h(a \<mapsto> n\<lparr>n_level := (n_level n)[i := f (n_level n ! i)]\<rparr>)"
  show ?thesis
    by (rule that [of ?h]) (use n in \<open>auto simp: sl_upd_def levels_to_def shape_def sl_lev_def fun_eq_iff\<close>)
qed

lemma set_backward:
  assumes "shape h a = Some (v, s, bk, k)"
  obtains h' where "sl_set_backward a p h = Some h'" "shape h' = (shape h)(a \<mapsto> (v, s, p, k))"
    "\<And>x i. sl_lev h' x i = sl_lev h x i"
proof -
  from assms obtain n where n: "h a = Some n" "d_val (n_data n) = v" "n_score n = s" "length (n_level n) = k"
    by (auto simp: shape_def)
  show ?thesis
    by (rule that [of "h(a \<mapsto> n\<lparr>n_backward := p\<rparr>)"])
      (use n in \<open>auto simp: sl_set_backward_def shape_def sl_lev_def fun_eq_iff\<close>)
qed

text \<open>A loop whose round \<open>i\<close> rewrites level \<open>i\<close> only.\<close>

lemma levels_loop:
  assumes "\<And>i h'. m \<le> i \<Longrightarrow> i < k \<Longrightarrow> shape h' = shape h \<Longrightarrow> (\<And>a. sl_lev h' a i = sl_lev h a i)
    \<Longrightarrow> \<exists>h''. f i h' = Some h'' \<and> levels_to h' h'' (\<lambda>a j. if j = i then L a i else sl_lev h' a j)"
  shows "\<exists>h'. for_option [m..<k] f h = Some h'
    \<and> levels_to h h' (\<lambda>a j. if m \<le> j \<and> j < k then L a j else sl_lev h a j)"
  using assms
proof (induction k)
  case (Suc k)
  show ?case
  proof (cases "m \<le> k")
    case True
    have "\<exists>h1. for_option [m..<k] f h = Some h1
        \<and> levels_to h h1 (\<lambda>a j. if m \<le> j \<and> j < k then L a j else sl_lev h a j)"
      by (rule Suc.IH) (rule Suc.prems, auto)
    then obtain h1 where h1: "for_option [m..<k] f h = Some h1" "shape h1 = shape h"
        "\<And>a j. sl_lev h1 a j = (if m \<le> j \<and> j < k then L a j else sl_lev h a j)"
      by (auto simp: levels_to_def)
    obtain h2 where h2: "f k h1 = Some h2" "shape h2 = shape h1"
        "\<And>a j. sl_lev h2 a j = (if j = k then L a k else sl_lev h1 a j)"
      using Suc.prems [OF True lessI h1(2)] h1(3) by (auto simp: levels_to_def)
    have "for_option [m..<Suc k] f h = Some h2"
      using True h1(1) h2(1) by (simp add: for_option_append)
    moreover have "sl_lev h2 a j = (if m \<le> j \<and> j < Suc k then L a j else sl_lev h a j)" for a j
      using True by (auto simp: h2(3) h1(3) less_Suc_eq)
    ultimately show ?thesis using h1(2) h2(2) by (auto simp: levels_to_def)
  qed (auto simp: levels_to_def)
qed (auto simp: levels_to_def)

section \<open>Raising the level\<close>

lemma sl_rep_low: "sl_rep s cs \<Longrightarrow> sl_lvl s \<le> i \<Longrightarrow> low i cs"
  by (fastforce simp: sl_rep_def low_def)

lemma raise_levels:
  assumes rep: "sl_rep s cs" and lv: "sl_lvl s < lvl" "lvl \<le> MAXLEVEL"
  obtains h where
    "for_option [sl_lvl s..<lvl] (\<lambda>i. sl_upd (sl_head s) i (\<lambda>k. k\<lparr>lv_span := ucast (sl_lenth s)\<rparr>)) (sl_heap s) = Some h"
    "sl_rep (s\<lparr>sl_heap := h, sl_lvl := lvl\<rparr>) cs"
proof -
  let ?hd = "head_cell s" and ?h = "sl_heap s"
  let ?L = "\<lambda>a i. if a = sl_head s then map_option (\<lambda>k. k\<lparr>lv_span := ucast (sl_lenth s)\<rparr>) (sl_lev ?h a i)
    else sl_lev ?h a i"
  have ch: "chain ?h ([] @ ?hd # cs)" and dis: "distinct (map c_adr (?hd # cs))"
    using rep by (auto simp: sl_rep_def)
  have hl: "\<exists>l. sl_lev ?h (sl_head s) i = Some l" if "i < MAXLEVEL" for i
    using chain_level [OF ch, of i] that by (auto simp: head_cell_def)
  obtain h where h: "for_option [sl_lvl s..<lvl]
       (\<lambda>i. sl_upd (sl_head s) i (\<lambda>k. k\<lparr>lv_span := ucast (sl_lenth s)\<rparr>)) ?h = Some h"
      "levels_to ?h h (\<lambda>a j. if sl_lvl s \<le> j \<and> j < lvl then ?L a j else sl_lev ?h a j)"
  proof (rule exE [OF levels_loop [where h = ?h and m = "sl_lvl s" and k = lvl and L = ?L
        and f = "\<lambda>i. sl_upd (sl_head s) i (\<lambda>k. k\<lparr>lv_span := ucast (sl_lenth s)\<rparr>)"]])
    fix i h'
    assume i: "i < lvl" and same: "\<And>a. sl_lev h' a i = sl_lev ?h a i"
    from hl [of i] i lv(2) same obtain l where l: "sl_lev h' (sl_head s) i = Some l" by auto
    then show "\<exists>h''. sl_upd (sl_head s) i (\<lambda>k. k\<lparr>lv_span := ucast (sl_lenth s)\<rparr>) h' = Some h''
        \<and> levels_to h' h'' (\<lambda>a j. if j = i then ?L a i else sl_lev h' a j)"
      by (rule upd_levels [where f = "\<lambda>k. k\<lparr>lv_span := ucast (sl_lenth s)\<rparr>"])
        (use l same in \<open>auto simp: levels_to_def\<close>)
  qed blast
  note low = sl_rep_low [OF rep]
  have "chain h (?hd # cs)"
    unfolding chain_def
  proof (intro allI impI)
    fix ps c qs assume e: "?hd # cs = ps @ c # qs"
    then have old: "cell_ok ?h c (bwd ps) qs" using ch by (simp add: chain_def)
    show "cell_ok h c (bwd ps) qs"
    proof (cases ps)
      case Nil
      with e have c: "c = ?hd" "qs = cs" by auto
      with old h(2) low show ?thesis
        by (auto simp: cell_ok_iff levels_to_def head_cell_def fwd_low [of _ cs "[]", simplified] not_less)
    next
      case (Cons d ps')
      with e have "c \<in> set cs" by auto
      moreover from this dis have "c_adr c \<noteq> sl_head s" by (force simp: head_cell_def)
      ultimately show ?thesis using old h(2) rep
        by (fastforce simp: cell_ok_iff levels_to_def sl_rep_def)
    qed
  qed
  moreover have "\<forall>a \<ge> sl_brk s. h a = None"
    using rep levels_to_None [OF h(2)] by (simp add: sl_rep_def)
  moreover have "\<forall>c \<in> set cs. c_hgt c \<le> lvl" using rep lv by (fastforce simp: sl_rep_def)
  ultimately show ?thesis using that [OF h(1)] rep lv by (simp add: sl_rep_def head_cell_def)
qed

section \<open>Insert\<close>

lemma link_levels:
  assumes u: "sl_lev h u i = Some l" and x: "sl_lev h x i = Some k" and "u \<noteq> x"
    and us: "us ! i = (u, rank)"
  shows "\<exists>h'. sl_link us x i h = Some h' \<and> levels_to h h' (\<lambda>a j.
      if j = i then (if a = x then Some (l\<lparr>lv_span := lv_span l - (snd (us ! 0) - rank)\<rparr>)
        else if a = u then Some (l\<lparr>lv_forward := Some x, lv_span := snd (us ! 0) - rank + 1\<rparr>)
        else sl_lev h a j)
      else sl_lev h a j)"
proof -
  let ?d = "snd (us ! 0) - rank"
  obtain h1 where h1: "sl_upd x i (\<lambda>k. k\<lparr>lv_forward := lv_forward l\<rparr>) h = Some h1"
      "levels_to h h1 (\<lambda>a j. if a = x \<and> j = i then Some (k\<lparr>lv_forward := lv_forward l\<rparr>) else sl_lev h a j)"
    by (rule upd_levels [OF x])
  with u \<open>u \<noteq> x\<close> have u1: "sl_lev h1 u i = Some l" by (simp add: levels_to_def)
  obtain h2 where h2: "sl_upd u i (\<lambda>k. k\<lparr>lv_forward := Some x\<rparr>) h1 = Some h2"
      "levels_to h1 h2 (\<lambda>a j. if a = u \<and> j = i then Some (l\<lparr>lv_forward := Some x\<rparr>) else sl_lev h1 a j)"
    by (rule upd_levels [OF u1])
  then have u2: "sl_lev h2 u i = Some (l\<lparr>lv_forward := Some x\<rparr>)"
    and x2: "sl_lev h2 x i = Some (k\<lparr>lv_forward := lv_forward l\<rparr>)"
    using h1(2) \<open>u \<noteq> x\<close> by (simp_all add: levels_to_def)
  obtain h3 where h3: "sl_upd x i (\<lambda>k. k\<lparr>lv_span := lv_span l - ?d\<rparr>) h2 = Some h3"
      "levels_to h2 h3 (\<lambda>a j. if a = x \<and> j = i
         then Some (k\<lparr>lv_forward := lv_forward l, lv_span := lv_span l - ?d\<rparr>) else sl_lev h2 a j)"
    using upd_levels [OF x2, of "\<lambda>k. k\<lparr>lv_span := lv_span l - ?d\<rparr>"] by auto
  then have u3: "sl_lev h3 u i = Some (l\<lparr>lv_forward := Some x\<rparr>)"
    using u2 \<open>u \<noteq> x\<close> by (simp add: levels_to_def)
  obtain h4 where h4: "sl_upd u i (\<lambda>k. k\<lparr>lv_span := ?d + 1\<rparr>) h3 = Some h4"
      "levels_to h3 h4 (\<lambda>a j. if a = u \<and> j = i
         then Some (l\<lparr>lv_forward := Some x, lv_span := ?d + 1\<rparr>) else sl_lev h3 a j)"
    using upd_levels [OF u3, of "\<lambda>k. k\<lparr>lv_span := ?d + 1\<rparr>"] by auto
  have "sl_link us x i h = Some h4"
    using h1(1) h2(1) h3(1) h4(1) u u2 by (simp add: sl_link_def us)
  moreover have "k\<lparr>lv_forward := lv_forward l, lv_span := w\<rparr> = l\<lparr>lv_span := w\<rparr>" for w
    by (cases k; cases l) simp
  ultimately show ?thesis
    using h1(2) h2(2) h3(2) h4(2) \<open>u \<noteq> x\<close> by (auto simp: levels_to_def)
qed

text \<open>
  The heap after both loops of \<open>Insert\<close>, level by level: up to the new node's height the
  node goes between \<open>update[i]\<close> and its successor, above it only spans grow.
\<close>

definition inserted_level ::
  "(nat \<times> 32 word) list \<Rightarrow> nat \<Rightarrow> nat \<Rightarrow> sl_heap \<Rightarrow> nat \<Rightarrow> nat \<Rightarrow> sl_level option" where
  "inserted_level us x lvl h a i = (let d = snd (us ! 0) - snd (us ! i) in
     if i < lvl then
       (if a = x then map_option (\<lambda>l. l\<lparr>lv_span := lv_span l - d\<rparr>) (sl_lev h (fst (us ! i)) i)
        else if a = fst (us ! i) then map_option (\<lambda>l. l\<lparr>lv_forward := Some x, lv_span := d + 1\<rparr>) (sl_lev h a i)
        else sl_lev h a i)
     else if a = fst (us ! i) then map_option (\<lambda>l. l\<lparr>lv_span := lv_span l + 1\<rparr>) (sl_lev h a i)
     else sl_lev h a i)"

lemma insert_loops:
  assumes u: "\<And>i. i < level \<Longrightarrow> \<exists>l. sl_lev h (fst (us ! i)) i = Some l \<and> fst (us ! i) \<noteq> x"
    and x: "\<And>i. i < lvl \<Longrightarrow> \<exists>l. sl_lev h x i = Some l" and lv: "lvl \<le> level"
  obtains h1 h2 where "for_option [0..<lvl] (sl_link us x) h = Some h1"
    "for_option [lvl..<level] (\<lambda>i. sl_upd (fst (us ! i)) i (\<lambda>k. k\<lparr>lv_span := lv_span k + 1\<rparr>)) h1 = Some h2"
    "levels_to h h2 (\<lambda>a i. if i < level then inserted_level us x lvl h a i else sl_lev h a i)"
proof -
  let ?L = "inserted_level us x lvl h"
  have "\<exists>h1. for_option [0..<lvl] (sl_link us x) h = Some h1
      \<and> levels_to h h1 (\<lambda>a j. if 0 \<le> j \<and> j < lvl then ?L a j else sl_lev h a j)"
  proof (rule levels_loop)
    fix i h' assume i: "i < lvl" and same: "\<And>a. sl_lev h' a i = sl_lev h a i"
    obtain l k where "sl_lev h' (fst (us ! i)) i = Some l" "sl_lev h' x i = Some k" "fst (us ! i) \<noteq> x"
      using u [of i] x [of i] i lv same by auto
    from link_levels [OF this, of us "snd (us ! i)"] this i same
    show "\<exists>h''. sl_link us x i h' = Some h'' \<and> levels_to h' h'' (\<lambda>a j. if j = i then ?L a i else sl_lev h' a j)"
      by (auto simp: levels_to_def inserted_level_def Let_def)
  qed
  then obtain h1 where h1: "for_option [0..<lvl] (sl_link us x) h = Some h1" "shape h1 = shape h"
      "\<And>a j. sl_lev h1 a j = (if j < lvl then ?L a j else sl_lev h a j)"
    by (auto simp: levels_to_def)
  let ?f = "\<lambda>i. sl_upd (fst (us ! i)) i (\<lambda>k. k\<lparr>lv_span := lv_span k + 1\<rparr>)"
  have "\<exists>h2. for_option [lvl..<level] ?f h1 = Some h2
      \<and> levels_to h1 h2 (\<lambda>a j. if lvl \<le> j \<and> j < level then ?L a j else sl_lev h1 a j)"
  proof (rule levels_loop)
    fix i h' assume i: "lvl \<le> i" "i < level" and same: "\<And>a. sl_lev h' a i = sl_lev h1 a i"
    obtain l where l: "sl_lev h' (fst (us ! i)) i = Some l"
      using u [OF i(2)] i same h1(3) by auto
    show "\<exists>h''. ?f i h' = Some h'' \<and> levels_to h' h'' (\<lambda>a j. if j = i then ?L a i else sl_lev h' a j)"
      by (rule upd_levels [OF l, where f = "\<lambda>k. k\<lparr>lv_span := lv_span k + 1\<rparr>"])
        (use l i same h1(3) in \<open>auto simp: levels_to_def inserted_level_def\<close>)
  qed
  then obtain h2 where h2: "for_option [lvl..<level] ?f h1 = Some h2"
      "levels_to h1 h2 (\<lambda>a j. if lvl \<le> j \<and> j < level then ?L a j else sl_lev h1 a j)"
    by blast
  show ?thesis
    by (rule that [OF h1(1) h2(1)]) (use h1(2,3) h2(2) lv in \<open>auto simp: levels_to_def\<close>)
qed

text \<open>What the walk found, for a prefix \<open>us\<close> (head in front) of the cells.\<close>

definition found :: "nat \<Rightarrow> cell list \<Rightarrow> (nat \<times> 32 word) list \<Rightarrow> bool" where
  "found t us ups \<longleftrightarrow> (\<forall>i<t. kept i us \<noteq> [] \<and> fst (ups ! i) = c_adr (last (kept i us))
      \<and> snd (ups ! i) = of_nat (length (kept i us) - 1))
    \<and> fst (ups ! 0) = c_adr (last us) \<and> snd (ups ! 0) = of_nat (length us - 1)"

lemma find_found:
  assumes rep: "sl_rep s (us @ vs)"
    and P: "tests_prefix (sl_heap s) P (head_cell s # us @ vs) (Suc (length us))"
  obtains ups where "sl_find P s = Some (ups ! 0, ups)" "length ups = sl_lvl s"
    "found (sl_lvl s) (head_cell s # us) ups"
proof -
  obtain ups where ups: "sl_find P s = Some (ups ! 0, ups)" "length ups = sl_lvl s"
      "\<And>i. i < sl_lvl s \<Longrightarrow> fst (ups ! i) = c_adr (last (kept i (head_cell s # us)))"
      "\<And>i. i < sl_lvl s \<Longrightarrow> snd (ups ! i) = of_nat (length (kept i (head_cell s # us)) - 1)"
      "fst (ups ! 0) = c_adr (last (head_cell s # us))" "snd (ups ! 0) = of_nat (length us)"
    by (rule find_prefix [OF rep P]) auto
  then have "found (sl_lvl s) (head_cell s # us) ups"
    using rep kept_Cons_ne [of _ "head_cell s"] by (auto simp: found_def sl_rep_def head_cell_def)
  with that ups(1,2) show ?thesis by blast
qed

lemma foundE:
  assumes "found t us ups" "i < t"
  obtains ps c rest where "us = ps @ c # rest" "low i rest" "i < c_hgt c" "fst (ups ! i) = c_adr c"
    "snd (ups ! 0) - snd (ups ! i) = of_nat (length rest)"
proof -
  let ?k = "kept i us"
  obtain rest where r: "us = ?k @ rest" "low i rest" using kept_split by blast
  have k: "?k \<noteq> []" "fst (ups ! i) = c_adr (last ?k)" "snd (ups ! i) = of_nat (length ?k - 1)"
    using assms by (auto simp: found_def)
  have "snd (ups ! 0) - snd (ups ! i) = of_nat (length rest)"
  proof -
    have "length us - 1 = (length ?k - 1) + length rest" using k(1) arg_cong [OF r(1), of length]
      by (cases ?k) auto
    then show ?thesis using that k(3) assms(1) by (simp add: found_def)
  qed
  moreover have "us = butlast ?k @ last ?k # rest" using r(1) k(1)
    by (metis append.assoc append_Cons append_Nil append_butlast_last_id)
  ultimately show ?thesis using that k(2) r(2) kept_high [OF k(1)] by blast
qed

text \<open>Where level \<open>i\<close> of a cell of the prefix is \<open>update[i]\<close>, nothing behind it reaches \<open>i\<close>.\<close>

lemma found_iff:
  assumes f: "found t us ups" and "i < t" and d: "distinct (map c_adr us)"
    and us: "us = ps @ c # rest" and "i < c_hgt c"
  shows "c_adr c = fst (ups ! i) \<longleftrightarrow> low i rest"
proof -
  obtain ps' c' rest' where k: "us = ps' @ c' # rest'" "low i rest'" "i < c_hgt c'" "fst (ups ! i) = c_adr c'"
    using foundE [OF f \<open>i < t\<close>] by metis
  have same: "rest = rest'" if "c_adr c = c_adr c'"
    using split_unique [OF d [unfolded us] _ that, of ps' rest'] us k(1) by metis
  show ?thesis
  proof
    assume "c_adr c = fst (ups ! i)"
    with same k show "low i rest" by simp
  next
    assume "low i rest"
    then have "kept i us = ps @ [c]" "kept i us = ps' @ [c']"
      using us k \<open>i < c_hgt c\<close> kept_low [of i rest "ps @ [c]"] kept_low [of i rest' "ps' @ [c']"]
      by (simp_all add: kept_id)
    with k(4) show "c_adr c = fst (ups ! i)" by simp
  qed
qed

lemma three_cases:
  assumes "us @ n # vs = ps @ c # qs"
  obtains (before) rest where "us = ps @ c # rest" "qs = rest @ n # vs"
  | (new) "ps = us" "c = n" "qs = vs"
  | (after) mid where "vs = mid @ c # qs" "ps = us @ n # mid"
  using assms by (auto simp: append_eq_append_conv2 Cons_eq_append_conv append_eq_Cons_conv)

text \<open>
  The new chain, from what the loops and the backward updates leave. \<open>h\<close> is the heap with
  the new node allocated.
\<close>

lemma inserted_chain:
  assumes ch: "chain h (us @ vs)" and us: "us \<noteq> []" "distinct (map c_adr (us @ vs))"
    and new: "c_adr n \<notin> c_adr ` set (us @ vs)" and hgt: "c_hgt n \<le> t"
    and f: "found t us ups" and lows: "low t (tl us)" "low t vs"
    and lev: "\<And>a i. sl_lev h' a i = (if i < t then inserted_level ups (c_adr n) (c_hgt n) h a i else sl_lev h a i)"
    and sh_new: "shape h' (c_adr n) = Some (c_val n, c_score n, bwd us, c_hgt n)"
    and sh_first: "\<And>v vs'. vs = v # vs' \<Longrightarrow> shape h' (c_adr v) = Some (c_val v, c_score v, Some (c_adr n), c_hgt v)"
    and sh: "\<And>a. a \<noteq> c_adr n \<Longrightarrow> (vs \<noteq> [] \<longrightarrow> a \<noteq> c_adr (hd vs)) \<Longrightarrow> shape h' a = shape h a"
  shows "chain h' (us @ n # vs)"
  unfolding chain_def
proof (intro allI impI)
  fix ps c qs assume "us @ n # vs = ps @ c # qs"
  then show "cell_ok h' c (bwd ps) qs"
  proof (cases rule: three_cases)
    case (before rest)
    have old: "cell_ok h c (bwd ps) (rest @ vs)"
      using chainD [of h ps c "rest @ vs"] ch before(1) by simp
    have cn: "c_adr c \<noteq> c_adr n" "vs \<noteq> [] \<longrightarrow> c_adr c \<noteq> c_adr (hd vs)"
      using new us(2) before(1) by (auto simp: image_iff neq_Nil_conv)
    have "\<exists>l. sl_lev h' (c_adr c) i = Some l \<and> lv_forward l = fst (fwd i qs)
        \<and> (fst (fwd i qs) \<noteq> None \<longrightarrow> lv_span l = of_nat (snd (fwd i qs)))" if i: "i < c_hgt c" for i
    proof -
      from old i obtain l where l: "sl_lev h (c_adr c) i = Some l" "lv_forward l = fst (fwd i (rest @ vs))"
          "fst (fwd i (rest @ vs)) \<noteq> None \<longrightarrow> lv_span l = of_nat (snd (fwd i (rest @ vs)))"
        by (auto simp: cell_ok_iff)
      show ?thesis
      proof (cases "i < t")
        case False
        then have "low i rest" "low i vs" "\<not> i < c_hgt n"
          using lows hgt before(1) by (cases ps; auto simp: low_def intro: order_trans)+
        moreover from this have "fst (fwd i vs) = None" using fwd_None [of i vs] by simp
        ultimately show ?thesis using False l lev before(2) by (simp add: fwd_low)
      next
        case True
        have u: "c_adr c = fst (ups ! i) \<longleftrightarrow> low i rest"
          using found_iff [OF f True _ before(1) i] us(2) by simp
        show ?thesis
        proof (cases "low i rest")
          case False
          with True u l lev before(2) cn show ?thesis
            by (simp add: inserted_level_def Let_def fwd_high)
        next
          case low: True
          have "snd (ups ! 0) - snd (ups ! i) = of_nat (length rest)"
          proof -
            obtain ps' c' rest' where k: "us = ps' @ c' # rest'" "fst (ups ! i) = c_adr c'"
                "snd (ups ! 0) - snd (ups ! i) = of_nat (length rest')"
              using foundE [OF f True] by metis
            moreover have "distinct (map c_adr (ps @ c # rest))" using us(2) before(1) by auto
            ultimately have "rest = rest'"
              using split_unique [of c_adr ps c rest ps' c' rest'] before(1) u low by metis
            with k(3) that show ?thesis by simp
          qed
          with True u l lev before(2) cn low show ?thesis
            by (simp add: inserted_level_def Let_def fwd_low)
        qed
      qed
    qed
    with old cn sh [of "c_adr c"] show ?thesis by (simp add: cell_ok_iff)
  next
    case new': new
    have "\<exists>l. sl_lev h' (c_adr n) i = Some l \<and> lv_forward l = fst (fwd i vs)
        \<and> (fst (fwd i vs) \<noteq> None \<longrightarrow> lv_span l = of_nat (snd (fwd i vs)))" if i: "i < c_hgt n" for i
    proof -
      have t: "i < t" using i hgt by simp
      obtain ps' c' rest where k: "us = ps' @ c' # rest" "low i rest" "i < c_hgt c'" "fst (ups ! i) = c_adr c'"
          "snd (ups ! 0) - snd (ups ! i) = of_nat (length rest)"
        using foundE [OF f t] by metis
      obtain l where l: "sl_lev h (c_adr c') i = Some l" "lv_forward l = fst (fwd i (rest @ vs))"
          "fst (fwd i (rest @ vs)) \<noteq> None \<Longrightarrow> lv_span l = of_nat (snd (fwd i (rest @ vs)))"
        using chain_level [of h ps' c' "rest @ vs" i] ch k(1,3) by auto
      from l t i k lev [of "c_adr n" i] show ?thesis
        by (auto simp: inserted_level_def fwd_low Let_def)
    qed
    with sh_new new' show ?thesis by (simp add: cell_ok_iff)
  next
    case (after mid)
    have old: "cell_ok h c (bwd (us @ mid)) qs"
      using chainD [of h "us @ mid" c qs] ch after(1) by simp
    have cn: "c_adr c \<noteq> c_adr n" using new after(1) by auto
    have "sl_lev h' (c_adr c) i = sl_lev h (c_adr c) i" for i
    proof (cases "i < t")
      case True
      obtain ps' c' rest where "us = ps' @ c' # rest" "fst (ups ! i) = c_adr c'"
        using foundE [OF f True] by metis
      then have "c_adr c \<noteq> fst (ups ! i)" using us(2) after(1) by auto
      with True lev cn show ?thesis by (simp add: inserted_level_def Let_def)
    qed (simp add: lev)
    moreover have "shape h' (c_adr c) = Some (c_val c, c_score c, bwd ps, c_hgt c)"
    proof (cases mid)
      case Nil
      with after sh_first [of c qs] us(1) show ?thesis by (cases us) (auto simp: bwd_def)
    next
      case (Cons m ms)
      then have "c_adr c \<noteq> c_adr (hd vs)" using us(2) after(1) by auto
      with sh [of "c_adr c"] cn old have "shape h' (c_adr c) = Some (c_val c, c_score c, bwd (us @ mid), c_hgt c)"
        by (simp add: cell_ok_iff)
      moreover have "bwd (us @ mid) = bwd ps" using us(1) Cons after(2) by (cases us) (auto simp: bwd_def)
      ultimately show ?thesis by simp
    qed
    ultimately show ?thesis using old by (simp add: cell_ok_iff)
  qed
qed

lemma skRandomLevel_loop_bounds:
  "lvl \<le> MAXLEVEL \<Longrightarrow> lvl \<le> skRandomLevel_loop rnd lvl \<and> skRandomLevel_loop rnd lvl \<le> MAXLEVEL"
proof (induction rnd lvl rule: skRandomLevel_loop.induct)
  case (1 rnd lvl)
  then show ?case by (subst (1 2) skRandomLevel_loop.simps) auto
qed

lemma skRandomLevel_bounds: "1 \<le> skRandomLevel rnd" "skRandomLevel rnd \<le> MAXLEVEL"
  using skRandomLevel_loop_bounds [of 1 rnd] by (auto simp: skRandomLevel_def MAXLEVEL_def)

lemma chain_cong:
  "chain h fs \<Longrightarrow> (\<And>c. c \<in> set fs \<Longrightarrow> h' (c_adr c) = h (c_adr c)) \<Longrightarrow> chain h' fs"
  by (auto simp: chain_def cell_ok_def)

text \<open>The state after the level has been raised, if the new node is higher than any before.\<close>

lemma insert_raise:
  assumes rep: "sl_rep s cs"
    and lv: "1 \<le> lvl" "lvl \<le> MAXLEVEL" and cs: "cs = us @ vs"
    and f: "found (sl_lvl s) (head_cell s # us) ups" and l: "length ups = sl_lvl s"
  obtains h ups' level where
    "(if lvl > sl_lvl s then do {
        h \<leftarrow> for_option [sl_lvl s..<lvl]
               (\<lambda>i. sl_upd (sl_head s) i (\<lambda>k. k\<lparr>lv_span := ucast (sl_lenth s)\<rparr>)) (sl_heap s);
        Some (h, ups @ map (\<lambda>_. (sl_head s, 0)) [sl_lvl s..<lvl], lvl)
      } else Some (sl_heap s, ups, sl_lvl s)) = Some (h, ups', level)"
    "sl_rep (s\<lparr>sl_heap := h, sl_lvl := level\<rparr>) cs" "found level (head_cell s # us) ups'"
    "lvl \<le> level" "level \<le> MAXLEVEL" "ups' ! 0 = ups ! 0"
proof (cases "lvl > sl_lvl s")
  case False
  with that [of "sl_heap s" ups "sl_lvl s"] rep f show ?thesis by (simp add: sl_rep_def)
next
  case True
  obtain h where h: "for_option [sl_lvl s..<lvl]
       (\<lambda>i. sl_upd (sl_head s) i (\<lambda>k. k\<lparr>lv_span := ucast (sl_lenth s)\<rparr>)) (sl_heap s) = Some h"
      "sl_rep (s\<lparr>sl_heap := h, sl_lvl := lvl\<rparr>) cs"
    using raise_levels [OF rep True lv(2)] .
  have one: "1 \<le> sl_lvl s" using rep by (simp add: sl_rep_def)
  let ?ups = "ups @ map (\<lambda>_. (sl_head s, 0 :: 32 word)) [sl_lvl s..<lvl]"
  have zero: "?ups ! 0 = ups ! 0" using one l by (simp add: nth_append)
  have "kept i (head_cell s # us) = [head_cell s]" if "sl_lvl s \<le> i" "i < lvl" for i
  proof -
    have "low i us" using sl_rep_low [OF rep that(1)] cs by simp
    then have "kept i ([head_cell s] @ us) = kept i [head_cell s]" by (rule kept_low)
    also have "\<dots> = [head_cell s]" using that lv(2) by (intro kept_id) (auto simp: head_cell_def)
    finally show ?thesis by simp
  qed
  then have "found lvl (head_cell s # us) ?ups"
    using f l zero by (auto simp: found_def nth_append not_less head_cell_def)
  then show ?thesis
    using that [of h ?ups lvl] True h lv(2) zero by simp
qed

text \<open>The heap with the new node allocated still holds the old chain.\<close>

lemma alloc_chain:
  assumes "sl_rep s cs"
  shows "chain ((sl_heap s)(sl_brk s \<mapsto> n)) (head_cell s # cs)"
    and "sl_brk s \<notin> c_adr ` set (head_cell s # cs)"
proof -
  have ch: "chain (sl_heap s) (head_cell s # cs)" and free: "sl_heap s (sl_brk s) = None"
    using assms by (auto simp: sl_rep_def)
  show new: "sl_brk s \<notin> c_adr ` set (head_cell s # cs)"
  proof
    assume "sl_brk s \<in> c_adr ` set (head_cell s # cs)"
    then obtain c where "c \<in> set (head_cell s # cs)" "c_adr c = sl_brk s" by (elim imageE) simp
    moreover from this(1) obtain ps qs where "head_cell s # cs = ps @ c # qs" by (meson split_list)
    ultimately show False using chainD [of "sl_heap s" ps c qs] ch free by (simp add: cell_ok_def)
  qed
  show "chain ((sl_heap s)(sl_brk s \<mapsto> n)) (head_cell s # cs)"
    by (rule chain_cong [OF ch]) (use new in force)
qed

text \<open>The last steps of \<open>Insert\<close>: backward pointers and tail.\<close>

lemma insert_backward:
  assumes x: "shape h x = Some (v, sc, None, k)" and l: "sl_lev h x 0 = Some l"
    and fw: "lv_forward l = (case vs of [] \<Rightarrow> None | c # _ \<Rightarrow> Some (c_adr c))"
    and first: "\<And>c cs. vs = c # cs \<Longrightarrow> c_adr c \<noteq> x \<and> (\<exists>bk. shape h (c_adr c) = Some (c_val c, c_score c, bk, c_hgt c))"
  obtains h' where
    "do { h \<leftarrow> sl_set_backward x bk h; l \<leftarrow> sl_lev h x 0;
       (h, tail) \<leftarrow>
         (case lv_forward l of
            Some y \<Rightarrow> do { h \<leftarrow> sl_set_backward y (Some x) h; Some (h, tl0) }
          | None \<Rightarrow> Some (h, Some x));
       Some (s\<lparr>sl_heap := h, sl_tail := tail, sl_lenth := n\<rparr>) }
     = Some (s\<lparr>sl_heap := h', sl_tail := (if vs = [] then Some x else tl0), sl_lenth := n\<rparr>)"
    "sl_lev h' = sl_lev h" "shape h' x = Some (v, sc, bk, k)"
    "\<And>c cs. vs = c # cs \<Longrightarrow> shape h' (c_adr c) = Some (c_val c, c_score c, Some x, c_hgt c)"
    "\<And>a. a \<noteq> x \<Longrightarrow> (vs \<noteq> [] \<longrightarrow> a \<noteq> c_adr (hd vs)) \<Longrightarrow> shape h' a = shape h a"
proof -
  obtain h1 where h1: "sl_set_backward x bk h = Some h1" "shape h1 = (shape h)(x \<mapsto> (v, sc, bk, k))"
      "\<And>a i. sl_lev h1 a i = sl_lev h a i"
    using set_backward [OF x] by metis
  show ?thesis
  proof (cases vs)
    case Nil
    with that [of h1] h1 l fw show ?thesis by (simp add: fun_eq_iff)
  next
    case (Cons c cs)
    from first [OF this] h1(2) obtain bk' where "shape h1 (c_adr c) = Some (c_val c, c_score c, bk', c_hgt c)"
      by auto
    then obtain h2 where h2: "sl_set_backward (c_adr c) (Some x) h1 = Some h2"
        "shape h2 = (shape h1)(c_adr c \<mapsto> (c_val c, c_score c, Some x, c_hgt c))"
        "\<And>a i. sl_lev h2 a i = sl_lev h1 a i"
      using set_backward by metis
    with that [of h2] h1 l fw Cons first [OF Cons] show ?thesis by (simp add: fun_eq_iff)
  qed
qed

lemma fwd_0: "\<forall>c \<in> set cs. 1 \<le> c_hgt c \<Longrightarrow> fst (fwd 0 cs) = (case cs of [] \<Rightarrow> None | c # _ \<Rightarrow> Some (c_adr c))"
  by (cases cs) auto

text \<open>
  \<open>Insert\<close> puts one cell in where the test of its search stops.
\<close>

lemma Insert_rep:
  assumes rep: "sl_rep s (us @ vs)"
    and P: "tests_prefix (sl_heap s) (before_member score val) (head_cell s # us @ vs) (Suc (length us))"
  obtains s' c where "sl_Insert rnd score val s = Some s'" "c_score c = score" "c_val c = val"
    "sl_rep s' (us @ c # vs)" "sl_lenth s' = sl_lenth s + 1" "c_hgt c = skRandomLevel rnd"
proof -
  let ?lvl = "skRandomLevel rnd" and ?x = "sl_brk s"
  obtain ups where ups: "sl_find (before_member score val) s = Some (ups ! 0, ups)" "length ups = sl_lvl s"
    and f: "found (sl_lvl s) (head_cell s # us) ups"
    by (rule find_found [OF rep P])
  obtain h0 ups' level where raise:
      "(if ?lvl > sl_lvl s then do {
          h \<leftarrow> for_option [sl_lvl s..<?lvl]
                 (\<lambda>i. sl_upd (sl_head s) i (\<lambda>k. k\<lparr>lv_span := ucast (sl_lenth s)\<rparr>)) (sl_heap s);
          Some (h, ups @ map (\<lambda>_. (sl_head s, 0)) [sl_lvl s..<?lvl], ?lvl)
        } else Some (sl_heap s, ups, sl_lvl s)) = Some (h0, ups', level)"
      "sl_rep (s\<lparr>sl_heap := h0, sl_lvl := level\<rparr>) (us @ vs)" "found level (head_cell s # us) ups'"
      "?lvl \<le> level" "level \<le> MAXLEVEL" "ups' ! 0 = ups ! 0"
    using insert_raise [OF rep skRandomLevel_bounds refl f ups(2)] .
  define h1 where "h1 = h0(?x \<mapsto> new_node ?lvl score val)"
  define c where "c = \<lparr>c_adr = ?x, c_hgt = ?lvl, c_score = score, c_val = val\<rparr>"
  have hd: "head_cell (s\<lparr>sl_heap := h, sl_lvl := k\<rparr>) = head_cell s" for h k by (simp add: head_cell_def)
  note rep0 = raise(2) [unfolded sl_rep_def hd, simplified]
  have ch: "chain h1 ((head_cell s # us) @ vs)" and new: "?x \<notin> c_adr ` set (head_cell s # us @ vs)"
    using alloc_chain(1) [OF raise(2), of "new_node ?lvl score val"] alloc_chain(2) [OF raise(2)]
    by (simp_all add: h1_def hd)
  have dis: "distinct (map c_adr ((head_cell s # us) @ vs))" using rep0 by simp
  have lev_x: "\<exists>l. sl_lev h1 ?x i = Some l" if "i < ?lvl" for i
    using that by (simp add: h1_def sl_lev_def new_node_def)
  have lev_u: "\<exists>l. sl_lev h1 (fst (ups' ! i)) i = Some l \<and> fst (ups' ! i) \<noteq> ?x" if i: "i < level" for i
  proof -
    obtain ps d rest where k: "head_cell s # us = ps @ d # rest" "i < c_hgt d" "fst (ups' ! i) = c_adr d"
      using foundE [OF raise(3) i] by metis
    then have e: "(head_cell s # us) @ vs = ps @ d # rest @ vs" by simp
    then have "d \<in> set (head_cell s # us @ vs)" by (metis append_Cons in_set_conv_decomp)
    with new have "c_adr d \<noteq> ?x" by force
    with chain_level [OF ch [unfolded e] k(2)] k(3) show ?thesis by metis
  qed
  obtain h2 h3 where loops: "for_option [0..<?lvl] (sl_link ups' ?x) h1 = Some h2"
      "for_option [?lvl..<level] (\<lambda>i. sl_upd (fst (ups' ! i)) i (\<lambda>k. k\<lparr>lv_span := lv_span k + 1\<rparr>)) h2 = Some h3"
      "levels_to h1 h3 (\<lambda>a i. if i < level then inserted_level ups' ?x ?lvl h1 a i else sl_lev h1 a i)"
    by (rule insert_loops [OF lev_u lev_x raise(4)])
  have sh_x: "shape h3 ?x = Some (val, score, None, ?lvl)"
    using loops(3) by (simp add: levels_to_def shape_def h1_def new_node_def)
  have ones: "\<forall>c \<in> set vs. 1 \<le> c_hgt c" using rep by (auto simp: sl_rep_def)
  have zero: "0 < ?lvl" "0 < level" using skRandomLevel_bounds(1) [of rnd] raise(4) by auto
  obtain l where l: "sl_lev h3 ?x 0 = Some l" "lv_forward l = (case vs of [] \<Rightarrow> None | c # _ \<Rightarrow> Some (c_adr c))"
  proof -
    obtain ps d rest where k: "head_cell s # us = ps @ d # rest" "low 0 rest" "0 < c_hgt d" "fst (ups' ! 0) = c_adr d"
      using foundE [OF raise(3) zero(2)] by metis
    then obtain l where "sl_lev h1 (fst (ups' ! 0)) 0 = Some l" "lv_forward l = fst (fwd 0 (rest @ vs))"
      using chain_level [of h1 ps d "rest @ vs" 0] ch by auto
    with k(2) show ?thesis using that loops(3) zero fwd_0 [OF ones]
      by (auto simp: levels_to_def inserted_level_def fwd_low)
  qed
  have first: "c_adr d \<noteq> ?x \<and> (\<exists>bk. shape h3 (c_adr d) = Some (c_val d, c_score d, bk, c_hgt d))"
    if "vs = d # ds" for d ds
  proof -
    have "cell_ok h1 d (bwd (head_cell s # us)) ds"
      using chainD [of h1 "head_cell s # us" d ds] ch that by simp
    with loops(3) new that show ?thesis by (auto simp: cell_ok_iff levels_to_def)
  qed
  let ?bk = "if fst (ups' ! 0) = sl_head s then None else Some (fst (ups' ! 0))"
  have bk: "?bk = bwd (head_cell s # us)"
    using f raise(6) dis by (cases us rule: rev_cases) (auto simp: found_def bwd_def head_cell_def)
  define s1 where "s1 = s\<lparr>sl_heap := h1, sl_lvl := level, sl_brk := sl_brk s + 1\<rparr>"
  obtain h4 where h4: "do { h \<leftarrow> sl_set_backward ?x ?bk h3; l \<leftarrow> sl_lev h ?x 0;
       (h, tail) \<leftarrow>
         (case lv_forward l of
            Some y \<Rightarrow> do { h \<leftarrow> sl_set_backward y (Some ?x) h; Some (h, sl_tail s1) }
          | None \<Rightarrow> Some (h, Some ?x));
       Some (s1\<lparr>sl_heap := h, sl_tail := tail, sl_lenth := sl_lenth s1 + 1\<rparr>) }
     = Some (s1\<lparr>sl_heap := h4, sl_tail := (if vs = [] then Some ?x else sl_tail s1), sl_lenth := sl_lenth s1 + 1\<rparr>)"
     "sl_lev h4 = sl_lev h3" "shape h4 ?x = Some (val, score, ?bk, ?lvl)"
     "\<And>c cs. vs = c # cs \<Longrightarrow> shape h4 (c_adr c) = Some (c_val c, c_score c, Some ?x, c_hgt c)"
     "\<And>a. a \<noteq> ?x \<Longrightarrow> (vs \<noteq> [] \<longrightarrow> a \<noteq> c_adr (hd vs)) \<Longrightarrow> shape h4 a = shape h3 a"
    by (rule insert_backward [OF sh_x l first, where bk = ?bk and s = s1 and ?tl0.0 = "sl_tail s1" and n = "sl_lenth s1 + 1"]) blast+
  define s' where "s' = s1\<lparr>sl_heap := h4, sl_tail := (if vs = [] then Some ?x else sl_tail s1), sl_lenth := sl_lenth s1 + 1\<rparr>"
  have mk: "sl_MakeNode ?lvl score val (s\<lparr>sl_heap := h0, sl_lvl := level\<rparr>) = (?x, s1)"
    by (simp add: sl_MakeNode_def s1_def h1_def)
  have heads: "sl_heap s1 = h1" "sl_head s1 = sl_head s" "sl_tail s1 = sl_tail s" "sl_lenth s1 = sl_lenth s"
    "sl_lvl s1 = level" "sl_brk s1 = Suc ?x" by (simp_all add: s1_def)
  have "sl_Insert rnd score val s = Some s'"
    using loops(1,2) h4(1)
    by (simp only: sl_Insert_def ups(1) raise(1) mk Option.bind.simps prod.case Let_def heads s'_def)
  moreover have "sl_rep s' (us @ c # vs)"
  proof -
    have "chain h4 ((head_cell s # us) @ c # vs)"
    proof (rule inserted_chain [OF ch _ dis _ _ raise(3)])
      show "low level (tl (head_cell s # us))" "low level vs"
        using sl_rep_low [OF raise(2), of level] by simp_all
      show "shape h4 a = shape h1 a" if "a \<noteq> c_adr c" "vs \<noteq> [] \<longrightarrow> a \<noteq> c_adr (hd vs)" for a
        using h4(5) that loops(3) by (simp add: c_def levels_to_def)
    qed (use new raise(4) h4 bk loops(3) in \<open>auto simp: c_def levels_to_def\<close>)
    moreover have "\<forall>a \<ge> Suc ?x. h4 a = None"
    proof (intro allI impI)
      fix a assume a: "Suc ?x \<le> a"
      then have h3: "shape h3 a = None"
        using rep0 loops(3) by (simp add: levels_to_def shape_None h1_def)
      have "a \<noteq> c_adr (hd vs)" if "vs \<noteq> []"
        using first [of "hd vs" "tl vs"] that h3 by auto
      with h3 a h4(5) [of a] have "shape h4 a = None" by simp
      then show "h4 a = None" by (simp only: shape_None)
    qed
    moreover have "head_cell s' = head_cell s" by (simp add: s'_def heads head_cell_def)
    ultimately show ?thesis
      using rep0 new raise(4,5) skRandomLevel_bounds(1) [of rnd] dis
      by (auto simp: sl_rep_def s'_def heads c_def)
  qed
  ultimately show ?thesis using that [of s' c] by (simp add: c_def s'_def heads)
qed

section \<open>Delete\<close>

definition removed_level ::
  "(nat \<times> 32 word) list \<Rightarrow> nat \<Rightarrow> sl_heap \<Rightarrow> nat \<Rightarrow> nat \<Rightarrow> sl_level option" where
  "removed_level us x h a i = (if a = fst (us ! i) then
     (case sl_lev h a i of None \<Rightarrow> None | Some l \<Rightarrow>
        if lv_forward l = Some x
        then map_option (\<lambda>xl. \<lparr>lv_forward = lv_forward xl, lv_span = lv_span l + (lv_span xl - 1)\<rparr>) (sl_lev h x i)
        else Some (l\<lparr>lv_span := lv_span l - 1\<rparr>))
     else sl_lev h a i)"

lemma unlink_levels:
  assumes u: "sl_lev h (fst (us ! i)) i = Some l"
    and x: "lv_forward l = Some x \<Longrightarrow> \<exists>xl. sl_lev h x i = Some xl" and "fst (us ! i) \<noteq> x"
  shows "\<exists>h'. sl_unlink us x i h = Some h'
    \<and> levels_to h h' (\<lambda>a j. if j = i then removed_level us x h a i else sl_lev h a j)"
proof (cases "lv_forward l = Some x")
  case True
  let ?u = "fst (us ! i)"
  from x [OF True] obtain xl where xl: "sl_lev h x i = Some xl" by blast
  obtain h1 where h1: "sl_upd ?u i (\<lambda>k. k\<lparr>lv_span := lv_span k + (lv_span xl - 1)\<rparr>) h = Some h1"
      "levels_to h h1 (\<lambda>a j. if a = ?u \<and> j = i
         then Some (l\<lparr>lv_span := lv_span l + (lv_span xl - 1)\<rparr>) else sl_lev h a j)"
    using upd_levels [OF u, of "\<lambda>k. k\<lparr>lv_span := lv_span k + (lv_span xl - 1)\<rparr>"] by auto
  then have u1: "sl_lev h1 ?u i = Some (l\<lparr>lv_span := lv_span l + (lv_span xl - 1)\<rparr>)"
    by (simp add: levels_to_def)
  obtain h2 where h2: "sl_upd ?u i (\<lambda>k. k\<lparr>lv_forward := lv_forward xl\<rparr>) h1 = Some h2"
      "levels_to h1 h2 (\<lambda>a j. if a = ?u \<and> j = i
         then Some (l\<lparr>lv_span := lv_span l + (lv_span xl - 1), lv_forward := lv_forward xl\<rparr>) else sl_lev h1 a j)"
    using upd_levels [OF u1, of "\<lambda>k. k\<lparr>lv_forward := lv_forward xl\<rparr>"] by auto
  have "sl_unlink us x i h = Some h2"
    using True u xl h1(1) h2(1) by (simp add: sl_unlink_def Let_def)
  then show ?thesis using True u xl h1(2) h2(2)
    by (auto simp: levels_to_def removed_level_def)
next
  case False
  show ?thesis
    by (rule upd_levels [OF u, where f = "\<lambda>k. k\<lparr>lv_span := lv_span k - 1\<rparr>"])
      (use False u in \<open>auto simp: sl_unlink_def Let_def removed_level_def levels_to_def\<close>)
qed

lemma removed_chain:
  assumes ch: "chain h (us @ n # vs)" and us: "us \<noteq> []" "distinct (map c_adr (us @ n # vs))"
    and hgt: "c_hgt n \<le> t" and f: "found t us ups" and lows: "low t (tl us)" "low t vs"
    and lev: "\<And>a i. sl_lev h' a i = (if i < t then removed_level ups (c_adr n) h a i else sl_lev h a i)"
    and sh_first: "\<And>v vs'. vs = v # vs' \<Longrightarrow> shape h' (c_adr v) = Some (c_val v, c_score v, bwd us, c_hgt v)"
    and sh: "\<And>a. (vs \<noteq> [] \<longrightarrow> a \<noteq> c_adr (hd vs)) \<Longrightarrow> shape h' a = shape h a"
  shows "chain h' (us @ vs)"
  unfolding chain_def
proof (intro allI impI)
  fix ps c qs assume e: "us @ vs = ps @ c # qs"
  then consider (before) rest where "us = ps @ c # rest" "qs = rest @ vs"
    | (after) mid where "vs = mid @ c # qs" "ps = us @ mid"
    by (auto simp: append_eq_append_conv2 Cons_eq_append_conv append_eq_Cons_conv)
  then show "cell_ok h' c (bwd ps) qs"
  proof cases
    case (before rest)
    have old: "cell_ok h c (bwd ps) (rest @ n # vs)"
      using chainD [of h ps c "rest @ n # vs"] ch before(1) by simp
    have cn: "vs \<noteq> [] \<longrightarrow> c_adr c \<noteq> c_adr (hd vs)"
      using us(2) before(1) by (auto simp: neq_Nil_conv)
    have "\<exists>l. sl_lev h' (c_adr c) i = Some l \<and> lv_forward l = fst (fwd i qs)
        \<and> (fst (fwd i qs) \<noteq> None \<longrightarrow> lv_span l = of_nat (snd (fwd i qs)))" if i: "i < c_hgt c" for i
    proof -
      from old i obtain l where l: "sl_lev h (c_adr c) i = Some l" "lv_forward l = fst (fwd i (rest @ n # vs))"
          "fst (fwd i (rest @ n # vs)) \<noteq> None \<longrightarrow> lv_span l = of_nat (snd (fwd i (rest @ n # vs)))"
        by (auto simp: cell_ok_iff)
      show ?thesis
      proof (cases "i < t")
        case False
        then have "low i rest" "low i vs" "\<not> i < c_hgt n"
          using lows hgt before(1) by (cases ps; auto simp: low_def intro: order_trans)+
        moreover from this have "fst (fwd i vs) = None" using fwd_None [of i vs] by simp
        ultimately show ?thesis using False l lev before(2) by (simp add: fwd_low)
      next
        case True
        have u: "c_adr c = fst (ups ! i) \<longleftrightarrow> low i rest"
          using found_iff [OF f True _ before(1) i] us(2) by simp
        show ?thesis
        proof (cases "low i rest")
          case False
          with True u l lev before(2) show ?thesis
            by (simp add: removed_level_def fwd_high)
        next
          case low: True
          show ?thesis
          proof (cases "i < c_hgt n")
            case in_n: True
            obtain xl where "sl_lev h (c_adr n) i = Some xl" "lv_forward xl = fst (fwd i vs)"
                "fst (fwd i vs) \<noteq> None \<Longrightarrow> lv_span xl = of_nat (snd (fwd i vs))"
              using chain_level [OF ch in_n] by metis
            with True u l lev before(2) low in_n show ?thesis
              by (simp add: removed_level_def fwd_low)
          next
            case False
            have "fst (fwd i vs) \<noteq> Some (c_adr n)"
            proof
              assume "fst (fwd i vs) = Some (c_adr n)"
              then have "c_adr n \<in> c_adr ` set vs" by (elim fwd_SomeE) auto
              with us(2) show False by simp
            qed
            with True u l lev before(2) low False show ?thesis
              by (simp add: removed_level_def fwd_low)
          qed
        qed
      qed
    qed
    with old cn sh [of "c_adr c"] show ?thesis by (simp add: cell_ok_iff)
  next
    case (after mid)
    have old: "cell_ok h c (bwd (us @ n # mid)) qs"
      using chainD [of h "us @ n # mid" c qs] ch after(1) by simp
    have "sl_lev h' (c_adr c) i = sl_lev h (c_adr c) i" for i
    proof (cases "i < t")
      case True
      obtain ps' c' rest where "us = ps' @ c' # rest" "fst (ups ! i) = c_adr c'"
        using foundE [OF f True] by metis
      then have "c_adr c \<noteq> fst (ups ! i)" using us(2) after(1) by auto
      with True lev show ?thesis by (simp add: removed_level_def)
    qed (simp add: lev)
    moreover have "shape h' (c_adr c) = Some (c_val c, c_score c, bwd ps, c_hgt c)"
    proof (cases mid)
      case Nil
      with after sh_first [of c qs] show ?thesis by simp
    next
      case (Cons m ms)
      then have "c_adr c \<noteq> c_adr (hd vs)" using us(2) after(1) by auto
      with sh [of "c_adr c"] old have "shape h' (c_adr c) = Some (c_val c, c_score c, bwd (us @ n # mid), c_hgt c)"
        by (simp add: cell_ok_iff)
      moreover have "bwd (us @ n # mid) = bwd ps" using us(1) Cons after(2) by (cases us) (auto simp: bwd_def)
      ultimately show ?thesis by simp
    qed
    ultimately show ?thesis using old by (simp add: cell_ok_iff)
  qed
qed

lemma shrink:
  assumes "\<And>i. i < MAXLEVEL \<Longrightarrow> \<exists>l. sl_lev h a i = Some l \<and> lv_forward l = fst (fwd i cs)"
    and "low t cs" "1 \<le> t" "t \<le> MAXLEVEL"
  shows "\<exists>t'. sl_shrink h a t = Some t' \<and> 1 \<le> t' \<and> t' \<le> t \<and> low t' cs"
  using assms(2-4)
proof (induction t)
  case (Suc t)
  show ?case
  proof (cases t)
    case 0
    with Suc.prems(1) show ?thesis by simp
  next
    case (Suc m)
    from assms(1) [of t] Suc.prems(3) obtain l where
      l: "sl_lev h a t = Some l" "lv_forward l = fst (fwd t cs)" by auto
    show ?thesis
    proof (cases "lv_forward l = None")
      case True
      with l(2) have "low t cs" using fwd_None [of t cs] by simp
      with Suc.IH Suc.prems Suc l(1) True show ?thesis by auto
    next
      case False
      with l(1) Suc Suc.prems(1) show ?thesis by auto
    qed
  qed
qed simp

text \<open>\<open>DeleteNode\<close> takes the cell behind the searched prefix out; the length goes up.\<close>

lemma DeleteNode_rep:
  assumes rep: "sl_rep s (us @ c # vs)"
    and f: "found (sl_lvl s) (head_cell s # us) ups"
  obtains s' where "sl_DeleteNode (c_adr c) ups s = Some s'"
    "sl_rep (sl_FreeNode (c_adr c) s') (us @ vs)" "sl_lenth s' = sl_lenth s + 1"
proof -
  let ?us = "head_cell s # us" and ?h = "sl_heap s" and ?t = "sl_lvl s" and ?x = "c_adr c"
  have ch: "chain ?h (?us @ c # vs)" and dis: "distinct (map c_adr (?us @ c # vs))"
    and hc: "1 \<le> c_hgt c" "c_hgt c \<le> ?t" and t: "1 \<le> ?t" "?t \<le> MAXLEVEL"
    using rep by (auto simp: sl_rep_def)
  have "?x \<notin> c_adr ` set (?us @ vs)" using dis by (auto simp: image_iff)
  then have ux: "c_adr d \<noteq> ?x" if "d \<in> set (?us @ vs)" for d using that by (metis imageI)
  have lows: "low ?t us" "low ?t vs" using sl_rep_low [OF rep, of ?t] by simp_all
  obtain nx where nx: "?h ?x = Some nx" "n_backward nx = bwd ?us"
    using chainD [OF ch] by (auto elim: cell_okE)
  have "\<exists>h'. for_option [0..<?t] (sl_unlink ups ?x) ?h = Some h'
      \<and> levels_to ?h h' (\<lambda>a j. if 0 \<le> j \<and> j < ?t then removed_level ups ?x ?h a j else sl_lev ?h a j)"
  proof (rule levels_loop)
    fix i h' assume i: "i < ?t" and same: "\<And>a. sl_lev h' a i = sl_lev ?h a i"
    obtain ps d rest where k: "?us = ps @ d # rest" "low i rest" "i < c_hgt d" "fst (ups ! i) = c_adr d"
      using foundE [OF f i] by metis
    obtain l where l: "sl_lev ?h (c_adr d) i = Some l" "lv_forward l = fst (fwd i (rest @ c # vs))"
      using chain_level [of ?h ps d "rest @ c # vs" i] ch k(1,3) by auto
    have "\<exists>xl. sl_lev ?h ?x i = Some xl" if "lv_forward l = Some ?x"
    proof -
      have "i < c_hgt c"
      proof (rule ccontr)
        assume "\<not> i < c_hgt c"
        with that l(2) k(2) have "fst (fwd i vs) = Some ?x" by (simp add: fwd_low)
        then have "?x \<in> c_adr ` set vs" by (elim fwd_SomeE) auto
        with dis show False by auto
      qed
      then show ?thesis using chain_level [OF ch] by metis
    qed
    moreover have "c_adr d \<noteq> ?x"
      by (rule ux) (use k(1) in simp)
    ultimately have "\<exists>h''. sl_unlink ups ?x i h' = Some h''
      \<and> levels_to h' h'' (\<lambda>a j. if j = i then removed_level ups ?x h' a i else sl_lev h' a j)"
      using unlink_levels [of h' ups i l ?x] l(1) k(4) same by simp
    moreover have "(\<lambda>a j. if j = i then removed_level ups ?x h' a i else sl_lev h' a j)
        = (\<lambda>a j. if j = i then removed_level ups ?x ?h a i else sl_lev h' a j)"
      by (intro ext) (simp add: removed_level_def same split: option.split)
    ultimately show "\<exists>h''. sl_unlink ups ?x i h' = Some h''
      \<and> levels_to h' h'' (\<lambda>a j. if j = i then removed_level ups ?x ?h a i else sl_lev h' a j)"
      by (simp only:)
  qed
  then obtain h1 where h1: "for_option [0..<?t] (sl_unlink ups ?x) ?h = Some h1" "shape h1 = shape ?h"
      "\<And>a j. sl_lev h1 a j = (if j < ?t then removed_level ups ?x ?h a j else sl_lev ?h a j)"
    by (auto simp: levels_to_def)
  have x_same: "sl_lev h1 ?x i = sl_lev ?h ?x i" for i
  proof (cases "i < ?t")
    case True
    obtain ps d rest where k: "?us = ps @ d # rest" "fst (ups ! i) = c_adr d"
      using foundE [OF f True] by metis
    then have "c_adr d \<noteq> ?x" by (intro ux) simp
    with k(2) True h1(3) show ?thesis by (simp add: removed_level_def)
  qed (simp add: h1(3))
  obtain l where l: "sl_lev h1 ?x 0 = Some l" "lv_forward l = fst (fwd 0 vs)"
    using chain_level [OF ch, of 0] hc(1) x_same by (metis Suc_le_eq One_nat_def)
  have fw: "fst (fwd 0 vs) = (case vs of [] \<Rightarrow> None | c # _ \<Rightarrow> Some (c_adr c))"
    using rep by (intro fwd_0) (auto simp: sl_rep_def)
  obtain n1 where n1: "h1 ?x = Some n1" "n_backward n1 = bwd ?us"
    using arg_cong [OF h1(2), of "\<lambda>f. f ?x"] nx by (auto simp: shape_def)
  obtain h2 where h2: "(case lv_forward l of
          Some y \<Rightarrow> do { h \<leftarrow> sl_set_backward y (n_backward n1) h1; Some (h, sl_tail s) }
        | None \<Rightarrow> Some (h1, n_backward n1)) = Some (h2, if vs = [] then bwd ?us else sl_tail s)"
      "sl_lev h2 = sl_lev h1"
      "\<And>v vs'. vs = v # vs' \<Longrightarrow> shape h2 (c_adr v) = Some (c_val v, c_score v, bwd ?us, c_hgt v)"
      "\<And>a. (vs \<noteq> [] \<longrightarrow> a \<noteq> c_adr (hd vs)) \<Longrightarrow> shape h2 a = shape h1 a"
  proof (cases vs)
    case Nil
    with that [of h1] l fw n1 show ?thesis by simp
  next
    case (Cons v vs')
    have "cell_ok ?h v (bwd (?us @ [c])) vs'"
      using chainD [of ?h "?us @ [c]" v vs'] ch Cons by simp
    then have "shape h1 (c_adr v) = Some (c_val v, c_score v, bwd (?us @ [c]), c_hgt v)"
      using h1(2) by (simp add: cell_ok_iff)
    then obtain h2 where "sl_set_backward (c_adr v) (bwd ?us) h1 = Some h2"
        "shape h2 = (shape h1)(c_adr v \<mapsto> (c_val v, c_score v, bwd ?us, c_hgt v))"
        "\<And>x i. sl_lev h2 x i = sl_lev h1 x i"
      using set_backward by metis
    with that [of h2] Cons l fw n1 show ?thesis by (simp add: fun_eq_iff)
  qed
  have ch2: "chain h2 (?us @ vs)"
    by (rule removed_chain [OF ch _ dis hc(2) f]) (use lows h1 h2 in auto)
  have "\<exists>l. sl_lev h2 (sl_head s) i = Some l \<and> lv_forward l = fst (fwd i (us @ vs))" if "i < MAXLEVEL" for i
    using chain_level [of h2 "[]" "head_cell s" "us @ vs" i] ch2 that by (auto simp: head_cell_def)
  then obtain t' where t': "sl_shrink h2 (sl_head s) ?t = Some t'" "1 \<le> t'" "t' \<le> ?t" "low t' (us @ vs)"
    using shrink [of h2 "sl_head s" "us @ vs" ?t] lows t by auto
  define s' where "s' = s\<lparr>sl_heap := h2, sl_tail := (if vs = [] then bwd ?us else sl_tail s),
    sl_lvl := t', sl_lenth := sl_lenth s + 1\<rparr>"
  have "sl_DeleteNode ?x ups s = Some s'"
    using h1(1) n1(1) l(1) h2(1) t'(1)
    by (simp only: sl_DeleteNode_def Option.bind.simps prod.case s'_def)
  moreover have "sl_rep (sl_FreeNode ?x s') (us @ vs)"
  proof -
    have "chain (h2(?x := None)) (?us @ vs)"
    proof (rule chain_cong)
      show "chain h2 (?us @ vs)"
        using ch2 t'(3) by (fastforce simp: chain_def cell_ok_iff)
      show "(h2(?x := None)) (c_adr d) = h2 (c_adr d)" if "d \<in> set (?us @ vs)" for d
        using ux [OF that] by simp
    qed
    moreover have "h2 a = None" if "sl_brk s \<le> a" "a \<noteq> ?x" for a
    proof -
      have "shape h1 a = None" using rep that(1) h1(2) by (simp add: sl_rep_def shape_None)
      moreover have "a \<noteq> c_adr (hd vs)" if "vs \<noteq> []"
        using chainD [of ?h "?us @ [c]" "hd vs" "tl vs"] ch that calculation h1(2)
        by (auto simp: cell_ok_iff)
      ultimately have "shape h2 a = None" using h2(4) [of a] by simp
      then show ?thesis by (simp only: shape_None)
    qed
    moreover have "head_cell (sl_FreeNode ?x s') = head_cell s"
      by (simp add: s'_def sl_FreeNode_def head_cell_def)
    moreover have "(if vs = [] then bwd ?us else sl_tail s) = (if us @ vs = [] then None else Some (c_adr (last (us @ vs))))"
      using rep by (auto simp: sl_rep_def bwd_def)
    ultimately show ?thesis
      using rep t' t dis by (auto simp: sl_rep_def s'_def sl_FreeNode_def low_def)
  qed
  ultimately show ?thesis using that [of s'] by (simp add: s'_def)
qed

end
