(* ===== verification/SkipListSpec.thy ===== *)
theory SkipListSpec
  imports SkipListUpdate "HOL-Library.Multiset"
begin

text \<open>
  What the skip list promises its user, over the list of pairs of score and member it
  holds: insertion is stable insertion by score, iteration visits the pairs in that order,
  ranks and ranges are positions in it, and deletion takes a member out. The cases in
  which the code breaks these promises (members with equal scores, negative scores, the
  length after a deletion) are stated next to them.
\<close>

section \<open>The pairs a skip list holds\<close>

definition cells_items :: "cell list \<Rightarrow> (real \<times> string) list" where
  "cells_items cs = map (\<lambda>c. (c_score c, c_val c)) cs"

definition sl_holds :: "skiplist \<Rightarrow> (real \<times> string) list \<Rightarrow> bool" where
  "sl_holds s xs \<longleftrightarrow> (\<exists>cs. sl_rep s cs \<and> cells_items cs = xs)"

lemma cells_items_simps [simp]:
  "cells_items [] = []" "cells_items (c # cs) = (c_score c, c_val c) # cells_items cs"
  "cells_items (as @ bs) = cells_items as @ cells_items bs" "length (cells_items cs) = length cs"
  "cells_items cs = [] \<longleftrightarrow> cs = []"
  by (simp_all add: cells_items_def)

lemma map_fst_cells_items: "map fst (cells_items cs) = map c_score cs"
  by (simp add: cells_items_def)

lemma cells_items_split:
  assumes "cells_items cs = ys @ zs"
  obtains us vs where "cs = us @ vs" "cells_items us = ys" "cells_items vs = zs"
  using assms by (auto simp: cells_items_def map_eq_append_conv)

lemma sl_holds_splitE:
  assumes "sl_holds s (ys @ (score, val) # zs)"
  obtains us c vs where "sl_rep s (us @ c # vs)" "cells_items us = ys" "c_score c = score"
    "c_val c = val" "cells_items vs = zs"
proof -
  from assms obtain cs where cs: "sl_rep s cs" "cells_items cs = ys @ (score, val) # zs"
    by (auto simp: sl_holds_def)
  then obtain us ws where u: "cs = us @ ws" "cells_items us = ys" "cells_items ws = (score, val) # zs"
    by (elim cells_items_split)
  then obtain c vs where "ws = c # vs" by (cases ws) auto
  with that cs u show ?thesis by auto
qed

lemma sl_new_rep: "sl_rep sl_new []"
proof -
  have "chain (sl_heap sl_new) [head_cell sl_new]"
    unfolding chain_def
    by (auto simp: Cons_eq_append_conv cell_ok_iff sl_new_def sl_InitHead_def sl_MakeNode_def head_cell_def
        shape_def new_node_def sl_lev_def bwd_def)
  then show ?thesis
    by (auto simp: sl_rep_def sl_new_def sl_InitHead_def sl_MakeNode_def MAXLEVEL_def)
qed

lemma sl_new_holds: "sl_holds sl_new []" "sl_lenth sl_new = 0"
  using sl_new_rep by (auto simp: sl_holds_def sl_new_def sl_InitHead_def sl_MakeNode_def)

section \<open>Tests on score and member\<close>

lemma rep_node:
  assumes "sl_rep s cs" "c \<in> set cs"
  obtains n where "sl_heap s (c_adr c) = Some n" "n_score n = c_score c" "d_val (n_data n) = c_val c"
proof -
  from assms(2) obtain ps qs where "cs = ps @ c # qs" by (meson split_list)
  with assms(1) have "chain (sl_heap s) ((head_cell s # ps) @ c # qs)" by (simp add: sl_rep_def)
  from chainD [OF this] that show ?thesis by (elim cell_okE) auto
qed

lemma tests_score:
  assumes rep: "sl_rep s (us @ vs)"
    and us: "\<And>c. c \<in> set us \<Longrightarrow> Q (c_score c) (c_val c)" and vs: "\<And>c. c \<in> set vs \<Longrightarrow> \<not> Q (c_score c) (c_val c)"
    and P: "\<And>n r. P n r \<longleftrightarrow> Q (n_score n) (d_val (n_data n))"
  shows "tests_prefix (sl_heap s) P (head_cell s # us @ vs) (Suc (length us))"
  unfolding tests_prefix_def
proof (intro allI impI, elim conjE)
  fix ps c qs n r
  assume e: "head_cell s # us @ vs = ps @ c # qs" "ps \<noteq> []" and n: "sl_heap s (c_adr c) = Some n"
  then obtain ps' where ps: "ps = head_cell s # ps'" "us @ vs = ps' @ c # qs" by (cases ps) auto
  then have nth: "(us @ vs) ! length ps' = c" by simp
  from ps(2) have mem: "c \<in> set (us @ vs)" by simp
  obtain n' where "sl_heap s (c_adr c) = Some n'" "n_score n' = c_score c" "d_val (n_data n') = c_val c"
    using rep_node [OF rep mem] .
  with n P have "P n r \<longleftrightarrow> Q (c_score c) (c_val c)" by simp
  moreover have "Q (c_score c) (c_val c) \<longleftrightarrow> length ps' < length us"
  proof (cases "length ps' < length us")
    case True
    with nth have "c \<in> set us" by (auto simp: nth_append)
    with us True show ?thesis by simp
  next
    case False
    moreover have "length ps' < length (us @ vs)" using ps(2) by simp
    ultimately have "c \<in> set vs" using nth by (auto simp: nth_append)
    with vs False show ?thesis by simp
  qed
  ultimately show "P n r \<longleftrightarrow> length ps < Suc (length us)" by (simp add: ps(1))
qed

section \<open>Insertion\<close>

text \<open>Stable insertion: behind everything that does not score higher.\<close>

definition put :: "real \<times> string \<Rightarrow> (real \<times> string) list \<Rightarrow> (real \<times> string) list" where
  "put x xs = takeWhile (\<lambda>y. fst y \<le> fst x) xs @ x # dropWhile (\<lambda>y. fst y \<le> fst x) xs"

lemma set_put [simp]: "set (put x xs) = insert x (set xs)"
  unfolding put_def by (metis Un_insert_right list.simps(15) set_append takeWhile_dropWhile_id)

lemma length_put [simp]: "length (put x xs) = Suc (length xs)"
proof -
  have "length xs = length (takeWhile (\<lambda>y. fst y \<le> fst x) xs) + length (dropWhile (\<lambda>y. fst y \<le> fst x) xs)"
    by (metis length_append takeWhile_dropWhile_id)
  then show ?thesis by (simp add: put_def)
qed

lemma sorted_above: "sorted (map fst xs) \<Longrightarrow> y \<in> set (dropWhile (\<lambda>y. fst y \<le> (k :: real)) xs) \<Longrightarrow> k < fst y"
  by (induction xs) (auto split: if_splits)

lemma put_simps:
  "put x [] = [x]" "put x (y # ys) = (if fst y \<le> fst x then y # put x ys else x # y # ys)"
  by (simp_all add: put_def)

lemma sorted_put: "sorted (map fst xs) \<Longrightarrow> sorted (map fst (put x xs))"
  by (induction xs) (auto simp: put_simps)

lemma put_sort_key: "put x (sort_key fst xs) = sort_key fst (xs @ [x])"
proof (rule sym, rule properties_for_sort_key)
  let ?s = "sort_key fst xs" and ?p = "\<lambda>y. fst y \<le> fst x"
  have split: "mset (takeWhile ?p ?s) + mset (dropWhile ?p ?s) = mset xs"
    by (metis mset_append mset_sort takeWhile_dropWhile_id)
  then show "mset (put x ?s) = mset (xs @ [x])" by (simp add: put_def flip: split)
  show "sorted (map fst (put x ?s))" by (rule sorted_put) simp
  show "filter (\<lambda>y. fst k = fst y) (put x ?s) = filter (\<lambda>y. fst k = fst y) (xs @ [x])" for k
  proof -
    have f: "filter (\<lambda>y. fst k = fst y) ?s = filter (\<lambda>y. fst k = fst y) xs"
      using sort_key_stable [of fst "fst k" xs] by (simp add: eq_commute)
    have d: "filter (\<lambda>y. fst x = fst y) (dropWhile ?p ?s) = []"
      using sorted_above [of ?s _ "fst x"] by (force simp: filter_empty_conv)
    have "filter (\<lambda>y. fst k = fst y) ?s
        = filter (\<lambda>y. fst k = fst y) (takeWhile ?p ?s) @ filter (\<lambda>y. fst k = fst y) (dropWhile ?p ?s)"
      by (metis filter_append takeWhile_dropWhile_id)
    with f d show ?thesis by (cases "fst k = fst x") (simp_all add: put_def)
  qed
qed

lemma Insert_holds:
  assumes h: "sl_holds s xs" and srt: "sorted (map fst xs)" and new: "(score, val) \<notin> set xs"
  obtains s' where "sl_Insert rnd score val s = Some s'" "sl_holds s' (put (score, val) xs)"
    "sl_lenth s' = sl_lenth s + 1"
proof -
  let ?ys = "takeWhile (\<lambda>y. fst y \<le> score) xs" and ?zs = "dropWhile (\<lambda>y. fst y \<le> score) xs"
  obtain cs where cs: "sl_rep s cs" "cells_items cs = ?ys @ ?zs" using h by (auto simp: sl_holds_def)
  then obtain us vs where u: "cs = us @ vs" "cells_items us = ?ys" "cells_items vs = ?zs"
    by (elim cells_items_split)
  have memb: "(c_score d, c_val d) \<in> set (cells_items ds)" if "d \<in> set ds" for d ds
    using that by (auto simp: cells_items_def)
  let ?Q = "\<lambda>t v. t < score \<or> (t = score \<and> \<not> val_cmp v val)"
  have "tests_prefix (sl_heap s) (before_member score val) (head_cell s # us @ vs) (Suc (length us))"
  proof (rule tests_score [OF cs(1) [unfolded u(1)], where Q = ?Q])
    fix d assume "d \<in> set us"
    then have "(c_score d, c_val d) \<in> set ?ys" using memb u(2) by metis
    then have "c_score d \<le> score" "(c_score d, c_val d) \<in> set xs" by (auto dest: set_takeWhileD)
    with new show "?Q (c_score d) (c_val d)" by (auto simp: val_cmp_def)
  next
    fix d assume "d \<in> set vs"
    then have "(c_score d, c_val d) \<in> set ?zs" using memb u(3) by metis
    with sorted_above [OF srt this] show "\<not> ?Q (c_score d) (c_val d)" by simp
  qed (simp add: before_member_def)
  from Insert_rep [OF cs(1) [unfolded u(1)] this] obtain s' c where
    "sl_Insert rnd score val s = Some s'" "c_score c = score" "c_val c = val"
    "sl_rep s' (us @ c # vs)" "sl_lenth s' = sl_lenth s + 1" by metis
  moreover from this u have "sl_holds s' (put (score, val) xs)"
    unfolding sl_holds_def put_def by (intro exI [of _ "us @ c # vs"]) simp
  ultimately show ?thesis using that by blast
qed

section \<open>Iteration\<close>

text \<open>The pairs a loop \<open>for (; it != end(); ++it)\<close> visits.\<close>

partial_function (option) sl_collect :: "skiplist \<Rightarrow> sl_itr \<Rightarrow> (real \<times> string) list option" where
  "sl_collect s it = do {
     e \<leftarrow> sl_end s;
     if sl_itr_eq it e then Some [] else do {
       n \<leftarrow> sl_deref s it;
       it' \<leftarrow> sl_itr_next s it;
       rest \<leftarrow> sl_collect s it';
       Some ((n_score n, d_val (n_data n)) # rest)
     }
   }"

declare sl_collect.simps [code]

definition sl_contents :: "skiplist \<Rightarrow> (real \<times> string) list option" where
  "sl_contents s = do { it \<leftarrow> sl_being s; sl_collect s it }"

definition adr_hd :: "cell list \<Rightarrow> nat option" where
  "adr_hd cs = (case cs of [] \<Rightarrow> None | c # _ \<Rightarrow> Some (c_adr c))"

lemma rep_level0:
  assumes "sl_rep s cs" "head_cell s # cs = ps @ c # qs"
  obtains l where "sl_lev (sl_heap s) (c_adr c) 0 = Some l" "lv_forward l = adr_hd qs"
proof -
  have ch: "chain (sl_heap s) (ps @ c # qs)" using assms by (simp add: sl_rep_def)
  have ones: "\<forall>c \<in> set cs. 1 \<le> c_hgt c" using assms(1) by (simp add: sl_rep_def)
  with assms(2) have "\<forall>c \<in> set qs. 1 \<le> c_hgt c" "0 < c_hgt c"
    by (cases ps; auto simp: head_cell_def MAXLEVEL_def Suc_le_eq)+
  with chain_level [OF ch, of 0] fwd_0 [of qs] that show ?thesis
    by (metis adr_hd_def)
qed

lemma rep_level0_last:
  assumes "sl_rep s (us @ vs)"
  obtains l where "sl_lev (sl_heap s) (c_adr (last (head_cell s # us))) 0 = Some l" "lv_forward l = adr_hd vs"
proof -
  have "head_cell s # us @ vs = butlast (head_cell s # us) @ last (head_cell s # us) # vs"
    by (metis append_Cons append_butlast_last_id append_eq_append_conv2 append_Nil list.distinct(1) append.assoc)
  from rep_level0 [OF assms this] that show ?thesis by blast
qed

text \<open>Where a search over a prefix test stops, and the cell behind it.\<close>

lemma find_stop:
  fixes P :: "sl_node \<Rightarrow> 'r::len word \<Rightarrow> bool"
  assumes rep: "sl_rep s (us @ vs)"
    and P: "tests_prefix (sl_heap s) P (head_cell s # us @ vs) (Suc (length us))"
    and small: "LENGTH('r) \<le> 32 \<or> length (us @ vs) < 2 ^ 31"
  obtains ups l where "sl_find P s = Some ((c_adr (last (head_cell s # us)), of_nat (length us)), ups)"
    "sl_lev (sl_heap s) (c_adr (last (head_cell s # us))) 0 = Some l" "lv_forward l = adr_hd vs"
proof -
  obtain ups where ups: "sl_find P s = Some (ups ! 0, ups)"
      "fst (ups ! 0) = c_adr (last (head_cell s # us))" "snd (ups ! 0) = of_nat (length us)"
    by (rule find_prefix [OF rep P small]) blast
  then have "sl_find P s = Some ((c_adr (last (head_cell s # us)), of_nat (length us)), ups)"
    by (metis prod.collapse)
  with that rep_level0_last [OF rep] show ?thesis by metis
qed

lemma rep_iterator:
  assumes "sl_rep s cs" "cs \<noteq> []"
  shows "sl_iterator p s = Some \<lparr>it_pos = p, it_end = None\<rparr>"
    and "sl_end s = Some \<lparr>it_pos = None, it_end = None\<rparr>"
proof -
  have t: "sl_tail s = Some (c_adr (last cs))" using assms by (simp add: sl_rep_def)
  have "head_cell s # cs = (head_cell s # butlast cs) @ last cs # []" using assms(2) by simp
  from rep_level0 [OF assms(1) this] obtain l where
    l: "sl_lev (sl_heap s) (c_adr (last cs)) 0 = Some l" "lv_forward l = None" by (auto simp: adr_hd_def)
  with t show "sl_iterator p s = Some \<lparr>it_pos = p, it_end = None\<rparr>"
    "sl_end s = Some \<lparr>it_pos = None, it_end = None\<rparr>"
    by (simp_all add: sl_iterator_def sl_end_def)
qed

lemma rep_being: "sl_rep s cs \<Longrightarrow> cs \<noteq> [] \<Longrightarrow> sl_being s = Some \<lparr>it_pos = adr_hd cs, it_end = None\<rparr>"
  using rep_level0 [of s cs "[]" "head_cell s" cs] rep_iterator(1) [of s cs "adr_hd cs"]
  by (fastforce simp: sl_being_def head_cell_def)

lemma collect_rep:
  assumes "sl_rep s (us @ vs)" "us @ vs \<noteq> []"
  shows "sl_collect s \<lparr>it_pos = adr_hd vs, it_end = None\<rparr> = Some (cells_items vs)"
  using assms
proof (induction vs arbitrary: us)
  case Nil
  with rep_iterator(2) [OF Nil] show ?case
    by (subst sl_collect.simps) (simp add: sl_itr_eq_def adr_hd_def)
next
  case (Cons c vs)
  obtain n where n: "sl_heap s (c_adr c) = Some n" "n_score n = c_score c" "d_val (n_data n) = c_val c"
    by (rule rep_node [OF Cons.prems(1), of c]) auto
  obtain l where l: "sl_lev (sl_heap s) (c_adr c) 0 = Some l" "lv_forward l = adr_hd vs"
    using rep_level0 [OF Cons.prems(1), of "head_cell s # us" c vs] by auto
  have "sl_collect s \<lparr>it_pos = adr_hd vs, it_end = None\<rparr> = Some (cells_items vs)"
    using Cons.IH [of "us @ [c]"] Cons.prems by simp
  with n l rep_iterator(2) [OF Cons.prems] show ?case
    by (subst sl_collect.simps) (simp add: sl_itr_eq_def adr_hd_def sl_deref_def sl_itr_next_def)
qed

lemma contents_holds: "sl_holds s xs \<Longrightarrow> xs \<noteq> [] \<Longrightarrow> sl_contents s = Some xs"
  by (auto simp: sl_holds_def sl_contents_def rep_being collect_rep [of s "[]", simplified])

section \<open>Sequences of insertions\<close>

fun sl_Inserts :: "((nat \<Rightarrow> int) \<times> real \<times> string) list \<Rightarrow> skiplist \<Rightarrow> skiplist option" where
  "sl_Inserts [] s = Some s"
| "sl_Inserts ((rnd, score, val) # xs) s = do { s \<leftarrow> sl_Insert rnd score val s; sl_Inserts xs s }"

lemma Inserts_holds:
  assumes "sl_holds s (sort_key fst ys)" "distinct (ys @ map snd xs)"
  shows "\<exists>s'. sl_Inserts xs s = Some s' \<and> sl_holds s' (sort_key fst (ys @ map snd xs))
    \<and> sl_lenth s' = sl_lenth s + of_nat (length xs)"
  using assms
proof (induction xs arbitrary: s ys)
  case (Cons x xs)
  obtain rnd score val where x: "x = (rnd, score, val)" by (cases x)
  have new: "(score, val) \<notin> set (sort_key fst ys)" using Cons.prems(2) x by auto
  obtain s1 where s1: "sl_Insert rnd score val s = Some s1"
      "sl_holds s1 (put (score, val) (sort_key fst ys))" "sl_lenth s1 = sl_lenth s + 1"
    by (rule Insert_holds [OF Cons.prems(1) _ new]) auto
  then have "\<exists>s'. sl_Inserts xs s1 = Some s' \<and> sl_holds s' (sort_key fst ((ys @ [(score, val)]) @ map snd xs))
    \<and> sl_lenth s' = sl_lenth s1 + of_nat (length xs)"
    using Cons.prems(2) x by (intro Cons.IH) (simp_all add: put_sort_key)
  with s1 x show ?case by (auto simp: add.assoc)
qed simp

lemma Inserts_new:
  assumes "distinct (map snd xs)"
  obtains s where "sl_Inserts xs sl_new = Some s" "sl_holds s (sort_key fst (map snd xs))"
    "sl_lenth s = of_nat (length xs)"
  using Inserts_holds [of sl_new "[]" xs] sl_new_holds assms by auto

section \<open>Deletion\<close>

lemma Delete_holds:
  assumes h: "sl_holds s (ys @ (score, val) # zs)"
    and ys: "\<And>t v. (t, v) \<in> set ys \<Longrightarrow> t \<le> score \<and> (t, v) \<noteq> (score, val)"
    and zs: "\<And>t v. (t, v) \<in> set zs \<Longrightarrow> score < t"
  obtains s' where "sl_Delete score val s = Some (0, s')" "sl_holds s' (ys @ zs)"
    "sl_lenth s' = sl_lenth s + 1"
proof -
  obtain us c vs where r: "sl_rep s (us @ c # vs)" "cells_items us = ys" "c_score c = score"
      "c_val c = val" "cells_items vs = zs"
    using h by (rule sl_holds_splitE)
  have memb: "(c_score d, c_val d) \<in> set (cells_items ds)" if "d \<in> set ds" for d ds
    using that by (auto simp: cells_items_def)
  let ?Q = "\<lambda>t v. t < score \<or> (t = score \<and> \<not> val_cmp v val)"
  have P: "tests_prefix (sl_heap s) (before_member score val) (head_cell s # us @ c # vs) (Suc (length us))"
  proof (rule tests_score [OF r(1), where Q = ?Q])
    fix d assume "d \<in> set us"
    then have "(c_score d, c_val d) \<in> set ys" using memb r(2) by metis
    from ys [OF this] show "?Q (c_score d) (c_val d)" by (auto simp: val_cmp_def)
  next
    fix d assume "d \<in> set (c # vs)"
    then consider "d = c" | "(c_score d, c_val d) \<in> set zs" using memb r(5) by (metis set_ConsD)
    then show "\<not> ?Q (c_score d) (c_val d)" using zs r(3,4) by cases (fastforce simp: val_cmp_def)+
  qed (simp add: before_member_def)
  obtain ups where u: "sl_find (before_member score val) s = Some (ups ! 0, ups)"
      "found (sl_lvl s) (head_cell s # us) ups"
    by (rule find_found [OF r(1) P])
  then have u3: "fst (ups ! 0) = c_adr (last (head_cell s # us))" by (simp add: found_def)
  obtain l where l: "sl_lev (sl_heap s) (fst (ups ! 0)) 0 = Some l" "lv_forward l = Some (c_adr c)"
    using rep_level0_last [OF r(1)] u3 by (auto simp: adr_hd_def)
  obtain n where n: "sl_heap s (c_adr c) = Some n" "n_score n = score" "d_val (n_data n) = val"
    using rep_node [OF r(1), of c] r(3,4) by auto
  obtain s' where s': "sl_DeleteNode (c_adr c) ups s = Some s'"
      "sl_rep (sl_FreeNode (c_adr c) s') (us @ vs)" "sl_lenth s' = sl_lenth s + 1"
    by (rule DeleteNode_rep [OF r(1) u(2)])
  show ?thesis
  proof (rule that)
    show "sl_Delete score val s = Some (0, sl_FreeNode (c_adr c) s')"
      using u(1) l n s'(1) by (simp add: sl_Delete_def split_beta val_cmp_def)
    show "sl_holds (sl_FreeNode (c_adr c) s') (ys @ zs)"
      unfolding sl_holds_def using s'(2) r(2,5) by (intro exI [of _ "us @ vs"]) simp
  qed (use s'(3) in \<open>simp add: sl_FreeNode_def\<close>)
qed

section \<open>Ranks\<close>

text \<open>
  \<open>GetRank\<close> walks as a search does that stops in front of the member, and then looks at
  the next node.
\<close>

definition on_rank_walk :: "real \<Rightarrow> string \<Rightarrow> sl_node \<Rightarrow> 64 word \<Rightarrow> bool" where
  "on_rank_walk score val n r \<longleftrightarrow> n_score n \<le> score \<and> \<not> val_cmp (d_val (n_data n)) val"

definition rank_stop :: "sl_heap \<Rightarrow> real \<Rightarrow> nat \<Rightarrow> nat \<times> 64 word \<Rightarrow> (64 word + nat \<times> 64 word) option" where
  "rank_stop h score i xr = do {
     l \<leftarrow> sl_lev h (fst xr) i;
     (case lv_forward l of
        None \<Rightarrow> Some (Inr xr)
      | Some y \<Rightarrow> do {
          n \<leftarrow> h y;
          Some (if n_score n \<le> score then Inl (snd xr + ucast (lv_span l)) else Inr xr)
        })
   }"

lemma sl_advance_induct [consumes 1, case_names nil stop go]:
  assumes "sl_advance h P i x r = Some xr"
    and nil: "\<And>x r l. sl_lev h x i = Some l \<Longrightarrow> lv_forward l = None \<Longrightarrow> Q x r (x, r)"
    and stop: "\<And>x r l y n. sl_lev h x i = Some l \<Longrightarrow> lv_forward l = Some y \<Longrightarrow> h y = Some n
      \<Longrightarrow> \<not> P n (r + ucast (lv_span l)) \<Longrightarrow> Q x r (x, r)"
    and go: "\<And>x r l y n xr. sl_lev h x i = Some l \<Longrightarrow> lv_forward l = Some y \<Longrightarrow> h y = Some n
      \<Longrightarrow> P n (r + ucast (lv_span l)) \<Longrightarrow> Q y (r + ucast (lv_span l)) xr \<Longrightarrow> Q x r xr"
  shows "Q x r xr"
proof -
  have "case ((((h, P), i), x), r) of ((((h', P'), i'), x), r) \<Rightarrow> h' = h \<and> P' = P \<and> i' = i \<longrightarrow> Q x r xr"
  proof (rule sl_advance.raw_induct [where Pa = "\<lambda>z xr. case z of ((((h', P'), i'), x), r) \<Rightarrow> h' = h \<and> P' = P \<and> i' = i \<longrightarrow> Q x r xr"])
    show "(case ((((h, P), i), x), r) of (x, xa) \<Rightarrow> (case x of (x, xa) \<Rightarrow> (case x of (x, xa) \<Rightarrow>
        (case x of (x, xa) \<Rightarrow> sl_advance x xa) xa) xa) xa) = Some xr"
      using assms(1) by simp
  qed (use nil stop go in \<open>auto split: bind_splits option.splits if_splits; blast\<close>)
  then show ?thesis by simp
qed

lemma rank_advance:
  "sl_advance h (on_rank_walk score val) i x r = Some xr
     \<Longrightarrow> sl_rank_advance h score val i x r = rank_stop h score i xr"
proof (induction rule: sl_advance_induct)
  case (nil x r l)
  then show ?case by (subst sl_rank_advance.simps) (simp add: rank_stop_def)
next
  case (stop x r l y n)
  then show ?case by (subst sl_rank_advance.simps) (auto simp: rank_stop_def on_rank_walk_def)
next
  case (go x r l y n xr)
  then show ?case by (subst sl_rank_advance.simps) (auto simp: on_rank_walk_def)
qed

lemma rank_descend:
  assumes rep: "sl_rep s (us @ c # vs)" and small: "length (us @ c # vs) < 2 ^ 31"
    and us: "\<And>d. d \<in> set us \<Longrightarrow> c_score d \<le> score \<and> c_val d \<noteq> val"
    and c: "c_score c = score" "c_val c = val" and vs: "\<And>d. d \<in> set vs \<Longrightarrow> score < c_score d"
  shows "m \<le> sl_lvl s \<Longrightarrow> 0 < m \<Longrightarrow> head_cell s # us = ps @ rest \<Longrightarrow> ps \<noteq> [] \<Longrightarrow> m \<le> c_hgt (last ps)
    \<Longrightarrow> r = of_nat (length ps - 1)
    \<Longrightarrow> sl_rank_descend (sl_heap s) score val m (c_adr (last ps)) r = Some (of_nat (Suc (length us)))"
proof (induction m arbitrary: ps rest r)
  case (Suc m)
  let ?us = "head_cell s # us" and ?h = "sl_heap s"
  have ch: "chain ?h (?us @ c # vs)" using rep by (simp add: sl_rep_def)
  have hgt: "1 \<le> c_hgt c" using rep by (simp add: sl_rep_def)
  have "tests_prefix ?h (on_rank_walk score val) (head_cell s # us @ c # vs) (Suc (length us))"
    by (rule tests_score [OF rep, where Q = "\<lambda>t v. t \<le> score \<and> \<not> val_cmp v val"])
      (use us c vs in \<open>auto simp: on_rank_walk_def val_cmp_def dest: vs\<close>)
  then have P: "tests_prefix ?h (on_rank_walk score val) (?us @ c # vs) (length ?us)" by simp
  have small': "LENGTH(64) \<le> 32 \<or> length (?us @ c # vs) < 2 ^ 32" using small by simp
  define r' :: "64 word" where "r' = of_nat (length (kept m ?us) - 1)"
  have r': "sl_advance ?h (on_rank_walk score val) m (c_adr (last ps)) r
        = Some (c_adr (last (kept m ?us)), r')"
    unfolding r'_def using advance [OF ch P small', of ps rest m r] Suc.prems by auto
  obtain rest' where k: "?us = kept m ?us @ rest'" "low m rest'" using kept_split by blast
  have ne: "kept m ?us \<noteq> []"
    using Suc.prems(1) rep by (intro kept_Cons_ne) (auto simp: head_cell_def sl_rep_def)
  have hi: "m < c_hgt (last (kept m ?us))" by (rule kept_high [OF ne])
  have fs: "?us @ c # vs = butlast (kept m ?us) @ last (kept m ?us) # rest' @ c # vs"
    using k(1) ne by (metis append.assoc append_Cons append_Nil append_butlast_last_id)
  obtain l where l: "sl_lev ?h (c_adr (last (kept m ?us))) m = Some l"
      "lv_forward l = fst (fwd m (rest' @ c # vs))"
      "fst (fwd m (rest' @ c # vs)) \<noteq> None \<Longrightarrow> lv_span l = of_nat (snd (fwd m (rest' @ c # vs)))"
    using chain_level [OF ch [unfolded fs] hi] by metis
  show ?case
  proof (cases "m < c_hgt c")
    case True
    obtain n where n: "?h (c_adr c) = Some n" "n_score n = score"
      using rep_node [OF rep, of c] c by auto
    have len: "length ?us = length (kept m ?us) + length rest'" using arg_cong [OF k(1), of length] by simp
    have "Suc (length rest') < 2 ^ 32" using len small ne by (cases "kept m ?us") auto
    then have "ucast (of_nat (Suc (length rest')) :: 32 word) = (of_nat (Suc (length rest')) :: 64 word)"
      by (intro ucast_exact) simp
    moreover have "length us = (length (kept m ?us) - 1) + length rest'" using len ne by (cases "kept m ?us") auto
    ultimately have "r' + ucast (lv_span l) = of_nat (Suc (length us))"
      using r'_def l(3) k(2) True by (simp add: fwd_hit)
    with n l k(2) True rank_advance [OF r'] show ?thesis
      by (simp add: rank_stop_def fwd_hit)
  next
    case False
    then have "m \<noteq> 0" using hgt by (cases m) auto
    have "rank_stop ?h score m (c_adr (last (kept m ?us)), r') = Some (Inr (c_adr (last (kept m ?us)), r'))"
    proof (cases "fst (fwd m vs)")
      case None
      with l k(2) False show ?thesis by (simp add: rank_stop_def fwd_low)
    next
      case (Some y)
      then obtain as d bs where "vs = as @ d # bs" "c_adr d = y" by (elim fwd_SomeE)
      then have d: "d \<in> set vs" "c_adr d = y" by auto
      then obtain n where "?h y = Some n" "n_score n = c_score d"
        using rep_node [OF rep, of d] by auto
      with vs [OF d(1)] Some l k(2) False show ?thesis by (simp add: rank_stop_def fwd_low)
    qed
    moreover have "sl_rank_descend ?h score val m (c_adr (last (kept m ?us))) r' = Some (of_nat (Suc (length us)))"
      using Suc.IH [of "kept m ?us" rest' r'] Suc.prems(1) k(1) ne hi r'_def \<open>m \<noteq> 0\<close> by simp
    ultimately show ?thesis using rank_advance [OF r'] by simp
  qed
qed simp

lemma GetRank_holds:
  assumes h: "sl_holds s (ys @ (score, val) # zs)" and small: "length (ys @ zs) < 2 ^ 31 - 1"
    and ys: "\<And>t v. (t, v) \<in> set ys \<Longrightarrow> t \<le> score \<and> v \<noteq> val"
    and zs: "\<And>t v. (t, v) \<in> set zs \<Longrightarrow> score < t"
  shows "sl_GetRank score val s = Some (of_nat (Suc (length ys)))"
proof -
  obtain us c vs where r: "sl_rep s (us @ c # vs)" "cells_items us = ys" "c_score c = score"
      "c_val c = val" "cells_items vs = zs"
    using h by (rule sl_holds_splitE)
  have memb: "(c_score d, c_val d) \<in> set (cells_items ds)" if "d \<in> set ds" for d ds
    using that by (auto simp: cells_items_def)
  have len: "length us = length ys" "length vs = length zs" using r(2,5) cells_items_simps(4) by metis+
  have "sl_rank_descend (sl_heap s) score val (sl_lvl s) (c_adr (last [head_cell s])) 0
      = Some (of_nat (Suc (length us)))"
  proof (rule rank_descend [OF r(1), where rest = us])
    show "c_score d \<le> score \<and> c_val d \<noteq> val" if "d \<in> set us" for d
      using memb [OF that] r(2) ys by metis
    show "score < c_score d" if "d \<in> set vs" for d using memb [OF that] r(5) zs by metis
  qed (use r small len in \<open>auto simp: sl_rep_def head_cell_def\<close>)
  with len show ?thesis by (simp add: sl_GetRank_def head_cell_def)
qed

section \<open>Ranges\<close>

text \<open>The pair an iterator stands on, \<open>None\<close> at the end.\<close>

definition sl_item :: "skiplist \<Rightarrow> sl_itr \<Rightarrow> (real \<times> string) option" where
  "sl_item s it = map_option (\<lambda>n. (n_score n, d_val (n_data n))) (sl_deref s it)"

text \<open>\<open>it\<close> is an iterator into the list: on \<open>x\<close>, or at the end.\<close>

definition sl_points :: "skiplist \<Rightarrow> sl_itr \<Rightarrow> (real \<times> string) option \<Rightarrow> bool" where
  "sl_points s it x \<longleftrightarrow> it_end it = None \<and> (it_pos it = None \<longleftrightarrow> x = None) \<and> sl_item s it = x"

lemma points_adr_hd:
  assumes "sl_rep s (us @ vs)"
  shows "sl_points s \<lparr>it_pos = adr_hd vs, it_end = None\<rparr>
    (case vs of [] \<Rightarrow> None | c # _ \<Rightarrow> Some (c_score c, c_val c))"
proof (cases vs)
  case (Cons c vs')
  then obtain n where "sl_heap s (c_adr c) = Some n" "n_score n = c_score c" "d_val (n_data n) = c_val c"
    using rep_node [OF assms, of c] by auto
  with Cons show ?thesis by (simp add: sl_points_def sl_item_def sl_deref_def adr_hd_def)
qed (simp add: sl_points_def sl_item_def sl_deref_def adr_hd_def)

lemma points_end: "sl_points s \<lparr>it_pos = None, it_end = None\<rparr> None"
  by (simp add: sl_points_def sl_item_def sl_deref_def)

lemma FirstInRangeByIdx_from:
  assumes h: "sl_holds s xs" and c: "length xs < 2 ^ 31" "length xs \<le> unat (sl_lenth s)" and ne: "xs \<noteq> []"
    and lo: "0 < r_min rng"
  obtains it where "sl_FirstInRangeByIdx rng s = Some it"
    "sl_points s it (if r_min rng \<le> r_max rng \<and> unat (r_min rng) \<le> length xs
       then Some (xs ! (unat (r_min rng) - 1)) else None)"
    "r_min rng \<le> r_max rng \<and> unat (r_min rng) \<le> length xs
       \<longrightarrow> sl_collect s it = Some (drop (unat (r_min rng) - 1) xs)"
proof -
  obtain cs where cs: "sl_rep s cs" "cells_items cs = xs" using h by (auto simp: sl_holds_def)
  then have ne': "cs \<noteq> []" and len: "length cs = length xs" using ne by auto
  note it = rep_iterator [OF cs(1) ne']
  let ?m = "unat (r_min rng)"
  have m: "0 < ?m" using lo by (simp add: word_less_nat_alt)
  show ?thesis
  proof (cases "r_max rng < r_min rng \<or> r_min rng > sl_lenth s")
    case True
    then have "sl_FirstInRangeByIdx rng s = Some \<lparr>it_pos = None, it_end = None\<rparr>"
      using it(2) by (auto simp: sl_FirstInRangeByIdx_def)
    moreover have "\<not> (r_min rng \<le> r_max rng \<and> ?m \<le> length xs)"
      using True c(2) by (auto simp: not_le word_less_nat_alt)
    ultimately show ?thesis using that points_end [of s] by auto
  next
    case False
    define us vs where "us = take (?m - 1) cs" and "vs = drop (?m - 1) cs"
    have split: "cs = us @ vs" by (simp add: us_def vs_def)
    have lu: "length us = min (length xs) (?m - 1)" by (simp add: us_def len)
    have P: "tests_prefix (sl_heap s) (\<lambda>n (t :: 64 word). t < r_min rng)
        (head_cell s # us @ vs) (Suc (length us))"
      unfolding tests_prefix_def
    proof (intro allI impI, elim conjE)
      fix ps d qs nd and t :: "64 word"
      assume e: "head_cell s # us @ vs = ps @ d # qs" and t: "t = of_nat (length ps)"
      have l: "length ps \<le> length xs" using arg_cong [OF e, of length] split len by simp
      then have "unat t = length ps" using t c(1) by (simp add: unat_of_nat_small)
      then show "t < r_min rng \<longleftrightarrow> length ps < Suc (length us)"
        using lu m l by (auto simp: word_less_nat_alt)
    qed
    have "LENGTH(64) \<le> 32 \<or> length (us @ vs) < 2 ^ 31" using c len split by simp
    then obtain ups l where f: "sl_find (\<lambda>n (t :: 64 word). t < r_min rng) s
          = Some ((c_adr (last (head_cell s # us)), of_nat (length us)), ups)"
        "sl_lev (sl_heap s) (c_adr (last (head_cell s # us))) 0 = Some l" "lv_forward l = adr_hd vs"
      by (rule find_stop [OF cs(1) [unfolded split] P])
    show ?thesis
    proof (cases "?m \<le> length xs")
      case in_list: True
      then obtain d vs' where vs: "vs = d # vs'" using len m by (cases vs) (auto simp: vs_def)
      have "of_nat (length us) + 1 = (of_nat ?m :: 64 word)" using lu in_list m by (cases ?m) auto
      then have "of_nat (length us) + 1 = r_min rng" by simp
      then have "sl_FirstInRangeByIdx rng s = Some \<lparr>it_pos = adr_hd vs, it_end = None\<rparr>"
        using False f vs it by (simp add: sl_FirstInRangeByIdx_def not_less adr_hd_def)
      moreover have "xs ! (?m - 1) = (c_score d, c_val d)"
        using cs(2) split vs lu in_list by (auto simp: nth_append)
      moreover have "sl_collect s \<lparr>it_pos = adr_hd vs, it_end = None\<rparr> = Some (cells_items vs)"
        using collect_rep [OF cs(1) [unfolded split]] vs by simp
      moreover have "cells_items vs = drop (?m - 1) xs"
        using cs(2) by (auto simp: vs_def cells_items_def drop_map)
      ultimately show ?thesis
        using that points_adr_hd [OF cs(1) [unfolded split]] vs False in_list by (auto simp: not_less)
    next
      case out: False
      then have "vs = []" using len by (simp add: vs_def)
      then have "sl_FirstInRangeByIdx rng s = Some \<lparr>it_pos = None, it_end = None\<rparr>"
        using False f it by (simp add: sl_FirstInRangeByIdx_def adr_hd_def)
      with that points_end [of s] out show ?thesis by auto
    qed
  qed
qed

lemma FirstInRangeByIdx_holds:
  assumes "sl_holds s xs" "length xs < 2 ^ 31" "length xs \<le> unat (sl_lenth s)" "xs \<noteq> []" "0 < r_min rng"
  obtains it where "sl_FirstInRangeByIdx rng s = Some it"
    "sl_points s it (if r_min rng \<le> r_max rng \<and> unat (r_min rng) \<le> length xs
       then Some (xs ! (unat (r_min rng) - 1)) else None)"
  using FirstInRangeByIdx_from [OF assms] by metis

text \<open>A search by score: \<open>us\<close> are the cells for which the test on the score holds.\<close>

lemma find_score:
  assumes rep: "sl_rep s (us @ vs)"
    and us: "\<And>d. d \<in> set us \<Longrightarrow> Q (c_score d)" and vs: "\<And>d. d \<in> set vs \<Longrightarrow> \<not> Q (c_score d)"
  obtains r ups l where
    "sl_find (\<lambda>n (_ :: 32 word). Q (n_score n)) s = Some ((c_adr (last (head_cell s # us)), r), ups)"
    "sl_lev (sl_heap s) (c_adr (last (head_cell s # us))) 0 = Some l" "lv_forward l = adr_hd vs"
proof -
  have "tests_prefix (sl_heap s) (\<lambda>n (_ :: 32 word). Q (n_score n)) (head_cell s # us @ vs) (Suc (length us))"
    by (rule tests_score [OF rep, where Q = "\<lambda>t _. Q t"]) (use us vs in auto)
  with that show ?thesis by (elim find_stop [OF rep]) auto
qed

lemma tail_node:
  assumes "sl_rep s cs" "cs \<noteq> []"
  obtains n where "sl_tail s = Some (c_adr (last cs))" "sl_heap s (c_adr (last cs)) = Some n"
    "n_score n = c_score (last cs)" "d_val (n_data n) = c_val (last cs)"
  using assms rep_node [OF assms(1), of "last cs"] by (auto simp: sl_rep_def)

lemma sorted_cut:
  assumes "sorted (map c_score cs)" and down: "\<And>x y :: real. x \<le> y \<Longrightarrow> Q y \<Longrightarrow> Q x"
  obtains us vs where "cs = us @ vs" "\<And>d. d \<in> set us \<Longrightarrow> Q (c_score d)" "\<And>d. d \<in> set vs \<Longrightarrow> \<not> Q (c_score d)"
proof
  show "cs = takeWhile (Q \<circ> c_score) cs @ dropWhile (Q \<circ> c_score) cs" by simp
  show "Q (c_score d)" if "d \<in> set (takeWhile (Q \<circ> c_score) cs)" for d
    using that by (auto dest: set_takeWhileD)
  have "\<forall>d \<in> set (dropWhile (Q \<circ> c_score) cs). \<not> Q (c_score d)"
    using assms(1) by (induction cs) (auto dest: down)
  then show "\<not> Q (c_score d)" if "d \<in> set (dropWhile (Q \<circ> c_score) cs)" for d using that by blast
qed

definition in_range :: "real \<Rightarrow> real \<Rightarrow> real \<times> string \<Rightarrow> bool" where
  "in_range mn mx x \<longleftrightarrow> min mn mx \<le> fst x \<and> fst x \<le> max mn mx"

definition first_of :: "'a list \<Rightarrow> 'a option" where
  "first_of xs = (case xs of [] \<Rightarrow> None | x # _ \<Rightarrow> Some x)"

definition last_of :: "'a list \<Rightarrow> 'a option" where
  "last_of xs = (if xs = [] then None else Some (last xs))"

lemma FirstInRangeByScore_holds:
  assumes h: "sl_holds s xs" and srt: "sorted (map fst xs)" and ne: "xs \<noteq> []"
  obtains it where "sl_FirstInRangeByScore mn mx s = Some it"
    "sl_points s it (first_of (filter (in_range mn mx) xs))"
proof -
  let ?lo = "min mn mx" and ?hi = "max mn mx"
  obtain cs where cs: "sl_rep s cs" "cells_items cs = xs" using h by (auto simp: sl_holds_def)
  then have ne': "cs \<noteq> []" and len: "length cs = length xs" using ne by auto
  have srt': "sorted (map c_score cs)" using srt cs(2) map_fst_cells_items [of cs] by simp
  obtain us vs where cut: "cs = us @ vs" "\<And>d. d \<in> set us \<Longrightarrow> c_score d < ?lo"
      "\<And>d. d \<in> set vs \<Longrightarrow> \<not> c_score d < ?lo"
    using sorted_cut [OF srt', of "\<lambda>t. t < ?lo"] by (metis order_le_less_trans)
  note rep = cs(1) [unfolded cut(1)] and it = rep_iterator [OF cs(1) ne']
  obtain tn where t: "sl_tail s = Some (c_adr (last cs))" "sl_heap s (c_adr (last cs)) = Some tn"
      "n_score tn = c_score (last cs)"
    using tail_node [OF cs(1) ne'] by metis
  have fus: "filter (in_range mn mx) (cells_items us) = []"
    using cut(2) by (auto simp: filter_empty_conv cells_items_def in_range_def not_le)
  have bounds: "(if mn > mx then (mx, mn) else (mn, mx)) = (?lo, ?hi)" by auto
  show ?thesis
  proof (cases vs)
    case Nil
    with cut(1,2) ne' have "c_score (last cs) < ?lo" by simp
    with t it(2) have "sl_FirstInRangeByScore mn mx s = Some \<lparr>it_pos = None, it_end = None\<rparr>"
      by (simp add: sl_FirstInRangeByScore_def bounds)
    with that points_end [of s] fus cs(2) cut(1) Nil show ?thesis by (auto simp: first_of_def)
  next
    case (Cons c vs')
    have "\<not> c_score (last cs) < ?lo" using cut(1,3) Cons by simp
    obtain r ups l where f: "sl_find (\<lambda>n (_ :: 32 word). n_score n < ?lo) s
          = Some ((c_adr (last (head_cell s # us)), r), ups)"
        "sl_lev (sl_heap s) (c_adr (last (head_cell s # us))) 0 = Some l" "lv_forward l = adr_hd vs"
      using find_score [OF rep, of "\<lambda>t. t < ?lo"] cut by metis
    obtain n where n: "sl_heap s (c_adr c) = Some n" "n_score n = c_score c"
      using rep_node [OF cs(1), of c] cut(1) Cons by auto
    have eval: "sl_FirstInRangeByScore mn mx s
        = Some \<lparr>it_pos = (if c_score c > ?hi then None else adr_hd vs), it_end = None\<rparr>"
      using \<open>\<not> c_score (last cs) < ?lo\<close> t f n it Cons
      by (simp add: sl_FirstInRangeByScore_def bounds adr_hd_def)
    show ?thesis
    proof (cases "c_score c > ?hi")
      case True
      have "sorted (map c_score vs)" using srt' cut(1) by (simp add: sorted_append)
      with True Cons have "\<forall>d \<in> set vs. ?hi < c_score d" by auto
      then have "filter (in_range mn mx) (cells_items vs) = []"
        by (auto simp: filter_empty_conv cells_items_def in_range_def not_le)
      with True eval that points_end [of s] fus cs(2) cut(1) show ?thesis by (auto simp: first_of_def)
    next
      case False
      moreover have "in_range mn mx (c_score c, c_val c)"
        using False cut(3) [of c] Cons by (auto simp: in_range_def not_less min_le_iff_disj le_max_iff_disj)
      ultimately show ?thesis
        using eval that points_adr_hd [OF rep] fus cs(2) cut(1) Cons by (auto simp: first_of_def)
    qed
  qed
qed

lemma LastInRangeByScore_holds:
  assumes h: "sl_holds s xs" and srt: "sorted (map fst xs)" and ne: "xs \<noteq> []"
  obtains it where "sl_LastInRangeByScore mn mx s = Some it"
    "-1 < min mn mx \<longrightarrow> sl_points s it (last_of (filter (in_range mn mx) xs))"
    "min mn mx \<le> -1 \<and> max mn mx < fst (hd xs) \<longrightarrow> it_pos it = Some (sl_head s)"
proof -
  let ?lo = "min mn mx" and ?hi = "max mn mx"
  obtain cs where cs: "sl_rep s cs" "cells_items cs = xs" using h by (auto simp: sl_holds_def)
  then have ne': "cs \<noteq> []" and len: "length cs = length xs" using ne by auto
  have srt': "sorted (map c_score cs)" using srt cs(2) map_fst_cells_items [of cs] by simp
  obtain us vs where cut: "cs = us @ vs" "\<And>d. d \<in> set us \<Longrightarrow> c_score d \<le> ?hi"
      "\<And>d. d \<in> set vs \<Longrightarrow> \<not> c_score d \<le> ?hi"
    using sorted_cut [OF srt', of "\<lambda>t. t \<le> ?hi"] by (metis order_trans)
  note rep = cs(1) [unfolded cut(1)] and it = rep_iterator [OF cs(1) ne']
  obtain tn where t: "sl_tail s = Some (c_adr (last cs))" "sl_heap s (c_adr (last cs)) = Some tn"
      "n_score tn = c_score (last cs)"
    using tail_node [OF cs(1) ne'] by metis
  have fvs: "filter (in_range mn mx) (cells_items vs) = []"
    using cut(3) by (auto simp: filter_empty_conv cells_items_def in_range_def)
  have low_us: "filter (in_range mn mx) (cells_items ds) = []"
    if "sorted (map c_score ds)" "ds \<noteq> [] \<longrightarrow> c_score (last ds) < ?lo" for ds
  proof (cases ds rule: rev_cases)
    case (snoc es e)
    with that have "\<forall>d \<in> set ds. c_score d < ?lo" by (force simp: sorted_append)
    then show ?thesis by (auto simp: filter_empty_conv cells_items_def in_range_def not_le)
  qed simp
  have bounds: "(if mn > mx then (mx, mn) else (mn, mx)) = (?lo, ?hi)" by auto
  have hd_le: "fst (hd xs) \<le> c_score (last cs)"
    using cs(2) srt' ne' by (cases cs) auto
  consider (under) "c_score (last cs) < ?lo"
    | (tail) "?lo \<le> c_score (last cs)" "c_score (last cs) \<le> ?hi"
    | (inner) "?lo \<le> c_score (last cs)" "?hi < c_score (last cs)" by linarith
  then show ?thesis
  proof cases
    case under
    with t it(2) have "sl_LastInRangeByScore mn mx s = Some \<lparr>it_pos = None, it_end = None\<rparr>"
      by (simp add: sl_LastInRangeByScore_def bounds)
    moreover have "?lo \<le> ?hi" by simp
    ultimately show ?thesis
      using that points_end [of s] low_us [OF srt'] under cs(2) hd_le by (force simp: last_of_def)
  next
    case tail
    then have eval: "sl_LastInRangeByScore mn mx s = Some \<lparr>it_pos = adr_hd [last cs], it_end = None\<rparr>"
      using t it(1) by (auto simp: sl_LastInRangeByScore_def bounds adr_hd_def min_le_iff_disj)
    have "cs = butlast cs @ [last cs]" using ne' by simp
    moreover from this have "xs = cells_items (butlast cs) @ [(c_score (last cs), c_val (last cs))]"
      using cs(2) by (metis cells_items_simps(1-3))
    moreover have "in_range mn mx (c_score (last cs), c_val (last cs))" using tail by (simp add: in_range_def)
    ultimately have "sl_points s \<lparr>it_pos = adr_hd [last cs], it_end = None\<rparr> (last_of (filter (in_range mn mx) xs))"
      using points_adr_hd [of s "butlast cs" "[last cs]"] cs(1) by (simp add: last_of_def)
    moreover have "\<not> ?hi < fst (hd xs)" using tail hd_le by linarith
    ultimately show ?thesis using that eval by blast
  next
    case inner
    obtain r ups where f: "sl_find (\<lambda>n (_ :: 32 word). n_score n \<le> ?hi) s
          = Some ((c_adr (last (head_cell s # us)), r), ups)"
      using find_score [OF rep, of "\<lambda>t. t \<le> ?hi"] cut by metis
    obtain n where n: "sl_heap s (c_adr (last (head_cell s # us))) = Some n"
        "n_score n = c_score (last (head_cell s # us))"
    proof (cases us)
      case Nil
      have "chain (sl_heap s) ([] @ head_cell s # cs)" using cs(1) by (simp add: sl_rep_def)
      from chainD [OF this] Nil that show ?thesis by (elim cell_okE) auto
    next
      case (Cons c us')
      then have "last us \<in> set cs" "last (head_cell s # us) = last us" using cut(1) by auto
      with rep_node [OF cs(1), of "last us"] that show ?thesis by metis
    qed
    have eval: "sl_LastInRangeByScore mn mx s = Some \<lparr>it_pos = (if c_score (last (head_cell s # us)) < ?lo
        then None else Some (c_adr (last (head_cell s # us)))), it_end = None\<rparr>"
      using inner t f n it by (simp add: sl_LastInRangeByScore_def bounds not_less del: min_less_iff_conj max_less_iff_conj)
    have items: "filter (in_range mn mx) xs = filter (in_range mn mx) (cells_items us)"
      using cs(2) cut(1) fvs by auto
    show ?thesis
    proof (cases us rule: rev_cases)
      case Nil
      then have e: "sl_LastInRangeByScore mn mx s
          = Some \<lparr>it_pos = (if -1 < ?lo then None else Some (sl_head s)), it_end = None\<rparr>"
        using eval by (simp add: head_cell_def)
      have f: "filter (in_range mn mx) xs = []" using items Nil by simp
      show ?thesis
      proof (cases "-1 < ?lo")
        case True
        show ?thesis by (rule that [OF e]) (use True f points_end [of s] in \<open>auto simp: last_of_def\<close>)
      next
        case False
        show ?thesis by (rule that [OF e]) (use False in auto)
      qed
    next
      case (snoc us' c)
      have "fst (hd xs) \<le> ?hi" using cs(2) cut(1,2) snoc by (cases us') auto
      then have hd: "\<not> ?hi < fst (hd xs)" by (simp only: not_less)
      have lst: "last (head_cell s # us) = c" using snoc by simp
      have "sorted (map c_score us)" using srt' cut(1) by (simp add: sorted_append)
      show ?thesis
      proof (cases "c_score c < ?lo")
        case True
        then have "filter (in_range mn mx) (cells_items us) = []"
          using low_us [OF \<open>sorted (map c_score us)\<close>] snoc by simp
        moreover have "sl_LastInRangeByScore mn mx s = Some \<lparr>it_pos = None, it_end = None\<rparr>"
          using eval lst True by simp
        ultimately show ?thesis using that points_end [of s] items hd by (auto simp: last_of_def)
      next
        case False
        have "in_range mn mx (c_score c, c_val c)"
          using False cut(2) [of c] snoc by (auto simp: in_range_def not_less min_le_iff_disj)
        moreover have "sl_points s \<lparr>it_pos = adr_hd (c # vs), it_end = None\<rparr> (Some (c_score c, c_val c))"
          using points_adr_hd [of s us' "c # vs"] rep snoc by simp
        moreover have "sl_LastInRangeByScore mn mx s = Some \<lparr>it_pos = adr_hd (c # vs), it_end = None\<rparr>"
          using eval lst False by (simp add: adr_hd_def)
        ultimately show ?thesis using that items hd snoc by (auto simp: last_of_def)
      qed
    qed
  qed
qed

lemma sorted_around:
  assumes "sorted (map fst (ys @ (score, val) # zs))"
  shows "(t, v) \<in> set ys \<Longrightarrow> t \<le> score" "(t, v) \<in> set zs \<Longrightarrow> score \<le> t"
  using assms by (auto simp: sorted_append dest: imageI [of _ _ fst])

section \<open>Properties\<close>

text \<open>Two \<open>rand\<close> sequences for concrete inputs: a node of height 1 and one of height 2.\<close>

definition rand_flat :: "nat \<Rightarrow> int" where
  "rand_flat k = 2 ^ 30"

definition rand_high :: "nat \<Rightarrow> int" where
  "rand_high k = (if k = 0 then 0 else 2 ^ 30)"

text \<open>C1. Any sequence of insertions of distinct pairs into a new skip list succeeds,
  whatever heights \<open>rand\<close> gives the nodes, and iterating from \<open>being()\<close> to \<open>end()\<close> then
  visits exactly these pairs, stably sorted by score; \<open>Lenth()\<close> is their number.\<close>

theorem skl_inserts_sort:
  assumes "distinct (map snd xs)" "xs \<noteq> []"
  shows "\<exists>s. sl_Inserts xs sl_new = Some s \<and> sl_contents s = Some (sort_key fst (map snd xs))
    \<and> sl_Lenth s = of_nat (length xs)"
proof -
  obtain s where s: "sl_Inserts xs sl_new = Some s" "sl_holds s (sort_key fst (map snd xs))"
      "sl_lenth s = of_nat (length xs)"
    by (rule Inserts_new [OF assms(1)])
  have "sort_key fst (map snd xs) \<noteq> []" using assms(2)
    by (metis length_0_conv length_map length_sort)
  with s(1) contents_holds [OF s(2)] s(3) show ?thesis
    by (simp add: sl_Lenth_def unsigned_of_nat word_of_nat_eq_iff)
qed

theorem skl_inserts_sort_witness:
  "\<exists>s. sl_Inserts [(rand_flat, 2, ''b''), (rand_high, 1, ''a''), (rand_flat, 2, ''c'')] sl_new = Some s
    \<and> sl_contents s = Some [(1, ''a''), (2, ''b''), (2, ''c'')] \<and> sl_Lenth s = 3"
  using skl_inserts_sort [of "[(rand_flat, 2, ''b''), (rand_high, 1, ''a''), (rand_flat, 2, ''c'')]"]
  by simp

text \<open>C2. \<open>Insert\<close> into any well-formed skip list succeeds whatever \<open>rand\<close> answers,
  keeps it well-formed (pointers, spans, tail and level), puts the new pair behind all
  pairs that do not score higher, so the list stays sorted, and adds one to the length.\<close>

theorem skl_Insert_puts:
  assumes "sl_holds s xs" "sorted (map fst xs)" "(score, val) \<notin> set xs"
  shows "\<exists>s'. sl_Insert rnd score val s = Some s' \<and> sl_holds s' (put (score, val) xs)
    \<and> sorted (map fst (put (score, val) xs)) \<and> sl_lenth s' = sl_lenth s + 1"
proof -
  obtain s' where "sl_Insert rnd score val s = Some s'" "sl_holds s' (put (score, val) xs)"
      "sl_lenth s' = sl_lenth s + 1"
    by (rule Insert_holds [OF assms])
  with sorted_put [OF assms(2)] show ?thesis by blast
qed

theorem skl_Insert_puts_witness:
  "\<exists>s'. sl_Insert rand_high 7 ''x'' sl_new = Some s' \<and> sl_holds s' [(7, ''x'')] \<and> sl_lenth s' = 1"
  using skl_Insert_puts [OF sl_new_holds(1), of 7 "''x''" rand_high] sl_new_holds(2)
  by (auto simp: put_simps)

text \<open>C11. With pairwise distinct scores and members, \<open>GetRank\<close> of the
  member at position \<open>i\<close> of the sorted list is \<open>i + 1\<close>.\<close>

theorem skl_GetRank_position:
  assumes "sl_holds s xs" "sorted (map fst xs)" "distinct (map fst xs)" "distinct (map snd xs)"
    and "i < length xs" "length xs < 2 ^ 31"
  shows "sl_GetRank (fst (xs ! i)) (snd (xs ! i)) s = Some (of_nat (Suc i))"
proof -
  define ys zs where "ys = take i xs" and "zs = drop (Suc i) xs"
  have split: "xs = ys @ (fst (xs ! i), snd (xs ! i)) # zs" and i: "length ys = i"
    using assms(5) by (simp_all add: ys_def zs_def id_take_nth_drop)
  note sorted = sorted_around [of ys "fst (xs ! i)" "snd (xs ! i)" zs, folded split, OF assms(2)]
  have d: "fst (xs ! i) \<notin> set (map fst zs)" "snd (xs ! i) \<notin> set (map snd ys)"
    using assms(3,4) unfolding arg_cong [OF split, of "map fst"] arg_cong [OF split, of "map snd"] by auto
  have "sl_GetRank (fst (xs ! i)) (snd (xs ! i)) s = Some (of_nat (Suc (length ys)))"
  proof (rule GetRank_holds)
    show "sl_holds s (ys @ (fst (xs ! i), snd (xs ! i)) # zs)" using assms(1) split by simp
    show "length (ys @ zs) < 2 ^ 31 - 1" using assms(6) arg_cong [OF split, of length] by simp
    show "t \<le> fst (xs ! i) \<and> v \<noteq> snd (xs ! i)" if "(t, v) \<in> set ys" for t v
      using sorted(1) [OF that] d(2) imageI [OF that, of snd] by (metis list.set_map snd_conv)
    show "fst (xs ! i) < t" if "(t, v) \<in> set zs" for t v
      using sorted(2) [OF that] d(1) imageI [OF that, of fst] by (auto simp: order_less_le)
  qed
  with i show ?thesis by simp
qed

theorem skl_GetRank_position_witness:
  "\<exists>s. sl_Inserts [(rand_flat, 2, ''b''), (rand_high, 1, ''a'')] sl_new = Some s
    \<and> sl_GetRank 2 ''b'' s = Some 2"
proof -
  obtain s where "sl_Inserts [(rand_flat, 2, ''b''), (rand_high, 1, ''a'')] sl_new = Some s"
      "sl_holds s [(1, ''a''), (2, ''b'')]"
    using Inserts_new [of "[(rand_flat, 2, ''b''), (rand_high, 1, ''a'')]"] by auto
  with skl_GetRank_position [of s "[(1, ''a''), (2, ''b'')]" 1] show ?thesis by auto
qed

text \<open>With two members of equal score the searches by member fail: here both members
  are in the list, yet \<open>GetRank\<close> of the first is 0 and \<open>Delete\<close> answers \<open>-1\<close> (not found)
  and changes nothing, because a higher node of the same score is stepped over it.\<close>

theorem skl_equal_scores_lose_member:
  "\<exists>s. sl_Inserts [(rand_flat, 1, ''a''), (rand_high, 1, ''b'')] sl_new = Some s
    \<and> sl_contents s = Some [(1, ''a''), (1, ''b'')]
    \<and> sl_GetRank 1 ''a'' s = Some 0 \<and> map_option fst (sl_Delete 1 ''a'' s) = Some (-1)"
proof -
  let ?xs = "[(rand_flat, 1, ''a''), (rand_high, 1, ''b'')]"
  obtain s where s: "sl_Inserts ?xs sl_new = Some s" "sl_holds s [(1, ''a''), (1, ''b'')]"
    using Inserts_new [of ?xs] by auto
  have "(case sl_Inserts ?xs sl_new of None \<Rightarrow> False | Some s \<Rightarrow>
      sl_GetRank 1 ''a'' s = Some 0 \<and> map_option fst (sl_Delete 1 ''a'' s) = Some (-1))"
    by code_simp
  with s contents_holds [OF s(2)] show ?thesis by auto
qed

text \<open>C8. \<open>Delete\<close> of a member behind which no other member has the same score succeeds:
  the list loses exactly this pair, its spans stay exact, no pointer dangles. The length,
  however, goes up by one (the code increments \<open>lenth_\<close> where it should decrement it).\<close>

theorem skl_Delete_takes_out:
  assumes "sl_holds s (ys @ (score, val) # zs)" "sorted (map fst (ys @ (score, val) # zs))"
    and "(score, val) \<notin> set ys" "score \<notin> fst ` set zs"
  shows "\<exists>s'. sl_Delete score val s = Some (0, s') \<and> sl_holds s' (ys @ zs) \<and> sl_lenth s' = sl_lenth s + 1"
proof -
  have zs: "score < t" if "(t, v) \<in> set zs" for t v
    using sorted_around(2) [OF assms(2) that] assms(4) imageI [OF that, of fst] by (auto simp: order_less_le)
  obtain s' where "sl_Delete score val s = Some (0, s')" "sl_holds s' (ys @ zs)" "sl_lenth s' = sl_lenth s + 1"
    by (rule Delete_holds [OF assms(1) _ zs])
      (use sorted_around(1) [OF assms(2)] assms(3) in auto)
  then show ?thesis by blast
qed

theorem skl_Delete_takes_out_witness:
  "\<exists>s s'. sl_Inserts [(rand_flat, 2, ''b''), (rand_high, 1, ''a'')] sl_new = Some s
    \<and> sl_Delete 1 ''a'' s = Some (0, s') \<and> sl_holds s' [(2, ''b'')] \<and> sl_Lenth s' = 3"
proof -
  obtain s where s: "sl_Inserts [(rand_flat, 2, ''b''), (rand_high, 1, ''a'')] sl_new = Some s"
      "sl_holds s [(1, ''a''), (2, ''b'')]" "sl_lenth s = 2"
    using Inserts_new [of "[(rand_flat, 2, ''b''), (rand_high, 1, ''a'')]"] by auto
  with skl_Delete_takes_out [of s "[]" 1 "''a''" "[(2, ''b'')]"] show ?thesis
    by (auto simp: sl_Lenth_def)
qed

text \<open>When the last member has been deleted, \<open>tail_\<close> is \<open>NULL\<close> and \<open>being()\<close>,
  \<open>end()\<close> and both lookups by score dereference it: every one of them is undefined, so is
  each loop over the empty list.\<close>

theorem skl_empty_list_undefined:
  assumes "sl_holds s [(score, val)]"
  shows "\<exists>s'. sl_Delete score val s = Some (0, s') \<and> sl_holds s' [] \<and> sl_being s' = None \<and> sl_end s' = None
    \<and> sl_contents s' = None \<and> sl_FirstInRangeByScore mn mx s' = None \<and> sl_LastInRangeByScore mn mx s' = None"
proof -
  obtain s' where s': "sl_Delete score val s = Some (0, s')" "sl_holds s' []"
    using Delete_holds [of s "[]" score val "[]"] assms by auto
  then have "sl_tail s' = None" by (auto simp: sl_holds_def sl_rep_def)
  then have e: "sl_iterator p s' = None" "sl_end s' = None" for p
    by (simp_all add: sl_iterator_def sl_end_def)
  then have "sl_being s' = None" by (auto simp: sl_being_def split: bind_splits)
  with s' e \<open>sl_tail s' = None\<close> show ?thesis
    by (simp add: sl_contents_def sl_FirstInRangeByScore_def sl_LastInRangeByScore_def Let_def split_beta)
qed

theorem skl_empty_list_undefined_witness:
  "\<exists>s s'. sl_Insert rand_flat 5 ''m'' sl_new = Some s \<and> sl_Delete 5 ''m'' s = Some (0, s') \<and> sl_end s' = None"
proof -
  obtain s where s: "sl_Insert rand_flat 5 ''m'' sl_new = Some s" "sl_holds s [(5, ''m'')]"
    using Insert_holds [OF sl_new_holds(1), of 5 "''m''" rand_flat] by (auto simp: put_simps)
  with skl_empty_list_undefined [of s 5 "''m''"] show ?thesis by auto
qed

text \<open>On a non-empty list whose length field is at least its length, \<open>FirstInRangeByIdx\<close> stands on
  the member of rank \<open>min\<close> if \<open>min\<close> is a rank of the list and not above \<open>max\<close>, and at the
  end otherwise.\<close>

theorem skl_first_by_rank:
  assumes "sl_holds s xs" "length xs < 2 ^ 31" "length xs \<le> unat (sl_lenth s)" "xs \<noteq> []" "0 < r_min rng"
  shows "\<exists>it. sl_FirstInRangeByIdx rng s = Some it
    \<and> sl_points s it (if r_min rng \<le> r_max rng \<and> unat (r_min rng) \<le> length xs
        then Some (xs ! (unat (r_min rng) - 1)) else None)"
  by (rule FirstInRangeByIdx_holds [OF assms]) blast

theorem skl_first_by_rank_witness:
  "\<exists>s it. sl_Inserts [(rand_flat, 2, ''b''), (rand_high, 1, ''a'')] sl_new = Some s
    \<and> sl_FirstInRangeByIdx \<lparr>r_min = 2, r_max = 9\<rparr> s = Some it \<and> sl_points s it (Some (2, ''b''))"
proof -
  obtain s where s: "sl_Inserts [(rand_flat, 2, ''b''), (rand_high, 1, ''a'')] sl_new = Some s"
      "sl_holds s [(1, ''a''), (2, ''b'')]" "sl_lenth s = 2"
    using Inserts_new [of "[(rand_flat, 2, ''b''), (rand_high, 1, ''a'')]"] by auto
  with skl_first_by_rank [of s "[(1, ''a''), (2, ''b'')]" "\<lparr>r_min = 2, r_max = 9\<rparr>"] show ?thesis by auto
qed

text \<open>C12. On a non-empty sorted list the two lookups by score stand on the first and on
  the last member whose score lies in the range (bounds in either order), and at the end if
  there is none, provided both bounds are above \<open>-1\<close>, the score of the head sentinel.\<close>

theorem skl_range_by_score:
  assumes "sl_holds s xs" "sorted (map fst xs)" "xs \<noteq> []" "-1 < min mn mx"
  shows "\<exists>f l. sl_FirstInRangeByScore mn mx s = Some f \<and> sl_LastInRangeByScore mn mx s = Some l
    \<and> sl_points s f (first_of (filter (in_range mn mx) xs)) \<and> sl_points s l (last_of (filter (in_range mn mx) xs))"
proof -
  obtain f where "sl_FirstInRangeByScore mn mx s = Some f"
      "sl_points s f (first_of (filter (in_range mn mx) xs))"
    by (rule FirstInRangeByScore_holds [OF assms(1-3)])
  moreover obtain l where "sl_LastInRangeByScore mn mx s = Some l"
      "sl_points s l (last_of (filter (in_range mn mx) xs))"
    by (rule LastInRangeByScore_holds [OF assms(1-3), of mn mx]) (use assms(4) in blast)
  ultimately show ?thesis by blast
qed

theorem skl_range_by_score_witness:
  "\<exists>s f l. sl_Inserts [(rand_flat, 2, ''b''), (rand_high, 1, ''a''), (rand_flat, 5, ''c'')] sl_new = Some s
    \<and> sl_FirstInRangeByScore 3 1 s = Some f \<and> sl_LastInRangeByScore 3 1 s = Some l
    \<and> sl_points s f (Some (1, ''a'')) \<and> sl_points s l (Some (2, ''b''))"
proof -
  obtain s where s: "sl_Inserts [(rand_flat, 2, ''b''), (rand_high, 1, ''a''), (rand_flat, 5, ''c'')] sl_new = Some s"
      "sl_holds s [(1, ''a''), (2, ''b''), (5, ''c'')]"
    using Inserts_new [of "[(rand_flat, 2, ''b''), (rand_high, 1, ''a''), (rand_flat, 5, ''c'')]"] by auto
  with skl_range_by_score [of s "[(1, ''a''), (2, ''b''), (5, ''c'')]" 3 1] show ?thesis
    by (auto simp: in_range_def first_of_def last_of_def)
qed

text \<open>With a lower bound of at most \<open>-1\<close> and all members above the upper bound,
  \<open>LastInRangeByScore\<close> does not answer the end but an iterator onto the head sentinel,
  which is no member.\<close>

theorem skl_negative_range_finds_head:
  assumes "sl_holds s xs" "sorted (map fst xs)" "xs \<noteq> []"
    and "min mn mx \<le> -1" "max mn mx < fst (hd xs)"
  shows "\<exists>l. sl_LastInRangeByScore mn mx s = Some l \<and> it_pos l = Some (sl_head s)"
  by (rule LastInRangeByScore_holds [OF assms(1-3), of mn mx]) (use assms(4,5) in blast)

theorem skl_negative_range_finds_head_witness:
  "\<exists>s l. sl_Insert rand_flat 5 ''m'' sl_new = Some s \<and> sl_LastInRangeByScore (-4) (-2) s = Some l
    \<and> it_pos l = Some (sl_head s)"
proof -
  obtain s where s: "sl_Insert rand_flat 5 ''m'' sl_new = Some s" "sl_holds s [(5, ''m'')]"
    using Insert_holds [OF sl_new_holds(1), of 5 "''m''" rand_flat] by (auto simp: put_simps)
  with skl_negative_range_finds_head [of s "[(5, ''m'')]" "-4" "-2"] show ?thesis by auto
qed

end
