(* ===== verification/SortSet.thy ===== *)
theory SortSet
  imports SkipListSpec
begin

text \<open>
  The sorted set \<open>sort_set\<close> of \<open>bis/src/server/sort_set.h\<close> and \<open>sort_set.cpp\<close>: a skip list
  of pairs of score and member, and a dictionary from member to score. As in the skip list
  \<open>None\<close> is undefined behaviour or a loop that does not end; the results of \<open>rand\<close> are an
  argument of every operation that may insert.
\<close>

section \<open>State and operations\<close>

record sort_set =
  ss_sl :: skiplist
  ss_dict :: "string \<Rightarrow> real option"

definition ss_new :: sort_set where
  "ss_new = \<lparr>ss_sl = sl_new, ss_dict = Map.empty\<rparr>"

definition ss_Insert :: "(nat \<Rightarrow> int) \<Rightarrow> real \<Rightarrow> string \<Rightarrow> sort_set \<Rightarrow> (bool \<times> sort_set) option" where
  "ss_Insert rnd key data t =
     (case ss_dict t data of
        Some _ \<Rightarrow> Some (False, t)
      | None \<Rightarrow> do {
          let t = t\<lparr>ss_dict := (ss_dict t)(data \<mapsto> key)\<rparr>;
          s \<leftarrow> sl_Insert rnd key data (ss_sl t);
          Some (True, t\<lparr>ss_sl := s\<rparr>)
        })"

definition ss_DelMem :: "string \<Rightarrow> sort_set \<Rightarrow> (bool \<times> sort_set) option" where
  "ss_DelMem data t =
     (case ss_dict t data of
        None \<Rightarrow> Some (False, t)
      | Some score \<Rightarrow> do {
          (_, s) \<leftarrow> sl_Delete score data (ss_sl t);
          Some (True, t\<lparr>ss_sl := s, ss_dict := (ss_dict t)(data := None)\<rparr>)
        })"

definition ss_Update :: "(nat \<Rightarrow> int) \<Rightarrow> real \<Rightarrow> string \<Rightarrow> sort_set \<Rightarrow> (bool \<times> sort_set) option" where
  "ss_Update rnd score data t =
     (case ss_dict t data of
        None \<Rightarrow> ss_Insert rnd score data t
      | Some old \<Rightarrow>
          if old \<noteq> score then do { (_, t) \<leftarrow> ss_DelMem data t; ss_Insert rnd score data t }
          else Some (True, t))"

text \<open>The \<open>bool\<close> and the reference argument of the two getters are one option.\<close>

definition ss_GetMemScore :: "string \<Rightarrow> sort_set \<Rightarrow> real option" where
  "ss_GetMemScore data t = ss_dict t data"

definition ss_GetMemRank :: "string \<Rightarrow> sort_set \<Rightarrow> 64 word option option" where
  "ss_GetMemRank data t =
     (case ss_dict t data of
        None \<Rightarrow> Some None
      | Some score \<Rightarrow> do { rank \<leftarrow> sl_GetRank score data (ss_sl t); Some (Some rank) })"

definition ss_GetMemsByScore :: "real \<Rightarrow> real \<Rightarrow> sort_set \<Rightarrow> (sl_itr \<times> sl_itr) option" where
  "ss_GetMemsByScore mn mx t = do {
     b \<leftarrow> sl_FirstInRangeByScore mn mx (ss_sl t);
     e \<leftarrow> sl_LastInRangeByScore mn mx (ss_sl t);
     Some (b, e)
   }"

definition ss_GetMemsFirstByRank :: "64 word \<Rightarrow> 64 word \<Rightarrow> sort_set \<Rightarrow> sl_itr option" where
  "ss_GetMemsFirstByRank mn mx t = sl_FirstInRangeByIdx \<lparr>r_min = mn, r_max = mx\<rparr> (ss_sl t)"

definition ss_GetMemByRank :: "64 word \<Rightarrow> sort_set \<Rightarrow> sl_itr option" where
  "ss_GetMemByRank rank t = ss_GetMemsFirstByRank rank rank t"

definition ss_size :: "sort_set \<Rightarrow> 64 word" where
  "ss_size t = ucast (sl_Lenth (ss_sl t))"

definition ss_begin :: "sort_set \<Rightarrow> sl_itr option" where
  "ss_begin t = sl_being (ss_sl t)"

definition ss_end :: "sort_set \<Rightarrow> sl_itr option" where
  "ss_end t = sl_end (ss_sl t)"

section \<open>Invariant\<close>

text \<open>List and dictionary hold the same pairs, the list sorted, each member once.\<close>

definition ss_ok :: "sort_set \<Rightarrow> (real \<times> string) list \<Rightarrow> bool" where
  "ss_ok t xs \<longleftrightarrow> sl_holds (ss_sl t) xs \<and> sorted (map fst xs) \<and> distinct (map snd xs)
     \<and> (\<forall>k d. ss_dict t d = Some k \<longleftrightarrow> (k, d) \<in> set xs)"

definition scores_distinct :: "(string \<Rightarrow> real option) \<Rightarrow> bool" where
  "scores_distinct m \<longleftrightarrow> (\<forall>d e k. m d = Some k \<and> m e = Some k \<longrightarrow> d = e)"

lemma ss_new_ok: "ss_ok ss_new []"
  by (simp add: ss_ok_def ss_new_def sl_new_holds)

lemma ss_okD:
  assumes "ss_ok t xs"
  shows "sl_holds (ss_sl t) xs" "sorted (map fst xs)" "distinct (map snd xs)"
    "ss_dict t d = Some k \<longleftrightarrow> (k, d) \<in> set xs"
  using assms by (auto simp: ss_ok_def)

lemma distinct_snd_put: "distinct (map snd (put (k, d) xs)) \<longleftrightarrow> d \<notin> snd ` set xs \<and> distinct (map snd xs)"
  by (induction xs) (auto simp: put_simps)

lemma ss_Insert_ok:
  assumes ok: "ss_ok t xs" and new: "ss_dict t d = None"
  obtains t' where "ss_Insert rnd k d t = Some (True, t')" "ss_ok t' (put (k, d) xs)"
    "ss_dict t' = (ss_dict t)(d \<mapsto> k)"
proof -
  have n: "d \<notin> snd ` set xs" using new ss_okD(4) [OF ok, of d] by force
  then have "(k, d) \<notin> set xs" by force
  then obtain s where s: "sl_Insert rnd k d (ss_sl t) = Some s" "sl_holds s (put (k, d) xs)"
    by (rule Insert_holds [OF ss_okD(1,2) [OF ok]])
  let ?t = "t\<lparr>ss_sl := s, ss_dict := (ss_dict t)(d \<mapsto> k)\<rparr>"
  have "ss_ok ?t (put (k, d) xs)"
    unfolding ss_ok_def
  proof (intro conjI allI)
    show "ss_dict ?t e = Some j \<longleftrightarrow> (j, e) \<in> set (put (k, d) xs)" for j e
      using n ss_okD(4) [OF ok, of e j] by force
  qed (use s ss_okD(2,3) [OF ok] n sorted_put distinct_snd_put in auto)
  with that [of ?t] s(1) new show ?thesis by (simp add: ss_Insert_def Let_def)
qed

lemma ss_DelMem_ok:
  assumes ok: "ss_ok t xs" and mem: "ss_dict t d = Some k" and inj: "scores_distinct (ss_dict t)"
  obtains t' ys zs where "ss_DelMem d t = Some (True, t')" "xs = ys @ (k, d) # zs" "ss_ok t' (ys @ zs)"
    "ss_dict t' = (ss_dict t)(d := None)"
proof -
  obtain ys zs where xs: "xs = ys @ (k, d) # zs"
    using mem ss_okD(4) [OF ok] by (auto dest: split_list)
  note ok' = ok [unfolded xs]
  have out: "d \<notin> snd ` set (ys @ zs)" using ss_okD(3) [OF ok'] by auto
  have zs: "k < j" if "(j, e) \<in> set zs" for j e
  proof -
    have "j \<noteq> k"
    proof
      assume "j = k"
      then have "ss_dict t e = Some k" using that ss_okD(4) [OF ok', of e k] by simp
      with mem inj have "e = d" by (auto simp: scores_distinct_def)
      with that out show False by force
    qed
    with sorted_around(2) [OF ss_okD(2) [OF ok'] that] show ?thesis by simp
  qed
  obtain s where s: "sl_Delete k d (ss_sl t) = Some (0, s)" "sl_holds s (ys @ zs)"
  proof (rule Delete_holds [OF ss_okD(1) [OF ok'] _ zs])
    show "j \<le> k \<and> (j, e) \<noteq> (k, d)" if "(j, e) \<in> set ys" for j e
      using sorted_around(1) [OF ss_okD(2) [OF ok'] that] that out by force
  qed
  let ?t = "t\<lparr>ss_sl := s, ss_dict := (ss_dict t)(d := None)\<rparr>"
  have "ss_ok ?t (ys @ zs)"
    unfolding ss_ok_def
  proof (intro conjI allI)
    show "ss_dict ?t e = Some j \<longleftrightarrow> (j, e) \<in> set (ys @ zs)" for j e
      using out ss_okD(4) [OF ok', of e j] by force
  qed (use s ss_okD(2,3) [OF ok'] in \<open>auto simp: sorted_append\<close>)
  with that [of ?t] s(1) mem xs show ?thesis by (simp add: ss_DelMem_def)
qed

lemma ss_Update_ok:
  assumes ok: "ss_ok t xs" and inj: "scores_distinct (ss_dict t)"
  shows "\<exists>t' ys. ss_Update rnd k d t = Some (True, t') \<and> ss_ok t' ys \<and> ss_dict t' = (ss_dict t)(d \<mapsto> k)"
proof (cases "ss_dict t d")
  case None
  then show ?thesis using ss_Insert_ok [OF ok None, of rnd k] by (metis ss_Update_def option.simps(4))
next
  case (Some old)
  show ?thesis
  proof (cases "old = k")
    case True
    with Some ok show ?thesis by (auto simp: ss_Update_def)
  next
    case False
    obtain t1 ys where t1: "ss_DelMem d t = Some (True, t1)" "ss_ok t1 ys" "ss_dict t1 = (ss_dict t)(d := None)"
      by (rule ss_DelMem_ok [OF ok Some inj])
    then obtain t2 where "ss_Insert rnd k d t1 = Some (True, t2)" "ss_ok t2 (put (k, d) ys)"
        "ss_dict t2 = (ss_dict t1)(d \<mapsto> k)"
      using ss_Insert_ok [of t1 ys d rnd k] by auto
    with t1 Some False show ?thesis by (auto simp: ss_Update_def)
  qed
qed

section \<open>Refinement of a map\<close>

datatype set_op =
    SetInsert "nat \<Rightarrow> int" real string
  | SetUpdate "nat \<Rightarrow> int" real string
  | SetDelMem string

fun ss_step :: "sort_set \<Rightarrow> set_op \<Rightarrow> (bool \<times> sort_set) option" where
  "ss_step t (SetInsert rnd k d) = ss_Insert rnd k d t"
| "ss_step t (SetUpdate rnd k d) = ss_Update rnd k d t"
| "ss_step t (SetDelMem d) = ss_DelMem d t"

fun ss_run :: "sort_set \<Rightarrow> set_op list \<Rightarrow> (bool list \<times> sort_set) option" where
  "ss_run t [] = Some ([], t)"
| "ss_run t (p # ps) = do { (a, t) \<leftarrow> ss_step t p; (as, t) \<leftarrow> ss_run t ps; Some (a # as, t) }"

text \<open>The specification: a finite map from member to score.\<close>

fun map_step :: "(string \<Rightarrow> real option) \<Rightarrow> set_op \<Rightarrow> bool \<times> (string \<Rightarrow> real option)" where
  "map_step m (SetInsert rnd k d) = (if m d = None then (True, m(d \<mapsto> k)) else (False, m))"
| "map_step m (SetUpdate rnd k d) = (True, m(d \<mapsto> k))"
| "map_step m (SetDelMem d) = (if m d = None then (False, m) else (True, m(d := None)))"

fun map_run :: "(string \<Rightarrow> real option) \<Rightarrow> set_op list \<Rightarrow> bool list \<times> (string \<Rightarrow> real option)" where
  "map_run m [] = ([], m)"
| "map_run m (p # ps) = (let (a, m) = map_step m p; (as, m) = map_run m ps in (a # as, m))"

text \<open>No two members ever have the same score.\<close>

fun always_distinct :: "(string \<Rightarrow> real option) \<Rightarrow> set_op list \<Rightarrow> bool" where
  "always_distinct m [] \<longleftrightarrow> scores_distinct m"
| "always_distinct m (p # ps) \<longleftrightarrow> scores_distinct m \<and> always_distinct (snd (map_step m p)) ps"

lemma always_distinctD: "always_distinct m ps \<Longrightarrow> scores_distinct m"
  by (cases ps) auto

lemma ss_step_refines:
  assumes "ss_ok t xs" "scores_distinct (ss_dict t)"
  shows "\<exists>t' ys. ss_step t p = Some (fst (map_step (ss_dict t) p), t') \<and> ss_ok t' ys
    \<and> ss_dict t' = snd (map_step (ss_dict t) p)"
proof (cases p)
  case (SetInsert rnd k d)
  show ?thesis
  proof (cases "ss_dict t d")
    case None
    obtain t' where "ss_Insert rnd k d t = Some (True, t')" "ss_ok t' (put (k, d) xs)"
        "ss_dict t' = (ss_dict t)(d \<mapsto> k)"
      by (rule ss_Insert_ok [OF assms(1) None])
    with None SetInsert show ?thesis by auto
  next
    case (Some j)
    with assms(1) SetInsert show ?thesis by (auto simp: ss_Insert_def)
  qed
next
  case (SetUpdate rnd k d)
  with ss_Update_ok [OF assms, of rnd k d] show ?thesis by auto
next
  case (SetDelMem d)
  show ?thesis
  proof (cases "ss_dict t d")
    case None
    with assms(1) SetDelMem show ?thesis by (auto simp: ss_DelMem_def)
  next
    case (Some k)
    obtain t' ys zs where "ss_DelMem d t = Some (True, t')" "ss_ok t' (ys @ zs)"
        "ss_dict t' = (ss_dict t)(d := None)"
      by (rule ss_DelMem_ok [OF assms(1) Some assms(2)])
    with Some SetDelMem show ?thesis by auto
  qed
qed

lemma ss_run_refines:
  assumes "ss_ok t xs" "always_distinct (ss_dict t) ps"
  shows "\<exists>t' ys. ss_run t ps = Some (fst (map_run (ss_dict t) ps), t') \<and> ss_ok t' ys
    \<and> ss_dict t' = snd (map_run (ss_dict t) ps)"
  using assms
proof (induction ps arbitrary: t xs)
  case (Cons p ps)
  obtain t1 ys where t1: "ss_step t p = Some (fst (map_step (ss_dict t) p), t1)" "ss_ok t1 ys"
      "ss_dict t1 = snd (map_step (ss_dict t) p)"
    using ss_step_refines [OF Cons.prems(1), of p] Cons.prems(2) by auto
  with Cons.prems(2) Cons.IH [of t1 ys] show ?case by (auto simp: split_beta)
qed auto

section \<open>Reading\<close>

lemma ss_rank:
  assumes ok: "ss_ok t xs" and inj: "scores_distinct (ss_dict t)" and small: "length xs < 2 ^ 31"
    and mem: "ss_dict t d = Some k"
  shows "ss_GetMemRank d t = Some (Some (of_nat (Suc (card {e. \<exists>j. ss_dict t e = Some j \<and> j < k}))))"
proof -
  obtain ys zs where xs: "xs = ys @ (k, d) # zs"
    using mem ss_okD(4) [OF ok] by (auto dest: split_list)
  note ok' = ok [unfolded xs]
  have out: "d \<notin> snd ` set ys" "d \<notin> snd ` set zs" using ss_okD(3) [OF ok'] by auto
  have ne: "j \<noteq> k" if "(j, e) \<in> set (ys @ zs)" for j e
  proof
    assume "j = k"
    then have "ss_dict t e = Some k" using that ss_okD(4) [OF ok', of e k] by auto
    with mem inj have "e = d" by (auto simp: scores_distinct_def)
    with that out show False by force
  qed
  have ys: "j < k" if "(j, e) \<in> set ys" for j e
    using sorted_around(1) [OF ss_okD(2) [OF ok'] that] ne [of j e] that by auto
  have zs: "k < j" if "(j, e) \<in> set zs" for j e
    using sorted_around(2) [OF ss_okD(2) [OF ok'] that] ne [of j e] that by auto
  have "{e. \<exists>j. ss_dict t e = Some j \<and> j < k} = snd ` set ys"
  proof (intro set_eqI iffI)
    fix e assume "e \<in> {e. \<exists>j. ss_dict t e = Some j \<and> j < k}"
    then obtain j where "(j, e) \<in> set xs" "j < k" using ss_okD(4) [OF ok] by auto
    with xs zs have "(j, e) \<in> set ys" by force
    then show "e \<in> snd ` set ys" by force
  next
    fix e assume "e \<in> snd ` set ys"
    then obtain j where "(j, e) \<in> set ys" by auto
    with ys xs show "e \<in> {e. \<exists>j. ss_dict t e = Some j \<and> j < k}" using ss_okD(4) [OF ok, of e j] by auto
  qed
  moreover have "card (snd ` set ys) = length ys"
    using ss_okD(3) [OF ok'] distinct_card [of "map snd ys"] by simp
  moreover have "sl_GetRank k d (ss_sl t) = Some (of_nat (Suc (length ys)))"
  proof (rule GetRank_holds [OF ss_okD(1) [OF ok'] _ _ zs])
    show "length (ys @ zs) < 2 ^ 31 - 1" using small xs by simp
    show "j \<le> k \<and> e \<noteq> d" if "(j, e) \<in> set ys" for j e
      using ys [OF that] out(1) that by force
  qed
  ultimately show ?thesis using mem by (simp add: ss_GetMemRank_def)
qed

section \<open>Deletion that misses its member\<close>

text \<open>Two tests that agree on every cell ahead that reaches the level walk alike.\<close>

lemma advance_cong:
  assumes adv: "sl_advance h P' i x r = Some xr" and ch: "chain h fs"
    and at: "fs = ps @ f # qs" "x = c_adr f" "i < c_hgt f"
    and agree: "\<And>g n r. g \<in> set qs \<Longrightarrow> i < c_hgt g \<Longrightarrow> h (c_adr g) = Some n \<Longrightarrow> P n r = P' n r"
  shows "sl_advance h P i x r = Some xr"
proof -
  have ahead: "\<exists>as g bs. qs = as @ g # bs \<and> i < c_hgt g \<and> c_adr g = y"
    if "sl_lev h x i = Some l" "lv_forward l = Some y" "fs = ps @ f # qs" "x = c_adr f" "i < c_hgt f" for x l y ps f qs
  proof -
    have "chain h (ps @ f # qs)" using ch that(3) by simp
    from chain_level [OF this that(5)] that(1,2,4) have "fst (fwd i qs) = Some y" by force
    then show ?thesis by (elim fwd_SomeE) blast
  qed
  have "\<forall>ps f qs. fs = ps @ f # qs \<longrightarrow> x = c_adr f \<longrightarrow> i < c_hgt f
      \<longrightarrow> (\<forall>g \<in> set qs. i < c_hgt g \<longrightarrow> (\<forall>n r. h (c_adr g) = Some n \<longrightarrow> P n r = P' n r))
      \<longrightarrow> sl_advance h P i x r = Some xr"
    using adv
  proof (induction rule: sl_advance_induct)
    case (nil x r l)
    then have "sl_advance h P i x r = Some (x, r)" by (subst sl_advance.simps) simp
    then show ?case by blast
  next
    case (stop x r l y n)
    show ?case
    proof (intro allI impI)
      fix ps f qs
      assume a: "fs = ps @ f # qs" "x = c_adr f" "i < c_hgt f"
        and ag: "\<forall>g \<in> set qs. i < c_hgt g \<longrightarrow> (\<forall>n r. h (c_adr g) = Some n \<longrightarrow> P n r = P' n r)"
      from ahead [OF stop(1,2) a] obtain as g bs where "qs = as @ g # bs" and g: "i < c_hgt g" "c_adr g = y" by blast
      then have "g \<in> set qs" by simp
      with g ag stop(3) have "P n (r + ucast (lv_span l)) = P' n (r + ucast (lv_span l))" by blast
      with stop show "sl_advance h P i x r = Some (x, r)" by (subst sl_advance.simps) simp
    qed
  next
    case (go x r l y n xr)
    show ?case
    proof (intro allI impI)
      fix ps f qs
      assume a: "fs = ps @ f # qs" "x = c_adr f" "i < c_hgt f"
        and ag: "\<forall>g \<in> set qs. i < c_hgt g \<longrightarrow> (\<forall>n r. h (c_adr g) = Some n \<longrightarrow> P n r = P' n r)"
      from ahead [OF go(1,2) a] obtain as g bs where g: "qs = as @ g # bs" "i < c_hgt g" "c_adr g = y" by blast
      with ag go(3) have "P n (r + ucast (lv_span l)) = P' n (r + ucast (lv_span l))" by simp
      moreover have "sl_advance h P i y (r + ucast (lv_span l)) = Some xr"
        by (rule go(5) [rule_format, of "ps @ f # as" g bs]) (use a(1) g ag in auto)
      ultimately show "sl_advance h P i x r = Some xr" using go(1-4) by (subst sl_advance.simps) simp
    qed
  qed
  with at agree show ?thesis by blast
qed

text \<open>The search for the member of \<open>c\<close> walks as one for the last cell that does not score higher:
  on the levels above \<open>c\<close> it passes to \<open>e\<close> or beyond, and below it is past \<open>c\<close> already.\<close>

lemma descend_past:
  fixes P :: "sl_node \<Rightarrow> 'r::len word \<Rightarrow> bool"
  assumes ch: "chain h (pre @ vs)" and P': "tests_prefix h P' (pre @ vs) (length pre)" and small: "LENGTH('r) \<le> 32"
    and pre: "pre = us @ c # ms @ e # ws" "c_hgt c < c_hgt e" "distinct (map c_adr (pre @ vs))"
    and agree: "\<And>g n r. g \<in> set (tl pre @ vs) \<Longrightarrow> g \<noteq> c \<Longrightarrow> h (c_adr g) = Some n \<Longrightarrow> P n r = P' n r"
  shows "pre = ps @ rest \<Longrightarrow> ps \<noteq> [] \<Longrightarrow> m \<le> c_hgt (last ps) \<Longrightarrow> r = of_nat (length ps - 1)
    \<Longrightarrow> c_hgt c < m \<or> c \<in> set (butlast ps) \<Longrightarrow> m \<le> c_hgt (hd pre)
    \<Longrightarrow> sl_descend h P m (c_adr (last ps)) r = sl_descend h P' m (c_adr (last ps)) r"
proof (induction m arbitrary: ps rest r)
  case (Suc m)
  let ?k = "kept m pre"
  have fs: "pre @ vs = butlast ps @ last ps # rest @ vs"
    using Suc.prems(1,2) by (metis append.assoc append_Cons append_Nil append_butlast_last_id)
  have adv: "sl_advance h P' m (c_adr (last ps)) r = Some (c_adr (last ?k), of_nat (length ?k - 1))"
    using advance [OF ch P', of ps rest m r] small Suc.prems by simp
  have "sl_advance h P m (c_adr (last ps)) r = Some (c_adr (last ?k), of_nat (length ?k - 1))"
  proof (rule advance_cong [OF adv ch fs refl])
    show "m < c_hgt (last ps)" using Suc.prems(3) by simp
    show "P n r' = P' n r'" if g: "g \<in> set (rest @ vs)" "m < c_hgt g" "h (c_adr g) = Some n" for g n r'
    proof (rule agree [OF _ _ g(3)])
      show "g \<in> set (tl pre @ vs)" using g(1) Suc.prems(1,2) by (cases ps) auto
      have "c \<notin> set (rest @ vs)" if "c \<in> set (butlast ps)" using pre(3) that unfolding fs by auto
      then show "g \<noteq> c" using g(1,2) Suc.prems(5) by auto
    qed
  qed
  moreover obtain rest' where k: "pre = ?k @ rest'" "low m rest'" using kept_split by blast
  have ne: "?k \<noteq> []"
  proof -
    have "pre = hd pre # tl pre" by (simp add: pre(1))
    then show ?thesis using Suc.prems(6) kept_Cons_ne [of m "hd pre" "tl pre"] by (metis Suc_le_eq)
  qed
  have "c_hgt c < m \<or> c \<in> set (butlast ?k)"
  proof (cases "c_hgt c < m")
    case False
    then have "e \<notin> set rest'" using k(2) pre(2) by (auto simp: low_def)
    have "length us + length ms + 1 < length ?k"
    proof (rule ccontr)
      assume "\<not> length us + length ms + 1 < length ?k"
      then have "length ?k \<le> length (us @ c # ms)" by simp
      moreover have "pre = (us @ c # ms) @ e # ws" by (simp add: pre(1))
      ultimately have "drop (length ?k) pre = drop (length ?k) (us @ c # ms) @ e # ws" by (simp only: drop_append) simp
      then have "e \<in> set (drop (length ?k) pre)" by simp
      also have "drop (length ?k) pre = rest'" by (metis append_eq_conv_conj k(1))
      finally show False using \<open>e \<notin> set rest'\<close> by simp
    qed
    then have l: "length us < length ?k - 1" by simp
    have "butlast ?k ! length us = ?k ! length us" using l by (simp add: nth_butlast)
    also have "\<dots> = pre ! length us" using l arg_cong [OF k(1), of "\<lambda>xs. xs ! length us"] by (simp add: nth_append)
    finally have "butlast ?k ! length us = c" by (simp add: pre(1) nth_append)
    then show ?thesis using l by (metis length_butlast nth_mem)
  qed simp
  then have "sl_descend h P m (c_adr (last ?k)) (of_nat (length ?k - 1)) = sl_descend h P' m (c_adr (last ?k)) (of_nat (length ?k - 1))"
    using kept_high [OF ne] Suc.prems(6) by (intro Suc.IH [OF k(1) ne]) simp_all
  ultimately show ?case using adv by simp
qed simp

lemma Delete_misses:
  assumes rep: "sl_rep s cs" and cs: "cs = us @ c # ms @ e # vs" "c_score e = c_score c" "c_hgt c < c_hgt e"
    and sorted: "sorted (map c_score cs)" and dist: "distinct (map c_val cs)"
  shows "sl_Delete (c_score c) (c_val c) s = Some (-1, s)"
proof -
  let ?k = "c_score c" and ?h = "sl_heap s"
  define ws where "ws = takeWhile (\<lambda>d. c_score d \<le> ?k) vs"
  define vs' where "vs' = dropWhile (\<lambda>d. c_score d \<le> ?k) vs"
  let ?us = "us @ c # ms @ e # ws"
  have split: "cs = ?us @ vs'" by (simp add: cs(1) ws_def vs'_def)
  have above: "?k < c_score d" if "d \<in> set vs'" for d
  proof -
    have "sorted (map c_score vs)" using sorted by (simp add: cs(1) sorted_append)
    moreover obtain x xs where "vs' = x # xs" using \<open>d \<in> set vs'\<close> by (cases vs') auto
    moreover have "vs = ws @ vs'" by (simp add: ws_def vs'_def)
    moreover have "\<not> c_score x \<le> ?k" using calculation(2) unfolding vs'_def by (metis dropWhile_eq_Cons_conv)
    ultimately show ?thesis using that by (force simp: sorted_append)
  qed
  have upto: "c_score d \<le> ?k" if "d \<in> set ?us" for d
    using that sorted cs(2) by (auto simp: cs(1) sorted_append ws_def dest: set_takeWhileD)
  have other: "c_val d \<noteq> c_val c" if "d \<in> set cs" "d \<noteq> c" for d
    using dist that unfolding distinct_map inj_on_def by (metis cs(1) in_set_conv_decomp)
  have rep': "sl_rep s (?us @ vs')" using rep by (simp only: split)
  let ?P = "before_member ?k (c_val c)" and ?P' = "\<lambda>n (_ :: 32 word). n_score n \<le> ?k"
  have P': "tests_prefix ?h ?P' (head_cell s # ?us @ vs') (Suc (length ?us))"
    by (rule tests_score [OF rep', where Q = "\<lambda>t _. t \<le> ?k"]) (use upto above in \<open>auto simp: not_le\<close>)
  obtain ups where u: "sl_find ?P' s = Some (ups ! 0, ups)" "found (sl_lvl s) (head_cell s # ?us) ups"
    by (rule find_found [OF rep' P'])
  have "sl_find ?P s = sl_find ?P' s"
  proof -
    have "sl_descend ?h ?P (sl_lvl s) (c_adr (last [head_cell s])) 0 = sl_descend ?h ?P' (sl_lvl s) (c_adr (last [head_cell s])) 0"
    proof (rule descend_past [where pre = "head_cell s # ?us" and vs = vs' and us = "head_cell s # us" and rest = ?us and c = c and e = e and ms = ms and ws = ws])
      show "chain ?h ((head_cell s # ?us) @ vs')" "distinct (map c_adr ((head_cell s # ?us) @ vs'))"
        using rep' by (simp_all add: sl_rep_def)
      show "tests_prefix ?h ?P' ((head_cell s # ?us) @ vs') (length (head_cell s # ?us))" using P' by simp
      show "?P n r = ?P' n r" if g: "g \<in> set (tl (head_cell s # ?us) @ vs')" "g \<noteq> c" "?h (c_adr g) = Some n" for g n r
      proof -
        have "g \<in> set cs" using g(1) by (simp add: split)
        then obtain n' where "?h (c_adr g) = Some n'" "n_score n' = c_score g" "d_val (n_data n') = c_val g"
          using rep_node [OF rep] by blast
        with other [OF \<open>g \<in> set cs\<close> g(2)] g(3) show ?thesis by (auto simp: before_member_def val_cmp_def)
      qed
      show "c_hgt c < sl_lvl s \<or> c \<in> set (butlast [head_cell s])"
        using rep cs(3) by (force simp: sl_rep_def cs(1))
    qed (use rep cs(3) in \<open>auto simp: sl_rep_def head_cell_def\<close>)
    then show ?thesis by (simp add: sl_find_def head_cell_def)
  qed
  with u have f: "sl_find ?P s = Some (ups ! 0, ups)" by simp
  have u3: "fst (ups ! 0) = c_adr (last (head_cell s # ?us))" using u(2) by (simp add: found_def)
  obtain l where l: "sl_lev ?h (fst (ups ! 0)) 0 = Some l" "lv_forward l = adr_hd vs'"
    using rep_level0_last [OF rep'] u3 by metis
  show ?thesis
  proof (cases vs')
    case Nil
    with f l show ?thesis by (simp add: sl_Delete_def split_beta adr_hd_def)
  next
    case (Cons d ds)
    then obtain n where "?h (c_adr d) = Some n" "n_score n = c_score d" using rep_node [OF rep', of d] by auto
    with Cons f l above [of d] show ?thesis by (simp add: sl_Delete_def split_beta adr_hd_def)
  qed
qed

section \<open>Properties\<close>

text \<open>C13. As long as no two members ever have the same score, every sequence of
  \<open>Insert\<close>, \<open>Update\<close> and \<open>DelMem\<close> on a new sorted set succeeds and answers what the map
  from member to score answers; in the end iterating the set visits exactly the pairs of
  that map, sorted by score.\<close>

theorem ss_refines_map:
  assumes "always_distinct Map.empty ps" "m = snd (map_run Map.empty ps)" "m \<noteq> Map.empty"
  shows "\<exists>t xs. ss_run ss_new ps = Some (fst (map_run Map.empty ps), t) \<and> ss_dict t = m
    \<and> sl_contents (ss_sl t) = Some xs \<and> sorted (map fst xs) \<and> distinct (map snd xs)
    \<and> (\<forall>k d. m d = Some k \<longleftrightarrow> (k, d) \<in> set xs)"
proof -
  have e: "ss_dict ss_new = Map.empty" by (simp add: ss_new_def)
  obtain t xs where t: "ss_run ss_new ps = Some (fst (map_run Map.empty ps), t)" "ss_ok t xs" "ss_dict t = m"
    using ss_run_refines [OF ss_new_ok, of ps] assms(1,2) e by auto
  have "xs \<noteq> []" using t(3) assms(3) ss_okD(4) [OF t(2)] by fastforce
  with t contents_holds ss_okD [OF t(2)] show ?thesis by blast
qed

theorem ss_refines_map_witness:
  "\<exists>t. ss_run ss_new [SetInsert rand_flat 2 ''b'', SetInsert rand_high 1 ''a'', SetUpdate rand_high 5 ''a'',
      SetInsert rand_flat 9 ''b'', SetDelMem ''x'']
    = Some ([True, True, True, False, False], t) \<and> ss_dict t = [''b'' \<mapsto> 2, ''a'' \<mapsto> 5]"
proof -
  let ?ps = "[SetInsert rand_flat 2 ''b'', SetInsert rand_high 1 ''a'', SetUpdate rand_high 5 ''a'',
      SetInsert rand_flat 9 ''b'', SetDelMem ''x'']"
  have run: "map_run Map.empty ?ps = ([True, True, True, False, False], [''b'' \<mapsto> 2, ''a'' \<mapsto> 5])"
    by simp
  have "always_distinct Map.empty ?ps" by (simp add: scores_distinct_def)
  moreover have "[''b'' \<mapsto> 2, ''a'' \<mapsto> (5 :: real)] \<noteq> Map.empty" by simp
  ultimately show ?thesis using ss_refines_map [of ?ps "[''b'' \<mapsto> 2, ''a'' \<mapsto> 5]"] run
    by (metis fst_conv snd_conv)
qed

text \<open>With pairwise distinct scores \<open>GetMemRank\<close> of a member is one more than the
  number of members with a smaller score.\<close>

theorem ss_rank_counts_smaller:
  assumes "ss_ok t xs" "scores_distinct (ss_dict t)" "length xs < 2 ^ 31" "ss_dict t d = Some k"
  shows "ss_GetMemRank d t = Some (Some (of_nat (Suc (card {e. \<exists>j. ss_dict t e = Some j \<and> j < k}))))"
  using assms by (rule ss_rank)

theorem ss_rank_counts_smaller_witness:
  "\<exists>t. ss_Insert rand_flat 7 ''m'' ss_new = Some (True, t) \<and> ss_GetMemRank ''m'' t = Some (Some 1)"
proof -
  have new: "ss_dict ss_new = Map.empty" "ss_dict ss_new ''m'' = None" by (simp_all add: ss_new_def)
  obtain t where t: "ss_Insert rand_flat 7 ''m'' ss_new = Some (True, t)" "ss_ok t (put (7, ''m'') [])"
      "ss_dict t = [''m'' \<mapsto> 7]"
    by (rule ss_Insert_ok [OF ss_new_ok new(2), of rand_flat 7]) (simp add: new(1))
  have "\<not> (\<exists>j. ss_dict t e = Some j \<and> j < 7)" for e by (cases "e = ''m''") (simp_all add: t(3))
  then have none: "{e. \<exists>j. ss_dict t e = Some j \<and> j < 7} = {}" by blast
  have "scores_distinct (ss_dict t)" unfolding scores_distinct_def t(3) by (metis map_upd_Some_unfold option.distinct(1))
  with t none show ?thesis
    using ss_rank_counts_smaller [OF t(2), of "''m''" 7] t(1,3) none by simp
qed

text \<open>C39. With equal scores dictionary and list come apart. Let the list of a sorted set hold the
  cells \<open>cs\<close> in their order, sorted by score with distinct members, and let somewhere behind the
  cell \<open>c\<close> a cell \<open>e\<close> have the same score and reach more levels than \<open>c\<close>. Then \<open>DelMem\<close> of the
  member of \<open>c\<close> answers true and the dictionary forgets the member, but the search of \<open>Delete\<close>
  steps over it on the higher levels and takes nothing out: iterating the set still lists exactly
  the same members, the deleted one among them.\<close>

theorem ss_deleted_member_stays_listed:
  assumes "sl_rep (ss_sl t) cs" "cs = us @ c # ms @ e # vs" "c_score e = c_score c" "c_hgt c < c_hgt e"
    and "sorted (map c_score cs)" "distinct (map c_val cs)" "ss_dict t (c_val c) = Some (c_score c)"
  shows "\<exists>t'. ss_DelMem (c_val c) t = Some (True, t') \<and> ss_GetMemScore (c_val c) t' = None
    \<and> (c_score c, c_val c) \<in> set (cells_items cs)
    \<and> sl_contents (ss_sl t) = Some (cells_items cs) \<and> sl_contents (ss_sl t') = Some (cells_items cs)"
proof -
  have "sl_holds (ss_sl t) (cells_items cs)" using assms(1) by (auto simp: sl_holds_def)
  moreover have "cells_items cs \<noteq> []" by (simp add: assms(2))
  ultimately have "sl_contents (ss_sl t) = Some (cells_items cs)" by (rule contents_holds)
  with Delete_misses [OF assms(1-6)] assms(2,7) show ?thesis by (simp add: ss_DelMem_def ss_GetMemScore_def)
qed

text \<open>Inserting \<open>b\<close> with two levels behind \<open>a\<close> with one gives such a set.\<close>

theorem ss_deleted_member_stays_listed_witness:
  "\<exists>t. ss_run ss_new [SetInsert rand_flat 1 ''a'', SetInsert rand_high 1 ''b'', SetDelMem ''a''] = Some ([True, True, True], t)
    \<and> ss_GetMemScore ''a'' t = None \<and> sl_contents (ss_sl t) = Some [(1, ''a''), (1, ''b'')]"
proof -
  have lvl: "skRandomLevel rand_flat = 1" "skRandomLevel rand_high = 2"
    by code_simp+
  have rep0: "sl_rep sl_new ([] @ [])" using sl_new_rep by simp
  have "tests_prefix (sl_heap sl_new) (before_member 1 ''a'') (head_cell sl_new # [] @ []) (Suc (length ([] :: cell list)))"
    by (rule tests_score [where Q = "\<lambda>t v. t < 1 \<or> (t = 1 \<and> \<not> val_cmp v ''a'')"]) (use rep0 in \<open>simp_all add: before_member_def\<close>)
  then obtain s1 c where s1: "sl_Insert rand_flat 1 ''a'' sl_new = Some s1" "c_score c = 1" "c_val c = ''a''"
      "sl_rep s1 ([c] @ [])" "c_hgt c = 1"
    by (rule Insert_rep [OF rep0, where rnd = rand_flat]) (simp add: lvl(1))
  have "tests_prefix (sl_heap s1) (before_member 1 ''b'') (head_cell s1 # [c] @ []) (Suc (length [c]))"
    by (rule tests_score [where Q = "\<lambda>t v. t < 1 \<or> (t = 1 \<and> \<not> val_cmp v ''b'')"]) (use s1 in \<open>simp_all add: before_member_def val_cmp_def\<close>)
  then obtain s2 e where s2: "sl_Insert rand_high 1 ''b'' s1 = Some s2" "c_score e = 1" "c_val e = ''b''"
      "sl_rep s2 [c, e]" "c_hgt e = 2"
    by (rule Insert_rep [OF s1(4), where rnd = rand_high]) (simp add: lvl(2))
  define t1 where "t1 = \<lparr>ss_sl = s1, ss_dict = [''a'' \<mapsto> 1]\<rparr>"
  define t2 where "t2 = \<lparr>ss_sl = s2, ss_dict = [''a'' \<mapsto> 1, ''b'' \<mapsto> 1]\<rparr>"
  have "\<exists>t'. ss_DelMem (c_val c) t2 = Some (True, t') \<and> ss_GetMemScore (c_val c) t' = None
      \<and> (c_score c, c_val c) \<in> set (cells_items [c, e])
      \<and> sl_contents (ss_sl t2) = Some (cells_items [c, e]) \<and> sl_contents (ss_sl t') = Some (cells_items [c, e])"
  proof (rule ss_deleted_member_stays_listed)
    show "[c, e] = [] @ c # [] @ e # []" by simp
    show "sl_rep (ss_sl t2) [c, e]" using s2(4) by (simp add: t2_def)
  qed (simp_all add: s1(2,3,5) s2(2,3,5) t2_def)
  then obtain t' where "ss_DelMem ''a'' t2 = Some (True, t')" "ss_GetMemScore ''a'' t' = None"
      "sl_contents (ss_sl t') = Some [(1, ''a''), (1, ''b'')]"
    by (auto simp: s1(2,3) s2(2,3))
  moreover have "ss_Insert rand_flat 1 ''a'' ss_new = Some (True, t1)"
    by (simp add: ss_Insert_def ss_new_def s1(1) t1_def)
  moreover have "ss_Insert rand_high 1 ''b'' t1 = Some (True, t2)"
    by (simp add: ss_Insert_def s2(1) t1_def t2_def)
  ultimately show ?thesis by simp
qed

end
