(* ===== verification/Sldb.thy ===== *)
theory Sldb
  imports Prelude "HOL-Library.Monad_Syntax"
begin

unbundle bit_operations_syntax

text \<open>
  The database file of \<open>bis/src/server/sldb.h\<close> and \<open>sldb.cpp\<close>: objects as a type byte, a
  length of one, two or five bytes and the serialised message. A stream is the bytes of the
  file, the position and the number of bytes the device still takes; \<open>fwrite\<close> and \<open>fread\<close>
  of one item answer 1 when the whole item went through and 0 otherwise. Serialised
  messages are byte lists (the message classes are generated code).
\<close>

section \<open>Streams\<close>

record sldb =
  buffered :: "64 word"
  f_bytes :: "byte list"
  f_pos :: nat
  f_room :: nat

definition LEN_ERR :: "32 word" where
  "LEN_ERR = -1"

text \<open>\<open>Init\<close> opens the file: mode \<open>w\<close> truncates it, mode \<open>r\<close> reads what is there.\<close>

definition sldb_open_w :: "nat \<Rightarrow> sldb" where
  "sldb_open_w room = \<lparr>buffered = 0, f_bytes = [], f_pos = 0, f_room = room\<rparr>"

definition sldb_open_r :: "byte list \<Rightarrow> sldb" where
  "sldb_open_r content = \<lparr>buffered = 0, f_bytes = content, f_pos = 0, f_room = 0\<rparr>"

text \<open>What \<open>fflush\<close>, \<open>fsync\<close> and \<open>fclose\<close> say is an argument; \<open>fclose\<close> fails with \<open>EOF\<close>.\<close>

definition sldb_FileFlush :: "bool \<Rightarrow> int" where "sldb_FileFlush ok = (if \<not> ok then -1 else 0)"
definition sldb_FileFsync :: "bool \<Rightarrow> int" where "sldb_FileFsync ok = (if \<not> ok then -1 else 0)"

definition sldb_FileClose :: "bool \<Rightarrow> bool \<Rightarrow> int" where
  "sldb_FileClose is_open ok = (if \<not> is_open then -1 else if ok then 0 else -1)"

lemma file_answers [simp]:
  "sldb_FileFlush ok < 0 \<longleftrightarrow> \<not> ok" "sldb_FileFsync ok < 0 \<longleftrightarrow> \<not> ok" "sldb_FileClose True ok < 0 \<longleftrightarrow> \<not> ok"
  by (simp_all add: sldb_FileFlush_def sldb_FileFsync_def sldb_FileClose_def)

definition sldb_FileWrite :: "byte list \<Rightarrow> sldb \<Rightarrow> 64 word \<times> sldb" where
  "sldb_FileWrite buf f =
     (let out = take (f_room f) buf;
          f1 = f\<lparr>f_bytes := f_bytes f @ out, f_pos := f_pos f + length out, f_room := f_room f - length out\<rparr>;
          retval = (if buf \<noteq> [] \<and> length buf \<le> f_room f then 1 else 0)
      in if retval \<le> 0 then (0, f1)
         else (retval, f1\<lparr>buffered := buffered f1 + of_nat (length buf)\<rparr>))"

text \<open>The bytes read, when the item was complete.\<close>

definition sldb_FileRead :: "nat \<Rightarrow> sldb \<Rightarrow> byte list option \<times> sldb" where
  "sldb_FileRead len f =
     (let rest = drop (f_pos f) (f_bytes f); f1 = f\<lparr>f_pos := f_pos f + min len (length rest)\<rparr>
      in if 0 < len \<and> len \<le> length rest then (Some (take len rest), f1) else (None, f1))"

definition sldb_FileTell :: "sldb \<Rightarrow> nat" where
  "sldb_FileTell f = f_pos f"

section \<open>Types and lengths\<close>

definition sldb_SaveType :: "byte \<Rightarrow> sldb \<Rightarrow> int \<times> sldb" where
  "sldb_SaveType type f = (let (n, f) = sldb_FileWrite [type] f in (uint n, f))"

definition sldb_LoadType :: "sldb \<Rightarrow> int \<times> sldb" where
  "sldb_LoadType f =
     (case sldb_FileRead 1 f of
        (None, f) \<Rightarrow> (-1, f)
      | (Some buf, f) \<Rightarrow> (uint (buf ! 0), f))"

abbreviation (input) BS_6BIT :: "32 word" where "BS_6BIT \<equiv> 0"
abbreviation (input) BS_14BIT :: "32 word" where "BS_14BIT \<equiv> 1"
abbreviation (input) BS_32BIT :: "32 word" where "BS_32BIT \<equiv> 2"

text \<open>The four bytes of a 32-bit word in network order.\<close>

definition net_bytes :: "32 word \<Rightarrow> byte list" where
  "net_bytes w = [ucast (drop_bit 24 w), ucast (drop_bit 16 w), ucast (drop_bit 8 w), ucast w]"

definition net_word :: "byte list \<Rightarrow> 32 word" where
  "net_word bs = push_bit 24 (ucast (bs ! 0)) OR push_bit 16 (ucast (bs ! 1))
     OR push_bit 8 (ucast (bs ! 2)) OR ucast (bs ! 3)"

definition sldb_SaveLen :: "32 word \<Rightarrow> sldb \<Rightarrow> int \<times> sldb" where
  "sldb_SaveLen len f =
     (if len < 2 ^ 6 then
        let (n, f) = sldb_FileWrite [ucast ((len AND 0xFF) OR push_bit 6 BS_6BIT)] f in
        if n = 0 then (-1, f) else (1, f)
      else if len < 2 ^ 14 then
        let (n, f) = sldb_FileWrite
              [ucast ((drop_bit 8 len AND 0xFF) OR push_bit 6 BS_14BIT), ucast (len AND 0xFF)] f in
        if n = 0 then (-1, f) else (2, f)
      else
        let (n, f) = sldb_FileWrite [ucast (push_bit 6 BS_32BIT)] f in
        if n = 0 then (-1, f)
        else
          let (n, f) = sldb_FileWrite (net_bytes len) f in
          if n = 0 then (-1, f) else (1 + 4, f))"

definition sldb_LoadLen :: "sldb \<Rightarrow> 32 word \<times> sldb" where
  "sldb_LoadLen f =
     (case sldb_FileRead 1 f of
        (None, f) \<Rightarrow> (LEN_ERR, f)
      | (Some b0, f) \<Rightarrow>
          let buf0 = ucast (b0 ! 0) :: 32 word; type = drop_bit 6 (buf0 AND 0xC0) in
          if type = BS_6BIT then (buf0 AND 0x3F, f)
          else if type = BS_14BIT then
            (case sldb_FileRead 1 f of
               (None, f) \<Rightarrow> (LEN_ERR, f)
             | (Some b1, f) \<Rightarrow> (push_bit 8 (buf0 AND 0x3F) OR ucast (b1 ! 0), f))
          else if type = BS_32BIT then
            (case sldb_FileRead 4 f of
               (None, f) \<Rightarrow> (LEN_ERR, f)
             | (Some bs, f) \<Rightarrow> (net_word bs, f))
          else (-1, f))"

section \<open>Strings and objects\<close>

definition sldb_SaveRawString :: "byte list \<Rightarrow> sldb \<Rightarrow> int \<times> sldb" where
  "sldb_SaveRawString str f =
     (if length str > 0 then
        let (n, f) = sldb_SaveLen (of_nat (length str)) f in
        if n \<le> 0 then (-1, f)
        else
          let (w, f) = sldb_FileWrite str f in
          if w \<le> 0 then (-1, f) else (n + int (length str), f)
      else (0, f))"

definition sldb_LoadRawString :: "sldb \<Rightarrow> byte list option \<times> sldb" where
  "sldb_LoadRawString f =
     (let (len, f) = sldb_LoadLen f in
      if LEN_ERR = len then (None, f)
      else sldb_FileRead (unat len) f)"

text \<open>The message to save comes serialised; \<open>parse\<close> is the message's parser.\<close>

definition sldb_SaveObj :: "byte list \<Rightarrow> byte \<Rightarrow> sldb \<Rightarrow> int \<times> sldb" where
  "sldb_SaveObj obj type f =
     (let (n, f) = sldb_SaveType type f in
      if n \<le> 0 then (-1, f)
      else
        let (m, f) = sldb_SaveRawString obj f in
        if m \<le> 0 then (-1, f) else (n + m, f))"

definition sldb_LoadObj :: "(byte list \<Rightarrow> 'm option) \<Rightarrow> sldb \<Rightarrow> 'm option \<times> sldb" where
  "sldb_LoadObj parse f =
     (case sldb_LoadRawString f of
        (None, f) \<Rightarrow> (None, f)
      | (Some buf, f) \<Rightarrow> (parse buf, f))"

section \<open>What is written\<close>

definition len_bytes :: "32 word \<Rightarrow> byte list" where
  "len_bytes len =
     (if len < 2 ^ 6 then [ucast len]
      else if len < 2 ^ 14 then [ucast (drop_bit 8 len) OR 0x40, ucast len]
      else 0x80 # net_bytes len)"

definition obj_bytes :: "byte \<times> byte list \<Rightarrow> byte list" where
  "obj_bytes ob = fst ob # len_bytes (of_nat (length (snd ob))) @ snd ob"

text \<open>\<open>f'\<close> is \<open>f\<close> after a complete write of \<open>bs\<close>.\<close>

definition wrote :: "sldb \<Rightarrow> byte list \<Rightarrow> sldb \<Rightarrow> bool" where
  "wrote f bs f' \<longleftrightarrow> f_bytes f' = f_bytes f @ bs \<and> f_pos f' = f_pos f + length bs
     \<and> f_room f = f_room f' + length bs \<and> buffered f' = buffered f + of_nat (length bs)"

lemma wrote_trans: "wrote f as f1 \<Longrightarrow> wrote f1 bs f2 \<Longrightarrow> wrote f (as @ bs) f2"
  by (simp add: wrote_def add.assoc)

lemma FileWrite_wrote:
  assumes "bs \<noteq> []" "length bs \<le> f_room f"
  obtains f' where "sldb_FileWrite bs f = (1, f')" "wrote f bs f'"
proof -
  let ?f = "f\<lparr>f_bytes := f_bytes f @ bs, f_pos := f_pos f + length bs, f_room := f_room f - length bs,
    buffered := buffered f + of_nat (length bs)\<rparr>"
  show ?thesis by (rule that [of ?f]) (use assms in \<open>simp_all add: sldb_FileWrite_def wrote_def Let_def\<close>)
qed

section \<open>The bytes of a length\<close>

lemma masks:
  "(0xFF :: 32 word) = mask 8" "(0x3F :: 32 word) = mask 6" "(0xC0 :: 32 word) = push_bit 6 (mask 2)"
  by (simp_all add: mask_eq_exp_minus_1)

lemma bit_0x40: "bit (0x40 :: int) n \<longleftrightarrow> n = 6"
proof -
  have "(0x40 :: int) = push_bit 6 1" by simp
  then show ?thesis by (simp only: bit_push_bit_iff bit_1_iff) auto
qed

lemma bits_above:
  fixes len :: "32 word"
  assumes "unat len < 2 ^ k" "bit len n"
  shows "n < k"
proof -
  have "take_bit k (unat len) = unat len" using assms(1) by (simp add: take_bit_nat_eq_self)
  moreover have "bit (unat len) n" using assms(2) by (simp add: bit_unsigned_iff)
  ultimately show ?thesis by (metis bit_take_bit_iff)
qed

lemma byte_6: "ucast ((len AND 0xFF) OR push_bit 6 (0 :: 32 word)) = (ucast len :: byte)"
  unfolding masks by (intro bit_word_eqI) (simp add: bit_simps)

lemma byte_14:
  fixes len :: "32 word"
  shows "ucast ((drop_bit 8 len AND 0xFF) OR push_bit 6 1) = ((ucast (drop_bit 8 len) :: byte) OR 0x40)"
    "ucast (len AND 0xFF) = (ucast len :: byte)"
  unfolding masks by (intro bit_word_eqI; simp add: bit_simps bit_0x40)+

lemma byte_32: "ucast (push_bit 6 (2 :: 32 word)) = (0x80 :: byte)"
  by simp

lemma read_6:
  fixes len :: "32 word"
  assumes "unat len < 2 ^ 6"
  shows "drop_bit 6 (ucast (ucast len :: byte) AND 0xC0) = (0 :: 32 word)"
    "ucast (ucast len :: byte) AND 0x3F = len"
  unfolding masks using bits_above [OF assms] by (intro bit_word_eqI; force simp: bit_simps)+

lemma read_14:
  fixes len :: "32 word"
  assumes "unat len < 2 ^ 14"
  shows "drop_bit 6 (ucast ((ucast (drop_bit 8 len) :: byte) OR 0x40) AND 0xC0) = (1 :: 32 word)"
    "push_bit 8 (ucast ((ucast (drop_bit 8 len) :: byte) OR 0x40) AND 0x3F) OR ucast (ucast len :: byte) = len"
  unfolding masks
proof -
  show "drop_bit 6 (ucast ((ucast (drop_bit 8 len) :: byte) OR 0x40) AND push_bit 6 (mask 2)) = (1 :: 32 word)"
  proof (intro bit_word_eqI)
    fix n
    show "bit (drop_bit 6 (ucast ((ucast (drop_bit 8 len) :: byte) OR 0x40) AND push_bit 6 (mask 2)) :: 32 word) n
        = bit (1 :: 32 word) n"
      using bits_above [OF assms, of "14 + n"] by (cases "n = 0") (auto simp: bit_simps bit_0x40)
  qed
  show "push_bit 8 (ucast ((ucast (drop_bit 8 len) :: byte) OR 0x40) AND mask 6) OR ucast (ucast len :: byte) = len"
  proof (intro bit_word_eqI)
    fix n assume "n < LENGTH(32)"
    then show "bit (push_bit 8 (ucast ((ucast (drop_bit 8 len) :: byte) OR 0x40) AND mask 6)
        OR ucast (ucast len :: byte) :: 32 word) n = bit len n"
      using bits_above [OF assms, of n] by (cases "n < 8") (auto simp: bit_simps bit_0x40)
  qed
qed

lemma read_32: "drop_bit 6 (ucast (0x80 :: byte) AND 0xC0) = (2 :: 32 word)"
  by simp

lemma net_word_bytes: "net_word (net_bytes len) = len"
proof (intro bit_word_eqI)
  fix n assume "n < LENGTH(32)"
  then consider "n < 8" | "8 \<le> n" "n < 16" | "16 \<le> n" "n < 24" | "24 \<le> n" "n < 32" by force
  then show "bit (net_word (net_bytes len)) n = bit len n"
    by cases (auto simp: net_word_def net_bytes_def bit_simps)
qed

lemma SaveLen_wrote:
  assumes "length (len_bytes len) \<le> f_room f"
  obtains n f' where "sldb_SaveLen len f = (n, f')" "n = int (length (len_bytes len))" "wrote f (len_bytes len) f'"
proof -
  consider "len < 2 ^ 6" | "\<not> len < 2 ^ 6" "len < 2 ^ 14" | "\<not> len < 2 ^ 6" "\<not> len < 2 ^ 14" by blast
  then show ?thesis
  proof cases
    case 1
    then have room: "length [ucast len :: byte] \<le> f_room f" using assms by (simp add: len_bytes_def)
    obtain f' where "sldb_FileWrite [ucast len] f = (1, f')" "wrote f [ucast len] f'"
      by (rule FileWrite_wrote [OF _ room]) auto
    with that 1 show ?thesis by (simp add: sldb_SaveLen_def len_bytes_def byte_6 del: push_bit_of_0)
  next
    case 2
    let ?bs = "[ucast (drop_bit 8 len) OR 0x40, ucast len] :: byte list"
    have room: "length ?bs \<le> f_room f" using 2 assms by (simp add: len_bytes_def)
    obtain f' where "sldb_FileWrite ?bs f = (1, f')" "wrote f ?bs f'"
      by (rule FileWrite_wrote [OF _ room]) auto
    moreover have "sldb_SaveLen len f = (let (n, f) = sldb_FileWrite ?bs f in if n = 0 then (-1, f) else (2, f))"
      unfolding sldb_SaveLen_def byte_14 using 2 by simp
    ultimately show ?thesis using that 2 by (simp add: len_bytes_def)
  next
    case 3
    then have b: "len_bytes len = [0x80] @ net_bytes len" by (simp add: len_bytes_def)
    have room: "length [0x80 :: byte] \<le> f_room f" using assms b by simp
    obtain f1 where f1: "sldb_FileWrite [0x80] f = (1, f1)" "wrote f [0x80] f1"
      by (rule FileWrite_wrote [OF _ room]) auto
    have "length (net_bytes len) \<le> f_room f1" "net_bytes len \<noteq> []"
      using assms b f1(2) by (auto simp: wrote_def net_bytes_def)
    then obtain f2 where "sldb_FileWrite (net_bytes len) f1 = (1, f2)" "wrote f1 (net_bytes len) f2"
      by (metis FileWrite_wrote)
    with wrote_trans [OF f1(2)] f1(1) that 3 b show ?thesis
      by (simp add: sldb_SaveLen_def byte_32 net_bytes_def)
  qed
qed

lemma length_net_bytes: "length (net_bytes w) = 4" "net_bytes w \<noteq> []"
  by (simp_all add: net_bytes_def)

lemma len_bytes_le: "length (len_bytes len) \<le> 5" "len_bytes len \<noteq> []"
  by (auto simp: len_bytes_def net_bytes_def)

text \<open>A stream positioned in front of \<open>bs\<close>, and after reading it.\<close>

definition ahead :: "sldb \<Rightarrow> byte list \<Rightarrow> bool" where
  "ahead f bs \<longleftrightarrow> drop (f_pos f) (f_bytes f) = bs"

lemma FileRead_ahead:
  assumes "ahead f (as @ bs)" "as \<noteq> []"
  obtains f' where "sldb_FileRead (length as) f = (Some as, f')" "ahead f' bs" "f_bytes f' = f_bytes f"
proof -
  have d: "drop (f_pos f) (f_bytes f) = as @ bs" using assms(1) by (simp add: ahead_def)
  have "drop (f_pos f + length as) (f_bytes f) = bs"
    using arg_cong [OF d, of "drop (length as)"] by (simp add: add.commute)
  with that [of "f\<lparr>f_pos := f_pos f + length as\<rparr>"] assms(2) d show ?thesis
    by (simp add: sldb_FileRead_def ahead_def)
qed

lemma FileRead_end: "ahead f [] \<Longrightarrow> sldb_FileRead 1 f = (None, f)"
  by (simp add: sldb_FileRead_def ahead_def)

lemma LoadLen_ahead:
  assumes "ahead f (len_bytes len @ bs)"
  obtains f' where "sldb_LoadLen f = (len, f')" "ahead f' bs" "f_bytes f' = f_bytes f"
proof -
  consider "len < 2 ^ 6" | "\<not> len < 2 ^ 6" "len < 2 ^ 14" | "\<not> len < 2 ^ 6" "\<not> len < 2 ^ 14" by blast
  then show ?thesis
  proof cases
    case 1
    then have u: "unat len < 2 ^ 6" by (simp add: word_less_nat_alt)
    have "ahead f ([ucast len] @ bs)" using assms 1 by (simp add: len_bytes_def)
    then obtain f' where "sldb_FileRead 1 f = (Some [ucast len], f')" "ahead f' bs" "f_bytes f' = f_bytes f"
      by (rule FileRead_ahead) auto
    with that read_6 [OF u] show ?thesis by (simp add: sldb_LoadLen_def Let_def)
  next
    case 2
    then have u: "unat len < 2 ^ 14" by (simp add: word_less_nat_alt)
    have "ahead f ([ucast (drop_bit 8 len) OR 0x40] @ [ucast len] @ bs)" using assms 2 by (simp add: len_bytes_def)
    then obtain f1 where f1: "sldb_FileRead 1 f = (Some [ucast (drop_bit 8 len) OR 0x40], f1)"
        "ahead f1 ([ucast len] @ bs)" "f_bytes f1 = f_bytes f"
      by (rule FileRead_ahead) auto
    obtain f' where "sldb_FileRead 1 f1 = (Some [ucast len], f')" "ahead f' bs" "f_bytes f' = f_bytes f1"
      using f1(2) by (rule FileRead_ahead) auto
    with that f1 read_14 [OF u] show ?thesis
      unfolding sldb_LoadLen_def Let_def by simp
  next
    case 3
    then have "ahead f ([0x80] @ net_bytes len @ bs)" using assms by (simp add: len_bytes_def)
    then obtain f1 where f1: "sldb_FileRead 1 f = (Some [0x80], f1)" "ahead f1 (net_bytes len @ bs)"
        "f_bytes f1 = f_bytes f"
      by (rule FileRead_ahead) auto
    obtain f' where "sldb_FileRead 4 f1 = (Some (net_bytes len), f')" "ahead f' bs" "f_bytes f' = f_bytes f1"
      using f1(2) by (rule FileRead_ahead) (auto simp flip: length_net_bytes [of len])
    with that f1 show ?thesis by (simp add: sldb_LoadLen_def Let_def net_word_bytes)
  qed
qed

section \<open>Objects\<close>

text \<open>Payloads the format can hold: not empty, and not as long as the error value.\<close>

definition storable :: "byte list \<Rightarrow> bool" where
  "storable bs \<longleftrightarrow> bs \<noteq> [] \<and> length bs < 2 ^ 32 - 1"

lemma storable_len:
  assumes "storable bs"
  shows "unat (of_nat (length bs) :: 32 word) = length bs" "(of_nat (length bs) :: 32 word) \<noteq> LEN_ERR"
proof -
  show u: "unat (of_nat (length bs) :: 32 word) = length bs"
    using assms by (simp add: storable_def unat_of_nat_small)
  have "unat LEN_ERR = 2 ^ 32 - 1" by (simp add: LEN_ERR_def unsigned_minus_1_eq_mask mask_eq_exp_minus_1)
  with u assms show "(of_nat (length bs) :: 32 word) \<noteq> LEN_ERR" by (auto simp: storable_def)
qed

lemma SaveObj_wrote:
  assumes "storable bs" "length (obj_bytes (type, bs)) \<le> f_room f"
  obtains n f' where "sldb_SaveObj bs type f = (n, f')" "0 < n" "wrote f (obj_bytes (type, bs)) f'"
proof -
  let ?len = "of_nat (length bs) :: 32 word"
  have room: "length [type] \<le> f_room f" using assms(2) by (simp add: obj_bytes_def)
  obtain f1 where f1: "sldb_FileWrite [type] f = (1, f1)" "wrote f [type] f1"
    by (rule FileWrite_wrote [OF _ room]) auto
  have r1: "length (len_bytes ?len) \<le> f_room f1" using assms(2) f1(2) by (simp add: obj_bytes_def wrote_def)
  obtain n f2 where f2: "sldb_SaveLen ?len f1 = (n, f2)" "n = int (length (len_bytes ?len))"
      "wrote f1 (len_bytes ?len) f2"
    by (rule SaveLen_wrote [OF r1])
  have r2: "length bs \<le> f_room f2" using assms(2) f1(2) f2(3) by (simp add: obj_bytes_def wrote_def)
  have bs: "bs \<noteq> []" using assms(1) by (simp add: storable_def)
  obtain f3 where f3: "sldb_FileWrite bs f2 = (1, f3)" "wrote f2 bs f3"
    by (rule FileWrite_wrote [OF bs r2])
  have "wrote f (obj_bytes (type, bs)) f3"
    using wrote_trans [OF f1(2) wrote_trans [OF f2(3) f3(2)]] by (simp add: obj_bytes_def)
  moreover have "0 < n" using f2(2) len_bytes_le(2) by simp
  ultimately show ?thesis
    using that f1(1) f2(1) f3(1) bs
    by (simp add: sldb_SaveObj_def sldb_SaveType_def sldb_SaveRawString_def)
qed

lemma LoadObj_ahead:
  assumes "storable bs" "ahead f (obj_bytes (type, bs) @ rest)"
  obtains f1 f' where "sldb_LoadType f = (uint type, f1)" "sldb_LoadRawString f1 = (Some bs, f')"
    "ahead f' rest" "f_bytes f' = f_bytes f"
proof -
  let ?len = "of_nat (length bs) :: 32 word"
  have "ahead f ([type] @ len_bytes ?len @ bs @ rest)" using assms(2) by (simp add: obj_bytes_def)
  then obtain f1 where f1: "sldb_FileRead 1 f = (Some [type], f1)" "ahead f1 (len_bytes ?len @ bs @ rest)"
      "f_bytes f1 = f_bytes f"
    by (rule FileRead_ahead) auto
  obtain f2 where f2: "sldb_LoadLen f1 = (?len, f2)" "ahead f2 (bs @ rest)" "f_bytes f2 = f_bytes f1"
    by (rule LoadLen_ahead [OF f1(2)])
  have "bs \<noteq> []" using assms(1) by (simp add: storable_def)
  with f2(2) obtain f3 where f3: "sldb_FileRead (length bs) f2 = (Some bs, f3)" "ahead f3 rest"
      "f_bytes f3 = f_bytes f2"
    by (rule FileRead_ahead)
  show ?thesis
    by (rule that [of f1 f3]) (use f1 f2 f3 storable_len [OF assms(1)] in
      \<open>simp_all add: sldb_LoadType_def sldb_LoadRawString_def\<close>)
qed

text \<open>Saving and loading a whole sequence of objects.\<close>

fun save_all :: "(byte \<times> byte list) list \<Rightarrow> sldb \<Rightarrow> int list \<times> sldb" where
  "save_all [] f = ([], f)"
| "save_all ((type, bs) # os) f =
     (let (n, f) = sldb_SaveObj bs type f; (ns, f) = save_all os f in (n # ns, f))"

fun load_all :: "nat \<Rightarrow> sldb \<Rightarrow> (int \<times> byte list option) list" where
  "load_all 0 f = []"
| "load_all (Suc n) f =
     (let (type, f) = sldb_LoadType f in
      if type < 0 then [] else let (r, f) = sldb_LoadRawString f in (type, r) # load_all n f)"

lemma save_all_wrote:
  assumes "\<forall>ob \<in> set os. storable (snd ob)" "length (concat (map obj_bytes os)) \<le> f_room f"
  shows "\<exists>ns f'. save_all os f = (ns, f') \<and> (\<forall>n \<in> set ns. 0 < n) \<and> wrote f (concat (map obj_bytes os)) f'"
  using assms
proof (induction os arbitrary: f)
  case Nil
  then show ?case by (simp add: wrote_def)
next
  case (Cons ob os)
  obtain type bs where ob: "ob = (type, bs)" by (cases ob)
  have st: "storable bs" and room: "length (obj_bytes (type, bs)) \<le> f_room f" using Cons.prems ob by auto
  obtain n f1 where f1: "sldb_SaveObj bs type f = (n, f1)" "0 < n" "wrote f (obj_bytes (type, bs)) f1"
    by (rule SaveObj_wrote [OF st room])
  obtain ns f2 where "save_all os f1 = (ns, f2)" "\<forall>n \<in> set ns. 0 < n"
      "wrote f1 (concat (map obj_bytes os)) f2"
    using Cons.IH [of f1] Cons.prems f1(3) ob by (auto simp: wrote_def)
  with f1 ob wrote_trans [OF f1(3)] show ?case by simp
qed

lemma load_all_ahead:
  assumes "\<forall>ob \<in> set os. storable (snd ob)" "ahead f (concat (map obj_bytes os))" "length os < n"
  shows "load_all n f = map (\<lambda>(type, bs). (uint type, Some bs)) os"
  using assms
proof (induction os arbitrary: f n)
  case Nil
  then obtain m where "n = Suc m" by (cases n) auto
  with FileRead_end [of f] Nil show ?case by (simp add: sldb_LoadType_def)
next
  case (Cons ob os)
  obtain type bs where ob: "ob = (type, bs)" by (cases ob)
  obtain m where n: "n = Suc m" using Cons.prems(3) by (cases n) auto
  have st: "storable bs" using Cons.prems(1) ob by simp
  have "ahead f (obj_bytes (type, bs) @ concat (map obj_bytes os))" using Cons.prems(2) ob by simp
  then obtain f1 f2 where f: "sldb_LoadType f = (uint type, f1)" "sldb_LoadRawString f1 = (Some bs, f2)"
      "ahead f2 (concat (map obj_bytes os))"
    by (rule LoadObj_ahead [OF st])
  have "\<not> uint type < 0" by (simp add: not_less)
  with f n ob Cons.IH [of f2 m] Cons.prems show ?case by simp
qed

lemma length_len_bytes: "length (len_bytes len) = (if len < 64 then 1 else if len < 16384 then 2 else 5)"
  by (simp add: len_bytes_def net_bytes_def)

section \<open>Properties\<close>

text \<open>C21. Every 32-bit length is written in exactly one byte below 64, two bytes below 16384 and
  five bytes from there on (to a device with five bytes of room), the file grows by exactly these
  bytes, and the length is read back as it was, from any position and whatever follows it.\<close>

theorem sldb_length_roundtrip:
  assumes "5 \<le> f_room f"
  shows "\<exists>n f'. sldb_SaveLen len f = (n, f')
    \<and> n = (if len < 64 then 1 else if len < 16384 then 2 else 5)
    \<and> f_bytes f' = f_bytes f @ drop (length (f_bytes f)) (f_bytes f')
    \<and> int (length (f_bytes f')) = int (length (f_bytes f)) + n
    \<and> fst (sldb_LoadLen (f'\<lparr>f_pos := length (f_bytes f), f_bytes := f_bytes f' @ rest\<rparr>)) = len"
proof -
  have "length (len_bytes len) \<le> f_room f" using assms len_bytes_le(1) [of len] by simp
  then obtain n f' where s: "sldb_SaveLen len f = (n, f')" "n = int (length (len_bytes len))"
      "wrote f (len_bytes len) f'"
    by (rule SaveLen_wrote)
  have "ahead (f'\<lparr>f_pos := length (f_bytes f), f_bytes := f_bytes f' @ rest\<rparr>) (len_bytes len @ rest)"
    using s(3) by (simp add: ahead_def wrote_def)
  then obtain g where "sldb_LoadLen (f'\<lparr>f_pos := length (f_bytes f), f_bytes := f_bytes f' @ rest\<rparr>) = (len, g)"
    by (rule LoadLen_ahead)
  with s show ?thesis by (simp add: wrote_def length_len_bytes)
qed

theorem sldb_length_roundtrip_witness:
  "\<exists>f'. sldb_SaveLen 300 (sldb_open_w 9) = (2, f') \<and> length (f_bytes f') = 2
    \<and> fst (sldb_LoadLen (sldb_open_r (f_bytes f'))) = 300"
proof -
  obtain f' where "sldb_SaveLen 300 (sldb_open_w 9) = (2, f')" "length (f_bytes f') = 2"
      "fst (sldb_LoadLen (f'\<lparr>f_pos := 0, f_bytes := f_bytes f' @ []\<rparr>)) = 300"
    using sldb_length_roundtrip [of "sldb_open_w 9" 300 "[]"] by (auto simp: sldb_open_w_def)
  moreover have "sldb_SaveLen 300 (sldb_open_w 9) = (2, \<lparr>buffered = 2, f_bytes = [0x41, 0x2C], f_pos = 2, f_room = 7\<rparr>)"
    by code_simp
  moreover have "fst (sldb_LoadLen (sldb_open_r [0x41, 0x2C])) = 300" by code_simp
  ultimately show ?thesis by auto
qed

text \<open>C19. A sequence of objects with storable payloads, saved to a new file with room for
  it, loads back as exactly this sequence of types and payloads, and then the file ends.\<close>

theorem sldb_objects_roundtrip:
  assumes "\<forall>ob \<in> set os. storable (snd ob)" "length (concat (map obj_bytes os)) \<le> room" "length os < n"
  shows "load_all n (sldb_open_r (f_bytes (snd (save_all os (sldb_open_w room)))))
      = map (\<lambda>(type, bs). (uint type, Some bs)) os
    \<and> (\<forall>k \<in> set (fst (save_all os (sldb_open_w room))). 0 < k)"
proof -
  have "length (concat (map obj_bytes os)) \<le> f_room (sldb_open_w room)"
    using assms(2) by (simp add: sldb_open_w_def)
  then obtain ns f' where s: "save_all os (sldb_open_w room) = (ns, f')" "\<forall>n \<in> set ns. 0 < n"
      "wrote (sldb_open_w room) (concat (map obj_bytes os)) f'"
    using save_all_wrote [OF assms(1)] by blast
  then have "ahead (sldb_open_r (f_bytes f')) (concat (map obj_bytes os))"
    by (simp add: ahead_def wrote_def sldb_open_r_def sldb_open_w_def)
  from load_all_ahead [OF assms(1) this assms(3)] s show ?thesis by simp
qed

theorem sldb_objects_roundtrip_witness:
  "load_all 9 (sldb_open_r (f_bytes (snd (save_all [(0, [7, 8]), (3, [1])] (sldb_open_w 100)))))
    = [(0, Some [7, 8]), (3, Some [1])]"
  using sldb_objects_roundtrip [of "[(0, [7, 8]), (3, [1])]" 100 9]
  by (simp add: storable_def obj_bytes_def len_bytes_def)

text \<open>An object with an empty payload (a message with all fields at their default) is
  not stored but its type byte is: \<open>SaveObj\<close> answers \<open>-1\<close> and the file has one byte more,
  so the object saved next is read from the wrong place and lost.\<close>

theorem sldb_empty_payload_leaves_type_byte:
  assumes "0 < f_room f"
  shows "\<exists>f'. sldb_SaveObj [] type f = (-1, f') \<and> f_bytes f' = f_bytes f @ [type]"
proof -
  have room: "length [type] \<le> f_room f" using assms by simp
  obtain f1 where "sldb_FileWrite [type] f = (1, f1)" "wrote f [type] f1"
    by (rule FileWrite_wrote [OF _ room]) auto
  then show ?thesis
    by (simp add: sldb_SaveObj_def sldb_SaveType_def sldb_SaveRawString_def wrote_def)
qed

theorem sldb_empty_payload_leaves_type_byte_witness:
  "\<exists>f'. sldb_SaveObj [] 2 (sldb_open_w 4) = (-1, f') \<and> f_bytes f' = [2]
    \<and> load_all 9 (sldb_open_r (f_bytes (snd (sldb_SaveObj [5] 3 f')))) = [(2, None)]"
proof -
  obtain f' where "sldb_SaveObj [] 2 (sldb_open_w 4) = (-1, f')" "f_bytes f' = [2]"
    using sldb_empty_payload_leaves_type_byte [of "sldb_open_w 4" 2] by (auto simp: sldb_open_w_def)
  moreover have "load_all 9 (sldb_open_r (f_bytes (snd (sldb_SaveObj [5] 3
      (snd (sldb_SaveObj [] 2 (sldb_open_w 4))))))) = [(2, None)]"
    by code_simp
  ultimately show ?thesis by simp
qed

end
