(* ===== verification/Db.thy ===== *)
theory Db
  imports SortSet Sldb
begin

text \<open>
  The database \<open>db\<close> of \<open>bis/src/server/db.h\<close> and \<open>db.cpp\<close>: sorted sets by key, their
  queries with the error text the handlers look at, and saving to and loading from the
  database file. The set a \<open>shared_ptr\<close> designates is the entry of the dictionary it was
  found under. The protobuf classes are generated code: a message is a value of \<open>db_msg\<close>,
  its serialiser and parser are the argument \<open>pb\<close>. Logging is left out.
\<close>

section \<open>State and queries\<close>

record db =
  db_dict :: "string \<Rightarrow> sort_set option"
  strErr :: string
  is_loading :: bool

definition db_new :: db where
  "db_new = \<lparr>db_dict = Map.empty, strErr = '''', is_loading = False\<rparr>"

definition db_FindSSet :: "string \<Rightarrow> db \<Rightarrow> sort_set option" where
  "db_FindSSet key d = db_dict d key"

definition db_set_sset :: "string \<Rightarrow> sort_set \<Rightarrow> db \<Rightarrow> db" where
  "db_set_sset key t d = d\<lparr>db_dict := (db_dict d)(key \<mapsto> t)\<rparr>"

definition db_end :: sl_itr where
  "db_end = \<lparr>it_pos = None, it_end = None\<rparr>"

definition db_Insert :: "(nat \<Rightarrow> int) \<Rightarrow> string \<Rightarrow> real \<Rightarrow> string \<Rightarrow> db \<Rightarrow> (bool \<times> db) option" where
  "db_Insert rnd key score data d = do {
     let (t, d) = (case db_FindSSet key d of Some t \<Rightarrow> (t, d) | None \<Rightarrow> (ss_new, db_set_sset key ss_new d));
     (ok, t) \<leftarrow> ss_Update rnd score data t;
     Some (ok, db_set_sset key t d)
   }"

definition db_DelMem :: "string \<Rightarrow> string \<Rightarrow> db \<Rightarrow> (bool \<times> db) option" where
  "db_DelMem key data d =
     (let d = d\<lparr>strErr := ''''\<rparr> in
      case db_FindSSet key d of
        None \<Rightarrow> Some (False, d\<lparr>strErr := ''Key is not exist!''\<rparr>)
      | Some t \<Rightarrow> do {
          (ok, t) \<leftarrow> ss_DelMem data t;
          let d = db_set_sset key t d;
          Some (if ok then (True, d) else (False, d\<lparr>strErr := ''Data is not exist!''\<rparr>))
        })"

definition db_GetMemScore :: "string \<Rightarrow> string \<Rightarrow> db \<Rightarrow> real option \<times> db" where
  "db_GetMemScore key data d =
     (let d = d\<lparr>strErr := ''''\<rparr> in
      case db_FindSSet key d of
        None \<Rightarrow> (None, d\<lparr>strErr := ''Key is not exist!''\<rparr>)
      | Some t \<Rightarrow>
          (case ss_GetMemScore data t of
             None \<Rightarrow> (None, d\<lparr>strErr := ''Data is not exist!''\<rparr>)
           | Some score \<Rightarrow> (Some score, d)))"

definition db_GetMemRank :: "string \<Rightarrow> string \<Rightarrow> db \<Rightarrow> (64 word option \<times> db) option" where
  "db_GetMemRank key data d =
     (let d = d\<lparr>strErr := ''''\<rparr> in
      case db_FindSSet key d of
        None \<Rightarrow> Some (None, d\<lparr>strErr := ''Key is not exist!''\<rparr>)
      | Some t \<Rightarrow> do {
          r \<leftarrow> ss_GetMemRank data t;
          Some (case r of
                  None \<Rightarrow> (None, d\<lparr>strErr := ''Data is not exist!''\<rparr>)
                | Some rank \<Rightarrow> (Some rank, d))
        })"

definition db_GetMemsByScore :: "string \<Rightarrow> real \<Rightarrow> real \<Rightarrow> db \<Rightarrow> ((sl_itr \<times> sl_itr) \<times> db) option" where
  "db_GetMemsByScore key mn mx d =
     (let d = d\<lparr>strErr := ''''\<rparr> in
      case db_FindSSet key d of
        None \<Rightarrow> Some ((db_end, db_end), d\<lparr>strErr := ''Key is not exist!''\<rparr>)
      | Some t \<Rightarrow> do {
          pq \<leftarrow> ss_GetMemsByScore mn mx t;
          e \<leftarrow> ss_end t;
          if sl_itr_eq (fst pq) e then Some ((db_end, db_end), d\<lparr>strErr := ''Data is not exist.''\<rparr>)
          else do { pq \<leftarrow> ss_GetMemsByScore mn mx t; Some (pq, d) }
        })"

definition db_GetMemsFirstByRank :: "string \<Rightarrow> 64 word \<Rightarrow> 64 word \<Rightarrow> db \<Rightarrow> (sl_itr \<times> db) option" where
  "db_GetMemsFirstByRank key mn mx d =
     (let d = d\<lparr>strErr := ''''\<rparr> in
      case db_FindSSet key d of
        None \<Rightarrow> Some (db_end, d\<lparr>strErr := ''Key is not exist!''\<rparr>)
      | Some t \<Rightarrow> do {
          it \<leftarrow> ss_GetMemsFirstByRank mn mx t;
          e \<leftarrow> ss_end t;
          Some (if sl_itr_eq e it then (db_end, d\<lparr>strErr := ''Data is not exist''\<rparr>) else (it, d))
        })"

definition db_GetMemByRank :: "string \<Rightarrow> 64 word \<Rightarrow> db \<Rightarrow> (sl_itr \<times> db) option" where
  "db_GetMemByRank key rank d =
     (let d = d\<lparr>strErr := ''''\<rparr> in
      case db_FindSSet key d of
        None \<Rightarrow> Some (db_end, d\<lparr>strErr := ''Key is not exist!''\<rparr>)
      | Some t \<Rightarrow> do {
          it \<leftarrow> ss_GetMemByRank rank t;
          e \<leftarrow> ss_end t;
          Some (if sl_itr_eq it e then (db_end, d\<lparr>strErr := ''Data is not exist''\<rparr>) else (it, d))
        })"

section \<open>Messages of the database file\<close>

datatype db_msg =
    MsgDbVersion string string string
  | MsgDb "64 word"
  | MsgDbTable string "64 word"
  | MsgDbKey "real list" "string list"

fun node_type :: "db_msg \<Rightarrow> byte" where
  "node_type (MsgDbVersion _ _ _) = 0"
| "node_type (MsgDb _) = 1"
| "node_type (MsgDbTable _ _) = 2"
| "node_type (MsgDbKey _ _) = 3"

text \<open>The message that \<open>add_key\<close> and \<open>add_val\<close> of these pairs build.\<close>

definition key_msg :: "(real \<times> string) list \<Rightarrow> db_msg" where
  "key_msg g = MsgDbKey (map fst g) (map snd g)"

text \<open>\<open>pb_parse type\<close> is the parser of the message class of the node type.\<close>

record pb_codec =
  pb_ser :: "db_msg \<Rightarrow> byte list"
  pb_parse :: "byte \<Rightarrow> byte list \<Rightarrow> db_msg option"

definition db_save_msg :: "pb_codec \<Rightarrow> db_msg \<Rightarrow> sldb \<Rightarrow> int \<times> sldb" where
  "db_save_msg pb m f = sldb_SaveObj (pb_ser pb m) (node_type m) f"

section \<open>Saving\<close>

text \<open>
  The loop over the members of a set: \<open>kvs\<close> collects pairs and is saved and cleared after
  every fiftieth; a failed save is only logged.
\<close>

fun db_save_kvs :: "pb_codec \<Rightarrow> (real \<times> string) list \<Rightarrow> nat \<Rightarrow> (real \<times> string) list \<Rightarrow> sldb
     \<Rightarrow> (real \<times> string) list \<times> sldb" where
  "db_save_kvs pb kvs cnt [] f = (kvs, f)"
| "db_save_kvs pb kvs cnt (x # xs) f =
     (let kvs = kvs @ [x]; cnt = cnt + 1 in
      if cnt mod 50 = 0
      then db_save_kvs pb [] 0 xs (snd (db_save_msg pb (key_msg kvs) f))
      else db_save_kvs pb kvs cnt xs f)"

definition db_save_sset :: "pb_codec \<Rightarrow> string \<Rightarrow> sort_set \<Rightarrow> sldb \<Rightarrow> sldb option" where
  "db_save_sset pb key t f =
     (let (n, f) = db_save_msg pb (MsgDbTable key (ss_size t)) f in
      if n < 0 then Some f
      else do {
        xs \<leftarrow> sl_contents (ss_sl t);
        let (kvs, f) = db_save_kvs pb [] 0 xs f;
        Some (if kvs \<noteq> [] then snd (db_save_msg pb (key_msg kvs) f) else f)
      })"

text \<open>\<open>ks\<close> is the order in which the hash map is walked.\<close>

fun db_save_ssets :: "pb_codec \<Rightarrow> db \<Rightarrow> string list \<Rightarrow> sldb \<Rightarrow> sldb option" where
  "db_save_ssets pb d [] f = Some f"
| "db_save_ssets pb d (k # ks) f =
     (case db_dict d k of
        None \<Rightarrow> None
      | Some t \<Rightarrow> do { f \<leftarrow> db_save_sset pb k t f; db_save_ssets pb d ks f })"

text \<open>What the system calls answer: opening, flushing, syncing, closing, renaming.\<close>

record save_env =
  open_ok :: bool
  disk_room :: nat
  flush_ok :: bool
  fsync_ok :: bool
  close_ok :: bool
  rename_ok :: bool

text \<open>The result and the new content of the database file, if it is replaced.\<close>

definition db_SaveToFile ::
  "pb_codec \<Rightarrow> save_env \<Rightarrow> string \<Rightarrow> string list \<Rightarrow> db \<Rightarrow> (int \<times> byte list option) option" where
  "db_SaveToFile pb env now ks d =
     (if \<not> open_ok env then Some (-1, None)
      else
        let f = sldb_open_w (disk_room env);
            (n, f) = db_save_msg pb (MsgDbVersion ''BIS_V1'' ''CaiZhiLi'' now) f in
        if n < 0 then Some (-1, None)
        else
          let (n, f) = db_save_msg pb (MsgDb 1) f in
          if n < 0 then Some (-1, None)
          else do {
            f \<leftarrow> db_save_ssets pb d ks f;
            if sldb_FileFlush (flush_ok env) < 0 \<or> sldb_FileFsync (fsync_ok env) < 0 \<or> sldb_FileClose True (close_ok env) < 0
            then Some (-1, None)
            else if \<not> rename_ok env then Some (-1, None)
            else Some (0, Some (f_bytes f))
          })"

section \<open>Loading\<close>

text \<open>The state of the loading loop: the current set by its key, the number of insertions
  so far (which picks the \<open>rand\<close> results) and the database.\<close>

record load_state =
  cur_sset :: "string option"
  n_ins :: nat
  ld_db :: db

fun db_load_pairs :: "(nat \<Rightarrow> nat \<Rightarrow> int) \<Rightarrow> nat \<Rightarrow> (real \<times> string) list \<Rightarrow> sort_set \<Rightarrow> sort_set option" where
  "db_load_pairs rnds c [] t = Some t"
| "db_load_pairs rnds c ((k, v) # kvs) t = do {
     (_, t) \<leftarrow> ss_Insert (rnds c) k v t;
     db_load_pairs rnds (Suc c) kvs t
   }"

fun db_load_msg :: "(nat \<Rightarrow> nat \<Rightarrow> int) \<Rightarrow> db_msg \<Rightarrow> load_state \<Rightarrow> load_state option" where
  "db_load_msg rnds (MsgDbVersion _ _ _) s = Some s"
| "db_load_msg rnds (MsgDb _) s = Some s"
| "db_load_msg rnds (MsgDbTable key _) s =
     Some (s\<lparr>cur_sset := Some key,
             ld_db := (case db_FindSSet key (ld_db s) of
                         Some _ \<Rightarrow> ld_db s | None \<Rightarrow> db_set_sset key ss_new (ld_db s))\<rparr>)"
| "db_load_msg rnds (MsgDbKey ks vs) s =
     (case cur_sset s of
        None \<Rightarrow> Some s
      | Some key \<Rightarrow> do {
          t \<leftarrow> db_FindSSet key (ld_db s);
          t \<leftarrow> db_load_pairs rnds (n_ins s) (zip ks vs) t;
          Some (s\<lparr>n_ins := n_ins s + length (zip ks vs), ld_db := db_set_sset key t (ld_db s)\<rparr>)
        })"

partial_function (option) db_load_loop ::
  "pb_codec \<Rightarrow> (nat \<Rightarrow> nat \<Rightarrow> int) \<Rightarrow> sldb \<Rightarrow> load_state \<Rightarrow> (int \<times> db) option" where
  "db_load_loop pb rnds f s =
     (let (type, f) = sldb_LoadType f in
      if type < 0 then Some (0, ld_db s)
      else if type \<le> 3 then
        let (m, f) = sldb_LoadObj (pb_parse pb (of_int type)) f in
        (case m of
           None \<Rightarrow> db_load_loop pb rnds f s
         | Some m \<Rightarrow> do { s \<leftarrow> db_load_msg rnds m s; db_load_loop pb rnds f s })
      else Some (-1, ld_db s))"

declare db_load_loop.simps [code]

definition db_CheckDbFileAndLoad ::
  "pb_codec \<Rightarrow> (nat \<Rightarrow> nat \<Rightarrow> int) \<Rightarrow> byte list option \<Rightarrow> db \<Rightarrow> (int \<times> db) option" where
  "db_CheckDbFileAndLoad pb rnds content d =
     (case content of
        None \<Rightarrow> Some (-1, d)
      | Some bs \<Rightarrow> do {
          (r, d) \<leftarrow> db_load_loop pb rnds (sldb_open_r bs)
                     \<lparr>cur_sset = None, n_ins = 0, ld_db = d\<lparr>is_loading := True\<rparr>\<rparr>;
          Some (r, d\<lparr>is_loading := False\<rparr>)
        })"

section \<open>The objects of a saved database\<close>

definition msg_bytes :: "pb_codec \<Rightarrow> db_msg \<Rightarrow> byte list" where
  "msg_bytes pb m = obj_bytes (node_type m, pb_ser pb m)"

text \<open>The message survives the codec and the file format can hold it.\<close>

definition msg_ok :: "pb_codec \<Rightarrow> db_msg \<Rightarrow> bool" where
  "msg_ok pb m \<longleftrightarrow> storable (pb_ser pb m) \<and> pb_parse pb (node_type m) (pb_ser pb m) = Some m"

fun kv_groups :: "(real \<times> string) list \<Rightarrow> nat \<Rightarrow> (real \<times> string) list \<Rightarrow> (real \<times> string) list list" where
  "kv_groups kvs cnt [] = (if kvs = [] then [] else [kvs])"
| "kv_groups kvs cnt (x # xs) =
     (if (cnt + 1) mod 50 = 0 then (kvs @ [x]) # kv_groups [] 0 xs else kv_groups (kvs @ [x]) (cnt + 1) xs)"

lemma concat_kv_groups [simp]: "concat (kv_groups kvs cnt xs) = kvs @ xs"
  by (induction kvs cnt xs rule: kv_groups.induct) (auto simp: Let_def)

definition sset_msgs :: "string \<Rightarrow> sort_set \<Rightarrow> (real \<times> string) list \<Rightarrow> db_msg list" where
  "sset_msgs k t xs = MsgDbTable k (ss_size t) # map key_msg (kv_groups [] 0 xs)"

definition db_items :: "db \<Rightarrow> string \<Rightarrow> (real \<times> string) list" where
  "db_items d k = (case db_dict d k of None \<Rightarrow> [] | Some t \<Rightarrow> (case sl_contents (ss_sl t) of None \<Rightarrow> [] | Some xs \<Rightarrow> xs))"

definition db_msgs :: "db \<Rightarrow> string \<Rightarrow> string list \<Rightarrow> db_msg list" where
  "db_msgs d now ks = [MsgDbVersion ''BIS_V1'' ''CaiZhiLi'' now, MsgDb 1]
     @ concat (map (\<lambda>k. case db_dict d k of None \<Rightarrow> [] | Some t \<Rightarrow> sset_msgs k t (db_items d k)) ks)"

abbreviation msgs_bytes :: "pb_codec \<Rightarrow> db_msg list \<Rightarrow> byte list" where
  "msgs_bytes pb ms \<equiv> concat (map (msg_bytes pb) ms)"

section \<open>Saving writes the objects\<close>

lemma save_msg_wrote:
  assumes "msg_ok pb m" "length (msg_bytes pb m) \<le> f_room f"
  obtains n f' where "db_save_msg pb m f = (n, f')" "\<not> n < 0" "wrote f (msg_bytes pb m) f'"
proof -
  have st: "storable (pb_ser pb m)" using assms(1) by (simp add: msg_ok_def)
  have room: "length (obj_bytes (node_type m, pb_ser pb m)) \<le> f_room f"
    using assms(2) by (simp add: msg_bytes_def)
  obtain n f' where "sldb_SaveObj (pb_ser pb m) (node_type m) f = (n, f')" "0 < n"
      "wrote f (obj_bytes (node_type m, pb_ser pb m)) f'"
    by (rule SaveObj_wrote [OF st room])
  with that show ?thesis by (simp add: db_save_msg_def msg_bytes_def)
qed

lemma wrote_room: "wrote f as f' \<Longrightarrow> length (as @ bs) \<le> f_room f \<Longrightarrow> length bs \<le> f_room f'"
  by (simp add: wrote_def)

text \<open>The loop over the members together with the last, shorter group.\<close>

lemma save_kvs_wrote:
  assumes "\<forall>g \<in> set (kv_groups kvs cnt xs). msg_ok pb (key_msg g)"
    and "length (msgs_bytes pb (map key_msg (kv_groups kvs cnt xs))) \<le> f_room f"
  shows "\<exists>f'. (let (kvs, f) = db_save_kvs pb kvs cnt xs f in
      if kvs \<noteq> [] then snd (db_save_msg pb (key_msg kvs) f) else f) = f'
    \<and> wrote f (msgs_bytes pb (map key_msg (kv_groups kvs cnt xs))) f'"
  using assms
proof (induction pb kvs cnt xs f rule: db_save_kvs.induct)
  case (1 pb kvs cnt f)
  show ?case
  proof (cases "kvs = []")
    case True
    then show ?thesis by (simp add: wrote_def)
  next
    case False
    then have ok: "msg_ok pb (key_msg kvs)" and room: "length (msg_bytes pb (key_msg kvs)) \<le> f_room f"
      using 1 by simp_all
    obtain n f' where "db_save_msg pb (key_msg kvs) f = (n, f')" "wrote f (msg_bytes pb (key_msg kvs)) f'"
      by (rule save_msg_wrote [OF ok room])
    with False show ?thesis by simp
  qed
next
  case (2 pb kvs cnt x xs f)
  show ?case
  proof (cases "(cnt + 1) mod 50 = 0")
    case True
    let ?g = "kvs @ [x]"
    have ok: "msg_ok pb (key_msg ?g)" and room: "length (msg_bytes pb (key_msg ?g)) \<le> f_room f"
      using 2(3,4) True by simp_all
    obtain n f1 where f1: "db_save_msg pb (key_msg ?g) f = (n, f1)" "wrote f (msg_bytes pb (key_msg ?g)) f1"
      by (rule save_msg_wrote [OF ok room])
    have "length (msgs_bytes pb (map key_msg (kv_groups [] 0 xs))) \<le> f_room f1"
      using wrote_room [OF f1(2)] 2(4) True by simp
    then obtain f' where "(let (kvs, f) = db_save_kvs pb [] 0 xs f1 in
          if kvs \<noteq> [] then snd (db_save_msg pb (key_msg kvs) f) else f) = f'"
        "wrote f1 (msgs_bytes pb (map key_msg (kv_groups [] 0 xs))) f'"
      using 2(1) [OF refl refl True] 2(3) True f1(1) by auto
    with True f1 wrote_trans [OF f1(2)] show ?thesis by (auto simp: Let_def split_beta)
  next
    case False
    with 2(2) [OF refl refl False] 2(3,4) show ?thesis by (simp add: Let_def)
  qed
qed

lemma save_sset_wrote:
  assumes "sl_contents (ss_sl t) = Some xs" "\<forall>m \<in> set (sset_msgs k t xs). msg_ok pb m"
    and "length (msgs_bytes pb (sset_msgs k t xs)) \<le> f_room f"
  shows "\<exists>f'. db_save_sset pb k t f = Some f' \<and> wrote f (msgs_bytes pb (sset_msgs k t xs)) f'"
proof -
  let ?m = "MsgDbTable k (ss_size t)" and ?gs = "kv_groups [] 0 xs"
  have ok: "msg_ok pb ?m" and room: "length (msg_bytes pb ?m) \<le> f_room f"
    using assms(2,3) by (simp_all add: sset_msgs_def)
  obtain n f1 where f1: "db_save_msg pb ?m f = (n, f1)" "\<not> n < 0" "wrote f (msg_bytes pb ?m) f1"
    by (rule save_msg_wrote [OF ok room])
  have "length (msgs_bytes pb (map key_msg ?gs)) \<le> f_room f1"
    using wrote_room [OF f1(3)] assms(3) by (simp add: sset_msgs_def)
  moreover have "\<forall>g \<in> set ?gs. msg_ok pb (key_msg g)" using assms(2) by (simp add: sset_msgs_def)
  ultimately obtain f' where "(let (kvs, f) = db_save_kvs pb [] 0 xs f1 in
        if kvs \<noteq> [] then snd (db_save_msg pb (key_msg kvs) f) else f) = f'"
      "wrote f1 (msgs_bytes pb (map key_msg ?gs)) f'"
    using save_kvs_wrote by blast
  with f1 wrote_trans [OF f1(3)] assms(1) show ?thesis
    by (auto simp: db_save_sset_def sset_msgs_def Let_def split_beta)
qed

lemma save_ssets_wrote:
  assumes "\<forall>k \<in> set ks. \<exists>t xs. db_dict d k = Some t \<and> sl_contents (ss_sl t) = Some xs"
    and "\<forall>m \<in> set (concat (map (\<lambda>k. case db_dict d k of None \<Rightarrow> [] | Some t \<Rightarrow> sset_msgs k t (db_items d k)) ks)). msg_ok pb m"
    and "length (msgs_bytes pb (concat (map (\<lambda>k. case db_dict d k of None \<Rightarrow> [] | Some t \<Rightarrow> sset_msgs k t (db_items d k)) ks))) \<le> f_room f"
  shows "\<exists>f'. db_save_ssets pb d ks f = Some f'
    \<and> wrote f (msgs_bytes pb (concat (map (\<lambda>k. case db_dict d k of None \<Rightarrow> [] | Some t \<Rightarrow> sset_msgs k t (db_items d k)) ks))) f'"
  using assms
proof (induction ks arbitrary: f)
  case Nil
  then show ?case by (simp add: wrote_def)
next
  case (Cons k ks)
  obtain t xs where t: "db_dict d k = Some t" "sl_contents (ss_sl t) = Some xs" using Cons.prems(1) by auto
  then have items: "db_items d k = xs" by (simp add: db_items_def)
  obtain f1 where f1: "db_save_sset pb k t f = Some f1" "wrote f (msgs_bytes pb (sset_msgs k t xs)) f1"
    using save_sset_wrote [OF t(2), of k pb f] Cons.prems(2,3) t(1) items by auto
  let ?rest = "msgs_bytes pb (concat (map (\<lambda>k. case db_dict d k of None \<Rightarrow> [] | Some t \<Rightarrow> sset_msgs k t (db_items d k)) ks))"
  have "length ?rest \<le> f_room f1"
    using wrote_room [OF f1(2), of ?rest] Cons.prems(3) t(1) items by simp
  then obtain f' where "db_save_ssets pb d ks f1 = Some f'" "wrote f1 ?rest f'"
    using Cons.IH [of f1] Cons.prems(1,2) t(1) by auto
  with f1 t(1) items wrote_trans [OF f1(2)] show ?case by auto
qed

section \<open>Loading reads the objects\<close>

fun load_msgs :: "(nat \<Rightarrow> nat \<Rightarrow> int) \<Rightarrow> db_msg list \<Rightarrow> load_state \<Rightarrow> load_state option" where
  "load_msgs rnds [] s = Some s"
| "load_msgs rnds (m # ms) s = do { s \<leftarrow> db_load_msg rnds m s; load_msgs rnds ms s }"

lemma load_msgs_append: "load_msgs rnds (as @ bs) s = do { s \<leftarrow> load_msgs rnds as s; load_msgs rnds bs s }"
  by (induction as arbitrary: s) (auto split: bind_splits)

lemma node_type_le: "uint (node_type m) \<le> 3" "\<not> uint (node_type m) < 0"
  by (cases m; simp)+

lemma load_loop_msgs:
  assumes "\<forall>m \<in> set ms. msg_ok pb m" "ahead f (msgs_bytes pb ms)"
  shows "db_load_loop pb rnds f s = map_option (\<lambda>s. (0, ld_db s)) (load_msgs rnds ms s)"
  using assms
proof (induction ms arbitrary: f s)
  case Nil
  then have "sldb_LoadType f = (-1, f)" using FileRead_end [of f] by (simp add: sldb_LoadType_def)
  then show ?case by (subst db_load_loop.simps) simp
next
  case (Cons m ms)
  have st: "storable (pb_ser pb m)" and p: "pb_parse pb (node_type m) (pb_ser pb m) = Some m"
    using Cons.prems(1) by (simp_all add: msg_ok_def)
  have "ahead f (obj_bytes (node_type m, pb_ser pb m) @ msgs_bytes pb ms)"
    using Cons.prems(2) msg_bytes_def [of pb m] by simp
  then obtain f1 f2 where f: "sldb_LoadType f = (uint (node_type m), f1)"
      "sldb_LoadRawString f1 = (Some (pb_ser pb m), f2)" "ahead f2 (msgs_bytes pb ms)"
    by (rule LoadObj_ahead [OF st])
  have "sldb_LoadObj (pb_parse pb (of_int (uint (node_type m)))) f1 = (Some m, f2)"
    using f(2) p by (simp add: sldb_LoadObj_def)
  then have "db_load_loop pb rnds f s = do { s \<leftarrow> db_load_msg rnds m s; db_load_loop pb rnds f2 s }"
    using f(1) node_type_le [of m] by (subst db_load_loop.simps) simp
  also have "\<dots> = do { s \<leftarrow> db_load_msg rnds m s; map_option (\<lambda>s. (0, ld_db s)) (load_msgs rnds ms s) }"
    using Cons.IH [of f2] Cons.prems(1) f(3) by simp
  finally show ?case by (cases "db_load_msg rnds m s") auto
qed

lemma put_last: "\<forall>y \<in> set ys. fst y \<le> fst x \<Longrightarrow> put x ys = ys @ [x]"
  by (induction ys) (auto simp: put_simps)

text \<open>Inserting a sorted continuation of a sorted set appends it.\<close>

lemma load_pairs_ok:
  assumes "ss_ok t ys" "sorted (map fst (ys @ kvs))" "distinct (map snd (ys @ kvs))"
  shows "\<exists>t'. db_load_pairs rnds c kvs t = Some t' \<and> ss_ok t' (ys @ kvs)"
  using assms
proof (induction kvs arbitrary: t ys c)
  case (Cons x kvs)
  obtain k v where x: "x = (k, v)" by (cases x)
  have none: "ss_dict t v = None"
  proof (cases "ss_dict t v")
    case (Some j)
    then have "(j, v) \<in> set ys" using ss_okD(4) [OF Cons.prems(1)] by simp
    then have "v \<in> snd ` set ys" by force
    with Cons.prems(3) x show ?thesis by simp
  qed
  have "\<forall>y \<in> set ys. fst y \<le> k"
    using Cons.prems(2) x by (auto simp: sorted_append)
  then have put: "put (k, v) ys = ys @ [x]" using put_last [of ys "(k, v)"] x by simp
  obtain t1 where t1: "ss_Insert (rnds c) k v t = Some (True, t1)" "ss_ok t1 (ys @ [x])"
    using ss_Insert_ok [OF Cons.prems(1) none, of "rnds c" k] put by metis
  with Cons.IH [of t1 "ys @ [x]" "Suc c"] Cons.prems(2,3) x show ?case by simp
qed simp

lemma load_groups_ok:
  assumes "ss_ok t ys" "sorted (map fst (ys @ concat gs))" "distinct (map snd (ys @ concat gs))"
    and "cur_sset s = Some k" "db_dict (ld_db s) k = Some t"
  shows "\<exists>s' t'. load_msgs rnds (map key_msg gs) s = Some s' \<and> cur_sset s' = Some k
    \<and> db_dict (ld_db s') = (db_dict (ld_db s))(k \<mapsto> t') \<and> ss_ok t' (ys @ concat gs)"
  using assms
proof (induction gs arbitrary: t ys s)
  case Nil
  then show ?case by (intro exI [of _ s] exI [of _ t]) (simp add: fun_upd_idem)
next
  case (Cons g gs)
  have z: "zip (map fst g) (map snd g) = g" by (simp add: zip_map_fst_snd)
  obtain t1 where t1: "db_load_pairs rnds (n_ins s) g t = Some t1" "ss_ok t1 (ys @ g)"
  proof -
    have "sorted (map fst (ys @ g))" "distinct (map snd (ys @ g))"
      using Cons.prems(2,3) by (auto simp: sorted_append)
    then show ?thesis using load_pairs_ok [OF Cons.prems(1), of g rnds "n_ins s"] that by blast
  qed
  define s1 where "s1 = s\<lparr>n_ins := n_ins s + length g, ld_db := db_set_sset k t1 (ld_db s)\<rparr>"
  have "db_load_msg rnds (key_msg g) s = Some s1"
    using t1(1) Cons.prems(4,5) z by (simp add: key_msg_def s1_def db_FindSSet_def)
  moreover obtain s' t' where "load_msgs rnds (map key_msg gs) s1 = Some s'" "cur_sset s' = Some k"
      "db_dict (ld_db s') = (db_dict (ld_db s1))(k \<mapsto> t')" "ss_ok t' ((ys @ g) @ concat gs)"
  proof -
    have "sorted (map fst ((ys @ g) @ concat gs))" "distinct (map snd ((ys @ g) @ concat gs))"
      using Cons.prems(2,3) by simp_all
    moreover have "cur_sset s1 = Some k" "db_dict (ld_db s1) k = Some t1"
      using Cons.prems(4) by (simp_all add: s1_def db_set_sset_def)
    ultimately show ?thesis using Cons.IH [OF t1(2), of s1] that by blast
  qed
  ultimately show ?case
    by (intro exI [of _ s'] exI [of _ t']) (simp add: s1_def db_set_sset_def)
qed

lemma load_sset_ok:
  assumes "ss_ok t xs" "db_dict (ld_db s) k = None"
  shows "\<exists>s' t'. load_msgs rnds (sset_msgs k t xs) s = Some s'
    \<and> db_dict (ld_db s') = (db_dict (ld_db s))(k \<mapsto> t') \<and> ss_ok t' xs"
proof -
  define s1 where "s1 = s\<lparr>cur_sset := Some k, ld_db := db_set_sset k ss_new (ld_db s)\<rparr>"
  have "db_load_msg rnds (MsgDbTable k (ss_size t)) s = Some s1"
    using assms(2) by (simp add: s1_def db_FindSSet_def)
  moreover have "\<exists>s' t'. load_msgs rnds (map key_msg (kv_groups [] 0 xs)) s1 = Some s' \<and> cur_sset s' = Some k
      \<and> db_dict (ld_db s') = (db_dict (ld_db s1))(k \<mapsto> t') \<and> ss_ok t' ([] @ concat (kv_groups [] 0 xs))"
    by (rule load_groups_ok [OF ss_new_ok]) (use ss_okD [OF assms(1)] in \<open>auto simp: s1_def db_set_sset_def\<close>)
  ultimately show ?thesis by (auto simp: sset_msgs_def s1_def db_set_sset_def)
qed

text \<open>Two sets with the same pairs in the same order, whatever their node heights.\<close>

definition sset_same :: "sort_set \<Rightarrow> sort_set \<Rightarrow> bool" where
  "sset_same t t' \<longleftrightarrow> (\<exists>xs. ss_ok t xs \<and> ss_ok t' xs)"

lemma load_ssets_ok:
  assumes "distinct ks" "\<forall>k \<in> set ks. \<exists>t. db_dict d k = Some t \<and> ss_ok t (db_items d k)"
    and "\<forall>k \<in> set ks. db_dict (ld_db s) k = None"
  shows "\<exists>s'. load_msgs rnds (concat (map (\<lambda>k. case db_dict d k of None \<Rightarrow> [] | Some t \<Rightarrow> sset_msgs k t (db_items d k)) ks)) s = Some s'
    \<and> (\<forall>k. k \<notin> set ks \<longrightarrow> db_dict (ld_db s') k = db_dict (ld_db s) k)
    \<and> (\<forall>k \<in> set ks. \<exists>t t'. db_dict d k = Some t \<and> db_dict (ld_db s') k = Some t' \<and> sset_same t t')"
  using assms
proof (induction ks arbitrary: s)
  case (Cons k ks)
  obtain t where t: "db_dict d k = Some t" "ss_ok t (db_items d k)" using Cons.prems(2) by auto
  obtain s1 t' where s1: "load_msgs rnds (sset_msgs k t (db_items d k)) s = Some s1"
      "db_dict (ld_db s1) = (db_dict (ld_db s))(k \<mapsto> t')" "ss_ok t' (db_items d k)"
    using load_sset_ok [OF t(2), of s k rnds] Cons.prems(3) by auto
  have free: "\<forall>k \<in> set ks. db_dict (ld_db s1) k = None" using Cons.prems(1,3) s1(2) by auto
  obtain s' where s': "load_msgs rnds (concat (map (\<lambda>k. case db_dict d k of None \<Rightarrow> [] | Some t \<Rightarrow> sset_msgs k t (db_items d k)) ks)) s1 = Some s'"
      "\<forall>k. k \<notin> set ks \<longrightarrow> db_dict (ld_db s') k = db_dict (ld_db s1) k"
      "\<forall>k \<in> set ks. \<exists>t t'. db_dict d k = Some t \<and> db_dict (ld_db s') k = Some t' \<and> sset_same t t'"
    using Cons.IH [OF _ _ free] Cons.prems(1,2) by (simp del: split_paired_Ex) blast
  have "sset_same t t'" using t(2) s1(3) by (auto simp: sset_same_def)
  with t s1 s' Cons.prems(1) show ?case by (auto simp: load_msgs_append)
qed auto

section \<open>Refinement of a map of maps\<close>

type_synonym score_maps = "string \<Rightarrow> string \<Rightarrow> real option"

text \<open>Every set of the database is well-formed and holds the scores of \<open>m\<close>.\<close>

definition db_holds :: "db \<Rightarrow> score_maps \<Rightarrow> bool" where
  "db_holds d m \<longleftrightarrow> (\<forall>k. case db_dict d k of
       None \<Rightarrow> m k = Map.empty
     | Some t \<Rightarrow> m k = ss_dict t \<and> (\<exists>xs. ss_ok t xs))"

datatype db_op = DbInsert "nat \<Rightarrow> int" string real string | DbDelMem string string

fun db_step :: "db \<Rightarrow> db_op \<Rightarrow> (bool \<times> db) option" where
  "db_step d (DbInsert rnd key score mem) = db_Insert rnd key score mem d"
| "db_step d (DbDelMem key mem) = db_DelMem key mem d"

fun db_run :: "db \<Rightarrow> db_op list \<Rightarrow> (bool list \<times> db) option" where
  "db_run d [] = Some ([], d)"
| "db_run d (p # ps) = do { (a, d) \<leftarrow> db_step d p; (as, d) \<leftarrow> db_run d ps; Some (a # as, d) }"

fun maps_step :: "score_maps \<Rightarrow> db_op \<Rightarrow> bool \<times> score_maps" where
  "maps_step m (DbInsert rnd key score mem) = (True, m(key := (m key)(mem \<mapsto> score)))"
| "maps_step m (DbDelMem key mem) = (m key mem \<noteq> None, m(key := (m key)(mem := None)))"

fun maps_run :: "score_maps \<Rightarrow> db_op list \<Rightarrow> bool list \<times> score_maps" where
  "maps_run m [] = ([], m)"
| "maps_run m (p # ps) = (let (a, m) = maps_step m p; (as, m) = maps_run m ps in (a # as, m))"

text \<open>At no moment two members of a key have the same score.\<close>

fun maps_distinct :: "score_maps \<Rightarrow> db_op list \<Rightarrow> bool" where
  "maps_distinct m [] \<longleftrightarrow> (\<forall>k. scores_distinct (m k))"
| "maps_distinct m (p # ps) \<longleftrightarrow> (\<forall>k. scores_distinct (m k)) \<and> maps_distinct (snd (maps_step m p)) ps"

lemma maps_distinctD: "maps_distinct m ps \<Longrightarrow> scores_distinct (m k)"
  by (cases ps) auto

lemma db_holds_upd:
  assumes "db_holds d m" "ss_ok t xs"
  shows "db_holds (db_set_sset k t d) (m(k := ss_dict t))"
  unfolding db_holds_def
proof
  fix j
  show "case db_dict (db_set_sset k t d) j of None \<Rightarrow> (m(k := ss_dict t)) j = Map.empty
     | Some u \<Rightarrow> (m(k := ss_dict t)) j = ss_dict u \<and> (\<exists>xs. ss_ok u xs)"
    using assms(1) [unfolded db_holds_def, rule_format, of j] assms(2)
    by (cases "j = k"; cases "db_dict d j") (auto simp: db_set_sset_def)
qed

lemma db_holds_err [simp]: "db_holds (d\<lparr>strErr := e\<rparr>) m \<longleftrightarrow> db_holds d m"
  by (simp add: db_holds_def)

lemma db_holds_Some: "db_holds d m \<Longrightarrow> db_dict d k = Some t \<Longrightarrow> m k = ss_dict t \<and> (\<exists>xs. ss_ok t xs)"
  unfolding db_holds_def by (drule spec [of _ k]) simp

lemma db_holds_None: "db_holds d m \<Longrightarrow> db_dict d k = None \<Longrightarrow> m k = Map.empty"
  unfolding db_holds_def by (drule spec [of _ k]) simp

lemma db_Insert_holds:
  assumes h: "db_holds d m" and inj: "scores_distinct (m key)"
  shows "\<exists>d'. db_Insert rnd key score mem d = Some (True, d') \<and> db_holds d' (m(key := (m key)(mem \<mapsto> score)))"
proof -
  define td where "td = (case db_FindSSet key d of Some t \<Rightarrow> (t, d) | None \<Rightarrow> (ss_new, db_set_sset key ss_new d))"
  have td: "ss_dict (fst td) = m key \<and> (\<exists>xs. ss_ok (fst td) xs) \<and> db_holds (snd td) m"
  proof (cases "db_dict d key")
    case None
    have "m(key := ss_dict ss_new) = m" using db_holds_None [OF h None] by (auto simp: ss_new_def)
    with None db_holds_upd [OF h ss_new_ok, of key] db_holds_None [OF h None] show ?thesis
      using ss_new_ok by (auto simp: td_def db_FindSSet_def ss_new_def)
  next
    case (Some t)
    with db_holds_Some [OF h Some] h show ?thesis by (auto simp: td_def db_FindSSet_def)
  qed
  then obtain xs where ok: "ss_ok (fst td) xs" by blast
  have inj': "scores_distinct (ss_dict (fst td))" using inj td by simp
  obtain t' ys where t': "ss_Update rnd score mem (fst td) = Some (True, t')" "ss_ok t' ys"
      "ss_dict t' = (m key)(mem \<mapsto> score)"
    using ss_Update_ok [OF ok inj', of rnd score mem] td by auto
  have "db_Insert rnd key score mem d = Some (True, db_set_sset key t' (snd td))"
    using t'(1) by (simp add: db_Insert_def td_def [symmetric] split_beta)
  moreover have "db_holds (db_set_sset key t' (snd td)) (m(key := (m key)(mem \<mapsto> score)))"
    using db_holds_upd [OF _ t'(2), of "snd td" m key] td t'(3) by simp
  ultimately show ?thesis by blast
qed

lemma db_DelMem_holds:
  assumes h: "db_holds d m" and inj: "scores_distinct (m key)"
  shows "\<exists>d'. db_DelMem key mem d = Some (m key mem \<noteq> None, d') \<and> db_holds d' (m(key := (m key)(mem := None)))"
proof (cases "db_dict d key")
  case None
  then have "m(key := (m key)(mem := None)) = m" using db_holds_None [OF h None] by auto
  with None h db_holds_None [OF h None] show ?thesis by (simp add: db_DelMem_def db_FindSSet_def)
next
  case (Some t)
  then obtain xs where t: "m key = ss_dict t" "ss_ok t xs" using db_holds_Some [OF h] by blast
  obtain t' ys where "ss_DelMem mem t = Some (m key mem \<noteq> None, t')" "ss_ok t' ys"
      "ss_dict t' = (m key)(mem := None)"
    using ss_step_refines [OF t(2), of "SetDelMem mem"] inj t(1) by (auto simp: fun_upd_idem split: if_splits)
  moreover from this have "db_holds (db_set_sset key t' (d\<lparr>strErr := ''''\<rparr>)) (m(key := (m key)(mem := None)))"
    using db_holds_upd [of "d\<lparr>strErr := ''''\<rparr>" m t' ys key] h by simp
  ultimately show ?thesis
    using Some by (auto simp: db_DelMem_def db_FindSSet_def Let_def)
qed

lemma db_run_holds:
  assumes "db_holds d m" "maps_distinct m ps"
  shows "\<exists>d'. db_run d ps = Some (fst (maps_run m ps), d') \<and> db_holds d' (snd (maps_run m ps))"
  using assms
proof (induction ps arbitrary: d m)
  case (Cons p ps)
  have "\<exists>d'. db_step d p = Some (fst (maps_step m p), d') \<and> db_holds d' (snd (maps_step m p))"
    using db_Insert_holds [OF Cons.prems(1)] db_DelMem_holds [OF Cons.prems(1)] maps_distinctD [OF Cons.prems(2)]
    by (cases p) auto
  then obtain d1 where d1: "db_step d p = Some (fst (maps_step m p), d1)" "db_holds d1 (snd (maps_step m p))" by blast
  with Cons.IH [OF d1(2)] Cons.prems(2) show ?case by (auto simp: split_beta)
qed simp

lemma db_GetMemScore_holds:
  assumes h: "db_holds d m"
  shows "fst (db_GetMemScore key mem d) = m key mem"
    "strErr (snd (db_GetMemScore key mem d)) =
      (if m key mem \<noteq> None then ''''
       else if db_dict d key = None then ''Key is not exist!'' else ''Data is not exist!'')"
  using db_holds_None [OF h, of key] db_holds_Some [OF h, of key]
  by (auto simp: db_GetMemScore_def db_FindSSet_def ss_GetMemScore_def Let_def split: option.splits)

text \<open>The keys that were ever inserted under: \<open>DelMem\<close> never removes a set.\<close>

fun inserted_keys :: "db_op list \<Rightarrow> string set" where
  "inserted_keys [] = {}"
| "inserted_keys (DbInsert rnd key score mem # ps) = insert key (inserted_keys ps)"
| "inserted_keys (DbDelMem key mem # ps) = inserted_keys ps"

lemma db_Insert_dom: "db_Insert rnd key score mem d = Some (a, d') \<Longrightarrow> dom (db_dict d') = insert key (dom (db_dict d))"
  by (auto simp: db_Insert_def db_FindSSet_def Let_def db_set_sset_def split: option.splits bind_splits if_splits)

lemma db_DelMem_dom: "db_DelMem key mem d = Some (a, d') \<Longrightarrow> dom (db_dict d') = dom (db_dict d)"
  by (auto simp: db_DelMem_def db_FindSSet_def Let_def db_set_sset_def split: option.splits bind_splits if_splits)

lemma db_run_dom: "db_run d ps = Some (as, d') \<Longrightarrow> dom (db_dict d') = inserted_keys ps \<union> dom (db_dict d)"
proof (induction ps arbitrary: d as rule: inserted_keys.induct)
  case (2 rnd key score mem ps)
  then obtain a d1 as1 where "db_Insert rnd key score mem d = Some (a, d1)" "db_run d1 ps = Some (as1, d')"
    by (auto split: bind_splits)
  with 2 db_Insert_dom show ?case by simp
next
  case (3 key mem ps)
  then obtain a d1 as1 where "db_DelMem key mem d = Some (a, d1)" "db_run d1 ps = Some (as1, d')"
    by (auto split: bind_splits)
  with 3 db_DelMem_dom show ?case by simp
qed simp

section \<open>Properties\<close>

text \<open>C16. As long as no two members of a key ever have the same score at the same time, every
  sequence of \<open>Insert\<close> and \<open>DelMem\<close> on an empty database succeeds and answers what a map from key
  and member to score answers; afterwards \<open>GetMemScore\<close> reads that map, and when it finds
  nothing its error text is \<open>Key is not exist!\<close> if nothing was ever inserted under the key and
  \<open>Data is not exist!\<close> otherwise, also when all members of the key were deleted again. (With
  equal scores the sorted set itself can lose track of a member, so that the restriction stays.)\<close>

theorem db_refines_maps:
  assumes "maps_distinct (\<lambda>_. Map.empty) ps"
  shows "\<exists>d. db_run db_new ps = Some (fst (maps_run (\<lambda>_. Map.empty) ps), d)
    \<and> (\<forall>key mem. fst (db_GetMemScore key mem d) = snd (maps_run (\<lambda>_. Map.empty) ps) key mem
       \<and> strErr (snd (db_GetMemScore key mem d)) =
          (if snd (maps_run (\<lambda>_. Map.empty) ps) key mem \<noteq> None then ''''
           else if key \<notin> inserted_keys ps then ''Key is not exist!'' else ''Data is not exist!''))"
proof -
  have "db_holds db_new (\<lambda>_. Map.empty)" by (simp add: db_holds_def db_new_def)
  then obtain d where d: "db_run db_new ps = Some (fst (maps_run (\<lambda>_. Map.empty) ps), d)"
      "db_holds d (snd (maps_run (\<lambda>_. Map.empty) ps))"
    using db_run_holds [OF _ assms] by blast
  have "db_dict d key = None \<longleftrightarrow> key \<notin> inserted_keys ps" for key
    using db_run_dom [OF d(1)] domIff [of key "db_dict d"] by (simp add: db_new_def)
  with d db_GetMemScore_holds [OF d(2)] show ?thesis by (intro exI [of _ d]) simp
qed

theorem db_refines_maps_witness:
  "\<exists>d. db_run db_new [DbInsert rand_flat ''k'' 2 ''a'', DbInsert rand_flat ''k'' 1 ''b'',
        DbDelMem ''k'' ''a'', DbDelMem ''k'' ''c'', DbDelMem ''j'' ''a''] = Some ([True, True, True, False, False], d)
    \<and> fst (db_GetMemScore ''k'' ''b'' d) = Some 1
    \<and> fst (db_GetMemScore ''k'' ''a'' d) = None \<and> strErr (snd (db_GetMemScore ''k'' ''a'' d)) = ''Data is not exist!''
    \<and> fst (db_GetMemScore ''j'' ''a'' d) = None \<and> strErr (snd (db_GetMemScore ''j'' ''a'' d)) = ''Key is not exist!''"
proof -
  let ?ps = "[DbInsert rand_flat ''k'' 2 ''a'', DbInsert rand_flat ''k'' 1 ''b'',
        DbDelMem ''k'' ''a'', DbDelMem ''k'' ''c'', DbDelMem ''j'' ''a'']"
  have "maps_distinct (\<lambda>_. Map.empty) ?ps" by (simp add: scores_distinct_def)
  note ref = db_refines_maps [OF this]
  have run: "fst (maps_run (\<lambda>_. Map.empty) ?ps) = [True, True, True, False, False]"
    "snd (maps_run (\<lambda>_. Map.empty) ?ps) ''k'' ''b'' = Some 1" "snd (maps_run (\<lambda>_. Map.empty) ?ps) ''k'' ''a'' = None"
    "snd (maps_run (\<lambda>_. Map.empty) ?ps) ''j'' ''a'' = None" "''k'' \<in> inserted_keys ?ps" "''j'' \<notin> inserted_keys ?ps"
    by simp_all
  from ref obtain d where d: "db_run db_new ?ps = Some (fst (maps_run (\<lambda>_. Map.empty) ?ps), d)"
      "\<And>key mem. fst (db_GetMemScore key mem d) = snd (maps_run (\<lambda>_. Map.empty) ?ps) key mem"
      "\<And>key mem. strErr (snd (db_GetMemScore key mem d)) =
          (if snd (maps_run (\<lambda>_. Map.empty) ?ps) key mem \<noteq> None then ''''
           else if key \<notin> inserted_keys ?ps then ''Key is not exist!'' else ''Data is not exist!'')"
    by blast
  show ?thesis by (rule exI [of _ d]) (simp only: d run simp_thms if_True if_False not_True_eq_False)
qed

lemma save_then_load:
  assumes "distinct ks" "set ks = dom (db_dict d)"
    and "\<forall>k t. db_dict d k = Some t \<longrightarrow> (\<exists>xs. xs \<noteq> [] \<and> ss_ok t xs)"
    and "\<forall>m \<in> set (db_msgs d now ks). msg_ok pb m"
    and "length (msgs_bytes pb (db_msgs d now ks)) \<le> disk_room env"
    and "open_ok env" "flush_ok env" "fsync_ok env" "close_ok env" "rename_ok env"
  shows "\<exists>bs d'. db_SaveToFile pb env now ks d = Some (0, Some bs)
    \<and> db_CheckDbFileAndLoad pb rnds (Some bs) db_new = Some (0, d')
    \<and> dom (db_dict d') = dom (db_dict d)
    \<and> (\<forall>k t. db_dict d k = Some t \<longrightarrow> (\<exists>t'. db_dict d' k = Some t' \<and> sset_same t t'))"
proof -
  let ?f = "sldb_open_w (disk_room env)" and ?v = "MsgDbVersion ''BIS_V1'' ''CaiZhiLi'' now"
  let ?ms = "concat (map (\<lambda>k. case db_dict d k of None \<Rightarrow> [] | Some t \<Rightarrow> sset_msgs k t (db_items d k)) ks)"
  have ms: "db_msgs d now ks = [?v, MsgDb 1] @ ?ms" by (simp add: db_msgs_def)
  have items: "\<exists>t. db_dict d k = Some t \<and> ss_ok t (db_items d k) \<and> sl_contents (ss_sl t) = Some (db_items d k)"
    if "k \<in> set ks" for k
  proof -
    have "k \<in> dom (db_dict d)" using that assms(2) by simp
    then obtain t where t: "db_dict d k = Some t" by blast
    with assms(3) obtain xs where xs: "xs \<noteq> []" "ss_ok t xs" by blast
    then have "sl_contents (ss_sl t) = Some xs" by (intro contents_holds) (auto simp: ss_ok_def)
    with t xs(2) show ?thesis by (simp add: db_items_def)
  qed
  have total: "length (msg_bytes pb ?v @ msg_bytes pb (MsgDb 1) @ msgs_bytes pb ?ms) \<le> f_room ?f"
    using assms(5) ms by (simp add: sldb_open_w_def)
  have ok: "msg_ok pb ?v" "msg_ok pb (MsgDb 1)" "\<forall>m \<in> set ?ms. msg_ok pb m" using assms(4) ms by simp_all
  have "length (msg_bytes pb ?v) \<le> f_room ?f" using total by simp
  then obtain n1 f1 where f1: "db_save_msg pb ?v ?f = (n1, f1)" "\<not> n1 < 0" "wrote ?f (msg_bytes pb ?v) f1"
    by (rule save_msg_wrote [OF ok(1)])
  note room1 = wrote_room [OF f1(3) total]
  then have "length (msg_bytes pb (MsgDb 1)) \<le> f_room f1" by simp
  then obtain n2 f2 where f2: "db_save_msg pb (MsgDb 1) f1 = (n2, f2)" "\<not> n2 < 0" "wrote f1 (msg_bytes pb (MsgDb 1)) f2"
    by (rule save_msg_wrote [OF ok(2)])
  obtain f3 where f3: "db_save_ssets pb d ks f2 = Some f3" "wrote f2 (msgs_bytes pb ?ms) f3"
    using save_ssets_wrote [OF _ ok(3) wrote_room [OF f2(3) room1]] items by blast
  have save: "db_SaveToFile pb env now ks d = Some (0, Some (f_bytes f3))"
    using f1(1,2) f2(1,2) f3(1) assms(6-10) by (simp add: db_SaveToFile_def)
  have "f_bytes f3 = msgs_bytes pb (db_msgs d now ks)"
    using f1(3) f2(3) f3(2) ms by (simp add: wrote_def sldb_open_w_def)
  then have "ahead (sldb_open_r (f_bytes f3)) (msgs_bytes pb (db_msgs d now ks))"
    by (simp add: ahead_def sldb_open_r_def)
  note load = load_loop_msgs [OF assms(4) this]
  let ?s = "\<lparr>cur_sset = None, n_ins = 0, ld_db = db_new\<lparr>is_loading := True\<rparr>\<rparr>"
  obtain s' where s': "load_msgs rnds ?ms ?s = Some s'"
      "\<forall>k. k \<notin> set ks \<longrightarrow> db_dict (ld_db s') k = db_dict (ld_db ?s) k"
      "\<forall>k \<in> set ks. \<exists>t t'. db_dict d k = Some t \<and> db_dict (ld_db s') k = Some t' \<and> sset_same t t'"
  proof -
    have "\<forall>k \<in> set ks. \<exists>t. db_dict d k = Some t \<and> ss_ok t (db_items d k)" using items by blast
    moreover have "\<forall>k \<in> set ks. db_dict (ld_db ?s) k = None" by (simp add: db_new_def)
    ultimately show ?thesis using load_ssets_ok [OF assms(1), of d ?s rnds] that by blast
  qed
  have "load_msgs rnds (db_msgs d now ks) ?s = Some s'" using s'(1) ms by simp
  then have "db_CheckDbFileAndLoad pb rnds (Some (f_bytes f3)) db_new = Some (0, (ld_db s')\<lparr>is_loading := False\<rparr>)"
    using load by (simp add: db_CheckDbFileAndLoad_def)
  moreover have "dom (db_dict (ld_db s')) = dom (db_dict d)"
    using s'(2,3) assms(2) by (auto simp: db_new_def)
  moreover have "\<exists>t'. db_dict (ld_db s') k = Some t' \<and> sset_same t t'" if "db_dict d k = Some t" for k t
    using s'(3) that assms(2) by (metis domI option.inject)
  ultimately show ?thesis using save by auto
qed

text \<open>C14. Saving and loading: a database whose sets are well-formed and not empty, whose
  messages survive the codec and fit into the file, is written completely when the system
  calls succeed, and loading that file into an empty database gives a database with the
  same keys in which every set has the same members with the same scores in the same
  order, whatever \<open>rand\<close> answers and in whatever order the hash map is walked.\<close>

theorem db_save_load_roundtrip:
  assumes "distinct ks" "set ks = dom (db_dict d)"
    and "\<forall>k t. db_dict d k = Some t \<longrightarrow> (\<exists>xs. xs \<noteq> [] \<and> ss_ok t xs)"
    and "\<forall>m \<in> set (db_msgs d now ks). msg_ok pb m"
    and "length (msgs_bytes pb (db_msgs d now ks)) \<le> disk_room env"
    and "open_ok env" "flush_ok env" "fsync_ok env" "close_ok env" "rename_ok env"
  shows "\<exists>bs d'. db_SaveToFile pb env now ks d = Some (0, Some bs)
    \<and> db_CheckDbFileAndLoad pb rnds (Some bs) db_new = Some (0, d')
    \<and> dom (db_dict d') = dom (db_dict d)
    \<and> (\<forall>k t. db_dict d k = Some t \<longrightarrow> (\<exists>t'. db_dict d' k = Some t' \<and> sset_same t t'))"
  using assms by (rule save_then_load)

text \<open>A database with one key and one member, and a codec for its four messages.\<close>

definition sample_db :: db where
  "sample_db = (case db_Insert rand_flat ''k'' 3 ''a'' db_new of Some (_, d) \<Rightarrow> d | None \<Rightarrow> db_new)"

definition sample_codec :: pb_codec where
  "sample_codec = \<lparr>pb_ser = (\<lambda>m. [node_type m, 7]),
     pb_parse = (\<lambda>type bs. if bs \<noteq> [type, 7] then None
       else if type = 0 then Some (MsgDbVersion ''BIS_V1'' ''CaiZhiLi'' ''now'')
       else if type = 1 then Some (MsgDb 1)
       else if type = 2 then Some (MsgDbTable ''k'' 1)
       else Some (MsgDbKey [3] [''a'']))\<rparr>"

abbreviation sample_env :: save_env where
  "sample_env \<equiv> \<lparr>open_ok = True, disk_room = 99, flush_ok = True, fsync_ok = True, close_ok = True, rename_ok = True\<rparr>"

lemma sample_db_saves:
  "distinct [''k'']" "set [''k''] = dom (db_dict sample_db)" "dom (db_dict sample_db) = {''k''}"
  "\<forall>k t. db_dict sample_db k = Some t \<longrightarrow> (\<exists>xs. xs \<noteq> [] \<and> ss_ok t xs)"
  "\<forall>m \<in> set (db_msgs sample_db ''now'' [''k'']). msg_ok sample_codec m"
  "length (msgs_bytes sample_codec (db_msgs sample_db ''now'' [''k''])) \<le> disk_room sample_env"
proof -
  have h: "db_holds sample_db ((\<lambda>_. Map.empty)(''k'' := [''a'' \<mapsto> 3]))"
    using db_Insert_holds [of db_new "\<lambda>_. Map.empty" "''k''" rand_flat 3 "''a''"]
    by (auto simp: sample_db_def db_holds_def db_new_def scores_distinct_def)
  have "scores_distinct (ss_dict ss_new)" by (simp add: scores_distinct_def ss_new_def)
  then obtain t where "ss_Update rand_flat 3 ''a'' ss_new = Some (True, t)"
    using ss_Update_ok [OF ss_new_ok, of rand_flat 3 "''a''"] by blast
  then have dom: "dom (db_dict sample_db) = {''k''}"
    by (simp add: sample_db_def db_Insert_def db_new_def db_FindSSet_def db_set_sset_def)
  have sets: "\<forall>k t. db_dict sample_db k = Some t \<longrightarrow> (\<exists>xs. xs \<noteq> [] \<and> ss_ok t xs)"
  proof (intro allI impI)
    fix k t assume t: "db_dict sample_db k = Some t"
    with dom have "k = ''k''" by auto
    with db_holds_Some [OF h t] obtain xs where xs: "ss_dict t ''a'' = Some 3" "ss_ok t xs"
      by (metis fun_upd_same)
    then have "(3, ''a'') \<in> set xs" using ss_okD(4) [OF xs(2), of "''a''" 3] by simp
    then have "xs \<noteq> []" by auto
    with xs(2) show "\<exists>xs. xs \<noteq> [] \<and> ss_ok t xs" by blast
  qed
  have "db_items sample_db ''k'' = [(3, ''a'')]" by code_simp
  moreover have "map_option ss_size (db_dict sample_db ''k'') = Some 1" by code_simp
  ultimately have msgs: "db_msgs sample_db ''now'' [''k''] =
      [MsgDbVersion ''BIS_V1'' ''CaiZhiLi'' ''now'', MsgDb 1, MsgDbTable ''k'' 1, MsgDbKey [3] [''a'']]"
    by (auto simp: db_msgs_def sset_msgs_def key_msg_def)
  show "\<forall>m \<in> set (db_msgs sample_db ''now'' [''k'']). msg_ok sample_codec m"
    unfolding msgs by (simp add: msg_ok_def sample_codec_def storable_def)
  show "length (msgs_bytes sample_codec (db_msgs sample_db ''now'' [''k''])) \<le> disk_room sample_env"
    unfolding msgs by (simp add: msg_bytes_def sample_codec_def obj_bytes_def len_bytes_def)
  show "distinct [''k'']" "set [''k''] = dom (db_dict sample_db)" "dom (db_dict sample_db) = {''k''}"
    "\<forall>k t. db_dict sample_db k = Some t \<longrightarrow> (\<exists>xs. xs \<noteq> [] \<and> ss_ok t xs)"
    using dom sets by simp_all
qed

theorem db_save_load_roundtrip_witness:
  "\<exists>bs d'. db_SaveToFile sample_codec \<lparr>open_ok = True, disk_room = 99, flush_ok = True, fsync_ok = True,
        close_ok = True, rename_ok = True\<rparr> ''now'' [''k''] sample_db = Some (0, Some bs)
    \<and> db_CheckDbFileAndLoad sample_codec (\<lambda>_. rand_flat) (Some bs) db_new = Some (0, d')
    \<and> dom (db_dict d') = {''k''}"
proof -
  obtain bs d' where "db_SaveToFile sample_codec sample_env ''now'' [''k''] sample_db = Some (0, Some bs)"
      "db_CheckDbFileAndLoad sample_codec (\<lambda>_. rand_flat) (Some bs) db_new = Some (0, d')"
      "dom (db_dict d') = dom (db_dict sample_db)"
    using db_save_load_roundtrip [OF sample_db_saves(1,2,4,5,6), of "\<lambda>_. rand_flat"] by auto
  then show ?thesis unfolding sample_db_saves(3) by blast
qed

end
