(* ===== verification/MqMgr.thy ===== *)
theory MqMgr
  imports Prelude "HOL-Library.Monad_Syntax"
begin

text \<open>
  The message queue manager \<open>mq_mgr\<close> of \<open>bis/src/server/mq_mgr.h\<close> and \<open>mq_mgr.cpp\<close>: one
  pull socket to receive from and one push socket per destination, connected on first use.
  ZeroMQ is a library: what its calls answer is the argument \<open>z\<close>; the messages waiting at
  the pull socket, those handed to push sockets and the closed sockets are part of the state.
\<close>

section \<open>State\<close>

record zmq =
  zmq_bind :: "string \<Rightarrow> int"
  zmq_connect :: "string \<Rightarrow> int"
  zmq_send :: "nat \<Rightarrow> string \<Rightarrow> int"

record mq_mgr =
  vpContext :: bool
  vpPull_sk :: "nat option"
  objPushSks :: "string \<Rightarrow> nat option"
  mq_fresh :: nat
  mq_inbox :: "string list"
  mq_sent :: "(nat \<times> string) list"

definition mq_new :: mq_mgr where
  "mq_new = \<lparr>vpContext = False, vpPull_sk = None, objPushSks = Map.empty, mq_fresh = 0,
     mq_inbox = [], mq_sent = []\<rparr>"

section \<open>Operations\<close>

definition mq_Init :: "zmq \<Rightarrow> string \<Rightarrow> mq_mgr \<Rightarrow> int \<times> mq_mgr" where
  "mq_Init z pull_addr q =
     (let q = q\<lparr>vpContext := True, vpPull_sk := Some (mq_fresh q), mq_fresh := Suc (mq_fresh q)\<rparr>;
          ret = zmq_bind z pull_addr
      in if ret < 0 then (ret, q) else (0, q))"

definition mq_FindConn :: "string \<Rightarrow> mq_mgr \<Rightarrow> nat option" where
  "mq_FindConn dest q = objPushSks q dest"

text \<open>A socket that cannot be connected is not kept (and not closed).\<close>

definition mq_AddDestConn :: "zmq \<Rightarrow> string \<Rightarrow> mq_mgr \<Rightarrow> nat option \<times> mq_mgr" where
  "mq_AddDestConn z dest q =
     (let sk = mq_fresh q; q = q\<lparr>mq_fresh := Suc sk\<rparr> in
      if zmq_connect z dest < 0 then (None, q)
      else (Some sk, q\<lparr>objPushSks := (objPushSks q)(dest \<mapsto> sk)\<rparr>))"

definition mq_SendMsg :: "zmq \<Rightarrow> string \<Rightarrow> string \<Rightarrow> mq_mgr \<Rightarrow> int \<times> mq_mgr" where
  "mq_SendMsg z dest data q =
     (let (push_sk, q) = (case mq_FindConn dest q of
            Some sk \<Rightarrow> (Some sk, q)
          | None \<Rightarrow> mq_AddDestConn z dest q)
      in case push_sk of
           None \<Rightarrow> (-1, q)
         | Some sk \<Rightarrow>
             let ret = zmq_send z sk data in
             if ret < 0 then (ret, q) else (ret, q\<lparr>mq_sent := mq_sent q @ [(sk, data)]\<rparr>))"

text \<open>The size of the message and the message.\<close>

definition mq_RecvMsg :: "mq_mgr \<Rightarrow> (nat \<times> string) \<times> mq_mgr" where
  "mq_RecvMsg q =
     (case mq_inbox q of
        [] \<Rightarrow> ((0, ''''), q)
      | m # ms \<Rightarrow> ((length m, m), q\<lparr>mq_inbox := ms\<rparr>))"

fun mq_RecvMsgs :: "nat \<Rightarrow> mq_mgr \<Rightarrow> string list \<times> mq_mgr" where
  "mq_RecvMsgs 0 q = ([], q)"
| "mq_RecvMsgs (Suc cnt) q =
     (let ((n, msg), q) = mq_RecvMsg q in
      if n \<le> 0 then ([], q)
      else let (msgs, q) = mq_RecvMsgs cnt q in (msg # msgs, q))"

definition mq_RemvConn :: "string \<Rightarrow> mq_mgr \<Rightarrow> int \<times> mq_mgr" where
  "mq_RemvConn dest q =
     (case objPushSks q dest of
        None \<Rightarrow> (-1, q)
      | Some sk \<Rightarrow> (0, q\<lparr>objPushSks := (objPushSks q)(dest := None)\<rparr>))"

definition mq_CloseAll :: "mq_mgr \<Rightarrow> mq_mgr" where
  "mq_CloseAll q = q\<lparr>vpPull_sk := None, vpContext := False, objPushSks := Map.empty\<rparr>"

section \<open>Routing\<close>

definition mq_ok :: "mq_mgr \<Rightarrow> bool" where
  "mq_ok q \<longleftrightarrow> (\<forall>d sk. objPushSks q d = Some sk \<longrightarrow> sk < mq_fresh q)
     \<and> (\<forall>d e sk. objPushSks q d = Some sk \<and> objPushSks q e = Some sk \<longrightarrow> d = e)"

lemma mq_SendMsg_ok:
  assumes ok: "mq_ok q" and con: "0 \<le> zmq_connect z dest" and snd: "\<And>sk m. 0 \<le> zmq_send z sk m"
  obtains q' sk where "mq_SendMsg z dest m q = (zmq_send z sk m, q')" "mq_ok q'"
    "objPushSks q' dest = Some sk" "\<And>d k. objPushSks q d = Some k \<Longrightarrow> objPushSks q' d = Some k"
    "mq_sent q' = mq_sent q @ [(sk, m)]" "mq_inbox q' = mq_inbox q"
proof (cases "objPushSks q dest")
  case (Some sk)
  show ?thesis
    by (rule that [of sk "q\<lparr>mq_sent := mq_sent q @ [(sk, m)]\<rparr>"])
      (use Some ok snd [of sk m] in \<open>auto simp: mq_SendMsg_def mq_FindConn_def Let_def mq_ok_def\<close>)
next
  case None
  let ?q = "q\<lparr>mq_fresh := Suc (mq_fresh q), objPushSks := (objPushSks q)(dest \<mapsto> mq_fresh q),
    mq_sent := mq_sent q @ [(mq_fresh q, m)]\<rparr>"
  show ?thesis
  proof (rule that [of "mq_fresh q" ?q])
    show "mq_SendMsg z dest m q = (zmq_send z (mq_fresh q) m, ?q)"
      using None con snd [of "mq_fresh q" m]
      by (simp add: mq_SendMsg_def mq_FindConn_def mq_AddDestConn_def Let_def)
    show "mq_ok ?q" using ok None by (fastforce simp: mq_ok_def)
  qed (use None in auto)
qed

fun mq_SendMsgs :: "zmq \<Rightarrow> (string \<times> string) list \<Rightarrow> mq_mgr \<Rightarrow> mq_mgr" where
  "mq_SendMsgs z [] q = q"
| "mq_SendMsgs z ((dest, m) # ms) q = mq_SendMsgs z ms (snd (mq_SendMsg z dest m q))"

lemma mq_SendMsgs_ok:
  assumes "mq_ok q" "\<forall>x \<in> set ms. 0 \<le> zmq_connect z (fst x)" "\<And>sk m. 0 \<le> zmq_send z sk m"
  shows "mq_ok (mq_SendMsgs z ms q)
    \<and> (\<forall>d k. objPushSks q d = Some k \<longrightarrow> objPushSks (mq_SendMsgs z ms q) d = Some k)
    \<and> (\<forall>x \<in> set ms. objPushSks (mq_SendMsgs z ms q) (fst x) \<noteq> None)
    \<and> mq_sent (mq_SendMsgs z ms q)
        = mq_sent q @ map (\<lambda>x. (the (objPushSks (mq_SendMsgs z ms q) (fst x)), snd x)) ms"
  using assms(1,2)
proof (induction ms arbitrary: q)
  case (Cons x ms)
  obtain dest m where x: "x = (dest, m)" by (cases x)
  have con: "0 \<le> zmq_connect z dest" using Cons.prems(2) x by simp
  obtain q1 sk where s: "mq_SendMsg z dest m q = (zmq_send z sk m, q1)" "mq_ok q1"
      "objPushSks q1 dest = Some sk" "\<And>d k. objPushSks q d = Some k \<Longrightarrow> objPushSks q1 d = Some k"
      "mq_sent q1 = mq_sent q @ [(sk, m)]" "mq_inbox q1 = mq_inbox q"
    by (rule mq_SendMsg_ok [OF Cons.prems(1) con assms(3), of m]) (rule that)
  with Cons.IH [OF s(2)] Cons.prems(2) x show ?case by auto
qed simp

section \<open>Receiving\<close>

lemma RecvMsgs_inbox:
  "mq_RecvMsgs n q = (takeWhile (\<lambda>m. m \<noteq> []) (take n (mq_inbox q)),
     q\<lparr>mq_inbox := (let k = length (takeWhile (\<lambda>m. m \<noteq> []) (take n (mq_inbox q)))
        in drop (if k < n then Suc k else k) (mq_inbox q))\<rparr>)"
proof (induction n arbitrary: q)
  case (Suc n)
  show ?case
  proof (cases "mq_inbox q")
    case (Cons m ms)
    with Suc [of "q\<lparr>mq_inbox := ms\<rparr>"] show ?thesis by (auto simp: mq_RecvMsg_def Let_def)
  qed (auto simp: mq_RecvMsg_def)
qed auto

section \<open>Properties\<close>

text \<open>When connecting and sending work, a sequence of messages is handed over in order,
  each to the one socket of its destination: a destination is connected once, and no two
  destinations share a socket.\<close>

theorem mq_routes_by_destination:
  assumes "\<forall>x \<in> set ms. 0 \<le> zmq_connect z (fst x)" "\<forall>sk m. 0 \<le> zmq_send z sk m"
  shows "\<exists>sock. inj_on sock (fst ` set ms)
    \<and> mq_sent (mq_SendMsgs z ms mq_new) = map (\<lambda>x. (sock (fst x), snd x)) ms"
proof -
  let ?q = "mq_SendMsgs z ms mq_new"
  have "mq_ok mq_new" by (simp add: mq_ok_def mq_new_def)
  note ok = mq_SendMsgs_ok [OF this assms(1) assms(2) [rule_format]]
  have "inj_on (\<lambda>d. the (objPushSks ?q d)) (fst ` set ms)"
  proof (rule inj_onI)
    fix d e assume "d \<in> fst ` set ms" "e \<in> fst ` set ms" and eq: "the (objPushSks ?q d) = the (objPushSks ?q e)"
    then obtain k where "objPushSks ?q d = Some k" "objPushSks ?q e = Some k" using ok by fastforce
    then show "d = e" using ok by (auto simp: mq_ok_def)
  qed
  moreover have "mq_sent mq_new = []" by (simp add: mq_new_def)
  ultimately show ?thesis using ok by (intro exI [of _ "\<lambda>d. the (objPushSks ?q d)"]) simp
qed

theorem mq_routes_by_destination_witness:
  "\<exists>sock. sock ''a'' \<noteq> sock ''b'' \<and> mq_sent (mq_SendMsgs \<lparr>zmq_bind = \<lambda>_. 0, zmq_connect = \<lambda>_. 0, zmq_send = \<lambda>_ m. int (length m)\<rparr>
      [(''a'', ''x''), (''b'', ''y''), (''a'', ''z'')] mq_new) = [(sock ''a'', ''x''), (sock ''b'', ''y''), (sock ''a'', ''z'')]"
proof -
  let ?z = "\<lparr>zmq_bind = \<lambda>_. 0, zmq_connect = \<lambda>_. 0, zmq_send = \<lambda>_ m. int (length m)\<rparr>"
  obtain sock where "inj_on sock (fst ` set [(''a'', ''x''), (''b'', ''y''), (''a'', ''z'')])"
      "mq_sent (mq_SendMsgs ?z [(''a'', ''x''), (''b'', ''y''), (''a'', ''z'')] mq_new)
        = map (\<lambda>x. (sock (fst x), snd x)) [(''a'', ''x''), (''b'', ''y''), (''a'', ''z'')]"
    using mq_routes_by_destination [of "[(''a'', ''x''), (''b'', ''y''), (''a'', ''z'')]" ?z] by auto
  then show ?thesis by (intro exI [of _ sock]) (simp del: mq_SendMsgs.simps)
qed

end
