(* ===== verification/AppBase.thy ===== *)
theory AppBase
  imports Prelude Complex_Main
begin

text \<open>
  The process framework \<open>tnt::ApplicationBase\<close> of \<open>bis/src/server/include/application_base.h\<close>
  and \<open>application_base.cpp\<close>: signal dispositions, the main loop \<open>Run\<close> and its statistics.
  The callbacks of the derived class are the argument \<open>cb\<close>; one round of the loop takes from
  the outside the signals delivered before it, the four clock readings and the data the
  callbacks see. Costs are \<open>float\<close> in the code and \<open>real\<close> here. Option parsing, printing
  and the process id file are left out.
\<close>

section \<open>Signals\<close>

datatype signal = SIGINT | SIGTERM | SIGQUIT | SIGHUP | SIGUSR1 | SIGUSR2 | SIGPIPE | SIGCHLD
  | SIGTTOU | SIGTTIN

datatype handler = SIG_DFL | SIG_IGN | ExitProcessCtrl | OnSigUsr1 | OnSigUsr2

type_synonym dispositions = "signal \<Rightarrow> handler"

definition app_InitSigHandler :: "dispositions \<Rightarrow> dispositions" where
  "app_InitSigHandler d =
     (let d = d(SIGINT := ExitProcessCtrl, SIGTERM := ExitProcessCtrl, SIGQUIT := ExitProcessCtrl);
          d = d(SIGHUP := ExitProcessCtrl);
          d = d(SIGUSR1 := OnSigUsr1);
          d = d(SIGUSR2 := OnSigUsr2)
      in d(SIGPIPE := SIG_IGN, SIGCHLD := SIG_IGN))"

text \<open>The dispositions of the daemon process, the grandchild of the started one.\<close>

definition app_MakeDaemon :: "dispositions \<Rightarrow> dispositions" where
  "app_MakeDaemon d = d(SIGINT := SIG_IGN, SIGHUP := SIG_IGN, SIGQUIT := SIG_IGN, SIGPIPE := SIG_IGN,
     SIGTTOU := SIG_IGN, SIGTTIN := SIG_IGN, SIGCHLD := SIG_IGN, SIGTERM := SIG_IGN, SIGHUP := SIG_IGN)"

section \<open>State\<close>

record timeval =
  tv_sec :: int
  tv_usec :: int

record app =
  is_run :: bool
  is_exit :: bool
  is_reload :: bool
  total_proc_count :: "64 word"
  total_tick_count :: "64 word"
  total_ilde_count :: "64 word"
  proc_min_cost :: real
  proc_max_cost :: real
  proc_last_cost :: real
  proc_total_cost :: real
  tick_min_cost :: real
  tick_max_cost :: real
  tick_last_cost :: real
  tick_total_cost :: real
  last_tick_ms :: int
  idle_count :: "64 word"
  idle_sleep :: int
  tick_timer :: int

definition app_new :: app where
  "app_new = \<lparr>is_run = False, is_exit = False, is_reload = False,
     total_proc_count = 0, total_tick_count = 0, total_ilde_count = 0,
     proc_min_cost = 100000, proc_max_cost = 0, proc_last_cost = 0, proc_total_cost = 0,
     tick_min_cost = 100000, tick_max_cost = 0, tick_last_cost = 0, tick_total_cost = 0,
     last_tick_ms = 0, idle_count = 10, idle_sleep = 10, tick_timer = 100\<rparr>"

fun app_signal :: "dispositions \<Rightarrow> signal \<Rightarrow> app \<Rightarrow> app" where
  "app_signal d s a =
     (case d s of
        ExitProcessCtrl \<Rightarrow> a\<lparr>is_exit := True\<rparr>
      | OnSigUsr1 \<Rightarrow> a\<lparr>is_reload := True\<rparr>
      | _ \<Rightarrow> a)"

definition TV_DIFF :: "timeval \<Rightarrow> timeval \<Rightarrow> timeval" where
  "TV_DIFF t1 t2 =
     (if tv_usec t1 \<ge> tv_usec t2
      then \<lparr>tv_sec = tv_sec t1 - tv_sec t2, tv_usec = tv_usec t1 - tv_usec t2\<rparr>
      else \<lparr>tv_sec = tv_sec t1 - tv_sec t2 - 1, tv_usec = 1000000 + tv_usec t1 - tv_usec t2\<rparr>)"

text \<open>Division of C truncates; the fields of a clock reading are not negative.\<close>

definition TV_TO_MS :: "timeval \<Rightarrow> int" where
  "TV_TO_MS tv = tv_sec tv * 1000 + tv_usec tv div 1000"

definition time_cost :: "timeval \<Rightarrow> real" where
  "time_cost d = of_int (tv_sec d * 1000) + of_int (tv_usec d) / 1000"

section \<open>The main loop\<close>

record 's callbacks =
  OnProc :: "'s \<Rightarrow> int \<times> 's"
  OnTick :: "'s \<Rightarrow> 's"
  OnIdle :: "'s \<Rightarrow> 's"
  OnReload :: "'s \<Rightarrow> 's"
  OnStop :: "'s \<Rightarrow> 's"
  OnExit :: "'s \<Rightarrow> 's"

record 'e round_in =
  signals :: "signal list"
  tv_start :: timeval
  tv_end :: timeval
  tv_now :: timeval
  tv_tick_end :: timeval
  extern :: 'e

definition app_proc_stat :: "real \<Rightarrow> app \<Rightarrow> app" where
  "app_proc_stat c a = a\<lparr>total_proc_count := total_proc_count a + 1, proc_last_cost := c,
     proc_min_cost := (if c < proc_min_cost a then c else proc_min_cost a),
     proc_max_cost := (if c > proc_max_cost a then c else proc_max_cost a),
     proc_total_cost := proc_total_cost a + c\<rparr>"

definition app_tick_stat :: "int \<Rightarrow> real \<Rightarrow> app \<Rightarrow> app" where
  "app_tick_stat ms c a = a\<lparr>total_tick_count := total_tick_count a + 1, last_tick_ms := ms,
     tick_last_cost := c,
     tick_min_cost := (if c < tick_min_cost a then c else tick_min_cost a),
     tick_max_cost := (if c > tick_max_cost a then c else tick_max_cost a),
     tick_total_cost := tick_total_cost a + c\<rparr>"

text \<open>One round of the loop on the application state, \<open>ilde_count\<close> and the derived object.\<close>

definition app_round :: "('e \<Rightarrow> 's callbacks) \<Rightarrow> 'e round_in \<Rightarrow> app \<times> 64 word \<times> 's \<Rightarrow> app \<times> 64 word \<times> 's" where
  "app_round cbs i = (\<lambda>(a, ilde, s).
     let cb = cbs (extern i) in
     if is_exit a then (a\<lparr>is_run := False\<rparr>, ilde, OnExit cb (OnStop cb s))
     else if is_reload a then (a\<lparr>is_reload := False\<rparr>, ilde, OnReload cb s)
     else
       let (ret, s) = OnProc cb s;
           a = app_proc_stat (time_cost (TV_DIFF (tv_end i) (tv_start i))) a;
           (ilde, a) = (if ret < 0 then (ilde + 1, a\<lparr>total_ilde_count := total_ilde_count a + 1\<rparr>) else (0, a));
           ms_now = TV_TO_MS (tv_now i);
           (a, s) = (if last_tick_ms a + tick_timer a \<le> ms_now
             then (app_tick_stat ms_now (time_cost (TV_DIFF (tv_tick_end i) (tv_now i))) a, OnTick cb s)
             else (a, s))
       in if ilde \<ge> idle_count a then (a, 0, OnIdle cb s) else (a, ilde, s))"

text \<open>The loop on the given rounds; what is left of them when \<open>is_run\<close> is false is not run.\<close>

fun app_loop :: "dispositions \<Rightarrow> ('e \<Rightarrow> 's callbacks) \<Rightarrow> 'e round_in list \<Rightarrow> app \<times> 64 word \<times> 's
     \<Rightarrow> app \<times> 64 word \<times> 's" where
  "app_loop d cbs [] (a, ilde, s) = (a, ilde, s)"
| "app_loop d cbs (i # is) (a, ilde, s) =
     (if is_run a then app_loop d cbs is (app_round cbs i (fold (app_signal d) (signals i) a, ilde, s))
      else (a, ilde, s))"

definition app_Run :: "dispositions \<Rightarrow> ('e \<Rightarrow> 's callbacks) \<Rightarrow> 'e round_in list \<Rightarrow> app \<Rightarrow> 's \<Rightarrow> app \<times> 's" where
  "app_Run d cbs is a s = (let (a, _, s) = app_loop d cbs is (a\<lparr>is_run := True\<rparr>, 0, s) in (a, s))"

section \<open>Traces\<close>

text \<open>A derived object that answers \<open>OnProc\<close> with the data of the round and records the calls.\<close>

datatype call = Proc int | Tick | Idle | Reload | Stop | Exit

definition tracing :: "int \<Rightarrow> call list callbacks" where
  "tracing r = \<lparr>OnProc = (\<lambda>cs. (r, cs @ [Proc r])), OnTick = (\<lambda>cs. cs @ [Tick]), OnIdle = (\<lambda>cs. cs @ [Idle]),
     OnReload = (\<lambda>cs. cs @ [Reload]), OnStop = (\<lambda>cs. cs @ [Stop]), OnExit = (\<lambda>cs. cs @ [Exit])\<rparr>"

definition exit_signals :: "signal set" where
  "exit_signals = {SIGINT, SIGTERM, SIGQUIT, SIGHUP}"

abbreviation handled :: dispositions where
  "handled \<equiv> app_InitSigHandler (\<lambda>_. SIG_DFL)"

lemma handled_exit: "handled s = ExitProcessCtrl \<longleftrightarrow> s \<in> exit_signals"
  by (cases s) (simp_all add: app_InitSigHandler_def exit_signals_def Let_def)

lemma app_signal_fields [simp]:
  "is_run (app_signal d s a) = is_run a" "idle_count (app_signal d s a) = idle_count a"
  "is_exit (app_signal handled s a) \<longleftrightarrow> is_exit a \<or> s \<in> exit_signals"
  by (auto split: handler.splits simp: handled_exit [symmetric])

lemma app_signals_fields [simp]:
  "is_run (fold (app_signal d) ss a) = is_run a" "idle_count (fold (app_signal d) ss a) = idle_count a"
  "is_exit (fold (app_signal handled) ss a) \<longleftrightarrow> is_exit a \<or> set ss \<inter> exit_signals \<noteq> {}"
  by (induction ss arbitrary: a) (auto simp del: app_signal.simps)

declare app_signal.simps [simp del]

lemma app_stat_fields [simp]:
  "is_run (app_proc_stat c a) = is_run a" "is_exit (app_proc_stat c a) = is_exit a"
  "idle_count (app_proc_stat c a) = idle_count a"
  "is_run (app_tick_stat ms c a) = is_run a" "is_exit (app_tick_stat ms c a) = is_exit a"
  "idle_count (app_tick_stat ms c a) = idle_count a"
  by (simp_all add: app_proc_stat_def app_tick_stat_def)

text \<open>A round leaves the configuration alone and ends the loop exactly when it saw the exit flag.\<close>

lemma app_round_flags:
  assumes "app_round cbs i (a, ilde, s) = (a', ilde', s')"
  shows "idle_count a' = idle_count a" "is_exit a' = is_exit a" "is_run a' \<longleftrightarrow> is_run a \<and> \<not> is_exit a"
  using assms by (auto simp: app_round_def Let_def split: if_splits prod.splits)

text \<open>What a round appends to the trace.\<close>

lemma app_round_trace:
  assumes "app_round tracing i (a, ilde, cs) = (a', ilde', cs')"
  shows "\<exists>new. cs' = cs @ new \<and> (if is_exit a then new = [Stop, Exit] else Stop \<notin> set new \<and> Exit \<notin> set new)"
  using assms by (auto simp: app_round_def tracing_def Let_def split: if_splits prod.splits)

lemma app_loop_stopped: "\<not> is_run a \<Longrightarrow> app_loop d cbs is (a, ilde, s) = (a, ilde, s)"
  by (cases "is") auto

lemma app_loop_exit:
  assumes "app_loop handled tracing is (a, ilde, cs) = (a', ilde', cs')" "is_run a" "\<not> is_exit a"
  shows "if \<exists>i \<in> set is. set (signals i) \<inter> exit_signals \<noteq> {}
    then \<not> is_run a' \<and> (\<exists>new. cs' = cs @ new @ [Stop, Exit] \<and> Stop \<notin> set new \<and> Exit \<notin> set new)
    else is_run a' \<and> (\<exists>new. cs' = cs @ new \<and> Stop \<notin> set new \<and> Exit \<notin> set new)"
  using assms
proof (induction "is" arbitrary: a ilde cs)
  case (Cons i "is")
  let ?a = "fold (app_signal handled) (signals i) a"
  obtain a1 ilde1 cs1 where r: "app_round tracing i (?a, ilde, cs) = (a1, ilde1, cs1)" by (cases "app_round tracing i (?a, ilde, cs)")
  have loop: "app_loop handled tracing is (a1, ilde1, cs1) = (a', ilde', cs')"
    using Cons.prems(1,2) r by simp
  note fl = app_round_flags [OF r] and tr = app_round_trace [OF r]
  show ?case
  proof (cases "set (signals i) \<inter> exit_signals = {}")
    case True
    then have "is_run a1" "\<not> is_exit a1" using fl Cons.prems(2,3) by simp_all
    note ih = Cons.IH [OF loop this]
    obtain new where new: "cs1 = cs @ new" "Stop \<notin> set new" "Exit \<notin> set new"
      using tr True Cons.prems(3) by auto
    show ?thesis
    proof (cases "\<exists>i \<in> set is. set (signals i) \<inter> exit_signals \<noteq> {}")
      case True
      then obtain mid where "\<not> is_run a'" "cs' = cs1 @ mid @ [Stop, Exit]" "Stop \<notin> set mid" "Exit \<notin> set mid"
        using ih by auto
      with True new show ?thesis by (auto intro!: exI [of _ "new @ mid"])
    next
      case False
      then obtain mid where "is_run a'" "cs' = cs1 @ mid" "Stop \<notin> set mid" "Exit \<notin> set mid"
        using ih by auto
      with False \<open>set (signals i) \<inter> exit_signals = {}\<close> new show ?thesis
        by (auto intro!: exI [of _ "new @ mid"])
    qed
  next
    case False
    then have "\<not> is_run a1" using fl by simp
    with loop have "a' = a1" "cs' = cs1" by (simp_all add: app_loop_stopped)
    with False tr \<open>\<not> is_run a1\<close> show ?thesis by auto
  qed
qed auto

text \<open>How many \<open>OnProc\<close> calls in a row, up to the end of the trace, answered less than zero.\<close>

fun procs :: "call list \<Rightarrow> int list" where
  "procs [] = []"
| "procs (Proc r # cs) = r # procs cs"
| "procs (_ # cs) = procs cs"

definition quiet :: "call list \<Rightarrow> nat" where
  "quiet cs = length (takeWhile (\<lambda>r. r < 0) (rev (procs cs)))"

lemma procs_append [simp]: "procs (cs @ ds) = procs cs @ procs ds"
  by (induction cs rule: procs.induct) auto

lemma quiet_snoc [simp]:
  "quiet (cs @ [Proc r]) = (if r < 0 then Suc (quiet cs) else 0)" "quiet (cs @ [Proc r, Tick]) = quiet (cs @ [Proc r])"
  by (simp_all add: quiet_def)

text \<open>Every \<open>OnIdle\<close> of the trace comes after at least \<open>n\<close> calls in a row without work.\<close>

definition idle_ok :: "nat \<Rightarrow> call list \<Rightarrow> bool" where
  "idle_ok n cs \<longleftrightarrow> (\<forall>k < length cs. cs ! k = Idle \<longrightarrow> n \<le> quiet (take k cs))"

lemma idle_ok_Nil [simp]: "idle_ok n []"
  by (simp add: idle_ok_def)

lemma idle_ok_snoc:
  "idle_ok n (cs @ [c]) \<longleftrightarrow> idle_ok n cs \<and> (c = Idle \<longrightarrow> n \<le> quiet cs)"
  unfolding idle_ok_def by (auto simp: less_Suc_eq nth_append)

lemma idle_ok_append:
  "Idle \<notin> set new \<Longrightarrow> idle_ok n (cs @ new) \<longleftrightarrow> idle_ok n cs"
proof (induction new rule: rev_induct)
  case (snoc c new)
  with idle_ok_snoc [of n "cs @ new" c] show ?case by auto
qed simp

lemma word_succ_le: "unat (x :: 'a::len word) \<le> n \<Longrightarrow> unat (x + 1) \<le> Suc n"
  by (simp add: unat_word_ariths) (meson Suc_le_mono le_trans mod_less_eq_dividend)

lemma idle_ok_round:
  "idle_ok n (cs @ [Proc r, Idle]) \<longleftrightarrow> idle_ok n cs \<and> n \<le> quiet (cs @ [Proc r])"
  "idle_ok n (cs @ [Proc r, Tick, Idle]) \<longleftrightarrow> idle_ok n cs \<and> n \<le> quiet (cs @ [Proc r])"
  using idle_ok_snoc [of n "cs @ [Proc r]" Idle] idle_ok_snoc [of n "cs @ [Proc r, Tick]" Idle]
    idle_ok_append [of "[Proc r]" n cs] idle_ok_append [of "[Proc r, Tick]" n cs]
  by auto

lemma app_round_idle:
  assumes "app_round tracing i (a, ilde, cs) = (a', ilde', cs')"
    and "unat ilde \<le> quiet cs" "idle_ok (unat (idle_count a)) cs"
  shows "unat ilde' \<le> quiet cs' \<and> idle_ok (unat (idle_count a)) cs'"
proof -
  have "quiet (cs @ new) = quiet cs" "quiet (cs @ Proc r # new) = quiet (cs @ [Proc r])"
    if "procs new = []" for cs new r
    using that by (simp_all add: quiet_def)
  then show ?thesis
    using assms word_succ_le [OF assms(2)]
    by (auto simp: app_round_def tracing_def Let_def idle_ok_round idle_ok_append word_le_nat_alt
        split: if_splits prod.splits)
qed

lemma app_loop_idle:
  assumes "app_loop d tracing is (a, ilde, cs) = (a', ilde', cs')"
    and "unat ilde \<le> quiet cs" "idle_ok (unat (idle_count a)) cs"
  shows "idle_ok (unat (idle_count a)) cs'"
  using assms
proof (induction "is" arbitrary: a ilde cs)
  case (Cons i "is")
  let ?a = "fold (app_signal d) (signals i) a"
  obtain a1 ilde1 cs1 where r: "app_round tracing i (?a, ilde, cs) = (a1, ilde1, cs1)"
    by (cases "app_round tracing i (?a, ilde, cs)")
  with app_round_idle [OF r] app_round_flags(1) [OF r] Cons.IH [of a1 ilde1 cs1] Cons.prems
  show ?case by (auto split: if_splits)
qed simp

section \<open>Properties\<close>

text \<open>C30. With the installed signal handlers, the loop of a new application runs until the
  first round before which one of INT, TERM, QUIT and HUP is delivered; then it calls
  \<open>OnStop\<close> and \<open>OnExit\<close>, once each and in this order, as its last two calls, and ends.
  Without such a signal it goes on and calls neither.\<close>

theorem app_exit_protocol:
  "let (a, cs) = app_Run handled tracing is app_new [] in
     if \<exists>i \<in> set is. set (signals i) \<inter> exit_signals \<noteq> {}
     then \<not> is_run a \<and> (\<exists>ds. cs = ds @ [Stop, Exit] \<and> Stop \<notin> set ds \<and> Exit \<notin> set ds)
     else is_run a \<and> Stop \<notin> set cs \<and> Exit \<notin> set cs"
proof -
  let ?a = "app_new\<lparr>is_run := True\<rparr>"
  obtain a ilde cs where l: "app_loop handled tracing is (?a, 0, []) = (a, ilde, cs)"
    by (cases "app_loop handled tracing is (?a, 0, [])")
  have "is_run ?a" "\<not> is_exit ?a" by (simp_all add: app_new_def)
  from app_loop_exit [OF l this] show ?thesis
    by (cases "\<exists>i \<in> set is. set (signals i) \<inter> exit_signals \<noteq> {}") (simp_all add: app_Run_def l)
qed

text \<open>Whatever the clock, the signals and \<open>OnProc\<close> answer, \<open>OnIdle\<close> is only called
  when the last \<open>idle_count\<close> calls of \<open>OnProc\<close> all answered less than zero.\<close>

theorem app_idle_after_quiet_rounds:
  "idle_ok (unat (idle_count a)) (snd (app_Run d tracing is a []))"
proof -
  obtain a' ilde cs where l: "app_loop d tracing is (a\<lparr>is_run := True\<rparr>, 0, []) = (a', ilde, cs)"
    by (cases "app_loop d tracing is (a\<lparr>is_run := True\<rparr>, 0, [])")
  from app_loop_idle [OF l] show ?thesis by (simp add: app_Run_def l)
qed

end
