(* ===== verification/Messages.thy ===== *)
theory Messages
  imports Main
begin

text \<open>
  The envelope \<open>MsgTransApp\<close> of \<open>proto/bs_msg.proto\<close>, which the proxy and the server
  exchange, and the commands of \<open>proto/bs_cmd.proto\<close> the proxy forwards.
\<close>

record trans_app =
  cmd_id :: int
  client_pos :: int
  src :: string
  app_data :: string

definition trans_empty :: trans_app where
  "trans_empty = \<lparr>cmd_id = 0, client_pos = 0, src = '''', app_data = ''''\<rparr>"

definition MSG_SET_BATCH_REQ :: int where "MSG_SET_BATCH_REQ = 0x1003"
definition MSG_GET_SCORE_BATCH_REQ :: int where "MSG_GET_SCORE_BATCH_REQ = 0x1007"
definition MSG_RANK_BATCH_QUERY_REQ :: int where "MSG_RANK_BATCH_QUERY_REQ = 0x1011"
definition MSG_RANGE_QUERY_REQ :: int where "MSG_RANGE_QUERY_REQ = 0x1013"
definition MSG_RANGEBYSCORE_QUERY_REQ :: int where "MSG_RANGEBYSCORE_QUERY_REQ = 0x1015"
definition MSG_TOP_QUERY_REQ :: int where "MSG_TOP_QUERY_REQ = 0x1017"

end
