(* ===== verification/Server.thy ===== *)
theory Server
  imports Db MqMgr AppBase Messages
begin

text \<open>
  The server of \<open>bis/src/server/server.h\<close> and \<open>server.cpp\<close>: the request handlers on the
  database, and the background save with its child process (\<open>db::BgSaveDb\<close> and
  \<open>Server::WaitChilen\<close>). Messages are the records of \<open>proto/bs_msg.proto\<close>; the generated
  parsers and serialisers are the argument \<open>pc\<close>. As before \<open>None\<close> is undefined behaviour.
\<close>

section \<open>Messages\<close>

record mem_data =
  md_score :: real
  md_data :: string

record rank_info =
  ri_rank :: "64 word"
  ri_data :: mem_data

datatype srv_rsp =
    SetBatchRsp int string int
  | GetScoreBatchRsp int string "mem_data list"
  | RankBatchRsp int string "rank_info list"
  | RangeRsp int string "rank_info list"
  | RangeByScoreRsp int string "rank_info list"
  | TopRsp int string "mem_data option"

text \<open>The parsers give the fields of the requests.\<close>

record srv_codec =
  pc_trans :: "string \<Rightarrow> trans_app option"
  pc_set :: "string \<Rightarrow> (string \<times> mem_data list) option"
  pc_mems :: "string \<Rightarrow> (string \<times> string list) option"
  pc_range :: "string \<Rightarrow> (string \<times> 64 word \<times> 64 word) option"
  pc_top :: "string \<Rightarrow> (string \<times> 64 word) option"
  ser_rsp :: "srv_rsp \<Rightarrow> string"
  ser_trans :: "trans_app \<Rightarrow> string"

section \<open>State\<close>

record server =
  transApp :: trans_app
  uiLastSaveTime :: int
  chilld_pid :: int
  uiForkStartTime :: int
  uiSaveTimeSpan :: int

record world =
  w_svr :: server
  w_db :: db
  w_mq :: mq_mgr

definition srv_Respone :: "srv_codec \<Rightarrow> zmq \<Rightarrow> srv_rsp \<Rightarrow> world \<Rightarrow> world" where
  "srv_Respone pc z data w =
     (let app = transApp (w_svr w);
          rsp = trans_empty\<lparr>client_pos := client_pos app, app_data := ser_rsp pc data\<rparr>
      in w\<lparr>w_mq := snd (mq_SendMsg z (src app) (ser_trans pc rsp) (w_mq w))\<rparr>)"

section \<open>Handlers\<close>

fun srv_set_loop :: "(nat \<Rightarrow> nat \<Rightarrow> int) \<Rightarrow> nat \<Rightarrow> string \<Rightarrow> mem_data list \<Rightarrow> int \<Rightarrow> db \<Rightarrow> (int \<times> db) option" where
  "srv_set_loop rnds i key [] n d = Some (n, d)"
| "srv_set_loop rnds i key (x # xs) n d = do {
     (ok, d) \<leftarrow> db_Insert (rnds i) key (md_score x) (md_data x) d;
     srv_set_loop rnds (Suc i) key xs (if ok then n + 1 else n) d
   }"

definition srv_ProcessDbSet :: "srv_codec \<Rightarrow> zmq \<Rightarrow> (nat \<Rightarrow> nat \<Rightarrow> int) \<Rightarrow> world \<Rightarrow> world option" where
  "srv_ProcessDbSet pc z rnds w =
     (case pc_set pc (app_data (transApp (w_svr w))) of
        None \<Rightarrow> Some w
      | Some (key, data_list) \<Rightarrow> do {
          (succ_num, d) \<leftarrow> srv_set_loop rnds 0 key data_list 0 (w_db w);
          Some (srv_Respone pc z (SetBatchRsp 0 '''' succ_num) (w\<lparr>w_db := d\<rparr>))
        })"

text \<open>\<open>mem_data_list(i).data()\<close> is the \<open>char*\<close> of a string: the member up to its first NUL.\<close>

definition c_str :: "string \<Rightarrow> string" where
  "c_str s = takeWhile (\<lambda>c. c \<noteq> CHR 0x00) s"

fun srv_score_loop :: "string \<Rightarrow> string list \<Rightarrow> db \<Rightarrow> mem_data list \<times> db" where
  "srv_score_loop key [] d = ([], d)"
| "srv_score_loop key (m # ms) d =
     (let (score, d) = db_GetMemScore key (c_str m) d;
          item = (case score of
              None \<Rightarrow> \<lparr>md_score = 0, md_data = ''No Find!''\<rparr>
            | Some score \<Rightarrow> \<lparr>md_score = score, md_data = c_str m\<rparr>);
          (items, d) = srv_score_loop key ms d
      in (item # items, d))"

definition srv_ProcessDbGetScore :: "srv_codec \<Rightarrow> zmq \<Rightarrow> world \<Rightarrow> world option" where
  "srv_ProcessDbGetScore pc z w =
     (case pc_mems pc (app_data (transApp (w_svr w))) of
        None \<Rightarrow> Some w
      | Some (key, mems) \<Rightarrow>
          let (items, d) = srv_score_loop key mems (w_db w) in
          Some (srv_Respone pc z (GetScoreBatchRsp 0 ''Succ.'' items) (w\<lparr>w_db := d\<rparr>)))"

text \<open>Reading the uninitialised \<open>score\<close> would be undefined.\<close>

fun srv_rank_loop :: "string \<Rightarrow> string list \<Rightarrow> db \<Rightarrow> (rank_info list \<times> db) option" where
  "srv_rank_loop key [] d = Some ([], d)"
| "srv_rank_loop key (m # ms) d = do {
     (rank, d) \<leftarrow> db_GetMemRank key m d;
     (item, d) \<leftarrow> (case rank of
         None \<Rightarrow> Some (\<lparr>ri_rank = 0, ri_data = \<lparr>md_score = 0, md_data = ''No Find!''\<rparr>\<rparr>, d)
       | Some rank \<Rightarrow>
           (case db_GetMemScore key m d of
              (None, d) \<Rightarrow> None
            | (Some score, d) \<Rightarrow> Some (\<lparr>ri_rank = rank, ri_data = \<lparr>md_score = score, md_data = m\<rparr>\<rparr>, d)));
     (items, d) \<leftarrow> srv_rank_loop key ms d;
     Some (item # items, d)
   }"

definition srv_ProcessDbRankQuery :: "srv_codec \<Rightarrow> zmq \<Rightarrow> world \<Rightarrow> world option" where
  "srv_ProcessDbRankQuery pc z w =
     (case pc_mems pc (app_data (transApp (w_svr w))) of
        None \<Rightarrow> Some w
      | Some (key, mems) \<Rightarrow> do {
          (items, d) \<leftarrow> srv_rank_loop key mems (w_db w);
          Some (srv_Respone pc z (RankBatchRsp 0 ''Succ.'' items) (w\<lparr>w_db := d\<rparr>))
        })"

definition node_info :: "64 word \<Rightarrow> sl_node \<Rightarrow> rank_info" where
  "node_info rank n = \<lparr>ri_rank = rank, ri_data = \<lparr>md_score = n_score n, md_data = d_val (n_data n)\<rparr>\<rparr>"

text \<open>\<open>for (; itr != end() && cnt < num; ++cnt, ++itr)\<close> on the list \<open>s\<close>.\<close>

partial_function (option) srv_range_loop ::
  "skiplist \<Rightarrow> 64 word \<Rightarrow> 64 word \<Rightarrow> 64 word \<Rightarrow> sl_itr \<Rightarrow> rank_info list option" where
  "srv_range_loop s mn num cnt it =
     (if \<not> sl_itr_eq it db_end \<and> cnt < num then do {
        n \<leftarrow> sl_deref s it;
        it \<leftarrow> sl_itr_next s it;
        items \<leftarrow> srv_range_loop s mn num (cnt + 1) it;
        Some (node_info (mn + cnt) n # items)
      } else Some [])"

declare srv_range_loop.simps [code]

text \<open>After the loop and after its error branch alike, result and text are overwritten.\<close>

definition srv_ProcessDbRangeByRank :: "srv_codec \<Rightarrow> zmq \<Rightarrow> world \<Rightarrow> world option" where
  "srv_ProcessDbRangeByRank pc z w =
     (case pc_range pc (app_data (transApp (w_svr w))) of
        None \<Rightarrow> Some w
      | Some (key, rmin, rmax) \<Rightarrow> do {
          (it, d) \<leftarrow> db_GetMemsFirstByRank key rmin rmax (w_db w);
          items \<leftarrow> (if sl_itr_eq it db_end then Some []
            else do {
              let (mn, mx) = (if rmin > rmax then (rmax, rmin) else (rmin, rmax));
              let num = mx - mn + 1;
              t \<leftarrow> db_FindSSet key d;
              srv_range_loop (ss_sl t) mn num 0 it
            });
          Some (srv_Respone pc z (RangeRsp 0 ''Succ.'' items) (w\<lparr>w_db := d\<rparr>))
        })"

partial_function (option) srv_score_range_loop ::
  "skiplist \<Rightarrow> sl_itr \<Rightarrow> 64 word \<Rightarrow> sl_itr \<Rightarrow> (rank_info list \<times> 64 word) option" where
  "srv_score_range_loop s lst rank it =
     (if \<not> sl_itr_eq it lst then do {
        n \<leftarrow> sl_deref s it;
        it \<leftarrow> sl_itr_next s it;
        (items, r) \<leftarrow> srv_score_range_loop s lst (rank + 1) it;
        Some (node_info rank n # items, r)
      } else Some ([], rank))"

declare srv_score_range_loop.simps [code]

text \<open>The conversion of a \<open>uint64\<close> to \<open>double\<close>: exact for up to 53 bits, otherwise to the nearest
  number with 53 leading bits, ties to the even one.\<close>

definition uint64_to_double :: "64 word \<Rightarrow> real" where
  "uint64_to_double x =
     (let n = uint x; e = length (takeWhile (\<lambda>e. 2 ^ 53 \<le> n div 2 ^ e) [0..<64]);
          q = n div 2 ^ e; r = 2 * (n mod 2 ^ e)
      in real_of_int ((if r > 2 ^ e \<or> (r = 2 ^ e \<and> odd q) then q + 1 else q) * 2 ^ e))"

lemma uint64_to_double_exact: "x < 2 ^ 53 \<Longrightarrow> uint64_to_double x = real_of_int (uint x)"
proof -
  assume "x < 2 ^ 53"
  then have "uint x < 2 ^ 53" by (simp add: word_less_def)
  moreover have "[0..<64] = 0 # [Suc 0..<64]" by (rule upt_conv_Cons) simp
  ultimately have "takeWhile (\<lambda>e. 2 ^ 53 \<le> uint x div 2 ^ e) [0..<64] = []" by (simp only: takeWhile.simps) simp
  then show ?thesis by (simp add: uint64_to_double_def)
qed

text \<open>The bounds of the request are integers, the scores are not. \<open>rank\<close> stays 0 when
  \<open>GetMemRank\<close> fails.\<close>

definition srv_ProcessDbRangeByScore :: "srv_codec \<Rightarrow> zmq \<Rightarrow> world \<Rightarrow> world option" where
  "srv_ProcessDbRangeByScore pc z w =
     (case pc_range pc (app_data (transApp (w_svr w))) of
        None \<Rightarrow> Some w
      | Some (key, rmin, rmax) \<Rightarrow> do {
          ((it, lst), d) \<leftarrow> db_GetMemsByScore key (uint64_to_double rmin) (uint64_to_double rmax) (w_db w);
          (rsp, d) \<leftarrow> (if strErr d \<noteq> '''' then Some (RangeByScoreRsp (-1) (strErr d) [], d)
            else do {
              t \<leftarrow> db_FindSSet key d;
              n \<leftarrow> sl_deref (ss_sl t) it;
              (rank, d) \<leftarrow> db_GetMemRank key (d_val (n_data n)) d;
              (items, rank) \<leftarrow> srv_score_range_loop (ss_sl t) lst (case rank of None \<Rightarrow> 0 | Some r \<Rightarrow> r) it;
              n \<leftarrow> sl_deref (ss_sl t) lst;
              Some (RangeByScoreRsp 0 ''Succ.'' (items @ [node_info rank n]), d)
            });
          Some (srv_Respone pc z rsp (w\<lparr>w_db := d\<rparr>))
        })"

definition srv_ProcessDbTopQuery :: "srv_codec \<Rightarrow> zmq \<Rightarrow> world \<Rightarrow> world option" where
  "srv_ProcessDbTopQuery pc z w =
     (case pc_top pc (app_data (transApp (w_svr w))) of
        None \<Rightarrow> Some w
      | Some (key, rank) \<Rightarrow> do {
          (it, d) \<leftarrow> db_GetMemByRank key rank (w_db w);
          rsp \<leftarrow> (if sl_itr_eq it db_end then Some (TopRsp (-1) (strErr d) None)
            else do {
              t \<leftarrow> db_FindSSet key d;
              n \<leftarrow> sl_deref (ss_sl t) it;
              Some (TopRsp 0 '''' (Some \<lparr>md_score = n_score n, md_data = d_val (n_data n)\<rparr>))
            });
          Some (srv_Respone pc z rsp (w\<lparr>w_db := d\<rparr>))
        })"

section \<open>Receiving\<close>

definition srv_ProcessMQMsg :: "srv_codec \<Rightarrow> zmq \<Rightarrow> (nat \<Rightarrow> nat \<Rightarrow> int) \<Rightarrow> string \<Rightarrow> world \<Rightarrow> world option" where
  "srv_ProcessMQMsg pc z rnds data w =
     (case pc_trans pc data of
        None \<Rightarrow> Some (w\<lparr>w_svr := (w_svr w)\<lparr>transApp := trans_empty\<rparr>\<rparr>)
      | Some app \<Rightarrow>
          let w = w\<lparr>w_svr := (w_svr w)\<lparr>transApp := app\<rparr>\<rparr> in
          if cmd_id app = 0x1003 then srv_ProcessDbSet pc z rnds w
          else if cmd_id app = 0x1007 then srv_ProcessDbGetScore pc z w
          else if cmd_id app = 0x1011 then srv_ProcessDbRankQuery pc z w
          else if cmd_id app = 0x1013 then srv_ProcessDbRangeByRank pc z w
          else if cmd_id app = 0x1015 then srv_ProcessDbRangeByScore pc z w
          else if cmd_id app = 0x1017 then srv_ProcessDbTopQuery pc z w
          else Some w)"

fun srv_process_msgs :: "srv_codec \<Rightarrow> zmq \<Rightarrow> (nat \<Rightarrow> nat \<Rightarrow> nat \<Rightarrow> int) \<Rightarrow> nat \<Rightarrow> string list \<Rightarrow> world \<Rightarrow> world option" where
  "srv_process_msgs pc z rnds i [] w = Some w"
| "srv_process_msgs pc z rnds i (m # ms) w = do {
     w \<leftarrow> srv_ProcessMQMsg pc z (rnds i) m w;
     srv_process_msgs pc z rnds (Suc i) ms w
   }"

definition srv_ProcessMQRecv :: "srv_codec \<Rightarrow> zmq \<Rightarrow> (nat \<Rightarrow> nat \<Rightarrow> nat \<Rightarrow> int) \<Rightarrow> world \<Rightarrow> (int \<times> world) option" where
  "srv_ProcessMQRecv pc z rnds w =
     (let (msgs, q) = mq_RecvMsgs 10 (w_mq w); w = w\<lparr>w_mq := q\<rparr> in
      if length msgs \<le> 0 then Some (-1, w)
      else do { w \<leftarrow> srv_process_msgs pc z rnds 0 msgs w; Some (0, w) })"

text \<open>\<open>OnProc\<close> answers what \<open>ProcessMQRecv\<close> answers. \<open>OnInit\<close> after the configuration is
  read: a queue that cannot be bound ends it, a database file that cannot be loaded does not.\<close>

definition srv_OnInit ::
  "zmq \<Rightarrow> string \<Rightarrow> pb_codec \<Rightarrow> (nat \<Rightarrow> nat \<Rightarrow> int) \<Rightarrow> byte list option \<Rightarrow> int \<Rightarrow> world \<Rightarrow> (int \<times> world) option" where
  "srv_OnInit z pull_addr pb rnds content now w =
     (let (r, q) = mq_Init z pull_addr (w_mq w); w = w\<lparr>w_mq := q\<rparr> in
      if r < 0 then Some (-1, w)
      else do {
        (_, d) \<leftarrow> db_CheckDbFileAndLoad pb rnds content (w_db w);
        Some (0, w\<lparr>w_db := d, w_svr := (w_svr w)\<lparr>uiLastSaveTime := now, chilld_pid := -1\<rparr>\<rparr>)
      })"

section \<open>Answers of the handlers\<close>

fun rank_infos :: "64 word \<Rightarrow> (real \<times> string) list \<Rightarrow> rank_info list" where
  "rank_infos r [] = []"
| "rank_infos r ((score, m) # xs) =
     \<lparr>ri_rank = r, ri_data = \<lparr>md_score = score, md_data = m\<rparr>\<rparr> # rank_infos (r + 1) xs"

text \<open>What the bounded loop visits, in terms of the unbounded walk.\<close>

lemma range_loop_collect:
  assumes "sl_collect s it = Some ys" "sl_end s = Some e" "it_pos e = None"
  shows "srv_range_loop s mn num cnt it = Some (rank_infos (mn + cnt) (take (unat num - unat cnt) ys))"
  using assms(1)
proof (induction ys arbitrary: it cnt)
  case Nil
  then have "sl_itr_eq it e"
    using assms(2) by (subst (asm) sl_collect.simps) (auto split: if_splits bind_splits)
  then have "sl_itr_eq it db_end" using assms(3) by (simp add: sl_itr_eq_def db_end_def)
  then show ?case by (subst srv_range_loop.simps) simp
next
  case (Cons y ys)
  have ne: "\<not> sl_itr_eq it e"
    using Cons.prems assms(2) by (subst (asm) sl_collect.simps) (auto split: if_splits)
  then have ne': "\<not> sl_itr_eq it db_end" using assms(3) by (simp add: sl_itr_eq_def db_end_def)
  obtain n it' where n: "sl_deref s it = Some n" "sl_itr_next s it = Some it'"
      "y = (n_score n, d_val (n_data n))" "sl_collect s it' = Some ys"
    using Cons.prems assms(2) ne by (subst (asm) sl_collect.simps) (auto split: bind_splits)
  show ?case
  proof (cases "cnt < num")
    case True
    then have u: "unat (cnt + 1) = Suc (unat cnt)" "unat cnt < unat num"
      using unat_succ_below [of cnt num] by (simp_all add: word_less_nat_alt)
    then obtain k where k: "unat num - unat cnt = Suc k" "unat num - unat (cnt + 1) = k"
      by (metis Suc_diff_Suc)
    show ?thesis
      using Cons.IH [OF n(4), of "cnt + 1"] True n ne' k
      by (subst srv_range_loop.simps) (simp add: node_info_def add.assoc)
  next
    case False
    then show ?thesis by (subst srv_range_loop.simps) (simp add: word_less_nat_alt)
  qed
qed

lemma sl_end_holds: "sl_holds s xs \<Longrightarrow> xs \<noteq> [] \<Longrightarrow> sl_end s = Some \<lparr>it_pos = None, it_end = None\<rparr>"
  by (auto simp: sl_holds_def rep_iterator(2))

definition set_scores :: "mem_data list \<Rightarrow> (string \<Rightarrow> real option) \<Rightarrow> string \<Rightarrow> real option" where
  "set_scores xs f = fold (\<lambda>x f. f(md_data x \<mapsto> md_score x)) xs f"

definition set_ops :: "(nat \<Rightarrow> nat \<Rightarrow> int) \<Rightarrow> nat \<Rightarrow> string \<Rightarrow> mem_data list \<Rightarrow> db_op list" where
  "set_ops rnds i key xs = map (\<lambda>(j, x). DbInsert (rnds j) key (md_score x) (md_data x)) (enumerate i xs)"

lemma set_loop_holds:
  assumes "db_holds d m"
    and "maps_distinct m (set_ops rnds i key xs)"
  shows "\<exists>d'. srv_set_loop rnds i key xs n d = Some (n + int (length xs), d')
    \<and> db_holds d' (m(key := set_scores xs (m key)))"
  using assms
proof (induction xs arbitrary: i n d m)
  case (Cons x xs)
  let ?m = "m(key := (m key)(md_data x \<mapsto> md_score x))"
  obtain d1 where d1: "db_Insert (rnds i) key (md_score x) (md_data x) d = Some (True, d1)" "db_holds d1 ?m"
    using db_Insert_holds [OF Cons.prems(1), of key] maps_distinctD [OF Cons.prems(2)] by blast
  have "maps_distinct ?m (set_ops rnds (Suc i) key xs)"
    using Cons.prems(2) by (simp add: set_ops_def)
  moreover have "?m(key := set_scores xs (?m key)) = m(key := set_scores (x # xs) (m key))"
    by (simp add: set_scores_def)
  ultimately show ?case using Cons.IH [OF d1(2), of "Suc i" "n + 1"] d1(1) by (auto simp del: fun_upd_apply)
qed (simp add: set_scores_def)

lemma ProcessDbSet_holds:
  assumes "pc_set pc (app_data (transApp (w_svr w))) = Some (key, xs)"
    and "db_holds (w_db w) m" "maps_distinct m (set_ops rnds 0 key xs)"
  shows "\<exists>d. srv_ProcessDbSet pc z rnds w
      = Some (srv_Respone pc z (SetBatchRsp 0 '''' (int (length xs))) (w\<lparr>w_db := d\<rparr>))
    \<and> db_holds d (m(key := set_scores xs (m key)))"
  using set_loop_holds [OF assms(2,3), of 0] assms(1) by (auto simp: srv_ProcessDbSet_def)

section \<open>The background save\<close>

text \<open>\<open>fork\<close>, if it is called, answers \<open>childpid\<close>: 0 in the child, the child's id in the parent,
  less than 0 when it fails. The parent's part of \<open>BgSaveDb\<close>: its result, whether it called
  \<open>fork\<close>, and its state; and the exit code of the child with the file it leaves.\<close>

definition srv_BgSaveDb :: "int \<Rightarrow> int \<Rightarrow> server \<Rightarrow> int \<times> bool \<times> server" where
  "srv_BgSaveDb childpid now v =
     (if chilld_pid v \<noteq> -1 then (-1, False, v)
      else if childpid < 0 then (-1, True, v)
      else (0, True, v\<lparr>chilld_pid := childpid, uiForkStartTime := now\<rparr>))"

definition srv_save_child ::
  "pb_codec \<Rightarrow> save_env \<Rightarrow> string \<Rightarrow> string list \<Rightarrow> world \<Rightarrow> (int \<times> byte list option) option" where
  "srv_save_child pb env now ks w = do {
     let w = w\<lparr>w_mq := mq_CloseAll (w_mq w)\<rparr>;
     (retval, content) \<leftarrow> db_SaveToFile pb env now ks (w_db w);
     Some (if retval < 0 then 1 else 0, content)
   }"

datatype exit_status = Exited int | Killed int

text \<open>\<open>wait3\<close>, if it is called, answers the child that ended, if one did. The result is whether
  \<open>wait3\<close> was called, whether the temporary file is removed, and the server's state.\<close>

definition srv_WaitChilen :: "(int \<times> exit_status) option \<Rightarrow> int \<Rightarrow> server \<Rightarrow> bool \<times> bool \<times> server" where
  "srv_WaitChilen wait3 now v =
     (if chilld_pid v \<noteq> -1 then
        (case wait3 of
           None \<Rightarrow> (True, False, v)
         | Some (pid, st) \<Rightarrow>
             let (rm, v) =
               (case st of
                  Exited c \<Rightarrow> (False, if c = 0 then v\<lparr>uiLastSaveTime := now\<rparr> else v)
                | Killed sig \<Rightarrow> (True, v));
                 v = v\<lparr>chilld_pid := -1\<rparr>
             in (True, rm, v\<lparr>uiSaveTimeSpan := now - uiForkStartTime v, uiForkStartTime := -1\<rparr>))
      else (False, False, v))"

text \<open>\<open>static_cast<int>(now - uiLastSaveTime) > persistend_time_\<close>\<close>

definition srv_save_due :: "int \<Rightarrow> int \<Rightarrow> server \<Rightarrow> bool" where
  "srv_save_due persistend_time now v \<longleftrightarrow> sint (of_int (now - uiLastSaveTime v) :: 32 word) > persistend_time"

text \<open>Whether \<open>fork\<close> was called, and the state.\<close>

definition srv_OnIdle :: "int \<Rightarrow> int \<Rightarrow> int \<Rightarrow> server \<Rightarrow> bool \<times> server" where
  "srv_OnIdle persistend_time childpid now v =
     (if srv_save_due persistend_time now v then snd (srv_BgSaveDb childpid now v) else (False, v))"

text \<open>The server and its operating system: the children that run, those that ended and wait
  to be waited for, and how many were ever forked. A child that ends while \<open>SIGCHLD\<close> is
  ignored leaves nothing to wait for, so that \<open>wait3\<close> never answers it.

  The operating system has no view of the server's variables: it answers any call of \<open>fork\<close> with
  a failure or a new child's id, and any call of \<open>wait3\<close> with one of the children that ended, or
  with none when there is none. Whether these are called at all is for the handlers to say.\<close>

record bg =
  bg_svr :: server
  bg_sigchld :: handler
  bg_run :: "int set"
  bg_dead :: "(int \<times> exit_status) set"
  bg_forks :: nat

definition bg_forked :: "int \<Rightarrow> bool \<Rightarrow> bg \<Rightarrow> bg" where
  "bg_forked pid called b =
     (if called \<and> 0 < pid then b\<lparr>bg_run := insert pid (bg_run b), bg_forks := Suc (bg_forks b)\<rparr> else b)"

definition bg_waited :: "(int \<times> exit_status) option \<Rightarrow> bool \<Rightarrow> bg \<Rightarrow> bg" where
  "bg_waited ans called b = (if called then b\<lparr>bg_dead := bg_dead b - set_option ans\<rparr> else b)"

inductive bg_step :: "bg \<Rightarrow> bg \<Rightarrow> bool" where
  idle: "pid < 0 \<or> (0 < pid \<and> pid \<notin> bg_run b \<and> pid \<notin> fst ` bg_dead b)
    \<Longrightarrow> srv_OnIdle p pid now (bg_svr b) = (called, v)
    \<Longrightarrow> bg_step b (bg_forked pid called (b\<lparr>bg_svr := v\<rparr>))"
| child_ends: "pid \<in> bg_run b
    \<Longrightarrow> bg_step b (b\<lparr>bg_run := bg_run b - {pid},
          bg_dead := (if bg_sigchld b = SIG_IGN then bg_dead b else insert (pid, st) (bg_dead b))\<rparr>)"
| tick: "(case ans of None \<Rightarrow> bg_dead b = {} | Some c \<Rightarrow> c \<in> bg_dead b)
    \<Longrightarrow> srv_WaitChilen ans now (bg_svr b) = (called, rm, v)
    \<Longrightarrow> bg_step b (bg_waited ans called (b\<lparr>bg_svr := v\<rparr>))"

inductive_cases bg_stepE: "bg_step b b'"

definition bg_init :: "handler \<Rightarrow> server \<Rightarrow> bg" where
  "bg_init h v = \<lparr>bg_svr = v\<lparr>chilld_pid := -1\<rparr>, bg_sigchld = h, bg_run = {}, bg_dead = {}, bg_forks = 0\<rparr>"

inductive bg_reach :: "handler \<Rightarrow> server \<Rightarrow> bg \<Rightarrow> bool" for h v where
  bg_start: "bg_reach h v (bg_init h v)"
| bg_more: "bg_reach h v b \<Longrightarrow> bg_step b b' \<Longrightarrow> bg_reach h v b'"

lemma WaitChilen_pid:
  "srv_WaitChilen ans now v = (called, rm, v') \<Longrightarrow> (called \<longleftrightarrow> chilld_pid v \<noteq> -1)
    \<and> chilld_pid v' = (if ans = None then chilld_pid v else -1)"
  by (auto simp: srv_WaitChilen_def Let_def split: exit_status.splits prod.splits option.splits if_splits)

lemma OnIdle_pid:
  "srv_OnIdle p pid now v = (called, v') \<Longrightarrow> (called \<longrightarrow> chilld_pid v = -1)
    \<and> chilld_pid v' = (if called \<and> 0 \<le> pid then pid else chilld_pid v)"
  by (auto simp: srv_OnIdle_def srv_BgSaveDb_def split: if_splits)

text \<open>The children not waited for: at most one, and then the one the server remembers.\<close>

definition bg_inv :: "bg \<Rightarrow> bool" where
  "bg_inv b \<longleftrightarrow>
     (if chilld_pid (bg_svr b) = -1 then bg_run b = {} \<and> bg_dead b = {}
      else bg_run b = {chilld_pid (bg_svr b)} \<and> bg_dead b = {}
        \<or> bg_run b = {} \<and> (\<exists>st. bg_dead b = {(chilld_pid (bg_svr b), st)})
        \<or> bg_sigchld b = SIG_IGN \<and> bg_run b = {} \<and> bg_dead b = {})
     \<and> (bg_sigchld b = SIG_IGN \<longrightarrow> bg_dead b = {} \<and> bg_forks b = (if chilld_pid (bg_svr b) = -1 then 0 else 1))"

lemma bg_step_inv: "bg_step b b' \<Longrightarrow> bg_inv b \<Longrightarrow> bg_inv b'"
proof (induction rule: bg_step.induct)
  case (idle pid b p now called v)
  then show ?case using OnIdle_pid [OF idle(2)] by (auto simp: bg_inv_def bg_forked_def)
next
  case (child_ends pid b st)
  then show ?case by (auto simp: bg_inv_def split: if_splits)
next
  case (tick ans b now called rm v)
  then show ?case using WaitChilen_pid [OF tick(2)]
    by (auto simp: bg_inv_def bg_waited_def split: if_splits option.splits)
qed

lemma bg_step_sigchld: "bg_step b b' \<Longrightarrow> bg_sigchld b' = bg_sigchld b"
  by (induction rule: bg_step.induct) (auto simp: bg_forked_def bg_waited_def)

lemma bg_step_forks: "bg_step b b' \<Longrightarrow> bg_forks b \<le> bg_forks b'"
  by (induction rule: bg_step.induct) (auto simp: bg_forked_def bg_waited_def)

lemma bg_reach_inv: "bg_reach h v b \<Longrightarrow> bg_inv b \<and> bg_sigchld b = h"
proof (induction rule: bg_reach.induct)
  case bg_start
  then show ?case by (simp add: bg_inv_def bg_init_def)
next
  case (bg_more b b')
  then show ?case by (auto simp: bg_step_sigchld intro: bg_step_inv)
qed

section \<open>A concrete server\<close>

text \<open>Parsers that know one request each, and a world over the sample database.\<close>

definition sample_pc :: srv_codec where
  "sample_pc = \<lparr>pc_trans = (\<lambda>_. None), pc_set = (\<lambda>_. Some (''k'', [\<lparr>md_score = 5, md_data = ''b''\<rparr>])),
     pc_mems = (\<lambda>_. None), pc_range = (\<lambda>_. Some (''k'', 1, 7)), pc_top = (\<lambda>_. None),
     ser_rsp = (\<lambda>_. ''r''), ser_trans = (\<lambda>_. ''t'')\<rparr>"

definition sample_zmq :: zmq where
  "sample_zmq = \<lparr>zmq_bind = (\<lambda>_. 0), zmq_connect = (\<lambda>_. 0), zmq_send = (\<lambda>_ _. 1)\<rparr>"

definition sample_world :: world where
  "sample_world = \<lparr>w_svr = \<lparr>transApp = trans_empty, uiLastSaveTime = 0, chilld_pid = -1,
     uiForkStartTime = 0, uiSaveTimeSpan = 0\<rparr>, w_db = sample_db, w_mq = mq_new\<rparr>"

lemma sample_db_holds: "db_holds sample_db ((\<lambda>_. Map.empty)(''k'' := [''a'' \<mapsto> 3]))"
  using db_Insert_holds [of db_new "\<lambda>_. Map.empty" "''k''" rand_flat 3 "''a''"]
  by (auto simp: sample_db_def db_holds_def db_new_def scores_distinct_def)

lemma sample_db_set:
  obtains t where "db_dict sample_db ''k'' = Some t" "ss_ok t [(3, ''a'')]" "sl_lenth (ss_sl t) = 1"
proof -
  have "map_option (\<lambda>t. sl_lenth (ss_sl t)) (db_dict sample_db ''k'') = Some 1" by code_simp
  then obtain t where t: "db_dict sample_db ''k'' = Some t" "sl_lenth (ss_sl t) = 1" by auto
  from db_holds_Some [OF sample_db_holds t(1)] obtain xs where xs: "ss_dict t ''a'' = Some 3" "ss_ok t xs"
    by (metis fun_upd_same)
  then have "(3, ''a'') \<in> set xs" using ss_okD(4) [OF xs(2), of "''a''" 3] by simp
  then have "xs \<noteq> []" by auto
  then have "sl_contents (ss_sl t) = Some xs" by (rule contents_holds [OF ss_okD(1) [OF xs(2)]])
  moreover have "db_items sample_db ''k'' = [(3, ''a'')]" by code_simp
  ultimately have "xs = [(3, ''a'')]" using t(1) by (simp add: db_items_def)
  with t xs(2) that show ?thesis by simp
qed

section \<open>Properties\<close>

text \<open>Setting a batch of members: every member is inserted, the reply counts them all,
  and the database afterwards holds the new scores of that key (the last one for a member
  that occurs twice) and everything else as before.\<close>

theorem srv_set_batch:
  assumes "pc_set pc (app_data (transApp (w_svr w))) = Some (key, xs)"
    and "db_holds (w_db w) m" "maps_distinct m (set_ops rnds 0 key xs)"
  shows "\<exists>d. srv_ProcessDbSet pc z rnds w
      = Some (srv_Respone pc z (SetBatchRsp 0 '''' (int (length xs))) (w\<lparr>w_db := d\<rparr>))
    \<and> db_holds d (m(key := set_scores xs (m key)))"
  using ProcessDbSet_holds [OF assms] .

theorem srv_set_batch_witness:
  "\<exists>d. srv_ProcessDbSet sample_pc sample_zmq (\<lambda>_. rand_flat) sample_world
      = Some (srv_Respone sample_pc sample_zmq (SetBatchRsp 0 '''' 1) (sample_world\<lparr>w_db := d\<rparr>))"
proof -
  have "maps_distinct ((\<lambda>_. Map.empty)(''k'' := [''a'' \<mapsto> 3]))
      (set_ops (\<lambda>_. rand_flat) 0 ''k'' [\<lparr>md_score = 5, md_data = ''b''\<rparr>])"
    by (simp add: set_ops_def scores_distinct_def)
  moreover have "db_holds (w_db sample_world) ((\<lambda>_. Map.empty)(''k'' := [''a'' \<mapsto> 3]))"
    using sample_db_holds by (simp add: sample_world_def)
  moreover have "pc_set sample_pc (app_data (transApp (w_svr sample_world)))
      = Some (''k'', [\<lparr>md_score = 5, md_data = ''b''\<rparr>])"
    by (simp add: sample_pc_def)
  ultimately show ?thesis
    using srv_set_batch [of sample_pc sample_world "''k''" "[\<lparr>md_score = 5, md_data = ''b''\<rparr>]"] by fastforce
qed

text \<open>C26. A range query by rank: for ranks from \<open>mn\<close> to \<open>mx\<close> that start inside the set the
  reply lists the members of the sorted set at the positions \<open>mn\<close>, \<open>mn + 1\<close>, up to \<open>mx\<close> or the
  end of the set, each with its rank and score.\<close>

theorem srv_range_by_rank:
  assumes "pc_range pc (app_data (transApp (w_svr w))) = Some (key, mn, mx)"
    and "db_dict (w_db w) key = Some t" "ss_ok t xs" "length xs < 2 ^ 31"
    and "length xs \<le> unat (sl_lenth (ss_sl t))" "0 < mn" "mn \<le> mx" "unat mn \<le> length xs"
  shows "srv_ProcessDbRangeByRank pc z w = Some (srv_Respone pc z
     (RangeRsp 0 ''Succ.'' (rank_infos mn (take (Suc (unat mx - unat mn)) (drop (unat mn - 1) xs))))
     (w\<lparr>w_db := (w_db w)\<lparr>strErr := ''''\<rparr>\<rparr>))"
proof -
  have h: "sl_holds (ss_sl t) xs" by (rule ss_okD(1) [OF assms(3)])
  have m: "0 < unat mn" using assms(6) by (simp add: word_less_nat_alt)
  then have ne: "xs \<noteq> []" using assms(8) by auto
  let ?rng = "\<lparr>r_min = mn, r_max = mx\<rparr>"
  have "0 < r_min ?rng" using assms(6) by simp
  then obtain it where it: "sl_FirstInRangeByIdx ?rng (ss_sl t) = Some it"
      "sl_points (ss_sl t) it (Some (xs ! (unat mn - 1)))"
      "sl_collect (ss_sl t) it = Some (drop (unat mn - 1) xs)"
    using FirstInRangeByIdx_from [OF h assms(4,5) ne, of ?rng] assms(7,8) by auto
  note e = sl_end_holds [OF h ne]
  have out: "\<not> sl_itr_eq it db_end" using it(2) by (auto simp: sl_points_def sl_itr_eq_def db_end_def)
  then have "\<not> sl_itr_eq \<lparr>it_pos = None, it_end = None\<rparr> it" by (auto simp: sl_itr_eq_def db_end_def)
  then have first: "db_GetMemsFirstByRank key mn mx (w_db w) = Some (it, (w_db w)\<lparr>strErr := ''''\<rparr>)"
    using it(1) e assms(2)
    by (simp add: db_GetMemsFirstByRank_def db_FindSSet_def ss_GetMemsFirstByRank_def ss_end_def)
  have le: "unat mn \<le> unat mx" using assms(7) by (simp add: word_le_nat_alt)
  have "unat (mx - mn) = unat mx - unat mn" using assms(7) by (simp add: unat_sub)
  moreover have "unat (mx - mn) < unat mx" using calculation m le by simp
  ultimately have "unat (mx - mn + 1) = Suc (unat mx - unat mn)"
    using unat_succ_below [of "mx - mn" mx] by simp
  moreover have "\<not> mn > mx" using assms(7) by simp
  ultimately show ?thesis
    using range_loop_collect [OF it(3) e, of mn "mx - mn + 1" 0] assms(1,2) first out
    by (simp add: srv_ProcessDbRangeByRank_def db_FindSSet_def)
qed

theorem srv_range_by_rank_witness:
  "srv_ProcessDbRangeByRank sample_pc sample_zmq sample_world = Some (srv_Respone sample_pc sample_zmq
     (RangeRsp 0 ''Succ.'' [\<lparr>ri_rank = 1, ri_data = \<lparr>md_score = 3, md_data = ''a''\<rparr>\<rparr>])
     (sample_world\<lparr>w_db := sample_db\<lparr>strErr := ''''\<rparr>\<rparr>))"
proof -
  obtain t where t: "db_dict sample_db ''k'' = Some t" "ss_ok t [(3, ''a'')]" "sl_lenth (ss_sl t) = 1"
    by (rule sample_db_set)
  then show ?thesis
    using srv_range_by_rank [of sample_pc sample_world "''k''" 1 7 t "[(3, ''a'')]" sample_zmq]
    by (simp add: sample_world_def sample_pc_def)
qed

text \<open>C35. With \<open>SIGCHLD\<close> ignored, as the framework sets it, the server starts at most one
  background save in its life, in whatever order idle calls, ticks and the end of the child come
  and whatever \<open>fork\<close> answers: once a child was forked, no tick ever clears its id (\<open>wait3\<close> finds
  no child that ended), and \<open>BgSaveDb\<close> does not call \<open>fork\<close> again while an id is remembered.\<close>

theorem srv_saves_once:
  assumes "bg_reach (app_InitSigHandler d SIGCHLD) v b"
  shows "bg_forks b \<le> 1 \<and> (bg_forks b = 1 \<longrightarrow> bg_step b b' \<longrightarrow> bg_forks b' = 1)"
proof -
  have ign: "app_InitSigHandler d SIGCHLD = SIG_IGN" by (simp add: app_InitSigHandler_def Let_def)
  have inv: "bg_inv b" "bg_sigchld b = SIG_IGN" using bg_reach_inv [OF assms] ign by simp_all
  have "bg_forks b' = 1" if "bg_forks b = 1" "bg_step b b'"
  proof -
    have "bg_inv b'" "bg_sigchld b' = SIG_IGN"
      using bg_step_inv [OF that(2) inv(1)] bg_step_sigchld [OF that(2)] inv(2) by simp_all
    moreover have "bg_forks b \<le> bg_forks b'" by (rule bg_step_forks [OF that(2)])
    ultimately show ?thesis using that(1) by (auto simp: bg_inv_def split: if_splits)
  qed
  with inv show ?thesis by (auto simp: bg_inv_def)
qed

definition sample_forked :: "handler \<Rightarrow> bg" where
  "sample_forked h = bg_forked 9 True ((bg_init h (w_svr sample_world))\<lparr>bg_svr := snd (srv_OnIdle 60 9 100 (w_svr sample_world))\<rparr>)"

lemma sample_fork: "bg_reach h (w_svr sample_world) (sample_forked h)"
proof -
  let ?v = "w_svr sample_world"
  have v: "?v\<lparr>chilld_pid := -1\<rparr> = ?v" "srv_OnIdle 60 9 100 ?v = (True, snd (srv_OnIdle 60 9 100 ?v))"
    by (simp_all add: sample_world_def srv_OnIdle_def srv_save_due_def srv_BgSaveDb_def)
  have "bg_step (bg_init h ?v) (bg_forked 9 True ((bg_init h ?v)\<lparr>bg_svr := snd (srv_OnIdle 60 9 100 ?v)\<rparr>))"
  proof (rule idle)
    show "srv_OnIdle 60 9 100 (bg_svr (bg_init h ?v)) = (True, snd (srv_OnIdle 60 9 100 ?v))"
      using v by (simp add: bg_init_def)
  qed (simp add: bg_init_def)
  from bg_more [OF bg_start this] show ?thesis by (simp add: sample_forked_def)
qed

lemma sample_forked_fields: "bg_forks (sample_forked h) = 1" "bg_run (sample_forked h) = {9}" "bg_dead (sample_forked h) = {}"
  by (simp_all add: sample_forked_def bg_forked_def bg_init_def)

theorem srv_saves_once_witness:
  "\<exists>b. bg_reach SIG_IGN (w_svr sample_world) b \<and> bg_forks b = 1 \<and> (\<forall>b'. bg_step b b' \<longrightarrow> bg_forks b' = 1)"
proof -
  have h: "app_InitSigHandler (\<lambda>_. SIG_DFL) SIGCHLD = SIG_IGN" by (simp add: app_InitSigHandler_def Let_def)
  have r: "bg_reach (app_InitSigHandler (\<lambda>_. SIG_DFL) SIGCHLD) (w_svr sample_world) (sample_forked SIG_IGN)"
    unfolding h by (rule sample_fork)
  with h srv_saves_once [OF r] sample_forked_fields show ?thesis by (intro exI [of _ "sample_forked SIG_IGN"]) simp
qed

text \<open>Whatever the disposition of \<open>SIGCHLD\<close>, at every moment at most one child of the
  background save runs or waits to be waited for, and it is the one the server remembers.\<close>

theorem srv_one_child:
  assumes "bg_reach h v b"
  shows "(\<forall>pid \<in> bg_run b \<union> fst ` bg_dead b. pid = chilld_pid (bg_svr b)) \<and> (bg_run b = {} \<or> bg_dead b = {})"
  using bg_reach_inv [OF assms] by (auto simp: bg_inv_def split: if_splits)

theorem srv_one_child_witness:
  "\<exists>b. bg_reach SIG_DFL (w_svr sample_world) b \<and> bg_run b = {9} \<and> chilld_pid (bg_svr b) = 9 \<and> bg_dead b = {}"
proof -
  have "9 = chilld_pid (bg_svr (sample_forked SIG_DFL))"
    using srv_one_child [OF sample_fork [of SIG_DFL]] sample_forked_fields [of SIG_DFL] by simp
  with sample_fork [of SIG_DFL] sample_forked_fields [of SIG_DFL] show ?thesis by (intro exI [of _ "sample_forked SIG_DFL"]) simp
qed

text \<open>A missing key: the range query by score answers result -1 and the text of the
  database, the one by rank overwrites them and answers 0 and \<open>Succ.\<close> with no members.\<close>

theorem srv_range_missing_key:
  assumes "pc_range pc (app_data (transApp (w_svr w))) = Some (key, mn, mx)"
    and "db_dict (w_db w) key = None"
  shows "\<exists>d. srv_ProcessDbRangeByScore pc z w
      = Some (srv_Respone pc z (RangeByScoreRsp (-1) ''Key is not exist!'' []) (w\<lparr>w_db := d\<rparr>))
    \<and> srv_ProcessDbRangeByRank pc z w = Some (srv_Respone pc z (RangeRsp 0 ''Succ.'' []) (w\<lparr>w_db := d\<rparr>))"
  using assms
  by (intro exI [of _ "(w_db w)\<lparr>strErr := ''Key is not exist!''\<rparr>"])
    (simp add: srv_ProcessDbRangeByScore_def srv_ProcessDbRangeByRank_def db_GetMemsByScore_def
      db_GetMemsFirstByRank_def db_FindSSet_def sl_itr_eq_def)

theorem srv_range_missing_key_witness:
  "\<exists>d. srv_ProcessDbRangeByRank sample_pc sample_zmq (sample_world\<lparr>w_db := db_new\<rparr>)
      = Some (srv_Respone sample_pc sample_zmq (RangeRsp 0 ''Succ.'' []) (sample_world\<lparr>w_db := d\<rparr>))"
  using srv_range_missing_key [of sample_pc "sample_world\<lparr>w_db := db_new\<rparr>" "''k''" 1 7 sample_zmq]
  by (auto simp: sample_pc_def db_new_def)

end
