(* ===== verification/ServerRun.thy ===== *)
theory ServerRun
  imports Server
begin

text \<open>
  The server process as a whole: the loop of \<open>ApplicationBase::Run\<close> calling the server's
  \<open>OnProc\<close>, \<open>OnTick\<close>, \<open>OnIdle\<close>, \<open>OnReload\<close>, \<open>OnStop\<close> and \<open>OnExit\<close>, with the database file, the one
  temporary file, and the children that save in the background. A save is the sequence of its system
  calls on these files; the steps of children and of the save at the exit interleave freely. What
  the messages taken from the queue make of the database is a function on score maps, and what is
  saved at the exit, with no child saving, is loaded by the next start.
\<close>

section \<open>The callbacks\<close>

definition srv_OnProc :: "srv_codec \<Rightarrow> zmq \<Rightarrow> (nat \<Rightarrow> nat \<Rightarrow> nat \<Rightarrow> int) \<Rightarrow> world \<Rightarrow> (int \<times> world) option" where
  "srv_OnProc pc z rnds w = srv_ProcessMQRecv pc z rnds w"

text \<open>Whether the temporary file is removed, and the server.\<close>

definition srv_OnTick :: "(int \<times> exit_status) option \<Rightarrow> int \<Rightarrow> world \<Rightarrow> bool \<times> world" where
  "srv_OnTick wait3 now w = (let (_, rm, v) = srv_WaitChilen wait3 now (w_svr w) in (rm, w\<lparr>w_svr := v\<rparr>))"

definition srv_OnStop :: "world \<Rightarrow> world" where "srv_OnStop w = w"

definition srv_CloseAllListenSockets :: "world \<Rightarrow> world" where
  "srv_CloseAllListenSockets w = w\<lparr>w_mq := mq_CloseAll (w_mq w)\<rparr>"

text \<open>The content the save puts into the database file, if it gets as far as the renaming.\<close>

definition srv_OnExit :: "pb_codec \<Rightarrow> save_env \<Rightarrow> string \<Rightarrow> string list \<Rightarrow> world \<Rightarrow> (int \<times> byte list option) option" where
  "srv_OnExit pb env now ks w = do { (_, content) \<leftarrow> db_SaveToFile pb env now ks (w_db w); Some (0, content) }"

section \<open>The two files\<close>

text \<open>The names \<open>db_file_.tmp\<close> and \<open>db_file_\<close> and the files behind them. Two processes that open the
  same name write into the same file, each at its own position; renaming moves a name only.\<close>

record files =
  f_tmp :: "nat option"
  f_db :: "nat option"
  f_data :: "nat \<Rightarrow> byte list"
  f_next :: nat

text \<open>Mode \<open>w\<close>: the file of that name is emptied, or a new one made.\<close>

definition files_open :: "files \<Rightarrow> nat \<times> files" where
  "files_open fs = (case f_tmp fs of
      Some i \<Rightarrow> (i, fs\<lparr>f_data := (f_data fs)(i := [])\<rparr>)
    | None \<Rightarrow> (f_next fs, fs\<lparr>f_tmp := Some (f_next fs), f_data := (f_data fs)(f_next fs := []), f_next := f_next fs + 1\<rparr>))"

definition files_write :: "nat \<Rightarrow> nat \<Rightarrow> byte list \<Rightarrow> files \<Rightarrow> files" where
  "files_write i pos bs fs = (let old = f_data fs i in
     fs\<lparr>f_data := (f_data fs)(i := take pos (old @ replicate (pos - length old) 0) @ bs @ drop (pos + length bs) old)\<rparr>)"

definition files_rename :: "files \<Rightarrow> files" where
  "files_rename fs = (case f_tmp fs of None \<Rightarrow> fs | Some i \<Rightarrow> fs\<lparr>f_db := Some i, f_tmp := None\<rparr>)"

definition files_unlink :: "files \<Rightarrow> files" where
  "files_unlink fs = fs\<lparr>f_tmp := None\<rparr>"

definition files_db :: "files \<Rightarrow> byte list option" where
  "files_db fs = map_option (f_data fs) (f_db fs)"

text \<open>A save in progress, as the system calls of \<open>SaveToFile\<close> see it: it opens the temporary
  file, writes the bytes it still has in pieces of any size, and in the end renames the file,
  removes it (the renaming failed) or leaves it (something failed before).\<close>

datatype save_end = Rename | Unlink | Leave

datatype saver = Save_start "byte list" save_end | Save_write nat nat "byte list" save_end | Save_over

fun save_finish :: "save_end \<Rightarrow> files \<Rightarrow> files" where
  "save_finish Rename fs = files_rename fs"
| "save_finish Unlink fs = files_unlink fs"
| "save_finish Leave fs = fs"

fun saver_step :: "nat \<Rightarrow> saver \<times> files \<Rightarrow> saver \<times> files" where
  "saver_step n (Save_start bs e, fs) = (let (i, fs) = files_open fs in (Save_write i 0 bs e, fs))"
| "saver_step n (Save_write i pos bs e, fs) =
     (if bs = [] then (Save_over, save_finish e fs)
      else (Save_write i (pos + length (take (Suc n) bs)) (drop (Suc n) bs) e, files_write i pos (take (Suc n) bs) fs))"
| "saver_step n (Save_over, fs) = (Save_over, fs)"

text \<open>The save that puts \<open>content\<close> into the file; if it fails, \<open>failed\<close> says whether it got the
  temporary file open, with which bytes written, and whether it removes the file.\<close>

definition saver_of :: "byte list option \<Rightarrow> (byte list \<times> bool) option \<Rightarrow> saver" where
  "saver_of content failed = (case content of
      Some bs \<Rightarrow> Save_start bs Rename
    | None \<Rightarrow> (case failed of None \<Rightarrow> Save_over | Some (bs, rm) \<Rightarrow> Save_start bs (if rm then Unlink else Leave)))"

section \<open>The process\<close>

text \<open>A child makes a step of its save (with a piece of some size), or dies.\<close>

datatype child_act = Child_step nat nat | Child_dies nat

text \<open>During the exit the server's own save runs beside the children.\<close>

datatype exit_act = Own_step nat | Of_child child_act

text \<open>What comes from outside in a round: the messages that arrive, the results of \<open>rand\<close>, the time,
  what \<open>wait3\<close>, \<open>fork\<close> and the calls of a save answer, the order the hash map is walked in, what
  a failing save leaves, and what the children do.\<close>

record srv_in =
  si_arrived :: "string list"
  si_rnds :: "nat \<Rightarrow> nat \<Rightarrow> nat \<Rightarrow> int"
  si_now :: int
  si_ctime :: string
  si_wait3 :: "(int \<times> exit_status) option"
  si_fork :: int
  si_save :: save_env
  si_keys :: "string list"
  si_failed :: "(byte list \<times> bool) option"
  si_children :: "child_act list"
  si_exit :: "exit_act list"

record srv_sys =
  sy_world :: world
  sy_files :: files
  sy_children :: "saver list"

fun sy_child_act :: "child_act \<Rightarrow> srv_sys \<Rightarrow> srv_sys" where
  "sy_child_act (Child_step k n) s =
     (if k < length (sy_children s) then
        let (c, fs) = saver_step n (sy_children s ! k, sy_files s)
        in s\<lparr>sy_children := (sy_children s)[k := c], sy_files := fs\<rparr>
      else s)"
| "sy_child_act (Child_dies k) s = s\<lparr>sy_children := (sy_children s)[k := Save_over]\<rparr>"

definition sy_arrive :: "string list \<Rightarrow> srv_sys \<Rightarrow> srv_sys" where
  "sy_arrive ms s = s\<lparr>sy_world := (sy_world s)\<lparr>w_mq := (w_mq (sy_world s))\<lparr>mq_inbox := mq_inbox (w_mq (sy_world s)) @ ms\<rparr>\<rparr>\<rparr>"

text \<open>What happens outside in a round, before the server's callback.\<close>

definition sy_outside :: "srv_in \<Rightarrow> srv_sys \<Rightarrow> srv_sys" where
  "sy_outside e s = sy_arrive (si_arrived e) (fold sy_child_act (si_children e) s)"

definition sy_OnProc :: "srv_codec \<Rightarrow> zmq \<Rightarrow> srv_in \<Rightarrow> srv_sys \<Rightarrow> (int \<times> srv_sys) option" where
  "sy_OnProc pc z e s =
     (let s = sy_outside e s in
      do { (r, w) \<leftarrow> srv_OnProc pc z (si_rnds e) (sy_world s); Some (r, s\<lparr>sy_world := w\<rparr>) })"

definition sy_OnTick :: "srv_in \<Rightarrow> srv_sys \<Rightarrow> srv_sys" where
  "sy_OnTick e s =
     (let (rm, w) = srv_OnTick (si_wait3 e) (si_now e) (sy_world s); s = s\<lparr>sy_world := w\<rparr>
      in if rm then s\<lparr>sy_files := files_unlink (sy_files s)\<rparr> else s)"

text \<open>If \<open>OnIdle\<close> called \<open>fork\<close> and it answered a child, the child starts to save its copy of the
  database.\<close>

definition sy_OnIdle :: "pb_codec \<Rightarrow> int \<Rightarrow> srv_in \<Rightarrow> srv_sys \<Rightarrow> srv_sys" where
  "sy_OnIdle pb persistend_time e s =
     (let w = sy_world s;
          (called, v) = srv_OnIdle persistend_time (si_fork e) (si_now e) (w_svr w);
          s = s\<lparr>sy_world := w\<lparr>w_svr := v\<rparr>\<rparr>
      in if called \<and> 0 < si_fork e
         then s\<lparr>sy_children := sy_children s @
           [saver_of (Option.bind (srv_save_child pb (si_save e) (si_ctime e) (si_keys e) w) snd) (si_failed e)]\<rparr>
         else s)"

fun sy_exit_act :: "exit_act \<Rightarrow> saver \<times> srv_sys \<Rightarrow> saver \<times> srv_sys" where
  "sy_exit_act (Own_step n) (p, s) = (let (p, fs) = saver_step n (p, sy_files s) in (p, s\<lparr>sy_files := fs\<rparr>))"
| "sy_exit_act (Of_child a) (p, s) = (p, sy_child_act a s)"

text \<open>Opening, one write of all that is left, and the end.\<close>

definition saver_left :: "saver \<Rightarrow> nat" where
  "saver_left p = (case p of Save_start bs _ \<Rightarrow> length bs | Save_write _ _ bs _ \<Rightarrow> length bs | Save_over \<Rightarrow> 0)"

definition sy_complete :: "saver \<times> srv_sys \<Rightarrow> srv_sys" where
  "sy_complete ps = (let n = saver_left (fst ps) in snd (fold sy_exit_act [Own_step n, Own_step n, Own_step n] ps))"

text \<open>The exit ends when the server's own save is complete; children may go on after it.\<close>

definition sy_OnExit :: "pb_codec \<Rightarrow> srv_in \<Rightarrow> srv_sys \<Rightarrow> srv_sys option" where
  "sy_OnExit pb e s = do {
     (_, c) \<leftarrow> srv_OnExit pb (si_save e) (si_ctime e) (si_keys e) (sy_world s);
     Some (sy_complete (fold sy_exit_act (si_exit e) (saver_of c (si_failed e), s)))
   }"

text \<open>The virtual functions as the loop calls them; \<open>None\<close> stays undefined behaviour. The server
  has no \<open>OnReload\<close> of its own, the one of the framework does nothing.\<close>

definition srv_callbacks :: "srv_codec \<Rightarrow> pb_codec \<Rightarrow> zmq \<Rightarrow> int \<Rightarrow> srv_in \<Rightarrow> srv_sys option callbacks" where
  "srv_callbacks pc pb z persistend_time e =
     \<lparr>OnProc = (\<lambda>s. case Option.bind s (sy_OnProc pc z e) of None \<Rightarrow> (0, None) | Some (r, s) \<Rightarrow> (r, Some s)),
      OnTick = map_option (sy_OnTick e),
      OnIdle = map_option (sy_OnIdle pb persistend_time e),
      OnReload = map_option (sy_outside e),
      OnStop = map_option (\<lambda>s. s\<lparr>sy_world := srv_OnStop (sy_world s)\<rparr>),
      OnExit = (\<lambda>s. Option.bind s (sy_OnExit pb e))\<rparr>"

section \<open>A save that runs alone\<close>

text \<open>How far the save of \<open>bs\<close> is when no one else touches the temporary file.\<close>

fun saving :: "byte list \<Rightarrow> saver \<Rightarrow> files \<Rightarrow> bool" where
  "saving bs (Save_start bs' e) fs \<longleftrightarrow> bs' = bs \<and> e = Rename"
| "saving bs (Save_write i pos bs' e) fs \<longleftrightarrow> e = Rename \<and> f_tmp fs = Some i \<and> f_data fs i @ bs' = bs \<and> pos = length (f_data fs i)"
| "saving bs Save_over fs \<longleftrightarrow> files_db fs = Some bs"

lemma saving_step: "saving bs p fs \<Longrightarrow> saver_step n (p, fs) = (p', fs') \<Longrightarrow> saving bs p' fs'"
proof (cases p)
  case (Save_start bs' e)
  moreover assume "saving bs p fs" "saver_step n (p, fs) = (p', fs')"
  ultimately show ?thesis by (auto simp: files_open_def split: option.splits)
next
  case (Save_write i pos bs' e)
  moreover assume "saving bs p fs" "saver_step n (p, fs) = (p', fs')"
  ultimately show ?thesis by (auto simp: files_write_def files_rename_def files_db_def Let_def split: if_splits)
qed simp

lemma over_acts:
  assumes "\<forall>c \<in> set (sy_children s). c = Save_over"
  shows "sy_child_act a s = s"
proof -
  have same: "(sy_children s)[k := Save_over] = sy_children s" for k
    using assms by (metis list_update_beyond list_update_id not_less nth_mem)
  have nth: "k < length (sy_children s) \<Longrightarrow> sy_children s ! k = Save_over" for k
    using assms by simp
  show ?thesis using same nth by (cases a) simp_all
qed

lemma saving_acts:
  assumes "\<forall>c \<in> set (sy_children s). c = Save_over" "saving bs p (sy_files s)"
  shows "\<exists>p' fs. fold sy_exit_act as (p, s) = (p', s\<lparr>sy_files := fs\<rparr>) \<and> saving bs p' fs"
  using assms
proof (induction as arbitrary: p s)
  case Nil
  then show ?case by (intro exI [of _ p] exI [of _ "sy_files s"]) simp
next
  case (Cons a as)
  obtain p1 fs1 where 1: "sy_exit_act a (p, s) = (p1, s\<lparr>sy_files := fs1\<rparr>)" "saving bs p1 fs1"
  proof (cases a)
    case (Own_step n)
    obtain p1 fs1 where "saver_step n (p, sy_files s) = (p1, fs1)" by fastforce
    with Own_step saving_step [OF Cons.prems(2) this] that show ?thesis by simp
  next
    case (Of_child c)
    with over_acts [OF Cons.prems(1), of c] Cons.prems(2) that [of p "sy_files s"] show ?thesis by simp
  qed
  with Cons.IH [of "s\<lparr>sy_files := fs1\<rparr>" p1] Cons.prems(1) show ?case by auto
qed

text \<open>Three steps that may write everything complete a save.\<close>

lemma complete_over:
  assumes "fold sy_exit_act [Own_step n, Own_step n, Own_step n] (p, s) = (p', s')" "saver_left p \<le> n"
  shows "p' = Save_over"
  using assms by (cases p) (auto simp: saver_left_def split_beta Let_def split: if_splits)

lemma saving_completes:
  assumes "\<forall>c \<in> set (sy_children s). c = Save_over" "saving bs p (sy_files s)"
  shows "\<exists>fs. sy_complete (fold sy_exit_act as (p, s)) = s\<lparr>sy_files := fs\<rparr> \<and> files_db fs = Some bs"
proof -
  obtain p1 fs1 where 1: "fold sy_exit_act as (p, s) = (p1, s\<lparr>sy_files := fs1\<rparr>)" "saving bs p1 fs1"
    using saving_acts [OF assms, of as] by blast
  let ?n = "saver_left p1"
  have "\<forall>c \<in> set (sy_children (s\<lparr>sy_files := fs1\<rparr>)). c = Save_over" "saving bs p1 (sy_files (s\<lparr>sy_files := fs1\<rparr>))"
    using assms(1) 1(2) by simp_all
  then obtain p2 fs2 where 2: "fold sy_exit_act [Own_step ?n, Own_step ?n, Own_step ?n] (p1, s\<lparr>sy_files := fs1\<rparr>)
      = (p2, s\<lparr>sy_files := fs1\<rparr>\<lparr>sy_files := fs2\<rparr>)" "saving bs p2 fs2"
    using saving_acts by blast
  from complete_over [OF 2(1)] have "p2 = Save_over" by simp
  with 1(1) 2 show ?thesis by (auto simp: sy_complete_def Let_def)
qed

text \<open>A child that was forked before the exit and opens the temporary file only after it replaces
  whatever the exit saved by the older copy.\<close>

theorem late_child_replaces_the_file:
  assumes "k < length (sy_children s)" "sy_children s ! k = Save_start bs Rename"
  shows "files_db (sy_files (fold sy_child_act [Child_step k 0, Child_step k (length bs), Child_step k 0] s)) = Some bs"
  using assms
  by (auto simp: files_open_def files_write_def files_rename_def files_db_def Let_def split_beta split: option.splits)

section \<open>What the messages make of the database\<close>

text \<open>A message that is no set request changes no score.\<close>

definition msg_effect :: "srv_codec \<Rightarrow> string \<Rightarrow> score_maps \<Rightarrow> score_maps" where
  "msg_effect pc msg m = (case pc_trans pc msg of
      None \<Rightarrow> m
    | Some app \<Rightarrow> if cmd_id app = 0x1003
        then (case pc_set pc (app_data app) of None \<Rightarrow> m | Some (key, xs) \<Rightarrow> m(key := set_scores xs (m key)))
        else m)"

text \<open>Messages that are not empty, are no rank, range or top query, and keep the scores of a key distinct.\<close>

fun msgs_ok :: "srv_codec \<Rightarrow> score_maps \<Rightarrow> string list \<Rightarrow> bool" where
  "msgs_ok pc m [] \<longleftrightarrow> True"
| "msgs_ok pc m (msg # msgs) \<longleftrightarrow> msg \<noteq> [] \<and>
     (case pc_trans pc msg of
        None \<Rightarrow> True
      | Some app \<Rightarrow> cmd_id app \<notin> {0x1011, 0x1013, 0x1015, 0x1017} \<and>
          (cmd_id app = 0x1003 \<longrightarrow>
             (case pc_set pc (app_data app) of None \<Rightarrow> True | Some (key, xs) \<Rightarrow> maps_distinct m (set_ops (\<lambda>_ _. 0) 0 key xs))))
     \<and> msgs_ok pc (msg_effect pc msg m) msgs"

text \<open>The database holds the scores, and has a set exactly for the keys with members.\<close>

definition db_full :: "db \<Rightarrow> score_maps \<Rightarrow> bool" where
  "db_full d m \<longleftrightarrow> db_holds d m \<and> (\<forall>k. db_dict d k \<noteq> None \<longrightarrow> m k \<noteq> Map.empty)"

lemma maps_distinct_rnds: "maps_distinct m (set_ops rnds i key xs) = maps_distinct m (set_ops rnds' i' key xs)"
proof (induction xs arbitrary: i i' m)
  case (Cons x xs)
  have "set_ops r k key (x # xs) = DbInsert (r k) key (md_score x) (md_data x) # set_ops r (Suc k) key xs" for r k
    by (simp add: set_ops_def)
  then show ?case using Cons.IH [of _ "Suc i" "Suc i'"] by (simp only: maps_distinct.simps maps_step.simps snd_conv)
qed (simp add: set_ops_def)

lemma Insert_dict:
  "db_Insert rnd key score mem d = Some (ok, d') \<Longrightarrow> k \<noteq> key \<Longrightarrow> db_dict d' k = db_dict d k"
  by (auto simp: db_Insert_def db_set_sset_def db_FindSSet_def Let_def split: option.splits bind_splits prod.splits)

lemma set_loop_dict:
  "srv_set_loop rnds i key xs n d = Some (n', d') \<Longrightarrow> k \<noteq> key \<Longrightarrow> db_dict d' k = db_dict d k"
  by (induction xs arbitrary: i n d) (auto split: bind_splits dest: Insert_dict)

lemma set_scores_nonempty: "xs \<noteq> [] \<Longrightarrow> set_scores xs f \<noteq> Map.empty"
proof (induction xs arbitrary: f rule: rev_induct)
  case (snoc x xs)
  then show ?case by (auto simp: set_scores_def fun_eq_iff)
qed simp

lemma SendMsg_inbox: "mq_inbox (snd (mq_SendMsg z dest data q)) = mq_inbox q"
  by (auto simp: mq_SendMsg_def mq_AddDestConn_def Let_def split: option.splits)

lemma Respone_world: "w_db (srv_Respone pc z r w) = w_db w" "mq_inbox (w_mq (srv_Respone pc z r w)) = mq_inbox (w_mq w)"
  by (simp_all add: srv_Respone_def SendMsg_inbox Let_def)

lemma score_loop_dict: "db_dict (snd (srv_score_loop key ms d)) = db_dict d"
proof (induction ms arbitrary: d)
  case (Cons m ms)
  have "db_dict (snd (db_GetMemScore key m d)) = db_dict d" for m
    by (simp add: db_GetMemScore_def Let_def split: option.split)
  then show ?case using Cons by (simp add: split_beta Let_def)
qed simp

lemma db_full_dict: "db_full d m \<Longrightarrow> db_dict d' = db_dict d \<Longrightarrow> db_full d' m"
  by (simp add: db_full_def db_holds_def)

lemma ProcessMQMsg_full:
  assumes "db_full (w_db w) m" "msgs_ok pc m [msg]"
  shows "\<exists>w'. srv_ProcessMQMsg pc z rnds msg w = Some w' \<and> db_full (w_db w') (msg_effect pc msg m) \<and> mq_inbox (w_mq w') = mq_inbox (w_mq w)"
proof (cases "pc_trans pc msg")
  case None
  then show ?thesis using assms(1) by (simp add: srv_ProcessMQMsg_def msg_effect_def)
next
  case (Some app)
  let ?w = "w\<lparr>w_svr := (w_svr w)\<lparr>transApp := app\<rparr>\<rparr>"
  consider (set) "cmd_id app = 0x1003" | (score) "cmd_id app = 0x1007" | (other) "cmd_id app \<notin> {0x1003, 0x1007, 0x1011, 0x1013, 0x1015, 0x1017}"
    using assms(2) Some by auto
  then show ?thesis
  proof cases
    case set
    show ?thesis
    proof (cases "pc_set pc (app_data app)")
      case None
      then show ?thesis using Some set assms(1) by (simp add: srv_ProcessMQMsg_def srv_ProcessDbSet_def msg_effect_def)
    next
      case (Some kx)
      obtain key xs where kx: "kx = (key, xs)" by (cases kx)
      have dist: "maps_distinct m (set_ops rnds 0 key xs)"
        using assms(2) Some kx set \<open>pc_trans pc msg = Some app\<close> maps_distinct_rnds by fastforce
      have h: "db_holds (w_db ?w) m" using assms(1) by (simp add: db_full_def)
      obtain n d where d: "srv_set_loop rnds 0 key xs 0 (w_db w) = Some (n, d)" "db_holds d (m(key := set_scores xs (m key)))"
        using set_loop_holds [OF h dist, of 0] by auto
      have "db_full d (m(key := set_scores xs (m key)))"
        unfolding db_full_def
      proof (intro conjI allI impI)
        fix k assume k: "db_dict d k \<noteq> None"
        show "(m(key := set_scores xs (m key))) k \<noteq> Map.empty"
        proof (cases "k = key")
          case False
          then show ?thesis using k set_loop_dict [OF d(1) False] assms(1) by (simp add: db_full_def)
        next
          case True
          show ?thesis
          proof (cases "xs = []")
            case True
            then have "d = w_db w" using d(1) by simp
            then show ?thesis using k \<open>k = key\<close> True assms(1) by (simp add: db_full_def set_scores_def)
          qed (use \<open>k = key\<close> set_scores_nonempty in simp)
        qed
      qed (rule d(2))
      then show ?thesis using d(1) Some kx set \<open>pc_trans pc msg = Some app\<close>
        by (simp add: srv_ProcessMQMsg_def srv_ProcessDbSet_def msg_effect_def Respone_world)
    qed
  next
    case score
    then have eff: "msg_effect pc msg m = m" using Some by (simp add: msg_effect_def)
    show ?thesis
    proof (cases "pc_mems pc (app_data app)")
      case None
      then show ?thesis using Some score assms(1) eff by (simp add: srv_ProcessMQMsg_def srv_ProcessDbGetScore_def)
    next
      case (Some km)
      obtain key mems where "km = (key, mems)" by (cases km)
      then show ?thesis using Some score \<open>pc_trans pc msg = Some app\<close> eff
          db_full_dict [OF assms(1), of "snd (srv_score_loop key mems (w_db w))"] score_loop_dict [of key mems "w_db w"]
        by (simp add: srv_ProcessMQMsg_def srv_ProcessDbGetScore_def Respone_world split_beta)
    qed
  next
    case other
    then show ?thesis using Some assms(1) by (simp add: srv_ProcessMQMsg_def msg_effect_def)
  qed
qed

lemma process_msgs_full:
  "db_full (w_db w) m \<Longrightarrow> msgs_ok pc m msgs \<Longrightarrow>
    \<exists>w'. srv_process_msgs pc z rnds i msgs w = Some w' \<and> db_full (w_db w') (fold (msg_effect pc) msgs m) \<and> mq_inbox (w_mq w') = mq_inbox (w_mq w)"
proof (induction msgs arbitrary: i w m)
  case (Cons msg msgs)
  then obtain w1 where "srv_ProcessMQMsg pc z (rnds i) msg w = Some w1" "db_full (w_db w1) (msg_effect pc msg m)" "mq_inbox (w_mq w1) = mq_inbox (w_mq w)"
    using ProcessMQMsg_full [of w m pc msg] by fastforce
  then show ?case using Cons.IH [of w1 "msg_effect pc msg m" "Suc i"] Cons.prems(2) by auto
qed simp


lemma msgs_ok_append:
  "msgs_ok pc m (xs @ ys) \<longleftrightarrow> msgs_ok pc m xs \<and> msgs_ok pc (fold (msg_effect pc) xs m) ys"
  by (induction xs arbitrary: m) auto

lemma msgs_ok_nonempty: "msgs_ok pc m ms \<Longrightarrow> [] \<notin> set ms"
  by (induction ms arbitrary: m) auto

section \<open>The rounds of the loop\<close>

text \<open>What of the messages is in the database and what waits in the queue.\<close>

definition sy_inv :: "srv_codec \<Rightarrow> score_maps \<Rightarrow> string list \<Rightarrow> srv_sys \<Rightarrow> bool" where
  "sy_inv pc m arrived s \<longleftrightarrow> (\<exists>handled_msgs. arrived = handled_msgs @ mq_inbox (w_mq (sy_world s))
     \<and> db_full (w_db (sy_world s)) (fold (msg_effect pc) handled_msgs m))"

lemma sy_inv_world:
  "w_db (sy_world s') = w_db (sy_world s) \<Longrightarrow> mq_inbox (w_mq (sy_world s')) = mq_inbox (w_mq (sy_world s))
    \<Longrightarrow> sy_inv pc m arrived s' = sy_inv pc m arrived s"
  by (simp add: sy_inv_def)

lemma child_act_world: "sy_world (sy_child_act a s) = sy_world s"
  by (cases a) (simp_all add: Let_def split_beta)

lemma child_acts_world [simp]: "sy_world (fold sy_child_act as s) = sy_world s"
  by (induction as arbitrary: s) (simp_all add: child_act_world)

lemma outside_world:
  "w_db (sy_world (sy_outside e s)) = w_db (sy_world s)"
  "mq_inbox (w_mq (sy_world (sy_outside e s))) = mq_inbox (w_mq (sy_world s)) @ si_arrived e"
  by (simp_all add: sy_outside_def sy_arrive_def)

lemma outside_inv: "sy_inv pc m arrived s \<Longrightarrow> sy_inv pc m (arrived @ si_arrived e) (sy_outside e s)"
  by (auto simp: sy_inv_def outside_world)

lemma OnIdle_inv [simp]: "sy_inv pc m arrived (sy_OnIdle pb p e s) = sy_inv pc m arrived s"
  by (rule sy_inv_world) (simp_all add: sy_OnIdle_def Let_def split_beta)

lemma OnTick_inv [simp]: "sy_inv pc m arrived (sy_OnTick e s) = sy_inv pc m arrived s"
  by (rule sy_inv_world) (simp_all add: sy_OnTick_def srv_OnTick_def Let_def split_beta)

text \<open>A call of \<open>OnProc\<close> handles the oldest messages, ten at most, and does not fail.\<close>

lemma ProcessMQRecv_inv:
  assumes "db_full (w_db w) (fold (msg_effect pc) ms m)" "msgs_ok pc m (ms @ mq_inbox (w_mq w))"
  shows "\<exists>r w'. srv_ProcessMQRecv pc z rnds w = Some (r, w')
    \<and> mq_inbox (w_mq w') = drop 10 (mq_inbox (w_mq w))
    \<and> db_full (w_db w') (fold (msg_effect pc) (ms @ take 10 (mq_inbox (w_mq w))) m)"
proof -
  let ?in = "mq_inbox (w_mq w)" and ?w = "w\<lparr>w_mq := (w_mq w)\<lparr>mq_inbox := drop 10 (mq_inbox (w_mq w))\<rparr>\<rparr>"
  have ok: "msgs_ok pc (fold (msg_effect pc) ms m) ?in" using assms(2) by (simp add: msgs_ok_append)
  then have ok': "msgs_ok pc (fold (msg_effect pc) ms m) (take 10 ?in)"
    by (metis append_take_drop_id msgs_ok_append)
  have "takeWhile (\<lambda>m. m \<noteq> []) (take 10 ?in) = take 10 ?in"
    using msgs_ok_nonempty [OF ok'] by (metis (mono_tags, lifting) takeWhile_eq_all_conv)
  moreover have "drop (if length (take 10 ?in) < 10 then Suc (length (take 10 ?in)) else length (take 10 ?in)) ?in = drop 10 ?in"
    by simp
  ultimately have recv: "mq_RecvMsgs 10 (w_mq w) = (take 10 ?in, (w_mq w)\<lparr>mq_inbox := drop 10 ?in\<rparr>)"
    by (simp only: RecvMsgs_inbox Let_def)
  obtain w' where w': "srv_process_msgs pc z rnds 0 (take 10 ?in) ?w = Some w'"
      "db_full (w_db w') (fold (msg_effect pc) (take 10 ?in) (fold (msg_effect pc) ms m))" "mq_inbox (w_mq w') = drop 10 ?in"
    using process_msgs_full [of ?w "fold (msg_effect pc) ms m" pc "take 10 ?in" z rnds 0] assms(1) ok' by auto
  show ?thesis
  proof (cases "?in = []")
    case True
    then show ?thesis using recv assms(1) by (simp add: srv_ProcessMQRecv_def)
  next
    case False
    then show ?thesis using recv w' by (simp add: srv_ProcessMQRecv_def)
  qed
qed

lemma OnProc_inv:
  assumes "sy_inv pc m arrived s" "msgs_ok pc m (arrived @ si_arrived e)"
  shows "\<exists>r s'. sy_OnProc pc z e s = Some (r, s') \<and> sy_inv pc m (arrived @ si_arrived e) s'"
proof -
  let ?s = "sy_outside e s"
  obtain ms where ms: "arrived = ms @ mq_inbox (w_mq (sy_world s))" "db_full (w_db (sy_world s)) (fold (msg_effect pc) ms m)"
    using assms(1) by (auto simp: sy_inv_def)
  have "db_full (w_db (sy_world ?s)) (fold (msg_effect pc) ms m)" "msgs_ok pc m (ms @ mq_inbox (w_mq (sy_world ?s)))"
    using ms assms(2) by (simp_all add: outside_world)
  from ProcessMQRecv_inv [OF this, of z "si_rnds e"] obtain r w' where
      w': "srv_ProcessMQRecv pc z (si_rnds e) (sy_world ?s) = Some (r, w')" "mq_inbox (w_mq w') = drop 10 (mq_inbox (w_mq (sy_world ?s)))"
      "db_full (w_db w') (fold (msg_effect pc) (ms @ take 10 (mq_inbox (w_mq (sy_world ?s)))) m)"
    by blast
  then have "sy_OnProc pc z e s = Some (r, ?s\<lparr>sy_world := w'\<rparr>)" by (simp add: sy_OnProc_def srv_OnProc_def)
  moreover have "arrived @ si_arrived e = (ms @ take 10 (mq_inbox (w_mq (sy_world ?s)))) @ mq_inbox (w_mq w')"
    unfolding w'(2) append_assoc append_take_drop_id using ms(1) by (simp add: outside_world)
  then have "sy_inv pc m (arrived @ si_arrived e) (?s\<lparr>sy_world := w'\<rparr>)"
    using w'(3) unfolding sy_inv_def by (metis (no_types, lifting) select_convs(1) srv_sys.select_convs(1) srv_sys.surjective srv_sys.update_convs(1))
  ultimately show ?thesis by blast
qed


text \<open>A round with a reload request only calls \<open>OnReload\<close>; any other one goes through \<open>OnProc\<close>.\<close>

lemma round_run:
  assumes "sy_inv pc m arrived s" "msgs_ok pc m (arrived @ si_arrived (extern i))" "\<not> is_exit a"
  obtains a' ilde' s' where "app_round (srv_callbacks pc pb z p) i (a, ilde, Some s) = (a', ilde', Some s')"
    "is_run a' = is_run a" "\<not> is_exit a'" "sy_inv pc m (arrived @ si_arrived (extern i)) s'"
proof (cases "is_reload a")
  case True
  with assms(3) outside_inv [OF assms(1)] show ?thesis
    by (intro that [of "a\<lparr>is_reload := False\<rparr>" ilde "sy_outside (extern i) s"]) (simp_all add: app_round_def srv_callbacks_def)
next
  case False
  obtain r s1 where s1: "sy_OnProc pc z (extern i) s = Some (r, s1)" "sy_inv pc m (arrived @ si_arrived (extern i)) s1"
    using OnProc_inv [OF assms(1,2)] by blast
  have "\<exists>a' ilde' s'. app_round (srv_callbacks pc pb z p) i (a, ilde, Some s) = (a', ilde', Some s')
    \<and> is_run a' = is_run a \<and> \<not> is_exit a' \<and> sy_inv pc m (arrived @ si_arrived (extern i)) s'"
    using assms(3) False s1 by (simp add: app_round_def srv_callbacks_def Let_def app_proc_stat_def app_tick_stat_def)
  with that show ?thesis by blast
qed

definition no_exit_signal :: "srv_in round_in \<Rightarrow> bool" where
  "no_exit_signal i \<longleftrightarrow> set (signals i) \<inter> exit_signals = {}"

lemma loop_run:
  assumes "sy_inv pc m arrived s" "msgs_ok pc m (arrived @ concat (map (si_arrived \<circ> extern) is))"
    and "\<forall>i \<in> set is. no_exit_signal i" "is_run a" "\<not> is_exit a"
  obtains a' ilde' s' where "\<And>js. app_loop handled (srv_callbacks pc pb z p) (is @ js) (a, ilde, Some s)
      = app_loop handled (srv_callbacks pc pb z p) js (a', ilde', Some s')"
    "is_run a'" "\<not> is_exit a'" "sy_inv pc m (arrived @ concat (map (si_arrived \<circ> extern) is)) s'"
  using assms
proof (induction "is" arbitrary: a ilde s arrived thesis)
  case (Cons i "is")
  let ?a = "fold (app_signal handled) (signals i) a"
  have ok: "msgs_ok pc m (arrived @ si_arrived (extern i))" using Cons.prems(3) msgs_ok_append by fastforce
  have a: "\<not> is_exit ?a" "is_run ?a" using Cons.prems(4-6) by (simp_all add: no_exit_signal_def)
  obtain a1 ilde1 s1 where r: "app_round (srv_callbacks pc pb z p) i (?a, ilde, Some s) = (a1, ilde1, Some s1)"
      "is_run a1 = is_run ?a" "\<not> is_exit a1" "sy_inv pc m (arrived @ si_arrived (extern i)) s1"
    by (rule round_run [OF Cons.prems(2) ok a(1)]) (rule that)
  have step: "app_loop handled (srv_callbacks pc pb z p) ((i # is) @ js) (a, ilde, Some s)
      = app_loop handled (srv_callbacks pc pb z p) (is @ js) (a1, ilde1, Some s1)" for js
    using r(1) Cons.prems(5) by simp
  have run: "is_run a1" "\<forall>i \<in> set is. no_exit_signal i" "msgs_ok pc m ((arrived @ si_arrived (extern i)) @ concat (map (si_arrived \<circ> extern) is))"
    using r(2) a(2) Cons.prems(3-4) by (simp_all add: o_def)
  show ?case
  proof (rule Cons.IH [OF _ r(4) run(3,2,1) r(3)])
    fix a' ilde' s'
    assume "\<And>js. app_loop handled (srv_callbacks pc pb z p) (is @ js) (a1, ilde1, Some s1)
        = app_loop handled (srv_callbacks pc pb z p) js (a', ilde', Some s')" "is_run a'" "\<not> is_exit a'"
      "sy_inv pc m ((arrived @ si_arrived (extern i)) @ concat (map (si_arrived \<circ> extern) is)) s'"
    with step show thesis by (intro Cons.prems(1) [of a' ilde' s']) (simp_all add: o_def)
  qed
qed (use assms in auto)

lemma exit_round:
  assumes "set (signals x) \<inter> exit_signals \<noteq> {}" "is_run a"
  shows "\<exists>a' ilde'. app_loop handled cbs [x] (a, ilde, s) = (a', ilde', OnExit (cbs (extern x)) (OnStop (cbs (extern x)) s)) \<and> \<not> is_run a'"
  using assms by (simp add: app_round_def Let_def)


section \<open>What the next start finds\<close>

text \<open>At the exit the keys are walked once each, the messages survive the codec and fit, and the
  system calls succeed.\<close>

definition exit_saves :: "pb_codec \<Rightarrow> srv_in \<Rightarrow> db \<Rightarrow> bool" where
  "exit_saves pb e d \<longleftrightarrow> distinct (si_keys e) \<and> set (si_keys e) = dom (db_dict d)
     \<and> (\<forall>m \<in> set (db_msgs d (si_ctime e) (si_keys e)). msg_ok pb m)
     \<and> length (msgs_bytes pb (db_msgs d (si_ctime e) (si_keys e))) \<le> disk_room (si_save e)
     \<and> open_ok (si_save e) \<and> flush_ok (si_save e) \<and> fsync_ok (si_save e) \<and> close_ok (si_save e) \<and> rename_ok (si_save e)"

lemma full_sets:
  assumes "db_full d m" "db_dict d k = Some t"
  shows "\<exists>xs. xs \<noteq> [] \<and> ss_ok t xs"
proof -
  have "m k = ss_dict t" "m k \<noteq> Map.empty" using assms db_holds_Some [of d m k t] by (auto simp: db_full_def)
  moreover obtain xs where xs: "ss_ok t xs" using assms db_holds_Some [of d m k t] by (auto simp: db_full_def)
  ultimately obtain mem sc where "ss_dict t mem = Some sc" by (metis not_None_eq)
  with ss_okD(4) [OF xs] have "(sc, mem) \<in> set xs" by blast
  then have "xs \<noteq> []" by auto
  with xs show ?thesis by blast
qed

lemma sset_same_dict: "sset_same t t' \<Longrightarrow> ss_dict t = ss_dict t' \<and> (\<exists>xs. ss_ok t' xs)"
proof -
  assume "sset_same t t'"
  then obtain xs where xs: "ss_ok t xs" "ss_ok t' xs" by (auto simp: sset_same_def)
  have "ss_dict t mem = ss_dict t' mem" for mem
    using ss_okD(4) [OF xs(1), of mem] ss_okD(4) [OF xs(2), of mem] by (cases "ss_dict t mem"; cases "ss_dict t' mem") auto
  with xs(2) show ?thesis by blast
qed

lemma exit_then_load:
  assumes "db_full d m" "exit_saves pb e d"
  shows "\<exists>bs d'. db_SaveToFile pb (si_save e) (si_ctime e) (si_keys e) d = Some (0, Some bs)
    \<and> db_CheckDbFileAndLoad pb rnds (Some bs) db_new = Some (0, d') \<and> db_holds d' m"
proof -
  obtain bs d' where d': "db_SaveToFile pb (si_save e) (si_ctime e) (si_keys e) d = Some (0, Some bs)"
      "db_CheckDbFileAndLoad pb rnds (Some bs) db_new = Some (0, d')" "dom (db_dict d') = dom (db_dict d)"
      "\<forall>k t. db_dict d k = Some t \<longrightarrow> (\<exists>t'. db_dict d' k = Some t' \<and> sset_same t t')"
    using save_then_load [of "si_keys e" d "si_ctime e" pb "si_save e" rnds] assms(2) full_sets [OF assms(1)]
    unfolding exit_saves_def by blast
  have h: "db_holds d m" using assms(1) by (simp add: db_full_def)
  have "db_holds d' m"
    unfolding db_holds_def
  proof
    fix k
    show "case db_dict d' k of None \<Rightarrow> m k = Map.empty | Some t \<Rightarrow> m k = ss_dict t \<and> (\<exists>xs. ss_ok t xs)"
    proof (cases "db_dict d k")
      case None
      then have "db_dict d' k = None" using d'(3) by blast
      with db_holds_None [OF h None] show ?thesis by simp
    next
      case (Some t)
      with d'(4) obtain t' where "db_dict d' k = Some t'" "sset_same t t'" by blast
      with sset_same_dict [of t t'] db_holds_Some [OF h Some] show ?thesis by auto
    qed
  qed
  with d'(1,2) show ?thesis by blast
qed

text \<open>C9. A restart keeps the data. Take any rounds of the loop that bring no exit signal (reload
  signals, ticks, idle calls and children saving in the background may all occur), and let the
  messages that arrive be not empty, be no rank, range or top queries, and keep the scores of the
  members of each key distinct at every moment (\<open>msgs_ok\<close>). Then nothing fails, the messages are
  handled in their order, those left wait in the queue, and the database holds the scores the
  handled ones make. When then a signal asks for the exit, no child is saving any more, and the
  calls of the save succeed (\<open>exit_saves\<close>), the process ends and leaves a file which the next start
  loads to a database with exactly these scores. Nothing is claimed when a child is still saving at
  the exit: both write the same temporary file, and a child that opens it later replaces the file by
  its older copy (\<open>late_child_replaces_the_file\<close>).\<close>

theorem server_restart_keeps_data:
  assumes "db_full (w_db (sy_world s)) m" "mq_inbox (w_mq (sy_world s)) = []"
    and "\<forall>i \<in> set is. no_exit_signal i" "msgs_ok pc m (concat (map (si_arrived \<circ> extern) is))"
    and "set (signals x) \<inter> exit_signals \<noteq> {}"
  shows "\<exists>s1 ms. snd (app_Run handled (srv_callbacks pc pb z p) is app_new (Some s)) = Some s1
    \<and> concat (map (si_arrived \<circ> extern) is) = ms @ mq_inbox (w_mq (sy_world s1))
    \<and> db_holds (w_db (sy_world s1)) (fold (msg_effect pc) ms m)
    \<and> ((\<forall>c \<in> set (sy_children s1). c = Save_over) \<longrightarrow> exit_saves pb (extern x) (w_db (sy_world s1)) \<longrightarrow>
        (\<exists>a s2 bs d'. app_Run handled (srv_callbacks pc pb z p) (is @ [x]) app_new (Some s) = (a, Some s2) \<and> \<not> is_run a
          \<and> files_db (sy_files s2) = Some bs \<and> db_CheckDbFileAndLoad pb rnds (Some bs) db_new = Some (0, d')
          \<and> db_holds d' (fold (msg_effect pc) ms m)))"
proof -
  let ?cbs = "srv_callbacks pc pb z p" and ?a = "app_new\<lparr>is_run := True\<rparr>"
  have inv: "sy_inv pc m [] s" using assms(1,2) by (simp add: sy_inv_def)
  have ok: "msgs_ok pc m ([] @ concat (map (si_arrived \<circ> extern) is))" using assms(4) by simp
  have a: "is_run ?a" "\<not> is_exit ?a" by (simp_all add: app_new_def)
  obtain a1 ilde1 s1 where loop: "\<And>js. app_loop handled ?cbs (is @ js) (?a, 0, Some s) = app_loop handled ?cbs js (a1, ilde1, Some s1)"
      "is_run a1" "sy_inv pc m (concat (map (si_arrived \<circ> extern) is)) s1"
    by (rule loop_run [OF inv ok assms(3) a, where pb = pb and z = z and p = p and ilde = 0]) (use that in simp)
  obtain ms where ms: "concat (map (si_arrived \<circ> extern) is) = ms @ mq_inbox (w_mq (sy_world s1))"
      "db_full (w_db (sy_world s1)) (fold (msg_effect pc) ms m)"
    using loop(3) by (auto simp: sy_inv_def)
  have run1: "snd (app_Run handled ?cbs is app_new (Some s)) = Some s1"
    using loop(1) [of "[]"] by (simp add: app_Run_def)
  have exit: "\<exists>a s2 bs d'. app_Run handled ?cbs (is @ [x]) app_new (Some s) = (a, Some s2) \<and> \<not> is_run a
      \<and> files_db (sy_files s2) = Some bs
      \<and> db_CheckDbFileAndLoad pb rnds (Some bs) db_new = Some (0, d') \<and> db_holds d' (fold (msg_effect pc) ms m)"
    if over: "\<forall>c \<in> set (sy_children s1). c = Save_over" and save: "exit_saves pb (extern x) (w_db (sy_world s1))"
  proof -
    let ?e = "extern x"
    obtain bs d' where bs: "db_SaveToFile pb (si_save ?e) (si_ctime ?e) (si_keys ?e) (w_db (sy_world s1)) = Some (0, Some bs)"
        "db_CheckDbFileAndLoad pb rnds (Some bs) db_new = Some (0, d')" "db_holds d' (fold (msg_effect pc) ms m)"
      using exit_then_load [OF ms(2) save] by blast
    obtain fs where fs: "sy_complete (fold sy_exit_act (si_exit ?e) (saver_of (Some bs) (si_failed ?e), s1)) = s1\<lparr>sy_files := fs\<rparr>"
        "files_db fs = Some bs"
      using saving_completes [OF over, of bs "saver_of (Some bs) (si_failed ?e)"] by (auto simp: saver_of_def)
    obtain a' ilde' where "app_loop handled ?cbs [x] (a1, ilde1, Some s1)
        = (a', ilde', OnExit (?cbs ?e) (OnStop (?cbs ?e) (Some s1)))" "\<not> is_run a'"
      using exit_round [OF assms(5) loop(2), of ?cbs ilde1 "Some s1"] by blast
    with loop(1) [of "[x]"] bs fs show ?thesis
      by (simp add: app_Run_def srv_callbacks_def sy_OnExit_def srv_OnExit_def srv_OnStop_def)
  qed
  have "db_holds (w_db (sy_world s1)) (fold (msg_effect pc) ms m)" using ms(2) by (simp add: db_full_def)
  with run1 ms(1) exit show ?thesis by blast
qed

text \<open>A message that cannot be parsed arrives, then the process is asked to end; the exit writes the
  file in two pieces at least. A child that was killed while saving has left its temporary file.\<close>

definition sample_sys :: srv_sys where
  "sample_sys = \<lparr>sy_world = sample_world,
     sy_files = \<lparr>f_tmp = Some 0, f_db = None, f_data = (\<lambda>_. [1, 2, 3]), f_next = 1\<rparr>, sy_children = [Save_over]\<rparr>"

definition sample_round :: "signal list \<Rightarrow> string list \<Rightarrow> srv_in round_in" where
  "sample_round ss ms = \<lparr>signals = ss, tv_start = \<lparr>tv_sec = 0, tv_usec = 0\<rparr>, tv_end = \<lparr>tv_sec = 0, tv_usec = 5\<rparr>,
     tv_now = \<lparr>tv_sec = 0, tv_usec = 5\<rparr>, tv_tick_end = \<lparr>tv_sec = 0, tv_usec = 5\<rparr>,
     extern = \<lparr>si_arrived = ms, si_rnds = (\<lambda>_ _. rand_flat), si_now = 0, si_ctime = ''now'', si_wait3 = None, si_fork = 7,
       si_save = sample_env, si_keys = [''k''], si_failed = None, si_children = [Child_step 0 4],
       si_exit = [Own_step 0, Own_step 4, Of_child (Child_step 0 4)]\<rparr>\<rparr>"

lemma sample_sys_hyps:
  "db_full (w_db (sy_world sample_sys)) ((\<lambda>_. Map.empty)(''k'' := [''a'' \<mapsto> 3]))" "mq_inbox (w_mq (sy_world sample_sys)) = []"
  "\<forall>i \<in> set [sample_round [] [''x'']]. no_exit_signal i"
  "msgs_ok sample_pc ((\<lambda>_. Map.empty)(''k'' := [''a'' \<mapsto> 3])) (concat (map (si_arrived \<circ> extern) [sample_round [] [''x'']]))"
  "set (signals (sample_round [SIGTERM] [])) \<inter> exit_signals \<noteq> {}"
proof -
  have "db_dict sample_db k = None" if "k \<noteq> ''k''" for k using sample_db_saves(3) that by auto
  then show "db_full (w_db (sy_world sample_sys)) ((\<lambda>_. Map.empty)(''k'' := [''a'' \<mapsto> 3]))"
    using sample_db_holds by (auto simp: sample_sys_def sample_world_def db_full_def)
qed (simp_all add: sample_sys_def sample_world_def mq_new_def no_exit_signal_def sample_round_def sample_pc_def exit_signals_def)

theorem server_restart_keeps_data_witness:
  "\<exists>a s2 bs d'. app_Run handled (srv_callbacks sample_pc sample_codec sample_zmq 100)
      [sample_round [] [''x''], sample_round [SIGTERM] []] app_new (Some sample_sys) = (a, Some s2) \<and> \<not> is_run a
    \<and> files_db (sy_files s2) = Some bs \<and> db_CheckDbFileAndLoad sample_codec (\<lambda>_. rand_flat) (Some bs) db_new = Some (0, d')
    \<and> db_holds d' ((\<lambda>_. Map.empty)(''k'' := [''a'' \<mapsto> 3]))"
proof -
  let ?cbs = "srv_callbacks sample_pc sample_codec sample_zmq 100" and ?m = "(\<lambda>_. Map.empty)(''k'' := [''a'' \<mapsto> 3])"
  have recv: "sy_OnProc sample_pc sample_zmq (extern (sample_round [] [''x''])) sample_sys = Some (0, sample_sys)"
    by (simp add: sy_OnProc_def srv_OnProc_def srv_ProcessMQRecv_def sample_sys_def sample_round_def sample_world_def sy_arrive_def
        sy_outside_def RecvMsgs_inbox mq_new_def srv_ProcessMQMsg_def sample_pc_def)
  have same: "snd (app_Run handled ?cbs [sample_round [] [''x'']] app_new (Some sample_sys)) = Some sample_sys"
    using recv by (simp add: app_Run_def app_round_def app_new_def srv_callbacks_def Let_def sample_round_def
        TV_TO_MS_def app_proc_stat_def)
  have "exit_saves sample_codec (extern (sample_round [SIGTERM] [])) (w_db (sy_world sample_sys))"
    using sample_db_saves unfolding exit_saves_def by (simp add: sample_round_def sample_sys_def sample_world_def)
  moreover have "\<forall>c \<in> set (sy_children sample_sys). c = Save_over" by (simp add: sample_sys_def)
  moreover have "fold (msg_effect sample_pc) ms m = m" for ms m
    by (induction ms) (simp_all add: msg_effect_def sample_pc_def)
  moreover note server_restart_keeps_data [OF sample_sys_hyps, where pb = sample_codec and z = sample_zmq and p = 100 and rnds = "\<lambda>_. rand_flat"]
  ultimately show ?thesis using same by (simp only: append_Cons append_Nil option.inject) blast
qed

end
