(* ===== verification/IniFile.thy ===== *)
theory IniFile
  imports Prelude "HOL-Library.Monad_Syntax" "HOL-Library.Sublist" "HOL-Library.Char_ord"
begin

text \<open>
  Configuration files, \<open>bis/src/proxy/include/ini_file.h\<close> and \<open>ini_file.cpp\<close> (the server has the
  same file). The text of the file is a block that ends with a zero byte; pointers into it are
  positions, and reading outside the block is \<open>None\<close>. A string in a caller's buffer is the
  string up to its terminator, \<open>None\<close> when the buffer has no terminator.
\<close>

section \<open>The C library\<close>

abbreviation (input) NUL :: char where "NUL \<equiv> CHR 0x00"
abbreviation (input) TAB :: char where "TAB \<equiv> CHR 0x09"
abbreviation (input) LF :: char where "LF \<equiv> CHR 0x0A"
abbreviation (input) CR :: char where "CR \<equiv> CHR 0x0D"

definition ch_at :: "string \<Rightarrow> nat \<Rightarrow> char option" where
  "ch_at buf i = (if i < length buf then Some (buf ! i) else None)"

definition str_at :: "string \<Rightarrow> nat \<Rightarrow> string option" where
  "str_at buf off = (if NUL \<in> set (drop off buf) then Some (takeWhile (\<lambda>c. c \<noteq> NUL) (drop off buf)) else None)"

text \<open>The position of the first occurrence.\<close>

fun find_sub :: "string \<Rightarrow> string \<Rightarrow> nat option" where
  "find_sub xs [] = (if xs = [] then Some 0 else None)"
| "find_sub xs (y # ys) = (if prefix xs (y # ys) then Some 0 else map_option Suc (find_sub xs ys))"

definition str_str :: "string \<Rightarrow> nat \<Rightarrow> string \<Rightarrow> nat option option" where
  "str_str buf off needle = do { s \<leftarrow> str_at buf off; Some (map_option (\<lambda>i. off + i) (find_sub needle s)) }"

text \<open>\<open>strncpy\<close> writes no terminator when the source is as long as the buffer or longer.\<close>

definition str_ncpy :: "string \<Rightarrow> nat \<Rightarrow> string option" where
  "str_ncpy s len = (if length s < len then Some s else None)"

definition is_digit :: "char \<Rightarrow> bool" where "is_digit c \<longleftrightarrow> CHR ''0'' \<le> c \<and> c \<le> CHR ''9''"

definition is_space :: "char \<Rightarrow> bool" where "is_space c \<longleftrightarrow> c \<in> {CHR '' '', TAB, LF, CHR 0x0B, CHR 0x0C, CR}"

definition digit_val :: "char \<Rightarrow> int option" where
  "digit_val c =
     (if is_digit c then Some (of_char c - of_char (CHR ''0''))
      else if CHR ''a'' \<le> c \<and> c \<le> CHR ''f'' then Some (of_char c - of_char (CHR ''a'') + 10)
      else if CHR ''A'' \<le> c \<and> c \<le> CHR ''F'' then Some (of_char c - of_char (CHR ''A'') + 10)
      else None)"

fun read_digits :: "int \<Rightarrow> int \<Rightarrow> string \<Rightarrow> int" where
  "read_digits b n [] = n"
| "read_digits b n (c # cs) = (case digit_val c of Some d \<Rightarrow> if d < b then read_digits b (b * n + d) cs else n | None \<Rightarrow> n)"

definition read_int :: "int \<Rightarrow> string \<Rightarrow> int" where
  "read_int b s = (case dropWhile is_space s of
      [] \<Rightarrow> 0
    | c # cs \<Rightarrow> if c = CHR ''-'' then - read_digits b 0 cs else if c = CHR ''+'' then read_digits b 0 cs
        else read_digits b 0 (c # cs))"

text \<open>A value an \<open>int\<close> cannot hold is undefined for \<open>atoi\<close>.\<close>

definition c_atoi :: "string \<Rightarrow> int option" where
  "c_atoi s = (let n = read_int 10 s in if - (2 ^ 31) \<le> n \<and> n < 2 ^ 31 then Some n else None)"

text \<open>\<open>sscanf ("%x")\<close>: \<open>Inl\<close> when nothing is converted and the variable is left as it was. A second
  prefix is read over.\<close>

definition c_scan_hex :: "string \<Rightarrow> (unit + 32 word) option" where
  "c_scan_hex s =
     (let s = dropWhile is_space s;
          (neg, s) = (case s of c # cs \<Rightarrow> if c = CHR ''-'' then (True, cs) else if c = CHR ''+'' then (False, cs) else (False, s) | [] \<Rightarrow> (False, s));
          s = (if prefix ''0x'' s \<or> prefix ''0X'' s then drop 2 s else s);
          n = read_digits 16 0 s
      in case s of
           [] \<Rightarrow> Some (Inl ())
         | c # cs \<Rightarrow>
             if digit_val c = None then Some (Inl ())
             else if 2 ^ 32 \<le> n then None
             else Some (Inr (of_int (if neg then - n else n))))"

definition c_strtoull :: "string \<Rightarrow> 64 word" where
  "c_strtoull s = (let n = read_int 10 s in if 2 ^ 64 \<le> \<bar>n\<bar> then -1 else of_int n)"

section \<open>State\<close>

abbreviation (input) E_INI_FILE :: int where "E_INI_FILE \<equiv> -401"
abbreviation (input) SUCCESS :: int where "SUCCESS \<equiv> 0"

record ini =
  m_szBuffer :: "string option"
  m_iSize :: nat

text \<open>The file: \<open>None\<close> when \<open>stat\<close> fails, its size, and what is read when it can be opened; a
  file that cannot be opened is read through a null pointer.\<close>

definition ini_new :: "(nat \<times> string option) option \<Rightarrow> ini option" where
  "ini_new file =
     (case file of
        None \<Rightarrow> Some \<lparr>m_szBuffer = None, m_iSize = 0\<rparr>
      | Some (sz, content) \<Rightarrow>
          if sz \<le> 0 then Some \<lparr>m_szBuffer = None, m_iSize = sz\<rparr>
          else do {
            text \<leftarrow> content;
            let text = take sz text;
            Some \<lparr>m_szBuffer = Some (text @ replicate (sz + 1 - length text) NUL), m_iSize = sz\<rparr>
          })"

definition ini_IsValid :: "ini \<Rightarrow> bool" where
  "ini_IsValid f \<longleftrightarrow> \<not> (m_szBuffer f = None \<or> m_iSize f \<le> 0)"

definition trim_char :: "char \<Rightarrow> bool" where
  "trim_char c \<longleftrightarrow> c = CHR '' '' \<or> c = TAB \<or> c = CR \<or> c = LF"

text \<open>First from the right, then from the left.\<close>

definition ini_TrimString :: "string \<Rightarrow> string" where
  "ini_TrimString s = (let s = rev (dropWhile trim_char (rev s)) in dropWhile trim_char s)"

section \<open>Looking up a value\<close>

text \<open>The loop over the occurrences of the section name: an error to return, or the position it
  stops at, which is the section's or the end of the file.\<close>

partial_function (option) ini_section_loop :: "string \<Rightarrow> nat \<Rightarrow> string \<Rightarrow> nat \<Rightarrow> (int + nat) option" where
  "ini_section_loop buf sz sec tmp =
     (if tmp < sz then do {
        r \<leftarrow> str_str buf tmp sec;
        (case r of
           None \<Rightarrow> Some (Inl E_INI_FILE)
         | Some p \<Rightarrow>
             if p = 0 then Some (Inl E_INI_FILE)
             else do {
               b \<leftarrow> ch_at buf (p - 1);
               other \<leftarrow> (if b \<noteq> CHR ''['' then Some True else do { c \<leftarrow> ch_at buf (p + length sec); Some (c \<noteq> CHR '']'') });
               if other then ini_section_loop buf sz sec (p + length sec)
               else do {
                 inside \<leftarrow> (if p > 1 then do { c \<leftarrow> ch_at buf (p - 2); Some (c \<noteq> LF) } else Some False);
                 if inside then ini_section_loop buf sz sec (p + length sec) else Some (Inr p)
               }
             })
      } else Some (Inr tmp))"

declare ini_section_loop.simps [code]

text \<open>The next section, a bracket at the start of a line.\<close>

partial_function (option) ini_next_loop :: "string \<Rightarrow> nat \<Rightarrow> nat option option" where
  "ini_next_loop buf test = do {
     r \<leftarrow> str_str buf test ''['';
     (case r of
        None \<Rightarrow> Some None
      | Some p \<Rightarrow>
          if p = 0 then None
          else do { c \<leftarrow> ch_at buf (p - 1); if c = LF then Some (Some p) else ini_next_loop buf (p + 1) })
   }"

declare ini_next_loop.simps [code]

text \<open>The loop over the occurrences of the item: an error to return, the position of the value, or
  \<open>None\<close> when the loop ends at the end of the file.\<close>

partial_function (option) ini_item_loop :: "string \<Rightarrow> nat \<Rightarrow> string \<Rightarrow> nat \<Rightarrow> nat \<Rightarrow> (int + nat option) option" where
  "ini_item_loop buf sz item nxt tmp =
     (if tmp < sz then do {
        r \<leftarrow> str_str buf tmp item;
        (case r of
           None \<Rightarrow> Some (Inl E_INI_FILE)
         | Some p \<Rightarrow>
             if p \<ge> nxt then Some (Inl E_INI_FILE)
             else if p = 0 then None
             else do {
               b \<leftarrow> ch_at buf (p - 1);
               if b \<noteq> LF then ini_item_loop buf sz item nxt (p + length item)
               else do {
                 c \<leftarrow> ch_at buf (p + length item);
                 if c \<noteq> CHR '' '' \<and> c \<noteq> CHR ''='' \<and> c \<noteq> TAB then ini_item_loop buf sz item nxt (p + length item)
                 else do {
                   v \<leftarrow> str_str buf p ''='';
                   (case v of
                      None \<Rightarrow> Some (Inl E_INI_FILE)
                    | Some v \<Rightarrow> if v + 1 \<ge> sz then Some (Inl E_INI_FILE) else Some (Inr (Some (v + 1))))
                 }
               }
             })
      } else Some (Inr None))"

declare ini_item_loop.simps [code]

text \<open>Copying the value: \<open>n\<close> is the position in the value, \<open>out\<close> what was copied.\<close>

fun ini_copy_loop :: "nat \<Rightarrow> nat \<Rightarrow> string \<Rightarrow> string \<Rightarrow> string option" where
  "ini_copy_loop limit n out [] = (if length out < limit then None else Some out)"
| "ini_copy_loop limit n out (c # cs) =
     (if length out < limit \<and> c \<noteq> CR \<and> c \<noteq> LF \<and> c \<noteq> NUL then
        if (c = CHR '' '' \<or> c = TAB) \<and> out = [] then ini_copy_loop limit (n + 1) out cs
        else if c = CHR '';'' then
          (if n > 0 then
             (case cs of
                [] \<Rightarrow> None
              | d # ds \<Rightarrow> if d = CHR '';'' then ini_copy_loop limit (n + 2) (out @ [c]) ds else Some out)
           else Some out)
        else ini_copy_loop limit (n + 1) (out @ [c]) cs
      else Some out)"

definition ini_GetString :: "ini \<Rightarrow> string \<Rightarrow> string \<Rightarrow> string \<Rightarrow> nat \<Rightarrow> (int \<times> string option) option" where
  "ini_GetString f sec item def len =
     (let szValue = str_ncpy def len in
      if \<not> ini_IsValid f then Some (E_INI_FILE, szValue)
      else do {
        buf \<leftarrow> m_szBuffer f;
        let sz = m_iSize f;
        r \<leftarrow> ini_section_loop buf sz sec 0;
        (case r of
           Inl err \<Rightarrow> Some (err, szValue)
         | Inr tmp \<Rightarrow> do {
             nxt \<leftarrow> ini_next_loop buf tmp;
             let nxt = (case nxt of None \<Rightarrow> sz | Some p \<Rightarrow> p);
             r \<leftarrow> ini_item_loop buf sz item nxt tmp;
             (case r of
                Inl err \<Rightarrow> Some (err, szValue)
              | Inr None \<Rightarrow> do { s \<leftarrow> szValue; Some (SUCCESS, Some (ini_TrimString s)) }
              | Inr (Some v) \<Rightarrow> do {
                  out \<leftarrow> ini_copy_loop (len - 1) 0 [] (drop v buf);
                  Some (SUCCESS, Some (ini_TrimString out))
                })
           })
      })"

text \<open>The overload for \<open>std::string\<close> appends to the value.\<close>

definition ini_GetString_str :: "ini \<Rightarrow> string \<Rightarrow> string \<Rightarrow> string \<Rightarrow> string \<Rightarrow> (int \<times> string) option" where
  "ini_GetString_str f sec item def strValue = do {
     (ret, buffer) \<leftarrow> ini_GetString f sec item def 2048;
     s \<leftarrow> buffer;
     Some (ret, strValue @ s)
   }"

text \<open>The variable keeps its value when the file is not valid.\<close>

definition ini_GetInt :: "ini \<Rightarrow> string \<Rightarrow> string \<Rightarrow> 32 word \<Rightarrow> 32 word \<Rightarrow> (int \<times> 32 word) option" where
  "ini_GetInt f sec item def old =
     (if \<not> ini_IsValid f then Some (E_INI_FILE, old)
      else do {
        (ret, szInt) \<leftarrow> ini_GetString f sec item '''' 32;
        if ret \<noteq> 0 then Some (E_INI_FILE, def)
        else do {
          s \<leftarrow> szInt;
          if prefix ''0x'' s \<or> prefix ''0X'' s then do {
            r \<leftarrow> c_scan_hex (drop 2 s);
            Some (SUCCESS, (case r of Inl _ \<Rightarrow> old | Inr n \<Rightarrow> n))
          } else do { n \<leftarrow> c_atoi s; Some (SUCCESS, of_int n) }
        }
      })"

definition ini_GetULongLong :: "ini \<Rightarrow> string \<Rightarrow> string \<Rightarrow> 64 word \<Rightarrow> 64 word \<Rightarrow> (int \<times> 64 word) option" where
  "ini_GetULongLong f sec item def old =
     (if \<not> ini_IsValid f then Some (E_INI_FILE, old)
      else do {
        (ret, sz) \<leftarrow> ini_GetString f sec item '''' 32;
        if ret \<noteq> 0 then Some (E_INI_FILE, def)
        else do { s \<leftarrow> sz; Some (SUCCESS, c_strtoull s) }
      })"

end
