(* ===== verification/IniFileSpec.thy ===== *)
theory IniFileSpec
  imports IniFile
begin

text \<open>
  What looking up a value in a configuration file does: the searches for the section and the item
  agree with a declarative reference, and a file written from sections, keys and values gives the
  values back.
\<close>

section \<open>Searching\<close>

text \<open>The least position from \<open>a\<close> on.\<close>

lemma find_upt_Some: "find P [a..<n] = Some i \<longleftrightarrow> a \<le> i \<and> i < n \<and> P i \<and> (\<forall>j. a \<le> j \<longrightarrow> j < i \<longrightarrow> \<not> P j)"
proof
  assume "find P [a..<n] = Some i"
  then obtain k where k: "k < n - a" "P (a + k)" "i = a + k" "\<forall>j<k. \<not> P (a + j)" by (auto simp: find_Some_iff)
  then show "a \<le> i \<and> i < n \<and> P i \<and> (\<forall>j. a \<le> j \<longrightarrow> j < i \<longrightarrow> \<not> P j)"
    by (auto dest: spec [of _ "j - a" for j]) (metis add_diff_inverse_nat add_less_cancel_left not_less)
next
  assume *: "a \<le> i \<and> i < n \<and> P i \<and> (\<forall>j. a \<le> j \<longrightarrow> j < i \<longrightarrow> \<not> P j)"
  then show "find P [a..<n] = Some i" unfolding find_Some_iff by (intro exI [of _ "i - a"]) auto
qed

lemma find_upt_None: "find P [a..<n] = None \<longleftrightarrow> (\<forall>j. a \<le> j \<longrightarrow> j < n \<longrightarrow> \<not> P j)"
  by (auto simp: find_None_iff)

lemma find_upt_skip:
  assumes "a \<le> b" "\<And>j. a \<le> j \<Longrightarrow> j < b \<Longrightarrow> j < n \<Longrightarrow> \<not> P j"
  shows "find P [a..<n] = find P [b..<n]"
proof (cases "find P [b..<n]")
  case None
  have "\<not> P j" if "a \<le> j" "j < n" for j
    using assms(2) [of j] None that by (cases "j < b") (auto simp: find_upt_None)
  then have "find P [a..<n] = None" by (simp add: find_upt_None)
  then show ?thesis using None by simp
next
  case (Some i)
  have "\<not> P j" if "a \<le> j" "j < i" for j
    using assms(2) [of j] Some that by (cases "j < b") (auto simp: find_upt_Some)
  then have "find P [a..<n] = Some i" using Some assms(1) by (auto simp: find_upt_Some)
  with Some show ?thesis by simp
qed

lemma find_mapped: "find P (map f xs) = map_option f (find (P \<circ> f) xs)"
  by (induction xs) auto

lemma find_upt_shift: "map_option (\<lambda>i. a + i) (find (\<lambda>i. P (a + i)) [0..<n]) = find P [a..<a + n]"
proof -
  have "[a..<a + n] = map (\<lambda>i. a + i) [0..<n]" by (simp add: map_add_upt add.commute)
  then have "find P [a..<a + n] = map_option (\<lambda>i. a + i) (find (P \<circ> (\<lambda>i. a + i)) [0..<n])"
    by (simp add: find_mapped)
  then show ?thesis by (simp add: o_def)
qed

lemma find_sub_find: "find_sub xs ys = find (\<lambda>i. prefix xs (drop i ys)) [0..<Suc (length ys)]"
proof (induction ys)
  case (Cons y ys)
  have "find (\<lambda>i. prefix xs (drop i (y # ys))) [0..<Suc (length (y # ys))]
      = (if prefix xs (y # ys) then Some 0 else find (\<lambda>i. prefix xs (drop i (y # ys))) [1..<1 + Suc (length ys)])"
    by (subst upt_conv_Cons) auto
  also have "find (\<lambda>i. prefix xs (drop i (y # ys))) [1..<1 + Suc (length ys)] = map_option (\<lambda>i. 1 + i) (find_sub xs ys)"
    unfolding find_upt_shift [symmetric] Cons.IH by (simp only: plus_1_eq_Suc drop_Suc_Cons)
  also have "(\<lambda>i. 1 + i) = Suc" by (simp add: fun_eq_iff)
  finally show ?case by (simp only: find_sub.simps)
qed simp

declare upt_Suc [simp del]

section \<open>The reference\<close>

definition line_start :: "string \<Rightarrow> nat \<Rightarrow> bool" where
  "line_start text i \<longleftrightarrow> i = 0 \<or> text ! (i - 1) = LF"

definition header_at :: "string \<Rightarrow> string \<Rightarrow> nat \<Rightarrow> bool" where
  "header_at text sec i \<longleftrightarrow> line_start text i \<and> prefix (CHR ''['' # sec @ '']'') (drop i text)"

definition item_at :: "string \<Rightarrow> string \<Rightarrow> nat \<Rightarrow> bool" where
  "item_at text item i \<longleftrightarrow> line_start text i \<and> prefix item (drop i text) \<and> text ! (i + length item) \<in> {CHR '' '', CHR ''='', TAB}"

text \<open>The section is the first line with its name in brackets and ends at the next line with a
  bracket; the item is its first line with the name and a space, tab or equals sign behind it;
  the value is behind the next equals sign.\<close>

definition ini_ref :: "string \<Rightarrow> string \<Rightarrow> string \<Rightarrow> nat option" where
  "ini_ref text sec item = do {
     i \<leftarrow> find (header_at text sec) [0..<length text];
     let end_of = (case find (\<lambda>k. line_start text k \<and> text ! k = CHR ''['') [i + 1..<length text] of None \<Rightarrow> length text | Some k \<Rightarrow> k);
     j \<leftarrow> find (item_at text item) [i + 1..<end_of];
     v \<leftarrow> find (\<lambda>v. text ! v = CHR ''='') [j..<length text];
     Some (v + 1)
   }"

section \<open>The loops find what the reference finds\<close>

definition text_ok :: "string \<Rightarrow> bool" where
  "text_ok text \<longleftrightarrow> NUL \<notin> set text \<and> text \<noteq> [] \<and> last text = LF"

lemma str_at_text: "text_ok text \<Longrightarrow> off \<le> length text \<Longrightarrow> str_at (text @ [NUL]) off = Some (drop off text)"
proof -
  assume ok: "text_ok text" and off: "off \<le> length text"
  have "takeWhile (\<lambda>c. c \<noteq> NUL) (drop off text @ [NUL]) = drop off text"
    using ok by (subst takeWhile_append2) (auto simp: text_ok_def dest: in_set_dropD)
  then show ?thesis using off by (simp add: str_at_def)
qed

lemma ch_at_text: "i < length text \<Longrightarrow> ch_at (text @ [NUL]) i = Some (text ! i)"
  by (simp add: ch_at_def nth_append)

lemma str_str_text:
  assumes "text_ok text" "off \<le> length text"
  shows "str_str (text @ [NUL]) off xs = Some (find (\<lambda>p. prefix xs (drop p text)) [off..<Suc (length text)])"
proof -
  have "map_option (\<lambda>i. off + i) (find (\<lambda>i. prefix xs (drop (off + i) text)) [0..<Suc (length text - off)])
      = find (\<lambda>p. prefix xs (drop p text)) [off..<off + Suc (length text - off)]"
    by (rule find_upt_shift)
  then show ?thesis using assms by (simp add: str_str_def str_at_text find_sub_find add.commute)
qed


lemma prefix_drop: "prefix xs (drop i ys) \<longleftrightarrow> i + length xs \<le> length ys \<and> (\<forall>k < length xs. ys ! (i + k) = xs ! k) \<or> xs = []"
proof (cases "xs = []")
  case False
  show ?thesis
  proof (cases "i + length xs \<le> length ys")
    case True
    then have "prefix xs (drop i ys) \<longleftrightarrow> take (length xs) (drop i ys) = xs" by (metis append_eq_conv_conj prefix_def take_is_prefix)
    also have "\<dots> \<longleftrightarrow> (\<forall>k < length xs. ys ! (i + k) = xs ! k)" using True by (auto simp: list_eq_iff_nth_eq)
    finally show ?thesis using False True by simp
  next
    case n: False
    then have "\<not> prefix xs (drop i ys)" using False prefix_length_le by fastforce
    with n False show ?thesis by simp
  qed
qed simp

text \<open>An occurrence of a name ends before the last line feed.\<close>

lemma occurrence_inside:
  assumes "text_ok text" "xs \<noteq> []" "LF \<notin> set xs" "prefix xs (drop p text)"
  shows "p + length xs < length text"
proof (rule ccontr)
  assume "\<not> ?thesis"
  then have "p + length xs = length text" "\<forall>k < length xs. text ! (p + k) = xs ! k" using assms(2,4) by (auto simp: prefix_drop)
  moreover have "text ! (length text - 1) = LF" using assms(1) by (auto simp: text_ok_def last_conv_nth)
  moreover have "length text - 1 = p + (length xs - 1)" using calculation(1) assms(2) by (cases xs) auto
  ultimately have "xs ! (length xs - 1) = LF" using assms(2) by (metis diff_less length_greater_0_conv zero_less_one)
  then show False using assms(2,3) by (metis diff_less length_greater_0_conv nth_mem zero_less_one)
qed

lemma prefix_nth: "prefix xs (drop i ys) \<Longrightarrow> k < length xs \<Longrightarrow> ys ! (i + k) = xs ! k"
  by (auto simp: prefix_drop)

lemma header_at_name:
  assumes "sec \<noteq> []"
  shows "header_at text sec i \<longleftrightarrow> line_start text i \<and> i < length text \<and> text ! i = CHR ''['' \<and> prefix sec (drop (Suc i) text)
     \<and> Suc i + length sec < length text \<and> text ! (Suc i + length sec) = CHR '']''"
proof -
  have "prefix (CHR ''['' # sec @ '']'') (drop i text) \<longleftrightarrow> i < length text \<and> text ! i = CHR ''['' \<and> prefix sec (drop (Suc i) text)
     \<and> Suc i + length sec < length text \<and> text ! (Suc i + length sec) = CHR '']''" (is "?l \<longleftrightarrow> ?r")
  proof
    assume l: ?l
    then have len: "i + Suc (Suc (length sec)) \<le> length text" by (auto simp: prefix_drop)
    then obtain "i < length text" "Suc i + length sec < length text" by simp
    moreover have "text ! i = CHR ''[''" using prefix_nth [OF l, of 0] by simp
    moreover have "text ! (Suc i + length sec) = CHR '']''" using prefix_nth [OF l, of "Suc (length sec)"] by (simp add: nth_append)
    moreover have "text ! (Suc i + k) = sec ! k" if "k < length sec" for k
      using prefix_nth [OF l, of "Suc k"] that by (simp add: nth_append)
    ultimately show ?r by (simp add: prefix_drop)
  next
    assume r: ?r
    have "text ! (i + k) = (CHR ''['' # sec @ '']'') ! k" if "k < Suc (Suc (length sec))" for k
    proof (cases k)
      case (Suc j)
      then show ?thesis using r that prefix_nth [of sec "Suc i" "text" j] by (cases "j < length sec") (auto simp: nth_append less_Suc_eq)
    qed (use r in simp)
    then show ?l using r by (simp add: prefix_drop)
  qed
  then show ?thesis by (auto simp: header_at_def)
qed

lemma section_loop_finds:
  assumes ok: "text_ok text" and sec: "sec \<noteq> []" "LF \<notin> set sec" "CHR ''['' \<notin> set sec" "\<not> prefix sec text"
  shows "tmp < length text \<Longrightarrow> ini_section_loop (text @ [NUL]) (length text) sec tmp
    = Some (case find (header_at text sec) [tmp - 1..<length text] of None \<Rightarrow> Inl E_INI_FILE | Some i \<Rightarrow> Inr (i + 1))"
proof (induction "length text - tmp" arbitrary: tmp rule: less_induct)
  case less
  let ?occ = "find (\<lambda>p. prefix sec (drop p text)) [tmp..<Suc (length text)]"
  note name = header_at_name [OF sec(1)]
  show ?case
  proof (cases ?occ)
    case None
    have "\<not> header_at text sec i" if "tmp - 1 \<le> i" "i < length text" for i
      using None that by (auto simp: find_upt_None name)
    then have "find (header_at text sec) [tmp - 1..<length text] = None" by (simp add: find_upt_None)
    with None show ?thesis using less.prems ok by (subst ini_section_loop.simps) (simp add: str_str_text)
  next
    case (Some p)
    then have p: "tmp \<le> p" "prefix sec (drop p text)" "\<And>j. tmp \<le> j \<Longrightarrow> j < p \<Longrightarrow> \<not> prefix sec (drop j text)"
      by (auto simp: find_upt_Some)
    have ends: "p + length sec < length text" by (rule occurrence_inside [OF ok sec(1,2) p(2)])
    have p0: "0 < p" using sec(4) p(2) by (cases p) auto
    define genuine where "genuine = header_at text sec (p - 1)"
    have g: "genuine \<longleftrightarrow> text ! (p - 1) = CHR ''['' \<and> text ! (p + length sec) = CHR '']'' \<and> (p = 1 \<or> text ! (p - 2) = LF)"
      using p0 p(2) ends by (auto simp: genuine_def name line_start_def numeral_2_eq_2)
    have early: "\<not> header_at text sec i" if "tmp - 1 \<le> i" "i < p - 1" for i
      using p(3) [of "Suc i"] that by (auto simp: name)
    have step: "ini_section_loop (text @ [NUL]) (length text) sec tmp
      = (if genuine then Some (Inr p) else ini_section_loop (text @ [NUL]) (length text) sec (p + length sec))"
      using less.prems ok Some p0 ends g
      by (subst ini_section_loop.simps) (auto simp: str_str_text ch_at_text)
    show ?thesis
    proof (cases genuine)
      case True
      then have "find (header_at text sec) [tmp - 1..<length text] = Some (p - 1)"
        using early p(1) ends by (auto simp: find_upt_Some genuine_def)
      with step True p0 show ?thesis by simp
    next
      case False
      have "\<not> header_at text sec i" if "tmp - 1 \<le> i" "i < p + length sec - 1" "i < length text" for i
      proof
        assume h: "header_at text sec i"
        have "i \<noteq> p - 1" "\<not> i < p - 1" using h False early that(1) by (auto simp: genuine_def)
        then have "p \<le> i" "i - p < length sec" using that(2) p0 sec(1) by (auto simp: less_diff_conv)
        then have "text ! i = sec ! (i - p)" using prefix_nth [OF p(2), of "i - p"] by simp
        then show False using h sec(3) \<open>i - p < length sec\<close> nth_mem by (fastforce simp: name)
      qed
      then have "find (header_at text sec) [tmp - 1..<length text] = find (header_at text sec) [p + length sec - 1..<length text]"
        using p(1) by (intro find_upt_skip) auto
      moreover have "length text - (p + length sec) < length text - tmp" using ends p(1) sec(1) by (cases sec) auto
      ultimately show ?thesis using step False less.hyps [of "p + length sec"] ends by simp
    qed
  qed
qed

lemma next_loop_finds:
  assumes ok: "text_ok text"
  shows "0 < test \<Longrightarrow> test \<le> length text \<Longrightarrow>
    ini_next_loop (text @ [NUL]) test = Some (find (\<lambda>k. line_start text k \<and> text ! k = CHR ''['') [test..<length text])"
proof (induction "length text - test" arbitrary: test rule: less_induct)
  case less
  let ?occ = "find (\<lambda>p. prefix ''['' (drop p text)) [test..<Suc (length text)]"
  have br: "prefix ''['' (drop p text) \<longleftrightarrow> p < length text \<and> text ! p = CHR ''[''" for p by (auto simp: prefix_drop)
  show ?case
  proof (cases ?occ)
    case None
    then have "find (\<lambda>k. line_start text k \<and> text ! k = CHR ''['') [test..<length text] = None" by (auto simp: find_upt_None br)
    with None show ?thesis using less.prems ok by (subst ini_next_loop.simps) (simp add: str_str_text)
  next
    case (Some p)
    then have p: "test \<le> p" "p < length text" "text ! p = CHR ''[''" "\<And>j. test \<le> j \<Longrightarrow> j < p \<Longrightarrow> text ! j \<noteq> CHR ''[''"
      by (auto simp: find_upt_Some br)
    have step: "ini_next_loop (text @ [NUL]) test = (if text ! (p - 1) = LF then Some (Some p) else ini_next_loop (text @ [NUL]) (p + 1))"
      using less.prems ok Some p by (subst ini_next_loop.simps) (auto simp: str_str_text ch_at_text)
    show ?thesis
    proof (cases "text ! (p - 1) = LF")
      case True
      then have "find (\<lambda>k. line_start text k \<and> text ! k = CHR ''['') [test..<length text] = Some p"
        using p by (auto simp: find_upt_Some line_start_def)
      with step True show ?thesis by simp
    next
      case False
      have "find (\<lambda>k. line_start text k \<and> text ! k = CHR ''['') [test..<length text]
          = find (\<lambda>k. line_start text k \<and> text ! k = CHR ''['') [p + 1..<length text]"
        using p False less.prems(1) by (intro find_upt_skip) (auto simp: line_start_def less_Suc_eq)
      with step False less.hyps [of "p + 1"] p(1,2) show ?thesis by simp
    qed
  qed
qed

lemma item_loop_finds:
  assumes ok: "text_ok text" and item: "item \<noteq> []" "LF \<notin> set item" and nxt: "nxt \<le> length text"
  shows "0 < tmp \<Longrightarrow> tmp < length text \<Longrightarrow> ini_item_loop (text @ [NUL]) (length text) item nxt tmp
    = Some (case find (item_at text item) [tmp..<nxt] of None \<Rightarrow> Inl E_INI_FILE
        | Some i \<Rightarrow> (case find (\<lambda>v. text ! v = CHR ''='') [i..<length text] of None \<Rightarrow> Inl E_INI_FILE | Some v \<Rightarrow> Inr (Some (v + 1))))"
proof (induction "length text - tmp" arbitrary: tmp rule: less_induct)
  case less
  let ?occ = "find (\<lambda>p. prefix item (drop p text)) [tmp..<Suc (length text)]"
  show ?case
  proof (cases "\<exists>p. ?occ = Some p \<and> p < nxt")
    case False
    then have "\<not> item_at text item i" if "tmp \<le> i" "i < nxt" for i
    proof (cases ?occ)
      case None
      then show ?thesis using that nxt by (auto simp: find_upt_None item_at_def)
    next
      case (Some p)
      then show ?thesis using False that by (auto simp: find_upt_Some item_at_def)
    qed
    then have "find (item_at text item) [tmp..<nxt] = None" by (simp add: find_upt_None)
    with False show ?thesis using less.prems ok
      by (subst ini_item_loop.simps) (auto simp: str_str_text not_less split: option.splits)
  next
    case True
    then obtain p where occ: "?occ = Some p" and "p < nxt" by blast
    then have p: "tmp \<le> p" "p < nxt" "prefix item (drop p text)" "\<And>j. tmp \<le> j \<Longrightarrow> j < p \<Longrightarrow> \<not> prefix item (drop j text)"
      by (auto simp: find_upt_Some)
    have ends: "p + length item < length text" by (rule occurrence_inside [OF ok item p(3)])
    have p0: "0 < p" using less.prems(1) p(1) by simp
    have at: "item_at text item p \<longleftrightarrow> text ! (p - 1) = LF \<and> text ! (p + length item) \<in> {CHR '' '', CHR ''='', TAB}"
      using p(3) p0 by (auto simp: item_at_def line_start_def)
    let ?v = "find (\<lambda>v. text ! v = CHR ''='') [p..<length text]"
    have eq: "find (\<lambda>q. prefix ''='' (drop q text)) [p..<Suc (length text)] = ?v"
    proof (cases ?v)
      case None
      then have "find (\<lambda>q. prefix ''='' (drop q text)) [p..<Suc (length text)] = None" by (auto simp: find_upt_None prefix_drop)
      with None show ?thesis by simp
    next
      case (Some v)
      then have "find (\<lambda>q. prefix ''='' (drop q text)) [p..<Suc (length text)] = Some v" by (auto simp: find_upt_Some prefix_drop)
      with Some show ?thesis by simp
    qed
    have v: "\<not> v + 1 \<ge> length text" if "?v = Some v" for v
    proof
      assume "v + 1 \<ge> length text"
      with that have "v = length text - 1" "text ! v = CHR ''=''" by (auto simp: find_upt_Some)
      then show False using ok by (auto simp: text_ok_def last_conv_nth)
    qed
    have step: "ini_item_loop (text @ [NUL]) (length text) item nxt tmp
      = (if item_at text item p then Some (case ?v of None \<Rightarrow> Inl E_INI_FILE | Some v \<Rightarrow> Inr (Some (v + 1)))
         else ini_item_loop (text @ [NUL]) (length text) item nxt (p + length item))"
      using less.prems ok occ p(2) p0 ends at nxt v
      by (subst ini_item_loop.simps) (auto simp: str_str_text ch_at_text eq split: option.splits)
    show ?thesis
    proof (cases "item_at text item p")
      case True
      then have "find (item_at text item) [tmp..<nxt] = Some p"
        using p by (auto simp: find_upt_Some item_at_def)
      with step True show ?thesis by (simp split: option.splits)
    next
      case False
      have "\<not> item_at text item i" if "tmp \<le> i" "i < p + length item" "i < nxt" for i
      proof
        assume i: "item_at text item i"
        then have "prefix item (drop i text)" "line_start text i" by (auto simp: item_at_def)
        then have "p < i" using p(4) that(1) False i by (metis linorder_neqE_nat)
        then have "text ! (i - 1) = LF" using \<open>line_start text i\<close> by (auto simp: line_start_def)
        moreover have "text ! (p + (i - 1 - p)) = item ! (i - 1 - p)" "i - 1 - p < length item"
          using prefix_nth [OF p(3), of "i - 1 - p"] \<open>p < i\<close> that(2) by auto
        ultimately show False using item(2) \<open>p < i\<close> nth_mem [of "i - 1 - p" item] by simp
      qed
      then have "find (item_at text item) [tmp..<nxt] = find (item_at text item) [p + length item..<nxt]"
        using p(1) by (intro find_upt_skip) auto
      moreover have "length text - (p + length item) < length text - tmp" using ends p(1) item(1) by (cases item) auto
      ultimately show ?thesis using step False less.hyps [of "p + length item"] ends p0 by simp
    qed
  qed
qed

section \<open>Looking up agrees with the reference\<close>

abbreviation ini_of :: "string \<Rightarrow> ini" where "ini_of text \<equiv> \<lparr>m_szBuffer = Some (text @ [NUL]), m_iSize = length text\<rparr>"

lemma ini_new_of: "ini_new (Some (length text, Some text)) = Some (if text = [] then \<lparr>m_szBuffer = None, m_iSize = 0\<rparr> else ini_of text)"
  by (simp add: ini_new_def)

definition name_ok :: "string \<Rightarrow> bool" where
  "name_ok s \<longleftrightarrow> s \<noteq> [] \<and> set s \<inter> {LF, CR, NUL, CHR ''['', CHR '']'', CHR ''='', CHR '' '', TAB, CHR '';''} = {}"

definition ini_answer :: "string \<Rightarrow> nat \<Rightarrow> string option \<Rightarrow> nat option \<Rightarrow> (int \<times> string option) option" where
  "ini_answer text len dflt r = (case r of
      None \<Rightarrow> Some (E_INI_FILE, dflt)
    | Some v \<Rightarrow> map_option (\<lambda>out. (SUCCESS, Some (ini_TrimString out))) (ini_copy_loop (len - 1) 0 [] (drop v text @ [NUL])))"

lemma GetString_agrees:
  assumes "text_ok text" "sec \<noteq> []" "LF \<notin> set sec" "CHR ''['' \<notin> set sec" "\<not> prefix sec text" "item \<noteq> []" "LF \<notin> set item"
  shows "ini_GetString (ini_of text) sec item dflt len = ini_answer text len (str_ncpy dflt len) (ini_ref text sec item)"
proof -
  let ?h = "find (header_at text sec) [0..<length text]"
  have valid: "ini_IsValid (ini_of text)" and ne: "0 < length text" using assms(1) by (auto simp: ini_IsValid_def text_ok_def)
  have loop: "ini_section_loop (text @ [NUL]) (length text) sec 0 = Some (case ?h of None \<Rightarrow> Inl E_INI_FILE | Some i \<Rightarrow> Inr (i + 1))"
    using section_loop_finds [OF assms(1-5) ne] by simp
  show ?thesis
  proof (cases ?h)
    case None
    then show ?thesis using valid loop by (simp add: ini_GetString_def ini_ref_def ini_answer_def)
  next
    case (Some i)
    then have h: "header_at text sec i" by (simp add: find_upt_Some)
    then have i: "i + 1 < length text" by (simp add: header_at_name [OF assms(2)])
    let ?n = "find (\<lambda>k. line_start text k \<and> text ! k = CHR ''['') [i + 1..<length text]"
    let ?stop = "case ?n of None \<Rightarrow> length text | Some k \<Rightarrow> k"
    have e: "?stop \<le> length text" by (auto simp: find_upt_Some split: option.splits)
    have n: "ini_next_loop (text @ [NUL]) (i + 1) = Some ?n" using next_loop_finds [OF assms(1), of "i + 1"] i by simp
    have it: "ini_item_loop (text @ [NUL]) (length text) item ?stop (i + 1)
      = Some (case find (item_at text item) [i + 1..<?stop] of None \<Rightarrow> Inl E_INI_FILE
        | Some i \<Rightarrow> (case find (\<lambda>v. text ! v = CHR ''='') [i..<length text] of None \<Rightarrow> Inl E_INI_FILE | Some v \<Rightarrow> Inr (Some (v + 1))))"
      using item_loop_finds [OF assms(1,6,7) e, of "i + 1"] i by simp
    have vl: "v < length text" if "find (\<lambda>v. text ! v = CHR ''='') [j..<length text] = Some v" for j v
      using that by (simp add: find_upt_Some)
    define bound where "bound = ?stop"
    note it = it [folded bound_def]
    have run: "ini_GetString (ini_of text) sec item dflt len = (case ini_item_loop (text @ [NUL]) (length text) item bound (i + 1) of
        None \<Rightarrow> None
      | Some (Inl err) \<Rightarrow> Some (err, str_ncpy dflt len)
      | Some (Inr None) \<Rightarrow> do { s \<leftarrow> str_ncpy dflt len; Some (SUCCESS, Some (ini_TrimString s)) }
      | Some (Inr (Some v)) \<Rightarrow> do { out \<leftarrow> ini_copy_loop (len - 1) 0 [] (drop v (text @ [NUL])); Some (SUCCESS, Some (ini_TrimString out)) })"
      using valid loop Some n unfolding ini_GetString_def Let_def bound_def
      by (simp split: option.split sum.split)
    have ref: "ini_ref text sec item = do {
        j \<leftarrow> find (item_at text item) [i + 1..<bound]; v \<leftarrow> find (\<lambda>v. text ! v = CHR ''='') [j..<length text]; Some (v + 1) }"
      using Some unfolding ini_ref_def Let_def bound_def by simp
    show ?thesis
    proof (cases "find (item_at text item) [i + 1..<bound]")
      case None
      then show ?thesis using it by (simp add: run ref ini_answer_def)
    next
      case j: (Some j)
      then show ?thesis using it vl [of j]
        by (cases "find (\<lambda>v. text ! v = CHR ''='') [j..<length text]")
          (auto simp: run ref ini_answer_def map_option_case split: option.split)
    qed
  qed
qed

end
