(* ===== verification/IniFileRender.thy ===== *)
theory IniFileRender
  imports IniFileSpec
begin

text \<open>
  Configuration files written from sections, keys and values, one line each: the declarative
  reference of \<open>IniFileSpec\<close> finds in such a text the first occurrence of the key in the first
  occurrence of the section, so that \<open>GetString\<close>, \<open>GetInt\<close> and \<open>GetULongLong\<close> read back what was
  written.
\<close>

section \<open>Texts made of lines\<close>

definition flat_lines :: "string list \<Rightarrow> string" where
  "flat_lines ls = concat (map (\<lambda>l. l @ [LF]) ls)"

lemma flat_lines_simps [simp]:
  "flat_lines [] = []" "flat_lines (l # ls) = l @ LF # flat_lines ls" "flat_lines (xs @ ys) = flat_lines xs @ flat_lines ys"
  by (simp_all add: flat_lines_def)

lemma line_start_flat: "line_start (flat_lines A @ r) (length (flat_lines A))"
proof (cases A rule: rev_cases)
  case (snoc A' l)
  then show ?thesis by (simp add: line_start_def nth_append)
qed (simp add: line_start_def)

lemma line_inside: "LF \<notin> set l \<Longrightarrow> 0 < k \<Longrightarrow> k \<le> length l \<Longrightarrow> \<not> line_start (flat_lines A @ l @ r) (length (flat_lines A) + k)"
  by (cases k) (auto simp: line_start_def nth_append in_set_conv_nth)

text \<open>A search for something that only begins lines goes from line to line.\<close>

lemma find_line_skip:
  assumes P: "\<And>i. P i \<Longrightarrow> line_start text i" and t: "text = flat_lines A @ l @ LF # r" and l: "LF \<notin> set l"
    and s: "length (flat_lines A) \<le> s" "s \<le> length (flat_lines A) + length l + 1"
    and n: "s = length (flat_lines A) \<Longrightarrow> \<not> P s"
  shows "find P [s..<m] = find P [length (flat_lines A) + length l + 1..<m]"
proof (rule find_upt_skip [OF s(2)])
  fix j assume j: "s \<le> j" "j < length (flat_lines A) + length l + 1"
  show "\<not> P j"
  proof (cases "j = length (flat_lines A)")
    case True
    then show ?thesis using n j s by auto
  next
    case False
    then have "\<not> line_start text (length (flat_lines A) + (j - length (flat_lines A)))"
      unfolding t using j s l by (intro line_inside) auto
    then show ?thesis using P [of j] False j s by auto
  qed
qed

lemma find_line:
  assumes P: "\<And>i. P i \<Longrightarrow> line_start text i"
  shows "text = flat_lines (A0 @ A @ B) \<Longrightarrow> \<forall>l \<in> set A. LF \<notin> set l \<Longrightarrow>
    (\<And>A1 a A2. A = A1 @ a # A2 \<Longrightarrow> \<not> P (length (flat_lines (A0 @ A1)))) \<Longrightarrow>
    find P [length (flat_lines A0)..<m] = find P [length (flat_lines (A0 @ A))..<m]"
proof (induction A arbitrary: A0)
  case (Cons a A)
  have "\<not> P (length (flat_lines A0))" using Cons.prems(3) [of "[]" a A] by simp
  then have "find P [length (flat_lines A0)..<m] = find P [length (flat_lines A0) + length a + 1..<m]"
    using Cons.prems(1,2) by (intro find_line_skip [OF P]) auto
  also have "\<dots> = find P [length (flat_lines (A0 @ [a]))..<m]" by simp
  also have "\<dots> = find P [length (flat_lines ((A0 @ [a]) @ A))..<m]"
  proof (rule Cons.IH)
    fix A1 b A2 assume "A = A1 @ b # A2"
    then show "\<not> P (length (flat_lines ((A0 @ [a]) @ A1)))" using Cons.prems(3) [of "a # A1" b A2] by simp
  qed (use Cons.prems in auto)
  finally show ?case by simp
qed simp

lemma prefix_line: "LF \<notin> set xs \<Longrightarrow> prefix xs (a @ LF # r) \<longleftrightarrow> prefix xs a"
  by (auto simp: prefix_append prefix_Cons)

lemma header_at_line:
  assumes "LF \<notin> set sec"
  shows "header_at (flat_lines A @ a @ LF # r) sec (length (flat_lines A)) \<longleftrightarrow> prefix (CHR ''['' # sec @ '']'') a"
  using assms by (simp add: header_at_def line_start_flat prefix_line)

lemma item_at_line:
  assumes "LF \<notin> set item"
  shows "item_at (flat_lines A @ a @ LF # r) item (length (flat_lines A))
    \<longleftrightarrow> (\<exists>c b. a = item @ c # b \<and> c \<in> {CHR '' '', CHR ''='', TAB})"
proof -
  have "prefix item a \<and> (flat_lines A @ a @ LF # r) ! (length (flat_lines A) + length item) \<in> {CHR '' '', CHR ''='', TAB}
      \<longleftrightarrow> (\<exists>c b. a = item @ c # b \<and> c \<in> {CHR '' '', CHR ''='', TAB})"
  proof
    assume *: "prefix item a \<and> (flat_lines A @ a @ LF # r) ! (length (flat_lines A) + length item) \<in> {CHR '' '', CHR ''='', TAB}"
    then obtain b where "a = item @ b" by (auto simp: prefix_def)
    then show "\<exists>c b. a = item @ c # b \<and> c \<in> {CHR '' '', CHR ''='', TAB}" using * by (cases b) (auto simp: nth_append)
  qed (auto simp: nth_append)
  then show ?thesis using assms by (simp add: item_at_def line_start_flat prefix_line)
qed

section \<open>Configurations\<close>

type_synonym config = "(string \<times> (string \<times> string) list) list"

definition item_line :: "string \<times> string \<Rightarrow> string" where "item_line kv = fst kv @ ''='' @ snd kv"

definition head_line :: "string \<Rightarrow> string" where "head_line s = CHR ''['' # s @ '']''"

definition config_lines :: "config \<Rightarrow> string list" where
  "config_lines cfg = concat (map (\<lambda>s. head_line (fst s) # map item_line (snd s)) cfg)"

definition render :: "config \<Rightarrow> string" where "render cfg = flat_lines (config_lines cfg)"

definition value_ok :: "string \<Rightarrow> bool" where "value_ok v \<longleftrightarrow> set v \<inter> {LF, CR, NUL, CHR '';''} = {}"

definition section_ok :: "string \<times> (string \<times> string) list \<Rightarrow> bool" where
  "section_ok s \<longleftrightarrow> name_ok (fst s) \<and> (\<forall>kv \<in> set (snd s). name_ok (fst kv) \<and> value_ok (snd kv))"

definition config_ok :: "config \<Rightarrow> bool" where "config_ok cfg \<longleftrightarrow> cfg \<noteq> [] \<and> (\<forall>s \<in> set cfg. section_ok s)"

lemma config_lines_simps [simp]:
  "config_lines [] = []" "config_lines (s # cfg) = head_line (fst s) # map item_line (snd s) @ config_lines cfg"
  "config_lines (xs @ ys) = config_lines xs @ config_lines ys"
  by (simp_all add: config_lines_def)

lemma name_okD: "name_ok s \<Longrightarrow> s \<noteq> [] \<and> LF \<notin> set s \<and> NUL \<notin> set s \<and> CHR ''['' \<notin> set s \<and> CHR '']'' \<notin> set s \<and> CHR ''='' \<notin> set s \<and> CHR '' '' \<notin> set s \<and> TAB \<notin> set s"
  by (auto simp: name_ok_def)

lemma value_okD: "value_ok s \<Longrightarrow> LF \<notin> set s \<and> CR \<notin> set s \<and> NUL \<notin> set s \<and> CHR '';'' \<notin> set s"
  by (auto simp: value_ok_def)

lemma config_line_cases:
  assumes "a \<in> set (config_lines cfg)"
  obtains (head) s where "s \<in> set cfg" "a = head_line (fst s)" | (item) s kv where "s \<in> set cfg" "kv \<in> set (snd s)" "a = item_line kv"
  using assms by (auto simp: config_lines_def)

lemma line_ok: "name_ok s \<Longrightarrow> LF \<notin> set (head_line s) \<and> NUL \<notin> set (head_line s)"
  "name_ok (fst kv) \<Longrightarrow> value_ok (snd kv) \<Longrightarrow> LF \<notin> set (item_line kv) \<and> NUL \<notin> set (item_line kv)"
  by (auto simp: item_line_def head_line_def dest!: name_okD value_okD)

lemma config_lines_ok:
  assumes "\<forall>s \<in> set cfg. section_ok s" "l \<in> set (config_lines cfg)"
  shows "LF \<notin> set l \<and> NUL \<notin> set l"
  using assms(2)
proof (cases rule: config_line_cases)
  case (head s)
  then show ?thesis using assms(1) line_ok(1) by (auto simp: section_ok_def)
next
  case (item s kv)
  then show ?thesis using assms(1) line_ok(2) [of kv] by (auto simp: section_ok_def)
qed

lemma head_line_prefix: "name_ok s \<Longrightarrow> name_ok sec \<Longrightarrow> prefix (CHR ''['' # sec @ '']'') (head_line s) \<longleftrightarrow> s = sec"
proof -
  assume ok: "name_ok s" "name_ok sec"
  have "s = sec" if e: "s @ '']'' = sec @ CHR '']'' # z" for z
    using e ok by (auto simp: append_eq_append_conv2 append_eq_Cons_conv Cons_eq_append_conv dest!: name_okD)
  then show ?thesis by (auto simp: head_line_def prefix_def)
qed

lemma item_line_head: "name_ok (fst kv) \<Longrightarrow> \<not> prefix (CHR ''['' # z) (item_line kv)"
  by (cases kv; cases "fst kv") (auto simp: item_line_def dest!: name_okD)

lemma item_line_item: "name_ok (fst kv) \<Longrightarrow> name_ok item \<Longrightarrow>
    (\<exists>c b. item_line kv = item @ c # b \<and> c \<in> {CHR '' '', CHR ''='', TAB}) \<longleftrightarrow> fst kv = item"
proof -
  assume ok: "name_ok (fst kv)" "name_ok item"
  have "fst kv = item" if e: "fst kv @ CHR ''='' # snd kv = item @ c # b" "c \<in> {CHR '' '', CHR ''='', TAB}" for c b
    using e ok by (auto simp: append_eq_append_conv2 append_eq_Cons_conv Cons_eq_append_conv dest!: name_okD)
  moreover have "\<exists>c b. item_line kv = item @ c # b \<and> c \<in> {CHR '' '', CHR ''='', TAB}" if "fst kv = item"
    using that by (intro exI [of _ "CHR ''=''"] exI [of _ "snd kv"]) (simp add: item_line_def)
  ultimately show ?thesis by (auto simp: item_line_def)
qed

lemma no_header_line:
  assumes "\<forall>s \<in> set cfg. section_ok s" "name_ok sec" "sec \<notin> fst ` set cfg" "a \<in> set (config_lines cfg)"
  shows "\<not> prefix (CHR ''['' # sec @ '']'') a"
  using assms(4)
proof (cases rule: config_line_cases)
  case (head s)
  then show ?thesis using assms by (auto simp: section_ok_def head_line_prefix)
next
  case (item s kv)
  then show ?thesis using assms(1) by (auto simp: section_ok_def item_line_head)
qed

lemma find_here: "P a \<Longrightarrow> a < n \<Longrightarrow> find P [a..<n] = Some a"
  by (simp add: find_upt_Some)

lemma find_header_skip:
  assumes "\<forall>s \<in> set pre. section_ok s" "name_ok sec" "sec \<notin> fst ` set pre" "text = flat_lines (config_lines pre @ B)"
  shows "find (header_at text sec) [0..<m] = find (header_at text sec) [length (flat_lines (config_lines pre))..<m]"
proof -
  have "find (header_at text sec) [length (flat_lines [])..<m] = find (header_at text sec) [length (flat_lines ([] @ config_lines pre))..<m]"
  proof (rule find_line)
    fix A1 a A2 assume *: "config_lines pre = A1 @ a # A2"
    then have "\<not> prefix (CHR ''['' # sec @ '']'') a" by (intro no_header_line [OF assms(1-3)]) simp
    then show "\<not> header_at text sec (length (flat_lines ([] @ A1)))"
      using header_at_line [of sec A1 a] name_okD [OF assms(2)] by (simp add: assms(4) *)
  qed (use assms config_lines_ok in \<open>auto simp: header_at_def\<close>)
  then show ?thesis by simp
qed

text \<open>From behind the start of a section's header, whatever begins none of its items is found
  behind the section.\<close>

lemma find_section_skip:
  assumes P: "\<And>i. P i \<Longrightarrow> line_start text i" and s: "section_ok (sec, kvs)"
    and t: "text = flat_lines (A @ head_line sec # map item_line kpre @ B)" and kv: "set kpre \<subseteq> set kvs"
    and n: "\<And>A' kv B'. kv \<in> set kpre \<Longrightarrow> text = flat_lines (A' @ item_line kv # B') \<Longrightarrow> \<not> P (length (flat_lines A'))"
  shows "find P [length (flat_lines A) + 1..<m] = find P [length (flat_lines (A @ head_line sec # map item_line kpre))..<m]"
proof -
  have hl: "LF \<notin> set (head_line sec)" using s line_ok(1) by (auto simp: section_ok_def)
  have "find P [length (flat_lines A) + 1..<m] = find P [length (flat_lines A) + length (head_line sec) + 1..<m]"
    using t by (intro find_line_skip [OF P _ hl]) (auto simp: head_line_def)
  also have "\<dots> = find P [length (flat_lines (A @ [head_line sec]))..<m]" by simp
  also have "\<dots> = find P [length (flat_lines ((A @ [head_line sec]) @ map item_line kpre))..<m]"
  proof (rule find_line [OF P])
    show "text = flat_lines ((A @ [head_line sec]) @ map item_line kpre @ B)" using t by simp
    have "LF \<notin> set (item_line kv)" if "kv \<in> set kpre" for kv using that kv s line_ok(2) [of kv] by (auto simp: section_ok_def)
    then show "\<forall>l \<in> set (map item_line kpre). LF \<notin> set l" by auto
    fix A1 a A2 assume *: "map item_line kpre = A1 @ a # A2"
    then have "a \<in> set (map item_line kpre)" by simp
    then obtain kv where "kv \<in> set kpre" "a = item_line kv" by auto
    moreover have "text = flat_lines (((A @ [head_line sec]) @ A1) @ a # (A2 @ B))" using t * by simp
    ultimately show "\<not> P (length (flat_lines ((A @ [head_line sec]) @ A1)))" using n by blast
  qed
  finally show ?thesis by simp
qed

section \<open>The reference on a rendered configuration\<close>

lemma bracket_line: "length (flat_lines A') < length text \<Longrightarrow> text = flat_lines (A' @ a # B') \<Longrightarrow> text ! length (flat_lines A') = CHR ''['' \<longleftrightarrow> prefix ''['' a"
  by (cases a) (auto simp: nth_append)

lemma find_section_end:
  assumes s: "section_ok (sec, kvs)" and t: "text = flat_lines (A @ head_line sec # map item_line kvs @ config_lines post)"
  shows "(case find (\<lambda>k. line_start text k \<and> text ! k = CHR ''['') [length (flat_lines A) + 1..<length text] of None \<Rightarrow> length text | Some k \<Rightarrow> k)
    = length (flat_lines (A @ head_line sec # map item_line kvs))"
proof -
  let ?P = "\<lambda>k. line_start text k \<and> text ! k = CHR ''[''"
  let ?e = "length (flat_lines (A @ head_line sec # map item_line kvs))"
  have "\<not> ?P (length (flat_lines A'))" if "kv \<in> set kvs" "text = flat_lines (A' @ item_line kv # B')" for A' kv B'
  proof -
    have "\<not> prefix ''['' (item_line kv)" using that(1) s item_line_head by (auto simp: section_ok_def)
    then show ?thesis using bracket_line [OF _ that(2)] that(2) by simp
  qed
  then have e: "find ?P [length (flat_lines A) + 1..<length text] = find ?P [?e..<length text]"
    by (intro find_section_skip [OF _ s t]) auto
  show ?thesis
  proof (cases post)
    case Nil
    then have "length text = ?e" using t by simp
    then show ?thesis using e by simp
  next
    case (Cons s' post')
    then have "text = flat_lines ((A @ head_line sec # map item_line kvs) @ head_line (fst s') # map item_line (snd s') @ config_lines post')"
      using t by simp
    then have "?P ?e" "?e < length text" using line_start_flat [of "A @ head_line sec # map item_line kvs"]
      by (simp_all add: nth_append head_line_def)
    then show ?thesis using e find_here [of ?P ?e "length text"] by simp
  qed
qed

lemma item_at_line_start: "item_at text item i \<Longrightarrow> line_start text i"
  by (simp add: item_at_def)

lemma find_item:
  assumes s: "section_ok (sec, kvs)" and t: "text = flat_lines (A @ head_line sec # map item_line kvs @ B)" and i: "name_ok item"
  shows "item \<notin> fst ` set kvs \<Longrightarrow>
      find (item_at text item) [length (flat_lines A) + 1..<length (flat_lines (A @ head_line sec # map item_line kvs))] = None" (is "_ \<Longrightarrow> ?none")
    and "kvs = kpre @ (item, v) # kpost \<Longrightarrow> item \<notin> fst ` set kpre \<Longrightarrow>
      find (item_at text item) [length (flat_lines A) + 1..<length (flat_lines (A @ head_line sec # map item_line kvs))]
      = Some (length (flat_lines (A @ head_line sec # map item_line kpre)))" (is "_ \<Longrightarrow> _ \<Longrightarrow> ?some")
proof -
  have skip: "\<not> item_at text item (length (flat_lines A'))"
    if "kv \<in> set kvs" "fst kv \<noteq> item" "text = flat_lines (A' @ item_line kv # B')" for A' kv B'
    using that s i item_at_line [of item A' "item_line kv" "flat_lines B'"] item_line_item [of kv item] name_okD [OF i]
    by (auto simp: section_ok_def)
  {
    assume "item \<notin> fst ` set kvs"
    then have "fst kv \<noteq> item" if "kv \<in> set kvs" for kv using that by auto
    then have "find (item_at text item) [length (flat_lines A) + 1..<m] = find (item_at text item) [length (flat_lines (A @ head_line sec # map item_line kvs))..<m]" for m
      by (intro find_section_skip [OF item_at_line_start s t subset_refl] skip)
    then show ?none by simp
  next
    assume k: "kvs = kpre @ (item, v) # kpost" "item \<notin> fst ` set kpre"
    let ?p = "length (flat_lines (A @ head_line sec # map item_line kpre))"
    have t': "text = flat_lines (A @ head_line sec # map item_line kpre @ map item_line ((item, v) # kpost) @ B)" using t k by simp
    have "set kpre \<subseteq> set kvs" "\<And>kv. kv \<in> set kpre \<Longrightarrow> fst kv \<noteq> item" using k by auto
    then have "find (item_at text item) [length (flat_lines A) + 1..<m] = find (item_at text item) [?p..<m]" for m
      by (intro find_section_skip [OF item_at_line_start s t'] skip) auto
    moreover have "text = flat_lines (A @ head_line sec # map item_line kpre) @ item_line (item, v) @ LF # flat_lines (map item_line kpost @ B)"
      using t' by simp
    then have "item_at text item ?p" using item_at_line [of item "A @ head_line sec # map item_line kpre" "item_line (item, v)"] name_okD [OF i]
      by (simp add: item_line_def)
    moreover have "?p < length (flat_lines (A @ head_line sec # map item_line kvs))" using k by simp
    ultimately show ?some using find_here [of "item_at text item" ?p] by simp
  }
qed

lemma find_equals:
  assumes "text = a @ item @ CHR ''='' # b" "CHR ''='' \<notin> set item"
  shows "find (\<lambda>v. text ! v = CHR ''='') [length a..<length text] = Some (length a + length item)"
proof -
  have "text ! j \<noteq> CHR ''=''" if "length a \<le> j" "j < length a + length item" for j
  proof -
    have "text ! j = item ! (j - length a)" "j - length a < length item" using that assms(1) by (auto simp: nth_append)
    then show ?thesis using assms(2) by (metis nth_mem)
  qed
  then show ?thesis using assms(1) by (auto simp: find_upt_Some nth_append)
qed

lemma first_split:
  obtains "x \<notin> fst ` set xs" "map_of xs x = None" | pre y post where "xs = pre @ (x, y) # post" "x \<notin> fst ` set pre" "map_of xs x = Some y"
proof (induction xs arbitrary: thesis)
  case (Cons p xs)
  obtain x' y where p: "p = (x', y)" by (cases p)
  show ?case
  proof (cases "x' = x")
    case True
    then show ?thesis using Cons.prems(2) [of "[]" y xs] p by simp
  next
    case False
    show ?thesis
    proof (rule Cons.IH)
      assume "x \<notin> fst ` set xs" "map_of xs x = None"
      then show ?thesis using Cons.prems(1) False p by auto
    next
      fix pre z post assume "xs = pre @ (x, z) # post" "x \<notin> fst ` set pre" "map_of xs x = Some z"
      then show ?thesis using Cons.prems(2) [of "p # pre" z post] False p by auto
    qed
  qed
qed simp

lemma ini_ref_render:
  assumes ok: "config_ok cfg" and sec: "name_ok sec" and item: "name_ok item"
  shows "case ini_ref (render cfg) sec item of
      None \<Rightarrow> Option.bind (map_of cfg sec) (\<lambda>kvs. map_of kvs item) = None
    | Some p \<Rightarrow> \<exists>v r. Option.bind (map_of cfg sec) (\<lambda>kvs. map_of kvs item) = Some v \<and> value_ok v \<and> drop p (render cfg) = v @ LF # r"
proof (rule first_split [of sec cfg])
  assume no: "sec \<notin> fst ` set cfg" "map_of cfg sec = None"
  have "find (header_at (render cfg) sec) [0..<length (render cfg)]
      = find (header_at (render cfg) sec) [length (flat_lines (config_lines cfg))..<length (render cfg)]"
    using ok no sec by (intro find_header_skip [of _ _ _ "[]"]) (auto simp: config_ok_def render_def)
  then have "ini_ref (render cfg) sec item = None" by (simp add: ini_ref_def render_def)
  then show ?thesis using no by simp
next
  fix pre kvs post assume c: "cfg = pre @ (sec, kvs) # post" "sec \<notin> fst ` set pre" "map_of cfg sec = Some kvs"
  let ?t = "render cfg" and ?A = "config_lines pre"
  have s: "section_ok (sec, kvs)" and pre: "\<forall>s \<in> set pre. section_ok s" using ok c(1) by (auto simp: config_ok_def)
  have t: "?t = flat_lines (?A @ head_line sec # map item_line kvs @ config_lines post)" by (simp add: render_def c(1))
  have h: "header_at ?t sec (length (flat_lines ?A))"
    using header_at_line [of sec ?A "head_line sec"] name_okD [OF sec] by (simp add: t head_line_def)
  have "find (header_at ?t sec) [0..<length ?t] = find (header_at ?t sec) [length (flat_lines ?A)..<length ?t]"
    by (rule find_header_skip [OF pre sec c(2) t])
  also have "\<dots> = Some (length (flat_lines ?A))" using h t by (intro find_here) auto
  finally have ref: "ini_ref ?t sec item = do {
      j \<leftarrow> find (item_at ?t item) [length (flat_lines ?A) + 1..<length (flat_lines (?A @ head_line sec # map item_line kvs))];
      v \<leftarrow> find (\<lambda>v. ?t ! v = CHR ''='') [j..<length ?t]; Some (v + 1) }"
    unfolding ini_ref_def Let_def using find_section_end [OF s t] by simp
  show ?thesis
  proof (rule first_split [of item kvs])
    assume "item \<notin> fst ` set kvs" "map_of kvs item = None"
    then show ?thesis using find_item(1) [OF s t item] c(3) by (simp add: ref)
  next
    fix kpre v kpost assume k: "kvs = kpre @ (item, v) # kpost" "item \<notin> fst ` set kpre" "map_of kvs item = Some v"
    let ?B = "?A @ head_line sec # map item_line kpre"
    have t': "?t = flat_lines ?B @ item @ CHR ''='' # v @ LF # flat_lines (map item_line kpost @ config_lines post)"
      by (simp add: t k(1) item_line_def)
    have "find (\<lambda>v. ?t ! v = CHR ''='') [length (flat_lines ?B)..<length ?t] = Some (length (flat_lines ?B) + length item)"
      using name_okD [OF item] by (intro find_equals [OF t']) auto
    then have "ini_ref ?t sec item = Some (length (flat_lines ?B) + length item + 1)"
      using find_item(2) [OF s t item k(1,2)] by (simp add: ref)
    moreover have "drop (length (flat_lines ?B) + length item + 1) ?t = v @ LF # flat_lines (map item_line kpost @ config_lines post)"
      unfolding t' by simp
    moreover have "value_ok v" using s k(1) by (auto simp: section_ok_def)
    ultimately show ?thesis using c(3) k(3) by auto
  qed
qed


section \<open>The value\<close>

abbreviation blank :: "char \<Rightarrow> bool" where "blank c \<equiv> c = CHR '' '' \<or> c = TAB"

lemma copy_loop_value:
  "value_ok v \<Longrightarrow> length out + length v \<le> limit \<Longrightarrow>
    ini_copy_loop limit n out (v @ LF # r) = Some (out @ (if out = [] then dropWhile blank v else v))"
proof (induction v arbitrary: n out)
  case (Cons c v)
  then have v: "value_ok v" and c: "c \<noteq> LF" "c \<noteq> CR" "c \<noteq> NUL" "c \<noteq> CHR '';''" by (auto simp: value_ok_def)
  show ?case
  proof (cases "blank c \<and> out = []")
    case True
    then show ?thesis using Cons.IH [OF v, of out "n + 1"] Cons.prems(2) c by simp
  next
    case False
    then show ?thesis using Cons.IH [OF v, of "out @ [c]" "n + 1"] Cons.prems(2) c by auto
  qed
qed simp

lemma trim_dropped: "(\<And>c. c \<in> set a \<Longrightarrow> trim_char c) \<Longrightarrow> ini_TrimString (a @ b) = ini_TrimString b"
proof (cases "\<forall>c \<in> set b. trim_char c")
  case True
  assume "\<And>c. c \<in> set a \<Longrightarrow> trim_char c"
  then have e: "dropWhile trim_char (rev b @ rev a) = []" "dropWhile trim_char (rev b) = []" using True by auto
  show ?thesis unfolding ini_TrimString_def rev_append e by simp
next
  case False
  assume a: "\<And>c. c \<in> set a \<Longrightarrow> trim_char c"
  from False obtain c where "c \<in> set (rev b)" "\<not> trim_char c" by auto
  then show ?thesis using a by (simp add: ini_TrimString_def dropWhile_append1 [of c] dropWhile_append2)
qed

lemma trim_blank: "ini_TrimString (dropWhile blank v) = ini_TrimString v"
proof -
  have "ini_TrimString (takeWhile blank v @ dropWhile blank v) = ini_TrimString (dropWhile blank v)"
    by (intro trim_dropped) (auto simp: trim_char_def dest: set_takeWhileD)
  then show ?thesis by simp
qed

definition config_value :: "config \<Rightarrow> string \<Rightarrow> string \<Rightarrow> string option" where
  "config_value cfg sec item = Option.bind (map_of cfg sec) (\<lambda>kvs. map_of kvs item)"

lemma render_text_ok:
  assumes "config_ok cfg" "name_ok sec"
  shows "text_ok (render cfg)" "\<not> prefix sec (render cfg)"
proof -
  obtain s cfg' where c: "cfg = s # cfg'" using assms(1) by (cases cfg) (auto simp: config_ok_def)
  have "NUL \<notin> set (render cfg)"
    using config_lines_ok [of cfg] assms(1) by (auto simp: render_def flat_lines_def config_ok_def)
  moreover have "render cfg \<noteq> []" by (simp add: render_def c)
  moreover have "last (flat_lines ls) = LF" if "ls \<noteq> []" for ls using that by (cases ls rule: rev_cases) auto
  ultimately show "text_ok (render cfg)" by (simp add: text_ok_def render_def c del: flat_lines_simps)
  show "\<not> prefix sec (render cfg)" using assms(2) by (cases sec) (auto simp: render_def c head_line_def dest!: name_okD)
qed

text \<open>Reading back what was written: a configuration of named sections with named items, written one
  line per header and item, gives for every section and item the trimmed value of its first
  occurrence, and the error \<open>E_INI_FILE\<close> with the default when there is none. The names have no
  brackets, equals signs, blanks or line ends, the values no line ends and no semicolon, and fit the
  buffer.\<close>

lemma ini_config_roundtrip:
  assumes "config_ok cfg" "name_ok sec" "name_ok item" "\<And>v. config_value cfg sec item = Some v \<Longrightarrow> length v < len"
  shows "\<exists>f. ini_new (Some (length (render cfg), Some (render cfg))) = Some f \<and>
    ini_GetString f sec item dflt len = Some (case config_value cfg sec item of
      None \<Rightarrow> (E_INI_FILE, str_ncpy dflt len) | Some v \<Rightarrow> (SUCCESS, Some (ini_TrimString v)))"
proof -
  have ok: "text_ok (render cfg)" "\<not> prefix sec (render cfg)" by (rule render_text_ok [OF assms(1,2)])+
  have "ini_GetString (ini_of (render cfg)) sec item dflt len
      = ini_answer (render cfg) len (str_ncpy dflt len) (ini_ref (render cfg) sec item)"
    using name_okD [OF assms(2)] name_okD [OF assms(3)] ok by (intro GetString_agrees) auto
  also have "\<dots> = Some (case config_value cfg sec item of None \<Rightarrow> (E_INI_FILE, str_ncpy dflt len) | Some v \<Rightarrow> (SUCCESS, Some (ini_TrimString v)))"
    using ini_ref_render [OF assms(1-3), folded config_value_def] assms(4)
    by (auto simp: ini_answer_def copy_loop_value trim_blank split: option.splits)
  finally show ?thesis using ok(1) by (auto simp: ini_new_of text_ok_def)
qed

section \<open>Properties\<close>

text \<open>C29. For a text that ends with a line feed, a section name that is not at its start and has no
  bracket, and an item name without a line feed, \<open>GetString\<close> answers what the declarative reference
  answers: the value behind the equals sign of the first line of the section that starts with the
  item's name, and the default with an error when there is none. The nested searches for
  occurrences, the skips behind false hits and the bound of the section find exactly the
  reference's positions, always return and never read outside the block.\<close>

theorem ini_lookup_agrees:
  assumes "text_ok text" "sec \<noteq> []" "LF \<notin> set sec" "CHR ''['' \<notin> set sec" "\<not> prefix sec text" "item \<noteq> []" "LF \<notin> set item"
  shows "ini_GetString (ini_of text) sec item dflt len = ini_answer text len (str_ncpy dflt len) (ini_ref text sec item)"
  using assms by (rule GetString_agrees)

definition sample_text :: string where "sample_text = ''; x'' @ [LF] @ ''[x]'' @ [LF] @ ''xy=1'' @ [LF] @ ''y = 2'' @ [LF]"

lemma ini_lookup_agrees_witness:
  "ini_GetString (ini_of sample_text) ''x'' ''y'' '''' 32
    = ini_answer sample_text 32 (str_ncpy '''' 32) (ini_ref sample_text ''x'' ''y'')
   \<and> ini_ref sample_text ''x'' ''y'' = Some 16"
proof
  show "ini_GetString (ini_of sample_text) ''x'' ''y'' '''' 32
    = ini_answer sample_text 32 (str_ncpy '''' 32) (ini_ref sample_text ''x'' ''y'')"
    by (rule ini_lookup_agrees) (simp_all add: sample_text_def text_ok_def)
  show "ini_ref sample_text ''x'' ''y'' = Some 16" by code_simp
qed

text \<open>A name that occurs only as the last characters of the text: the searches end at the end of the
  file without an error, and a number is read as zero whatever the default is.\<close>

lemma ini_name_at_end:
  assumes "NUL \<notin> set a" "NUL \<notin> set sec" "a \<noteq> []" "find_sub sec (a @ sec) = Some (length a)" "sec \<noteq> []"
  shows "ini_GetInt (ini_of (a @ sec)) sec item dflt old = Some (SUCCESS, 0)"
proof -
  let ?t = "a @ sec" and ?sz = "length a + length sec"
  have z: "str_at (?t @ [NUL]) 0 = Some ?t" using assms(1,2) by (auto simp: str_at_def takeWhile_append)
  have e: "str_at (?t @ [NUL]) ?sz = Some ''''" by (simp add: str_at_def)
  have pos: "0 < ?sz" "0 < length a" using assms(3) by auto
  have "str_str (?t @ [NUL]) 0 sec = Some (Some (length a))" using z assms(4) by (simp add: str_str_def)
  moreover have "ch_at (?t @ [NUL]) (length a + length sec) = Some NUL" by (simp add: ch_at_def nth_append)
  moreover have "ch_at (?t @ [NUL]) (length a - 1) \<noteq> None" using pos by (simp add: ch_at_def)
  moreover have "ini_section_loop (?t @ [NUL]) ?sz sec ?sz = Some (Inr ?sz)" by (subst ini_section_loop.simps) simp
  ultimately have s: "ini_section_loop (?t @ [NUL]) ?sz sec 0 = Some (Inr ?sz)"
    using pos by (subst ini_section_loop.simps) auto
  have n: "ini_next_loop (?t @ [NUL]) ?sz = Some None" using e by (subst ini_next_loop.simps) (simp add: str_str_def)
  have i: "ini_item_loop (?t @ [NUL]) ?sz item ?sz ?sz = Some (Inr None)" by (subst ini_item_loop.simps) simp
  have "ini_IsValid (ini_of ?t)" using pos by (simp add: ini_IsValid_def)
  moreover from this have "ini_GetString (ini_of ?t) sec item '''' 32 = Some (SUCCESS, Some '''')"
    using s n i by (simp add: ini_GetString_def str_ncpy_def ini_TrimString_def)
  ultimately show ?thesis by (simp add: ini_GetInt_def c_atoi_def read_int_def)
qed

end
