(* ===== verification/ServerConfig.thy ===== *)
theory ServerConfig
  imports IniFileRender
begin

text \<open>
  The configuration of the proxy, \<open>bis/src/proxy/server_config.{h,cpp}\<close>, and of the server,
  \<open>bis/src/server/server_config.{h,cpp}\<close>: which items of the file set which members, and what is
  set when the log directory cannot be created. The result of \<open>mkdir\<close> and the error number it
  leaves are a parameter. Loading the file that was written from sections and items gives the
  members the values written.
\<close>

section \<open>Decimal numbers\<close>

fun to_string_digits :: "nat \<Rightarrow> string \<Rightarrow> string" where
  "to_string_digits n acc = (let acc = char_of (48 + n mod 10) # acc in if n < 10 then acc else to_string_digits (n div 10) acc)"

declare to_string_digits.simps [simp del]

definition to_string :: "nat \<Rightarrow> string" where "to_string n = to_string_digits n []"

section \<open>The proxy\<close>

record log_cfg =
  cfg_log_path :: string
  cfg_log_level :: "32 word"

text \<open>Directories and log destinations that are set up.\<close>

record log_setup =
  ls_dirs :: "string list"
  ls_info :: string
  ls_warn :: string
  ls_error :: string

definition ENOENT :: int where "ENOENT = 2"
definition EEXIST :: int where "EEXIST = 17"

text \<open>The branch for \<open>EEXIST\<close> is inside the test for \<open>ENOENT\<close>. The last character of an empty path is
  undefined.\<close>

definition cfg_InitLog :: "(string \<Rightarrow> int \<times> int) \<Rightarrow> log_cfg \<Rightarrow> (int \<times> log_cfg \<times> log_setup option) option" where
  "cfg_InitLog mkdir c =
     (let (ret, errno) = mkdir (cfg_log_path c) in
      if ret < 0 \<and> errno = ENOENT \<and> \<not> errno = EEXIST then Some (ret, c, None)
      else if cfg_log_path c = [] then None
      else
        let path = (if last (cfg_log_path c) \<noteq> CHR ''/'' then cfg_log_path c @ ''/'' else cfg_log_path c);
            info = path @ ''info/''; warn = path @ ''warn/''; err = path @ ''error/''
        in Some (0, c\<lparr>cfg_log_path := path\<rparr>,
             Some \<lparr>ls_dirs = [cfg_log_path c, info, warn, err], ls_info = info @ ''log_'', ls_warn = warn @ ''log_'', ls_error = err @ ''log_''\<rparr>))"

record proxy_svr_cfg =
  pc_log :: log_cfg
  pc_daemon :: "32 word"
  pc_ip :: string
  pc_port :: "32 word"
  pc_time_out :: "32 word"
  pc_free_time_sleep :: "32 word"
  pc_bucket_num :: "32 word"
  pc_push_addrs :: "string list"
  pc_pull_addr :: string

fun cfg_push_loop :: "ini \<Rightarrow> nat \<Rightarrow> nat \<Rightarrow> string list \<Rightarrow> string list option" where
  "cfg_push_loop f 0 i addrs = Some addrs"
| "cfg_push_loop f (Suc k) i addrs = do {
     (_, addr) \<leftarrow> ini_GetString_str f ''MQ'' (''PushAddr'' @ to_string (i + 1)) '''' [];
     cfg_push_loop f k (i + 1) (addrs @ [addr])
   }"

definition cfg_LoadMQ :: "ini \<Rightarrow> proxy_svr_cfg \<Rightarrow> proxy_svr_cfg option" where
  "cfg_LoadMQ f c = do {
     (_, svr_num) \<leftarrow> ini_GetInt f ''MQ'' ''SvrNum'' 0 0;
     addrs \<leftarrow> cfg_push_loop f (nat (sint svr_num)) 0 (pc_push_addrs c);
     (_, pull) \<leftarrow> ini_GetString_str f ''MQ'' ''PullAddr'' '''' (pc_pull_addr c);
     Some (c\<lparr>pc_push_addrs := addrs, pc_pull_addr := pull\<rparr>)
   }"

text \<open>The log is set up first; when that fails the other members are left as they are and the
  result is a success.\<close>

definition pcfg_Init :: "(string \<Rightarrow> int \<times> int) \<Rightarrow> (nat \<times> string option) option \<Rightarrow> proxy_svr_cfg \<Rightarrow> (int \<times> proxy_svr_cfg \<times> log_setup option) option" where
  "pcfg_Init mkdir file c = do {
     f \<leftarrow> ini_new file;
     (_, path) \<leftarrow> ini_GetString_str f ''LOG'' ''Path'' ''./log/'' (cfg_log_path (pc_log c));
     (_, level) \<leftarrow> ini_GetInt f ''LOG'' ''Level'' 0 (cfg_log_level (pc_log c));
     (ret, lc, ls) \<leftarrow> cfg_InitLog mkdir \<lparr>cfg_log_path = path, cfg_log_level = level\<rparr>;
     let c = c\<lparr>pc_log := lc\<rparr>;
     if ret < 0 then Some (0, c, ls)
     else do {
       (_, daemon) \<leftarrow> ini_GetInt f ''SERVER'' ''Daemon'' 1 (pc_daemon c);
       (_, ip) \<leftarrow> ini_GetString_str f ''SERVER'' ''IP'' '''' (pc_ip c);
       (_, port) \<leftarrow> ini_GetInt f ''SERVER'' ''Port'' 20309 (pc_port c);
       (_, time_out) \<leftarrow> ini_GetInt f ''SERVER'' ''TimeOut'' 0 (pc_time_out c);
       (_, sleep) \<leftarrow> ini_GetInt f ''SERVER'' ''FreeSleepTime'' 0 (pc_free_time_sleep c);
       (_, bucket) \<leftarrow> ini_GetInt f ''SERVER'' ''BucketNum'' 2048 (pc_bucket_num c);
       c \<leftarrow> cfg_LoadMQ f (c\<lparr>pc_daemon := daemon, pc_ip := ip, pc_port := port, pc_time_out := time_out,
              pc_free_time_sleep := sleep, pc_bucket_num := bucket\<rparr>);
       Some (ret, c, ls)
     }
   }"

section \<open>The server\<close>

record server_cfg =
  sc_log :: log_cfg
  sc_daemon :: "32 word"
  sc_ip :: string
  sc_port :: "32 word"
  sc_time_out :: "32 word"
  sc_free_time_sleep :: "32 word"
  sc_pull_addr :: string
  sc_db_file :: string
  sc_file_max_size :: "64 word"
  sc_persistend_time :: "32 word"

definition scfg_Init :: "(string \<Rightarrow> int \<times> int) \<Rightarrow> (nat \<times> string option) option \<Rightarrow> server_cfg \<Rightarrow> (int \<times> server_cfg \<times> log_setup option) option" where
  "scfg_Init mkdir file c = do {
     f \<leftarrow> ini_new file;
     (_, path) \<leftarrow> ini_GetString_str f ''LOG'' ''Path'' ''./log/'' (cfg_log_path (sc_log c));
     (_, level) \<leftarrow> ini_GetInt f ''LOG'' ''Level'' 0 (cfg_log_level (sc_log c));
     (ret, lc, ls) \<leftarrow> cfg_InitLog mkdir \<lparr>cfg_log_path = path, cfg_log_level = level\<rparr>;
     let c = c\<lparr>sc_log := lc\<rparr>;
     if ret < 0 then Some (0, c, ls)
     else do {
       (_, daemon) \<leftarrow> ini_GetInt f ''SERVER'' ''Daemon'' 1 (sc_daemon c);
       (_, ip) \<leftarrow> ini_GetString_str f ''SERVER'' ''IP'' '''' (sc_ip c);
       (_, port) \<leftarrow> ini_GetInt f ''SERVER'' ''Port'' 20309 (sc_port c);
       (_, time_out) \<leftarrow> ini_GetInt f ''SERVER'' ''TimeOut'' 0 (sc_time_out c);
       (_, sleep) \<leftarrow> ini_GetInt f ''SERVER'' ''FreeSleepTime'' 0 (sc_free_time_sleep c);
       (_, pull) \<leftarrow> ini_GetString_str f ''MQ'' ''PullAddr'' '''' (sc_pull_addr c);
       (_, db_file) \<leftarrow> ini_GetString_str f ''DB'' ''DBFile'' ''./'' (sc_db_file c);
       (_, max_size) \<leftarrow> ini_GetULongLong f ''DB'' ''FileMaxSize'' 1024000000 (sc_file_max_size c);
       (_, time) \<leftarrow> ini_GetInt f ''DB'' ''PersistendTime'' 3600 (sc_persistend_time c);
       Some (ret, c\<lparr>sc_daemon := daemon, sc_ip := ip, sc_port := port, sc_time_out := time_out, sc_free_time_sleep := sleep,
              sc_pull_addr := pull, sc_db_file := db_file, sc_file_max_size := max_size, sc_persistend_time := time\<rparr>, ls)
     }
   }"

section \<open>Numbers written and read\<close>

abbreviation digit :: "nat \<Rightarrow> char" where "digit d \<equiv> char_of (48 + d mod 10)"

lemma to_string_digits_step: "to_string_digits n acc = (if n < 10 then digit n # acc else to_string_digits (n div 10) (digit n # acc))"
  by (subst to_string_digits.simps) (simp only: Let_def)

lemma to_string_digits_acc: "to_string_digits n acc = to_string_digits n [] @ acc"
proof (induction n arbitrary: acc rule: less_induct)
  case (less n)
  show ?case
  proof (cases "n < 10")
    case False
    then have "to_string_digits (n div 10) (digit n # a) = to_string_digits (n div 10) [] @ digit n # a" for a
      by (intro less.IH) simp
    with False show ?thesis unfolding to_string_digits_step [of n] by simp
  qed (simp add: to_string_digits_step [of n])
qed

lemma to_string_step: "to_string n = (if n < 10 then [digit n] else to_string (n div 10) @ [digit n])"
  using to_string_digits_acc [of "n div 10" "[digit n]"] by (simp add: to_string_def to_string_digits_step [of n])

lemma digit_cases: "d < 10 \<Longrightarrow> P 0 \<Longrightarrow> P 1 \<Longrightarrow> P 2 \<Longrightarrow> P 3 \<Longrightarrow> P 4 \<Longrightarrow> P 5 \<Longrightarrow> P 6 \<Longrightarrow> P 7 \<Longrightarrow> P 8 \<Longrightarrow> P 9 \<Longrightarrow> P (d::nat)"
  by (auto simp: eval_nat_numeral less_Suc_eq)

lemma digit_val_digit: "digit_val (digit d) = Some (int (d mod 10))"
proof -
  have "digit_val (char_of (48 + e)) = Some (int e)" if "e < 10" for e :: nat
    using that by (rule digit_cases) code_simp+
  then show ?thesis by simp
qed

lemma digit_ok: "digit d \<notin> {LF, CR, NUL, CHR ''['', CHR '']'', CHR ''='', CHR '' '', TAB, CHR '';'', CHR ''x'', CHR ''X'', CHR ''-'', CHR ''+'', CHR 0x0B, CHR 0x0C}"
proof -
  have "char_of (48 + e) \<notin> {LF, CR, NUL, CHR ''['', CHR '']'', CHR ''='', CHR '' '', TAB, CHR '';'', CHR ''x'', CHR ''X'', CHR ''-'', CHR ''+'', CHR 0x0B, CHR 0x0C}"
    if "e < 10" for e :: nat
    using that by (rule digit_cases) code_simp+
  then show ?thesis by simp
qed

lemma to_string_chars: "c \<in> set (to_string n) \<Longrightarrow> \<exists>d. c = digit d"
proof (induction n rule: less_induct)
  case (less n)
  then consider "c = digit n" | "c \<in> set (to_string (n div 10))" "10 \<le> n"
    by (subst (asm) (2) to_string_step) (fastforce split: if_split_asm simp del: mod_less)
  then show ?case using less.IH [of "n div 10"] by cases auto
qed

lemma to_string_nonempty [simp]: "to_string n \<noteq> []"
  by (subst to_string_step) simp

lemma read_digits_append: "(\<And>c. c \<in> set xs \<Longrightarrow> \<exists>d. c = digit d) \<Longrightarrow> read_digits 10 a (xs @ ys) = read_digits 10 (read_digits 10 a xs) ys"
proof (induction xs arbitrary: a)
  case (Cons x xs)
  obtain d where "x = digit d" using Cons.prems [of x] by auto
  then show ?case using Cons by (simp add: digit_val_digit del: of_nat_add char_of_nat)
qed simp

lemma read_to_string: "read_digits 10 0 (to_string n) = int n"
proof (induction n rule: less_induct)
  case (less n)
  show ?case
  proof (cases "n < 10")
    case False
    have "read_digits 10 0 (to_string (n div 10) @ [digit n]) = read_digits 10 (int (n div 10)) [digit n]"
      using False less.IH [of "n div 10"] by (subst read_digits_append) (auto dest: to_string_chars)
    then show ?thesis using False by (subst to_string_step) (simp add: digit_val_digit zdiv_int zmod_int)
  next
    case True
    then have "to_string n = [digit n]" by (subst to_string_step) simp
    then show ?thesis using True digit_val_digit [of n] by simp
  qed
qed

lemma to_string_inject: "to_string m = to_string n \<longleftrightarrow> m = n"
  by (metis of_nat_eq_iff read_to_string)

lemma to_string_length: "n < 10 ^ k \<Longrightarrow> 0 < k \<Longrightarrow> length (to_string n) \<le> k"
proof (induction k arbitrary: n)
  case (Suc k)
  show ?case
  proof (cases "n < 10")
    case False
    then have "0 < k" using Suc.prems(1) by (cases k) auto
    then have "length (to_string (n div 10)) \<le> k" using Suc by (intro Suc.IH) auto
    with False show ?thesis by (subst to_string_step) simp
  qed (subst to_string_step, simp)
qed simp

text \<open>A signed number as the files have it.\<close>

definition int_string :: "32 word \<Rightarrow> string" where
  "int_string w = (if sint w < 0 then CHR ''-'' # to_string (nat (- sint w)) else to_string (nat (sint w)))"

lemma digits_not: "c \<in> set (to_string n) \<Longrightarrow> c \<notin> {LF, CR, NUL, CHR ''['', CHR '']'', CHR ''='', CHR '' '', TAB, CHR '';'', CHR ''x'', CHR ''X'', CHR ''-'', CHR ''+'', CHR 0x0B, CHR 0x0C}"
  using to_string_chars [of c n] digit_ok by auto

lemma sint_range: "- (2 ^ 31) \<le> sint (w :: 32 word)" "sint (w :: 32 word) < 2 ^ 31"
  using sint_greater_eq [of w] sint_less [of w] by simp_all

lemma read_int_string: "read_int 10 (int_string w) = sint w"
proof -
  have "read_int 10 (to_string n) = int n" for n
  proof (cases "to_string n")
    case (Cons c cs)
    then have "c \<notin> {LF, CR, CHR '' '', TAB, CHR ''-'', CHR ''+'', CHR 0x0B, CHR 0x0C}" using digits_not [of c n] by auto
    then show ?thesis using read_to_string [of n] Cons by (simp add: read_int_def is_space_def)
  qed simp
  then show ?thesis by (auto simp: int_string_def read_int_def is_space_def read_to_string)
qed

lemma atoi_int_string: "c_atoi (int_string w) = Some (sint w)"
  using sint_range [of w] by (simp add: c_atoi_def read_int_string)

lemma trim_none: "\<forall>c \<in> set s. \<not> trim_char c \<Longrightarrow> ini_TrimString s = s"
proof -
  assume "\<forall>c \<in> set s. \<not> trim_char c"
  then have "dropWhile trim_char (rev s) = rev s" "dropWhile trim_char s = s" by (auto simp: dropWhile_eq_self_iff hd_rev)
  then show ?thesis by (simp add: ini_TrimString_def)
qed

lemma int_string_ok: "value_ok (int_string w)" "length (int_string w) < 32" "ini_TrimString (int_string w) = int_string w"
  "\<not> prefix ''0x'' (int_string w)" "\<not> prefix ''0X'' (int_string w)" "LF \<notin> set (int_string w)"
proof -
  have c: "set (int_string w) \<inter> {LF, CR, NUL, CHR '' '', TAB, CHR '';'', CHR ''x'', CHR ''X''} = {}"
    using digits_not [of _ "nat (sint w)"] digits_not [of _ "nat (- sint w)"] by (cases "sint w < 0") (fastforce simp: int_string_def)+
  then show "value_ok (int_string w)" "LF \<notin> set (int_string w)" by (auto simp: value_ok_def)
  show "\<not> prefix ''0x'' (int_string w)" "\<not> prefix ''0X'' (int_string w)" using c set_mono_prefix [of "''0x''" "int_string w"] set_mono_prefix [of "''0X''" "int_string w"] by auto
  show "ini_TrimString (int_string w) = int_string w" using c by (intro trim_none) (auto simp: trim_char_def)
  have "length (to_string n) \<le> 10" if "n < 10 ^ 10" for n using to_string_length [OF that] by simp
  moreover have "nat \<bar>sint w\<bar> < 10 ^ 10" using sint_range [of w] by simp
  ultimately have "length (to_string (nat \<bar>sint w\<bar>)) \<le> 10" by blast
  then show "length (int_string w) < 32" by (auto simp: int_string_def)
qed

section \<open>Reading items of a rendered configuration\<close>

definition trimmed :: "string \<Rightarrow> bool" where "trimmed v \<longleftrightarrow> value_ok v \<and> ini_TrimString v = v \<and> length v < 2048"

lemma GetString_rendered:
  assumes "config_ok cfg" "name_ok sec" "name_ok item" "config_value cfg sec item = Some v" "length v < len"
  shows "ini_GetString (ini_of (render cfg)) sec item dflt len = Some (SUCCESS, Some (ini_TrimString v))"
  using ini_config_roundtrip [OF assms(1-3), of len dflt] assms(4,5) render_text_ok(1) [OF assms(1,2)]
  by (auto simp: ini_new_of text_ok_def)

lemma GetString_str_rendered:
  assumes "config_ok cfg" "name_ok sec" "name_ok item" "config_value cfg sec item = Some v" "trimmed v"
  shows "ini_GetString_str (ini_of (render cfg)) sec item dflt s = Some (SUCCESS, s @ v)"
  using GetString_rendered [OF assms(1-4), of 2048 dflt] assms(5) by (simp add: ini_GetString_str_def trimmed_def)

lemma GetInt_rendered:
  assumes "config_ok cfg" "name_ok sec" "name_ok item" "config_value cfg sec item = Some (int_string w)"
  shows "ini_GetInt (ini_of (render cfg)) sec item dflt old = Some (SUCCESS, w)"
proof -
  have "ini_IsValid (ini_of (render cfg))" using render_text_ok(1) [OF assms(1,2)] by (auto simp: ini_IsValid_def text_ok_def)
  then show ?thesis using GetString_rendered [OF assms int_string_ok(2), of "''''"] int_string_ok(3-5) [of w]
    by (simp add: ini_GetInt_def atoi_int_string)
qed

section \<open>The proxy's configuration written and loaded\<close>

definition push_items :: "nat \<Rightarrow> string list \<Rightarrow> (string \<times> string) list" where
  "push_items i addrs = map (\<lambda>k. (''PushAddr'' @ to_string (i + k + 1), addrs ! k)) [0..<length addrs]"

definition pcfg_write :: "proxy_svr_cfg \<Rightarrow> config" where
  "pcfg_write c =
     [(''LOG'', [(''Path'', cfg_log_path (pc_log c)), (''Level'', int_string (cfg_log_level (pc_log c)))]),
      (''SERVER'', [(''Daemon'', int_string (pc_daemon c)), (''IP'', pc_ip c), (''Port'', int_string (pc_port c)),
         (''TimeOut'', int_string (pc_time_out c)), (''FreeSleepTime'', int_string (pc_free_time_sleep c)),
         (''BucketNum'', int_string (pc_bucket_num c))]),
      (''MQ'', (''SvrNum'', int_string (of_nat (length (pc_push_addrs c)))) # (''PullAddr'', pc_pull_addr c)
         # push_items 0 (pc_push_addrs c))]"

definition pcfg_ok :: "proxy_svr_cfg \<Rightarrow> bool" where
  "pcfg_ok c \<longleftrightarrow> trimmed (cfg_log_path (pc_log c)) \<and> cfg_log_path (pc_log c) \<noteq> [] \<and> last (cfg_log_path (pc_log c)) = CHR ''/''
     \<and> trimmed (pc_ip c) \<and> trimmed (pc_pull_addr c) \<and> list_all trimmed (pc_push_addrs c) \<and> length (pc_push_addrs c) < 2 ^ 31"

lemma push_item_name: "name_ok (''PushAddr'' @ to_string n)"
  using digits_not [of _ n] by (fastforce simp: name_ok_def)

lemma pcfg_write_ok: "pcfg_ok c \<Longrightarrow> config_ok (pcfg_write c)"
proof -
  assume ok: "pcfg_ok c"
  have "\<forall>kv \<in> set (push_items i (pc_push_addrs c)). name_ok (fst kv) \<and> value_ok (snd kv)" for i
    using ok push_item_name by (auto simp: push_items_def pcfg_ok_def list_all_iff trimmed_def)
  moreover have "name_ok n" if "n \<in> {''LOG'', ''Path'', ''Level'', ''SERVER'', ''Daemon'', ''IP'', ''Port'', ''TimeOut'', ''FreeSleepTime'', ''BucketNum'', ''MQ'', ''SvrNum'', ''PullAddr''}" for n
    using that by (auto simp: name_ok_def)
  ultimately show ?thesis using ok
    by (simp add: config_ok_def pcfg_write_def section_ok_def int_string_ok(1) pcfg_ok_def trimmed_def)
qed

lemma push_items_nth: "k < length addrs \<Longrightarrow> map_of (push_items 0 addrs) (''PushAddr'' @ to_string (k + 1)) = Some (addrs ! k)"
proof -
  assume k: "k < length addrs"
  have "distinct (map fst (push_items 0 addrs))" by (auto simp: push_items_def distinct_map inj_on_def to_string_inject)
  moreover have "(''PushAddr'' @ to_string (k + 1), addrs ! k) \<in> set (push_items 0 addrs)" using k by (auto simp: push_items_def)
  ultimately show ?thesis by simp
qed

lemma push_loop_loads:
  assumes "config_ok cfg" "\<And>j. i \<le> j \<Longrightarrow> j < i + n \<Longrightarrow> trimmed (xs ! j) \<and> config_value cfg ''MQ'' (''PushAddr'' @ to_string (j + 1)) = Some (xs ! j)"
  shows "cfg_push_loop (ini_of (render cfg)) n i addrs = Some (addrs @ map ((!) xs) [i..<i + n])"
  using assms(2)
proof (induction n arbitrary: i addrs)
  case (Suc n)
  have n: "name_ok ''MQ''" by (simp add: name_ok_def)
  have "ini_GetString_str (ini_of (render cfg)) ''MQ'' (''PushAddr'' @ to_string (i + 1)) '''' [] = Some (SUCCESS, [] @ xs ! i)"
    using Suc.prems [of i] by (intro GetString_str_rendered [OF assms(1) n push_item_name]) auto
  moreover have "cfg_push_loop (ini_of (render cfg)) n (i + 1) (addrs @ [xs ! i]) = Some ((addrs @ [xs ! i]) @ map ((!) xs) [i + 1..<(i + 1) + n])"
    using Suc.prems by (intro Suc.IH) auto
  ultimately show ?case by (simp add: upt_conv_Cons [of i])
qed simp

lemma pcfg_values:
  "config_value (pcfg_write c) ''LOG'' ''Path'' = Some (cfg_log_path (pc_log c))"
  "config_value (pcfg_write c) ''LOG'' ''Level'' = Some (int_string (cfg_log_level (pc_log c)))"
  "config_value (pcfg_write c) ''SERVER'' ''Daemon'' = Some (int_string (pc_daemon c))"
  "config_value (pcfg_write c) ''SERVER'' ''IP'' = Some (pc_ip c)"
  "config_value (pcfg_write c) ''SERVER'' ''Port'' = Some (int_string (pc_port c))"
  "config_value (pcfg_write c) ''SERVER'' ''TimeOut'' = Some (int_string (pc_time_out c))"
  "config_value (pcfg_write c) ''SERVER'' ''FreeSleepTime'' = Some (int_string (pc_free_time_sleep c))"
  "config_value (pcfg_write c) ''SERVER'' ''BucketNum'' = Some (int_string (pc_bucket_num c))"
  "config_value (pcfg_write c) ''MQ'' ''SvrNum'' = Some (int_string (of_nat (length (pc_push_addrs c))))"
  "config_value (pcfg_write c) ''MQ'' ''PullAddr'' = Some (pc_pull_addr c)"
  "k < length (pc_push_addrs c) \<Longrightarrow> config_value (pcfg_write c) ''MQ'' (''PushAddr'' @ to_string (k + 1)) = Some (pc_push_addrs c ! k)"
  using push_items_nth [of k "pc_push_addrs c"] by (simp_all add: config_value_def pcfg_write_def)

lemma names_ok:
  "name_ok ''LOG''" "name_ok ''Path''" "name_ok ''Level''" "name_ok ''SERVER''" "name_ok ''Daemon''" "name_ok ''IP''" "name_ok ''Port''"
  "name_ok ''TimeOut''" "name_ok ''FreeSleepTime''" "name_ok ''BucketNum''" "name_ok ''MQ''" "name_ok ''SvrNum''" "name_ok ''PullAddr''"
  by (simp_all add: name_ok_def)

lemma LoadMQ_loads:
  assumes ok: "pcfg_ok c" and fresh: "pc_push_addrs s = []" "pc_pull_addr s = []"
  shows "cfg_LoadMQ (ini_of (render (pcfg_write c))) s = Some (s\<lparr>pc_push_addrs := pc_push_addrs c, pc_pull_addr := pc_pull_addr c\<rparr>)"
proof -
  let ?f = "ini_of (render (pcfg_write c))" and ?n = "length (pc_push_addrs c)"
  have w: "config_ok (pcfg_write c)" by (rule pcfg_write_ok [OF ok])
  have "nat (sint (of_nat ?n :: 32 word)) = ?n"
    using ok by (simp add: pcfg_ok_def sint_uint uint_nat unat_of_nat signed_take_bit_int_eq_self)
  moreover have "ini_GetInt ?f ''MQ'' ''SvrNum'' 0 0 = Some (SUCCESS, of_nat ?n)"
    by (rule GetInt_rendered [OF w names_ok(11,12) pcfg_values(9)])
  moreover have "cfg_push_loop ?f ?n 0 [] = Some ([] @ map ((!) (pc_push_addrs c)) [0..<0 + ?n])"
    using ok pcfg_values(11) by (intro push_loop_loads [OF w]) (auto simp: pcfg_ok_def list_all_iff)
  moreover have "ini_GetString_str ?f ''MQ'' ''PullAddr'' '''' [] = Some (SUCCESS, [] @ pc_pull_addr c)"
    using ok by (intro GetString_str_rendered [OF w names_ok(11,13) pcfg_values(10)]) (simp add: pcfg_ok_def)
  ultimately show ?thesis using fresh by (simp add: cfg_LoadMQ_def map_nth)
qed

text \<open>C31. Writing the proxy's configuration to a file and loading it gives every member the value
  written: the numbers for any 32 bit value, the addresses of all servers in their order, the paths
  and strings that are trimmed and fit the buffers. The members may hold anything before, but the
  strings and the list of addresses, which the loader appends to, are empty; creating the log
  directory does not fail for a missing parent.\<close>

theorem proxy_config_roundtrip:
  assumes "pcfg_ok c" "\<not> (fst (mkdir (cfg_log_path (pc_log c))) < 0 \<and> snd (mkdir (cfg_log_path (pc_log c))) = ENOENT)"
    and "cfg_log_path (pc_log old) = []" "pc_ip old = []" "pc_push_addrs old = []" "pc_pull_addr old = []"
  shows "\<exists>ls. pcfg_Init mkdir (Some (length (render (pcfg_write c)), Some (render (pcfg_write c)))) old = Some (0, c, Some ls)"
proof -
  let ?f = "ini_of (render (pcfg_write c))"
  note w = pcfg_write_ok [OF assms(1)]
  note v = assms(1) [unfolded pcfg_ok_def]
  have new: "ini_new (Some (length (render (pcfg_write c)), Some (render (pcfg_write c)))) = Some ?f"
    using render_text_ok(1) [OF w names_ok(1)] by (auto simp: ini_new_of text_ok_def)
  have "ini_GetString_str ?f ''LOG'' ''Path'' ''./log/'' [] = Some (SUCCESS, [] @ cfg_log_path (pc_log c))"
    using v by (intro GetString_str_rendered [OF w names_ok(1,2) pcfg_values(1)]) simp
  moreover have "ini_GetString_str ?f ''SERVER'' ''IP'' '''' [] = Some (SUCCESS, [] @ pc_ip c)"
    using v by (intro GetString_str_rendered [OF w names_ok(4,6) pcfg_values(4)]) simp
  moreover have "\<exists>ls. cfg_InitLog mkdir \<lparr>cfg_log_path = cfg_log_path (pc_log c), cfg_log_level = cfg_log_level (pc_log c)\<rparr> = Some (0, pc_log c, Some ls)"
    using assms(2) v by (cases "mkdir (cfg_log_path (pc_log c))") (auto simp: cfg_InitLog_def Let_def)
  moreover note GetInt_rendered [OF w names_ok(1,3) pcfg_values(2)] GetInt_rendered [OF w names_ok(4,5) pcfg_values(3)]
    GetInt_rendered [OF w names_ok(4,7) pcfg_values(5)] GetInt_rendered [OF w names_ok(4,8) pcfg_values(6)]
    GetInt_rendered [OF w names_ok(4,9) pcfg_values(7)] GetInt_rendered [OF w names_ok(4,10) pcfg_values(8)]
  ultimately show ?thesis using assms(3-6) by (auto simp: pcfg_Init_def new LoadMQ_loads [OF assms(1)])
qed

definition sample_pcfg :: proxy_svr_cfg where
  "sample_pcfg = \<lparr>pc_log = \<lparr>cfg_log_path = ''./log/'', cfg_log_level = 1\<rparr>, pc_daemon = -1, pc_ip = ''127.0.0.1'', pc_port = 20309,
     pc_time_out = 30, pc_free_time_sleep = 0, pc_bucket_num = 2048, pc_push_addrs = [''tcp://a:1'', ''tcp://b:2''], pc_pull_addr = ''tcp://*:3''\<rparr>"

definition blank_pcfg :: proxy_svr_cfg where
  "blank_pcfg = \<lparr>pc_log = \<lparr>cfg_log_path = '''', cfg_log_level = 0\<rparr>, pc_daemon = 0, pc_ip = '''', pc_port = 0,
     pc_time_out = 0, pc_free_time_sleep = 0, pc_bucket_num = 0, pc_push_addrs = [], pc_pull_addr = ''''\<rparr>"

lemma proxy_config_roundtrip_witness:
  "\<exists>ls. pcfg_Init (\<lambda>_. (0, 0)) (Some (length (render (pcfg_write sample_pcfg)), Some (render (pcfg_write sample_pcfg)))) blank_pcfg
     = Some (0, sample_pcfg, Some ls)"
  by (rule proxy_config_roundtrip)
    (simp_all add: blank_pcfg_def pcfg_ok_def sample_pcfg_def trimmed_def value_ok_def ini_TrimString_def trim_char_def)

end
