(* ===== verification/AppStart.thy ===== *)
theory AppStart
  imports AppBase ServerConfig
begin

text \<open>
  The start of a process of the framework, \<open>ApplicationBase::Init\<close> and \<open>GetOpt\<close> of
  \<open>bis/src/server/include/application_base.cpp\<close>: options, the commands start, stop, kill and reload,
  and the file with the process id by which a second start ends the first process. What
  \<open>getopt_long\<close> answers, the own process id and what \<open>fopen\<close> and \<open>OnInit\<close> answer are arguments; what
  is printed is left out.
\<close>

section \<open>State\<close>

text \<open>The members that \<open>AppBase\<close> does not have, the content of the process id file and the calls of
  \<open>kill\<close> so far.\<close>

record app_start =
  st_app :: app
  st_disp :: dispositions
  app_name :: string
  conf_file :: string
  id_ :: string
  runtime_env :: "32 word"
  pid_file :: string
  st_pid :: "string option"
  st_kills :: "(int \<times> signal) list"

definition start_new :: "string option \<Rightarrow> app_start" where
  "start_new content = \<lparr>st_app = app_new, st_disp = (\<lambda>_. SIG_DFL), app_name = [], conf_file = [], id_ = [],
     runtime_env = 0, pid_file = [], st_pid = content, st_kills = []\<rparr>"

section \<open>The process id file\<close>

text \<open>\<open>None\<close>: a number that no \<open>int\<close> can hold.\<close>

definition scan_d :: "string \<Rightarrow> int \<Rightarrow> int option" where
  "scan_d s old =
     (let t = dropWhile is_space s;
          ds = (case t of c # cs \<Rightarrow> if c = CHR ''-'' \<or> c = CHR ''+'' then cs else t | [] \<Rightarrow> [])
      in if ds \<noteq> [] \<and> is_digit (hd ds) then c_atoi s else Some old)"

definition app_ReadPid :: "app_start \<Rightarrow> int option" where
  "app_ReadPid s = (case st_pid s of None \<Rightarrow> Some (-1) | Some content \<Rightarrow> scan_d content (-1))"

definition app_WritePid :: "bool \<Rightarrow> nat \<Rightarrow> app_start \<Rightarrow> int \<times> app_start" where
  "app_WritePid fopen_ok self s =
     (if \<not> fopen_ok then (-1, s) else (0, s\<lparr>st_pid := Some (to_string self @ [LF])\<rparr>))"

text \<open>A process that signals itself, or its group, runs its handler.\<close>

definition app_kill :: "nat \<Rightarrow> int \<Rightarrow> signal \<Rightarrow> app_start \<Rightarrow> app_start" where
  "app_kill self pid sig s = s\<lparr>st_kills := st_kills s @ [(pid, sig)],
     st_app := (if pid = int self \<or> pid = 0 then app_signal (st_disp s) sig (st_app s) else st_app s)\<rparr>"

definition app_SendSignal :: "nat \<Rightarrow> signal \<Rightarrow> app_start \<Rightarrow> app_start option" where
  "app_SendSignal self sig s = do {
     pid \<leftarrow> app_ReadPid s;
     Some (if -1 \<noteq> pid then app_kill self pid sig s else s)
   }"

section \<open>Options and commands\<close>

definition app_SetVersion :: "string option list \<Rightarrow> string list \<Rightarrow> string list" where
  "app_SetVersion new old = map (\<lambda>(n, v). case n of None \<Rightarrow> v | Some n \<Rightarrow> n) (zip new old)"

text \<open>\<open>strtol\<close> with base 0, of which the values beyond a \<open>long\<close> are cut to its limits.\<close>

definition c_strtol0 :: "string \<Rightarrow> int" where
  "c_strtol0 str =
     (let t = dropWhile is_space str;
          (neg, t) = (case t of c # cs \<Rightarrow> if c = CHR ''-'' then (True, cs) else if c = CHR ''+'' then (False, cs) else (False, t)
                      | [] \<Rightarrow> (False, []));
          hex = ((prefix ''0x'' t \<or> prefix ''0X'' t) \<and> (case drop 2 t of c # _ \<Rightarrow> digit_val c \<noteq> None | [] \<Rightarrow> False));
          n = (if hex then read_digits 16 0 (drop 2 t) else if prefix ''0'' t then read_digits 8 0 t else read_digits 10 0 t);
          n = (if neg then - n else n)
      in max (- (2 ^ 63)) (min (2 ^ 63 - 1) n))"

text \<open>One answer of \<open>getopt_long\<close>: a long option with its value, or a character.\<close>

datatype opt_answer = LongOpt char string | ShortOpt char

text \<open>The process goes on or exits with a code.\<close>

datatype 'a going = Exits int app_start | Goes 'a

definition app_long_option :: "char \<Rightarrow> string \<Rightarrow> app_start \<Rightarrow> app_start" where
  "app_long_option opt optarg s =
     (if opt = CHR ''i'' then s\<lparr>id_ := optarg\<rparr>
      else if opt = CHR ''t'' then s\<lparr>st_app := (st_app s)\<lparr>tick_timer := c_strtol0 optarg\<rparr>\<rparr>
      else if opt = CHR ''w'' then s
      else if opt = CHR ''e'' then s
      else if opt = CHR ''c'' then s\<lparr>st_app := (st_app s)\<lparr>idle_count := of_int (c_strtol0 optarg)\<rparr>\<rparr>
      else if opt = CHR ''s'' then s\<lparr>st_app := (st_app s)\<lparr>idle_sleep := c_strtol0 optarg\<rparr>\<rparr>
      else if opt = CHR ''C'' then s\<lparr>conf_file := optarg\<rparr>
      else if opt = CHR ''r'' then s\<lparr>runtime_env := of_int (c_strtol0 optarg)\<rparr>
      else s)"

fun app_opt_loop :: "opt_answer list \<Rightarrow> bool \<Rightarrow> app_start \<Rightarrow> (bool \<times> app_start) going" where
  "app_opt_loop [] is_daemon s = Goes (is_daemon, s)"
| "app_opt_loop (LongOpt c optarg # opts) is_daemon s = app_opt_loop opts is_daemon (app_long_option c optarg s)"
| "app_opt_loop (ShortOpt c # opts) is_daemon s =
     (if c = CHR ''D'' then app_opt_loop opts True s else Exits 0 s)"

fun app_cmd_loop :: "nat \<Rightarrow> string list \<Rightarrow> app_start \<Rightarrow> bool going option" where
  "app_cmd_loop self [] s = Some (Goes False)"
| "app_cmd_loop self (w # ws) s =
     (if w = ''stop'' then do { s \<leftarrow> app_SendSignal self SIGQUIT s; Some (Exits 0 s) }
      else if w = ''reload'' then do { s \<leftarrow> app_SendSignal self SIGUSR1 s; Some (Exits 0 s) }
      else if w = ''kill'' then do { s \<leftarrow> app_SendSignal self SIGQUIT s; Some (Exits 0 s) }
      else if w = ''start'' then Some (Goes True)
      else app_cmd_loop self ws s)"

text \<open>\<open>words\<close> is what is left of \<open>argv\<close> behind the options; the caller of \<open>MakeDaemon\<close> that goes on is the grandchild.\<close>

definition app_GetOpt :: "nat \<Rightarrow> nat \<Rightarrow> opt_answer list \<Rightarrow> string list \<Rightarrow> app_start \<Rightarrow> app_start going option" where
  "app_GetOpt self argc opts words s =
     (if argc \<le> 1 then Some (Exits 0 s)
      else case app_opt_loop opts False s of
        Exits c s \<Rightarrow> Some (Exits c s)
      | Goes (is_daemon, s) \<Rightarrow> do {
          r \<leftarrow> app_cmd_loop self words s;
          (case r of
             Exits c s \<Rightarrow> Some (Exits c s)
           | Goes is_start \<Rightarrow>
               if \<not> is_start then Some (Exits (-2) s)
               else Some (Goes (if is_daemon then s\<lparr>st_disp := app_MakeDaemon (st_disp s)\<rparr> else s)))
        })"

section \<open>The start\<close>

text \<open>\<open>basename\<close> of a path that does not end in a slash.\<close>

definition base_name :: "string \<Rightarrow> string" where
  "base_name path = rev (takeWhile (\<lambda>c. c \<noteq> CHR ''/'') (rev path))"

definition app_Init :: "string list \<Rightarrow> opt_answer list \<Rightarrow> string list \<Rightarrow> nat \<Rightarrow> bool \<Rightarrow> (string \<Rightarrow> int) \<Rightarrow> app_start
     \<Rightarrow> app_start going option" where
  "app_Init argv opts words self fopen_ok on_init s =
     (let s = s\<lparr>app_name := base_name (hd argv)\<rparr>;
          s = s\<lparr>pid_file := app_name s @ ''.pid''\<rparr>
      in do {
        r \<leftarrow> app_GetOpt self (length argv) opts words s;
        (case r of
           Exits c s \<Rightarrow> Some (Exits c s)
         | Goes s \<Rightarrow> do {
             let s = s\<lparr>st_disp := app_InitSigHandler (st_disp s)\<rparr>;
             s \<leftarrow> app_SendSignal self SIGQUIT s;
             let s = snd (app_WritePid fopen_ok self s);
             Some (if on_init (conf_file s) \<noteq> 0 then Exits (-1) s else Goes s)
           })
      })"


section \<open>The process id written and read\<close>

lemma read_pid: "read_int 10 (to_string n @ [LF]) = int n"
proof (cases "to_string n")
  case (Cons c cs)
  then have "c \<notin> {LF, CR, CHR '' '', TAB, CHR ''-'', CHR ''+'', CHR 0x0B, CHR 0x0C}" using digits_not [of c n] by auto
  then have "read_int 10 (to_string n @ [LF]) = read_digits 10 0 (to_string n @ [LF])" using Cons by (simp add: read_int_def is_space_def)
  also have "\<dots> = read_digits 10 (int n) [LF]"
    by (subst read_digits_append) (auto simp: read_to_string dest: to_string_chars)
  also have "\<dots> = int n" by (simp add: digit_val_def is_digit_def less_eq_char_def)
  finally show ?thesis .
qed simp

lemma scan_pid:
  assumes "n < 2 ^ 31"
  shows "scan_d (to_string n @ [LF]) old = Some (int n)"
proof -
  obtain c cs where c: "to_string n = c # cs" by (cases "to_string n") simp_all
  then have no: "c \<notin> {LF, CR, CHR '' '', TAB, CHR ''-'', CHR ''+'', CHR 0x0B, CHR 0x0C}" using digits_not [of c n] by auto
  obtain d where "c = digit d" using to_string_chars [of c n] c by auto
  then have "digit_val c \<noteq> None" by (simp only: digit_val_digit) simp
  then have "is_digit c \<or> CHR ''a'' \<le> c \<or> CHR ''A'' \<le> c" by (auto simp: digit_val_def split: if_splits)
  moreover have "is_digit (digit e)" for e
  proof -
    have "is_digit (char_of (48 + k))" if "k < 10" for k :: nat using that by (rule digit_cases) code_simp+
    then show ?thesis by simp
  qed
  ultimately have "is_digit c" using \<open>c = digit d\<close> by simp
  with no c assms show ?thesis
    by (simp add: scan_d_def is_space_def c_atoi_def read_pid [of n, unfolded c, simplified])
qed

lemma ReadPid_written: "self < 2 ^ 31 \<Longrightarrow> app_ReadPid (snd (app_WritePid True self s)) = Some (int self)"
  by (simp add: app_ReadPid_def app_WritePid_def scan_pid)

lemma ReadPid_fields: "app_ReadPid s' = app_ReadPid s" if "st_pid s' = st_pid s"
  using that by (simp add: app_ReadPid_def)

section \<open>Starting\<close>

lemma long_option_fields [simp]:
  "st_pid (app_long_option c v s) = st_pid s" "st_kills (app_long_option c v s) = st_kills s"
  "is_exit (st_app (app_long_option c v s)) = is_exit (st_app s)" "st_disp (app_long_option c v s) = st_disp s"
  by (simp_all add: app_long_option_def)

lemma opt_loop_goes:
  "\<forall>a \<in> set opts. a = ShortOpt (CHR ''D'') \<or> (\<exists>c v. a = LongOpt c v) \<Longrightarrow>
    \<exists>s' d'. app_opt_loop opts d s = Goes (d', s') \<and> st_pid s' = st_pid s \<and> st_kills s' = st_kills s
      \<and> is_exit (st_app s') = is_exit (st_app s)"
  by (induction opts d s rule: app_opt_loop.induct) fastforce+

lemma cmd_loop_start:
  "\<forall>w \<in> set ws. w \<notin> {''stop'', ''reload'', ''kill'', ''start''} \<Longrightarrow> app_cmd_loop self (ws @ ''start'' # vs) s = Some (Goes True)"
  by (induction ws) auto

lemma GetOpt_start:
  assumes "1 < argc" "\<forall>a \<in> set opts. a = ShortOpt (CHR ''D'') \<or> (\<exists>c v. a = LongOpt c v)"
    and "\<forall>w \<in> set ws. w \<notin> {''stop'', ''reload'', ''kill'', ''start''}"
  obtains s' where "app_GetOpt self argc opts (ws @ ''start'' # vs) s = Some (Goes s')" "st_pid s' = st_pid s"
    "st_kills s' = st_kills s" "is_exit (st_app s') = is_exit (st_app s)"
proof -
  obtain s1 d where s1: "app_opt_loop opts False s = Goes (d, s1)" "st_pid s1 = st_pid s" "st_kills s1 = st_kills s"
      "is_exit (st_app s1) = is_exit (st_app s)"
    using opt_loop_goes [OF assms(2), of False s] by blast
  show ?thesis
    by (rule that [of "if d then s1\<lparr>st_disp := app_MakeDaemon (st_disp s1)\<rparr> else s1"])
      (use s1 assms(1) cmd_loop_start [OF assms(3)] in \<open>simp_all add: app_GetOpt_def\<close>)
qed

lemma handled_quit: "app_InitSigHandler d SIGQUIT = ExitProcessCtrl"
  by (simp add: app_InitSigHandler_def Let_def)

text \<open>C33. A second start replaces the first process: with \<open>start\<close> on the command line, whatever the
  options, and the file holding the process id of the first process, exactly that process is sent
  \<open>SIGQUIT\<close>, and the file then holds the id of the new one, which reads it back. The new process asks
  itself to exit exactly when the file, which is never removed, held its own id.\<close>

theorem second_start_replaces:
  assumes "1 < length argv" "\<forall>a \<in> set opts. a = ShortOpt (CHR ''D'') \<or> (\<exists>c v. a = LongOpt c v)"
    and "\<forall>w \<in> set ws. w \<notin> {''stop'', ''reload'', ''kill'', ''start''}"
    and "0 < old" "old < 2 ^ 31" "self < 2 ^ 31" "\<forall>f. on_init f = 0"
  shows "\<exists>s. app_Init argv opts (ws @ ''start'' # vs) self True on_init (start_new (Some (to_string old @ [LF]))) = Some (Goes s)
    \<and> st_kills s = [(int old, SIGQUIT)] \<and> app_ReadPid s = Some (int self) \<and> (is_exit (st_app s) \<longleftrightarrow> self = old)"
proof -
  let ?new = "start_new (Some (to_string old @ [LF]))"
  let ?named = "?new\<lparr>app_name := base_name (hd argv), pid_file := base_name (hd argv) @ ''.pid''\<rparr>"
  obtain s1 where s1: "app_GetOpt self (length argv) opts (ws @ ''start'' # vs) ?named = Some (Goes s1)"
      "st_pid s1 = st_pid ?named" "st_kills s1 = st_kills ?named" "is_exit (st_app s1) = is_exit (st_app ?named)"
    by (rule GetOpt_start [OF assms(1-3)]) (rule that)
  let ?ready = "s1\<lparr>st_disp := app_InitSigHandler (st_disp s1)\<rparr>"
  let ?sent = "app_kill self (int old) SIGQUIT ?ready"
  let ?done = "snd (app_WritePid True self ?sent)"
  have "app_ReadPid ?ready = Some (int old)" using s1(2) assms(5) by (simp add: app_ReadPid_def start_new_def scan_pid)
  then have "app_SendSignal self SIGQUIT ?ready = Some ?sent" by (simp add: app_SendSignal_def)
  then have "app_Init argv opts (ws @ ''start'' # vs) self True on_init ?new = Some (Goes ?done)"
    using s1(1) assms(7) by (simp add: app_Init_def Let_def)
  moreover have "st_kills ?done = [(int old, SIGQUIT)]"
    using s1(3) by (simp add: app_WritePid_def app_kill_def start_new_def)
  moreover have "is_exit (st_app ?done) \<longleftrightarrow> self = old"
    using s1(4) assms(4) by (simp add: app_WritePid_def app_kill_def start_new_def app_new_def app_signal.simps handled_quit)
  ultimately show ?thesis using ReadPid_written [OF assms(6), of ?sent] by blast
qed

theorem second_start_replaces_witness:
  "\<exists>s. app_Init [''./server'', ''start''] [LongOpt (CHR ''C'') ''a.ini'', ShortOpt (CHR ''D'')] [''start''] 77 True (\<lambda>_. 0)
      (start_new (Some (to_string 1 @ [LF]))) = Some (Goes s)
    \<and> st_kills s = [(1, SIGQUIT)] \<and> app_ReadPid s = Some 77 \<and> \<not> is_exit (st_app s)"
  using second_start_replaces [of "[''./server'', ''start'']" "[LongOpt (CHR ''C'') ''a.ini'', ShortOpt (CHR ''D'')]" "[]" 1 77 "\<lambda>_. 0" "[]"]
  by simp

text \<open>In a container, where each start may get the same process id, the process then ends in the first
  round of its loop.\<close>

lemma exits_at_once:
  assumes "is_exit a"
  shows "\<not> is_run (fst (app_Run d tracing (i # is) a [])) \<and> snd (app_Run d tracing (i # is) a []) = [Stop, Exit]"
proof -
  have "is_exit (fold (app_signal d) ss b)" if "is_exit b" for ss b
    using that by (induction ss arbitrary: b) (auto simp: app_signal.simps split: handler.split)
  then have "is_exit (fold (app_signal d) (signals i) (a\<lparr>is_run := True\<rparr>))" using assms by simp
  then show ?thesis by (simp add: app_Run_def app_round_def tracing_def Let_def app_loop_stopped)
qed

end
