(* ===== verification/ProxyTimer.thy ===== *)
theory ProxyTimer
  imports AppBase "HOL-Library.Signed_Division"
begin

text \<open>
  What the main loop of the proxy has besides its events: the timers of \<open>bis/src/proxy/timer_heap.h\<close>
  and \<open>server.cpp\<close>, which are never started, and the descriptor kept by \<open>CEpoll\<close>
  (\<open>bis/src/proxy/cepoll.cpp\<close>; adding, changing and deleting events are in \<open>ProxyTask\<close>).
\<close>

section \<open>Timers\<close>

record expire_timer =
  expire :: timeval
  et_type :: int
  task_pos :: "32 word"

definition CompareTime :: "timeval \<Rightarrow> timeval \<Rightarrow> int" where
  "CompareTime tv1 tv2 =
     (if tv_sec tv1 > tv_sec tv2 then 1
      else if tv_sec tv1 < tv_sec tv2 then -1
      else tv_usec tv1 - tv_usec tv2)"

definition LtTimer :: "expire_timer \<Rightarrow> expire_timer \<Rightarrow> bool" where
  "LtTimer t1 t2 \<longleftrightarrow> CompareTime (expire t1) (expire t2) > 0"

text \<open>A priority queue is the list of its elements; at its top is one no other is above.\<close>

type_synonym timer_heap = "expire_timer list"

fun heap_top :: "timer_heap \<Rightarrow> expire_timer option" where
  "heap_top [] = None"
| "heap_top (t # ts) = (case heap_top ts of None \<Rightarrow> Some t | Some u \<Rightarrow> if LtTimer t u then Some u else Some t)"

definition psrv_AddTimeout :: "expire_timer \<Rightarrow> timer_heap \<Rightarrow> timer_heap" where
  "psrv_AddTimeout t ts = t # ts"

text \<open>Division of C; \<open>tv_sec\<close> and \<open>tv_usec\<close> are far from the limits of a \<open>long\<close>.\<close>

definition psrv_AddTime :: "timeval \<Rightarrow> int \<Rightarrow> timeval" where
  "psrv_AddTime tv milliseconds =
     (let tv = tv\<lparr>tv_sec := tv_sec tv + milliseconds sdiv 1000\<rparr>;
          tv = tv\<lparr>tv_usec := tv_usec tv + milliseconds smod 1000 * 1000\<rparr>
      in if tv_usec tv \<ge> 1000000 then tv\<lparr>tv_sec := tv_sec tv + 1, tv_usec := tv_usec tv - 1000000\<rparr> else tv)"

definition psrv_RemoveTimer :: "64 word \<Rightarrow> timer_heap \<Rightarrow> int \<times> timer_heap" where
  "psrv_RemoveTimer ullTimerID ts = (0, ts)"

definition psrv_ExpireTimers :: "timer_heap \<Rightarrow> timer_heap" where
  "psrv_ExpireTimers ts = ts"

definition tv_micros :: "timeval \<Rightarrow> int" where "tv_micros tv = tv_sec tv * 1000000 + tv_usec tv"

definition tv_normal :: "timeval \<Rightarrow> bool" where "tv_normal tv \<longleftrightarrow> 0 \<le> tv_usec tv \<and> tv_usec tv < 1000000"

lemma AddTime_forward:
  assumes "tv_normal tv" "0 \<le> ms"
  shows "tv_normal (psrv_AddTime tv ms) \<and> tv_micros (psrv_AddTime tv ms) = tv_micros tv + ms * 1000"
proof -
  define q r where "q = ms sdiv 1000" and "r = ms smod 1000"
  have "q = ms div 1000" "r = ms mod 1000"
    unfolding q_def r_def using assms(2) by (cases "ms = 0"; simp add: signed_divide_int_def signed_modulo_int_def sgn_if)+
  then have "q * 1000 + r = ms" "0 \<le> r" "r < 1000" by simp_all
  with assms(1) show ?thesis
    by (simp add: psrv_AddTime_def tv_normal_def tv_micros_def Let_def flip: q_def r_def)
qed

lemma LtTimer_micros:
  "tv_normal (expire t) \<Longrightarrow> tv_normal (expire u) \<Longrightarrow> LtTimer t u \<longleftrightarrow> tv_micros (expire u) < tv_micros (expire t)"
  by (auto simp: LtTimer_def CompareTime_def tv_normal_def tv_micros_def)

text \<open>The top is the timer that expires first.\<close>

lemma heap_top_first:
  "\<forall>t \<in> set ts. tv_normal (expire t) \<Longrightarrow> heap_top ts = Some t \<Longrightarrow>
    t \<in> set ts \<and> (\<forall>u \<in> set ts. tv_micros (expire t) \<le> tv_micros (expire u))"
proof (induction ts arbitrary: t)
  case (Cons v ts)
  show ?case
  proof (cases "heap_top ts")
    case None
    then have "ts = []" by (cases ts) (auto split: option.splits if_splits)
    with Cons.prems show ?thesis by simp
  next
    case (Some u)
    with Cons show ?thesis by (fastforce simp: LtTimer_micros split: if_splits)
  qed
qed simp

section \<open>The epoll descriptor\<close>

record cepoll =
  iEpfd :: int
  uTimeout :: "32 word"

definition ep_new :: cepoll where "ep_new = \<lparr>iEpfd = -1, uTimeout = 0\<rparr>"

definition ep_Init :: "32 word \<Rightarrow> int \<Rightarrow> cepoll \<Rightarrow> int \<times> cepoll" where
  "ep_Init timeout created e = (created, e\<lparr>uTimeout := timeout, iEpfd := created\<rparr>)"

text \<open>Whether the descriptor is closed: one that is 0 is not.\<close>

definition ep_destroy :: "cepoll \<Rightarrow> bool \<times> cepoll" where
  "ep_destroy e = (iEpfd e > 0, e\<lparr>iEpfd := -1\<rparr>)"

definition ep_set_iEpfd :: "int \<Rightarrow> cepoll \<Rightarrow> cepoll" where "ep_set_iEpfd fd e = e\<lparr>iEpfd := fd\<rparr>"
definition ep_get_iEpfd :: "cepoll \<Rightarrow> int" where "ep_get_iEpfd e = iEpfd e"
definition ep_set_uTimeout :: "32 word \<Rightarrow> cepoll \<Rightarrow> cepoll" where "ep_set_uTimeout t e = e\<lparr>uTimeout := t\<rparr>"

text \<open>\<open>epoll_wait\<close> takes the timeout as an \<open>int\<close>: beyond \<open>2 ^ 31\<close> it waits for ever.\<close>

definition ep_Wait :: "(int \<Rightarrow> int \<Rightarrow> int) \<Rightarrow> cepoll \<Rightarrow> int" where
  "ep_Wait epoll_wait e = epoll_wait (iEpfd e) (sint (uTimeout e))"

end
