(* ===== verification/Base64.thy ===== *)
theory Base64
  imports Prelude "HOL-Library.Char_ord"
begin

unbundle bit_operations_syntax

text \<open>
  \<open>CStrTool::Base64Encode\<close> and \<open>Base64Decode\<close> of \<open>bis/src/client/pet_util.cpp\<close>: base 64 without
  padding, in the normal and the URL alphabet. Input buffer and length are one list; the result is
  the answer and the bytes written, whose number is the length given back when the answer is 0.
\<close>

section \<open>Encoding\<close>

definition BASE64_TYPE_NORMAL :: int where "BASE64_TYPE_NORMAL = 0"
definition BASE64_TYPE_URL :: int where "BASE64_TYPE_URL = 1"

definition PET_UTIL_B64_NORMAL_STR :: "byte list" where
  "PET_UTIL_B64_NORMAL_STR = map of_char ''ABCDEFGHIJKLMNOPQRSTUVWXYZabcdefghijklmnopqrstuvwxyz0123456789+/''"

definition PET_UTIL_B64_URL_STR :: "byte list" where
  "PET_UTIL_B64_URL_STR = map of_char ''ABCDEFGHIJKLMNOPQRSTUVWXYZabcdefghijklmnopqrstuvwxyz0123456789*-''"

abbreviation b64_at :: "byte list \<Rightarrow> int \<Rightarrow> byte" where
  "b64_at tbl i \<equiv> tbl ! nat (i AND 0x3F)"

text \<open>\<open>cap\<close> is the room of the output buffer; bytes are promoted to \<open>int\<close>.\<close>

fun b64_enc_loop :: "byte list \<Rightarrow> int \<Rightarrow> byte list \<Rightarrow> byte list \<Rightarrow> int \<times> byte list" where
  "b64_enc_loop tbl cap (a # b # c # ds) out =
     (if cap - int (length out) < 4 then (-2, out)
      else b64_enc_loop tbl cap ds (out @
        [b64_at tbl (drop_bit 2 (uint a)),
         b64_at tbl (push_bit 4 (uint a) + drop_bit 4 (uint b)),
         b64_at tbl (push_bit 2 (uint b) + drop_bit 6 (uint c)),
         b64_at tbl (uint c)]))"
| "b64_enc_loop tbl cap [a, b] out =
     (if cap - int (length out) < 3 then (-2, out)
      else (0, out @
        [b64_at tbl (drop_bit 2 (uint a)),
         b64_at tbl (push_bit 4 (uint a) + drop_bit 4 (uint b)),
         b64_at tbl (push_bit 2 (uint b))]))"
| "b64_enc_loop tbl cap [a] out =
     (if cap - int (length out) < 2 then (-2, out)
      else (0, out @
        [b64_at tbl (drop_bit 2 (uint a)),
         b64_at tbl (push_bit 4 (uint a))]))"
| "b64_enc_loop tbl cap [] out = (0, out)"

definition Base64Encode :: "byte list \<Rightarrow> int \<Rightarrow> int \<Rightarrow> int \<times> byte list" where
  "Base64Encode data cap type =
     (if type = BASE64_TYPE_NORMAL then b64_enc_loop PET_UTIL_B64_NORMAL_STR cap data []
      else if type = BASE64_TYPE_URL then b64_enc_loop PET_UTIL_B64_URL_STR cap data []
      else (-1, []))"

section \<open>Decoding\<close>

definition BASE64_TYPE_NORMAL_DE :: "int list" where
  "BASE64_TYPE_NORMAL_DE =
    [-1, -1, -1, -1, -1, -1, -1, -1, -1, -1, -1, -1, -1, -1, -1, -1,
     -1, -1, -1, -1, -1, -1, -1, -1, -1, -1, -1, -1, -1, -1, -1, -1,
     -1, -1, -1, -1, -1, -1, -1, -1, -1, -1, -1, 62, -1, -1, -1, 63,
     52, 53, 54, 55, 56, 57, 58, 59, 60, 61, -1, -1, -1, -1, -1, -1,
     -1, 0, 1, 2, 3, 4, 5, 6, 7, 8, 9, 10, 11, 12, 13, 14,
     15, 16, 17, 18, 19, 20, 21, 22, 23, 24, 25, -1, -1, -1, -1, -1,
     -1, 26, 27, 28, 29, 30, 31, 32, 33, 34, 35, 36, 37, 38, 39, 40,
     41, 42, 43, 44, 45, 46, 47, 48, 49, 50, 51, -1, -1, -1, -1, -1]
    @ replicate 128 (-1)"

definition BASE64_TYPE_URL_DE :: "int list" where
  "BASE64_TYPE_URL_DE =
    [-1, -1, -1, -1, -1, -1, -1, -1, -1, -1, -1, -1, -1, -1, -1, -1,
     -1, -1, -1, -1, -1, -1, -1, -1, -1, -1, -1, -1, -1, -1, -1, -1,
     -1, -1, -1, -1, -1, -1, -1, -1, -1, -1, 62, -1, -1, 63, -1, -1,
     52, 53, 54, 55, 56, 57, 58, 59, 60, 61, -1, -1, -1, -1, -1, -1,
     -1, 0, 1, 2, 3, 4, 5, 6, 7, 8, 9, 10, 11, 12, 13, 14,
     15, 16, 17, 18, 19, 20, 21, 22, 23, 24, 25, -1, -1, -1, -1, -1,
     -1, 26, 27, 28, 29, 30, 31, 32, 33, 34, 35, 36, 37, 38, 39, 40,
     41, 42, 43, 44, 45, 46, 47, 48, 49, 50, 51, -1, -1, -1, -1, -1]
    @ replicate 128 (-1)"

abbreviation b64_de :: "int list \<Rightarrow> byte \<Rightarrow> int" where
  "b64_de tbl c \<equiv> tbl ! unat c"

fun b64_dec_loop :: "int list \<Rightarrow> int \<Rightarrow> byte list \<Rightarrow> byte list \<Rightarrow> int \<times> byte list" where
  "b64_dec_loop tbl cap (a # b # c # d # ds) out =
     (if b64_de tbl a < 0 \<or> b64_de tbl b < 0 \<or> b64_de tbl c < 0 \<or> b64_de tbl d < 0 then (-3, out)
      else if cap - int (length out) < 3 then (-2, out)
      else b64_dec_loop tbl cap ds (out @
        [word_of_int (push_bit 2 (b64_de tbl a) + drop_bit 4 (b64_de tbl b)),
         word_of_int (push_bit 4 (b64_de tbl b AND 0xF) + drop_bit 2 (b64_de tbl c)),
         word_of_int (push_bit 6 (b64_de tbl c AND 0x3) + b64_de tbl d)]))"
| "b64_dec_loop tbl cap [a, b, c] out =
     (if b64_de tbl a < 0 \<or> b64_de tbl b < 0 \<or> b64_de tbl c < 0 then (-3, out)
      else if cap - int (length out) < 2 then (-2, out)
      else (0, out @
        [word_of_int (push_bit 2 (b64_de tbl a) + drop_bit 4 (b64_de tbl b)),
         word_of_int (push_bit 4 (b64_de tbl b AND 0xF) + drop_bit 2 (b64_de tbl c))]))"
| "b64_dec_loop tbl cap [a, b] out =
     (if b64_de tbl a < 0 \<or> b64_de tbl b < 0 then (-3, out)
      else if cap - int (length out) < 1 then (-2, out)
      else (0, out @ [word_of_int (push_bit 2 (b64_de tbl a) + drop_bit 4 (b64_de tbl b))]))"
| "b64_dec_loop tbl cap [a] out = (-4, out)"
| "b64_dec_loop tbl cap [] out = (0, out)"

definition Base64Decode :: "byte list \<Rightarrow> int \<Rightarrow> int \<Rightarrow> int \<times> byte list" where
  "Base64Decode data cap type =
     (if type = BASE64_TYPE_NORMAL then b64_dec_loop BASE64_TYPE_NORMAL_DE cap data []
      else if type = BASE64_TYPE_URL then b64_dec_loop BASE64_TYPE_URL_DE cap data []
      else (-1, []))"

section \<open>The tables fit each other\<close>

definition b64_tables :: "byte list \<Rightarrow> int list \<Rightarrow> bool" where
  "b64_tables tbl de \<longleftrightarrow> (\<forall>i < 64. de ! unat (tbl ! i) = int i)"

lemma b64_tables_list: "list_all (\<lambda>i. de ! unat (tbl ! i) = int i) [0..<64] \<Longrightarrow> b64_tables tbl de"
  by (auto simp: b64_tables_def list_all_iff)

lemma b64_tables_ok:
  "b64_tables PET_UTIL_B64_NORMAL_STR BASE64_TYPE_NORMAL_DE" "b64_tables PET_UTIL_B64_URL_STR BASE64_TYPE_URL_DE"
  by (rule b64_tables_list, code_simp)+

lemma and_63: "i AND 0x3F = i mod 64" for i :: int
  using take_bit_eq_mask [of 6 i] by (simp add: take_bit_eq_mod mask_eq_exp_minus_1)

lemma and_15: "i AND 0xF = i mod 16" for i :: int
  using take_bit_eq_mask [of 4 i] by (simp add: take_bit_eq_mod mask_eq_exp_minus_1)

lemma and_3: "i AND 0x3 = i mod 4" for i :: int
  using take_bit_eq_mask [of 2 i] by (simp add: take_bit_eq_mod mask_eq_exp_minus_1)

lemma b64_de_at: "b64_tables tbl de \<Longrightarrow> b64_de de (b64_at tbl i) = i mod 64"
  by (simp add: b64_tables_def and_63 nat_less_iff)

text \<open>The three bytes put together from the four values of six bits.\<close>

lemma uint_byte: "0 \<le> uint (a :: byte)" "uint (a :: byte) < 256"
  using uint_lt2p [of a] by simp_all

lemma b64_pieces:
  fixes a b c :: byte
  shows "word_of_int (push_bit 2 (drop_bit 2 (uint a) mod 64) + drop_bit 4 ((push_bit 4 (uint a) + drop_bit 4 (uint b)) mod 64)) = a"
    "word_of_int (push_bit 2 (drop_bit 2 (uint a) mod 64) + drop_bit 4 (push_bit 4 (uint a) mod 64)) = a"
    "word_of_int (push_bit 4 ((push_bit 4 (uint a) + drop_bit 4 (uint b)) mod 64 mod 16)
       + drop_bit 2 ((push_bit 2 (uint b) + drop_bit 6 (uint c)) mod 64)) = b"
    "word_of_int (push_bit 4 ((push_bit 4 (uint a) + drop_bit 4 (uint b)) mod 64 mod 16) + drop_bit 2 (push_bit 2 (uint b) mod 64)) = b"
    "word_of_int (push_bit 6 ((push_bit 2 (uint b) + drop_bit 6 (uint c)) mod 64 mod 4) + uint c mod 64) = c"
proof -
  have word: "n = uint x \<Longrightarrow> word_of_int n = x" for n and x :: byte by simp
  note bits = push_bit_eq_mult drop_bit_eq_div and range = uint_byte [of a] uint_byte [of b] uint_byte [of c]
  have shift4: "(x * 16 + q) mod 64 = x mod 4 * 16 + q" if "0 \<le> q" "q < 16" for x q :: int
    using that zmod_zmult2_eq [of 4 "x * 16 + q" 16] by simp
  have shift2: "(x * 4 + q) mod 64 = x mod 16 * 4 + q" if "0 \<le> q" "q < 4" for x q :: int
    using that zmod_zmult2_eq [of 16 "x * 4 + q" 4] by simp
  have high: "x div 4 mod 64 = x div 4" "x div 16 < 16" "0 \<le> x div 16" "x div 64 < 4" "0 \<le> x div 64"
    if "0 \<le> x" "x < 256" for x :: int
    using that by auto
  note h = high [OF range(1,2)] high [OF range(3,4)] high [OF range(5,6)]
  show "word_of_int (push_bit 2 (drop_bit 2 (uint a) mod 64) + drop_bit 4 ((push_bit 4 (uint a) + drop_bit 4 (uint b)) mod 64)) = a"
    by (rule word) (simp add: bits h shift4)
  show "word_of_int (push_bit 2 (drop_bit 2 (uint a) mod 64) + drop_bit 4 (push_bit 4 (uint a) mod 64)) = a"
    by (rule word) (use shift4 [of 0 "uint a"] in \<open>simp add: bits h\<close>)
  show "word_of_int (push_bit 4 ((push_bit 4 (uint a) + drop_bit 4 (uint b)) mod 64 mod 16)
       + drop_bit 2 ((push_bit 2 (uint b) + drop_bit 6 (uint c)) mod 64)) = b"
    by (rule word) (simp add: bits h shift4 shift2)
  show "word_of_int (push_bit 4 ((push_bit 4 (uint a) + drop_bit 4 (uint b)) mod 64 mod 16) + drop_bit 2 (push_bit 2 (uint b) mod 64)) = b"
    by (rule word) (use shift2 [of 0 "uint b"] in \<open>simp add: bits h shift4\<close>)
  show "word_of_int (push_bit 6 ((push_bit 2 (uint b) + drop_bit 6 (uint c)) mod 64 mod 4) + uint c mod 64) = c"
    by (rule word) (simp add: bits h shift2)
qed


section \<open>Round trip\<close>

definition b64_len :: "nat \<Rightarrow> nat" where "b64_len n = (4 * n + 2) div 3"

lemma b64_len_3 [simp]: "b64_len (Suc (Suc (Suc n))) = b64_len n + 4"
  by (simp add: b64_len_def)

lemma b64_len_small [simp]: "b64_len 0 = 0" "b64_len (Suc 0) = 2" "b64_len (Suc (Suc 0)) = 3"
  by (simp_all add: b64_len_def)

lemma not_neg_mod: "\<not> i mod 64 < 0" for i :: int
  by simp

lemma enc_loop_dec:
  assumes "b64_tables tbl de" "int (length out) + int (b64_len (length ds)) \<le> cap"
  shows "\<exists>enc. b64_enc_loop tbl cap ds out = (0, out @ enc) \<and> length enc = b64_len (length ds)
    \<and> (\<forall>cap' out'. int (length out') + int (length ds) \<le> cap' \<longrightarrow> b64_dec_loop de cap' enc out' = (0, out' @ ds))"
  using assms
proof (induction tbl cap ds out rule: b64_enc_loop.induct)
  case (1 tbl cap a b c ds out)
  let ?e = "[b64_at tbl (drop_bit 2 (uint a)), b64_at tbl (push_bit 4 (uint a) + drop_bit 4 (uint b)),
     b64_at tbl (push_bit 2 (uint b) + drop_bit 6 (uint c)), b64_at tbl (uint c)]"
  have room: "\<not> cap - int (length out) < 4" "int (length (out @ ?e)) + int (b64_len (length ds)) \<le> cap"
    using "1.prems"(2) by simp_all
  obtain enc where enc: "b64_enc_loop tbl cap ds (out @ ?e) = (0, (out @ ?e) @ enc)" "length enc = b64_len (length ds)"
      "\<And>cap' out'. int (length out') + int (length ds) \<le> cap' \<Longrightarrow> b64_dec_loop de cap' enc out' = (0, out' @ ds)"
    using "1.IH" [OF room(1) "1.prems"(1) room(2)] by auto
  have "b64_dec_loop de cap' (?e @ enc) out' = (0, out' @ a # b # c # ds)"
    if "int (length out') + int (length (a # b # c # ds)) \<le> cap'" for cap' out'
  proof -
    have "b64_dec_loop de cap' (?e @ enc) out' = b64_dec_loop de cap' enc (out' @ [a, b, c])"
      using that by (simp add: b64_de_at [OF "1.prems"(1)] and_15 and_3 b64_pieces not_neg_mod del: of_int_add)
    with enc(3) [of "out' @ [a, b, c]" cap'] that show ?thesis by simp
  qed
  with enc(1,2) room(1) show ?case by (intro exI [of _ "?e @ enc"]) simp
qed (auto simp: b64_de_at and_15 b64_pieces not_neg_mod simp del: of_int_add)

text \<open>Nothing is written behind the room of the output buffer, whatever the input.\<close>

lemma enc_loop_bound: "int (length out) \<le> cap \<Longrightarrow> int (length (snd (b64_enc_loop tbl cap ds out))) \<le> cap"
  by (induction tbl cap ds out rule: b64_enc_loop.induct) auto

lemma dec_loop_bound: "int (length out) \<le> cap \<Longrightarrow> int (length (snd (b64_dec_loop tbl cap ds out))) \<le> cap"
  by (induction tbl cap ds out rule: b64_dec_loop.induct) auto

lemma enc_loop_small:
  "cap < int (length out) + int (b64_len (length ds)) \<Longrightarrow> int (length out) \<le> cap \<Longrightarrow> fst (b64_enc_loop tbl cap ds out) = -2"
  by (induction tbl cap ds out rule: b64_enc_loop.induct) auto

text \<open>C25. In both alphabets, encoding into a buffer with room for \<open>(4 n + 2) div 3\<close> bytes gives exactly
  that many, and decoding them into a buffer with room for \<open>n\<close> bytes gives the data back. With less
  room the encoder answers -2, and neither routine ever writes behind its buffer.\<close>

theorem base64_roundtrip:
  assumes "type = BASE64_TYPE_NORMAL \<or> type = BASE64_TYPE_URL" "0 \<le> cap"
  shows "(int (b64_len (length ds)) \<le> cap \<longrightarrow> (\<exists>enc. Base64Encode ds cap type = (0, enc) \<and> length enc = b64_len (length ds)
      \<and> Base64Decode enc (int (length ds)) type = (0, ds)))
    \<and> (cap < int (b64_len (length ds)) \<longrightarrow> fst (Base64Encode ds cap type) = -2)
    \<and> int (length (snd (Base64Encode ds cap type))) \<le> cap \<and> int (length (snd (Base64Decode ds cap type))) \<le> cap"
proof -
  obtain tbl de where t: "b64_tables tbl de" "\<And>ds cap. Base64Encode ds cap type = b64_enc_loop tbl cap ds []"
      "\<And>ds cap. Base64Decode ds cap type = b64_dec_loop de cap ds []"
    using assms(1) b64_tables_ok by (auto simp: Base64Encode_def Base64Decode_def BASE64_TYPE_NORMAL_def BASE64_TYPE_URL_def)
  have "fst (b64_enc_loop tbl cap ds []) = -2" if "cap < int (b64_len (length ds))"
    using enc_loop_small [of cap "[]" ds tbl] that assms(2) by simp
  then show ?thesis
    using enc_loop_dec [OF t(1), of "[]" ds cap] enc_loop_bound [of "[]" cap tbl ds] dec_loop_bound [of "[]" cap de ds] assms(2)
    unfolding t(2,3) by fastforce
qed

theorem base64_roundtrip_witness:
  "\<exists>enc. Base64Encode [77, 97, 110, 1] 6 BASE64_TYPE_URL = (0, enc) \<and> length enc = 6
    \<and> Base64Decode enc 4 BASE64_TYPE_URL = (0, [77, 97, 110, 1])"
  using base64_roundtrip [of BASE64_TYPE_URL 6 "[77, 97, 110, 1]"] by (simp add: b64_len_def)

end
