(* ===== verification/BuffTool.thy ===== *)
theory BuffTool
  imports Prelude "HOL-Library.Monad_Syntax"
begin

unbundle bit_operations_syntax

text \<open>
  \<open>CBuffTool\<close> of \<open>bis/src/client/pet_util.cpp\<close>: integers and strings written to and read from
  memory, in host or network order, on a little-endian host with a \<open>long\<close> of 64 bits. A buffer is
  the list of bytes from the pointer on; an access behind its end is \<open>None\<close>. The overloads for
  signed and unsigned integers handle the same words.
\<close>

section \<open>Memory\<close>

definition cb_read :: "nat \<Rightarrow> byte list \<Rightarrow> byte list option" where
  "cb_read n buf = (if n \<le> length buf then Some (take n buf) else None)"

definition cb_write :: "byte list \<Rightarrow> byte list \<Rightarrow> byte list option" where
  "cb_write bs buf = (if length bs \<le> length buf then Some (bs @ drop (length bs) buf) else None)"

text \<open>The bytes of a word in the order of the host, and back.\<close>

definition le_bytes :: "nat \<Rightarrow> 'a::len word \<Rightarrow> byte list" where
  "le_bytes n w = map (\<lambda>i. ucast (drop_bit (8 * i) w)) [0..<n]"

definition le_word :: "byte list \<Rightarrow> 'a::len word" where
  "le_word bs = foldr (\<lambda>b w. push_bit 8 w + ucast b) bs 0"

definition htons :: "16 word \<Rightarrow> 16 word" where "htons w = le_word (rev (le_bytes 2 w))"
definition htonl :: "32 word \<Rightarrow> 32 word" where "htonl w = le_word (rev (le_bytes 4 w))"

text \<open>\<open>htonll\<close> and \<open>ntohll\<close> have the same body.\<close>

definition htonll :: "64 word \<Rightarrow> 64 word" where
  "htonll v = push_bit 32 (ucast (htonl (ucast v))) + ucast (htonl (ucast (drop_bit 32 v)))"

section \<open>Reading and writing\<close>

definition cb_ReadByte :: "byte list \<Rightarrow> (int \<times> byte) option" where
  "cb_ReadByte buf = do { bs \<leftarrow> cb_read 1 buf; Some (1, le_word bs) }"

definition cb_WriteByte :: "byte list \<Rightarrow> byte \<Rightarrow> (int \<times> byte list) option" where
  "cb_WriteByte buf v = do { buf \<leftarrow> cb_write (le_bytes 1 v) buf; Some (1, buf) }"

definition cb_ReadShort :: "byte list \<Rightarrow> int \<Rightarrow> (int \<times> 16 word) option" where
  "cb_ReadShort buf to_host = do {
     bs \<leftarrow> cb_read 2 buf;
     let v = le_word bs;
     Some (2, if to_host = 1 then htons v else v)
   }"

definition cb_WriteShort :: "byte list \<Rightarrow> 16 word \<Rightarrow> int \<Rightarrow> (int \<times> byte list) option" where
  "cb_WriteShort buf v to_net = do {
     let v = (if to_net = 1 then htons v else v);
     buf \<leftarrow> cb_write (le_bytes 2 v) buf;
     Some (2, buf)
   }"

definition cb_ReadInt :: "byte list \<Rightarrow> int \<Rightarrow> (int \<times> 32 word) option" where
  "cb_ReadInt buf to_host = do {
     bs \<leftarrow> cb_read 4 buf;
     let v = le_word bs;
     Some (4, if to_host = 1 then htonl v else v)
   }"

definition cb_WriteInt :: "byte list \<Rightarrow> 32 word \<Rightarrow> int \<Rightarrow> (int \<times> byte list) option" where
  "cb_WriteInt buf v to_net = do {
     let v = (if to_net = 1 then htonl v else v);
     buf \<leftarrow> cb_write (le_bytes 4 v) buf;
     Some (4, buf)
   }"

text \<open>A \<open>long\<close> has eight bytes, but is passed through the 32 bits of \<open>htonl\<close>.\<close>

definition cb_ReadLong :: "byte list \<Rightarrow> int \<Rightarrow> (int \<times> 64 word) option" where
  "cb_ReadLong buf to_host = do {
     bs \<leftarrow> cb_read 8 buf;
     let v = le_word bs;
     Some (8, if to_host = 1 then ucast (htonl (ucast v)) else v)
   }"

definition cb_WriteLong :: "byte list \<Rightarrow> 64 word \<Rightarrow> int \<Rightarrow> (int \<times> byte list) option" where
  "cb_WriteLong buf v to_net = do {
     let v = (if to_net = 1 then ucast (htonl (ucast v)) else v);
     buf \<leftarrow> cb_write (le_bytes 8 v) buf;
     Some (8, buf)
   }"

definition cb_ReadLongLong :: "byte list \<Rightarrow> int \<Rightarrow> (int \<times> 64 word) option" where
  "cb_ReadLongLong buf to_host = do {
     bs \<leftarrow> cb_read 8 buf;
     let v = le_word bs;
     Some (8, if to_host = 1 then htonll v else v)
   }"

definition cb_WriteLongLong :: "byte list \<Rightarrow> 64 word \<Rightarrow> int \<Rightarrow> (int \<times> byte list) option" where
  "cb_WriteLongLong buf v to_net = do {
     let v = (if to_net = 1 then htonll v else v);
     buf \<leftarrow> cb_write (le_bytes 8 v) buf;
     Some (8, buf)
   }"

text \<open>Strings and raw bytes; \<open>n\<close> is not negative where it is not undefined. The source of a write
  is the list of bytes from its pointer on.\<close>

definition cb_ReadString :: "byte list \<Rightarrow> byte list \<Rightarrow> nat \<Rightarrow> (int \<times> byte list) option" where
  "cb_ReadString buf val n = do { bs \<leftarrow> cb_read n buf; val \<leftarrow> cb_write bs val; Some (int n, val) }"

definition cb_WriteString :: "byte list \<Rightarrow> byte list \<Rightarrow> nat \<Rightarrow> (int \<times> byte list) option" where
  "cb_WriteString buf val n = do { bs \<leftarrow> cb_read n val; buf \<leftarrow> cb_write bs buf; Some (int n, buf) }"

definition cb_ReadBuf :: "byte list \<Rightarrow> byte list \<Rightarrow> nat \<Rightarrow> (int \<times> byte list) option" where
  "cb_ReadBuf src dest n = do { bs \<leftarrow> cb_read n src; dest \<leftarrow> cb_write bs dest; Some (int n, dest) }"

definition cb_WriteBuf :: "byte list \<Rightarrow> byte list \<Rightarrow> nat \<Rightarrow> (int \<times> byte list) option" where
  "cb_WriteBuf dest src n = do { bs \<leftarrow> cb_read n src; dest \<leftarrow> cb_write bs dest; Some (int n, dest) }"

section \<open>Words and their bytes\<close>

lemma length_le_bytes [simp]: "length (le_bytes n w) = n"
  by (simp add: le_bytes_def)

lemma le_bytes_0 [simp]: "le_bytes 0 w = []"
  by (simp add: le_bytes_def)

lemma le_bytes_Suc: "le_bytes (Suc n) w = ucast w # le_bytes n (drop_bit 8 w)"
  unfolding le_bytes_def upt_conv_Cons [OF zero_less_Suc] map_Suc_upt [symmetric]
  by (simp add: o_def drop_bit_drop_bit add.commute)

lemma le_word_Cons [simp]: "le_word (b # bs) = push_bit 8 (le_word bs) + ucast b" "le_word [] = 0"
  by (simp_all add: le_word_def)

lemma ucast_byte: "ucast (ucast w :: byte) = take_bit 8 w" if "8 \<le> LENGTH('a)" for w :: "'a::len word"
  using that by transfer simp

lemma le_word_bytes: "8 \<le> LENGTH('a) \<Longrightarrow> le_word (le_bytes n w) = take_bit (8 * n) w" for w :: "'a::len word"
proof (induction n arbitrary: w)
  case (Suc n)
  have "take_bit (8 * Suc n) w = push_bit 8 (drop_bit 8 (take_bit (8 * Suc n) w)) + take_bit 8 (take_bit (8 * Suc n) w)"
    by (simp only: bits_ident)
  with Suc show ?case by (simp add: le_bytes_Suc ucast_byte drop_bit_take_bit)
qed simp

lemma le_word_bytes_all: "8 * n = LENGTH('a) \<Longrightarrow> 0 < n \<Longrightarrow> le_word (le_bytes n w) = w" for w :: "'a::len word"
  by (simp add: le_word_bytes take_bit_word_eq_self)

lemma byte_add_or: "push_bit 8 w + ucast b = push_bit 8 w OR (ucast b :: 'a word)" for w :: "'a::len word" and b :: byte
proof (rule disjunctive_add)
  fix n
  show "\<not> bit (push_bit 8 w) n \<or> \<not> bit (ucast b :: 'a word) n"
    using bit_imp_le_length [of b n] by (auto simp: bit_simps)
qed

lemma bit_le_word:
  "bit (le_word bs :: 'a::len word) i \<longleftrightarrow> i < LENGTH('a) \<and> i div 8 < length bs \<and> bit (bs ! (i div 8)) (i mod 8)"
proof (induction bs arbitrary: i)
  case (Cons b bs)
  show ?case
  proof (cases "i < 8")
    case True
    then show ?thesis by (auto simp: byte_add_or bit_simps)
  next
    case False
    then have "i div 8 = Suc ((i - 8) div 8)" "i mod 8 = (i - 8) mod 8" by (simp_all add: le_div_geq le_mod_geq)
    moreover have "\<not> bit b i" using False bit_imp_le_length [of b i] by auto
    ultimately show ?thesis using False Cons [of "i - 8"] by (auto simp: byte_add_or bit_simps)
  qed
qed simp

lemma le_bytes_word:
  assumes "8 * length bs \<le> LENGTH('a)"
  shows "le_bytes (length bs) (le_word bs :: 'a::len word) = bs"
proof (rule nth_equalityI)
  fix k assume "k < length (le_bytes (length bs) (le_word bs :: 'a word))"
  then have k: "k < length bs" by simp
  have "ucast (drop_bit (8 * k) (le_word bs :: 'a word)) = bs ! k"
  proof (rule bit_word_eqI)
    fix i assume i: "i < LENGTH(8)"
    then have "(i + 8 * k) div 8 = k" "(i + 8 * k) mod 8 = i" by simp_all
    with i k assms show "bit (ucast (drop_bit (8 * k) (le_word bs :: 'a word)) :: byte) i \<longleftrightarrow> bit (bs ! k) i"
      by (auto simp: bit_simps bit_le_word add.commute)
  qed
  with k show "le_bytes (length bs) (le_word bs :: 'a word) ! k = bs ! k" by (simp add: le_bytes_def)
qed simp

lemma le_bytes_eq_iff: "8 * n = LENGTH('a) \<Longrightarrow> 0 < n \<Longrightarrow> le_bytes n v = le_bytes n w \<longleftrightarrow> v = w" for v w :: "'a::len word"
  by (metis le_word_bytes_all)

text \<open>In network order the bytes come the other way round.\<close>

lemma htons_bytes: "le_bytes 2 (htons w) = rev (le_bytes 2 w)"
  using le_bytes_word [of "rev (le_bytes 2 w)", where ?'a = 16] by (simp add: htons_def)

lemma htonl_bytes: "le_bytes 4 (htonl w) = rev (le_bytes 4 w)"
  using le_bytes_word [of "rev (le_bytes 4 w)", where ?'a = 32] by (simp add: htonl_def)

lemma htons_htons [simp]: "htons (htons w) = w"
  using le_bytes_eq_iff [of 2 "htons (htons w)" w] by (simp add: htons_bytes)

lemma htonl_htonl [simp]: "htonl (htonl w) = w"
  using le_bytes_eq_iff [of 4 "htonl (htonl w)" w] by (simp add: htonl_bytes)

lemma halves_or: "push_bit 32 (ucast a) + ucast b = push_bit 32 (ucast a) OR (ucast b :: 64 word)" for a b :: "32 word"
proof (rule disjunctive_add)
  fix n show "\<not> bit (push_bit 32 (ucast a :: 64 word)) n \<or> \<not> bit (ucast b :: 64 word) n"
    using bit_imp_le_length [of b n] by (auto simp: bit_simps)
qed

lemma halves:
  fixes a b :: "32 word"
  shows "ucast (push_bit 32 (ucast a) + ucast b :: 64 word) = b" "ucast (drop_bit 32 (push_bit 32 (ucast a) + ucast b :: 64 word)) = a"
  unfolding halves_or by (rule bit_word_eqI; use bit_imp_le_length [of b] in \<open>force simp: bit_simps\<close>)+

lemma halves_of: "push_bit 32 (ucast (ucast (drop_bit 32 v) :: 32 word)) + ucast (ucast v :: 32 word) = v" for v :: "64 word"
  unfolding halves_or by (rule bit_word_eqI) (auto simp: bit_simps)

lemma htonll_htonll [simp]: "htonll (htonll v) = v"
  using halves_of [of v] unfolding htonll_def [of "htonll v"] by (simp only: htonll_def halves htonl_htonl)

lemma le_bytes_add: "le_bytes (m + n) w = le_bytes m w @ le_bytes n (drop_bit (8 * m) w)"
proof -
  have "[0..<m + n] = [0..<m] @ map (\<lambda>i. i + m) [0..<n]"
    using upt_add_eq_append [of 0 m n] map_add_upt [of m n] by (simp add: add.commute)
  then show ?thesis unfolding le_bytes_def by (simp only: map_append map_map) (simp add: o_def drop_bit_drop_bit add.commute distrib_left)
qed

lemma le_bytes_ucast: "8 * n \<le> LENGTH('b) \<Longrightarrow> LENGTH('b) \<le> LENGTH('a) \<Longrightarrow> le_bytes n (ucast v :: 'b::len word) = le_bytes n v" for v :: "'a::len word"
  unfolding le_bytes_def by (rule map_cong [OF refl], rule bit_word_eqI) (auto simp: bit_simps)

lemma htonll_bytes: "le_bytes 8 (htonll v) = rev (le_bytes 8 v)"
proof -
  have split: "le_bytes 8 w = le_bytes 4 (ucast w :: 32 word) @ le_bytes 4 (ucast (drop_bit 32 w) :: 32 word)" for w :: "64 word"
    using le_bytes_add [of 4 4 w] by (simp add: le_bytes_ucast)
  show ?thesis unfolding split htonll_def halves by (simp add: htonl_bytes)
qed


section \<open>Round trips\<close>

lemma write_read: "length bs \<le> length buf \<Longrightarrow>
    \<exists>b. cb_write bs buf = Some b \<and> cb_read (length bs) b = Some bs \<and> drop (length bs) b = drop (length bs) buf
      \<and> length b = length buf \<and> take (length bs) b = bs"
  by (simp add: cb_write_def cb_read_def)

definition net_order :: "int \<Rightarrow> byte list \<Rightarrow> byte list" where
  "net_order net bs = (if net = 1 then rev bs else bs)"

lemma short_rt: "2 \<le> length buf \<Longrightarrow> \<exists>b. cb_WriteShort buf v net = Some (2, b) \<and> cb_ReadShort b net = Some (2, v)
    \<and> b = net_order net (le_bytes 2 v) @ drop 2 buf"
  by (auto simp: cb_WriteShort_def cb_ReadShort_def cb_write_def cb_read_def net_order_def htons_bytes le_word_bytes_all
      simp flip: htons_bytes)

lemma int_rt: "4 \<le> length buf \<Longrightarrow> \<exists>b. cb_WriteInt buf v net = Some (4, b) \<and> cb_ReadInt b net = Some (4, v)
    \<and> b = net_order net (le_bytes 4 v) @ drop 4 buf"
  by (auto simp: cb_WriteInt_def cb_ReadInt_def cb_write_def cb_read_def net_order_def le_word_bytes_all
      simp flip: htonl_bytes)

lemma long_long_rt: "8 \<le> length buf \<Longrightarrow> \<exists>b. cb_WriteLongLong buf v net = Some (8, b) \<and> cb_ReadLongLong b net = Some (8, v)
    \<and> b = net_order net (le_bytes 8 v) @ drop 8 buf"
  by (auto simp: cb_WriteLongLong_def cb_ReadLongLong_def cb_write_def cb_read_def net_order_def le_word_bytes_all
      simp flip: htonll_bytes)

lemma long_rt: "8 \<le> length buf \<Longrightarrow> \<exists>b. cb_WriteLong buf v net = Some (8, b)
    \<and> cb_ReadLong b net = Some (8, if net = 1 then ucast (ucast v :: 32 word) else v)"
proof -
  have "ucast (ucast w :: 64 word) = (w :: 32 word)" for w by (rule bit_word_eqI) (auto simp: bit_simps)
  then show "8 \<le> length buf \<Longrightarrow> ?thesis"
    by (simp add: cb_WriteLong_def cb_ReadLong_def cb_write_def cb_read_def le_word_bytes_all)
qed

text \<open>Integers of two, four and eight bytes written to a buffer with room are read back, in host and
  in network order; the bytes written are those of the value, in network order the most significant
  first, and nothing else of the buffer changes. Only a \<open>long\<close> in network order loses its upper half.\<close>

theorem bufftool_roundtrip:
  assumes "8 \<le> length buf"
  shows "(\<exists>b. cb_WriteShort buf v2 net = Some (2, b) \<and> cb_ReadShort b net = Some (2, v2) \<and> b = net_order net (le_bytes 2 v2) @ drop 2 buf)
    \<and> (\<exists>b. cb_WriteInt buf v4 net = Some (4, b) \<and> cb_ReadInt b net = Some (4, v4) \<and> b = net_order net (le_bytes 4 v4) @ drop 4 buf)
    \<and> (\<exists>b. cb_WriteLongLong buf v8 net = Some (8, b) \<and> cb_ReadLongLong b net = Some (8, v8) \<and> b = net_order net (le_bytes 8 v8) @ drop 8 buf)
    \<and> (\<exists>b. cb_WriteLong buf v8 net = Some (8, b) \<and> cb_ReadLong b net = Some (8, if net = 1 then ucast (ucast v8 :: 32 word) else v8))"
  using assms by (intro conjI short_rt int_rt long_long_rt long_rt) simp_all

theorem bufftool_roundtrip_witness:
  "\<exists>b. cb_WriteInt [0, 0, 0, 0, 5, 6, 7, 8] 0x01020304 1 = Some (4, b) \<and> cb_ReadInt b 1 = Some (4, 0x01020304)
    \<and> b = [1, 2, 3, 4, 5, 6, 7, 8]"
proof -
  have "net_order 1 (le_bytes 4 (0x01020304 :: 32 word)) = [1, 2, 3, 4]"
    by (simp add: net_order_def le_bytes_def upt_rec)
  then show ?thesis
    using bufftool_roundtrip [of "[0, 0, 0, 0, 5, 6, 7, 8]" 0 1 "0x01020304" 0] by simp
qed

end
