(* ===== verification/ClientSocket.thy ===== *)
theory ClientSocket
  imports Prelude "HOL-Library.Monad_Syntax" "HOL-Library.Sublist"
begin

unbundle bit_operations_syntax

text \<open>
  The sockets of the command line client: \<open>bis/src/client/tcp_client.{h,cpp}\<close>, the connection it
  uses, and \<open>bis/src/client/epoll_client.{h,cpp}\<close>, the same on \<open>epoll\<close>. What the system calls
  answer is a script; a call for which the script has no answer does not return, so \<open>None\<close> is a
  call that never returns, or undefined behaviour where a buffer is left.
\<close>

section \<open>The system\<close>

datatype 'a sys = SysErr int | SysOk 'a

definition EINTR :: int where "EINTR = 4"
definition EINPROGRESS :: int where "EINPROGRESS = 115"
definition ETIME :: int where "ETIME = 62"
definition ETIMEDOUT :: int where "ETIMEDOUT = 110"

abbreviation (input) POLLIN :: "16 word" where "POLLIN \<equiv> 0x001"
abbreviation (input) POLLOUT :: "16 word" where "POLLOUT \<equiv> 0x004"
abbreviation (input) POLLERR :: "16 word" where "POLLERR \<equiv> 0x008"
abbreviation (input) POLLHUP :: "16 word" where "POLLHUP \<equiv> 0x010"
abbreviation (input) POLLNVAL :: "16 word" where "POLLNVAL \<equiv> 0x020"

text \<open>The answers to come: a new socket or epoll descriptor, what \<open>fcntl\<close>, \<open>connect\<close>, \<open>getsockopt\<close> and
  \<open>epoll_ctl\<close> answer, the number and events of a wait, the most bytes a \<open>write\<close> or \<open>read\<close> moves. For each
  descriptor the bytes sent and the bytes to be received; \<open>cn_waits\<close> records the waits and \<open>cn_setfl\<close>
  the flags set.\<close>

record cnet =
  cn_sockets :: "int sys list"
  cn_fcntls :: "32 word sys list"
  cn_connects :: "unit sys list"
  cn_opts :: "int sys list"
  cn_epfds :: "int sys list"
  cn_ctls :: "unit sys list"
  cn_polls :: "(nat \<times> 16 word) sys list"
  cn_writes :: "nat sys list"
  cn_reads :: "nat sys list"
  cn_open :: "int set"
  cn_sent :: "int \<Rightarrow> byte list"
  cn_in :: "int \<Rightarrow> byte list"
  cn_errno :: int
  cn_waits :: "(int \<times> 16 word \<times> int) list"
  cn_setfl :: "(int \<times> 32 word) list"

text \<open>Taking the next answer; an error sets \<open>errno\<close>.\<close>

fun sys_errno :: "'a sys \<Rightarrow> cnet \<Rightarrow> cnet" where
  "sys_errno (SysErr e) n = n\<lparr>cn_errno := e\<rparr>"
| "sys_errno (SysOk x) n = n"

definition sys_socket :: "cnet \<Rightarrow> (int sys \<times> cnet) option" where
  "sys_socket n = (case cn_sockets n of [] \<Rightarrow> None
     | a # as \<Rightarrow> Some (a, sys_errno a (n\<lparr>cn_sockets := as, cn_open := cn_open n \<union> (case a of SysOk fd \<Rightarrow> {fd} | SysErr _ \<Rightarrow> {})\<rparr>)))"

definition sys_getfl :: "cnet \<Rightarrow> (32 word sys \<times> cnet) option" where
  "sys_getfl n = (case cn_fcntls n of [] \<Rightarrow> None | a # as \<Rightarrow> Some (a, sys_errno a (n\<lparr>cn_fcntls := as\<rparr>)))"

definition sys_setfl :: "int \<Rightarrow> 32 word \<Rightarrow> cnet \<Rightarrow> (32 word sys \<times> cnet) option" where
  "sys_setfl fd flags n = (case cn_fcntls n of [] \<Rightarrow> None
     | a # as \<Rightarrow> Some (a, sys_errno a (n\<lparr>cn_fcntls := as, cn_setfl := cn_setfl n @ [(fd, flags)]\<rparr>)))"

definition O_NONBLOCK :: "32 word" where "O_NONBLOCK = 0x800"

definition sys_connect :: "cnet \<Rightarrow> (unit sys \<times> cnet) option" where
  "sys_connect n = (case cn_connects n of [] \<Rightarrow> None | a # as \<Rightarrow> Some (a, sys_errno a (n\<lparr>cn_connects := as\<rparr>)))"

definition sys_getsockopt :: "cnet \<Rightarrow> (int sys \<times> cnet) option" where
  "sys_getsockopt n = (case cn_opts n of [] \<Rightarrow> None | a # as \<Rightarrow> Some (a, sys_errno a (n\<lparr>cn_opts := as\<rparr>)))"

definition sys_poll :: "int \<Rightarrow> 16 word \<Rightarrow> int \<Rightarrow> cnet \<Rightarrow> ((nat \<times> 16 word) sys \<times> cnet) option" where
  "sys_poll fd events timeout n = (case cn_polls n of [] \<Rightarrow> None
     | a # as \<Rightarrow> Some (a, sys_errno a (n\<lparr>cn_polls := as, cn_waits := cn_waits n @ [(fd, events, timeout)]\<rparr>)))"

definition sys_write :: "int \<Rightarrow> byte list \<Rightarrow> cnet \<Rightarrow> (nat sys \<times> cnet) option" where
  "sys_write fd data n = (case cn_writes n of [] \<Rightarrow> None
     | SysErr e # as \<Rightarrow> Some (SysErr e, n\<lparr>cn_writes := as, cn_errno := e\<rparr>)
     | SysOk k # as \<Rightarrow> let k = min k (length data) in
         Some (SysOk k, n\<lparr>cn_writes := as, cn_sent := (cn_sent n)(fd := cn_sent n fd @ take k data)\<rparr>))"

text \<open>No byte is the end of the stream.\<close>

definition sys_read :: "int \<Rightarrow> nat \<Rightarrow> cnet \<Rightarrow> (byte list sys \<times> cnet) option" where
  "sys_read fd count n = (case cn_reads n of [] \<Rightarrow> None
     | SysErr e # as \<Rightarrow> Some (SysErr e, n\<lparr>cn_reads := as, cn_errno := e\<rparr>)
     | SysOk k # as \<Rightarrow> let k = min k count in
         Some (SysOk (take k (cn_in n fd)), n\<lparr>cn_reads := as, cn_in := (cn_in n)(fd := drop k (cn_in n fd))\<rparr>))"

definition sys_close :: "int \<Rightarrow> cnet \<Rightarrow> cnet" where
  "sys_close fd n = n\<lparr>cn_open := cn_open n - {fd}\<rparr>"

text \<open>Bytes written into an array; outside it \<open>None\<close>.\<close>

definition buf_put :: "byte list \<Rightarrow> nat \<Rightarrow> byte list \<Rightarrow> byte list option" where
  "buf_put buf off data =
     (if off + length data \<le> length buf then Some (take off buf @ data @ drop (off + length data) buf) else None)"

section \<open>TcpClient\<close>

abbreviation (input) kConnectTimeout :: int where "kConnectTimeout \<equiv> 300"
abbreviation (input) kRwTimeout :: int where "kRwTimeout \<equiv> 500"

record tcp_client =
  tc_ip :: string
  tc_port :: "16 word"
  tc_err_msg :: string
  tc_connect_timeout :: int
  tc_rw_timeout :: int
  tc_socket :: int
  tc_sock_addr :: "16 word \<times> 32 word"
  tc_socket_inited :: bool
  tc_check_connect :: int

text \<open>\<open>inet_addr\<close>, \<open>inet_pton\<close> and the texts of the errors are parameters.\<close>

record cenv =
  ce_inet_addr :: "string \<Rightarrow> 32 word"
  ce_inet_pton :: "string \<Rightarrow> int \<times> 32 word"
  ce_strerror :: "int \<Rightarrow> string"
  ce_show :: "int \<Rightarrow> string"

definition tc_new :: tcp_client where
  "tc_new = \<lparr>tc_ip = '''', tc_port = 0, tc_err_msg = '''', tc_connect_timeout = kConnectTimeout, tc_rw_timeout = kRwTimeout,
     tc_socket = 0, tc_sock_addr = (0, 0), tc_socket_inited = False, tc_check_connect = -1\<rparr>"

definition tc_err :: "string \<Rightarrow> tcp_client \<Rightarrow> tcp_client" where
  "tc_err s c = c\<lparr>tc_err_msg := take 1023 s\<rparr>"

definition tc_init_socket :: "cenv \<Rightarrow> tcp_client \<Rightarrow> cnet \<Rightarrow> (int \<times> tcp_client \<times> cnet) option" where
  "tc_init_socket e c n =
     (if tc_socket_inited c then Some (0, c, n)
      else do {
        (a, n) \<leftarrow> sys_socket n;
        (case a of
           SysErr err \<Rightarrow> Some (-1, tc_err (ce_strerror e err) (c\<lparr>tc_socket := -1\<rparr>), n)
         | SysOk fd \<Rightarrow> Some (0, c\<lparr>tc_socket := fd, tc_socket_inited := True\<rparr>, n))
      })"

definition tc_close_socket :: "tcp_client \<Rightarrow> cnet \<Rightarrow> tcp_client \<times> cnet" where
  "tc_close_socket c n = (if tc_socket_inited c then (c\<lparr>tc_socket_inited := False\<rparr>, sys_close (tc_socket c) n) else (c, n))"

partial_function (option) tc_poll_wait :: "cenv \<Rightarrow> 16 word \<Rightarrow> int \<Rightarrow> tcp_client \<Rightarrow> cnet \<Rightarrow> (int \<times> tcp_client \<times> cnet) option" where
  "tc_poll_wait e events timeout c n = do {
     (a, n) \<leftarrow> sys_poll (tc_socket c) events timeout (n\<lparr>cn_errno := 0\<rparr>);
     (case a of
        SysErr err \<Rightarrow>
          if err \<noteq> EINTR then Some (-1, tc_err (ce_strerror e err) c, n) else tc_poll_wait e events timeout c n
      | SysOk (num, revents) \<Rightarrow>
          if num = 0 then Some (-1, tc_err ''poll timeout'' c, n\<lparr>cn_errno := ETIME\<rparr>)
          else if revents AND POLLHUP \<noteq> 0 then Some (-1, tc_err ''poll returned POLLHUP.'' c, n)
          else if revents AND POLLERR \<noteq> 0 then Some (-1, tc_err ''poll returned POLLERR.'' c, n)
          else if revents AND POLLNVAL \<noteq> 0 then Some (-1, tc_err ''poll returned POLLNVAL.'' c, n)
          else if revents AND events \<noteq> 0 then Some (0, c, n)
          else Some (-1, tc_err ''poll returned event error.'' c, n))
   }"

declare tc_poll_wait.simps [code]

definition tc_connect :: "cenv \<Rightarrow> tcp_client \<Rightarrow> cnet \<Rightarrow> (int \<times> tcp_client \<times> cnet) option" where
  "tc_connect e c n = do {
     (r, c, n) \<leftarrow> tc_init_socket e c n;
     if r \<noteq> 0 then Some (-1, c, n)
     else do {
       let c = c\<lparr>tc_sock_addr := (tc_port c, ce_inet_addr e (tc_ip c))\<rparr>;
       (a, n) \<leftarrow> sys_getfl n;
       (case a of
          SysErr _ \<Rightarrow> Some (-1, tc_err ''fcntl F_GETFL failed'' c, n)
        | SysOk arg \<Rightarrow> do {
            (a, n) \<leftarrow> sys_setfl (tc_socket c) (arg OR O_NONBLOCK) n;
            (case a of
               SysErr _ \<Rightarrow> Some (-1, tc_err ''fcntl F_SETFL noblock failed'' c, n)
             | SysOk _ \<Rightarrow> do {
                 (a, n) \<leftarrow> sys_connect n;
                 (case a of
                    SysOk _ \<Rightarrow> Some (0, c, n)
                  | SysErr err \<Rightarrow>
                      if err = EINPROGRESS then do {
                        (r, c, n) \<leftarrow> tc_poll_wait e POLLOUT (tc_connect_timeout c) c n;
                        if r \<noteq> 0 then Some (-1, c, n)
                        else do {
                          (a, n) \<leftarrow> sys_getsockopt n;
                          (case a of
                             SysErr err \<Rightarrow> Some (-1, tc_err (''getsockopt failed, '' @ ce_strerror e err) c, n)
                           | SysOk optval \<Rightarrow>
                               if optval \<noteq> 0 then Some (-1, tc_err (''getsockopt SOL_SOCKET SO_ERROR, optval:'' @ ce_show e optval @ [CHR 0x0A]) c, n)
                               else Some (0, c, n))
                        }
                      } else Some (-1, tc_err (ce_strerror e err) c, n))
               })
          })
     }
   }"

definition tc_init :: "cenv \<Rightarrow> string \<Rightarrow> 16 word \<Rightarrow> int \<Rightarrow> int \<Rightarrow> tcp_client \<Rightarrow> cnet \<Rightarrow> (int \<times> tcp_client \<times> cnet) option" where
  "tc_init e ip port rw_timeout connect_timeout c n = do {
     (r, c, n) \<leftarrow> tc_connect e (c\<lparr>tc_ip := take 15 ip, tc_port := port, tc_rw_timeout := rw_timeout, tc_connect_timeout := connect_timeout\<rparr>) n;
     Some (r, (if r = 0 then c\<lparr>tc_check_connect := 0\<rparr> else c), n)
   }"

definition tc_reconnect :: "cenv \<Rightarrow> tcp_client \<Rightarrow> cnet \<Rightarrow> (int \<times> tcp_client \<times> cnet) option" where
  "tc_reconnect e c n = (let (c, n) = tc_close_socket c n in tc_connect e c n)"

text \<open>The loop of \<open>send\<close>: how often it goes round depends on the answers.\<close>

partial_function (option) tc_send_loop :: "cenv \<Rightarrow> byte list \<Rightarrow> nat \<Rightarrow> nat \<Rightarrow> tcp_client \<Rightarrow> cnet \<Rightarrow> (int \<times> tcp_client \<times> cnet) option" where
  "tc_send_loop e buf len bytes_sent c n = do {
     (r, c, n) \<leftarrow> tc_poll_wait e POLLOUT (tc_rw_timeout c) c n;
     if r \<noteq> 0 then Some (-1, c\<lparr>tc_check_connect := -1\<rparr>, n)
     else if length buf < len then None
     else do {
       (a, n) \<leftarrow> sys_write (tc_socket c) (take (len - bytes_sent) (drop bytes_sent buf)) n;
       (case a of
          SysOk k \<Rightarrow>
            if k > 0 then
              (if bytes_sent + k < len then tc_send_loop e buf len (bytes_sent + k) c n else Some (0, c, n))
            else if cn_errno n = EINTR then tc_send_loop e buf len bytes_sent c n
            else Some (0, c, n)
        | SysErr err \<Rightarrow>
            if err = EINTR then tc_send_loop e buf len bytes_sent c n
            else Some (-1, tc_err (''send error: '' @ ce_strerror e err) (c\<lparr>tc_check_connect := -1\<rparr>), n))
     }
   }"

declare tc_send_loop.simps [code]

definition tc_send :: "cenv \<Rightarrow> byte list option \<Rightarrow> nat \<Rightarrow> tcp_client \<Rightarrow> cnet \<Rightarrow> (int \<times> tcp_client \<times> cnet) option" where
  "tc_send e buffer len c n =
     (case buffer of
        None \<Rightarrow> Some (-1, tc_err ''send error: send buffer is NULL'' c, n)
      | Some buf \<Rightarrow> tc_send_loop e buf len 0 c n)"

text \<open>The loop of \<open>recv\<close> over the buffer and the length, with an expected length or one read.\<close>

partial_function (option) tc_recv_loop ::
  "cenv \<Rightarrow> nat \<Rightarrow> nat \<Rightarrow> byte list \<Rightarrow> nat \<Rightarrow> tcp_client \<Rightarrow> cnet \<Rightarrow> (int \<times> (byte list \<times> nat) \<times> tcp_client \<times> cnet) option" where
  "tc_recv_loop e expect_len got buf len c n = do {
     (r, c, n) \<leftarrow> tc_poll_wait e POLLIN (tc_rw_timeout c) c n;
     if r \<noteq> 0 then Some (-1, (buf, len), c\<lparr>tc_check_connect := -1\<rparr>, n)
     else do {
       (a, n) \<leftarrow> sys_read (tc_socket c) (if expect_len > 0 then expect_len - got else len) n;
       buf \<leftarrow> buf_put buf (if expect_len > 0 then got else 0) (case a of SysOk data \<Rightarrow> data | SysErr _ \<Rightarrow> []);
       let k = (case a of SysOk data \<Rightarrow> length data | SysErr _ \<Rightarrow> 0);
       if k > 0 then
         if expect_len > 0 then
           (if got + k < expect_len then tc_recv_loop e expect_len (got + k) buf (got + k) c n
            else Some (0, (buf, got + k), c, n))
         else Some (0, (buf, k), c, n)
       else if cn_errno n = EINTR then tc_recv_loop e expect_len got buf len c n
       else Some (-1, (buf, len), tc_err (''recv error: '' @ ce_strerror e (cn_errno n)) (c\<lparr>tc_check_connect := -1\<rparr>), n)
     }
   }"

declare tc_recv_loop.simps [code]

definition tc_recv ::
  "cenv \<Rightarrow> byte list option \<Rightarrow> nat \<Rightarrow> nat \<Rightarrow> tcp_client \<Rightarrow> cnet \<Rightarrow> (int \<times> (byte list \<times> nat) \<times> tcp_client \<times> cnet) option" where
  "tc_recv e buffer len expect_len c n =
     (case buffer of
        None \<Rightarrow> Some (-1, ([], len), tc_err ''send error: recv buffer is NULL'' c, n)
      | Some buf \<Rightarrow> tc_recv_loop e expect_len 0 buf len c n)"

definition tc_send_and_recv ::
  "cenv \<Rightarrow> byte list \<Rightarrow> nat \<Rightarrow> byte list \<Rightarrow> nat \<Rightarrow> tcp_client \<Rightarrow> cnet \<Rightarrow> (int \<times> (byte list \<times> nat) \<times> tcp_client \<times> cnet) option" where
  "tc_send_and_recv e request request_len response response_len c n = do {
     (r, c, n) \<leftarrow> tc_send e (Some request) request_len c n;
     if r \<noteq> 0 then Some (-1, (response, response_len), c\<lparr>tc_check_connect := -1\<rparr>, n)
     else do {
       (r, res, c, n) \<leftarrow> tc_recv e (Some response) response_len 0 c n;
       if r \<noteq> 0 then Some (-2, res, c\<lparr>tc_check_connect := -1\<rparr>, n)
       else Some (0, res, c, n)
     }
   }"

end
