(* ===== verification/ClientSocketSpec.thy ===== *)
theory ClientSocketSpec
  imports ClientSocket
begin

text \<open>
  What the client's socket does: a wait takes answers until one is not an interrupt; sending puts a
  prefix of the buffer on the wire whatever the answers are, and all of it when enough of them are
  good; a failed connection stays marked as failed.
\<close>

section \<open>Waiting\<close>

text \<open>What a wait leaves as it was; every wait takes an answer.\<close>

definition waited :: "cnet \<Rightarrow> cnet \<Rightarrow> bool" where
  "waited n n' \<longleftrightarrow> cn_sent n' = cn_sent n \<and> cn_in n' = cn_in n \<and> cn_writes n' = cn_writes n \<and> cn_reads n' = cn_reads n
     \<and> cn_open n' = cn_open n \<and> length (cn_polls n') < length (cn_polls n) \<and> set (cn_polls n') \<subseteq> set (cn_polls n)"

definition same_conn :: "tcp_client \<Rightarrow> tcp_client \<Rightarrow> bool" where
  "same_conn c c' \<longleftrightarrow> tc_socket c' = tc_socket c \<and> tc_socket_inited c' = tc_socket_inited c \<and> tc_rw_timeout c' = tc_rw_timeout c"

lemma same_conn_err [simp]: "same_conn c c" "same_conn c (tc_err s c)" "tc_check_connect (tc_err s c) = tc_check_connect c"
  by (simp_all add: same_conn_def tc_err_def)

lemma poll_wait_result:
  "tc_poll_wait e events timeout c n = Some (r, c', n') \<Longrightarrow>
    (r = 0 \<longrightarrow> c' = c) \<and> (r = 0 \<or> r = -1) \<and> tc_check_connect c' = tc_check_connect c \<and> same_conn c c' \<and> waited n n'"
proof (induction "length (cn_polls n)" arbitrary: n rule: less_induct)
  case less
  show ?case
  proof (cases "cn_polls n")
    case Nil
    then show ?thesis using less.prems by (subst (asm) tc_poll_wait.simps) (simp add: sys_poll_def)
  next
    case (Cons a as)
    show ?thesis
    proof (cases "a = SysErr EINTR")
      case True
      define m where "m = n\<lparr>cn_polls := as, cn_waits := cn_waits n @ [(tc_socket c, events, timeout)], cn_errno := EINTR\<rparr>"
      have "tc_poll_wait e events timeout c m = Some (r, c', n')"
        using less.prems Cons True by (subst (asm) tc_poll_wait.simps) (simp add: sys_poll_def m_def)
      then have "(r = 0 \<longrightarrow> c' = c) \<and> (r = 0 \<or> r = -1) \<and> tc_check_connect c' = tc_check_connect c \<and> same_conn c c' \<and> waited m n'"
        using Cons by (intro less.hyps) (simp_all add: m_def)
      then show ?thesis using Cons by (auto simp: waited_def m_def)
    next
      case False
      then show ?thesis using less.prems Cons
        by (subst (asm) tc_poll_wait.simps)
          (auto simp: sys_poll_def waited_def split: sys.splits if_splits)
    qed
  qed
qed

text \<open>Answers that are interrupts or say that the events are there.\<close>

definition ready :: "16 word \<Rightarrow> (nat \<times> 16 word) sys \<Rightarrow> bool" where
  "ready events a \<longleftrightarrow> (case a of SysErr err \<Rightarrow> False
     | SysOk (num, revents) \<Rightarrow> 0 < num \<and> revents AND POLLHUP = 0 \<and> revents AND POLLERR = 0 \<and> revents AND POLLNVAL = 0 \<and> revents AND events \<noteq> 0)"

definition waits_ok :: "16 word \<Rightarrow> cnet \<Rightarrow> bool" where
  "waits_ok events n \<longleftrightarrow> (\<forall>a \<in> set (cn_polls n). a = SysErr EINTR \<or> ready events a)"

definition count_ready :: "16 word \<Rightarrow> cnet \<Rightarrow> nat" where
  "count_ready events n = length (filter (ready events) (cn_polls n))"

lemma poll_wait_ready:
  "waits_ok events n \<Longrightarrow> 0 < count_ready events n \<Longrightarrow>
    \<exists>n'. tc_poll_wait e events timeout c n = Some (0, c, n') \<and> waited n n' \<and> waits_ok events n' \<and> Suc (count_ready events n') = count_ready events n
      \<and> cn_errno n' = 0"
proof (induction "length (cn_polls n)" arbitrary: n rule: less_induct)
  case less
  then obtain a as where p: "cn_polls n = a # as" by (cases "cn_polls n") (auto simp: count_ready_def)
  define m where "m = n\<lparr>cn_polls := as, cn_waits := cn_waits n @ [(tc_socket c, events, timeout)], cn_errno := EINTR\<rparr>"
  show ?case
  proof (cases "a = SysErr EINTR")
    case True
    then have step: "tc_poll_wait e events timeout c n = tc_poll_wait e events timeout c m"
      using p by (subst tc_poll_wait.simps) (simp add: sys_poll_def m_def)
    have "\<not> ready events (SysErr EINTR)" by (simp add: ready_def)
    then have cnt: "count_ready events m = count_ready events n" using p True by (simp add: count_ready_def m_def)
    have "\<exists>n'. tc_poll_wait e events timeout c m = Some (0, c, n') \<and> waited m n' \<and> waits_ok events n' \<and> Suc (count_ready events n') = count_ready events m \<and> cn_errno n' = 0"
      using less.prems p cnt by (intro less.hyps) (simp_all add: m_def waits_ok_def)
    then show ?thesis using step cnt p by (auto simp: waited_def m_def)
  next
    case False
    then have r: "ready events a" using less.prems(1) p by (simp add: waits_ok_def)
    then have "tc_poll_wait e events timeout c n = Some (0, c, m\<lparr>cn_errno := 0\<rparr>)"
      using p by (subst tc_poll_wait.simps) (auto simp: sys_poll_def m_def ready_def split: sys.splits)
    then show ?thesis using p r less.prems(1) by (auto simp: waited_def m_def waits_ok_def count_ready_def)
  qed
qed

section \<open>Sending\<close>

text \<open>Whatever the answers are, the bytes sent are a prefix of the buffer and a failure marks the
  connection.\<close>

lemma send_loop_result:
  "tc_send_loop e buf len sent c n = Some (r, c', n') \<Longrightarrow> sent \<le> len \<Longrightarrow>
    \<exists>k. sent + k \<le> len \<and> cn_sent n' = (cn_sent n)(tc_socket c := cn_sent n (tc_socket c) @ take k (drop sent buf))
      \<and> same_conn c c' \<and> cn_in n' = cn_in n \<and> cn_reads n' = cn_reads n
      \<and> (r = 0 \<longrightarrow> tc_check_connect c' = tc_check_connect c \<and> (SysOk 0 \<notin> set (cn_writes n) \<longrightarrow> sent + k = len)) \<and> (r \<noteq> 0 \<longrightarrow> r = -1 \<and> tc_check_connect c' = -1)"
  (is "_ \<Longrightarrow> _ \<Longrightarrow> ?P sent c n r c' n'")
proof (induction "length (cn_polls n)" arbitrary: sent c n rule: less_induct)
  case less
  then obtain r1 c1 n1 where w: "tc_poll_wait e POLLOUT (tc_rw_timeout c) c n = Some (r1, c1, n1)"
    by (subst (asm) tc_send_loop.simps) (auto split: bind_splits)
  note wr = poll_wait_result [OF w]
  show ?case
  proof (cases "r1 = 0")
    case False
    then have "r = -1" "n' = n1" "c' = c1\<lparr>tc_check_connect := -1\<rparr>"
      using less.prems(1) w by (subst (asm) tc_send_loop.simps, simp)+
    then show ?thesis using wr by (intro exI [of _ 0]) (auto simp: waited_def same_conn_def less.prems(2))
  next
    case True
    then have c1: "c1 = c" and wd: "waited n n1" using wr by auto
    have buf: "len \<le> length buf"
      using less.prems(1) w True by (subst (asm) tc_send_loop.simps) (simp split: if_splits)
    obtain a as where a: "cn_writes n1 = a # as"
      using less.prems(1) w True buf by (subst (asm) tc_send_loop.simps) (cases "cn_writes n1", auto simp: sys_write_def)
    show ?thesis
    proof (cases a)
      case (SysErr err)
      define m where "m = n1\<lparr>cn_writes := as, cn_errno := err\<rparr>"
      have st: "tc_send_loop e buf len sent c n = (if err = EINTR then tc_send_loop e buf len sent c m
          else Some (-1, tc_err (''send error: '' @ ce_strerror e err) (c\<lparr>tc_check_connect := -1\<rparr>), m))"
        using w True buf a SysErr c1 by (subst tc_send_loop.simps) (simp add: sys_write_def m_def)
      show ?thesis
      proof (cases "err = EINTR")
        case False
        then have "r = -1" "c' = tc_err (''send error: '' @ ce_strerror e err) (c\<lparr>tc_check_connect := -1\<rparr>)" "n' = m" using st less.prems(1) by auto
        then show ?thesis using wd less.prems(2) by (intro exI [of _ 0]) (simp add: m_def waited_def same_conn_def tc_err_def)
      next
        case True
        then have "?P sent c m r c' n'" using st wd less.prems by (intro less.hyps) (auto simp: m_def waited_def)
        moreover have "cn_sent m = cn_sent n" "cn_in m = cn_in n" "cn_reads m = cn_reads n" "cn_writes n = SysErr err # cn_writes m"
          using wd a SysErr by (simp_all add: m_def waited_def)
        ultimately show ?thesis by (simp only: list.set insert_iff sys.distinct simp_thms)
      qed
    next
      case (SysOk k)
      define j where "j = min k (len - sent)"
      define m where "m = n1\<lparr>cn_writes := as, cn_sent := (cn_sent n1)(tc_socket c := cn_sent n1 (tc_socket c) @ take j (drop sent buf))\<rparr>"
      have "min k (length (take (len - sent) (drop sent buf))) = j" "take j (take (len - sent) (drop sent buf)) = take j (drop sent buf)"
        using buf less.prems(2) by (auto simp: j_def min_def)
      then have "sys_write (tc_socket c) (take (len - sent) (drop sent buf)) n1 = Some (SysOk j, m)"
        using a SysOk by (simp add: sys_write_def m_def Let_def)
      moreover have "cn_errno m = cn_errno n1" by (simp add: m_def)
      ultimately have st: "tc_send_loop e buf len sent c n = (if j > 0 then (if sent + j < len then tc_send_loop e buf len (sent + j) c m else Some (0, c, m))
          else if cn_errno n1 = EINTR then tc_send_loop e buf len sent c m else Some (0, c, m))"
        using w True buf c1 by (subst tc_send_loop.simps) simp
      have m: "length (cn_polls m) < length (cn_polls n)" using wd by (simp add: m_def waited_def)
      have j: "sent + j \<le> len" using less.prems(2) by (simp add: j_def)
      have j0: "j = 0 \<longleftrightarrow> k = 0 \<or> sent = len" using less.prems(2) by (auto simp: j_def)
      consider (more) "0 < j" "Some (r, c', n') = tc_send_loop e buf len (sent + j) c m"
        | (finished) "r = 0" "c' = c" "n' = m" "j = 0 \<or> sent + j = len"
        | (again) "j = 0" "Some (r, c', n') = tc_send_loop e buf len sent c m"
        using st j less.prems(1) by (cases "j = 0"; cases "sent + j < len"; cases "cn_errno n1 = EINTR") auto
      then show ?thesis
      proof cases
        case more
        then have "?P (sent + j) c m r c' n'" using less.hyps [OF m] j by metis
        then obtain i where i: "sent + j + i \<le> len"
          "cn_sent n' = (cn_sent m)(tc_socket c := cn_sent m (tc_socket c) @ take i (drop (sent + j) buf))" "same_conn c c'"
          "cn_in n' = cn_in m" "cn_reads n' = cn_reads m"
          "r = 0 \<longrightarrow> tc_check_connect c' = tc_check_connect c \<and> (SysOk 0 \<notin> set (cn_writes m) \<longrightarrow> sent + j + i = len)"
          "r \<noteq> 0 \<longrightarrow> r = -1 \<and> tc_check_connect c' = -1" by blast
        have "take j (drop sent buf) @ take i (drop (sent + j) buf) = take (j + i) (drop sent buf)"
          using take_add [of j i "drop sent buf"] by (simp add: add.commute)
        moreover have "cn_writes n = SysOk k # as" using wd a SysOk by (simp add: waited_def)
        ultimately show ?thesis using i wd by (intro exI [of _ "j + i"]) (auto simp: m_def waited_def)
      next
        case finished
        moreover have "cn_writes n = SysOk k # as" using wd a SysOk by (simp add: waited_def)
        ultimately show ?thesis using j j0 wd by (intro exI [of _ j]) (auto simp: m_def waited_def)
      next
        case again
        then have "?P sent c m r c' n'" using less.hyps [OF m] less.prems(2) by metis
        moreover have "cn_sent m = cn_sent n" "cn_in m = cn_in n" "cn_reads m = cn_reads n"
          using wd a SysOk again(1) by (simp_all add: m_def waited_def)
        moreover have "SysOk 0 \<notin> set (cn_writes n) \<Longrightarrow> SysOk 0 \<notin> set (cn_writes m)"
          using wd a by (auto simp: waited_def m_def dest: sym)
        ultimately show ?thesis by (elim exE, intro exI) (simp only:, blast)
      qed
    qed
  qed
qed

text \<open>With enough waits that end and enough writes that take something, sending ends and delivers.\<close>

definition writes_ok :: "cnet \<Rightarrow> bool" where
  "writes_ok n \<longleftrightarrow> (\<forall>a \<in> set (cn_writes n). a = SysErr EINTR \<or> (\<exists>k. a = SysOk k \<and> 0 < k))"

definition count_ok :: "cnet \<Rightarrow> nat" where
  "count_ok n = length (filter (\<lambda>a. a \<noteq> SysErr EINTR) (cn_writes n))"

lemma send_loop_completes:
  "sent < len \<Longrightarrow> len \<le> length buf \<Longrightarrow> waits_ok POLLOUT n \<Longrightarrow> writes_ok n \<Longrightarrow> length (cn_writes n) \<le> count_ready POLLOUT n \<Longrightarrow>
    len - sent \<le> count_ok n \<Longrightarrow> \<exists>n'. tc_send_loop e buf len sent c n = Some (0, c, n') \<and> set (cn_polls n') \<subseteq> set (cn_polls n)
      \<and> count_ready POLLOUT n + length (cn_writes n') \<le> count_ready POLLOUT n' + length (cn_writes n)"
proof (induction "length (cn_writes n)" arbitrary: sent n rule: less_induct)
  case less
  then obtain a as where a: "cn_writes n = a # as" by (cases "cn_writes n") (auto simp: count_ok_def)
  then have "0 < count_ready POLLOUT n" using less.prems(5) by simp
  from poll_wait_ready [OF less.prems(3) this, of e "tc_rw_timeout c" c] obtain n1 where
    w: "tc_poll_wait e POLLOUT (tc_rw_timeout c) c n = Some (0, c, n1)" "waited n n1" "waits_ok POLLOUT n1"
      "Suc (count_ready POLLOUT n1) = count_ready POLLOUT n" "cn_errno n1 = 0" by blast
  have a1: "cn_writes n1 = a # as" using w(2) a by (simp add: waited_def)
  have ok: "\<forall>a \<in> set as. a = SysErr EINTR \<or> (\<exists>k. a = SysOk k \<and> 0 < k)" using less.prems(4) a by (simp add: writes_ok_def)
  consider "a = SysErr EINTR" | k where "a = SysOk k" "0 < k" using less.prems(4) a by (auto simp: writes_ok_def)
  then show ?case
  proof cases
    case 1
    define m where "m = n1\<lparr>cn_writes := as, cn_errno := EINTR\<rparr>"
    have "tc_send_loop e buf len sent c n = tc_send_loop e buf len sent c m"
      using w(1) less.prems(2) a1 1 by (subst tc_send_loop.simps) (simp add: sys_write_def m_def)
    moreover have "\<exists>n'. tc_send_loop e buf len sent c m = Some (0, c, n') \<and> set (cn_polls n') \<subseteq> set (cn_polls m)
      \<and> count_ready POLLOUT m + length (cn_writes n') \<le> count_ready POLLOUT n' + length (cn_writes m)"
      using less.prems a w ok 1 by (intro less.hyps) (auto simp: m_def waits_ok_def writes_ok_def count_ok_def count_ready_def)
    moreover have "cn_polls m = cn_polls n1" "count_ready POLLOUT m = count_ready POLLOUT n1" "cn_writes m = as"
      by (simp_all add: m_def count_ready_def)
    ultimately show ?thesis using w(2,4) a by (auto simp: waited_def)
  next
    case (2 k)
    define j where "j = min k (len - sent)"
    define m where "m = n1\<lparr>cn_writes := as, cn_sent := (cn_sent n1)(tc_socket c := cn_sent n1 (tc_socket c) @ take j (drop sent buf))\<rparr>"
    have j: "0 < j" using 2 less.prems(1) by (simp add: j_def)
    have "min k (length (take (len - sent) (drop sent buf))) = j" "take j (take (len - sent) (drop sent buf)) = take j (drop sent buf)"
      using less.prems(1,2) by (auto simp: j_def min_def)
    then have "sys_write (tc_socket c) (take (len - sent) (drop sent buf)) n1 = Some (SysOk j, m)"
      using a1 2 by (simp add: sys_write_def m_def Let_def)
    then have "tc_send_loop e buf len sent c n = (if sent + j < len then tc_send_loop e buf len (sent + j) c m else Some (0, c, m))"
      using w(1) less.prems(2) j by (subst tc_send_loop.simps) simp
    moreover have "\<exists>n'. tc_send_loop e buf len (sent + j) c m = Some (0, c, n') \<and> set (cn_polls n') \<subseteq> set (cn_polls m)
      \<and> count_ready POLLOUT m + length (cn_writes n') \<le> count_ready POLLOUT n' + length (cn_writes m)" if "sent + j < len"
      using less.prems a w ok 2 that j by (intro less.hyps) (auto simp: m_def waits_ok_def writes_ok_def count_ok_def count_ready_def)
    moreover have "cn_polls m = cn_polls n1" "count_ready POLLOUT m = count_ready POLLOUT n1" "cn_writes m = as"
      by (simp_all add: m_def count_ready_def)
    ultimately show ?thesis using w(2,4) a by (auto simp: waited_def)
  qed
qed

section \<open>Receiving\<close>

text \<open>One read after a wait: the answer to a request.\<close>

lemma recv_once:
  assumes "waits_ok POLLIN n" "0 < count_ready POLLIN n" "cn_reads n = SysOk k # rs" "0 < k" "0 < len" "cn_in n (tc_socket c) \<noteq> []" "len \<le> length buf"
  shows "\<exists>n'. tc_recv e (Some buf) len 0 c n = (let data = take (min k len) (cn_in n (tc_socket c)) in Some (0, (data @ drop (length data) buf, length data), c, n'))"
proof -
  from poll_wait_ready [OF assms(1,2), of e "tc_rw_timeout c" c] obtain n1 where
    w: "tc_poll_wait e POLLIN (tc_rw_timeout c) c n = Some (0, c, n1)" "waited n n1" by blast
  then show ?thesis using assms(3-) unfolding tc_recv_def option.case Let_def
    by (subst tc_recv_loop.simps) (auto simp: waited_def sys_read_def buf_put_def Let_def min_def)
qed

lemma recv_loop_sent: "tc_recv_loop e expect got buf len c n = Some (r, bl, c', n') \<Longrightarrow> cn_sent n' = cn_sent n"
proof (induction "length (cn_polls n)" arbitrary: got buf len n rule: less_induct)
  case less
  then obtain r1 c1 n1 where w: "tc_poll_wait e POLLIN (tc_rw_timeout c) c n = Some (r1, c1, n1)"
    by (subst (asm) tc_recv_loop.simps) (auto split: bind_splits)
  then have wd: "waited n n1" and c1: "r1 = 0 \<longrightarrow> c1 = c" using poll_wait_result by blast+
  have rd: "cn_sent m = cn_sent n1 \<and> cn_polls m = cn_polls n1" if "sys_read fd k n1 = Some (a, m)" for fd k a m
    using that by (auto simp: sys_read_def Let_def split: list.splits sys.splits)
  have ih: "cn_sent n' = cn_sent n" if "tc_recv_loop e expect g b l c m = Some (r, bl, c', n')" "cn_polls m = cn_polls n1" "cn_sent m = cn_sent n" for g b l m
    using less.hyps [of m g b l] that wd by (simp add: waited_def)
  have ih0: "cn_sent n' = cn_sent n" if "tc_recv_loop e 0 g b l c m = Some (r, bl, c', n')" "expect = 0" "cn_polls m = cn_polls n1" "cn_sent m = cn_sent n" for g b l m
    using ih [of g b l m] that by simp
  have wd': "cn_sent n1 = cn_sent n" using wd by (simp add: waited_def)
  show ?case using less.prems w wd' c1
    by (subst (asm) tc_recv_loop.simps)
      (auto simp: Let_def split: bind_splits sys.splits if_splits dest!: rd dest: ih ih0)
qed

lemma recv_sent: "tc_recv e buffer len expect c n = Some (r, bl, c', n') \<Longrightarrow> cn_sent n' = cn_sent n"
  by (auto simp: tc_recv_def dest: recv_loop_sent split: option.splits)

section \<open>The mark of a failed connection\<close>

text \<open>Nothing but \<open>init\<close> takes the mark away.\<close>

lemma tc_connect_check:
  "tc_connect e c n = Some (r, c', n') \<Longrightarrow> tc_check_connect c' = tc_check_connect c"
  by (auto simp: tc_connect_def tc_init_socket_def Let_def dest!: poll_wait_result split: bind_splits sys.splits if_splits)

lemma tc_send_mark:
  assumes "tc_send e b len c n = Some (r, c', n')" "tc_check_connect c < 0"
  shows "tc_check_connect c' < 0"
proof (cases b)
  case None
  then show ?thesis using assms by (auto simp: tc_send_def)
next
  case (Some buf)
  then have "tc_send_loop e buf len 0 c n = Some (r, c', n')" using assms(1) by (simp add: tc_send_def)
  then show ?thesis using assms(2) send_loop_result by (cases "r = 0") fastforce+
qed

lemma recv_loop_mark: "tc_recv_loop e expect got buf len c n = Some (r, bl, c', n') \<Longrightarrow> tc_check_connect c < 0 \<Longrightarrow> tc_check_connect c' < 0"
proof (induction "length (cn_polls n)" arbitrary: got buf len n rule: less_induct)
  case less
  then obtain r1 c1 n1 where w: "tc_poll_wait e POLLIN (tc_rw_timeout c) c n = Some (r1, c1, n1)"
    by (subst (asm) tc_recv_loop.simps) (auto split: bind_splits)
  then have wd: "waited n n1" and c1: "r1 = 0 \<longrightarrow> c1 = c" using poll_wait_result by blast+
  have rd: "cn_polls m = cn_polls n1" if "sys_read fd k n1 = Some (a, m)" for fd k a m
    using that by (auto simp: sys_read_def Let_def split: list.splits sys.splits)
  have ih: "tc_check_connect c' < 0" if "tc_recv_loop e expect g b l c m = Some (r, bl, c', n')" "cn_polls m = cn_polls n1" for g b l m
    using less.hyps [of m g b l] that wd less.prems(2) by (simp add: waited_def)
  have ih0: "tc_check_connect c' < 0" if "tc_recv_loop e 0 g b l c m = Some (r, bl, c', n')" "expect = 0" "cn_polls m = cn_polls n1" for g b l m
    using ih [of g b l m] that by simp
  show ?case using less.prems w c1
    by (subst (asm) tc_recv_loop.simps)
      (auto simp: Let_def split: bind_splits sys.splits if_splits dest!: rd dest: ih ih0)
qed

lemma tc_recv_mark: "tc_recv e buffer len expect c n = Some (r, bl, c', n') \<Longrightarrow> tc_check_connect c < 0 \<Longrightarrow> tc_check_connect c' < 0"
  by (auto simp: tc_recv_def dest: recv_loop_mark split: option.splits)

lemma tc_reconnect_check: "tc_reconnect e c n = Some (r, c', n') \<Longrightarrow> tc_check_connect c' = tc_check_connect c"
  by (auto simp: tc_reconnect_def tc_close_socket_def dest!: tc_connect_check split: if_splits prod.splits)

end
