(* ===== verification/Memory.thy ===== *)
theory Memory
  imports Prelude "HOL-Library.Monad_Syntax"
begin

text \<open>
  The memory the buffers of the repository work on: blocks of bytes by number. A pointer into
  a block is the block and an offset, \<open>NULL\<close> is no block. Reading or writing outside a block,
  using a block after its deletion and deleting it twice are \<open>None\<close>. The content of a new
  block is not defined by the language; it is 0 here, and no operation reads it before it
  was written.
\<close>

section \<open>Blocks\<close>

record mem =
  m_blocks :: "nat \<Rightarrow> byte list option"
  m_next :: nat

definition mem_empty :: mem where
  "mem_empty = \<lparr>m_blocks = Map.empty, m_next = 0\<rparr>"

definition mem_alloc :: "byte list \<Rightarrow> mem \<Rightarrow> nat \<times> mem" where
  "mem_alloc bs m = (m_next m, m\<lparr>m_blocks := (m_blocks m)(m_next m \<mapsto> bs), m_next := Suc (m_next m)\<rparr>)"

definition mem_new :: "nat \<Rightarrow> mem \<Rightarrow> nat \<times> mem" where
  "mem_new n = mem_alloc (replicate n 0)"

text \<open>\<open>delete []\<close> of \<open>NULL\<close> does nothing.\<close>

fun mem_delete :: "nat option \<Rightarrow> mem \<Rightarrow> mem option" where
  "mem_delete None m = Some m"
| "mem_delete (Some b) m =
     (if m_blocks m b = None then None else Some (m\<lparr>m_blocks := (m_blocks m)(b := None)\<rparr>))"

text \<open>Nothing is read through a pointer when no byte is asked for.\<close>

definition mem_read :: "nat option \<Rightarrow> nat \<Rightarrow> nat \<Rightarrow> mem \<Rightarrow> byte list option" where
  "mem_read p off n m =
     (if n = 0 then Some []
      else do { b \<leftarrow> p; bs \<leftarrow> m_blocks m b;
        if off + n \<le> length bs then Some (take n (drop off bs)) else None })"

definition mem_write :: "nat option \<Rightarrow> nat \<Rightarrow> byte list \<Rightarrow> mem \<Rightarrow> mem option" where
  "mem_write p off ds m =
     (if ds = [] then Some m
      else do { b \<leftarrow> p; bs \<leftarrow> m_blocks m b;
        if off + length ds \<le> length bs
        then Some (m\<lparr>m_blocks := (m_blocks m)(b \<mapsto> take off bs @ ds @ drop (off + length ds) bs)\<rparr>)
        else None })"

section \<open>Well-formed memory\<close>

definition mem_ok :: "mem \<Rightarrow> bool" where
  "mem_ok m \<longleftrightarrow> (\<forall>b. m_blocks m b \<noteq> None \<longrightarrow> b < m_next m)"

named_theorems mem_simps \<open>reading the memory after allocation, writing and deletion\<close>

lemma mem_okD: "mem_ok m \<Longrightarrow> m_blocks m b = Some bs \<Longrightarrow> b < m_next m"
  by (auto simp: mem_ok_def)

lemma mem_fresh [simp]: "mem_ok m \<Longrightarrow> m_blocks m (m_next m) = None"
  by (auto simp: mem_ok_def)

lemma mem_ok_empty [simp]: "mem_ok mem_empty"
  by (simp add: mem_ok_def mem_empty_def)

lemma mem_ok_alloc [simp]: "mem_ok m \<Longrightarrow> mem_ok (snd (mem_alloc bs m))"
  by (auto simp: mem_ok_def mem_alloc_def less_Suc_eq)

lemma mem_ok_delete: "mem_delete p m = Some m' \<Longrightarrow> mem_ok m \<Longrightarrow> mem_ok m'"
  by (cases p) (auto simp: mem_ok_def split: if_splits)

lemma mem_ok_write: "mem_write p off ds m = Some m' \<Longrightarrow> mem_ok m \<Longrightarrow> mem_ok m'"
  by (auto simp: mem_ok_def mem_write_def split: if_splits Option.bind_splits)

lemma mem_read_0 [simp, mem_simps]: "mem_read p off 0 m = Some []"
  by (simp add: mem_read_def)

lemma mem_read_block [mem_simps]:
  "m_blocks m b = Some bs \<Longrightarrow> off + n \<le> length bs \<Longrightarrow> mem_read (Some b) off n m = Some (take n (drop off bs))"
  by (simp add: mem_read_def)

lemma mem_read_length: "mem_read p off n m = Some bs \<Longrightarrow> length bs = n"
  by (auto simp: mem_read_def split: if_splits Option.bind_splits)

text \<open>Reading depends on the block only.\<close>

lemma mem_read_frame:
  "mem_read (Some b) off n m = Some bs \<Longrightarrow> m_blocks m' b = m_blocks m b \<Longrightarrow> mem_read (Some b) off n m' = Some bs"
  by (auto simp: mem_read_def)

lemma mem_read_split:
  assumes "mem_read p off n m = Some bs" "k \<le> n"
  shows "mem_read p off k m = Some (take k bs) \<and> mem_read p (off + k) (n - k) m = Some (drop k bs)"
  using assms by (auto simp: mem_read_def drop_take add.commute min_absorb1 split: if_splits Option.bind_splits)

lemma mem_write_block [mem_simps]:
  "m_blocks m b = Some bs \<Longrightarrow> off + length ds \<le> length bs \<Longrightarrow>
   mem_write (Some b) off ds m = Some (m\<lparr>m_blocks := (m_blocks m)(b \<mapsto> take off bs @ ds @ drop (off + length ds) bs)\<rparr>)"
  by (cases m) (auto simp: mem_write_def)

end
