(* ===== verification/Buffers.thy ===== *)
theory Buffers
  imports Memory
begin

unbundle bit_operations_syntax

text \<open>
  The buffers of \<open>snslib/comm/buffer\<close>: \<open>DynamicBuffer\<close> (dynamic_buffer.h, prefix \<open>dyn\<close>),
  \<open>StaticBuffer\<close> (static_buffer.h, \<open>sb\<close>), \<open>RecvBuffer\<close> (recv_buffer.h, \<open>rcv\<close>) and
  \<open>BufferSequence\<close> (buffer_sequence.h, \<open>bs\<close>). \<open>m_ptr\<close> and \<open>m_nptr\<close> are the distance to
  \<open>m_base_p\<close>; sizes are natural numbers. Moving a buffer takes its block away from the other
  one, so the operations answer the changed source too.
\<close>

section \<open>Dynamic buffers\<close>

record dynbuf =
  dyn_base :: "nat option"
  dyn_capacity :: nat
  dyn_own :: bool
  dyn_ptr :: nat
  dyn_offset :: nat

definition SMALL_BUFF_SIZE :: nat where
  "SMALL_BUFF_SIZE = 4096"

definition dyn_new :: dynbuf where
  "dyn_new = \<lparr>dyn_base = None, dyn_capacity = 0, dyn_own = True, dyn_ptr = 0, dyn_offset = 0\<rparr>"

definition dyn_sized :: "nat \<Rightarrow> mem \<Rightarrow> dynbuf \<times> mem" where
  "dyn_sized len m =
     (let cap = (if len > SMALL_BUFF_SIZE then len else SMALL_BUFF_SIZE); (b, m) = mem_new cap m
      in (\<lparr>dyn_base = Some b, dyn_capacity = cap, dyn_own = True, dyn_ptr = 0, dyn_offset = 0\<rparr>, m))"

definition dyn_Construct :: "nat option \<Rightarrow> nat \<Rightarrow> nat \<Rightarrow> nat \<Rightarrow> mem \<Rightarrow> (dynbuf \<times> mem) option" where
  "dyn_Construct data off len offset m = do {
     bs \<leftarrow> mem_read data off len m;
     let (b, m) = mem_new len m;
     m \<leftarrow> mem_write (Some b) 0 bs m;
     Some (\<lparr>dyn_base = Some b, dyn_capacity = len, dyn_own = True, dyn_ptr = len, dyn_offset = offset\<rparr>, m)
   }"

definition dyn_deep :: "nat option \<Rightarrow> nat \<Rightarrow> nat \<Rightarrow> mem \<Rightarrow> (dynbuf \<times> mem) option" where
  "dyn_deep data off len m = dyn_Construct data off len 0 m"

text \<open>The constructor that may take over the block \<open>data\<close> without a copy.\<close>

definition dyn_shallow :: "nat option \<Rightarrow> nat \<Rightarrow> bool \<Rightarrow> mem \<Rightarrow> (dynbuf \<times> mem) option" where
  "dyn_shallow data len nocopy m =
     (if \<not> nocopy then dyn_Construct data 0 len 0 m
      else Some (\<lparr>dyn_base = data, dyn_capacity = len, dyn_own = False, dyn_ptr = 0, dyn_offset = 0\<rparr>, m))"

definition dyn_Size :: "dynbuf \<Rightarrow> nat" where "dyn_Size d = dyn_ptr d"
definition dyn_Remain :: "dynbuf \<Rightarrow> nat" where "dyn_Remain d = dyn_capacity d - dyn_ptr d"
definition dyn_OffsetPtr :: "dynbuf \<Rightarrow> nat option \<times> nat" where "dyn_OffsetPtr d = (dyn_base d, dyn_offset d)"

definition dyn_Advance :: "nat \<Rightarrow> dynbuf \<Rightarrow> bool \<times> dynbuf" where
  "dyn_Advance len d =
     (if len > dyn_Remain d then (False, d) else (True, d\<lparr>dyn_ptr := dyn_ptr d + len\<rparr>))"

text \<open>The constructor with an offset: it ends with \<open>assert (Advance (offset))\<close>, which compiled
  without assertions is not evaluated.\<close>

definition dyn_shallow_at :: "bool \<Rightarrow> nat option \<Rightarrow> nat \<Rightarrow> bool \<Rightarrow> nat \<Rightarrow> mem \<Rightarrow> (dynbuf \<times> mem) option" where
  "dyn_shallow_at assertions data len nocopy offset m = do {
     (d, m) \<leftarrow> (if \<not> nocopy then dyn_Construct data 0 len offset m
       else Some (\<lparr>dyn_base = data, dyn_capacity = len, dyn_own = False, dyn_ptr = 0, dyn_offset = offset\<rparr>, m));
     if \<not> assertions then Some (d, m)
     else let (ok, d) = dyn_Advance offset d in if ok then Some (d, m) else None
   }"

definition dyn_destroy :: "dynbuf \<Rightarrow> mem \<Rightarrow> mem option" where
  "dyn_destroy d m = (if dyn_own d \<and> dyn_base d \<noteq> None then mem_delete (dyn_base d) m else Some m)"

definition dyn_Reset :: "dynbuf \<Rightarrow> mem \<Rightarrow> (dynbuf \<times> mem) option" where
  "dyn_Reset d m = do {
     m \<leftarrow> (if dyn_own d \<and> dyn_base d \<noteq> None then mem_delete (dyn_base d) m else Some m);
     Some (\<lparr>dyn_base = None, dyn_capacity = 0, dyn_own = True, dyn_ptr = 0, dyn_offset = 0\<rparr>, m)
   }"

definition dyn_Free :: "dynbuf \<Rightarrow> mem \<Rightarrow> (dynbuf \<times> mem) option" where
  "dyn_Free d m = do {
     m \<leftarrow> (if dyn_own d \<and> dyn_base d \<noteq> None then mem_delete (dyn_base d) m else Some m);
     Some (\<lparr>dyn_base = None, dyn_capacity = 0, dyn_own = True, dyn_ptr = 0, dyn_offset = 0\<rparr>, m)
   }"

definition dyn_Grow :: "nat \<Rightarrow> bool \<Rightarrow> dynbuf \<Rightarrow> mem \<Rightarrow> (dynbuf \<times> mem) option" where
  "dyn_Grow new_capacity nocopy d m =
     (if dyn_capacity d \<ge> new_capacity then Some (d, m)
      else do {
        let new_capacity = (if new_capacity < SMALL_BUFF_SIZE then SMALL_BUFF_SIZE else new_capacity);
        let (new_data, m) = mem_new new_capacity m;
        m \<leftarrow> (if \<not> nocopy then do {
              bs \<leftarrow> mem_read (dyn_base d) 0 (dyn_ptr d) m;
              mem_write (Some new_data) 0 bs m
            } else Some m);
        m \<leftarrow> (if dyn_own d \<and> dyn_base d \<noteq> None then mem_delete (dyn_base d) m else Some m);
        Some (d\<lparr>dyn_base := Some new_data, dyn_capacity := new_capacity, dyn_own := True\<rparr>, m)
      })"

definition dyn_Ensure :: "nat \<Rightarrow> bool \<Rightarrow> dynbuf \<Rightarrow> mem \<Rightarrow> (dynbuf \<times> mem) option" where
  "dyn_Ensure len nocopy d m =
     (if len > dyn_capacity d then dyn_Grow (len * 3 div 2) nocopy d m else Some (d, m))"

definition dyn_EnsureRemain :: "nat \<Rightarrow> bool \<Rightarrow> dynbuf \<Rightarrow> mem \<Rightarrow> (dynbuf \<times> mem) option" where
  "dyn_EnsureRemain len nocopy d m =
     (if len > dyn_Remain d then dyn_Grow ((len + dyn_Size d) * 3 div 2) nocopy d m else Some (d, m))"

definition dyn_Reserve :: "nat \<Rightarrow> bool \<Rightarrow> dynbuf \<Rightarrow> mem \<Rightarrow> (dynbuf \<times> mem) option" where
  "dyn_Reserve len nocopy d m =
     (if len > dyn_capacity d then dyn_Grow len nocopy d m else Some (d, m))"

definition dyn_ReserveRemain :: "nat \<Rightarrow> bool \<Rightarrow> dynbuf \<Rightarrow> mem \<Rightarrow> (dynbuf \<times> mem) option" where
  "dyn_ReserveRemain len nocopy d m =
     (if len > dyn_Remain d then dyn_Grow (len + dyn_Size d) nocopy d m else Some (d, m))"

text \<open>\<open>Borrow\<close> answers the place behind the data, the block and the offset.\<close>

definition dyn_Borrow :: "nat \<Rightarrow> bool \<Rightarrow> dynbuf \<Rightarrow> mem \<Rightarrow> ((nat option \<times> nat) \<times> dynbuf \<times> mem) option" where
  "dyn_Borrow len nocopy d m = do {
     (d, m) \<leftarrow> dyn_EnsureRemain len nocopy d m;
     Some ((dyn_base d, dyn_ptr d), d, m)
   }"

definition dyn_AppendBuf :: "byte list \<Rightarrow> dynbuf \<Rightarrow> mem \<Rightarrow> (nat \<times> dynbuf \<times> mem) option" where
  "dyn_AppendBuf src d m = do {
     (d, m) \<leftarrow> dyn_EnsureRemain (length src) False d m;
     m \<leftarrow> mem_write (dyn_base d) (dyn_ptr d) src m;
     Some (length src, d\<lparr>dyn_ptr := dyn_ptr d + length src\<rparr>, m)
   }"

text \<open>\<open>Append\<close> prints with \<open>vsnprintf\<close>, which writes what fits with a final NUL and answers the
  length of the whole text \<open>txt\<close>, until the text and its NUL fit.\<close>

partial_function (option) dyn_append_loop :: "byte list \<Rightarrow> dynbuf \<Rightarrow> mem \<Rightarrow> (dynbuf \<times> mem) option" where
  "dyn_append_loop txt d m = do {
     let size = dyn_Remain d;
     m \<leftarrow> (if size = 0 then Some m
       else mem_write (dyn_base d) (dyn_ptr d) (take (size - 1) txt @ [0]) m);
     if length txt < size then Some (d, m)
     else do {
       (d, m) \<leftarrow> dyn_EnsureRemain (length txt + 1) False d m;
       dyn_append_loop txt d m
     }
   }"

declare dyn_append_loop.simps [code]

definition dyn_Append :: "byte list \<Rightarrow> dynbuf \<Rightarrow> mem \<Rightarrow> (nat \<times> dynbuf \<times> mem) option" where
  "dyn_Append txt d m = do {
     (d, m) \<leftarrow> dyn_EnsureRemain 1024 False d m;
     (d, m) \<leftarrow> dyn_append_loop txt d m;
     Some (length txt, d\<lparr>dyn_ptr := dyn_ptr d + length txt\<rparr>, m)
   }"

section \<open>Static buffers\<close>

record statbuf =
  sb_base :: "nat option"
  sb_size :: nat
  sb_own :: bool
  sb_solid :: bool
  sb_ptr :: nat

definition sb_new :: statbuf where
  "sb_new = \<lparr>sb_base = None, sb_size = 0, sb_own = True, sb_solid = False, sb_ptr = 0\<rparr>"

definition sb_sized :: "nat \<Rightarrow> mem \<Rightarrow> statbuf \<times> mem" where
  "sb_sized len m = (let (b, m) = mem_new len m in
     (\<lparr>sb_base = Some b, sb_size = len, sb_own = True, sb_solid = False, sb_ptr = 0\<rparr>, m))"

definition sb_on :: "nat option \<Rightarrow> nat \<Rightarrow> bool \<Rightarrow> statbuf" where
  "sb_on data len ownership = \<lparr>sb_base = data, sb_size = len, sb_own = ownership, sb_solid = False, sb_ptr = 0\<rparr>"

text \<open>The copy constructor and the constructor from a dynamic buffer: the new buffer and what is
  left of the other one.\<close>

definition sb_copy :: "statbuf \<Rightarrow> statbuf \<times> statbuf" where
  "sb_copy other = (other,
     if sb_own other
     then other\<lparr>sb_own := True, sb_solid := False, sb_size := 0, sb_base := None, sb_ptr := 0\<rparr>
     else other)"

definition sb_of_dyn :: "dynbuf \<Rightarrow> mem \<Rightarrow> (statbuf \<times> dynbuf \<times> mem) option" where
  "sb_of_dyn other m = do {
     let sb = \<lparr>sb_base = dyn_base other, sb_size = dyn_Size other, sb_own = dyn_own other, sb_solid = False, sb_ptr = 0\<rparr>;
     (other, m) \<leftarrow> (if dyn_own other then dyn_Free (other\<lparr>dyn_own := False\<rparr>) m else Some (other, m));
     Some (sb, other, m)
   }"

definition sb_assign :: "statbuf \<Rightarrow> statbuf \<Rightarrow> mem \<Rightarrow> (statbuf \<times> statbuf \<times> mem) option" where
  "sb_assign this other m = do {
     m \<leftarrow> (if sb_own this \<and> sb_base this \<noteq> None then mem_delete (sb_base this) m else Some m);
     Some (other,
       if sb_own other
       then other\<lparr>sb_own := False, sb_solid := False, sb_size := 0, sb_base := None, sb_ptr := 0\<rparr>
       else other, m)
   }"

text \<open>The assignment of a dynamic buffer does not delete what the buffer had.\<close>

definition sb_assign_dyn :: "dynbuf \<Rightarrow> mem \<Rightarrow> (statbuf \<times> dynbuf \<times> mem) option" where
  "sb_assign_dyn other m = do {
     let sb = \<lparr>sb_base = dyn_base other, sb_size = dyn_Size other, sb_own = dyn_own other, sb_solid = False, sb_ptr = 0\<rparr>;
     (other, m) \<leftarrow> (if dyn_own other then dyn_Free (other\<lparr>dyn_own := False\<rparr>) m else Some (other, m));
     Some (sb, other, m)
   }"

definition sb_Assign :: "nat option \<Rightarrow> nat \<Rightarrow> bool \<Rightarrow> statbuf \<Rightarrow> mem \<Rightarrow> (statbuf \<times> mem) option" where
  "sb_Assign data len ownership this m = do {
     m \<leftarrow> (if sb_own this \<and> sb_base this \<noteq> None then mem_delete (sb_base this) m else Some m);
     Some (\<lparr>sb_base = data, sb_size = len, sb_own = ownership, sb_solid = False, sb_ptr = 0\<rparr>, m)
   }"

definition sb_Empty :: "statbuf \<Rightarrow> bool" where "sb_Empty s \<longleftrightarrow> sb_ptr s = sb_size s"
definition sb_Remain :: "statbuf \<Rightarrow> nat" where "sb_Remain s = sb_size s - sb_ptr s"
definition sb_Solidit :: "statbuf \<Rightarrow> statbuf" where "sb_Solidit s = s\<lparr>sb_solid := True\<rparr>"
definition sb_Solided :: "statbuf \<Rightarrow> bool" where "sb_Solided s \<longleftrightarrow> sb_own s \<or> sb_solid s"

definition sb_Advance :: "nat \<Rightarrow> statbuf \<Rightarrow> bool \<times> statbuf" where
  "sb_Advance len s =
     (if len > sb_Remain s then (False, s) else (True, s\<lparr>sb_ptr := sb_ptr s + len\<rparr>))"

text \<open>The bytes from \<open>Str ()\<close> on.\<close>

definition sb_Str :: "statbuf \<Rightarrow> mem \<Rightarrow> byte list option" where
  "sb_Str s m = mem_read (sb_base s) (sb_ptr s) (sb_Remain s) m"

definition sb_destroy :: "statbuf \<Rightarrow> mem \<Rightarrow> mem option" where
  "sb_destroy s m = (if sb_own s \<and> sb_base s \<noteq> None then mem_delete (sb_base s) m else Some m)"

section \<open>Receive buffers\<close>

record recvbuf =
  rcv_base :: "nat option"
  rcv_size :: nat
  rcv_own :: bool
  rcv_solid :: bool
  rcv_nptr :: nat

definition rcv_new :: recvbuf where
  "rcv_new = \<lparr>rcv_base = None, rcv_size = 0, rcv_own = True, rcv_solid = False, rcv_nptr = 0\<rparr>"

definition rcv_sized :: "nat \<Rightarrow> mem \<Rightarrow> recvbuf \<times> mem" where
  "rcv_sized len m = (let (b, m) = mem_new len m in
     (\<lparr>rcv_base = Some b, rcv_size = len, rcv_own = True, rcv_solid = False, rcv_nptr = 0\<rparr>, m))"

definition rcv_on :: "nat option \<Rightarrow> nat \<Rightarrow> bool \<Rightarrow> recvbuf" where
  "rcv_on data len ownership = \<lparr>rcv_base = data, rcv_size = len, rcv_own = ownership, rcv_solid = False, rcv_nptr = 0\<rparr>"

definition rcv_copy :: "recvbuf \<Rightarrow> recvbuf \<times> recvbuf" where
  "rcv_copy other = (other,
     if rcv_own other
     then other\<lparr>rcv_own := True, rcv_solid := False, rcv_size := 0, rcv_base := None, rcv_nptr := 0\<rparr>
     else other)"

definition rcv_of_dyn :: "dynbuf \<Rightarrow> mem \<Rightarrow> (recvbuf \<times> dynbuf \<times> mem) option" where
  "rcv_of_dyn other m = do {
     let r = \<lparr>rcv_base = dyn_base other, rcv_size = dyn_Size other, rcv_own = dyn_own other, rcv_solid = False, rcv_nptr = 0\<rparr>;
     (other, m) \<leftarrow> (if dyn_own other then dyn_Free (other\<lparr>dyn_own := False\<rparr>) m else Some (other, m));
     Some (r, other, m)
   }"

definition rcv_assign :: "recvbuf \<Rightarrow> recvbuf \<Rightarrow> mem \<Rightarrow> (recvbuf \<times> recvbuf \<times> mem) option" where
  "rcv_assign this other m = do {
     m \<leftarrow> (if rcv_own this \<and> rcv_base this \<noteq> None then mem_delete (rcv_base this) m else Some m);
     Some (other,
       if rcv_own other
       then other\<lparr>rcv_own := False, rcv_solid := False, rcv_size := 0, rcv_base := None, rcv_nptr := 0\<rparr>
       else other, m)
   }"

definition rcv_assign_dyn :: "dynbuf \<Rightarrow> mem \<Rightarrow> (recvbuf \<times> dynbuf \<times> mem) option" where
  "rcv_assign_dyn other m = do {
     let r = \<lparr>rcv_base = dyn_base other, rcv_size = dyn_Size other, rcv_own = dyn_own other, rcv_solid = False, rcv_nptr = 0\<rparr>;
     (other, m) \<leftarrow> (if dyn_own other then dyn_Free (other\<lparr>dyn_own := False\<rparr>) m else Some (other, m));
     Some (r, other, m)
   }"

definition rcv_Assign :: "nat option \<Rightarrow> nat \<Rightarrow> bool \<Rightarrow> recvbuf \<Rightarrow> mem \<Rightarrow> (recvbuf \<times> mem) option" where
  "rcv_Assign data len ownership this m = do {
     m \<leftarrow> (if rcv_own this \<and> rcv_base this \<noteq> None then mem_delete (rcv_base this) m else Some m);
     Some (\<lparr>rcv_base = data, rcv_size = len, rcv_own = ownership, rcv_solid = False, rcv_nptr = 0\<rparr>, m)
   }"

definition rcv_UsedSize :: "recvbuf \<Rightarrow> nat" where "rcv_UsedSize r = rcv_nptr r"
definition rcv_Remain :: "recvbuf \<Rightarrow> nat" where "rcv_Remain r = rcv_size r - rcv_UsedSize r"
definition rcv_Empty :: "recvbuf \<Rightarrow> bool" where "rcv_Empty r \<longleftrightarrow> rcv_nptr r = rcv_size r"
definition rcv_Solidit :: "recvbuf \<Rightarrow> recvbuf" where "rcv_Solidit r = r\<lparr>rcv_solid := True\<rparr>"
definition rcv_Solided :: "recvbuf \<Rightarrow> bool" where "rcv_Solided r \<longleftrightarrow> rcv_own r \<or> rcv_solid r"

definition rcv_Advance :: "nat \<Rightarrow> recvbuf \<Rightarrow> bool \<times> recvbuf" where
  "rcv_Advance len r =
     (if len > rcv_Remain r then (False, r) else (True, r\<lparr>rcv_nptr := rcv_nptr r + len\<rparr>))"

definition rcv_MemMoveLeft :: "nat \<Rightarrow> recvbuf \<Rightarrow> mem \<Rightarrow> (bool \<times> recvbuf \<times> mem) option" where
  "rcv_MemMoveLeft len r m =
     (if len > rcv_UsedSize r then Some (False, r, m)
      else do {
        let mv_size = rcv_UsedSize r - len;
        bs \<leftarrow> mem_read (rcv_base r) len mv_size m;
        m \<leftarrow> mem_write (rcv_base r) 0 bs m;
        Some (True, r\<lparr>rcv_nptr := mv_size\<rparr>, m)
      })"

definition rcv_Str :: "recvbuf \<Rightarrow> mem \<Rightarrow> byte list option" where
  "rcv_Str r m = mem_read (rcv_base r) 0 (rcv_UsedSize r) m"

definition rcv_destroy :: "recvbuf \<Rightarrow> mem \<Rightarrow> mem option" where
  "rcv_destroy r m = (if rcv_own r \<and> rcv_base r \<noteq> None then mem_delete (rcv_base r) m else Some m)"

end
