(* ===== verification/BufferSeq.thy ===== *)
theory BufferSeq
  imports Buffers
begin

unbundle bit_operations_syntax

text \<open>
  The buffer sequence of \<open>snslib/comm/buffer/buffer_sequence.h\<close>: up to \<open>M\<close> static buffers that
  are sent one after the other. \<open>M\<close> is the length of \<open>m_buffers\<close>; the exception of the
  operators is \<open>Inl\<close>. With it the check sum of \<open>CStrTool\<close> (\<open>snslib/comm/util/pet_util.cpp\<close>).
\<close>

section \<open>State and operations\<close>

record bufseq =
  m_buffers :: "statbuf list"
  m_count :: nat
  m_total_size :: nat

definition bs_new :: "nat \<Rightarrow> bufseq" where
  "bs_new M = \<lparr>m_buffers = replicate M sb_new, m_count = 0, m_total_size = 0\<rparr>"

text \<open>The loop \<open>m_buffers[i] = other.m_buffers[i]\<close> over the first \<open>n\<close> buffers.\<close>

fun bs_move :: "nat \<Rightarrow> statbuf list \<Rightarrow> statbuf list \<Rightarrow> mem \<Rightarrow> (statbuf list \<times> statbuf list \<times> mem) option" where
  "bs_move (Suc n) (x # xs) (y # ys) m = do {
     (x, y, m) \<leftarrow> sb_assign x y m;
     (xs, ys, m) \<leftarrow> bs_move n xs ys m;
     Some (x # xs, y # ys, m)
   }"
| "bs_move 0 xs ys m = Some (xs, ys, m)"
| "bs_move (Suc n) _ _ m = None"

definition bs_copy :: "nat \<Rightarrow> bufseq \<Rightarrow> mem \<Rightarrow> (bufseq \<times> bufseq \<times> mem) option" where
  "bs_copy M other m = do {
     (xs, ys, m) \<leftarrow> bs_move (m_count other) (replicate M sb_new) (m_buffers other) m;
     Some (\<lparr>m_buffers = xs, m_count = m_count other, m_total_size = m_total_size other\<rparr>, other\<lparr>m_buffers := ys\<rparr>, m)
   }"

definition bs_assign :: "bufseq \<Rightarrow> bufseq \<Rightarrow> mem \<Rightarrow> (bufseq \<times> bufseq \<times> mem) option" where
  "bs_assign this other m = do {
     (xs, ys, m) \<leftarrow> bs_move (m_count other) (m_buffers this) (m_buffers other) m;
     Some (\<lparr>m_buffers = xs, m_count = m_count other, m_total_size = m_total_size other\<rparr>, other\<lparr>m_buffers := ys\<rparr>, m)
   }"

text \<open>\<open>operator+\<close> adds what remains of the source after it was moved.\<close>

definition bs_plus :: "bufseq \<Rightarrow> statbuf \<Rightarrow> mem \<Rightarrow> (string + bufseq \<times> statbuf \<times> mem) option" where
  "bs_plus s other m =
     (if m_count s \<ge> length (m_buffers s) then Some (Inl ''buffer overflow'')
      else do {
        (b, other, m) \<leftarrow> sb_assign (m_buffers s ! m_count s) other m;
        Some (Inr (s\<lparr>m_buffers := (m_buffers s)[m_count s := b], m_count := m_count s + 1,
          m_total_size := m_total_size s + sb_Remain other\<rparr>, other, m))
      })"

definition bs_add :: "bufseq \<Rightarrow> statbuf \<Rightarrow> mem \<Rightarrow> (string + bufseq \<times> statbuf \<times> mem) option" where
  "bs_add s other m =
     (if m_count s \<ge> length (m_buffers s) then Some (Inl ''buffer overflow'')
      else do {
        (b, other, m) \<leftarrow> sb_assign (m_buffers s ! m_count s) other m;
        Some (Inr (s\<lparr>m_buffers := (m_buffers s)[m_count s := b], m_count := m_count s + 1,
          m_total_size := m_total_size s + sb_Remain b\<rparr>, other, m))
      })"

text \<open>The local \<open>StaticBuffer sb\<close> is destroyed at the end.\<close>

definition bs_add_dyn :: "bufseq \<Rightarrow> dynbuf \<Rightarrow> mem \<Rightarrow> (string + bufseq \<times> dynbuf \<times> mem) option" where
  "bs_add_dyn s other m =
     (if m_count s \<ge> length (m_buffers s) then Some (Inl ''buffer overflow'')
      else do {
        (sb, other, m) \<leftarrow> sb_of_dyn other m;
        (b, sb, m) \<leftarrow> sb_assign (m_buffers s ! m_count s) sb m;
        m \<leftarrow> sb_destroy sb m;
        Some (Inr (s\<lparr>m_buffers := (m_buffers s)[m_count s := b], m_count := m_count s + 1,
          m_total_size := m_total_size s + sb_Remain b\<rparr>, other, m))
      })"

text \<open>The io vector: base and length of the parts that are not empty, at most \<open>N\<close>.\<close>

fun bs_iovec :: "statbuf list \<Rightarrow> nat \<Rightarrow> nat \<Rightarrow> statbuf list" where
  "bs_iovec (x # xs) (Suc i) (Suc n) = (if sb_Empty x then bs_iovec xs i (Suc n) else x # bs_iovec xs i n)"
| "bs_iovec _ _ _ = []"

definition bs_InitIoVec :: "nat \<Rightarrow> bufseq \<Rightarrow> statbuf list" where
  "bs_InitIoVec N s = bs_iovec (m_buffers s) (m_count s) N"

text \<open>The buffers, what is left of \<open>len\<close> and of the total size.\<close>

fun bs_advance :: "statbuf list \<Rightarrow> nat \<Rightarrow> nat \<Rightarrow> nat \<Rightarrow> statbuf list \<times> nat" where
  "bs_advance (x # xs) (Suc i) len total_size =
     (if len > 0 then
        if sb_Empty x then let (xs, t) = bs_advance xs i len total_size in (x # xs, t)
        else
          let to_advance = (if sb_Remain x \<le> len then sb_Remain x else len);
              (_, x) = sb_Advance to_advance x;
              (xs, t) = bs_advance xs i (len - to_advance) (total_size - to_advance)
          in (x # xs, t)
      else (x # xs, total_size))"
| "bs_advance xs _ len total_size = (xs, total_size)"

definition bs_Advance :: "nat \<Rightarrow> bufseq \<Rightarrow> bufseq" where
  "bs_Advance len s =
     (let (xs, t) = bs_advance (m_buffers s) (m_count s) len (m_total_size s)
      in s\<lparr>m_buffers := xs, m_total_size := t\<rparr>)"

fun bs_solidify :: "statbuf list \<Rightarrow> nat \<Rightarrow> mem \<Rightarrow> (statbuf list \<times> mem) option" where
  "bs_solidify (x # xs) (Suc i) m = do {
     (x, m) \<leftarrow> (if \<not> sb_Empty x \<and> \<not> sb_Solided x then do {
         (new_buffer, m) \<leftarrow> dyn_deep (sb_base x) (sb_ptr x) (sb_Remain x) m;
         (x, new_buffer, m) \<leftarrow> sb_assign_dyn new_buffer m;
         m \<leftarrow> dyn_destroy new_buffer m;
         Some (x, m)
       } else Some (x, m));
     (xs, m) \<leftarrow> bs_solidify xs i m;
     Some (x # xs, m)
   }"
| "bs_solidify xs _ m = Some (xs, m)"

definition bs_Solidify :: "bufseq \<Rightarrow> mem \<Rightarrow> (bufseq \<times> mem) option" where
  "bs_Solidify s m =
     (if m_total_size s = 0 then Some (s, m)
      else do {
        (xs, m) \<leftarrow> bs_solidify (m_buffers s) (m_count s) m;
        Some (s\<lparr>m_buffers := xs\<rparr>, m)
      })"

definition bs_Empty :: "bufseq \<Rightarrow> bool" where "bs_Empty s \<longleftrightarrow> m_total_size s = 0"
definition bs_Remain :: "bufseq \<Rightarrow> nat" where "bs_Remain s = m_total_size s"

fun sb_destroys :: "statbuf list \<Rightarrow> mem \<Rightarrow> mem option" where
  "sb_destroys [] m = Some m"
| "sb_destroys (x # xs) m = do { m \<leftarrow> sb_destroys xs m; sb_destroy x m }"

definition bs_destroy :: "bufseq \<Rightarrow> mem \<Rightarrow> mem option" where
  "bs_destroy s m = sb_destroys (m_buffers s) m"

section \<open>Check sums\<close>

text \<open>A \<open>short\<close> of two bytes in memory, little endian, and the loops over \<open>len / 2\<close> of them.\<close>

definition le16 :: "byte \<Rightarrow> byte \<Rightarrow> 16 word" where
  "le16 a b = push_bit 8 (ucast b) OR ucast a"

fun xor_shorts :: "byte list \<Rightarrow> 16 word \<Rightarrow> 16 word" where
  "xor_shorts (a # b # ds) acc = xor_shorts ds (acc XOR le16 a b)"
| "xor_shorts _ acc = acc"

definition CStr_CheckSum :: "byte list \<Rightarrow> 16 word" where
  "CStr_CheckSum buf = xor_shorts buf 0"

text \<open>The loop over the buffers with \<open>last_buffer_odd\<close> and \<open>last_buffer_char\<close>.\<close>

fun bs_check_sum :: "statbuf list \<Rightarrow> nat \<Rightarrow> mem \<Rightarrow> 16 word \<Rightarrow> bool \<Rightarrow> byte \<Rightarrow> 16 word option" where
  "bs_check_sum (x # xs) (Suc i) m acc last_buffer_odd last_buffer_char =
     (if sb_Empty x then bs_check_sum xs i m acc last_buffer_odd last_buffer_char
      else do {
        data \<leftarrow> sb_Str x m;
        let (acc, data) = (if last_buffer_odd
          then (acc XOR (ucast (hd data) * 256 + ucast last_buffer_char), tl data) else (acc, data));
        let acc = xor_shorts data acc;
        if length data mod 2 = 1 then bs_check_sum xs i m acc True (last data)
        else bs_check_sum xs i m acc False last_buffer_char
      })"
| "bs_check_sum _ _ m acc _ _ = Some acc"

definition bs_CheckSum :: "bufseq \<Rightarrow> mem \<Rightarrow> 16 word option" where
  "bs_CheckSum s m =
     (if m_total_size s = 0 then Some 0 else bs_check_sum (m_buffers s) (m_count s) m 0 False 0)"

section \<open>The bytes of a sequence\<close>

text \<open>What a list of buffers still has to send.\<close>

fun sb_bytes :: "statbuf list \<Rightarrow> mem \<Rightarrow> byte list option" where
  "sb_bytes [] m = Some []"
| "sb_bytes (x # xs) m = do { bs \<leftarrow> sb_Str x m; cs \<leftarrow> sb_bytes xs m; Some (bs @ cs) }"

definition bs_bytes :: "bufseq \<Rightarrow> mem \<Rightarrow> byte list option" where
  "bs_bytes s m = sb_bytes (take (m_count s) (m_buffers s)) m"

definition bs_ok :: "bufseq \<Rightarrow> bool" where
  "bs_ok s \<longleftrightarrow> m_count s \<le> length (m_buffers s)
     \<and> (\<forall>x \<in> set (m_buffers s). sb_ptr x \<le> sb_size x)
     \<and> (\<forall>x \<in> set (drop (m_count s) (m_buffers s)). x = sb_new)
     \<and> m_total_size s = sum_list (map sb_Remain (m_buffers s))"

lemma sb_Str_length: "sb_Str x m = Some bs \<Longrightarrow> length bs = sb_Remain x"
  by (auto simp: sb_Str_def dest: mem_read_length)

lemma sb_Str_Empty: "sb_Empty x \<Longrightarrow> sb_Str x m = Some []"
  by (simp add: sb_Str_def sb_Empty_def sb_Remain_def)

lemma sb_bytes_length: "sb_bytes xs m = Some bs \<Longrightarrow> length bs = sum_list (map sb_Remain xs)"
  by (induction xs arbitrary: bs) (auto dest: sb_Str_length split: Option.bind_splits)

lemma sb_bytes_append:
  "sb_bytes (xs @ ys) m = do { bs \<leftarrow> sb_bytes xs m; cs \<leftarrow> sb_bytes ys m; Some (bs @ cs) }"
  by (induction xs) (auto split: Option.bind_splits)

section \<open>The check sum does not see the buffers\<close>

lemma xor_shorts_even:
  "length ds mod 2 = 0 \<Longrightarrow> xor_shorts (ds @ cs) acc = xor_shorts cs (xor_shorts ds acc)"
  by (induction ds acc rule: xor_shorts.induct) auto

lemma le16_times: "ucast b * 256 + ucast a = le16 a b" for a b :: byte
proof -
  have "(ucast b :: 16 word) * 256 = push_bit 8 (ucast b)" by (simp add: push_bit_eq_mult)
  moreover have "push_bit 8 (ucast b :: 16 word) AND ucast a = 0"
    by (rule bit_word_eqI) (auto simp: bit_simps dest: bit_imp_le_length)
  ultimately show ?thesis
    using word_plus_and_or [of "push_bit 8 (ucast b :: 16 word)" "ucast a"] by (simp add: le16_def)
qed

lemma check_sum_bytes:
  "sb_bytes (take i xs) m = Some bs \<Longrightarrow> \<forall>x \<in> set xs. sb_ptr x \<le> sb_size x \<Longrightarrow>
   bs_check_sum xs i m acc od c = Some (xor_shorts ((if od then [c] else []) @ bs) acc)"
proof (induction xs arbitrary: i acc od c bs)
  case (Cons x xs)
  show ?case
  proof (cases i)
    case (Suc j)
    with Cons.prems obtain ds cs where ds: "sb_Str x m = Some ds" and cs: "sb_bytes (take j xs) m = Some cs"
        and bs: "bs = ds @ cs" and ptrs: "\<forall>x \<in> set xs. sb_ptr x \<le> sb_size x"
      by (auto split: Option.bind_splits)
    note IH = Cons.IH [OF cs ptrs]
    show ?thesis
    proof (cases "sb_Empty x")
      case True
      with ds bs have "bs = cs" by (simp add: sb_Str_Empty)
      with True Suc IH show ?thesis by simp
    next
      case False
      with sb_Str_length [OF ds] Cons.prems(2) have "ds \<noteq> []" by (auto simp: sb_Empty_def sb_Remain_def)
      then obtain d ds' where d: "ds = d # ds'" by (cases ds) auto
      define rest where "rest = (if od then ds' else ds)"
      define acc' where "acc' = (if od then acc XOR le16 c d else acc)"
      have step: "bs_check_sum (x # xs) i m acc od c =
          (if length rest mod 2 = 1 then bs_check_sum xs j m (xor_shorts rest acc') True (last rest)
           else bs_check_sum xs j m (xor_shorts rest acc') False c)"
        using False ds d Suc by (simp add: rest_def acc'_def le16_times Let_def)
      have xs: "xor_shorts ((if od then [c] else []) @ bs) acc = xor_shorts (rest @ cs) acc'"
        using bs d by (simp add: rest_def acc'_def)
      show ?thesis
      proof (cases "length rest mod 2 = 1")
        case True
        then have "xor_shorts (rest @ cs) acc' = xor_shorts (last rest # cs) (xor_shorts rest acc')"
          by (induction rest acc' rule: xor_shorts.induct) auto
        with True step xs IH show ?thesis by simp
      next
        case False
        with xor_shorts_even [of rest cs acc'] step xs IH show ?thesis by simp
      qed
    qed
  qed (use Cons.prems in simp)
qed auto

lemma CheckSum_bytes:
  assumes "bs_ok s" "bs_bytes s m = Some bs"
  shows "bs_CheckSum s m = Some (CStr_CheckSum bs)"
proof (cases "m_total_size s = 0")
  case True
  have "sum_list (map sb_Remain (take (m_count s) (m_buffers s))) \<le> sum_list (map sb_Remain (m_buffers s))"
    by (metis append_take_drop_id le_add1 map_append sum_list_append)
  moreover have "length bs = sum_list (map sb_Remain (take (m_count s) (m_buffers s)))"
    using assms(2) by (simp add: bs_bytes_def sb_bytes_length)
  ultimately have "bs = []" using True assms(1) unfolding bs_ok_def by (metis le_zero_eq length_0_conv)
  with True show ?thesis by (simp add: bs_CheckSum_def CStr_CheckSum_def)
next
  case False
  moreover have "\<forall>x \<in> set (m_buffers s). sb_ptr x \<le> sb_size x" using assms(1) by (simp add: bs_ok_def)
  ultimately show ?thesis using assms(2) check_sum_bytes [of "m_count s" "m_buffers s" m bs 0 False 0]
    by (simp add: bs_CheckSum_def bs_bytes_def CStr_CheckSum_def)
qed

section \<open>Sending part of a sequence\<close>

lemma advance_spec:
  assumes "sb_bytes (take i xs) m = Some bs" "\<forall>x \<in> set xs. sb_ptr x \<le> sb_size x" "len \<le> length bs" "length bs \<le> t"
  shows "\<exists>ys. bs_advance xs i len t = (ys, t - len) \<and> sb_bytes (take i ys) m = Some (drop len bs)
    \<and> list_all2 (\<lambda>x y. \<exists>p. sb_ptr x \<le> p \<and> p \<le> sb_size x \<and> y = x\<lparr>sb_ptr := p\<rparr>) xs ys"
  using assms
proof (induction xs arbitrary: i len t bs)
  case (Cons x xs)
  have refl: "list_all2 (\<lambda>x y. \<exists>p. sb_ptr x \<le> p \<and> p \<le> sb_size x \<and> y = x\<lparr>sb_ptr := p\<rparr>) zs zs"
    if "\<forall>x \<in> set zs. sb_ptr x \<le> sb_size x" for zs
    using that by (induction zs) (auto intro!: exI [of _ "sb_ptr _"])
  show ?case
  proof (cases "i = 0 \<or> len = 0")
    case True
    with Cons.prems refl [of "x # xs"] show ?thesis by (cases i) auto
  next
    case False
    then obtain j where i: "i = Suc j" by (cases i) auto
    with Cons.prems obtain ds cs where ds: "sb_Str x m = Some ds" and cs: "sb_bytes (take j xs) m = Some cs"
        and bs: "bs = ds @ cs" and ptrs: "\<forall>x \<in> set xs. sb_ptr x \<le> sb_size x" and x: "sb_ptr x \<le> sb_size x"
      by (auto split: Option.bind_splits)
    note len = sb_Str_length [OF ds]
    define k where "k = min (sb_Remain x) len"
    define x' where "x' = x\<lparr>sb_ptr := sb_ptr x + k\<rparr>"
    have "bs_advance (x # xs) i len t
        = (let (ys, t) = bs_advance xs j (len - k) (t - k) in (x' # ys, t))"
    proof (cases "sb_Empty x")
      case True
      then have "k = 0" "x' = x" by (simp_all add: k_def x'_def sb_Empty_def sb_Remain_def)
      with True False i show ?thesis by simp
    next
      case False
      with \<open>\<not> (i = 0 \<or> len = 0)\<close> i x show ?thesis
        by (auto simp: k_def x'_def sb_Empty_def sb_Remain_def sb_Advance_def Let_def min_def)
    qed
    moreover have pre: "len - k \<le> length cs" "length cs \<le> t - k"
      using Cons.prems(3,4) bs len by (auto simp: k_def)
    moreover obtain ys where ys: "bs_advance xs j (len - k) (t - k) = (ys, t - k - (len - k))"
        "sb_bytes (take j ys) m = Some (drop (len - k) cs)"
        "list_all2 (\<lambda>x y. \<exists>p. sb_ptr x \<le> p \<and> p \<le> sb_size x \<and> y = x\<lparr>sb_ptr := p\<rparr>) xs ys"
      using Cons.IH [OF cs ptrs pre] by blast
    moreover have "sb_Str x' m = Some (drop k ds)"
      using mem_read_split [of "sb_base x" "sb_ptr x" "sb_Remain x" m ds k] ds
      by (simp add: sb_Str_def x'_def sb_Remain_def k_def)
    moreover have "drop len bs = drop k ds @ drop (len - k) cs" using len bs by (auto simp: k_def min_def)
    moreover have "k \<le> len" "sb_ptr x + k \<le> sb_size x" using x by (auto simp: k_def sb_Remain_def)
    ultimately show ?thesis using i by (auto simp: x'_def intro!: exI [of _ "sb_ptr x + k"])
  qed
qed simp

text \<open>What \<open>writev\<close> is given is what the sequence still has to send.\<close>

lemma iovec_bytes:
  assumes "sb_bytes (take i xs) m = Some bs" "i \<le> N"
  shows "sb_bytes (bs_iovec xs i N) m = Some bs"
  using assms
proof (induction xs i N arbitrary: bs rule: bs_iovec.induct)
  case (1 x xs i n)
  then obtain ds cs where "sb_Str x m = Some ds" "sb_bytes (take i xs) m = Some cs" "bs = ds @ cs" "i \<le> n"
    by (auto split: Option.bind_splits)
  with 1 show ?case by (auto simp: sb_Str_Empty)
qed auto

section \<open>Ownership\<close>

text \<open>The blocks a list of buffers owns.\<close>

definition sb_block :: "statbuf \<Rightarrow> nat list" where
  "sb_block x = (if sb_own x then (case sb_base x of None \<Rightarrow> [] | Some b \<Rightarrow> [b]) else [])"

fun sb_blocks :: "statbuf list \<Rightarrow> nat list" where
  "sb_blocks [] = []"
| "sb_blocks (x # xs) = sb_block x @ sb_blocks xs"

lemma in_sb_block [simp]: "b \<in> set (sb_block x) \<longleftrightarrow> sb_own x \<and> sb_base x = Some b"
  by (cases "sb_base x"; cases "sb_own x") (simp_all add: sb_block_def eq_commute [of b])

lemma sb_block_simps:
  "\<not> sb_own x \<Longrightarrow> sb_block x = []" "sb_base x = None \<Longrightarrow> sb_block x = []"
  "sb_own x \<Longrightarrow> sb_base x = Some b \<Longrightarrow> sb_block x = [b]"
  by (simp_all add: sb_block_def split: option.split)

lemma sb_blocks_append [simp]: "sb_blocks (xs @ ys) = sb_blocks xs @ sb_blocks ys"
  by (induction xs) auto

lemma sb_blocks_new [simp]: "sb_blocks (replicate n sb_new) = []"
  by (induction n) (simp_all add: sb_new_def sb_block_def)

lemma in_sb_blocks: "b \<in> set (sb_blocks xs) \<longleftrightarrow> (\<exists>x \<in> set xs. sb_own x \<and> sb_base x = Some b)"
  by (induction xs) auto

text \<open>Deleting the buffers deletes their blocks and nothing else.\<close>

lemma destroys_spec:
  assumes "distinct (sb_blocks xs)" "set (sb_blocks xs) \<subseteq> dom (m_blocks m)"
  shows "sb_destroys xs m = Some (m\<lparr>m_blocks := m_blocks m |` (- set (sb_blocks xs))\<rparr>)"
  using assms
proof (induction xs)
  case (Cons x xs)
  show ?case
  proof (cases "sb_own x \<and> sb_base x \<noteq> None")
    case True
    then obtain b where b: "sb_base x = Some b" by auto
    with Cons.prems True have "b \<notin> set (sb_blocks xs)" "m_blocks m b \<noteq> None" "sb_block x = [b]"
      by (auto simp: sb_block_simps)
    with True b Cons show ?thesis
      by (simp add: sb_destroy_def restrict_map_def fun_eq_iff)
  next
    case False
    then have "sb_block x = []" by (auto simp: sb_block_simps)
    with False Cons show ?thesis by (auto simp: sb_destroy_def)
  qed
qed (simp add: restrict_map_def)

definition moved :: "statbuf \<Rightarrow> statbuf" where
  "moved y = (if sb_own y
     then y\<lparr>sb_own := False, sb_solid := False, sb_size := 0, sb_base := None, sb_ptr := 0\<rparr> else y)"

lemma moved_own [simp]: "\<not> sb_own (moved y)"
  by (simp add: moved_def)

lemma move_new:
  assumes "n \<le> length xs" "n \<le> length ys" "\<forall>x \<in> set xs. x = sb_new"
  shows "bs_move n xs ys m = Some (take n ys @ drop n xs, map moved (take n ys) @ drop n ys, m)"
  using assms
proof (induction n xs ys m rule: bs_move.induct)
  case (1 n x xs y ys m)
  then show ?case by (simp add: sb_assign_def sb_new_def moved_def Let_def)
qed auto

text \<open>A copy takes everything over, the emptied source can be destroyed.\<close>

lemma bs_copy_spec:
  assumes "bs_ok s" "length (m_buffers s) = M"
  shows "\<exists>s'. bs_copy M s m = Some (s, s', m) \<and> (\<forall>m. bs_destroy s' m = Some m)"
proof -
  let ?n = "m_count s" and ?xs = "m_buffers s"
  have n: "?n \<le> length ?xs" and new: "\<forall>x \<in> set (drop ?n ?xs). x = sb_new"
    using assms(1) by (simp_all add: bs_ok_def)
  have rest: "replicate (M - ?n) sb_new = drop ?n ?xs"
    using new assms(2) by (intro replicate_eqI [symmetric]) auto
  have "bs_move ?n (replicate M sb_new) ?xs m = Some (?xs, map moved (take ?n ?xs) @ drop ?n ?xs, m)"
    using n assms(2) rest by (subst move_new) auto
  moreover have "sb_blocks (map moved (take ?n ?xs) @ drop ?n ?xs) = []"
  proof -
    have "sb_blocks (map moved zs) = []" for zs by (induction zs) (simp_all add: sb_block_simps)
    with rest [symmetric] show ?thesis by simp
  qed
  ultimately show ?thesis
    using destroys_spec [of "map moved (take ?n ?xs) @ drop ?n ?xs"]
    by (simp add: bs_copy_def bs_destroy_def restrict_map_def)
qed

text \<open>What is not empty is read from its block only.\<close>

lemma sb_bytes_frame:
  assumes "sb_bytes xs m = Some bs" "\<forall>x \<in> set xs. \<not> sb_Empty x \<longrightarrow> (\<forall>b. sb_base x = Some b \<longrightarrow> m_blocks m' b = m_blocks m b)"
    "\<forall>x \<in> set xs. sb_ptr x \<le> sb_size x"
  shows "sb_bytes xs m' = Some bs"
  using assms
proof (induction xs arbitrary: bs)
  case (Cons x xs)
  then obtain ds cs where ds: "sb_Str x m = Some ds" and cs: "sb_bytes xs m = Some cs" "bs = ds @ cs"
    by (auto split: Option.bind_splits)
  have "sb_Str x m' = Some ds"
  proof (cases "sb_Empty x")
    case True with ds show ?thesis by (simp add: sb_Str_Empty)
  next
    case False
    show ?thesis
    proof (cases "sb_base x")
      case None
      with ds show ?thesis by (auto simp: sb_Str_def mem_read_def split: if_splits)
    next
      case (Some b)
      with False Cons.prems(2) have "m_blocks m' b = m_blocks m b" by simp
      with Some ds show ?thesis by (auto simp: sb_Str_def mem_read_def split: if_splits)
    qed
  qed
  with Cons cs show ?case by simp
qed simp

section \<open>Making a sequence independent of its sources\<close>

lemma solid_one:
  assumes ok: "mem_ok m" and ds: "sb_Str x m = Some ds"
  defines "y \<equiv> \<lparr>sb_base = Some (m_next m), sb_size = sb_Remain x, sb_own = True, sb_solid = False, sb_ptr = 0\<rparr>"
    and "m' \<equiv> m\<lparr>m_blocks := (m_blocks m)(m_next m \<mapsto> ds), m_next := Suc (m_next m)\<rparr>"
  shows "do {
      (new_buffer, m) \<leftarrow> dyn_deep (sb_base x) (sb_ptr x) (sb_Remain x) m;
      (x, new_buffer, m) \<leftarrow> sb_assign_dyn new_buffer m;
      m \<leftarrow> dyn_destroy new_buffer m;
      Some (x, m)
    } = Some (y, m')"
    "mem_ok m'" "sb_Str y m' = Some ds" "m_blocks m \<subseteq>\<^sub>m m_blocks m'" "dom (m_blocks m') = insert (m_next m) (dom (m_blocks m))"
proof -
  have len: "length ds = sb_Remain x" using ds by (rule sb_Str_length)
  have w: "mem_write (Some (m_next m)) 0 ds (snd (mem_new (sb_Remain x) m)) = Some m'"
  proof (cases "ds = []")
    case True
    with len show ?thesis by (simp add: mem_write_def mem_new_def mem_alloc_def m'_def)
  next
    case False
    with len show ?thesis by (simp add: mem_write_def mem_new_def mem_alloc_def m'_def)
  qed
  have "fst (mem_new (sb_Remain x) m) = m_next m" by (simp add: mem_new_def mem_alloc_def)
  then have "dyn_deep (sb_base x) (sb_ptr x) (sb_Remain x) m = Some (\<lparr>dyn_base = Some (m_next m),
      dyn_capacity = sb_Remain x, dyn_own = True, dyn_ptr = sb_Remain x, dyn_offset = 0\<rparr>, m')"
    using w ds by (simp add: dyn_deep_def dyn_Construct_def sb_Str_def split_beta)
  then show "do {
      (new_buffer, m) \<leftarrow> dyn_deep (sb_base x) (sb_ptr x) (sb_Remain x) m;
      (x, new_buffer, m) \<leftarrow> sb_assign_dyn new_buffer m;
      m \<leftarrow> dyn_destroy new_buffer m;
      Some (x, m)
    } = Some (y, m')"
    by (simp add: sb_assign_dyn_def dyn_Free_def dyn_destroy_def dyn_Size_def y_def)
  show "mem_ok m'" using ok by (auto simp: mem_ok_def m'_def less_Suc_eq)
  show "sb_Str y m' = Some ds" using len by (auto simp: sb_Str_def y_def m'_def mem_read_def sb_Remain_def)
  show "m_blocks m \<subseteq>\<^sub>m m_blocks m'" using ok by (auto simp: m'_def map_le_def mem_ok_def)
  show "dom (m_blocks m') = insert (m_next m) (dom (m_blocks m))" by (simp add: m'_def)
qed

definition sb_fine :: "statbuf \<Rightarrow> bool" where
  "sb_fine x \<longleftrightarrow> sb_ptr x \<le> sb_size x \<and> \<not> sb_solid x"

definition settled :: "statbuf \<Rightarrow> bool" where
  "settled x \<longleftrightarrow> sb_own x \<or> sb_Empty x"

lemma sb_bytes_le:
  assumes "sb_bytes xs m = Some bs" "m_blocks m \<subseteq>\<^sub>m m_blocks m'"
  shows "sb_bytes xs m' = Some bs"
  using assms
proof (induction xs arbitrary: bs)
  case (Cons x xs)
  then obtain ds cs where ds: "sb_Str x m = Some ds" and cs: "sb_bytes xs m = Some cs" "bs = ds @ cs"
    by (auto split: Option.bind_splits)
  have "sb_Str x m' = Some ds"
    using ds Cons.prems(2)
    by (auto simp: sb_Str_def mem_read_def map_le_def dom_def split: if_splits Option.bind_splits)
  with Cons cs show ?case by simp
qed simp

lemma solidify_spec:
  assumes "mem_ok m" "sb_bytes (take i xs) m = Some bs" "\<forall>x \<in> set xs. sb_fine x"
    "distinct (sb_blocks xs)" "set (sb_blocks xs) \<subseteq> dom (m_blocks m)"
  shows "\<exists>ys m'. bs_solidify xs i m = Some (ys, m') \<and> mem_ok m' \<and> m_blocks m \<subseteq>\<^sub>m m_blocks m'
    \<and> sb_bytes (take i ys) m' = Some bs \<and> (\<forall>y \<in> set ys. sb_fine y) \<and> (\<forall>y \<in> set (take i ys). settled y)
    \<and> length ys = length xs \<and> drop i ys = drop i xs \<and> map sb_Remain ys = map sb_Remain xs
    \<and> distinct (sb_blocks ys) \<and> dom (m_blocks m') = dom (m_blocks m) \<union> set (sb_blocks ys)
    \<and> set (sb_blocks ys) \<inter> dom (m_blocks m) = set (sb_blocks xs)"
  using assms
proof (induction xs arbitrary: i m bs)
  case (Cons x xs)
  show ?case
  proof (cases i)
    case 0
    with Cons.prems show ?thesis by auto
  next
    case (Suc j)
    with Cons.prems obtain ds cs where ds: "sb_Str x m = Some ds" and cs: "sb_bytes (take j xs) m = Some cs"
        and bs: "bs = ds @ cs" and fine: "\<forall>x \<in> set xs. sb_fine x" "sb_fine x"
      by (auto split: Option.bind_splits)
    have blocks: "distinct (sb_blocks xs)" "set (sb_blocks xs) \<subseteq> dom (m_blocks m)"
      using Cons.prems by auto
    show ?thesis
    proof (cases "settled x")
      case True
      with fine have no: "\<not> (\<not> sb_Empty x \<and> \<not> sb_Solided x)" by (auto simp: settled_def sb_Solided_def)
      obtain ys m' where IH: "bs_solidify xs j m = Some (ys, m')" "mem_ok m'" "m_blocks m \<subseteq>\<^sub>m m_blocks m'"
          "sb_bytes (take j ys) m' = Some cs" "\<forall>y \<in> set ys. sb_fine y" "\<forall>y \<in> set (take j ys). settled y"
          "length ys = length xs" "drop j ys = drop j xs" "map sb_Remain ys = map sb_Remain xs"
          "distinct (sb_blocks ys)" "dom (m_blocks m') = dom (m_blocks m) \<union> set (sb_blocks ys)"
          "set (sb_blocks ys) \<inter> dom (m_blocks m) = set (sb_blocks xs)"
        using Cons.IH [OF Cons.prems(1) cs fine(1) blocks] by blast
      have "bs_solidify (x # xs) i m = Some (x # ys, m')" using Suc no IH(1) by auto
      moreover have "sb_Str x m' = Some ds" using sb_bytes_le [of "[x]" m ds m'] ds IH(3) by (auto split: Option.bind_splits)
      moreover have in_m: "set (sb_block x) \<subseteq> dom (m_blocks m)" using Cons.prems(5) by (simp del: in_sb_block)
      moreover have "distinct (sb_block x)" "set (sb_block x) \<inter> set (sb_blocks xs) = {}"
        using Cons.prems(4) by (simp_all del: in_sb_block)
      moreover have "set (sb_block x) \<inter> set (sb_blocks ys) = {}"
        using IH(12) in_m calculation(5) by blast
      moreover have "dom (m_blocks m') = dom (m_blocks m) \<union> (set (sb_block x) \<union> set (sb_blocks ys))"
        using IH(11) in_m by blast
      moreover have "(set (sb_block x) \<union> set (sb_blocks ys)) \<inter> dom (m_blocks m) = set (sb_block x) \<union> set (sb_blocks xs)"
        using IH(12) in_m by blast
      ultimately show ?thesis
        using IH(2-10) True fine(2) Suc bs
        by (intro exI [of _ "x # ys"] exI [of _ m']) (simp del: in_sb_block)
    next
      case False
      define y where "y = \<lparr>sb_base = Some (m_next m), sb_size = sb_Remain x, sb_own = True, sb_solid = False, sb_ptr = 0\<rparr>"
      define m1 where "m1 = m\<lparr>m_blocks := (m_blocks m)(m_next m \<mapsto> ds), m_next := Suc (m_next m)\<rparr>"
      note one = solid_one [OF Cons.prems(1) ds, folded y_def m1_def]
      have "\<not> sb_Solided x" "\<not> sb_Empty x" using False fine by (auto simp: settled_def sb_Solided_def sb_fine_def)
      have cs1: "sb_bytes (take j xs) m1 = Some cs" using cs one(4) by (rule sb_bytes_le)
      have "set (sb_blocks xs) \<subseteq> dom (m_blocks m1)" using blocks(2) one(5) by auto
      then obtain ys m' where IH: "bs_solidify xs j m1 = Some (ys, m')" "mem_ok m'" "m_blocks m1 \<subseteq>\<^sub>m m_blocks m'"
          "sb_bytes (take j ys) m' = Some cs" "\<forall>y \<in> set ys. sb_fine y" "\<forall>y \<in> set (take j ys). settled y"
          "length ys = length xs" "drop j ys = drop j xs" "map sb_Remain ys = map sb_Remain xs"
          "distinct (sb_blocks ys)" "dom (m_blocks m') = dom (m_blocks m1) \<union> set (sb_blocks ys)"
          "set (sb_blocks ys) \<inter> dom (m_blocks m1) = set (sb_blocks xs)"
        using Cons.IH [OF one(2) cs1 fine(1) blocks(1)] by blast
      have "bs_solidify (x # xs) i m = Some (y # ys, m')"
        using Suc one(1) IH(1) \<open>\<not> sb_Solided x\<close> \<open>\<not> sb_Empty x\<close> by simp
      moreover have "sb_Str y m' = Some ds"
        using sb_bytes_le [of "[y]" m1 ds m'] one(3) IH(3) by (auto split: Option.bind_splits)
      moreover have "sb_block y = [m_next m]" "sb_block x = []" using False
        by (simp_all add: y_def sb_block_def settled_def)
      moreover have new: "m_next m \<notin> dom (m_blocks m)" using Cons.prems(1) by (simp add: domIff)
      moreover have "m_next m \<notin> set (sb_blocks ys)" using IH(12) one(5) blocks(2) new by auto
      moreover have "sb_Remain y = sb_Remain x" "sb_fine y" "settled y"
        by (simp_all add: y_def sb_Remain_def sb_fine_def settled_def)
      moreover have "m_blocks m \<subseteq>\<^sub>m m_blocks m'" using one(4) IH(3) by (rule map_le_trans)
      moreover have "insert (m_next m) (set (sb_blocks ys)) \<inter> dom (m_blocks m) = set (sb_blocks xs)"
        using IH(12) one(5) new blocks(2) by auto
      moreover have "dom (m_blocks m') = dom (m_blocks m) \<union> insert (m_next m) (set (sb_blocks ys))"
        using IH(11) one(5) by auto
      ultimately show ?thesis
        using IH(2,4-10) Suc bs by (intro exI [of _ "y # ys"] exI [of _ m']) (simp add: Int_commute)
    qed
  qed
qed auto

end
