(* ===== verification/Cmd.thy ===== *)
theory Cmd
  imports BufferSeq Sldb
begin

unbundle bit_operations_syntax

text \<open>
  The command object of the proxy, \<open>bis/src/proxy/cmd.h\<close> and \<open>cmd.cpp\<close>: parsing a client
  package and serialising a reply. A package is a head of eight bytes in network order (its
  length, the command, a check sum; \<open>proto/msg_head.h\<close>) and the data. The string
  \<open>strAppData_\<close> is a block of the memory: assigning to it invalidates what \<open>c_str ()\<close>
  answered before, so the old block is deleted.
\<close>

section \<open>State\<close>

definition sizeof_MsgHead :: nat where "sizeof_MsgHead = 8"
definition MAX_CMD_LEN :: "32 word" where "MAX_CMD_LEN = 4096 * 8"

record cmd =
  uCmdId :: "16 word"
  uCheck :: "16 word"
  uMsgIdx :: "32 word"
  strAppData :: nat

text \<open>The string in a block.\<close>

definition str_get :: "nat \<Rightarrow> mem \<Rightarrow> byte list option" where
  "str_get b m = m_blocks m b"

definition str_assign :: "nat \<Rightarrow> byte list \<Rightarrow> mem \<Rightarrow> (nat \<times> mem) option" where
  "str_assign b ds m = do { m \<leftarrow> mem_delete (Some b) m; Some (mem_alloc ds m) }"

definition cmd_new :: "mem \<Rightarrow> cmd \<times> mem" where
  "cmd_new m = (let (b, m) = mem_alloc [] m in (\<lparr>uCmdId = 0, uCheck = 0, uMsgIdx = 0, strAppData = b\<rparr>, m))"

definition cmd_set_app_data :: "byte list \<Rightarrow> cmd \<Rightarrow> mem \<Rightarrow> (cmd \<times> mem) option" where
  "cmd_set_app_data ds c m = do { (b, m) \<leftarrow> str_assign (strAppData c) ds m; Some (c\<lparr>strAppData := b\<rparr>, m) }"

definition cmd_get_app_data :: "cmd \<Rightarrow> mem \<Rightarrow> byte list option" where
  "cmd_get_app_data c m = str_get (strAppData c) m"

definition cmd_set_cmd_id :: "16 word \<Rightarrow> cmd \<Rightarrow> cmd" where "cmd_set_cmd_id i c = c\<lparr>uCmdId := i\<rparr>"
definition cmd_set_check :: "16 word \<Rightarrow> cmd \<Rightarrow> cmd" where "cmd_set_check i c = c\<lparr>uCheck := i\<rparr>"
definition cmd_set_msg_idx :: "32 word \<Rightarrow> cmd \<Rightarrow> cmd" where "cmd_set_msg_idx i c = c\<lparr>uMsgIdx := i\<rparr>"
definition cmd_get_cmd_id :: "cmd \<Rightarrow> 32 word" where "cmd_get_cmd_id c = ucast (uCmdId c)"
definition cmd_get_check :: "cmd \<Rightarrow> 32 word" where "cmd_get_check c = ucast (uCheck c)"
definition cmd_get_msg_idx :: "cmd \<Rightarrow> 32 word" where "cmd_get_msg_idx c = uMsgIdx c"

definition cmd_Clear :: "cmd \<Rightarrow> mem \<Rightarrow> (cmd \<times> mem) option" where
  "cmd_Clear c m = do {
     (b, m) \<leftarrow> str_assign (strAppData c) [] m;
     Some (\<lparr>uCmdId = 0, uCheck = 0, uMsgIdx = 0, strAppData = b\<rparr>, m)
   }"

section \<open>Parsing\<close>

definition net16_bytes :: "16 word \<Rightarrow> byte list" where
  "net16_bytes w = [ucast (drop_bit 8 w), ucast w]"

definition net16_word :: "byte list \<Rightarrow> 16 word" where
  "net16_word bs = push_bit 8 (ucast (bs ! 0)) OR ucast (bs ! 1)"

text \<open>The argument is the received data; the answer is the number of bytes of the package, 0
  when it is not complete and -1 when it is too long.\<close>

definition cmd_Parse :: "byte list \<Rightarrow> cmd \<Rightarrow> mem \<Rightarrow> (int \<times> cmd \<times> mem) option" where
  "cmd_Parse buf c m =
     (if length buf < sizeof_MsgHead then Some (0, c, m)
      else let uiPkgLen = net_word (take 4 buf) in
        if uiPkgLen > MAX_CMD_LEN then Some (-1, c, m)
        else if unat uiPkgLen < sizeof_MsgHead then Some (0, c, m)
        else if unat uiPkgLen > length buf then Some (0, c, m)
        else do {
          let c = c\<lparr>uCmdId := net16_word (take 2 (drop 4 buf)), uCheck := net16_word (take 2 (drop 6 buf))\<rparr>;
          (c, m) \<leftarrow> cmd_set_app_data (take (unat uiPkgLen - sizeof_MsgHead) (drop sizeof_MsgHead buf)) c m;
          Some (uint uiPkgLen, c, m)
        })"

section \<open>Serialising\<close>

definition msg_head :: "32 word \<Rightarrow> 16 word \<Rightarrow> 16 word \<Rightarrow> byte list" where
  "msg_head msg_len cmd_id check = net_bytes msg_len @ net16_bytes cmd_id @ net16_bytes check"

text \<open>Into a string: with the check sum that was set.\<close>

definition cmd_Serialize_str :: "cmd \<Rightarrow> mem \<Rightarrow> byte list option" where
  "cmd_Serialize_str c m = do {
     ds \<leftarrow> str_get (strAppData c) m;
     Some (msg_head (of_nat (sizeof_MsgHead + length ds)) (uCmdId c) (uCheck c) @ ds)
   }"

text \<open>Into a sequence of buffers: the head in a dynamic buffer, the data where it is. The check
  sum is written into the head after the sequence has taken it over.\<close>

definition cmd_Serialize_bs :: "cmd \<Rightarrow> bufseq \<Rightarrow> mem \<Rightarrow> (string + bool \<times> bufseq \<times> mem) option" where
  "cmd_Serialize_bs c bs m = do {
     ((p, off), db1, m) \<leftarrow> dyn_Borrow sizeof_MsgHead False dyn_new m;
     if p = None then do { m \<leftarrow> dyn_destroy db1 m; Some (Inr (False, bs, m)) }
     else do {
       m \<leftarrow> mem_write p off (replicate sizeof_MsgHead 0) m;
       m \<leftarrow> mem_write p (off + 4) (net16_bytes (uCmdId c)) m;
       ds \<leftarrow> str_get (strAppData c) m;
       m \<leftarrow> mem_write p off (net_bytes (of_nat (sizeof_MsgHead + length ds))) m;
       let (_, db1) = dyn_Advance sizeof_MsgHead db1;
       r \<leftarrow> bs_add_dyn bs db1 m;
       (case r of
          Inl e \<Rightarrow> Some (Inl e)
        | Inr (bs, db1, m) \<Rightarrow> do {
            r \<leftarrow> bs_add bs (sb_on (Some (strAppData c)) (length ds) False) m;
            (case r of
               Inl e \<Rightarrow> Some (Inl e)
             | Inr (bs, sb2, m) \<Rightarrow> do {
                 check \<leftarrow> bs_CheckSum bs m;
                 m \<leftarrow> mem_write p (off + 6) (net16_bytes check) m;
                 m \<leftarrow> sb_destroy sb2 m;
                 m \<leftarrow> dyn_destroy db1 m;
                 Some (Inr (True, bs, m))
               })
          })
     }
   }"

text \<open>Into a buffer of \<open>uiDataLen\<close> bytes. The check sum is taken over what is in the buffer,
  the check field included.\<close>

definition cmd_Serialize_buf :: "cmd \<Rightarrow> nat option \<Rightarrow> nat \<Rightarrow> nat \<Rightarrow> mem \<Rightarrow> (bool \<times> mem) option" where
  "cmd_Serialize_buf c p off uiDataLen m = do {
     ds \<leftarrow> str_get (strAppData c) m;
     let uiPkgLen = (of_nat (sizeof_MsgHead + length ds) :: 32 word);
     if p = None \<or> uiDataLen < unat uiPkgLen then Some (False, m)
     else do {
       m \<leftarrow> mem_write p (off + 4) (net16_bytes (uCmdId c)) m;
       m \<leftarrow> mem_write p off (net_bytes uiPkgLen) m;
       m \<leftarrow> mem_write p (off + sizeof_MsgHead) ds m;
       buf \<leftarrow> mem_read p off (unat uiPkgLen) m;
       m \<leftarrow> mem_write p (off + 6) (net16_bytes (CStr_CheckSum buf)) m;
       Some (True, m)
     }
   }"

section \<open>What is sent\<close>

text \<open>The bytes of a package whose check sum is taken with a zero check field.\<close>

definition cmd_wire :: "16 word \<Rightarrow> byte list \<Rightarrow> byte list" where
  "cmd_wire i ds = msg_head (of_nat (sizeof_MsgHead + length ds)) i
     (CStr_CheckSum (msg_head (of_nat (sizeof_MsgHead + length ds)) i 0 @ ds)) @ ds"

lemma net16_roundtrip [simp]: "net16_word (net16_bytes w) = w"
  by (rule bit_word_eqI) (auto simp: net16_word_def net16_bytes_def bit_simps)

lemma length_net16 [simp]: "length (net16_bytes w) = 2"
  by (simp add: net16_bytes_def)

declare length_net_bytes [simp] net_word_bytes [simp]

lemma length_msg_head [simp]: "length (msg_head l i c) = 8"
  by (simp add: msg_head_def)

lemma msg_head_fields:
  "take 4 (msg_head l i c) = net_bytes l" "take 2 (drop 4 (msg_head l i c)) = net16_bytes i"
  "take 2 (drop 6 (msg_head l i c)) = net16_bytes c"
  by (simp_all add: msg_head_def net_bytes_def net16_bytes_def)

lemma Parse_package:
  assumes len: "8 + length ds \<le> 4096 * 8" and live: "m_blocks m (strAppData c) = Some old"
  shows "cmd_Parse (msg_head (of_nat (sizeof_MsgHead + length ds)) i ch @ ds @ rest) c m =
    do { (c, m) \<leftarrow> cmd_set_app_data ds (c\<lparr>uCmdId := i, uCheck := ch\<rparr>) m; Some (8 + int (length ds), c, m) }"
proof -
  define l where "l = (of_nat (sizeof_MsgHead + length ds) :: 32 word)"
  have l: "unat l = 8 + length ds" unfolding l_def
    by (rule trans [OF unat_of_nat_small]) (use len in \<open>simp_all add: sizeof_MsgHead_def\<close>)
  then have i: "uint l = 8 + int (length ds)" by (metis of_nat_add of_nat_numeral uint_nat)
  have "\<not> l > MAX_CMD_LEN"
    using len by (simp add: word_less_nat_alt l MAX_CMD_LEN_def)
  then show ?thesis unfolding l_def [symmetric]
    using l i by (simp add: cmd_Parse_def msg_head_fields sizeof_MsgHead_def Let_def)
qed

lemma Borrow_new:
  "dyn_Borrow sizeof_MsgHead False dyn_new m = Some ((Some (m_next m), 0),
     \<lparr>dyn_base = Some (m_next m), dyn_capacity = SMALL_BUFF_SIZE, dyn_own = True, dyn_ptr = 0, dyn_offset = 0\<rparr>,
     m\<lparr>m_blocks := (m_blocks m)(m_next m \<mapsto> replicate SMALL_BUFF_SIZE 0), m_next := Suc (m_next m)\<rparr>)"
proof -
  have "12 < SMALL_BUFF_SIZE" by (simp add: SMALL_BUFF_SIZE_def)
  then show ?thesis
    by (simp add: dyn_Borrow_def dyn_EnsureRemain_def dyn_new_def dyn_Remain_def dyn_Size_def dyn_Grow_def
        sizeof_MsgHead_def mem_new_def mem_alloc_def mem_write_def)
qed

lemma write_head:
  assumes "m_blocks m b = Some (h @ R)" "length h = 8" "off + length ds \<le> 8" "ds \<noteq> []"
  shows "mem_write (Some b) off ds m
    = Some (m\<lparr>m_blocks := (m_blocks m)(b \<mapsto> (take off h @ ds @ drop (off + length ds) h) @ R)\<rparr>)"
  using assms by (simp add: mem_write_def)

text \<open>The sequence that a reply with the string in block \<open>b\<close> of length \<open>n\<close> becomes, its head in
  block \<open>k\<close>.\<close>

definition reply_bufs :: "nat \<Rightarrow> nat \<Rightarrow> nat \<Rightarrow> nat \<Rightarrow> bufseq" where
  "reply_bufs M k b n = \<lparr>m_buffers = [\<lparr>sb_base = Some k, sb_size = 8, sb_own = True, sb_solid = False, sb_ptr = 0\<rparr>,
       \<lparr>sb_base = Some b, sb_size = n, sb_own = False, sb_solid = False, sb_ptr = 0\<rparr>] @ replicate (M - 2) sb_new,
     m_count = 2, m_total_size = 8 + n\<rparr>"

lemma reply_bufs_ok: "bs_ok (reply_bufs M k b n)"
  by (auto simp: bs_ok_def reply_bufs_def sb_Remain_def sb_new_def sum_list_replicate)

lemma reply_bytes:
  assumes "m_blocks m k = Some (h @ R)" "length h = 8" "m_blocks m b = Some ds" "n = length ds"
  shows "bs_bytes (reply_bufs M k b n) m = Some (h @ ds)"
  using assms by (simp add: bs_bytes_def reply_bufs_def sb_Str_def sb_Remain_def mem_read_def)

lemma Serialize_bs_result:
  assumes ok: "mem_ok m" and ds: "m_blocks m (strAppData c) = Some ds" and M: "2 \<le> M"
  shows "\<exists>m' R. cmd_Serialize_bs c (bs_new M) m
      = Some (Inr (True, reply_bufs M (m_next m) (strAppData c) (length ds), m'))
    \<and> m_blocks m' = (m_blocks m)(m_next m \<mapsto> take 8 (cmd_wire (uCmdId c) ds) @ R) \<and> m_next m' = Suc (m_next m)"
proof -
  let ?k = "m_next m" and ?b = "strAppData c" and ?i = "uCmdId c"
  define l where "l = (of_nat (sizeof_MsgHead + length ds) :: 32 word)"
  define R where "R = drop 8 (replicate SMALL_BUFF_SIZE (0 :: byte))"
  define at where "at h = m\<lparr>m_blocks := (m_blocks m)(?k \<mapsto> h @ R), m_next := Suc ?k\<rparr>" for h
  have S: "8 \<le> SMALL_BUFF_SIZE" by (simp add: SMALL_BUFF_SIZE_def)
  have kb: "?k \<noteq> ?b" using ok ds by (auto dest: mem_okD)
  have at_b: "m_blocks (at h) ?b = Some ds" for h using kb ds by (simp add: at_def)
  have w: "mem_write (Some ?k) off xs (at h) = Some (at (take off h @ xs @ drop (off + length xs) h))"
    if "length h = 8" "off + length xs \<le> 8" "xs \<noteq> []" for off xs h
    using that by (subst write_head [where h = h and R = R]) (simp_all add: at_def)
  have "replicate SMALL_BUFF_SIZE (0 :: byte) = replicate 8 0 @ R"
    using S by (simp add: R_def replicate_add [symmetric])
  then have m0: "m\<lparr>m_blocks := (m_blocks m)(?k \<mapsto> replicate SMALL_BUFF_SIZE 0), m_next := Suc ?k\<rparr> = at (replicate 8 0)"
    by (simp add: at_def)
  define h1 where "h1 = replicate 4 (0 :: byte) @ net16_bytes ?i @ replicate 2 0"
  define h2 where "h2 = msg_head l ?i 0"
  define h3 where "h3 = msg_head l ?i (CStr_CheckSum (h2 @ ds))"
  have eights: "replicate 8 (0 :: byte) = [0, 0, 0, 0, 0, 0, 0, 0]" by (simp add: numeral_eq_Suc)
  have w0: "mem_write (Some ?k) 0 (replicate sizeof_MsgHead 0) (at (replicate 8 0)) = Some (at (replicate 8 0))"
    by (subst w) (simp_all add: sizeof_MsgHead_def)
  have w1: "mem_write (Some ?k) 4 (net16_bytes ?i) (at (replicate 8 0)) = Some (at h1)"
    by (subst w) (simp_all add: h1_def eights net16_bytes_def numeral_eq_Suc)
  have w2: "mem_write (Some ?k) 0 (net_bytes l) (at h1) = Some (at h2)"
    by (subst w) (simp_all add: h1_def h2_def msg_head_def net16_bytes_def net_bytes_def numeral_eq_Suc)
  have w3: "mem_write (Some ?k) 6 (net16_bytes x) (at h2) = Some (at (msg_head l ?i x))" for x
    by (subst w) (simp_all add: h2_def msg_head_def net16_bytes_def net_bytes_def numeral_eq_Suc)
  let ?s1 = "\<lparr>m_buffers = \<lparr>sb_base = Some ?k, sb_size = 8, sb_own = True, sb_solid = False, sb_ptr = 0\<rparr>
      # replicate (M - Suc 0) sb_new, m_count = Suc 0, m_total_size = 8\<rparr>"
  obtain N where N: "M = Suc (Suc N)" using M by (metis add_2_eq_Suc le_Suc_ex)
  have add1: "bs_add_dyn (bs_new M) \<lparr>dyn_base = Some ?k, dyn_capacity = SMALL_BUFF_SIZE, dyn_own = True, dyn_ptr = 8, dyn_offset = 0\<rparr> (at h2)
      = Some (Inr (?s1, \<lparr>dyn_base = None, dyn_capacity = 0, dyn_own = True, dyn_ptr = 0, dyn_offset = 0\<rparr>, at h2))"
    using N by (simp add: bs_add_dyn_def bs_new_def sb_of_dyn_def dyn_Free_def dyn_Size_def sb_assign_def sb_new_def
        sb_destroy_def sb_Remain_def Let_def)
  have add2: "bs_add ?s1 (sb_on (Some ?b) (length ds) False) (at h2)
      = Some (Inr (reply_bufs M ?k ?b (length ds), sb_on (Some ?b) (length ds) False, at h2))"
    using N by (simp add: bs_add_def sb_assign_def sb_on_def sb_new_def sb_Remain_def reply_bufs_def Let_def)
  have "bs_bytes (reply_bufs M ?k ?b (length ds)) (at h2) = Some (h2 @ ds)"
    using at_b by (intro reply_bytes [where R = R]) (simp_all add: at_def h2_def)
  then have check: "bs_CheckSum (reply_bufs M ?k ?b (length ds)) (at h2) = Some (CStr_CheckSum (h2 @ ds))"
    by (rule CheckSum_bytes [OF reply_bufs_ok])
  have adv: "dyn_Advance sizeof_MsgHead \<lparr>dyn_base = Some ?k, dyn_capacity = SMALL_BUFF_SIZE, dyn_own = True, dyn_ptr = 0, dyn_offset = 0\<rparr>
      = (True, \<lparr>dyn_base = Some ?k, dyn_capacity = SMALL_BUFF_SIZE, dyn_own = True, dyn_ptr = 8, dyn_offset = 0\<rparr>)"
    using S by (simp add: dyn_Advance_def dyn_Remain_def sizeof_MsgHead_def)
  have on: "\<not> sb_own (sb_on q n False)" for q n by (simp add: sb_on_def)
  have "cmd_Serialize_bs c (bs_new M) m = Some (Inr (True, reply_bufs M ?k ?b (length ds), at h3))"
    by (simp add: cmd_Serialize_bs_def Borrow_new m0 w0 w1 str_get_def at_b l_def [symmetric] w2 w3 adv add1 add2 check
        h3_def sb_destroy_def dyn_destroy_def on Let_def del: of_nat_add)
  moreover have "take 8 (cmd_wire ?i ds) = h3" by (simp add: cmd_wire_def h3_def h2_def l_def)
  ultimately show ?thesis by (intro exI [of _ "at h3"] exI [of _ R]) (simp add: at_def)
qed

section \<open>Properties\<close>

text \<open>C18. A command serialised into a sequence of buffers, sent and received in front of any
  other bytes, is parsed back: its id, its data and its length, with the check sum that
  \<open>CStrTool::CheckSum\<close> gives for the whole package with a zero check field, although it is
  computed over the pieces.\<close>

theorem cmd_serialize_parse_roundtrip:
  assumes "mem_ok m" "m_blocks m (strAppData c) = Some ds" "8 + length ds \<le> 4096 * 8"
    "m_blocks m (strAppData c') = Some old"
  shows "\<exists>s m1 wire b m2. cmd_Serialize_bs c (bs_new 3) m = Some (Inr (True, s, m1))
    \<and> bs_bytes s m1 = Some wire \<and> drop 8 wire = ds
    \<and> cmd_Parse (wire @ rest) c' m1 = Some (int (length wire),
        c'\<lparr>uCmdId := uCmdId c, uCheck := CStr_CheckSum (take 6 wire @ [0, 0] @ ds), strAppData := b\<rparr>, m2)
    \<and> m_blocks m2 b = Some ds"
proof -
  let ?k = "m_next m" and ?l = "of_nat (sizeof_MsgHead + length ds) :: 32 word"
  let ?h = "msg_head ?l (uCmdId c) 0" and ?wire = "cmd_wire (uCmdId c) ds"
  obtain m1 R where ser: "cmd_Serialize_bs c (bs_new 3) m = Some (Inr (True, reply_bufs 3 ?k (strAppData c) (length ds), m1))"
      "m_blocks m1 = (m_blocks m)(?k \<mapsto> take 8 ?wire @ R)" "m_next m1 = Suc ?k"
    using Serialize_bs_result [OF assms(1,2), of 3] by auto
  have ne: "strAppData c \<noteq> ?k" "strAppData c' \<noteq> ?k" using assms(1,2,4) by auto
  have wire: "?wire = take 8 ?wire @ ds" by (simp add: cmd_wire_def)
  have "bs_bytes (reply_bufs 3 ?k (strAppData c) (length ds)) m1 = Some (take 8 ?wire @ ds)"
    by (rule reply_bytes [where R = R]) (use ser(2) ne assms(2) in \<open>simp_all add: cmd_wire_def\<close>)
  then have bytes: "bs_bytes (reply_bufs 3 ?k (strAppData c) (length ds)) m1 = Some ?wire" using wire by simp
  have live: "m_blocks m1 (strAppData c') = Some old" using ser(2) ne assms(4) by simp
  define ch where "ch = CStr_CheckSum (?h @ ds)"
  have w: "?wire = msg_head ?l (uCmdId c) ch @ ds" by (simp add: cmd_wire_def ch_def)
  have "take 6 (msg_head ?l (uCmdId c) x) = net_bytes ?l @ net16_bytes (uCmdId c)" for x
    by (simp add: msg_head_def net_bytes_def net16_bytes_def)
  then have ch: "ch = CStr_CheckSum (take 6 ?wire @ [0, 0] @ ds)"
    unfolding w by (simp add: ch_def msg_head_def net16_bytes_def)
  define m2 where "m2 = snd (mem_alloc ds (m1\<lparr>m_blocks := (m_blocks m1)(strAppData c' := None)\<rparr>))"
  have set: "cmd_set_app_data ds (c'\<lparr>uCmdId := uCmdId c, uCheck := ch\<rparr>) m1
      = Some (c'\<lparr>uCmdId := uCmdId c, uCheck := ch, strAppData := m_next m1\<rparr>, m2)"
    using live by (simp add: cmd_set_app_data_def str_assign_def mem_alloc_def m2_def)
  have "cmd_Parse (?wire @ rest) c' m1 = Some (int (length ?wire), c'\<lparr>uCmdId := uCmdId c, uCheck := ch, strAppData := m_next m1\<rparr>, m2)"
    unfolding w using Parse_package [OF assms(3) live, of "uCmdId c" ch rest] set by simp
  moreover have "m_blocks m2 (m_next m1) = Some ds" by (simp add: m2_def mem_alloc_def)
  moreover have "drop 8 ?wire = ds" by (simp add: cmd_wire_def)
  ultimately show ?thesis using ser(1) bytes unfolding ch by blast
qed

definition sample_cmd :: cmd where
  "sample_cmd = \<lparr>uCmdId = 0x1004, uCheck = 0, uMsgIdx = 0, strAppData = 0\<rparr>"

definition sample_mem :: mem where
  "sample_mem = \<lparr>m_blocks = [0 \<mapsto> [1, 2, 3]], m_next = 1\<rparr>"

theorem cmd_serialize_parse_roundtrip_witness:
  "\<exists>s m1 wire b m2. cmd_Serialize_bs sample_cmd (bs_new 3) sample_mem = Some (Inr (True, s, m1))
    \<and> bs_bytes s m1 = Some wire \<and> drop 8 wire = [1, 2, 3]
    \<and> cmd_Parse (wire @ [9]) sample_cmd m1 = Some (int (length wire),
        sample_cmd\<lparr>uCmdId := 0x1004, uCheck := CStr_CheckSum (take 6 wire @ [0, 0, 1, 2, 3]), strAppData := b\<rparr>, m2)
    \<and> m_blocks m2 b = Some [1, 2, 3]"
proof -
  have "mem_ok sample_mem" "m_blocks sample_mem (strAppData sample_cmd) = Some [1, 2, 3]" "uCmdId sample_cmd = 0x1004"
    "8 + length [1, 2, 3 :: byte] \<le> 4096 * 8"
    by (simp_all add: sample_mem_def sample_cmd_def mem_ok_def)
  with cmd_serialize_parse_roundtrip [of sample_mem sample_cmd "[1, 2, 3]" sample_cmd "[1, 2, 3]" "[9]"]
  show ?thesis by simp
qed

end
