(* ===== verification/Client.thy ===== *)
theory Client
  imports ClientSocketSpec Cmd Server ServerConfig
begin

text \<open>
  The command line client, \<open>bis/src/client/main.cpp\<close>: reading a line, splitting it into words
  (\<open>CStrTool::SplitStringUsing\<close> of \<open>pet_util.cpp\<close>), building the request, and exchanging it for a
  response over the connection of \<open>ClientSocket\<close>. The generated serialisers and parsers and \<open>stod\<close>
  are parameters; \<open>None\<close> is undefined behaviour or a call that does not return.
\<close>

section \<open>Requests\<close>

datatype cli_req =
    SetBatchReq string "mem_data list"
  | GetScoreBatchReq string "string list"
  | RankBatchReq string "string list"
  | RangeReq string "64 word" "64 word"
  | RangeByScoreReq string "64 word" "64 word"
  | TopReq string "64 word"

text \<open>The parser is the one of the response to the command; \<open>stod\<close> answers \<open>None\<close> when it throws.\<close>

record cli_codec =
  cc_ser :: "cli_req \<Rightarrow> byte list"
  cc_parse :: "int \<Rightarrow> byte list \<Rightarrow> srv_rsp option"
  cc_stod :: "string \<Rightarrow> real option"
  cc_env :: cenv

abbreviation (input) MAX_BUFF_LEN :: nat where "MAX_BUFF_LEN \<equiv> 1024 * 1000"

text \<open>What is printed.\<close>

datatype cli_out = OutArgs | OutRsp "srv_rsp option" | OutHelp | OutUnknown | OutWrong | OutInvalid int

record client =
  cl_tcp :: tcp_client
  cl_sendBuff :: "byte list"
  cl_rvBuf :: "byte list"
  cl_net :: cnet
  cl_out :: "cli_out list"

definition cl_new :: "cnet \<Rightarrow> client" where
  "cl_new n = \<lparr>cl_tcp = tc_new, cl_sendBuff = replicate MAX_BUFF_LEN 0, cl_rvBuf = replicate MAX_BUFF_LEN 0, cl_net = n, cl_out = []\<rparr>"

definition cl_print :: "cli_out \<Rightarrow> client \<Rightarrow> client" where
  "cl_print t s = s\<lparr>cl_out := cl_out s @ [t]\<rparr>"

definition cl_InitClinetConn :: "cli_codec \<Rightarrow> string \<Rightarrow> string \<Rightarrow> client \<Rightarrow> (int \<times> client) option" where
  "cl_InitClinetConn pc ip port s = do {
     p \<leftarrow> c_atoi port;
     (r, c, n) \<leftarrow> tc_init (cc_env pc) ip (of_int p) kRwTimeout kConnectTimeout (cl_tcp s) (cl_net s);
     let s = s\<lparr>cl_tcp := c, cl_net := n\<rparr>;
     if r < 0 then Some (-1, s)
     else Some (0, s\<lparr>cl_tcp := c\<lparr>tc_rw_timeout := 500\<rparr>\<rparr>)
   }"

text \<open>One exchange. The command is sixteen bit wide; the head's check sum is not set. The answer comes with
  the response object that was parsed.\<close>

definition cl_send_and_recv :: "cli_codec \<Rightarrow> int \<Rightarrow> cli_req \<Rightarrow> client \<Rightarrow> (int \<times> srv_rsp option \<times> client) option" where
  "cl_send_and_recv pc cmd req s = do {
     let str_req = cc_ser pc req;
     let size = sizeof_MsgHead + length str_req;
     buf \<leftarrow> buf_put (cl_sendBuff s) 4 (net16_bytes (of_int cmd));
     buf \<leftarrow> buf_put buf 0 (net_bytes (of_nat size));
     buf \<leftarrow> buf_put buf sizeof_MsgHead str_req;
     let s = s\<lparr>cl_sendBuff := buf\<rparr>;
     s \<leftarrow> (if tc_check_connect (cl_tcp s) < 0 then do {
             (_, c, n) \<leftarrow> tc_reconnect (cc_env pc) (cl_tcp s) (cl_net s);
             Some (s\<lparr>cl_tcp := c, cl_net := n\<rparr>)
           } else Some s);
     (r, (rvBuf, rv), c, n) \<leftarrow> tc_send_and_recv (cc_env pc) buf size (cl_rvBuf s) MAX_BUFF_LEN (cl_tcp s) (cl_net s);
     let s = s\<lparr>cl_rvBuf := rvBuf, cl_tcp := c, cl_net := n\<rparr>;
     if r < 0 then Some (-1, None, s)
     else do {
       let data_len = (if rv > sizeof_MsgHead then net_word (take 4 rvBuf) - of_nat sizeof_MsgHead else 0);
       if rv > sizeof_MsgHead \<and> unat data_len > rv then Some (-1, None, cl_print (OutInvalid (sint data_len)) s)
       else if sizeof_MsgHead + unat data_len > length rvBuf then None
       else (case cc_parse pc cmd (take (unat data_len) (drop sizeof_MsgHead rvBuf)) of
               None \<Rightarrow> Some (-1, None, s)
             | Some rsp \<Rightarrow> Some (0, Some rsp, s))
     }
   }"

section \<open>Words\<close>

text \<open>Splitting at one character, at most \<open>k\<close> times.\<close>

fun split_char :: "char \<Rightarrow> nat \<Rightarrow> string \<Rightarrow> string \<Rightarrow> string list" where
  "split_char d k start [] = [start]"
| "split_char d k start (c # cs) =
     (if c = d then (if k \<le> 1 then [start, cs] else start # split_char d (k - 1) [] cs)
      else split_char d k (start @ [c]) cs)"

definition SplitStringUsing :: "string \<Rightarrow> char \<Rightarrow> int \<Rightarrow> string list" where
  "SplitStringUsing full d max_times =
     (let max_times = (if max_times \<le> 0 then 2 ^ 31 - 1 else max_times)
      in if full = [] then [full] else split_char d (nat max_times) [] full)"

definition DelSpaceStr :: "string list \<Rightarrow> string list" where
  "DelSpaceStr strs = filter (\<lambda>s. s \<noteq> []) strs"

text \<open>\<open>None\<close>: an exception.\<close>

definition c_number :: "string \<Rightarrow> int option" where
  "c_number s = (case dropWhile is_space s of
      [] \<Rightarrow> None
    | c # cs \<Rightarrow> let ds = (if c = CHR ''-'' \<or> c = CHR ''+'' then cs else c # cs) in
        if ds \<noteq> [] \<and> is_digit (hd ds) then Some (read_int 10 s) else None)"

definition c_stoull :: "string \<Rightarrow> 64 word option" where
  "c_stoull s = (case c_number s of None \<Rightarrow> None | Some n \<Rightarrow> if 2 ^ 64 \<le> \<bar>n\<bar> then None else Some (of_int n))"

definition c_stoi :: "string \<Rightarrow> int option" where
  "c_stoi s = (case c_number s of None \<Rightarrow> None | Some n \<Rightarrow> if - (2 ^ 31) \<le> n \<and> n < 2 ^ 31 then Some n else None)"

section \<open>Commands\<close>

text \<open>A command returns or throws.\<close>

datatype cli_ret = Threw | Ret int

definition cl_exchange :: "cli_codec \<Rightarrow> int \<Rightarrow> cli_req \<Rightarrow> client \<Rightarrow> (cli_ret \<times> client) option" where
  "cl_exchange pc cmd req s = do { (_, rsp, s) \<leftarrow> cl_send_and_recv pc cmd req s; Some (Ret 0, cl_print (OutRsp rsp) s) }"

fun set_items :: "(string \<Rightarrow> real option) \<Rightarrow> string list \<Rightarrow> mem_data list option" where
  "set_items stod (sc # m # ws) = do { v \<leftarrow> stod sc; xs \<leftarrow> set_items stod ws; Some (\<lparr>md_score = v, md_data = m\<rparr> # xs) }"
| "set_items stod _ = Some []"

definition cl_bs_sets :: "cli_codec \<Rightarrow> string list \<Rightarrow> client \<Rightarrow> (cli_ret \<times> client) option" where
  "cl_bs_sets pc argv s =
     (if length argv \<le> 2 \<or> (length argv - 2) mod 2 \<noteq> 0 then Some (Ret (-1), cl_print OutArgs s)
      else (case set_items (cc_stod pc) (drop 2 argv) of
              None \<Rightarrow> Some (Threw, s)
            | Some xs \<Rightarrow> cl_exchange pc MSG_SET_BATCH_REQ (SetBatchReq (argv ! 1) xs) s))"

definition cl_bs_gets :: "cli_codec \<Rightarrow> string list \<Rightarrow> client \<Rightarrow> (cli_ret \<times> client) option" where
  "cl_bs_gets pc argv s =
     (if length argv \<le> 2 then Some (Ret (-1), cl_print OutArgs s)
      else cl_exchange pc MSG_GET_SCORE_BATCH_REQ (GetScoreBatchReq (argv ! 1) (drop 2 argv)) s)"

text \<open>There is no \<open>return\<close> behind the exchange.\<close>

definition cl_bs_ranks :: "cli_codec \<Rightarrow> string list \<Rightarrow> client \<Rightarrow> (cli_ret \<times> client) option" where
  "cl_bs_ranks pc argv s =
     (if length argv \<le> 2 then Some (Ret (-1), cl_print OutArgs s)
      else do { (_, s) \<leftarrow> cl_exchange pc MSG_RANK_BATCH_QUERY_REQ (RankBatchReq (argv ! 1) (drop 2 argv)) s; None })"

definition cl_bs_range :: "cli_codec \<Rightarrow> string list \<Rightarrow> client \<Rightarrow> (cli_ret \<times> client) option" where
  "cl_bs_range pc argv s =
     (if length argv \<noteq> 4 then Some (Ret (-1), cl_print OutArgs s)
      else (case (c_stoull (argv ! 2), c_stoull (argv ! 3)) of
              (Some mn, Some mx) \<Rightarrow> cl_exchange pc MSG_RANGE_QUERY_REQ (RangeReq (argv ! 1) mn mx) s
            | _ \<Rightarrow> Some (Threw, s)))"

definition cl_bs_rangebyscore :: "cli_codec \<Rightarrow> string list \<Rightarrow> client \<Rightarrow> (cli_ret \<times> client) option" where
  "cl_bs_rangebyscore pc argv s =
     (if length argv \<noteq> 4 then Some (Ret (-1), cl_print OutArgs s)
      else (case (c_stoull (argv ! 2), c_stoull (argv ! 3)) of
              (Some mn, Some mx) \<Rightarrow> cl_exchange pc MSG_RANGEBYSCORE_QUERY_REQ (RangeByScoreReq (argv ! 1) mn mx) s
            | _ \<Rightarrow> Some (Threw, s)))"

definition cl_bs_top :: "cli_codec \<Rightarrow> string list \<Rightarrow> client \<Rightarrow> (cli_ret \<times> client) option" where
  "cl_bs_top pc argv s =
     (if length argv \<noteq> 3 then Some (Ret (-1), cl_print OutArgs s)
      else (case c_stoull (argv ! 2) of
              None \<Rightarrow> Some (Threw, s)
            | Some n \<Rightarrow> cl_exchange pc MSG_TOP_QUERY_REQ (TopReq (argv ! 1) n) s))"

text \<open>The loop of \<open>test\<close> over the numbers it sends; a division by zero is undefined.\<close>

fun cl_test_loop :: "cli_codec \<Rightarrow> string list \<Rightarrow> nat \<Rightarrow> nat \<Rightarrow> string list \<Rightarrow> client \<Rightarrow> (cli_ret \<times> client) option" where
  "cl_test_loop pc argv 0 i vec s = Some (Ret 0, s)"
| "cl_test_loop pc argv (Suc k) i vec s =
     (let vec = vec @ [to_string (i + 1), to_string (i + 1)] in
      case c_stoi (argv ! 2) of
        None \<Rightarrow> Some (Threw, s)
      | Some per \<Rightarrow>
          if per = 0 then None
          else (case c_stoi (argv ! 3) of
              None \<Rightarrow> Some (Threw, s)
            | Some num \<Rightarrow>
                if num = 0 then None
                else if int (i + 1) mod num = 0 then do {
                  (r, s) \<leftarrow> cl_bs_sets pc vec s;
                  if r = Threw then Some (Threw, s)
                  else cl_test_loop pc argv k (i + 1) [''test'', ''key1''] s
                } else cl_test_loop pc argv k (i + 1) vec s))"

definition cl_test :: "cli_codec \<Rightarrow> string list \<Rightarrow> client \<Rightarrow> (cli_ret \<times> client) option" where
  "cl_test pc argv s =
     (if length argv < 4 then Some (Ret (-1), s)
      else (case c_stoi (argv ! 1) of
              None \<Rightarrow> Some (Threw, s)
            | Some n \<Rightarrow> cl_test_loop pc argv (nat n) 0 [''test'', ''key1''] s))"

text \<open>Deciding what a line does; an empty line has no first word.\<close>

definition cl_HandleReq :: "cli_codec \<Rightarrow> string list \<Rightarrow> client \<Rightarrow> (cli_ret \<times> client) option" where
  "cl_HandleReq pc argv s =
     (case argv of
        [] \<Rightarrow> None
      | w # ws \<Rightarrow>
          if w = ''bs_sets'' then cl_bs_sets pc argv s
          else if w = ''bs_gets'' then cl_bs_gets pc argv s
          else if w = ''bs_ranks'' then cl_bs_ranks pc argv s
          else if w = ''bs_range'' then cl_bs_range pc argv s
          else if w = ''bs_rangebyscore'' then cl_bs_rangebyscore pc argv s
          else if w = ''bs_top'' then cl_bs_top pc argv s
          else if w = ''help'' then Some (Ret 0, cl_print OutHelp s)
          else if w = ''test'' then cl_test pc argv s
          else if w = ''quit'' then Some (Ret (-2), s)
          else Some (Ret 0, cl_print OutUnknown s))"

text \<open>Reading lines until the end of the input or \<open>quit\<close>.\<close>

fun cl_main_loop :: "cli_codec \<Rightarrow> string list \<Rightarrow> client \<Rightarrow> client option" where
  "cl_main_loop pc [] s = Some s"
| "cl_main_loop pc (strInput # inputs) s = do {
     (r, s) \<leftarrow> cl_HandleReq pc (DelSpaceStr (SplitStringUsing strInput (CHR '' '') 0)) s;
     (case r of
        Threw \<Rightarrow> cl_main_loop pc inputs (cl_print OutWrong s)
      | Ret n \<Rightarrow> if n = -2 then Some s else cl_main_loop pc inputs s)
   }"

definition cl_main :: "cli_codec \<Rightarrow> string list \<Rightarrow> string list \<Rightarrow> cnet \<Rightarrow> client option" where
  "cl_main pc argv inputs n =
     (if length argv < 3 then Some (cl_new n)
      else do {
        (r, s) \<leftarrow> cl_InitClinetConn pc (argv ! 1) (argv ! 2) (cl_new n);
        if r < 0 then Some s else cl_main_loop pc inputs s
      })"

end
