(* ===== verification/StrTool.thy ===== *)
theory StrTool
  imports Client
begin

text \<open>
  String routines of \<open>CStrTool\<close> and \<open>CHtmlUtil\<close>, \<open>bis/src/client/pet_util.cpp\<close>: hexadecimal text,
  splitting, joining and replacing, decimal text of an \<open>int\<close>, sizes with a unit, HTML escapes.
  \<open>None\<close> is an access outside a buffer or an exception. A \<open>char *\<close> is the string up to its
  terminator.
\<close>

section \<open>Hexadecimal text\<close>

text \<open>\<open>sprintf ("%02X")\<close> of a byte.\<close>

definition hex_digit :: "nat \<Rightarrow> char" where
  "hex_digit n = (if n < 10 then char_of (48 + n) else char_of (55 + n))"

definition hex_byte :: "byte \<Rightarrow> string" where
  "hex_byte b = [hex_digit (unat b div 16), hex_digit (unat b mod 16)]"

abbreviation (input) STR2HEX_MAX_BUFF_LEN :: int where "STR2HEX_MAX_BUFF_LEN \<equiv> 10240"

fun str2hex_loop :: "byte list \<Rightarrow> nat \<Rightarrow> string \<Rightarrow> string option" where
  "str2hex_loop bs 0 out = Some out"
| "str2hex_loop [] (Suc n) out = None"
| "str2hex_loop (b # bs) (Suc n) out = str2hex_loop bs n (out @ hex_byte b)"

text \<open>The static buffer keeps what the call before left in it when the size is negative.\<close>

definition Str2Hex :: "byte list \<Rightarrow> int \<Rightarrow> string \<Rightarrow> string option" where
  "Str2Hex buff n szStr2HexBuff =
     (let n = (if n > STR2HEX_MAX_BUFF_LEN then STR2HEX_MAX_BUFF_LEN else n)
      in if n < 0 then Some szStr2HexBuff else str2hex_loop buff (nat n) [])"

text \<open>\<open>strtol\<close> of the two characters, cut to a \<open>char\<close>.\<close>

fun hex2str_loop :: "string \<Rightarrow> nat \<Rightarrow> byte list \<Rightarrow> byte list option" where
  "hex2str_loop cs 0 out = Some out"
| "hex2str_loop (c # d # cs) (Suc n) out = hex2str_loop cs n (out @ [of_int (read_int 16 [c, d])])"
| "hex2str_loop cs (Suc n) out = None"

definition Hex2Str :: "string \<Rightarrow> int \<Rightarrow> (int \<times> byte list) option" where
  "Hex2Str buff n =
     (if n \<le> 0 then None
      else do { out \<leftarrow> hex2str_loop buff (nat n div 2) []; Some (int (length out), out) })"

section \<open>Replacing and splitting\<close>

text \<open>\<open>strpbrk\<close> looks behind the character that was replaced.\<close>

fun strip_loop :: "string \<Rightarrow> char \<Rightarrow> string \<Rightarrow> string" where
  "strip_loop remove ch [] = []"
| "strip_loop remove ch (c # cs) =
     (if c = NUL then c # cs else (if c \<in> set remove then ch else c) # strip_loop remove ch cs)"

definition StripString :: "string \<Rightarrow> string \<Rightarrow> char \<Rightarrow> string" where
  "StripString s remove ch = strip_loop remove ch s"

lemma find_sub_Some: "find_sub xs ys = Some i \<Longrightarrow> i + length xs \<le> length ys \<and> take (length xs) (drop i ys) = xs"
proof (induction xs ys arbitrary: i rule: find_sub.induct)
  case (2 xs y ys)
  then show ?case using prefix_length_le [of xs "y # ys"] by (auto split: if_splits simp: prefix_def)
qed (simp split: if_splits)

text \<open>The loop on the rest of the string behind \<open>iStartPos\<close>; the empty old string never gets here.\<close>

function replace_loop :: "string \<Rightarrow> string \<Rightarrow> bool \<Rightarrow> string \<Rightarrow> string \<Rightarrow> string" where
  "replace_loop old new all rest res =
     (case find_sub old rest of
        None \<Rightarrow> res @ rest
      | Some i \<Rightarrow>
          let res = res @ take i rest @ new; rest = drop (i + length old) rest
          in if all \<and> old \<noteq> [] then replace_loop old new all rest res else res @ rest)"
  by pat_completeness auto

termination
  by (relation "measure (\<lambda>(old, new, all, rest, res). length rest)")
    (auto dest!: find_sub_Some simp: diff_less simp flip: length_greater_0_conv)

declare replace_loop.simps [simp del]

definition StringReplace_to :: "string \<Rightarrow> string \<Rightarrow> string \<Rightarrow> bool \<Rightarrow> string \<Rightarrow> string" where
  "StringReplace_to s old new all res = (if old = [] then res @ s else replace_loop old new all s res)"

definition StringReplace :: "string \<Rightarrow> string \<Rightarrow> string \<Rightarrow> bool \<Rightarrow> string" where
  "StringReplace s old new all = StringReplace_to s old new all []"

text \<open>Splitting at any character of the delimiter, at most \<open>k\<close> times.\<close>

function split_any :: "string \<Rightarrow> nat \<Rightarrow> string \<Rightarrow> string list" where
  "split_any delim k s =
     (case dropWhile (\<lambda>c. c \<notin> set delim) s of
        [] \<Rightarrow> [s]
      | _ # rest \<Rightarrow> takeWhile (\<lambda>c. c \<notin> set delim) s # (if k \<le> 1 then [rest] else split_any delim (k - 1) rest))"
  by pat_completeness auto

termination
proof (relation "measure (\<lambda>(delim, k, s). length s)")
  fix delim s rest :: string and k :: nat and c
  assume "dropWhile (\<lambda>c. c \<notin> set delim) s = c # rest"
  then have "length (c # rest) \<le> length s" using length_dropWhile_le [of "\<lambda>c. c \<notin> set delim" s] by simp
  then show "((delim, k - 1, rest), delim, k, s) \<in> measure (\<lambda>(delim, k, s). length s)" by simp
qed simp

declare split_any.simps [simp del]

text \<open>The whole routine; \<open>SplitStringUsing\<close> is what it does for a delimiter of one character.\<close>

definition SplitStringUsing_any :: "string \<Rightarrow> string \<Rightarrow> int \<Rightarrow> string list" where
  "SplitStringUsing_any full delim max_times =
     (case delim of
        [d] \<Rightarrow> SplitStringUsing full d max_times
      | _ \<Rightarrow> let max_times = (if max_times \<le> 0 then 2 ^ 31 - 1 else max_times)
             in if full = [] then [full] else split_any delim (nat max_times) full)"

text \<open>The first loop only reserves memory.\<close>

fun join_loop :: "string \<Rightarrow> bool \<Rightarrow> string list \<Rightarrow> string \<Rightarrow> string" where
  "join_loop delim is_first [] res = res"
| "join_loop delim is_first (x # xs) res =
     join_loop delim False xs ((if is_first then res else res @ delim) @ x)"

definition JoinStrings :: "string list \<Rightarrow> string \<Rightarrow> string" where
  "JoinStrings items delim = join_loop delim True items []"

text \<open>The last section of a path.\<close>

definition GetExecutableName :: "string \<Rightarrow> string" where
  "GetExecutableName path = last (SplitStringUsing_any path ''/'' 0)"

section \<open>Numbers\<close>

text \<open>The buffer of 32 characters and the pointer into it; a write in front of it is undefined.\<close>

definition itoa_put :: "char \<Rightarrow> string \<times> int \<Rightarrow> (string \<times> int) option" where
  "itoa_put c = (\<lambda>(buf, p). if 0 \<le> p \<and> p < int (length buf) then Some (buf[nat p := c], p) else None)"

definition itoa_push :: "char \<Rightarrow> string \<times> int \<Rightarrow> (string \<times> int) option" where
  "itoa_push c s = do { (buf, p) \<leftarrow> itoa_put c s; Some (buf, p - 1) }"

text \<open>\<open>do ... while (i > 0)\<close>; \<open>i\<close> is not negative.\<close>

function itoa_loop :: "int \<Rightarrow> string \<times> int \<Rightarrow> (string \<times> int) option" where
  "itoa_loop i s = do {
     s \<leftarrow> itoa_push (char_of (48 + i mod 10)) s;
     if i div 10 > 0 then itoa_loop (i div 10) s else Some s
   }"
  by pat_completeness auto

termination
  by (relation "measure (\<lambda>(i, s). nat i)") auto

declare itoa_loop.simps [simp del]

text \<open>The string at the pointer.\<close>

definition itoa_str :: "string \<times> int \<Rightarrow> string option" where
  "itoa_str = (\<lambda>(buf, p). if 0 \<le> p then Some (takeWhile (\<lambda>c. c \<noteq> NUL) (drop (nat p) buf)) else None)"

text \<open>The buffer is not initialised. An \<open>int\<close> negated after ten was added does not overflow.\<close>

definition SimpleItoa :: "string \<Rightarrow> int \<Rightarrow> string option" where
  "SimpleItoa szBuf i = do {
     s \<leftarrow> itoa_push NUL (szBuf, 11);
     if i \<ge> 0 then do { (buf, p) \<leftarrow> itoa_loop i s; itoa_str (buf, p + 1) }
     else if i > -10 then do {
       s \<leftarrow> itoa_push (char_of (48 + - i)) s;
       s \<leftarrow> itoa_put (CHR ''-'') s;
       itoa_str s
     }
     else do {
       let i = - (i + 10);
       s \<leftarrow> itoa_push (char_of (48 + i mod 10)) s;
       s \<leftarrow> itoa_loop (i div 10 + 1) s;
       s \<leftarrow> itoa_put (CHR ''-'') s;
       itoa_str s
     }
   }"

definition SizeStrToNum :: "string \<Rightarrow> 64 word option" where
  "SizeStrToNum s =
     (if s = [] then None
      else let n = c_strtoull s; unit = last s
        in Some (if unit \<in> {CHR ''K'', CHR ''k''} then n * 1024
             else if unit \<in> {CHR ''M'', CHR ''m''} then n * 1024 * 1024
             else if unit \<in> {CHR ''G'', CHR ''g''} then n * 1024 * 1024 * 1024
             else n))"

section \<open>HTML\<close>

definition html_char :: "char \<Rightarrow> string" where
  "html_char c =
     (if c = CHR ''<'' then ''&lt;'' else if c = CHR ''>'' then ''&gt;'' else if c = CHR ''&'' then ''&amp;''
      else if c = CHR 0x22 then ''&quot;'' else if c = CHR 0x27 then ''&#39;'' else if c = CHR '' '' then ''&nbsp;'' else [c])"

fun html_loop :: "string \<Rightarrow> string \<Rightarrow> string" where
  "html_loop [] oss = oss"
| "html_loop (c # cs) oss = html_loop cs (oss @ html_char c)"

definition simpleHtmlEncode :: "string \<Rightarrow> string" where
  "simpleHtmlEncode s = html_loop s []"


section \<open>Hexadecimal text read back\<close>

lemma hex_digit_read:
  assumes "n < 16"
  shows "digit_val (hex_digit n) = Some (int n) \<and> \<not> is_space (hex_digit n) \<and> hex_digit n \<noteq> CHR ''-'' \<and> hex_digit n \<noteq> CHR ''+''"
proof -
  have "list_all (\<lambda>n. digit_val (hex_digit n) = Some (int n) \<and> \<not> is_space (hex_digit n) \<and> hex_digit n \<noteq> CHR ''-''
      \<and> hex_digit n \<noteq> CHR ''+'') [0..<16]"
    by code_simp
  with assms show ?thesis by (simp add: list_all_iff)
qed

lemma read_hex_byte: "of_int (read_int 16 (hex_byte b)) = b"
proof -
  have "unat b < 256" using unsigned_less [of b] by simp
  then have d: "unat b div 16 < 16" "unat b mod 16 < 16" by auto
  have "read_int 16 (hex_byte b) = int (unat b div 16) * 16 + int (unat b mod 16)"
    using hex_digit_read [OF d(1)] hex_digit_read [OF d(2)] d by (simp add: read_int_def hex_byte_def)
  also have "\<dots> = int (unat b)" using div_mult_mod_eq [of "unat b" 16] by (metis of_nat_add of_nat_mult of_nat_numeral)
  finally show ?thesis by simp
qed

lemma str2hex_loop_ok: "n \<le> length bs \<Longrightarrow> str2hex_loop bs n out = Some (out @ concat (map hex_byte (take n bs)))"
  by (induction bs n out rule: str2hex_loop.induct) auto

lemma length_hex [simp]: "length (concat (map hex_byte bs)) = 2 * length bs"
  by (induction bs) (auto simp: hex_byte_def)

lemma hex2str_loop_ok: "hex2str_loop (concat (map hex_byte bs)) (length bs) out = Some (out @ bs)"
proof (induction bs arbitrary: out)
  case (Cons b bs)
  have "concat (map hex_byte (b # bs)) = hex_digit (unat b div 16) # hex_digit (unat b mod 16) # concat (map hex_byte bs)"
    by (simp add: hex_byte_def)
  with Cons read_hex_byte [of b] show ?case by (simp add: hex_byte_def)
qed simp

lemma hex_roundtrip:
  assumes "bs \<noteq> []" "length bs \<le> 10240"
  shows "\<exists>h. Str2Hex bs (int (length bs)) st = Some h \<and> length h = 2 * length bs
    \<and> Hex2Str h (int (length h)) = Some (int (length bs), bs)"
  using assms str2hex_loop_ok [of "length bs" bs "[]"] hex2str_loop_ok [of bs "[]"]
  by (simp add: Str2Hex_def Hex2Str_def nat_mult_distrib del: concat_eq_Nil_conv) (simp add: hex_byte_def neq_Nil_conv)

section \<open>Splitting and joining\<close>

lemma split_any_Nil [simp]: "split_any delim k [] = [[]]"
  by (simp add: split_any.simps)

lemma split_any_Cons:
  "split_any delim k (c # cs) = (if c \<in> set delim then [] # (if k \<le> 1 then [cs] else split_any delim (k - 1) cs)
     else (c # hd (split_any delim k cs)) # tl (split_any delim k cs))"
proof (cases "c \<in> set delim")
  case True
  then show ?thesis by (subst split_any.simps) simp
next
  case False
  have "split_any delim k (c # cs) = (case dropWhile (\<lambda>c. c \<notin> set delim) cs of
        [] \<Rightarrow> [c # cs]
      | _ # rest \<Rightarrow> (c # takeWhile (\<lambda>c. c \<notin> set delim) cs) # (if k \<le> 1 then [rest] else split_any delim (k - 1) rest))"
    using False by (subst split_any.simps) (simp only: dropWhile.simps takeWhile.simps not_False_eq_True if_True)
  also have "\<dots> = (c # hd (split_any delim k cs)) # tl (split_any delim k cs)"
    by (cases "dropWhile (\<lambda>c. c \<notin> set delim) cs") (simp_all only: split_any.simps [of delim k cs] list.case list.sel)
  finally show ?thesis using False by simp
qed

lemma split_any_nonempty [simp]: "split_any delim k s \<noteq> []"
  by (cases s) (simp_all add: split_any_Cons)

text \<open>The loop for one character is the general loop.\<close>

lemma split_char_any: "split_char d k start s = (start @ hd (split_any [d] k s)) # tl (split_any [d] k s)"
proof (induction s arbitrary: start k)
  case (Cons c s)
  have "split_char d (k - 1) [] s = split_any [d] (k - 1) s" using Cons [of "k - 1" "[]"] by simp
  with Cons [of k "start @ [c]"] show ?case by (simp add: split_any_Cons)
qed simp

lemma join_loop_rest: "join_loop delim False xs res = res @ concat (map (\<lambda>x. delim @ x) xs)"
  by (induction xs arbitrary: res) simp_all

lemma JoinStrings_simps [simp]:
  "JoinStrings [] delim = []" "JoinStrings (x # xs) delim = x @ concat (map (\<lambda>x. delim @ x) xs)"
  by (simp_all add: JoinStrings_def join_loop_rest)

lemma join_split: "JoinStrings (split_any [d] k s) [d] = s"
proof (induction s arbitrary: k)
  case (Cons c s)
  have "JoinStrings (x # xs) [d] = x @ d # JoinStrings xs [d]" if "xs \<noteq> []" for x xs
    using that by (cases xs) simp_all
  moreover have "JoinStrings ((c # hd xs) # tl xs) [d] = c # JoinStrings xs [d]" if "xs \<noteq> []" for xs
    using that by (cases xs) simp_all
  ultimately show ?case using Cons by (simp add: split_any_Cons del: JoinStrings_simps) simp
qed simp

lemma split_any_length:
  "0 < k \<Longrightarrow> length (split_any delim k s) = Suc (min k (length (filter (\<lambda>c. c \<in> set delim) s)))"
proof (induction s arbitrary: k)
  case (Cons c s)
  then show ?case by (cases k; cases "k = 1") (simp_all add: split_any_Cons)
qed simp

lemma split_any_pieces: "x \<in> set (butlast (split_any delim k s)) \<Longrightarrow> set x \<inter> set delim = {}"
proof (induction s arbitrary: k x)
  case (Cons c s)
  have "set (hd xs) \<inter> set delim = {}" if "xs = split_any delim k s" "tl xs \<noteq> []" for xs
  proof -
    have "hd xs \<in> set (butlast xs)" using that(2) by (cases xs) auto
    with Cons.IH [of "hd xs" k] that(1) show ?thesis by simp
  qed
  moreover have "x \<in> set (butlast xs)" if "xs \<noteq> []" "x \<in> set (butlast (tl xs))" for x :: string and xs
    using that by (cases xs) (auto split: if_splits)
  ultimately show ?case using Cons.prems Cons.IH [of x k] Cons.IH [of x "k - 1"]
    by (auto simp: split_any_Cons split: if_splits)
qed simp


section \<open>Replacing\<close>

text \<open>Reference: from left to right, without overlaps.\<close>

fun replace_ref :: "string \<Rightarrow> string \<Rightarrow> string \<Rightarrow> string" where
  "replace_ref old new [] = []"
| "replace_ref old new (c # cs) =
     (if old \<noteq> [] \<and> prefix old (c # cs) then new @ replace_ref old new (drop (length old - 1) cs)
      else c # replace_ref old new cs)"

lemma replace_ref_None: "find_sub old s = None \<Longrightarrow> replace_ref old new s = s"
  by (induction s) (auto split: if_splits)

lemma replace_ref_Some:
  "old \<noteq> [] \<Longrightarrow> find_sub old s = Some i \<Longrightarrow> replace_ref old new s = take i s @ new @ replace_ref old new (drop (i + length old) s)"
proof (induction s arbitrary: i)
  case (Cons c s)
  show ?case
  proof (cases "prefix old (c # s)")
    case True
    with Cons.prems show ?thesis by (cases old) auto
  next
    case False
    with Cons.prems(2) obtain j where "find_sub old s = Some j" "i = Suc j" by auto
    with False Cons.IH [of j] Cons.prems(1) show ?thesis by simp
  qed
qed simp

lemma replace_loop_all: "old \<noteq> [] \<Longrightarrow> replace_loop old new True rest res = res @ replace_ref old new rest"
proof (induction old new True rest res rule: replace_loop.induct)
  case (1 old new rest res)
  then show ?case
    by (subst replace_loop.simps) (auto simp: Let_def replace_ref_None replace_ref_Some split: option.split)
qed

lemma replace_loop_once:
  "replace_loop old new False rest res =
     res @ (case find_sub old rest of None \<Rightarrow> rest | Some i \<Rightarrow> take i rest @ new @ drop (i + length old) rest)"
  by (subst replace_loop.simps) (simp add: Let_def split: option.split)

lemma StringReplace_ref:
  "StringReplace s old new True = (if old = [] then s else replace_ref old new s)"
  "StringReplace s old new False = (if old = [] then s else
     case find_sub old s of None \<Rightarrow> s | Some i \<Rightarrow> take i s @ new @ drop (i + length old) s)"
  by (simp_all add: StringReplace_def StringReplace_to_def replace_loop_all replace_loop_once)

section \<open>Decimal text\<close>

lemma itoa_text_length: "n < 10 ^ Suc k \<Longrightarrow> length (to_string n) \<le> Suc k"
proof (induction k arbitrary: n)
  case 0
  then show ?case by (subst to_string_step) simp
next
  case (Suc k)
  then have "n div 10 < 10 ^ Suc k" by (simp add: div_less_iff_less_mult)
  with Suc.IH [of "n div 10"] show ?case by (subst to_string_step) simp
qed

lemma itoa_push_Some:
  "0 \<le> p \<Longrightarrow> p < int (length buf) \<Longrightarrow> itoa_push c (buf, p) = Some (buf[nat p := c], p - 1)"
  by (simp add: itoa_push_def itoa_put_def)

lemma write_before:
  "n \<le> q \<Longrightarrow> q < length buf \<Longrightarrow> (take n buf @ xs @ drop (Suc q) buf) = take n buf @ xs @ drop (Suc q) (buf[q := c])"
  by simp

lemma digit_int: "char_of (48 + int d mod 10) = digit d"
proof -
  have "48 + int d mod 10 = int (48 + d mod 10)" by (simp add: zmod_int)
  then show ?thesis by (simp only: char_of_nat)
qed

text \<open>The digits stand in front of where the pointer was.\<close>

lemma itoa_loop_ok:
  assumes "length (to_string n) \<le> Suc q" "q < length buf"
  shows "itoa_loop (int n) (buf, int q) =
    Some (take (Suc q - length (to_string n)) buf @ to_string n @ drop (Suc q) buf, int q - int (length (to_string n)))"
  using assms
proof (induction n arbitrary: q buf rule: less_induct)
  case (less n)
  let ?buf = "buf[q := digit n]"
  note digit = digit_int [of n]
  have push: "itoa_push (char_of (48 + int n mod 10)) (buf, int q) = Some (?buf, int q - 1)"
    using less.prems(2) by (simp add: itoa_push_Some digit)
  show ?case
  proof (cases "n < 10")
    case True
    have "?buf = take q buf @ digit n # drop (Suc q) buf" using less.prems(2) by (rule upd_conv_take_nth_drop)
    moreover have "to_string n = [digit n]" using True by (subst to_string_step) simp
    moreover have "\<not> 0 < int n div 10" using True by simp
    ultimately show ?thesis using push by (subst itoa_loop.simps) simp
  next
    case False
    let ?m = "length (to_string (n div 10))"
    have ts: "to_string n = to_string (n div 10) @ [digit n]" using False by (subst to_string_step) simp
    then have q: "0 < q" "?m \<le> q" using less.prems(1) by (auto simp: le_Suc_eq)
    then obtain r where r: "q = Suc r" by (cases q) simp_all
    have "itoa_loop (int (n div 10)) (?buf, int r) =
        Some (take (Suc r - ?m) ?buf @ to_string (n div 10) @ drop (Suc r) ?buf, int r - int ?m)"
      using less.IH [of "n div 10" r ?buf] False q less.prems(2) r by simp
    moreover have "drop (Suc r) ?buf = digit n # drop (Suc q) buf"
      using less.prems(2) r by (simp add: upd_conv_take_nth_drop)
    moreover have "take (Suc r - ?m) ?buf = take (Suc r - ?m) buf" by (simp add: r)
    moreover have "int n div 10 = int (n div 10)" "0 < int n div 10" using False by (simp_all add: zdiv_int)
    ultimately show ?thesis using push r by (subst itoa_loop.simps) (simp add: ts)
  qed
qed


lemma to_string_no_NUL: "takeWhile (\<lambda>c. c \<noteq> NUL) (to_string n @ NUL # cs) = to_string n"
proof -
  have "c \<noteq> NUL" if "c \<in> set (to_string n)" for c using to_string_chars [OF that] digit_ok by auto
  then show ?thesis by (simp add: takeWhile_append2)
qed

lemma drop_update: "i < length buf \<Longrightarrow> drop i (buf[i := c]) = c # drop (Suc i) buf"
  by (simp add: upd_conv_take_nth_drop)

lemma itoa_str_at:
  "drop p buf = to_string n @ NUL # ys \<Longrightarrow> itoa_str (buf, int p) = Some (to_string n)"
  by (simp add: itoa_str_def to_string_no_NUL)

lemma itoa_sign:
  assumes "p < length buf" "drop (Suc p) buf = to_string n @ NUL # ys"
  shows "itoa_put (CHR ''-'') (buf, int p) \<bind> itoa_str = Some (CHR ''-'' # to_string n)"
  using assms to_string_no_NUL [of n ys] by (simp add: itoa_put_def itoa_str_def drop_update)

definition int_text :: "int \<Rightarrow> string" where
  "int_text i = (if i < 0 then CHR ''-'' # to_string (nat (- i)) else to_string (nat i))"

text \<open>The buffer after the terminator is written.\<close>

lemma itoa_start:
  assumes "length buf = 32"
  shows "itoa_push NUL (buf, 11) = Some (buf[11 := NUL], 10)" "drop 11 (buf[11 := NUL]) = NUL # drop 12 buf"
  using assms drop_update [of 11 buf NUL] by (simp_all add: itoa_push_Some)

lemma itoa_nonneg:
  assumes "length buf = 32" "n < 10 ^ 10"
  shows "SimpleItoa buf (int n) = Some (to_string n)"
proof -
  let ?b = "buf[11 := NUL]" and ?l = "length (to_string n)"
  have len: "?l \<le> 10" using itoa_text_length [of n 9] assms(2) by simp
  let ?out = "take (11 - ?l) ?b @ to_string n @ drop 11 ?b"
  have "itoa_loop (int n) (?b, int 10) = Some (take (Suc 10 - ?l) ?b @ to_string n @ drop (Suc 10) ?b, int 10 - int ?l)"
    by (rule itoa_loop_ok) (use len assms(1) in simp_all)
  moreover have "itoa_str (?out, int (11 - ?l)) = Some (to_string n)"
  proof (rule itoa_str_at)
    have "length (take (11 - ?l) ?b) = 11 - ?l" using assms(1) by simp
    then have "drop (11 - ?l) ?out = to_string n @ drop 11 ?b" by simp
    then show "drop (11 - ?l) ?out = to_string n @ NUL # drop 12 buf" by (simp only: itoa_start(2) [OF assms(1)])
  qed
  moreover have "int (11 - ?l) = 10 - int ?l + 1" using len by simp
  ultimately show ?thesis by (simp add: SimpleItoa_def itoa_start(1) [OF assms(1)])
qed

lemma itoa_neg:
  assumes "length buf = 32" "0 < n" "n < 10 ^ 10"
  shows "SimpleItoa buf (- int n) = Some (CHR ''-'' # to_string n)"
proof -
  let ?b = "buf[11 := NUL]"
  let ?c = "?b[10 := digit n]"
  have b: "length ?b = 32" "length ?c = 32" using assms(1) by simp_all
  have tail: "drop 10 ?c = digit n # NUL # drop 12 buf"
    using drop_update [of 10 ?b "digit n"] itoa_start(2) [OF assms(1)] b(1) by (simp only:) simp
  have push: "itoa_push (digit n) (?b, 10) = Some (?c, 9)" using b(1) by (simp add: itoa_push_Some)
  show ?thesis
  proof (cases "n < 10")
    case True
    have ts: "to_string n = [digit n]" using True by (subst to_string_step) simp
    have "char_of (48 + int n) = digit n" using True char_of_nat [of "48 + n"] by simp
    moreover have "itoa_put (CHR ''-'') (?c, int 9) \<bind> itoa_str = Some (CHR ''-'' # to_string n)"
      by (rule itoa_sign) (use b tail ts in simp_all)
    ultimately show ?thesis using True push assms(2) by (simp add: SimpleItoa_def itoa_start(1) [OF assms(1)])
  next
    case False
    define k where "k = n - 10"
    have n: "n = k + 10" using False by (simp add: k_def)
    let ?m = "k div 10 + 1" and ?l = "length (to_string (k div 10 + 1))"
    have m: "n div 10 = ?m" by (simp add: n)
    have ts: "to_string n = to_string ?m @ [digit n]" using False m by (subst to_string_step) simp
    have len: "?l \<le> 9" using itoa_text_length [of ?m 8] assms(3) m by simp
    let ?out = "take (10 - ?l) ?c @ to_string ?m @ drop 10 ?c"
    have "itoa_loop (int ?m) (?c, int 9) = Some (take (Suc 9 - ?l) ?c @ to_string ?m @ drop (Suc 9) ?c, int 9 - int ?l)"
      by (rule itoa_loop_ok) (use len b(2) in simp_all)
    moreover have "itoa_put (CHR ''-'') (?out, int (9 - ?l)) \<bind> itoa_str = Some (CHR ''-'' # to_string n)"
    proof (rule itoa_sign)
      have "length (take (10 - ?l) ?c) = Suc (9 - ?l)" using b(2) len by simp
      then have "drop (Suc (9 - ?l)) ?out = to_string ?m @ drop 10 ?c" by simp
      then show "drop (Suc (9 - ?l)) ?out = to_string n @ NUL # drop 12 buf" by (simp only: tail ts) simp
    qed (use b(2) len in simp)
    moreover have "int (9 - ?l) = 9 - int ?l" using len by simp
    moreover have "char_of ((int n - 10) mod 10 + 48) = digit n" "int ?m = (int n - 10) div 10 + 1"
      using digit_int [of k] by (simp_all add: n zdiv_int add.commute)
    ultimately show ?thesis using False push
      by (simp add: SimpleItoa_def itoa_start(1) [OF assms(1)] add.commute)
  qed
qed


section \<open>Properties\<close>

text \<open>C34. For every \<open>int\<close>, the smallest included, \<open>SimpleItoa\<close> stays inside its buffer, whatever that
  holds before, and answers the decimal text without leading zeros, with a sign for a negative one.\<close>

theorem simple_itoa_correct:
  assumes "length szBuf = 32" "- (2 ^ 31) \<le> i" "i < 2 ^ 31"
  shows "SimpleItoa szBuf i = Some (int_text i) \<and> read_int 10 (int_text i) = i"
proof (cases "0 \<le> i")
  case True
  then obtain n where n: "i = int n" by (rule nonneg_int_cases)
  have "to_string n = hd (to_string n) # tl (to_string n)" "hd (to_string n) \<in> set (to_string n)" by simp_all
  with to_string_chars [of "hd (to_string n)" n] digit_ok obtain d ds where d: "to_string n = digit d # ds" by metis
  have "\<not> is_space (digit d)" "digit d \<noteq> CHR ''-''" "digit d \<noteq> CHR ''+''" using digit_ok [of d] by (simp_all add: is_space_def)
  then have "read_int 10 (to_string n) = read_digits 10 0 (to_string n)" unfolding d read_int_def by (simp del: read_digits.simps)
  with itoa_nonneg [of szBuf n] read_to_string [of n] assms n show ?thesis by (simp add: int_text_def)
next
  case False
  then obtain n where n: "i = - int n" "0 < n" by (metis not_le neg_int_cases)
  have "\<not> is_space (CHR ''-'')" by (simp add: is_space_def)
  with itoa_neg [of szBuf n] read_to_string [of n] assms n show ?thesis by (simp add: int_text_def read_int_def)
qed

theorem simple_itoa_correct_witness:
  "SimpleItoa (replicate 32 (CHR ''x'')) (- (2 ^ 31)) = Some ''-2147483648'' \<and> read_int 10 ''-2147483648'' = - (2 ^ 31)"
proof -
  have t: "int_text (- (2 ^ 31)) = ''-2147483648''" by (simp add: int_text_def to_string_step) code_simp
  show ?thesis by (rule simple_itoa_correct [of "replicate 32 (CHR ''x'')" "- (2 ^ 31)", unfolded t]) simp_all
qed

text \<open>C32. Splitting: the special loop for a delimiter of one character cuts exactly where the general
  loop cuts. It cuts at the first occurrences, as many as are allowed, no piece but the last one holds
  the delimiter, and joining the pieces with it gives the string back.\<close>

theorem split_join_equivalence:
  "let k = nat (if m \<le> 0 then 2 ^ 31 - 1 else m); ps = SplitStringUsing_any s [d] m
    in ps = split_any [d] k s \<and> JoinStrings ps [d] = s
      \<and> length ps = Suc (min k (length (filter (\<lambda>c. c = d) s))) \<and> (\<forall>p \<in> set (butlast ps). d \<notin> set p)"
proof -
  define k where "k = nat (if m \<le> 0 then 2 ^ 31 - 1 else m)"
  have k: "0 < k" by (simp add: k_def)
  have "SplitStringUsing_any s [d] m = split_any [d] k s"
    using split_char_any [of d k "[]" s] by (auto simp: k_def SplitStringUsing_any_def SplitStringUsing_def)
  with join_split [of d k s] split_any_length [OF k, of "[d]" s] split_any_pieces [of _ "[d]" k s] show ?thesis
    unfolding k_def [symmetric] Let_def by auto
qed

theorem split_join_equivalence_witness:
  "SplitStringUsing_any ''a,b,,c'' '','' 2 = [''a'', ''b'', '',c''] \<and> JoinStrings [''a'', ''b'', '',c''] '','' = ''a,b,,c''"
proof -
  have "split_any '','' 2 ''a,b,,c'' = [''a'', ''b'', '',c'']" by (simp add: split_any_Cons)
  with split_join_equivalence [of 2 "''a,b,,c''" "CHR '',''"] show ?thesis by (simp add: Let_def)
qed

text \<open>Replacing all occurrences by searching from position to position equals the scan that puts the
  new string for each occurrence met from left to right; replacing one changes the first occurrence.\<close>

theorem string_replace_equivalence:
  "StringReplace s old new True = (if old = [] then s else replace_ref old new s)
    \<and> StringReplace s old new False = (if old = [] then s else
        case find_sub old s of None \<Rightarrow> s | Some i \<Rightarrow> take i s @ new @ drop (i + length old) s)"
  using StringReplace_ref by simp

section \<open>Smaller results\<close>

lemma html_loop_concat: "html_loop s oss = oss @ concat (map html_char s)"
  by (induction s arbitrary: oss) simp_all

text \<open>What is encoded can stand in a text or an attribute.\<close>

lemma html_safe: "set (simpleHtmlEncode s) \<inter> {CHR ''<'', CHR ''>'', CHR 0x22, CHR 0x27, CHR '' ''} = {}"
  by (auto simp: simpleHtmlEncode_def html_loop_concat html_char_def split: if_splits)

lemma StripString_length: "length (StripString s remove ch) = length s"
proof -
  have "length (strip_loop remove ch s) = length s" by (induction s) auto
  then show ?thesis by (simp add: StripString_def)
qed

lemma StripString_clean:
  assumes "ch \<notin> set remove" "NUL \<notin> set s"
  shows "set (StripString s remove ch) \<inter> set remove = {}"
proof -
  have "set (strip_loop remove ch s) \<inter> set remove = {}" using assms by (induction s) auto
  then show ?thesis by (simp add: StripString_def)
qed

end
