(* ===== verification/BoundedFifo.thy ===== *)
theory BoundedFifo
  imports Prelude
begin

text \<open>
  The interface a bounded first-in first-out queue offers, and what a client may conclude
  from it. A provider gives its state type, an invariant, the list it holds, its capacity
  and its push and pop; the laws say that push appends unless the queue is full and pop
  removes the first element unless it is empty. Clients get the behaviour of every
  sequence of operations from the laws alone.
\<close>

section \<open>Operation sequences and their reference behaviour\<close>

datatype 'a fifo_op = Push 'a | Pop

text \<open>What one operation answers: whether a push was accepted, or what a pop returned.\<close>

datatype 'a fifo_answer = Accepted bool | Popped "'a option"

text \<open>The reference: a list with a limit on its length.\<close>

fun list_op :: "nat \<Rightarrow> 'a list \<Rightarrow> 'a fifo_op \<Rightarrow> 'a fifo_answer \<times> 'a list" where
  "list_op c xs (Push x) = (if length xs < c then (Accepted True, xs @ [x]) else (Accepted False, xs))"
| "list_op c [] Pop = (Popped None, [])"
| "list_op c (x # xs) Pop = (Popped (Some x), xs)"

fun list_run :: "nat \<Rightarrow> 'a list \<Rightarrow> 'a fifo_op list \<Rightarrow> 'a fifo_answer list \<times> 'a list" where
  "list_run c xs [] = ([], xs)"
| "list_run c xs (p # ps) =
     (let (a, ys) = list_op c xs p; (as, zs) = list_run c ys ps in (a # as, zs))"

text \<open>The same over an implementation's push and pop.\<close>

fun fifo_op_step ::
  "('q \<Rightarrow> 'a \<Rightarrow> bool \<times> 'q) \<Rightarrow> ('q \<Rightarrow> 'a option \<times> 'q) \<Rightarrow> 'q \<Rightarrow> 'a fifo_op \<Rightarrow> 'a fifo_answer \<times> 'q" where
  "fifo_op_step push pop q (Push x) = (let (ok, q') = push q x in (Accepted ok, q'))"
| "fifo_op_step push pop q Pop = (let (r, q') = pop q in (Popped r, q'))"

fun fifo_run ::
  "('q \<Rightarrow> 'a \<Rightarrow> bool \<times> 'q) \<Rightarrow> ('q \<Rightarrow> 'a option \<times> 'q) \<Rightarrow> 'q \<Rightarrow> 'a fifo_op list \<Rightarrow> 'a fifo_answer list \<times> 'q" where
  "fifo_run push pop q [] = ([], q)"
| "fifo_run push pop q (p # ps) =
     (let (a, q1) = fifo_op_step push pop q p; (as, q2) = fifo_run push pop q1 ps in (a # as, q2))"

section \<open>The interface\<close>

locale bounded_fifo =
  fixes inv :: "'q \<Rightarrow> bool"
    and items :: "'q \<Rightarrow> 'a list"
    and limit :: "'q \<Rightarrow> nat"
    and push :: "'q \<Rightarrow> 'a \<Rightarrow> bool \<times> 'q"
    and pop :: "'q \<Rightarrow> 'a option \<times> 'q"
  assumes push_accepts: "inv q \<Longrightarrow> fst (push q x) \<longleftrightarrow> length (items q) < limit q"
    and push_items: "inv q \<Longrightarrow> items (snd (push q x)) = (if length (items q) < limit q then items q @ [x] else items q)"
    and pop_answer: "inv q \<Longrightarrow> fst (pop q) = (case items q of [] \<Rightarrow> None | x # xs \<Rightarrow> Some x)"
    and pop_items: "inv q \<Longrightarrow> items (snd (pop q)) = tl (items q)"
    and inv_push: "inv q \<Longrightarrow> inv (snd (push q x))"
    and inv_pop: "inv q \<Longrightarrow> inv (snd (pop q))"
    and limit_push: "inv q \<Longrightarrow> limit (snd (push q x)) = limit q"
    and limit_pop: "inv q \<Longrightarrow> limit (snd (pop q)) = limit q"
    and within_limit: "inv q \<Longrightarrow> length (items q) \<le> limit q"
begin

lemmas fifo_laws = push_accepts push_items pop_answer pop_items inv_push inv_pop limit_push limit_pop

text \<open>One operation refines the reference operation.\<close>

lemma step_refines:
  assumes "inv q"
  shows "fst (fifo_op_step push pop q p) = fst (list_op (limit q) (items q) p)"
    and "items (snd (fifo_op_step push pop q p)) = snd (list_op (limit q) (items q) p)"
    and "inv (snd (fifo_op_step push pop q p))"
    and "limit (snd (fifo_op_step push pop q p)) = limit q"
proof -
  show "fst (fifo_op_step push pop q p) = fst (list_op (limit q) (items q) p)"
    using assms by (cases p; cases "items q") (auto simp: fifo_laws split_beta)
  show "items (snd (fifo_op_step push pop q p)) = snd (list_op (limit q) (items q) p)"
    using assms by (cases p; cases "items q") (auto simp: fifo_laws split_beta)
  show "inv (snd (fifo_op_step push pop q p))"
    using assms by (cases p) (auto simp: fifo_laws split_beta)
  show "limit (snd (fifo_op_step push pop q p)) = limit q"
    using assms by (cases p) (auto simp: fifo_laws split_beta)
qed

text \<open>Every sequence of operations answers what the bounded list answers.\<close>

lemma run_refines:
  assumes "inv q"
  shows "fst (fifo_run push pop q ps) = fst (list_run (limit q) (items q) ps)
    \<and> items (snd (fifo_run push pop q ps)) = snd (list_run (limit q) (items q) ps)
    \<and> inv (snd (fifo_run push pop q ps)) \<and> limit (snd (fifo_run push pop q ps)) = limit q"
  using assms
proof (induction ps arbitrary: q)
  case Nil
  then show ?case by simp
next
  case (Cons p ps)
  note s = step_refines [OF Cons.prems, of p]
  from Cons.IH [OF s(3)] s show ?case
    by (simp add: split_beta)
qed

text \<open>A push onto a queue that is not full is popped after exactly the elements before it.\<close>

lemma pop_after_push:
  assumes "inv q" "length (items q) < limit q"
  shows "items (snd (pop (snd (push q x)))) = tl (items q @ [x])"
  using assms by (simp add: fifo_laws)

end

end
