(* ===== verification/ShmQueueEx.thy ===== *)
theory ShmQueueEx
  imports BoundedFifo
begin

text \<open>
  The fixed-size element queue in shared memory, \<open>CShmQueueEx\<close> of
  \<open>bis/src/server/snslib/comm/shm_queue_ex/shm_queue_ex.h\<close> (the proxy carries an
  identical copy). The segment is a header followed by \<open>capacity\<close> slots; the header's
  two indices are \<open>unsigned int\<close> and are only reduced modulo the capacity when they are
  read, so reading an index is an operation that changes the state. One slot stays empty
  to tell a full queue from an empty one. The semaphore calls appear as a count of the
  times the semaphore is held.
\<close>

section \<open>State\<close>

type_synonym index = "32 word"

record 'd shmq =
  magic :: "8 word"
  capacity :: index
  data_size :: index
  idx_head :: index
  idx_tail :: index
  slots :: "'d list"
  sem_held :: nat

abbreviation (input) SHMQ_SUCCESS :: int where "SHMQ_SUCCESS \<equiv> 0"
abbreviation (input) E_SHM_QUEUE_SEMLOCK :: int where "E_SHM_QUEUE_SEMLOCK \<equiv> - 601"
abbreviation (input) E_SHM_QUEUE_SHMGET :: int where "E_SHM_QUEUE_SHMGET \<equiv> - 602"
abbreviation (input) E_SHM_QUEUE_SHMAT :: int where "E_SHM_QUEUE_SHMAT \<equiv> - 604"
abbreviation (input) E_SHM_QUEUE_SHM_MISMATCH :: int where "E_SHM_QUEUE_SHM_MISMATCH \<equiv> - 605"
abbreviation (input) E_SHM_QUEUE_FULL :: int where "E_SHM_QUEUE_FULL \<equiv> - 606"
abbreviation (input) E_SHM_QUEUE_EMPTY :: int where "E_SHM_QUEUE_EMPTY \<equiv> - 607"

section \<open>Header and slot access\<close>

definition shmq_IdxHead :: "'d shmq \<Rightarrow> index \<times> 'd shmq" where
  "shmq_IdxHead q = (let h = idx_head q mod capacity q in (h, q\<lparr>idx_head := h\<rparr>))"

definition shmq_IdxTail :: "'d shmq \<Rightarrow> index \<times> 'd shmq" where
  "shmq_IdxTail q = (let t = idx_tail q mod capacity q in (t, q\<lparr>idx_tail := t\<rparr>))"

definition shmq_DataAt :: "'d shmq \<Rightarrow> index \<Rightarrow> 'd" where
  "shmq_DataAt q idx = slots q ! unat (idx mod capacity q)"

definition shmq_SetDataAt :: "'d shmq \<Rightarrow> index \<Rightarrow> 'd \<Rightarrow> 'd shmq" where
  "shmq_SetDataAt q idx d = q\<lparr>slots := (slots q)[unat (idx mod capacity q) := d]\<rparr>"

definition shmq_SemLock :: "'d shmq \<Rightarrow> 'd shmq" where
  "shmq_SemLock q = q\<lparr>sem_held := sem_held q + 1\<rparr>"

definition shmq_SemRelease :: "'d shmq \<Rightarrow> 'd shmq" where
  "shmq_SemRelease q = q\<lparr>sem_held := sem_held q - 1\<rparr>"

section \<open>Operations without the lock\<close>

definition shmq_Empty_Nolock :: "'d shmq \<Rightarrow> bool \<times> 'd shmq" where
  "shmq_Empty_Nolock q =
     (let (t, q1) = shmq_IdxTail q; (h, q2) = shmq_IdxHead q1 in (t = h, q2))"

definition shmq_Full_Nolock :: "'d shmq \<Rightarrow> bool \<times> 'd shmq" where
  "shmq_Full_Nolock q =
     (let (h, q1) = shmq_IdxHead q; (t, q2) = shmq_IdxTail q1
      in ((h + 1) mod capacity q2 = t, q2))"

definition shmq_Size_Nolock :: "'d shmq \<Rightarrow> index \<times> 'd shmq" where
  "shmq_Size_Nolock q =
     (let (h, q1) = shmq_IdxHead q; (t, q2) = shmq_IdxTail q1
      in ((capacity q2 + h - t) mod capacity q2, q2))"

definition shmq_Push_Nolock :: "'d shmq \<Rightarrow> 'd \<Rightarrow> int \<times> 'd shmq" where
  "shmq_Push_Nolock q d =
     (let (full, q1) = shmq_Full_Nolock q in
      if full then (E_SHM_QUEUE_FULL, q1)
      else let (h, q2) = shmq_IdxHead q1;
               q3 = shmq_SetDataAt q2 h d;
               (h', q4) = shmq_IdxHead q3
           in (SHMQ_SUCCESS, q4\<lparr>idx_head := h' + 1\<rparr>))"

definition shmq_Front_Nolock :: "'d shmq \<Rightarrow> int \<times> 'd option \<times> 'd shmq" where
  "shmq_Front_Nolock q =
     (let (empty, q1) = shmq_Empty_Nolock q in
      if empty then (E_SHM_QUEUE_EMPTY, None, q1)
      else let (t, q2) = shmq_IdxTail q1 in (SHMQ_SUCCESS, Some (shmq_DataAt q2 t), q2))"

text \<open>\<open>want\<close>: whether the caller passed a pointer for the element.\<close>

definition shmq_Pop_Nolock :: "'d shmq \<Rightarrow> bool \<Rightarrow> int \<times> 'd option \<times> 'd shmq" where
  "shmq_Pop_Nolock q want =
     (let (empty, q1) = shmq_Empty_Nolock q in
      if empty then (E_SHM_QUEUE_EMPTY, None, q1)
      else let (out, q2) = (if want then let (t, q') = shmq_IdxTail q1 in (Some (shmq_DataAt q' t), q')
                            else (None, q1));
               (t', q3) = shmq_IdxTail q2
           in (SHMQ_SUCCESS, out, q3\<lparr>idx_tail := t' + 1\<rparr>))"

text \<open>
  The callback may change the element it is given and its own state, and stops the walk
  by answering false. The loop runs on fuel; \<open>None\<close> would be a walk that outlasts it.
\<close>

fun shmq_ForEach_loop ::
  "('s \<Rightarrow> 'd \<Rightarrow> bool \<times> 's \<times> 'd) \<Rightarrow> nat \<Rightarrow> 's \<Rightarrow> 'd shmq \<Rightarrow> index \<Rightarrow> ('s \<times> 'd shmq) option" where
  "shmq_ForEach_loop exec 0 s q idx = None"
| "shmq_ForEach_loop exec (Suc n) s q idx =
     (let (h, q1) = shmq_IdxHead q in
      if idx = h then Some (s, q1)
      else let (go, s', d') = exec s (shmq_DataAt q1 idx); q2 = shmq_SetDataAt q1 idx d' in
           if go then shmq_ForEach_loop exec n s' q2 ((idx + 1) mod capacity q2)
           else Some (s', q2))"

definition shmq_ForEach_Nolock ::
  "('s \<Rightarrow> 'd \<Rightarrow> bool \<times> 's \<times> 'd) \<Rightarrow> 's \<Rightarrow> 'd shmq \<Rightarrow> ('s \<times> 'd shmq) option" where
  "shmq_ForEach_Nolock exec s q =
     (let (t, q1) = shmq_IdxTail q in shmq_ForEach_loop exec (Suc (unat (capacity q))) s q1 t)"

section \<open>The locked operations\<close>

definition shmq_Push :: "'d shmq \<Rightarrow> 'd \<Rightarrow> int \<times> 'd shmq" where
  "shmq_Push q d = (let (rv, q') = shmq_Push_Nolock (shmq_SemLock q) d in (rv, shmq_SemRelease q'))"

definition shmq_Front :: "'d shmq \<Rightarrow> int \<times> 'd option \<times> 'd shmq" where
  "shmq_Front q = (let (rv, d, q') = shmq_Front_Nolock (shmq_SemLock q) in (rv, d, shmq_SemRelease q'))"

definition shmq_Pop :: "'d shmq \<Rightarrow> bool \<Rightarrow> int \<times> 'd option \<times> 'd shmq" where
  "shmq_Pop q want =
     (let (rv, d, q') = shmq_Pop_Nolock (shmq_SemLock q) want in (rv, d, shmq_SemRelease q'))"

definition shmq_Size :: "'d shmq \<Rightarrow> index \<times> 'd shmq" where
  "shmq_Size q = (let (rv, q') = shmq_Size_Nolock (shmq_SemLock q) in (rv, shmq_SemRelease q'))"

definition shmq_Empty :: "'d shmq \<Rightarrow> bool \<times> 'd shmq" where
  "shmq_Empty q = (let (rv, q') = shmq_Empty_Nolock (shmq_SemLock q) in (rv, shmq_SemRelease q'))"

text \<open>The source's \<open>Full\<close> calls \<open>Empty_Nolock\<close>.\<close>

definition shmq_Full :: "'d shmq \<Rightarrow> bool \<times> 'd shmq" where
  "shmq_Full q = (let (rv, q') = shmq_Empty_Nolock (shmq_SemLock q) in (rv, shmq_SemRelease q'))"

definition shmq_ForEach ::
  "('s \<Rightarrow> 'd \<Rightarrow> bool \<times> 's \<times> 'd) \<Rightarrow> 's \<Rightarrow> 'd shmq \<Rightarrow> ('s \<times> 'd shmq) option" where
  "shmq_ForEach exec s q =
     (case shmq_ForEach_Nolock exec s (shmq_SemLock q) of
        None \<Rightarrow> None | Some (s', q') \<Rightarrow> Some (s', shmq_SemRelease q'))"

section \<open>Attaching to the segment\<close>

text \<open>
  What the kernel answers: \<open>shmget\<close> with \<open>IPC_EXCL\<close> makes a new zero-filled segment,
  finds an existing one or fails; \<open>shmat\<close> answers an address, and \<open>(void *) -1\<close> when it
  fails. The source compares that answer with \<open>NULL\<close>, so a failed attach is followed by an
  access through an invalid address, the model's \<open>None\<close>.
\<close>

datatype shm_create = ShmNew | ShmExists | ShmCreateFails
datatype shm_attach = AtAddress | AtNull | AtFails

definition shmq_new_segment :: "index \<Rightarrow> index \<Rightarrow> 'd \<Rightarrow> 'd shmq" where
  "shmq_new_segment cap dsize zero =
     \<lparr>magic = 0, capacity = cap, data_size = dsize, idx_head = 0, idx_tail = 0,
      slots = replicate (unat cap) zero, sem_held = 0\<rparr>"

definition shmq_Init ::
  "int \<Rightarrow> shm_create \<Rightarrow> bool \<Rightarrow> shm_attach \<Rightarrow> 'd shmq \<Rightarrow> 'd \<Rightarrow> index \<Rightarrow> index \<Rightarrow>
     (int \<times> 'd shmq option) option" where
  "shmq_Init sem_rv create reget_ok attach old zero dsize cap0 =
     (let cap = cap0 + 1 in
      if sem_rv \<noteq> SHMQ_SUCCESS then Some (E_SHM_QUEUE_SEMLOCK, None)
      else case create of
        ShmCreateFails \<Rightarrow> Some (E_SHM_QUEUE_SHMGET, None)
      | ShmExists \<Rightarrow>
          (if \<not> reget_ok then Some (E_SHM_QUEUE_SHMGET, None)
           else case attach of
             AtNull \<Rightarrow> Some (E_SHM_QUEUE_SHMAT, None)
           | AtFails \<Rightarrow> None
           | AtAddress \<Rightarrow>
               (if capacity old \<noteq> cap then Some (E_SHM_QUEUE_SHM_MISMATCH, Some old)
                else if data_size old \<noteq> dsize then Some (E_SHM_QUEUE_SHM_MISMATCH, Some old)
                else Some (SHMQ_SUCCESS, Some old)))
      | ShmNew \<Rightarrow>
          (case attach of
             AtNull \<Rightarrow> Some (E_SHM_QUEUE_SHMAT, None)
           | AtFails \<Rightarrow> None
           | AtAddress \<Rightarrow> Some (SHMQ_SUCCESS, Some (shmq_new_segment cap dsize zero))))"

section \<open>The queue as a list\<close>

definition shmq_cap :: "'d shmq \<Rightarrow> nat" where
  "shmq_cap q = unat (capacity q)"

definition shmq_head :: "'d shmq \<Rightarrow> nat" where
  "shmq_head q = unat (idx_head q) mod shmq_cap q"

definition shmq_tail :: "'d shmq \<Rightarrow> nat" where
  "shmq_tail q = unat (idx_tail q) mod shmq_cap q"

definition shmq_items :: "'d shmq \<Rightarrow> 'd list" where
  "shmq_items q = ring_list (slots q) (shmq_tail q) (ring_count (shmq_cap q) (shmq_head q) (shmq_tail q))"

definition shmq_limit :: "'d shmq \<Rightarrow> nat" where
  "shmq_limit q = shmq_cap q - 1"

text \<open>The segment is well formed: at least one slot, and as many slots as the header says.\<close>

definition shmq_inv :: "'d shmq \<Rightarrow> bool" where
  "shmq_inv q \<longleftrightarrow> 0 < shmq_cap q \<and> length (slots q) = shmq_cap q"

text \<open>Both indices reduced, the state after both accessors ran.\<close>

definition shmq_norm :: "'d shmq \<Rightarrow> 'd shmq" where
  "shmq_norm q = q\<lparr>idx_head := idx_head q mod capacity q, idx_tail := idx_tail q mod capacity q\<rparr>"

lemmas shmq_access = shmq_IdxHead_def shmq_IdxTail_def shmq_DataAt_def shmq_SetDataAt_def
  shmq_SemLock_def shmq_SemRelease_def

lemmas shmq_view = shmq_cap_def shmq_head_def shmq_tail_def shmq_items_def shmq_limit_def shmq_inv_def

lemma shmq_index_eq:
  "idx_head q mod capacity q = idx_tail q mod capacity q \<longleftrightarrow> shmq_head q = shmq_tail q"
  by (simp add: shmq_view word_eq_unat unat_mod_distrib)

lemma shmq_head_less: "shmq_inv q \<Longrightarrow> shmq_head q < shmq_cap q"
  and shmq_tail_less: "shmq_inv q \<Longrightarrow> shmq_tail q < shmq_cap q"
  by (simp_all add: shmq_view)

lemma shmq_norm_simps [simp]:
  "shmq_inv (shmq_norm q) = shmq_inv q" "shmq_items (shmq_norm q) = shmq_items q"
  "shmq_cap (shmq_norm q) = shmq_cap q" "shmq_limit (shmq_norm q) = shmq_limit q"
  "shmq_head (shmq_norm q) = shmq_head q" "shmq_tail (shmq_norm q) = shmq_tail q"
  "capacity (shmq_norm q) = capacity q" "slots (shmq_norm q) = slots q"
  by (simp_all add: shmq_norm_def shmq_view unat_mod_distrib)

lemma shmq_sem_simps [simp]:
  "shmq_inv (q\<lparr>sem_held := n\<rparr>) = shmq_inv q" "shmq_items (q\<lparr>sem_held := n\<rparr>) = shmq_items q"
  "shmq_limit (q\<lparr>sem_held := n\<rparr>) = shmq_limit q" "shmq_cap (q\<lparr>sem_held := n\<rparr>) = shmq_cap q"
  "shmq_norm (q\<lparr>sem_held := n\<rparr>) = (shmq_norm q)\<lparr>sem_held := n\<rparr>"
  by (simp_all add: shmq_view shmq_norm_def)

lemma shmq_items_empty: "shmq_inv q \<Longrightarrow> shmq_items q = [] \<longleftrightarrow> shmq_head q = shmq_tail q"
  using ring_count_zero [OF shmq_head_less shmq_tail_less, of q]
  by (simp add: shmq_items_def flip: length_0_conv)

lemma shmq_succ_head: "shmq_inv q \<Longrightarrow>
    unat ((idx_head q mod capacity q + 1) mod capacity q) = Suc (shmq_head q) mod shmq_cap q"
  using unat_succ_below [of "idx_head q mod capacity q" "capacity q"]
  by (simp add: shmq_view unat_mod_distrib)

lemma shmq_items_full:
  assumes "shmq_inv q"
  shows "(idx_head q mod capacity q + 1) mod capacity q = idx_tail q mod capacity q
    \<longleftrightarrow> length (shmq_items q) = shmq_limit q"
proof -
  have "(idx_head q mod capacity q + 1) mod capacity q = idx_tail q mod capacity q
      \<longleftrightarrow> Suc (shmq_head q) mod shmq_cap q = shmq_tail q"
    unfolding word_eq_unat by (simp add: shmq_succ_head [OF assms]) (simp add: shmq_view unat_mod_distrib)
  with ring_count_full [OF shmq_head_less [OF assms] shmq_tail_less [OF assms]] show ?thesis
    by (simp add: shmq_items_def shmq_limit_def)
qed

lemma shmq_items_within: "shmq_inv q \<Longrightarrow> length (shmq_items q) \<le> shmq_limit q"
  by (auto simp: shmq_items_def shmq_limit_def shmq_inv_def less_imp_le_nat
      intro: Suc_leI dest: ring_count_less [of _ "shmq_head q" "shmq_tail q"])

section \<open>What the operations without the lock do\<close>

lemma shmq_Empty_Nolock_eq:
  "shmq_inv q \<Longrightarrow> shmq_Empty_Nolock q = (shmq_items q = [], shmq_norm q)"
  by (auto simp: shmq_Empty_Nolock_def shmq_access shmq_norm_def shmq_items_empty Let_def
      simp flip: shmq_index_eq)

lemma shmq_Full_Nolock_eq:
  "shmq_inv q \<Longrightarrow> shmq_Full_Nolock q = (length (shmq_items q) = shmq_limit q, shmq_norm q)"
  by (simp add: shmq_Full_Nolock_def shmq_access shmq_norm_def Let_def flip: shmq_items_full)

definition shmq_pushed :: "'d shmq \<Rightarrow> 'd \<Rightarrow> 'd shmq" where
  "shmq_pushed q d = (shmq_norm q)\<lparr>slots := (slots q)[shmq_head q := d],
     idx_head := idx_head q mod capacity q + 1\<rparr>"

definition shmq_popped :: "'d shmq \<Rightarrow> 'd shmq" where
  "shmq_popped q = (shmq_norm q)\<lparr>idx_tail := idx_tail q mod capacity q + 1\<rparr>"

lemma shmq_Push_Nolock_eq:
  assumes "shmq_inv q"
  shows "shmq_Push_Nolock q d =
    (if length (shmq_items q) < shmq_limit q then (SHMQ_SUCCESS, shmq_pushed q d)
     else (E_SHM_QUEUE_FULL, shmq_norm q))"
proof -
  have "length (shmq_items q) = shmq_limit q \<longleftrightarrow> \<not> length (shmq_items q) < shmq_limit q"
    using shmq_items_within [OF assms] by linarith
  with assms show ?thesis
    by (simp add: shmq_Push_Nolock_def shmq_Full_Nolock_eq shmq_pushed_def shmq_norm_def
        shmq_access shmq_view unat_mod_distrib Let_def)
qed

lemma shmq_first:
  assumes "shmq_inv q" "shmq_items q \<noteq> []"
  shows "shmq_DataAt q (idx_tail q mod capacity q) = hd (shmq_items q)"
proof -
  from assms have "0 < ring_count (shmq_cap q) (shmq_head q) (shmq_tail q)"
    by (cases "ring_count (shmq_cap q) (shmq_head q) (shmq_tail q)") (simp_all add: shmq_items_def)
  with assms(1) show ?thesis
    by (simp add: shmq_items_def ring_list_hd shmq_DataAt_def) (simp add: shmq_view unat_mod_distrib)
qed

lemma shmq_Front_Nolock_eq:
  assumes "shmq_inv q"
  shows "shmq_Front_Nolock q =
    (if shmq_items q = [] then (E_SHM_QUEUE_EMPTY, None, shmq_norm q)
     else (SHMQ_SUCCESS, Some (hd (shmq_items q)), shmq_norm q))"
  using assms shmq_first [OF assms]
  by (simp add: shmq_Front_Nolock_def shmq_Empty_Nolock_eq shmq_access shmq_norm_def Let_def)

lemma shmq_Pop_Nolock_eq:
  assumes "shmq_inv q"
  shows "shmq_Pop_Nolock q want =
    (if shmq_items q = [] then (E_SHM_QUEUE_EMPTY, None, shmq_norm q)
     else (SHMQ_SUCCESS, if want then Some (hd (shmq_items q)) else None, shmq_popped q))"
  using assms shmq_first [OF assms]
  by (simp add: shmq_Pop_Nolock_def shmq_Empty_Nolock_eq shmq_access shmq_norm_def shmq_popped_def
      Let_def split_beta)

lemma shmq_pushed_inv [simp]: "shmq_inv q \<Longrightarrow> shmq_inv (shmq_pushed q d)"
  and shmq_pushed_limit [simp]: "shmq_limit (shmq_pushed q d) = shmq_limit q"
  and shmq_popped_inv [simp]: "shmq_inv q \<Longrightarrow> shmq_inv (shmq_popped q)"
  and shmq_popped_limit [simp]: "shmq_limit (shmq_popped q) = shmq_limit q"
  by (simp_all add: shmq_view shmq_pushed_def shmq_popped_def shmq_norm_def)

lemma shmq_pushed_items:
  assumes "shmq_inv q" "length (shmq_items q) < shmq_limit q"
  shows "shmq_items (shmq_pushed q d) = shmq_items q @ [d]"
proof -
  let ?c = "shmq_cap q" and ?h = "shmq_head q" and ?t = "shmq_tail q"
  let ?n = "ring_count ?c ?h ?t"
  note b = shmq_head_less [OF assms(1)] shmq_tail_less [OF assms(1)]
  have frame: "shmq_cap (shmq_pushed q d) = ?c" "shmq_tail (shmq_pushed q d) = ?t"
    "slots (shmq_pushed q d) = (slots q)[?h := d]"
    by (simp_all add: shmq_pushed_def shmq_norm_def shmq_view unat_mod_distrib)
  have head: "shmq_head (shmq_pushed q d) = Suc ?h mod ?c"
    using unat_succ_below [of "idx_head q mod capacity q" "capacity q"] assms(1)
    by (simp add: shmq_pushed_def shmq_norm_def shmq_view unat_mod_distrib)
  have n: "?n < ?c - 1" using assms(2) by (simp add: shmq_items_def shmq_limit_def)
  then have "Suc ?h mod ?c \<noteq> ?t" using ring_count_full [OF b] by auto
  then have count: "ring_count ?c (Suc ?h mod ?c) ?t = Suc ?n" by (rule ring_count_push [OF b])
  have len: "length (slots q) = ?c" using assms(1) by (simp add: shmq_inv_def)
  have "ring_list ((slots q)[(?t + ?n) mod length (slots q) := d]) ?t (Suc ?n)
      = ring_list (slots q) ?t ?n @ [d]"
    using n len by (intro ring_list_push) linarith
  then show ?thesis
    by (simp add: shmq_items_def frame head count len ring_count_head [OF b])
qed

lemma shmq_popped_items:
  assumes "shmq_inv q" "shmq_items q \<noteq> []"
  shows "shmq_items (shmq_popped q) = tl (shmq_items q)"
proof -
  let ?c = "shmq_cap q" and ?h = "shmq_head q" and ?t = "shmq_tail q"
  let ?n = "ring_count ?c ?h (Suc ?t mod ?c)"
  note b = shmq_head_less [OF assms(1)] shmq_tail_less [OF assms(1)]
  have frame: "shmq_cap (shmq_popped q) = ?c" "shmq_head (shmq_popped q) = ?h"
    "slots (shmq_popped q) = slots q"
    by (simp_all add: shmq_popped_def shmq_norm_def shmq_view unat_mod_distrib)
  have tail: "shmq_tail (shmq_popped q) = Suc ?t mod ?c"
    using unat_succ_below [of "idx_tail q mod capacity q" "capacity q"] assms(1)
    by (simp add: shmq_popped_def shmq_norm_def shmq_view unat_mod_distrib)
  have count: "Suc ?n = ring_count ?c ?h ?t"
    using ring_count_pop [OF b] assms shmq_items_empty by blast
  have len: "length (slots q) = ?c" using assms(1) by (simp add: shmq_inv_def)
  have "ring_list (slots q) (Suc ?t mod length (slots q)) ?n = tl (ring_list (slots q) ?t (Suc ?n))"
    by (rule ring_list_pop)
  then show ?thesis
    by (simp add: shmq_items_def frame tail len flip: count)
qed

section \<open>The queue is a bounded first-in first-out queue\<close>

definition shmq_push_op :: "'d shmq \<Rightarrow> 'd \<Rightarrow> bool \<times> 'd shmq" where
  "shmq_push_op q d = (let (rv, q') = shmq_Push q d in (rv = SHMQ_SUCCESS, q'))"

definition shmq_pop_op :: "'d shmq \<Rightarrow> 'd option \<times> 'd shmq" where
  "shmq_pop_op q = (let (rv, d, q') = shmq_Pop q True in (d, q'))"

lemmas shmq_locked = shmq_push_op_def shmq_pop_op_def shmq_Push_def shmq_Pop_def shmq_Front_def
  shmq_Empty_def shmq_Full_def shmq_SemLock_def shmq_SemRelease_def

interpretation shmq_fifo: bounded_fifo shmq_inv shmq_items shmq_limit shmq_push_op shmq_pop_op
proof (unfold_locales, goal_cases)
  case (3 q)
  then show ?case by (cases "shmq_items q") (simp_all add: shmq_locked shmq_Pop_Nolock_eq)
qed (auto simp: shmq_locked shmq_Push_Nolock_eq shmq_Pop_Nolock_eq shmq_pushed_items
      shmq_popped_items shmq_items_within)

text \<open>The operations without the lock satisfy the same interface; the unique queue is built on them.\<close>

definition shmq_raw_push :: "'d shmq \<Rightarrow> 'd \<Rightarrow> bool \<times> 'd shmq" where
  "shmq_raw_push q d = (let (rv, q') = shmq_Push_Nolock q d in (rv = SHMQ_SUCCESS, q'))"

definition shmq_raw_pop :: "'d shmq \<Rightarrow> 'd option \<times> 'd shmq" where
  "shmq_raw_pop q = (let (rv, d, q') = shmq_Pop_Nolock q True in (d, q'))"

interpretation shmq_raw: bounded_fifo shmq_inv shmq_items shmq_limit shmq_raw_push shmq_raw_pop
proof (unfold_locales, goal_cases)
  case (3 q)
  then show ?case by (cases "shmq_items q") (simp_all add: shmq_raw_pop_def shmq_Pop_Nolock_eq)
qed (auto simp: shmq_raw_push_def shmq_raw_pop_def shmq_Push_Nolock_eq shmq_Pop_Nolock_eq
      shmq_pushed_items shmq_popped_items shmq_items_within)

section \<open>Walking the queue\<close>

text \<open>The reference walk over a list, for a callback that leaves the elements alone.\<close>

fun walk_list :: "('s \<Rightarrow> 'd \<Rightarrow> bool \<times> 's \<times> 'd) \<Rightarrow> 's \<Rightarrow> 'd list \<Rightarrow> 's" where
  "walk_list exec s [] = s"
| "walk_list exec s (d # ds) =
     (let (go, s', d') = exec s d in if go then walk_list exec s' ds else s')"

definition reads_only :: "('s \<Rightarrow> 'd \<Rightarrow> bool \<times> 's \<times> 'd) \<Rightarrow> bool" where
  "reads_only exec \<longleftrightarrow> (\<forall>s d. snd (snd (exec s d)) = d)"

definition shmq_head_reduced :: "'d shmq \<Rightarrow> 'd shmq" where
  "shmq_head_reduced q = q\<lparr>idx_head := idx_head q mod capacity q\<rparr>"

lemma shmq_SetDataAt_same: "shmq_SetDataAt q i (shmq_DataAt q i) = q"
  by (simp add: shmq_SetDataAt_def shmq_DataAt_def)

lemma shmq_ForEach_loop_eq:
  assumes "reads_only exec" "shmq_inv q" "unat i < shmq_cap q"
    and "ring_count (shmq_cap q) (shmq_head q) (unat i) < n"
  shows "shmq_ForEach_loop exec n s q i = Some
     (walk_list exec s (ring_list (slots q) (unat i) (ring_count (shmq_cap q) (shmq_head q) (unat i))),
      shmq_head_reduced q)"
  using assms(2-4)
proof (induction n arbitrary: s q i)
  case 0
  then show ?case by simp
next
  case (Suc n)
  let ?c = "shmq_cap q" and ?h = "shmq_head q"
  let ?q = "shmq_head_reduced q" and ?j = "(i + 1) mod capacity q"
  have hb: "?h < ?c" by (rule shmq_head_less) (rule Suc.prems)
  have red: "shmq_inv ?q" "shmq_cap ?q = ?c" "shmq_head ?q = ?h" "slots ?q = slots q"
    "shmq_head_reduced ?q = ?q" "capacity ?q = capacity q"
    using Suc.prems by (simp_all add: shmq_view shmq_head_reduced_def unat_mod_distrib)
  have step: "shmq_IdxHead q = (idx_head q mod capacity q, ?q)"
    by (simp add: shmq_IdxHead_def shmq_head_reduced_def Let_def)
  have at_end: "i = idx_head q mod capacity q \<longleftrightarrow> unat i = ?h"
    by (simp add: word_eq_unat shmq_view unat_mod_distrib)
  show ?case
  proof (cases "unat i = ?h")
    case True
    with hb have "ring_count ?c ?h (unat i) = 0" by (simp add: ring_count_zero)
    with True show ?thesis by (simp add: step at_end)
  next
    case False
    obtain m where m: "ring_count ?c ?h (unat i) = Suc m"
      using ring_count_zero [OF hb Suc.prems(2)] False by (metis not0_implies_Suc)
    have j: "unat ?j = Suc (unat i) mod ?c"
      using unat_succ_below [of i "capacity q"] Suc.prems(2) by (simp add: shmq_cap_def unat_mod_distrib)
    then have jm: "ring_count ?c ?h (unat ?j) = m" "unat ?j < ?c"
      using ring_count_pop [OF hb Suc.prems(2)] False m hb by auto
    have len: "length (slots q) = shmq_cap q" using Suc.prems(1) by (simp add: shmq_inv_def)
    have at: "shmq_DataAt ?q i = slots q ! unat i"
      using Suc.prems(2) by (simp add: shmq_DataAt_def red unat_mod_distrib) (simp add: shmq_cap_def)
    obtain go s' where e: "exec s (slots q ! unat i) = (go, s', slots q ! unat i)"
      using assms(1) by (metis prod.collapse reads_only_def)
    have keep: "shmq_SetDataAt ?q i (slots q ! unat i) = ?q"
      using shmq_SetDataAt_same [of ?q i] by (simp add: at)
    have items: "ring_list (slots q) (unat i) (Suc m) = slots q ! unat i # ring_list (slots q) (unat ?j) m"
      using Suc.prems(2) len by (simp only: ring_list_Cons j) (simp only: mod_less)
    from Suc.IH [of ?q ?j s'] jm m Suc.prems(3) red show ?thesis
      by (simp add: step at_end False at e keep m items)
  qed
qed

lemma shmq_ForEach_Nolock_eq:
  assumes "reads_only exec" "shmq_inv q"
  shows "shmq_ForEach_Nolock exec s q = Some (walk_list exec s (shmq_items q), shmq_norm q)"
proof -
  let ?q = "q\<lparr>idx_tail := idx_tail q mod capacity q\<rparr>"
  have red: "shmq_inv ?q" "shmq_cap ?q = shmq_cap q" "shmq_head ?q = shmq_head q" "slots ?q = slots q"
    "shmq_head_reduced ?q = shmq_norm q"
    using assms(2) by (simp_all add: shmq_view shmq_head_reduced_def shmq_norm_def)
  have t: "unat (idx_tail q mod capacity q) = shmq_tail q"
    by (simp add: shmq_view unat_mod_distrib)
  have "0 < shmq_cap q" using assms(2) by (simp add: shmq_inv_def)
  then have "ring_count (shmq_cap q) (shmq_head q) (shmq_tail q) < Suc (unat (capacity q))"
    unfolding shmq_cap_def by (intro less_SucI ring_count_less)
  then show ?thesis
    using shmq_ForEach_loop_eq [OF assms(1) red(1), of "idx_tail q mod capacity q"] shmq_tail_less [OF assms(2)]
    by (simp add: shmq_ForEach_Nolock_def shmq_IdxTail_def red t shmq_items_def Let_def
        del: shmq_ForEach_loop.simps)
qed

text \<open>Every locked operation releases the semaphore it took.\<close>

lemma shmq_norm_sem [simp]: "sem_held (shmq_norm q) = sem_held q"
  by (simp add: shmq_norm_def)

lemma shmq_run_sem:
  assumes "shmq_inv q"
  shows "sem_held (snd (fifo_run shmq_push_op shmq_pop_op q ps)) = sem_held q"
  using assms
proof (induction ps arbitrary: q)
  case Nil
  then show ?case by simp
next
  case (Cons p ps)
  have "sem_held (snd (fifo_op_step shmq_push_op shmq_pop_op q p)) = sem_held q"
    using Cons.prems by (cases p)
      (simp_all add: shmq_locked shmq_Push_Nolock_eq shmq_Pop_Nolock_eq shmq_pushed_def shmq_popped_def)
  with Cons.IH shmq_fifo.step_refines(3) [OF Cons.prems] show ?case
    by (simp add: split_beta)
qed

section \<open>Properties\<close>

text \<open>C20. Any sequence of locked pushes and pops on a well-formed segment answers exactly what a
  list of at most capacity - 1 elements answers (a push refused only when full, a pop empty only
  when empty, first in first out), leaves the same elements, and releases the semaphore as often
  as it takes it.
\<close>

theorem shmq_refines_bounded_list:
  assumes "shmq_inv q"
  shows "fst (fifo_run shmq_push_op shmq_pop_op q ps) = fst (list_run (shmq_limit q) (shmq_items q) ps)
    \<and> shmq_items (snd (fifo_run shmq_push_op shmq_pop_op q ps)) = snd (list_run (shmq_limit q) (shmq_items q) ps)
    \<and> shmq_inv (snd (fifo_run shmq_push_op shmq_pop_op q ps))
    \<and> sem_held (snd (fifo_run shmq_push_op shmq_pop_op q ps)) = sem_held q"
  using shmq_fifo.run_refines [OF assms] shmq_run_sem [OF assms] by blast

theorem shmq_refines_bounded_list_witness:
  "fst (fifo_run shmq_push_op shmq_pop_op (shmq_new_segment 3 4 (0::int))
     [Push 7, Push 8, Push 9, Pop, Push 5, Pop, Pop, Pop])
   = [Accepted True, Accepted True, Accepted False, Popped (Some 7), Accepted True,
      Popped (Some 8), Popped (Some 5), Popped None]"
proof -
  have i: "shmq_inv (shmq_new_segment 3 4 (0::int))" and l: "shmq_limit (shmq_new_segment 3 4 (0::int)) = 2"
    and e: "shmq_items (shmq_new_segment 3 4 (0::int)) = []"
    by (simp_all add: shmq_new_segment_def shmq_view ring_count_def)
  from shmq_refines_bounded_list [OF i, of "[Push 7, Push 8, Push 9, Pop, Push 5, Pop, Pop, Pop]"]
  show ?thesis by (simp add: l e)
qed

text \<open>C38. A walk with a callback that only reads visits the queued elements from the oldest on, in
  order, stops where the callback says stop, always ends, and leaves the queue's elements as they
  were.
\<close>

theorem shmq_ForEach_in_order:
  assumes "reads_only exec" "shmq_inv q"
  shows "\<exists>q'. shmq_ForEach exec s q = Some (walk_list exec s (shmq_items q), q')
    \<and> shmq_items q' = shmq_items q \<and> shmq_inv q' \<and> sem_held q' = sem_held q"
  using assms shmq_ForEach_Nolock_eq [of exec "shmq_SemLock q" s]
  by (simp add: shmq_ForEach_def shmq_SemLock_def shmq_SemRelease_def)

theorem shmq_ForEach_in_order_witness:
  "reads_only (\<lambda>s (d::int). (True, s @ [d], d))
   \<and> shmq_items (snd (shmq_Push (shmq_new_segment 3 4 0) (7::int))) = [7]
   \<and> (\<exists>q'. shmq_ForEach (\<lambda>s (d::int). (True, s @ [d], d)) [] (snd (shmq_Push (shmq_new_segment 3 4 0) 7))
        = Some ([7], q'))"
proof -
  let ?q = "snd (shmq_Push (shmq_new_segment 3 4 0) (7::int))"
  have r: "reads_only (\<lambda>s (d::int). (True, s @ [d], d))" by (simp add: reads_only_def)
  have n: "shmq_inv (shmq_new_segment 3 4 (0::int))" "shmq_limit (shmq_new_segment 3 4 (0::int)) = 2"
    "shmq_items (shmq_new_segment 3 4 (0::int)) = []"
    by (simp_all add: shmq_new_segment_def shmq_view ring_count_def)
  have i: "shmq_inv ?q" and e: "shmq_items ?q = [7]"
    using n by (simp_all add: shmq_locked shmq_Push_Nolock_eq shmq_pushed_items)
  from shmq_ForEach_in_order [OF r i, of "[]"] r e show ?thesis by auto
qed

text \<open>\<open>Full\<close> answers whether the queue is empty (its body calls the emptiness test): on a
  queue that refuses a push because it is full, \<open>Full\<close> answers false, and on an empty one true.
\<close>

theorem shmq_Full_answers_empty:
  assumes "shmq_inv q" "0 < shmq_limit q"
  shows "fst (shmq_Full q) = (shmq_items q = [])
    \<and> (fst (shmq_Push q d) = E_SHM_QUEUE_FULL \<longrightarrow> \<not> fst (shmq_Full q))"
proof -
  have "fst (shmq_Push q d) = E_SHM_QUEUE_FULL \<longrightarrow> length (shmq_items q) = shmq_limit q"
    using assms shmq_items_within [OF assms(1)]
    by (auto simp: shmq_locked shmq_Push_Nolock_eq split: if_splits)
  then show ?thesis
    using assms by (auto simp: shmq_locked shmq_Empty_Nolock_eq)
qed

theorem shmq_Full_answers_empty_witness:
  "fst (shmq_Full (snd (shmq_Push (shmq_new_segment 2 4 0) (7::int)))) = False"
proof -
  let ?q = "snd (shmq_Push (shmq_new_segment 2 4 0) (7::int))"
  have n: "shmq_inv (shmq_new_segment 2 4 (0::int))" "shmq_limit (shmq_new_segment 2 4 (0::int)) = 1"
    "shmq_items (shmq_new_segment 2 4 (0::int)) = []"
    by (simp_all add: shmq_new_segment_def shmq_view ring_count_def)
  have i: "shmq_inv ?q" "shmq_limit ?q = 1" and e: "shmq_items ?q = [7]"
    using n by (simp_all add: shmq_locked shmq_Push_Nolock_eq shmq_pushed_items)
  from shmq_Full_answers_empty [of ?q 8] i e show ?thesis by simp
qed

end
