(* ===== verification/ShmQueueUnique.thy ===== *)
theory ShmQueueUnique
  imports ShmQueueEx
begin

text \<open>
  The queue with unique keys, \<open>CShmQueueUnique\<close> of
  \<open>bis/src/server/snslib/comm/shm_queue_ex/shm_queue_unique.h\<close>: a process-local set of the
  keys in the shared queue, rebuilt on \<open>Init\<close> by a walk, consulted by \<open>Push\<close> (which takes
  the key back when the queue refuses the element) and shrunk by \<open>Pop\<close>. The element type's
  \<open>UniqueKey\<close> method is the parameter \<open>key\<close>.
\<close>

section \<open>State and operations\<close>

record ('k, 'd) shmuq =
  base :: "'d shmq"
  key_set :: "'k set"

abbreviation (input) E_SHM_QUEUE_DUP_KEY :: int where "E_SHM_QUEUE_DUP_KEY \<equiv> - 611"

text \<open>\<open>InitCallback::Exec\<close>; its state is the key set and the result code.\<close>

definition shmuq_InitCallback ::
  "('d \<Rightarrow> 'k) \<Rightarrow> 'k set \<times> int \<Rightarrow> 'd \<Rightarrow> bool \<times> ('k set \<times> int) \<times> 'd" where
  "shmuq_InitCallback key s d =
     (if key d \<notin> fst s then (True, (insert (key d) (fst s), snd s), d)
      else (False, (fst s, E_SHM_QUEUE_DUP_KEY), d))"

definition shmuq_Init ::
  "('d \<Rightarrow> 'k) \<Rightarrow> int \<Rightarrow> shm_create \<Rightarrow> bool \<Rightarrow> shm_attach \<Rightarrow> 'd shmq \<Rightarrow> 'd \<Rightarrow> index \<Rightarrow> index \<Rightarrow>
     (int \<times> ('k, 'd) shmuq option) option" where
  "shmuq_Init key sem_rv create reget_ok attach old zero dsize cap0 =
     (case shmq_Init sem_rv create reget_ok attach old zero dsize cap0 of
        None \<Rightarrow> None
      | Some (rv, None) \<Rightarrow> Some (rv, None)
      | Some (rv, Some q) \<Rightarrow>
          (if rv = SHMQ_SUCCESS then
             case shmq_ForEach (shmuq_InitCallback key) ({}, SHMQ_SUCCESS) q of
               None \<Rightarrow> None
             | Some ((ks, result), q') \<Rightarrow> Some (result, Some \<lparr>base = q', key_set = ks\<rparr>)
           else Some (rv, Some \<lparr>base = q, key_set = {}\<rparr>)))"

definition shmuq_Push :: "('d \<Rightarrow> 'k) \<Rightarrow> ('k, 'd) shmuq \<Rightarrow> 'd \<Rightarrow> int \<times> ('k, 'd) shmuq" where
  "shmuq_Push key u d =
     (let b = shmq_SemLock (base u) in
      if key d \<notin> key_set u then
        let ks = insert (key d) (key_set u); (rv, b') = shmq_Push_Nolock b d in
        (rv, \<lparr>base = shmq_SemRelease b', key_set = (if rv \<noteq> SHMQ_SUCCESS then ks - {key d} else ks)\<rparr>)
      else (E_SHM_QUEUE_DUP_KEY, u\<lparr>base := shmq_SemRelease b\<rparr>))"

text \<open>
  \<open>tmp\<close> is what the caller's element (or the local one, when the caller passes none) holds
  before the call; an empty queue leaves it there, and its key is erased all the same.
\<close>

definition shmuq_Pop :: "('d \<Rightarrow> 'k) \<Rightarrow> ('k, 'd) shmuq \<Rightarrow> 'd \<Rightarrow> int \<times> 'd \<times> ('k, 'd) shmuq" where
  "shmuq_Pop key u tmp =
     (let (rv, out, b) = shmq_Pop_Nolock (shmq_SemLock (base u)) True;
          d = (case out of None \<Rightarrow> tmp | Some x \<Rightarrow> x)
      in (rv, d, \<lparr>base = shmq_SemRelease b, key_set = key_set u - {key d}\<rparr>))"

section \<open>The key set is the set of queued keys\<close>

definition shmuq_items :: "('k, 'd) shmuq \<Rightarrow> 'd list" where
  "shmuq_items u = shmq_items (base u)"

definition shmuq_inv :: "('d \<Rightarrow> 'k) \<Rightarrow> ('k, 'd) shmuq \<Rightarrow> bool" where
  "shmuq_inv key u \<longleftrightarrow> shmq_inv (base u) \<and> distinct (map key (shmuq_items u))
     \<and> key_set u = key ` set (shmuq_items u)"

lemmas shmuq_simps = shmuq_inv_def shmuq_items_def shmq_SemLock_def shmq_SemRelease_def

lemma shmuq_Push_eq:
  assumes "shmuq_inv key u"
  shows "fst (shmuq_Push key u d) =
      (if key d \<in> key ` set (shmuq_items u) then E_SHM_QUEUE_DUP_KEY
       else if length (shmuq_items u) < shmq_limit (base u) then SHMQ_SUCCESS else E_SHM_QUEUE_FULL)
    \<and> shmuq_items (snd (shmuq_Push key u d)) =
      (if fst (shmuq_Push key u d) = SHMQ_SUCCESS then shmuq_items u @ [d] else shmuq_items u)
    \<and> shmuq_inv key (snd (shmuq_Push key u d))"
  using assms
  by (auto simp: shmuq_Push_def shmuq_simps shmq_Push_Nolock_eq shmq_pushed_items)

lemma shmuq_Pop_eq:
  assumes "shmuq_inv key u"
  shows "fst (shmuq_Pop key u tmp) = (if shmuq_items u = [] then E_SHM_QUEUE_EMPTY else SHMQ_SUCCESS)
    \<and> (shmuq_items u \<noteq> [] \<longrightarrow> fst (snd (shmuq_Pop key u tmp)) = hd (shmuq_items u))
    \<and> shmuq_items (snd (snd (shmuq_Pop key u tmp))) = tl (shmuq_items u)
    \<and> shmuq_inv key (snd (snd (shmuq_Pop key u tmp)))"
  using assms
  by (cases "shmuq_items u")
    (auto simp: shmuq_Pop_def shmuq_simps shmq_Pop_Nolock_eq shmq_popped_items)

text \<open>The walk of \<open>Init\<close> collects the keys up to the first one that repeats.\<close>

lemma walk_InitCallback:
  "walk_list (shmuq_InitCallback key) (ks, r) ds =
     (if distinct (map key ds) \<and> ks \<inter> key ` set ds = {} then (ks \<union> key ` set ds, r)
      else (fst (walk_list (shmuq_InitCallback key) (ks, r) ds), E_SHM_QUEUE_DUP_KEY))"
proof (induction ds arbitrary: ks)
  case Nil
  then show ?case by simp
next
  case (Cons d ds)
  show ?case
    using Cons.IH [of "insert (key d) ks"] by (auto simp: shmuq_InitCallback_def split: if_splits)
qed

lemma shmuq_InitCallback_reads_only: "reads_only (shmuq_InitCallback key)"
  by (simp add: reads_only_def shmuq_InitCallback_def)

section \<open>Properties\<close>

text \<open>C28. On a unique queue whose key set is the set of queued keys, \<open>Push\<close> refuses exactly the
  elements whose key is queued, refuses the others only when the queue is full (and then takes
  their key back), and \<open>Pop\<close> returns the oldest element and frees its key; both keep the keys
  distinct and the key set exact, also when the pop finds the queue empty.
\<close>

theorem shmuq_keys_exact:
  assumes "shmuq_inv key u"
  shows "shmuq_inv key (snd (shmuq_Push key u d)) \<and> shmuq_inv key (snd (snd (shmuq_Pop key u tmp)))
    \<and> (fst (shmuq_Push key u d) = E_SHM_QUEUE_DUP_KEY \<longleftrightarrow> key d \<in> key ` set (shmuq_items u))
    \<and> (fst (shmuq_Push key u d) = E_SHM_QUEUE_FULL \<longleftrightarrow>
         key d \<notin> key ` set (shmuq_items u) \<and> length (shmuq_items u) = shmq_limit (base u))
    \<and> shmuq_items (snd (shmuq_Push key u d)) =
         (if fst (shmuq_Push key u d) = SHMQ_SUCCESS then shmuq_items u @ [d] else shmuq_items u)
    \<and> shmuq_items (snd (snd (shmuq_Pop key u tmp))) = tl (shmuq_items u)
    \<and> (shmuq_items u \<noteq> [] \<longrightarrow> fst (snd (shmuq_Pop key u tmp)) = hd (shmuq_items u))"
proof -
  have "length (shmuq_items u) \<le> shmq_limit (base u)"
    using assms shmq_items_within [of "base u"] by (simp add: shmuq_simps)
  then show ?thesis
    using shmuq_Push_eq [OF assms, of d] shmuq_Pop_eq [OF assms, of tmp] by auto
qed

theorem shmuq_keys_exact_witness:
  "fst (shmuq_Push fst (snd (shmuq_Push fst \<lparr>base = shmq_new_segment 3 8 (0, 0), key_set = {}\<rparr> (1::int, 2::int))) (1, 5))
     = E_SHM_QUEUE_DUP_KEY"
proof -
  let ?u = "\<lparr>base = shmq_new_segment 3 8 (0::int, 0::int), key_set = {}\<rparr>"
  have i: "shmuq_inv fst ?u" and e: "shmuq_items ?u = []" and l: "shmq_limit (shmq_new_segment 3 8 (0::int, 0::int)) = 2"
    by (simp_all add: shmuq_simps shmq_new_segment_def shmq_view ring_count_def)
  note p = shmuq_Push_eq [OF i, of "(1, 2)"]
  have ok: "fst (shmuq_Push fst ?u (1, 2)) = SHMQ_SUCCESS"
    using p by (simp add: e l)
  then have j: "shmuq_inv fst (snd (shmuq_Push fst ?u (1, 2)))"
    and f: "shmuq_items (snd (shmuq_Push fst ?u (1, 2))) = [(1, 2)]"
    using p by (simp_all add: e)
  from shmuq_keys_exact [OF j, of "(1, 5)" "(0, 0)"] f show ?thesis by auto
qed

text \<open>Attaching to an existing segment of the right capacity and element size always ends,
  keeps the queued elements, and succeeds exactly when the keys of the queued elements are
  distinct; after a success the key set is the set of queued keys.
\<close>

theorem shmuq_Init_rebuilds_keys:
  assumes "shmq_inv old" "capacity old = cap0 + 1" "data_size old = dsize"
  shows "\<exists>rv u. shmuq_Init key SHMQ_SUCCESS ShmExists True AtAddress old zero dsize cap0 = Some (rv, Some u)
    \<and> shmuq_items u = shmq_items old
    \<and> (rv = SHMQ_SUCCESS \<longleftrightarrow> distinct (map key (shmq_items old)))
    \<and> (rv = SHMQ_SUCCESS \<longrightarrow> shmuq_inv key u)"
proof -
  have i: "shmq_inv (shmq_SemLock old)" "shmq_items (shmq_SemLock old) = shmq_items old"
    using assms(1) by (simp_all add: shmq_SemLock_def)
  obtain ks r where w: "walk_list (shmuq_InitCallback key) ({}, SHMQ_SUCCESS) (shmq_items old) = (ks, r)"
    by fastforce
  have walk: "shmq_ForEach (shmuq_InitCallback key) ({}, SHMQ_SUCCESS) old =
      Some ((ks, r), shmq_SemRelease (shmq_norm (shmq_SemLock old)))"
    by (simp add: shmq_ForEach_def shmq_ForEach_Nolock_eq [OF shmuq_InitCallback_reads_only i(1)] i(2) w)
  have d: "r = SHMQ_SUCCESS \<longleftrightarrow> distinct (map key (shmq_items old))"
    "r = SHMQ_SUCCESS \<Longrightarrow> ks = key ` set (shmq_items old)"
    using walk_InitCallback [of key "{}" SHMQ_SUCCESS "shmq_items old", unfolded w]
    by (auto split: if_splits)
  show ?thesis
    using assms walk d by (auto simp: shmuq_Init_def shmq_Init_def Let_def shmuq_simps)
qed

theorem shmuq_Init_rebuilds_keys_witness:
  "\<exists>rv u. shmuq_Init (\<lambda>x. x) SHMQ_SUCCESS ShmExists True AtAddress
      (snd (shmq_Push (shmq_new_segment 3 4 0) (7::int))) 0 4 2 = Some (rv, Some u)
    \<and> rv = SHMQ_SUCCESS \<and> shmuq_items u = [7]"
proof -
  let ?q = "snd (shmq_Push (shmq_new_segment 3 4 0) (7::int))"
  have n: "shmq_inv (shmq_new_segment 3 4 (0::int))" "shmq_limit (shmq_new_segment 3 4 (0::int)) = 2"
    "shmq_items (shmq_new_segment 3 4 (0::int)) = []"
    by (simp_all add: shmq_new_segment_def shmq_view ring_count_def)
  have i: "shmq_inv ?q" and e: "shmq_items ?q = [7]" and c: "capacity ?q = 2 + 1" "data_size ?q = 4"
    using n by (simp_all add: shmq_locked shmq_Push_Nolock_eq shmq_pushed_items)
      (simp_all add: shmq_pushed_def shmq_norm_def shmq_new_segment_def)
  from shmuq_Init_rebuilds_keys [OF i c, of "\<lambda>x. x" 0] show ?thesis by (auto simp: e)
qed

end
