(* ===== verification/RingQueue.thy ===== *)
theory RingQueue
  imports BoundedFifo
begin

text \<open>
  The fixed-size ring queue \<open>tnt::ring_queue<T, Size>\<close> of
  \<open>bis/src/server/include/ring_queue.h\<close>. The array
  \<open>data_\<close> has \<open>Size\<close> elements while the indices run modulo \<open>Size + 1\<close>; an access to
  element \<open>Size\<close> lies outside the array and is the model's \<open>None\<close>.
\<close>

section \<open>State and operations\<close>

record 'a ring_queue =
  rq_data :: "'a list"
  rq_front_m :: nat
  rq_rear_m :: nat
  rq_size_m :: nat
  rq_max_size_m :: nat

definition rq_new :: "'a list \<Rightarrow> 'a ring_queue" where
  "rq_new uninit =
     \<lparr>rq_data = uninit, rq_front_m = 0, rq_rear_m = length uninit + 1 - 1, rq_size_m = 0,
      rq_max_size_m = length uninit + 1\<rparr>"

definition rq_at :: "'a ring_queue \<Rightarrow> nat \<Rightarrow> 'a option" where
  "rq_at q i = (if i < length (rq_data q) then Some (rq_data q ! i) else None)"

definition rq_front :: "'a ring_queue \<Rightarrow> 'a option" where
  "rq_front q = rq_at q (rq_front_m q)"

definition rq_back :: "'a ring_queue \<Rightarrow> 'a option" where
  "rq_back q = rq_at q (rq_rear_m q)"

definition rq_empty :: "'a ring_queue \<Rightarrow> bool" where
  "rq_empty q \<longleftrightarrow> rq_size_m q = 0"

definition rq_full :: "'a ring_queue \<Rightarrow> bool" where
  "rq_full q \<longleftrightarrow> rq_size_m q = rq_max_size_m q - 1"

definition rq_size :: "'a ring_queue \<Rightarrow> nat" where
  "rq_size q = rq_size_m q"

definition rq_capacity :: "'a ring_queue \<Rightarrow> nat" where
  "rq_capacity q = rq_max_size_m q - 1"

definition rq_index :: "'a ring_queue \<Rightarrow> nat \<Rightarrow> 'a option" where
  "rq_index q idx = rq_at q ((rq_front_m q + idx) mod rq_max_size_m q)"

definition rq_push :: "'a ring_queue \<Rightarrow> 'a \<Rightarrow> 'a ring_queue option" where
  "rq_push q value =
     (if \<not> rq_full q then
        let r = (rq_rear_m q + 1) mod rq_max_size_m q in
        if r < length (rq_data q)
        then Some (q\<lparr>rq_rear_m := r, rq_data := (rq_data q)[r := value], rq_size_m := rq_size_m q + 1\<rparr>)
        else None
      else Some q)"

definition rq_pop :: "'a ring_queue \<Rightarrow> 'a ring_queue" where
  "rq_pop q =
     (if \<not> rq_empty q
      then q\<lparr>rq_front_m := (rq_front_m q + 1) mod rq_max_size_m q, rq_size_m := rq_size_m q - 1\<rparr>
      else q)"

section \<open>Runs\<close>

text \<open>A push answers whether it was accepted; a pop first reads the front element.\<close>

fun rq_step :: "'a ring_queue \<Rightarrow> 'a fifo_op \<Rightarrow> ('a fifo_answer \<times> 'a ring_queue) option" where
  "rq_step q (Push x) = map_option (\<lambda>q'. (Accepted (\<not> rq_full q), q')) (rq_push q x)"
| "rq_step q Pop =
     (if rq_empty q then Some (Popped None, rq_pop q)
      else map_option (\<lambda>x. (Popped (Some x), rq_pop q)) (rq_front q))"

fun rq_run :: "'a ring_queue \<Rightarrow> 'a fifo_op list \<Rightarrow> ('a fifo_answer list \<times> 'a ring_queue) option" where
  "rq_run q [] = Some ([], q)"
| "rq_run q (p # ps) =
     (case rq_step q p of None \<Rightarrow> None
      | Some (a, q1) \<Rightarrow> map_option (\<lambda>(as, q2). (a # as, q2)) (rq_run q1 ps))"

fun pushes :: "'a fifo_op list \<Rightarrow> nat" where
  "pushes [] = 0"
| "pushes (Push x # ps) = Suc (pushes ps)"
| "pushes (Pop # ps) = pushes ps"

section \<open>The first Size pushes\<close>

text \<open>
  While at most \<open>Size\<close> pushes have happened the array has not wrapped: the \<open>n\<close> pushed
  elements lie at \<open>0..<n\<close> and the queue is the part from the front index on.
\<close>

definition rq_unwrapped :: "'a ring_queue \<Rightarrow> nat \<Rightarrow> bool" where
  "rq_unwrapped q n \<longleftrightarrow> rq_max_size_m q = Suc (length (rq_data q)) \<and> n \<le> length (rq_data q)
     \<and> rq_front_m q + rq_size_m q = n
     \<and> rq_rear_m q = (n + length (rq_data q)) mod Suc (length (rq_data q))"

definition rq_items :: "'a ring_queue \<Rightarrow> 'a list" where
  "rq_items q = take (rq_size_m q) (drop (rq_front_m q) (rq_data q))"

lemmas rq_simps = rq_unwrapped_def rq_items_def rq_empty_def rq_full_def rq_front_def rq_at_def

lemma rq_items_length: "rq_unwrapped q n \<Longrightarrow> length (rq_items q) = rq_size_m q"
  by (auto simp: rq_simps)

lemma rq_push_unwrapped:
  assumes u: "rq_unwrapped q n" and n: "n < length (rq_data q)"
  shows "\<exists>q'. rq_push q x = Some q' \<and> rq_unwrapped q' (Suc n) \<and> rq_items q' = rq_items q @ [x]
    \<and> length (rq_data q') = length (rq_data q) \<and> \<not> rq_full q"
proof -
  let ?s = "length (rq_data q)"
  have room: "\<not> rq_full q" using u n by (auto simp: rq_simps)
  have "(rq_rear_m q + 1) mod rq_max_size_m q = (n + Suc ?s) mod Suc ?s"
    using u by (simp add: rq_unwrapped_def mod_simps)
  also have "\<dots> = n" using n mod_add_self2 [of n "Suc ?s"] by (simp only: mod_less less_SucI)
  finally have r: "(rq_rear_m q + 1) mod rq_max_size_m q = n" .
  have "(n + Suc ?s) mod Suc ?s = n" using n mod_add_self2 [of n "Suc ?s"] by (simp only: mod_less less_SucI)
  then have "(Suc n + ?s) mod Suc ?s = n" by (simp only: add_Suc add_Suc_right)
  then have "rq_unwrapped (q\<lparr>rq_rear_m := n, rq_data := (rq_data q)[n := x], rq_size_m := rq_size_m q + 1\<rparr>) (Suc n)"
    using u n by (simp add: rq_unwrapped_def)
  moreover have "take (rq_size_m q + 1) (drop (rq_front_m q) ((rq_data q)[n := x]))
      = take (rq_size_m q) (drop (rq_front_m q) (rq_data q)) @ [x]"
    using u n by (auto simp: rq_unwrapped_def take_Suc_conv_app_nth drop_update_swap)
  ultimately show ?thesis
    using room r n by (auto simp: rq_push_def Let_def rq_items_def)
qed

lemma rq_pop_unwrapped:
  assumes u: "rq_unwrapped q n" and s: "rq_size_m q \<noteq> 0"
  shows "rq_unwrapped (rq_pop q) n \<and> rq_items (rq_pop q) = tl (rq_items q)
    \<and> rq_front q = Some (hd (rq_items q)) \<and> length (rq_data (rq_pop q)) = length (rq_data q)"
proof -
  have f: "rq_front_m q < length (rq_data q)" using u s by (simp add: rq_unwrapped_def)
  then have "(rq_front_m q + 1) mod rq_max_size_m q = rq_front_m q + 1"
    using u by (simp add: rq_unwrapped_def)
  moreover obtain k where "rq_size_m q = Suc k" using s by (cases "rq_size_m q") auto
  ultimately show ?thesis
    using u f s by (simp add: rq_pop_def rq_simps drop_Suc tl_drop tl_take hd_drop_conv_nth hd_take)
qed

lemma rq_step_unwrapped:
  assumes u: "rq_unwrapped q n" and n: "n + pushes [p] \<le> length (rq_data q)"
  shows "\<exists>q'. rq_step q p = Some (fst (list_op (length (rq_data q)) (rq_items q) p), q')
    \<and> rq_unwrapped q' (n + pushes [p])
    \<and> rq_items q' = snd (list_op (length (rq_data q)) (rq_items q) p)
    \<and> length (rq_data q') = length (rq_data q)"
proof (cases p)
  case (Push x)
  with n have "n < length (rq_data q)" by simp
  moreover from this u have "length (rq_items q) < length (rq_data q)"
    by (simp add: rq_items_length) (simp add: rq_unwrapped_def)
  ultimately show ?thesis using Push rq_push_unwrapped [OF u, of x] by auto
next
  case Pop
  show ?thesis
  proof (cases "rq_size_m q = 0")
    case True
    then have "rq_items q = []" by (simp add: rq_items_def)
    with True u Pop show ?thesis by (simp add: rq_empty_def rq_pop_def)
  next
    case False
    then have "rq_items q \<noteq> []" using rq_items_length [OF u] by auto
    then show ?thesis using rq_pop_unwrapped [OF u False] False Pop
      by (cases "rq_items q") (auto simp: rq_empty_def)
  qed
qed

lemma rq_run_unwrapped:
  assumes "rq_unwrapped q n" "n + pushes ps \<le> length (rq_data q)"
  shows "\<exists>q'. rq_run q ps = Some (fst (list_run (length (rq_data q)) (rq_items q) ps), q')
    \<and> rq_unwrapped q' (n + pushes ps)
    \<and> rq_items q' = snd (list_run (length (rq_data q)) (rq_items q) ps)
    \<and> length (rq_data q') = length (rq_data q)"
  using assms
proof (induction ps arbitrary: q n)
  case (Cons p ps)
  have c: "pushes (p # ps) = pushes [p] + pushes ps" by (cases p) auto
  with Cons.prems obtain q' where s:
      "rq_step q p = Some (fst (list_op (length (rq_data q)) (rq_items q) p), q')"
      "rq_unwrapped q' (n + pushes [p])"
      "rq_items q' = snd (list_op (length (rq_data q)) (rq_items q) p)"
      "length (rq_data q') = length (rq_data q)"
    using rq_step_unwrapped [of q n p] by auto
  with Cons.prems c Cons.IH [of q' "n + pushes [p]"] show ?case
    by (auto simp: split_beta add.assoc)
qed auto

lemma rq_new_unwrapped: "rq_unwrapped (rq_new u) 0" "rq_items (rq_new u) = []"
  by (simp_all add: rq_unwrapped_def rq_new_def rq_items_def)

lemma rq_new_run:
  assumes "pushes ps \<le> length uninit"
  shows "\<exists>q. rq_run (rq_new uninit) ps = Some (fst (list_run (length uninit) [] ps), q)
    \<and> rq_unwrapped q (pushes ps) \<and> rq_items q = snd (list_run (length uninit) [] ps)
    \<and> length (rq_data q) = length uninit"
proof -
  have d: "length (rq_data (rq_new uninit)) = length uninit" by (simp add: rq_new_def)
  from rq_run_unwrapped [OF rq_new_unwrapped(1), of ps uninit] assms
  show ?thesis by (simp add: rq_new_unwrapped(2) d)
qed

section \<open>The wrap\<close>

lemma rq_push_at_capacity:
  assumes "rq_unwrapped q (length (rq_data q))" "rq_front_m q \<noteq> 0"
  shows "rq_push q x = None"
proof -
  let ?s = "length (rq_data q)"
  have "(?s + ?s) mod Suc ?s + 1 = ?s \<or> ?s = 0"
    by (cases "?s") (auto simp: mod_if)
  then have "(rq_rear_m q + 1) mod rq_max_size_m q = ?s"
    using assms(1) by (auto simp: rq_unwrapped_def)
  moreover have "\<not> rq_full q" using assms by (auto simp: rq_simps)
  ultimately show ?thesis by (simp add: rq_push_def Let_def)
qed

lemma pushes_append [simp]: "pushes (ps @ qs) = pushes ps + pushes qs"
  by (induction ps rule: pushes.induct) auto

lemma rq_run_append:
  "rq_run q (ps @ qs) = (case rq_run q ps of None \<Rightarrow> None
     | Some (as, q') \<Rightarrow> map_option (\<lambda>(bs, q''). (as @ bs, q'')) (rq_run q' qs))"
  by (induction ps arbitrary: q) (auto simp: option.map_comp option.map_id o_def split_beta intro!: option.map_cong
      split: option.splits simp flip: id_def)

section \<open>Properties\<close>

text \<open>A new ring queue fed any sequence of pushes and pops with at most \<open>Size\<close> pushes
  stays inside its array and answers every operation as the list of capacity \<open>Size\<close> does:
  first in, first out, nothing lost.\<close>

theorem rq_fifo_until_wrap:
  assumes "pushes ps \<le> length uninit"
  shows "\<exists>q. rq_run (rq_new uninit) ps = Some (fst (list_run (length uninit) [] ps), q)
    \<and> rq_items q = snd (list_run (length uninit) [] ps) \<and> rq_size q = length (rq_items q)"
proof -
  obtain q where q: "rq_run (rq_new uninit) ps = Some (fst (list_run (length uninit) [] ps), q)"
      "rq_unwrapped q (pushes ps)" "rq_items q = snd (list_run (length uninit) [] ps)"
    using rq_new_run [OF assms] by auto
  with rq_items_length [OF q(2)] show ?thesis by (auto simp: rq_size_def)
qed

theorem rq_fifo_until_wrap_witness:
  "\<exists>q. rq_run (rq_new [0, 0]) [Push (1::nat), Push 2, Pop]
     = Some ([Accepted True, Accepted True, Popped (Some 1)], q) \<and> rq_items q = [2]"
  using rq_fifo_until_wrap [of "[Push 1, Push 2, Pop]" "[0, 0 :: nat]"]
  by (simp add: eval_nat_numeral) blast

text \<open>Once the queue has taken \<open>Size\<close> elements and given at least one back, the
  next push is not refused (the queue is not full) but writes element \<open>Size\<close> of the array
  of \<open>Size\<close> elements: whatever the order of the earlier pushes and pops, the run leaves the
  array.\<close>

theorem rq_wrap_leaves_array:
  assumes "pushes ps = length uninit" "length (snd (list_run (length uninit) [] ps)) < length uninit"
  shows "rq_run (rq_new uninit) (ps @ [Push x]) = None"
proof -
  obtain q where q: "rq_run (rq_new uninit) ps = Some (fst (list_run (length uninit) [] ps), q)"
      "rq_unwrapped q (pushes ps)" "rq_items q = snd (list_run (length uninit) [] ps)"
      "length (rq_data q) = length uninit"
    using rq_new_run [of ps uninit] assms by auto
  then have "rq_front_m q \<noteq> 0" using rq_items_length [OF q(2)] assms
    by (auto simp: rq_unwrapped_def)
  with q assms rq_push_at_capacity [of q x] show ?thesis by (simp add: rq_run_append)
qed

theorem rq_wrap_leaves_array_witness:
  "rq_run (rq_new [0, 0]) ([Push (1::nat), Push 2, Pop] @ [Push 3]) = None"
  by (rule rq_wrap_leaves_array) (simp_all add: eval_nat_numeral)

end
