(* ===== verification/HashList.thy ===== *)
theory HashList
  imports Prelude "HOL-Library.Monad_Syntax"
begin

text \<open>
  The hash list \<open>CHashListNoLock\<close> of \<open>bis/src/server/snslib/comm/hash_list/hash_list_nolock.h\<close>:
  a hash table in a block of (shared) memory, with chains and a free list linked by offsets,
  0 standing for no node, so that node 0 is never used. The index array and the node array
  are lists; reading or writing outside them, or a walk that does not end, is \<open>None\<close>. The
  virtual function \<open>Hash\<close> is the argument \<open>hf\<close>; printing is left out.
\<close>

section \<open>State\<close>

definition E_HASH_LIST_MEM_SIZE :: int where "E_HASH_LIST_MEM_SIZE = -101"
definition E_HASH_LIST_INDEX_NUM :: int where "E_HASH_LIST_INDEX_NUM = -102"
definition E_HASH_LIST_DATA_NUM :: int where "E_HASH_LIST_DATA_NUM = -103"
definition E_HASH_LIST_NO_SPACE :: int where "E_HASH_LIST_NO_SPACE = -104"
definition E_HASH_LIST_NO_NODE :: int where "E_HASH_LIST_NO_NODE = -105"
definition E_HASH_LIST_NODE_EXIST :: int where "E_HASH_LIST_NODE_EXIST = -106"
definition E_HASH_LIST_VERIFY_INDEX_HASHVAL :: int where "E_HASH_LIST_VERIFY_INDEX_HASHVAL = -108"
definition E_HASH_LIST_VERIFY_INDEX_DATANUM :: int where "E_HASH_LIST_VERIFY_INDEX_DATANUM = -109"
definition E_HASH_LIST_VERIFY_DATA_PTR :: int where "E_HASH_LIST_VERIFY_DATA_PTR = -110"
definition E_HASH_LIST_VERIFY_HEAD_USEDDATANUM :: int where "E_HASH_LIST_VERIFY_HEAD_USEDDATANUM = -111"
definition E_HASH_LIST_VERIFY_HEAD_TOTALDATANUM :: int where "E_HASH_LIST_VERIFY_HEAD_TOTALDATANUM = -113"

lemmas hl_errors [simp] = E_HASH_LIST_MEM_SIZE_def E_HASH_LIST_INDEX_NUM_def E_HASH_LIST_DATA_NUM_def
  E_HASH_LIST_NO_SPACE_def E_HASH_LIST_NO_NODE_def E_HASH_LIST_NODE_EXIST_def
  E_HASH_LIST_VERIFY_INDEX_HASHVAL_def E_HASH_LIST_VERIFY_INDEX_DATANUM_def
  E_HASH_LIST_VERIFY_DATA_PTR_def E_HASH_LIST_VERIFY_HEAD_USEDDATANUM_def
  E_HASH_LIST_VERIFY_HEAD_TOTALDATANUM_def

record index_node =
  iHashVal :: int
  iDataNodeNum :: int
  ipDataNodeList :: int

record ('k, 'v) data_node =
  KeyVal :: 'k
  ipNextDataNode :: int
  hl_Data :: 'v

record ('k, 'v) hash_list =
  hl_iSize :: int
  iTotalDataNodeNum :: int
  iUsedDataNodeNum :: int
  iIndexNodeNum :: int
  ipFreeDataNodeList :: int
  m_pstIndex :: "index_node list"
  m_pstData :: "('k, 'v) data_node list"

section \<open>Operations\<close>

text \<open>The sizes of the head, an index node and a data node, for 4-byte keys and data.\<close>

definition hl_CalcSize :: "int \<Rightarrow> int \<Rightarrow> int \<Rightarrow> int" where
  "hl_CalcSize node_size iIndexNum iNodeNum = 20 + iIndexNum * 12 + iNodeNum * node_size"

text \<open>\<open>Init\<close> on memory that holds \<open>h\<close>: only the three sizes of the head are written, and only
  when the arguments are good.\<close>

definition hl_Init :: "int \<Rightarrow> int \<Rightarrow> int \<Rightarrow> int \<Rightarrow> ('k, 'v) hash_list \<Rightarrow> int \<times> ('k, 'v) hash_list" where
  "hl_Init node_size iMemSize iIndexNum iDataNum h =
     (if hl_CalcSize node_size iIndexNum iDataNum > iMemSize then (E_HASH_LIST_MEM_SIZE, h)
      else if iIndexNum < 1 then (E_HASH_LIST_INDEX_NUM, h)
      else if iDataNum < 2 then (E_HASH_LIST_DATA_NUM, h)
      else (0, h\<lparr>hl_iSize := iMemSize, iIndexNodeNum := iIndexNum, iTotalDataNodeNum := iDataNum\<rparr>))"

text \<open>\<open>Clear\<close> zeroes the memory; \<open>z\<close> is the node of zero bytes.\<close>

definition hl_Clear :: "('k, 'v) data_node \<Rightarrow> ('k, 'v) hash_list \<Rightarrow> ('k, 'v) hash_list" where
  "hl_Clear z h =
     (let n = nat (iTotalDataNodeNum h);
          data = map (\<lambda>i. z\<lparr>ipNextDataNode := (if 1 \<le> i then int i + 1 else 0)\<rparr>) [0..<n]
      in h\<lparr>iUsedDataNodeNum := 1, ipFreeDataNodeList := 1,
           m_pstIndex := map (\<lambda>i. \<lparr>iHashVal = int i, iDataNodeNum = 0, ipDataNodeList = 0\<rparr>)
             [0..<nat (iIndexNodeNum h)],
           m_pstData := data[n - 1 := (data ! (n - 1))\<lparr>ipNextDataNode := 0\<rparr>]\<rparr>)"

text \<open>The search loop: the node with the key (0 when there is none) and the node before it.\<close>

partial_function (option) hl_walk :: "('k, 'v) data_node list \<Rightarrow> 'k \<Rightarrow> int \<Rightarrow> int \<Rightarrow> (int \<times> int) option" where
  "hl_walk d key ipLast ip =
     (if ip \<noteq> 0 then do {
        n \<leftarrow> arr_get d ip;
        if KeyVal n \<noteq> key then hl_walk d key ip (ipNextDataNode n) else Some (ip, ipLast)
      } else Some (ip, ipLast))"

declare hl_walk.simps [code]

definition hl_GetFreeNode :: "('k, 'v) hash_list \<Rightarrow> (int \<times> ('k, 'v) hash_list) option" where
  "hl_GetFreeNode h =
     (let iFreeNodeNum = iTotalDataNodeNum h - iUsedDataNodeNum h; iFreeNode = ipFreeDataNodeList h in
      if iFreeNodeNum \<le> 0 \<or> iFreeNode \<le> 0 then Some (E_HASH_LIST_NO_SPACE, h)
      else do {
        n \<leftarrow> arr_get (m_pstData h) iFreeNode;
        Some (iFreeNode, h\<lparr>iUsedDataNodeNum := iUsedDataNodeNum h + 1, ipFreeDataNodeList := ipNextDataNode n\<rparr>)
      })"

definition hl_RecycleNode :: "int \<Rightarrow> ('k, 'v) hash_list \<Rightarrow> (int \<times> ('k, 'v) hash_list) option" where
  "hl_RecycleNode iNode h =
     (if 0 = iNode \<or> iNode > iTotalDataNodeNum h then Some (-1, h)
      else do {
        d \<leftarrow> arr_upd (m_pstData h) iNode (\<lambda>n. n\<lparr>ipNextDataNode := ipFreeDataNodeList h\<rparr>);
        Some (0, h\<lparr>iUsedDataNodeNum := iUsedDataNodeNum h - 1, m_pstData := d, ipFreeDataNodeList := iNode\<rparr>)
      })"

definition hl_Insert :: "('k \<Rightarrow> int) \<Rightarrow> 'k \<Rightarrow> 'v \<Rightarrow> ('k, 'v) hash_list \<Rightarrow> (int \<times> ('k, 'v) hash_list) option" where
  "hl_Insert hf key data h = do {
     x \<leftarrow> arr_get (m_pstIndex h) (hf key);
     (ipData, _) \<leftarrow> hl_walk (m_pstData h) key 0 (ipDataNodeList x);
     if ipData > 0 then Some (E_HASH_LIST_NODE_EXIST, h)
     else do {
       (ipFreeNode, h) \<leftarrow> hl_GetFreeNode h;
       if ipFreeNode > 0 then do {
         d \<leftarrow> arr_upd (m_pstData h) ipFreeNode
               (\<lambda>n. n\<lparr>KeyVal := key, ipNextDataNode := ipDataNodeList x, hl_Data := data\<rparr>);
         i \<leftarrow> arr_upd (m_pstIndex h) (hf key)
               (\<lambda>x. x\<lparr>ipDataNodeList := ipFreeNode, iDataNodeNum := iDataNodeNum x + 1\<rparr>);
         Some (0, h\<lparr>m_pstData := d, m_pstIndex := i\<rparr>)
       } else Some (ipFreeNode, h)
     }
   }"

definition hl_Remove :: "('k \<Rightarrow> int) \<Rightarrow> 'k \<Rightarrow> ('k, 'v) hash_list \<Rightarrow> (int \<times> ('k, 'v) hash_list) option" where
  "hl_Remove hf key h = do {
     x \<leftarrow> arr_get (m_pstIndex h) (hf key);
     (ipData, ipLastData) \<leftarrow> hl_walk (m_pstData h) key 0 (ipDataNodeList x);
     if ipData > 0 then do {
       n \<leftarrow> arr_get (m_pstData h) ipData;
       h \<leftarrow> (if 0 = ipLastData
             then do {
               i \<leftarrow> arr_upd (m_pstIndex h) (hf key) (\<lambda>x. x\<lparr>ipDataNodeList := ipNextDataNode n\<rparr>);
               Some (h\<lparr>m_pstIndex := i\<rparr>)
             } else do {
               d \<leftarrow> arr_upd (m_pstData h) ipLastData (\<lambda>l. l\<lparr>ipNextDataNode := ipNextDataNode n\<rparr>);
               Some (h\<lparr>m_pstData := d\<rparr>)
             });
       i \<leftarrow> arr_upd (m_pstIndex h) (hf key) (\<lambda>x. x\<lparr>iDataNodeNum := iDataNodeNum x - 1\<rparr>);
       hl_RecycleNode ipData (h\<lparr>m_pstIndex := i\<rparr>)
     } else Some (E_HASH_LIST_NO_NODE, h)
   }"

text \<open>The result is the offset of the node whose data the pointer designates.\<close>

definition hl_Get :: "('k \<Rightarrow> int) \<Rightarrow> 'k \<Rightarrow> ('k, 'v) hash_list \<Rightarrow> int option option" where
  "hl_Get hf key h = do {
     x \<leftarrow> arr_get (m_pstIndex h) (hf key);
     (ipData, _) \<leftarrow> hl_walk (m_pstData h) key 0 (ipDataNodeList x);
     Some (if ipData > 0 then Some ipData else None)
   }"

text \<open>The number of nodes from \<open>ip\<close> to the end of the chain, or the error of \<open>Verify\<close>.\<close>

partial_function (option) hl_count :: "int \<Rightarrow> ('k, 'v) data_node list \<Rightarrow> int \<Rightarrow> int \<Rightarrow> (int + int) option" where
  "hl_count tot d cnt ip =
     (if ip \<noteq> 0 then
        if ip > tot then Some (Inl E_HASH_LIST_VERIFY_DATA_PTR)
        else do { n \<leftarrow> arr_get d ip; hl_count tot d (cnt + 1) (ipNextDataNode n) }
      else Some (Inr cnt))"

declare hl_count.simps [code]

fun hl_verify_index :: "('k, 'v) hash_list \<Rightarrow> int \<Rightarrow> int \<Rightarrow> index_node list \<Rightarrow> (int + int) option" where
  "hl_verify_index h i used [] = Some (Inr used)"
| "hl_verify_index h i used (x # xs) =
     (if iHashVal x \<noteq> i then Some (Inl E_HASH_LIST_VERIFY_INDEX_HASHVAL)
      else do {
        r \<leftarrow> hl_count (iTotalDataNodeNum h) (m_pstData h) 0 (ipDataNodeList x);
        (case r of
           Inl e \<Rightarrow> Some (Inl e)
         | Inr n \<Rightarrow>
             if n \<noteq> iDataNodeNum x then Some (Inl E_HASH_LIST_VERIFY_INDEX_DATANUM)
             else hl_verify_index h (i + 1) (used + n) xs)
      })"

definition hl_Verify :: "('k, 'v) hash_list \<Rightarrow> int option" where
  "hl_Verify h = do {
     r \<leftarrow> hl_verify_index h 0 1 (take (nat (iIndexNodeNum h)) (m_pstIndex h));
     (case r of
        Inl e \<Rightarrow> Some e
      | Inr used \<Rightarrow>
          if used \<noteq> iUsedDataNodeNum h then Some E_HASH_LIST_VERIFY_HEAD_USEDDATANUM
          else do {
            r \<leftarrow> hl_count (iTotalDataNodeNum h) (m_pstData h) 0 (ipFreeDataNodeList h);
            (case r of
               Inl e \<Rightarrow> Some e
             | Inr free \<Rightarrow>
                 Some (if free + iUsedDataNodeNum h \<noteq> iTotalDataNodeNum h
                   then E_HASH_LIST_VERIFY_HEAD_TOTALDATANUM else 0))
          })
   }"

text \<open>\<open>CallBackForIndex\<close>: the callback works on the data and a state of its own.\<close>

partial_function (option) hl_callback_loop ::
  "('k \<Rightarrow> 'v \<Rightarrow> 's \<Rightarrow> 'v \<times> 's) \<Rightarrow> int \<Rightarrow> ('k, 'v) data_node list \<Rightarrow> 's \<Rightarrow> (('k, 'v) data_node list \<times> 's) option" where
  "hl_callback_loop f ip d s =
     (if ip \<noteq> 0 then do {
        n \<leftarrow> arr_get d ip;
        let (v, s) = f (KeyVal n) (hl_Data n) s;
        d \<leftarrow> arr_upd d ip (\<lambda>n. n\<lparr>hl_Data := v\<rparr>);
        hl_callback_loop f (ipNextDataNode n) d s
      } else Some (d, s))"

declare hl_callback_loop.simps [code]

definition hl_CallBackForIndex ::
  "('k \<Rightarrow> 'v \<Rightarrow> 's \<Rightarrow> 'v \<times> 's) \<Rightarrow> int \<Rightarrow> ('k, 'v) hash_list \<Rightarrow> 's \<Rightarrow> (('k, 'v) hash_list \<times> 's) option" where
  "hl_CallBackForIndex f iIndex h s = do {
     x \<leftarrow> arr_get (m_pstIndex h) iIndex;
     if iDataNodeNum x > 0 then do {
       (d, s) \<leftarrow> hl_callback_loop f (ipDataNodeList x) (m_pstData h) s;
       Some (h\<lparr>m_pstData := d\<rparr>, s)
     } else Some (h, s)
   }"

definition hl_GetIndexNum :: "('k, 'v) hash_list \<Rightarrow> int" where
  "hl_GetIndexNum h = iIndexNodeNum h"

definition hl_GetUsedDataNum :: "('k, 'v) hash_list \<Rightarrow> int" where
  "hl_GetUsedDataNum h = iUsedDataNodeNum h"

text \<open>\<open>GetRandomNode\<close>: \<open>r1\<close> is the first \<open>random()\<close>, \<open>r2 i\<close> the one of the round \<open>i\<close>.\<close>

fun hl_skip :: "('k, 'v) data_node list \<Rightarrow> nat \<Rightarrow> int \<Rightarrow> int option" where
  "hl_skip d 0 ip = Some ip"
| "hl_skip d (Suc j) ip = (if ip \<noteq> 0 then do { n \<leftarrow> arr_get d ip; hl_skip d j (ipNextDataNode n) } else Some ip)"

fun hl_random_loop :: "(int \<Rightarrow> int) \<Rightarrow> ('k, 'v) hash_list \<Rightarrow> int \<Rightarrow> nat \<Rightarrow> int \<Rightarrow> int option" where
  "hl_random_loop r2 h i 0 ip = Some ip"
| "hl_random_loop r2 h i (Suc m) ip = do {
     x \<leftarrow> arr_get (m_pstIndex h) (i mod iIndexNodeNum h);
     if iDataNodeNum x > 0 then do {
       ip \<leftarrow> hl_skip (m_pstData h) (nat (r2 i mod iDataNodeNum x)) (ipDataNodeList x);
       if ip \<noteq> 0 then Some ip else hl_random_loop r2 h (i + 1) m ip
     } else hl_random_loop r2 h (i + 1) m ip
   }"

definition hl_GetRandomNode :: "int \<Rightarrow> (int \<Rightarrow> int) \<Rightarrow> ('k, 'v) hash_list \<Rightarrow> (int + 'k \<times> 'v) option" where
  "hl_GetRandomNode r1 r2 h = do {
     ip \<leftarrow> hl_random_loop r2 h (r1 mod iIndexNodeNum h) (nat (iIndexNodeNum h)) 0;
     if ip \<noteq> 0 then do { n \<leftarrow> arr_get (m_pstData h) ip; Some (Inr (KeyVal n, hl_Data n)) }
     else Some (Inl E_HASH_LIST_NO_NODE)
   }"

text \<open>The \<open>Hash\<close> of the class itself, for integer keys: the remainder of C has the sign of the key.\<close>

definition hl_Hash :: "('k, 'v) hash_list \<Rightarrow> int \<Rightarrow> int" where
  "hl_Hash h key = (if key < 0 then - ((- key) mod iIndexNodeNum h) else key mod iIndexNodeNum h)"

section \<open>Chains\<close>

text \<open>The nodes \<open>ps\<close> are the chain that starts at offset \<open>ip\<close>.\<close>

fun hl_path :: "('k, 'v) data_node list \<Rightarrow> int \<Rightarrow> nat list \<Rightarrow> bool" where
  "hl_path d ip [] \<longleftrightarrow> ip = 0"
| "hl_path d ip (p # ps) \<longleftrightarrow> ip = int p \<and> 0 < p \<and> p < length d \<and> hl_path d (ipNextDataNode (d ! p)) ps"

lemma path_upd_other [simp]: "p \<notin> set ps \<Longrightarrow> hl_path (d[p := n]) ip ps = hl_path d ip ps"
  by (induction ps arbitrary: ip) auto

lemma path_upd_same:
  "ipNextDataNode n = ipNextDataNode (d ! p) \<Longrightarrow> hl_path (d[p := n]) ip ps = hl_path d ip ps"
proof (induction ps arbitrary: ip)
  case (Cons q qs)
  have "ipNextDataNode (d[p := n] ! q) = ipNextDataNode (d ! q)" if "q < length d"
    using Cons.prems that by (cases "q = p") simp_all
  with Cons.IH [OF Cons.prems] show ?case by (cases "q < length d") simp_all
qed simp

lemma path_bounds: "hl_path d ip ps \<Longrightarrow> p \<in> set ps \<Longrightarrow> 0 < p \<and> p < length d"
  by (induction ps arbitrary: ip) auto

lemma path_nil_iff: "hl_path d ip ps \<Longrightarrow> ip = 0 \<longleftrightarrow> ps = []"
  by (cases ps) auto


text \<open>Unlinking the node behind \<open>u\<close>.\<close>

lemma path_unlink:
  assumes "hl_path d ip (us @ u # p # vs)" "distinct (us @ u # p # vs)"
  shows "hl_path (d[u := (d ! u)\<lparr>ipNextDataNode := ipNextDataNode (d ! p)\<rparr>]) ip (us @ u # vs)"
  using assms by (induction us arbitrary: ip) auto

lemma walk_found:
  assumes "hl_path d ip (us @ p # vs)" "\<forall>q \<in> set us. KeyVal (d ! q) \<noteq> key" "KeyVal (d ! p) = key"
  shows "hl_walk d key l ip = Some (int p, if us = [] then l else int (last us))"
  using assms
proof (induction us arbitrary: ip l)
  case Nil
  then show ?case by (subst hl_walk.simps) simp
next
  case (Cons u us)
  then show ?case by (subst hl_walk.simps) auto
qed

lemma walk_none:
  assumes "hl_path d ip ps" "\<forall>q \<in> set ps. KeyVal (d ! q) \<noteq> key"
  shows "\<exists>l'. hl_walk d key l ip = Some (0, l')"
  using assms
proof (induction ps arbitrary: ip l)
  case Nil
  then show ?case by (subst hl_walk.simps) simp
next
  case (Cons u us)
  then show ?case by (subst hl_walk.simps) auto
qed

lemma count_path:
  assumes "hl_path d ip ps" "int (length d) \<le> tot"
  shows "hl_count tot d n ip = Some (Inr (n + int (length ps)))"
  using assms
proof (induction ps arbitrary: ip n)
  case Nil
  then show ?case by (subst hl_count.simps) simp
next
  case (Cons u us)
  then show ?case by (subst hl_count.simps) (auto simp: algebra_simps)
qed

section \<open>Invariant\<close>

text \<open>\<open>cs i\<close> is the chain of index \<open>i\<close> and \<open>fs\<close> the free list; together they are all nodes
  but node 0.\<close>

definition hl_inv :: "('k \<Rightarrow> int) \<Rightarrow> ('k, 'v) hash_list \<Rightarrow> (nat \<Rightarrow> nat list) \<Rightarrow> nat list \<Rightarrow> bool" where
  "hl_inv hf h cs fs \<longleftrightarrow>
     iIndexNodeNum h = int (length (m_pstIndex h)) \<and> iTotalDataNodeNum h = int (length (m_pstData h))
   \<and> (\<forall>i < length (m_pstIndex h). iHashVal (m_pstIndex h ! i) = int i
        \<and> iDataNodeNum (m_pstIndex h ! i) = int (length (cs i))
        \<and> hl_path (m_pstData h) (ipDataNodeList (m_pstIndex h ! i)) (cs i))
   \<and> (\<forall>i. distinct (cs i) \<and> (length (m_pstIndex h) \<le> i \<longrightarrow> cs i = []))
   \<and> (\<forall>i j. i \<noteq> j \<longrightarrow> set (cs i) \<inter> set (cs j) = {})
   \<and> hl_path (m_pstData h) (ipFreeDataNodeList h) fs \<and> distinct fs \<and> (\<forall>i. set (cs i) \<inter> set fs = {})
   \<and> (\<forall>p. (\<exists>i. p \<in> set (cs i)) \<or> p \<in> set fs \<longleftrightarrow> 0 < p \<and> p < length (m_pstData h))
   \<and> iUsedDataNodeNum h = int (length (m_pstData h)) - int (length fs)
   \<and> (\<forall>i. \<forall>p \<in> set (cs i). hf (KeyVal (m_pstData h ! p)) = int i)
   \<and> (\<forall>i. inj_on (\<lambda>p. KeyVal (m_pstData h ! p)) (set (cs i)))"

text \<open>The map that the chains hold.\<close>

definition hl_abs :: "('k, 'v) hash_list \<Rightarrow> (nat \<Rightarrow> nat list) \<Rightarrow> ('k \<Rightarrow> 'v option) \<Rightarrow> bool" where
  "hl_abs h cs m \<longleftrightarrow> (\<forall>k v. m k = Some v \<longleftrightarrow>
     (\<exists>i. \<exists>p \<in> set (cs i). KeyVal (m_pstData h ! p) = k \<and> hl_Data (m_pstData h ! p) = v))"

definition hl_hash_ok :: "('k \<Rightarrow> int) \<Rightarrow> ('k, 'v) hash_list \<Rightarrow> bool" where
  "hl_hash_ok hf h \<longleftrightarrow> (\<forall>k. 0 \<le> hf k \<and> hf k < int (length (m_pstIndex h)))"

lemma hl_invD:
  assumes "hl_inv hf h cs fs"
  shows "iIndexNodeNum h = int (length (m_pstIndex h))" "iTotalDataNodeNum h = int (length (m_pstData h))"
    "i < length (m_pstIndex h) \<Longrightarrow> iHashVal (m_pstIndex h ! i) = int i"
    "i < length (m_pstIndex h) \<Longrightarrow> iDataNodeNum (m_pstIndex h ! i) = int (length (cs i))"
    "i < length (m_pstIndex h) \<Longrightarrow> hl_path (m_pstData h) (ipDataNodeList (m_pstIndex h ! i)) (cs i)"
    "distinct (cs i)" "i \<noteq> j \<Longrightarrow> set (cs i) \<inter> set (cs j) = {}"
    "hl_path (m_pstData h) (ipFreeDataNodeList h) fs" "distinct fs" "set (cs i) \<inter> set fs = {}"
    "(\<exists>i. p \<in> set (cs i)) \<or> p \<in> set fs \<longleftrightarrow> 0 < p \<and> p < length (m_pstData h)"
    "iUsedDataNodeNum h = int (length (m_pstData h)) - int (length fs)"
    "p \<in> set (cs i) \<Longrightarrow> hf (KeyVal (m_pstData h ! p)) = int i"
    "inj_on (\<lambda>p. KeyVal (m_pstData h ! p)) (set (cs i))"
    "length (m_pstIndex h) \<le> i \<Longrightarrow> cs i = []"
  using assms by (auto simp: hl_inv_def)

lemma hl_node_bounds:
  assumes "hl_inv hf h cs fs" "p \<in> set (cs i)"
  shows "0 < p" "p < length (m_pstData h)"
  using hl_invD(11) [OF assms(1), of p] assms(2) by blast+

text \<open>Where the search for a key ends.\<close>

lemma hl_search:
  assumes inv: "hl_inv hf h cs fs" and abs: "hl_abs h cs m" and hf: "hl_hash_ok hf h"
  obtains i x where "hf k = int i" "i < length (m_pstIndex h)" "x = m_pstIndex h ! i"
    "arr_get (m_pstIndex h) (hf k) = Some x"
    "m k = None \<Longrightarrow> \<exists>l. hl_walk (m_pstData h) k 0 (ipDataNodeList x) = Some (0, l)"
    "\<And>v. m k = Some v \<Longrightarrow> \<exists>us p vs. cs i = us @ p # vs \<and> KeyVal (m_pstData h ! p) = k \<and> hl_Data (m_pstData h ! p) = v
       \<and> hl_walk (m_pstData h) k 0 (ipDataNodeList x) = Some (int p, if us = [] then 0 else int (last us))"
proof -
  define i where "i = nat (hf k)"
  have i: "hf k = int i" "i < length (m_pstIndex h)"
    using hf by (auto simp: hl_hash_ok_def i_def) (metis int_nat_eq nat_less_iff)
  note path = hl_invD(5) [OF inv i(2)]
  show ?thesis
  proof (rule that [OF i refl])
    show "arr_get (m_pstIndex h) (hf k) = Some (m_pstIndex h ! i)" using i by simp
    show "\<exists>l. hl_walk (m_pstData h) k 0 (ipDataNodeList (m_pstIndex h ! i)) = Some (0, l)" if "m k = None"
    proof (rule walk_none [OF path])
      show "\<forall>q \<in> set (cs i). KeyVal (m_pstData h ! q) \<noteq> k" using abs that by (force simp: hl_abs_def)
    qed
    show "\<exists>us p vs. cs i = us @ p # vs \<and> KeyVal (m_pstData h ! p) = k \<and> hl_Data (m_pstData h ! p) = v
       \<and> hl_walk (m_pstData h) k 0 (ipDataNodeList (m_pstIndex h ! i)) = Some (int p, if us = [] then 0 else int (last us))"
      if mk: "m k = Some v" for v
    proof -
      obtain j p where p: "p \<in> set (cs j)" "KeyVal (m_pstData h ! p) = k" "hl_Data (m_pstData h ! p) = v"
        using abs [unfolded hl_abs_def, rule_format, of k v] mk by blast
      have "j = i" using hl_invD(13) [OF inv p(1)] p(2) i(1) by simp
      then obtain us vs where cs: "cs i = us @ p # vs" using p(1) by (meson split_list)
      have "KeyVal (m_pstData h ! q) \<noteq> k" if "q \<in> set us" for q
      proof
        assume "KeyVal (m_pstData h ! q) = k"
        then have "KeyVal (m_pstData h ! q) = KeyVal (m_pstData h ! p)" using p(2) by simp
        then have "q = p" using hl_invD(14) [OF inv, of i] cs that by (simp add: inj_on_def)
        with hl_invD(6) [OF inv, of i] cs that show False by auto
      qed
      then show ?thesis using walk_found [OF path [unfolded cs], of k 0] p cs by blast
    qed
  qed
qed

lemma ex_chain_cons: "(\<exists>j. \<exists>p \<in> set ((cs(i := f # cs i)) j). P p) \<longleftrightarrow> P f \<or> (\<exists>j. \<exists>p \<in> set (cs j). P p)"
  by (auto split: if_splits)

lemma hl_Insert_new:
  assumes inv: "hl_inv hf h cs (f # fs)" and abs: "hl_abs h cs m" and hf: "hl_hash_ok hf h" and new: "m k = None"
  obtains h' cs' where "hl_Insert hf k v h = Some (0, h')" "hl_inv hf h' cs' fs" "hl_abs h' cs' (m(k \<mapsto> v))"
    "length (m_pstIndex h') = length (m_pstIndex h)" "length (m_pstData h') = length (m_pstData h)"
proof -
  obtain i x l where s: "hf k = int i" "i < length (m_pstIndex h)" "x = m_pstIndex h ! i"
      "arr_get (m_pstIndex h) (hf k) = Some x" "hl_walk (m_pstData h) k 0 (ipDataNodeList x) = Some (0, l)"
    using hl_search [OF inv abs hf, of k] new by metis
  note D = hl_invD [OF inv]
  let ?d = "m_pstData h"
  have f: "0 < f" "f < length ?d" "ipFreeDataNodeList h = int f" "hl_path ?d (ipNextDataNode (?d ! f)) fs"
    using D(8) by simp_all
  have fo: "f \<notin> set (cs j)" for j using D(10) [of j] by auto
  have ff: "f \<notin> set fs" "distinct fs" using D(9) by simp_all
  define d' where "d' = ?d[f := (?d ! f)\<lparr>KeyVal := k, ipNextDataNode := ipDataNodeList x, hl_Data := v\<rparr>]"
  define x' where "x' = x\<lparr>ipDataNodeList := int f, iDataNodeNum := iDataNodeNum x + 1\<rparr>"
  define h' where "h' = h\<lparr>iUsedDataNodeNum := iUsedDataNodeNum h + 1, ipFreeDataNodeList := ipNextDataNode (?d ! f),
    m_pstData := d', m_pstIndex := (m_pstIndex h)[i := x']\<rparr>"
  define cs' where "cs' = cs(i := f # cs i)"
  have free: "hl_GetFreeNode h = Some (int f, h\<lparr>iUsedDataNodeNum := iUsedDataNodeNum h + 1,
      ipFreeDataNodeList := ipNextDataNode (?d ! f)\<rparr>)"
    using f(1-3) D(2,12) by (simp add: hl_GetFreeNode_def)
  have "hl_Insert hf k v h = Some (0, h')"
    using s free f(1,2) by (simp add: hl_Insert_def h'_def d'_def x'_def)
  moreover have d'f: "d' ! f = (?d ! f)\<lparr>KeyVal := k, ipNextDataNode := ipDataNodeList x, hl_Data := v\<rparr>"
    "\<And>q. q \<noteq> f \<Longrightarrow> d' ! q = ?d ! q" "length d' = length ?d"
    using f(2) by (simp_all add: d'_def)
  moreover have keys: "KeyVal (?d ! q) \<noteq> k" if "q \<in> set (cs j)" for q j
    using abs new that by (force simp: hl_abs_def)
  moreover have "hl_inv hf h' cs' fs"
    unfolding hl_inv_def
  proof (intro conjI allI impI ballI)
    fix j assume "j < length (m_pstIndex h')"
    then have j: "j < length (m_pstIndex h)" by (simp add: h'_def)
    show "iHashVal (m_pstIndex h' ! j) = int j" "iDataNodeNum (m_pstIndex h' ! j) = int (length (cs' j))"
      using D(3,4) [OF j] s(2,3) by (cases "j = i"; simp add: h'_def x'_def cs'_def)+
    have "hl_path d' ip (cs j) = hl_path ?d ip (cs j)" for ip using fo by (simp add: d'_def)
    then show "hl_path (m_pstData h') (ipDataNodeList (m_pstIndex h' ! j)) (cs' j)"
      using D(5) [OF j] s(2,3) f(1,2) d'f by (cases "j = i") (simp_all add: h'_def x'_def cs'_def)
  next
    show "distinct (cs' j)" for j using D(6) fo by (simp add: cs'_def)
    show "cs' j = []" if "length (m_pstIndex h') \<le> j" for j
      using D(15) that s(2) by (auto simp: h'_def cs'_def)
    show "set (cs' j) \<inter> set (cs' j') = {}" if "j \<noteq> j'" for j j'
      using D(7) [OF that] that fo by (auto simp: cs'_def)
    show "hl_path (m_pstData h') (ipFreeDataNodeList h') fs" using f(4) ff by (simp add: h'_def d'_def)
    show "set (cs' j) \<inter> set fs = {}" for j using D(10) [of j] ff by (auto simp: cs'_def)
    show "(\<exists>j. p \<in> set (cs' j)) \<or> p \<in> set fs \<longleftrightarrow> 0 < p \<and> p < length (m_pstData h')" for p
      using D(11) [of p] ex_chain_cons [of cs i f "\<lambda>q. q = p"] by (auto simp: cs'_def h'_def d'f(3))
    show "hf (KeyVal (m_pstData h' ! p)) = int j" if "p \<in> set (cs' j)" for j p
      using that D(13) [of p j] fo d'f s(1) by (cases "p = f") (auto simp: cs'_def h'_def split: if_splits)
    show "inj_on (\<lambda>p. KeyVal (m_pstData h' ! p)) (set (cs' j))" for j
    proof -
      have "inj_on (\<lambda>p. KeyVal (d' ! p)) (set (cs j))"
        using D(14) [of j] fo d'f(2) by (metis (no_types, lifting) inj_on_cong)
      moreover have "KeyVal (d' ! f) \<notin> (\<lambda>p. KeyVal (d' ! p)) ` set (cs j)"
        using keys [of _ j] fo d'f by (auto simp: image_iff) metis
      ultimately show ?thesis by (auto simp: cs'_def h'_def)
    qed
  qed (use D(1,2,12) ff in \<open>simp_all add: h'_def d'_def\<close>)
  moreover have "hl_abs h' cs' (m(k \<mapsto> v))"
    unfolding hl_abs_def
  proof (intro allI)
    fix k' v'
    have "(\<exists>j. \<exists>p \<in> set (cs j). KeyVal (d' ! p) = k' \<and> hl_Data (d' ! p) = v')
      \<longleftrightarrow> (\<exists>j. \<exists>p \<in> set (cs j). KeyVal (?d ! p) = k' \<and> hl_Data (?d ! p) = v')"
      using d'f(2) fo by metis
    then have "(\<exists>j. \<exists>p \<in> set (cs' j). KeyVal (d' ! p) = k' \<and> hl_Data (d' ! p) = v')
      \<longleftrightarrow> k' = k \<and> v' = v \<or> (\<exists>j. \<exists>p \<in> set (cs j). KeyVal (?d ! p) = k' \<and> hl_Data (?d ! p) = v')"
      unfolding cs'_def ex_chain_cons by (auto simp: d'f(1))
    then show "(m(k \<mapsto> v)) k' = Some v' \<longleftrightarrow>
        (\<exists>j. \<exists>p \<in> set (cs' j). KeyVal (m_pstData h' ! p) = k' \<and> hl_Data (m_pstData h' ! p) = v')"
      using abs new keys by (auto simp: h'_def hl_abs_def)
  qed
  ultimately show ?thesis using that by (simp add: h'_def d'_def)
qed

lemma ex_chain_drop:
  assumes "cs i = us @ p # vs" "distinct (cs i)" "\<And>j. j \<noteq> i \<Longrightarrow> p \<notin> set (cs j)"
  shows "(\<exists>j. \<exists>q \<in> set ((cs(i := us @ vs)) j). P q) \<longleftrightarrow> (\<exists>j. \<exists>q \<in> set (cs j). q \<noteq> p \<and> P q)"
proof
  assume "\<exists>j. \<exists>q \<in> set ((cs(i := us @ vs)) j). P q"
  then obtain j q where "q \<in> set ((cs(i := us @ vs)) j)" "P q" by blast
  moreover from this have "q \<in> set (cs j) \<and> q \<noteq> p"
    using assms by (cases "j = i") auto
  ultimately show "\<exists>j. \<exists>q \<in> set (cs j). q \<noteq> p \<and> P q" by blast
next
  assume "\<exists>j. \<exists>q \<in> set (cs j). q \<noteq> p \<and> P q"
  then obtain j q where "q \<in> set (cs j)" "q \<noteq> p" "P q" by blast
  moreover from this have "q \<in> set ((cs(i := us @ vs)) j)"
    using assms by (cases "j = i") auto
  ultimately show "\<exists>j. \<exists>q \<in> set ((cs(i := us @ vs)) j). P q" by blast
qed

text \<open>Linking a used node out of its chain, whether it is the first or not.\<close>

lemma hl_Remove_run:
  assumes inv: "hl_inv hf h cs fs" and i: "hf k = int i" "i < length (m_pstIndex h)"
    and cs: "cs i = us @ p # vs"
    and walk: "hl_walk (m_pstData h) k 0 (ipDataNodeList (m_pstIndex h ! i)) = Some (int p, if us = [] then 0 else int (last us))"
  obtains d ip where
    "hl_Remove hf k h = Some (0, h\<lparr>iUsedDataNodeNum := iUsedDataNodeNum h - 1, ipFreeDataNodeList := int p,
        m_pstIndex := (m_pstIndex h)[i := (m_pstIndex h ! i)\<lparr>ipDataNodeList := ip, iDataNodeNum := int (length us + length vs)\<rparr>],
        m_pstData := d[p := (m_pstData h ! p)\<lparr>ipNextDataNode := ipFreeDataNodeList h\<rparr>]\<rparr>)"
    "length d = length (m_pstData h)" "hl_path d ip (us @ vs)"
    "\<And>q. KeyVal (d ! q) = KeyVal (m_pstData h ! q) \<and> hl_Data (d ! q) = hl_Data (m_pstData h ! q)"
    "\<And>ip qs. set qs \<inter> set (cs i) = {} \<Longrightarrow> hl_path d ip qs = hl_path (m_pstData h) ip qs"
proof -
  note D = hl_invD [OF inv]
  let ?d = "m_pstData h" and ?x = "m_pstIndex h ! i"
  have pin: "p \<in> set (cs i)" using cs by simp
  note p = hl_node_bounds [OF inv pin]
  have path: "hl_path ?d (ipDataNodeList ?x) (us @ p # vs)" and dist: "distinct (us @ p # vs)"
    using D(5) [OF i(2)] D(6) [of i] cs by simp_all
  have num: "iDataNodeNum ?x - 1 = int (length us + length vs)" using D(4) [OF i(2)] cs by simp
  have cond: "\<not> (0 = int p \<or> int p > iTotalDataNodeNum h)" using p D(2) by simp
  show ?thesis
  proof (cases us rule: rev_cases)
    case Nil
    have ip: "hl_path ?d (ipNextDataNode (?d ! p)) vs" using path Nil by simp
    show ?thesis
    proof (rule that [of "?d" "ipNextDataNode (?d ! p)"])
      show "hl_Remove hf k h = Some (0, h\<lparr>iUsedDataNodeNum := iUsedDataNodeNum h - 1, ipFreeDataNodeList := int p,
        m_pstIndex := (m_pstIndex h)[i := ?x\<lparr>ipDataNodeList := ipNextDataNode (?d ! p), iDataNodeNum := int (length us + length vs)\<rparr>],
        m_pstData := ?d[p := (?d ! p)\<lparr>ipNextDataNode := ipFreeDataNodeList h\<rparr>]\<rparr>)"
        using i walk p cond num Nil
        by (auto simp: hl_Remove_def hl_RecycleNode_def intro!: hash_list.equality)
    qed (use ip Nil in simp_all)
  next
    case (snoc ws u)
    define d where "d = ?d[u := (?d ! u)\<lparr>ipNextDataNode := ipNextDataNode (?d ! p)\<rparr>]"
    have uin: "u \<in> set (cs i)" using cs snoc by simp
    note u = hl_node_bounds [OF inv uin]
    have up: "u \<noteq> p" using dist snoc by auto
    have "hl_path d (ipDataNodeList ?x) (us @ vs)"
      using path_unlink [of ?d "ipDataNodeList ?x" ws u p vs] path dist snoc by (simp add: d_def)
    moreover have "KeyVal (d ! q) = KeyVal (?d ! q) \<and> hl_Data (d ! q) = hl_Data (?d ! q)" for q
      using u by (cases "q = u") (simp_all add: d_def)
    moreover have "hl_path d ip qs = hl_path ?d ip qs" if "set qs \<inter> set (cs i) = {}" for ip qs
    proof -
      have "u \<notin> set qs" using that uin by auto
      then show ?thesis by (simp add: d_def)
    qed
    moreover have "hl_Remove hf k h = Some (0, h\<lparr>iUsedDataNodeNum := iUsedDataNodeNum h - 1, ipFreeDataNodeList := int p,
        m_pstIndex := (m_pstIndex h)[i := ?x\<lparr>ipDataNodeList := ipDataNodeList ?x, iDataNodeNum := int (length us + length vs)\<rparr>],
        m_pstData := d[p := (?d ! p)\<lparr>ipNextDataNode := ipFreeDataNodeList h\<rparr>]\<rparr>)"
      using i walk p u up cond num snoc by (simp add: hl_Remove_def hl_RecycleNode_def d_def)
    ultimately show ?thesis using that [of d "ipDataNodeList ?x"] by (simp add: d_def)
  qed
qed

lemma hl_Remove_ok:
  assumes inv: "hl_inv hf h cs fs" and abs: "hl_abs h cs m" and hf: "hl_hash_ok hf h" and old: "m k = Some v"
  obtains h' cs' p where "hl_Remove hf k h = Some (0, h')" "hl_inv hf h' cs' (p # fs)" "hl_abs h' cs' (m(k := None))"
    "length (m_pstIndex h') = length (m_pstIndex h)" "length (m_pstData h') = length (m_pstData h)"
proof -
  obtain i us p vs where s: "hf k = int i" "i < length (m_pstIndex h)" "cs i = us @ p # vs"
      "KeyVal (m_pstData h ! p) = k" "hl_Data (m_pstData h ! p) = v"
      "hl_walk (m_pstData h) k 0 (ipDataNodeList (m_pstIndex h ! i)) = Some (int p, if us = [] then 0 else int (last us))"
    using hl_search [OF inv abs hf, of k] old by metis
  note D = hl_invD [OF inv]
  let ?d = "m_pstData h" and ?x = "m_pstIndex h ! i"
  obtain d ip where r: "hl_Remove hf k h = Some (0, h\<lparr>iUsedDataNodeNum := iUsedDataNodeNum h - 1, ipFreeDataNodeList := int p,
        m_pstIndex := (m_pstIndex h)[i := ?x\<lparr>ipDataNodeList := ip, iDataNodeNum := int (length us + length vs)\<rparr>],
        m_pstData := d[p := (?d ! p)\<lparr>ipNextDataNode := ipFreeDataNodeList h\<rparr>]\<rparr>)"
    "length d = length ?d" "hl_path d ip (us @ vs)"
    "\<And>q. KeyVal (d ! q) = KeyVal (?d ! q) \<and> hl_Data (d ! q) = hl_Data (?d ! q)"
    "\<And>ip qs. set qs \<inter> set (cs i) = {} \<Longrightarrow> hl_path d ip qs = hl_path ?d ip qs"
    by (rule hl_Remove_run [OF inv s(1-3,6)]) (rule that)
  define d' where "d' = d[p := (?d ! p)\<lparr>ipNextDataNode := ipFreeDataNodeList h\<rparr>]"
  define h' where "h' = h\<lparr>iUsedDataNodeNum := iUsedDataNodeNum h - 1, ipFreeDataNodeList := int p,
        m_pstIndex := (m_pstIndex h)[i := ?x\<lparr>ipDataNodeList := ip, iDataNodeNum := int (length us + length vs)\<rparr>],
        m_pstData := d'\<rparr>"
  define cs' where "cs' = cs(i := us @ vs)"
  have pin: "p \<in> set (cs i)" using s(3) by simp
  note p = hl_node_bounds [OF inv pin]
  have po: "p \<notin> set (cs j)" if "j \<noteq> i" for j using D(7) [OF that] pin by auto
  have pf: "p \<notin> set fs" using D(10) [of i] pin by auto
  have p': "p \<notin> set us" "p \<notin> set vs" using D(6) [of i] s(3) by auto
  have d'f: "\<And>q. KeyVal (d' ! q) = KeyVal (?d ! q) \<and> hl_Data (d' ! q) = hl_Data (?d ! q)" "length d' = length ?d"
    using r(2,4) p(2) by (simp_all add: d'_def nth_list_update)
  have sub: "set (cs' j) \<subseteq> set (cs j)" for j using s(3) by (auto simp: cs'_def)
  note ex = ex_chain_drop [of cs i us p vs, OF s(3) D(6) po, folded cs'_def]
  have "hl_inv hf h' cs' (p # fs)"
    unfolding hl_inv_def
  proof (intro conjI allI impI ballI)
    fix j assume "j < length (m_pstIndex h')"
    then have j: "j < length (m_pstIndex h)" by (simp add: h'_def)
    show "iHashVal (m_pstIndex h' ! j) = int j" "iDataNodeNum (m_pstIndex h' ! j) = int (length (cs' j))"
      using D(3,4) [OF j] s(2) by (cases "j = i"; simp add: h'_def cs'_def)+
    show "hl_path (m_pstData h') (ipDataNodeList (m_pstIndex h' ! j)) (cs' j)"
    proof (cases "j = i")
      case True
      with r(3) p' s(2) show ?thesis by (simp add: h'_def d'_def cs'_def)
    next
      case False
      with po have "p \<notin> set (cs j)" by blast
      with False D(5) [OF j] D(7) [OF False] r(5) [of "cs j"] show ?thesis by (simp add: h'_def d'_def cs'_def)
    qed
  next
    show "distinct (cs' j)" for j using D(6) [of j] D(6) [of i] s(3) by (cases "j = i") (simp_all add: cs'_def)
    show "cs' j = []" if "length (m_pstIndex h') \<le> j" for j
      using D(15) that s(2) by (auto simp: h'_def cs'_def)
    show "set (cs' j) \<inter> set (cs' j') = {}" if "j \<noteq> j'" for j j'
      using D(7) [OF that] sub [of j] sub [of j'] by blast
    show "hl_path (m_pstData h') (ipFreeDataNodeList h') (p # fs)"
      using p pf D(8) D(10) [of i] r(2) r(5) [of fs] d'f(2) by (simp add: h'_def d'_def Int_commute)
    show "distinct (p # fs)" using D(9) pf by simp
    show "set (cs' j) \<inter> set (p # fs) = {}" for j
      using D(10) [of j] sub [of j] po [of j] p' by (cases "j = i") (auto simp: cs'_def)
    show "(\<exists>j. q \<in> set (cs' j)) \<or> q \<in> set (p # fs) \<longleftrightarrow> 0 < q \<and> q < length (m_pstData h')" for q
      using D(11) [of q] D(11) [of p] ex [of "\<lambda>r. r = q"] pin by (auto simp: h'_def d'f(2))
    show "hf (KeyVal (m_pstData h' ! q)) = int j" if "q \<in> set (cs' j)" for j q
      using that D(13) [of q j] sub [of j] d'f by (auto simp: h'_def)
    show "inj_on (\<lambda>p. KeyVal (m_pstData h' ! p)) (set (cs' j))" for j
      using D(14) [of j] sub [of j] d'f(1) by (auto simp: h'_def intro: inj_on_subset)
  qed (use D(1,2,12) in \<open>simp_all add: h'_def d'f(2)\<close>)
  moreover have "hl_abs h' cs' (m(k := None))"
    unfolding hl_abs_def
  proof (intro allI)
    fix k' v'
    have key: "q = p" if "q \<in> set (cs j)" "KeyVal (?d ! q) = k" for q j
    proof -
      have "j = i" using D(13) [OF that(1)] that(2) s(1) by simp
      with D(14) [of i] that pin s(4) show ?thesis by (auto simp: inj_on_def)
    qed
    have "(\<exists>j. \<exists>q \<in> set (cs' j). KeyVal (d' ! q) = k' \<and> hl_Data (d' ! q) = v')
      \<longleftrightarrow> k' \<noteq> k \<and> (\<exists>j. \<exists>q \<in> set (cs j). KeyVal (?d ! q) = k' \<and> hl_Data (?d ! q) = v')"
      using ex [of "\<lambda>q. KeyVal (d' ! q) = k' \<and> hl_Data (d' ! q) = v'"] d'f(1) key s(4) by metis
    then show "(m(k := None)) k' = Some v' \<longleftrightarrow>
        (\<exists>j. \<exists>p \<in> set (cs' j). KeyVal (m_pstData h' ! p) = k' \<and> hl_Data (m_pstData h' ! p) = v')"
      using abs by (auto simp: h'_def hl_abs_def)
  qed
  moreover have "hl_Remove hf k h = Some (0, h')" using r(1) by (simp add: h'_def d'_def)
  ultimately show ?thesis using that d'f(2) by (simp add: h'_def)
qed

section \<open>Refinement of a bounded map\<close>

lemma hl_used:
  assumes inv: "hl_inv hf h cs fs" and abs: "hl_abs h cs m"
  shows "finite (dom m)" "card (dom m) = length (m_pstData h) - 1 - length fs"
    "length fs \<le> length (m_pstData h) - 1"
proof -
  note D = hl_invD [OF inv]
  let ?U = "{p. \<exists>i. p \<in> set (cs i)}" and ?key = "\<lambda>p. KeyVal (m_pstData h ! p)"
  have U: "?U = {1..<length (m_pstData h)} - set fs"
  proof (rule set_eqI)
    fix p
    have "(\<exists>i. p \<in> set (cs i)) \<Longrightarrow> p \<notin> set fs" using D(10) by blast
    with D(11) [of p] show "p \<in> ?U \<longleftrightarrow> p \<in> {1..<length (m_pstData h)} - set fs"
      by (simp add: Suc_le_eq) blast
  qed
  have fs: "set fs \<subseteq> {1..<length (m_pstData h)}"
  proof
    fix p assume "p \<in> set fs"
    with D(11) [of p] show "p \<in> {1..<length (m_pstData h)}" by simp
  qed
  then show "length fs \<le> length (m_pstData h) - 1"
    using card_mono [of "{1..<length (m_pstData h)}" "set fs"] distinct_card [OF D(9)] by simp
  have "dom m = ?key ` ?U" using abs by (force simp: hl_abs_def dom_def)
  moreover have "inj_on ?key ?U"
  proof (rule inj_onI, clarify)
    fix p q i j assume p: "p \<in> set (cs i)" and q: "q \<in> set (cs j)" and eq: "?key p = ?key q"
    have "i = j" using D(13) [OF p] D(13) [OF q] eq by simp
    with D(14) [of i] p q eq show "p = q" by (auto simp: inj_on_def)
  qed
  moreover have "card ?U = length (m_pstData h) - 1 - length fs"
    unfolding U using fs distinct_card [OF D(9)] by (simp add: card_Diff_subset)
  moreover have "finite ?U" unfolding U by simp
  ultimately show "finite (dom m)" "card (dom m) = length (m_pstData h) - 1 - length fs"
    by (simp_all add: card_image)
qed

definition hl_holds :: "('k \<Rightarrow> int) \<Rightarrow> nat \<Rightarrow> nat \<Rightarrow> ('k, 'v) hash_list \<Rightarrow> ('k \<Rightarrow> 'v option) \<Rightarrow> bool" where
  "hl_holds hf ni nd h m \<longleftrightarrow> length (m_pstIndex h) = ni \<and> length (m_pstData h) = nd \<and> 0 < nd
     \<and> (\<exists>cs fs. hl_inv hf h cs fs \<and> hl_abs h cs m)"

definition hl_hash_in :: "('k \<Rightarrow> int) \<Rightarrow> nat \<Rightarrow> bool" where
  "hl_hash_in hf ni \<longleftrightarrow> (\<forall>k. 0 \<le> hf k \<and> hf k < int ni)"

datatype ('k, 'v) hl_op = HInsert 'k 'v | HRemove 'k

fun hl_step :: "('k \<Rightarrow> int) \<Rightarrow> ('k, 'v) hash_list \<Rightarrow> ('k, 'v) hl_op \<Rightarrow> (int \<times> ('k, 'v) hash_list) option" where
  "hl_step hf h (HInsert k v) = hl_Insert hf k v h"
| "hl_step hf h (HRemove k) = hl_Remove hf k h"

fun hl_run :: "('k \<Rightarrow> int) \<Rightarrow> ('k, 'v) hash_list \<Rightarrow> ('k, 'v) hl_op list \<Rightarrow> (int list \<times> ('k, 'v) hash_list) option" where
  "hl_run hf h [] = Some ([], h)"
| "hl_run hf h (p # ps) = do { (a, h) \<leftarrow> hl_step hf h p; (as, h) \<leftarrow> hl_run hf h ps; Some (a # as, h) }"

text \<open>The specification: a map with room for \<open>c\<close> keys.\<close>

fun bmap_step :: "nat \<Rightarrow> ('k \<Rightarrow> 'v option) \<Rightarrow> ('k, 'v) hl_op \<Rightarrow> int \<times> ('k \<Rightarrow> 'v option)" where
  "bmap_step c m (HInsert k v) =
     (if m k \<noteq> None then (E_HASH_LIST_NODE_EXIST, m)
      else if card (dom m) < c then (0, m(k \<mapsto> v)) else (E_HASH_LIST_NO_SPACE, m))"
| "bmap_step c m (HRemove k) = (if m k = None then (E_HASH_LIST_NO_NODE, m) else (0, m(k := None)))"

fun bmap_run :: "nat \<Rightarrow> ('k \<Rightarrow> 'v option) \<Rightarrow> ('k, 'v) hl_op list \<Rightarrow> int list \<times> ('k \<Rightarrow> 'v option)" where
  "bmap_run c m [] = ([], m)"
| "bmap_run c m (p # ps) = (let (a, m) = bmap_step c m p; (as, m) = bmap_run c m ps in (a # as, m))"

lemma hl_step_holds:
  assumes h: "hl_holds hf ni nd h m" and hf: "hl_hash_in hf ni"
  shows "\<exists>h'. hl_step hf h p = Some (fst (bmap_step (nd - 1) m p), h') \<and> hl_holds hf ni nd h' (snd (bmap_step (nd - 1) m p))"
proof -
  obtain cs fs where inv: "hl_inv hf h cs fs" and abs: "hl_abs h cs m"
    and len: "length (m_pstIndex h) = ni" "length (m_pstData h) = nd"
    and nd: "0 < nd"
    using h by (auto simp: hl_holds_def)
  have ok: "hl_hash_ok hf h" using hf len by (simp add: hl_hash_ok_def hl_hash_in_def)
  show ?thesis
  proof (cases p)
    case (HInsert k v)
    show ?thesis
    proof (cases "m k")
      case (Some w)
      then obtain i us p vs where s: "hf k = int i" "i < length (m_pstIndex h)" "cs i = us @ p # vs"
          "hl_walk (m_pstData h) k 0 (ipDataNodeList (m_pstIndex h ! i)) = Some (int p, if us = [] then 0 else int (last us))"
        using hl_search [OF inv abs ok, of k] by metis
      then have "0 < p" using hl_node_bounds(1) [OF inv, of p i] by simp
      with s Some HInsert h show ?thesis by (simp add: hl_Insert_def)
    next
      case None
      obtain i l where s: "hf k = int i" "i < length (m_pstIndex h)"
          "hl_walk (m_pstData h) k 0 (ipDataNodeList (m_pstIndex h ! i)) = Some (0, l)"
        using hl_search [OF inv abs ok, of k] None by metis
      show ?thesis
      proof (cases fs)
        case Nil
        have "hl_GetFreeNode h = Some (E_HASH_LIST_NO_SPACE, h)"
          using hl_invD(2,12) [OF inv] Nil by (simp add: hl_GetFreeNode_def)
        moreover have "\<not> card (dom m) < nd - 1" using hl_used(2) [OF inv abs] Nil len by simp
        ultimately show ?thesis using s None HInsert h by (simp add: hl_Insert_def)
      next
        case (Cons f fs')
        have "card (dom m) < nd - 1" using hl_used(2,3) [OF inv abs] Cons len by simp
        moreover obtain h' cs' where "hl_Insert hf k v h = Some (0, h')" "hl_inv hf h' cs' fs'" "hl_abs h' cs' (m(k \<mapsto> v))"
            "length (m_pstIndex h') = ni" "length (m_pstData h') = nd"
          using hl_Insert_new [OF inv [unfolded Cons] abs ok None, of v] len by metis
        ultimately show ?thesis using None HInsert nd by (auto simp: hl_holds_def)
      qed
    qed
  next
    case (HRemove k)
    show ?thesis
    proof (cases "m k")
      case None
      obtain i l where "hf k = int i" "i < length (m_pstIndex h)"
          "hl_walk (m_pstData h) k 0 (ipDataNodeList (m_pstIndex h ! i)) = Some (0, l)"
        using hl_search [OF inv abs ok, of k] None by metis
      with None HRemove h show ?thesis by (simp add: hl_Remove_def)
    next
      case (Some v)
      obtain h' cs' p where "hl_Remove hf k h = Some (0, h')" "hl_inv hf h' cs' (p # fs)" "hl_abs h' cs' (m(k := None))"
          "length (m_pstIndex h') = ni" "length (m_pstData h') = nd"
        using hl_Remove_ok [OF inv abs ok Some] len by metis
      with Some HRemove nd show ?thesis by (auto simp: hl_holds_def)
    qed
  qed
qed

lemma hl_run_holds:
  assumes "hl_holds hf ni nd h m" "hl_hash_in hf ni"
  shows "\<exists>h'. hl_run hf h ps = Some (fst (bmap_run (nd - 1) m ps), h') \<and> hl_holds hf ni nd h' (snd (bmap_run (nd - 1) m ps))"
  using assms(1)
proof (induction ps arbitrary: h m)
  case (Cons p ps)
  obtain h1 where h1: "hl_step hf h p = Some (fst (bmap_step (nd - 1) m p), h1)"
      "hl_holds hf ni nd h1 (snd (bmap_step (nd - 1) m p))"
    using hl_step_holds [OF Cons.prems assms(2), of p] by blast
  with Cons.IH [OF h1(2)] show ?case by (auto simp: split_beta)
qed simp

lemma clear_path:
  assumes "n = length d" "2 \<le> n" "\<forall>i < n - 1. 1 \<le> i \<longrightarrow> ipNextDataNode (d ! i) = int i + 1" "ipNextDataNode (d ! (n - 1)) = 0"
  shows "1 \<le> i \<Longrightarrow> i < n \<Longrightarrow> hl_path d (int i) [i..<n]"
proof (induction "n - i" arbitrary: i)
  case (Suc k)
  show ?case
  proof (cases "Suc i = n")
    case True
    then have "[i..<n] = [i]" "n - 1 = i" by (auto simp: upt_rec)
    with Suc.prems assms(1,4) show ?thesis by simp
  next
    case False
    then have "hl_path d (int (Suc i)) [Suc i..<n]" using Suc.hyps(1) [of "Suc i"] Suc.hyps(2) Suc.prems by simp
    moreover have "[i..<n] = i # [Suc i..<n]" using Suc.prems by (simp add: upt_rec)
    moreover have "ipNextDataNode (d ! i) = int (Suc i)" using assms(3) Suc.prems False by simp
    ultimately show ?thesis using Suc.prems assms(1) by simp
  qed
qed simp

lemma hl_Clear_holds:
  assumes "0 < iIndexNodeNum h" "2 \<le> iTotalDataNodeNum h"
  shows "hl_holds hf (nat (iIndexNodeNum h)) (nat (iTotalDataNodeNum h)) (hl_Clear z h) Map.empty"
proof -
  let ?h = "hl_Clear z h" and ?n = "nat (iTotalDataNodeNum h)"
  have len: "length (m_pstIndex ?h) = nat (iIndexNodeNum h)" "length (m_pstData ?h) = ?n"
    by (simp_all add: hl_Clear_def Let_def)
  have "hl_path (m_pstData ?h) (int 1) [1..<?n]"
  proof (rule clear_path)
    show "\<forall>i < ?n - 1. 1 \<le> i \<longrightarrow> ipNextDataNode (m_pstData ?h ! i) = int i + 1"
    proof (intro allI impI)
      fix i assume i: "i < ?n - 1" "1 \<le> i"
      then have "i < ?n" "[0..<?n] ! i = i" by simp_all
      with i show "ipNextDataNode (m_pstData ?h ! i) = int i + 1" by (simp add: hl_Clear_def Let_def)
    qed
    show "ipNextDataNode (m_pstData ?h ! (?n - 1)) = 0" using assms by (simp add: hl_Clear_def Let_def)
  qed (use assms len in auto)
  then have path: "hl_path (m_pstData ?h) (ipFreeDataNodeList ?h) [1..<?n]" by (simp add: hl_Clear_def Let_def)
  have "hl_inv hf ?h (\<lambda>_. []) [1..<?n]"
    unfolding hl_inv_def using assms path len by (simp add: Suc_le_eq) (auto simp: hl_Clear_def Let_def)
  moreover have "hl_abs ?h (\<lambda>_. []) Map.empty" by (simp add: hl_abs_def)
  ultimately show ?thesis using len assms(2) by (auto simp: hl_holds_def)
qed

lemma verify_index_ok:
  assumes inv: "hl_inv hf h cs fs" and "i \<le> length (m_pstIndex h)"
  shows "hl_verify_index h (int i) used (drop i (m_pstIndex h))
    = Some (Inr (used + int (\<Sum>j \<in> {i..<length (m_pstIndex h)}. length (cs j))))"
  using assms(2)
proof (induction "length (m_pstIndex h) - i" arbitrary: i used)
  case 0
  then show ?case by simp
next
  case (Suc k)
  then have i: "i < length (m_pstIndex h)" by simp
  note D = hl_invD [OF inv]
  have "drop i (m_pstIndex h) = m_pstIndex h ! i # drop (Suc i) (m_pstIndex h)" using i by (simp add: Cons_nth_drop_Suc)
  moreover have "{i..<length (m_pstIndex h)} = insert i {Suc i..<length (m_pstIndex h)}" using i by auto
  moreover have "hl_count (iTotalDataNodeNum h) (m_pstData h) 0 (ipDataNodeList (m_pstIndex h ! i)) = Some (Inr (int (length (cs i))))"
    using count_path [OF D(5) [OF i], of "iTotalDataNodeNum h" 0] D(2) by simp
  moreover have "hl_verify_index h (int (Suc i)) (used + int (length (cs i))) (drop (Suc i) (m_pstIndex h))
      = Some (Inr (used + int (length (cs i)) + int (\<Sum>j \<in> {Suc i..<length (m_pstIndex h)}. length (cs j))))"
    using Suc.hyps(1) [of "Suc i"] Suc.hyps(2) i by simp
  ultimately show ?case using D(3,4) [OF i] by (simp add: add.commute add.left_commute)
qed

lemma chain_lengths:
  assumes inv: "hl_inv hf h cs fs" and abs: "hl_abs h cs m"
  shows "(\<Sum>j < length (m_pstIndex h). length (cs j)) = length (m_pstData h) - 1 - length fs"
proof -
  note D = hl_invD [OF inv]
  let ?U = "\<Union>j \<in> {..<length (m_pstIndex h)}. set (cs j)"
  have "p \<in> ?U \<longleftrightarrow> p \<in> {1..<length (m_pstData h)} - set fs" for p
  proof -
    have "(\<exists>i. p \<in> set (cs i)) \<longleftrightarrow> p \<in> ?U"
    proof
      assume "\<exists>i. p \<in> set (cs i)"
      then obtain i where i: "p \<in> set (cs i)" by blast
      then have "i < length (m_pstIndex h)" using D(15) [of i] by (cases "i < length (m_pstIndex h)") auto
      with i show "p \<in> ?U" by blast
    qed blast
    moreover have "(\<exists>i. p \<in> set (cs i)) \<Longrightarrow> p \<notin> set fs" using D(10) by blast
    ultimately show ?thesis using D(11) [of p] by (simp add: Suc_le_eq) blast
  qed
  then have U: "?U = {1..<length (m_pstData h)} - set fs" by blast
  have "card ?U = (\<Sum>j < length (m_pstIndex h). card (set (cs j)))"
    by (rule card_UN_disjoint) (use D(7) in auto)
  also have "\<dots> = (\<Sum>j < length (m_pstIndex h). length (cs j))"
    using D(6) by (intro sum.cong) (simp_all add: distinct_card)
  finally have "(\<Sum>j < length (m_pstIndex h). length (cs j)) = card ({1..<length (m_pstData h)} - set fs)"
    using U by simp
  moreover have "set fs \<subseteq> {1..<length (m_pstData h)}"
  proof
    fix p assume "p \<in> set fs"
    with D(11) [of p] show "p \<in> {1..<length (m_pstData h)}" by simp
  qed
  ultimately show ?thesis using distinct_card [OF D(9)] by (simp add: card_Diff_subset)
qed

lemma hl_Verify_holds:
  assumes "hl_holds hf ni nd h m"
  shows "hl_Verify h = Some 0"
proof -
  obtain cs fs where inv: "hl_inv hf h cs fs" and abs: "hl_abs h cs m"
    using assms by (auto simp: hl_holds_def)
  note D = hl_invD [OF inv]
  note used = hl_used(3) [OF inv abs]
  have "hl_path (m_pstData h) (ipFreeDataNodeList h) fs" by (rule D(8))
  from count_path [OF this, of "iTotalDataNodeNum h" 0]
  have free: "hl_count (iTotalDataNodeNum h) (m_pstData h) 0 (ipFreeDataNodeList h) = Some (Inr (int (length fs)))"
    using D(2) by simp
  have pos: "0 < length (m_pstData h)" using assms by (simp add: hl_holds_def)
  have "1 + int (\<Sum>j \<in> {0..<length (m_pstIndex h)}. length (cs j)) = iUsedDataNodeNum h"
    using chain_lengths [OF inv abs] D(12) used pos by (simp only: lessThan_atLeast0)
  then have "hl_verify_index h 0 1 (m_pstIndex h) = Some (Inr (iUsedDataNodeNum h))"
    using verify_index_ok [OF inv, of 0 1] by simp
  with free show ?thesis using D(1,2,12) by (simp add: hl_Verify_def)
qed

lemma hl_Get_holds:
  assumes h: "hl_holds hf ni nd h m" and hf: "hl_hash_in hf ni"
  shows "\<exists>r. hl_Get hf k h = Some r \<and> (case r of
       None \<Rightarrow> m k = None
     | Some p \<Rightarrow> \<exists>n. arr_get (m_pstData h) p = Some n \<and> KeyVal n = k \<and> m k = Some (hl_Data n))"
proof -
  obtain cs fs where inv: "hl_inv hf h cs fs" and abs: "hl_abs h cs m" and len: "length (m_pstIndex h) = ni"
    using h by (auto simp: hl_holds_def)
  have ok: "hl_hash_ok hf h" using hf len by (simp add: hl_hash_ok_def hl_hash_in_def)
  show ?thesis
  proof (cases "m k")
    case None
    obtain i l where "hf k = int i" "i < length (m_pstIndex h)"
        "hl_walk (m_pstData h) k 0 (ipDataNodeList (m_pstIndex h ! i)) = Some (0, l)"
      using hl_search [OF inv abs ok, of k] None by metis
    with None show ?thesis by (simp add: hl_Get_def)
  next
    case (Some v)
    then obtain i us p vs where s: "hf k = int i" "i < length (m_pstIndex h)" "cs i = us @ p # vs"
        "KeyVal (m_pstData h ! p) = k" "hl_Data (m_pstData h ! p) = v"
        "hl_walk (m_pstData h) k 0 (ipDataNodeList (m_pstIndex h ! i)) = Some (int p, if us = [] then 0 else int (last us))"
      using hl_search [OF inv abs ok, of k] by metis
    then have "p \<in> set (cs i)" by simp
    from hl_node_bounds [OF inv this] s Some show ?thesis by (simp add: hl_Get_def)
  qed
qed

lemma hl_used_holds: "hl_holds hf ni nd h m \<Longrightarrow> finite (dom m) \<and> hl_GetUsedDataNum h = 1 + int (card (dom m))"
  unfolding hl_holds_def
proof (elim conjE exE)
  fix cs fs
  assume "hl_inv hf h cs fs" "hl_abs h cs m" "length (m_pstData h) = nd" "0 < nd"
  with hl_used [of hf h cs fs m] hl_invD(12) [of hf h cs fs] show ?thesis by (simp add: hl_GetUsedDataNum_def)
qed

text \<open>The keys a sequence of operations uses; the hash function only matters on these.\<close>

fun hl_keys :: "('k, 'v) hl_op list \<Rightarrow> 'k set" where
  "hl_keys [] = {}"
| "hl_keys (HInsert k v # ps) = insert k (hl_keys ps)"
| "hl_keys (HRemove k # ps) = insert k (hl_keys ps)"

lemma hl_run_cong:
  "\<forall>k \<in> hl_keys ps. hf k = hf' k \<Longrightarrow> hl_run hf h ps = hl_run hf' h ps"
proof (induction ps arbitrary: h rule: hl_keys.induct)
  case (2 k v ps)
  have "hf k = hf' k" using 2 by simp
  then have "hl_step hf h (HInsert k v) = hl_step hf' h (HInsert k v)" unfolding hl_step.simps hl_Insert_def by (simp only:)
  with 2 show ?case by simp
next
  case (3 k ps)
  have "hf k = hf' k" using 3 by simp
  then have "hl_step hf h (HRemove k) = hl_step hf' h (HRemove k)" unfolding hl_step.simps hl_Remove_def by (simp only:)
  with 3 show ?case by simp
qed simp

text \<open>A hash outside the index array, as the class's own \<open>Hash\<close> gives for a negative key that is
  no multiple of the number of chains, is undefined behaviour in every operation.\<close>

lemma hl_out_of_range:
  assumes "hf k < 0"
  shows "hl_Insert hf k v h = None" "hl_Remove hf k h = None" "hl_Get hf k h = None"
  using assms by (simp_all add: hl_Insert_def hl_Remove_def hl_Get_def arr_get_def)

section \<open>Properties\<close>

text \<open>C17. Let \<open>K\<close> be keys which the hash function maps into the index array (for the class's own
  \<open>Hash\<close> the keys that are not negative; a negative one is undefined behaviour, lemma
  \<open>hl_out_of_range\<close>). Every sequence of \<open>Insert\<close> and \<open>Remove\<close> of keys of \<open>K\<close> on a cleared hash
  list ends and answers what a map with room for one key less than there are nodes answers (node 0
  is never handed out); afterwards \<open>Get\<close> of a key of \<open>K\<close> designates the data the map has for it
  and nothing if it has none, the used count is one more than the number of keys of the map (node
  0 is counted) and \<open>Verify\<close> finds no fault.\<close>

theorem hl_refines_bounded_map:
  assumes "0 < iIndexNodeNum h" "2 \<le> iTotalDataNodeNum h" "\<forall>k \<in> K. 0 \<le> hf k \<and> hf k < iIndexNodeNum h"
    and "hl_keys ps \<subseteq> K" "(as, m) = bmap_run (nat (iTotalDataNodeNum h) - 1) Map.empty ps"
  shows "\<exists>h'. hl_run hf (hl_Clear z h) ps = Some (as, h')
    \<and> (\<forall>k \<in> K. \<exists>r. hl_Get hf k h' = Some r \<and> (case r of
         None \<Rightarrow> m k = None
       | Some p \<Rightarrow> \<exists>n. arr_get (m_pstData h') p = Some n \<and> m k = Some (hl_Data n)))
    \<and> hl_GetUsedDataNum h' = 1 + int (card (dom m)) \<and> hl_Verify h' = Some 0"
proof -
  let ?ni = "nat (iIndexNodeNum h)" and ?nd = "nat (iTotalDataNodeNum h)"
  define hf' where "hf' = (\<lambda>k. if k \<in> K then hf k else 0)"
  have hf: "hl_hash_in hf' ?ni" using assms(1,3) by (simp add: hl_hash_in_def hf'_def)
  have run: "hl_run hf' h1 ps = hl_run hf h1 ps" for h1
    using assms(4) by (intro hl_run_cong) (auto simp: hf'_def)
  obtain h' where h': "hl_run hf (hl_Clear z h) ps = Some (as, h')" "hl_holds hf' ?ni ?nd h' m"
    using hl_run_holds [OF hl_Clear_holds [OF assms(1,2), of hf' z] hf, of ps] assms(5) run by (metis fst_conv snd_conv)
  have "\<exists>r. hl_Get hf k h' = Some r \<and> (case r of
         None \<Rightarrow> m k = None
       | Some p \<Rightarrow> \<exists>n. arr_get (m_pstData h') p = Some n \<and> m k = Some (hl_Data n))" if "k \<in> K" for k
  proof -
    have "hl_Get hf k h' = hl_Get hf' k h'" using that by (simp add: hl_Get_def hf'_def)
    with hl_Get_holds [OF h'(2) hf, of k] show ?thesis by (fastforce split: option.splits)
  qed
  with h' hl_used_holds [OF h'(2)] hl_Verify_holds [OF h'(2)] show ?thesis by blast
qed

text \<open>A list with two chains and two usable nodes, with the hash of the class.\<close>

definition sample_hl :: "(int, int) hash_list" where
  "sample_hl = \<lparr>hl_iSize = 100, iTotalDataNodeNum = 3, iUsedDataNodeNum = 0, iIndexNodeNum = 2,
     ipFreeDataNodeList = 0, m_pstIndex = [], m_pstData = []\<rparr>"

theorem hl_refines_bounded_map_witness:
  "\<exists>h'. hl_run (hl_Hash sample_hl) (hl_Clear \<lparr>KeyVal = 0, ipNextDataNode = 0, hl_Data = 0\<rparr> sample_hl)
      [HInsert 5 1, HInsert 7 2, HInsert 9 3, HInsert 5 4, HRemove 7, HRemove 7, HInsert 9 3]
    = Some ([0, 0, -104, -106, 0, -105, 0], h') \<and> hl_GetUsedDataNum h' = 3 \<and> hl_Verify h' = Some 0"
proof -
  let ?ps = "[HInsert 5 1, HInsert 7 2, HInsert 9 3, HInsert 5 4, HRemove 7, HRemove 7, HInsert 9 3] :: (int, int) hl_op list"
  have size: "0 < iIndexNodeNum sample_hl" "2 \<le> iTotalDataNodeNum sample_hl" by (simp_all add: sample_hl_def)
  have hash: "\<forall>k \<in> {0..}. 0 \<le> hl_Hash sample_hl k \<and> hl_Hash sample_hl k < iIndexNodeNum sample_hl"
    by (simp add: hl_Hash_def sample_hl_def)
  have keys: "hl_keys ?ps \<subseteq> {0..}" by simp
  have run: "([0, 0, -104, -106, 0, -105, 0], [5 \<mapsto> 1, 9 \<mapsto> 3]) = bmap_run (nat (iTotalDataNodeNum sample_hl) - 1) Map.empty ?ps"
    by (simp add: sample_hl_def fun_upd_twist)
  have "card (dom [5 \<mapsto> 1, 9 \<mapsto> 3 :: int] :: int set) = 2" by simp
  with hl_refines_bounded_map [OF size hash keys run, of "\<lparr>KeyVal = 0, ipNextDataNode = 0, hl_Data = 0\<rparr>"]
  show ?thesis by auto
qed

end
