(* ===== verification/ProxyMq.thy ===== *)
theory ProxyMq
  imports MqMgr "HOL-Library.Signed_Division"
begin

unbundle bit_operations_syntax

text \<open>
  The message queue manager of the proxy, \<open>bis/src/proxy/mq_mgr.h\<close> and \<open>mq_mgr.cpp\<close>: one pull
  socket for the replies and one push socket per server of the configuration; a request goes
  to the server whose share of the hash buckets holds its key. The hash is MurmurHash2, the
  same function as \<open>HashFunc\<close> of \<open>hash_map/hash_table.h\<close>. What the ZeroMQ calls answer is the
  argument \<open>z\<close> as for the server.
\<close>

section \<open>State\<close>

text \<open>The part of \<open>ServerConfig\<close> the queue manager and the tasks read.\<close>

record proxy_cfg =
  pull_addr :: string
  push_addrs :: "string list"
  bucket_num :: int

record pmq =
  pm_context :: bool
  pm_pull :: "nat option"
  push_sks :: "nat list"
  pm_fresh :: nat
  pm_closed :: "nat list"
  pm_inbox :: "string list"
  pm_sent :: "(nat \<times> string) list"

definition pmq_new :: pmq where
  "pmq_new = \<lparr>pm_context = False, pm_pull = None, push_sks = [], pm_fresh = 0, pm_closed = [], pm_inbox = [], pm_sent = []\<rparr>"

definition pmq_destroy :: "pmq \<Rightarrow> pmq" where
  "pmq_destroy q = q\<lparr>pm_closed := pm_closed q @ (case pm_pull q of None \<Rightarrow> [] | Some sk \<Rightarrow> [sk]) @ push_sks q,
     pm_pull := None, pm_context := False\<rparr>"

section \<open>Connecting\<close>

fun pmq_connect :: "zmq \<Rightarrow> string list \<Rightarrow> pmq \<Rightarrow> int \<times> pmq" where
  "pmq_connect z [] q = (0, q)"
| "pmq_connect z (a # as) q =
     (let push_sk = pm_fresh q; q = q\<lparr>pm_fresh := Suc push_sk\<rparr>; ret = zmq_connect z a
      in if ret < 0 then (ret, q) else pmq_connect z as (q\<lparr>push_sks := push_sks q @ [push_sk]\<rparr>))"

definition pmq_Init :: "zmq \<Rightarrow> proxy_cfg \<Rightarrow> pmq \<Rightarrow> int \<times> pmq" where
  "pmq_Init z cfg q =
     (let q = q\<lparr>pm_context := True, pm_pull := Some (pm_fresh q), pm_fresh := Suc (pm_fresh q)\<rparr>;
          ret = zmq_bind z (pull_addr cfg)
      in if ret < 0 then (ret, q)
         else let (ret, q) = pmq_connect z (push_addrs cfg) q in
           if ret < 0 then (ret, q)
           else if length (push_sks q) \<le> 0 then (-1, q) else (0, q))"

section \<open>The hash\<close>

definition le32 :: "byte \<Rightarrow> byte \<Rightarrow> byte \<Rightarrow> byte \<Rightarrow> 32 word" where
  "le32 a b c d = push_bit 24 (ucast d) OR push_bit 16 (ucast c) OR push_bit 8 (ucast b) OR ucast a"

abbreviation (input) murmur_m :: "32 word" where "murmur_m \<equiv> 0x5bd1e995"
abbreviation (input) murmur_r :: nat where "murmur_r \<equiv> 24"

definition murmur_mix :: "32 word \<Rightarrow> 32 word \<Rightarrow> 32 word" where
  "murmur_mix h k =
     (let k = k * murmur_m; k = k XOR drop_bit murmur_r k; k = k * murmur_m
      in (h * murmur_m) XOR k)"

text \<open>Four bytes at a time, then the last ones; the cases of the \<open>switch\<close> fall through.\<close>

fun murmur_loop :: "byte list \<Rightarrow> 32 word \<Rightarrow> 32 word" where
  "murmur_loop (a # b # c # d # ds) h = murmur_loop ds (murmur_mix h (le32 a b c d))"
| "murmur_loop [a, b, c] h = (let h = h XOR push_bit 16 (ucast c); h = h XOR push_bit 8 (ucast b) in (h XOR ucast a) * murmur_m)"
| "murmur_loop [a, b] h = (let h = h XOR push_bit 8 (ucast b) in (h XOR ucast a) * murmur_m)"
| "murmur_loop [a] h = (h XOR ucast a) * murmur_m"
| "murmur_loop [] h = h"

definition pmq_Hash :: "byte list \<Rightarrow> 32 word" where
  "pmq_Hash key =
     (let h = 5381 XOR of_nat (length key);
          h = murmur_loop key h;
          h = h XOR drop_bit 13 h;
          h = h * murmur_m
      in h XOR drop_bit 15 h)"

section \<open>Sending and receiving\<close>

definition str_bytes :: "string \<Rightarrow> byte list" where "str_bytes = map of_char"
definition bytes_str :: "byte list \<Rightarrow> string" where "bytes_str = map (\<lambda>b. char_of (unat b))"

fun pmq_index_loop :: "int \<Rightarrow> int \<Rightarrow> nat \<Rightarrow> nat \<Rightarrow> int \<Rightarrow> nat" where
  "pmq_index_loop buck_val per 0 idx acc = idx"
| "pmq_index_loop buck_val per (Suc n) idx acc =
     (if buck_val < acc then idx else pmq_index_loop buck_val per n (idx + 1) (acc + per))"

text \<open>A remainder by zero is undefined; the hash is unsigned, so the number of buckets is too.\<close>

definition pmq_GetIndex :: "proxy_cfg \<Rightarrow> string \<Rightarrow> pmq \<Rightarrow> nat option" where
  "pmq_GetIndex cfg key q =
     (let buck_num = (of_int (bucket_num cfg) :: 32 word) in
      if buck_num = 0 then None
      else let buck_val = sint (pmq_Hash (str_bytes key) mod buck_num);
               per = bucket_num cfg sdiv int (length (push_sks q))
           in Some (pmq_index_loop buck_val per (length (push_sks q) - 1) 0 per))"

definition pmq_SendMsg :: "zmq \<Rightarrow> proxy_cfg \<Rightarrow> string \<Rightarrow> string \<Rightarrow> pmq \<Rightarrow> (int \<times> pmq) option" where
  "pmq_SendMsg z cfg key data q =
     (if length (push_sks q) \<le> 0 then Some (-1, q)
      else do {
        idx \<leftarrow> pmq_GetIndex cfg key q;
        let push_sk = push_sks q ! idx;
        let ret = zmq_send z push_sk data;
        Some (if ret < 0 then (ret, q) else (ret, q\<lparr>pm_sent := pm_sent q @ [(push_sk, data)]\<rparr>))
      })"

definition pmq_RecvMsg :: "pmq \<Rightarrow> (nat \<times> string) \<times> pmq" where
  "pmq_RecvMsg q =
     (case pm_inbox q of
        [] \<Rightarrow> ((0, ''''), q)
      | m # ms \<Rightarrow> ((length m, m), q\<lparr>pm_inbox := ms\<rparr>))"

text \<open>The unbounded loop; the messages are those that wait, so it ends.\<close>

function pmq_RecvMsgs :: "pmq \<Rightarrow> string list \<times> pmq" where
  "pmq_RecvMsgs q =
     (case pmq_RecvMsg q of ((n, msg), q') \<Rightarrow>
        if n \<le> 0 then ([], q')
        else let (msgs, q'') = pmq_RecvMsgs q' in (msg # msgs, q''))"
  by auto

termination
  by (relation "measure (\<lambda>q. length (pm_inbox q))")
    (auto simp: pmq_RecvMsg_def split: list.splits)

declare pmq_RecvMsgs.simps [simp del]

fun pmq_RecvMsgs_max :: "nat \<Rightarrow> pmq \<Rightarrow> string list \<times> pmq" where
  "pmq_RecvMsgs_max 0 q = ([], q)"
| "pmq_RecvMsgs_max (Suc cnt) q =
     (let ((n, msg), q) = pmq_RecvMsg q in
      if n \<le> 0 then ([], q)
      else let (msgs, q) = pmq_RecvMsgs_max cnt q in (msg # msgs, q))"

section \<open>Routing\<close>

lemma le_div_iff: "0 < per \<Longrightarrow> k \<le> v div per \<longleftrightarrow> k * per \<le> v" for k v per :: int
proof
  assume "0 < per" "k \<le> v div per"
  then have "k * per \<le> v div per * per" by (simp add: mult_right_mono)
  also have "\<dots> \<le> v" using \<open>0 < per\<close> by (metis div_mult_mod_eq le_add_same_cancel1 pos_mod_sign)
  finally show "k * per \<le> v" .
next
  assume "0 < per" "k * per \<le> v"
  then show "k \<le> v div per" using zdiv_mono1 [of "k * per" v per] by simp
qed

lemma index_loop_spec:
  assumes "0 < per" "0 \<le> v" "int idx * per \<le> v"
  shows "pmq_index_loop v per n idx (int (idx + 1) * per) = min (nat (v div per)) (idx + n)"
  using assms(3)
proof (induction n arbitrary: idx)
  case 0
  then have "int idx \<le> v div per" using assms(1) by (simp add: le_div_iff)
  then show ?case by simp
next
  case (Suc n)
  have low: "int idx \<le> v div per" using Suc.prems assms(1) by (simp add: le_div_iff)
  show ?case
  proof (cases "v < int (idx + 1) * per")
    case True
    then have "\<not> int (idx + 1) \<le> v div per" using assms(1) le_div_iff by force
    with low have "v div per = int idx" by simp
    with True show ?thesis by simp
  next
    case False
    then have "int (idx + 1) \<le> v div per" using assms(1) by (simp add: le_div_iff del: of_nat_add)
    with False Suc.IH [of "idx + 1"] show ?thesis by (simp add: algebra_simps)
  qed
qed

text \<open>The share of the buckets a key falls into.\<close>

definition key_bucket :: "proxy_cfg \<Rightarrow> string \<Rightarrow> int" where
  "key_bucket cfg key = uint (pmq_Hash (str_bytes key)) mod bucket_num cfg"

lemma GetIndex_share:
  assumes B: "0 < bucket_num cfg" "bucket_num cfg < 2 ^ 31" and n: "push_sks q \<noteq> []"
    "int (length (push_sks q)) \<le> bucket_num cfg"
  defines "per \<equiv> bucket_num cfg div int (length (push_sks q))"
  shows "pmq_GetIndex cfg key q = Some (min (nat (key_bucket cfg key div per)) (length (push_sks q) - 1))"
    "0 < per" "0 \<le> key_bucket cfg key"
proof -
  let ?B = "of_int (bucket_num cfg) :: 32 word"
  have uB: "uint ?B = bucket_num cfg" using B by (simp add: uint_word_of_int take_bit_int_eq_self)
  then have nz: "?B \<noteq> 0" using B by auto
  have v: "uint (pmq_Hash (str_bytes key) mod ?B) = key_bucket cfg key"
    by (simp only: uint_mod_distrib uB key_bucket_def)
  have range: "0 \<le> key_bucket cfg key" "key_bucket cfg key < 2 ^ 31"
    using B by (simp_all add: key_bucket_def) (meson pos_mod_bound less_trans)
  have sint: "sint (pmq_Hash (str_bytes key) mod ?B) = key_bucket cfg key"
    using range by (simp add: sint_uint v signed_take_bit_int_eq_self)
  show per: "0 < per" using n B by (simp add: per_def pos_imp_zdiv_pos_iff)
  show "0 \<le> key_bucket cfg key" by (fact range)
  have "bucket_num cfg sdiv int (length (push_sks q)) = per"
    using B by (simp add: signed_divide_int_def per_def sgn_if)
  with nz sint index_loop_spec [OF per range(1), of 0 "length (push_sks q) - 1"] range
  show "pmq_GetIndex cfg key q = Some (min (nat (key_bucket cfg key div per)) (length (push_sks q) - 1))"
    by (simp add: pmq_GetIndex_def Let_def)
qed

section \<open>Properties\<close>

text \<open>C27. With at least one bucket for each server a key always goes to one server, the one
  whose share of the buckets holds it: every server but the last has exactly
  \<open>bucket_num_ / size\<close> buckets, the last one the rest.\<close>

theorem proxy_routes_by_share:
  assumes "0 < bucket_num cfg" "bucket_num cfg < 2 ^ 31" "push_sks q \<noteq> []"
    "int (length (push_sks q)) \<le> bucket_num cfg"
  shows "\<exists>i < length (push_sks q). let per = bucket_num cfg div int (length (push_sks q)) in
    0 < per \<and> int i * per \<le> key_bucket cfg key
    \<and> (Suc i < length (push_sks q) \<longrightarrow> key_bucket cfg key < (int i + 1) * per)
    \<and> pmq_SendMsg z cfg key data q = Some (zmq_send z (push_sks q ! i) data,
        if zmq_send z (push_sks q ! i) data < 0 then q
        else q\<lparr>pm_sent := pm_sent q @ [(push_sks q ! i, data)]\<rparr>)"
proof -
  define per where "per = bucket_num cfg div int (length (push_sks q))"
  define i where "i = min (nat (key_bucket cfg key div per)) (length (push_sks q) - 1)"
  note g = GetIndex_share(1) [OF assms, of key, folded per_def, folded i_def]
    GetIndex_share(2) [OF assms, folded per_def] GetIndex_share(3) [OF assms, of key]
  have "int i \<le> key_bucket cfg key div per" 
  proof -
    have "0 \<le> key_bucket cfg key div per" using g(2,3) by (simp add: pos_imp_zdiv_nonneg_iff)
    moreover have "int i \<le> int (nat (key_bucket cfg key div per))" by (simp only: i_def of_nat_le_iff min.cobounded1)
    ultimately show ?thesis by simp
  qed
  then have "int i * per \<le> key_bucket cfg key" using g(2) by (simp add: le_div_iff)
  moreover have "key_bucket cfg key < (int i + 1) * per" if "Suc i < length (push_sks q)"
  proof -
    have "key_bucket cfg key div per < int i + 1" using that by (auto simp: i_def min_def split: if_splits)
    then show ?thesis using g(2) le_div_iff [of per "int i + 1" "key_bucket cfg key"] by linarith
  qed
  moreover have "i < length (push_sks q)" 
  proof -
    have "i \<le> length (push_sks q) - 1" by (simp add: i_def)
    moreover have "0 < length (push_sks q)" using assms(3) by simp
    ultimately show ?thesis by linarith
  qed
  ultimately show ?thesis using g assms(3)
    by (intro exI [of _ i]) (simp add: pmq_SendMsg_def per_def [symmetric] Let_def)
qed

definition sample_cfg :: proxy_cfg where
  "sample_cfg = \<lparr>pull_addr = ''tcp://*:9001'', push_addrs = [''tcp://a:1'', ''tcp://b:1''], bucket_num = 2048\<rparr>"

definition sample_pmq :: pmq where
  "sample_pmq = \<lparr>pm_context = True, pm_pull = Some 0, push_sks = [1, 2], pm_fresh = 3, pm_closed = [], pm_inbox = [], pm_sent = []\<rparr>"

theorem proxy_routes_by_share_witness:
  "\<exists>i < (2 :: nat). int i * 1024 \<le> key_bucket sample_cfg ''rank'' \<and> (i = 0 \<longrightarrow> key_bucket sample_cfg ''rank'' < 1024)
    \<and> pmq_SendMsg \<lparr>zmq_bind = \<lambda>_. 0, zmq_connect = \<lambda>_. 0, zmq_send = \<lambda>_ m. int (length m)\<rparr> sample_cfg ''rank'' ''x'' sample_pmq
      = Some (1, sample_pmq\<lparr>pm_sent := [(Suc i, ''x'')]\<rparr>)"
proof -
  let ?z = "\<lparr>zmq_bind = \<lambda>_. 0, zmq_connect = \<lambda>_. 0, zmq_send = \<lambda>_ m. int (length m)\<rparr>"
  have s: "bucket_num sample_cfg = 2048" "push_sks sample_pmq = [1, 2]" "pm_sent sample_pmq = []"
    by (simp_all add: sample_cfg_def sample_pmq_def)
  have "0 < bucket_num sample_cfg" "bucket_num sample_cfg < 2 ^ 31" "push_sks sample_pmq \<noteq> []"
    "int (length (push_sks sample_pmq)) \<le> bucket_num sample_cfg" by (simp_all add: s)
  then obtain i where i: "i < 2" "int i * 1024 \<le> key_bucket sample_cfg ''rank''"
      "Suc i < 2 \<Longrightarrow> key_bucket sample_cfg ''rank'' < (int i + 1) * 1024"
      "pmq_SendMsg ?z sample_cfg ''rank'' ''x'' sample_pmq = Some (1, sample_pmq\<lparr>pm_sent := [([1, 2] ! i, ''x'')]\<rparr>)"
    using proxy_routes_by_share [of sample_cfg sample_pmq "''rank''" ?z "''x''"]
    by (simp add: s Let_def) (metis One_nat_def numeral_2_eq_2)
  then have "[1, 2] ! i = Suc i" by (cases i) auto
  with i show ?thesis by (intro exI [of _ i]) auto
qed

end
