(* ===== verification/ReqFactor.thy ===== *)
theory ReqFactor
  imports Messages "HOL-Library.Monad_Syntax"
begin

text \<open>
  The request factory of the proxy, \<open>bis/src/proxy/req_factor.h\<close> and \<open>req_factor.cpp\<close>: which
  message class a command has, and the key it asks for. The generated parsers are the
  argument \<open>rc\<close>: for a message class and the received bytes the message, and its key.
\<close>

datatype msg_class =
    MsgGetScoreBatchReq
  | MsgSetBatchReq
  | MsgTopQueryReq
  | MsgRangeQueryReq
  | MsgRangeByScoreQueryReq
  | MsgRankBatchQueryReq

record 'm req_codec =
  rc_parse :: "msg_class \<Rightarrow> string \<Rightarrow> 'm option"
  rc_key_id :: "'m \<Rightarrow> string"
  rc_trans :: "string \<Rightarrow> trans_app option"
  rc_ser_trans :: "trans_app \<Rightarrow> string"

definition rf_Parse :: "'m req_codec \<Rightarrow> msg_class \<Rightarrow> string \<Rightarrow> 'm option" where
  "rf_Parse rc k str = rc_parse rc k str"

text \<open>\<open>Create\<close> does not know the rank query.\<close>

definition rf_Create :: "'m req_codec \<Rightarrow> string \<Rightarrow> int \<Rightarrow> (msg_class \<times> 'm) option" where
  "rf_Create rc str cmd =
     (if cmd = MSG_GET_SCORE_BATCH_REQ then do { m \<leftarrow> rf_Parse rc MsgGetScoreBatchReq str; Some (MsgGetScoreBatchReq, m) }
      else if cmd = MSG_SET_BATCH_REQ then do { m \<leftarrow> rf_Parse rc MsgSetBatchReq str; Some (MsgSetBatchReq, m) }
      else if cmd = MSG_TOP_QUERY_REQ then do { m \<leftarrow> rf_Parse rc MsgTopQueryReq str; Some (MsgTopQueryReq, m) }
      else if cmd = MSG_RANGE_QUERY_REQ then do { m \<leftarrow> rf_Parse rc MsgRangeQueryReq str; Some (MsgRangeQueryReq, m) }
      else if cmd = MSG_RANGEBYSCORE_QUERY_REQ then do {
        m \<leftarrow> rf_Parse rc MsgRangeByScoreQueryReq str; Some (MsgRangeByScoreQueryReq, m) }
      else None)"

definition rf_key :: "'m req_codec \<Rightarrow> msg_class \<Rightarrow> string \<Rightarrow> string" where
  "rf_key rc k str = (case rf_Parse rc k str of None \<Rightarrow> '''' | Some m \<Rightarrow> rc_key_id rc m)"

definition rf_GetKeyId :: "'m req_codec \<Rightarrow> string \<Rightarrow> int \<Rightarrow> string" where
  "rf_GetKeyId rc str cmd =
     (if cmd = MSG_GET_SCORE_BATCH_REQ then rf_key rc MsgGetScoreBatchReq str
      else if cmd = MSG_SET_BATCH_REQ then rf_key rc MsgSetBatchReq str
      else if cmd = MSG_TOP_QUERY_REQ then rf_key rc MsgTopQueryReq str
      else if cmd = MSG_RANGE_QUERY_REQ then rf_key rc MsgRangeQueryReq str
      else if cmd = MSG_RANGEBYSCORE_QUERY_REQ then rf_key rc MsgRangeByScoreQueryReq str
      else if cmd = MSG_RANK_BATCH_QUERY_REQ then rf_key rc MsgRankBatchQueryReq str
      else '''')"

end
