(* ===== verification/ProxyTask.thy ===== *)
theory ProxyTask
  imports Cmd ProxyMq ReqFactor
begin

text \<open>
  A client connection of the proxy, \<open>bis/src/proxy/task.h\<close> and \<open>task.cpp\<close>, with the epoll
  wrapper of \<open>cepoll.h\<close> and \<open>cepoll.cpp\<close>. The kernel's side of a connection is a record: the
  bytes that wait to be received and what \<open>recv\<close> answers behind them, the bytes taken from
  \<open>writev\<close> and what it answers next. How many of the waiting bytes a \<open>recv\<close> hands out is the
  environment's choice \<open>e_grant\<close>. Logging is left out.
\<close>

section \<open>The kernel\<close>

datatype rx_end = RxAgain | RxClosed | RxFailed
datatype wr_ans = WrSome nat | WrAgain | WrFailed

record conn =
  c_rx :: "byte list"
  c_end :: rx_end
  c_tx :: "byte list"
  c_wr :: "wr_ans list"
  c_open :: bool

datatype ep_event = EPOLLIN | EPOLLOUT | EPOLLERR | EPOLLHUP | EPOLLRDHUP | EPOLLET

datatype ep_call = EpAdd int "32 word" "ep_event set" | EpDel int | EpMod int "32 word" "ep_event set"

record net =
  n_mem :: mem
  n_conn :: "int \<Rightarrow> conn"
  n_epoll :: "ep_call list"
  n_mq :: pmq

text \<open>\<open>e_junk\<close> is what the uninitialised field \<open>ev.events\<close> of the epoll wrapper holds.\<close>

record 'm penv =
  e_grant :: "nat \<Rightarrow> nat"
  e_now :: "32 word"
  e_junk :: "ep_event set"
  e_cfg :: proxy_cfg
  e_zmq :: zmq
  e_rc :: "'m req_codec"

definition ep_Add :: "'m penv \<Rightarrow> int \<Rightarrow> 32 word \<Rightarrow> ep_event set \<Rightarrow> net \<Rightarrow> net" where
  "ep_Add e fd data evs n = n\<lparr>n_epoll := n_epoll n @ [EpAdd fd data (e_junk e \<union> evs \<union> {EPOLLET, EPOLLRDHUP})]\<rparr>"

definition ep_Del :: "int \<Rightarrow> net \<Rightarrow> net" where
  "ep_Del fd n = n\<lparr>n_epoll := n_epoll n @ [EpDel fd]\<rparr>"

definition ep_Mod :: "'m penv \<Rightarrow> int \<Rightarrow> 32 word \<Rightarrow> ep_event set \<Rightarrow> net \<Rightarrow> net" where
  "ep_Mod e fd data evs n = n\<lparr>n_epoll := n_epoll n @ [EpMod fd data (e_junk e \<union> evs \<union> {EPOLLET})]\<rparr>"

text \<open>A descriptor that is not open is not used: \<open>None\<close>.\<close>

definition sock_close :: "int \<Rightarrow> net \<Rightarrow> net option" where
  "sock_close fd n =
     (if c_open (n_conn n fd) then Some (n\<lparr>n_conn := (n_conn n)(fd := (n_conn n fd)\<lparr>c_open := False\<rparr>)\<rparr>) else None)"

datatype recv_ans = RGot "byte list" | RClosed | RAgain | RFail

definition sock_recv :: "'m penv \<Rightarrow> int \<Rightarrow> nat \<Rightarrow> net \<Rightarrow> (recv_ans \<times> net) option" where
  "sock_recv e fd len n =
     (let c = n_conn n fd in
      if \<not> c_open c then None
      else if c_rx c \<noteq> [] then
        let k = min len (max 1 (e_grant e (length (c_rx c))))
        in Some (RGot (take k (c_rx c)), n\<lparr>n_conn := (n_conn n)(fd := c\<lparr>c_rx := drop k (c_rx c)\<rparr>)\<rparr>)
      else Some (case c_end c of RxAgain \<Rightarrow> RAgain | RxClosed \<Rightarrow> RClosed | RxFailed \<Rightarrow> RFail, n))"

definition sock_writev :: "int \<Rightarrow> byte list \<Rightarrow> net \<Rightarrow> (wr_ans \<times> net) option" where
  "sock_writev fd data n =
     (let c = n_conn n fd in
      if \<not> c_open c then None
      else case c_wr c of
          [] \<Rightarrow> Some (WrAgain, n)
        | WrSome k # as \<Rightarrow>
            let k = min k (length data)
            in Some (WrSome k, n\<lparr>n_conn := (n_conn n)(fd := c\<lparr>c_tx := c_tx c @ take k data, c_wr := as\<rparr>)\<rparr>)
        | a # as \<Rightarrow> Some (a, n\<lparr>n_conn := (n_conn n)(fd := c\<lparr>c_wr := as\<rparr>)\<rparr>))"

section \<open>State\<close>

record task =
  t_pos :: "32 word"
  t_sock :: int
  t_ip :: string
  t_active :: "32 word"
  t_recv :: recvbuf
  t_queue :: "bufseq list"
  t_cmd :: cmd

abbreviation (input) BUFFER_SEQUCNE_COUNT :: nat where "BUFFER_SEQUCNE_COUNT \<equiv> 3"

definition task_new :: "32 word \<Rightarrow> int \<Rightarrow> string \<Rightarrow> mem \<Rightarrow> task \<times> mem" where
  "task_new pos sock ip m =
     (let (r, m) = rcv_sized (unat MAX_CMD_LEN) m; (c, m) = cmd_new m
      in (\<lparr>t_pos = pos, t_sock = sock, t_ip = ip, t_active = 0, t_recv = r, t_queue = [], t_cmd = c\<rparr>, m))"

definition task_IsTerminate :: "task \<Rightarrow> bool" where
  "task_IsTerminate t \<longleftrightarrow> t_sock t \<le> 0"

definition task_Terminate :: "task \<Rightarrow> net \<Rightarrow> (task \<times> net) option" where
  "task_Terminate t n =
     (if task_IsTerminate t then Some (t, n)
      else do { n \<leftarrow> sock_close (t_sock t) (ep_Del (t_sock t) n); Some (t\<lparr>t_sock := -1\<rparr>, n) })"

definition task_set_last_act_time :: "32 word \<Rightarrow> task \<Rightarrow> task" where
  "task_set_last_act_time now t = t\<lparr>t_active := now\<rparr>"

text \<open>The destructor, with those of the members.\<close>

fun bs_destroys :: "bufseq list \<Rightarrow> mem \<Rightarrow> mem option" where
  "bs_destroys [] m = Some m"
| "bs_destroys (b # bs) m = do { m \<leftarrow> bs_destroy b m; bs_destroys bs m }"

definition task_destroy :: "task \<Rightarrow> net \<Rightarrow> net option" where
  "task_destroy t n = do {
     n \<leftarrow> (if \<not> task_IsTerminate t then sock_close (t_sock t) n else Some n);
     m \<leftarrow> mem_delete (Some (strAppData (t_cmd t))) (n_mem n);
     m \<leftarrow> bs_destroys (t_queue t) m;
     m \<leftarrow> rcv_destroy (t_recv t) m;
     Some (n\<lparr>n_mem := m\<rparr>)
   }"

section \<open>Receiving\<close>

partial_function (option) task_recv_loop :: "'m penv \<Rightarrow> task \<Rightarrow> net \<Rightarrow> (task \<times> net) option" where
  "task_recv_loop e t n =
     (if rcv_Remain (t_recv t) > 0 then do {
        (r, n) \<leftarrow> sock_recv e (t_sock t) (rcv_Remain (t_recv t)) n;
        (case r of
           RGot ds \<Rightarrow> do {
             m \<leftarrow> mem_write (rcv_base (t_recv t)) (rcv_nptr (t_recv t)) ds (n_mem n);
             let (_, buf) = rcv_Advance (length ds) (t_recv t);
             task_recv_loop e (t\<lparr>t_recv := buf\<rparr>) (n\<lparr>n_mem := m\<rparr>)
           }
         | RFail \<Rightarrow> task_Terminate t n
         | RAgain \<Rightarrow> Some (t, n)
         | RClosed \<Rightarrow> task_Terminate t n)
      } else Some (t, n))"

declare task_recv_loop.simps [code]

definition task_Recv :: "'m penv \<Rightarrow> task \<Rightarrow> net \<Rightarrow> (task \<times> net) option" where
  "task_Recv e t n = (if task_IsTerminate t then Some (t, n) else task_recv_loop e t n)"

text \<open>Forwarding a request; what \<open>SendMsg\<close> answers is not looked at.\<close>

definition task_DoCmd :: "'m penv \<Rightarrow> task \<Rightarrow> net \<Rightarrow> net option" where
  "task_DoCmd e t n = do {
     ds \<leftarrow> cmd_get_app_data (t_cmd t) (n_mem n);
     let cmd = uint (cmd_get_cmd_id (t_cmd t));
     let key = rf_GetKeyId (e_rc e) (bytes_str ds) cmd;
     if key = '''' then Some n
     else do {
       let transApp = \<lparr>cmd_id = cmd, client_pos = sint (t_pos t), src = pull_addr (e_cfg e), app_data = bytes_str ds\<rparr>;
       (_, q) \<leftarrow> pmq_SendMsg (e_zmq e) (e_cfg e) key (rc_ser_trans (e_rc e) transApp) (n_mq n);
       Some (n\<lparr>n_mq := q\<rparr>)
     }
   }"

partial_function (option) task_HandleCmdMsg :: "'m penv \<Rightarrow> task \<Rightarrow> net \<Rightarrow> (task \<times> net) option" where
  "task_HandleCmdMsg e t n =
     (if rcv_UsedSize (t_recv t) > 0 then do {
        (c, m) \<leftarrow> cmd_Clear (t_cmd t) (n_mem n);
        buf \<leftarrow> rcv_Str (t_recv t) m;
        (rv, c, m) \<leftarrow> cmd_Parse buf c m;
        let t = t\<lparr>t_cmd := c\<rparr>;
        let n = n\<lparr>n_mem := m\<rparr>;
        if rv < 0 then task_Terminate t n
        else if rv = 0 then Some (t, n)
        else do {
          n \<leftarrow> task_DoCmd e t n;
          (_, r, m) \<leftarrow> rcv_MemMoveLeft (nat rv) (t_recv t) (n_mem n);
          task_HandleCmdMsg e (t\<lparr>t_recv := r\<rparr>) (n\<lparr>n_mem := m\<rparr>)
        }
      } else Some (t, n))"

declare task_HandleCmdMsg.simps [code]

definition task_OnSockRecv :: "'m penv \<Rightarrow> task \<Rightarrow> net \<Rightarrow> (task \<times> net) option" where
  "task_OnSockRecv e t n = do {
     (t, n) \<leftarrow> task_Recv e t n;
     Some (task_set_last_act_time (e_now e) t, n)
   }"

definition task_OnSockReadHdl :: "'m penv \<Rightarrow> task \<Rightarrow> net \<Rightarrow> (task \<times> net) option" where
  "task_OnSockReadHdl e t n = do {
     (t, n) \<leftarrow> task_OnSockRecv e t n;
     task_HandleCmdMsg e t n
   }"

section \<open>Sending\<close>

partial_function (option) task_flush_loop :: "task \<Rightarrow> net \<Rightarrow> (int \<times> task \<times> net) option" where
  "task_flush_loop t n =
     (case t_queue t of
        [] \<Rightarrow> Some (0, t, n)
      | bs # rest \<Rightarrow>
          if bs_Empty bs then do {
            m \<leftarrow> bs_destroy bs (n_mem n);
            task_flush_loop (t\<lparr>t_queue := rest\<rparr>) (n\<lparr>n_mem := m\<rparr>)
          } else do {
            data \<leftarrow> sb_bytes (bs_InitIoVec BUFFER_SEQUCNE_COUNT bs) (n_mem n);
            (a, n) \<leftarrow> sock_writev (t_sock t) data n;
            (case a of
               WrFailed \<Rightarrow> do { (t, n) \<leftarrow> task_Terminate t n; Some (-1, t, n) }
             | WrAgain \<Rightarrow> Some (0, t, n)
             | WrSome k \<Rightarrow>
                 if k = 0 then Some (-2, t, n)
                 else do {
                   let bs = bs_Advance k bs;
                   if bs_Empty bs then do {
                     m \<leftarrow> bs_destroy bs (n_mem n);
                     task_flush_loop (t\<lparr>t_queue := rest\<rparr>) (n\<lparr>n_mem := m\<rparr>)
                   } else task_flush_loop (t\<lparr>t_queue := bs # rest\<rparr>) n
                 })
          })"

declare task_flush_loop.simps [code]

definition task_FlushSendQueue :: "task \<Rightarrow> net \<Rightarrow> (int \<times> task \<times> net) option" where
  "task_FlushSendQueue t n = (if task_IsTerminate t then Some (-1, t, n) else task_flush_loop t n)"

definition task_WriteRemain :: "'m penv \<Rightarrow> task \<Rightarrow> net \<Rightarrow> (task \<times> net) option" where
  "task_WriteRemain e t n = do {
     (iErr, t, n) \<leftarrow> task_FlushSendQueue t n;
     if iErr < 0 then task_Terminate t n
     else if t_queue t = [] then Some (t, ep_Mod e (t_sock t) (t_pos t) {EPOLLIN} n)
     else Some (t, n)
   }"

definition task_OnSockWriteHdl :: "'m penv \<Rightarrow> task \<Rightarrow> net \<Rightarrow> (task \<times> net) option" where
  "task_OnSockWriteHdl e t n = task_WriteRemain e t n"

text \<open>The caller's sequence, emptied by the copy, comes back to be destroyed.\<close>

definition task_Response :: "'m penv \<Rightarrow> bufseq \<Rightarrow> task \<Rightarrow> net \<Rightarrow> (bufseq \<times> task \<times> net) option" where
  "task_Response e bs t n = do {
     (b, bs, m) \<leftarrow> bs_copy BUFFER_SEQUCNE_COUNT bs (n_mem n);
     (iErr, t, n) \<leftarrow> task_FlushSendQueue (t\<lparr>t_queue := t_queue t @ [b]\<rparr>) (n\<lparr>n_mem := m\<rparr>);
     if iErr < 0 then do { (t, n) \<leftarrow> task_Terminate t n; Some (bs, t, n) }
     else do {
       let t = task_set_last_act_time (e_now e) t;
       if t_queue t \<noteq> [] then do {
         let n = ep_Mod e (t_sock t) (t_pos t) {EPOLLIN, EPOLLOUT} n;
         (b, m) \<leftarrow> bs_Solidify (last (t_queue t)) (n_mem n);
         Some (bs, t\<lparr>t_queue := butlast (t_queue t) @ [b]\<rparr>, n\<lparr>n_mem := m\<rparr>)
       } else Some (bs, t, n)
     }
   }"

text \<open>A reply of the server. An exception of the buffers is not caught: \<open>None\<close>.\<close>

definition task_OnMQRecv :: "'m penv \<Rightarrow> trans_app \<Rightarrow> task \<Rightarrow> net \<Rightarrow> (task \<times> net) option" where
  "task_OnMQRecv e msg t n = do {
     (c, m) \<leftarrow> cmd_Clear (t_cmd t) (n_mem n);
     let c = cmd_set_cmd_id (of_int (cmd_id msg)) c;
     (c, m) \<leftarrow> cmd_set_app_data (str_bytes (app_data msg)) c m;
     r \<leftarrow> cmd_Serialize_bs c (bs_new BUFFER_SEQUCNE_COUNT) m;
     (case r of
        Inl _ \<Rightarrow> None
      | Inr (_, bs, m) \<Rightarrow> do {
          (bs, t, n) \<leftarrow> task_Response e bs (t\<lparr>t_cmd := c\<rparr>) (n\<lparr>n_mem := m\<rparr>);
          m \<leftarrow> bs_destroy bs (n_mem n);
          Some (t, n\<lparr>n_mem := m\<rparr>)
        })
   }"

end
