(* ===== verification/ProxyTaskMem.thy ===== *)
theory ProxyTaskMem
  imports ProxyTask "HOL-Library.Multiset"
begin

text \<open>
  The memory of a connection of the proxy: which blocks it owns, what its receive buffer holds
  and what its send queue still has to send, with the lemmas that the steps of \<open>ProxyTask\<close>
  keep this and touch no other block.
\<close>

section \<open>Ownership and contents\<close>

definition q_blocks :: "bufseq list \<Rightarrow> nat list" where
  "q_blocks q = sb_blocks (concat (map m_buffers q))"

definition r_blocks :: "recvbuf \<Rightarrow> nat list" where
  "r_blocks r = (case rcv_base r of None \<Rightarrow> [] | Some b \<Rightarrow> [b])"

definition t_blocks :: "task \<Rightarrow> nat list" where
  "t_blocks t = strAppData (t_cmd t) # r_blocks (t_recv t) @ q_blocks (t_queue t)"

definition owns :: "nat set \<Rightarrow> nat list \<Rightarrow> mem \<Rightarrow> bool" where
  "owns X bs m \<longleftrightarrow> mem_ok m \<and> distinct bs \<and> X \<inter> set bs = {} \<and> dom (m_blocks m) = X \<union> set bs"

definition recv_holds :: "recvbuf \<Rightarrow> mem \<Rightarrow> byte list \<Rightarrow> bool" where
  "recv_holds r m buf \<longleftrightarrow> (\<exists>b blk. rcv_base r = Some b \<and> rcv_own r \<and> m_blocks m b = Some blk
     \<and> length blk = unat MAX_CMD_LEN \<and> rcv_size r = unat MAX_CMD_LEN \<and> rcv_nptr r = length buf
     \<and> length buf \<le> unat MAX_CMD_LEN \<and> take (length buf) blk = buf)"

definition queue_ok :: "bufseq list \<Rightarrow> bool" where
  "queue_ok q \<longleftrightarrow> (\<forall>s \<in> set q. bs_ok s \<and> length (m_buffers s) = 3 \<and> (\<forall>x \<in> set (m_buffers s). sb_fine x))"

definition queue_settled :: "bufseq list \<Rightarrow> bool" where
  "queue_settled q \<longleftrightarrow> (\<forall>s \<in> set q. \<forall>x \<in> set (m_buffers s). settled x)"

fun queue_bytes :: "bufseq list \<Rightarrow> mem \<Rightarrow> byte list option" where
  "queue_bytes [] m = Some []"
| "queue_bytes (s # q) m = do { bs \<leftarrow> bs_bytes s m; cs \<leftarrow> queue_bytes q m; Some (bs @ cs) }"

text \<open>Blocks of others keep their content.\<close>

definition same_on :: "nat set \<Rightarrow> mem \<Rightarrow> mem \<Rightarrow> bool" where
  "same_on X m m' \<longleftrightarrow> (\<forall>b \<in> X. m_blocks m' b = m_blocks m b)"

lemma same_on_refl [simp]: "same_on X m m" by (simp add: same_on_def)
lemma same_on_trans: "same_on X m1 m2 \<Longrightarrow> same_on X m2 m3 \<Longrightarrow> same_on X m1 m3" by (simp add: same_on_def)
lemma same_on_mono: "same_on X m m' \<Longrightarrow> Y \<subseteq> X \<Longrightarrow> same_on Y m m'" by (auto simp: same_on_def)

lemma q_blocks_simps [simp]:
  "q_blocks [] = []" "q_blocks (s # q) = sb_blocks (m_buffers s) @ q_blocks q"
  "q_blocks (q @ q') = q_blocks q @ q_blocks q'"
  by (simp_all add: q_blocks_def)

lemma queue_simps [simp]:
  "queue_ok []" "queue_ok (s # q) \<longleftrightarrow> bs_ok s \<and> length (m_buffers s) = 3 \<and> (\<forall>x \<in> set (m_buffers s). sb_fine x) \<and> queue_ok q"
  "queue_ok (q @ q') \<longleftrightarrow> queue_ok q \<and> queue_ok q'"
  "queue_settled []" "queue_settled (s # q) \<longleftrightarrow> (\<forall>x \<in> set (m_buffers s). settled x) \<and> queue_settled q"
  "queue_settled (q @ q') \<longleftrightarrow> queue_settled q \<and> queue_settled q'"
  by (auto simp: queue_ok_def queue_settled_def)

lemma queue_bytes_append:
  "queue_bytes (q @ q') m = do { bs \<leftarrow> queue_bytes q m; cs \<leftarrow> queue_bytes q' m; Some (bs @ cs) }"
  by (induction q) (auto split: Option.bind_splits)

lemma bs_bytes_frame:
  assumes "bs_bytes s m = Some bs" "\<forall>x \<in> set (m_buffers s). sb_fine x \<and> settled x"
    "same_on (set (sb_blocks (m_buffers s))) m m'"
  shows "bs_bytes s m' = Some bs"
  unfolding bs_bytes_def
proof (rule sb_bytes_frame [OF assms(1) [unfolded bs_bytes_def]])
  have sub: "set (take (m_count s) (m_buffers s)) \<subseteq> set (m_buffers s)" by (rule set_take_subset)
  show "\<forall>x \<in> set (take (m_count s) (m_buffers s)). sb_ptr x \<le> sb_size x"
    using assms(2) sub by (auto simp: sb_fine_def)
  show "\<forall>x \<in> set (take (m_count s) (m_buffers s)). \<not> sb_Empty x \<longrightarrow> (\<forall>b. sb_base x = Some b \<longrightarrow> m_blocks m' b = m_blocks m b)"
  proof (intro ballI impI allI)
    fix x b assume x: "x \<in> set (take (m_count s) (m_buffers s))" "\<not> sb_Empty x" "sb_base x = Some b"
    then have "sb_own x" "x \<in> set (m_buffers s)" using assms(2) sub by (auto simp: settled_def)
    then have "b \<in> set (sb_blocks (m_buffers s))" using x(3) by (auto simp: in_sb_blocks)
    with assms(3) show "m_blocks m' b = m_blocks m b" by (simp add: same_on_def)
  qed
qed

lemma queue_bytes_frame:
  assumes "queue_bytes q m = Some bs" "queue_ok q" "queue_settled q" "same_on (set (q_blocks q)) m m'"
  shows "queue_bytes q m' = Some bs"
  using assms
proof (induction q arbitrary: bs)
  case (Cons s q)
  then obtain cs ds where "bs_bytes s m = Some cs" "queue_bytes q m = Some ds" "bs = cs @ ds"
    by (auto split: Option.bind_splits)
  moreover have "same_on (set (sb_blocks (m_buffers s))) m m'" "same_on (set (q_blocks q)) m m'"
    using Cons.prems(4) by (auto simp: same_on_def)
  ultimately show ?case using Cons bs_bytes_frame [of s m cs m'] by simp
qed simp

lemma recv_frame: "recv_holds r m buf \<Longrightarrow> same_on (set (r_blocks r)) m m' \<Longrightarrow> recv_holds r m' buf"
  by (auto simp: recv_holds_def same_on_def r_blocks_def)

section \<open>Memory steps\<close>

text \<open>Assigning to a string replaces its block.\<close>

lemma str_assign_owns:
  assumes "owns X (b # bs) m"
  shows "\<exists>b' m'. str_assign b ds m = Some (b', m') \<and> owns X (b' # bs) m' \<and> m_blocks m' b' = Some ds
    \<and> same_on (X \<union> set bs) m m'"
proof -
  define m1 where "m1 = m\<lparr>m_blocks := (m_blocks m)(b := None)\<rparr>"
  define m2 where "m2 = m1\<lparr>m_blocks := (m_blocks m1)(m_next m \<mapsto> ds), m_next := Suc (m_next m)\<rparr>"
  have ok: "mem_ok m" "m_blocks m b \<noteq> None" and d: "b \<notin> set bs" "distinct bs" "b \<notin> X" "X \<inter> set bs = {}"
    and dom: "dom (m_blocks m) = insert b (X \<union> set bs)"
    using assms by (auto simp: owns_def)
  have fresh: "m_next m \<notin> dom (m_blocks m)" using ok(1) by (simp add: domIff)
  have "str_assign b ds m = Some (m_next m, m2)"
    using ok(2) by (simp add: str_assign_def mem_alloc_def m1_def m2_def)
  moreover have "mem_ok m2" using ok(1) by (auto simp: mem_ok_def m1_def m2_def less_Suc_eq)
  moreover have "dom (m_blocks m2) = X \<union> set (m_next m # bs)" using dom d fresh by (auto simp: m1_def m2_def)
  moreover have "same_on (X \<union> set bs) m m2" using dom d fresh by (auto simp: same_on_def m1_def m2_def)
  moreover have "m_blocks m2 (m_next m) = Some ds" by (simp add: m2_def)
  ultimately show ?thesis using d dom fresh by (auto simp: owns_def)
qed

text \<open>Writing into an owned block changes nothing else.\<close>

lemma owns_write:
  assumes "owns X bs m" "b \<in> set bs"
  shows "owns X bs (m\<lparr>m_blocks := (m_blocks m)(b \<mapsto> blk)\<rparr>)"
    "same_on (X \<union> (set bs - {b})) m (m\<lparr>m_blocks := (m_blocks m)(b \<mapsto> blk)\<rparr>)"
  using assms by (auto simp: owns_def same_on_def mem_ok_def)

lemma owns_perm: "owns X bs m \<Longrightarrow> mset bs = mset cs \<Longrightarrow> owns X cs m"
  by (metis mset_eq_imp_distinct_iff mset_eq_setD owns_def)

text \<open>Deleting some of the owned blocks.\<close>

lemma owns_delete:
  assumes "owns X (gone @ bs) m"
  shows "owns X bs (m\<lparr>m_blocks := m_blocks m |` (- set gone)\<rparr>)"
    "same_on (X \<union> set bs) m (m\<lparr>m_blocks := m_blocks m |` (- set gone)\<rparr>)"
proof -
  have "dom (m_blocks m |` (- set gone)) = X \<union> set bs"
    using assms by (auto simp: owns_def)
  moreover have "mem_ok (m\<lparr>m_blocks := m_blocks m |` (- set gone)\<rparr>)"
    using assms by (auto simp: owns_def mem_ok_def restrict_map_def)
  ultimately show "owns X bs (m\<lparr>m_blocks := m_blocks m |` (- set gone)\<rparr>)"
    using assms by (auto simp: owns_def)
  show "same_on (X \<union> set bs) m (m\<lparr>m_blocks := m_blocks m |` (- set gone)\<rparr>)"
    using assms by (auto simp: owns_def same_on_def restrict_map_def)
qed

lemma bs_destroy_owns:
  assumes "owns X (sb_blocks (m_buffers s) @ bs) m"
  shows "\<exists>m'. bs_destroy s m = Some m' \<and> owns X bs m' \<and> same_on (X \<union> set bs) m m'"
proof -
  have "bs_destroy s m = Some (m\<lparr>m_blocks := m_blocks m |` (- set (sb_blocks (m_buffers s)))\<rparr>)"
    unfolding bs_destroy_def using assms by (intro destroys_spec) (auto simp: owns_def)
  with owns_delete [OF assms] show ?thesis by blast
qed

end
