(* ===== verification/ProxyTaskRecv.thy ===== *)
theory ProxyTaskRecv
  imports ProxyTaskMem
begin

text \<open>
  Receiving on a connection of the proxy: however the kernel cuts the byte stream into pieces,
  the loop of \<open>Recv\<close> takes as many of the waiting bytes as the buffer has room for, and
  \<open>HandleCmdMsg\<close> forwards exactly the complete packages of the stream.
\<close>

section \<open>The receive loop\<close>

lemma Terminate_live:
  assumes "t_sock t = fd" "0 < fd" "c_open (n_conn n fd)"
  shows "\<exists>n'. task_Terminate t n = Some (t\<lparr>t_sock := -1\<rparr>, n') \<and> n_mem n' = n_mem n \<and> n_mq n' = n_mq n
    \<and> n_conn n' = (n_conn n)(fd := (n_conn n fd)\<lparr>c_open := False\<rparr>)"
  using assms by (simp add: task_Terminate_def task_IsTerminate_def sock_close_def ep_Del_def)

lemma Terminate_dead: "task_IsTerminate t \<Longrightarrow> task_Terminate t n = Some (t, n)"
  by (simp add: task_Terminate_def)

abbreviation room :: "byte list \<Rightarrow> nat" where
  "room buf \<equiv> unat MAX_CMD_LEN - length buf"

lemma recv_holds_extend:
  assumes holds: "recv_holds r m buf" and len: "length ds \<le> room buf" and ds: "ds \<noteq> []"
  obtains b blk where "rcv_base r = Some b"
    "mem_write (rcv_base r) (rcv_nptr r) ds m = Some (m\<lparr>m_blocks := (m_blocks m)(b \<mapsto> blk)\<rparr>)"
    "rcv_Advance (length ds) r = (True, r\<lparr>rcv_nptr := length (buf @ ds)\<rparr>)"
    "recv_holds (r\<lparr>rcv_nptr := length (buf @ ds)\<rparr>) (m\<lparr>m_blocks := (m_blocks m)(b \<mapsto> blk)\<rparr>) (buf @ ds)"
proof -
  obtain b old where b: "rcv_base r = Some b" "rcv_own r" "m_blocks m b = Some old" "length old = unat MAX_CMD_LEN"
      "rcv_size r = unat MAX_CMD_LEN" "rcv_nptr r = length buf" "length buf \<le> unat MAX_CMD_LEN" "take (length buf) old = buf"
    using holds by (auto simp: recv_holds_def)
  define blk where "blk = take (length buf) old @ ds @ drop (length buf + length ds) old"
  have w: "mem_write (rcv_base r) (rcv_nptr r) ds m = Some (m\<lparr>m_blocks := (m_blocks m)(b \<mapsto> blk)\<rparr>)"
    using b len ds by (simp add: mem_write_def blk_def)
  have "length blk = unat MAX_CMD_LEN" using b len by (simp add: blk_def)
  moreover have "take (length (buf @ ds)) blk = buf @ ds" using b(8) by (simp add: blk_def)
  ultimately have "recv_holds (r\<lparr>rcv_nptr := length (buf @ ds)\<rparr>) (m\<lparr>m_blocks := (m_blocks m)(b \<mapsto> blk)\<rparr>) (buf @ ds)"
    using b len by (auto simp: recv_holds_def)
  moreover have "rcv_Advance (length ds) r = (True, r\<lparr>rcv_nptr := length (buf @ ds)\<rparr>)"
    using b len by (simp add: rcv_Advance_def rcv_Remain_def rcv_UsedSize_def)
  ultimately show ?thesis using that b(1) w by blast
qed

text \<open>What a round of receiving does: the buffer takes what it has room for; the connection ends
  when the kernel has nothing more and says so.\<close>

definition recv_round :: "nat set \<Rightarrow> int \<Rightarrow> task \<Rightarrow> net \<Rightarrow> byte list \<Rightarrow> task \<Rightarrow> net \<Rightarrow> bool" where
  "recv_round X fd t n buf t' n' \<longleftrightarrow>
     (let c = n_conn n fd; gone = (length (c_rx c) < room buf \<and> c_end c \<noteq> RxAgain) in
      n_conn n' = (n_conn n)(fd := c\<lparr>c_rx := drop (room buf) (c_rx c), c_open := \<not> gone\<rparr>)
      \<and> t' = t\<lparr>t_recv := t_recv t', t_sock := (if gone then -1 else fd)\<rparr>
      \<and> r_blocks (t_recv t') = r_blocks (t_recv t)
      \<and> recv_holds (t_recv t') (n_mem n') (buf @ take (room buf) (c_rx c))
      \<and> owns X (t_blocks t') (n_mem n') \<and> same_on (- set (r_blocks (t_recv t))) (n_mem n) (n_mem n')
      \<and> n_mq n' = n_mq n)"

lemma grant_split:
  assumes "a = length (take k xs) + r" "k \<le> a"
  shows "drop r (drop k xs) = drop a xs" "take k xs @ take r (drop k xs) = take a xs"
    "length (drop k xs) < r \<longleftrightarrow> length xs < a"
proof -
  have "drop r (drop k xs) = drop a xs \<and> take k xs @ take r (drop k xs) = take a xs \<and> (length (drop k xs) < r \<longleftrightarrow> length xs < a)"
  proof (cases "k \<le> length xs")
    case True
    with assms have a: "a = k + r" by simp
    have "take k xs @ take r (drop k xs) = take a xs" unfolding a by (simp only: take_add)
    moreover have "drop r (drop k xs) = drop a xs" unfolding a by (simp add: add.commute)
    ultimately show ?thesis using True a by auto
  qed (use assms in auto)
  then show "drop r (drop k xs) = drop a xs" "take k xs @ take r (drop k xs) = take a xs"
    "length (drop k xs) < r \<longleftrightarrow> length xs < a" by blast+
qed

lemma conn_same: "c_open c \<Longrightarrow> c\<lparr>c_open := True\<rparr> = c" for c :: conn
  by (cases c) simp

lemma recv_loop_spec:
  assumes "owns X (t_blocks t) (n_mem n)" "recv_holds (t_recv t) (n_mem n) buf"
    "t_sock t = fd" "0 < fd" "c_open (n_conn n fd)"
  shows "\<exists>t' n'. task_recv_loop e t n = Some (t', n') \<and> recv_round X fd t n buf t' n'"
  using assms
proof (induction "length (c_rx (n_conn n fd))" arbitrary: t n buf rule: less_induct)
  case less
  let ?c = "n_conn n fd" and ?rx = "c_rx (n_conn n fd)"
  have size: "rcv_size (t_recv t) = unat MAX_CMD_LEN" "rcv_nptr (t_recv t) = length buf"
    using less.prems(2) by (auto simp: recv_holds_def)
  then have remain: "rcv_Remain (t_recv t) = room buf" by (simp add: rcv_Remain_def rcv_UsedSize_def)
  have same: "(n_conn n)(fd := ?c\<lparr>c_open := True\<rparr>) = n_conn n" "t\<lparr>t_sock := fd\<rparr> = t"
    using less.prems(3,5) by (auto simp: conn_same)
  have stay: "recv_round X fd t n buf t n" if "length ?rx < room buf \<longrightarrow> c_end ?c = RxAgain" "room buf = 0 \<or> ?rx = []"
    using that less.prems same by (auto simp: recv_round_def Let_def)
  show ?case
  proof (cases "room buf = 0")
    case True
    then have "task_recv_loop e t n = Some (t, n)" by (subst task_recv_loop.simps) (simp add: remain)
    with stay True show ?thesis by simp
  next
    case False
    show ?thesis
    proof (cases "?rx = []")
      case True
      show ?thesis
      proof (cases "c_end ?c = RxAgain")
        case again: True
        then have "task_recv_loop e t n = Some (t, n)" using False True less.prems(3,5)
          by (subst task_recv_loop.simps) (simp add: remain sock_recv_def)
        with stay True again show ?thesis by simp
      next
        case gone: False
        obtain n' where n': "task_Terminate t n = Some (t\<lparr>t_sock := -1\<rparr>, n')" "n_mem n' = n_mem n" "n_mq n' = n_mq n"
            "n_conn n' = (n_conn n)(fd := ?c\<lparr>c_open := False\<rparr>)"
          using Terminate_live [OF less.prems(3-5)] by blast
        then have "task_recv_loop e t n = Some (t\<lparr>t_sock := -1\<rparr>, n')" using False True gone less.prems(3,5)
          by (subst task_recv_loop.simps) (cases "c_end ?c"; simp add: remain sock_recv_def)
        moreover have "?c\<lparr>c_rx := [], c_open := False\<rparr> = ?c\<lparr>c_open := False\<rparr>" using True by (cases ?c) simp
        ultimately show ?thesis using True gone n' less.prems False
          by (auto simp: Let_def t_blocks_def recv_round_def)
      qed
    next
      case rx: False
      define k where "k = min (room buf) (max 1 (e_grant e (length ?rx)))"
      define ds where "ds = take k ?rx"
      define n1 where "n1 = n\<lparr>n_conn := (n_conn n)(fd := ?c\<lparr>c_rx := drop k ?rx\<rparr>)\<rparr>"
      have k: "0 < k" "k \<le> room buf" using False by (auto simp: k_def)
      have ds: "ds \<noteq> []" "length ds \<le> room buf" using k rx by (auto simp: ds_def)
      obtain b blk where b: "rcv_base (t_recv t) = Some b"
          "mem_write (rcv_base (t_recv t)) (rcv_nptr (t_recv t)) ds (n_mem n) = Some ((n_mem n)\<lparr>m_blocks := (m_blocks (n_mem n))(b \<mapsto> blk)\<rparr>)"
          "rcv_Advance (length ds) (t_recv t) = (True, (t_recv t)\<lparr>rcv_nptr := length (buf @ ds)\<rparr>)"
          "recv_holds ((t_recv t)\<lparr>rcv_nptr := length (buf @ ds)\<rparr>) ((n_mem n)\<lparr>m_blocks := (m_blocks (n_mem n))(b \<mapsto> blk)\<rparr>) (buf @ ds)"
        by (rule recv_holds_extend [OF less.prems(2) ds(2,1)]) (rule that)
      define m1 where "m1 = (n_mem n)\<lparr>m_blocks := (m_blocks (n_mem n))(b \<mapsto> blk)\<rparr>"
      define t1 where "t1 = t\<lparr>t_recv := (t_recv t)\<lparr>rcv_nptr := length (buf @ ds)\<rparr>\<rparr>"
      define n2 where "n2 = n1\<lparr>n_mem := m1\<rparr>"
      have rs: "sock_recv e fd (room buf) n = Some (RGot ds, n1)"
        using rx less.prems(5) by (simp add: sock_recv_def Let_def k_def ds_def n1_def)
      have "n_mem n1 = n_mem n" by (simp add: n1_def)
      then have loop: "task_recv_loop e t n = task_recv_loop e t1 n2"
        using False less.prems(3) b rs
        by (subst task_recv_loop.simps) (simp add: remain m1_def t1_def n2_def)
      have blocks: "t_blocks t1 = t_blocks t" "r_blocks (t_recv t1) = r_blocks (t_recv t)" "r_blocks (t_recv t) = [b]"
        using b(1) by (simp_all add: t_blocks_def r_blocks_def t1_def)
      have own1: "owns X (t_blocks t1) (n_mem n2)"
        using owns_write(1) [OF less.prems(1), of b blk] blocks by (simp add: t_blocks_def m1_def n2_def)
      have holds1: "recv_holds (t_recv t1) (n_mem n2) (buf @ ds)" using b(4) by (simp add: t1_def n2_def m1_def)
      have shorter: "length (c_rx (n_conn n2 fd)) < length ?rx" using k rx by (simp add: n2_def n1_def)
      have sock1: "t_sock t1 = fd" "c_open (n_conn n2 fd)" using less.prems(3,5) by (simp_all add: t1_def n2_def n1_def)
      obtain t' n' where IH: "task_recv_loop e t1 n2 = Some (t', n')" "recv_round X fd t1 n2 (buf @ ds) t' n'"
        using less.hyps [OF shorter own1 holds1 sock1(1) less.prems(4) sock1(2)] by blast
      have same1: "same_on (- set (r_blocks (t_recv t))) (n_mem n) (n_mem n2)"
        using blocks by (simp add: same_on_def n2_def m1_def)
      have ks: "room buf = length ds + room (buf @ ds)" using ds(2) by simp
      have rest: "drop (room (buf @ ds)) (drop k ?rx) = drop (room buf) ?rx"
        "ds @ take (room (buf @ ds)) (drop k ?rx) = take (room buf) ?rx"
        "length (drop k ?rx) < room (buf @ ds) \<longleftrightarrow> length ?rx < room buf"
        using grant_split [OF ks [unfolded ds_def] k(2)] by (simp_all only: ds_def)
      have "recv_round X fd t n buf t' n'"
        using IH(2) same1 rest blocks(2)
        by (auto simp: recv_round_def Let_def n2_def n1_def t1_def intro: same_on_trans)
      with loop IH(1) show ?thesis by auto
    qed
  qed
qed

section \<open>Packages of a stream\<close>

text \<open>The complete packages at the front of a stream, what is left of it, and whether it starts
  with a package that is too long.\<close>

function packages :: "byte list \<Rightarrow> (16 word \<times> byte list) list \<times> byte list \<times> bool" where
  "packages s =
     (if length s < 8 then ([], s, False)
      else let l = net_word (take 4 s) in
        if l > MAX_CMD_LEN then ([], s, True)
        else if unat l < 8 \<or> unat l > length s then ([], s, False)
        else let (fs, r, bad) = packages (drop (unat l) s)
          in ((net16_word (take 2 (drop 4 s)), take (unat l - 8) (drop 8 s)) # fs, r, bad))"
  by auto

termination
  by (relation "measure length") auto

declare packages.simps [simp del]

text \<open>What is forwarded for a package: nothing when the request has no key.\<close>

definition request_of :: "'m penv \<Rightarrow> 32 word \<Rightarrow> nat list \<Rightarrow> 16 word \<times> byte list \<Rightarrow> (nat \<times> string) list" where
  "request_of e pos socks p =
     (let cmd = uint (fst p); app = bytes_str (snd p); key = rf_GetKeyId (e_rc e) app cmd
      in if key = '''' then []
         else [(socks ! the (pmq_GetIndex (e_cfg e) key (pmq_new\<lparr>push_sks := socks\<rparr>)),
           rc_ser_trans (e_rc e) \<lparr>cmd_id = cmd, client_pos = sint pos, src = pull_addr (e_cfg e), app_data = app\<rparr>)])"

definition mq_works :: "'m penv \<Rightarrow> pmq \<Rightarrow> bool" where
  "mq_works e q \<longleftrightarrow> push_sks q \<noteq> [] \<and> (of_int (bucket_num (e_cfg e)) :: 32 word) \<noteq> 0
     \<and> (\<forall>sk m. 0 \<le> zmq_send (e_zmq e) sk m)"

lemma SendMsg_works:
  assumes "mq_works e q"
  shows "pmq_SendMsg (e_zmq e) (e_cfg e) key data q = Some (zmq_send (e_zmq e) (push_sks q ! the (pmq_GetIndex (e_cfg e) key
      (pmq_new\<lparr>push_sks := push_sks q\<rparr>))) data, q\<lparr>pm_sent := pm_sent q @ [(push_sks q ! the (pmq_GetIndex (e_cfg e) key
      (pmq_new\<lparr>push_sks := push_sks q\<rparr>)), data)]\<rparr>)"
proof -
  have "\<not> zmq_send (e_zmq e) sk m < 0" for sk m using assms by (simp add: mq_works_def not_less)
  then show ?thesis using assms by (simp add: mq_works_def pmq_SendMsg_def pmq_GetIndex_def Let_def)
qed

lemma DoCmd_spec:
  assumes "mq_works e (n_mq n)" "m_blocks (n_mem n) (strAppData (t_cmd t)) = Some ds"
  shows "task_DoCmd e t n = Some (n\<lparr>n_mq := (n_mq n)\<lparr>pm_sent := pm_sent (n_mq n)
    @ request_of e (t_pos t) (push_sks (n_mq n)) (uCmdId (t_cmd t), ds)\<rparr>\<rparr>)"
proof -
  have "uint (cmd_get_cmd_id (t_cmd t)) = uint (uCmdId (t_cmd t))"
    by (simp add: cmd_get_cmd_id_def uint_up_ucast is_up)
  then show ?thesis using assms(2) SendMsg_works [OF assms(1)]
    by (simp add: task_DoCmd_def cmd_get_app_data_def str_get_def request_of_def Let_def)
qed

section \<open>Handling what was received\<close>

lemma recv_Str: "recv_holds r m buf \<Longrightarrow> rcv_Str r m = Some buf"
  by (auto simp: recv_holds_def rcv_Str_def rcv_UsedSize_def mem_read_def)

lemma MemMoveLeft_holds:
  assumes "recv_holds r m buf" "k \<le> length buf"
  obtains b blk where "rcv_base r = Some b"
    "rcv_MemMoveLeft k r m = Some (True, r\<lparr>rcv_nptr := length (drop k buf)\<rparr>, m\<lparr>m_blocks := (m_blocks m)(b \<mapsto> blk)\<rparr>)"
    "recv_holds (r\<lparr>rcv_nptr := length (drop k buf)\<rparr>) (m\<lparr>m_blocks := (m_blocks m)(b \<mapsto> blk)\<rparr>) (drop k buf)"
proof -
  obtain b old where b: "rcv_base r = Some b" "rcv_own r" "m_blocks m b = Some old" "length old = unat MAX_CMD_LEN"
      "rcv_size r = unat MAX_CMD_LEN" "rcv_nptr r = length buf" "length buf \<le> unat MAX_CMD_LEN" "take (length buf) old = buf"
    using assms(1) by (auto simp: recv_holds_def)
  define blk where "blk = drop k buf @ drop (length buf - k) old"
  have rd: "mem_read (rcv_base r) k (length buf - k) m = Some (drop k buf)"
    using b assms(2) by (auto simp: mem_read_def) (metis drop_take)
  have wr: "mem_write (rcv_base r) 0 (drop k buf) m = Some (m\<lparr>m_blocks := (m_blocks m)(b \<mapsto> blk)\<rparr>)"
  proof (cases "drop k buf = []")
    case True
    then have "blk = old" using assms(2) by (simp add: blk_def)
    with True b show ?thesis by (cases m) (simp add: mem_write_def fun_upd_idem)
  next
    case False
    with b show ?thesis by (simp add: mem_write_def blk_def)
  qed
  have "rcv_MemMoveLeft k r m = Some (True, r\<lparr>rcv_nptr := length (drop k buf)\<rparr>, m\<lparr>m_blocks := (m_blocks m)(b \<mapsto> blk)\<rparr>)"
    using rd wr b(6) assms(2) by (simp add: rcv_MemMoveLeft_def rcv_UsedSize_def)
  moreover have "recv_holds (r\<lparr>rcv_nptr := length (drop k buf)\<rparr>) (m\<lparr>m_blocks := (m_blocks m)(b \<mapsto> blk)\<rparr>) (drop k buf)"
    using b assms(2) by (auto simp: recv_holds_def blk_def)
  ultimately show ?thesis using that b(1) by blast
qed

definition handle_round :: "'m penv \<Rightarrow> nat set \<Rightarrow> task \<Rightarrow> net \<Rightarrow> byte list \<Rightarrow> task \<Rightarrow> net \<Rightarrow> bool" where
  "handle_round e X t n buf t' n' \<longleftrightarrow>
     (let (fs, rest, bad) = packages buf; ends = (bad \<and> \<not> task_IsTerminate t) in
      n_conn n' = (if ends then (n_conn n)(t_sock t := (n_conn n (t_sock t))\<lparr>c_open := False\<rparr>) else n_conn n)
      \<and> t_sock t' = (if ends then -1 else t_sock t) \<and> t_pos t' = t_pos t \<and> t_queue t' = t_queue t
      \<and> recv_holds (t_recv t') (n_mem n') rest \<and> owns X (t_blocks t') (n_mem n')
      \<and> same_on (X \<union> set (q_blocks (t_queue t))) (n_mem n) (n_mem n')
      \<and> n_mq n' = (n_mq n)\<lparr>pm_sent := pm_sent (n_mq n) @ concat (map (request_of e (t_pos t) (push_sks (n_mq n))) fs)\<rparr>)"

text \<open>The step from one package to the next.\<close>

lemma Parse_first:
  assumes "owns X (strAppData c # bs) m" "8 \<le> length buf"
    "l = net_word (take 4 buf)" "l \<le> MAX_CMD_LEN" "8 \<le> unat l" "unat l \<le> length buf"
  obtains b m' where "cmd_Parse buf c m = Some (uint l, c\<lparr>uCmdId := net16_word (take 2 (drop 4 buf)),
        uCheck := net16_word (take 2 (drop 6 buf)), strAppData := b\<rparr>, m')"
    "owns X (b # bs) m'" "m_blocks m' b = Some (take (unat l - 8) (drop 8 buf))" "same_on (X \<union> set bs) m m'"
proof -
  obtain b m' where a: "str_assign (strAppData c) (take (unat l - 8) (drop 8 buf)) m = Some (b, m')"
      "owns X (b # bs) m'" "m_blocks m' b = Some (take (unat l - 8) (drop 8 buf))" "same_on (X \<union> set bs) m m'"
    using str_assign_owns [OF assms(1)] by blast
  have "\<not> MAX_CMD_LEN < l" using assms(4) by simp
  then have "cmd_Parse buf c m = Some (uint l, c\<lparr>uCmdId := net16_word (take 2 (drop 4 buf)),
        uCheck := net16_word (take 2 (drop 6 buf)), strAppData := b\<rparr>, m')"
    using a(1) assms(2,3,5,6) by (simp add: cmd_Parse_def cmd_set_app_data_def sizeof_MsgHead_def Let_def)
  with a that show ?thesis by blast
qed

lemma Parse_none:
  assumes "packages buf = ([], buf, bad)"
  shows "\<exists>rv. cmd_Parse buf c m = Some (rv, c, m) \<and> (if bad then rv < 0 else rv = 0)"
  using assms unfolding packages.simps [of buf]
  by (auto simp: cmd_Parse_def sizeof_MsgHead_def Let_def split: if_splits prod.splits)

lemma packages_cases:
  obtains (none) bad where "packages buf = ([], buf, bad)"
  | (first) l where "8 \<le> length buf" "l = net_word (take 4 buf)" "l \<le> MAX_CMD_LEN" "8 \<le> unat l" "unat l \<le> length buf"
    "packages buf = (let (fs, r, bad) = packages (drop (unat l) buf)
       in ((net16_word (take 2 (drop 4 buf)), take (unat l - 8) (drop 8 buf)) # fs, r, bad))"
proof (cases "8 \<le> length buf \<and> net_word (take 4 buf) \<le> MAX_CMD_LEN \<and> 8 \<le> unat (net_word (take 4 buf))
    \<and> unat (net_word (take 4 buf)) \<le> length buf")
  case True
  then show ?thesis
    by (intro first [of "net_word (take 4 buf)"]) (auto simp: packages.simps [of buf] Let_def not_less)
next
  case False
  then have "\<exists>bad. packages buf = ([], buf, bad)"
    by (auto simp: packages.simps [of buf] Let_def not_less not_le)
  then show ?thesis using none by blast
qed

lemma handle_spec:
  assumes "owns X (t_blocks t) (n_mem n)" "recv_holds (t_recv t) (n_mem n) buf"
    "\<not> task_IsTerminate t \<Longrightarrow> c_open (n_conn n (t_sock t))" "mq_works e (n_mq n)"
  shows "\<exists>t' n'. task_HandleCmdMsg e t n = Some (t', n') \<and> handle_round e X t n buf t' n'"
  using assms
proof (induction "length buf" arbitrary: t n buf rule: less_induct)
  case less
  let ?rest = "r_blocks (t_recv t) @ q_blocks (t_queue t)"
  have size: "rcv_UsedSize (t_recv t) = length buf"
    using less.prems(2) by (auto simp: recv_holds_def rcv_UsedSize_def)
  show ?case
  proof (cases "buf = []")
    case True
    then have "task_HandleCmdMsg e t n = Some (t, n)" by (subst task_HandleCmdMsg.simps) (simp add: size)
    moreover have "handle_round e X t n [] t n"
      using less.prems True by (simp add: handle_round_def packages.simps [of "[]"])
    ultimately show ?thesis using True by blast
  next
    case False
    obtain b1 m1 where b1: "str_assign (strAppData (t_cmd t)) [] (n_mem n) = Some (b1, m1)"
        "owns X (b1 # ?rest) m1" "same_on (X \<union> set ?rest) (n_mem n) m1"
      using str_assign_owns [OF less.prems(1) [unfolded t_blocks_def]] by blast
    define c1 where "c1 = \<lparr>uCmdId = 0, uCheck = 0, uMsgIdx = 0, strAppData = b1\<rparr>"
    have clear: "cmd_Clear (t_cmd t) (n_mem n) = Some (c1, m1)" using b1(1) by (simp add: cmd_Clear_def c1_def)
    have recv1: "recv_holds (t_recv t) m1 buf"
      using recv_frame [OF less.prems(2)] b1(3) by (auto simp: same_on_def)
    show ?thesis
    proof (cases buf rule: packages_cases)
      case (none bad)
      obtain rv where rv: "cmd_Parse buf c1 m1 = Some (rv, c1, m1)" "if bad then rv < 0 else rv = 0"
        using Parse_none [OF none] by blast
      define t1 where "t1 = t\<lparr>t_cmd := c1\<rparr>"
      define n1 where "n1 = n\<lparr>n_mem := m1\<rparr>"
      have run: "task_HandleCmdMsg e t n = (if bad then task_Terminate t1 n1 else Some (t1, n1))"
        using False size clear recv_Str [OF recv1] rv by (subst task_HandleCmdMsg.simps) (auto simp: t1_def n1_def)
      have t1: "t_blocks t1 = b1 # ?rest" "task_IsTerminate t1 = task_IsTerminate t"
        by (simp_all add: t1_def t_blocks_def c1_def task_IsTerminate_def)
      have keep: "same_on (X \<union> set (q_blocks (t_queue t))) (n_mem n) m1" using b1(3) by (auto simp: same_on_def)
      show ?thesis
      proof (cases "bad \<and> \<not> task_IsTerminate t")
        case True
        then have "0 < t_sock t1" "c_open (n_conn n1 (t_sock t1))"
          using less.prems(3) by (auto simp: task_IsTerminate_def t1_def n1_def)
        then obtain n2 where "task_Terminate t1 n1 = Some (t1\<lparr>t_sock := -1\<rparr>, n2)" "n_mem n2 = m1" "n_mq n2 = n_mq n"
            "n_conn n2 = (n_conn n)(t_sock t := (n_conn n (t_sock t))\<lparr>c_open := False\<rparr>)"
          using Terminate_live [of t1 "t_sock t1" n1] by (auto simp: t1_def n1_def)
        moreover have "t_blocks (t1\<lparr>t_sock := -1\<rparr>) = t_blocks t1" by (simp add: t_blocks_def)
        ultimately show ?thesis using run True none b1(2) keep recv1 t1
          by (auto simp: handle_round_def t1_def)
      next
        case no: False
        then have "task_HandleCmdMsg e t n = Some (t1, n1)" using run t1 by (auto simp: Terminate_dead)
        moreover have "handle_round e X t n buf t1 n1"
          using no none b1(2) keep recv1 t1 by (auto simp: handle_round_def t1_def n1_def)
        ultimately show ?thesis by blast
      qed
    next
      case (first l)
      let ?ds = "take (unat l - 8) (drop 8 buf)" and ?i = "net16_word (take 2 (drop 4 buf))"
      obtain b2 m2 where b2: "cmd_Parse buf c1 m1 = Some (uint l, c1\<lparr>uCmdId := ?i,
            uCheck := net16_word (take 2 (drop 6 buf)), strAppData := b2\<rparr>, m2)"
          "owns X (b2 # ?rest) m2" "m_blocks m2 b2 = Some ?ds" "same_on (X \<union> set ?rest) m1 m2"
        by (rule Parse_first [of X c1 ?rest m1 buf l]) (use b1(2) first in \<open>auto simp: c1_def\<close>)
      define t2 where "t2 = t\<lparr>t_cmd := c1\<lparr>uCmdId := ?i, uCheck := net16_word (take 2 (drop 6 buf)), strAppData := b2\<rparr>\<rparr>"
      define n2 where "n2 = n\<lparr>n_mem := m2, n_mq := (n_mq n)\<lparr>pm_sent := pm_sent (n_mq n)
        @ request_of e (t_pos t) (push_sks (n_mq n)) (?i, ?ds)\<rparr>\<rparr>"
      have "task_DoCmd e t2 (n\<lparr>n_mem := m2\<rparr>) = Some n2"
        using DoCmd_spec [of e "n\<lparr>n_mem := m2\<rparr>" t2 ?ds] less.prems(4) b2(3) by (simp add: t2_def n2_def)
      moreover have recv2: "recv_holds (t_recv t) m2 buf"
        using recv_frame [OF recv1] b2(4) by (auto simp: same_on_def)
      obtain b blk where mv: "rcv_base (t_recv t) = Some b"
          "rcv_MemMoveLeft (unat l) (t_recv t) m2 = Some (True, (t_recv t)\<lparr>rcv_nptr := length (drop (unat l) buf)\<rparr>,
            m2\<lparr>m_blocks := (m_blocks m2)(b \<mapsto> blk)\<rparr>)"
          "recv_holds ((t_recv t)\<lparr>rcv_nptr := length (drop (unat l) buf)\<rparr>) (m2\<lparr>m_blocks := (m_blocks m2)(b \<mapsto> blk)\<rparr>) (drop (unat l) buf)"
        by (rule MemMoveLeft_holds [OF recv2 first(5)]) (rule that)
      define m3 where "m3 = m2\<lparr>m_blocks := (m_blocks m2)(b \<mapsto> blk)\<rparr>"
      define t3 where "t3 = t2\<lparr>t_recv := (t_recv t)\<lparr>rcv_nptr := length (drop (unat l) buf)\<rparr>\<rparr>"
      define n3 where "n3 = n2\<lparr>n_mem := m3\<rparr>"
      have "uint l = int (unat l)" by simp
      then have "0 < uint l" using first(4) by linarith
      then have "nat (uint l) = unat l" "\<not> uint l < 0" "uint l \<noteq> 0" by simp_all
      ultimately have run: "task_HandleCmdMsg e t n = task_HandleCmdMsg e t3 n3"
        using False size clear recv_Str [OF recv1] b2(1) mv(2)
        by (subst task_HandleCmdMsg.simps) (simp add: t2_def n2_def m3_def t3_def n3_def)
      have r: "r_blocks (t_recv t) = [b]" "r_blocks (t_recv t3) = [b]" using mv(1) by (simp_all add: r_blocks_def t3_def)
      have t3: "t_blocks t3 = b2 # ?rest" "t_sock t3 = t_sock t" "t_pos t3 = t_pos t" "t_queue t3 = t_queue t"
        using r by (simp_all add: t_blocks_def t3_def t2_def)
      have own3: "owns X (t_blocks t3) (n_mem n3)"
        using owns_write(1) [OF b2(2), of b blk] r by (simp add: t3 n3_def m3_def)
      have holds3: "recv_holds (t_recv t3) (n_mem n3) (drop (unat l) buf)" using mv(3) by (simp add: t3_def n3_def m3_def)
      have "b \<notin> X \<union> set (q_blocks (t_queue t))" using b2(2) r by (auto simp: owns_def)
      then have "same_on (X \<union> set (q_blocks (t_queue t))) m2 m3" by (auto simp: same_on_def m3_def)
      moreover have "same_on (X \<union> set (q_blocks (t_queue t))) (n_mem n) m2"
        using b1(3) b2(4) by (auto simp: same_on_def)
      ultimately have keep: "same_on (X \<union> set (q_blocks (t_queue t))) (n_mem n) (n_mem n3)"
        unfolding n3_def by (auto intro: same_on_trans)
      have "length (drop (unat l) buf) < length buf" using first by auto
      moreover have "mq_works e (n_mq n3)" using less.prems(4) by (simp add: mq_works_def n3_def n2_def)
      moreover have "c_open (n_conn n3 (t_sock t3))" if "\<not> task_IsTerminate t3"
        using less.prems(3) that t3 by (simp add: task_IsTerminate_def n3_def n2_def)
      ultimately obtain t' n' where IH: "task_HandleCmdMsg e t3 n3 = Some (t', n')"
          "handle_round e X t3 n3 (drop (unat l) buf) t' n'"
        using less.hyps [OF _ own3 holds3] by blast
      have "handle_round e X t n buf t' n'"
        using IH(2) keep t3 first(6)
        by (auto simp: handle_round_def Let_def task_IsTerminate_def n3_def n2_def intro: same_on_trans split: prod.splits)
      with run IH(1) show ?thesis by auto
    qed
  qed
qed

section \<open>Packages of a stream that grows\<close>

lemma packages_append:
  "packages (a @ b) = (let (fs, r, bad) = packages a in
     if bad then (fs, r @ b, True) else let (gs, r', bad') = packages (r @ b) in (fs @ gs, r', bad'))"
proof (induction "length a" arbitrary: a rule: less_induct)
  case less
  show ?case
  proof (cases a rule: packages_cases)
    case (none bad)
    show ?thesis
    proof (cases bad)
      case True
      then have "8 \<le> length a" "net_word (take 4 a) > MAX_CMD_LEN" using none
        by (auto simp: packages.simps [of a] Let_def split: if_splits prod.splits)
      then have "packages (a @ b) = ([], a @ b, True)" by (simp add: packages.simps [of "a @ b"] Let_def)
      with none True show ?thesis by simp
    qed (simp add: none split: prod.split)
  next
    case (first l)
    have IH: "packages (drop (unat l) a @ b) = (let (fs, r, bad) = packages (drop (unat l) a) in
       if bad then (fs, r @ b, True) else let (gs, r', bad') = packages (r @ b) in (fs @ gs, r', bad'))"
      by (rule less) (use first in auto)
    have "packages (a @ b) = (let (fs, r, bad) = packages (drop (unat l) a @ b)
       in ((net16_word (take 2 (drop 4 a)), take (unat l - 8) (drop 8 a)) # fs, r, bad))"
      using first by (subst packages.simps) (auto simp: Let_def not_less)
    with IH first(6) show ?thesis by (auto simp: Let_def split: prod.splits)
  qed
qed

end
