(* ===== verification/ProxyTaskSend.thy ===== *)
theory ProxyTaskSend
  imports ProxyTaskRecv
begin

text \<open>
  Sending on a connection of the proxy: whatever \<open>writev\<close> takes and answers, the bytes taken are
  the bytes of the queue in order, the rest stays in the queue, no block is used after its
  deletion and none is lost.
\<close>

section \<open>What the queue reads\<close>

definition seq_in :: "nat set \<Rightarrow> bufseq \<Rightarrow> bool" where
  "seq_in B s \<longleftrightarrow> (\<forall>x \<in> set (m_buffers s). \<not> sb_Empty x \<longrightarrow> (\<forall>b. sb_base x = Some b \<longrightarrow> b \<in> B))"

definition queue_in :: "nat set \<Rightarrow> bufseq list \<Rightarrow> bool" where
  "queue_in B q \<longleftrightarrow> (\<forall>s \<in> set q. seq_in B s)"

lemma queue_in_simps [simp]:
  "queue_in B []" "queue_in B (s # q) \<longleftrightarrow> seq_in B s \<and> queue_in B q"
  "queue_in B (q @ q') \<longleftrightarrow> queue_in B q \<and> queue_in B q'"
  by (auto simp: queue_in_def)

lemma queue_in_mono: "queue_in A q \<Longrightarrow> A \<subseteq> B \<Longrightarrow> queue_in B q"
  by (auto simp: queue_in_def seq_in_def)

lemma settled_in: "queue_settled q \<Longrightarrow> queue_in (set (q_blocks q)) q"
  by (auto simp: queue_in_def seq_in_def queue_settled_def settled_def q_blocks_def in_sb_blocks)

lemma queue_frame:
  assumes "queue_bytes q m = Some bs" "queue_ok q" "queue_in B q" "same_on B m m'"
  shows "queue_bytes q m' = Some bs"
  using assms
proof (induction q arbitrary: bs)
  case (Cons s q)
  then obtain cs ds where cs: "bs_bytes s m = Some cs" "queue_bytes q m = Some ds" "bs = cs @ ds"
    by (auto split: Option.bind_splits)
  have "bs_bytes s m' = Some cs"
    unfolding bs_bytes_def
  proof (rule sb_bytes_frame [OF cs(1) [unfolded bs_bytes_def]])
    have sub: "set (take (m_count s) (m_buffers s)) \<subseteq> set (m_buffers s)" by (rule set_take_subset)
    show "\<forall>x \<in> set (take (m_count s) (m_buffers s)). sb_ptr x \<le> sb_size x"
      using Cons.prems(2) sub by (auto simp: sb_fine_def)
    show "\<forall>x \<in> set (take (m_count s) (m_buffers s)). \<not> sb_Empty x \<longrightarrow> (\<forall>b. sb_base x = Some b \<longrightarrow> m_blocks m' b = m_blocks m b)"
      using Cons.prems(3,4) sub by (auto simp: seq_in_def same_on_def)
  qed
  moreover have "queue_bytes q m' = Some ds" using Cons cs by simp
  ultimately show ?case using cs by simp
qed simp

section \<open>Sending a part\<close>

lemma total_bytes:
  assumes "bs_ok s" "bs_bytes s m = Some bs"
  shows "m_total_size s = length bs"
proof -
  have "sum_list (map sb_Remain (drop (m_count s) (m_buffers s))) = 0"
    using assms(1) by (auto simp: bs_ok_def sb_new_def sb_Remain_def)
  moreover have "m_buffers s = take (m_count s) (m_buffers s) @ drop (m_count s) (m_buffers s)" by simp
  ultimately have "sum_list (map sb_Remain (m_buffers s)) = sum_list (map sb_Remain (take (m_count s) (m_buffers s)))"
    by (metis add.right_neutral map_append sum_list_append)
  then show ?thesis using assms sb_bytes_length [of _ m bs] by (auto simp: bs_ok_def bs_bytes_def)
qed

definition moved_on :: "statbuf \<Rightarrow> statbuf \<Rightarrow> bool" where
  "moved_on x y \<longleftrightarrow> (\<exists>p. sb_ptr x \<le> p \<and> p \<le> sb_size x \<and> y = x\<lparr>sb_ptr := p\<rparr>)"

lemma moved_on_keeps:
  assumes "moved_on x y"
  shows "sb_fine x \<Longrightarrow> sb_fine y" "settled x \<Longrightarrow> settled y" "sb_Empty x \<Longrightarrow> sb_Empty y"
    "sb_base y = sb_base x" "sb_block y = sb_block x"
  using assms by (auto simp: moved_on_def sb_fine_def settled_def sb_Empty_def sb_block_def)

lemma moved_on_blocks: "list_all2 moved_on xs ys \<Longrightarrow> sb_blocks ys = sb_blocks xs"
  by (induction rule: list_all2_induct) (auto simp: moved_on_keeps)

lemma moved_on_set: "list_all2 moved_on xs ys \<Longrightarrow> y \<in> set ys \<Longrightarrow> \<exists>x \<in> set xs. moved_on x y"
  by (induction rule: list_all2_induct) auto

lemma Advance_spec:
  assumes ok: "bs_ok s" and bytes: "bs_bytes s m = Some bs" and k: "k \<le> length bs"
  shows "bs_ok (bs_Advance k s)" "bs_bytes (bs_Advance k s) m = Some (drop k bs)"
    "list_all2 moved_on (m_buffers s) (m_buffers (bs_Advance k s))"
proof -
  have ptr: "\<forall>x \<in> set (m_buffers s). sb_ptr x \<le> sb_size x" using ok by (simp add: bs_ok_def)
  obtain ys where ys: "bs_advance (m_buffers s) (m_count s) k (m_total_size s) = (ys, m_total_size s - k)"
      "sb_bytes (take (m_count s) ys) m = Some (drop k bs)" "list_all2 moved_on (m_buffers s) ys"
    using advance_spec [OF bytes [unfolded bs_bytes_def] ptr k] total_bytes [OF ok bytes]
    unfolding moved_on_def by force
  have s': "bs_Advance k s = s\<lparr>m_buffers := ys, m_total_size := m_total_size s - k\<rparr>"
    by (simp add: bs_Advance_def ys(1))
  have len: "length ys = length (m_buffers s)" using ys(3) by (simp add: list_all2_lengthD)
  have new: "\<forall>y \<in> set (drop (m_count s) ys). y = sb_new"
  proof
    fix y assume "y \<in> set (drop (m_count s) ys)"
    moreover have "list_all2 moved_on (drop (m_count s) (m_buffers s)) (drop (m_count s) ys)"
      using ys(3) by (rule list_all2_dropI)
    ultimately obtain x where "x \<in> set (drop (m_count s) (m_buffers s))" "moved_on x y" using moved_on_set by blast
    then show "y = sb_new" using ok by (auto simp: bs_ok_def moved_on_def sb_new_def)
  qed
  have "sum_list (map sb_Remain (drop (m_count s) ys)) = 0" using new by (auto simp: sb_new_def sb_Remain_def)
  moreover have "ys = take (m_count s) ys @ drop (m_count s) ys" by simp
  ultimately have "sum_list (map sb_Remain ys) = sum_list (map sb_Remain (take (m_count s) ys))"
    by (metis add.right_neutral map_append sum_list_append)
  also have "\<dots> = length (drop k bs)" using sb_bytes_length [OF ys(2)] by simp
  finally have "m_total_size s - k = sum_list (map sb_Remain ys)" using total_bytes [OF ok bytes] by simp
  moreover have "\<forall>y \<in> set ys. sb_ptr y \<le> sb_size y" 
  proof
    fix y assume "y \<in> set ys"
    then obtain x where "moved_on x y" using moved_on_set [OF ys(3)] by blast
    then show "sb_ptr y \<le> sb_size y" by (auto simp: moved_on_def)
  qed
  ultimately show "bs_ok (bs_Advance k s)" using ok len new by (simp add: s' bs_ok_def)
  show "bs_bytes (bs_Advance k s) m = Some (drop k bs)" using ys(2) by (simp add: s' bs_bytes_def)
  show "list_all2 moved_on (m_buffers s) (m_buffers (bs_Advance k s))" using ys(3) by (simp add: s')
qed

section \<open>The loop of \<open>FlushSendQueue\<close>\<close>

text \<open>Buffers that own their block or show the string of the command.\<close>

definition anchored :: "nat \<Rightarrow> bufseq list \<Rightarrow> bool" where
  "anchored cb q \<longleftrightarrow> (\<forall>s \<in> set q. \<forall>x \<in> set (m_buffers s). settled x \<or> sb_base x = Some cb)"

lemma anchored_simps [simp]:
  "anchored cb []" "anchored cb (s # q) \<longleftrightarrow> (\<forall>x \<in> set (m_buffers s). settled x \<or> sb_base x = Some cb) \<and> anchored cb q"
  "anchored cb (q @ q') \<longleftrightarrow> anchored cb q \<and> anchored cb q'"
  by (auto simp: anchored_def)

lemma settled_anchored: "queue_settled q \<Longrightarrow> anchored cb q"
  by (auto simp: anchored_def queue_settled_def)

lemma anchored_in: "anchored cb q \<Longrightarrow> queue_in (insert cb (set (q_blocks q))) q"
  unfolding queue_in_def seq_in_def
proof (intro ballI impI allI)
  fix s x b assume q: "anchored cb q" and s: "s \<in> set q" "x \<in> set (m_buffers s)" "\<not> sb_Empty x" "sb_base x = Some b"
  then have "settled x \<or> b = cb" unfolding anchored_def by (metis option.inject)
  then have "sb_own x \<or> b = cb" using s(3) by (simp add: settled_def)
  then show "b \<in> insert cb (set (q_blocks q))" using s by (auto simp: q_blocks_def in_sb_blocks)
qed

text \<open>The kernel never answers \<open>writev\<close> with an error or with no byte taken.\<close>

definition writes_ok :: "conn \<Rightarrow> bool" where
  "writes_ok c \<longleftrightarrow> WrFailed \<notin> set (c_wr c) \<and> WrSome 0 \<notin> set (c_wr c)"

definition flush_round :: "nat set \<Rightarrow> int \<Rightarrow> task \<Rightarrow> net \<Rightarrow> byte list \<Rightarrow> int \<Rightarrow> task \<Rightarrow> net \<Rightarrow> bool" where
  "flush_round X fd t n pend ret t' n' \<longleftrightarrow> (\<exists>k c. k \<le> length pend \<and> ret \<in> {0, -1, -2}
     \<and> n_conn n' = (n_conn n)(fd := c) \<and> c_tx c = c_tx (n_conn n fd) @ take k pend
     \<and> c_rx c = c_rx (n_conn n fd) \<and> c_end c = c_end (n_conn n fd) \<and> c_open c = (ret \<noteq> -1)
     \<and> t_sock t' = (if ret = -1 then -1 else fd) \<and> t_pos t' = t_pos t \<and> t_recv t' = t_recv t \<and> t_cmd t' = t_cmd t
     \<and> queue_ok (t_queue t') \<and> queue_bytes (t_queue t') (n_mem n') = Some (drop k pend)
     \<and> queue_settled (butlast (t_queue t')) \<and> (queue_settled (t_queue t) \<longrightarrow> queue_settled (t_queue t'))
     \<and> anchored (strAppData (t_cmd t)) (t_queue t')
     \<and> owns X (t_blocks t') (n_mem n') \<and> same_on (X \<union> set (strAppData (t_cmd t) # r_blocks (t_recv t))) (n_mem n) (n_mem n')
     \<and> n_mq n' = n_mq n \<and> (writes_ok (n_conn n fd) \<longrightarrow> ret = 0))"

text \<open>Composing: first the task changes to \<open>t1\<close>, \<open>n1\<close> while \<open>j\<close> bytes are sent.\<close>

lemma flush_round_trans:
  assumes "flush_round X fd t1 n1 (drop j pend) ret t' n'" "j \<le> length pend"
    "n_conn n1 = (n_conn n)(fd := c)" "c_tx c = c_tx (n_conn n fd) @ take j pend"
    "c_rx c = c_rx (n_conn n fd)" "c_end c = c_end (n_conn n fd)"
    "t_pos t1 = t_pos t" "t_recv t1 = t_recv t" "t_cmd t1 = t_cmd t" "queue_settled (t_queue t) \<longrightarrow> queue_settled (t_queue t1)"
    "same_on (X \<union> set (strAppData (t_cmd t) # r_blocks (t_recv t))) (n_mem n) (n_mem n1)" "n_mq n1 = n_mq n"
    "writes_ok (n_conn n fd) \<longrightarrow> writes_ok c"
  shows "flush_round X fd t n pend ret t' n'"
proof -
  obtain k d where k: "k \<le> length (drop j pend)" "c_tx d = c_tx (n_conn n1 fd) @ take k (drop j pend)"
      "n_conn n' = (n_conn n1)(fd := d)" and rest: "ret \<in> {0, -1, -2}" "c_rx d = c_rx (n_conn n1 fd)" "c_end d = c_end (n_conn n1 fd)"
      "c_open d = (ret \<noteq> -1)" "t_sock t' = (if ret = -1 then -1 else fd)" "t_pos t' = t_pos t1" "t_recv t' = t_recv t1"
      "t_cmd t' = t_cmd t1" "queue_ok (t_queue t')" "queue_bytes (t_queue t') (n_mem n') = Some (drop k (drop j pend))"
      "queue_settled (butlast (t_queue t'))" "queue_settled (t_queue t1) \<longrightarrow> queue_settled (t_queue t')"
      "anchored (strAppData (t_cmd t1)) (t_queue t')" "owns X (t_blocks t') (n_mem n')"
      "same_on (X \<union> set (strAppData (t_cmd t1) # r_blocks (t_recv t1))) (n_mem n1) (n_mem n')" "n_mq n' = n_mq n1"
      "writes_ok (n_conn n1 fd) \<longrightarrow> ret = 0"
    using assms(1) unfolding flush_round_def by blast
  have "take j pend @ take k (drop j pend) = take (j + k) pend" by (simp add: take_add)
  with k assms(3,4) have "c_tx d = c_tx (n_conn n fd) @ take (j + k) pend" by simp
  moreover have "drop k (drop j pend) = drop (j + k) pend" by (simp add: add.commute)
  moreover have "n_conn n' = (n_conn n)(fd := d)" using k(3) assms(3) by simp
  moreover have "same_on (X \<union> set (strAppData (t_cmd t) # r_blocks (t_recv t))) (n_mem n) (n_mem n')"
    using assms(8,9,11) rest(15) by (metis same_on_trans)
  ultimately show ?thesis unfolding flush_round_def
    using rest assms(2,3,5-10,12,13) k(1) by (intro exI [of _ "j + k"] exI [of _ d]) simp
qed

lemma flush_loop_spec:
  assumes "owns X (t_blocks t) (n_mem n)" "queue_ok (t_queue t)" "queue_bytes (t_queue t) (n_mem n) = Some pend"
    "queue_settled (butlast (t_queue t))" "anchored (strAppData (t_cmd t)) (t_queue t)"
    "t_sock t = fd" "0 < fd" "c_open (n_conn n fd)"
  shows "\<exists>ret t' n'. task_flush_loop t n = Some (ret, t', n') \<and> flush_round X fd t n pend ret t' n'
"
  using assms
proof (induction "length (c_wr (n_conn n fd)) + length (t_queue t)" arbitrary: t n pend rule: less_induct)
  case less
  let ?c = "n_conn n fd"
  have stay: "flush_round X fd t n pend 0 t n"
    unfolding flush_round_def using less.prems
    by (intro exI [of _ 0] exI [of _ ?c]) auto
  show ?case
  proof (cases "t_queue t")
    case Nil
    then have "task_flush_loop t n = Some (0, t, n)" by (subst task_flush_loop.simps) simp
    with stay show ?thesis by blast
  next
    case (Cons s rest)
    obtain bs cs where bytes: "bs_bytes s (n_mem n) = Some bs" "queue_bytes rest (n_mem n) = Some cs" "pend = bs @ cs"
      using less.prems(3) Cons by (auto split: Option.bind_splits)
    have s: "bs_ok s" "length (m_buffers s) = 3" "\<forall>x \<in> set (m_buffers s). sb_fine x" and rest: "queue_ok rest"
      using less.prems(2) Cons by simp_all
    have total: "m_total_size s = length bs" using total_bytes [OF s(1) bytes(1)] .
    have bl: "queue_settled (butlast rest)" using less.prems(4) Cons by (cases rest) auto
    have anch: "anchored (strAppData (t_cmd t)) rest" using less.prems(5) Cons by simp

    have pop: "\<exists>m'. bs_destroy s' (n_mem n) = Some m' \<and> owns X (t_blocks (t\<lparr>t_queue := rest\<rparr>)) m'
        \<and> same_on (X \<union> set (strAppData (t_cmd t) # r_blocks (t_recv t))) (n_mem n) m' \<and> queue_bytes rest m' = Some cs"
      if s': "sb_blocks (m_buffers s') = sb_blocks (m_buffers s)" for s'
    proof -
      let ?keep = "t_blocks (t\<lparr>t_queue := rest\<rparr>)"
      have "owns X (sb_blocks (m_buffers s') @ ?keep) (n_mem n)"
        by (rule owns_perm [OF less.prems(1)]) (simp add: t_blocks_def Cons s')
      then obtain m' where m': "bs_destroy s' (n_mem n) = Some m'" "owns X ?keep m'" "same_on (X \<union> set ?keep) (n_mem n) m'"
        using bs_destroy_owns by blast
      have "queue_bytes rest m' = Some cs"
      proof (rule queue_frame [OF bytes(2) rest anchored_in [OF anch]])
        show "same_on (insert (strAppData (t_cmd t)) (set (q_blocks rest))) (n_mem n) m'"
          using m'(3) by (rule same_on_mono) (auto simp: t_blocks_def)
      qed
      moreover have "same_on (X \<union> set (strAppData (t_cmd t) # r_blocks (t_recv t))) (n_mem n) m'"
        using m'(3) by (rule same_on_mono) (auto simp: t_blocks_def)
      ultimately show ?thesis using m' by blast
    qed
    show ?thesis
    proof (cases "bs_Empty s")
      case True
      then have "bs = []" using total by (simp add: bs_Empty_def)
      obtain m' where m': "bs_destroy s (n_mem n) = Some m'" "owns X (t_blocks (t\<lparr>t_queue := rest\<rparr>)) m'"
          "same_on (X \<union> set (strAppData (t_cmd t) # r_blocks (t_recv t))) (n_mem n) m'" "queue_bytes rest m' = Some cs"
        using pop by blast
      define t1 where "t1 = t\<lparr>t_queue := rest\<rparr>"
      define n1 where "n1 = n\<lparr>n_mem := m'\<rparr>"
      have run: "task_flush_loop t n = task_flush_loop t1 n1"
        using Cons True m'(1) by (subst task_flush_loop.simps) (simp add: t1_def n1_def)
      obtain ret t' n' where IH: "task_flush_loop t1 n1 = Some (ret, t', n')" "flush_round X fd t1 n1 pend ret t' n'"
        using less.hyps [of n1 t1 pend] less.prems(6-8) m' rest bl anch Cons bytes(3) \<open>bs = []\<close>
        by (auto simp: t1_def n1_def)
      have "flush_round X fd t n pend ret t' n'"
        by (rule flush_round_trans [of X fd t1 n1 0 pend ret t' n' n ?c t])
          (use IH(2) m'(3) Cons in \<open>simp_all add: t1_def n1_def\<close>)
      with run IH(1) show ?thesis by auto
    next
      case False
      then have ne: "bs \<noteq> []" using total by (simp add: bs_Empty_def)
      have "m_count s \<le> 3" using s(1,2) by (simp add: bs_ok_def)
      then have iov: "sb_bytes (bs_InitIoVec 3 s) (n_mem n) = Some bs"
        using iovec_bytes [of "m_count s" "m_buffers s" "n_mem n" bs 3] bytes(1) by (simp add: bs_InitIoVec_def bs_bytes_def)
      show ?thesis
      proof (cases "c_wr ?c")
        case Nil
        then have "task_flush_loop t n = Some (0, t, n)"
          using Cons False iov less.prems(6,8) by (subst task_flush_loop.simps) (simp add: sock_writev_def)
        with stay show ?thesis by blast
      next
        case wr: (Cons a as)
        show ?thesis
        proof (cases a)
          case WrAgain
          define n1 where "n1 = n\<lparr>n_conn := (n_conn n)(fd := ?c\<lparr>c_wr := as\<rparr>)\<rparr>"
          have "task_flush_loop t n = Some (0, t, n1)"
            using Cons False iov less.prems(6,8) wr WrAgain
            by (subst task_flush_loop.simps) (simp add: sock_writev_def n1_def)
          moreover have "flush_round X fd t n pend 0 t n1"
            unfolding flush_round_def using less.prems
            by (intro exI [of _ 0] exI [of _ "?c\<lparr>c_wr := as\<rparr>"]) (auto simp: n1_def)
          ultimately show ?thesis by blast
        next
          case WrFailed
          define n1 where "n1 = n\<lparr>n_conn := (n_conn n)(fd := ?c\<lparr>c_wr := as\<rparr>)\<rparr>"
          obtain n2 where n2: "task_Terminate t n1 = Some (t\<lparr>t_sock := -1\<rparr>, n2)" "n_mem n2 = n_mem n" "n_mq n2 = n_mq n"
              "n_conn n2 = (n_conn n)(fd := ?c\<lparr>c_wr := as, c_open := False\<rparr>)"
            using Terminate_live [OF less.prems(6,7), of n1] less.prems(8) by (auto simp: n1_def)
          then have "task_flush_loop t n = Some (-1, t\<lparr>t_sock := -1\<rparr>, n2)"
            using Cons False iov less.prems(6,8) wr WrFailed
            by (subst task_flush_loop.simps) (simp add: sock_writev_def n1_def)
          moreover have "flush_round X fd t n pend (-1) (t\<lparr>t_sock := -1\<rparr>) n2"
            unfolding flush_round_def using less.prems n2 wr WrFailed
            by (intro exI [of _ 0] exI [of _ "?c\<lparr>c_wr := as, c_open := False\<rparr>"]) (auto simp: t_blocks_def writes_ok_def)
          ultimately show ?thesis by blast
        next
          case (WrSome k0)
          define k where "k = min k0 (length bs)"
          define c1 where "c1 = ?c\<lparr>c_tx := c_tx ?c @ take k bs, c_wr := as\<rparr>"
          define n1 where "n1 = n\<lparr>n_conn := (n_conn n)(fd := c1)\<rparr>"
          have w: "sock_writev (t_sock t) bs n = Some (WrSome k, n1)"
            using less.prems(6,8) wr WrSome by (simp add: sock_writev_def n1_def c1_def k_def Let_def)
          have k: "k \<le> length bs" by (simp add: k_def)
          have tx: "c_tx c1 = c_tx ?c @ take k pend" using k bytes(3) by (simp add: c1_def)
          have c1: "c_rx c1 = c_rx ?c" "c_end c1 = c_end ?c" "c_wr c1 = as" "c_open c1" using less.prems(8) by (simp_all add: c1_def)
          have good: "writes_ok ?c \<longrightarrow> writes_ok c1" using wr c1(3) by (auto simp: writes_ok_def)
          show ?thesis
          proof (cases "k = 0")
            case True
            have bad: "\<not> writes_ok ?c" using True ne wr WrSome by (auto simp: k_def writes_ok_def min_def split: if_splits)
            have "task_flush_loop t n = Some (-2, t, n1)"
              using Cons False iov w True by (subst task_flush_loop.simps) simp
            moreover have "flush_round X fd t n pend (-2) t n1"
              unfolding flush_round_def using less.prems tx c1 True bad
              by (intro exI [of _ 0] exI [of _ c1]) (auto simp: n1_def)
            ultimately show ?thesis by blast
          next
            case pos: False
            define s' where "s' = bs_Advance k s"
            note adv = Advance_spec [OF s(1) bytes(1) k, folded s'_def]
            note blocks = moved_on_blocks [OF adv(3)]
            have total': "m_total_size s' = length bs - k" using total_bytes [OF adv(1,2)] by simp
            have fine': "length (m_buffers s') = 3" "\<forall>x \<in> set (m_buffers s'). sb_fine x"
              using list_all2_lengthD [OF adv(3)] s(2,3) moved_on_set [OF adv(3)] moved_on_keeps(1) by (simp, metis)
            have set': "queue_settled [s] \<Longrightarrow> queue_settled [s']" and anch': "anchored (strAppData (t_cmd t)) [s']"
            proof -
              have *: "\<exists>x \<in> set (m_buffers s). moved_on x y" if "y \<in> set (m_buffers s')" for y
                using moved_on_set [OF adv(3) that] .
              show "queue_settled [s] \<Longrightarrow> queue_settled [s']" using * moved_on_keeps(2) by fastforce
              show "anchored (strAppData (t_cmd t)) [s']"
                using * moved_on_keeps(2,4) less.prems(5) Cons by (simp add: anchored_def) metis
            qed
            show ?thesis
            proof (cases "bs_Empty s'")
              case True
              then have "k = length bs" using total' k by (simp add: bs_Empty_def)
              obtain m' where m': "bs_destroy s' (n_mem n) = Some m'" "owns X (t_blocks (t\<lparr>t_queue := rest\<rparr>)) m'"
                  "same_on (X \<union> set (strAppData (t_cmd t) # r_blocks (t_recv t))) (n_mem n) m'" "queue_bytes rest m' = Some cs"
                using pop [OF blocks] by blast
              define t1 where "t1 = t\<lparr>t_queue := rest\<rparr>"
              define n2 where "n2 = n1\<lparr>n_mem := m'\<rparr>"
              have "n_mem n1 = n_mem n" by (simp add: n1_def)
              then have run: "task_flush_loop t n = task_flush_loop t1 n2"
                using Cons False iov w pos True m'(1)
                by (subst task_flush_loop.simps) (simp add: t1_def n2_def s'_def)
              obtain ret t' n' where IH: "task_flush_loop t1 n2 = Some (ret, t', n')" "flush_round X fd t1 n2 cs ret t' n'"
                using less.hyps [of n2 t1 cs] less.prems(6-8) m' rest bl anch Cons wr c1
                by (auto simp: t1_def n2_def n1_def)
              have "flush_round X fd t n pend ret t' n'"
                by (rule flush_round_trans [of X fd t1 n2 k pend ret t' n' n c1 t])
                  (use IH(2) m'(3) Cons tx c1 good bytes(3) \<open>k = length bs\<close> in \<open>simp_all add: t1_def n2_def n1_def\<close>)
              with run IH(1) show ?thesis by auto
            next
              case more: False
              define t1 where "t1 = t\<lparr>t_queue := s' # rest\<rparr>"
              have run: "task_flush_loop t n = task_flush_loop t1 n1"
                using Cons False iov w pos more by (subst task_flush_loop.simps) (simp add: t1_def s'_def)
              have b1: "queue_bytes (s' # rest) (n_mem n1) = Some (drop k pend)"
                using adv(2) bytes(2,3) k by (simp add: n1_def)
              have "owns X (t_blocks t1) (n_mem n1)" using less.prems(1) blocks Cons by (simp add: t_blocks_def t1_def n1_def)
              moreover have "queue_settled (butlast (s' # rest))" using less.prems(4) Cons set' by (cases rest) auto
              ultimately obtain ret t' n' where IH: "task_flush_loop t1 n1 = Some (ret, t', n')"
                  "flush_round X fd t1 n1 (drop k pend) ret t' n'"
                using less.hyps [of n1 t1 "drop k pend"] less.prems(6-8) b1 rest adv(1) fine' anch anch' Cons wr c1
                by (auto simp: t1_def n1_def)
              have "flush_round X fd t n pend ret t' n'"
                by (rule flush_round_trans [of X fd t1 n1 k pend ret t' n' n c1 t])
                  (use IH(2) Cons tx c1 good bytes(3) k set' in \<open>simp_all add: t1_def n1_def\<close>)
              with run IH(1) show ?thesis by auto
            qed
          qed
        qed
      qed
    qed
  qed
qed

end
