(* ===== verification/ProxyTaskReply.thy ===== *)
theory ProxyTaskReply
  imports ProxyTaskSend
begin

text \<open>
  Replies on a connection of the proxy: a reply is serialised into a sequence whose second
  buffer shows the string of the command; it is queued, sent as far as the kernel takes it,
  and what is left is copied before the string changes.
\<close>

section \<open>Making the last sequence independent\<close>

lemma Solidify_seq:
  assumes ok: "mem_ok m" "bs_ok s" and fine: "\<forall>x \<in> set (m_buffers s). sb_fine x" and bytes: "bs_bytes s m = Some bs"
    and own: "distinct (sb_blocks (m_buffers s))" "set (sb_blocks (m_buffers s)) \<subseteq> dom (m_blocks m)"
  shows "\<exists>s' m'. bs_Solidify s m = Some (s', m') \<and> bs_ok s' \<and> length (m_buffers s') = length (m_buffers s)
    \<and> (\<forall>x \<in> set (m_buffers s'). sb_fine x \<and> settled x) \<and> bs_bytes s' m' = Some bs
    \<and> mem_ok m' \<and> m_blocks m \<subseteq>\<^sub>m m_blocks m' \<and> distinct (sb_blocks (m_buffers s'))
    \<and> dom (m_blocks m') = dom (m_blocks m) \<union> set (sb_blocks (m_buffers s'))
    \<and> set (sb_blocks (m_buffers s')) \<inter> dom (m_blocks m) = set (sb_blocks (m_buffers s))"
proof (cases "m_total_size s = 0")
  case True
  have "sb_Empty x" if "x \<in> set (m_buffers s)" for x
  proof -
    have "sum_list (map sb_Remain (m_buffers s)) = 0" using True ok(2) by (simp add: bs_ok_def)
    then have "sb_Remain x = 0" using that by simp
    moreover have "sb_ptr x \<le> sb_size x" using that fine by (simp add: sb_fine_def)
    ultimately show ?thesis by (simp add: sb_Remain_def sb_Empty_def)
  qed
  with True assms show ?thesis by (intro exI [of _ s] exI [of _ m]) (auto simp: bs_Solidify_def settled_def)
next
  case False
  obtain ys m' where ys: "bs_solidify (m_buffers s) (m_count s) m = Some (ys, m')" "mem_ok m'" "m_blocks m \<subseteq>\<^sub>m m_blocks m'"
      "sb_bytes (take (m_count s) ys) m' = Some bs" "\<forall>y \<in> set ys. sb_fine y" "\<forall>y \<in> set (take (m_count s) ys). settled y"
      "length ys = length (m_buffers s)" "drop (m_count s) ys = drop (m_count s) (m_buffers s)"
      "map sb_Remain ys = map sb_Remain (m_buffers s)" "distinct (sb_blocks ys)"
      "dom (m_blocks m') = dom (m_blocks m) \<union> set (sb_blocks ys)" "set (sb_blocks ys) \<inter> dom (m_blocks m) = set (sb_blocks (m_buffers s))"
    using solidify_spec [OF ok(1) bytes [unfolded bs_bytes_def] fine own] by blast
  define s' where "s' = s\<lparr>m_buffers := ys\<rparr>"
  have "settled y" if "y \<in> set ys" for y
  proof (cases "y \<in> set (take (m_count s) ys)")
    case True
    with ys(6) show ?thesis by simp
  next
    case no: False
    have "set ys = set (take (m_count s) ys) \<union> set (drop (m_count s) ys)" by (metis append_take_drop_id set_append)
    with no that have "y \<in> set (drop (m_count s) (m_buffers s))" using ys(8) by auto
    with ok(2) show ?thesis by (auto simp: bs_ok_def settled_def sb_new_def)
  qed
  moreover have "bs_ok s'" using ok(2) ys(5,7,8,9) by (auto simp: bs_ok_def s'_def sb_fine_def)
  moreover have "bs_Solidify s m = Some (s', m')" using False ys(1) by (simp add: bs_Solidify_def s'_def)
  ultimately show ?thesis using ys by (intro exI [of _ s'] exI [of _ m']) (simp add: s'_def bs_bytes_def)
qed

text \<open>The same for the last sequence of a queue.\<close>

lemma Solidify_last:
  assumes own: "owns X (t_blocks t) m" and q: "t_queue t = q @ [s]" "queue_ok (t_queue t)" "queue_settled q"
    and bytes: "queue_bytes (t_queue t) m = Some pend"
  shows "\<exists>s' m'. bs_Solidify s m = Some (s', m') \<and> owns X (t_blocks (t\<lparr>t_queue := q @ [s']\<rparr>)) m'
    \<and> queue_ok (q @ [s']) \<and> queue_settled (q @ [s']) \<and> queue_bytes (q @ [s']) m' = Some pend
    \<and> same_on (X \<union> set (t_blocks t)) m m'"
proof -
  let ?other = "strAppData (t_cmd t) # r_blocks (t_recv t) @ q_blocks q"
  obtain bs cs where b: "queue_bytes q m = Some bs" "bs_bytes s m = Some cs" "pend = bs @ cs"
    using bytes q(1) by (auto simp: queue_bytes_append split: Option.bind_splits)
  have blocks: "t_blocks t = ?other @ sb_blocks (m_buffers s)" by (simp add: t_blocks_def q(1))
  have d: "mem_ok m" "distinct (sb_blocks (m_buffers s))" "distinct ?other" "set ?other \<inter> set (sb_blocks (m_buffers s)) = {}"
    "X \<inter> set ?other = {}" "X \<inter> set (sb_blocks (m_buffers s)) = {}"
    "dom (m_blocks m) = X \<union> set ?other \<union> set (sb_blocks (m_buffers s))"
    using own unfolding owns_def blocks by (simp_all only: distinct_append set_append Un_assoc) auto
  have s: "bs_ok s" "length (m_buffers s) = 3" "\<forall>x \<in> set (m_buffers s). sb_fine x" "queue_ok q" using q by simp_all
  have "set (sb_blocks (m_buffers s)) \<subseteq> dom (m_blocks m)" using d(7) by blast
  then obtain s' m' where s': "bs_Solidify s m = Some (s', m')" "bs_ok s'" "length (m_buffers s') = 3"
      "\<forall>x \<in> set (m_buffers s'). sb_fine x \<and> settled x" "bs_bytes s' m' = Some cs"
      "mem_ok m'" "m_blocks m \<subseteq>\<^sub>m m_blocks m'" "distinct (sb_blocks (m_buffers s'))"
      "dom (m_blocks m') = dom (m_blocks m) \<union> set (sb_blocks (m_buffers s'))"
      "set (sb_blocks (m_buffers s')) \<inter> dom (m_blocks m) = set (sb_blocks (m_buffers s))"
    using Solidify_seq [OF d(1) s(1,3) b(2) d(2)] s(2) by auto
  have same: "same_on (X \<union> set (t_blocks t)) m m'"
    using s'(7) own by (auto simp: same_on_def owns_def map_le_def)
  have "set ?other \<inter> set (sb_blocks (m_buffers s')) = {}" "X \<inter> set (sb_blocks (m_buffers s')) = {}"
  proof -
    have sub: "set ?other \<subseteq> dom (m_blocks m)" "X \<subseteq> dom (m_blocks m)" unfolding d(7) by blast+
    have *: "A \<inter> set (sb_blocks (m_buffers s')) = {}"
      if "A \<subseteq> dom (m_blocks m)" "A \<inter> set (sb_blocks (m_buffers s)) = {}" for A
      using that s'(10) by blast
    show "set ?other \<inter> set (sb_blocks (m_buffers s')) = {}" by (rule * [OF sub(1) d(4)])
    show "X \<inter> set (sb_blocks (m_buffers s')) = {}" by (rule * [OF sub(2) d(6)])
  qed
  moreover have "t_blocks (t\<lparr>t_queue := q @ [s']\<rparr>) = ?other @ sb_blocks (m_buffers s')" by (simp add: t_blocks_def)
  moreover have "dom (m_blocks m') = X \<union> set (?other @ sb_blocks (m_buffers s'))"   proof -
    have "set (sb_blocks (m_buffers s)) \<subseteq> set (sb_blocks (m_buffers s'))" using s'(10) by blast
    then show ?thesis unfolding s'(9) d(7) set_append by blast
  qed
  ultimately have "owns X (t_blocks (t\<lparr>t_queue := q @ [s']\<rparr>)) m'"
    using s'(6,8) d(3,5) by (simp only: owns_def distinct_append set_append Int_Un_distrib) simp
  moreover have "queue_bytes q m' = Some bs"
    by (rule queue_frame [OF b(1) s(4) settled_in [OF q(3)]])
      (rule same_on_mono [OF same], auto simp: blocks)
  ultimately show ?thesis using s' s(4) q(3) b(3) same
    by (intro exI [of _ s'] exI [of _ m']) (simp add: queue_bytes_append)
qed

section \<open>A reply\<close>

lemma owns_alloc:
  assumes "owns X bs m" "m_blocks m' = (m_blocks m)(m_next m \<mapsto> z)" "m_next m' = Suc (m_next m)"
  shows "owns X (m_next m # bs) m'" "same_on (X \<union> set bs) m m'"
proof -
  have "mem_ok m" "dom (m_blocks m) = X \<union> set bs" using assms(1) by (simp_all add: owns_def)
  moreover have "m_next m \<notin> dom (m_blocks m)" using mem_fresh [OF \<open>mem_ok m\<close>] by (simp add: domIff)
  ultimately have "m_next m \<notin> X" "m_next m \<notin> set bs" by auto
  with assms show "owns X (m_next m # bs) m'" "same_on (X \<union> set bs) m m'"
    by (auto simp: owns_def same_on_def mem_ok_def less_Suc_eq)
qed

definition reply_wire :: "trans_app \<Rightarrow> byte list" where
  "reply_wire msg = cmd_wire (of_int (cmd_id msg)) (str_bytes (app_data msg))"

text \<open>The command object takes the reply and is serialised.\<close>

lemma reply_serialised:
  assumes own: "owns X (t_blocks t) m"
  obtains c1 m1 c2 m2 s m3 where "cmd_Clear (t_cmd t) m = Some (c1, m1)"
    "cmd_set_app_data (str_bytes (app_data msg)) (cmd_set_cmd_id (of_int (cmd_id msg)) c1) m1 = Some (c2, m2)"
    "cmd_Serialize_bs c2 (bs_new 3) m2 = Some (Inr (True, s, m3))"
    "bs_ok s" "length (m_buffers s) = 3" "\<forall>x \<in> set (m_buffers s). sb_fine x" "bs_bytes s m3 = Some (reply_wire msg)"
    "\<forall>x \<in> set (m_buffers s). settled x \<or> sb_base x = Some (strAppData c2)"
    "owns X (t_blocks (t\<lparr>t_cmd := c2, t_queue := t_queue t @ [s]\<rparr>)) m3"
    "same_on (X \<union> set (r_blocks (t_recv t) @ q_blocks (t_queue t))) m m3"
proof -
  let ?rest = "r_blocks (t_recv t) @ q_blocks (t_queue t)" and ?ds = "str_bytes (app_data msg)"
    and ?i = "of_int (cmd_id msg) :: 16 word"
  obtain b1 m1 where b1: "str_assign (strAppData (t_cmd t)) [] m = Some (b1, m1)"
      "owns X (b1 # ?rest) m1" "same_on (X \<union> set ?rest) m m1"
    using str_assign_owns [OF own [unfolded t_blocks_def]] by blast
  obtain b2 m2 where b2: "str_assign b1 ?ds m1 = Some (b2, m2)"
      "owns X (b2 # ?rest) m2" "m_blocks m2 b2 = Some ?ds" "same_on (X \<union> set ?rest) m1 m2"
    using str_assign_owns [OF b1(2)] by blast
  define c1 where "c1 = \<lparr>uCmdId = 0, uCheck = 0, uMsgIdx = 0, strAppData = b1\<rparr>"
  define c2 where "c2 = \<lparr>uCmdId = ?i, uCheck = 0, uMsgIdx = 0, strAppData = b2\<rparr>"
  define s where "s = reply_bufs 3 (m_next m2) b2 (length ?ds)"
  have ok: "mem_ok m2" using b2(2) by (simp add: owns_def)
  obtain m3 R where m3: "cmd_Serialize_bs c2 (bs_new 3) m2 = Some (Inr (True, s, m3))"
      "m_blocks m3 = (m_blocks m2)(m_next m2 \<mapsto> take 8 (reply_wire msg) @ R)" "m_next m3 = Suc (m_next m2)"
    using Serialize_bs_result [OF ok, of c2 ?ds 3] b2(3) by (auto simp: c2_def s_def reply_wire_def)
  have "cmd_Clear (t_cmd t) m = Some (c1, m1)" using b1(1) by (simp add: cmd_Clear_def c1_def)
  moreover have "cmd_set_app_data ?ds (cmd_set_cmd_id ?i c1) m1 = Some (c2, m2)"
    using b2(1) by (simp add: cmd_set_app_data_def cmd_set_cmd_id_def c1_def c2_def)
  moreover have "bs_ok s" by (simp add: s_def reply_bufs_ok)
  moreover have "length (m_buffers s) = 3" "\<forall>x \<in> set (m_buffers s). sb_fine x"
    "\<forall>x \<in> set (m_buffers s). settled x \<or> sb_base x = Some (strAppData c2)"
    by (auto simp: s_def reply_bufs_def sb_fine_def sb_new_def settled_def c2_def)
  moreover have "bs_bytes s m3 = Some (reply_wire msg)"
  proof -
    have ne: "b2 \<noteq> m_next m2" using ok b2(3) by auto
    have "reply_wire msg = take 8 (reply_wire msg) @ ?ds" by (simp add: reply_wire_def cmd_wire_def)
    moreover have "bs_bytes s m3 = Some (take 8 (reply_wire msg) @ ?ds)" unfolding s_def
      by (rule reply_bytes [where R = R]) (use m3(2) ne b2(3) in \<open>simp_all add: reply_wire_def cmd_wire_def\<close>)
    ultimately show ?thesis by simp
  qed
  moreover have "sb_blocks (m_buffers s) = [m_next m2]"
    by (simp add: s_def reply_bufs_def sb_block_def sb_new_def)
  then have "owns X (t_blocks (t\<lparr>t_cmd := c2, t_queue := t_queue t @ [s]\<rparr>)) m3"
    by (intro owns_perm [OF owns_alloc(1) [OF b2(2) m3(2,3)]]) (simp add: t_blocks_def c2_def)
  moreover have "same_on (X \<union> set ?rest) m m3"
    using b1(3) b2(4) owns_alloc(2) [OF b2(2) m3(2,3)] by (auto simp: same_on_def)
  ultimately show ?thesis using that m3(1) by blast
qed

definition reply_round :: "nat set \<Rightarrow> int \<Rightarrow> task \<Rightarrow> net \<Rightarrow> byte list \<Rightarrow> task \<Rightarrow> net \<Rightarrow> bool" where
  "reply_round X fd t n pend t' n' \<longleftrightarrow> (\<exists>k c. k \<le> length pend
     \<and> n_conn n' = (n_conn n)(fd := c) \<and> c_tx c = c_tx (n_conn n fd) @ take k pend
     \<and> c_rx c = c_rx (n_conn n fd) \<and> c_end c = c_end (n_conn n fd) \<and> c_open c = (t_sock t' = fd)
     \<and> (t_sock t' = fd \<or> t_sock t' = -1) \<and> t_pos t' = t_pos t \<and> t_recv t' = t_recv t
     \<and> (t_sock t' = fd \<longrightarrow> queue_ok (t_queue t') \<and> queue_settled (t_queue t') \<and> queue_bytes (t_queue t') (n_mem n') = Some (drop k pend))
     \<and> owns X (t_blocks t') (n_mem n') \<and> same_on (X \<union> set (r_blocks (t_recv t))) (n_mem n) (n_mem n')
     \<and> n_mq n' = n_mq n \<and> (writes_ok (n_conn n fd) \<longrightarrow> t_sock t' = fd))"

lemma OnMQRecv_live:
  assumes own: "owns X (t_blocks t) (n_mem n)" and q: "queue_ok (t_queue t)" "queue_settled (t_queue t)"
    and bytes: "queue_bytes (t_queue t) (n_mem n) = Some pend"
    and fd: "t_sock t = fd" "0 < fd" "c_open (n_conn n fd)"
  shows "\<exists>t' n'. task_OnMQRecv e msg t n = Some (t', n') \<and> reply_round X fd t n (pend @ reply_wire msg) t' n'"
proof -
  let ?rest = "r_blocks (t_recv t) @ q_blocks (t_queue t)"
  obtain c1 m1 c2 m2 s m3 where s: "cmd_Clear (t_cmd t) (n_mem n) = Some (c1, m1)"
    "cmd_set_app_data (str_bytes (app_data msg)) (cmd_set_cmd_id (of_int (cmd_id msg)) c1) m1 = Some (c2, m2)"
    "cmd_Serialize_bs c2 (bs_new 3) m2 = Some (Inr (True, s, m3))"
    "bs_ok s" "length (m_buffers s) = 3" "\<forall>x \<in> set (m_buffers s). sb_fine x" "bs_bytes s m3 = Some (reply_wire msg)"
    "\<forall>x \<in> set (m_buffers s). settled x \<or> sb_base x = Some (strAppData c2)"
    "owns X (t_blocks (t\<lparr>t_cmd := c2, t_queue := t_queue t @ [s]\<rparr>)) m3"
    "same_on (X \<union> set ?rest) (n_mem n) m3"
    by (rule reply_serialised [OF own, of msg]) (rule that)
  obtain s0 where s0: "bs_copy 3 s m3 = Some (s, s0, m3)" "\<And>m. bs_destroy s0 m = Some m"
    using bs_copy_spec [OF s(4,5)] by blast
  define t1 where "t1 = t\<lparr>t_cmd := c2, t_queue := t_queue t @ [s]\<rparr>"
  define n1 where "n1 = n\<lparr>n_mem := m3\<rparr>"
  have "queue_bytes (t_queue t) m3 = Some pend"
    by (rule queue_frame [OF bytes q(1) settled_in [OF q(2)]]) (rule same_on_mono [OF s(10)], auto)
  then have b1: "queue_bytes (t_queue t1) (n_mem n1) = Some (pend @ reply_wire msg)"
    using s(7) by (simp add: t1_def n1_def queue_bytes_append)
  have pre: "owns X (t_blocks t1) (n_mem n1)" "queue_ok (t_queue t1)" "queue_settled (butlast (t_queue t1))"
    "anchored (strAppData (t_cmd t1)) (t_queue t1)" "t_sock t1 = fd" "c_open (n_conn n1 fd)"
    using s(4-6,8,9) q fd settled_anchored [OF q(2)] by (simp_all add: t1_def n1_def)
  obtain ret t2 n2 where f: "task_flush_loop t1 n1 = Some (ret, t2, n2)"
      "flush_round X fd t1 n1 (pend @ reply_wire msg) ret t2 n2"
    using flush_loop_spec [OF pre(1,2) b1 pre(3-5) fd(2) pre(6)] by blast
  obtain k c where k: "k \<le> length (pend @ reply_wire msg)" "ret \<in> {0, -1, -2}"
      "n_conn n2 = (n_conn n1)(fd := c)" "c_tx c = c_tx (n_conn n1 fd) @ take k (pend @ reply_wire msg)"
      "c_rx c = c_rx (n_conn n1 fd)" "c_end c = c_end (n_conn n1 fd)" "c_open c = (ret \<noteq> -1)"
      "t_sock t2 = (if ret = -1 then -1 else fd)" "t_pos t2 = t_pos t1" "t_recv t2 = t_recv t1" "t_cmd t2 = t_cmd t1"
      "queue_ok (t_queue t2)" "queue_bytes (t_queue t2) (n_mem n2) = Some (drop k (pend @ reply_wire msg))"
      "queue_settled (butlast (t_queue t2))" "owns X (t_blocks t2) (n_mem n2)"
      "same_on (X \<union> set (strAppData (t_cmd t1) # r_blocks (t_recv t1))) (n_mem n1) (n_mem n2)" "n_mq n2 = n_mq n1"
      "writes_ok (n_conn n1 fd) \<longrightarrow> ret = 0"
    using f(2) unfolding flush_round_def by blast
  have live: "\<not> task_IsTerminate t1" using pre(5) fd(2) by (simp add: task_IsTerminate_def)
  have run: "task_OnMQRecv e msg t n = do {
      (bs, t, n) \<leftarrow> (if ret < 0 then do { (t, n) \<leftarrow> task_Terminate t2 n2; Some (s0, t, n) }
        else do {
          let t = task_set_last_act_time (e_now e) t2;
          if t_queue t \<noteq> [] then do {
            let n = ep_Mod e (t_sock t) (t_pos t) {EPOLLIN, EPOLLOUT} n2;
            (b, m) \<leftarrow> bs_Solidify (last (t_queue t)) (n_mem n);
            Some (s0, t\<lparr>t_queue := butlast (t_queue t) @ [b]\<rparr>, n\<lparr>n_mem := m\<rparr>)
          } else Some (s0, t, n2)
        });
      m \<leftarrow> bs_destroy bs (n_mem n);
      Some (t, n\<lparr>n_mem := m\<rparr>) }"
    using s(1-3) s0(1) f(1) live
    by (simp add: task_OnMQRecv_def task_Response_def task_FlushSendQueue_def t1_def n1_def)
  have same: "same_on (X \<union> set (r_blocks (t_recv t))) (n_mem n) (n_mem n2)"
    using s(10) k(16) by (auto simp: same_on_def t1_def n1_def)
  show ?thesis
  proof (cases "ret < 0")
    case True
    have "\<exists>t3 n3. task_Terminate t2 n2 = Some (t3, n3) \<and> n_mem n3 = n_mem n2 \<and> n_mq n3 = n_mq n2 \<and> t_sock t3 = -1
      \<and> t_pos t3 = t_pos t2 \<and> t_recv t3 = t_recv t2 \<and> t_blocks t3 = t_blocks t2 \<and> n_conn n3 = (n_conn n1)(fd := c\<lparr>c_open := False\<rparr>)"
    proof (cases "ret = -1")
      case True
      moreover have "c\<lparr>c_open := False\<rparr> = c" using k(7) True by (cases c) simp
      ultimately show ?thesis using k(3,8) Terminate_dead [of t2 n2] by (simp add: task_IsTerminate_def)
    next
      case False
      then show ?thesis using Terminate_live [of t2 fd n2] k(3,7,8) fd(2) by (auto simp: t_blocks_def)
    qed
    then obtain t3 n3 where t3: "task_Terminate t2 n2 = Some (t3, n3)" "n_mem n3 = n_mem n2" "n_mq n3 = n_mq n2" "t_sock t3 = -1"
      "t_pos t3 = t_pos t2" "t_recv t3 = t_recv t2" "t_blocks t3 = t_blocks t2" "n_conn n3 = (n_conn n1)(fd := c\<lparr>c_open := False\<rparr>)"
      by blast
    then have "task_OnMQRecv e msg t n = Some (t3, n3)" using run True s0(2) by simp
    moreover have "reply_round X fd t n (pend @ reply_wire msg) t3 n3"
      unfolding reply_round_def using t3 k(1,4-6,9,10,15,17,18) same fd(2) True
      by (intro exI [of _ k] exI [of _ "c\<lparr>c_open := False\<rparr>"]) (simp add: t1_def n1_def)
    ultimately show ?thesis by blast
  next
    case False
    then have ret: "ret = 0" "t_sock t2 = fd" "c_open c" using k(2,7,8) by auto
    define t3 where "t3 = task_set_last_act_time (e_now e) t2"
    have t3: "t_blocks t3 = t_blocks t2" "t_queue t3 = t_queue t2" "t_sock t3 = fd" "t_pos t3 = t_pos t2" "t_recv t3 = t_recv t2"
      using ret by (simp_all add: t3_def task_set_last_act_time_def t_blocks_def)
    show ?thesis
    proof (cases "t_queue t2 = []")
      case True
      have "n2\<lparr>n_mem := n_mem n2\<rparr> = n2" by simp
      then have "task_OnMQRecv e msg t n = Some (t3, n2)" using run ret True s0(2) t3(2) by (simp add: t3_def [symmetric])
      moreover have "reply_round X fd t n (pend @ reply_wire msg) t3 n2"
        unfolding reply_round_def using t3 k(1,3-6,9,10,12,13,15,17) same ret True
        by (intro exI [of _ k] exI [of _ c]) (simp add: t1_def n1_def)
      ultimately show ?thesis by blast
    next
      case ne: False
      define q where "q = butlast (t_queue t2)"
      define l where "l = last (t_queue t2)"
      have ql: "t_queue t3 = q @ [l]" using ne t3(2) by (simp add: q_def l_def)
      obtain l' m' where l': "bs_Solidify l (n_mem n2) = Some (l', m')" "owns X (t_blocks (t3\<lparr>t_queue := q @ [l']\<rparr>)) m'"
          "queue_ok (q @ [l'])" "queue_settled (q @ [l'])" "queue_bytes (q @ [l']) m' = Some (drop k (pend @ reply_wire msg))"
          "same_on (X \<union> set (t_blocks t3)) (n_mem n2) m'"
        using Solidify_last [of X t3 "n_mem n2" q l "drop k (pend @ reply_wire msg)"] k(12-15) t3 ql by (auto simp: q_def)
      define n4 where "n4 = (ep_Mod e fd (t_pos t3) {EPOLLIN, EPOLLOUT} n2)\<lparr>n_mem := m'\<rparr>"
      define t4 where "t4 = t3\<lparr>t_queue := q @ [l']\<rparr>"
      have "n_mem (ep_Mod e fd (t_pos t3) {EPOLLIN, EPOLLOUT} n2) = n_mem n2" by (simp add: ep_Mod_def)
      then have "task_OnMQRecv e msg t n = Some (t4, n4)"
        using run ret ne s0(2) t3(2,3) ql l'(1) by (simp add: t3_def [symmetric] t4_def n4_def q_def l_def Let_def)
      moreover have "n_conn n4 = n_conn n2" "n_mq n4 = n_mq n2" by (simp_all add: n4_def ep_Mod_def)
      moreover have "same_on (X \<union> set (r_blocks (t_recv t))) (n_mem n) m'"
        using same l'(6) k(10) t3(5) by (auto simp: same_on_def t_blocks_def t1_def)
      ultimately have "reply_round X fd t n (pend @ reply_wire msg) t4 n4"
        unfolding reply_round_def using l' t3 k(1,3-6,9,10,17) ret
        by (intro exI [of _ k] exI [of _ c]) (simp add: t1_def n1_def t4_def n4_def)
      with \<open>task_OnMQRecv e msg t n = Some (t4, n4)\<close> show ?thesis by blast
    qed
  qed
qed

end
