(* ===== verification/ProxyTaskRun.thy ===== *)
theory ProxyTaskRun
  imports ProxyTaskReply
begin

text \<open>
  A connection of the proxy over its whole life: bytes arrive and are announced, replies come in,
  the kernel takes bytes and announces room, the peer closes. The two main properties are that
  the requests forwarded are the packages of the byte stream, and that the bytes sent are the
  replies in order.
\<close>

section \<open>The remaining steps\<close>

lemma OnMQRecv_dead:
  assumes own: "owns X (t_blocks t) (n_mem n)" and dead: "task_IsTerminate t"
  shows "\<exists>t' n'. task_OnMQRecv e msg t n = Some (t', n') \<and> n_conn n' = n_conn n \<and> n_mq n' = n_mq n
    \<and> t_sock t' = t_sock t \<and> t_pos t' = t_pos t \<and> t_recv t' = t_recv t \<and> owns X (t_blocks t') (n_mem n')
    \<and> same_on (X \<union> set (r_blocks (t_recv t))) (n_mem n) (n_mem n')"
proof -
  obtain c1 m1 c2 m2 s m3 where s: "cmd_Clear (t_cmd t) (n_mem n) = Some (c1, m1)"
    "cmd_set_app_data (str_bytes (app_data msg)) (cmd_set_cmd_id (of_int (cmd_id msg)) c1) m1 = Some (c2, m2)"
    "cmd_Serialize_bs c2 (bs_new 3) m2 = Some (Inr (True, s, m3))"
    "bs_ok s" "length (m_buffers s) = 3"
    "owns X (t_blocks (t\<lparr>t_cmd := c2, t_queue := t_queue t @ [s]\<rparr>)) m3"
    "same_on (X \<union> set (r_blocks (t_recv t) @ q_blocks (t_queue t))) (n_mem n) m3"
    by (rule reply_serialised [OF own, of msg]) (rule that)
  obtain s0 where s0: "bs_copy 3 s m3 = Some (s, s0, m3)" "\<And>m. bs_destroy s0 m = Some m"
    using bs_copy_spec [OF s(4,5)] by blast
  define t1 where "t1 = t\<lparr>t_cmd := c2, t_queue := t_queue t @ [s]\<rparr>"
  have d: "task_IsTerminate t1" using dead by (simp add: t1_def task_IsTerminate_def)
  have "task_OnMQRecv e msg t n = Some (t1, n\<lparr>n_mem := m3\<rparr>)"
    using s(1-3) s0 d Terminate_dead [OF d]
    by (simp add: task_OnMQRecv_def task_Response_def task_FlushSendQueue_def t1_def)
  moreover have "same_on (X \<union> set (r_blocks (t_recv t))) (n_mem n) m3" using s(7) by (auto simp: same_on_def)
  ultimately show ?thesis using s(6) by (intro exI [of _ t1] exI [of _ "n\<lparr>n_mem := m3\<rparr>"]) (simp add: t1_def)
qed

lemma Write_dead: "task_IsTerminate t \<Longrightarrow> task_OnSockWriteHdl e t n = Some (t, n)"
  by (simp add: task_OnSockWriteHdl_def task_WriteRemain_def task_FlushSendQueue_def Terminate_dead)

lemma Write_live:
  assumes own: "owns X (t_blocks t) (n_mem n)" and q: "queue_ok (t_queue t)" "queue_settled (t_queue t)"
    and bytes: "queue_bytes (t_queue t) (n_mem n) = Some pend"
    and fd: "t_sock t = fd" "0 < fd" "c_open (n_conn n fd)"
  shows "\<exists>t' n'. task_OnSockWriteHdl e t n = Some (t', n') \<and> reply_round X fd t n pend t' n'"
proof -
  have bl: "queue_settled (butlast (t_queue t))" using q(2) by (auto simp: queue_settled_def dest: in_set_butlastD)
  obtain ret t2 n2 where f: "task_flush_loop t n = Some (ret, t2, n2)" "flush_round X fd t n pend ret t2 n2"
    using flush_loop_spec [OF own q(1) bytes bl settled_anchored [OF q(2)] fd] by blast
  obtain k c where k: "k \<le> length pend" "ret \<in> {0, -1, -2}"
      "n_conn n2 = (n_conn n)(fd := c)" "c_tx c = c_tx (n_conn n fd) @ take k pend"
      "c_rx c = c_rx (n_conn n fd)" "c_end c = c_end (n_conn n fd)" "c_open c = (ret \<noteq> -1)"
      "t_sock t2 = (if ret = -1 then -1 else fd)" "t_pos t2 = t_pos t" "t_recv t2 = t_recv t"
      "queue_ok (t_queue t2)" "queue_bytes (t_queue t2) (n_mem n2) = Some (drop k pend)"
      "queue_settled (t_queue t2)" "owns X (t_blocks t2) (n_mem n2)"
      "same_on (X \<union> set (strAppData (t_cmd t) # r_blocks (t_recv t))) (n_mem n) (n_mem n2)" "n_mq n2 = n_mq n"
      "writes_ok (n_conn n fd) \<longrightarrow> ret = 0"
    using f(2) q(2) unfolding flush_round_def by blast
  have same: "same_on (X \<union> set (r_blocks (t_recv t))) (n_mem n) (n_mem n2)" using k(15) by (auto simp: same_on_def)
  have live: "\<not> task_IsTerminate t" using fd by (simp add: task_IsTerminate_def)
  show ?thesis
  proof (cases "ret < 0")
    case True
    have "\<exists>t3 n3. task_Terminate t2 n2 = Some (t3, n3) \<and> n_mem n3 = n_mem n2 \<and> n_mq n3 = n_mq n2 \<and> t_sock t3 = -1
      \<and> t_pos t3 = t_pos t2 \<and> t_recv t3 = t_recv t2 \<and> t_blocks t3 = t_blocks t2 \<and> n_conn n3 = (n_conn n)(fd := c\<lparr>c_open := False\<rparr>)"
    proof (cases "ret = -1")
      case True
      moreover have "c\<lparr>c_open := False\<rparr> = c" using k(7) True by (cases c) simp
      ultimately show ?thesis using k(3,8) Terminate_dead [of t2 n2] by (simp add: task_IsTerminate_def)
    next
      case False
      then show ?thesis using Terminate_live [of t2 fd n2] k(3,7,8) fd(2) by (auto simp: t_blocks_def)
    qed
    then obtain t3 n3 where t3: "task_Terminate t2 n2 = Some (t3, n3)" "n_mem n3 = n_mem n2" "n_mq n3 = n_mq n2" "t_sock t3 = -1"
      "t_pos t3 = t_pos t2" "t_recv t3 = t_recv t2" "t_blocks t3 = t_blocks t2" "n_conn n3 = (n_conn n)(fd := c\<lparr>c_open := False\<rparr>)"
      by blast
    then have "task_OnSockWriteHdl e t n = Some (t3, n3)"
      using f(1) live True by (simp add: task_OnSockWriteHdl_def task_WriteRemain_def task_FlushSendQueue_def)
    moreover have "reply_round X fd t n pend t3 n3"
      unfolding reply_round_def using t3 k(1,4-6,9,10,14,16,17) same fd(2) True
      by (intro exI [of _ k] exI [of _ "c\<lparr>c_open := False\<rparr>"]) simp
    ultimately show ?thesis by blast
  next
    case False
    then have ret: "ret = 0" "t_sock t2 = fd" "c_open c" using k(2,7,8) by auto
    define n3 where "n3 = (if t_queue t2 = [] then ep_Mod e fd (t_pos t2) {EPOLLIN} n2 else n2)"
    have "n_conn n3 = n_conn n2" "n_mem n3 = n_mem n2" "n_mq n3 = n_mq n2" by (simp_all add: n3_def ep_Mod_def)
    moreover have "task_OnSockWriteHdl e t n = Some (t2, n3)"
      using f(1) live ret by (simp add: task_OnSockWriteHdl_def task_WriteRemain_def task_FlushSendQueue_def n3_def)
    ultimately show ?thesis
      using k same ret unfolding reply_round_def
      by (intro exI [of _ t2] exI [of _ n3] conjI exI [of _ k] exI [of _ c]) simp_all
  qed
qed

section \<open>Reading\<close>

lemma packages_rest: "packages a = (fs, r, bad) \<Longrightarrow> packages r = ([], r, bad)"
proof (induction "length a" arbitrary: a fs rule: less_induct)
  case less
  show ?case
  proof (cases a rule: packages_cases)
    case (first l)
    then obtain gs where "packages (drop (unat l) a) = (gs, r, bad)" using less.prems by (auto split: prod.splits)
    with less.hyps [of "drop (unat l) a" gs] first show ?thesis by auto
  qed (use less.prems in auto)
qed

text \<open>What \<open>OnSockReadHdl\<close> does to a connection that has forwarded the packages of \<open>a\<close>.\<close>

definition read_round :: "'m penv \<Rightarrow> nat set \<Rightarrow> int \<Rightarrow> task \<Rightarrow> net \<Rightarrow> byte list \<Rightarrow> task \<Rightarrow> net \<Rightarrow> bool" where
  "read_round e X fd t n buf t' n' \<longleftrightarrow>
     (let x = (if task_IsTerminate t then [] else take (room buf) (c_rx (n_conn n fd)));
          (fs, rest, bad) = packages (buf @ x) in
      c_rx (n_conn n' fd) = drop (length x) (c_rx (n_conn n fd)) \<and> c_tx (n_conn n' fd) = c_tx (n_conn n fd)
      \<and> (\<forall>f. f \<noteq> fd \<or> t_sock t \<noteq> fd \<longrightarrow> n_conn n' f = n_conn n f)
      \<and> t_pos t' = t_pos t \<and> t_queue t' = t_queue t
      \<and> (if t_sock t = fd then t_sock t' = fd \<and> c_open (n_conn n' fd) \<and> \<not> bad \<or> t_sock t' = -1 \<and> \<not> c_open (n_conn n' fd)
         else t_sock t' = t_sock t)
      \<and> recv_holds (t_recv t') (n_mem n') rest \<and> owns X (t_blocks t') (n_mem n')
      \<and> same_on (X \<union> set (q_blocks (t_queue t))) (n_mem n) (n_mem n')
      \<and> n_mq n' = (n_mq n)\<lparr>pm_sent := pm_sent (n_mq n) @ concat (map (request_of e (t_pos t) (push_sks (n_mq n))) fs)\<rparr>)"

lemma Read_spec:
  assumes own: "owns X (t_blocks t) (n_mem n)" and holds: "recv_holds (t_recv t) (n_mem n) buf"
    and mq: "mq_works e (n_mq n)" and fd: "0 < fd"
    and sock: "t_sock t = fd \<and> c_open (n_conn n fd) \<or> t_sock t = -1"
  shows "\<exists>t' n'. task_OnSockReadHdl e t n = Some (t', n') \<and> read_round e X fd t n buf t' n'"
proof (cases "task_IsTerminate t")
  case True
  define t1 where "t1 = task_set_last_act_time (e_now e) t"
  have t1: "t_blocks t1 = t_blocks t" "t_recv t1 = t_recv t" "task_IsTerminate t1" "t_sock t1 = t_sock t" "t_pos t1 = t_pos t" "t_queue t1 = t_queue t"
    using True by (simp_all add: t1_def task_set_last_act_time_def t_blocks_def task_IsTerminate_def)
  have "t_sock t = -1" using sock True fd by (auto simp: task_IsTerminate_def)
  obtain t' n' where h: "task_HandleCmdMsg e t1 n = Some (t', n')" "handle_round e X t1 n buf t' n'"
    using handle_spec [of X t1 n buf e] own holds t1 mq by auto
  have "task_OnSockReadHdl e t n = Some (t', n')"
    using h(1) True by (simp add: task_OnSockReadHdl_def task_OnSockRecv_def task_Recv_def t1_def)
  moreover have "read_round e X fd t n buf t' n'"
    using h(2) True t1 \<open>t_sock t = -1\<close> fd by (auto simp: read_round_def handle_round_def Let_def split: prod.splits)
  ultimately show ?thesis by blast
next
  case False
  then have live: "t_sock t = fd" "c_open (n_conn n fd)" using sock by (auto simp: task_IsTerminate_def)
  let ?c = "n_conn n fd"
  obtain t1 n1 where r: "task_recv_loop e t n = Some (t1, n1)" "recv_round X fd t n buf t1 n1"
    using recv_loop_spec [OF own holds live(1) fd live(2)] by blast
  define x where "x = take (room buf) (c_rx ?c)"
  define gone where "gone = (length (c_rx ?c) < room buf \<and> c_end ?c \<noteq> RxAgain)"
  have r': "n_conn n1 = (n_conn n)(fd := ?c\<lparr>c_rx := drop (room buf) (c_rx ?c), c_open := \<not> gone\<rparr>)"
    "t1 = t\<lparr>t_recv := t_recv t1, t_sock := (if gone then -1 else fd)\<rparr>" "r_blocks (t_recv t1) = r_blocks (t_recv t)"
    "recv_holds (t_recv t1) (n_mem n1) (buf @ x)" "owns X (t_blocks t1) (n_mem n1)"
    "same_on (- set (r_blocks (t_recv t))) (n_mem n) (n_mem n1)" "n_mq n1 = n_mq n"
    using r(2) by (simp_all add: recv_round_def Let_def x_def gone_def)
  define t2 where "t2 = task_set_last_act_time (e_now e) t1"
  have q1: "t_queue t1 = t_queue t" "t_pos t1 = t_pos t" "t_sock t1 = (if gone then -1 else fd)"
    by (subst r'(2), simp)+
  have t2: "t_blocks t2 = t_blocks t1" "t_recv t2 = t_recv t1" "task_IsTerminate t2 = task_IsTerminate t1" "t_sock t2 = t_sock t1"
    "t_pos t2 = t_pos t" "t_queue t2 = t_queue t"
    using q1 by (simp_all add: t2_def task_set_last_act_time_def t_blocks_def task_IsTerminate_def)
  have dead: "task_IsTerminate t1 = gone" using q1(3) fd by (simp add: task_IsTerminate_def)
  obtain t' n' where h: "task_HandleCmdMsg e t2 n1 = Some (t', n')" "handle_round e X t2 n1 (buf @ x) t' n'"
    using handle_spec [of X t2 n1 "buf @ x" e] r' t2 mq dead q1(3) by auto
  have "task_OnSockReadHdl e t n = Some (t', n')"
    using h(1) r(1) False by (simp add: task_OnSockReadHdl_def task_OnSockRecv_def task_Recv_def t2_def)
  moreover have "drop (length x) (c_rx ?c) = drop (room buf) (c_rx ?c)"
    by (cases "room buf \<le> length (c_rx ?c)") (simp_all add: x_def)
  moreover have "same_on (X \<union> set (q_blocks (t_queue t))) (n_mem n) (n_mem n')"
  proof -
    have "set (r_blocks (t_recv t)) \<inter> (X \<union> set (q_blocks (t_queue t))) = {}"
      using own by (auto simp: owns_def t_blocks_def)
    then have "same_on (X \<union> set (q_blocks (t_queue t))) (n_mem n) (n_mem n1)"
      using r'(6) by (auto simp: same_on_def)
    moreover have "same_on (X \<union> set (q_blocks (t_queue t))) (n_mem n1) (n_mem n')"
      using h(2) t2 by (auto simp: handle_round_def Let_def split: prod.splits)
    ultimately show ?thesis by (rule same_on_trans)
  qed
  ultimately have "read_round e X fd t n buf t' n'"
    using h(2) r' t2 q1 live False dead fd
    by (cases "packages (buf @ x)") (auto simp: read_round_def handle_round_def Let_def x_def [symmetric])
  with \<open>task_OnSockReadHdl e t n = Some (t', n')\<close> show ?thesis by blast
qed

section \<open>The life of a connection\<close>

datatype task_event =
    Arrives "byte list"
  | Closes rx_end
  | Takes "wr_ans list"
  | Readable "nat \<Rightarrow> nat"
  | Writable
  | Reply trans_app

definition on_conn :: "int \<Rightarrow> (conn \<Rightarrow> conn) \<Rightarrow> net \<Rightarrow> net" where
  "on_conn fd f n = n\<lparr>n_conn := (n_conn n)(fd := f (n_conn n fd))\<rparr>"

fun task_on :: "'m penv \<Rightarrow> int \<Rightarrow> task_event \<Rightarrow> task \<times> net \<Rightarrow> (task \<times> net) option" where
  "task_on e fd (Arrives ds) (t, n) = Some (t, on_conn fd (\<lambda>c. c\<lparr>c_rx := c_rx c @ ds\<rparr>) n)"
| "task_on e fd (Closes r) (t, n) = Some (t, on_conn fd (\<lambda>c. c\<lparr>c_end := r\<rparr>) n)"
| "task_on e fd (Takes as) (t, n) = Some (t, on_conn fd (\<lambda>c. c\<lparr>c_wr := c_wr c @ as\<rparr>) n)"
| "task_on e fd (Readable g) (t, n) = task_OnSockReadHdl (e\<lparr>e_grant := g\<rparr>) t n"
| "task_on e fd Writable (t, n) = task_OnSockWriteHdl e t n"
| "task_on e fd (Reply msg) (t, n) = task_OnMQRecv e msg t n"

fun task_run :: "'m penv \<Rightarrow> int \<Rightarrow> task_event list \<Rightarrow> task \<times> net \<Rightarrow> (task \<times> net) option" where
  "task_run e fd [] s = Some s"
| "task_run e fd (ev # evs) s = do { s \<leftarrow> task_on e fd ev s; task_run e fd evs s }"

fun arrived :: "task_event list \<Rightarrow> byte list" where
  "arrived [] = []"
| "arrived (Arrives ds # evs) = ds @ arrived evs"
| "arrived (_ # evs) = arrived evs"

fun replied :: "task_event list \<Rightarrow> byte list" where
  "replied [] = []"
| "replied (Reply msg # evs) = reply_wire msg @ replied evs"
| "replied (_ # evs) = replied evs"

text \<open>The invariant: \<open>k\<close> bytes of the stream are taken, their packages \<open>fs\<close> forwarded, the rest
  \<open>buf\<close> is in the buffer; what was sent and \<open>pend\<close> are the replies so far.\<close>

definition task_inv :: "'m penv \<Rightarrow> nat set \<Rightarrow> int \<Rightarrow> 32 word \<Rightarrow> pmq \<Rightarrow> byte list \<Rightarrow> byte list \<Rightarrow> task \<times> net \<Rightarrow> bool" where
  "task_inv e X fd pos q0 stream out s \<longleftrightarrow> (case s of (t, n) \<Rightarrow> \<exists>k fs buf bad pend.
     k \<le> length stream \<and> c_rx (n_conn n fd) = drop k stream \<and> packages (take k stream) = (fs, buf, bad)
     \<and> recv_holds (t_recv t) (n_mem n) buf \<and> owns X (t_blocks t) (n_mem n) \<and> t_pos t = pos
     \<and> n_mq n = q0\<lparr>pm_sent := pm_sent q0 @ concat (map (request_of e pos (push_sks q0)) fs)\<rparr>
     \<and> c_tx (n_conn n fd) @ pend = out
     \<and> (t_sock t = fd \<and> c_open (n_conn n fd) \<and> \<not> bad \<and> queue_ok (t_queue t) \<and> queue_settled (t_queue t)
          \<and> queue_bytes (t_queue t) (n_mem n) = Some pend
        \<or> t_sock t = -1))"

lemma request_of_grant [simp]: "request_of (e\<lparr>e_grant := g\<rparr>) = request_of e"
  by (simp add: request_of_def fun_eq_iff Let_def)

lemma mq_works_grant [simp]: "mq_works (e\<lparr>e_grant := g\<rparr>) = mq_works e"
  by (simp add: mq_works_def fun_eq_iff)

lemma mq_works_sent [simp]: "mq_works e (q\<lparr>pm_sent := s\<rparr>) = mq_works e q"
  by (simp add: mq_works_def)

lemma reply_round_inv:
  assumes r: "reply_round X fd t n (pend @ w) t' n'"
    and rest: "k \<le> length stream" "c_rx (n_conn n fd) = drop k stream" "packages (take k stream) = (fs, buf, bad)"
      "recv_holds (t_recv t) (n_mem n) buf" "t_pos t = pos"
      "n_mq n = q0\<lparr>pm_sent := pm_sent q0 @ concat (map (request_of e pos (push_sks q0)) fs)\<rparr>"
      "c_tx (n_conn n fd) @ pend = out" "\<not> bad" "t_sock t = fd"
  shows "task_inv e X fd pos q0 stream (out @ w) (t', n')"
proof -
  obtain j c where c: "j \<le> length (pend @ w)" "n_conn n' = (n_conn n)(fd := c)"
      "c_tx c = c_tx (n_conn n fd) @ take j (pend @ w)" "c_rx c = c_rx (n_conn n fd)" "c_open c = (t_sock t' = fd)"
      "t_sock t' = fd \<or> t_sock t' = -1" "t_pos t' = t_pos t" "t_recv t' = t_recv t"
      "t_sock t' = fd \<longrightarrow> queue_ok (t_queue t') \<and> queue_settled (t_queue t') \<and> queue_bytes (t_queue t') (n_mem n') = Some (drop j (pend @ w))"
      "owns X (t_blocks t') (n_mem n')" "same_on (X \<union> set (r_blocks (t_recv t))) (n_mem n) (n_mem n')" "n_mq n' = n_mq n"
    using r unfolding reply_round_def by blast
  have "recv_holds (t_recv t') (n_mem n') buf"
    using recv_frame [OF rest(4)] c(8,11) by (auto simp: same_on_def)
  moreover have "c_tx (n_conn n' fd) @ drop j (pend @ w) = out @ w"
  proof -
    have "c_tx (n_conn n' fd) @ drop j (pend @ w) = c_tx (n_conn n fd) @ take j (pend @ w) @ drop j (pend @ w)"
      using c(2,3) by (simp only: fun_upd_same append_assoc)
    also have "\<dots> = c_tx (n_conn n fd) @ pend @ w" by (simp only: append_take_drop_id)
    finally show ?thesis using rest(7) by (metis append_assoc)
  qed
  ultimately show ?thesis unfolding task_inv_def prod.case
    by (intro exI [of _ k] exI [of _ fs] exI [of _ buf] exI [of _ bad] exI [of _ "drop j (pend @ w)"])
      (use c rest in auto)
qed

lemma task_inv_event:
  assumes inv: "task_inv e X fd pos q0 stream out s" and mq: "mq_works e q0" and fd: "0 < fd"
  shows "\<exists>s'. task_on e fd ev s = Some s' \<and> task_inv e X fd pos q0 (stream @ arrived [ev]) (out @ replied [ev]) s'"
proof -
  obtain t n where s: "s = (t, n)" by (cases s)
  obtain k fs buf bad pend where i: "k \<le> length stream" "c_rx (n_conn n fd) = drop k stream" "packages (take k stream) = (fs, buf, bad)"
     "recv_holds (t_recv t) (n_mem n) buf" "owns X (t_blocks t) (n_mem n)" "t_pos t = pos"
     "n_mq n = q0\<lparr>pm_sent := pm_sent q0 @ concat (map (request_of e pos (push_sks q0)) fs)\<rparr>"
     "c_tx (n_conn n fd) @ pend = out"
     "t_sock t = fd \<and> c_open (n_conn n fd) \<and> \<not> bad \<and> queue_ok (t_queue t) \<and> queue_settled (t_queue t)
          \<and> queue_bytes (t_queue t) (n_mem n) = Some pend
        \<or> t_sock t = -1"
    using inv unfolding s task_inv_def prod.case by blast
  have dead: "task_IsTerminate t" if "t_sock t = -1" using that by (simp add: task_IsTerminate_def)
  show ?thesis
  proof (cases ev)
    case (Arrives ds)
    have "task_inv e X fd pos q0 (stream @ arrived [ev]) out (t, n1)"
      if "n_mem n1 = n_mem n" "n_mq n1 = n_mq n" "c_tx (n_conn n1 fd) = c_tx (n_conn n fd)" "c_open (n_conn n1 fd) = c_open (n_conn n fd)"
        "c_rx (n_conn n1 fd) = c_rx (n_conn n fd) @ arrived [ev]" for n1
      unfolding task_inv_def prod.case
      by (intro exI [of _ k] exI [of _ fs] exI [of _ buf] exI [of _ bad] exI [of _ pend]) (use i that in auto)
    then show ?thesis by (simp add: s on_conn_def Arrives)
  next
    case (Closes r)
    have "task_inv e X fd pos q0 (stream @ arrived [ev]) out (t, n1)"
      if "n_mem n1 = n_mem n" "n_mq n1 = n_mq n" "c_tx (n_conn n1 fd) = c_tx (n_conn n fd)" "c_open (n_conn n1 fd) = c_open (n_conn n fd)"
        "c_rx (n_conn n1 fd) = c_rx (n_conn n fd) @ arrived [ev]" for n1
      unfolding task_inv_def prod.case
      by (intro exI [of _ k] exI [of _ fs] exI [of _ buf] exI [of _ bad] exI [of _ pend]) (use i that in auto)
    then show ?thesis by (simp add: s on_conn_def Closes)
  next
    case (Takes as)
    have "task_inv e X fd pos q0 (stream @ arrived [ev]) out (t, n1)"
      if "n_mem n1 = n_mem n" "n_mq n1 = n_mq n" "c_tx (n_conn n1 fd) = c_tx (n_conn n fd)" "c_open (n_conn n1 fd) = c_open (n_conn n fd)"
        "c_rx (n_conn n1 fd) = c_rx (n_conn n fd) @ arrived [ev]" for n1
      unfolding task_inv_def prod.case
      by (intro exI [of _ k] exI [of _ fs] exI [of _ buf] exI [of _ bad] exI [of _ pend]) (use i that in auto)
    then show ?thesis by (simp add: s on_conn_def Takes)
  next
    case (Readable g)
    obtain t' n' where r: "task_OnSockReadHdl (e\<lparr>e_grant := g\<rparr>) t n = Some (t', n')"
        "read_round (e\<lparr>e_grant := g\<rparr>) X fd t n buf t' n'"
      using Read_spec [of X t n buf "e\<lparr>e_grant := g\<rparr>" fd] i mq fd by auto
    define x where "x = (if task_IsTerminate t then [] else take (room buf) (c_rx (n_conn n fd)))"
    obtain gs rest bad' where p: "packages (buf @ x) = (gs, rest, bad')" by (cases "packages (buf @ x)")
    have r': "c_rx (n_conn n' fd) = drop (length x) (c_rx (n_conn n fd))" "c_tx (n_conn n' fd) = c_tx (n_conn n fd)"
      "t_pos t' = t_pos t" "t_queue t' = t_queue t"
      "if t_sock t = fd then t_sock t' = fd \<and> c_open (n_conn n' fd) \<and> \<not> bad' \<or> t_sock t' = -1 \<and> \<not> c_open (n_conn n' fd)
       else t_sock t' = t_sock t"
      "recv_holds (t_recv t') (n_mem n') rest" "owns X (t_blocks t') (n_mem n')"
      "same_on (X \<union> set (q_blocks (t_queue t))) (n_mem n) (n_mem n')"
      "n_mq n' = (n_mq n)\<lparr>pm_sent := pm_sent (n_mq n) @ concat (map (request_of e (t_pos t) (push_sks (n_mq n))) gs)\<rparr>"
      using r(2) p unfolding read_round_def x_def [symmetric] Let_def by simp_all
    define j where "j = k + length x"
    have x: "x = take (length x) (drop k stream)"
      using i(2) by (cases "room buf \<le> length (drop k stream)") (simp_all add: x_def min_def)
    have "length x \<le> length stream - k" using i(2) by (simp add: x_def)
    then have jl: "j \<le> length stream" using i(1) unfolding j_def by linarith
    have tj: "take j stream = take k stream @ x" unfolding j_def take_add using x by simp
    have pj: "packages (take j stream) = (fs @ gs, rest, bad')"
    proof (cases bad)
      case True
      then have "x = []" using i(9) dead by (auto simp: x_def)
      then show ?thesis using p i(3) packages_rest [OF i(3)] tj by simp
    next
      case False
      with tj i(3) p show ?thesis by (simp add: packages_append)
    qed
    have q: "queue_bytes (t_queue t') (n_mem n') = Some pend" if "t_sock t = fd" "t_sock t \<noteq> -1"
      unfolding r'(4)
      by (rule queue_frame [where B = "set (q_blocks (t_queue t))" and m = "n_mem n"])
        (use i(9) that settled_in r'(8) in \<open>auto simp: same_on_def\<close>)
    have sent: "n_mq n' = q0\<lparr>pm_sent := pm_sent q0 @ concat (map (request_of e pos (push_sks q0)) (fs @ gs))\<rparr>"
      using r'(9) i(6,7) by simp
    have rx: "c_rx (n_conn n' fd) = drop j stream" using r'(1) i(2) by (simp add: j_def add.commute)
    have "task_inv e X fd pos q0 stream out (t', n')"
      unfolding task_inv_def prod.case
      by (intro exI [of _ j] exI [of _ "fs @ gs"] exI [of _ rest] exI [of _ bad'] exI [of _ pend])
        (use jl rx pj sent r' i q fd in \<open>auto split: if_splits\<close>)
    with r(1) Readable show ?thesis by (simp add: s)
  next
    case Writable
    show ?thesis
    proof (cases "t_sock t = -1")
      case True
      with Write_dead [OF dead [OF True], of e n] inv Writable show ?thesis by (simp add: s)
    next
      case False
      with i(9) have l: "t_sock t = fd" "c_open (n_conn n fd)" "\<not> bad" "queue_ok (t_queue t)" "queue_settled (t_queue t)"
        "queue_bytes (t_queue t) (n_mem n) = Some pend" by auto
      obtain t' n' where w: "task_OnSockWriteHdl e t n = Some (t', n')" "reply_round X fd t n pend t' n'"
        using Write_live [OF i(5) l(4-6) l(1) fd l(2)] by blast
      have "task_inv e X fd pos q0 stream (out @ []) (t', n')"
        by (rule reply_round_inv [OF _ i(1-4,6-8) l(3,1)]) (use w(2) in simp)
      with w(1) Writable show ?thesis by (simp add: s)
    qed
  next
    case (Reply msg)
    show ?thesis
    proof (cases "t_sock t = -1")
      case True
      obtain t' n' where r: "task_OnMQRecv e msg t n = Some (t', n')" "n_conn n' = n_conn n" "n_mq n' = n_mq n"
          "t_sock t' = t_sock t" "t_pos t' = t_pos t" "t_recv t' = t_recv t" "owns X (t_blocks t') (n_mem n')"
          "same_on (X \<union> set (r_blocks (t_recv t))) (n_mem n) (n_mem n')"
        using OnMQRecv_dead [OF i(5) dead [OF True]] by blast
      have "recv_holds (t_recv t') (n_mem n') buf" using recv_frame [OF i(4)] r(6,8) by (auto simp: same_on_def)
      then have "task_inv e X fd pos q0 stream (out @ reply_wire msg) (t', n')"
        unfolding task_inv_def prod.case
        by (intro exI [of _ k] exI [of _ fs] exI [of _ buf] exI [of _ bad] exI [of _ "pend @ reply_wire msg"])
          (use i r True in auto)
      with r(1) Reply show ?thesis by (simp add: s)
    next
      case False
      with i(9) have l: "t_sock t = fd" "c_open (n_conn n fd)" "\<not> bad" "queue_ok (t_queue t)" "queue_settled (t_queue t)"
        "queue_bytes (t_queue t) (n_mem n) = Some pend" by auto
      obtain t' n' where w: "task_OnMQRecv e msg t n = Some (t', n')" "reply_round X fd t n (pend @ reply_wire msg) t' n'"
        using OnMQRecv_live [OF i(5) l(4-6) l(1) fd l(2)] by blast
      have "task_inv e X fd pos q0 stream (out @ reply_wire msg) (t', n')"
        by (rule reply_round_inv [OF w(2) i(1-4,6-8) l(3,1)])
      with w(1) Reply show ?thesis by (simp add: s)
    qed
  qed
qed

lemma arrived_Cons: "arrived (ev # evs) = arrived [ev] @ arrived evs"
  by (cases ev) auto

lemma replied_Cons: "replied (ev # evs) = replied [ev] @ replied evs"
  by (cases ev) auto

lemma task_inv_run:
  assumes "task_inv e X fd pos q0 stream out s" "mq_works e q0" "0 < fd"
  shows "\<exists>s'. task_run e fd evs s = Some s' \<and> task_inv e X fd pos q0 (stream @ arrived evs) (out @ replied evs) s'"
  using assms(1)
proof (induction evs arbitrary: s stream out)
  case (Cons ev evs)
  obtain s1 where s1: "task_on e fd ev s = Some s1" "task_inv e X fd pos q0 (stream @ arrived [ev]) (out @ replied [ev]) s1"
    using task_inv_event [OF Cons.prems assms(2,3)] by blast
  from Cons.IH [OF s1(2)] s1(1) show ?case
    by (simp add: arrived_Cons [of ev evs] replied_Cons [of ev evs])
qed simp

text \<open>A new connection in a memory whose other blocks are \<open>X\<close>.\<close>

lemma task_new_owns:
  assumes m: "mem_ok m0" and new: "task_new pos fd ip m0 = (t, m)"
  shows "t_pos t = pos" "t_sock t = fd" "t_queue t = []" "owns (dom (m_blocks m0)) (t_blocks t) m" "recv_holds (t_recv t) m []"
    "same_on (dom (m_blocks m0)) m0 m"
proof -
  let ?k = "m_next m0"
  have t: "t = \<lparr>t_pos = pos, t_sock = fd, t_ip = ip, t_active = 0,
      t_recv = \<lparr>rcv_base = Some ?k, rcv_size = unat MAX_CMD_LEN, rcv_own = True, rcv_solid = False, rcv_nptr = 0\<rparr>,
      t_queue = [], t_cmd = \<lparr>uCmdId = 0, uCheck = 0, uMsgIdx = 0, strAppData = Suc ?k\<rparr>\<rparr>"
    and mem: "m = m0\<lparr>m_blocks := (m_blocks m0)(?k \<mapsto> replicate (unat MAX_CMD_LEN) 0, Suc ?k \<mapsto> []), m_next := Suc (Suc ?k)\<rparr>"
    using new by (auto simp: task_new_def rcv_sized_def cmd_new_def mem_new_def mem_alloc_def)
  have k: "?k \<notin> dom (m_blocks m0)" "Suc ?k \<notin> dom (m_blocks m0)" using m by (auto simp: mem_ok_def)
  have ok: "mem_ok m" using m by (auto simp: mem mem_ok_def less_Suc_eq)
  show "t_pos t = pos" "t_sock t = fd" "t_queue t = []" by (simp_all add: t)
  show "owns (dom (m_blocks m0)) (t_blocks t) m" using k ok by (auto simp: owns_def t_blocks_def t r_blocks_def mem)
  show "recv_holds (t_recv t) m []" by (simp add: recv_holds_def t mem)
  show "same_on (dom (m_blocks m0)) m0 m" using k by (auto simp: same_on_def mem)
qed

lemma task_new_inv:
  assumes m: "mem_ok (n_mem n)" and c: "c_open (n_conn n fd)" "c_rx (n_conn n fd) = []" "c_tx (n_conn n fd) = []"
    and new: "task_new pos fd ip (n_mem n) = (t, m)"
  shows "task_inv e (dom (m_blocks (n_mem n))) fd pos (n_mq n) [] [] (t, n\<lparr>n_mem := m\<rparr>)"
  unfolding task_inv_def prod.case
  using c task_new_owns [OF m new]
  by (intro exI [of _ 0] exI [of _ "[]"] exI [of _ "[]"] exI [of _ False] exI [of _ "[]"]) (simp add: packages.simps)

section \<open>A small connection\<close>

definition sample_penv :: "string penv" where
  "sample_penv = \<lparr>e_grant = \<lambda>_. 1, e_now = 0, e_junk = {}, e_cfg = sample_cfg,
     e_zmq = \<lparr>zmq_bind = \<lambda>_. 0, zmq_connect = \<lambda>_. 0, zmq_send = \<lambda>_ m. int (length m)\<rparr>,
     e_rc = \<lparr>rc_parse = \<lambda>_. Some, rc_key_id = \<lambda>_. ''rank'', rc_trans = \<lambda>_. None, rc_ser_trans = app_data\<rparr>\<rparr>"

definition sample_net :: net where
  "sample_net = \<lparr>n_mem = mem_empty, n_conn = \<lambda>_. \<lparr>c_rx = [], c_end = RxAgain, c_tx = [], c_wr = [WrSome 5, WrAgain], c_open = True\<rparr>,
     n_epoll = [], n_mq = sample_pmq\<rparr>"

definition sample_task :: task where
  "sample_task = fst (task_new 7 5 ''127.0.0.1'' mem_empty)"

definition sample_start :: net where
  "sample_start = sample_net\<lparr>n_mem := snd (task_new 7 5 ''127.0.0.1'' mem_empty)\<rparr>"

definition sample_events :: "task_event list" where
  "sample_events = [Arrives [0, 0, 0, 10, 16, 3, 0, 0, 1], Readable (\<lambda>_. 2), Arrives [2], Readable (\<lambda>_. 1),
     Reply \<lparr>cmd_id = 0, client_pos = 7, src = '''', app_data = ''ok''\<rparr>, Writable]"

lemma sample_new: "task_new 7 5 ''127.0.0.1'' (n_mem sample_net) = (sample_task, n_mem sample_start)"
  by (simp add: sample_task_def sample_start_def sample_net_def)

lemma sample_start_eq: "sample_net\<lparr>n_mem := n_mem sample_start\<rparr> = sample_start"
  by (simp add: sample_start_def)

lemma sample_hyps: "mem_ok (n_mem sample_net)" "(0 :: int) < 5" "c_open (n_conn sample_net 5)" "c_rx (n_conn sample_net 5) = []"
  "c_tx (n_conn sample_net 5) = []" "mq_works sample_penv (n_mq sample_net)" "pm_sent (n_mq sample_net) = []" "push_sks (n_mq sample_net) = [1, 2]"
  by (simp_all add: sample_net_def mq_works_def sample_penv_def sample_pmq_def sample_cfg_def)

lemma sample_arrived: "arrived sample_events = [0, 0, 0, 10, 16, 3, 0, 0, 1, 2]"
  by (simp add: sample_events_def)

section \<open>Properties\<close>

text \<open>C6. Whatever happens on a connection, in whatever pieces the bytes come: nothing undefined
  is done, and the requests forwarded are those of the complete packages of the first \<open>k\<close> bytes
  of the stream, in order, where the other bytes still wait at the kernel and the incomplete rest
  is in the buffer. On a live connection the next event takes all bytes the buffer has room for.\<close>

theorem task_forwards_packages:
  assumes "mem_ok (n_mem n)" "0 < fd" "c_open (n_conn n fd)" "c_rx (n_conn n fd) = []" "c_tx (n_conn n fd) = []"
    "mq_works e (n_mq n)" "task_new pos fd ip (n_mem n) = (t, m)"
  shows "\<exists>t' n' k fs buf bad. task_run e fd evs (t, n\<lparr>n_mem := m\<rparr>) = Some (t', n')
    \<and> k \<le> length (arrived evs) \<and> c_rx (n_conn n' fd) = drop k (arrived evs)
    \<and> packages (take k (arrived evs)) = (fs, buf, bad) \<and> rcv_Str (t_recv t') (n_mem n') = Some buf
    \<and> pm_sent (n_mq n') = pm_sent (n_mq n) @ concat (map (request_of e pos (push_sks (n_mq n))) fs)
    \<and> (\<forall>g. \<exists>t2 n2. task_on e fd (Readable g) (t', n') = Some (t2, n2)
         \<and> (\<not> task_IsTerminate t' \<longrightarrow> c_rx (n_conn n2 fd) = drop (unat MAX_CMD_LEN - length buf) (c_rx (n_conn n' fd))))"
proof -
  let ?X = "dom (m_blocks (n_mem n))"
  obtain t' n' where run: "task_run e fd evs (t, n\<lparr>n_mem := m\<rparr>) = Some (t', n')"
      and inv: "task_inv e ?X fd pos (n_mq n) (arrived evs) (replied evs) (t', n')"
    using task_inv_run [OF task_new_inv [OF assms(1,3-5,7)] assms(6,2), where evs = evs] by auto
  obtain k fs buf bad where i: "k \<le> length (arrived evs)" "c_rx (n_conn n' fd) = drop k (arrived evs)"
     "packages (take k (arrived evs)) = (fs, buf, bad)" "recv_holds (t_recv t') (n_mem n') buf" "owns ?X (t_blocks t') (n_mem n')"
     "n_mq n' = (n_mq n)\<lparr>pm_sent := pm_sent (n_mq n) @ concat (map (request_of e pos (push_sks (n_mq n))) fs)\<rparr>"
     "t_sock t' = fd \<and> c_open (n_conn n' fd) \<or> t_sock t' = -1"
    using inv unfolding task_inv_def prod.case by blast
  have next_read: "\<exists>t2 n2. task_on e fd (Readable g) (t', n') = Some (t2, n2)
         \<and> (\<not> task_IsTerminate t' \<longrightarrow> c_rx (n_conn n2 fd) = drop (room buf) (c_rx (n_conn n' fd)))" for g
  proof -
    obtain t2 n2 where r: "task_OnSockReadHdl (e\<lparr>e_grant := g\<rparr>) t' n' = Some (t2, n2)"
        "read_round (e\<lparr>e_grant := g\<rparr>) ?X fd t' n' buf t2 n2"
      using Read_spec [of ?X t' n' buf "e\<lparr>e_grant := g\<rparr>" fd] i assms(2,6) by auto
    have "c_rx (n_conn n2 fd) = drop (room buf) (c_rx (n_conn n' fd))" if "\<not> task_IsTerminate t'"
      using r(2) that
      by (cases "room buf \<le> length (c_rx (n_conn n' fd))") (auto simp: read_round_def Let_def split: prod.splits)
    with r(1) show ?thesis by auto
  qed
  show ?thesis
    using run i next_read recv_Str [OF i(4)]
    by (intro exI [of _ t'] exI [of _ n'] exI [of _ k] exI [of _ fs] exI [of _ buf] exI [of _ bad]) simp
qed

theorem task_forwards_packages_witness:
  "\<exists>t' n' k fs buf bad. task_run sample_penv 5 sample_events (sample_task, sample_start) = Some (t', n')
    \<and> k \<le> length [0, 0, 0, 10, 16, 3, 0, 0, 1, 2 :: byte] \<and> c_rx (n_conn n' 5) = drop k [0, 0, 0, 10, 16, 3, 0, 0, 1, 2]
    \<and> packages (take k [0, 0, 0, 10, 16, 3, 0, 0, 1, 2]) = (fs, buf, bad) \<and> rcv_Str (t_recv t') (n_mem n') = Some buf
    \<and> pm_sent (n_mq n') = concat (map (request_of sample_penv 7 [1, 2]) fs)"
  using task_forwards_packages [OF sample_hyps(1-6) sample_new, of sample_events]
  unfolding sample_start_eq sample_arrived sample_hyps(7,8) append_Nil
  by (elim exE conjE) (intro exI conjI; assumption)

text \<open>C7. Whatever \<open>writev\<close> takes and answers: the bytes sent on a connection are a prefix of the
  replies in order, and on a live connection the queue holds exactly the rest. The blocks of the
  memory are those that were there before, the receive buffer, the command's string and what the
  queue owns: none is lost and none deleted twice.\<close>

theorem task_sends_replies_in_order:
  assumes "mem_ok (n_mem n)" "0 < fd" "c_open (n_conn n fd)" "c_rx (n_conn n fd) = []" "c_tx (n_conn n fd) = []"
    "mq_works e (n_mq n)" "task_new pos fd ip (n_mem n) = (t, m)"
  shows "\<exists>t' n' pend. task_run e fd evs (t, n\<lparr>n_mem := m\<rparr>) = Some (t', n')
    \<and> c_tx (n_conn n' fd) @ pend = replied evs
    \<and> (\<not> task_IsTerminate t' \<longrightarrow> queue_bytes (t_queue t') (n_mem n') = Some pend)
    \<and> distinct (t_blocks t') \<and> dom (m_blocks (n_mem n')) = dom (m_blocks (n_mem n)) \<union> set (t_blocks t')
    \<and> dom (m_blocks (n_mem n)) \<inter> set (t_blocks t') = {}"
proof -
  let ?X = "dom (m_blocks (n_mem n))"
  obtain t' n' where run: "task_run e fd evs (t, n\<lparr>n_mem := m\<rparr>) = Some (t', n')"
      and inv: "task_inv e ?X fd pos (n_mq n) (arrived evs) (replied evs) (t', n')"
    using task_inv_run [OF task_new_inv [OF assms(1,3-5,7)] assms(6,2), where evs = evs] by auto
  obtain pend where "c_tx (n_conn n' fd) @ pend = replied evs" "owns ?X (t_blocks t') (n_mem n')"
     "t_sock t' = fd \<and> queue_bytes (t_queue t') (n_mem n') = Some pend \<or> t_sock t' = -1"
    using inv unfolding task_inv_def prod.case by blast
  then show ?thesis using run
    by (intro exI [of _ t'] exI [of _ n'] exI [of _ pend]) (auto simp: owns_def task_IsTerminate_def)
qed

theorem task_sends_replies_in_order_witness:
  "\<exists>t' n' pend. task_run sample_penv 5 sample_events (sample_task, sample_start) = Some (t', n')
    \<and> c_tx (n_conn n' 5) @ pend = reply_wire \<lparr>cmd_id = 0, client_pos = 7, src = '''', app_data = ''ok''\<rparr>
    \<and> (\<not> task_IsTerminate t' \<longrightarrow> queue_bytes (t_queue t') (n_mem n') = Some pend)
    \<and> dom (m_blocks (n_mem n')) = set (t_blocks t')"
proof -
  have "replied sample_events = reply_wire \<lparr>cmd_id = 0, client_pos = 7, src = '''', app_data = ''ok''\<rparr>"
    by (simp add: sample_events_def)
  moreover have "dom (m_blocks (n_mem sample_net)) = {}" by (simp add: sample_net_def mem_empty_def)
  ultimately show ?thesis
    using task_sends_replies_in_order [OF sample_hyps(1-6) sample_new, of sample_events]
    unfolding sample_start_eq by auto
qed

end
