(* ===== verification/ProxyServer.thy ===== *)
theory ProxyServer
  imports ProxyTaskRun
begin

text \<open>
  The proxy's main loop, \<open>bis/src/proxy/server.h\<close> and \<open>server.cpp\<close>: accepting connections, the
  events of epoll, the replies of the message queue. \<open>TaskPtr\<close> is a shared pointer: the objects
  are numbered, each with its use count, and the object whose count falls to zero is destroyed;
  the map from positions to objects and the local variables of the functions hold pointers.
  The kernel's side is the list of connections that wait to be accepted, the table of the
  descriptors and its size; \<open>accept\<close> gives the lowest descriptor that is not open. The
  descriptors the process uses otherwise (the standard streams, epoll, ZeroMQ, the listening
  socket) are open in the table from the start.
\<close>

section \<open>State\<close>

text \<open>A connection that waits, and what the calls that set it up answer.\<close>

record accepted =
  ac_ip :: string
  ac_conn :: conn
  ac_getfl :: int
  ac_setfl :: int
  ac_nodelay :: int
  ac_sndbuf :: int
  ac_rcvbuf :: int
  ac_epoll :: int

record pserver =
  bLoop :: bool
  ps_sock :: int
  iPosCnt :: "32 word"
  objTaskMap :: "32 word \<Rightarrow> nat option"
  ps_objs :: "nat \<Rightarrow> (nat \<times> task) option"
  ps_next :: nat
  ps_net :: net
  ps_backlog :: "accepted list"
  ps_limit :: nat
  ps_sleeps :: nat

definition psrv_new :: "net \<Rightarrow> nat \<Rightarrow> pserver" where
  "psrv_new n limit = \<lparr>bLoop = False, ps_sock = -1, iPosCnt = 0, objTaskMap = Map.empty, ps_objs = Map.empty,
     ps_next = 0, ps_net = n, ps_backlog = [], ps_limit = limit, ps_sleeps = 0\<rparr>"

abbreviation (input) LISTEN_TASK_POS :: "32 word" where "LISTEN_TASK_POS \<equiv> 0"

section \<open>Shared pointers\<close>

definition obj_new :: "task \<Rightarrow> pserver \<Rightarrow> nat \<times> pserver" where
  "obj_new t s = (ps_next s, s\<lparr>ps_objs := (ps_objs s)(ps_next s \<mapsto> (1, t)), ps_next := Suc (ps_next s)\<rparr>)"

definition obj_copy :: "nat \<Rightarrow> pserver \<Rightarrow> pserver option" where
  "obj_copy p s = do { (c, t) \<leftarrow> ps_objs s p; Some (s\<lparr>ps_objs := (ps_objs s)(p \<mapsto> (Suc c, t))\<rparr>) }"

definition obj_release :: "nat \<Rightarrow> pserver \<Rightarrow> pserver option" where
  "obj_release p s = do {
     (c, t) \<leftarrow> ps_objs s p;
     if c = 0 then None
     else if c = 1 then do { n \<leftarrow> task_destroy t (ps_net s); Some (s\<lparr>ps_objs := (ps_objs s)(p := None), ps_net := n\<rparr>) }
     else Some (s\<lparr>ps_objs := (ps_objs s)(p \<mapsto> (c - 1, t))\<rparr>)
   }"

text \<open>A call of a method of the object.\<close>

definition on_obj :: "(task \<Rightarrow> net \<Rightarrow> (task \<times> net) option) \<Rightarrow> nat \<Rightarrow> pserver \<Rightarrow> pserver option" where
  "on_obj f p s = do {
     (c, t) \<leftarrow> ps_objs s p;
     (t, n) \<leftarrow> f t (ps_net s);
     Some (s\<lparr>ps_objs := (ps_objs s)(p \<mapsto> (c, t)), ps_net := n\<rparr>)
   }"

definition obj_IsTerminate :: "nat \<Rightarrow> pserver \<Rightarrow> bool option" where
  "obj_IsTerminate p s = do { (c, t) \<leftarrow> ps_objs s p; Some (task_IsTerminate t) }"

section \<open>The tasks\<close>

text \<open>\<open>FindTask\<close> returns a copy of the pointer.\<close>

definition psrv_FindTask :: "32 word \<Rightarrow> pserver \<Rightarrow> (nat option \<times> pserver) option" where
  "psrv_FindTask pos s =
     (case objTaskMap s pos of
        None \<Rightarrow> Some (None, s)
      | Some p \<Rightarrow> do { s \<leftarrow> obj_copy p s; Some (Some p, s) })"

definition psrv_RemoveTask_itr :: "32 word \<Rightarrow> nat \<Rightarrow> pserver \<Rightarrow> pserver option" where
  "psrv_RemoveTask_itr pos p s = do {
     dead \<leftarrow> obj_IsTerminate p s;
     s \<leftarrow> (if \<not> dead then on_obj task_Terminate p s else Some s);
     obj_release p (s\<lparr>objTaskMap := (objTaskMap s)(pos := None)\<rparr>)
   }"

definition psrv_RemoveTask :: "32 word \<Rightarrow> pserver \<Rightarrow> pserver option" where
  "psrv_RemoveTask pos s =
     (case objTaskMap s pos of None \<Rightarrow> Some s | Some p \<Rightarrow> psrv_RemoveTask_itr pos p s)"

section \<open>Replies\<close>

fun psrv_reply_loop :: "'m penv \<Rightarrow> string list \<Rightarrow> pserver \<Rightarrow> pserver option" where
  "psrv_reply_loop e [] s = Some s"
| "psrv_reply_loop e (m # ms) s =
     (case rc_trans (e_rc e) m of
        None \<Rightarrow> psrv_reply_loop e ms s
      | Some msg \<Rightarrow> do {
          (r, s) \<leftarrow> psrv_FindTask (of_int (client_pos msg)) s;
          (case r of
             None \<Rightarrow> psrv_reply_loop e ms s
           | Some p \<Rightarrow> do {
               s \<leftarrow> on_obj (task_OnMQRecv e msg) p s;
               s \<leftarrow> obj_release p s;
               psrv_reply_loop e ms s
             })
        })"

definition psrv_OnMqRecv :: "'m penv \<Rightarrow> pserver \<Rightarrow> (bool \<times> pserver) option" where
  "psrv_OnMqRecv e s =
     (let (msgs, q) = pmq_RecvMsgs (n_mq (ps_net s)); s = s\<lparr>ps_net := (ps_net s)\<lparr>n_mq := q\<rparr>\<rparr> in
      if length msgs \<le> 0 then Some (False, s)
      else do { s \<leftarrow> psrv_reply_loop e msgs s; Some (True, s) })"

section \<open>Accepting\<close>

definition sock_accept :: "pserver \<Rightarrow> (int \<times> accepted \<times> pserver) option" where
  "sock_accept s =
     (case (ps_backlog s, find (\<lambda>fd. \<not> c_open (n_conn (ps_net s) fd)) (map int [0..<ps_limit s])) of
        (a # as, Some fd) \<Rightarrow> Some (fd, a, s\<lparr>ps_backlog := as,
          ps_net := (ps_net s)\<lparr>n_conn := (n_conn (ps_net s))(fd := (ac_conn a)\<lparr>c_open := True\<rparr>)\<rparr>\<rparr>)
      | _ \<Rightarrow> None)"

definition psrv_MakeNonBlocking :: "int \<Rightarrow> int \<Rightarrow> int" where
  "psrv_MakeNonBlocking getfl setfl = (if getfl < 0 then -1 else if setfl < 0 then -1 else 0)"

definition psrv_next_pos :: "32 word \<Rightarrow> 32 word" where
  "psrv_next_pos cnt = (let cnt = cnt + 1 in if cnt = LISTEN_TASK_POS then cnt + 1 else cnt)"

text \<open>The body of the loop for one connection: whether the loop goes on. Where the setup fails the
  function returns and the descriptor stays open. \<open>insert\<close> keeps the element that is there.\<close>

definition psrv_accept_one :: "'m penv \<Rightarrow> int \<Rightarrow> accepted \<Rightarrow> pserver \<Rightarrow> (bool \<times> pserver) option" where
  "psrv_accept_one e cli_fd a s =
     (let cpos = psrv_next_pos (iPosCnt s); s = s\<lparr>iPosCnt := cpos\<rparr> in
      if psrv_MakeNonBlocking (ac_getfl a) (ac_setfl a) < 0 then Some (False, s)
      else if ac_nodelay a < 0 then Some (False, s)
      else if ac_sndbuf a < 0 then Some (False, s)
      else if ac_rcvbuf a < 0 then Some (False, s)
      else do {
        let (t, m) = task_new cpos cli_fd (ac_ip a) (n_mem (ps_net s));
        let (p, s) = obj_new t (s\<lparr>ps_net := (ps_net s)\<lparr>n_mem := m\<rparr>\<rparr>);
        let s = s\<lparr>ps_net := ep_Add e cli_fd cpos {EPOLLIN} (ps_net s)\<rparr>;
        if ac_epoll a < 0 then do {
          s \<leftarrow> on_obj task_Terminate p s;
          s \<leftarrow> obj_release p s;
          Some (False, s)
        } else do {
          s \<leftarrow> (if objTaskMap s cpos = None
                then do { s \<leftarrow> obj_copy p s; Some (s\<lparr>objTaskMap := (objTaskMap s)(cpos \<mapsto> p)\<rparr>) }
                else Some s);
          s \<leftarrow> obj_release p s;
          Some (True, s)
        }
      })"

partial_function (option) psrv_AcceptTask :: "'m penv \<Rightarrow> pserver \<Rightarrow> (int \<times> pserver) option" where
  "psrv_AcceptTask e s =
     (case sock_accept s of
        None \<Rightarrow> Some (0, s)
      | Some (fd, a, s) \<Rightarrow> do {
          (go, s) \<leftarrow> psrv_accept_one e fd a s;
          if go then psrv_AcceptTask e s else Some (-1, s)
        })"

declare psrv_AcceptTask.simps [code]

section \<open>Events\<close>

text \<open>Kick a client: the three branches for \<open>EPOLLERR\<close>, \<open>EPOLLHUP\<close> and \<open>EPOLLRDHUP\<close> differ in
  the text of the log.\<close>

definition psrv_kick :: "32 word \<Rightarrow> nat \<Rightarrow> pserver \<Rightarrow> pserver option" where
  "psrv_kick cpos p s = do { s \<leftarrow> on_obj task_Terminate p s; psrv_RemoveTask cpos s }"

definition psrv_remove_dead :: "32 word \<Rightarrow> nat \<Rightarrow> pserver \<Rightarrow> pserver option" where
  "psrv_remove_dead cpos p s = do {
     dead \<leftarrow> obj_IsTerminate p s;
     if dead then psrv_RemoveTask cpos s else Some s
   }"

definition psrv_task_event :: "'m penv \<Rightarrow> 32 word \<Rightarrow> ep_event set \<Rightarrow> nat \<Rightarrow> pserver \<Rightarrow> pserver option" where
  "psrv_task_event e cpos evs p s = do {
     s \<leftarrow> (if EPOLLOUT \<in> evs
           then do { s \<leftarrow> on_obj (task_OnSockWriteHdl e) p s; psrv_remove_dead cpos p s } else Some s);
     s \<leftarrow> (if EPOLLIN \<in> evs
           then do { s \<leftarrow> on_obj (task_OnSockReadHdl e) p s; s \<leftarrow> psrv_remove_dead cpos p s;
             (_, s) \<leftarrow> psrv_OnMqRecv e s; Some s } else Some s);
     (if EPOLLERR \<in> evs then psrv_kick cpos p s
      else if EPOLLHUP \<in> evs then psrv_kick cpos p s
      else if EPOLLRDHUP \<in> evs then psrv_kick cpos p s
      else Some s)
   }"

definition psrv_one_event :: "'m penv \<Rightarrow> 32 word \<Rightarrow> ep_event set \<Rightarrow> pserver \<Rightarrow> pserver option" where
  "psrv_one_event e cpos evs s =
     (if cpos = LISTEN_TASK_POS then
        (if EPOLLIN \<in> evs then do { (_, s) \<leftarrow> psrv_AcceptTask e s; Some s } else Some s)
      else do {
        (r, s) \<leftarrow> psrv_FindTask cpos s;
        (case r of
           None \<Rightarrow> Some s
         | Some p \<Rightarrow> do { s \<leftarrow> psrv_task_event e cpos evs p s; obj_release p s })
      })"

fun psrv_HldAllEvs :: "'m penv \<Rightarrow> (32 word \<times> ep_event set) list \<Rightarrow> pserver \<Rightarrow> pserver option" where
  "psrv_HldAllEvs e [] s = Some s"
| "psrv_HldAllEvs e ((cpos, evs) # nds) s = do { s \<leftarrow> psrv_one_event e cpos evs s; psrv_HldAllEvs e nds s }"

section \<open>Starting\<close>

text \<open>What the calls of \<open>StartListen\<close> answer. \<open>inet_pton\<close> answers 1 and the address, 0 for a text
  that is no address, and -1.\<close>

record listen_ans =
  la_epoll :: int
  la_socket :: int
  la_nodelay :: int
  la_reuse :: int
  la_getfl :: int
  la_setfl :: int
  la_pton :: "string \<Rightarrow> int \<times> 32 word"
  la_bind :: "32 word \<Rightarrow> int"
  la_listen :: int
  la_add :: int

definition psrv_Init :: "'m penv \<Rightarrow> listen_ans \<Rightarrow> pserver \<Rightarrow> int \<times> pserver" where
  "psrv_Init e la s =
     (let ret = la_epoll la in
      if ret < 0 then (ret, s)
      else let (ret, q) = pmq_Init (e_zmq e) (e_cfg e) (n_mq (ps_net s))
        in (ret, s\<lparr>ps_net := (ps_net s)\<lparr>n_mq := q\<rparr>\<rparr>))"

abbreviation (input) INADDR_ANY :: "32 word" where "INADDR_ANY \<equiv> 0"

text \<open>The address bound to is the second part of the answer.\<close>

definition psrv_StartListen :: "'m penv \<Rightarrow> string \<Rightarrow> listen_ans \<Rightarrow> pserver \<Rightarrow> int \<times> 32 word option \<times> pserver" where
  "psrv_StartListen e ip la s =
     (let (ret, s) = psrv_Init e la s in
      if ret < 0 then (ret, None, s)
      else let s = s\<lparr>ps_sock := la_socket la\<rparr> in
      if ps_sock s < 0 then (-1, None, s)
      else if la_nodelay la < 0 then (la_nodelay la, None, s)
      else if la_reuse la < 0 then (la_reuse la, None, s)
      else let ret = psrv_MakeNonBlocking (la_getfl la) (la_setfl la) in
      if ret < 0 then (ret, None, s)
      else let (ret, addr) = (if ip = '''' then (ret, INADDR_ANY)
                              else case la_pton la ip of (r, a) \<Rightarrow> (r, if r = 1 then a else 0)) in
      if ret < 0 then (ret, None, s)
      else let ret = la_bind la addr in
      if ret < 0 then (ret, None, s)
      else let ret = la_listen la in
      if ret < 0 then (ret, Some addr, s)
      else let s = s\<lparr>ps_net := ep_Add e (ps_sock s) LISTEN_TASK_POS {EPOLLIN} (ps_net s)\<rparr> in
      if la_add la \<noteq> 0 then (-1, Some addr, s)
      else (ret, Some addr, s))"

definition psrv_StopService :: "pserver \<Rightarrow> pserver" where
  "psrv_StopService s = s\<lparr>bLoop := False\<rparr>"

section \<open>The main loop\<close>

text \<open>What the rest of the world does between two rounds. A signal of \<open>main.cpp\<close> stops the loop.\<close>

datatype world_event =
    WArrives int "byte list"
  | WCloses int rx_end
  | WTakes int "wr_ans list"
  | WConnects accepted
  | WMessage string
  | WSignal

fun psrv_world :: "world_event \<Rightarrow> pserver \<Rightarrow> pserver" where
  "psrv_world (WArrives fd ds) s = s\<lparr>ps_net := on_conn fd (\<lambda>c. c\<lparr>c_rx := c_rx c @ ds\<rparr>) (ps_net s)\<rparr>"
| "psrv_world (WCloses fd r) s = s\<lparr>ps_net := on_conn fd (\<lambda>c. c\<lparr>c_end := r\<rparr>) (ps_net s)\<rparr>"
| "psrv_world (WTakes fd as) s = s\<lparr>ps_net := on_conn fd (\<lambda>c. c\<lparr>c_wr := c_wr c @ as\<rparr>) (ps_net s)\<rparr>"
| "psrv_world (WConnects a) s = s\<lparr>ps_backlog := ps_backlog s @ [a]\<rparr>"
| "psrv_world (WMessage m) s =
     s\<lparr>ps_net := (ps_net s)\<lparr>n_mq := (n_mq (ps_net s))\<lparr>pm_inbox := pm_inbox (n_mq (ps_net s)) @ [m]\<rparr>\<rparr>\<rparr>"
| "psrv_world WSignal s = psrv_StopService s"

text \<open>One round: the answer of \<open>epoll_wait\<close>, \<open>None\<close> for an error, and how many of the waiting
  bytes a \<open>recv\<close> gives.\<close>

type_synonym srv_round = "world_event list \<times> (nat \<Rightarrow> nat) \<times> (32 word \<times> ep_event set) list option"

definition psrv_round :: "'m penv \<Rightarrow> srv_round \<Rightarrow> pserver \<Rightarrow> pserver option" where
  "psrv_round e r s = (case r of (ws, g, nds) \<Rightarrow>
     let e = e\<lparr>e_grant := g\<rparr>; s = fold psrv_world ws s in
     do {
       (bWorking, s) \<leftarrow> (case nds of
           Some (nd # rest) \<Rightarrow> do { s \<leftarrow> psrv_HldAllEvs e (nd # rest) s; Some (True, s) }
         | _ \<Rightarrow> Some (False, s));
       (mq, s) \<leftarrow> psrv_OnMqRecv e s;
       let bWorking = bWorking \<or> mq;
       Some (if \<not> bWorking then s\<lparr>ps_sleeps := Suc (ps_sleeps s)\<rparr> else s)
     })"

fun psrv_loop :: "'m penv \<Rightarrow> srv_round list \<Rightarrow> pserver \<Rightarrow> pserver option" where
  "psrv_loop e [] s = Some s"
| "psrv_loop e (r # rs) s = (if bLoop s then do { s \<leftarrow> psrv_round e r s; psrv_loop e rs s } else Some s)"

definition psrv_Run :: "'m penv \<Rightarrow> string \<Rightarrow> listen_ans \<Rightarrow> srv_round list \<Rightarrow> pserver \<Rightarrow> (int \<times> pserver) option" where
  "psrv_Run e ip la rs s =
     (case psrv_StartListen e ip la s of (ret, _, s) \<Rightarrow>
        if ret < 0 then Some (ret, s)
        else do { s \<leftarrow> psrv_loop e rs (s\<lparr>bLoop := True\<rparr>); Some (ret, s) })"

end
