(* ===== verification/ProxyServerInv.thy ===== *)
theory ProxyServerInv
  imports ProxyServer
begin

text \<open>
  The invariant of the proxy's main loop: every object is used as often as pointers to it exist,
  the objects own disjoint blocks and distinct descriptors, the memory holds their blocks and no
  others. Every step keeps it and does nothing undefined.
\<close>

section \<open>The invariant\<close>

definition task_good :: "task \<Rightarrow> net \<Rightarrow> bool" where
  "task_good t n \<longleftrightarrow> distinct (t_blocks t) \<and> (\<exists>buf. recv_holds (t_recv t) (n_mem n) buf)
     \<and> (t_sock t = -1 \<or> 0 < t_sock t \<and> c_open (n_conn n (t_sock t)) \<and> queue_ok (t_queue t)
          \<and> queue_settled (t_queue t) \<and> (\<exists>pend. queue_bytes (t_queue t) (n_mem n) = Some pend))"

definition refs :: "nat list \<Rightarrow> (32 word \<Rightarrow> nat option) \<Rightarrow> nat \<Rightarrow> task \<Rightarrow> nat" where
  "refs H m p t = count_list H p + (if m (t_pos t) = Some p then 1 else 0)"

lemma refs_Cons [simp]:
  "refs (p # H) m p t = Suc (refs H m p t)" "q \<noteq> p \<Longrightarrow> refs (p # H) m q t = refs H m q t"
  by (auto simp: refs_def)

definition objs_ok :: "nat list \<Rightarrow> (32 word \<Rightarrow> nat option) \<Rightarrow> nat \<Rightarrow> (nat \<Rightarrow> (nat \<times> task) option) \<Rightarrow> bool" where
  "objs_ok H m next objs \<longleftrightarrow>
     (\<forall>p c t. objs p = Some (c, t) \<longrightarrow> p < next \<and> 0 < c \<and> c = refs H m p t)
     \<and> (\<forall>pos p. m pos = Some p \<longrightarrow> pos \<noteq> 0 \<and> (\<exists>c t. objs p = Some (c, t) \<and> t_pos t = pos))
     \<and> (\<forall>p \<in> set H. objs p \<noteq> None)"

definition apart :: "task \<Rightarrow> task \<Rightarrow> bool" where
  "apart t u \<longleftrightarrow> set (t_blocks t) \<inter> set (t_blocks u) = {} \<and> (t_sock t = t_sock u \<longrightarrow> t_sock t = -1)"

definition tasks_ok :: "(nat \<Rightarrow> (nat \<times> task) option) \<Rightarrow> net \<Rightarrow> bool" where
  "tasks_ok objs n \<longleftrightarrow>
     (\<forall>p c t. objs p = Some (c, t) \<longrightarrow> task_good t n)
     \<and> (\<forall>p c t q d u. objs p = Some (c, t) \<longrightarrow> objs q = Some (d, u) \<longrightarrow> p \<noteq> q \<longrightarrow> apart t u)
     \<and> mem_ok (n_mem n) \<and> dom (m_blocks (n_mem n)) = {b. \<exists>p c t. objs p = Some (c, t) \<and> b \<in> set (t_blocks t)}
     \<and> c_open (n_conn n 0)"

text \<open>\<open>H\<close> are the pointers local variables hold.\<close>

definition psrv_inv :: "'m penv \<Rightarrow> nat list \<Rightarrow> pserver \<Rightarrow> bool" where
  "psrv_inv e H s \<longleftrightarrow> objs_ok H (objTaskMap s) (ps_next s) (ps_objs s) \<and> tasks_ok (ps_objs s) (ps_net s)
     \<and> mq_works e (n_mq (ps_net s))"

lemma objs_okD:
  assumes "objs_ok H m next objs"
  shows "objs p = Some (c, t) \<Longrightarrow> p < next \<and> 0 < c \<and> c = refs H m p t"
    "m pos = Some p \<Longrightarrow> pos \<noteq> 0 \<and> (\<exists>c t. objs p = Some (c, t) \<and> t_pos t = pos)"
    "p \<in> set H \<Longrightarrow> \<exists>c t. objs p = Some (c, t)"
  using assms unfolding objs_ok_def by (blast, blast, fastforce)

lemma tasks_okD:
  assumes "tasks_ok objs n"
  shows "objs p = Some (c, t) \<Longrightarrow> task_good t n"
    "objs p = Some (c, t) \<Longrightarrow> objs q = Some (d, u) \<Longrightarrow> p \<noteq> q \<Longrightarrow> apart t u"
    "mem_ok (n_mem n)" "dom (m_blocks (n_mem n)) = {b. \<exists>p c t. objs p = Some (c, t) \<and> b \<in> set (t_blocks t)}"
    "c_open (n_conn n 0)"
  using assms unfolding tasks_ok_def by blast+

section \<open>One object\<close>

text \<open>The blocks of the others.\<close>

definition rest_of :: "task \<Rightarrow> net \<Rightarrow> nat set" where
  "rest_of t n = dom (m_blocks (n_mem n)) - set (t_blocks t)"

lemma owns_rest:
  assumes "tasks_ok objs n" "objs p = Some (c, t)"
  shows "owns (rest_of t n) (t_blocks t) (n_mem n)"
  using tasks_okD(1,3,4) [OF assms(1)] assms(2) by (auto simp: owns_def rest_of_def task_good_def)

text \<open>What a method of a task may do.\<close>

definition task_step :: "'m penv \<Rightarrow> task \<Rightarrow> net \<Rightarrow> task \<Rightarrow> net \<Rightarrow> bool" where
  "task_step e t n t' n' \<longleftrightarrow> t_pos t' = t_pos t \<and> (t_sock t' = t_sock t \<or> t_sock t' = -1) \<and> task_good t' n'
     \<and> owns (rest_of t n) (t_blocks t') (n_mem n') \<and> same_on (rest_of t n) (n_mem n) (n_mem n')
     \<and> (\<forall>f. f \<noteq> t_sock t \<or> t_sock t = -1 \<longrightarrow> n_conn n' f = n_conn n f) \<and> mq_works e (n_mq n')"

lemma task_good_frame:
  assumes "task_good u n" "same_on (set (t_blocks u)) (n_mem n) (n_mem n')"
    "t_sock u \<noteq> -1 \<Longrightarrow> c_open (n_conn n' (t_sock u))"
  shows "task_good u n'"
proof -
  obtain buf where "recv_holds (t_recv u) (n_mem n) buf" using assms(1) by (auto simp: task_good_def)
  moreover have "same_on (set (r_blocks (t_recv u))) (n_mem n) (n_mem n')" "same_on (set (q_blocks (t_queue u))) (n_mem n) (n_mem n')"
    using assms(2) by (auto simp: same_on_def t_blocks_def)
  ultimately show ?thesis using assms(1,3) recv_frame queue_bytes_frame unfolding task_good_def by blast
qed

text \<open>What a step of one task leaves to the others.\<close>

lemma others:
  assumes ok: "tasks_ok objs n" and p: "objs p = Some (c, t)"
  shows "objs q = Some (k, u) \<Longrightarrow> q \<noteq> p \<Longrightarrow> set (t_blocks u) \<subseteq> rest_of t n \<and> apart t u"
    "rest_of t n = {b. \<exists>q k u. objs q = Some (k, u) \<and> q \<noteq> p \<and> b \<in> set (t_blocks u)}"
proof -
  note d = tasks_okD [OF ok]
  show inside: "set (t_blocks u) \<subseteq> rest_of t n \<and> apart t u" if "objs q = Some (k, u)" "q \<noteq> p" for q k u
    using d(2) [OF p that(1)] d(4) that by (auto simp: rest_of_def apart_def)
  show "rest_of t n = {b. \<exists>q k u. objs q = Some (k, u) \<and> q \<noteq> p \<and> b \<in> set (t_blocks u)}"
  proof (intro set_eqI iffI)
    fix b assume "b \<in> rest_of t n"
    then have "b \<notin> set (t_blocks t)" "\<exists>q k u. objs q = Some (k, u) \<and> b \<in> set (t_blocks u)"
      using d(4) by (auto simp: rest_of_def)
    then show "b \<in> {b. \<exists>q k u. objs q = Some (k, u) \<and> q \<noteq> p \<and> b \<in> set (t_blocks u)}"
      using p by (metis (mono_tags, lifting) mem_Collect_eq option.inject prod.inject)
  qed (use inside in blast)
qed

lemma other_keeps:
  assumes ok: "tasks_ok objs n" and p: "objs p = Some (c, t)" and q: "objs q = Some (k, u)" "q \<noteq> p"
    and same: "same_on (rest_of t n) (n_mem n) m" "n_mem n' = m"
    and conns: "\<And>f. f \<noteq> t_sock t \<or> t_sock t = -1 \<Longrightarrow> n_conn n' f = n_conn n f"
  shows "task_good u n'"
proof -
  have in_rest: "set (t_blocks u) \<subseteq> rest_of t n" and apart: "apart t u" using others(1) [OF ok p q] by auto
  show ?thesis
  proof (rule task_good_frame [OF tasks_okD(1) [OF ok q(1)]])
    show "same_on (set (t_blocks u)) (n_mem n) (n_mem n')" using same_on_mono [OF same(1) in_rest] same(2) by simp
    assume "t_sock u \<noteq> -1"
    then have "t_sock u \<noteq> t_sock t \<or> t_sock t = -1" using apart by (auto simp: apart_def)
    then show "c_open (n_conn n' (t_sock u))"
      using conns tasks_okD(1) [OF ok q(1)] \<open>t_sock u \<noteq> -1\<close> by (simp add: task_good_def)
  qed
qed

lemma stdin_keeps:
  assumes "tasks_ok objs n" "objs p = Some (c, t)" "\<And>f. f \<noteq> t_sock t \<or> t_sock t = -1 \<Longrightarrow> n_conn n' f = n_conn n f"
  shows "c_open (n_conn n' 0)"
  using assms(3) [of 0] tasks_okD(1) [OF assms(1,2)] tasks_okD(5) [OF assms(1)] by (auto simp: task_good_def)

lemma tasks_ok_step:
  assumes ok: "tasks_ok objs n" and p: "objs p = Some (c, t)" and step: "task_step e t n t' n'"
  shows "tasks_ok (objs(p \<mapsto> (c', t'))) n'"
proof -
  have own: "owns (rest_of t n) (t_blocks t') (n_mem n')" and same: "same_on (rest_of t n) (n_mem n) (n_mem n')"
    and sock: "t_sock t' = t_sock t \<or> t_sock t' = -1" and good: "task_good t' n'"
    and conns: "\<And>f. f \<noteq> t_sock t \<or> t_sock t = -1 \<Longrightarrow> n_conn n' f = n_conn n f"
    using step by (simp_all add: task_step_def)
  have other: "task_good u n'" "apart t' u" "apart u t'" if q: "objs q = Some (k, u)" "q \<noteq> p" for q k u
    using other_keeps [OF ok p q same refl conns] others(1) [OF ok p q] own sock by (auto simp: apart_def owns_def)
  have "dom (m_blocks (n_mem n')) = rest_of t n \<union> set (t_blocks t')" "mem_ok (n_mem n')" using own by (simp_all add: owns_def)
  then show ?thesis unfolding tasks_ok_def
    using good other tasks_okD(2) [OF ok] others(2) [OF ok p] stdin_keeps [OF ok p conns]
    by (auto split: if_splits)
qed

section \<open>The methods of a task\<close>

lemma step_by_owner:
  assumes "task_good t n" "mq_works e (n_mq n')" "t_pos t' = t_pos t"
    "owns (rest_of t n) (t_blocks t') (n_mem n')" "same_on (rest_of t n) (n_mem n) (n_mem n')"
    "\<exists>buf. recv_holds (t_recv t') (n_mem n') buf"
    "t_sock t' = -1 \<or> t_sock t' = t_sock t \<and> c_open (n_conn n' (t_sock t)) \<and> queue_ok (t_queue t')
       \<and> queue_settled (t_queue t') \<and> (\<exists>pend. queue_bytes (t_queue t') (n_mem n') = Some pend)"
    "\<And>f. f \<noteq> t_sock t \<or> t_sock t = -1 \<Longrightarrow> n_conn n' f = n_conn n f"
  shows "task_step e t n t' n'"
  using assms by (auto simp: task_step_def task_good_def owns_def)

lemma live_cases:
  assumes "task_good t n"
  obtains (dead) "t_sock t = -1" "task_IsTerminate t"
  | (live) fd pend where "t_sock t = fd" "0 < fd" "\<not> task_IsTerminate t" "c_open (n_conn n fd)" "queue_ok (t_queue t)"
      "queue_settled (t_queue t)" "queue_bytes (t_queue t) (n_mem n) = Some pend"
  using assms by (auto simp: task_good_def task_IsTerminate_def)

lemma Terminate_step:
  assumes own: "owns (rest_of t n) (t_blocks t) (n_mem n)" and good: "task_good t n" and mq: "mq_works e (n_mq n)"
  shows "\<exists>t' n'. task_Terminate t n = Some (t', n') \<and> task_step e t n t' n' \<and> task_IsTerminate t' \<and> n_mq n' = n_mq n"
proof -
  obtain buf where buf: "recv_holds (t_recv t) (n_mem n) buf" using good by (auto simp: task_good_def)
  show ?thesis using good
  proof (cases rule: live_cases)
    case dead
    then have "task_step e t n t n" using buf by (intro step_by_owner [OF good mq]) (auto simp: own)
    with dead Terminate_dead show ?thesis by blast
  next
    case (live fd)
    obtain n' where n': "task_Terminate t n = Some (t\<lparr>t_sock := -1\<rparr>, n')" "n_mem n' = n_mem n" "n_mq n' = n_mq n"
        "n_conn n' = (n_conn n)(fd := (n_conn n fd)\<lparr>c_open := False\<rparr>)"
      using Terminate_live [OF live(1,2,4)] by blast
    have "task_step e t n (t\<lparr>t_sock := -1\<rparr>) n'"
      by (intro step_by_owner [OF good]) (use n' own buf live mq in \<open>auto simp: t_blocks_def\<close>)
    with n'(1,3) show ?thesis by (auto simp: task_IsTerminate_def)
  qed
qed

lemma Write_step:
  assumes own: "owns (rest_of t n) (t_blocks t) (n_mem n)" and good: "task_good t n" and mq: "mq_works e (n_mq n)"
  shows "\<exists>t' n'. task_OnSockWriteHdl e t n = Some (t', n') \<and> task_step e t n t' n'"
proof -
  obtain buf where buf: "recv_holds (t_recv t) (n_mem n) buf" using good by (auto simp: task_good_def)
  show ?thesis using good
  proof (cases rule: live_cases)
    case dead
    then have "task_step e t n t n" using buf by (intro step_by_owner [OF good mq]) (auto simp: own)
    with Write_dead [OF dead(2)] show ?thesis by blast
  next
    case (live fd pend)
    obtain t' n' where w: "task_OnSockWriteHdl e t n = Some (t', n')" "reply_round (rest_of t n) fd t n pend t' n'"
      using Write_live [OF own live(5-7,1,2,4)] by blast
    have "recv_holds (t_recv t) (n_mem n') buf"
      using w(2) recv_frame [OF buf] by (auto simp: reply_round_def same_on_def)
    then have "task_step e t n t' n'"
      by (intro step_by_owner [OF good]) (use w(2) live mq in \<open>auto simp: reply_round_def same_on_def\<close>)
    with w(1) show ?thesis by blast
  qed
qed

lemma Reply_step:
  assumes own: "owns (rest_of t n) (t_blocks t) (n_mem n)" and good: "task_good t n" and mq: "mq_works e (n_mq n)"
  shows "\<exists>t' n'. task_OnMQRecv e msg t n = Some (t', n') \<and> task_step e t n t' n' \<and> n_mq n' = n_mq n
    \<and> (\<forall>pend. t_sock t \<noteq> -1 \<longrightarrow> queue_bytes (t_queue t) (n_mem n) = Some pend \<longrightarrow>
         reply_round (rest_of t n) (t_sock t) t n (pend @ reply_wire msg) t' n')"
proof -
  obtain buf where buf: "recv_holds (t_recv t) (n_mem n) buf" using good by (auto simp: task_good_def)
  show ?thesis using good
  proof (cases rule: live_cases)
    case dead
    obtain t' n' where r: "task_OnMQRecv e msg t n = Some (t', n')" "n_conn n' = n_conn n" "n_mq n' = n_mq n"
      "t_sock t' = t_sock t" "t_pos t' = t_pos t" "t_recv t' = t_recv t" "owns (rest_of t n) (t_blocks t') (n_mem n')"
      "same_on (rest_of t n \<union> set (r_blocks (t_recv t))) (n_mem n) (n_mem n')"
      using OnMQRecv_dead [OF own dead(2)] by blast
    have "recv_holds (t_recv t) (n_mem n') buf" using r(8) recv_frame [OF buf] by (auto simp: same_on_def)
    then have "task_step e t n t' n'"
      by (intro step_by_owner [OF good]) (use r dead mq in \<open>auto simp: same_on_def\<close>)
    with r(1,3) dead(1) show ?thesis by blast
  next
    case (live fd pend)
    obtain t' n' where w: "task_OnMQRecv e msg t n = Some (t', n')" "reply_round (rest_of t n) fd t n (pend @ reply_wire msg) t' n'"
      using OnMQRecv_live [OF own live(5-7,1,2,4)] by blast
    have "recv_holds (t_recv t) (n_mem n') buf"
      using w(2) recv_frame [OF buf] by (auto simp: reply_round_def same_on_def)
    then have "task_step e t n t' n'"
      by (intro step_by_owner [OF good]) (use w(2) live mq in \<open>auto simp: reply_round_def same_on_def\<close>)
    moreover have "n_mq n' = n_mq n" using w(2) by (auto simp: reply_round_def)
    ultimately show ?thesis using w live(1,7) by auto
  qed
qed

lemma Read_step:
  assumes own: "owns (rest_of t n) (t_blocks t) (n_mem n)" and good: "task_good t n" and mq: "mq_works e (n_mq n)"
  shows "\<exists>t' n'. task_OnSockReadHdl e t n = Some (t', n') \<and> task_step e t n t' n'"
proof -
  obtain buf where buf: "recv_holds (t_recv t) (n_mem n) buf" using good by (auto simp: task_good_def)
  define fd where "fd = (if t_sock t = -1 then 1 else t_sock t)"
  have fd: "0 < fd" "t_sock t = fd \<and> c_open (n_conn n fd) \<or> t_sock t = -1" using good by (auto simp: fd_def task_good_def)
  obtain t' n' where r: "task_OnSockReadHdl e t n = Some (t', n')" "read_round e (rest_of t n) fd t n buf t' n'"
    using Read_spec [OF own buf mq fd] by blast
  define x where "x = (if task_IsTerminate t then [] else take (room buf) (c_rx (n_conn n fd)))"
  obtain fs rest bad where p: "packages (buf @ x) = (fs, rest, bad)" by (cases "packages (buf @ x)")
  have r': "t_pos t' = t_pos t" "t_queue t' = t_queue t" "recv_holds (t_recv t') (n_mem n') rest"
    "if t_sock t = fd then t_sock t' = fd \<and> c_open (n_conn n' fd) \<and> \<not> bad \<or> t_sock t' = -1 \<and> \<not> c_open (n_conn n' fd)
     else t_sock t' = t_sock t"
    "owns (rest_of t n) (t_blocks t') (n_mem n')" "same_on (rest_of t n \<union> set (q_blocks (t_queue t))) (n_mem n) (n_mem n')"
    "n_mq n' = (n_mq n)\<lparr>pm_sent := pm_sent (n_mq n) @ concat (map (request_of e (t_pos t) (push_sks (n_mq n))) fs)\<rparr>"
    "\<forall>f. f \<noteq> fd \<or> t_sock t \<noteq> fd \<longrightarrow> n_conn n' f = n_conn n f"
    using r(2) p unfolding read_round_def x_def [symmetric] Let_def by simp_all
  have same: "same_on (rest_of t n) (n_mem n) (n_mem n')" "same_on (set (q_blocks (t_queue t))) (n_mem n) (n_mem n')"
    using r'(6) by (auto simp: same_on_def)
  have sock: "t_sock t' = -1 \<or> t_sock t' = t_sock t \<and> c_open (n_conn n' (t_sock t)) \<and> queue_ok (t_queue t')
       \<and> queue_settled (t_queue t') \<and> (\<exists>pend. queue_bytes (t_queue t') (n_mem n') = Some pend)"
  proof (cases "t_sock t = -1")
    case True
    then show ?thesis using r'(4) fd by (auto simp: fd_def)
  next
    case False
    then obtain pend where "queue_ok (t_queue t)" "queue_settled (t_queue t)" "queue_bytes (t_queue t) (n_mem n) = Some pend"
      using good by (auto simp: task_good_def)
    moreover from this have "queue_bytes (t_queue t) (n_mem n') = Some pend" using queue_bytes_frame same(2) by blast
    ultimately show ?thesis using r'(2,4) False by (auto simp: fd_def)
  qed
  have "n_conn n' f = n_conn n f" if "f \<noteq> t_sock t \<or> t_sock t = -1" for f
    using r'(8) fd(1) that by (cases "t_sock t = -1") (simp_all add: fd_def)
  moreover have "mq_works e (n_mq n')" using mq r'(7) by simp
  ultimately have "task_step e t n t' n'"
    using step_by_owner [OF good _ r'(1,5) same(1) _ sock] r'(3) by blast
  with r(1) show ?thesis by blast
qed


section \<open>Pointers\<close>

lemma psrv_invD:
  assumes "psrv_inv e H s"
  shows "objs_ok H (objTaskMap s) (ps_next s) (ps_objs s)" "tasks_ok (ps_objs s) (ps_net s)" "mq_works e (n_mq (ps_net s))"
  using assms by (simp_all add: psrv_inv_def)

lemma inv_obj:
  assumes "psrv_inv e H s" "p \<in> set H \<or> objTaskMap s pos = Some p"
  obtains c t where "ps_objs s p = Some (c, t)" "task_good t (ps_net s)"
    "owns (rest_of t (ps_net s)) (t_blocks t) (n_mem (ps_net s))"
proof -
  obtain c t where p: "ps_objs s p = Some (c, t)"
    using objs_okD(2,3) [OF psrv_invD(1) [OF assms(1)]] assms(2) by blast
  with that tasks_okD(1) [OF psrv_invD(2) [OF assms(1)] p] owns_rest [OF psrv_invD(2) [OF assms(1)] p]
  show ?thesis by blast
qed

lemma on_obj_inv:
  assumes inv: "psrv_inv e H s" and p: "ps_objs s p = Some (c, t)"
    and f: "f t (ps_net s) = Some (t', n')" and step: "task_step e t (ps_net s) t' n'"
  shows "on_obj f p s = Some (s\<lparr>ps_objs := (ps_objs s)(p \<mapsto> (c, t')), ps_net := n'\<rparr>)"
    "psrv_inv e H (s\<lparr>ps_objs := (ps_objs s)(p \<mapsto> (c, t')), ps_net := n'\<rparr>)"
proof -
  show "on_obj f p s = Some (s\<lparr>ps_objs := (ps_objs s)(p \<mapsto> (c, t')), ps_net := n'\<rparr>)"
    using p f by (simp add: on_obj_def)
  have pos: "t_pos t' = t_pos t" and mq: "mq_works e (n_mq n')" using step by (simp_all add: task_step_def)
  have "objs_ok H (objTaskMap s) (ps_next s) ((ps_objs s)(p \<mapsto> (c, t')))"
    using psrv_invD(1) [OF inv] p pos unfolding objs_ok_def refs_def by (auto split: if_splits) force+
  with tasks_ok_step [OF psrv_invD(2) [OF inv] p step] mq
  show "psrv_inv e H (s\<lparr>ps_objs := (ps_objs s)(p \<mapsto> (c, t')), ps_net := n'\<rparr>)" by (simp add: psrv_inv_def)
qed

text \<open>The use count does not matter to the tasks.\<close>

lemma objs_ok_count:
  assumes o: "objs_ok H m next objs" and p: "objs p = Some (c, t)"
    and c': "0 < c'" "c' = refs H' m p t" and H': "\<And>q u. q \<noteq> p \<Longrightarrow> refs H' m q u = refs H m q u" "set H' \<subseteq> insert p (set H)"
  shows "objs_ok H' m next (objs(p \<mapsto> (c', t)))"
  unfolding objs_ok_def
proof (intro conjI allI impI ballI)
  fix pos q assume "m pos = Some q"
  then show "pos \<noteq> 0" "\<exists>c u. (objs(p \<mapsto> (c', t))) q = Some (c, u) \<and> t_pos u = pos"
    using objs_okD(2) [OF o, of pos q] p by auto
next
  fix q k u assume "(objs(p \<mapsto> (c', t))) q = Some (k, u)"
  then show "q < next" "0 < k" "k = refs H' m q u"
    using objs_okD(1) [OF o p] objs_okD(1) [OF o, of q k u] c' H'(1) [of q] by (auto split: if_splits)
next
  fix q assume "q \<in> set H'"
  then show "(objs(p \<mapsto> (c', t))) q \<noteq> None" using H'(2) objs_okD(3) [OF o, of q] by auto
qed

lemma tasks_ok_count: "tasks_ok objs n \<Longrightarrow> objs p = Some (c, t) \<Longrightarrow> tasks_ok (objs(p \<mapsto> (c', t))) n"
  unfolding tasks_ok_def by (auto split: if_splits) (metis option.inject prod.inject)+

lemma obj_copy_inv:
  assumes inv: "psrv_inv e H s" and p: "ps_objs s p = Some (c, t)"
  shows "obj_copy p s = Some (s\<lparr>ps_objs := (ps_objs s)(p \<mapsto> (Suc c, t))\<rparr>)"
    "psrv_inv e (p # H) (s\<lparr>ps_objs := (ps_objs s)(p \<mapsto> (Suc c, t))\<rparr>)"
proof -
  show "obj_copy p s = Some (s\<lparr>ps_objs := (ps_objs s)(p \<mapsto> (Suc c, t))\<rparr>)" using p by (simp add: obj_copy_def)
  note o = psrv_invD(1) [OF inv]
  have "objs_ok (p # H) (objTaskMap s) (ps_next s) ((ps_objs s)(p \<mapsto> (Suc c, t)))"
    by (rule objs_ok_count [OF o p]) (use objs_okD(1) [OF o p] in auto)
  with tasks_ok_count [OF psrv_invD(2) [OF inv] p] psrv_invD(3) [OF inv]
  show "psrv_inv e (p # H) (s\<lparr>ps_objs := (ps_objs s)(p \<mapsto> (Suc c, t))\<rparr>)" by (simp add: psrv_inv_def)
qed

text \<open>Destroying a task gives back its blocks and its descriptor.\<close>

lemma destroys_owns:
  assumes "owns X (q_blocks q @ bs) m"
  shows "\<exists>m'. bs_destroys q m = Some m' \<and> owns X bs m' \<and> same_on (X \<union> set bs) m m'"
  using assms
proof (induction q arbitrary: m)
  case (Cons s q)
  obtain m1 where m1: "bs_destroy s m = Some m1" "owns X (q_blocks q @ bs) m1" "same_on (X \<union> set (q_blocks q @ bs)) m m1"
    using bs_destroy_owns [of X s "q_blocks q @ bs" m] Cons.prems by auto
  obtain m2 where m2: "bs_destroys q m1 = Some m2" "owns X bs m2" "same_on (X \<union> set bs) m1 m2"
    using Cons.IH [OF m1(2)] by blast
  with m1(1,3) show ?case by (auto simp: same_on_def)
qed simp

lemma delete_owns:
  assumes "owns X (b # bs) m"
  shows "\<exists>m'. mem_delete (Some b) m = Some m' \<and> owns X bs m' \<and> same_on (X \<union> set bs) m m'"
proof -
  have "m_blocks m b \<noteq> None" using assms by (auto simp: owns_def)
  moreover have "m_blocks m |` (- {b}) = (m_blocks m)(b := None)" by (auto simp: restrict_map_def fun_eq_iff)
  ultimately show ?thesis using owns_delete [of X "[b]" bs m] assms by simp
qed

lemma destroy_spec:
  assumes own: "owns X (t_blocks t) (n_mem n)" and good: "task_good t n"
  shows "\<exists>n'. task_destroy t n = Some n' \<and> owns X [] (n_mem n') \<and> same_on X (n_mem n) (n_mem n') \<and> n_mq n' = n_mq n
    \<and> (\<forall>f. f \<noteq> t_sock t \<or> t_sock t = -1 \<longrightarrow> n_conn n' f = n_conn n f)"
proof -
  obtain b where r: "r_blocks (t_recv t) = [b]" "rcv_base (t_recv t) = Some b" "rcv_own (t_recv t)"
    using good by (auto simp: task_good_def recv_holds_def r_blocks_def)
  obtain n1 where n1: "(if \<not> task_IsTerminate t then sock_close (t_sock t) n else Some n) = Some n1"
      "n_mem n1 = n_mem n" "n_mq n1 = n_mq n" "\<And>f. f \<noteq> t_sock t \<or> t_sock t = -1 \<Longrightarrow> n_conn n1 f = n_conn n f"
    using good by (cases rule: live_cases) (auto simp: sock_close_def)
  obtain m1 where m1: "mem_delete (Some (strAppData (t_cmd t))) (n_mem n) = Some m1" "owns X ([b] @ q_blocks (t_queue t)) m1"
      "same_on X (n_mem n) m1"
    using delete_owns [OF own [unfolded t_blocks_def]] r(1) by (auto simp: same_on_def)
  have "owns X (q_blocks (t_queue t) @ [b]) m1" by (rule owns_perm [OF m1(2)]) simp
  then obtain m2 where m2: "bs_destroys (t_queue t) m1 = Some m2" "owns X [b] m2" "same_on X m1 m2"
    using destroys_owns [of X "t_queue t" "[b]" m1] by (auto simp: same_on_def)
  obtain m3 where m3: "mem_delete (Some b) m2 = Some m3" "owns X [] m3" "same_on X m2 m3"
    using delete_owns [OF m2(2)] by auto
  have "task_destroy t n = Some (n1\<lparr>n_mem := m3\<rparr>)"
    using n1(1,2) m1(1) m2(1) m3(1) r(2,3) by (simp add: task_destroy_def rcv_destroy_def del: mem_delete.simps)
  moreover have "same_on X (n_mem n) m3" using m1(3) m2(3) m3(3) by (auto simp: same_on_def)
  ultimately show ?thesis using m3(2) n1(3,4) by (intro exI [of _ "n1\<lparr>n_mem := m3\<rparr>"]) simp
qed


text \<open>An object without a use is destroyed, and with it what it owns.\<close>

lemma tasks_ok_drop:
  assumes ok: "tasks_ok objs n" and p: "objs p = Some (c, t)"
    and own: "owns (rest_of t n) [] (n_mem n')" and same: "same_on (rest_of t n) (n_mem n) (n_mem n')"
    and conns: "\<And>f. f \<noteq> t_sock t \<or> t_sock t = -1 \<Longrightarrow> n_conn n' f = n_conn n f"
  shows "tasks_ok (objs(p := None)) n'"
proof -
  have "dom (m_blocks (n_mem n')) = rest_of t n" "mem_ok (n_mem n')" using own by (simp_all add: owns_def)
  then show ?thesis unfolding tasks_ok_def
    using other_keeps [OF ok p _ _ same refl conns] tasks_okD(2) [OF ok] others(2) [OF ok p] stdin_keeps [OF ok p conns]
    by (auto split: if_splits)
qed

lemma obj_release_inv:
  assumes inv: "psrv_inv e (p # H) s"
  shows "\<exists>s'. obj_release p s = Some s' \<and> psrv_inv e H s' \<and> objTaskMap s' = objTaskMap s
    \<and> n_mq (ps_net s') = n_mq (ps_net s) \<and> ps_backlog s' = ps_backlog s
    \<and> (\<forall>c t. ps_objs s p = Some (c, t) \<longrightarrow> 1 < c \<longrightarrow> s' = s\<lparr>ps_objs := (ps_objs s)(p \<mapsto> (c - 1, t))\<rparr>)"
proof -
  note o = psrv_invD(1) [OF inv]
  obtain c t where p: "ps_objs s p = Some (c, t)" "task_good t (ps_net s)"
      "owns (rest_of t (ps_net s)) (t_blocks t) (n_mem (ps_net s))"
    using inv_obj [OF inv, of p] by auto
  have c: "0 < c" "c = Suc (refs H (objTaskMap s) p t)" using objs_okD(1) [OF o p(1)] by (simp_all add: refs_def)
  show ?thesis
  proof (cases "c = 1")
    case True
    obtain n' where n': "task_destroy t (ps_net s) = Some n'" "owns (rest_of t (ps_net s)) [] (n_mem n')"
        "same_on (rest_of t (ps_net s)) (n_mem (ps_net s)) (n_mem n')" "n_mq n' = n_mq (ps_net s)"
        "\<And>f. f \<noteq> t_sock t \<or> t_sock t = -1 \<Longrightarrow> n_conn n' f = n_conn (ps_net s) f"
      using destroy_spec [OF p(3,2)] by blast
    have none: "count_list H p = 0" "objTaskMap s pos \<noteq> Some p" for pos
      using c True objs_okD(2) [OF o, of pos p] p(1) by (auto simp: refs_def split: if_splits)
    have "p \<notin> set H" using none(1) by (simp add: count_list_0_iff)
    then have "objs_ok H (objTaskMap s) (ps_next s) ((ps_objs s)(p := None))"
      using o none(2) unfolding objs_ok_def by (auto simp: refs_Cons(2)) force+
    then have "psrv_inv e H (s\<lparr>ps_objs := (ps_objs s)(p := None), ps_net := n'\<rparr>)"
      using tasks_ok_drop [OF psrv_invD(2) [OF inv] p(1) n'(2,3,5)] n'(4) psrv_invD(3) [OF inv] by (simp add: psrv_inv_def)
    moreover have "obj_release p s = Some (s\<lparr>ps_objs := (ps_objs s)(p := None), ps_net := n'\<rparr>)"
      using p(1) True n'(1) by (simp add: obj_release_def)
    ultimately show ?thesis using p(1) True n'(4) by auto
  next
    case False
    have "objs_ok H (objTaskMap s) (ps_next s) ((ps_objs s)(p \<mapsto> (c - 1, t)))"
      by (rule objs_ok_count [OF o p(1)]) (use c False in auto)
    then have "psrv_inv e H (s\<lparr>ps_objs := (ps_objs s)(p \<mapsto> (c - 1, t))\<rparr>)"
      using tasks_ok_count [OF psrv_invD(2) [OF inv] p(1)] psrv_invD(3) [OF inv] by (simp add: psrv_inv_def)
    moreover have "obj_release p s = Some (s\<lparr>ps_objs := (ps_objs s)(p \<mapsto> (c - 1, t))\<rparr>)"
      using p(1) c False by (simp add: obj_release_def)
    ultimately show ?thesis using p(1) by auto
  qed
qed


section \<open>The map\<close>

lemma inv_unmap:
  assumes inv: "psrv_inv e H s" and p: "objTaskMap s pos = Some p"
  shows "psrv_inv e (p # H) (s\<lparr>objTaskMap := (objTaskMap s)(pos := None)\<rparr>)"
proof -
  note o = psrv_invD(1) [OF inv]
  obtain c t where t: "ps_objs s p = Some (c, t)" "t_pos t = pos" using objs_okD(2) [OF o p] by blast
  have "objs_ok (p # H) ((objTaskMap s)(pos := None)) (ps_next s) (ps_objs s)"
    unfolding objs_ok_def
  proof (intro conjI allI impI ballI)
    fix pos' q assume "((objTaskMap s)(pos := None)) pos' = Some q"
    then show "pos' \<noteq> 0" "\<exists>c u. ps_objs s q = Some (c, u) \<and> t_pos u = pos'"
      using objs_okD(2) [OF o, of pos' q] by (auto split: if_splits)
  next
    fix q k u assume q: "ps_objs s q = Some (k, u)"
    show "q < ps_next s" "0 < k" using objs_okD(1) [OF o q] by auto
    have "q = p \<longleftrightarrow> objTaskMap s pos = Some q" using p by auto
    then show "k = refs (p # H) ((objTaskMap s)(pos := None)) q u"
      using objs_okD(1) [OF o q] t q p by (cases "q = p") (auto simp: refs_def)
  next
    fix q assume "q \<in> set (p # H)"
    then show "ps_objs s q \<noteq> None" using objs_okD(3) [OF o, of q] t(1) by auto
  qed
  then show ?thesis using inv by (simp add: psrv_inv_def)
qed

lemma inv_map:
  assumes inv: "psrv_inv e (p # H) s" and t: "ps_objs s p = Some (c, t)" "objTaskMap s (t_pos t) = None" "t_pos t \<noteq> 0"
  shows "psrv_inv e H (s\<lparr>objTaskMap := (objTaskMap s)(t_pos t \<mapsto> p)\<rparr>)"
proof -
  note o = psrv_invD(1) [OF inv]
  have none: "objTaskMap s pos \<noteq> Some p" for pos
    using objs_okD(2) [OF o, of pos p] t by auto
  have "objs_ok H ((objTaskMap s)(t_pos t \<mapsto> p)) (ps_next s) (ps_objs s)"
    unfolding objs_ok_def
  proof (intro conjI allI impI ballI)
    fix pos' q assume "((objTaskMap s)(t_pos t \<mapsto> p)) pos' = Some q"
    then show "pos' \<noteq> 0" "\<exists>c u. ps_objs s q = Some (c, u) \<and> t_pos u = pos'"
      using objs_okD(2) [OF o, of pos' q] t by (auto split: if_splits)
  next
    fix q k u assume q: "ps_objs s q = Some (k, u)"
    show "q < ps_next s" "0 < k" using objs_okD(1) [OF o q] by auto
    show "k = refs H ((objTaskMap s)(t_pos t \<mapsto> p)) q u"
      using objs_okD(1) [OF o q] t q none [of "t_pos u"] by (cases "q = p") (auto simp: refs_def)
  next
    fix q assume "q \<in> set H"
    then show "ps_objs s q \<noteq> None" using objs_okD(3) [OF o, of q] by auto
  qed
  then show ?thesis using inv by (simp add: psrv_inv_def)
qed

lemma FindTask_inv:
  assumes "psrv_inv e H s"
  shows "objTaskMap s pos = None \<and> psrv_FindTask pos s = Some (None, s)
    \<or> (\<exists>p c t. objTaskMap s pos = Some p \<and> ps_objs s p = Some (c, t)
        \<and> psrv_FindTask pos s = Some (Some p, s\<lparr>ps_objs := (ps_objs s)(p \<mapsto> (Suc c, t))\<rparr>)
        \<and> psrv_inv e (p # H) (s\<lparr>ps_objs := (ps_objs s)(p \<mapsto> (Suc c, t))\<rparr>))"
proof (cases "objTaskMap s pos")
  case (Some p)
  then obtain c t where "ps_objs s p = Some (c, t)" using inv_obj [OF assms] by metis
  with obj_copy_inv [OF assms this] Some show ?thesis by (simp add: psrv_FindTask_def)
qed (simp add: psrv_FindTask_def)

lemma Terminate_inv:
  assumes inv: "psrv_inv e H s" and p: "p \<in> set H \<or> objTaskMap s pos = Some p"
  shows "\<exists>s'. on_obj task_Terminate p s = Some s' \<and> psrv_inv e H s' \<and> objTaskMap s' = objTaskMap s
    \<and> n_mq (ps_net s') = n_mq (ps_net s) \<and> ps_backlog s' = ps_backlog s"
proof -
  obtain c t where t: "ps_objs s p = Some (c, t)" "task_good t (ps_net s)"
      "owns (rest_of t (ps_net s)) (t_blocks t) (n_mem (ps_net s))"
    using inv_obj [OF inv p] by blast
  obtain t' n' where "task_Terminate t (ps_net s) = Some (t', n')" "task_step e t (ps_net s) t' n'" "n_mq n' = n_mq (ps_net s)"
    using Terminate_step [OF t(3,2) psrv_invD(3) [OF inv]] by blast
  with on_obj_inv [OF inv t(1), of task_Terminate] show ?thesis by simp
qed

lemma RemoveTask_inv:
  assumes inv: "psrv_inv e H s"
  shows "\<exists>s'. psrv_RemoveTask pos s = Some s' \<and> psrv_inv e H s' \<and> n_mq (ps_net s') = n_mq (ps_net s)
    \<and> objTaskMap s' = (objTaskMap s)(pos := None)"
proof (cases "objTaskMap s pos")
  case None
  then show ?thesis using inv by (auto simp: psrv_RemoveTask_def fun_upd_idem)
next
  case (Some p)
  then obtain c t where t: "ps_objs s p = Some (c, t)" using inv_obj [OF inv] by metis
  obtain s1 where s1: "(if \<not> task_IsTerminate t then on_obj task_Terminate p s else Some s) = Some s1" "psrv_inv e H s1"
      "objTaskMap s1 = objTaskMap s" "n_mq (ps_net s1) = n_mq (ps_net s)"
    using Terminate_inv [OF inv, of p pos] Some inv by (cases "task_IsTerminate t") auto
  have "psrv_inv e (p # H) (s1\<lparr>objTaskMap := (objTaskMap s1)(pos := None)\<rparr>)"
    by (rule inv_unmap [OF s1(2)]) (simp add: Some s1(3))
  from obj_release_inv [OF this] obtain s2 where "obj_release p (s1\<lparr>objTaskMap := (objTaskMap s1)(pos := None)\<rparr>) = Some s2"
      "psrv_inv e H s2" "objTaskMap s2 = (objTaskMap s)(pos := None)" "n_mq (ps_net s2) = n_mq (ps_net s)"
    using s1(3,4) by auto
  then show ?thesis using Some t s1(1)
    by (simp add: psrv_RemoveTask_def psrv_RemoveTask_itr_def obj_IsTerminate_def)
qed

section \<open>Replies\<close>

lemma on_obj_reply:
  assumes inv: "psrv_inv e H s" and p: "p \<in> set H"
  shows "\<exists>s'. on_obj (task_OnMQRecv e msg) p s = Some s' \<and> psrv_inv e H s' \<and> objTaskMap s' = objTaskMap s"
proof -
  obtain c t where t: "ps_objs s p = Some (c, t)" "task_good t (ps_net s)"
      "owns (rest_of t (ps_net s)) (t_blocks t) (n_mem (ps_net s))"
    using inv_obj [OF inv, of p] p by blast
  obtain t' n' where "task_OnMQRecv e msg t (ps_net s) = Some (t', n')" "task_step e t (ps_net s) t' n'"
    using Reply_step [OF t(3,2) psrv_invD(3) [OF inv]] by blast
  with on_obj_inv [OF inv t(1), of "task_OnMQRecv e msg"] show ?thesis by simp
qed

lemma reply_loop_inv:
  assumes "psrv_inv e H s"
  shows "\<exists>s'. psrv_reply_loop e ms s = Some s' \<and> psrv_inv e H s' \<and> objTaskMap s' = objTaskMap s"
  using assms
proof (induction ms arbitrary: s)
  case (Cons m ms)
  show ?case
  proof (cases "rc_trans (e_rc e) m")
    case None
    with Cons show ?thesis by simp
  next
    case (Some msg)
    let ?pos = "of_int (client_pos msg) :: 32 word"
    consider (none) "psrv_FindTask ?pos s = Some (None, s)"
      | (task) p s1 where "psrv_FindTask ?pos s = Some (Some p, s1)" "psrv_inv e (p # H) s1" "objTaskMap s1 = objTaskMap s"
      using FindTask_inv [OF Cons.prems, of ?pos] by fastforce
    then show ?thesis
    proof cases
      case none
      with Cons Some show ?thesis by simp
    next
      case task
      obtain s2 where s2: "on_obj (task_OnMQRecv e msg) p s1 = Some s2" "psrv_inv e (p # H) s2" "objTaskMap s2 = objTaskMap s"
        using on_obj_reply [OF task(2), of p msg] task(3) by auto
      obtain s3 where s3: "obj_release p s2 = Some s3" "psrv_inv e H s3" "objTaskMap s3 = objTaskMap s"
        using obj_release_inv [OF s2(2)] s2(3) by auto
      with Cons.IH [OF s3(2)] Some task(1) s2(1) show ?thesis by auto
    qed
  qed
qed simp

lemma RecvMsgs_fields:
  "push_sks (snd (pmq_RecvMsgs q)) = push_sks q"
  by (induction q rule: pmq_RecvMsgs.induct)
    (subst pmq_RecvMsgs.simps, auto simp: pmq_RecvMsg_def split: prod.splits list.splits)

lemma inv_mq: "psrv_inv e H s \<Longrightarrow> push_sks q = push_sks (n_mq (ps_net s)) \<Longrightarrow> psrv_inv e H (s\<lparr>ps_net := (ps_net s)\<lparr>n_mq := q\<rparr>\<rparr>)"
  by (auto simp: psrv_inv_def tasks_ok_def task_good_def mq_works_def)

lemma OnMqRecv_inv:
  assumes inv: "psrv_inv e H s"
  shows "\<exists>b s'. psrv_OnMqRecv e s = Some (b, s') \<and> psrv_inv e H s' \<and> objTaskMap s' = objTaskMap s"
proof -
  obtain msgs q where q: "pmq_RecvMsgs (n_mq (ps_net s)) = (msgs, q)" by fastforce
  define s1 where "s1 = s\<lparr>ps_net := (ps_net s)\<lparr>n_mq := q\<rparr>\<rparr>"
  have inv1: "psrv_inv e H s1" "objTaskMap s1 = objTaskMap s"
    using inv_mq [OF inv, of q] RecvMsgs_fields [of "n_mq (ps_net s)"] q by (simp_all add: s1_def)
  show ?thesis
  proof (cases "msgs = []")
    case True
    with q have "psrv_OnMqRecv e s = Some (False, s1)" by (simp add: psrv_OnMqRecv_def s1_def)
    with inv1 show ?thesis by blast
  next
    case False
    then show ?thesis using reply_loop_inv [OF inv1(1), of msgs] inv1(2) q by (auto simp: psrv_OnMqRecv_def s1_def)
  qed
qed


section \<open>Accepting\<close>

lemma next_pos_neq: "psrv_next_pos cnt \<noteq> 0"
  by (auto simp: psrv_next_pos_def Let_def)

lemma inv_pos: "psrv_inv e H (s\<lparr>iPosCnt := c\<rparr>) = psrv_inv e H s"
  by (simp add: psrv_inv_def)

lemma inv_net:
  assumes "psrv_inv e H s" "n_mem n' = n_mem (ps_net s)" "n_mq n' = n_mq (ps_net s)"
    "\<And>f. c_open (n_conn (ps_net s) f) \<Longrightarrow> c_open (n_conn n' f)"
  shows "psrv_inv e H (s\<lparr>ps_net := n'\<rparr>)"
  using assms unfolding psrv_inv_def tasks_ok_def task_good_def by simp blast

lemma inv_new:
  assumes inv: "psrv_inv e H s" and fd: "0 < fd" "c_open (n_conn (ps_net s) fd)"
    and fresh: "\<And>p c t. ps_objs s p = Some (c, t) \<Longrightarrow> t_sock t \<noteq> fd"
    and new: "task_new pos fd ip (n_mem (ps_net s)) = (t, m)"
    and s': "obj_new t (s\<lparr>ps_net := (ps_net s)\<lparr>n_mem := m\<rparr>\<rparr>) = (p, s')"
  shows "psrv_inv e (p # H) s'" "ps_objs s' p = Some (1, t)"
proof -
  let ?n = "(ps_net s)\<lparr>n_mem := m\<rparr>" and ?o = "(ps_objs s)(p \<mapsto> (1, t))"
  note o = psrv_invD(1) [OF inv] and ok = psrv_invD(2) [OF inv]
  have p: "p = ps_next s" "s' = s\<lparr>ps_net := ?n, ps_objs := ?o, ps_next := Suc p\<rparr>"
    using s' by (auto simp: obj_new_def)
  note t = task_new_owns [OF tasks_okD(3) [OF ok] new]
  have free: "ps_objs s p = None" using objs_okD(1) [OF o, of p] p(1) by (cases "ps_objs s p") auto
  have unmapped: "p \<notin> set H" "objTaskMap s pos \<noteq> Some p" for pos
    using objs_okD(2,3) [OF o] free by fastforce+
  have "objs_ok (p # H) (objTaskMap s) (Suc p) ?o"
    unfolding objs_ok_def
  proof (intro conjI allI impI ballI)
    fix pos' q assume "objTaskMap s pos' = Some q"
    then show "pos' \<noteq> 0" "\<exists>c u. ?o q = Some (c, u) \<and> t_pos u = pos'"
      using objs_okD(2) [OF o, of pos' q] free by (cases "q = p"; auto)+
  next
    fix q k u assume q: "?o q = Some (k, u)"
    show "q < Suc p" "0 < k" using q objs_okD(1) [OF o, of q k u] p(1) by (auto split: if_splits)
    show "k = refs (p # H) (objTaskMap s) q u"
      using q objs_okD(1) [OF o, of q k u] unmapped by (cases "q = p") (auto simp: refs_def count_list_0_iff)
  next
    fix q assume "q \<in> set (p # H)"
    then show "?o q \<noteq> None" using objs_okD(3) [OF o, of q] by auto
  qed
  moreover have "tasks_ok ?o ?n"
  proof -
    have blocks: "set (t_blocks u) \<subseteq> dom (m_blocks (n_mem (ps_net s)))" if "ps_objs s q = Some (k, u)" for q k u
      using tasks_okD(4) [OF ok] that by auto
    have "apart t u" "task_good u ?n" if q: "ps_objs s q = Some (k, u)" for q k u
    proof -
      show "apart t u" using blocks [OF q] t(2,4) fresh [OF q] by (auto simp: apart_def owns_def)
      show "task_good u ?n"
        by (rule task_good_frame [OF tasks_okD(1) [OF ok q]])
          (use same_on_mono [OF t(6) blocks [OF q]] tasks_okD(1) [OF ok q] in \<open>auto simp: task_good_def\<close>)
    qed
    moreover from this(1) have "apart u t" if "ps_objs s q = Some (k, u)" for q k u
      using that by (fastforce simp: apart_def)
    moreover have "task_good t ?n" using t fd by (auto simp: task_good_def owns_def)
    moreover have "dom (m_blocks m) = dom (m_blocks (n_mem (ps_net s))) \<union> set (t_blocks t)" "mem_ok m"
      using t(4) by (simp_all add: owns_def)
    ultimately show ?thesis
      using tasks_okD(2,5) [OF ok] tasks_okD(4) [OF ok] free unfolding tasks_ok_def
      by (auto split: if_splits) (metis option.distinct(1))
  qed
  ultimately show "psrv_inv e (p # H) s'" using psrv_invD(3) [OF inv] p by (simp add: psrv_inv_def)
  show "ps_objs s' p = Some (1, t)" by (simp add: p(2))
qed

lemma accept_one_inv:
  assumes inv: "psrv_inv e H s" and fd: "0 < fd" "c_open (n_conn (ps_net s) fd)"
    and fresh: "\<And>p c t. ps_objs s p = Some (c, t) \<Longrightarrow> t_sock t \<noteq> fd"
  shows "\<exists>go s'. psrv_accept_one e fd a s = Some (go, s') \<and> psrv_inv e H s' \<and> ps_backlog s' = ps_backlog s"
proof -
  define cpos where "cpos = psrv_next_pos (iPosCnt s)"
  define s1 where "s1 = s\<lparr>iPosCnt := cpos\<rparr>"
  have inv1: "psrv_inv e H s1" and s1: "ps_net s1 = ps_net s" "ps_objs s1 = ps_objs s" "ps_backlog s1 = ps_backlog s"
    "objTaskMap s1 = objTaskMap s"
    using inv by (simp_all add: s1_def psrv_inv_def)
  obtain t m where new: "task_new cpos fd (ac_ip a) (n_mem (ps_net s1)) = (t, m)" by fastforce
  obtain p s2 where s2: "obj_new t (s1\<lparr>ps_net := (ps_net s1)\<lparr>n_mem := m\<rparr>\<rparr>) = (p, s2)" by fastforce
  have i2: "psrv_inv e (p # H) s2" "ps_objs s2 p = Some (1, t)"
    using inv_new [OF inv1 fd(1) _ _ new s2] fd(2) fresh s1 by auto
  have f2: "ps_backlog s2 = ps_backlog s" "objTaskMap s2 = objTaskMap s" using s2 s1 by (auto simp: obj_new_def)
  define s3 where "s3 = s2\<lparr>ps_net := ep_Add e fd cpos {EPOLLIN} (ps_net s2)\<rparr>"
  have i3: "psrv_inv e (p # H) s3" "ps_objs s3 p = Some (1, t)" "ps_backlog s3 = ps_backlog s"
    using inv_net [OF i2(1), of "ep_Add e fd cpos {EPOLLIN} (ps_net s2)"] i2(2) f2 by (simp_all add: s3_def ep_Add_def)
  have pos: "t_pos t = cpos" "cpos \<noteq> 0"
    using task_new_owns(1) [OF tasks_okD(3) [OF psrv_invD(2) [OF inv1]] new] next_pos_neq by (simp_all add: cpos_def)
  obtain s4 where kick: "on_obj task_Terminate p s3 = Some s4" "psrv_inv e (p # H) s4" "ps_backlog s4 = ps_backlog s"
    using Terminate_inv [OF i3(1), of p] i3(3) by auto
  obtain s5 where drop: "obj_release p s4 = Some s5" "psrv_inv e H s5" "ps_backlog s5 = ps_backlog s"
    using obj_release_inv [OF kick(2)] kick(3) by auto
  obtain s6 where ins: "(if objTaskMap s3 cpos = None
        then do { s \<leftarrow> obj_copy p s3; Some (s\<lparr>objTaskMap := (objTaskMap s)(cpos \<mapsto> p)\<rparr>) } else Some s3) = Some s6"
      "psrv_inv e (p # H) s6" "ps_backlog s6 = ps_backlog s"
  proof (cases "objTaskMap s3 cpos")
    case None
    let ?s = "s3\<lparr>ps_objs := (ps_objs s3)(p \<mapsto> (Suc 1, t))\<rparr>"
    have "psrv_inv e (p # H) (?s\<lparr>objTaskMap := (objTaskMap ?s)(t_pos t \<mapsto> p)\<rparr>)"
      by (rule inv_map [OF obj_copy_inv(2) [OF i3(1,2)]]) (use None pos in auto)
    with that obj_copy_inv(1) [OF i3(1,2)] None pos(1) i3(3) show ?thesis by simp
  qed (use that i3 in auto)
  obtain s7 where keep: "obj_release p s6 = Some s7" "psrv_inv e H s7" "ps_backlog s7 = ps_backlog s"
    using obj_release_inv [OF ins(2)] ins(3) by auto
  show ?thesis
    unfolding psrv_accept_one_def Let_def cpos_def [symmetric] s1_def [symmetric] new prod.case s2 s3_def [symmetric]
    using inv1 s1(3) kick drop ins keep by auto
qed

lemma sock_accept_cases:
  obtains "sock_accept s = None"
  | fd a as where "sock_accept s = Some (fd, a, s\<lparr>ps_backlog := as, ps_net := (ps_net s)\<lparr>n_conn :=
        (n_conn (ps_net s))(fd := (ac_conn a)\<lparr>c_open := True\<rparr>)\<rparr>\<rparr>)" "ps_backlog s = a # as"
      "\<not> c_open (n_conn (ps_net s) fd)" "0 \<le> fd"
proof (cases "sock_accept s")
  case (Some r)
  then obtain a as fd where *: "ps_backlog s = a # as" "find (\<lambda>fd. \<not> c_open (n_conn (ps_net s) fd)) (map int [0..<ps_limit s]) = Some fd"
    by (auto simp: sock_accept_def split: list.splits option.splits)
  then have "\<not> c_open (n_conn (ps_net s) fd)" "0 \<le> fd" by (auto simp: find_Some_iff)
  with * that(2) show ?thesis by (simp add: sock_accept_def)
qed (use that in blast)

lemma AcceptTask_inv:
  assumes "psrv_inv e H s"
  shows "\<exists>r s'. psrv_AcceptTask e s = Some (r, s') \<and> psrv_inv e H s'"
  using assms
proof (induction "length (ps_backlog s)" arbitrary: s rule: less_induct)
  case less
  note inv = less.prems
  show ?case
  proof (cases s rule: sock_accept_cases)
    case 1
    with inv show ?thesis by (subst psrv_AcceptTask.simps) simp
  next
    case (2 fd a as)
    define s1 where "s1 = s\<lparr>ps_backlog := as, ps_net := (ps_net s)\<lparr>n_conn :=
        (n_conn (ps_net s))(fd := (ac_conn a)\<lparr>c_open := True\<rparr>)\<rparr>\<rparr>"
    have "psrv_inv e H (s1\<lparr>ps_net := ps_net s1\<rparr>)"
      using inv_net [of e H "s\<lparr>ps_backlog := as\<rparr>" "ps_net s1"] inv by (simp add: s1_def psrv_inv_def)
    then have inv1: "psrv_inv e H s1" by simp
    have "fd \<noteq> 0" using tasks_okD(5) [OF psrv_invD(2) [OF inv]] 2(3) by auto
    then have fd: "0 < fd" "c_open (n_conn (ps_net s1) fd)" using 2(4) by (auto simp: s1_def)
    have fresh: "t_sock t \<noteq> fd" if "ps_objs s1 p = Some (c, t)" for p c t
      using tasks_okD(1) [OF psrv_invD(2) [OF inv], of p c t] that 2(3) fd(1) by (auto simp: s1_def task_good_def)
    have "\<exists>go s'. psrv_accept_one e fd a s1 = Some (go, s') \<and> psrv_inv e H s' \<and> ps_backlog s' = ps_backlog s1"
      by (rule accept_one_inv [OF inv1 fd]) (rule fresh)
    then obtain go s2
      where s2: "psrv_accept_one e fd a s1 = Some (go, s2)" "psrv_inv e H s2" "ps_backlog s2 = as"
      by (auto simp: s1_def)
    show ?thesis
    proof (cases go)
      case True
      obtain r s3 where "psrv_AcceptTask e s2 = Some (r, s3)" "psrv_inv e H s3"
        using less.hyps [OF _ s2(2)] s2(3) 2(2) by auto
      then show ?thesis using 2(1) s2(1) True by (subst psrv_AcceptTask.simps) (simp add: s1_def [symmetric])
    next
      case False
      then show ?thesis using 2(1) s2 by (subst psrv_AcceptTask.simps) (simp add: s1_def [symmetric])
    qed
  qed
qed


section \<open>Events\<close>

lemma on_obj_event:
  assumes inv: "psrv_inv e H s" and p: "p \<in> set H"
    and step: "\<And>t n. owns (rest_of t n) (t_blocks t) (n_mem n) \<Longrightarrow> task_good t n \<Longrightarrow> mq_works e (n_mq n) \<Longrightarrow>
      \<exists>t' n'. f t n = Some (t', n') \<and> task_step e t n t' n'"
  shows "\<exists>s'. on_obj f p s = Some s' \<and> psrv_inv e H s'"
proof -
  obtain c t where t: "ps_objs s p = Some (c, t)" "task_good t (ps_net s)"
      "owns (rest_of t (ps_net s)) (t_blocks t) (n_mem (ps_net s))"
    using inv_obj [OF inv, of p] p by blast
  obtain t' n' where "f t (ps_net s) = Some (t', n')" "task_step e t (ps_net s) t' n'"
    using step [OF t(3,2) psrv_invD(3) [OF inv]] by blast
  with on_obj_inv [OF inv t(1), of f] show ?thesis by simp
qed

lemma remove_dead_inv:
  assumes inv: "psrv_inv e H s" and p: "p \<in> set H"
  shows "\<exists>s'. psrv_remove_dead cpos p s = Some s' \<and> psrv_inv e H s'"
proof -
  obtain c t where t: "ps_objs s p = Some (c, t)" using inv_obj [OF inv, of p] p by metis
  show ?thesis using RemoveTask_inv [OF inv, of cpos] inv t by (auto simp: psrv_remove_dead_def obj_IsTerminate_def)
qed

lemma kick_inv:
  assumes inv: "psrv_inv e H s" and p: "p \<in> set H"
  shows "\<exists>s'. psrv_kick cpos p s = Some s' \<and> psrv_inv e H s'"
proof -
  obtain s1 where "on_obj task_Terminate p s = Some s1" "psrv_inv e H s1" using Terminate_inv [OF inv, of p] p by blast
  with RemoveTask_inv [of e H s1 cpos] show ?thesis by (auto simp: psrv_kick_def)
qed

lemma task_event_inv:
  assumes inv: "psrv_inv e H s" and p: "p \<in> set H"
  shows "\<exists>s'. psrv_task_event e cpos evs p s = Some s' \<and> psrv_inv e H s'"
proof -
  obtain s1 where s1: "(if EPOLLOUT \<in> evs
       then do { s \<leftarrow> on_obj (task_OnSockWriteHdl e) p s; psrv_remove_dead cpos p s } else Some s) = Some s1" "psrv_inv e H s1"
    using on_obj_event [OF inv p Write_step] remove_dead_inv [OF _ p] inv by (cases "EPOLLOUT \<in> evs") fastforce+
  obtain s2 where s2: "(if EPOLLIN \<in> evs
       then do { s \<leftarrow> on_obj (task_OnSockReadHdl e) p s1; s \<leftarrow> psrv_remove_dead cpos p s;
             (_, s) \<leftarrow> psrv_OnMqRecv e s; Some s } else Some s1) = Some s2" "psrv_inv e H s2"
  proof (cases "EPOLLIN \<in> evs")
    case True
    obtain r where r: "on_obj (task_OnSockReadHdl e) p s1 = Some r" "psrv_inv e H r"
      using on_obj_event [OF s1(2) p Read_step] by blast
    obtain r' where r': "psrv_remove_dead cpos p r = Some r'" "psrv_inv e H r'"
      using remove_dead_inv [OF r(2) p] by blast
    obtain b r'' where "psrv_OnMqRecv e r' = Some (b, r'')" "psrv_inv e H r''" using OnMqRecv_inv [OF r'(2)] by blast
    with that r r' True show ?thesis by simp
  qed (use that s1(2) in simp)
  show ?thesis
    unfolding psrv_task_event_def s1(1) s2(1) Option.bind.bind_lunit using kick_inv [OF s2(2) p, of cpos] s2(2) by auto
qed

lemma one_event_inv:
  assumes inv: "psrv_inv e H s"
  shows "\<exists>s'. psrv_one_event e cpos evs s = Some s' \<and> psrv_inv e H s'"
proof (cases "cpos = 0")
  case True
  then show ?thesis using AcceptTask_inv [OF inv] inv by (auto simp: psrv_one_event_def)
next
  case False
  from FindTask_inv [OF inv, of cpos] consider (none) "psrv_FindTask cpos s = Some (None, s)"
    | (task) p s1 where "psrv_FindTask cpos s = Some (Some p, s1)" "psrv_inv e (p # H) s1" by blast
  then show ?thesis
  proof cases
    case none
    with inv False show ?thesis by (simp add: psrv_one_event_def)
  next
    case task
    obtain s2 where s2: "psrv_task_event e cpos evs p s1 = Some s2" "psrv_inv e (p # H) s2"
      using task_event_inv [OF task(2), of p] by auto
    from obj_release_inv [OF s2(2)] show ?thesis using task(1) s2(1) False by (auto simp: psrv_one_event_def)
  qed
qed

lemma HldAllEvs_inv: "psrv_inv e H s \<Longrightarrow> \<exists>s'. psrv_HldAllEvs e nds s = Some s' \<and> psrv_inv e H s'"
proof (induction e nds s rule: psrv_HldAllEvs.induct)
  case (2 e cpos evs nds s)
  then show ?case using one_event_inv [OF 2(2), of cpos evs] by fastforce
qed simp

section \<open>The main loop\<close>

lemma psrv_inv_grant [simp]: "psrv_inv (e\<lparr>e_grant := g\<rparr>) H s = psrv_inv e H s"
  by (simp add: psrv_inv_def)

lemma world_inv: "psrv_inv e H s \<Longrightarrow> psrv_inv e H (psrv_world w s)"
proof (cases w)
  case (WMessage m)
  then show "psrv_inv e H s \<Longrightarrow> psrv_inv e H (psrv_world w s)"
    using inv_mq [of e H s "(n_mq (ps_net s))\<lparr>pm_inbox := pm_inbox (n_mq (ps_net s)) @ [m]\<rparr>"] by simp
qed (auto intro!: inv_net simp: on_conn_def, auto simp: psrv_inv_def psrv_StopService_def)

lemma worlds_inv: "psrv_inv e H s \<Longrightarrow> psrv_inv e H (fold psrv_world ws s)"
  by (induction ws arbitrary: s) (auto intro: world_inv)

lemma round_inv:
  assumes inv: "psrv_inv e H s"
  shows "\<exists>s'. psrv_round e r s = Some s' \<and> psrv_inv e H s'"
proof -
  obtain ws g nds where r: "r = (ws, g, nds)" by (cases r)
  let ?e = "e\<lparr>e_grant := g\<rparr>"
  obtain b s1 where s1: "(case nds of Some (nd # rest) \<Rightarrow> do { s \<leftarrow> psrv_HldAllEvs ?e (nd # rest) (fold psrv_world ws s); Some (True, s) }
         | _ \<Rightarrow> Some (False, fold psrv_world ws s)) = Some (b, s1)" "psrv_inv ?e H s1"
  proof (cases "\<exists>nd rest. nds = Some (nd # rest)")
    case True
    then obtain nd rest where "nds = Some (nd # rest)" by blast
    with that HldAllEvs_inv [of ?e H "fold psrv_world ws s" "nd # rest"] worlds_inv [OF inv, of ws] show ?thesis by auto
  next
    case False
    then have "nds = None \<or> nds = Some []" by (metis neq_Nil_conv not_None_eq)
    with that [of False "fold psrv_world ws s"] worlds_inv [OF inv, of ws] show ?thesis by auto
  qed
  obtain m s2 where "psrv_OnMqRecv ?e s1 = Some (m, s2)" "psrv_inv ?e H s2" using OnMqRecv_inv [OF s1(2)] by blast
  moreover from this(2) have "psrv_inv e H (s2\<lparr>ps_sleeps := Suc (ps_sleeps s2)\<rparr>)" by (simp add: psrv_inv_def)
  ultimately show ?thesis using s1(1) unfolding psrv_round_def r prod.case Let_def by auto
qed

lemma loop_inv: "psrv_inv e H s \<Longrightarrow> \<exists>s'. psrv_loop e rs s = Some s' \<and> psrv_inv e H s'"
proof (induction rs arbitrary: s)
  case (Cons r rs)
  then show ?case using round_inv [OF Cons.prems, of r] by fastforce
qed simp

end
