(* ===== verification/ProxyServerRun.thy ===== *)
theory ProxyServerRun
  imports ProxyServerInv
begin

text \<open>
  What the proxy's main loop does for its clients: replies go to the client they name and to no
  other, nothing undefined happens in any run, and a failing setup of an accepted connection
  loses its descriptor.
\<close>

section \<open>One reply\<close>

text \<open>The bytes \<open>w\<close> are added to what a task sends.\<close>

definition told :: "task \<Rightarrow> net \<Rightarrow> byte list \<Rightarrow> task \<Rightarrow> net \<Rightarrow> bool" where
  "told t n w t' n' \<longleftrightarrow> t_pos t' = t_pos t \<and> (t_sock t' = t_sock t \<or> t_sock t' = -1)
     \<and> (t_sock t \<noteq> -1 \<longrightarrow> (\<exists>pend pend'. queue_bytes (t_queue t) (n_mem n) = Some pend
          \<and> c_tx (n_conn n' (t_sock t)) @ pend' = c_tx (n_conn n (t_sock t)) @ pend @ w
          \<and> (t_sock t' \<noteq> -1 \<longrightarrow> queue_bytes (t_queue t') (n_mem n') = Some pend')))"

lemma told_refl: "task_good t n \<Longrightarrow> told t n [] t n"
  by (auto simp: told_def task_good_def)

lemma told_live:
  assumes "told t n w t' n'"
  shows "\<not> task_IsTerminate t \<longrightarrow> (\<exists>pend pend'. queue_bytes (t_queue t) (n_mem n) = Some pend
     \<and> c_tx (n_conn n' (t_sock t)) @ pend' = c_tx (n_conn n (t_sock t)) @ pend @ w
     \<and> (\<not> task_IsTerminate t' \<longrightarrow> t_sock t' = t_sock t \<and> queue_bytes (t_queue t') (n_mem n') = Some pend'))"
  using assms unfolding told_def task_IsTerminate_def by fastforce

lemma told_trans:
  assumes "told t n v t1 n1" "told t1 n1 w t2 n2"
    "t_sock t1 = -1 \<Longrightarrow> t_sock t \<noteq> -1 \<Longrightarrow> n_conn n2 (t_sock t) = n_conn n1 (t_sock t)"
  shows "told t n (v @ w) t2 n2"
proof -
  have keep: "t_pos t2 = t_pos t" "t_sock t2 = t_sock t \<or> t_sock t2 = -1" "t_sock t1 = t_sock t \<or> t_sock t1 = -1"
    using assms(1,2) by (auto simp: told_def)
  moreover have "\<exists>pend pend'. queue_bytes (t_queue t) (n_mem n) = Some pend
      \<and> c_tx (n_conn n2 (t_sock t)) @ pend' = c_tx (n_conn n (t_sock t)) @ pend @ v @ w
      \<and> (t_sock t2 \<noteq> -1 \<longrightarrow> queue_bytes (t_queue t2) (n_mem n2) = Some pend')" if live: "t_sock t \<noteq> -1"
  proof -
    obtain pend pend' where 1: "queue_bytes (t_queue t) (n_mem n) = Some pend"
        "c_tx (n_conn n1 (t_sock t)) @ pend' = c_tx (n_conn n (t_sock t)) @ pend @ v"
        "t_sock t1 \<noteq> -1 \<Longrightarrow> queue_bytes (t_queue t1) (n_mem n1) = Some pend'"
      using assms(1) live by (auto simp: told_def)
    show ?thesis
    proof (cases "t_sock t1 = -1")
      case True
      then have "t_sock t2 = -1" using assms(2) by (auto simp: told_def)
      with 1 assms(3) [OF True live] show ?thesis
        by (intro exI [of _ pend] exI [of _ "pend' @ w"]) (simp flip: append_assoc)
    next
      case False
      then have s1: "t_sock t1 = t_sock t" using keep(3) by simp
      obtain pend'' where "c_tx (n_conn n2 (t_sock t)) @ pend'' = c_tx (n_conn n1 (t_sock t)) @ pend' @ w"
          "t_sock t2 \<noteq> -1 \<Longrightarrow> queue_bytes (t_queue t2) (n_mem n2) = Some pend''"
        using assms(2) False 1(3) s1 by (auto simp: told_def)
      with 1(1,2) show ?thesis
        by (intro exI [of _ pend] exI [of _ pend'']) (metis append_assoc)
    qed
  qed
  ultimately show ?thesis by (simp add: told_def)
qed

lemma told_reply:
  assumes good: "task_good t n" and step: "task_step e t n t' n'"
    and reply: "\<forall>pend. t_sock t \<noteq> -1 \<longrightarrow> queue_bytes (t_queue t) (n_mem n) = Some pend \<longrightarrow>
         reply_round X (t_sock t) t n (pend @ w) t' n'"
  shows "told t n w t' n'"
proof -
  have "\<exists>pend pend'. queue_bytes (t_queue t) (n_mem n) = Some pend
      \<and> c_tx (n_conn n' (t_sock t)) @ pend' = c_tx (n_conn n (t_sock t)) @ pend @ w
      \<and> (t_sock t' \<noteq> -1 \<longrightarrow> queue_bytes (t_queue t') (n_mem n') = Some pend')" if live: "t_sock t \<noteq> -1"
  proof -
    obtain pend where p: "queue_bytes (t_queue t) (n_mem n) = Some pend" using good live by (auto simp: task_good_def)
    then obtain k c where "n_conn n' = (n_conn n)(t_sock t := c)" "c_tx c = c_tx (n_conn n (t_sock t)) @ take k (pend @ w)"
        "t_sock t' = t_sock t \<longrightarrow> queue_bytes (t_queue t') (n_mem n') = Some (drop k (pend @ w))"
        "t_sock t' = t_sock t \<or> t_sock t' = -1"
      using reply live by (auto simp: reply_round_def)
    then have "c_tx (n_conn n' (t_sock t)) @ drop k (pend @ w) = c_tx (n_conn n (t_sock t)) @ (take k (pend @ w) @ drop k (pend @ w))"
        "t_sock t' \<noteq> -1 \<longrightarrow> queue_bytes (t_queue t') (n_mem n') = Some (drop k (pend @ w))" by auto
    with p show ?thesis by (intro exI [of _ pend] exI [of _ "drop k (pend @ w)"]) (simp only: append_take_drop_id)
  qed
  then show ?thesis using step by (simp add: told_def task_step_def)
qed

section \<open>All replies\<close>

text \<open>The connections no task has are not touched.\<close>

definition all_told :: "(32 word \<Rightarrow> byte list) \<Rightarrow> pserver \<Rightarrow> pserver \<Rightarrow> bool" where
  "all_told w s s' \<longleftrightarrow>
     (\<forall>p. (ps_objs s p = None \<longleftrightarrow> ps_objs s' p = None)
        \<and> (\<forall>c t. ps_objs s p = Some (c, t) \<longrightarrow>
             (\<exists>t'. ps_objs s' p = Some (c, t') \<and> told t (ps_net s) (w (t_pos t)) t' (ps_net s'))))
     \<and> (\<forall>f. 0 \<le> f \<longrightarrow> (\<forall>p c t. ps_objs s p = Some (c, t) \<longrightarrow> t_sock t \<noteq> f) \<longrightarrow> n_conn (ps_net s') f = n_conn (ps_net s) f)"

lemma all_toldD:
  assumes "all_told w s s'"
  shows "ps_objs s p = Some (c, t) \<Longrightarrow> \<exists>t'. ps_objs s' p = Some (c, t') \<and> told t (ps_net s) (w (t_pos t)) t' (ps_net s')"
    "ps_objs s' p = Some (c, t') \<Longrightarrow> \<exists>t. ps_objs s p = Some (c, t) \<and> told t (ps_net s) (w (t_pos t)) t' (ps_net s')"
    "(\<And>p c t. ps_objs s p = Some (c, t) \<Longrightarrow> t_sock t \<noteq> f) \<Longrightarrow> 0 \<le> f \<Longrightarrow> n_conn (ps_net s') f = n_conn (ps_net s) f"
proof -
  show 1: "\<exists>t'. ps_objs s' p = Some (c, t') \<and> told t (ps_net s) (w (t_pos t)) t' (ps_net s')"
    if "ps_objs s p = Some (c, t)" for c t
    using assms that unfolding all_told_def by blast
  show "\<exists>t. ps_objs s p = Some (c, t) \<and> told t (ps_net s) (w (t_pos t)) t' (ps_net s')" if p: "ps_objs s' p = Some (c, t')"
  proof -
    have "ps_objs s p \<noteq> None" using assms p unfolding all_told_def by (metis option.distinct(1))
    then obtain k t where "ps_objs s p = Some (k, t)" by auto
    with 1 [OF this] p show ?thesis by auto
  qed
  show "n_conn (ps_net s') f = n_conn (ps_net s) f" if "\<And>p c t. ps_objs s p = Some (c, t) \<Longrightarrow> t_sock t \<noteq> f" "0 \<le> f"
    using assms that unfolding all_told_def by blast
qed

lemma all_told_refl: "psrv_inv e [] s \<Longrightarrow> all_told (\<lambda>_. []) s s"
  using tasks_okD(1) [OF psrv_invD(2)] by (auto simp: all_told_def intro!: told_refl)

lemma told_sock: "told t n w t' n' \<Longrightarrow> t_pos t' = t_pos t \<and> (t_sock t' = t_sock t \<or> t_sock t' = -1)"
  by (simp add: told_def)

lemma all_told_trans:
  assumes 1: "all_told v s s1" and 2: "all_told w s1 s2" and inv: "psrv_inv e [] s"
  shows "all_told (\<lambda>pos. v pos @ w pos) s s2"
  unfolding all_told_def
proof (intro conjI allI impI)
  fix p show "ps_objs s p = None \<longleftrightarrow> ps_objs s2 p = None" using 1 2 by (simp add: all_told_def)
next
  fix p c t assume p: "ps_objs s p = Some (c, t)"
  obtain t1 where t1: "ps_objs s1 p = Some (c, t1)" "told t (ps_net s) (v (t_pos t)) t1 (ps_net s1)"
    using all_toldD(1) [OF 1 p] by blast
  obtain t2 where t2: "ps_objs s2 p = Some (c, t2)" "told t1 (ps_net s1) (w (t_pos t)) t2 (ps_net s2)"
    using all_toldD(1) [OF 2 t1(1)] told_sock [OF t1(2)] by auto
  have gone: "n_conn (ps_net s2) (t_sock t) = n_conn (ps_net s1) (t_sock t)" if d: "t_sock t1 = -1" "t_sock t \<noteq> -1"
  proof (rule all_toldD(3) [OF 2])
    show "t_sock u1 \<noteq> t_sock t" if q: "ps_objs s1 q = Some (k, u1)" for q k u1
    proof (cases "q = p")
      case False
      obtain u where u: "ps_objs s q = Some (k, u)" "told u (ps_net s) (v (t_pos u)) u1 (ps_net s1)"
        using all_toldD(2) [OF 1 q] by blast
      have "apart u t" using tasks_okD(2) [OF psrv_invD(2) [OF inv] u(1) p False] .
      then show ?thesis using told_sock [OF u(2)] d(2) by (auto simp: apart_def)
    qed (use q t1(1) d in auto)
    show "0 \<le> t_sock t" using tasks_okD(1) [OF psrv_invD(2) [OF inv] p] d(2) by (auto simp: task_good_def)
  qed
  from t2(1) told_trans [OF t1(2) t2(2) gone]
  show "\<exists>t'. ps_objs s2 p = Some (c, t') \<and> told t (ps_net s) (v (t_pos t) @ w (t_pos t)) t' (ps_net s2)" by blast
next
  fix f :: int assume f: "0 \<le> f" "\<forall>p c t. ps_objs s p = Some (c, t) \<longrightarrow> t_sock t \<noteq> f"
  have "t_sock u1 \<noteq> f" if q: "ps_objs s1 q = Some (k, u1)" for q k u1
  proof -
    obtain u where "ps_objs s q = Some (k, u)" "told u (ps_net s) (v (t_pos u)) u1 (ps_net s1)"
      using all_toldD(2) [OF 1 q] by blast
    with f told_sock show ?thesis by fastforce
  qed
  then have "n_conn (ps_net s2) f = n_conn (ps_net s1) f" using all_toldD(3) [OF 2] f(1) by blast
  also have "\<dots> = n_conn (ps_net s) f" using all_toldD(3) [OF 1] f by blast
  finally show "n_conn (ps_net s2) f = n_conn (ps_net s) f" .
qed

text \<open>A single reply touches its client's task and connection only, and the connection stays up as
  long as the kernel takes bytes.\<close>

definition only_told :: "nat \<Rightarrow> pserver \<Rightarrow> pserver \<Rightarrow> bool" where
  "only_told p s s' \<longleftrightarrow> (\<forall>q. q \<noteq> p \<longrightarrow> ps_objs s' q = ps_objs s q)
     \<and> (\<forall>c t. ps_objs s p = Some (c, t) \<longrightarrow> (\<forall>f. f \<noteq> t_sock t \<longrightarrow> n_conn (ps_net s') f = n_conn (ps_net s) f)
          \<and> (\<exists>t'. ps_objs s' p = Some (c, t') \<and>
              (t_sock t \<noteq> -1 \<longrightarrow> writes_ok (n_conn (ps_net s) (t_sock t)) \<longrightarrow> t_sock t' = t_sock t)))"

text \<open>The step of the loop for a reply whose client is there.\<close>

lemma reply_one:
  assumes inv: "psrv_inv e [] s" and p: "objTaskMap s (of_int (client_pos msg)) = Some p"
  shows "\<exists>s1 s2 s'. psrv_FindTask (of_int (client_pos msg)) s = Some (Some p, s1) \<and> on_obj (task_OnMQRecv e msg) p s1 = Some s2
    \<and> obj_release p s2 = Some s' \<and> psrv_inv e [] s' \<and> objTaskMap s' = objTaskMap s
    \<and> all_told (\<lambda>pos. if pos = of_int (client_pos msg) then reply_wire msg else []) s s' \<and> only_told p s s'"
proof -
  let ?pos = "of_int (client_pos msg) :: 32 word"
  obtain c t where t: "ps_objs s p = Some (c, t)" "task_good t (ps_net s)"
      "owns (rest_of t (ps_net s)) (t_blocks t) (n_mem (ps_net s))"
    using inv_obj [OF inv, of p ?pos] p by blast
  note o = psrv_invD(1) [OF inv] and ok = psrv_invD(2) [OF inv]
  have pos: "t_pos t = ?pos" using objs_okD(2) [OF o p] t(1) by auto
  have c: "c = 1" using objs_okD(1) [OF o t(1)] p pos by (simp add: refs_def)
  define s1 where "s1 = s\<lparr>ps_objs := (ps_objs s)(p \<mapsto> (Suc c, t))\<rparr>"
  have s1: "psrv_FindTask ?pos s = Some (Some p, s1)" "psrv_inv e [p] s1" "ps_objs s1 p = Some (Suc c, t)" "ps_net s1 = ps_net s"
    using FindTask_inv [OF inv, of ?pos] p t(1) by (auto simp: s1_def)
  obtain t' n' where r: "task_OnMQRecv e msg t (ps_net s) = Some (t', n')" "task_step e t (ps_net s) t' n'"
      "told t (ps_net s) (reply_wire msg) t' n'"
      "\<And>pend. t_sock t \<noteq> -1 \<Longrightarrow> queue_bytes (t_queue t) (n_mem (ps_net s)) = Some pend \<Longrightarrow>
         reply_round (rest_of t (ps_net s)) (t_sock t) t (ps_net s) (pend @ reply_wire msg) t' n'"
    using Reply_step [OF t(3,2) psrv_invD(3) [OF inv], where msg = msg] told_reply [OF t(2)] by blast
  define s2 where "s2 = s1\<lparr>ps_objs := (ps_objs s1)(p \<mapsto> (Suc c, t')), ps_net := n'\<rparr>"
  have s2: "on_obj (task_OnMQRecv e msg) p s1 = Some s2" "psrv_inv e [p] s2" "ps_objs s2 p = Some (Suc c, t')"
    using on_obj_inv [OF s1(2,3), of "task_OnMQRecv e msg" t' n'] r s1(4) by (simp_all add: s2_def)
  define s' where "s' = s2\<lparr>ps_objs := (ps_objs s2)(p \<mapsto> (c, t'))\<rparr>"
  have s': "obj_release p s2 = Some s'" "psrv_inv e [] s'"
    using obj_release_inv [OF s2(2)] s2(3) c by (auto simp: s'_def)
  have objs: "ps_objs s' = (ps_objs s)(p \<mapsto> (c, t'))" "ps_net s' = n'" "objTaskMap s' = objTaskMap s"
    by (simp_all add: s'_def s2_def s1_def)
  have same: "same_on (rest_of t (ps_net s)) (n_mem (ps_net s)) (n_mem n')"
    and conns: "\<And>f. f \<noteq> t_sock t \<or> t_sock t = -1 \<Longrightarrow> n_conn n' f = n_conn (ps_net s) f"
    using r(2) by (simp_all add: task_step_def)
  have other: "told u (ps_net s) (if t_pos u = ?pos then reply_wire msg else []) u n'"
    if q: "ps_objs s q = Some (k, u)" "q \<noteq> p" for q k u
  proof -
    have "objTaskMap s (t_pos u) = Some q" using objs_okD(1) [OF o q(1)] by (auto simp: refs_def split: if_splits)
    then have "t_pos u \<noteq> ?pos" using p q(2) by auto
    have good: "task_good u (ps_net s)" and in_rest: "set (t_blocks u) \<subseteq> rest_of t (ps_net s)" and apart: "apart t u"
      using tasks_okD(1) [OF ok q(1)] others(1) [OF ok t(1) q] by auto
    have "told u (ps_net s) [] u n'"
    proof (cases "t_sock u = -1")
      case False
      then obtain pend where pend: "queue_ok (t_queue u)" "queue_settled (t_queue u)"
          "queue_bytes (t_queue u) (n_mem (ps_net s)) = Some pend"
        using good by (auto simp: task_good_def)
      have "same_on (set (q_blocks (t_queue u))) (n_mem (ps_net s)) (n_mem n')"
        by (rule same_on_mono [OF same]) (use in_rest in \<open>auto simp: t_blocks_def\<close>)
      from queue_bytes_frame [OF pend(3,1,2) this] pend(3) show ?thesis
        using conns [of "t_sock u"] apart False by (auto simp: told_def apart_def)
    qed (simp add: told_def)
    with \<open>t_pos u \<noteq> ?pos\<close> show ?thesis by simp
  qed
  have "n_conn n' f = n_conn (ps_net s) f" if "0 \<le> f" "\<forall>p c t. ps_objs s p = Some (c, t) \<longrightarrow> t_sock t \<noteq> f" for f
    using conns [of f] that t(1) by auto
  then have "all_told (\<lambda>pos. if pos = ?pos then reply_wire msg else []) s s'"
    unfolding all_told_def objs
    using t(1) r(3) pos other by (auto split: if_splits)
  moreover have "only_told p s s'"
  proof -
    have "t_sock t' = t_sock t" if live: "t_sock t \<noteq> -1" "writes_ok (n_conn (ps_net s) (t_sock t))"
    proof -
      obtain pend where "queue_bytes (t_queue t) (n_mem (ps_net s)) = Some pend" using t(2) live(1) by (auto simp: task_good_def)
      with r(4) live show ?thesis by (auto simp: reply_round_def)
    qed
    then show ?thesis using t(1) conns by (simp add: only_told_def objs)
  qed
  ultimately show ?thesis using s1(1) s2(1) s' objs(3) by blast
qed

text \<open>The replies for a position, in order.\<close>

fun replies_for :: "'m penv \<Rightarrow> string list \<Rightarrow> 32 word \<Rightarrow> byte list" where
  "replies_for e [] pos = []"
| "replies_for e (m # ms) pos =
     (case rc_trans (e_rc e) m of
        None \<Rightarrow> []
      | Some msg \<Rightarrow> if pos = of_int (client_pos msg) then reply_wire msg else []) @ replies_for e ms pos"

lemma reply_loop_told:
  assumes "psrv_inv e [] s"
  shows "\<exists>s'. psrv_reply_loop e ms s = Some s' \<and> psrv_inv e [] s' \<and> objTaskMap s' = objTaskMap s
    \<and> all_told (replies_for e ms) s s'"
  using assms
proof (induction ms arbitrary: s)
  case Nil
  moreover have "replies_for e [] = (\<lambda>_. [])" by auto
  ultimately show ?case using all_told_refl by auto
next
  case (Cons m ms)
  have skip: "\<exists>s'. psrv_reply_loop e (m # ms) s = Some s' \<and> psrv_inv e [] s' \<and> objTaskMap s' = objTaskMap s
    \<and> all_told (replies_for e (m # ms)) s s'"
    if "psrv_reply_loop e (m # ms) s = psrv_reply_loop e ms s"
      "\<And>q. objTaskMap s q \<noteq> None \<Longrightarrow> replies_for e (m # ms) q = replies_for e ms q"
  proof -
    obtain s' where s': "psrv_reply_loop e ms s = Some s'" "psrv_inv e [] s'" "objTaskMap s' = objTaskMap s"
        "all_told (replies_for e ms) s s'"
      using Cons by blast
    have mapped: "objTaskMap s (t_pos t) \<noteq> None" if "ps_objs s p = Some (c, t)" for p c t
      using objs_okD(1) [OF psrv_invD(1) [OF Cons.prems] that] by (auto simp: refs_def split: if_splits)
    have "all_told (replies_for e (m # ms)) s s'"
      using s'(4) that(2) [OF mapped] unfolding all_told_def by auto
    with s' that(1) show ?thesis by auto
  qed
  show ?case
  proof (cases "rc_trans (e_rc e) m")
    case None
    then show ?thesis by (intro skip) simp_all
  next
    case (Some msg)
    let ?pos = "of_int (client_pos msg) :: 32 word"
    show ?thesis
    proof (cases "objTaskMap s ?pos")
      case None
      then show ?thesis using Some by (intro skip) (auto simp: psrv_FindTask_def)
    next
      case p: (Some p)
      obtain s1 s2 s3 where s3: "psrv_FindTask ?pos s = Some (Some p, s1)" "on_obj (task_OnMQRecv e msg) p s1 = Some s2"
          "obj_release p s2 = Some s3" "psrv_inv e [] s3" "objTaskMap s3 = objTaskMap s"
          "all_told (\<lambda>pos. if pos = ?pos then reply_wire msg else []) s s3"
        using reply_one [OF Cons.prems p] by blast
      obtain s' where s': "psrv_reply_loop e ms s3 = Some s'" "psrv_inv e [] s'" "objTaskMap s' = objTaskMap s3"
          "all_told (replies_for e ms) s3 s'"
        using Cons.IH [OF s3(4)] by blast
      have "replies_for e (m # ms) = (\<lambda>pos. (if pos = ?pos then reply_wire msg else []) @ replies_for e ms pos)"
        using Some by auto
      then show ?thesis using all_told_trans [OF s3(6) s'(4) Cons.prems] s' s3 Some by simp
    qed
  qed
qed


lemma RecvMsgs_all: "\<forall>m \<in> set (pm_inbox q). m \<noteq> [] \<Longrightarrow> pmq_RecvMsgs q = (pm_inbox q, q\<lparr>pm_inbox := []\<rparr>)"
proof (induction "pm_inbox q" arbitrary: q)
  case Nil
  then have "q\<lparr>pm_inbox := []\<rparr> = q" by (cases q) simp
  with Nil show ?case by (subst pmq_RecvMsgs.simps) (simp add: pmq_RecvMsg_def)
next
  case (Cons m ms)
  have "pmq_RecvMsgs (q\<lparr>pm_inbox := ms\<rparr>) = (ms, q\<lparr>pm_inbox := []\<rparr>)" using Cons(1) [of "q\<lparr>pm_inbox := ms\<rparr>"] Cons(2,3) by (cases q) auto
  then show ?case using Cons(2) [symmetric] Cons(3) by (subst pmq_RecvMsgs.simps) (simp add: pmq_RecvMsg_def)
qed

lemma OnMqRecv_told:
  assumes inv: "psrv_inv e [] s" and msgs: "\<forall>m \<in> set (pm_inbox (n_mq (ps_net s))). m \<noteq> []"
  shows "\<exists>s'. psrv_OnMqRecv e s = Some (pm_inbox (n_mq (ps_net s)) \<noteq> [], s') \<and> psrv_inv e [] s' \<and> objTaskMap s' = objTaskMap s
    \<and> all_told (replies_for e (pm_inbox (n_mq (ps_net s)))) s s'"
proof -
  let ?q = "n_mq (ps_net s)"
  define s1 where "s1 = s\<lparr>ps_net := (ps_net s)\<lparr>n_mq := ?q\<lparr>pm_inbox := []\<rparr>\<rparr>\<rparr>"
  have inv1: "psrv_inv e [] s1" using inv_mq [OF inv, of "?q\<lparr>pm_inbox := []\<rparr>"] by (simp add: s1_def)
  obtain s' where s': "psrv_reply_loop e (pm_inbox ?q) s1 = Some s'" "psrv_inv e [] s'" "objTaskMap s' = objTaskMap s1"
      "all_told (replies_for e (pm_inbox ?q)) s1 s'"
    using reply_loop_told [OF inv1] by blast
  have "psrv_OnMqRecv e s = Some (pm_inbox ?q \<noteq> [], s')"
    using RecvMsgs_all [OF msgs] s'(1) by (cases "pm_inbox ?q") (auto simp: psrv_OnMqRecv_def s1_def)
  moreover have "all_told (replies_for e (pm_inbox ?q)) s s'"
    using s'(4) by (simp add: all_told_def told_def s1_def)
  ultimately show ?thesis using s'(2,3) by (simp add: s1_def)
qed

lemma OnMqRecv_single:
  assumes inv: "psrv_inv e [] s" and msg: "pm_inbox (n_mq (ps_net s)) = [m]" "m \<noteq> []" "rc_trans (e_rc e) m = Some msg"
    and p: "objTaskMap s (of_int (client_pos msg)) = Some p" and s': "psrv_OnMqRecv e s = Some (r, s')"
  shows "only_told p s s'"
proof -
  let ?q = "n_mq (ps_net s)"
  define s1 where "s1 = s\<lparr>ps_net := (ps_net s)\<lparr>n_mq := ?q\<lparr>pm_inbox := []\<rparr>\<rparr>\<rparr>"
  have inv1: "psrv_inv e [] s1" using inv_mq [OF inv, of "?q\<lparr>pm_inbox := []\<rparr>"] by (simp add: s1_def)
  have p1: "objTaskMap s1 (of_int (client_pos msg)) = Some p" using p by (simp add: s1_def)
  obtain s2 s3 s4 where "psrv_FindTask (of_int (client_pos msg)) s1 = Some (Some p, s2)" "on_obj (task_OnMQRecv e msg) p s2 = Some s3"
      "obj_release p s3 = Some s4" "only_told p s1 s4"
    using reply_one [OF inv1 p1] by blast
  moreover have "pmq_RecvMsgs ?q = ([m], ?q\<lparr>pm_inbox := []\<rparr>)" using RecvMsgs_all [of ?q] msg(1,2) by simp
  then have "psrv_OnMqRecv e s = do { s' \<leftarrow> psrv_reply_loop e [m] s1; Some (True, s') }"
    by (simp add: psrv_OnMqRecv_def s1_def del: psrv_reply_loop.simps)
  ultimately have "only_told p s1 s'" using s' msg(3) by simp
  then show ?thesis by (simp add: only_told_def s1_def)
qed

section \<open>Starting\<close>

lemma connect_sks: "pmq_connect z as q = (r, q') \<Longrightarrow> 0 \<le> r \<Longrightarrow> length (push_sks q') = length (push_sks q) + length as"
  by (induction z as q rule: pmq_connect.induct) (auto simp: Let_def split: if_splits)

lemma Init_sks:
  assumes "pmq_Init z cfg q = (r, q')" "0 \<le> r"
  shows "push_sks q' \<noteq> []"
  using assms by (auto simp: pmq_Init_def Let_def split: if_splits prod.splits)

lemma StartListen_fields:
  assumes "psrv_StartListen e ip la s = (ret, addr, s')"
  shows "ps_objs s' = ps_objs s \<and> objTaskMap s' = objTaskMap s \<and> ps_next s' = ps_next s \<and> n_mem (ps_net s') = n_mem (ps_net s)
    \<and> n_conn (ps_net s') = n_conn (ps_net s) \<and> (0 \<le> ret \<longrightarrow> push_sks (n_mq (ps_net s')) \<noteq> [])"
proof -
  obtain r q where q: "pmq_Init (e_zmq e) (e_cfg e) (n_mq (ps_net s)) = (r, q)" by fastforce
  show ?thesis
  proof (cases "la_epoll la < 0")
    case True
    then show ?thesis using assms by (auto simp: psrv_StartListen_def psrv_Init_def)
  next
    case False
    then show ?thesis using assms q Init_sks [OF q]
      by (auto simp: psrv_StartListen_def psrv_Init_def Let_def ep_Add_def split: if_splits prod.splits)
  qed
qed

lemma psrv_start:
  assumes n: "c_open (n_conn n 0)" "n_mem n = mem_empty" and e: "(of_int (bucket_num (e_cfg e)) :: 32 word) \<noteq> 0"
    "\<forall>sk m. 0 \<le> zmq_send (e_zmq e) sk m"
    and s0: "psrv_StartListen e ip la (psrv_new n limit) = (ret, addr, s0)"
  shows "objs_ok [] (objTaskMap s0) (ps_next s0) (ps_objs s0)" "tasks_ok (ps_objs s0) (ps_net s0)"
    "0 \<le> ret \<Longrightarrow> psrv_inv e [] (s0\<lparr>bLoop := True\<rparr>)"
proof -
  have f: "ps_objs s0 = Map.empty" "objTaskMap s0 = Map.empty" "n_mem (ps_net s0) = mem_empty" "c_open (n_conn (ps_net s0) 0)"
    "0 \<le> ret \<Longrightarrow> push_sks (n_mq (ps_net s0)) \<noteq> []"
    using StartListen_fields [OF s0] n by (simp_all add: psrv_new_def)
  show start: "objs_ok [] (objTaskMap s0) (ps_next s0) (ps_objs s0)" "tasks_ok (ps_objs s0) (ps_net s0)"
    using f(1-4) by (simp_all add: objs_ok_def tasks_ok_def mem_empty_def mem_ok_def)
  then show "0 \<le> ret \<Longrightarrow> psrv_inv e [] (s0\<lparr>bLoop := True\<rparr>)" using f(5) e by (simp add: psrv_inv_def mq_works_def)
qed

lemma run_inv:
  assumes n: "c_open (n_conn n 0)" "n_mem n = mem_empty" and e: "(of_int (bucket_num (e_cfg e)) :: 32 word) \<noteq> 0"
    "\<forall>sk m. 0 \<le> zmq_send (e_zmq e) sk m"
    and run: "psrv_Run e ip la rs (psrv_new n limit) = Some (ret, s)" "0 \<le> ret"
  shows "psrv_inv e [] s"
proof -
  obtain r addr s0 where s0: "psrv_StartListen e ip la (psrv_new n limit) = (r, addr, s0)" by (metis prod_cases3)
  with run have "\<not> r < 0" "psrv_loop e rs (s0\<lparr>bLoop := True\<rparr>) = Some s"
    by (auto simp: psrv_Run_def split: if_splits Option.bind_splits)
  with loop_inv [OF psrv_start(3) [OF n e s0], of rs] show ?thesis by simp
qed

section \<open>A small proxy\<close>

definition sample_srv_net :: net where
  "sample_srv_net = \<lparr>n_mem = mem_empty, n_conn = \<lambda>f. \<lparr>c_rx = [], c_end = RxAgain, c_tx = [], c_wr = [], c_open = f < 5\<rparr>,
     n_epoll = [], n_mq = pmq_new\<rparr>"

definition sample_srv_env :: "string penv" where
  "sample_srv_env = sample_penv\<lparr>e_rc := (e_rc sample_penv)\<lparr>rc_trans := \<lambda>m. Some \<lparr>cmd_id = 0, client_pos = 1, src = '''', app_data = m\<rparr>\<rparr>\<rparr>"

definition sample_listen :: listen_ans where
  "sample_listen = \<lparr>la_epoll = 3, la_socket = 4, la_nodelay = 0, la_reuse = 0, la_getfl = 0, la_setfl = 0,
     la_pton = \<lambda>_. (1, 0), la_bind = \<lambda>_. 0, la_listen = 0, la_add = 0\<rparr>"

definition sample_accepted :: accepted where
  "sample_accepted = \<lparr>ac_ip = ''127.0.0.1'', ac_conn = \<lparr>c_rx = [], c_end = RxAgain, c_tx = [], c_wr = [WrSome 4], c_open = False\<rparr>,
     ac_getfl = 0, ac_setfl = 0, ac_nodelay = 0, ac_sndbuf = 0, ac_rcvbuf = 0, ac_epoll = 0\<rparr>"

definition sample_rounds :: "srv_round list" where
  "sample_rounds = [([WConnects sample_accepted], \<lambda>_. 1, Some [(0, {EPOLLIN})])]"

lemma sample_srv_hyps:
  "c_open (n_conn sample_srv_net 0)" "n_mem sample_srv_net = mem_empty" "(of_int (bucket_num (e_cfg sample_srv_env)) :: 32 word) \<noteq> 0"
  "\<forall>sk m. 0 \<le> zmq_send (e_zmq sample_srv_env) sk m"
  by (simp_all add: sample_srv_net_def sample_srv_env_def sample_penv_def sample_cfg_def)

lemma AcceptTask_one:
  "sock_accept s = Some (fd, a, s1) \<Longrightarrow> psrv_accept_one e fd a s1 = Some (True, s2) \<Longrightarrow> sock_accept s2 = None \<Longrightarrow>
   psrv_AcceptTask e s = Some (0, s2)"
  by (subst psrv_AcceptTask.simps, simp, subst psrv_AcceptTask.simps, simp)

lemma sample_run_eq:
  obtains s t where "psrv_Run sample_srv_env '''' sample_listen sample_rounds (psrv_new sample_srv_net 16) = Some (0, s)"
   "ps_objs s 0 = Some (1, t)" "t_pos t = 1" "t_sock t = 5" "t_queue t = []" "c_tx (n_conn (ps_net s) 5) = []"
   "pm_inbox (n_mq (ps_net s)) = []" "writes_ok (n_conn (ps_net s) 5)"
proof -
  obtain t m where new: "task_new 1 5 ''127.0.0.1'' mem_empty = (t, m)" by fastforce
  have t: "t_pos t = 1" "t_sock t = 5" "t_queue t = []"
    using task_new_owns(1-3) [OF mem_ok_empty new] by auto
  obtain addr s0 where s0: "psrv_StartListen sample_srv_env '''' sample_listen (psrv_new sample_srv_net 16) = (0, addr, s0)"
      "ps_objs s0 = Map.empty" "objTaskMap s0 = Map.empty" "ps_next s0 = 0" "iPosCnt s0 = 0" "ps_limit s0 = 16" "ps_backlog s0 = []"
      "n_mem (ps_net s0) = mem_empty" "n_conn (ps_net s0) = n_conn sample_srv_net" "pm_inbox (n_mq (ps_net s0)) = []"
    by (simp add: psrv_StartListen_def psrv_Init_def sample_listen_def pmq_Init_def sample_srv_env_def sample_penv_def sample_cfg_def
        psrv_MakeNonBlocking_def psrv_new_def ep_Add_def sample_srv_net_def pmq_new_def)
  define s1 where "s1 = s0\<lparr>bLoop := True, ps_backlog := [sample_accepted]\<rparr>"
  define s2 where "s2 = s1\<lparr>ps_backlog := [],
     ps_net := (ps_net s1)\<lparr>n_conn := (n_conn (ps_net s1))(5 := (ac_conn sample_accepted)\<lparr>c_open := True\<rparr>)\<rparr>\<rparr>"
  have a1: "sock_accept s1 = Some (5, sample_accepted, s2)"
    using s0 by (simp add: sock_accept_def s1_def s2_def sample_srv_net_def upt_conv_Cons)
  let ?e = "sample_srv_env\<lparr>e_grant := \<lambda>_. 1\<rparr>"
  define s3 where "s3 = s2\<lparr>iPosCnt := 1, ps_objs := [0 \<mapsto> (1, t)], ps_next := 1, objTaskMap := [1 \<mapsto> 0],
     ps_net := ep_Add ?e 5 1 {EPOLLIN} ((ps_net s2)\<lparr>n_mem := m\<rparr>)\<rparr>"
  have "iPosCnt s2 = 0" "n_mem (ps_net s2) = mem_empty" "ps_objs s2 = Map.empty" "objTaskMap s2 = Map.empty" "ps_next s2 = 0"
    using s0 by (simp_all add: s2_def s1_def)
  then have a2: "psrv_accept_one ?e 5 sample_accepted s2 = Some (True, s3)"
    by (simp add: psrv_accept_one_def psrv_next_pos_def sample_accepted_def psrv_MakeNonBlocking_def new obj_new_def obj_copy_def obj_release_def
        s3_def Let_def)
  have a3: "sock_accept s3 = None" by (simp add: sock_accept_def s3_def s2_def)
  have inbox: "pm_inbox (n_mq (ps_net s3)) = []" using s0(10) by (simp add: s3_def s2_def s1_def ep_Add_def)
  then have "pmq_RecvMsgs (n_mq (ps_net s3)) = ([], n_mq (ps_net s3))"
    by (subst pmq_RecvMsgs.simps) (simp add: pmq_RecvMsg_def)
  then have "psrv_OnMqRecv ?e s3 = Some (False, s3)" by (simp add: psrv_OnMqRecv_def)
  then have "psrv_Run sample_srv_env '''' sample_listen sample_rounds (psrv_new sample_srv_net 16)
      = Some (0, s3\<lparr>ps_sleeps := ps_sleeps s3\<rparr>)"
    using s0(1,7) AcceptTask_one [OF a1 a2 a3]
    by (simp add: psrv_Run_def sample_rounds_def psrv_round_def psrv_one_event_def s1_def Let_def)
  moreover have "c_tx (n_conn (ps_net s3) 5) = []" by (simp add: s3_def s2_def ep_Add_def sample_accepted_def)
  moreover have "writes_ok (n_conn (ps_net s3) 5)" by (simp add: s3_def s2_def ep_Add_def sample_accepted_def writes_ok_def)
  ultimately show ?thesis using that [of s3 t] t inbox by (simp add: s3_def)
qed

section \<open>Properties\<close>

text \<open>C3. Whatever connects, arrives, is closed and whatever the server answers, in any number of
  rounds of the main loop: nothing undefined is done (no use of a deleted object or buffer, no
  second deletion, no call on a closed descriptor). After each run every task is in the map
  under its position and used once, the descriptors of the live tasks are open and distinct, and
  the memory holds the blocks of the tasks and nothing else.\<close>

theorem proxy_run_is_safe:
  assumes "c_open (n_conn n 0)" "n_mem n = mem_empty" "(of_int (bucket_num (e_cfg e)) :: 32 word) \<noteq> 0"
    "\<forall>sk m. 0 \<le> zmq_send (e_zmq e) sk m"
  shows "\<exists>ret s. psrv_Run e ip la rs (psrv_new n limit) = Some (ret, s)
    \<and> (\<forall>p c t. ps_objs s p = Some (c, t) \<longrightarrow> c = 1 \<and> t_pos t \<noteq> 0 \<and> objTaskMap s (t_pos t) = Some p
         \<and> (task_IsTerminate t \<or> c_open (n_conn (ps_net s) (t_sock t))))
    \<and> (\<forall>pos p. objTaskMap s pos = Some p \<longrightarrow> (\<exists>t. ps_objs s p = Some (1, t) \<and> t_pos t = pos))
    \<and> (\<forall>p c t q d u. ps_objs s p = Some (c, t) \<longrightarrow> ps_objs s q = Some (d, u) \<longrightarrow> p \<noteq> q \<longrightarrow>
         task_IsTerminate t \<or> t_sock t \<noteq> t_sock u)
    \<and> dom (m_blocks (n_mem (ps_net s))) = {b. \<exists>p c t. ps_objs s p = Some (c, t) \<and> b \<in> set (t_blocks t)}"
proof -
  obtain ret addr s0 where s0: "psrv_StartListen e ip la (psrv_new n limit) = (ret, addr, s0)" by (metis prod_cases3)
  note start = psrv_start [OF assms s0]
  have "\<exists>s. psrv_Run e ip la rs (psrv_new n limit) = Some (ret, s)
    \<and> objs_ok [] (objTaskMap s) (ps_next s) (ps_objs s) \<and> tasks_ok (ps_objs s) (ps_net s)"
  proof (cases "ret < 0")
    case True
    then show ?thesis using s0 start by (simp add: psrv_Run_def)
  next
    case False
    with loop_inv [OF start(3), of rs] show ?thesis using s0 False by (auto simp: psrv_Run_def psrv_inv_def)
  qed
  then obtain s where run: "psrv_Run e ip la rs (psrv_new n limit) = Some (ret, s)"
    and o: "objs_ok [] (objTaskMap s) (ps_next s) (ps_objs s)" and ok: "tasks_ok (ps_objs s) (ps_net s)" by blast
  have obj: "c = 1 \<and> objTaskMap s (t_pos t) = Some p \<and> t_pos t \<noteq> 0
      \<and> (task_IsTerminate t \<or> c_open (n_conn (ps_net s) (t_sock t)))"
    if p: "ps_objs s p = Some (c, t)" for p c t
  proof -
    have "c = 1" "objTaskMap s (t_pos t) = Some p" using objs_okD(1) [OF o p] by (auto simp: refs_def split: if_splits)
    then show ?thesis using objs_okD(2) [OF o] tasks_okD(1) [OF ok p] by (auto simp: task_good_def task_IsTerminate_def)
  qed
  have "task_IsTerminate t \<or> t_sock t \<noteq> t_sock u" if "ps_objs s p = Some (c, t)" "ps_objs s q = Some (d, u)" "p \<noteq> q" for p c t q d u
    using tasks_okD(2) [OF ok that] by (auto simp: apart_def task_IsTerminate_def)
  moreover have "\<exists>t. ps_objs s p = Some (1, t) \<and> t_pos t = pos" if "objTaskMap s pos = Some p" for pos p
    using objs_okD(2) [OF o that] obj by auto
  ultimately show ?thesis using run obj tasks_okD(4) [OF ok] by (intro exI [of _ ret] exI [of _ s]) simp
qed

theorem proxy_run_is_safe_witness:
  "\<exists>ret s. psrv_Run sample_srv_env '''' sample_listen sample_rounds (psrv_new sample_srv_net 16) = Some (ret, s)
    \<and> (\<exists>t. ps_objs s 0 = Some (1, t) \<and> t_sock t = 5 \<and> set (t_blocks t) \<subseteq> dom (m_blocks (n_mem (ps_net s)))
         \<and> c_open (n_conn (ps_net s) 5))"
proof -
  obtain r t where r: "psrv_Run sample_srv_env '''' sample_listen sample_rounds (psrv_new sample_srv_net 16) = Some (0, r)"
      "ps_objs r 0 = Some (1, t)" "t_sock t = 5"
    by (rule sample_run_eq) (rule that)
  have "(task_IsTerminate t \<or> c_open (n_conn (ps_net r) (t_sock t)))
     \<and> dom (m_blocks (n_mem (ps_net r))) = {b. \<exists>p c t. ps_objs r p = Some (c, t) \<and> b \<in> set (t_blocks t)}"
    using proxy_run_is_safe [OF sample_srv_hyps, of "''''" sample_listen sample_rounds 16] r(2)
    unfolding r(1) option.inject prod.inject by blast
  then have "set (t_blocks t) \<subseteq> dom (m_blocks (n_mem (ps_net r)))" "c_open (n_conn (ps_net r) 5)"
    using r(2,3) by (auto simp: task_IsTerminate_def)
  with r show ?thesis by blast
qed

text \<open>C4. The replies that wait at the message queue reach the clients they name: after \<open>OnMqRecv\<close>, in
  any state the proxy runs into, what each client was sent and what still waits in its queue is
  what it was before with the replies for its position behind it, in order; the connections
  without a task are not touched.\<close>

theorem proxy_replies_reach_clients:
  assumes "c_open (n_conn n 0)" "n_mem n = mem_empty" "(of_int (bucket_num (e_cfg e)) :: 32 word) \<noteq> 0"
    "\<forall>sk m. 0 \<le> zmq_send (e_zmq e) sk m"
    and "psrv_Run e ip la rs (psrv_new n limit) = Some (ret, r)" "0 \<le> ret"
    and "s = fold psrv_world ws r" "msgs = pm_inbox (n_mq (ps_net s))" "\<forall>m \<in> set msgs. m \<noteq> []"
  shows "\<exists>s'. psrv_OnMqRecv e s = Some (msgs \<noteq> [], s')
    \<and> (\<forall>p c t. ps_objs s p = Some (c, t) \<longrightarrow> (\<exists>t'. ps_objs s' p = Some (c, t') \<and> t_pos t' = t_pos t
         \<and> (\<not> task_IsTerminate t \<longrightarrow> (\<exists>pend pend'. queue_bytes (t_queue t) (n_mem (ps_net s)) = Some pend
              \<and> c_tx (n_conn (ps_net s') (t_sock t)) @ pend'
                = c_tx (n_conn (ps_net s) (t_sock t)) @ pend @ replies_for e msgs (t_pos t)
              \<and> (\<not> task_IsTerminate t' \<longrightarrow> t_sock t' = t_sock t \<and> queue_bytes (t_queue t') (n_mem (ps_net s')) = Some pend')))))
    \<and> (\<forall>f. 0 \<le> f \<longrightarrow> (\<forall>p c t. ps_objs s p = Some (c, t) \<longrightarrow> t_sock t \<noteq> f) \<longrightarrow> n_conn (ps_net s') f = n_conn (ps_net s) f)"
proof -
  have inv: "psrv_inv e [] s" unfolding assms(7) by (rule worlds_inv [OF run_inv [OF assms(1-6)]])
  obtain s' where s': "psrv_OnMqRecv e s = Some (msgs \<noteq> [], s')" "all_told (replies_for e msgs) s s'"
    using OnMqRecv_told [OF inv] assms(8,9) by auto
  have "\<exists>t'. ps_objs s' p = Some (c, t') \<and> t_pos t' = t_pos t
         \<and> (\<not> task_IsTerminate t \<longrightarrow> (\<exists>pend pend'. queue_bytes (t_queue t) (n_mem (ps_net s)) = Some pend
              \<and> c_tx (n_conn (ps_net s') (t_sock t)) @ pend'
                = c_tx (n_conn (ps_net s) (t_sock t)) @ pend @ replies_for e msgs (t_pos t)
              \<and> (\<not> task_IsTerminate t' \<longrightarrow> t_sock t' = t_sock t \<and> queue_bytes (t_queue t') (n_mem (ps_net s')) = Some pend')))"
    if p: "ps_objs s p = Some (c, t)" for p c t
  proof -
    obtain t' where t': "ps_objs s' p = Some (c, t')" "told t (ps_net s) (replies_for e msgs (t_pos t)) t' (ps_net s')"
      using all_toldD(1) [OF s'(2) p] by blast
    from told_live [OF t'(2)] t'(1) told_sock [OF t'(2)] show ?thesis by blast
  qed
  with s'(1) all_toldD(3) [OF s'(2)] show ?thesis by blast
qed

theorem proxy_replies_reach_clients_witness:
  "\<exists>r s s' t t'. psrv_Run sample_srv_env '''' sample_listen sample_rounds (psrv_new sample_srv_net 16) = Some (0, r)
    \<and> s = psrv_world (WMessage ''ok'') r \<and> ps_objs s 0 = Some (1, t) \<and> psrv_OnMqRecv sample_srv_env s = Some (True, s')
    \<and> ps_objs s' 0 = Some (1, t')
    \<and> (\<exists>pend. c_tx (n_conn (ps_net s') 5) @ pend = reply_wire \<lparr>cmd_id = 0, client_pos = 1, src = '''', app_data = ''ok''\<rparr>)"
proof -
  obtain r t where r: "psrv_Run sample_srv_env '''' sample_listen sample_rounds (psrv_new sample_srv_net 16) = Some (0, r)"
      "ps_objs r 0 = Some (1, t)" "t_pos t = 1" "t_sock t = 5" "t_queue t = []" "c_tx (n_conn (ps_net r) 5) = []"
      "pm_inbox (n_mq (ps_net r)) = []"
    by (rule sample_run_eq) (rule that)
  define s where "s = psrv_world (WMessage ''ok'') r"
  have s: "ps_objs s 0 = Some (1, t)" "c_tx (n_conn (ps_net s) 5) = []" "pm_inbox (n_mq (ps_net s)) = [''ok'']"
    using r by (simp_all add: s_def)
  have live: "\<not> task_IsTerminate t" using r(4) by (simp add: task_IsTerminate_def)
  have w: "replies_for sample_srv_env [''ok''] (t_pos t) = reply_wire \<lparr>cmd_id = 0, client_pos = 1, src = '''', app_data = ''ok''\<rparr>"
    by (simp add: r(3) sample_srv_env_def)
  have "s = fold psrv_world [WMessage ''ok''] r" "[''ok''] = pm_inbox (n_mq (ps_net s))" "\<forall>m \<in> set [''ok'']. m \<noteq> []"
    using s(3) by (simp_all add: s_def)
  from proxy_replies_reach_clients [OF sample_srv_hyps r(1) _ this] s(1) live obtain s' t' pend pend'
    where "psrv_OnMqRecv sample_srv_env s = Some (True, s')" "ps_objs s' 0 = Some (1, t')"
      "queue_bytes (t_queue t) (n_mem (ps_net s)) = Some pend"
      "c_tx (n_conn (ps_net s') (t_sock t)) @ pend' = c_tx (n_conn (ps_net s) (t_sock t)) @ pend
         @ replies_for sample_srv_env [''ok''] (t_pos t)"
    by fastforce
  then have "psrv_OnMqRecv sample_srv_env s = Some (True, s')" "ps_objs s' 0 = Some (1, t')"
      "c_tx (n_conn (ps_net s') 5) @ pend' = reply_wire \<lparr>cmd_id = 0, client_pos = 1, src = '''', app_data = ''ok''\<rparr>"
    using r(4,5) s(2) unfolding w by auto
  with r(1) s(1) s_def show ?thesis by blast
qed

text \<open>C36. A setup call that fails on an accepted connection: \<open>AcceptTask\<close> returns, the descriptor
  stays open although no task has it, and the connections behind it are not accepted.\<close>

theorem proxy_failed_setup_leaks:
  assumes "psrv_inv e [] s" "sock_accept s = Some (fd, a, s1)"
    and "ac_getfl a < 0 \<or> ac_setfl a < 0 \<or> ac_nodelay a < 0 \<or> ac_sndbuf a < 0 \<or> ac_rcvbuf a < 0"
  shows "\<exists>s'. psrv_AcceptTask e s = Some (-1, s') \<and> \<not> c_open (n_conn (ps_net s) fd) \<and> c_open (n_conn (ps_net s') fd)
    \<and> (\<forall>p c t. ps_objs s' p = Some (c, t) \<longrightarrow> t_sock t \<noteq> fd) \<and> ps_backlog s' = tl (ps_backlog s)"
proof -
  have s1: "\<not> c_open (n_conn (ps_net s) fd)" "0 \<le> fd" "c_open (n_conn (ps_net s1) fd)" "ps_objs s1 = ps_objs s"
    "ps_backlog s1 = tl (ps_backlog s)"
    using assms(2) by (cases s rule: sock_accept_cases; auto)+
  have "psrv_accept_one e fd a s1 = Some (False, s1\<lparr>iPosCnt := psrv_next_pos (iPosCnt s1)\<rparr>)"
    using assms(3) by (auto simp: psrv_accept_one_def psrv_MakeNonBlocking_def Let_def)
  then have "psrv_AcceptTask e s = Some (-1, s1\<lparr>iPosCnt := psrv_next_pos (iPosCnt s1)\<rparr>)"
    using assms(2) by (subst psrv_AcceptTask.simps) simp
  moreover have "t_sock t \<noteq> fd" if "ps_objs s p = Some (c, t)" for p c t
    using tasks_okD(1) [OF psrv_invD(2) [OF assms(1)] that] s1(1,2) by (auto simp: task_good_def)
  ultimately show ?thesis using s1 by simp
qed


definition sample_refused :: pserver where
  "sample_refused = (psrv_new (sample_srv_net\<lparr>n_mq := sample_pmq\<rparr>) 16)\<lparr>ps_backlog := [sample_accepted\<lparr>ac_nodelay := -1\<rparr>, sample_accepted]\<rparr>"

theorem proxy_failed_setup_leaks_witness:
  "\<exists>s'. psrv_AcceptTask sample_srv_env sample_refused = Some (-1, s') \<and> \<not> c_open (n_conn (ps_net sample_refused) 5)
    \<and> c_open (n_conn (ps_net s') 5) \<and> (\<forall>p c t. ps_objs s' p = Some (c, t) \<longrightarrow> t_sock t \<noteq> 5) \<and> ps_backlog s' = [sample_accepted]"
proof -
  have inv: "psrv_inv sample_srv_env [] sample_refused"
    by (simp add: psrv_inv_def objs_ok_def tasks_ok_def sample_refused_def psrv_new_def sample_srv_net_def mem_empty_def mem_ok_def
        mq_works_def sample_pmq_def sample_srv_env_def sample_penv_def sample_cfg_def)
  have acc: "sock_accept sample_refused = Some (5, sample_accepted\<lparr>ac_nodelay := -1\<rparr>, sample_refused\<lparr>ps_backlog := [sample_accepted],
      ps_net := (ps_net sample_refused)\<lparr>n_conn := (n_conn (ps_net sample_refused))(5 := (ac_conn sample_accepted)\<lparr>c_open := True\<rparr>)\<rparr>\<rparr>)"
    by (simp add: sock_accept_def sample_refused_def psrv_new_def sample_srv_net_def upt_conv_Cons)
  have "tl (ps_backlog sample_refused) = [sample_accepted]" by (simp add: sample_refused_def)
  with proxy_failed_setup_leaks [OF inv acc] show ?thesis by simp
qed

end
