(* ===== verification/ClientSpec.thy ===== *)
theory ClientSpec
  imports Client ProxyTaskRecv
begin

text \<open>
  What the client does: a request goes out as one package the proxy parses back, and a response that
  arrives in one piece is what the caller gets; a response that arrives in pieces, a blank line and a
  connection that failed once are not handled.
\<close>

section \<open>The package of a request\<close>

lemma packages_one:
  assumes "length h = 8" "take 4 h = net_bytes (of_nat (8 + length ds))" "take 2 (drop 4 h) = net16_bytes i" "8 + length ds \<le> 32768"
  shows "packages (h @ ds) = ([(i, ds)], [], False)"
proof -
  define l where "l = (of_nat (8 + length ds) :: 32 word)"
  have l: "unat l = 8 + length ds" unfolding l_def by (rule trans [OF unat_of_nat_small]) (use assms(4) in simp_all)
  have ok: "\<not> l > MAX_CMD_LEN" using assms(4) by (simp add: word_less_nat_alt l MAX_CMD_LEN_def)
  have "packages [] = ([], [], False)" by (simp add: packages.simps)
  moreover have "take 4 h = net_bytes l" using assms(2) by (simp only: l_def)
  ultimately show ?thesis using assms(1,3) l ok by (subst packages.simps) (simp add: Let_def)
qed

lemma head_written:
  assumes "8 + length ds \<le> length buf"
  obtains buf' h where "do { b \<leftarrow> buf_put buf 4 (net16_bytes i); b \<leftarrow> buf_put b 0 (net_bytes l); buf_put b sizeof_MsgHead ds } = Some buf'"
    "take (8 + length ds) buf' = h @ ds" "length h = 8" "take 4 h = net_bytes l" "take 2 (drop 4 h) = net16_bytes i" "length buf' = length buf"
proof
  let ?h = "net_bytes l @ net16_bytes i @ take 2 (drop 6 buf)"
  let ?b = "?h @ ds @ drop (8 + length ds) buf"
  have "buf_put buf 4 (net16_bytes i) = Some (take 4 buf @ net16_bytes i @ drop 6 buf)"
    using assms by (simp add: buf_put_def)
  moreover have "buf_put (take 4 buf @ net16_bytes i @ drop 6 buf) 0 (net_bytes l) = Some (net_bytes l @ net16_bytes i @ drop 6 buf)"
    using assms by (simp add: buf_put_def)
  moreover have "buf_put (net_bytes l @ net16_bytes i @ drop 6 buf) sizeof_MsgHead ds = Some ?b"
    using assms by (simp add: buf_put_def sizeof_MsgHead_def)
  ultimately show "do { b \<leftarrow> buf_put buf 4 (net16_bytes i); b \<leftarrow> buf_put b 0 (net_bytes l); buf_put b sizeof_MsgHead ds } = Some ?b"
    by simp
  show "take (8 + length ds) ?b = ?h @ ds" "length ?h = 8" "take 4 ?h = net_bytes l" "take 2 (drop 4 ?h) = net16_bytes i" "length ?b = length buf"
    using assms by (simp_all add: numeral_2_eq_2)
qed

section \<open>One exchange\<close>

lemma count_ready_any: "waits_ok a n \<Longrightarrow> waits_ok b n \<Longrightarrow> count_ready a n = count_ready b n"
proof -
  assume "waits_ok a n" "waits_ok b n"
  then have "ready a x = ready b x" if "x \<in> set (cn_polls n)" for x using that by (auto simp: waits_ok_def ready_def)
  then show ?thesis unfolding count_ready_def by (metis (mono_tags, lifting) filter_cong)
qed

lemma waits_ok_mono: "waits_ok ev n \<Longrightarrow> set (cn_polls n') \<subseteq> set (cn_polls n) \<Longrightarrow> waits_ok ev n'"
  by (auto simp: waits_ok_def)

text \<open>The answers are good: waits end, writes take something, and there are enough of both.\<close>

definition answers_ok :: "nat \<Rightarrow> cnet \<Rightarrow> bool" where
  "answers_ok k n \<longleftrightarrow> waits_ok POLLIN n \<and> waits_ok POLLOUT n \<and> writes_ok n \<and> k \<le> count_ok n \<and> length (cn_writes n) < count_ready POLLOUT n"

lemma no_zero_writes: "writes_ok n \<Longrightarrow> SysOk 0 \<notin> set (cn_writes n)"
  by (auto simp: writes_ok_def)

lemma tc_exchange:
  assumes ok: "answers_ok len n" and len: "0 < len" "len \<le> length buf" and rd: "cn_reads n = SysOk k # rs" "0 < k"
    and reply: "cn_in n (tc_socket c) = reply" "reply \<noteq> []" and rv: "0 < rv" "rv \<le> length rbuf"
  obtains n' where "tc_send_and_recv e buf len rbuf rv c n
      = (let data = take (min k rv) reply in Some (0, (data @ drop (length data) rbuf, length data), c, n'))"
    "cn_sent n' (tc_socket c) = cn_sent n (tc_socket c) @ take len buf"
proof -
  have "\<exists>n1. tc_send_loop e buf len 0 c n = Some (0, c, n1) \<and> set (cn_polls n1) \<subseteq> set (cn_polls n)
      \<and> count_ready POLLOUT n + length (cn_writes n1) \<le> count_ready POLLOUT n1 + length (cn_writes n)"
    using ok len by (intro send_loop_completes) (auto simp: answers_ok_def)
  then obtain n1 where s: "tc_send_loop e buf len 0 c n = Some (0, c, n1)" "set (cn_polls n1) \<subseteq> set (cn_polls n)"
    "count_ready POLLOUT n + length (cn_writes n1) \<le> count_ready POLLOUT n1 + length (cn_writes n)" by blast
  have r: "cn_sent n1 (tc_socket c) = cn_sent n (tc_socket c) @ take len buf" "cn_in n1 = cn_in n" "cn_reads n1 = cn_reads n"
    using send_loop_result [OF s(1)] ok no_zero_writes [of n] by (auto simp: answers_ok_def)
  have w: "waits_ok POLLIN n1" "waits_ok POLLOUT n1" using ok s(2) waits_ok_mono by (auto simp: answers_ok_def)
  have "0 < count_ready POLLOUT n1" using ok s(3) by (simp add: answers_ok_def)
  then have "0 < count_ready POLLIN n1" using count_ready_any [OF w] by simp
  then obtain n2 where n2: "tc_recv e (Some rbuf) rv 0 c n1 = (let data = take (min k rv) reply in Some (0, (data @ drop (length data) rbuf, length data), c, n2))"
    using recv_once [OF w(1), of k rs rv c rbuf e] rd reply rv r by auto
  have sent: "cn_sent n2 = cn_sent n1"
    by (rule recv_sent [of e "Some rbuf" rv 0 c n1 0]) (use n2 in \<open>simp add: Let_def\<close>)
  show ?thesis
  proof
    show "tc_send_and_recv e buf len rbuf rv c n = (let data = take (min k rv) reply in Some (0, (data @ drop (length data) rbuf, length data), c, n2))"
      using s(1) n2 by (simp add: tc_send_and_recv_def tc_send_def Let_def)
    show "cn_sent n2 (tc_socket c) = cn_sent n (tc_socket c) @ take len buf" using r sent by simp
  qed
qed

text \<open>The bytes the caller's parser is given.\<close>

definition reply_data :: "byte list \<Rightarrow> nat \<Rightarrow> byte list option" where
  "reply_data rvBuf rv =
     (let data_len = unat (if rv > sizeof_MsgHead then net_word (take 4 rvBuf) - of_nat sizeof_MsgHead else 0) in
      if rv > sizeof_MsgHead \<and> data_len > rv then None else Some (take data_len (drop sizeof_MsgHead rvBuf)))"

lemma exchange_parses:
  assumes bufs: "length (cl_sendBuff s) = MAX_BUFF_LEN" "length (cl_rvBuf s) = MAX_BUFF_LEN"
    and up: "0 \<le> tc_check_connect (cl_tcp s)"
    and req: "8 + length (cc_ser pc req) \<le> 32768"
    and ok: "answers_ok (8 + length (cc_ser pc req)) (cl_net s)"
    and rd: "cn_reads (cl_net s) = SysOk k # rs" "0 < k" "length (take k reply) \<le> MAX_BUFF_LEN - 8" "cn_in (cl_net s) (tc_socket (cl_tcp s)) = reply" "reply \<noteq> []"
  obtains s' wire where "cl_send_and_recv pc cmd req s = Some (case Option.bind (reply_data (take k reply @ drop (length (take k reply)) (cl_rvBuf s)) (length (take k reply))) (cc_parse pc cmd) of
        None \<Rightarrow> (-1, None, s') | Some rsp \<Rightarrow> (0, Some rsp, s'))"
    "cn_sent (cl_net s') (tc_socket (cl_tcp s)) = cn_sent (cl_net s) (tc_socket (cl_tcp s)) @ wire"
    "packages wire = ([(of_int cmd, cc_ser pc req)], [], False)"
    "length (cl_sendBuff s') = MAX_BUFF_LEN" "length (cl_rvBuf s') = MAX_BUFF_LEN" "cl_tcp s' = cl_tcp s"
proof -
  let ?ds = "cc_ser pc req" and ?got = "take k reply" and ?fd = "tc_socket (cl_tcp s)"
  let ?size = "sizeof_MsgHead + length ?ds"
  have len: "8 + length ?ds \<le> length (cl_sendBuff s)" using bufs(1) req by simp
  obtain buf h where b: "do { b \<leftarrow> buf_put (cl_sendBuff s) 4 (net16_bytes (of_int cmd)); b \<leftarrow> buf_put b 0 (net_bytes (of_nat ?size)); buf_put b sizeof_MsgHead ?ds } = Some buf"
    "take (8 + length ?ds) buf = h @ ?ds" "length h = 8" "take 4 h = net_bytes (of_nat ?size)" "take 2 (drop 4 h) = net16_bytes (of_int cmd)"
    "length buf = length (cl_sendBuff s)"
    by (rule head_written [OF len])
  have big: "(0::nat) < MAX_BUFF_LEN" by simp
  obtain n' where x: "tc_send_and_recv (cc_env pc) buf (8 + length ?ds) (cl_rvBuf s) MAX_BUFF_LEN (cl_tcp s) (cl_net s)
      = (let data = take (min k MAX_BUFF_LEN) reply in Some (0, (data @ drop (length data) (cl_rvBuf s), length data), cl_tcp s, n'))"
    "cn_sent n' ?fd = cn_sent (cl_net s) ?fd @ take (8 + length ?ds) buf"
    using tc_exchange [OF ok _ _ rd(1,2,4,5) big, of buf "cl_rvBuf s" "cc_env pc"] len b(6) bufs(2) by auto
  let ?rv = "?got @ drop (length ?got) (cl_rvBuf s)"
  have rv: "length ?rv = MAX_BUFF_LEN" "length ?got \<le> MAX_BUFF_LEN - 8" using bufs(2) rd(3) by simp_all
  have "take (min k MAX_BUFF_LEN) reply = take MAX_BUFF_LEN ?got" by (simp add: min.commute)
  moreover have "take MAX_BUFF_LEN ?got = ?got" by (rule take_all) (use rv(2) in simp)
  ultimately have data: "take (min k MAX_BUFF_LEN) reply = ?got" by (simp only:)
  have x': "tc_send_and_recv (cc_env pc) buf (sizeof_MsgHead + length ?ds) (cl_rvBuf s) MAX_BUFF_LEN (cl_tcp s) (cl_net s)
      = Some (0, (?rv, length ?got), cl_tcp s, n')"
    using x(1) data by (simp only: Let_def sizeof_MsgHead_def)
  define s1 where "s1 = s\<lparr>cl_sendBuff := buf, cl_rvBuf := ?rv, cl_net := n'\<rparr>"
  define dl where "dl = (if length ?got > sizeof_MsgHead then net_word (take 4 ?rv) - of_nat sizeof_MsgHead else 0)"
  define bad where "bad \<longleftrightarrow> length ?got > sizeof_MsgHead \<and> unat dl > length ?got"
  have inside: "\<not> bad \<Longrightarrow> \<not> sizeof_MsgHead + unat dl > length ?rv"
    using rv by (auto simp: bad_def dl_def sizeof_MsgHead_def)
  have run: "cl_send_and_recv pc cmd req s = (if bad then Some (-1, None, cl_print (OutInvalid (sint dl)) s1)
      else (case cc_parse pc cmd (take (unat dl) (drop sizeof_MsgHead ?rv)) of None \<Rightarrow> Some (-1, None, s1) | Some rsp \<Rightarrow> Some (0, Some rsp, s1)))"
  proof -
    have "cl_send_and_recv pc cmd req s = do {
        b \<leftarrow> do { b \<leftarrow> buf_put (cl_sendBuff s) 4 (net16_bytes (of_int cmd)); b \<leftarrow> buf_put b 0 (net_bytes (of_nat ?size)); buf_put b sizeof_MsgHead ?ds };
        (r, (rvBuf, rv), c, n) \<leftarrow> tc_send_and_recv (cc_env pc) b ?size (cl_rvBuf s) MAX_BUFF_LEN (cl_tcp s) (cl_net s);
        let s = s\<lparr>cl_sendBuff := b, cl_rvBuf := rvBuf, cl_tcp := c, cl_net := n\<rparr>;
        if r < 0 then Some (-1, None, s)
        else do {
          let data_len = (if rv > sizeof_MsgHead then net_word (take 4 rvBuf) - of_nat sizeof_MsgHead else 0);
          if rv > sizeof_MsgHead \<and> unat data_len > rv then Some (-1, None, cl_print (OutInvalid (sint data_len)) s)
          else if sizeof_MsgHead + unat data_len > length rvBuf then None
          else (case cc_parse pc cmd (take (unat data_len) (drop sizeof_MsgHead rvBuf)) of
                  None \<Rightarrow> Some (-1, None, s)
                | Some rsp \<Rightarrow> Some (0, Some rsp, s))
        } }"
      using up by (simp add: cl_send_and_recv_def Let_def)
    also have "\<dots> = (if bad then Some (-1, None, cl_print (OutInvalid (sint dl)) s1)
      else (case cc_parse pc cmd (take (unat dl) (drop sizeof_MsgHead ?rv)) of None \<Rightarrow> Some (-1, None, s1) | Some rsp \<Rightarrow> Some (0, Some rsp, s1)))"
      unfolding b(1) Option.bind.bind_lunit x' prod.case Let_def dl_def [symmetric] bad_def [symmetric]
      using inside by (simp add: s1_def cl_print_def split: option.split)
    finally show ?thesis .
  qed
  show ?thesis
  proof (rule that)
    let ?s' = "if bad then cl_print (OutInvalid (sint dl)) s1 else s1"
    have data: "reply_data ?rv (length ?got) = (if bad then None else Some (take (unat dl) (drop sizeof_MsgHead ?rv)))"
      by (simp only: reply_data_def Let_def dl_def [symmetric] bad_def [symmetric])
    show "cl_send_and_recv pc cmd req s = Some (case Option.bind (reply_data ?rv (length ?got)) (cc_parse pc cmd) of
        None \<Rightarrow> (-1, None, ?s') | Some rsp \<Rightarrow> (0, Some rsp, ?s'))"
      unfolding run data by (simp split: option.split)
    show "cn_sent (cl_net ?s') ?fd = cn_sent (cl_net s) ?fd @ (h @ ?ds)" using x(2) b(2) by (simp add: s1_def cl_print_def)
    show "packages (h @ ?ds) = ([(of_int cmd, ?ds)], [], False)" using b(3-5) req by (intro packages_one) (simp_all add: sizeof_MsgHead_def)
    show "length (cl_sendBuff ?s') = MAX_BUFF_LEN" "length (cl_rvBuf ?s') = MAX_BUFF_LEN" "cl_tcp ?s' = cl_tcp s"
      using b(6) bufs(1) rv(1) by (simp_all add: s1_def cl_print_def)
  qed
qed

section \<open>The mark of a failed connection\<close>

text \<open>Once an exchange failed, the connection is closed and opened again before every exchange.\<close>

lemma send_and_recv_mark:
  "tc_send_and_recv e b len rb rv c n = Some (r, bl, c', n') \<Longrightarrow> tc_check_connect c < 0 \<Longrightarrow> tc_check_connect c' < 0"
  by (auto simp: tc_send_and_recv_def split: bind_splits if_splits dest!: tc_send_mark tc_recv_mark)

theorem client_reconnects_forever:
  assumes "tc_check_connect (cl_tcp s) < 0" "cl_send_and_recv pc cmd req s = Some (r, rsp, s')"
  shows "tc_check_connect (cl_tcp s') < 0"
  using assms by (auto simp: cl_send_and_recv_def Let_def cl_print_def split: bind_splits if_splits option.splits
      dest!: send_and_recv_mark tc_reconnect_check)

lemma reply_data_whole: "8 + length ds \<le> 32768 \<Longrightarrow> reply_data (cmd_wire i ds @ rest) (8 + length ds) = Some ds"
proof -
  assume len: "8 + length ds \<le> 32768"
  define l where "l = (of_nat (8 + length ds) :: 32 word)"
  have "l - 8 = of_nat (length ds)" by (simp add: l_def)
  then have "unat (l - 8) = length ds" using unat_of_nat_small [of "length ds", where 'a = 32] len by simp
  moreover have "take 4 (cmd_wire i ds @ rest) = net_bytes l" by (simp add: cmd_wire_def msg_head_fields l_def sizeof_MsgHead_def)
  moreover have "drop 8 (cmd_wire i ds @ rest) = ds @ rest" by (simp add: cmd_wire_def)
  ultimately show ?thesis by (cases "ds = []") (simp_all add: reply_data_def sizeof_MsgHead_def Let_def)
qed

section \<open>Properties\<close>

text \<open>A client that is connected, with its two buffers and answers that are good enough for a request.\<close>

definition cl_ready :: "cli_codec \<Rightarrow> cli_req \<Rightarrow> client \<Rightarrow> bool" where
  "cl_ready pc req s \<longleftrightarrow> length (cl_sendBuff s) = MAX_BUFF_LEN \<and> length (cl_rvBuf s) = MAX_BUFF_LEN
     \<and> 0 \<le> tc_check_connect (cl_tcp s) \<and> 8 + length (cc_ser pc req) \<le> 32768 \<and> answers_ok (8 + length (cc_ser pc req)) (cl_net s)"

text \<open>C10. An exchange of a connected client: whatever pieces the request is written in, what is added to
  the connection is one package that the proxy's reading of the stream takes as the command with
  the serialised request, and when the proxy's package for a response arrives in one read, the
  parser is given exactly the response's data; the connection stays unmarked.\<close>

theorem client_exchange:
  assumes "cl_ready pc req s" "8 + length ds \<le> 32768" "8 + length ds \<le> k"
    and "cn_reads (cl_net s) = SysOk k # rs" "cn_in (cl_net s) (tc_socket (cl_tcp s)) = cmd_wire i ds"
  shows "\<exists>s' wire. cl_send_and_recv pc cmd req s = Some (case cc_parse pc cmd ds of None \<Rightarrow> (-1, None, s') | Some rsp \<Rightarrow> (0, Some rsp, s'))
    \<and> cn_sent (cl_net s') (tc_socket (cl_tcp s)) = cn_sent (cl_net s) (tc_socket (cl_tcp s)) @ wire
    \<and> packages wire = ([(of_int cmd, cc_ser pc req)], [], False) \<and> cl_tcp s' = cl_tcp s"
proof -
  have r: "length (cmd_wire i ds) = 8 + length ds" "take k (cmd_wire i ds) = cmd_wire i ds" "cmd_wire i ds \<noteq> []" "0 < k"
    using assms(3) by (auto simp: cmd_wire_def msg_head_def net_bytes_def)
  show ?thesis
    by (rule exchange_parses [of s pc req k rs "cmd_wire i ds" cmd])
      (use assms r reply_data_whole [OF assms(2)] in \<open>auto simp: cl_ready_def\<close>)
qed

definition sample_cli :: cli_codec where
  "sample_cli = \<lparr>cc_ser = (\<lambda>_. [7]), cc_parse = (\<lambda>_ ds. if ds = [9] then Some (SetBatchRsp 0 '''' 1) else None), cc_stod = (\<lambda>_. Some 1),
     cc_env = \<lparr>ce_inet_addr = (\<lambda>_. 0), ce_inet_pton = (\<lambda>_. (1, 0)), ce_strerror = (\<lambda>_. ''''), ce_show = (\<lambda>_. '''')\<rparr>\<rparr>"

definition sample_cnet :: "nat \<Rightarrow> cnet" where
  "sample_cnet k = \<lparr>cn_sockets = [], cn_fcntls = [], cn_connects = [], cn_opts = [], cn_epfds = [], cn_ctls = [],
     cn_polls = SysErr EINTR # replicate 10 (SysOk (1, 5)), cn_writes = replicate 9 (SysOk 4), cn_reads = [SysOk k],
     cn_open = {3}, cn_sent = (\<lambda>_. []), cn_in = (\<lambda>_. cmd_wire 1 [9]), cn_errno = 0, cn_waits = [], cn_setfl = []\<rparr>"

definition sample_client :: "nat \<Rightarrow> byte list \<Rightarrow> client" where
  "sample_client k old = \<lparr>cl_tcp = tc_new\<lparr>tc_socket := 3, tc_socket_inited := True, tc_check_connect := 0\<rparr>,
     cl_sendBuff = replicate MAX_BUFF_LEN 0, cl_rvBuf = old, cl_net = sample_cnet k, cl_out = []\<rparr>"

lemma sample_ready: "length old = MAX_BUFF_LEN \<Longrightarrow> cl_ready sample_cli req (sample_client k old)"
proof -
  have "\<not> ready POLLIN (SysErr EINTR)" "\<not> ready POLLOUT (SysErr EINTR)" "ready POLLIN (SysOk (1, 5))" "ready POLLOUT (SysOk (1, 5))"
    by (simp_all add: ready_def)
  then show "length old = MAX_BUFF_LEN \<Longrightarrow> cl_ready sample_cli req (sample_client k old)"
    by (simp add: cl_ready_def sample_client_def sample_cli_def sample_cnet_def answers_ok_def waits_ok_def writes_ok_def count_ok_def count_ready_def)
qed

lemma client_exchange_witness:
  "\<exists>s' wire. cl_send_and_recv sample_cli 4099 (SetBatchReq ''k'' []) (sample_client 100 (replicate MAX_BUFF_LEN 0)) = Some (0, Some (SetBatchRsp 0 '''' 1), s')
    \<and> cn_sent (cl_net s') 3 = wire \<and> packages wire = ([(4099, [7])], [], False)"
proof -
  have "cn_reads (cl_net (sample_client 100 old)) = SysOk 100 # []" "cn_in (cl_net (sample_client 100 old)) (tc_socket (cl_tcp (sample_client 100 old))) = cmd_wire 1 [9]" for old
    by (simp_all add: sample_client_def sample_cnet_def)
  note x = client_exchange [where ds = "[9]" and cmd = 4099, OF sample_ready _ _ this, of "replicate MAX_BUFF_LEN 0" "SetBatchReq ''k'' []"]
  show ?thesis using x by (auto simp: sample_cli_def sample_client_def sample_cnet_def)
qed

text \<open>A response that arrives in pieces: when the first read ends at most eight bytes before the end
  of the package, the check of the length lets it pass, and the parser is given the data read so
  far with what the buffer held of earlier responses behind it.\<close>

theorem client_reads_stale_bytes:
  assumes "cl_ready pc req s" "8 + length ds \<le> 32768" "8 < m" "m < 8 + length ds" "length ds \<le> m"
    and "cn_reads (cl_net s) = SysOk m # rs" "cn_in (cl_net s) (tc_socket (cl_tcp s)) = cmd_wire i ds"
  shows "\<exists>s'. cl_send_and_recv pc cmd req s =
    Some (case cc_parse pc cmd (take (m - 8) ds @ take (8 + length ds - m) (drop m (cl_rvBuf s))) of None \<Rightarrow> (-1, None, s') | Some rsp \<Rightarrow> (0, Some rsp, s'))"
proof -
  let ?w = "cmd_wire i ds"
  have w: "length ?w = 8 + length ds" "?w \<noteq> []" "0 < m" using assms(3) by (auto simp: cmd_wire_def msg_head_def net_bytes_def)
  define l where "l = (of_nat (8 + length ds) :: 32 word)"
  have "l - 8 = of_nat (length ds)" by (simp add: l_def)
  then have l: "unat (l - 8) = length ds" using unat_of_nat_small [of "length ds", where 'a = 32] assms(2) by simp
  let ?b = "take m ?w @ drop m (cl_rvBuf s)"
  have t: "take 4 ?b = net_bytes l"
    using assms(3) by (simp add: cmd_wire_def msg_head_fields l_def sizeof_MsgHead_def)
  have d: "drop 8 ?b = take (m - 8) ds @ drop m (cl_rvBuf s)"
    using assms(3,4) by (simp add: cmd_wire_def drop_take)
  have "unat (if m > 8 then net_word (take 4 ?b) - of_nat 8 else 0 :: 32 word) = length ds" unfolding t using assms(3) l by simp
  then have data: "reply_data ?b m = Some (take (m - 8) ds @ take (8 + length ds - m) (drop m (cl_rvBuf s)))"
    unfolding reply_data_def sizeof_MsgHead_def d Let_def using assms(3-5) by (simp add: add.commute)
  show ?thesis
    by (rule exchange_parses [of s pc req m rs ?w cmd]) (use assms w data in \<open>auto simp: cl_ready_def\<close>)
qed

lemma client_reads_stale_bytes_witness:
  "\<exists>s'. cl_send_and_recv sample_cli 4099 (SetBatchReq ''k'' []) ((sample_client 9 (replicate MAX_BUFF_LEN 5))\<lparr>cl_net := (sample_cnet 9)\<lparr>cn_in := (\<lambda>_. cmd_wire 1 [1, 2])\<rparr>\<rparr>)
    = Some (case cc_parse sample_cli 4099 [1, 5] of None \<Rightarrow> (-1, None, s') | Some rsp \<Rightarrow> (0, Some rsp, s'))"
proof -
  let ?s = "(sample_client 9 (replicate MAX_BUFF_LEN 5))\<lparr>cl_net := (sample_cnet 9)\<lparr>cn_in := (\<lambda>_. cmd_wire 1 [1, 2])\<rparr>\<rparr>"
  have "cl_ready sample_cli req ?s" for req
    using sample_ready [of "replicate MAX_BUFF_LEN 5" req 9]
    by (simp add: cl_ready_def sample_client_def answers_ok_def waits_ok_def writes_ok_def count_ok_def count_ready_def)
  moreover have "cn_reads (cl_net ?s) = SysOk 9 # []" "cn_in (cl_net ?s) (tc_socket (cl_tcp ?s)) = cmd_wire 1 [1, 2]"
    by (simp_all add: sample_client_def sample_cnet_def)
  ultimately show ?thesis
    using client_reads_stale_bytes [of sample_cli "SetBatchReq ''k'' []" ?s "[1, 2]" 9 "[]" 1 4099]
    by (simp add: sample_client_def)
qed

text \<open>A blank line has no words, and its first word is asked for.\<close>

lemma client_blank_line: "DelSpaceStr (SplitStringUsing '''' (CHR '' '') 0) = []" "cl_main_loop pc ('''' # inputs) s = None"
  by (simp_all add: DelSpaceStr_def SplitStringUsing_def cl_HandleReq_def)

end
