(* ===== verification/EpollClient.thy ===== *)
theory EpollClient
  imports ClientSocket
begin

unbundle bit_operations_syntax

text \<open>
  The client's socket on \<open>epoll\<close>, \<open>bis/src/client/epoll_client.{h,cpp}\<close>, over the same answers of the
  system. \<open>None\<close> is a call that does not return, or reading or writing outside a buffer.
\<close>

section \<open>State\<close>

abbreviation (input) EPOLLIN :: "16 word" where "EPOLLIN \<equiv> 0x001"
abbreviation (input) EPOLLOUT :: "16 word" where "EPOLLOUT \<equiv> 0x004"
abbreviation (input) EPOLLERR :: "16 word" where "EPOLLERR \<equiv> 0x008"
abbreviation (input) EPOLLHUP :: "16 word" where "EPOLLHUP \<equiv> 0x010"

definition EBADF :: int where "EBADF = 9"

datatype ipaddr_type = IPV6 | IPV4
datatype flags_block = NON_BLOCK | BLOCK

record epoll_client =
  ec_errmsg :: string
  ec_ip :: string
  ec_type_addr :: ipaddr_type
  ec_port :: "32 word"
  ec_socket :: int
  ec_svraddr :: "16 word \<times> 32 word"
  ec_socket_inited :: bool
  ec_check_conn :: bool
  ec_rw_time_out :: "32 word"
  ec_connect_time_out :: "32 word"
  ec_epoll_fd :: int
  ec_evs :: "16 word"

definition ec_new :: epoll_client where
  "ec_new = \<lparr>ec_errmsg = '''', ec_ip = '''', ec_type_addr = IPV4, ec_port = 0, ec_socket = -1, ec_svraddr = (0, 0),
     ec_socket_inited = False, ec_check_conn = False, ec_rw_time_out = 500, ec_connect_time_out = 300, ec_epoll_fd = -1, ec_evs = 0\<rparr>"

definition ec_SetErrMsg :: "string \<Rightarrow> epoll_client \<Rightarrow> epoll_client" where
  "ec_SetErrMsg s c = c\<lparr>ec_errmsg := take 1023 s\<rparr>"

text \<open>A descriptor that is none is refused, without an answer of the script.\<close>

definition sys_epoll_create :: "cnet \<Rightarrow> (int sys \<times> cnet) option" where
  "sys_epoll_create n = (case cn_epfds n of [] \<Rightarrow> None
     | a # as \<Rightarrow> Some (a, sys_errno a (n\<lparr>cn_epfds := as, cn_open := cn_open n \<union> (case a of SysOk fd \<Rightarrow> {fd} | SysErr _ \<Rightarrow> {})\<rparr>)))"

definition sys_epoll_ctl :: "int \<Rightarrow> cnet \<Rightarrow> (unit sys \<times> cnet) option" where
  "sys_epoll_ctl epfd n =
     (if epfd < 0 then Some (SysErr EBADF, n\<lparr>cn_errno := EBADF\<rparr>)
      else case cn_ctls n of [] \<Rightarrow> None | a # as \<Rightarrow> Some (a, sys_errno a (n\<lparr>cn_ctls := as\<rparr>)))"

section \<open>Waiting\<close>

definition ec_CtlEpollEvent :: "cenv \<Rightarrow> epoll_client \<Rightarrow> cnet \<Rightarrow> (int \<times> epoll_client \<times> cnet) option" where
  "ec_CtlEpollEvent e c n = do {
     (a, n) \<leftarrow> sys_epoll_ctl (ec_epoll_fd c) n;
     (case a of
        SysErr err \<Rightarrow> Some (-1, ec_SetErrMsg (''epoll event mod fail:'' @ ce_strerror e err @ ''.'') c, n)
      | SysOk _ \<Rightarrow> Some (0, c, n))
   }"

partial_function (option) ec_EpollWait :: "cenv \<Rightarrow> 16 word \<Rightarrow> 32 word \<Rightarrow> epoll_client \<Rightarrow> cnet \<Rightarrow> (int \<times> epoll_client \<times> cnet) option" where
  "ec_EpollWait e events time_out c n = do {
     (a, n) \<leftarrow> sys_poll (ec_epoll_fd c) events (sint time_out) (n\<lparr>cn_errno := 0\<rparr>);
     (case a of
        SysErr err \<Rightarrow>
          if err \<noteq> EINTR then Some (-1, ec_SetErrMsg (''other err:'' @ ce_strerror e err) c, n)
          else ec_EpollWait e events time_out c n
      | SysOk (num, evs) \<Rightarrow>
          if num = 0 then Some (-1, ec_SetErrMsg ''wait time out'' c, n\<lparr>cn_errno := ETIMEDOUT\<rparr>)
          else
            let c = c\<lparr>ec_evs := evs\<rparr> in
            if evs AND events \<noteq> 0 then Some (0, c, n)
            else if evs AND EPOLLHUP \<noteq> 0 then Some (-1, ec_SetErrMsg ''epoll hand up.'' c, n)
            else if evs AND EPOLLERR \<noteq> 0 then Some (-1, ec_SetErrMsg ''epoll err.'' c, n)
            else Some (-1, ec_SetErrMsg ''unkown err'' c, n))
   }"

declare ec_EpollWait.simps [code]

text \<open>Adding or modifying the descriptor, then waiting.\<close>

definition ec_Wait :: "cenv \<Rightarrow> 16 word \<Rightarrow> 32 word \<Rightarrow> epoll_client \<Rightarrow> cnet \<Rightarrow> (int \<times> epoll_client \<times> cnet) option" where
  "ec_Wait e events time_out c n = do {
     (r, c, n) \<leftarrow> ec_CtlEpollEvent e c n;
     if r < 0 then Some (-1, c, n) else ec_EpollWait e events time_out c n
   }"

section \<open>Connecting\<close>

definition ec_InitSocket :: "epoll_client \<Rightarrow> cnet \<Rightarrow> (int \<times> epoll_client \<times> cnet) option" where
  "ec_InitSocket c n =
     (if ec_socket_inited c then Some (0, c, n)
      else do {
        (a, n) \<leftarrow> sys_socket n;
        (case a of
           SysErr _ \<Rightarrow> Some (-1, ec_SetErrMsg ''get socket socket_ fail.'' (c\<lparr>ec_socket := -1\<rparr>), n)
         | SysOk fd \<Rightarrow> Some (0, c\<lparr>ec_socket := fd, ec_socket_inited := True\<rparr>, n))
      })"

definition ec_SetBlockFlag :: "flags_block \<Rightarrow> epoll_client \<Rightarrow> cnet \<Rightarrow> (int \<times> epoll_client \<times> cnet) option" where
  "ec_SetBlockFlag flag c n =
     (if \<not> ec_socket_inited c then Some (-1, ec_SetErrMsg ''socket fd not init.'' c, n)
      else do {
        (a, n) \<leftarrow> sys_getfl n;
        (case a of
           SysErr _ \<Rightarrow> Some (-1, ec_SetErrMsg ''set flag block: get flasg fail.'' c, n)
         | SysOk flags \<Rightarrow> do {
             (a, n) \<leftarrow> sys_setfl (ec_socket c) (if flag = BLOCK then flags AND NOT O_NONBLOCK else flags OR O_NONBLOCK) n;
             (case a of
                SysErr _ \<Rightarrow> Some (-1, ec_SetErrMsg (''set flag block fail.('' @ (if flag = BLOCK then ''1'' else ''0'') @ '')'') c, n)
              | SysOk _ \<Rightarrow> Some (0, c, n))
           })
      })"

definition ec_ToFillSocketAddr :: "cenv \<Rightarrow> epoll_client \<Rightarrow> int \<times> epoll_client" where
  "ec_ToFillSocketAddr e c =
     (let c = c\<lparr>ec_svraddr := (0, 0)\<rparr> in
      if ec_type_addr c = IPV4 then
        let (r, addr) = ce_inet_pton e (ec_ip c); c = c\<lparr>ec_svraddr := (ucast (ec_port c), if r > 0 then addr else 0)\<rparr> in
        if r < 0 then (-1, ec_SetErrMsg ''IP invalid.'' c) else (0, c)
      else (-1, c))"

definition ec_CloseSocket :: "epoll_client \<Rightarrow> cnet \<Rightarrow> epoll_client \<times> cnet" where
  "ec_CloseSocket c n =
     (let (c, n) = (if ec_socket_inited c then (c\<lparr>ec_socket_inited := False\<rparr>, sys_close (ec_socket c) n) else (c, n)) in
      if ec_epoll_fd c \<ge> 0 then (c\<lparr>ec_epoll_fd := -1\<rparr>, sys_close (ec_epoll_fd c) n) else (c, n))"

text \<open>The epoll descriptor is created only when the connection is not established at once.\<close>

definition ec_Connect :: "cenv \<Rightarrow> epoll_client \<Rightarrow> cnet \<Rightarrow> (int \<times> epoll_client \<times> cnet) option" where
  "ec_Connect e c n = do {
     (r, c, n) \<leftarrow> ec_InitSocket c n;
     if r < 0 then Some (-1, c, n)
     else do {
       (r, c, n) \<leftarrow> ec_SetBlockFlag NON_BLOCK c n;
       if r < 0 then Some (-1, c, n)
       else
         let (r, c) = ec_ToFillSocketAddr e c in
         if r < 0 then Some (-1, ec_SetErrMsg ''ip to socket addr struct fail.'' c, n)
         else do {
           (a, n) \<leftarrow> sys_connect (n\<lparr>cn_errno := 0\<rparr>);
           (case a of
              SysOk _ \<Rightarrow> Some (0, c, n)
            | SysErr err \<Rightarrow>
                if err \<noteq> EINPROGRESS then Some (-1, ec_SetErrMsg (''connect fail:'' @ ce_strerror e err) c, n)
                else do {
                  (a, n) \<leftarrow> sys_epoll_create n;
                  (case a of
                     SysErr err \<Rightarrow> Some (-1, ec_SetErrMsg (''create epoll_fd fail:'' @ ce_strerror e err) (c\<lparr>ec_epoll_fd := -1\<rparr>), n)
                   | SysOk epfd \<Rightarrow> do {
                       (r, c, n) \<leftarrow> ec_Wait e EPOLLOUT (ec_connect_time_out c) (c\<lparr>ec_epoll_fd := epfd\<rparr>) n;
                       if r \<noteq> 0 then Some (-1, c, n)
                       else do {
                         (a, n) \<leftarrow> sys_getsockopt n;
                         (case a of
                            SysErr err \<Rightarrow> Some (-1, ec_SetErrMsg (ce_strerror e err) c, n)
                          | SysOk err \<Rightarrow>
                              if err \<noteq> 0 then Some (-1, ec_SetErrMsg (''getsockopt SOL_SOCKET SO_ERROR, error='' @ ce_show e err) c, n)
                              else Some (0, c, n))
                       }
                     })
                })
         }
     }
   }"

definition ec_Init ::
  "cenv \<Rightarrow> string \<Rightarrow> 32 word \<Rightarrow> ipaddr_type \<Rightarrow> 32 word \<Rightarrow> 32 word \<Rightarrow> epoll_client \<Rightarrow> cnet \<Rightarrow> (int \<times> epoll_client \<times> cnet) option" where
  "ec_Init e ip port af rw_time conn_time c n = do {
     (r, c, n) \<leftarrow> ec_Connect e (c\<lparr>ec_rw_time_out := rw_time, ec_connect_time_out := conn_time, ec_port := port, ec_ip := take 127 ip\<rparr>) n;
     if r < 0 then Some (-1, c, n) else Some (0, c\<lparr>ec_check_conn := True\<rparr>, n)
   }"

definition ec_ReconnSvr :: "cenv \<Rightarrow> epoll_client \<Rightarrow> cnet \<Rightarrow> (int \<times> epoll_client \<times> cnet) option" where
  "ec_ReconnSvr e c n = (let (c, n) = ec_CloseSocket c n in ec_Connect e c n)"

section \<open>Sending\<close>

text \<open>\<open>nwriten\<close> is unsigned: an error of \<open>write\<close> is the number \<open>-1\<close> of 32 bits, which is not less than or
  equal to zero, and is taken from what is left and added to the pointer.\<close>

partial_function (option) ec_write_loop :: "byte list \<Rightarrow> nat \<Rightarrow> 32 word \<Rightarrow> epoll_client \<Rightarrow> cnet \<Rightarrow> (32 word option \<times> cnet) option" where
  "ec_write_loop buf ptr nleft c n =
     (if nleft > 0 then
        if ptr + unat nleft > length buf then None
        else do {
          (a, n) \<leftarrow> sys_write (ec_socket c) (take (unat nleft) (drop ptr buf)) n;
          let nwriten = (case a of SysOk k \<Rightarrow> (of_nat k :: 32 word) | SysErr _ \<Rightarrow> - 1);
          if nwriten \<le> 0 then Some (None, n)
          else ec_write_loop buf (ptr + unat nwriten) (nleft - nwriten) c n
        }
      else Some (Some nleft, n))"

declare ec_write_loop.simps [code]

definition ec_Writen :: "byte list \<Rightarrow> 32 word \<Rightarrow> epoll_client \<Rightarrow> cnet \<Rightarrow> (int \<times> cnet) option" where
  "ec_Writen buf k c n = do {
     (r, n) \<leftarrow> ec_write_loop buf 0 k c n;
     Some ((case r of None \<Rightarrow> -1 | Some nleft \<Rightarrow> sint (k - nleft)), n)
   }"

definition ec_Send :: "cenv \<Rightarrow> byte list option \<Rightarrow> 32 word \<Rightarrow> epoll_client \<Rightarrow> cnet \<Rightarrow> (int \<times> epoll_client \<times> cnet) option" where
  "ec_Send e buf bsize c n =
     (case buf of
        None \<Rightarrow> Some (-1, ec_SetErrMsg ''send buffer is null.'' c, n)
      | Some buf \<Rightarrow> do {
          (r, c, n) \<leftarrow> ec_Wait e EPOLLOUT (ec_rw_time_out c) c n;
          if r \<noteq> 0 then Some (-1, c, n)
          else do { (r, n) \<leftarrow> ec_Writen buf bsize c n; Some (r, c, n) }
        })"

section \<open>Receiving\<close>

partial_function (option) ec_read_loop :: "nat \<Rightarrow> int \<Rightarrow> byte list \<Rightarrow> epoll_client \<Rightarrow> cnet \<Rightarrow> (int \<times> byte list \<times> cnet) option" where
  "ec_read_loop ptr nleft buf c n =
     (if nleft > 0 then do {
        (a, n) \<leftarrow> sys_read (ec_socket c) (nat nleft) n;
        (case a of
           SysErr err \<Rightarrow> if err = EINTR then ec_read_loop ptr nleft buf c n else Some (nleft, buf, n)
         | SysOk data \<Rightarrow>
             if data = [] then Some (nleft, buf, n)
             else do {
               buf \<leftarrow> buf_put buf ptr data;
               ec_read_loop (ptr + length data) (nleft - int (length data)) buf c n
             })
      } else Some (nleft, buf, n))"

declare ec_read_loop.simps [code]

definition ec_Readn :: "byte list \<Rightarrow> int \<Rightarrow> epoll_client \<Rightarrow> cnet \<Rightarrow> (int \<times> byte list \<times> cnet) option" where
  "ec_Readn buf nbyes c n = do { (nleft, buf, n) \<leftarrow> ec_read_loop 0 nbyes buf c n; Some (nbyes - nleft, buf, n) }"

text \<open>The answer is the number of bytes, which is also stored in \<open>bsize\<close>.\<close>

definition ec_Recv ::
  "cenv \<Rightarrow> byte list option \<Rightarrow> 32 word \<Rightarrow> 32 word \<Rightarrow> epoll_client \<Rightarrow> cnet \<Rightarrow> (int \<times> (byte list \<times> 32 word) \<times> epoll_client \<times> cnet) option" where
  "ec_Recv e buf bsize excp_len c n =
     (case buf of
        None \<Rightarrow> Some (-1, ([], bsize), ec_SetErrMsg ''recv buffer is null.'' c, n)
      | Some buf \<Rightarrow> do {
          (r, c, n) \<leftarrow> ec_Wait e EPOLLIN (ec_rw_time_out c) c n;
          if r < 0 then Some (-1, (buf, bsize), c, n)
          else do {
            (k, buf, n) \<leftarrow> ec_Readn buf (sint (if excp_len > 0 then excp_len else bsize)) c n;
            Some (sint (of_int k :: 32 word), (buf, of_int k), c, n)
          }
        })"

section \<open>What goes wrong\<close>

text \<open>An error of \<open>write\<close>, also that the socket would block, makes the loop read outside the buffer.\<close>

lemma ec_write_error:
  assumes "cn_writes n = SysErr err # ws" "0 < nleft" "unat nleft < 2 ^ 32 - 1" "ptr + unat nleft \<le> length buf" "length buf < 2 ^ 32 - 1"
  shows "ec_write_loop buf ptr nleft c n = None"
proof -
  define m where "m = n\<lparr>cn_writes := ws, cn_errno := err\<rparr>"
  have big: "unat (- 1 :: 32 word) = 2 ^ 32 - 1" by (simp add: unsigned_minus_1_eq_mask mask_eq_exp_minus_1)
  have "nleft - - 1 \<noteq> 0"
  proof
    assume "nleft - - 1 = 0"
    then have "nleft = - 1" by (simp add: eq_neg_iff_add_eq_0)
    then show False using assms(3) big by simp
  qed
  then have pos: "0 < nleft - - 1" by (simp add: word_neq_0_conv)
  have "ec_write_loop buf (ptr + unat (- 1 :: 32 word)) (nleft - - 1) c m = None"
    using pos assms(5) unfolding big by (subst ec_write_loop.simps) simp
  moreover have "\<not> (- 1 :: 32 word) \<le> 0" by simp
  ultimately show ?thesis using assms(1,2,4) by (subst ec_write_loop.simps) (simp add: sys_write_def m_def)
qed

text \<open>As long as every \<open>write\<close> takes something, all is sent.\<close>

lemma ec_write_loop_sends:
  "\<forall>a \<in> set (cn_writes n). \<exists>k. a = SysOk k \<and> 0 < k \<Longrightarrow> unat nleft \<le> length (cn_writes n) \<Longrightarrow> ptr + unat nleft \<le> length buf \<Longrightarrow>
    \<exists>n'. ec_write_loop buf ptr nleft c n = Some (Some 0, n') \<and>
      cn_sent n' = (cn_sent n)(ec_socket c := cn_sent n (ec_socket c) @ take (unat nleft) (drop ptr buf))"
proof (induction "unat nleft" arbitrary: ptr nleft n rule: less_induct)
  case less
  show ?case
  proof (cases "nleft = 0")
    case True
    then show ?thesis by (subst ec_write_loop.simps) simp
  next
    case False
    then have l: "0 < unat nleft" by (simp add: unat_gt_0)
    then obtain a ws where "cn_writes n = a # ws" using less.prems(2) by (cases "cn_writes n") auto
    with less.prems(1) obtain k where w: "cn_writes n = SysOk k # ws" "0 < k" by auto
    define j where "j = min k (unat nleft)"
    define m where "m = n\<lparr>cn_writes := ws, cn_sent := (cn_sent n)(ec_socket c := cn_sent n (ec_socket c) @ take j (drop ptr buf))\<rparr>"
    have j: "0 < j" "j \<le> unat nleft" using w(2) l by (auto simp: j_def)
    have "min k (length (take (unat nleft) (drop ptr buf))) = j" using less.prems(3) by (auto simp: j_def min_def)
    moreover have "take j (take (unat nleft) (drop ptr buf)) = take j (drop ptr buf)" using j(2) by (simp add: min_def)
    ultimately have sw: "sys_write (ec_socket c) (take (unat nleft) (drop ptr buf)) n = Some (SysOk j, m)"
      using w(1) by (simp add: sys_write_def m_def Let_def)
    have uj: "unat (of_nat j :: 32 word) = j" using j(2) unsigned_less [of nleft, where 'a = nat] by (intro unat_of_nat_small) simp
    then have "(of_nat j :: 32 word) \<noteq> 0" using j(1) by (metis less_irrefl unat_eq_0)
    then have step: "ec_write_loop buf ptr nleft c n = ec_write_loop buf (ptr + j) (nleft - of_nat j) c m"
      using False sw less.prems(3) uj by (subst ec_write_loop.simps) (auto simp: word_neq_0_conv Let_def)
    have un: "unat (nleft - of_nat j) = unat nleft - j"
      using j(2) uj by (simp add: unat_sub word_le_nat_alt)
    have "\<exists>n'. ec_write_loop buf (ptr + j) (nleft - of_nat j) c m = Some (Some 0, n') \<and>
      cn_sent n' = (cn_sent m)(ec_socket c := cn_sent m (ec_socket c) @ take (unat (nleft - of_nat j)) (drop (ptr + j) buf))"
      by (rule less.hyps) (use un j less.prems w(1) l in \<open>simp_all add: m_def\<close>)
    moreover have "take j (drop ptr buf) @ take (unat nleft - j) (drop (ptr + j) buf) = take (unat nleft) (drop ptr buf)"
      using take_add [of j "unat nleft - j" "drop ptr buf"] j(2) by (simp add: add.commute)
    ultimately show ?thesis using step un by (auto simp: m_def)
  qed
qed

text \<open>A connection that is established at once has no epoll descriptor, and nothing can be sent on it.\<close>

lemma ec_connected_at_once:
  assumes "ec_Connect e c n = Some (0, c', n')" "cn_connects n = SysOk () # as" "ec_epoll_fd c = -1"
  shows "ec_epoll_fd c' = -1"
  using assms
  by (auto simp: ec_Connect_def ec_InitSocket_def ec_SetBlockFlag_def ec_ToFillSocketAddr_def ec_SetErrMsg_def sys_socket_def sys_getfl_def
      sys_setfl_def sys_connect_def Let_def split: bind_splits if_splits sys.splits list.splits prod.splits)

lemma ec_no_epoll_no_send: "ec_epoll_fd c = -1 \<Longrightarrow> \<exists>c' n'. ec_Send e (Some buf) k c n = Some (-1, c', n') \<and> cn_sent n' = cn_sent n"
  by (simp add: ec_Send_def ec_Wait_def ec_CtlEpollEvent_def sys_epoll_ctl_def)

end
