(* ===== verification/PtrTree.thy ===== *)
theory PtrTree
  imports Prelude "HOL-Library.Tree" "HOL-Library.Monad_Syntax"
begin

text \<open>
  Trees of nodes with pointers to their children and to their parent, as the binary tree and the
  red-black tree of the repository build them. The heap is seen as a map from an address to its left,
  right and parent pointer; a tree of addresses says which nodes form the tree; a context is a tree
  with one subtree left out, from the hole to the root.
\<close>

type_synonym links = "nat \<Rightarrow> (nat \<times> nat \<times> nat) option"

section \<open>Trees in the heap\<close>

text \<open>\<open>nil\<close> ends the branches; \<open>x\<close> points to the tree and \<open>p\<close> is the parent of its root.\<close>

fun tree_at :: "nat \<Rightarrow> links \<Rightarrow> nat \<Rightarrow> nat \<Rightarrow> nat tree \<Rightarrow> bool" where
  "tree_at nil lk x p Leaf \<longleftrightarrow> x = nil"
| "tree_at nil lk x p (Node l a r) \<longleftrightarrow> x = a \<and> a \<noteq> nil \<and>
     (\<exists>xl xr. lk a = Some (xl, xr, p) \<and> tree_at nil lk xl a l \<and> tree_at nil lk xr a r)"

lemma tree_at_cong: "(\<And>a. a \<in> set_tree t \<Longrightarrow> lk a = lk' a) \<Longrightarrow> tree_at nil lk x p t = tree_at nil lk' x p t"
  by (induction t arbitrary: x p) simp_all

lemma tree_at_upd [simp]: "a \<notin> set_tree t \<Longrightarrow> tree_at nil (lk(a := v)) x p t = tree_at nil lk x p t"
  by (rule tree_at_cong) auto

lemma tree_at_root: "tree_at nil lk x p t \<Longrightarrow> x \<noteq> nil \<Longrightarrow> x \<in> set_tree t"
  by (cases t) auto

lemma tree_at_nil: "tree_at nil lk nil p t \<longleftrightarrow> t = Leaf"
  by (cases t) auto

lemma tree_at_not_nil: "tree_at nil lk x p t \<Longrightarrow> nil \<notin> set_tree t"
  by (induction t arbitrary: x p) auto

lemma tree_at_dom: "tree_at nil lk x p t \<Longrightarrow> a \<in> set_tree t \<Longrightarrow> lk a \<noteq> None"
  by (induction t arbitrary: x p) auto

text \<open>The pointer of the root to its parent is not part of the tree below it.\<close>

definition set_up :: "nat \<Rightarrow> nat \<Rightarrow> links \<Rightarrow> links" where
  "set_up a p lk = lk(a := map_option (\<lambda>(l, r, _). (l, r, p)) (lk a))"

definition set_left :: "nat \<Rightarrow> nat \<Rightarrow> links \<Rightarrow> links" where
  "set_left a x lk = lk(a := map_option (\<lambda>(_, r, p). (x, r, p)) (lk a))"

definition set_right :: "nat \<Rightarrow> nat \<Rightarrow> links \<Rightarrow> links" where
  "set_right a x lk = lk(a := map_option (\<lambda>(l, _, p). (l, x, p)) (lk a))"

lemma set_other [simp]:
  "b \<noteq> a \<Longrightarrow> set_up a p lk b = lk b" "b \<noteq> a \<Longrightarrow> set_left a p lk b = lk b" "b \<noteq> a \<Longrightarrow> set_right a p lk b = lk b"
  by (simp_all add: set_up_def set_left_def set_right_def)

lemma set_same [simp]:
  "lk a = Some (l, r, p) \<Longrightarrow> set_up a q lk a = Some (l, r, q)"
  "lk a = Some (l, r, p) \<Longrightarrow> set_left a q lk a = Some (q, r, p)"
  "lk a = Some (l, r, p) \<Longrightarrow> set_right a q lk a = Some (l, q, p)"
  by (simp_all add: set_up_def set_left_def set_right_def)

lemma tree_at_set [simp]:
  assumes "a \<notin> set_tree t"
  shows "tree_at nil (set_up a q lk) x p t = tree_at nil lk x p t"
    "tree_at nil (set_left a q lk) x p t = tree_at nil lk x p t"
    "tree_at nil (set_right a q lk) x p t = tree_at nil lk x p t"
  using assms by (simp_all add: set_up_def set_left_def set_right_def)

lemma tree_at_set_up:
  "tree_at nil lk x p t \<Longrightarrow> x \<noteq> nil \<Longrightarrow> distinct (inorder t) \<Longrightarrow> tree_at nil (set_up x q lk) x q t"
  by (cases t) auto

section \<open>Contexts\<close>

datatype frame = FL nat "nat tree" | FR "nat tree" nat

type_synonym ctx = "frame list"

fun plug :: "ctx \<Rightarrow> nat tree \<Rightarrow> nat tree" where
  "plug [] t = t"
| "plug (FL a r # c) t = plug c (Node t a r)"
| "plug (FR l a # c) t = plug c (Node l a t)"

fun ctx_before :: "ctx \<Rightarrow> nat list" where
  "ctx_before [] = []"
| "ctx_before (FL a r # c) = ctx_before c"
| "ctx_before (FR l a # c) = ctx_before c @ inorder l @ [a]"

fun ctx_after :: "ctx \<Rightarrow> nat list" where
  "ctx_after [] = []"
| "ctx_after (FL a r # c) = a # inorder r @ ctx_after c"
| "ctx_after (FR l a # c) = ctx_after c"

definition set_ctx :: "ctx \<Rightarrow> nat set" where
  "set_ctx c = set (ctx_before c) \<union> set (ctx_after c)"

lemma set_ctx_simps [simp]:
  "set_ctx [] = {}" "set_ctx (FL a r # c) = insert a (set_tree r \<union> set_ctx c)"
  "set_ctx (FR l a # c) = insert a (set_tree l \<union> set_ctx c)"
  by (auto simp: set_ctx_def)

lemma inorder_plug: "inorder (plug c t) = ctx_before c @ inorder t @ ctx_after c"
  by (induction c t rule: plug.induct) simp_all

lemma distinct_plug:
  "distinct (inorder (plug c t)) \<longleftrightarrow> distinct (inorder t) \<and> distinct (ctx_before c @ ctx_after c) \<and> set_tree t \<inter> set_ctx c = {}"
  by (auto simp: inorder_plug set_ctx_def set_inorder [symmetric] simp del: set_inorder)

lemma set_plug: "set_tree (plug c t) = set_ctx c \<union> set_tree t"
  by (auto simp: set_inorder [symmetric] inorder_plug set_ctx_def simp del: set_inorder)

text \<open>The context in the heap: \<open>rt\<close> points to the whole tree, \<open>x\<close> is the pointer in the hole and \<open>p\<close> the node that
  holds it.\<close>

fun ctx_at :: "nat \<Rightarrow> links \<Rightarrow> nat \<Rightarrow> nat \<Rightarrow> nat \<Rightarrow> ctx \<Rightarrow> bool" where
  "ctx_at nil lk rt x p [] \<longleftrightarrow> rt = x \<and> p = nil"
| "ctx_at nil lk rt x p (FL a r # c) \<longleftrightarrow> p = a \<and> a \<noteq> nil \<and>
     (\<exists>xr q. lk a = Some (x, xr, q) \<and> tree_at nil lk xr a r \<and> ctx_at nil lk rt a q c)"
| "ctx_at nil lk rt x p (FR l a # c) \<longleftrightarrow> p = a \<and> a \<noteq> nil \<and>
     (\<exists>xl q. lk a = Some (xl, x, q) \<and> tree_at nil lk xl a l \<and> ctx_at nil lk rt a q c)"

lemma plug_at:
  "tree_at nil lk rt nil (plug c t) \<longleftrightarrow> (\<exists>x p. tree_at nil lk x p t \<and> ctx_at nil lk rt x p c)"
  by (induction c t rule: plug.induct) (auto 0 4)

lemma ctx_at_cong: "(\<And>a. a \<in> set_ctx c \<Longrightarrow> lk a = lk' a) \<Longrightarrow> ctx_at nil lk rt x p c = ctx_at nil lk' rt x p c"
proof (induction c arbitrary: x p)
  case (Cons f c)
  then show ?case
  proof (cases f)
    case (FL a r)
    have "tree_at nil lk y q r = tree_at nil lk' y q r" for y q by (rule tree_at_cong) (simp add: Cons.prems FL)
    with Cons FL show ?thesis by simp
  next
    case (FR l a)
    have "tree_at nil lk y q l = tree_at nil lk' y q l" for y q by (rule tree_at_cong) (simp add: Cons.prems FR)
    with Cons FR show ?thesis by simp
  qed
qed simp

lemma ctx_at_upd [simp]: "a \<notin> set_ctx c \<Longrightarrow> ctx_at nil (lk(a := v)) rt x p c = ctx_at nil lk rt x p c"
  by (rule ctx_at_cong) auto

lemma ctx_at_set [simp]:
  assumes "a \<notin> set_ctx c"
  shows "ctx_at nil (set_up a q lk) rt x p c = ctx_at nil lk rt x p c"
    "ctx_at nil (set_left a q lk) rt x p c = ctx_at nil lk rt x p c"
    "ctx_at nil (set_right a q lk) rt x p c = ctx_at nil lk rt x p c"
  using assms by (simp_all add: set_up_def set_left_def set_right_def)

lemma ctx_at_parent: "ctx_at nil lk rt x p c \<Longrightarrow> (c = [] \<longleftrightarrow> p = nil) \<and> (p \<noteq> nil \<longrightarrow> p \<in> set_ctx c)"
  by (cases "(nil, lk, rt, x, p, c)" rule: ctx_at.cases) auto

lemma ctx_not_nil: "ctx_at nil lk rt x p c \<Longrightarrow> nil \<notin> set_ctx c"
proof (induction c arbitrary: x p)
  case (Cons f c)
  then show ?case by (cases f) (auto dest: tree_at_not_nil)
qed simp

text \<open>Another pointer in the hole.\<close>

fun fill :: "ctx \<Rightarrow> nat \<Rightarrow> nat \<times> links \<Rightarrow> nat \<times> links" where
  "fill [] v (rt, lk) = (v, lk)"
| "fill (FL a r # c) v (rt, lk) = (rt, set_left a v lk)"
| "fill (FR l a # c) v (rt, lk) = (rt, set_right a v lk)"

lemma fill_at:
  assumes "ctx_at nil lk rt x p c" "distinct (ctx_before c @ ctx_after c)" "fill c v (rt, lk) = (rt', lk')"
  shows "ctx_at nil lk' rt' v p c" "\<And>a. a \<notin> set_ctx c \<Longrightarrow> lk' a = lk a"
    "\<And>t y q. set_tree t \<inter> set_ctx c = {} \<Longrightarrow> tree_at nil lk' y q t = tree_at nil lk y q t"
proof -
  have "ctx_at nil lk' rt' v p c \<and> (\<forall>a. a \<notin> set_ctx c \<longrightarrow> lk' a = lk a)"
  proof (cases c)
    case Nil
    then show ?thesis using assms by simp
  next
    case (Cons f d)
    show ?thesis
    proof (cases f)
      case (FL a r)
      then have "a \<notin> set_tree r" "a \<notin> set_ctx d" using assms(2) Cons
        by (auto simp: set_ctx_def set_inorder [symmetric] simp del: set_inorder)
      then show ?thesis using assms(1,3) Cons FL by auto
    next
      case (FR l a)
      then have "a \<notin> set_tree l" "a \<notin> set_ctx d" using assms(2) Cons
        by (auto simp: set_ctx_def set_inorder [symmetric] simp del: set_inorder)
      then show ?thesis using assms(1,3) Cons FR by auto
    qed
  qed
  then show "ctx_at nil lk' rt' v p c" "\<And>a. a \<notin> set_ctx c \<Longrightarrow> lk' a = lk a" by blast+
  then show "tree_at nil lk' y q t = tree_at nil lk y q t" if "set_tree t \<inter> set_ctx c = {}" for t y q
    using that by (intro tree_at_cong) auto
qed

text \<open>Whether the hole is a left child shows in the pointer of its parent.\<close>

lemma hole_side:
  assumes "ctx_at nil lk rt x p c" "c \<noteq> []" "x \<noteq> nil" "x \<notin> set_ctx c"
  obtains xl xr q where "lk p = Some (xl, xr, q)" "xl = x \<longleftrightarrow> (\<exists>a r d. c = FL a r # d)"
proof (cases c)
  case (Cons f d)
  show ?thesis
  proof (cases f)
    case (FL a r)
    then show ?thesis using assms Cons that by auto
  next
    case (FR l a)
    then obtain xl q where xl: "lk p = Some (xl, x, q)" "tree_at nil lk xl a l" using assms(1) Cons by auto
    then have "xl \<noteq> x" using tree_at_root [of nil lk xl a l] assms(3,4) Cons FR by auto
    then show ?thesis using xl FR Cons that by auto
  qed
qed (use assms in simp)

end
