(* ===== verification/BinaryTree.thy ===== *)
theory BinaryTree
  imports PtrTree
begin

text \<open>
  The binary search tree \<open>binary_tree/binary_tree.h\<close>: nodes with pointers to both children and the
  parent on an explicit heap. \<open>NULL\<close> is the address 0, which is never allocated; \<open>None\<close> is the use of a
  pointer that points to no node, a failed assertion, or a loop that does not end. \<open>new\<close> does not fail.
\<close>

section \<open>State\<close>

record bt_node =
  bt_data :: int
  bt_left :: nat
  bt_right :: nat
  bt_parent :: nat

type_synonym bt_heap = "nat \<Rightarrow> bt_node option"

record btree =
  bt_root :: nat
  bt_heap :: bt_heap
  bt_next :: nat

definition bt_new :: btree where "bt_new = \<lparr>bt_root = 0, bt_heap = Map.empty, bt_next = 1\<rparr>"

text \<open>Writing a field of a node.\<close>

definition bt_set :: "nat \<Rightarrow> (bt_node \<Rightarrow> bt_node) \<Rightarrow> btree \<Rightarrow> btree option" where
  "bt_set a f t = (case bt_heap t a of None \<Rightarrow> None | Some n \<Rightarrow> Some (t\<lparr>bt_heap := (bt_heap t)(a \<mapsto> f n)\<rparr>))"

definition bt_get :: "nat \<Rightarrow> btree \<Rightarrow> bt_node option" where "bt_get a t = bt_heap t a"

definition bt_MakeNode :: "int \<Rightarrow> btree \<Rightarrow> nat \<times> btree" where
  "bt_MakeNode data t = (bt_next t,
     t\<lparr>bt_heap := (bt_heap t)(bt_next t \<mapsto> \<lparr>bt_data = data, bt_left = 0, bt_right = 0, bt_parent = 0\<rparr>), bt_next := Suc (bt_next t)\<rparr>)"

definition bt_FreeNode :: "nat \<Rightarrow> btree \<Rightarrow> btree option" where
  "bt_FreeNode x t = (if x \<noteq> 0 then case bt_heap t x of None \<Rightarrow> None | Some _ \<Rightarrow> Some (t\<lparr>bt_heap := (bt_heap t)(x := None)\<rparr>) else Some t)"

section \<open>Looking up\<close>

partial_function (option) bt_search_loop :: "bt_heap \<Rightarrow> int \<Rightarrow> nat \<Rightarrow> nat option" where
  "bt_search_loop h data x =
     (if x = 0 then Some x
      else do {
        n \<leftarrow> h x;
        if bt_data n = data then Some x
        else bt_search_loop h data (if data < bt_data n then bt_left n else bt_right n)
      })"

definition bt_Search :: "int \<Rightarrow> btree \<Rightarrow> nat option" where
  "bt_Search data t = bt_search_loop (bt_heap t) data (bt_root t)"

partial_function (option) bt_max_loop :: "bt_heap \<Rightarrow> nat \<Rightarrow> nat option" where
  "bt_max_loop h x = do { n \<leftarrow> h x; if bt_right n \<noteq> 0 then bt_max_loop h (bt_right n) else Some x }"

partial_function (option) bt_min_loop :: "bt_heap \<Rightarrow> nat \<Rightarrow> nat option" where
  "bt_min_loop h x = do { n \<leftarrow> h x; if bt_left n \<noteq> 0 then bt_min_loop h (bt_left n) else Some x }"

text \<open>The functions of a node fail their assertion for \<open>NULL\<close>.\<close>

definition bt_MaxOf :: "nat \<Rightarrow> btree \<Rightarrow> nat option" where
  "bt_MaxOf x t = (if x = 0 then None else bt_max_loop (bt_heap t) x)"

definition bt_MinOf :: "nat \<Rightarrow> btree \<Rightarrow> nat option" where
  "bt_MinOf x t = (if x = 0 then None else bt_min_loop (bt_heap t) x)"

definition bt_Max :: "btree \<Rightarrow> nat option" where
  "bt_Max t = (if bt_root t \<noteq> 0 then bt_MaxOf (bt_root t) t else Some 0)"

definition bt_Min :: "btree \<Rightarrow> nat option" where
  "bt_Min t = (if bt_root t \<noteq> 0 then bt_MinOf (bt_root t) t else Some 0)"

partial_function (option) bt_up_right :: "bt_heap \<Rightarrow> nat \<Rightarrow> nat \<Rightarrow> nat option" where
  "bt_up_right h z y =
     (if y = 0 then Some y
      else do { n \<leftarrow> h y; if bt_left n = z then bt_up_right h y (bt_parent n) else Some y })"

definition bt_Pre :: "nat \<Rightarrow> btree \<Rightarrow> nat option" where
  "bt_Pre z t =
     (if z = 0 then Some 0
      else do {
        n \<leftarrow> bt_get z t;
        if bt_left n \<noteq> 0 then bt_MaxOf (bt_left n) t else bt_up_right (bt_heap t) z (bt_parent n)
      })"

partial_function (option) bt_up_left :: "bt_heap \<Rightarrow> nat \<Rightarrow> nat \<Rightarrow> nat option" where
  "bt_up_left h z y =
     (if y = 0 then Some y
      else do { n \<leftarrow> h y; if bt_right n = z then bt_up_left h y (bt_parent n) else Some y })"

definition bt_Next :: "nat \<Rightarrow> btree \<Rightarrow> nat option" where
  "bt_Next z t =
     (if z = 0 then Some 0
      else do {
        n \<leftarrow> bt_get z t;
        if bt_right n \<noteq> 0 then bt_MinOf (bt_right n) t else bt_up_left (bt_heap t) z (bt_parent n)
      })"

text \<open>What is printed, in order.\<close>

partial_function (option) bt_walk :: "bt_heap \<Rightarrow> nat \<Rightarrow> int list option" where
  "bt_walk h x =
     (if x = 0 then Some []
      else do {
        n \<leftarrow> h x;
        ls \<leftarrow> bt_walk h (bt_left n);
        rs \<leftarrow> bt_walk h (bt_right n);
        Some (ls @ [bt_data n] @ rs)
      })"

definition bt_InorderWalk :: "btree \<Rightarrow> int list option" where
  "bt_InorderWalk t = bt_walk (bt_heap t) (bt_root t)"

declare bt_search_loop.simps [code] bt_max_loop.simps [code] bt_min_loop.simps [code] bt_up_right.simps [code]
  bt_up_left.simps [code] bt_walk.simps [code]

section \<open>Insertion\<close>

text \<open>The loop of \<open>Insert\<close>, which answers \<open>y\<close>.\<close>

partial_function (option) bt_descend :: "bt_heap \<Rightarrow> int \<Rightarrow> nat \<Rightarrow> nat \<Rightarrow> nat option" where
  "bt_descend h data x y =
     (if x = 0 then Some y
      else do { n \<leftarrow> h x; bt_descend h data (if data < bt_data n then bt_left n else bt_right n) x })"

declare bt_descend.simps [code]

definition bt_InsertNode :: "nat \<Rightarrow> btree \<Rightarrow> btree option" where
  "bt_InsertNode z t = do {
     nz \<leftarrow> bt_get z t;
     y \<leftarrow> bt_descend (bt_heap t) (bt_data nz) (bt_root t) 0;
     t \<leftarrow> bt_set z (\<lambda>n. n\<lparr>bt_parent := y\<rparr>) t;
     if y = 0 then Some (t\<lparr>bt_root := z\<rparr>)
     else do {
       ny \<leftarrow> bt_get y t;
       if bt_data nz > bt_data ny then bt_set y (\<lambda>n. n\<lparr>bt_right := z\<rparr>) t
       else bt_set y (\<lambda>n. n\<lparr>bt_left := z\<rparr>) t
     }
   }"

definition bt_Insert :: "int \<Rightarrow> btree \<Rightarrow> btree option" where
  "bt_Insert data t = (let (z, t) = bt_MakeNode data t in bt_InsertNode z t)"

section \<open>Deletion\<close>

definition bt_Transplant :: "nat \<Rightarrow> nat \<Rightarrow> btree \<Rightarrow> btree option" where
  "bt_Transplant u v t =
     (if u = 0 then None
      else do {
        n \<leftarrow> bt_get u t;
        t \<leftarrow> (if bt_parent n = 0 then Some (t\<lparr>bt_root := v\<rparr>)
             else do {
               np \<leftarrow> bt_get (bt_parent n) t;
               if bt_left np = u then bt_set (bt_parent n) (\<lambda>m. m\<lparr>bt_left := v\<rparr>) t
               else bt_set (bt_parent n) (\<lambda>m. m\<lparr>bt_right := v\<rparr>) t
             });
        if v \<noteq> 0 then do { n \<leftarrow> bt_get u t; bt_set v (\<lambda>m. m\<lparr>bt_parent := bt_parent n\<rparr>) t } else Some t
      })"

definition bt_DeleteNode :: "nat \<Rightarrow> btree \<Rightarrow> btree option" where
  "bt_DeleteNode z t =
     (if z = 0 then None
      else do {
        nz \<leftarrow> bt_get z t;
        if bt_left nz = 0 then bt_Transplant z (bt_right nz) t
        else if bt_right nz = 0 then bt_Transplant z (bt_left nz) t
        else do {
          y \<leftarrow> bt_MinOf (bt_right nz) t;
          ny \<leftarrow> bt_get y t;
          t \<leftarrow> (if bt_parent ny \<noteq> z then do {
                 t \<leftarrow> bt_Transplant y (bt_right ny) t;
                 nz \<leftarrow> bt_get z t;
                 t \<leftarrow> bt_set y (\<lambda>n. n\<lparr>bt_right := bt_right nz\<rparr>) t;
                 ny \<leftarrow> bt_get y t;
                 bt_set (bt_right ny) (\<lambda>n. n\<lparr>bt_parent := y\<rparr>) t
               } else Some t);
          t \<leftarrow> bt_Transplant z y t;
          nz \<leftarrow> bt_get z t;
          t \<leftarrow> bt_set y (\<lambda>n. n\<lparr>bt_left := bt_left nz\<rparr>) t;
          ny \<leftarrow> bt_get y t;
          bt_set (bt_left ny) (\<lambda>n. n\<lparr>bt_parent := y\<rparr>) t
        }
      })"

definition bt_Delete :: "int \<Rightarrow> btree \<Rightarrow> btree option" where
  "bt_Delete data t = do {
     x \<leftarrow> bt_Search data t;
     t \<leftarrow> (if x \<noteq> 0 then bt_DeleteNode x t else Some t);
     bt_FreeNode x t
   }"

section \<open>The tree in the heap\<close>

definition bt_links :: "bt_heap \<Rightarrow> links" where
  "bt_links h a = map_option (\<lambda>n. (bt_left n, bt_right n, bt_parent n)) (h a)"

definition bt_key :: "bt_heap \<Rightarrow> nat \<Rightarrow> int" where
  "bt_key h a = (case h a of None \<Rightarrow> 0 | Some n \<Rightarrow> bt_data n)"

text \<open>The nodes of the tree, which are all nodes there are, and their data in order.\<close>

definition bt_keys :: "bt_heap \<Rightarrow> nat tree \<Rightarrow> int list" where
  "bt_keys h s = map (bt_key h) (inorder s)"

definition bt_tree :: "btree \<Rightarrow> nat tree \<Rightarrow> bool" where
  "bt_tree t s \<longleftrightarrow> tree_at 0 (bt_links (bt_heap t)) (bt_root t) 0 s \<and> distinct (inorder s)
     \<and> set_tree s \<subseteq> dom (bt_heap t) \<and> (\<forall>a \<in> dom (bt_heap t). a < bt_next t) \<and> 0 \<notin> dom (bt_heap t) \<and> 0 < bt_next t"

definition bt_holds :: "btree \<Rightarrow> int set \<Rightarrow> bool" where
  "bt_holds t S \<longleftrightarrow> (\<exists>s. bt_tree t s \<and> set_tree s = dom (bt_heap t) \<and> sorted_wrt (<) (bt_keys (bt_heap t) s)
     \<and> set (bt_keys (bt_heap t) s) = S)"

lemma bt_links_Some: "bt_links h a = Some (l, r, p) \<longleftrightarrow> (\<exists>n. h a = Some n \<and> bt_left n = l \<and> bt_right n = r \<and> bt_parent n = p)"
  by (auto simp: bt_links_def)

lemma bt_links_upd:
  "h a = Some n \<Longrightarrow> bt_links (h(a \<mapsto> n\<lparr>bt_left := x\<rparr>)) = set_left a x (bt_links h)"
  "h a = Some n \<Longrightarrow> bt_links (h(a \<mapsto> n\<lparr>bt_right := x\<rparr>)) = set_right a x (bt_links h)"
  "h a = Some n \<Longrightarrow> bt_links (h(a \<mapsto> n\<lparr>bt_parent := x\<rparr>)) = set_up a x (bt_links h)"
  by (auto simp: bt_links_def set_left_def set_right_def set_up_def)

text \<open>Only links were written.\<close>

definition same_data :: "btree \<Rightarrow> btree \<Rightarrow> bool" where
  "same_data t t' \<longleftrightarrow> (\<forall>a. map_option bt_data (bt_heap t' a) = map_option bt_data (bt_heap t a)) \<and> bt_next t' = bt_next t"

lemma same_dataD:
  assumes "same_data t t'"
  shows "dom (bt_heap t') = dom (bt_heap t)" "bt_key (bt_heap t') = bt_key (bt_heap t)" "bt_next t' = bt_next t"
proof -
  have eq: "map_option bt_data (bt_heap t' a) = map_option bt_data (bt_heap t a)" for a using assms by (simp add: same_data_def)
  then have "(bt_heap t' a = None) = (bt_heap t a = None)" for a by (metis option.map_disc_iff)
  then show "dom (bt_heap t') = dom (bt_heap t)" by (auto simp: dom_def)
  show "bt_key (bt_heap t') = bt_key (bt_heap t)"
    using eq by (auto simp: bt_key_def fun_eq_iff split: option.splits) (metis option.inject option.map(2) option.simps(9) option.distinct(1) option.map_disc_iff)+
  show "bt_next t' = bt_next t" using assms by (simp add: same_data_def)
qed

lemma same_data_trans: "same_data t t' \<Longrightarrow> same_data t' t'' \<Longrightarrow> same_data t t''"
  by (simp add: same_data_def)

lemma same_data_refl [simp]: "same_data t t"
  by (simp add: same_data_def)

end
