(* ===== verification/BinaryTreeSpec.thy ===== *)
theory BinaryTreeSpec
  imports BinaryTree
begin

text \<open>
  What the operations of \<open>BinaryTree\<close> do to the tree of addresses and to the set of the data in it.
\<close>

abbreviation lks :: "btree \<Rightarrow> links" where "lks t \<equiv> bt_links (bt_heap t)"

section \<open>Writing links\<close>

lemma bt_get_Some: "lks t a = Some (l, r, p) \<Longrightarrow> \<exists>n. bt_get a t = Some n \<and> bt_left n = l \<and> bt_right n = r \<and> bt_parent n = p"
  by (auto simp: bt_links_Some bt_get_def)

lemma bt_set_ok:
  assumes "lks t a \<noteq> None"
  shows "\<exists>t'. bt_set a (\<lambda>n. n\<lparr>bt_left := x\<rparr>) t = Some t' \<and> lks t' = set_left a x (lks t) \<and> bt_root t' = bt_root t \<and> same_data t t'"
    "\<exists>t'. bt_set a (\<lambda>n. n\<lparr>bt_right := x\<rparr>) t = Some t' \<and> lks t' = set_right a x (lks t) \<and> bt_root t' = bt_root t \<and> same_data t t'"
    "\<exists>t'. bt_set a (\<lambda>n. n\<lparr>bt_parent := x\<rparr>) t = Some t' \<and> lks t' = set_up a x (lks t) \<and> bt_root t' = bt_root t \<and> same_data t t'"
proof -
  from assms obtain n where "bt_heap t a = Some n" by (auto simp: bt_links_def)
  then show "\<exists>t'. bt_set a (\<lambda>n. n\<lparr>bt_left := x\<rparr>) t = Some t' \<and> lks t' = set_left a x (lks t) \<and> bt_root t' = bt_root t \<and> same_data t t'"
    "\<exists>t'. bt_set a (\<lambda>n. n\<lparr>bt_right := x\<rparr>) t = Some t' \<and> lks t' = set_right a x (lks t) \<and> bt_root t' = bt_root t \<and> same_data t t'"
    "\<exists>t'. bt_set a (\<lambda>n. n\<lparr>bt_parent := x\<rparr>) t = Some t' \<and> lks t' = set_up a x (lks t) \<and> bt_root t' = bt_root t \<and> same_data t t'"
    by (simp_all add: bt_set_def bt_links_upd same_data_def)
qed

text \<open>The pointer in the hole of a context is replaced.\<close>

lemma Transplant_hole:
  assumes "ctx_at 0 (lks t) (bt_root t) u p c" "u \<noteq> 0" "u \<notin> set_ctx c" "distinct (ctx_before c @ ctx_after c)"
    and "bt_get u t = Some n" "bt_parent n = p"
  shows "\<exists>t'. (if bt_parent n = 0 then Some (t\<lparr>bt_root := v\<rparr>)
             else do {
               np \<leftarrow> bt_get (bt_parent n) t;
               if bt_left np = u then bt_set (bt_parent n) (\<lambda>m. m\<lparr>bt_left := v\<rparr>) t
               else bt_set (bt_parent n) (\<lambda>m. m\<lparr>bt_right := v\<rparr>) t
             }) = Some t' \<and> fill c v (bt_root t, lks t) = (bt_root t', lks t') \<and> same_data t t'"
proof (cases c)
  case Nil
  then show ?thesis using assms(1,6) by (simp add: same_data_def)
next
  case (Cons f d)
  then have p: "p \<noteq> 0" using ctx_at_parent [OF assms(1)] by simp
  obtain xl xr q where xl: "lks t p = Some (xl, xr, q)" "xl = u \<longleftrightarrow> (\<exists>a r d. c = FL a r # d)"
    using hole_side [OF assms(1) _ assms(2,3)] Cons by blast
  obtain np where np: "bt_get p t = Some np" "bt_left np = xl" using bt_get_Some [OF xl(1)] by blast
  have "lks t p \<noteq> None" using xl(1) by simp
  note wr = bt_set_ok [OF this, of v]
  show ?thesis
  proof (cases f)
    case (FL a r)
    then have "p = a" "xl = u" using assms(1) Cons xl(2) by auto
    then show ?thesis using wr(1) np p assms(6) Cons FL by auto
  next
    case (FR l a)
    then have "p = a" "xl \<noteq> u" using assms(1) Cons xl(2) by auto
    then show ?thesis using wr(2) np p assms(6) Cons FR by auto
  qed
qed

lemma Transplant_spec:
  assumes "ctx_at 0 (lks t) (bt_root t) u p c" "u \<noteq> 0" "u \<notin> set_ctx c" "distinct (ctx_before c @ ctx_after c)"
    and "lks t u = Some (ul, ur, p)" "v \<noteq> u" "v \<notin> set_ctx c" "v \<noteq> 0 \<Longrightarrow> lks t v = Some (vl, vr, q)"
  shows "\<exists>t'. bt_Transplant u v t = Some t' \<and> same_data t t' \<and> ctx_at 0 (lks t') (bt_root t') v p c
    \<and> (\<forall>a. a \<notin> set_ctx c \<longrightarrow> a \<noteq> v \<longrightarrow> lks t' a = lks t a) \<and> (v \<noteq> 0 \<longrightarrow> lks t' v = Some (vl, vr, p))"
proof -
  obtain n where n: "bt_get u t = Some n" "bt_parent n = p" using bt_get_Some [OF assms(5)] by blast
  obtain t1 where t1: "(if bt_parent n = 0 then Some (t\<lparr>bt_root := v\<rparr>)
             else do {
               np \<leftarrow> bt_get (bt_parent n) t;
               if bt_left np = u then bt_set (bt_parent n) (\<lambda>m. m\<lparr>bt_left := v\<rparr>) t
               else bt_set (bt_parent n) (\<lambda>m. m\<lparr>bt_right := v\<rparr>) t
             }) = Some t1" "fill c v (bt_root t, lks t) = (bt_root t1, lks t1)" "same_data t t1"
    using Transplant_hole [OF assms(1-4) n, of v] by blast
  note f = fill_at [OF assms(1,4) t1(2)]
  show ?thesis
  proof (cases "v = 0")
    case True
    then show ?thesis using t1 n assms(2) f(1,2) by (auto simp: bt_Transplant_def)
  next
    case False
    have u1: "lks t1 u = Some (ul, ur, p)" using f(2) [OF assms(3)] assms(5) by simp
    have v1: "lks t1 v = Some (vl, vr, q)" using f(2) [OF assms(7)] assms(8) [OF False] by simp
    obtain n1 where n1: "bt_get u t1 = Some n1" "bt_parent n1 = p" using bt_get_Some [OF u1] by blast
    obtain t2 where t2: "bt_set v (\<lambda>m. m\<lparr>bt_parent := p\<rparr>) t1 = Some t2" "lks t2 = set_up v p (lks t1)" "bt_root t2 = bt_root t1"
        "same_data t1 t2"
      using bt_set_ok(3) [of t1 v p] v1 by auto
    have "bt_Transplant u v t = Some t2" using t1(1) n n1 t2(1) assms(2) False by (simp add: bt_Transplant_def)
    moreover have "ctx_at 0 (lks t2) (bt_root t2) v p c" using f(1) t2(2,3) assms(7) by simp
    ultimately show ?thesis using same_data_trans [OF t1(3) t2(4)] f(2) t2(2) v1 by auto
  qed
qed

section \<open>Loops\<close>

lemma links_get: "lks t a = Some (l, r, p) \<Longrightarrow> \<exists>n. bt_heap t a = Some n \<and> bt_left n = l \<and> bt_right n = r \<and> bt_parent n = p \<and> bt_data n = bt_key (bt_heap t) a"
  by (auto simp: bt_links_Some bt_key_def)

lemma bt_keys_simps [simp]:
  "bt_keys h Leaf = []" "bt_keys h (Node l a r) = bt_keys h l @ bt_key h a # bt_keys h r"
  by (simp_all add: bt_keys_def)

lemma set_bt_keys: "set (bt_keys h s) = bt_key h ` set_tree s"
  by (simp add: bt_keys_def)

lemma search_loop:
  assumes "tree_at 0 (bt_links h) x p s" "sorted_wrt (<) (bt_keys h s)"
  shows "\<exists>y. bt_search_loop h d x = Some y \<and> (if d \<in> bt_key h ` set_tree s then y \<in> set_tree s \<and> bt_key h y = d else y = 0)"
  using assms
proof (induction s arbitrary: x p)
  case (Node l a r)
  then obtain n where n: "h a = Some n" "x = a" "a \<noteq> 0" "bt_key h a = bt_data n"
      "tree_at 0 (bt_links h) (bt_left n) a l" "tree_at 0 (bt_links h) (bt_right n) a r"
    by (auto simp: bt_links_Some bt_key_def)
  have s: "sorted_wrt (<) (bt_keys h l)" "sorted_wrt (<) (bt_keys h r)" "\<forall>b \<in> set_tree l. bt_key h b < bt_data n"
      "\<forall>b \<in> set_tree r. bt_data n < bt_key h b"
    using Node.prems(2) n(4) by (auto simp: sorted_wrt_append set_bt_keys)
  note step = bt_search_loop.simps [of h d x]
  consider "bt_data n = d" | "d < bt_data n" | "bt_data n < d" by linarith
  then show ?case
  proof cases
    case 1
    then show ?thesis using n step by auto
  next
    case 2
    then have "d \<notin> bt_key h ` set_tree r" "bt_key h a \<noteq> d" using s(4) n(4) by auto
    then show ?thesis using Node.IH(1) [OF n(5) s(1)] 2 n step by (fastforce simp: image_Un)
  next
    case 3
    then have "d \<notin> bt_key h ` set_tree l" "bt_key h a \<noteq> d" using s(3) n(4) by auto
    then show ?thesis using Node.IH(2) [OF n(6) s(2)] 3 n step by (fastforce simp: image_Un)
  qed
qed (simp add: bt_search_loop.simps)

lemma walk_keys: "tree_at 0 (bt_links h) x p s \<Longrightarrow> bt_walk h x = Some (bt_keys h s)"
proof (induction s arbitrary: x p)
  case (Node l a r)
  then obtain n where "h a = Some n" "x = a" "a \<noteq> 0" "bt_key h a = bt_data n"
      "tree_at 0 (bt_links h) (bt_left n) a l" "tree_at 0 (bt_links h) (bt_right n) a r"
    by (auto simp: bt_links_Some bt_key_def)
  then show ?case using Node.IH by (subst bt_walk.simps) simp
qed (simp add: bt_walk.simps)

text \<open>The way down to the place of a new node.\<close>

lemma descend_ctx:
  assumes "tree_at 0 (bt_links h) x p s" "ctx_at 0 (bt_links h) rt x p c" "sorted (bt_keys h s)"
    and "\<forall>a \<in> set (ctx_before c). bt_key h a \<le> d" "\<forall>a \<in> set (ctx_after c). d < bt_key h a"
  shows "\<exists>y c'. bt_descend h d x p = Some y \<and> ctx_at 0 (bt_links h) rt 0 y c' \<and> plug c' Leaf = plug c s
    \<and> (\<forall>a \<in> set (ctx_before c'). bt_key h a \<le> d) \<and> (\<forall>a \<in> set (ctx_after c'). d < bt_key h a)"
  using assms
proof (induction s arbitrary: x p c)
  case (Node l a r)
  then obtain n where n: "h a = Some n" "x = a" "a \<noteq> 0" "bt_key h a = bt_data n" "bt_parent n = p"
      "tree_at 0 (bt_links h) (bt_left n) a l" "tree_at 0 (bt_links h) (bt_right n) a r"
    by (auto simp: bt_links_Some bt_key_def)
  have s: "sorted (bt_keys h l)" "sorted (bt_keys h r)" "\<forall>b \<in> set_tree l. bt_key h b \<le> bt_data n"
      "\<forall>b \<in> set_tree r. bt_data n \<le> bt_key h b"
    using Node.prems(3) n(4) by (auto simp: sorted_append set_bt_keys)
  have lk: "bt_links h a = Some (bt_left n, bt_right n, p)" using n by (simp add: bt_links_def)
  note step = bt_descend.simps [of h d x p]
  show ?case
  proof (cases "d < bt_data n")
    case True
    have "ctx_at 0 (bt_links h) rt (bt_left n) a (FL a r # c)" using Node.prems(2) n lk by auto
    moreover have "\<forall>b \<in> set (ctx_after (FL a r # c)). d < bt_key h b" using True n(4) s(4) Node.prems(5) by auto
    ultimately show ?thesis using Node.IH(1) [OF n(6) _ s(1), of "FL a r # c"] Node.prems(4) True n step by auto
  next
    case False
    have "ctx_at 0 (bt_links h) rt (bt_right n) a (FR l a # c)" using Node.prems(2) n lk by auto
    moreover have "\<forall>b \<in> set (ctx_before (FR l a # c)). bt_key h b \<le> d" using False n(4) s(3) Node.prems(4) by auto
    ultimately show ?thesis using Node.IH(2) [OF n(7) _ s(2), of "FR l a # c"] Node.prems(5) False n step by auto
  qed
next
  case Leaf
  then show ?case by (intro exI [of _ p] exI [of _ c]) (simp add: bt_descend.simps)
qed

text \<open>The smallest node of a tree, below a context that only turns left.\<close>

lemma min_loop_ctx:
  assumes "tree_at 0 (bt_links h) x p s" "s \<noteq> Leaf"
  shows "\<exists>y m r q. bt_min_loop h x = Some y \<and> s = plug m (Node Leaf y r) \<and> ctx_before m = []
    \<and> tree_at 0 (bt_links h) y q (Node Leaf y r) \<and> (if m = [] then q = p else q \<in> set_tree s)
    \<and> (\<forall>rt c. ctx_at 0 (bt_links h) rt x p c \<longrightarrow> ctx_at 0 (bt_links h) rt y q (m @ c))"
  using assms
proof (induction s arbitrary: x p)
  case (Node l a r)
  then obtain n where n: "h a = Some n" "x = a" "a \<noteq> 0" "bt_parent n = p"
      "tree_at 0 (bt_links h) (bt_left n) a l" "tree_at 0 (bt_links h) (bt_right n) a r"
    by (auto simp: bt_links_Some)
  have lk: "bt_links h a = Some (bt_left n, bt_right n, p)" using n by (simp add: bt_links_def)
  note step = bt_min_loop.simps [of h x]
  show ?case
  proof (cases "l = Leaf")
    case True
    then have "bt_left n = 0" using n(5) by simp
    then show ?thesis using True n lk step
      by (intro exI [of _ a] exI [of _ "[]"] exI [of _ r] exI [of _ p]) simp
  next
    case False
    then have "bt_left n \<noteq> 0" using n(5) tree_at_nil by metis
    moreover obtain y m r' q where y: "bt_min_loop h (bt_left n) = Some y" "l = plug m (Node Leaf y r')" "ctx_before m = []"
        "tree_at 0 (bt_links h) y q (Node Leaf y r')" "if m = [] then q = a else q \<in> set_tree l"
        "\<forall>rt c. ctx_at 0 (bt_links h) rt (bt_left n) a c \<longrightarrow> ctx_at 0 (bt_links h) rt y q (m @ c)"
      using Node.IH(1) [OF n(5) False] by blast
    moreover have "plug (m @ [FL a r]) t = Node (plug m t) a r" for t by (induction m t rule: plug.induct) simp_all
    moreover have "ctx_before (m @ [FL a r]) = ctx_before m" by (induction m rule: ctx_before.induct) simp_all
    moreover have "ctx_at 0 (bt_links h) rt (bt_left n) a (FL a r # c)" if "ctx_at 0 (bt_links h) rt x p c" for rt c
      using that n lk by auto
    moreover have "(m @ [FL a r]) @ c = m @ FL a r # c" for c by simp
    ultimately show ?thesis using n step
      by (intro exI [of _ y] exI [of _ "m @ [FL a r]"] exI [of _ r'] exI [of _ q]) (simp split: if_splits)
  qed
qed simp


section \<open>Inserting\<close>

lemma bt_treeD:
  assumes "bt_tree t s"
  shows "tree_at 0 (lks t) (bt_root t) 0 s" "distinct (inorder s)" "bt_next t \<notin> dom (bt_heap t)" "bt_next t \<noteq> 0"
    "bt_next t \<notin> set_tree s" "0 \<notin> set_tree s"
  using assms by (auto simp: bt_tree_def)

text \<open>After \<open>MakeNode\<close> the tree is as before, beside a node without links.\<close>

lemma MakeNode_tree:
  assumes "bt_tree t s" "bt_MakeNode d t = (z, t1)"
  shows "z = bt_next t" "bt_root t1 = bt_root t" "lks t1 = (lks t)(z \<mapsto> (0, 0, 0))" "bt_key (bt_heap t1) = (bt_key (bt_heap t))(z := d)"
    "dom (bt_heap t1) = insert z (dom (bt_heap t))" "bt_next t1 = Suc z" "tree_at 0 (lks t1) (bt_root t1) 0 s"
    "bt_get z t1 = Some \<lparr>bt_data = d, bt_left = 0, bt_right = 0, bt_parent = 0\<rparr>"
proof -
  show eqs: "z = bt_next t" "bt_root t1 = bt_root t" "lks t1 = (lks t)(z \<mapsto> (0, 0, 0))" "bt_key (bt_heap t1) = (bt_key (bt_heap t))(z := d)"
    "dom (bt_heap t1) = insert z (dom (bt_heap t))" "bt_next t1 = Suc z"
    "bt_get z t1 = Some \<lparr>bt_data = d, bt_left = 0, bt_right = 0, bt_parent = 0\<rparr>"
    using assms(2) by (auto simp: bt_MakeNode_def bt_links_def bt_key_def bt_get_def fun_eq_iff)
  show "tree_at 0 (lks t1) (bt_root t1) 0 s" using bt_treeD [OF assms(1)] eqs(1-3) by simp
qed

text \<open>Where the new node is put, depending on the node it is put under.\<close>

fun attach :: "(nat \<Rightarrow> int) \<Rightarrow> int \<Rightarrow> nat \<Rightarrow> ctx \<Rightarrow> nat tree" where
  "attach key d z [] = Node Leaf z Leaf"
| "attach key d z (FL a r # c) = plug (FL a r # c) (Node Leaf z Leaf)"
| "attach key d z (FR l a # c) =
     (if key a < d then plug (FR l a # c) (Node Leaf z Leaf) else plug c (Node (Node Leaf z Leaf) a Leaf))"

lemma InsertNode_attach:
  assumes "bt_tree t s" "bt_MakeNode d t = (z, t1)" "sorted (bt_keys (bt_heap t) s)"
  shows "\<exists>c t'. bt_InsertNode z t1 = Some t' \<and> plug c Leaf = s
    \<and> (\<forall>a \<in> set (ctx_before c). bt_key (bt_heap t) a \<le> d) \<and> (\<forall>a \<in> set (ctx_after c). d < bt_key (bt_heap t) a)
    \<and> tree_at 0 (lks t') (bt_root t') 0 (attach (bt_key (bt_heap t)) d z c) \<and> same_data t1 t'"
proof -
  note mk = MakeNode_tree [OF assms(1,2)] and tr = bt_treeD [OF assms(1)]
  have keys: "bt_keys (bt_heap t1) s = bt_keys (bt_heap t) s" using tr(5) mk(1,4) by (auto simp: bt_keys_def)
  obtain y c where y: "bt_descend (bt_heap t1) d (bt_root t1) 0 = Some y" "ctx_at 0 (lks t1) (bt_root t1) 0 y c" "plug c Leaf = s"
      "\<forall>a \<in> set (ctx_before c). bt_key (bt_heap t1) a \<le> d" "\<forall>a \<in> set (ctx_after c). d < bt_key (bt_heap t1) a"
    using descend_ctx [OF mk(7), of "bt_root t1" "[]" d] assms(3) keys by auto
  have set: "set_ctx c = set_tree s" using set_plug [of c Leaf] y(3) by simp
  have zc: "z \<notin> set_ctx c" using tr(5) mk(1) set by simp
  have dist: "distinct (ctx_before c @ ctx_after c)" using tr(2) y(3) inorder_plug [of c Leaf] by simp
  have key: "bt_key (bt_heap t1) a = bt_key (bt_heap t) a" if "a \<in> set_ctx c" for a using that zc mk(4) by auto
  have z0: "z \<noteq> 0" using tr(4) mk(1) by simp
  obtain t2 where t2: "bt_set z (\<lambda>n. n\<lparr>bt_parent := y\<rparr>) t1 = Some t2" "lks t2 = set_up z y (lks t1)" "bt_root t2 = bt_root t1" "same_data t1 t2"
    using bt_set_ok(3) [of t1 z y] mk(3) by auto
  have lz: "lks t2 z = Some (0, 0, y)" using t2(2) mk(3) by simp
  have ctx2: "ctx_at 0 (lks t2) (bt_root t2) 0 y c" using y(2) t2(2,3) zc by simp
  have k2: "bt_key (bt_heap t2) = bt_key (bt_heap t1)" using same_dataD [OF t2(4)] by simp
  have start: "bt_InsertNode z t1 = (if y = 0 then Some (t2\<lparr>bt_root := z\<rparr>)
     else do {
       ny \<leftarrow> bt_get y t2;
       if d > bt_data ny then bt_set y (\<lambda>n. n\<lparr>bt_right := z\<rparr>) t2 else bt_set y (\<lambda>n. n\<lparr>bt_left := z\<rparr>) t2
     })"
    using mk(8) y(1) t2(1) by (simp add: bt_InsertNode_def)
  have fill: "\<exists>t'. bt_InsertNode z t1 = Some t' \<and> tree_at 0 (lks t') (bt_root t') 0 (plug c (Node Leaf z Leaf)) \<and> same_data t1 t'"
    if "bt_InsertNode z t1 = Some t'" "fill c z (bt_root t2, lks t2) = (bt_root t', lks t')" "same_data t2 t'" for t'
  proof -
    note f = fill_at [OF ctx2 dist that(2)]
    have "tree_at 0 (lks t') z y (Node Leaf z Leaf)" using f(2) [OF zc] lz z0 by simp
    then have "tree_at 0 (lks t') (bt_root t') 0 (plug c (Node Leaf z Leaf))" using f(1) plug_at by blast
    with that same_data_trans [OF t2(4)] show ?thesis by blast
  qed
  have "\<exists>t'. bt_InsertNode z t1 = Some t' \<and> tree_at 0 (lks t') (bt_root t') 0 (attach (bt_key (bt_heap t)) d z c) \<and> same_data t1 t'"
  proof (cases c)
    case Nil
    then have "y = 0" using ctx2 by simp
    then show ?thesis using fill [of "t2\<lparr>bt_root := z\<rparr>"] start Nil by (simp add: same_data_def)
  next
    case (Cons f e)
    then have y0: "y \<noteq> 0" and yc: "y \<in> set_ctx c" using ctx_at_parent [OF ctx2] by auto
    show ?thesis
    proof (cases f)
      case (FL a r)
      then obtain xr q where ly: "y = a" "lks t2 a = Some (0, xr, q)" using ctx2 Cons by auto
      obtain ny where ny: "bt_get a t2 = Some ny" "bt_data ny = bt_key (bt_heap t2) a"
        using links_get [OF ly(2)] by (auto simp: bt_get_def)
      have "d < bt_key (bt_heap t1) a" using y(5) Cons FL by simp
      then have "\<not> bt_data ny < d" using ny(2) k2 by simp
      moreover obtain t' where t': "bt_set a (\<lambda>n. n\<lparr>bt_left := z\<rparr>) t2 = Some t'" "lks t' = set_left a z (lks t2)"
          "bt_root t' = bt_root t2" "same_data t2 t'"
        using bt_set_ok(1) [of t2 a z] ly(2) by auto
      ultimately have "bt_InsertNode z t1 = Some t'" using start ny(1) y0 ly(1) by simp
      with fill [of t'] t'(2-4) Cons FL show ?thesis by simp
    next
      case (FR l a)
      then obtain xl q where ly: "y = a" "lks t2 a = Some (xl, 0, q)" "tree_at 0 (lks t2) xl a l" "ctx_at 0 (lks t2) (bt_root t2) a q e"
        using ctx2 Cons by auto
      obtain ny where ny: "bt_get a t2 = Some ny" "bt_data ny = bt_key (bt_heap t) a"
        using links_get [OF ly(2)] k2 key [of a] yc ly(1) by (auto simp: bt_get_def)
      show ?thesis
      proof (cases "bt_key (bt_heap t) a < d")
        case True
        obtain t' where t': "bt_set a (\<lambda>n. n\<lparr>bt_right := z\<rparr>) t2 = Some t'" "lks t' = set_right a z (lks t2)"
            "bt_root t' = bt_root t2" "same_data t2 t'"
          using bt_set_ok(2) [of t2 a z] ly(2) by auto
        have "bt_InsertNode z t1 = Some t'" using start ny y0 ly(1) True t'(1) by simp
        with fill [of t'] t'(2-4) Cons FR True show ?thesis by simp
      next
        case False
        obtain t' where t': "bt_set a (\<lambda>n. n\<lparr>bt_left := z\<rparr>) t2 = Some t'" "lks t' = set_left a z (lks t2)"
            "bt_root t' = bt_root t2" "same_data t2 t'"
          using bt_set_ok(1) [of t2 a z] ly(2) by auto
        have ins: "bt_InsertNode z t1 = Some t'" using start ny y0 ly(1) False t'(1) by simp
        have za: "z \<noteq> a" using zc yc ly(1) by auto
        have ae: "a \<notin> set_ctx e" using dist Cons FR by (auto simp: set_ctx_def)
        have "ctx_at 0 (lks t') (bt_root t') a q e" using ly(4) t'(2,3) ae by simp
        moreover have "tree_at 0 (lks t') a q (Node (Node Leaf z Leaf) a Leaf)"
          using t'(2) ly(1,2) lz za z0 y0 by simp
        ultimately have "tree_at 0 (lks t') (bt_root t') 0 (plug e (Node (Node Leaf z Leaf) a Leaf))" using plug_at by blast
        with ins same_data_trans [OF t2(4) t'(4)] Cons FR False show ?thesis by simp
      qed
    qed
  qed
  moreover have "\<forall>a \<in> set (ctx_before c). bt_key (bt_heap t) a \<le> d" "\<forall>a \<in> set (ctx_after c). d < bt_key (bt_heap t) a"
    using y(4,5) key by (auto simp: set_ctx_def)
  ultimately show ?thesis using y(3) by blast
qed

lemma bt_keys_plug: "bt_keys h (plug c s) = map (bt_key h) (ctx_before c) @ bt_keys h s @ map (bt_key h) (ctx_after c)"
  by (simp add: bt_keys_def inorder_plug)

lemma bt_keys_cong: "(\<And>a. a \<in> set_tree s \<Longrightarrow> bt_key h a = bt_key h' a) \<Longrightarrow> bt_keys h s = bt_keys h' s"
  by (simp add: bt_keys_def)

lemma bt_holdsE:
  assumes "bt_holds t S"
  obtains s where "bt_tree t s" "set_tree s = dom (bt_heap t)" "sorted_wrt (<) (bt_keys (bt_heap t) s)" "S = set (bt_keys (bt_heap t) s)"
  using assms by (auto simp: bt_holds_def)

lemma sorted_wrt_less_sorted: "sorted_wrt (<) xs \<Longrightarrow> sorted (xs :: int list)"
  by (simp add: strict_sorted_imp_sorted)

theorem bt_Insert_holds:
  assumes "bt_holds t S" "d \<notin> S"
  shows "\<exists>t'. bt_Insert d t = Some t' \<and> bt_holds t' (insert d S)"
proof -
  obtain s where s: "bt_tree t s" "set_tree s = dom (bt_heap t)" "sorted_wrt (<) (bt_keys (bt_heap t) s)" "S = set (bt_keys (bt_heap t) s)"
    using bt_holdsE [OF assms(1)] .
  obtain z t1 where mk: "bt_MakeNode d t = (z, t1)" by fastforce
  note m = MakeNode_tree [OF s(1) mk] and tr = bt_treeD [OF s(1)]
  obtain c t' where c: "bt_InsertNode z t1 = Some t'" "plug c Leaf = s" "\<forall>a \<in> set (ctx_before c). bt_key (bt_heap t) a \<le> d"
      "\<forall>a \<in> set (ctx_after c). d < bt_key (bt_heap t) a" "tree_at 0 (lks t') (bt_root t') 0 (attach (bt_key (bt_heap t)) d z c)"
      "same_data t1 t'"
    using InsertNode_attach [OF s(1) mk sorted_wrt_less_sorted [OF s(3)]] by blast
  have sc: "set_ctx c = set_tree s" using set_plug [of c Leaf] c(2) by simp
  have key: "bt_key (bt_heap t) a \<noteq> d" if "a \<in> set_ctx c" for a using that assms(2) s(4) sc by (auto simp: set_bt_keys)
  then have lt: "\<forall>a \<in> set (ctx_before c). bt_key (bt_heap t) a < d" using c(3) by (auto simp: set_ctx_def less_le)
  have at: "attach (bt_key (bt_heap t)) d z c = plug c (Node Leaf z Leaf)"
    using lt by (cases "(bt_key (bt_heap t), d, z, c)" rule: attach.cases) simp_all
  let ?s = "plug c (Node Leaf z Leaf)"
  have zs: "z \<notin> set_ctx c" using tr(5) m(1) sc by simp
  have bk: "bt_key (bt_heap t') = (bt_key (bt_heap t))(z := d)" using same_dataD(2) [OF c(6)] m(4) by simp
  have dm: "dom (bt_heap t') = insert z (dom (bt_heap t))" using same_dataD(1) [OF c(6)] m(5) by simp
  have ks: "bt_keys (bt_heap t) s = map (bt_key (bt_heap t)) (ctx_before c) @ map (bt_key (bt_heap t)) (ctx_after c)"
    using bt_keys_plug [of "bt_heap t" c Leaf] c(2) by simp
  have kb: "map (bt_key (bt_heap t')) (ctx_before c) = map (bt_key (bt_heap t)) (ctx_before c)"
    "map (bt_key (bt_heap t')) (ctx_after c) = map (bt_key (bt_heap t)) (ctx_after c)"
    using zs bk by (auto simp: set_ctx_def)
  have ks': "bt_keys (bt_heap t') ?s = map (bt_key (bt_heap t)) (ctx_before c) @ d # map (bt_key (bt_heap t)) (ctx_after c)"
    by (simp add: bt_keys_plug kb) (simp add: bk)
  have "set_tree ?s = dom (bt_heap t')" using set_plug [of c "Node Leaf z Leaf"] sc s(2) dm by simp
  moreover have "distinct (inorder ?s)" using tr(2) c(2) zs distinct_plug [of c "Node Leaf z Leaf"] distinct_plug [of c Leaf] by simp
  moreover have "bt_next t' = Suc z" using same_dataD(3) [OF c(6)] m(6) by simp
  ultimately have "bt_tree t' ?s" using s(1) c(5) at dm m(1) by (auto simp: bt_tree_def less_Suc_eq)
  moreover have "sorted_wrt (<) (bt_keys (bt_heap t') ?s)" using s(3) ks ks' lt c(4) by (auto simp: sorted_wrt_append)
  moreover have "set (bt_keys (bt_heap t') ?s) = insert d S" using s(4) ks ks' by auto
  ultimately have "bt_holds t' (insert d S)" using \<open>set_tree ?s = dom (bt_heap t')\<close> by (auto simp: bt_holds_def)
  with c(1) mk show ?thesis by (auto simp: bt_Insert_def)
qed

section \<open>Deleting\<close>

lemma split_at: "x \<in> set_tree s \<Longrightarrow> \<exists>c l r. s = plug c (Node l x r)"
proof (induction s)
  case (Node l a r)
  have FL: "plug (c @ [FL a r]) u = Node (plug c u) a r" and FR: "plug (c @ [FR l a]) u = Node l a (plug c u)" for c u
    by (induction c u rule: plug.induct) simp_all
  from Node.prems consider "x = a" | "x \<in> set_tree l" | "x \<in> set_tree r" by auto
  then show ?case
  proof cases
    case 1
    then have "Node l a r = plug [] (Node l x r)" by simp
    then show ?thesis by blast
  next
    case 2
    then show ?thesis using Node.IH(1) FL by metis
  next
    case 3
    then show ?thesis using Node.IH(2) FR by metis
  qed
qed simp

lemma ctx_at_append:
  assumes "ctx_at nil lk rt x p (m @ c)" "tree_at nil lk x p s"
  shows "\<exists>x' p'. tree_at nil lk x' p' (plug m s) \<and> ctx_at nil lk rt x' p' c"
  using assms by (induction m s arbitrary: x p rule: plug.induct) fastforce+

lemma set_ctx_append [simp]: "set_ctx (m @ c) = set_ctx m \<union> set_ctx c"
proof (induction m)
  case (Cons f m)
  then show ?case by (cases f) auto
qed simp

lemma distinct_ctx_append:
  "distinct (ctx_before (m @ c) @ ctx_after (m @ c)) \<longleftrightarrow>
     distinct (ctx_before m @ ctx_after m) \<and> distinct (ctx_before c @ ctx_after c) \<and> set_ctx m \<inter> set_ctx c = {}"
proof -
  have "plug (m @ c) s = plug c (plug m s)" for s by (induction m s rule: plug.induct) simp_all
  then show ?thesis
    using distinct_plug [of "m @ c" Leaf] distinct_plug [of c "plug m Leaf"] distinct_plug [of m Leaf] set_plug [of m Leaf]
    by auto
qed

lemma tree_at_move:
  assumes "tree_at nil lk v q s" "distinct (inorder s)" "\<And>a. a \<in> set_tree s \<Longrightarrow> a \<noteq> v \<Longrightarrow> lk' a = lk a"
    and "\<And>vl vr. v \<noteq> nil \<Longrightarrow> lk v = Some (vl, vr, q) \<Longrightarrow> lk' v = Some (vl, vr, p)"
  shows "tree_at nil lk' v p s"
proof (cases s)
  case (Node l a r)
  then obtain xl xr where x: "v = a" "a \<noteq> nil" "lk a = Some (xl, xr, q)" "tree_at nil lk xl a l" "tree_at nil lk xr a r"
    using assms(1) by auto
  have "tree_at nil lk' xl a l" using x(4) assms(2,3) x(1) Node by (subst tree_at_cong [of l lk' lk]) auto
  moreover have "tree_at nil lk' xr a r" using x(5) assms(2,3) x(1) Node by (subst tree_at_cong [of r lk' lk]) auto
  ultimately show ?thesis using assms(4) x Node by simp
qed (use assms in simp)

text \<open>\<open>Transplant\<close> puts a whole tree in the place of another.\<close>

lemma Transplant_tree:
  assumes "ctx_at 0 (lks t) (bt_root t) u p c" "u \<noteq> 0" "lks t u = Some (ul, ur, p)" "tree_at 0 (lks t) v q s"
    and "u \<notin> set_ctx c" "u \<notin> set_tree s" "set_tree s \<inter> set_ctx c = {}" "distinct (ctx_before c @ ctx_after c)" "distinct (inorder s)"
  shows "\<exists>t'. bt_Transplant u v t = Some t' \<and> same_data t t' \<and> ctx_at 0 (lks t') (bt_root t') v p c \<and> tree_at 0 (lks t') v p s
    \<and> (\<forall>a. a \<notin> set_ctx c \<longrightarrow> a \<notin> set_tree s \<longrightarrow> a \<noteq> 0 \<longrightarrow> lks t' a = lks t a)"
proof -
  have v: "v = 0 \<and> s = Leaf \<or> v \<noteq> 0 \<and> v \<in> set_tree s \<and> (\<exists>vl vr. lks t v = Some (vl, vr, q))"
    using assms(4) by (cases s) auto
  have c0: "0 \<notin> set_ctx c" using ctx_not_nil [OF assms(1)] .
  then have vc: "v \<notin> set_ctx c" "v \<noteq> u" using v assms(2,6,7) by auto
  obtain vl vr where vlr: "v \<noteq> 0 \<Longrightarrow> lks t v = Some (vl, vr, q)" using v by blast
  obtain t' where t': "bt_Transplant u v t = Some t'" "same_data t t'" "ctx_at 0 (lks t') (bt_root t') v p c"
      "\<And>a. a \<notin> set_ctx c \<Longrightarrow> a \<noteq> v \<Longrightarrow> lks t' a = lks t a" "v \<noteq> 0 \<Longrightarrow> lks t' v = Some (vl, vr, p)"
    using Transplant_spec [OF assms(1,2,5,8,3) vc(2,1), of vl vr q] vlr by blast
  have "tree_at 0 (lks t') v p s" using tree_at_move [OF assms(4,9), of "lks t'" p] t'(4,5) vlr assms(7) by auto
  moreover have "lks t' a = lks t a" if "a \<notin> set_ctx c" "a \<notin> set_tree s" "a \<noteq> 0" for a
    using t'(4) [of a] that v by auto
  ultimately show ?thesis using t'(1-3) by blast
qed

text \<open>The end of \<open>Delete\<close>: \<open>y\<close> with its right subtree takes the place of \<open>z\<close> and its left subtree.\<close>

lemma Delete_end:
  assumes "ctx_at 0 (lks t) (bt_root t) z p c" "lks t z = Some (xl, xr, p)" "tree_at 0 (lks t) xl z l" "l \<noteq> Leaf" "z \<noteq> 0"
    and "tree_at 0 (lks t) y q (Node Leaf y r)" "z \<notin> set_ctx c" "z \<notin> set_tree l" "z \<noteq> y" "z \<notin> set_tree r"
    and "distinct (inorder (plug c (Node l y r)))"
  shows "\<exists>t'. (do {
          t \<leftarrow> bt_Transplant z y t;
          nz \<leftarrow> bt_get z t;
          t \<leftarrow> bt_set y (\<lambda>n. n\<lparr>bt_left := bt_left nz\<rparr>) t;
          ny \<leftarrow> bt_get y t;
          bt_set (bt_left ny) (\<lambda>n. n\<lparr>bt_parent := y\<rparr>) t
        }) = Some t' \<and> same_data t t' \<and> tree_at 0 (lks t') (bt_root t') 0 (plug c (Node l y r))"
proof -
  have d: "distinct (ctx_before c @ ctx_after c)" "distinct (inorder l)" "distinct (inorder r)" "y \<notin> set_ctx c"
      "y \<notin> set_tree l" "y \<notin> set_tree r" "set_tree l \<inter> set_ctx c = {}" "set_tree r \<inter> set_ctx c = {}" "set_tree l \<inter> set_tree r = {}"
    using assms(11) unfolding distinct_plug by auto
  obtain t1 where t1: "bt_Transplant z y t = Some t1" "same_data t t1" "ctx_at 0 (lks t1) (bt_root t1) y p c"
      "tree_at 0 (lks t1) y p (Node Leaf y r)"
      "\<And>a. a \<notin> set_ctx c \<Longrightarrow> a \<notin> set_tree (Node Leaf y r) \<Longrightarrow> a \<noteq> 0 \<Longrightarrow> lks t1 a = lks t a"
    using Transplant_tree [OF assms(1,5,2,6,7)] assms(9,10) d by auto
  have l0: "0 \<notin> set_tree l" using tree_at_not_nil [OF assms(3)] .
  have tl: "tree_at 0 (lks t1) xl z l"
    using assms(3) t1(5) d l0 by (subst tree_at_cong [of l "lks t1" "lks t"]) (auto simp: disjoint_iff)
  have xl: "xl \<noteq> 0" "xl \<in> set_tree l" using assms(3,4) by (cases l; simp)+
  have "lks t1 z = Some (xl, xr, p)" using t1(5) [of z] assms(2,5,7,9,10) by simp
  then obtain nz where nz: "bt_get z t1 = Some nz" "bt_left nz = xl" using bt_get_Some by blast
  obtain yr where y1: "lks t1 y = Some (0, yr, p)" "tree_at 0 (lks t1) yr y r" using t1(4) by auto
  obtain t2 where t2: "bt_set y (\<lambda>n. n\<lparr>bt_left := xl\<rparr>) t1 = Some t2" "lks t2 = set_left y xl (lks t1)" "bt_root t2 = bt_root t1" "same_data t1 t2"
    using bt_set_ok(1) [of t1 y xl] y1 by auto
  have y2: "lks t2 y = Some (xl, yr, p)" using t2(2) y1(1) by simp
  then obtain ny where ny: "bt_get y t2 = Some ny" "bt_left ny = xl" using bt_get_Some by blast
  have tl2: "tree_at 0 (lks t2) xl z l" using tl t2(2) d(5) by simp
  obtain t3 where t3: "bt_set xl (\<lambda>n. n\<lparr>bt_parent := y\<rparr>) t2 = Some t3" "lks t3 = set_up xl y (lks t2)" "bt_root t3 = bt_root t2" "same_data t2 t3"
    using bt_set_ok(3) [of t2 xl y] tree_at_dom [OF tl2 xl(2)] by auto
  have "tree_at 0 (lks t3) xl y l" using tree_at_set_up [OF tl2 xl(1) d(2)] t3(2) by simp
  moreover have "tree_at 0 (lks t3) yr y r" using y1(2) t2(2) t3(2) d xl(2) by (auto simp: disjoint_iff)
  moreover have "y \<noteq> xl" using xl(2) d(5) by auto
  then have "lks t3 y = Some (xl, yr, p)" using y2 t3(2) by simp
  moreover have "y \<noteq> 0" using t1(4) by simp
  ultimately have "tree_at 0 (lks t3) y p (Node l y r)" by simp
  moreover have "xl \<notin> set_ctx c" using xl(2) d(7) by auto
  then have "ctx_at 0 (lks t3) (bt_root t3) y p c" using t1(3) t2(2,3) t3(2,3) d(4) by simp
  ultimately have "tree_at 0 (lks t3) (bt_root t3) 0 (plug c (Node l y r))" using plug_at by blast
  moreover have "same_data t t3" using t1(2) t2(4) t3(4) same_data_trans by blast
  ultimately show ?thesis using t1(1) nz t2(1) ny t3(1) by simp
qed

text \<open>A smallest node that is not a child of \<open>z\<close> is first taken out and put above the right subtree of \<open>z\<close>.\<close>

lemma Delete_take_out:
  assumes "ctx_at 0 (lks t) (bt_root t) y q (m @ FR l z # c)" "tree_at 0 (lks t) y q (Node Leaf y r)" "m \<noteq> []"
    and "distinct (inorder (plug c (Node l z (plug m (Node Leaf y r)))))" "bt_get y t = Some ny"
  shows "\<exists>t3 xl xr p. (do {
                 t \<leftarrow> bt_Transplant y (bt_right ny) t;
                 nz \<leftarrow> bt_get z t;
                 t \<leftarrow> bt_set y (\<lambda>n. n\<lparr>bt_right := bt_right nz\<rparr>) t;
                 ny \<leftarrow> bt_get y t;
                 bt_set (bt_right ny) (\<lambda>n. n\<lparr>bt_parent := y\<rparr>) t
               }) = Some t3 \<and> same_data t t3
    \<and> ctx_at 0 (lks t3) (bt_root t3) z p c \<and> lks t3 z = Some (xl, xr, p) \<and> tree_at 0 (lks t3) xl z l
    \<and> tree_at 0 (lks t3) y q (Node Leaf y (plug m r))"
proof -
  let ?c = "m @ FR l z # c"
  have pl: "plug ?c s = plug c (Node l z (plug m s))" for s by (induction m s rule: plug.induct) simp_all
  have dd: "distinct (inorder (plug ?c (Node Leaf y r)))" using assms(4) pl by simp
  have d: "distinct (ctx_before ?c @ ctx_after ?c)" "distinct (inorder r)" "y \<notin> set_ctx ?c" "y \<notin> set_tree r" "set_tree r \<inter> set_ctx ?c = {}"
    using dd unfolding distinct_plug by auto
  have dz: "z \<notin> set_ctx c" "z \<notin> set_tree l" "set_tree l \<inter> set_ctx c = {}" "set_tree (plug m r) \<inter> (insert z (set_tree l \<union> set_ctx c)) = {}"
      "distinct (inorder (plug m r))" "y \<notin> set_tree (plug m r)"
    using d assms(4) by (auto simp: distinct_plug distinct_ctx_append set_plug)
  obtain yr where y: "lks t y = Some (0, yr, q)" "tree_at 0 (lks t) yr y r" "y \<noteq> 0" using assms(2) by auto
  have ny: "bt_right ny = yr" using bt_get_Some [OF y(1)] assms(5) by auto
  obtain t1 where t1: "bt_Transplant y yr t = Some t1" "same_data t t1" "ctx_at 0 (lks t1) (bt_root t1) yr q ?c"
      "tree_at 0 (lks t1) yr q r" "lks t1 y = Some (0, yr, q)"
    using Transplant_tree [OF assms(1) y(3,1,2) d(3,4,5,1,2)] d(3,4) y(1,3) by auto
  obtain x' p' where x': "tree_at 0 (lks t1) x' p' (plug m r)" "ctx_at 0 (lks t1) (bt_root t1) x' p' (FR l z # c)"
    using ctx_at_append [OF t1(3,4)] by blast
  then obtain xl p where z: "lks t1 z = Some (xl, x', p)" "tree_at 0 (lks t1) xl z l" "ctx_at 0 (lks t1) (bt_root t1) z p c" "p' = z"
    by auto
  obtain nz where nz: "bt_get z t1 = Some nz" "bt_right nz = x'" using bt_get_Some [OF z(1)] by blast
  have "plug m r \<noteq> Leaf" using assms(3) set_plug [of m r] by (cases m rule: ctx_before.cases) auto
  then have x0: "x' \<noteq> 0" "x' \<in> set_tree (plug m r)" using x'(1) tree_at_nil tree_at_root by metis+
  obtain t2 where t2: "bt_set y (\<lambda>n. n\<lparr>bt_right := x'\<rparr>) t1 = Some t2" "lks t2 = set_right y x' (lks t1)" "bt_root t2 = bt_root t1" "same_data t1 t2"
    using bt_set_ok(2) [of t1 y x'] t1(5) by auto
  have y2: "lks t2 y = Some (0, x', q)" using t2(2) t1(5) by simp
  obtain ny2 where ny2: "bt_get y t2 = Some ny2" "bt_right ny2 = x'" using bt_get_Some [OF y2] by blast
  have tm: "tree_at 0 (lks t2) x' z (plug m r)" using x'(1) z(4) t2(2) dz(6) by simp
  obtain t3 where t3: "bt_set x' (\<lambda>n. n\<lparr>bt_parent := y\<rparr>) t2 = Some t3" "lks t3 = set_up x' y (lks t2)" "bt_root t3 = bt_root t2" "same_data t2 t3"
    using bt_set_ok(3) [of t2 x' y] tree_at_dom [OF tm x0(2)] by auto
  have ne: "z \<noteq> y" "z \<noteq> x'" "x' \<notin> set_tree l" "x' \<notin> set_ctx c" "y \<notin> set_tree l" "y \<notin> set_ctx c" "x' \<noteq> y"
    using x0(2) dz(4,6) d(3) by auto
  have "ctx_at 0 (lks t3) (bt_root t3) z p c" using z(3) t2(2,3) t3(2,3) ne by simp
  moreover have "lks t3 z = Some (xl, x', p)" using z(1) t2(2) t3(2) ne by simp
  moreover have "tree_at 0 (lks t3) xl z l" using z(2) t2(2) t3(2) ne by simp
  moreover have "tree_at 0 (lks t3) x' y (plug m r)" using tree_at_set_up [OF tm x0(1) dz(5)] t3(2) by simp
  then have "tree_at 0 (lks t3) y q (Node Leaf y (plug m r))" using y2 t3(2) ne(7) y(3) by simp
  moreover have "same_data t t3" using t1(2) t2(4) t3(4) same_data_trans by blast
  ultimately show ?thesis using ny t1(1) nz t2(1) ny2 t3(1)
    by (intro exI [of _ t3] exI [of _ xl] exI [of _ x'] exI [of _ p]) simp
qed

lemma DeleteNode_tree:
  assumes "tree_at 0 (lks t) (bt_root t) 0 (plug c (Node l z r))" "distinct (inorder (plug c (Node l z r)))"
  shows "\<exists>t' s'. bt_DeleteNode z t = Some t' \<and> same_data t t' \<and> tree_at 0 (lks t') (bt_root t') 0 s'
    \<and> inorder s' = ctx_before c @ inorder l @ inorder r @ ctx_after c"
proof -
  obtain p where "tree_at 0 (lks t) z p (Node l z r)" and cx: "ctx_at 0 (lks t) (bt_root t) z p c"
    using assms(1) unfolding plug_at by auto
  then obtain xl xr where z: "lks t z = Some (xl, xr, p)" "tree_at 0 (lks t) xl z l" "tree_at 0 (lks t) xr z r" "z \<noteq> 0" by auto
  have d: "distinct (ctx_before c @ ctx_after c)" "distinct (inorder l)" "distinct (inorder r)" "z \<notin> set_ctx c"
      "z \<notin> set_tree l" "z \<notin> set_tree r" "set_tree l \<inter> set_ctx c = {}" "set_tree r \<inter> set_ctx c = {}"
    using assms(2) unfolding distinct_plug by auto
  obtain nz where nz: "bt_get z t = Some nz" "bt_left nz = xl" "bt_right nz = xr" using bt_get_Some [OF z(1)] by blast
  consider "l = Leaf" | "l \<noteq> Leaf" "r = Leaf" | "l \<noteq> Leaf" "r \<noteq> Leaf" by blast
  then show ?thesis
  proof cases
    case 1
    then have "xl = 0" using z(2) by simp
    then have del: "bt_DeleteNode z t = bt_Transplant z xr t" using nz z(4) by (simp add: bt_DeleteNode_def)
    obtain t' where "bt_Transplant z xr t = Some t'" "same_data t t'" "ctx_at 0 (lks t') (bt_root t') xr p c" "tree_at 0 (lks t') xr p r"
      using Transplant_tree [OF cx z(4,1,3) d(4,6,8,1,3)] by blast
    with del 1 show ?thesis by (intro exI [of _ t'] exI [of _ "plug c r"]) (auto simp: plug_at inorder_plug)
  next
    case 2
    then have "xl \<noteq> 0" "xr = 0" using z(2,3) tree_at_nil [of 0 "lks t" z l] by (metis, simp)
    then have del: "bt_DeleteNode z t = bt_Transplant z xl t" using nz z(4) by (simp add: bt_DeleteNode_def)
    obtain t' where "bt_Transplant z xl t = Some t'" "same_data t t'" "ctx_at 0 (lks t') (bt_root t') xl p c" "tree_at 0 (lks t') xl p l"
      using Transplant_tree [OF cx z(4,1,2) d(4,5,7,1,2)] by blast
    with del 2 show ?thesis by (intro exI [of _ t'] exI [of _ "plug c l"]) (auto simp: plug_at inorder_plug)
  next
    case 3
    then have x0: "xl \<noteq> 0" "xr \<noteq> 0" using z(2,3) tree_at_nil by metis+
    obtain y m r1 q where y: "bt_min_loop (bt_heap t) xr = Some y" "r = plug m (Node Leaf y r1)" "ctx_before m = []"
        "tree_at 0 (lks t) y q (Node Leaf y r1)" "if m = [] then q = z else q \<in> set_tree r"
        "ctx_at 0 (lks t) (bt_root t) xr z (FR l z # c) \<longrightarrow> ctx_at 0 (lks t) (bt_root t) y q (m @ FR l z # c)"
      using min_loop_ctx [OF z(3) 3(2)] by blast
    have cm: "ctx_at 0 (lks t) (bt_root t) y q (m @ FR l z # c)" using y(6) cx z(1,2,4) by simp
    obtain ny where ny: "bt_get y t = Some ny" "bt_parent ny = q" using y(4) bt_get_Some by fastforce
    let ?mid = "if bt_parent ny \<noteq> z then do {
                 t \<leftarrow> bt_Transplant y (bt_right ny) t;
                 nz \<leftarrow> bt_get z t;
                 t \<leftarrow> bt_set y (\<lambda>n. n\<lparr>bt_right := bt_right nz\<rparr>) t;
                 ny \<leftarrow> bt_get y t;
                 bt_set (bt_right ny) (\<lambda>n. n\<lparr>bt_parent := y\<rparr>) t
               } else Some t"
    have qz: "q \<noteq> z \<longleftrightarrow> m \<noteq> []"
    proof (cases "m = []")
      case False
      then have "q \<in> set_tree r" using y(5) by (simp only: if_False)
      then show ?thesis using False d(6) by blast
    qed (use y(5) in simp)
    obtain t3 xl3 xr3 p3 where t3: "?mid = Some t3" "same_data t t3" "ctx_at 0 (lks t3) (bt_root t3) z p3 c"
        "lks t3 z = Some (xl3, xr3, p3)" "tree_at 0 (lks t3) xl3 z l" "tree_at 0 (lks t3) y q (Node Leaf y (plug m r1))"
    proof (cases "m = []")
      case True
      have "?mid = Some t" using qz True ny(2) by (simp only: simp_thms if_False)
      moreover have "tree_at 0 (lks t) y q (Node Leaf y (plug m r1))" using y(4) True by (simp only: plug.simps)
      ultimately show ?thesis using that [OF _ same_data_refl cx z(1,2)] by blast
    next
      case False
      have "distinct (inorder (plug c (Node l z (plug m (Node Leaf y r1)))))" using assms(2) y(2) by (simp only:)
      from Delete_take_out [OF cm y(4) False this ny(1)] obtain t3 xl3 xr3 p3 where
        "(do {
                 t \<leftarrow> bt_Transplant y (bt_right ny) t;
                 nz \<leftarrow> bt_get z t;
                 t \<leftarrow> bt_set y (\<lambda>n. n\<lparr>bt_right := bt_right nz\<rparr>) t;
                 ny \<leftarrow> bt_get y t;
                 bt_set (bt_right ny) (\<lambda>n. n\<lparr>bt_parent := y\<rparr>) t
               }) = Some t3" and rest: "same_data t t3" "ctx_at 0 (lks t3) (bt_root t3) z p3 c"
        "lks t3 z = Some (xl3, xr3, p3)" "tree_at 0 (lks t3) xl3 z l" "tree_at 0 (lks t3) y q (Node Leaf y (plug m r1))"
        by blast
      then have "?mid = Some t3" using qz False ny(2) by simp
      from that [OF this rest] show ?thesis .
    qed
    have dr: "distinct (inorder (plug c (Node l y (plug m r1))))" "z \<noteq> y" "z \<notin> set_tree (plug m r1)"
      using assms(2) d(6) unfolding y(2) by (auto simp: distinct_plug set_plug)
    obtain t' where t': "(do {
          t \<leftarrow> bt_Transplant z y t3;
          nz \<leftarrow> bt_get z t;
          t \<leftarrow> bt_set y (\<lambda>n. n\<lparr>bt_left := bt_left nz\<rparr>) t;
          ny \<leftarrow> bt_get y t;
          bt_set (bt_left ny) (\<lambda>n. n\<lparr>bt_parent := y\<rparr>) t
        }) = Some t'" "same_data t3 t'" "tree_at 0 (lks t') (bt_root t') 0 (plug c (Node l y (plug m r1)))"
      using Delete_end [OF t3(3,4,5) 3(1) z(4) t3(6) d(4,5) dr(2,3,1)] by blast
    have "bt_DeleteNode z t = Some t'" using nz z(4) x0 y(1) ny(1) t3(1) t'(1) by (simp add: bt_DeleteNode_def bt_MinOf_def)
    moreover have "inorder (plug c (Node l y (plug m r1))) = ctx_before c @ inorder l @ inorder r @ ctx_after c"
      using y(2,3) by (simp add: inorder_plug)
    ultimately show ?thesis using t'(3) same_data_trans [OF t3(2) t'(2)] by blast
  qed
qed

theorem bt_Delete_holds:
  assumes "bt_holds t S"
  shows "\<exists>t'. bt_Delete d t = Some t' \<and> bt_holds t' (S - {d})"
proof -
  obtain s where s: "bt_tree t s" "set_tree s = dom (bt_heap t)" "sorted_wrt (<) (bt_keys (bt_heap t) s)" "S = set (bt_keys (bt_heap t) s)"
    using bt_holdsE [OF assms] .
  note tr = bt_treeD [OF s(1)]
  obtain x where x: "bt_Search d t = Some x" "if d \<in> bt_key (bt_heap t) ` set_tree s then x \<in> set_tree s \<and> bt_key (bt_heap t) x = d else x = 0"
    using search_loop [OF tr(1) s(3), of d] by (auto simp: bt_Search_def)
  show ?thesis
  proof (cases "d \<in> S")
    case False
    then have "x = 0" using x(2) s(4) by (simp add: set_bt_keys)
    then show ?thesis using x(1) assms False by (simp add: bt_Delete_def bt_FreeNode_def)
  next
    case True
    then have xs: "x \<in> set_tree s" "bt_key (bt_heap t) x = d" using x(2) s(4) by (auto simp: set_bt_keys)
    then have x0: "x \<noteq> 0" using tr(6) by metis
    obtain c l r where c: "s = plug c (Node l x r)" using split_at [OF xs(1)] by blast
    obtain t1 s' where t1: "bt_DeleteNode x t = Some t1" "same_data t t1" "tree_at 0 (lks t1) (bt_root t1) 0 s'"
        "inorder s' = ctx_before c @ inorder l @ inorder r @ ctx_after c"
      using DeleteNode_tree [of t c l x r] tr(1,2) c by blast
    note sd = same_dataD [OF t1(2)]
    define t2 where "t2 = t1\<lparr>bt_heap := (bt_heap t1)(x := None)\<rparr>"
    have "x \<in> dom (bt_heap t1)" using xs(1) s(2) sd(1) by simp
    then have "bt_FreeNode x t1 = Some t2" using x0 by (auto simp: bt_FreeNode_def t2_def)
    then have del: "bt_Delete d t = Some t2" using x(1) x0 t1(1) by (simp add: bt_Delete_def)
    have ino: "inorder s = ctx_before c @ inorder l @ x # inorder r @ ctx_after c" using c by (simp add: inorder_plug)
    then have dist: "distinct (inorder s')" "x \<notin> set (inorder s')" "set (inorder s') = set (inorder s) - {x}"
      using tr(2) t1(4) by auto
    have lk: "lks t2 = (lks t1)(x := None)" by (auto simp: t2_def bt_links_def)
    have "tree_at 0 (lks t2) (bt_root t2) 0 s'" using t1(3) dist(2) lk by (simp add: t2_def)
    moreover have dom2: "dom (bt_heap t2) = dom (bt_heap t) - {x}" using sd(1) by (simp add: t2_def)
    moreover have "bt_next t2 = bt_next t" using sd(3) by (simp add: t2_def)
    ultimately have bt2: "bt_tree t2 s'" "set_tree s' = dom (bt_heap t2)" using s(1,2) dist by (auto simp: bt_tree_def)
    have "bt_key (bt_heap t2) a = bt_key (bt_heap t) a" if "a \<noteq> x" for a using sd(2) that by (metis (no_types, lifting) bt_key_def btree.select_convs(2) btree.surjective btree.update_convs(2) fun_upd_other t2_def)
    then have keys: "bt_keys (bt_heap t2) s' = map (bt_key (bt_heap t)) (inorder s')"
      using dist(2) unfolding bt_keys_def by (intro map_cong) metis+
    have srt: "sorted_wrt (<) (bt_keys (bt_heap t2) s')"
      unfolding keys using s(3) unfolding bt_keys_def ino t1(4) by (auto simp: sorted_wrt_append)
    have "d \<notin> set (bt_keys (bt_heap t2) s')" using s(3) keys ino t1(4) xs(2) by (auto simp: bt_keys_def sorted_wrt_append)
    moreover have "insert d (set (bt_keys (bt_heap t2) s')) = S" using s(4) keys ino t1(4) xs(2) by (auto simp: bt_keys_def)
    ultimately have "set (bt_keys (bt_heap t2) s') = S - {d}" by blast
    with bt2 srt del show ?thesis by (auto simp: bt_holds_def)
  qed
qed

section \<open>The tree as a set\<close>

lemma new_holds: "bt_holds bt_new {}"
proof -
  have "bt_tree bt_new Leaf" by (simp add: bt_tree_def bt_new_def)
  then show ?thesis unfolding bt_holds_def by (intro exI [of _ Leaf]) (simp add: bt_new_def)
qed

lemma Search_holds: "bt_holds t S \<Longrightarrow> \<exists>x. bt_Search d t = Some x \<and> (if d \<in> S then bt_key (bt_heap t) x = d \<and> x \<noteq> 0 else x = 0)"
proof (elim bt_holdsE)
  fix s assume s: "bt_tree t s" "set_tree s = dom (bt_heap t)" "sorted_wrt (<) (bt_keys (bt_heap t) s)" "S = set (bt_keys (bt_heap t) s)"
  have "S = bt_key (bt_heap t) ` set_tree s" using s(4) by (simp add: set_bt_keys)
  then show ?thesis using search_loop [OF bt_treeD(1) [OF s(1)] s(3), of d] bt_treeD(6) [OF s(1)]
    unfolding bt_Search_def by metis
qed

lemma Walk_holds: "bt_holds t S \<Longrightarrow> bt_InorderWalk t = Some (sorted_list_of_set S) \<and> card (dom (bt_heap t)) = card S"
proof (elim bt_holdsE)
  fix s assume s: "bt_tree t s" "set_tree s = dom (bt_heap t)" "sorted_wrt (<) (bt_keys (bt_heap t) s)" "S = set (bt_keys (bt_heap t) s)"
  let ?k = "bt_keys (bt_heap t) s"
  have "sorted ?k" "distinct ?k" using s(3) by (simp_all add: strict_sorted_iff)
  then have "sorted_list_of_set S = ?k" using s(4) by (simp add: sorted_list_of_set.idem_if_sorted_distinct)
  moreover have "card (dom (bt_heap t)) = length (inorder s)" using s(2) bt_treeD(2) [OF s(1)] by (metis distinct_card set_inorder)
  moreover have "card S = length (inorder s)" using s(4) \<open>distinct ?k\<close> distinct_card length_map unfolding bt_keys_def by metis
  ultimately show ?thesis using walk_keys [OF bt_treeD(1) [OF s(1)]] by (simp add: bt_InorderWalk_def)
qed

lemma max_loop_last:
  "tree_at 0 (bt_links h) x p s \<Longrightarrow> s \<noteq> Leaf \<Longrightarrow> \<exists>y. bt_max_loop h x = Some y \<and> bt_key h y = last (bt_keys h s)"
proof (induction s arbitrary: x p)
  case (Node l a r)
  then obtain n where n: "h a = Some n" "x = a" "a \<noteq> 0" "tree_at 0 (bt_links h) (bt_right n) a r" by (auto simp: bt_links_Some)
  show ?case
  proof (cases "r = Leaf")
    case True
    then have "bt_right n = 0" using n(4) by simp
    then show ?thesis using n True by (subst bt_max_loop.simps) simp
  next
    case False
    then have "bt_right n \<noteq> 0" using n(4) tree_at_nil by metis
    moreover have "bt_keys h r \<noteq> []" using False by (cases r) simp_all
    ultimately show ?thesis using n Node.IH(2) [OF n(4) False] by (subst bt_max_loop.simps) simp
  qed
qed simp

lemma sorted_ends:
  assumes "sorted xs" "xs \<noteq> []"
  shows "hd xs = Min (set xs)" "last xs = Max (set xs)"
proof -
  obtain x ys where "xs = x # ys" using assms(2) by (cases xs) auto
  then show "hd xs = Min (set xs)" using assms(1) by (auto intro!: Min_eqI [symmetric])
  obtain y zs where "xs = zs @ [y]" using assms(2) by (cases xs rule: rev_cases) auto
  then show "last xs = Max (set xs)" using assms(1) by (auto simp: sorted_append intro!: Max_eqI [symmetric])
qed

lemma MinMax_holds:
  assumes "bt_holds t S" "S \<noteq> {}"
  shows "\<exists>x y. bt_Min t = Some x \<and> bt_key (bt_heap t) x = Min S \<and> bt_Max t = Some y \<and> bt_key (bt_heap t) y = Max S"
proof -
  obtain s where s: "bt_tree t s" "set_tree s = dom (bt_heap t)" "sorted_wrt (<) (bt_keys (bt_heap t) s)" "S = set (bt_keys (bt_heap t) s)"
    using bt_holdsE [OF assms(1)] .
  let ?k = "bt_keys (bt_heap t) s"
  note tr = bt_treeD [OF s(1)]
  have ne: "s \<noteq> Leaf" "?k \<noteq> []" using s(4) assms(2) by auto
  then have rt: "bt_root t \<noteq> 0" using tr(1) tree_at_nil by metis
  obtain y where y: "bt_max_loop (bt_heap t) (bt_root t) = Some y" "bt_key (bt_heap t) y = last ?k"
    using max_loop_last [OF tr(1) ne(1)] by blast
  obtain x m r where x: "bt_min_loop (bt_heap t) (bt_root t) = Some x" "s = plug m (Node Leaf x r)" "ctx_before m = []"
    using min_loop_ctx [OF tr(1) ne(1)] by blast
  have "?k = bt_key (bt_heap t) x # map (bt_key (bt_heap t)) (inorder r @ ctx_after m)"
    using x(2,3) by (simp add: bt_keys_plug) (simp add: bt_keys_def)
  then have "bt_key (bt_heap t) x = hd ?k" by simp
  moreover have "hd ?k = Min S" "last ?k = Max S"
    using sorted_ends [OF sorted_wrt_less_sorted [OF s(3)] ne(2)] s(4) by simp_all
  ultimately show ?thesis using x(1) y rt by (simp add: bt_Min_def bt_Max_def bt_MinOf_def bt_MaxOf_def)
qed

text \<open>A use of the tree.\<close>

datatype bt_op = BT_Insert int | BT_Delete int

fun bt_run :: "bt_op list \<Rightarrow> btree \<Rightarrow> btree option" where
  "bt_run [] t = Some t"
| "bt_run (BT_Insert d # ops) t = do { t \<leftarrow> bt_Insert d t; bt_run ops t }"
| "bt_run (BT_Delete d # ops) t = do { t \<leftarrow> bt_Delete d t; bt_run ops t }"

text \<open>What it does to a set, and the condition that nothing is inserted that is there.\<close>

fun bt_set_run :: "bt_op list \<Rightarrow> int set \<Rightarrow> int set" where
  "bt_set_run [] S = S"
| "bt_set_run (BT_Insert d # ops) S = bt_set_run ops (insert d S)"
| "bt_set_run (BT_Delete d # ops) S = bt_set_run ops (S - {d})"

fun bt_fresh :: "bt_op list \<Rightarrow> int set \<Rightarrow> bool" where
  "bt_fresh [] S \<longleftrightarrow> True"
| "bt_fresh (BT_Insert d # ops) S \<longleftrightarrow> d \<notin> S \<and> bt_fresh ops (insert d S)"
| "bt_fresh (BT_Delete d # ops) S \<longleftrightarrow> bt_fresh ops (S - {d})"

lemma run_holds: "bt_holds t S \<Longrightarrow> bt_fresh ops S \<Longrightarrow> \<exists>t'. bt_run ops t = Some t' \<and> bt_holds t' (bt_set_run ops S)"
proof (induction ops arbitrary: t S)
  case (Cons op ops)
  show ?case
  proof (cases op)
    case (BT_Insert d)
    then show ?thesis using bt_Insert_holds [OF Cons.prems(1), of d] Cons by fastforce
  next
    case (BT_Delete d)
    then show ?thesis using bt_Delete_holds [OF Cons.prems(1), of d] Cons by fastforce
  qed
qed simp

text \<open>C22. The binary tree implements a finite set: after any sequence of insertions of data that are not in
  the tree and of deletions, no operation failed or ran forever; the walk prints the set in order, \<open>Search\<close> finds
  exactly its members, \<open>Min\<close> and \<open>Max\<close> are its bounds, and the nodes in memory are as many as the members, so
  that nothing leaked.\<close>

theorem bt_refines_set:
  assumes "bt_fresh ops {}"
  shows "\<exists>t. bt_run ops bt_new = Some t \<and> (let S = bt_set_run ops {} in
      bt_InorderWalk t = Some (sorted_list_of_set S) \<and> card (dom (bt_heap t)) = card S
    \<and> (\<forall>d. \<exists>x. bt_Search d t = Some x \<and> (if d \<in> S then bt_key (bt_heap t) x = d \<and> x \<noteq> 0 else x = 0))
    \<and> (S \<noteq> {} \<longrightarrow> (\<exists>x y. bt_Min t = Some x \<and> bt_key (bt_heap t) x = Min S
                     \<and> bt_Max t = Some y \<and> bt_key (bt_heap t) y = Max S)))"
proof -
  obtain t where t: "bt_run ops bt_new = Some t" "bt_holds t (bt_set_run ops {})"
    using run_holds [OF new_holds assms] by blast
  then show ?thesis using Walk_holds [OF t(2)] Search_holds [OF t(2)] MinMax_holds [OF t(2)] by (simp add: Let_def)
qed

theorem bt_refines_set_witness:
  "\<exists>t. bt_run [BT_Insert 5, BT_Insert 2, BT_Insert 8, BT_Insert 6, BT_Insert 9, BT_Delete 5, BT_Delete 7] bt_new = Some t
    \<and> bt_InorderWalk t = Some [2, 6, 8, 9] \<and> card (dom (bt_heap t)) = 4"
  using bt_refines_set [of "[BT_Insert 5, BT_Insert 2, BT_Insert 8, BT_Insert 6, BT_Insert 9, BT_Delete 5, BT_Delete 7]"]
  by (auto simp: Let_def insert_Diff_if card_insert_if)

section \<open>Inserting what is there\<close>

text \<open>The place of a new node is given by the number of nodes before it.\<close>

lemma plug_append: "plug (m @ c) s = plug c (plug m s)"
  by (induction m s rule: plug.induct) simp_all

lemma ctx_before_append: "ctx_before (m @ c) = ctx_before c @ ctx_before m"
  by (induction m rule: ctx_before.induct) simp_all

lemma ctx_before_size: "length (ctx_before c) \<le> size (plug c Leaf)"
  using arg_cong [OF inorder_plug, of length c Leaf] by simp

lemma plug_unique:
  "plug c Leaf = plug c' Leaf \<Longrightarrow> length (ctx_before c) = length (ctx_before c') \<Longrightarrow> c = c'"
proof (induction c arbitrary: c' rule: rev_induct)
  case Nil
  have "size (plug c' Leaf) = size (plug [] Leaf)" by (metis Nil.prems(1))
  then have "set_ctx c' = {}" using set_plug [of c' Leaf] by (simp add: eq_size_0)
  then show ?case by (cases c' rule: ctx_before.cases) auto
next
  case (snoc f c)
  show ?case
  proof (cases c' rule: rev_cases)
    case Nil
    then show ?thesis using snoc.prems(1) set_plug [of "c @ [f]" Leaf] by (cases f) auto
  next
    case (snoc d g)
    note eqs = snoc.prems snoc
    have le: "length (ctx_before c) \<le> size (plug c Leaf)" "length (ctx_before d) \<le> size (plug d Leaf)" by (rule ctx_before_size)+
    show ?thesis
    proof (cases f; cases g)
      fix a r a' r' assume "f = FL a r" "g = FL a' r'"
      then show ?thesis using eqs snoc.IH [of d] by (simp add: plug_append ctx_before_append)
    next
      fix a r l' a' assume "f = FL a r" "g = FR l' a'"
      then show ?thesis using eqs le by (simp add: plug_append ctx_before_append)
    next
      fix l a a' r' assume "f = FR l a" "g = FL a' r'"
      then show ?thesis using eqs le by (simp add: plug_append ctx_before_append)
    next
      fix l a l' a' assume "f = FR l a" "g = FR l' a'"
      then show ?thesis using eqs snoc.IH [of d] by (simp add: plug_append ctx_before_append)
    qed
  qed
qed

lemma filter_split: "\<forall>a \<in> set xs. P a \<Longrightarrow> \<forall>a \<in> set ys. \<not> P a \<Longrightarrow> filter P (xs @ ys) = xs"
  by (simp add: filter_id_conv filter_empty_conv)

lemma equal_insert:
  assumes "bt_tree t (plug c (Node l a Leaf))" "sorted_wrt (<) (bt_keys (bt_heap t) (plug c (Node l a Leaf)))"
    and "bt_key (bt_heap t) a = d" "bt_MakeNode d t = (z, t1)"
  shows "\<exists>t'. bt_InsertNode z t1 = Some t' \<and> tree_at 0 (lks t') (bt_root t') 0 (plug c (Node (Node Leaf z Leaf) a Leaf)) \<and> same_data t1 t'"
proof -
  let ?P = "\<lambda>b. bt_key (bt_heap t) b \<le> d" and ?e = "FR l a # c"
  obtain c1 t' where c1: "bt_InsertNode z t1 = Some t'" "plug c1 Leaf = plug c (Node l a Leaf)" "\<forall>b \<in> set (ctx_before c1). ?P b"
      "\<forall>b \<in> set (ctx_after c1). \<not> ?P b" "tree_at 0 (lks t') (bt_root t') 0 (attach (bt_key (bt_heap t)) d z c1)" "same_data t1 t'"
    using InsertNode_attach [OF assms(1,4) sorted_wrt_less_sorted [OF assms(2)]] by (metis not_le)
  have e: "\<forall>b \<in> set (ctx_before ?e). ?P b" "\<forall>b \<in> set (ctx_after ?e). \<not> ?P b"
    using assms(2,3) by (auto simp: bt_keys_plug sorted_wrt_append set_bt_keys less_imp_le)
  have eq: "plug c1 Leaf = plug ?e Leaf" using c1(2) by simp
  then have "ctx_before c1 @ ctx_after c1 = ctx_before ?e @ ctx_after ?e" using inorder_plug [of _ Leaf] by (metis append_Nil inorder.simps(1))
  then have "ctx_before c1 = ctx_before ?e" using filter_split [OF c1(3,4)] filter_split [OF e] by metis
  then have "c1 = ?e" using plug_unique [OF eq] by simp
  with c1(1,5,6) assms(3) show ?thesis by auto
qed

text \<open>C40. The tree does not keep equal data: inserting a datum whose node has no right child hangs the new node
  to the left pointer of that node, so that its whole left subtree is cut off. The walk no longer prints the data of that
  subtree and prints the datum twice; the nodes cut off stay in memory, unreachable.\<close>

theorem bt_equal_insert_loses:
  assumes "bt_holds t S" "bt_Search d t = Some x" "bt_heap t x = Some n" "bt_right n = 0"
  shows "\<exists>t' xs. bt_Insert d t = Some t' \<and> bt_walk (bt_heap t) (bt_left n) = Some xs
    \<and> bt_InorderWalk t' = Some (sorted_list_of_set {e \<in> S. e < d \<and> e \<notin> set xs} @ [d, d] @ sorted_list_of_set {e \<in> S. d < e})
    \<and> card (dom (bt_heap t')) = Suc (card S)"
proof -
  obtain s where s: "bt_tree t s" "set_tree s = dom (bt_heap t)" "sorted_wrt (<) (bt_keys (bt_heap t) s)" "S = set (bt_keys (bt_heap t) s)"
    using bt_holdsE [OF assms(1)] .
  note tr = bt_treeD [OF s(1)]
  let ?k = "bt_key (bt_heap t)"
  have x: "x \<in> set_tree s" "?k x = d"
    using search_loop [OF tr(1) s(3), of d] assms(2,3) s(2) tr(6) by (auto simp: bt_Search_def split: if_splits)
  obtain c l r where c: "s = plug c (Node l x r)" using split_at [OF x(1)] by blast
  have tl: "tree_at 0 (lks t) (bt_left n) x l" "tree_at 0 (lks t) (bt_right n) x r"
    using tr(1) assms(3) unfolding c plug_at by (auto simp: bt_links_Some)
  then have r: "r = Leaf" using assms(4) tree_at_nil by metis
  obtain z t1 where mk: "bt_MakeNode d t = (z, t1)" by fastforce
  note m = MakeNode_tree [OF s(1) mk]
  obtain t' where t': "bt_InsertNode z t1 = Some t'" "tree_at 0 (lks t') (bt_root t') 0 (plug c (Node (Node Leaf z Leaf) x Leaf))" "same_data t1 t'"
    using equal_insert [of t c l x, OF _ _ x(2) mk] s(1,3) c r by blast
  have k': "bt_key (bt_heap t') = ?k(z := d)" using same_dataD(2) [OF t'(3)] m(4) by simp
  have zc: "z \<notin> set_ctx c" "z \<noteq> x" using tr(5) m(1) c by (auto simp: set_plug)
  let ?b = "map ?k (ctx_before c)" and ?a = "map ?k (ctx_after c)" and ?l = "map ?k (inorder l)"
  have "map (bt_key (bt_heap t')) (ctx_before c) = ?b" "map (bt_key (bt_heap t')) (ctx_after c) = ?a"
    using zc(1) k' by (auto simp: set_ctx_def)
  then have walk: "bt_InorderWalk t' = Some (?b @ [d, d] @ ?a)"
    using walk_keys [OF t'(2)] k' zc(2) x(2) by (simp add: bt_InorderWalk_def bt_keys_plug)
  have keys: "bt_keys (bt_heap t) s = ?b @ ?l @ d # ?a" using c r x(2) by (simp add: bt_keys_def inorder_plug)
  then have srt: "sorted_wrt (<) ?b" "sorted_wrt (<) ?a" "\<forall>e \<in> set ?b. e < d \<and> e \<notin> set ?l" "\<forall>e \<in> set ?a. d < e" "\<forall>e \<in> set ?l. e < d"
    using s(3) by (auto simp: sorted_wrt_append) fastforce
  have "S = set ?b \<union> set ?l \<union> {d} \<union> set ?a" using s(4) keys by auto
  then have "{e \<in> S. e < d \<and> e \<notin> set ?l} = set ?b" "{e \<in> S. d < e} = set ?a" using srt(3-5) by (auto simp del: set_map)
  moreover have "sorted_list_of_set (set ?b) = ?b" "sorted_list_of_set (set ?a) = ?a"
    using srt(1,2) sorted_list_of_set.idem_if_sorted_distinct strict_sorted_iff by metis+
  moreover have "bt_walk (bt_heap t) (bt_left n) = Some ?l" using walk_keys [OF tl(1)] by (simp add: bt_keys_def)
  moreover have "dom (bt_heap t') = insert z (dom (bt_heap t))" using same_dataD(1) [OF t'(3)] m(5) by simp
  then have "card (dom (bt_heap t')) = Suc (card S)"
    using Walk_holds [OF assms(1)] tr(3) m(1) s(2) by (metis card_insert_disjoint finite_set_tree)
  moreover have "bt_Insert d t = Some t'" using t'(1) mk by (simp add: bt_Insert_def)
  ultimately show ?thesis using walk by (intro exI [of _ t'] exI [of _ ?l]) simp
qed

theorem bt_equal_insert_loses_witness:
  "let t = the (bt_run [BT_Insert 2, BT_Insert 1] bt_new) in
     \<exists>t'. bt_Insert 2 t = Some t' \<and> bt_InorderWalk t' = Some [2, 2] \<and> card (dom (bt_heap t')) = 3"
proof -
  let ?ops = "[BT_Insert 2, BT_Insert 1]"
  let ?t = "the (bt_run ?ops bt_new)"
  have h: "bt_holds ?t {1, 2}" using run_holds [OF new_holds, of ?ops] by auto
  have "bt_Search 2 ?t = Some 1" by code_simp
  moreover have "bt_heap ?t 1 = Some \<lparr>bt_data = 2, bt_left = 2, bt_right = 0, bt_parent = 0\<rparr>" by code_simp
  ultimately obtain t' xs where t': "bt_Insert 2 ?t = Some t'" "bt_walk (bt_heap ?t) 2 = Some xs"
      "bt_InorderWalk t' = Some (sorted_list_of_set {e \<in> {1, 2}. e < 2 \<and> e \<notin> set xs} @ [2, 2] @ sorted_list_of_set {e \<in> {1, 2}. 2 < e})"
      "card (dom (bt_heap t')) = Suc (card {1, 2 :: int})"
    using bt_equal_insert_loses [OF h, of 2 1] by auto
  have "bt_walk (bt_heap ?t) 2 = Some [1]" by code_simp
  then have "{e \<in> {1, 2}. e < 2 \<and> e \<notin> set xs} = {}" "{e \<in> {1, 2 :: int}. 2 < e} = {}" using t'(2) by auto
  then have "bt_InorderWalk t' = Some [2, 2]" unfolding t'(3) by (simp only: sorted_list_of_set_empty append_Nil append_Nil2)
  moreover have "card (dom (bt_heap t')) = 3" using t'(4) by simp
  ultimately show ?thesis using t'(1) unfolding Let_def by blast
qed

end
