(* ===== verification/RBTree.thy ===== *)
theory RBTree
  imports PtrTree
begin

text \<open>
  The red-black tree \<open>rb_tree/src/rb_tree.h\<close>: nodes with pointers to both children and the parent on an
  explicit heap, and one node \<open>nil_\<close> that ends every branch. \<open>NULL\<close> is the address 0, which is never
  allocated; \<open>None\<close> is the use of a pointer that points to no node, or a loop that does not end. Keys are
  \<open>int\<close> under \<open>std::less\<close>, values of any type. \<open>Delete\<close> is not modelled: its \<open>DeleteFixup\<close> is not finished (a
  condition is empty), so that there is no code to translate. The counters do not reach their bound of 64 bits,
  as memory does not hold so many nodes, and are numbers.
\<close>

section \<open>State\<close>

datatype rb_color = RED | BLACK

record 'v rb_node =
  rb_key :: int
  rb_val :: 'v
  rb_size :: nat
  rb_color :: rb_color
  rb_p :: nat
  rb_left :: nat
  rb_right :: nat

type_synonym 'v rb_heap = "nat \<Rightarrow> 'v rb_node option"

record 'v rb_tree =
  rb_root :: nat
  rb_nil :: nat
  rb_count :: nat
  rb_high :: nat
  rb_heap :: "'v rb_heap"
  rb_next :: nat

text \<open>Reading and writing a field of a node.\<close>

definition rb_get :: "('v rb_node \<Rightarrow> 'a) \<Rightarrow> nat \<Rightarrow> 'v rb_tree \<Rightarrow> 'a option" where
  "rb_get f a t = map_option f (rb_heap t a)"

definition rb_set :: "nat \<Rightarrow> ('v rb_node \<Rightarrow> 'v rb_node) \<Rightarrow> 'v rb_tree \<Rightarrow> 'v rb_tree option" where
  "rb_set a f t = (case rb_heap t a of None \<Rightarrow> None | Some n \<Rightarrow> Some (t\<lparr>rb_heap := (rb_heap t)(a \<mapsto> f n)\<rparr>))"

definition rb_MakeNode :: "int \<Rightarrow> 'v \<Rightarrow> 'v rb_tree \<Rightarrow> nat \<times> 'v rb_tree" where
  "rb_MakeNode key val t = (rb_next t,
     t\<lparr>rb_heap := (rb_heap t)(rb_next t \<mapsto>
         \<lparr>rb_key = key, rb_val = val, rb_size = 0, rb_color = BLACK, rb_p = 0, rb_left = 0, rb_right = 0\<rparr>),
       rb_next := Suc (rb_next t)\<rparr>)"

text \<open>The constructor; \<open>dv\<close> is the value that \<open>val_type()\<close> gives.\<close>

definition rb_new :: "'v \<Rightarrow> 'v rb_tree" where
  "rb_new dv = (let (x, t) = rb_MakeNode 0 dv \<lparr>rb_root = 0, rb_nil = 0, rb_count = 0, rb_high = 0, rb_heap = Map.empty, rb_next = 1\<rparr>
     in t\<lparr>rb_nil := x, rb_root := x\<rparr>)"

section \<open>Looking up\<close>

partial_function (option) rb_search_loop :: "'v rb_tree \<Rightarrow> int \<Rightarrow> nat \<Rightarrow> nat option" where
  "rb_search_loop t key x =
     (if x = rb_nil t then Some x
      else do {
        n \<leftarrow> rb_heap t x;
        if rb_key n = key then Some x
        else rb_search_loop t key (if key < rb_key n then rb_left n else rb_right n)
      })"

definition rb_Search :: "int \<Rightarrow> 'v rb_tree \<Rightarrow> nat option" where
  "rb_Search key t = rb_search_loop t key (rb_root t)"

text \<open>What is printed, in order.\<close>

partial_function (option) rb_walk :: "'v rb_tree \<Rightarrow> nat \<Rightarrow> (int \<times> 'v) list option" where
  "rb_walk t x =
     (if x \<noteq> rb_nil t
      then do {
        n \<leftarrow> rb_heap t x;
        ls \<leftarrow> rb_walk t (rb_left n);
        rs \<leftarrow> rb_walk t (rb_right n);
        Some (ls @ [(rb_key n, rb_val n)] @ rs)
      }
      else Some [])"

definition rb_InorderWalk :: "'v rb_tree \<Rightarrow> (int \<times> 'v) list option" where
  "rb_InorderWalk t = rb_walk t (rb_root t)"

partial_function (option) rb_Max :: "'v rb_tree \<Rightarrow> nat \<Rightarrow> nat option" where
  "rb_Max t x = do { n \<leftarrow> rb_heap t x; if rb_right n \<noteq> rb_nil t then rb_Max t (rb_right n) else Some x }"

partial_function (option) rb_Min :: "'v rb_tree \<Rightarrow> nat \<Rightarrow> nat option" where
  "rb_Min t x = do { n \<leftarrow> rb_heap t x; if rb_left n \<noteq> rb_nil t then rb_Min t (rb_left n) else Some x }"

section \<open>Rotations\<close>

definition rb_LeftRorate :: "nat \<Rightarrow> 'v rb_tree \<Rightarrow> 'v rb_tree option" where
  "rb_LeftRorate x t =
     (if x = 0 then Some t
      else do {
        y \<leftarrow> rb_get rb_right x t;
        if y = 0 then Some t
        else do {
          yl \<leftarrow> rb_get rb_left y t;
          t \<leftarrow> rb_set x (\<lambda>n. n\<lparr>rb_right := yl\<rparr>) t;
          yl \<leftarrow> rb_get rb_left y t;
          t \<leftarrow> (if yl \<noteq> rb_nil t then rb_set yl (\<lambda>n. n\<lparr>rb_p := x\<rparr>) t else Some t);
          xp \<leftarrow> rb_get rb_p x t;
          t \<leftarrow> rb_set y (\<lambda>n. n\<lparr>rb_p := xp\<rparr>) t;
          xp \<leftarrow> rb_get rb_p x t;
          t \<leftarrow> (if xp = rb_nil t then Some (t\<lparr>rb_root := y\<rparr>)
               else do {
                 l \<leftarrow> rb_get rb_left xp t;
                 if x = l then rb_set xp (\<lambda>n. n\<lparr>rb_left := y\<rparr>) t else rb_set xp (\<lambda>n. n\<lparr>rb_right := y\<rparr>) t
               });
          t \<leftarrow> rb_set y (\<lambda>n. n\<lparr>rb_left := x\<rparr>) t;
          rb_set x (\<lambda>n. n\<lparr>rb_p := y\<rparr>) t
        }
      })"

definition rb_RightRorate :: "nat \<Rightarrow> 'v rb_tree \<Rightarrow> 'v rb_tree option" where
  "rb_RightRorate y t =
     (if y = 0 then Some t
      else do {
        x \<leftarrow> rb_get rb_left y t;
        if x = 0 then Some t
        else do {
          xr \<leftarrow> rb_get rb_right x t;
          t \<leftarrow> rb_set y (\<lambda>n. n\<lparr>rb_left := xr\<rparr>) t;
          xr \<leftarrow> rb_get rb_right x t;
          t \<leftarrow> (if xr \<noteq> rb_nil t then rb_set xr (\<lambda>n. n\<lparr>rb_p := y\<rparr>) t else Some t);
          yp \<leftarrow> rb_get rb_p y t;
          t \<leftarrow> rb_set x (\<lambda>n. n\<lparr>rb_p := yp\<rparr>) t;
          yp \<leftarrow> rb_get rb_p y t;
          t \<leftarrow> (if yp = rb_nil t then Some (t\<lparr>rb_root := x\<rparr>)
               else do {
                 l \<leftarrow> rb_get rb_left yp t;
                 if y = l then rb_set yp (\<lambda>n. n\<lparr>rb_left := x\<rparr>) t else rb_set yp (\<lambda>n. n\<lparr>rb_right := x\<rparr>) t
               });
          t \<leftarrow> rb_set x (\<lambda>n. n\<lparr>rb_right := y\<rparr>) t;
          rb_set y (\<lambda>n. n\<lparr>rb_p := x\<rparr>) t
        }
      })"

definition rb_Transplant :: "nat \<Rightarrow> nat \<Rightarrow> 'v rb_tree \<Rightarrow> 'v rb_tree option" where
  "rb_Transplant u v t = do {
     p \<leftarrow> rb_get rb_p u t;
     t \<leftarrow> (if p = rb_nil t then Some (t\<lparr>rb_root := v\<rparr>)
          else do {
            l \<leftarrow> rb_get rb_left p t;
            if u = l then rb_set p (\<lambda>n. n\<lparr>rb_left := v\<rparr>) t else rb_set p (\<lambda>n. n\<lparr>rb_right := v\<rparr>) t
          });
     p \<leftarrow> rb_get rb_p u t;
     rb_set v (\<lambda>n. n\<lparr>rb_p := p\<rparr>) t
   }"

section \<open>Insertion\<close>

text \<open>The body of the loop of \<open>InsertFixup\<close>, for a node whose parent is red: the branches for a parent that is a left
  child and for one that is a right child. They answer the next node.\<close>

definition rb_recolor :: "nat \<Rightarrow> nat \<Rightarrow> 'v rb_tree \<Rightarrow> (nat \<times> 'v rb_tree) option" where
  "rb_recolor z y t = do {
     p \<leftarrow> rb_get rb_p z t;
     t \<leftarrow> rb_set p (\<lambda>n. n\<lparr>rb_color := BLACK\<rparr>) t;
     t \<leftarrow> rb_set y (\<lambda>n. n\<lparr>rb_color := BLACK\<rparr>) t;
     p \<leftarrow> rb_get rb_p z t;
     g \<leftarrow> rb_get rb_p p t;
     t \<leftarrow> rb_set g (\<lambda>n. n\<lparr>rb_color := RED\<rparr>) t;
     p \<leftarrow> rb_get rb_p z t;
     g \<leftarrow> rb_get rb_p p t;
     Some (g, t)
   }"

definition rb_fix_left :: "nat \<Rightarrow> 'v rb_tree \<Rightarrow> (nat \<times> 'v rb_tree) option" where
  "rb_fix_left z t = do {
     p \<leftarrow> rb_get rb_p z t;
     g \<leftarrow> rb_get rb_p p t;
     y \<leftarrow> rb_get rb_right g t;
     c \<leftarrow> rb_get rb_color y t;
     if c = RED then rb_recolor z y t
     else do {
       r \<leftarrow> rb_get rb_right p t;
       if z = r then do { t \<leftarrow> rb_LeftRorate p t; Some (p, t) }
       else do {
         t \<leftarrow> rb_set p (\<lambda>n. n\<lparr>rb_color := BLACK\<rparr>) t;
         p \<leftarrow> rb_get rb_p z t;
         g \<leftarrow> rb_get rb_p p t;
         t \<leftarrow> rb_set g (\<lambda>n. n\<lparr>rb_color := RED\<rparr>) t;
         p \<leftarrow> rb_get rb_p z t;
         g \<leftarrow> rb_get rb_p p t;
         t \<leftarrow> rb_RightRorate g t;
         Some (z, t)
       }
     }
   }"

definition rb_fix_right :: "nat \<Rightarrow> 'v rb_tree \<Rightarrow> (nat \<times> 'v rb_tree) option" where
  "rb_fix_right z t = do {
     p \<leftarrow> rb_get rb_p z t;
     g \<leftarrow> rb_get rb_p p t;
     y \<leftarrow> rb_get rb_left g t;
     c \<leftarrow> rb_get rb_color y t;
     if c = RED then rb_recolor z y t
     else do {
       l \<leftarrow> rb_get rb_left p t;
       if z = l then do { t \<leftarrow> rb_RightRorate p t; Some (p, t) }
       else do {
         t \<leftarrow> rb_set p (\<lambda>n. n\<lparr>rb_color := BLACK\<rparr>) t;
         p \<leftarrow> rb_get rb_p z t;
         g \<leftarrow> rb_get rb_p p t;
         t \<leftarrow> rb_set g (\<lambda>n. n\<lparr>rb_color := RED\<rparr>) t;
         p \<leftarrow> rb_get rb_p z t;
         g \<leftarrow> rb_get rb_p p t;
         t \<leftarrow> rb_LeftRorate g t;
         Some (z, t)
       }
     }
   }"

partial_function (option) rb_fix_loop :: "nat \<Rightarrow> 'v rb_tree \<Rightarrow> 'v rb_tree option" where
  "rb_fix_loop z t = do {
     p \<leftarrow> rb_get rb_p z t;
     c \<leftarrow> rb_get rb_color p t;
     if c = RED then do {
       g \<leftarrow> rb_get rb_p p t;
       l \<leftarrow> rb_get rb_left g t;
       zt \<leftarrow> (if p = l then rb_fix_left z t else rb_fix_right z t);
       rb_fix_loop (fst zt) (snd zt)
     }
     else Some t
   }"

definition rb_InsertFixup :: "nat \<Rightarrow> 'v rb_tree \<Rightarrow> 'v rb_tree option" where
  "rb_InsertFixup z t = do { t \<leftarrow> rb_fix_loop z t; rb_set (rb_root t) (\<lambda>n. n\<lparr>rb_color := BLACK\<rparr>) t }"

text \<open>The loop down, which answers \<open>y\<close> and \<open>cnt\<close>.\<close>

partial_function (option) rb_descend :: "'v rb_tree \<Rightarrow> int \<Rightarrow> nat \<Rightarrow> nat \<Rightarrow> nat \<Rightarrow> (nat \<times> nat) option" where
  "rb_descend t key x y cnt =
     (if x \<noteq> rb_nil t
      then do { n \<leftarrow> rb_heap t x; rb_descend t key (if key < rb_key n then rb_left n else rb_right n) x (Suc cnt) }
      else Some (y, cnt))"

definition rb_InsertNode :: "nat \<Rightarrow> 'v rb_tree \<Rightarrow> 'v rb_tree option" where
  "rb_InsertNode z t = do {
     key \<leftarrow> rb_get rb_key z t;
     (y, cnt) \<leftarrow> rb_descend t key (rb_root t) (rb_nil t) 0;
     t \<leftarrow> Some (if cnt > rb_high t then t\<lparr>rb_high := cnt\<rparr> else t);
     t \<leftarrow> rb_set z (\<lambda>n. n\<lparr>rb_p := y\<rparr>) t;
     t \<leftarrow> (if y = rb_nil t then Some (t\<lparr>rb_root := z\<rparr>)
          else do {
            ykey \<leftarrow> rb_get rb_key y t;
            if key < ykey then rb_set y (\<lambda>n. n\<lparr>rb_left := z\<rparr>) t else rb_set y (\<lambda>n. n\<lparr>rb_right := z\<rparr>) t
          });
     t \<leftarrow> rb_set z (\<lambda>n. n\<lparr>rb_left := rb_nil t\<rparr>) t;
     t \<leftarrow> rb_set z (\<lambda>n. n\<lparr>rb_right := rb_nil t\<rparr>) t;
     t \<leftarrow> rb_set z (\<lambda>n. n\<lparr>rb_color := RED\<rparr>) t;
     rb_InsertFixup z t
   }"

definition rb_Insert :: "int \<Rightarrow> 'v \<Rightarrow> 'v rb_tree \<Rightarrow> 'v rb_tree option" where
  "rb_Insert key val t =
     (let (z, t) = rb_MakeNode key val t
      in if z = 0 then Some t
         else do { t \<leftarrow> rb_InsertNode z t; Some (t\<lparr>rb_count := Suc (rb_count t)\<rparr>) })"

definition rb_get_high :: "'v rb_tree \<Rightarrow> nat" where "rb_get_high t = rb_high t"

definition rb_get_size :: "'v rb_tree \<Rightarrow> nat" where "rb_get_size t = rb_count t"

declare rb_search_loop.simps [code] rb_walk.simps [code] rb_Max.simps [code] rb_Min.simps [code]
  rb_fix_loop.simps [code] rb_descend.simps [code]

end
