(* ===== verification/RBTreeRotate.thy ===== *)
theory RBTreeRotate
  imports RBTree
begin

text \<open>
  Writes of single fields, and what the rotations of \<open>RBTree\<close> do to the tree of addresses.
\<close>

section \<open>Links, colours and data\<close>

definition rl :: "'v rb_tree \<Rightarrow> links" where
  "rl t a = map_option (\<lambda>n. (rb_left n, rb_right n, rb_p n)) (rb_heap t a)"

definition col :: "'v rb_tree \<Rightarrow> nat \<Rightarrow> rb_color" where
  "col t a = (case rb_heap t a of None \<Rightarrow> BLACK | Some n \<Rightarrow> rb_color n)"

definition rb_data :: "'v rb_tree \<Rightarrow> nat \<Rightarrow> (int \<times> 'v) option" where
  "rb_data t a = map_option (\<lambda>n. (rb_key n, rb_val n)) (rb_heap t a)"

text \<open>Everything but links, colours and the root.\<close>

definition rb_rest :: "'v rb_tree \<Rightarrow> (nat \<Rightarrow> (int \<times> 'v) option) \<times> nat \<times> nat \<times> nat \<times> nat" where
  "rb_rest t = (rb_data t, rb_nil t, rb_next t, rb_count t, rb_high t)"

definition rb_put :: "nat \<Rightarrow> ('v rb_node \<Rightarrow> 'v rb_node) \<Rightarrow> 'v rb_tree \<Rightarrow> 'v rb_tree" where
  "rb_put a f t = t\<lparr>rb_heap := (rb_heap t)(a := map_option f (rb_heap t a))\<rparr>"

lemma rb_set_put: "rl t a = Some v \<Longrightarrow> rb_set a f t = Some (rb_put a f t)"
  by (auto simp: rl_def rb_set_def rb_put_def)

lemma rb_put_simps [simp]:
  "rb_root (rb_put a f t) = rb_root t" "rb_nil (rb_put a f t) = rb_nil t" "rb_next (rb_put a f t) = rb_next t"
  "rb_count (rb_put a f t) = rb_count t" "rb_high (rb_put a f t) = rb_high t"
  by (simp_all add: rb_put_def)

lemma rl_put [simp]:
  "rl (rb_put a (\<lambda>n. n\<lparr>rb_left := x\<rparr>) t) = set_left a x (rl t)"
  "rl (rb_put a (\<lambda>n. n\<lparr>rb_right := x\<rparr>) t) = set_right a x (rl t)"
  "rl (rb_put a (\<lambda>n. n\<lparr>rb_p := x\<rparr>) t) = set_up a x (rl t)"
  "rl (rb_put a (\<lambda>n. n\<lparr>rb_color := c\<rparr>) t) = rl t"
  by (auto simp: rl_def rb_put_def set_left_def set_right_def set_up_def fun_eq_iff option.map_comp comp_def)

lemma col_put [simp]:
  "col (rb_put a (\<lambda>n. n\<lparr>rb_left := x\<rparr>) t) = col t"
  "col (rb_put a (\<lambda>n. n\<lparr>rb_right := x\<rparr>) t) = col t"
  "col (rb_put a (\<lambda>n. n\<lparr>rb_p := x\<rparr>) t) = col t"
  by (auto simp: col_def rb_put_def fun_eq_iff split: option.splits)

lemma col_put_color: "rl t a \<noteq> None \<Longrightarrow> col (rb_put a (\<lambda>n. n\<lparr>rb_color := c\<rparr>) t) = (col t)(a := c)"
  by (auto simp: rl_def col_def rb_put_def fun_eq_iff)

lemma rb_rest_put [simp]:
  "rb_rest (rb_put a (\<lambda>n. n\<lparr>rb_left := x\<rparr>) t) = rb_rest t"
  "rb_rest (rb_put a (\<lambda>n. n\<lparr>rb_right := x\<rparr>) t) = rb_rest t"
  "rb_rest (rb_put a (\<lambda>n. n\<lparr>rb_p := x\<rparr>) t) = rb_rest t"
  "rb_rest (rb_put a (\<lambda>n. n\<lparr>rb_color := c\<rparr>) t) = rb_rest t"
  by (auto simp: rb_rest_def rb_data_def rb_put_def fun_eq_iff option.map_comp comp_def)

lemma root_put [simp]:
  "rl (t\<lparr>rb_root := x\<rparr>) = rl t" "col (t\<lparr>rb_root := x\<rparr>) = col t" "rb_rest (t\<lparr>rb_root := x\<rparr>) = rb_rest t"
  by (auto simp: rl_def col_def rb_rest_def rb_data_def)

lemma rb_rest_nil: "rb_rest t' = rb_rest t \<Longrightarrow> rb_nil t' = rb_nil t"
  by (simp add: rb_rest_def)

lemma rb_get_links:
  "rl t a = Some (l, r, p) \<Longrightarrow> rb_get rb_left a t = Some l"
  "rl t a = Some (l, r, p) \<Longrightarrow> rb_get rb_right a t = Some r"
  "rl t a = Some (l, r, p) \<Longrightarrow> rb_get rb_p a t = Some p"
  "rl t a = Some (l, r, p) \<Longrightarrow> rb_get rb_color a t = Some (col t a)"
  by (auto simp: rl_def rb_get_def col_def)

section \<open>The pointer to a subtree\<close>

lemma rb_hole:
  assumes "ctx_at (rb_nil t) (rl t) (rb_root t) u p c" "u \<noteq> rb_nil t" "u \<notin> set_ctx c"
  shows "\<exists>t'. (if p = rb_nil t then Some (t\<lparr>rb_root := v\<rparr>)
               else do {
                 l \<leftarrow> rb_get rb_left p t;
                 if u = l then rb_set p (\<lambda>n. n\<lparr>rb_left := v\<rparr>) t else rb_set p (\<lambda>n. n\<lparr>rb_right := v\<rparr>) t
               }) = Some t' \<and> fill c v (rb_root t, rl t) = (rb_root t', rl t') \<and> rb_rest t' = rb_rest t \<and> col t' = col t"
proof (cases c)
  case Nil
  then show ?thesis using assms(1) by simp
next
  case (Cons f d)
  then have p: "p \<noteq> rb_nil t" using ctx_at_parent [OF assms(1)] by simp
  obtain xl xr q where xl: "rl t p = Some (xl, xr, q)" "xl = u \<longleftrightarrow> (\<exists>a r d. c = FL a r # d)"
    using hole_side [OF assms(1) _ assms(2,3)] Cons by blast
  note get = rb_get_links [OF xl(1)] and set = rb_set_put [OF xl(1)]
  show ?thesis
  proof (cases f)
    case (FL a r)
    then have "p = a" "xl = u" using assms(1) Cons xl(2) by auto
    then show ?thesis using p get set Cons FL by simp
  next
    case (FR l a)
    then have "p = a" "xl \<noteq> u" using assms(1) Cons xl(2) by auto
    then show ?thesis using p get set Cons FR by auto
  qed
qed

section \<open>Rotations\<close>

text \<open>What a rotation starts from: the two nodes and the three subtrees around them.\<close>

lemma LeftRorate_tree:
  assumes "tree_at (rb_nil t) (rl t) (rb_root t) (rb_nil t) (plug c (Node A x (Node B y C)))"
    and "distinct (inorder (plug c (Node A x (Node B y C))))" "rl t 0 = None"
  shows "\<exists>t'. rb_LeftRorate x t = Some t' \<and> tree_at (rb_nil t) (rl t') (rb_root t') (rb_nil t) (plug c (Node (Node A x B) y C))
    \<and> rb_rest t' = rb_rest t \<and> col t' = col t"
proof -
  let ?nil = "rb_nil t"
  obtain p where "tree_at ?nil (rl t) x p (Node A x (Node B y C))" and cx: "ctx_at ?nil (rl t) (rb_root t) x p c"
    using assms(1) unfolding plug_at by auto
  then obtain xa yb yc where x: "rl t x = Some (xa, y, p)" "rl t y = Some (yb, yc, x)" "tree_at ?nil (rl t) xa x A"
      "tree_at ?nil (rl t) yb y B" "tree_at ?nil (rl t) yc y C" "x \<noteq> ?nil" "y \<noteq> ?nil"
    by auto
  have d: "distinct (ctx_before c @ ctx_after c)" "distinct (inorder B)" "x \<notin> set_ctx c" "y \<notin> set_ctx c" "x \<noteq> y" "y \<noteq> x"
      "x \<notin> set_tree A" "x \<notin> set_tree B" "x \<notin> set_tree C" "y \<notin> set_tree A" "y \<notin> set_tree B" "y \<notin> set_tree C"
      "set_tree A \<inter> set_ctx c = {}" "set_tree B \<inter> set_ctx c = {}" "set_tree C \<inter> set_ctx c = {}"
      "set_tree A \<inter> set_tree B = {}" "set_tree B \<inter> set_tree C = {}"
    using assms(2) unfolding distinct_plug by auto
  have n0: "x \<noteq> 0" "y \<noteq> 0" using x(1,2) assms(3) by (metis option.distinct(1))+
  have yb: "yb = ?nil \<and> B = Leaf \<or> yb \<noteq> ?nil \<and> yb \<in> set_tree B" using x(4) by (cases B) auto
  have nin: "?nil \<notin> set_ctx c" using ctx_not_nil [OF cx] .
  have ybn: "yb \<noteq> x" "yb \<noteq> y" "yb \<notin> set_ctx c" "yb \<notin> set_tree A" "yb \<notin> set_tree C"
    using yb d x(6,7) nin tree_at_not_nil [OF x(3)] tree_at_not_nil [OF x(5)] by auto
  define t1 where "t1 = rb_put x (\<lambda>n. n\<lparr>rb_right := yb\<rparr>) t"
  define t2 where "t2 = (if yb \<noteq> ?nil then rb_put yb (\<lambda>n. n\<lparr>rb_p := x\<rparr>) t1 else t1)"
  define t3 where "t3 = rb_put y (\<lambda>n. n\<lparr>rb_p := p\<rparr>) t2"
  have r1: "rl t1 = set_right x yb (rl t)" "rb_root t1 = rb_root t" "rb_nil t1 = ?nil" "rb_rest t1 = rb_rest t" "col t1 = col t"
    by (simp_all add: t1_def)
  have l1: "rl t1 x = Some (xa, yb, p)" "rl t1 y = Some (yb, yc, x)" using r1(1) x(1,2) d(5,6) by simp_all
  have r2: "rl t2 = (if yb \<noteq> ?nil then set_up yb x (rl t1) else rl t1)" "rb_root t2 = rb_root t" "rb_nil t2 = ?nil" "rb_rest t2 = rb_rest t" "col t2 = col t"
    using r1 by (simp_all add: t2_def)
  have l2: "rl t2 x = Some (xa, yb, p)" "rl t2 y = Some (yb, yc, x)" using r2(1) l1 ybn by simp_all
  have r3: "rl t3 = set_up y p (rl t2)" "rb_root t3 = rb_root t" "rb_nil t3 = ?nil" "rb_rest t3 = rb_rest t" "col t3 = col t"
    using r2 by (simp_all add: t3_def)
  have l3: "rl t3 x = Some (xa, yb, p)" "rl t3 y = Some (yb, yc, p)" using r3(1) l2 d(5,6) by simp_all
  have c3: "ctx_at ?nil (rl t3) (rb_root t3) x p c" using cx r1(1) r2(1) r3(1,2) d ybn by simp
  have A3: "tree_at ?nil (rl t3) xa x A" using x(3) r1(1) r2(1) r3(1) d ybn by simp
  have C3: "tree_at ?nil (rl t3) yc y C" using x(5) r1(1) r2(1) r3(1) d ybn by simp
  have B3: "tree_at ?nil (rl t3) yb x B"
  proof (cases "yb = ?nil")
    case True
    then show ?thesis using yb tree_at_not_nil [OF x(4)] by auto
  next
    case False
    have "tree_at ?nil (rl t1) yb y B" using x(4) r1(1) d by simp
    then show ?thesis using tree_at_set_up [OF _ False d(2)] r2(1) r3(1) False d by simp
  qed
  obtain t4 where t4: "(if p = rb_nil t3 then Some (t3\<lparr>rb_root := y\<rparr>)
               else do {
                 l \<leftarrow> rb_get rb_left p t3;
                 if x = l then rb_set p (\<lambda>n. n\<lparr>rb_left := y\<rparr>) t3 else rb_set p (\<lambda>n. n\<lparr>rb_right := y\<rparr>) t3
               }) = Some t4" "fill c y (rb_root t3, rl t3) = (rb_root t4, rl t4)" "rb_rest t4 = rb_rest t3" "col t4 = col t3"
    using rb_hole [of t3 x p c y] c3 r3(3) x(6) d(3) by auto
  note f = fill_at [OF c3 d(1) t4(2)]
  have l4: "rl t4 x = Some (xa, yb, p)" "rl t4 y = Some (yb, yc, p)" using f(2) d l3 by simp_all
  define t5 where "t5 = rb_put y (\<lambda>n. n\<lparr>rb_left := x\<rparr>) t4"
  have l5: "rl t5 = set_left y x (rl t4)" "rl t5 x = Some (xa, yb, p)" "rl t5 y = Some (x, yc, p)" using l4 d(5) by (simp_all add: t5_def)
  define t6 where "t6 = rb_put x (\<lambda>n. n\<lparr>rb_p := y\<rparr>) t5"
  have l6: "rl t6 = set_up x y (rl t5)" "rl t6 x = Some (xa, yb, y)" "rl t6 y = Some (x, yc, p)" using l5 d(6) by (simp_all add: t6_def)
  have s2: "(if yb \<noteq> ?nil then rb_set yb (\<lambda>n. n\<lparr>rb_p := x\<rparr>) t1 else Some t1) = Some t2"
  proof (cases "yb = ?nil")
    case False
    then have "rl t1 yb \<noteq> None" using yb tree_at_dom [OF x(4)] r1(1) ybn by auto
    then show ?thesis using rb_set_put [of t1 yb] r1(3) False by (auto simp: t2_def)
  qed (simp add: t2_def r1)
  have "rb_LeftRorate x t = Some t6"
    using n0 rb_get_links [OF x(1)] rb_get_links [OF x(2)] rb_set_put [OF x(1)] rb_get_links [OF l1(2)] s2 [unfolded t1_def] rb_get_links [OF l2(1)]
      rb_set_put [OF l2(2)] rb_get_links [OF l3(1)] t4(1) [unfolded r3(3), unfolded t3_def] rb_set_put [OF l4(2)] rb_set_put [OF l5(2)] r1(3) r2(3) r3(3)
    by (simp add: rb_LeftRorate_def t1_def [symmetric] t3_def [symmetric] t5_def [symmetric] t6_def [symmetric])
  moreover have "ctx_at ?nil (rl t6) (rb_root t6) y p c" using f(1) l5(1) l6(1) d by (simp add: t5_def t6_def)
  moreover have "tree_at ?nil (rl t6) xa x A" "tree_at ?nil (rl t6) yc y C" "tree_at ?nil (rl t6) yb x B"
    using f(3) [OF d(13)] f(3) [OF d(14)] f(3) [OF d(15)] A3 B3 C3 l5(1) l6(1) d by simp_all
  then have "tree_at ?nil (rl t6) y p (Node (Node A x B) y C)" using l6 x(6,7) by simp
  ultimately have "rb_LeftRorate x t = Some t6" "tree_at ?nil (rl t6) (rb_root t6) ?nil (plug c (Node (Node A x B) y C))"
    using plug_at by blast+
  moreover have "rb_rest t6 = rb_rest t" "col t6 = col t" using t4(3,4) r3(4,5) by (simp_all add: t5_def t6_def)
  ultimately show ?thesis by blast
qed

lemma RightRorate_tree:
  assumes "tree_at (rb_nil t) (rl t) (rb_root t) (rb_nil t) (plug c (Node (Node A x B) y C))"
    and "distinct (inorder (plug c (Node (Node A x B) y C)))" "rl t 0 = None"
  shows "\<exists>t'. rb_RightRorate y t = Some t' \<and> tree_at (rb_nil t) (rl t') (rb_root t') (rb_nil t) (plug c (Node A x (Node B y C)))
    \<and> rb_rest t' = rb_rest t \<and> col t' = col t"
proof -
  let ?nil = "rb_nil t"
  obtain p where "tree_at ?nil (rl t) y p (Node (Node A x B) y C)" and cx: "ctx_at ?nil (rl t) (rb_root t) y p c"
    using assms(1) unfolding plug_at by auto
  then obtain xa xr yc where x: "rl t y = Some (x, yc, p)" "rl t x = Some (xa, xr, y)" "tree_at ?nil (rl t) xa x A"
      "tree_at ?nil (rl t) xr x B" "tree_at ?nil (rl t) yc y C" "x \<noteq> ?nil" "y \<noteq> ?nil"
    by auto
  have d: "distinct (ctx_before c @ ctx_after c)" "distinct (inorder B)" "x \<notin> set_ctx c" "y \<notin> set_ctx c" "x \<noteq> y" "y \<noteq> x"
      "x \<notin> set_tree A" "x \<notin> set_tree B" "x \<notin> set_tree C" "y \<notin> set_tree A" "y \<notin> set_tree B" "y \<notin> set_tree C"
      "set_tree A \<inter> set_ctx c = {}" "set_tree B \<inter> set_ctx c = {}" "set_tree C \<inter> set_ctx c = {}"
      "set_tree A \<inter> set_tree B = {}" "set_tree B \<inter> set_tree C = {}"
    using assms(2) unfolding distinct_plug by auto
  have n0: "x \<noteq> 0" "y \<noteq> 0" using x(1,2) assms(3) by (metis option.distinct(1))+
  have xr: "xr = ?nil \<and> B = Leaf \<or> xr \<noteq> ?nil \<and> xr \<in> set_tree B" using x(4) by (cases B) auto
  have nin: "?nil \<notin> set_ctx c" using ctx_not_nil [OF cx] .
  have xrn: "xr \<noteq> x" "xr \<noteq> y" "xr \<notin> set_ctx c" "xr \<notin> set_tree A" "xr \<notin> set_tree C"
    using xr d x(6,7) nin tree_at_not_nil [OF x(3)] tree_at_not_nil [OF x(5)] by auto
  define t1 where "t1 = rb_put y (\<lambda>n. n\<lparr>rb_left := xr\<rparr>) t"
  define t2 where "t2 = (if xr \<noteq> ?nil then rb_put xr (\<lambda>n. n\<lparr>rb_p := y\<rparr>) t1 else t1)"
  define t3 where "t3 = rb_put x (\<lambda>n. n\<lparr>rb_p := p\<rparr>) t2"
  have r1: "rl t1 = set_left y xr (rl t)" "rb_root t1 = rb_root t" "rb_nil t1 = ?nil" "rb_rest t1 = rb_rest t" "col t1 = col t"
    by (simp_all add: t1_def)
  have l1: "rl t1 y = Some (xr, yc, p)" "rl t1 x = Some (xa, xr, y)" using r1(1) x(1,2) d(5,6) by simp_all
  have r2: "rl t2 = (if xr \<noteq> ?nil then set_up xr y (rl t1) else rl t1)" "rb_root t2 = rb_root t" "rb_nil t2 = ?nil" "rb_rest t2 = rb_rest t" "col t2 = col t"
    using r1 by (simp_all add: t2_def)
  have l2: "rl t2 y = Some (xr, yc, p)" "rl t2 x = Some (xa, xr, y)" using r2(1) l1 xrn by simp_all
  have r3: "rl t3 = set_up x p (rl t2)" "rb_root t3 = rb_root t" "rb_nil t3 = ?nil" "rb_rest t3 = rb_rest t" "col t3 = col t"
    using r2 by (simp_all add: t3_def)
  have l3: "rl t3 y = Some (xr, yc, p)" "rl t3 x = Some (xa, xr, p)" using r3(1) l2 d(5,6) by simp_all
  have c3: "ctx_at ?nil (rl t3) (rb_root t3) y p c" using cx r1(1) r2(1) r3(1,2) d xrn by simp
  have A3: "tree_at ?nil (rl t3) xa x A" using x(3) r1(1) r2(1) r3(1) d xrn by simp
  have C3: "tree_at ?nil (rl t3) yc y C" using x(5) r1(1) r2(1) r3(1) d xrn by simp
  have B3: "tree_at ?nil (rl t3) xr y B"
  proof (cases "xr = ?nil")
    case True
    then show ?thesis using xr tree_at_not_nil [OF x(4)] by auto
  next
    case False
    have "tree_at ?nil (rl t1) xr x B" using x(4) r1(1) d by simp
    then show ?thesis using tree_at_set_up [OF _ False d(2)] r2(1) r3(1) False d by simp
  qed
  obtain t4 where t4: "(if p = rb_nil t3 then Some (t3\<lparr>rb_root := x\<rparr>)
               else do {
                 l \<leftarrow> rb_get rb_left p t3;
                 if y = l then rb_set p (\<lambda>n. n\<lparr>rb_left := x\<rparr>) t3 else rb_set p (\<lambda>n. n\<lparr>rb_right := x\<rparr>) t3
               }) = Some t4" "fill c x (rb_root t3, rl t3) = (rb_root t4, rl t4)" "rb_rest t4 = rb_rest t3" "col t4 = col t3"
    using rb_hole [of t3 y p c x] c3 r3(3) x(7) d(4) by auto
  note f = fill_at [OF c3 d(1) t4(2)]
  have l4: "rl t4 y = Some (xr, yc, p)" "rl t4 x = Some (xa, xr, p)" using f(2) d l3 by simp_all
  define t5 where "t5 = rb_put x (\<lambda>n. n\<lparr>rb_right := y\<rparr>) t4"
  have l5: "rl t5 = set_right x y (rl t4)" "rl t5 y = Some (xr, yc, p)" "rl t5 x = Some (xa, y, p)" using l4 d(6) by (simp_all add: t5_def)
  define t6 where "t6 = rb_put y (\<lambda>n. n\<lparr>rb_p := x\<rparr>) t5"
  have l6: "rl t6 = set_up y x (rl t5)" "rl t6 y = Some (xr, yc, x)" "rl t6 x = Some (xa, y, p)" using l5 d(5) by (simp_all add: t6_def)
  have s2: "(if xr \<noteq> ?nil then rb_set xr (\<lambda>n. n\<lparr>rb_p := y\<rparr>) t1 else Some t1) = Some t2"
  proof (cases "xr = ?nil")
    case False
    then have "rl t1 xr \<noteq> None" using xr tree_at_dom [OF x(4)] r1(1) xrn by auto
    then show ?thesis using rb_set_put [of t1 xr] r1(3) False by (auto simp: t2_def)
  qed (simp add: t2_def r1)
  have "rb_RightRorate y t = Some t6"
    using n0 rb_get_links [OF x(1)] rb_get_links [OF x(2)] rb_set_put [OF x(1)] rb_get_links [OF l1(2)] s2 [unfolded t1_def] rb_get_links [OF l2(1)]
      rb_set_put [OF l2(2)] rb_get_links [OF l3(1)] t4(1) [unfolded r3(3), unfolded t3_def] rb_set_put [OF l4(2)] rb_set_put [OF l5(2)] r1(3) r2(3) r3(3)
    by (simp add: rb_RightRorate_def t1_def [symmetric] t3_def [symmetric] t5_def [symmetric] t6_def [symmetric])
  moreover have "ctx_at ?nil (rl t6) (rb_root t6) x p c" using f(1) l5(1) l6(1) d by (simp add: t5_def t6_def)
  moreover have "tree_at ?nil (rl t6) xa x A" "tree_at ?nil (rl t6) yc y C" "tree_at ?nil (rl t6) xr y B"
    using f(3) [OF d(13)] f(3) [OF d(14)] f(3) [OF d(15)] A3 B3 C3 l5(1) l6(1) d by simp_all
  then have "tree_at ?nil (rl t6) x p (Node A x (Node B y C))" using l6 x(6,7) by simp
  ultimately have "rb_RightRorate y t = Some t6" "tree_at ?nil (rl t6) (rb_root t6) ?nil (plug c (Node A x (Node B y C)))"
    using plug_at by blast+
  moreover have "rb_rest t6 = rb_rest t" "col t6 = col t" using t4(3,4) r3(4,5) by (simp_all add: t5_def t6_def)
  ultimately show ?thesis by blast
qed

end
