(* ===== verification/RBTreeFix.thy ===== *)
theory RBTreeFix
  imports RBTreeRotate
begin

text \<open>
  The red-black invariant of a tree of addresses and of a context, and what \<open>InsertFixup\<close> of \<open>RBTree\<close> does to
  them.
\<close>

section \<open>The invariant\<close>

type_synonym coloring = "nat \<Rightarrow> rb_color"

fun rcol :: "coloring \<Rightarrow> nat tree \<Rightarrow> rb_color" where
  "rcol k Leaf = BLACK"
| "rcol k (Node l a r) = k a"

text \<open>No red node has a red child; all branches have the same number of black nodes.\<close>

fun inv_c :: "coloring \<Rightarrow> nat tree \<Rightarrow> bool" where
  "inv_c k Leaf \<longleftrightarrow> True"
| "inv_c k (Node l a r) \<longleftrightarrow> inv_c k l \<and> inv_c k r \<and> (k a = RED \<longrightarrow> rcol k l = BLACK \<and> rcol k r = BLACK)"

definition black :: "rb_color \<Rightarrow> nat" where "black c = (if c = BLACK then 1 else 0)"

lemma black_simps [simp]: "black BLACK = 1" "black RED = 0"
  by (simp_all add: black_def)

fun bh :: "coloring \<Rightarrow> nat tree \<Rightarrow> nat" where
  "bh k Leaf = 0"
| "bh k (Node l a r) = bh k l + black (k a)"

fun inv_h :: "coloring \<Rightarrow> nat tree \<Rightarrow> bool" where
  "inv_h k Leaf \<longleftrightarrow> True"
| "inv_h k (Node l a r) \<longleftrightarrow> inv_h k l \<and> inv_h k r \<and> bh k l = bh k r"

text \<open>The same for a context; the node above the hole may be red.\<close>

fun top_black :: "coloring \<Rightarrow> ctx \<Rightarrow> bool" where
  "top_black k [] \<longleftrightarrow> False"
| "top_black k (FL a r # c) \<longleftrightarrow> k a = BLACK"
| "top_black k (FR l a # c) \<longleftrightarrow> k a = BLACK"

fun ctx_c :: "coloring \<Rightarrow> ctx \<Rightarrow> bool" where
  "ctx_c k [] \<longleftrightarrow> True"
| "ctx_c k (FL a r # c) \<longleftrightarrow> inv_c k r \<and> (k a = RED \<longrightarrow> rcol k r = BLACK \<and> top_black k c) \<and> ctx_c k c"
| "ctx_c k (FR l a # c) \<longleftrightarrow> inv_c k l \<and> (k a = RED \<longrightarrow> rcol k l = BLACK \<and> top_black k c) \<and> ctx_c k c"

fun ctx_h :: "coloring \<Rightarrow> nat \<Rightarrow> ctx \<Rightarrow> bool" where
  "ctx_h k n [] \<longleftrightarrow> True"
| "ctx_h k n (FL a r # c) \<longleftrightarrow> inv_h k r \<and> bh k r = n \<and> ctx_h k (n + black (k a)) c"
| "ctx_h k n (FR l a # c) \<longleftrightarrow> inv_h k l \<and> bh k l = n \<and> ctx_h k (n + black (k a)) c"

lemma coloring_upd_tree [simp]:
  "a \<notin> set_tree t \<Longrightarrow> rcol (k(a := v)) t = rcol k t"
  "a \<notin> set_tree t \<Longrightarrow> bh (k(a := v)) t = bh k t"
  by (cases t; auto) (induction t; auto)

lemma coloring_upd_inv [simp]:
  "a \<notin> set_tree t \<Longrightarrow> inv_c (k(a := v)) t = inv_c k t"
  "a \<notin> set_tree t \<Longrightarrow> inv_h (k(a := v)) t = inv_h k t"
  by (induction t; auto)+

lemma coloring_upd_top [simp]: "a \<notin> set_ctx c \<Longrightarrow> top_black (k(a := v)) c = top_black k c"
  by (cases "(k, c)" rule: top_black.cases) auto

lemma coloring_upd_ctx [simp]:
  "a \<notin> set_ctx c \<Longrightarrow> ctx_c (k(a := v)) c = ctx_c k c"
  "a \<notin> set_ctx c \<Longrightarrow> ctx_h (k(a := v)) n c = ctx_h k n c"
  by (induction k c rule: ctx_c.induct; auto) (induction k n c rule: ctx_h.induct; auto)

lemma inv_h_plug: "inv_h k (plug c s) \<longleftrightarrow> inv_h k s \<and> ctx_h k (bh k s) c"
  by (induction c s rule: plug.induct) auto

text \<open>A tree in a context is well coloured when the node above it is black or its root is.\<close>

lemma inv_c_plug:
  "inv_c k s \<Longrightarrow> ctx_c k c \<Longrightarrow> c = [] \<or> top_black k c \<or> rcol k s = BLACK \<Longrightarrow> inv_c k (plug c s)"
proof (induction c s rule: plug.induct)
  case (2 a r c t)
  then show ?case unfolding plug.simps by (intro 2(1); cases "k a") auto
next
  case (3 l a c t)
  then show ?case unfolding plug.simps by (intro 3(1); cases "k a") auto
qed simp

section \<open>Before and after the loop\<close>

definition rb_base :: "'v rb_tree \<Rightarrow> bool" where
  "rb_base t \<longleftrightarrow> rb_data t 0 = None \<and> rb_data t (rb_nil t) \<noteq> None \<and> col t (rb_nil t) = BLACK"

definition rb_pre :: "'v rb_tree \<Rightarrow> ctx \<Rightarrow> nat tree \<Rightarrow> nat \<Rightarrow> nat tree \<Rightarrow> bool" where
  "rb_pre t c A z B \<longleftrightarrow> tree_at (rb_nil t) (rl t) (rb_root t) (rb_nil t) (plug c (Node A z B)) \<and> rb_base t
     \<and> distinct (inorder (plug c (Node A z B))) \<and> col t z = RED \<and> inv_c (col t) (Node A z B) \<and> ctx_c (col t) c
     \<and> inv_h (col t) (plug c (Node A z B))"

definition rb_post :: "nat \<Rightarrow> 'v rb_tree \<Rightarrow> nat list \<Rightarrow> bool" where
  "rb_post z t ns \<longleftrightarrow> (\<exists>t' s. rb_fix_loop z t = Some t' \<and> tree_at (rb_nil t) (rl t') (rb_root t') (rb_nil t) s \<and> inorder s = ns
     \<and> rb_rest t' = rb_rest t \<and> rb_base t' \<and> inv_c (col t') s \<and> inv_h (col t') s)"

lemma rl_None: "rl t a = None \<longleftrightarrow> rb_data t a = None"
  by (simp add: rl_def rb_data_def)

lemma rb_base_eq: "rb_rest t' = rb_rest t \<Longrightarrow> rb_base t' \<longleftrightarrow> rb_data t 0 = None \<and> rb_data t (rb_nil t) \<noteq> None \<and> col t' (rb_nil t) = BLACK"
  by (simp add: rb_base_def rb_rest_def)

text \<open>The links around a node, its parent and its grandparent.\<close>

lemma rb_preD:
  assumes "rb_pre t c A z B"
  shows "\<exists>za zb p. rl t z = Some (za, zb, p) \<and> ctx_at (rb_nil t) (rl t) (rb_root t) z p c" "z \<noteq> rb_nil t" "rb_nil t \<notin> set_ctx c"
  using assms ctx_not_nil unfolding rb_pre_def plug_at by auto

text \<open>Nothing to do.\<close>

lemma fix_exit:
  assumes "rb_pre t c A z B" "c = [] \<or> top_black (col t) c"
  shows "rb_post z t (inorder (plug c (Node A z B)))"
proof -
  obtain za zb p where z: "rl t z = Some (za, zb, p)" "ctx_at (rb_nil t) (rl t) (rb_root t) z p c" using rb_preD(1) [OF assms(1)] by blast
  have "rl t p \<noteq> None \<and> col t p = BLACK"
  proof (cases "c = []")
    case True
    then show ?thesis using z(2) assms(1) by (auto simp: rb_pre_def rb_base_def rl_None)
  next
    case False
    then show ?thesis using z(2) assms(2) by (cases "(col t, c)" rule: top_black.cases) auto
  qed
  then obtain n where "rb_get rb_color p t = Some BLACK" using rb_get_links(4) by (metis not_None_eq prod_cases3)
  then have "rb_fix_loop z t = Some t" using rb_get_links(3) [OF z(1)] by (subst rb_fix_loop.simps) simp
  then show ?thesis using assms inv_c_plug [of "col t" "Node A z B" c]
    by (auto simp: rb_post_def rb_pre_def)
qed

lemma rb_post_step:
  assumes "rb_post z' t' ns" "rb_rest t' = rb_rest t" "rb_fix_loop z t = rb_fix_loop z' t'"
  shows "rb_post z t ns"
  using assms rb_rest_nil [OF assms(2)] by (simp add: rb_post_def)

section \<open>The cases of the loop\<close>

lemma uncle_get:
  assumes "tree_at (rb_nil t) (rl t) u q U" "rb_base t"
  shows "rb_get rb_color u t = Some (rcol (col t) U)" "\<exists>l r p. rl t u = Some (l, r, p)" "u = rb_nil t \<and> U = Leaf \<or> u \<in> set_tree U"
proof -
  have "rb_get rb_color u t = Some (rcol (col t) U) \<and> (\<exists>l r p. rl t u = Some (l, r, p)) \<and> (u = rb_nil t \<and> U = Leaf \<or> u \<in> set_tree U)"
  proof (cases U)
    case Leaf
    then obtain l r p where "rl t u = Some (l, r, p)" "u = rb_nil t" using assms rl_None [of t u] by (auto simp: rb_base_def)
    then show ?thesis using rb_get_links(4) Leaf assms(2) by (fastforce simp: rb_base_def)
  next
    case (Node l a r)
    then obtain xl xr where "rl t u = Some (xl, xr, q)" "u = a" using assms(1) by auto
    then show ?thesis using rb_get_links(4) Node by fastforce
  qed
  then show "rb_get rb_color u t = Some (rcol (col t) U)" "\<exists>l r p. rl t u = Some (l, r, p)" "u = rb_nil t \<and> U = Leaf \<or> u \<in> set_tree U"
    by blast+
qed

text \<open>The colours of the parent and the grandparent are exchanged.\<close>

lemma swap_colors:
  assumes "rl t p = Some vp" "rl t g = Some vg" "p \<noteq> g"
  shows "\<exists>t'. t' = rb_put g (\<lambda>n. n\<lparr>rb_color := RED\<rparr>) (rb_put p (\<lambda>n. n\<lparr>rb_color := BLACK\<rparr>) t)
    \<and> rb_set p (\<lambda>n. n\<lparr>rb_color := BLACK\<rparr>) t = Some (rb_put p (\<lambda>n. n\<lparr>rb_color := BLACK\<rparr>) t)
    \<and> rb_set g (\<lambda>n. n\<lparr>rb_color := RED\<rparr>) (rb_put p (\<lambda>n. n\<lparr>rb_color := BLACK\<rparr>) t) = Some t'
    \<and> rl t' = rl t \<and> rb_root t' = rb_root t \<and> rb_nil t' = rb_nil t \<and> rb_rest t' = rb_rest t \<and> col t' = (col t)(p := BLACK, g := RED)"
  using assms by (auto simp: rb_set_put col_put_color)

lemma fix_left_left:
  assumes pre: "rb_pre t (FL p B # FL g U # c) X z Y" and cols: "col t p = RED" "rcol (col t) U = BLACK"
  shows "rb_post z t (inorder (plug (FL p B # FL g U # c) (Node X z Y)))"
proof -
  let ?nil = "rb_nil t"
  have base: "rb_base t" and dist: "distinct (inorder (plug c (Node (Node (Node X z Y) p B) g U)))" using pre by (auto simp: rb_pre_def)
  have "tree_at ?nil (rl t) (rb_root t) ?nil (plug c (Node (Node (Node X z Y) p B) g U))" using pre by (simp add: rb_pre_def)
  note tree = this
  obtain gp za zb pb u where l: "rl t z = Some (za, zb, p)" "rl t p = Some (z, pb, g)" "rl t g = Some (p, u, gp)"
      "tree_at ?nil (rl t) pb p B" "tree_at ?nil (rl t) u g U" "z \<noteq> ?nil"
    using tree unfolding plug_at by auto
  have d: "z \<noteq> p" "p \<noteq> g" "z \<notin> set_tree B" "set_tree (Node X z Y) \<inter> {p, g} = {}" "p \<notin> set_tree B" "g \<notin> set_tree B" "p \<notin> set_tree U" "g \<notin> set_tree U"
      "p \<notin> set_ctx c" "g \<notin> set_ctx c"
    using dist unfolding distinct_plug by auto
  have zpb: "z \<noteq> pb" using uncle_get(3) [OF l(4) base] d(3) l(6) by auto
  obtain t2 where t2: "t2 = rb_put g (\<lambda>n. n\<lparr>rb_color := RED\<rparr>) (rb_put p (\<lambda>n. n\<lparr>rb_color := BLACK\<rparr>) t)"
      "rb_set p (\<lambda>n. n\<lparr>rb_color := BLACK\<rparr>) t = Some (rb_put p (\<lambda>n. n\<lparr>rb_color := BLACK\<rparr>) t)"
      "rb_set g (\<lambda>n. n\<lparr>rb_color := RED\<rparr>) (rb_put p (\<lambda>n. n\<lparr>rb_color := BLACK\<rparr>) t) = Some t2"
      "rl t2 = rl t" "rb_root t2 = rb_root t" "rb_nil t2 = ?nil" "rb_rest t2 = rb_rest t" "col t2 = (col t)(p := BLACK, g := RED)"
    using swap_colors [OF l(2,3) d(2)] by blast
  obtain t3 where t3: "rb_RightRorate g t2 = Some t3" "tree_at ?nil (rl t3) (rb_root t3) ?nil (plug c (Node (Node X z Y) p (Node B g U)))"
      "rb_rest t3 = rb_rest t2" "col t3 = col t2"
    using RightRorate_tree [of t2 c "Node X z Y" p B g U] tree dist base t2(4-6) rl_None [of t 0] by (auto simp: rb_base_def)
  have get1: "rb_get rb_p a (rb_put p (\<lambda>n. n\<lparr>rb_color := BLACK\<rparr>) t) = rb_get rb_p a t" "rb_get rb_p a t2 = rb_get rb_p a t" for a
    by (simp_all add: rb_get_def rb_put_def t2(1) option.map_comp comp_def)
  have "rb_fix_left z t = Some (z, t3)"
    using rb_get_links [OF l(1)] rb_get_links [OF l(2)] rb_get_links [OF l(3)] uncle_get(1) [OF l(5) base] cols(2) zpb t2(2,3) t3(1) get1
    by (simp add: rb_fix_left_def)
  then have step: "rb_fix_loop z t = rb_fix_loop z t3"
    using rb_get_links [OF l(1)] rb_get_links [OF l(2)] rb_get_links [OF l(3)] cols(1) by (subst rb_fix_loop.simps) simp
  have rest: "rb_rest t3 = rb_rest t" and k: "col t3 = (col t)(p := BLACK, g := RED)" using t2(7,8) t3(3,4) by simp_all
  have gb: "col t g = BLACK" using pre cols(1) by (simp add: rb_pre_def)
  have nil: "?nil \<noteq> p" "?nil \<noteq> g" using tree unfolding plug_at by auto
  have "rb_pre t3 (FL p (Node B g U) # c) X z Y"
    using pre t3(2) rest dist d cols gb nil rb_base_eq [OF rest] rb_rest_nil [OF rest]
    by (auto simp: rb_pre_def k inv_h_plug distinct_plug rb_base_def)
  from fix_exit [OF this] have "rb_post z t3 (inorder (plug (FL p (Node B g U) # c) (Node X z Y)))" using k d(2) by simp
  moreover have "inorder (plug (FL p (Node B g U) # c) (Node X z Y)) = inorder (plug (FL p B # FL g U # c) (Node X z Y))"
    by (simp add: inorder_plug)
  ultimately show ?thesis using rb_post_step [OF _ rest step] by simp
qed

lemma fix_left_right:
  assumes pre: "rb_pre t (FR A p # FL g U # c) X z Y" and cols: "col t p = RED" "rcol (col t) U = BLACK"
  shows "rb_post z t (inorder (plug (FR A p # FL g U # c) (Node X z Y)))"
proof -
  let ?nil = "rb_nil t"
  have base: "rb_base t" and dist: "distinct (inorder (plug (FL g U # c) (Node A p (Node X z Y))))"
    and tree: "tree_at ?nil (rl t) (rb_root t) ?nil (plug (FL g U # c) (Node A p (Node X z Y)))"
    using pre by (auto simp: rb_pre_def)
  obtain gp za zb pa u where l: "rl t z = Some (za, zb, p)" "rl t p = Some (pa, z, g)" "rl t g = Some (p, u, gp)" "tree_at ?nil (rl t) u g U"
    using tree unfolding plug_at by auto
  obtain t1 where t1: "rb_LeftRorate p t = Some t1" "tree_at ?nil (rl t1) (rb_root t1) ?nil (plug (FL g U # c) (Node (Node A p X) z Y))"
      "rb_rest t1 = rb_rest t" "col t1 = col t"
    using LeftRorate_tree [OF tree dist] base rl_None [of t 0] by (auto simp: rb_base_def)
  have "rb_fix_left z t = Some (p, t1)"
    using rb_get_links [OF l(1)] rb_get_links [OF l(2)] rb_get_links [OF l(3)] uncle_get(1) [OF l(4) base] cols(2) t1(1)
    by (simp add: rb_fix_left_def)
  then have step: "rb_fix_loop z t = rb_fix_loop p t1"
    using rb_get_links [OF l(1)] rb_get_links [OF l(2)] rb_get_links [OF l(3)] cols(1) by (subst rb_fix_loop.simps) simp
  have "rb_pre t1 (FL z Y # FL g U # c) A p X"
    using pre t1(2-4) dist cols rb_base_eq [OF t1(3)] rb_rest_nil [OF t1(3)]
    by (auto simp: rb_pre_def inv_h_plug distinct_plug rb_base_def)
  moreover have "col t1 z = RED" using pre t1(4) by (simp add: rb_pre_def)
  ultimately have "rb_post p t1 (inorder (plug (FL z Y # FL g U # c) (Node A p X)))"
    using fix_left_left [of t1 z Y g U c A p X] cols(2) t1(4) by simp
  moreover have "inorder (plug (FL z Y # FL g U # c) (Node A p X)) = inorder (plug (FR A p # FL g U # c) (Node X z Y))"
    by (simp add: inorder_plug)
  ultimately show ?thesis using rb_post_step [OF _ t1(3) step] by simp
qed

lemma fix_right_right:
  assumes pre: "rb_pre t (FR B p # FR U g # c) X z Y" and cols: "col t p = RED" "rcol (col t) U = BLACK"
  shows "rb_post z t (inorder (plug (FR B p # FR U g # c) (Node X z Y)))"
proof -
  let ?nil = "rb_nil t"
  have base: "rb_base t" and dist: "distinct (inorder (plug c (Node U g (Node B p (Node X z Y)))))" using pre by (auto simp: rb_pre_def)
  have "tree_at ?nil (rl t) (rb_root t) ?nil (plug c (Node U g (Node B p (Node X z Y))))" using pre by (simp add: rb_pre_def)
  note tree = this
  obtain gp za zb pb u where l: "rl t z = Some (za, zb, p)" "rl t p = Some (pb, z, g)" "rl t g = Some (u, p, gp)"
      "tree_at ?nil (rl t) pb p B" "tree_at ?nil (rl t) u g U" "z \<noteq> ?nil"
    using tree unfolding plug_at by auto
  have d: "z \<noteq> p" "p \<noteq> g" "z \<notin> set_tree B" "set_tree (Node X z Y) \<inter> {p, g} = {}" "p \<notin> set_tree B" "g \<notin> set_tree B" "p \<notin> set_tree U" "g \<notin> set_tree U"
      "p \<notin> set_ctx c" "g \<notin> set_ctx c"
    using dist unfolding distinct_plug by auto
  have nil: "?nil \<noteq> p" "?nil \<noteq> g" using tree unfolding plug_at by auto
  have pu: "p \<noteq> u" using uncle_get(3) [OF l(5) base] d(7) nil(1) by auto
  have zpb: "z \<noteq> pb" using uncle_get(3) [OF l(4) base] d(3) l(6) by auto
  obtain t2 where t2: "t2 = rb_put g (\<lambda>n. n\<lparr>rb_color := RED\<rparr>) (rb_put p (\<lambda>n. n\<lparr>rb_color := BLACK\<rparr>) t)"
      "rb_set p (\<lambda>n. n\<lparr>rb_color := BLACK\<rparr>) t = Some (rb_put p (\<lambda>n. n\<lparr>rb_color := BLACK\<rparr>) t)"
      "rb_set g (\<lambda>n. n\<lparr>rb_color := RED\<rparr>) (rb_put p (\<lambda>n. n\<lparr>rb_color := BLACK\<rparr>) t) = Some t2"
      "rl t2 = rl t" "rb_root t2 = rb_root t" "rb_nil t2 = ?nil" "rb_rest t2 = rb_rest t" "col t2 = (col t)(p := BLACK, g := RED)"
    using swap_colors [OF l(2,3) d(2)] by blast
  obtain t3 where t3: "rb_LeftRorate g t2 = Some t3" "tree_at ?nil (rl t3) (rb_root t3) ?nil (plug c (Node (Node U g B) p (Node X z Y)))"
      "rb_rest t3 = rb_rest t2" "col t3 = col t2"
    using LeftRorate_tree [of t2 c U g B p "Node X z Y"] tree dist base t2(4-6) rl_None [of t 0] by (auto simp: rb_base_def)
  have get1: "rb_get rb_p a (rb_put p (\<lambda>n. n\<lparr>rb_color := BLACK\<rparr>) t) = rb_get rb_p a t" "rb_get rb_p a t2 = rb_get rb_p a t" for a
    by (simp_all add: rb_get_def rb_put_def t2(1) option.map_comp comp_def)
  have "rb_fix_right z t = Some (z, t3)"
    using rb_get_links [OF l(1)] rb_get_links [OF l(2)] rb_get_links [OF l(3)] uncle_get(1) [OF l(5) base] cols(2) zpb t2(2,3) t3(1) get1
    by (simp add: rb_fix_right_def)
  then have step: "rb_fix_loop z t = rb_fix_loop z t3"
    using rb_get_links [OF l(1)] rb_get_links [OF l(2)] rb_get_links [OF l(3)] cols(1) pu by (subst rb_fix_loop.simps) simp
  have rest: "rb_rest t3 = rb_rest t" and k: "col t3 = (col t)(p := BLACK, g := RED)" using t2(7,8) t3(3,4) by simp_all
  have gb: "col t g = BLACK" using pre cols(1) by (simp add: rb_pre_def)
  have "rb_pre t3 (FR (Node U g B) p # c) X z Y"
    using pre t3(2) rest dist d cols gb nil rb_base_eq [OF rest] rb_rest_nil [OF rest]
    by (auto simp: rb_pre_def k inv_h_plug distinct_plug rb_base_def)
  from fix_exit [OF this] have "rb_post z t3 (inorder (plug (FR (Node U g B) p # c) (Node X z Y)))" using k d(2) by simp
  moreover have "inorder (plug (FR (Node U g B) p # c) (Node X z Y)) = inorder (plug (FR B p # FR U g # c) (Node X z Y))"
    by (simp add: inorder_plug)
  ultimately show ?thesis using rb_post_step [OF _ rest step] by simp
qed

lemma fix_right_left:
  assumes pre: "rb_pre t (FL p A # FR U g # c) X z Y" and cols: "col t p = RED" "rcol (col t) U = BLACK"
  shows "rb_post z t (inorder (plug (FL p A # FR U g # c) (Node X z Y)))"
proof -
  let ?nil = "rb_nil t"
  have base: "rb_base t" and dist: "distinct (inorder (plug (FR U g # c) (Node (Node X z Y) p A)))"
    and tree: "tree_at ?nil (rl t) (rb_root t) ?nil (plug (FR U g # c) (Node (Node X z Y) p A))"
    using pre by (auto simp: rb_pre_def)
  obtain gp za zb pa u where l: "rl t z = Some (za, zb, p)" "rl t p = Some (z, pa, g)" "rl t g = Some (u, p, gp)" "tree_at ?nil (rl t) u g U"
    using tree unfolding plug_at by auto
  have nil: "?nil \<noteq> p" "p \<notin> set_tree U" using tree dist unfolding plug_at distinct_plug by auto
  have pu: "p \<noteq> u" using uncle_get(3) [OF l(4) base] nil by auto
  obtain t1 where t1: "rb_RightRorate p t = Some t1" "tree_at ?nil (rl t1) (rb_root t1) ?nil (plug (FR U g # c) (Node X z (Node Y p A)))"
      "rb_rest t1 = rb_rest t" "col t1 = col t"
    using RightRorate_tree [OF tree dist] base rl_None [of t 0] by (auto simp: rb_base_def)
  have "rb_fix_right z t = Some (p, t1)"
    using rb_get_links [OF l(1)] rb_get_links [OF l(2)] rb_get_links [OF l(3)] uncle_get(1) [OF l(4) base] cols(2) t1(1)
    by (simp add: rb_fix_right_def)
  then have step: "rb_fix_loop z t = rb_fix_loop p t1"
    using rb_get_links [OF l(1)] rb_get_links [OF l(2)] rb_get_links [OF l(3)] cols(1) pu by (subst rb_fix_loop.simps) simp
  have "rb_pre t1 (FR X z # FR U g # c) Y p A"
    using pre t1(2-4) dist cols rb_base_eq [OF t1(3)] rb_rest_nil [OF t1(3)]
    by (auto simp: rb_pre_def inv_h_plug distinct_plug rb_base_def)
  moreover have "col t1 z = RED" using pre t1(4) by (simp add: rb_pre_def)
  ultimately have "rb_post p t1 (inorder (plug (FR X z # FR U g # c) (Node Y p A)))"
    using fix_right_right [of t1 X z U g c Y p A] cols(2) t1(4) by simp
  moreover have "inorder (plug (FR X z # FR U g # c) (Node Y p A)) = inorder (plug (FL p A # FR U g # c) (Node X z Y))"
    by (simp add: inorder_plug)
  ultimately show ?thesis using rb_post_step [OF _ t1(3) step] by simp
qed

text \<open>A red uncle: the grandparent is the next node.\<close>

lemma recolor_put:
  assumes "rl t z = Some (za, zb, p)" "rl t p = Some (pa, pb, g)" "rl t g \<noteq> None" "rl t y \<noteq> None"
  shows "\<exists>t'. rb_recolor z y t = Some (g, t') \<and> rl t' = rl t \<and> rb_root t' = rb_root t \<and> rb_rest t' = rb_rest t
    \<and> col t' = (col t)(p := BLACK, y := BLACK, g := RED)"
proof -
  let ?t1 = "rb_put p (\<lambda>n. n\<lparr>rb_color := BLACK\<rparr>) t"
  let ?t2 = "rb_put y (\<lambda>n. n\<lparr>rb_color := BLACK\<rparr>) ?t1"
  let ?t3 = "rb_put g (\<lambda>n. n\<lparr>rb_color := RED\<rparr>) ?t2"
  have r: "rl ?t1 = rl t" "rl ?t2 = rl t" "rl ?t3 = rl t" by simp_all
  obtain vg vy where v: "rl t g = Some vg" "rl t y = Some vy" using assms(3,4) by blast
  have "rb_recolor z y t = Some (g, ?t3)"
    using rb_get_links(3) [of t z] rb_get_links(3) [of ?t2 z] rb_get_links(3) [of ?t2 p] rb_get_links(3) [of ?t3 z] rb_get_links(3) [of ?t3 p]
      assms(1,2) v r rb_set_put [of t p] rb_set_put [of ?t1 y] rb_set_put [of ?t2 g]
    by (simp add: rb_recolor_def)
  moreover have "col ?t3 = (col t)(p := BLACK, y := BLACK, g := RED)" using assms v by (simp add: col_put_color)
  ultimately show ?thesis by (intro exI [of _ ?t3]) simp
qed

lemma fix_red_left:
  assumes pre: "rb_pre t (f # FL g (Node U1 y U2) # c) X z Y" and red: "\<not> top_black (col t) (f # FL g (Node U1 y U2) # c)" "col t y = RED"
    and f: "f = FL p B \<or> f = FR B p"
  shows "\<exists>t' L R. rb_fix_loop z t = rb_fix_loop g t' \<and> rb_rest t' = rb_rest t \<and> rb_pre t' c L g R
    \<and> plug c (Node L g R) = plug (f # FL g (Node U1 y U2) # c) (Node X z Y)"
proof -
  let ?nil = "rb_nil t" and ?S = "plug [f] (Node X z Y)" and ?U = "Node U1 y U2"
  have base: "rb_base t" and tree: "tree_at ?nil (rl t) (rb_root t) ?nil (plug c (Node ?S g ?U))"
      and dist: "distinct (inorder (plug c (Node ?S g ?U)))"
    using pre f by (auto simp: rb_pre_def)
  obtain za zb pa pb gp where l: "rl t z = Some (za, zb, p)" "rl t p = Some (pa, pb, g)" "rl t g = Some (p, y, gp)" "rl t y \<noteq> None"
      "p \<noteq> ?nil" "y \<noteq> ?nil" "g \<noteq> ?nil"
    using tree f unfolding plug_at by auto
  obtain t' where t': "rb_recolor z y t = Some (g, t')" "rl t' = rl t" "rb_root t' = rb_root t" "rb_rest t' = rb_rest t"
      "col t' = (col t)(p := BLACK, y := BLACK, g := RED)"
    using recolor_put [OF l(1,2) _ l(4)] l(3) by blast
  have pr: "col t p = RED" using red(1) f by (cases "col t p") auto
  have gb: "col t g = BLACK" using pre pr f by (auto simp: rb_pre_def)
  have "rb_fix_left z t = Some (g, t')"
    using rb_get_links [OF l(1)] rb_get_links [OF l(2)] rb_get_links [OF l(3)] l(4) rb_get_links(4) [of t y] red(2) t'(1)
    by (auto simp: rb_fix_left_def)
  then have step: "rb_fix_loop z t = rb_fix_loop g t'"
    using rb_get_links [OF l(1)] rb_get_links [OF l(2)] rb_get_links [OF l(3)] pr by (subst rb_fix_loop.simps) simp
  have d: "p \<noteq> y" "p \<noteq> g" "y \<noteq> g" "z \<noteq> p" "z \<noteq> y" "z \<noteq> g" "{p, y, g} \<inter> (set_tree X \<union> set_tree Y \<union> set_tree B \<union> set_tree U1 \<union> set_tree U2 \<union> set_ctx c) = {}"
    using dist f unfolding distinct_plug by auto
  have dj: "a \<notin> set_tree X" "a \<notin> set_tree Y" "a \<notin> set_tree B" "a \<notin> set_tree U1" "a \<notin> set_tree U2" "a \<notin> set_ctx c" if "a \<in> {p, y, g}" for a
    using d(7) that by blast+
  note ne = d(1-6) d(1-6) [symmetric] and nm = dj [of p, simplified] dj [of y, simplified] dj [of g, simplified]
  have pre': "col t z = RED" "inv_c (col t) (Node X z Y)" "ctx_c (col t) (f # FL g (Node U1 y U2) # c)" "inv_h (col t) (plug c (Node ?S g ?U))"
    using pre f by (auto simp: rb_pre_def)
  have "inv_c (col t') (Node ?S g ?U)" using f pre'(1-3) pr gb red(2) ne nm by (elim disjE) (simp_all add: t'(5))
  moreover have "ctx_c (col t') c" using f pre'(3) nm by (elim disjE) (simp_all add: t'(5))
  moreover have "inv_h (col t') (plug c (Node ?S g ?U))" using f pre'(4) pr gb red(2) ne nm by (elim disjE) (auto simp: t'(5) inv_h_plug)
  moreover have "rb_base t'" using base rb_base_eq [OF t'(4)] l(5-7) by (simp add: t'(5) rb_base_def)
  moreover have "col t' g = RED" by (simp add: t'(5))
  ultimately have "rb_pre t' c ?S g ?U" using tree dist t'(2,3) rb_rest_nil [OF t'(4)] by (simp add: rb_pre_def)
  with step t'(4) f show ?thesis by (intro exI [of _ t'] exI [of _ ?S] exI [of _ ?U]) auto
qed

lemma fix_red_right:
  assumes pre: "rb_pre t (f # FR (Node U1 y U2) g # c) X z Y" and red: "\<not> top_black (col t) (f # FR (Node U1 y U2) g # c)" "col t y = RED"
    and f: "f = FL p B \<or> f = FR B p"
  shows "\<exists>t' L R. rb_fix_loop z t = rb_fix_loop g t' \<and> rb_rest t' = rb_rest t \<and> rb_pre t' c L g R
    \<and> plug c (Node L g R) = plug (f # FR (Node U1 y U2) g # c) (Node X z Y)"
proof -
  let ?nil = "rb_nil t" and ?S = "plug [f] (Node X z Y)" and ?U = "Node U1 y U2"
  have base: "rb_base t" and tree: "tree_at ?nil (rl t) (rb_root t) ?nil (plug c (Node ?U g ?S))"
      and dist: "distinct (inorder (plug c (Node ?U g ?S)))"
    using pre f by (auto simp: rb_pre_def)
  obtain za zb pa pb gp where l: "rl t z = Some (za, zb, p)" "rl t p = Some (pa, pb, g)" "rl t g = Some (y, p, gp)" "rl t y \<noteq> None"
      "p \<noteq> ?nil" "y \<noteq> ?nil" "g \<noteq> ?nil"
    using tree f unfolding plug_at by auto
  obtain t' where t': "rb_recolor z y t = Some (g, t')" "rl t' = rl t" "rb_root t' = rb_root t" "rb_rest t' = rb_rest t"
      "col t' = (col t)(p := BLACK, y := BLACK, g := RED)"
    using recolor_put [OF l(1,2) _ l(4)] l(3) by blast
  have pr: "col t p = RED" using red(1) f by (cases "col t p") auto
  have gb: "col t g = BLACK" using pre pr f by (auto simp: rb_pre_def)
  have d: "p \<noteq> y" "p \<noteq> g" "y \<noteq> g" "z \<noteq> p" "z \<noteq> y" "z \<noteq> g" "{p, y, g} \<inter> (set_tree X \<union> set_tree Y \<union> set_tree B \<union> set_tree U1 \<union> set_tree U2 \<union> set_ctx c) = {}"
    using dist f unfolding distinct_plug by auto
  have "rb_fix_right z t = Some (g, t')"
    using rb_get_links [OF l(1)] rb_get_links [OF l(2)] rb_get_links [OF l(3)] l(4) rb_get_links(4) [of t y] red(2) t'(1)
    by (auto simp: rb_fix_right_def)
  then have step: "rb_fix_loop z t = rb_fix_loop g t'"
    using rb_get_links [OF l(1)] rb_get_links [OF l(2)] rb_get_links [OF l(3)] pr d(1) by (subst rb_fix_loop.simps) simp
  have dj: "a \<notin> set_tree X" "a \<notin> set_tree Y" "a \<notin> set_tree B" "a \<notin> set_tree U1" "a \<notin> set_tree U2" "a \<notin> set_ctx c" if "a \<in> {p, y, g}" for a
    using d(7) that by blast+
  note ne = d(1-6) d(1-6) [symmetric] and nm = dj [of p, simplified] dj [of y, simplified] dj [of g, simplified]
  have pre': "col t z = RED" "inv_c (col t) (Node X z Y)" "ctx_c (col t) (f # FR (Node U1 y U2) g # c)" "inv_h (col t) (plug c (Node ?U g ?S))"
    using pre f by (auto simp: rb_pre_def)
  have "inv_c (col t') (Node ?U g ?S)" using f pre'(1-3) pr gb red(2) ne nm by (elim disjE) (simp_all add: t'(5))
  moreover have "ctx_c (col t') c" using f pre'(3) nm by (elim disjE) (simp_all add: t'(5))
  moreover have "inv_h (col t') (plug c (Node ?U g ?S))" using f pre'(4) pr gb red(2) ne nm by (elim disjE) (auto simp: t'(5) inv_h_plug)
  moreover have "rb_base t'" using base rb_base_eq [OF t'(4)] l(5-7) by (simp add: t'(5) rb_base_def)
  moreover have "col t' g = RED" by (simp add: t'(5))
  ultimately have "rb_pre t' c ?U g ?S" using tree dist t'(2,3) rb_rest_nil [OF t'(4)] by (simp add: rb_pre_def)
  with step t'(4) f show ?thesis by (intro exI [of _ t'] exI [of _ ?U] exI [of _ ?S]) auto
qed

text \<open>The loop, by the length of the context.\<close>

lemma fix_loop_post: "rb_pre t c A z B \<Longrightarrow> rb_post z t (inorder (plug c (Node A z B)))"
proof (induction "length c" arbitrary: t c A z B rule: less_induct)
  case less
  note pre = less.prems
  show ?case
  proof (cases "c = [] \<or> top_black (col t) c")
    case False
    then obtain f c1 where c1: "c = f # c1" by (cases c) auto
    obtain p S where f: "f = FL p S \<or> f = FR S p" by (cases f) auto
    have pr: "col t p = RED" and tb: "top_black (col t) c1"
      using False pre c1 f by (auto simp: rb_pre_def; cases "col t p"; auto)+
    then obtain f2 c2 where c2: "c1 = f2 # c2" by (cases c1) auto
    obtain g U where f2: "f2 = FL g U \<or> f2 = FR U g" by (cases f2) auto
    show ?thesis
    proof (cases "rcol (col t) U")
      case RED
      then obtain U1 y U2 where U: "U = Node U1 y U2" "col t y = RED" by (cases U) auto
      have nt: "\<not> top_black (col t) (f # f2 # c2)" using False c1 c2 by simp
      obtain t' L R where t': "rb_fix_loop z t = rb_fix_loop g t'" "rb_rest t' = rb_rest t" "rb_pre t' c2 L g R"
          "plug c2 (Node L g R) = plug (f # f2 # c2) (Node A z B)"
        using fix_red_left [of t f g U1 y U2 c2 A z B p S] fix_red_right [of t f U1 y U2 g c2 A z B p S] pre nt f f2 U c1 c2 by blast
      have "rb_post g t' (inorder (plug c2 (Node L g R)))" using less.hyps [of c2] t'(3) c1 c2 by simp
      then show ?thesis using rb_post_step [OF _ t'(2,1)] t'(4) c1 c2 by metis
    next
      case BLACK
      then show ?thesis
        using f f2 pre fix_left_left [of t p S g U c2 A z B] fix_left_right [of t S p g U c2 A z B]
          fix_right_left [of t p S U g c2 A z B] fix_right_right [of t S p U g c2 A z B] pr c1 c2 by metis
    qed
  qed (rule fix_exit [OF pre])
qed

text \<open>\<open>InsertFixup\<close> also makes the root black.\<close>

lemma InsertFixup_tree:
  assumes "rb_pre t c A z B"
  shows "\<exists>t' s. rb_InsertFixup z t = Some t' \<and> tree_at (rb_nil t) (rl t') (rb_root t') (rb_nil t) s
    \<and> inorder s = inorder (plug c (Node A z B)) \<and> rb_rest t' = rb_rest t \<and> rb_base t' \<and> inv_c (col t') s \<and> inv_h (col t') s
    \<and> rcol (col t') s = BLACK"
proof -
  obtain t1 s where t1: "rb_fix_loop z t = Some t1" "tree_at (rb_nil t) (rl t1) (rb_root t1) (rb_nil t) s"
      "inorder s = inorder (plug c (Node A z B))" "rb_rest t1 = rb_rest t" "rb_base t1" "inv_c (col t1) s" "inv_h (col t1) s"
    using fix_loop_post [OF assms] by (auto simp: rb_post_def)
  have "s \<noteq> Leaf" using t1(3) by (auto simp: inorder_plug)
  then obtain l a r where s: "s = Node l a r" by (cases s) auto
  then have a: "rb_root t1 = a" "rl t1 a \<noteq> None" "a \<noteq> rb_nil t" using t1(2) by auto
  have dist: "distinct (inorder s)" using assms t1(3) by (simp add: rb_pre_def)
  then have "a \<notin> set_tree l" "a \<notin> set_tree r" using s by auto
  moreover let ?t2 = "rb_put a (\<lambda>n. n\<lparr>rb_color := BLACK\<rparr>) t1"
  have "rb_set (rb_root t1) (\<lambda>n. n\<lparr>rb_color := BLACK\<rparr>) t1 = Some ?t2" "col ?t2 = (col t1)(a := BLACK)"
    using a(1,2) rb_set_put [of t1 a] col_put_color [of t1 a] by auto
  moreover have "rb_base ?t2" using t1(4,5) rb_base_eq [of ?t2 t] rb_base_eq [of t1 t] calculation(4) a(3) by simp
  ultimately show ?thesis using t1 s by (intro exI [of _ ?t2] exI [of _ s]) (simp add: rb_InsertFixup_def)
qed

end
