(* ===== verification/RBTreeSpec.thy ===== *)
theory RBTreeSpec
  imports RBTreeFix "HOL-Library.Multiset" Complex_Main
begin

text \<open>
  \<open>Insert\<close> of \<open>RBTree\<close> as a stable insertion into a sorted list, and the bound of the height.
\<close>

section \<open>The height of a red-black tree\<close>

fun ctx_black :: "coloring \<Rightarrow> ctx \<Rightarrow> nat" where
  "ctx_black k [] = 0"
| "ctx_black k (FL a r # c) = black (k a) + ctx_black k c"
| "ctx_black k (FR l a # c) = black (k a) + ctx_black k c"

lemma ctx_c_plug:
  "inv_c k (plug c s) \<Longrightarrow> rcol k (plug c s) = BLACK \<Longrightarrow> ctx_c k c \<and> inv_c k s \<and> (top_black k c \<or> rcol k s = BLACK)"
proof (induction c s rule: plug.induct)
  case (2 a r c t)
  then show ?case by (cases "k a") auto
next
  case (3 l a c t)
  then show ?case by (cases "k a") auto
qed simp

lemma ctx_length: "ctx_c k c \<Longrightarrow> length c \<le> 2 * ctx_black k c \<and> (top_black k c \<longrightarrow> length c < 2 * ctx_black k c)"
proof (induction k c rule: ctx_black.induct)
  case (2 k a r c)
  then show ?case by (cases "k a") auto
next
  case (3 k l a c)
  then show ?case by (cases "k a") auto
qed simp

lemma bh_plug: "inv_h k (plug c s) \<Longrightarrow> bh k (plug c s) = bh k s + ctx_black k c"
  by (induction c s rule: plug.induct) (auto simp: inv_h_plug)

lemma bh_size: "inv_h k s \<Longrightarrow> 2 ^ bh k s \<le> size s + 1"
proof (induction s)
  case (Node l a r)
  then have "2 ^ bh k l \<le> size l + 1" "2 ^ bh k l \<le> size r + 1" by auto
  then show ?case by (cases "k a") simp_all
qed simp

lemma rb_depth:
  assumes "inv_c k (plug c Leaf)" "inv_h k (plug c Leaf)" "rcol k (plug c Leaf) = BLACK"
  shows "\<exists>b. length c \<le> 2 * b \<and> 2 ^ b \<le> size (plug c Leaf) + 1"
  using ctx_length [of k c] ctx_c_plug [OF assms(1,3)] bh_plug [OF assms(2)] bh_size [OF assms(2)] by auto

section \<open>The state of the tree\<close>

text \<open>The tree holds the pairs \<open>xs\<close>, which were inserted in this order.\<close>

definition rb_tree_of :: "'v rb_tree \<Rightarrow> nat tree \<Rightarrow> bool" where
  "rb_tree_of t s \<longleftrightarrow> tree_at (rb_nil t) (rl t) (rb_root t) (rb_nil t) s \<and> distinct (inorder s) \<and> rb_base t
     \<and> inv_c (col t) s \<and> inv_h (col t) s \<and> rcol (col t) s = BLACK"

definition rb_items :: "'v rb_tree \<Rightarrow> nat list \<Rightarrow> (int \<times> 'v) list" where
  "rb_items t ns = map (\<lambda>a. the (rb_data t a)) ns"

definition rb_holds :: "'v rb_tree \<Rightarrow> (int \<times> 'v) list \<Rightarrow> bool" where
  "rb_holds t xs \<longleftrightarrow> (\<exists>s. rb_tree_of t s \<and> set_tree s = dom (rb_data t) - {rb_nil t} \<and> (\<forall>a \<in> dom (rb_data t). a < rb_next t)
     \<and> rb_items t (inorder s) = sort_key fst xs) \<and> rb_count t = length xs
     \<and> (\<exists>b. rb_high t \<le> 2 * b \<and> 2 ^ b \<le> length xs + 1)"

definition rb_keyof :: "'v rb_tree \<Rightarrow> nat \<Rightarrow> int" where "rb_keyof t a = fst (the (rb_data t a))"

lemma map_keyof: "map (rb_keyof t) ns = map fst (rb_items t ns)"
  by (simp add: rb_items_def rb_keyof_def)

lemma node_at:
  assumes "tree_at nil (rl t) x p (Node l a r)"
  shows "\<exists>n. rb_heap t a = Some n \<and> x = a \<and> a \<noteq> nil \<and> rb_p n = p \<and> rb_keyof t a = rb_key n \<and> the (rb_data t a) = (rb_key n, rb_val n)
    \<and> tree_at nil (rl t) (rb_left n) a l \<and> tree_at nil (rl t) (rb_right n) a r \<and> rl t a = Some (rb_left n, rb_right n, p)"
  using assms by (auto simp: rl_def rb_keyof_def rb_data_def)

section \<open>Looking up\<close>

lemma rb_search_loop_tree:
  assumes "tree_at (rb_nil t) (rl t) x p s" "sorted (map (rb_keyof t) (inorder s))"
  shows "\<exists>y. rb_search_loop t d x = Some y
    \<and> (if d \<in> rb_keyof t ` set_tree s then y \<in> set_tree s \<and> rb_keyof t y = d else y = rb_nil t)"
  using assms
proof (induction s arbitrary: x p)
  case (Node l a r)
  obtain n where n: "rb_heap t a = Some n" "x = a" "a \<noteq> rb_nil t" "rb_keyof t a = rb_key n"
      "tree_at (rb_nil t) (rl t) (rb_left n) a l" "tree_at (rb_nil t) (rl t) (rb_right n) a r"
    using node_at [OF Node.prems(1)] by blast
  have s: "sorted (map (rb_keyof t) (inorder l))" "sorted (map (rb_keyof t) (inorder r))" "\<forall>b \<in> set_tree l. rb_keyof t b \<le> rb_key n"
      "\<forall>b \<in> set_tree r. rb_key n \<le> rb_keyof t b"
    using Node.prems(2) n(4) by (auto simp: sorted_append)
  note step = rb_search_loop.simps [of t d x]
  consider "rb_key n = d" | "d < rb_key n" | "rb_key n < d" by linarith
  then show ?case
  proof cases
    case 1
    then show ?thesis using n step by auto
  next
    case 2
    then have "d \<notin> rb_keyof t ` set_tree r" "rb_keyof t a \<noteq> d" using s(4) n(4) by auto
    then show ?thesis using Node.IH(1) [OF n(5) s(1)] 2 n step by (fastforce simp: image_Un)
  next
    case 3
    then have "d \<notin> rb_keyof t ` set_tree l" "rb_keyof t a \<noteq> d" using s(3) n(4) by auto
    then show ?thesis using Node.IH(2) [OF n(6) s(2)] 3 n step by (fastforce simp: image_Un)
  qed
qed (simp add: rb_search_loop.simps)

lemma rb_walk_tree: "tree_at (rb_nil t) (rl t) x p s \<Longrightarrow> rb_walk t x = Some (rb_items t (inorder s))"
proof (induction s arbitrary: x p)
  case (Node l a r)
  obtain n where "rb_heap t a = Some n" "x = a" "a \<noteq> rb_nil t" "the (rb_data t a) = (rb_key n, rb_val n)"
      "tree_at (rb_nil t) (rl t) (rb_left n) a l" "tree_at (rb_nil t) (rl t) (rb_right n) a r"
    using node_at [OF Node.prems] by blast
  then show ?case using Node.IH by (subst rb_walk.simps) (simp add: rb_items_def)
qed (simp add: rb_walk.simps rb_items_def)

text \<open>The way down to the place of a new node; \<open>cnt\<close> counts the nodes passed.\<close>

lemma rb_descend_tree:
  assumes "tree_at (rb_nil t) (rl t) x p s" "ctx_at (rb_nil t) (rl t) rt x p c" "sorted (map (rb_keyof t) (inorder s))"
    and "\<forall>a \<in> set (ctx_before c). rb_keyof t a \<le> d" "\<forall>a \<in> set (ctx_after c). d < rb_keyof t a"
  shows "\<exists>y c'. rb_descend t d x p (length c) = Some (y, length c') \<and> ctx_at (rb_nil t) (rl t) rt (rb_nil t) y c' \<and> plug c' Leaf = plug c s
    \<and> (\<forall>a \<in> set (ctx_before c'). rb_keyof t a \<le> d) \<and> (\<forall>a \<in> set (ctx_after c'). d < rb_keyof t a)"
  using assms
proof (induction s arbitrary: x p c)
  case (Node l a r)
  obtain n where n: "rb_heap t a = Some n" "x = a" "a \<noteq> rb_nil t" "rb_keyof t a = rb_key n"
      "tree_at (rb_nil t) (rl t) (rb_left n) a l" "tree_at (rb_nil t) (rl t) (rb_right n) a r" "rl t a = Some (rb_left n, rb_right n, p)"
    using node_at [OF Node.prems(1)] by blast
  have s: "sorted (map (rb_keyof t) (inorder l))" "sorted (map (rb_keyof t) (inorder r))" "\<forall>b \<in> set_tree l. rb_keyof t b \<le> rb_key n"
      "\<forall>b \<in> set_tree r. rb_key n \<le> rb_keyof t b"
    using Node.prems(3) n(4) by (auto simp: sorted_append)
  note step = rb_descend.simps [of t d x p]
  show ?case
  proof (cases "d < rb_key n")
    case True
    have "ctx_at (rb_nil t) (rl t) rt (rb_left n) a (FL a r # c)" using Node.prems(2) n by auto
    moreover have "\<forall>b \<in> set (ctx_after (FL a r # c)). d < rb_keyof t b" using True n(4) s(4) Node.prems(5) by auto
    ultimately show ?thesis using Node.IH(1) [OF n(5) _ s(1), of "FL a r # c"] Node.prems(4) True n step by auto
  next
    case False
    have "ctx_at (rb_nil t) (rl t) rt (rb_right n) a (FR l a # c)" using Node.prems(2) n by auto
    moreover have "\<forall>b \<in> set (ctx_before (FR l a # c)). rb_keyof t b \<le> d" using False n(4) s(3) Node.prems(4) by auto
    ultimately show ?thesis using Node.IH(2) [OF n(6) _ s(2), of "FR l a # c"] Node.prems(5) False n step by auto
  qed
next
  case Leaf
  then show ?case by (intro exI [of _ p] exI [of _ c]) (simp add: rb_descend.simps)
qed

section \<open>Inserting\<close>

lemma high_upd [simp]:
  "rl (t\<lparr>rb_high := h\<rparr>) = rl t" "col (t\<lparr>rb_high := h\<rparr>) = col t" "rb_data (t\<lparr>rb_high := h\<rparr>) = rb_data t"
  by (auto simp: rl_def col_def rb_data_def)

lemma count_upd [simp]:
  "rl (t\<lparr>rb_count := h\<rparr>) = rl t" "col (t\<lparr>rb_count := h\<rparr>) = col t" "rb_data (t\<lparr>rb_count := h\<rparr>) = rb_data t"
  by (auto simp: rl_def col_def rb_data_def)

lemma rb_get_key: "rb_data t a = Some (k, v) \<Longrightarrow> rb_get rb_key a t = Some k"
  by (auto simp: rb_data_def rb_get_def)

text \<open>Linking the new node below \<open>y\<close>.\<close>

lemma rb_link:
  assumes "ctx_at (rb_nil t) (rl t) (rb_root t) (rb_nil t) y c" "\<forall>a \<in> set (ctx_before c). rb_keyof t a \<le> key"
    and "\<forall>a \<in> set (ctx_after c). key < rb_keyof t a"
  shows "\<exists>t'. (if y = rb_nil t then Some (t\<lparr>rb_root := z\<rparr>)
          else do {
            ykey \<leftarrow> rb_get rb_key y t;
            if key < ykey then rb_set y (\<lambda>n. n\<lparr>rb_left := z\<rparr>) t else rb_set y (\<lambda>n. n\<lparr>rb_right := z\<rparr>) t
          }) = Some t' \<and> fill c z (rb_root t, rl t) = (rb_root t', rl t') \<and> rb_rest t' = rb_rest t \<and> col t' = col t"
proof (cases c)
  case Nil
  then show ?thesis using assms(1) by simp
next
  case (Cons f d)
  then have y0: "y \<noteq> rb_nil t" using ctx_at_parent [OF assms(1)] by simp
  obtain v where v: "rl t y = Some v" using assms(1) Cons by (cases f) auto
  then obtain n where n: "rb_heap t y = Some n" "rb_keyof t y = rb_key n" by (auto simp: rl_def rb_keyof_def rb_data_def)
  have get: "rb_get rb_key y t = Some (rb_keyof t y)" using n by (simp add: rb_get_def)
  show ?thesis
  proof (cases f)
    case (FL a r)
    then have "y = a" "key < rb_keyof t a" using assms(1,3) Cons by auto
    then show ?thesis using y0 get rb_set_put [OF v] Cons FL by simp
  next
    case (FR l a)
    then have "y = a" "\<not> key < rb_keyof t a" using assms(1,2) Cons by auto
    then show ?thesis using y0 get rb_set_put [OF v] Cons FR by simp
  qed
qed

lemma rb_InsertNode_tree:
  assumes "rb_tree_of t s" "rb_data t z = Some (key, val)" "z \<notin> set_tree s" "z \<noteq> rb_nil t" "sorted (map (rb_keyof t) (inorder s))"
  shows "\<exists>c t' s'. rb_InsertNode z t = Some t' \<and> plug c Leaf = s \<and> (\<forall>a \<in> set (ctx_before c). rb_keyof t a \<le> key)
    \<and> (\<forall>a \<in> set (ctx_after c). key < rb_keyof t a) \<and> rb_tree_of t' s' \<and> inorder s' = ctx_before c @ z # ctx_after c
    \<and> rb_rest t' = rb_rest (t\<lparr>rb_high := max (rb_high t) (length c)\<rparr>)"
proof -
  let ?nil = "rb_nil t"
  have tr: "tree_at ?nil (rl t) (rb_root t) ?nil s" "distinct (inorder s)" "rb_base t" "inv_c (col t) s" "inv_h (col t) s" "rcol (col t) s = BLACK"
    using assms(1) by (auto simp: rb_tree_of_def)
  obtain y c where y: "rb_descend t key (rb_root t) ?nil 0 = Some (y, length c)" "ctx_at ?nil (rl t) (rb_root t) ?nil y c" "plug c Leaf = s"
      "\<forall>a \<in> set (ctx_before c). rb_keyof t a \<le> key" "\<forall>a \<in> set (ctx_after c). key < rb_keyof t a"
    using rb_descend_tree [OF tr(1) _ assms(5), of "rb_root t" "[]" key] by auto
  have zc: "z \<notin> set_ctx c" using assms(3) y(3) set_plug [of c Leaf] by simp
  have dc: "distinct (ctx_before c @ ctx_after c)" using tr(2) y(3) inorder_plug [of c Leaf] by simp
  obtain z1 z2 z3 where zl: "rl t z = Some (z1, z2, z3)" using assms(2) by (auto simp: rl_def rb_data_def)
  define t0 where "t0 = t\<lparr>rb_high := max (rb_high t) (length c)\<rparr>"
  have t0: "(if length c > rb_high t then t\<lparr>rb_high := length c\<rparr> else t) = t0" by (auto simp: t0_def max_def)
  have t0s: "rl t0 = rl t" "col t0 = col t" "rb_data t0 = rb_data t" "rb_nil t0 = ?nil" "rb_root t0 = rb_root t" by (simp_all add: t0_def)
  define t1 where "t1 = rb_put z (\<lambda>n. n\<lparr>rb_p := y\<rparr>) t0"
  have t1: "rl t1 = set_up z y (rl t)" "col t1 = col t" "rb_rest t1 = rb_rest t0" "rb_nil t1 = ?nil" "rb_root t1 = rb_root t"
    using t0s by (simp_all add: t1_def)
  have d1: "rb_data t1 = rb_data t" using t1(3) t0s(3) by (simp add: rb_rest_def)
  have k1: "rb_keyof t1 = rb_keyof t" using d1 by (simp add: rb_keyof_def fun_eq_iff)
  have c1: "ctx_at ?nil (rl t1) (rb_root t1) ?nil y c" using y(2) t1(1,5) zc by simp
  obtain t2 where t2: "(if y = rb_nil t1 then Some (t1\<lparr>rb_root := z\<rparr>)
          else do {
            ykey \<leftarrow> rb_get rb_key y t1;
            if key < ykey then rb_set y (\<lambda>n. n\<lparr>rb_left := z\<rparr>) t1 else rb_set y (\<lambda>n. n\<lparr>rb_right := z\<rparr>) t1
          }) = Some t2" "fill c z (rb_root t1, rl t1) = (rb_root t2, rl t2)" "rb_rest t2 = rb_rest t1" "col t2 = col t1"
    using rb_link [of t1 y c key z] c1 y(4,5) t1(4) k1 by auto
  note f = fill_at [OF c1 dc t2(2)]
  have n2: "rb_nil t2 = ?nil" using rb_rest_nil [OF t2(3)] t1(4) by simp
  define t3 where "t3 = rb_put z (\<lambda>n. n\<lparr>rb_left := ?nil\<rparr>) t2"
  define t4 where "t4 = rb_put z (\<lambda>n. n\<lparr>rb_right := ?nil\<rparr>) t3"
  define t5 where "t5 = rb_put z (\<lambda>n. n\<lparr>rb_color := RED\<rparr>) t4"
  have l2: "rl t2 z = Some (z1, z2, y)" using f(2) [OF zc] t1(1) zl by simp
  have l3: "rl t3 z = Some (?nil, z2, y)" using l2 by (simp add: t3_def)
  have l4: "rl t4 z = Some (?nil, ?nil, y)" using l3 by (simp add: t4_def)
  have k5: "col t5 = (col t)(z := RED)" using l4 t1(2) t2(4) by (simp add: t5_def col_put_color) (simp add: t4_def t3_def)
  have rest: "rb_rest t5 = rb_rest t0" using t2(3) t1(3) by (simp add: t5_def t4_def t3_def)
  have n5: "rb_nil t5 = ?nil" using rb_rest_nil [OF rest] t0s(4) by simp
  have n3: "rb_nil t3 = ?nil" using n2 by (simp add: t3_def)
  have "rb_get rb_key z t = Some key" using assms(2) by (rule rb_get_key)
  moreover have "rb_set z (\<lambda>n. n\<lparr>rb_p := y\<rparr>) t0 = Some t1" using rb_set_put [of t0 z] zl t0s(1) by (simp add: t1_def)
  ultimately have ins: "rb_InsertNode z t = rb_InsertFixup z t5"
    using y(1) t0 t2(1) rb_set_put [OF l2] rb_set_put [OF l3] rb_set_put [OF l4] n2 n3 t3_def t4_def t5_def
    by (simp add: rb_InsertNode_def)
  have "ctx_at ?nil (rl t5) (rb_root t5) z y c" using f(1) zc by (simp add: t5_def t4_def t3_def)
  moreover have "tree_at ?nil (rl t5) z y (Node Leaf z Leaf)" using l4 assms(4) by (simp add: t5_def)
  ultimately have tree5: "tree_at ?nil (rl t5) (rb_root t5) ?nil (plug c (Node Leaf z Leaf))" using plug_at by blast
  have cc: "ctx_c (col t) c" using ctx_c_plug [of "col t" c Leaf] tr(4,6) y(3) by simp
  have dist: "distinct (inorder (plug c (Node Leaf z Leaf)))" using dc zc by (simp add: distinct_plug)
  have base: "rb_base t5" using tr(3) rb_base_eq [OF rest] t0s(3,4) k5 assms(4) by (simp add: rb_base_def)
  have ih: "inv_h (col t5) (plug c (Node Leaf z Leaf))" using tr(5) y(3) zc k5 by (auto simp: inv_h_plug)
  have "rb_pre t5 c Leaf z Leaf" using tree5 base dist k5 cc zc ih n5 by (simp add: rb_pre_def)
  from InsertFixup_tree [OF this] obtain t' s' where t': "rb_InsertFixup z t5 = Some t'" "tree_at ?nil (rl t') (rb_root t') ?nil s'"
      "inorder s' = inorder (plug c (Node Leaf z Leaf))" "rb_rest t' = rb_rest t5" "rb_base t'" "inv_c (col t') s'" "inv_h (col t') s'"
      "rcol (col t') s' = BLACK"
    using n5 by auto
  have nt: "rb_nil t' = ?nil" using rb_rest_nil [OF t'(4)] n5 by simp
  have "rb_tree_of t' s'" using t' nt dist by (simp add: rb_tree_of_def)
  then show ?thesis using ins t'(1,3,4) y(3-5) rest t0_def
    by (intro exI [of _ c] exI [of _ t'] exI [of _ s']) (simp add: inorder_plug)
qed

lemma rb_MakeNode_eqs:
  assumes "rb_MakeNode key val t = (z, t1)" "rb_data t (rb_next t) = None"
  shows "z = rb_next t" "rl t1 = (rl t)(z \<mapsto> (0, 0, 0))" "col t1 = col t" "rb_data t1 = (rb_data t)(z \<mapsto> (key, val))"
    "rb_nil t1 = rb_nil t" "rb_root t1 = rb_root t" "rb_next t1 = Suc z" "rb_count t1 = rb_count t" "rb_high t1 = rb_high t"
  using assms by (auto simp: rb_MakeNode_def rl_def col_def rb_data_def fun_eq_iff)

lemma sort_key_snoc:
  assumes "bs @ as = sort_key fst xs" "\<forall>b \<in> set bs. fst b \<le> k" "\<forall>a \<in> set as. k < fst a"
  shows "sort_key fst (xs @ [(k :: int, v)]) = bs @ (k, v) # as"
proof (rule properties_for_sort_key)
  have "mset (bs @ as) = mset xs" using assms(1) by simp
  then show "mset (bs @ (k, v) # as) = mset (xs @ [(k, v)])" by simp
  have "sorted (map fst (bs @ as))" using assms(1) by simp
  then show "sorted (map fst (bs @ (k, v) # as))" using assms(2,3) by (auto simp: sorted_append less_imp_le)
  fix y assume "y \<in> set (bs @ (k, v) # as)"
  have "filter (\<lambda>x. fst y = fst x) (bs @ as) = filter (\<lambda>x. fst y = fst x) xs"
    using assms(1) sort_key_stable [of fst "fst y" xs] by (simp add: eq_commute)
  moreover have "fst y = k \<Longrightarrow> filter (\<lambda>x. fst y = fst x) as = []" using assms(3) by (auto simp: filter_empty_conv)
  ultimately show "filter (\<lambda>x. fst y = fst x) (bs @ (k, v) # as) = filter (\<lambda>x. fst y = fst x) (xs @ [(k, v)])" by auto
qed

lemma rb_Insert_holds:
  assumes "rb_holds t xs"
  shows "\<exists>t'. rb_Insert k v t = Some t' \<and> rb_holds t' (xs @ [(k, v)])"
proof -
  obtain s b where s: "rb_tree_of t s" "set_tree s = dom (rb_data t) - {rb_nil t}" "\<forall>a \<in> dom (rb_data t). a < rb_next t"
      "rb_items t (inorder s) = sort_key fst xs" "rb_count t = length xs" "rb_high t \<le> 2 * b" "2 ^ b \<le> length xs + 1"
    using assms by (auto simp: rb_holds_def)
  obtain z t1 where mk: "rb_MakeNode k v t = (z, t1)" by fastforce
  have zn: "rb_next t \<notin> dom (rb_data t)" using s(3) by blast
  then have "rb_data t (rb_next t) = None" by auto
  note m = rb_MakeNode_eqs [OF mk this]
  have base: "rb_base t" using s(1) by (simp add: rb_tree_of_def)
  then have z: "z \<noteq> rb_nil t" "z \<notin> set_tree s" using zn m(1) s(2) by (auto simp: rb_base_def)
  have "0 < z"
  proof -
    obtain vn where "rb_data t (rb_nil t) = Some vn" using base by (auto simp: rb_base_def)
    then show ?thesis using s(3) m(1) by fastforce
  qed
  then have tree1: "rb_tree_of t1 s" using s(1) z m by (simp add: rb_tree_of_def rb_base_def)
  have d1: "rb_data t1 a = rb_data t a" if "a \<noteq> z" for a using m(4) that by simp
  have it: "rb_items t1 ns = rb_items t ns" if "z \<notin> set ns" for ns unfolding rb_items_def using d1 that by (intro map_cong) metis+
  have its: "rb_items t1 (inorder s) = sort_key fst xs" using it [of "inorder s"] z(2) s(4) by simp
  then have srt: "sorted (map (rb_keyof t1) (inorder s))" by (simp add: map_keyof)
  obtain c t2 s2 where c: "rb_InsertNode z t1 = Some t2" "plug c Leaf = s" "\<forall>a \<in> set (ctx_before c). rb_keyof t1 a \<le> k"
      "\<forall>a \<in> set (ctx_after c). k < rb_keyof t1 a" "rb_tree_of t2 s2" "inorder s2 = ctx_before c @ z # ctx_after c"
      "rb_rest t2 = rb_rest (t1\<lparr>rb_high := max (rb_high t1) (length c)\<rparr>)"
    using rb_InsertNode_tree [OF tree1 _ _ _ srt, of z k v] m(4,5) z by auto
  have e2: "rb_data t2 = rb_data t1" "rb_nil t2 = rb_nil t" "rb_next t2 = Suc z" "rb_count t2 = rb_count t" "rb_high t2 = max (rb_high t) (length c)"
    using c(7) m by (auto simp: rb_rest_def)
  let ?t3 = "t2\<lparr>rb_count := Suc (rb_count t2)\<rparr>"
  have t3: "rb_tree_of ?t3 s2" using c(5) by (simp add: rb_tree_of_def rb_base_def)
  have "set_tree s2 = insert z (set_tree s)" using c(2,6) inorder_plug [of c Leaf] by (auto simp: set_inorder [symmetric] simp del: set_inorder)
  then have dom3: "set_tree s2 = dom (rb_data ?t3) - {rb_nil ?t3}" "\<forall>a \<in> dom (rb_data ?t3). a < rb_next ?t3"
    using s(2,3) e2 m(1,4) z(1) by (auto intro: less_SucI)
  have before: "\<forall>p \<in> set (rb_items t1 (ctx_before c)). fst p \<le> k" "\<forall>p \<in> set (rb_items t1 (ctx_after c)). k < fst p"
    using c(3,4) by (auto simp: rb_items_def rb_keyof_def)
  have "rb_items t1 (ctx_before c) @ rb_items t1 (ctx_after c) = sort_key fst xs"
    using its c(2) inorder_plug [of c Leaf] by (simp add: rb_items_def)
  from sort_key_snoc [OF this before] have "rb_items t1 (inorder s2) = sort_key fst (xs @ [(k, v)])"
    using c(6) m(4) by (simp add: rb_items_def)
  then have items: "rb_items ?t3 (inorder s2) = sort_key fst (xs @ [(k, v)])" using e2(1) by (simp add: rb_items_def)
  have "length xs = size s" using arg_cong [OF s(4), of length] by (simp add: rb_items_def)
  then obtain b2 where "length c \<le> 2 * b2" "2 ^ b2 \<le> length xs + 1"
    using rb_depth [of "col t1" c] tree1 c(2) by (auto simp: rb_tree_of_def)
  then have "\<exists>b. rb_high ?t3 \<le> 2 * b \<and> 2 ^ b \<le> length (xs @ [(k, v)]) + 1"
    using s(6,7) e2(5) by (intro exI [of _ "max b b2"]) (auto simp: max_def)
  then have "rb_holds ?t3 (xs @ [(k, v)])"
    unfolding rb_holds_def using t3 dom3 items e2(4) s(5) by auto
  moreover have "rb_Insert k v t = Some ?t3" using mk c(1) \<open>0 < z\<close> by (simp add: rb_Insert_def)
  ultimately show ?thesis by blast
qed

section \<open>The tree as a sorted list\<close>

lemma rb_new_holds: "rb_holds (rb_new dv) []"
proof -
  let ?t = "rb_new dv"
  have t: "rb_root ?t = 1" "rb_nil ?t = 1" "rb_next ?t = 2" "rb_count ?t = 0" "rb_high ?t = 0"
    by (simp_all add: rb_new_def rb_MakeNode_def)
  have d: "rb_data ?t = [1 \<mapsto> (0, dv)]" "col ?t 1 = BLACK"
    by (auto simp: rb_new_def rb_MakeNode_def rb_data_def col_def fun_eq_iff)
  have "rb_tree_of ?t Leaf" using t d by (simp add: rb_tree_of_def rb_base_def)
  then show ?thesis using t d unfolding rb_holds_def by (auto intro!: exI [of _ Leaf] exI [of _ 0] simp: rb_items_def)
qed

fun rb_Inserts :: "(int \<times> 'v) list \<Rightarrow> 'v rb_tree \<Rightarrow> 'v rb_tree option" where
  "rb_Inserts [] t = Some t"
| "rb_Inserts ((k, v) # xs) t = do { t \<leftarrow> rb_Insert k v t; rb_Inserts xs t }"

lemma rb_Inserts_holds: "rb_holds t xs \<Longrightarrow> \<exists>t'. rb_Inserts ys t = Some t' \<and> rb_holds t' (xs @ ys)"
proof (induction ys arbitrary: t xs)
  case (Cons y ys)
  obtain k v where y: "y = (k, v)" by (cases y)
  obtain t1 where "rb_Insert k v t = Some t1" "rb_holds t1 (xs @ [(k, v)])" using rb_Insert_holds [OF Cons.prems] by blast
  then show ?case using Cons.IH [of t1 "xs @ [(k, v)]"] y by auto
qed simp

lemma rb_Search_holds:
  assumes "rb_holds t xs"
  shows "\<exists>x. rb_Search k t = Some x \<and> (if k \<in> fst ` set xs then x \<noteq> rb_nil t \<and> (\<exists>v. rb_data t x = Some (k, v) \<and> (k, v) \<in> set xs) else x = rb_nil t)"
proof -
  obtain s where s: "rb_tree_of t s" "set_tree s = dom (rb_data t) - {rb_nil t}" "rb_items t (inorder s) = sort_key fst xs"
    using assms by (auto simp: rb_holds_def)
  have tr: "tree_at (rb_nil t) (rl t) (rb_root t) (rb_nil t) s" using s(1) by (simp add: rb_tree_of_def)
  have srt: "sorted (map (rb_keyof t) (inorder s))" using s(3) by (simp add: map_keyof)
  have set: "(\<lambda>a. the (rb_data t a)) ` set_tree s = set xs" using arg_cong [OF s(3), of set] by (simp add: rb_items_def)
  have "rb_keyof t ` set_tree s = fst ` (\<lambda>a. the (rb_data t a)) ` set_tree s" by (simp add: image_image rb_keyof_def)
  then have "rb_keyof t ` set_tree s = fst ` set xs" by (simp only: set)
  then obtain x where x: "rb_Search k t = Some x" "if k \<in> fst ` set xs then x \<in> set_tree s \<and> rb_keyof t x = k else x = rb_nil t"
    using rb_search_loop_tree [OF tr srt, of k] by (auto simp: rb_Search_def)
  have "\<exists>v. rb_data t x = Some (k, v) \<and> (k, v) \<in> set xs" if at: "x \<in> set_tree s" "rb_keyof t x = k"
  proof -
    have "x \<in> dom (rb_data t)" using at(1) s(2) by blast
    then obtain p where p: "rb_data t x = Some p" by blast
    then have "p \<in> set xs" using set at(1) by force
    moreover have "k = fst p" using p at(2) by (simp add: rb_keyof_def)
    ultimately show ?thesis using p by (intro exI [of _ "snd p"]) simp
  qed
  then show ?thesis using x s(2) by (auto split: if_splits)
qed

text \<open>C15. The red-black tree keeps its pairs in a stable order: after inserting any list of pairs no operation
  failed or ran forever; the walk prints the pairs sorted by key, pairs of the same key in the order of their
  insertion; \<open>Search\<close> finds a node of the key exactly when there is one; the size is the number of pairs; and the longest
  way down of any insertion was at most twice the logarithm of the size, which the colours guarantee.\<close>

theorem rb_inserts_sort:
  "\<exists>t. rb_Inserts xs (rb_new dv) = Some t \<and> rb_InorderWalk t = Some (sort_key fst xs)
    \<and> (\<forall>k. \<exists>x. rb_Search k t = Some x \<and>
         (if k \<in> fst ` set xs then x \<noteq> rb_nil t \<and> (\<exists>v. rb_data t x = Some (k, v) \<and> (k, v) \<in> set xs) else x = rb_nil t))
    \<and> rb_get_size t = length xs \<and> real (rb_get_high t) \<le> 2 * log 2 (real (length xs + 1))"
proof -
  obtain t where t: "rb_Inserts xs (rb_new dv) = Some t" "rb_holds t xs" using rb_Inserts_holds [OF rb_new_holds, of xs] by auto
  then obtain s b where s: "rb_tree_of t s" "rb_items t (inorder s) = sort_key fst xs" "rb_count t = length xs" "rb_high t \<le> 2 * b" "2 ^ b \<le> length xs + 1"
    by (auto simp: rb_holds_def)
  have "rb_InorderWalk t = Some (sort_key fst xs)"
    using rb_walk_tree [of t "rb_root t" "rb_nil t" s] s(1,2) by (simp add: rb_tree_of_def rb_InorderWalk_def)
  moreover have "real b \<le> log 2 (real (length xs + 1))" using s(5) by (intro le_log2_of_power)
  then have "real (rb_get_high t) \<le> 2 * log 2 (real (length xs + 1))" using s(4) by (simp add: rb_get_high_def)
  ultimately show ?thesis using t rb_Search_holds [OF t(2)] s(3) by (auto simp: rb_get_size_def)
qed

end
