(* ===== verification/FixedPool.thy ===== *)
theory FixedPool
  imports Prelude "HOL-Library.Word" "HOL-Library.Monad_Syntax"
begin

unbundle bit_operations_syntax

text \<open>
  \<open>CFixedsizeMemPool\<close> of \<open>snslib/comm/mem_pool/fixedsize_mem_pool.h\<close>: nodes of one size in a block of memory that
  the caller provides. Behind the head lie a circular list of the numbers of free nodes, one bit per node that says
  whether it is in use, and the nodes. The bytes of the bits and of the nodes are next to each other: an index of a
  bit behind the bits reads the nodes. A pointer to a node is its distance in bytes to the first one. \<open>None\<close> is a
  division by zero or an access outside the block.
\<close>

section \<open>State\<close>

record fm_head =
  iMemSize :: int
  iNodeNum :: nat
  iUsedNodeNum :: int
  iFreeHead :: nat
  iFreeTail :: nat

record fm_pool =
  fm_hd :: fm_head
  fm_free :: "nat list"
  fm_bits :: "8 word list"
  fm_data :: "8 word list"
  fm_size :: nat
  fm_next :: nat

definition FM_ERROR :: int where "FM_ERROR = -1"
definition FM_E_NODE_NUM :: int where "FM_E_NODE_NUM = -101"
definition FM_E_MEM_SIZE :: int where "FM_E_MEM_SIZE = -102"
definition FM_E_DATAP_ERR :: int where "FM_E_DATAP_ERR = -103"
definition FM_E_VERIFY_CYCLE_LIST_ERR :: int where "FM_E_VERIFY_CYCLE_LIST_ERR = -104"
definition FM_E_VERIFY_USEDNODE_NUM :: int where "FM_E_VERIFY_USEDNODE_NUM = -105"
definition FM_E_VERIFY_USEDBIT_FLAG :: int where "FM_E_VERIFY_USEDBIT_FLAG = -106"

text \<open>The conversion of a size to \<open>int\<close>.\<close>

definition to_int32 :: "int \<Rightarrow> int" where "to_int32 n = sint (word_of_int n :: 32 word)"

text \<open>The size of the node type is \<open>sz\<close>; the head has 20 bytes, an \<open>int\<close> 4.\<close>

definition fm_GetNeedMemSize :: "nat \<Rightarrow> int \<Rightarrow> int" where
  "fm_GetNeedMemSize sz n = to_int32 (20 + n * (4 + int sz + 1))"

text \<open>The bytes of the bits for \<open>n\<close> nodes.\<close>

definition fm_bit_bytes :: "nat \<Rightarrow> nat" where "fm_bit_bytes n = (n + 7) div 8"

text \<open>\<open>mem\<close> is what lies in the memory, for a pool that is taken over as it is; \<open>None\<close> is the null pointer.\<close>

definition fm_Init :: "nat \<Rightarrow> fm_pool option \<Rightarrow> int \<Rightarrow> int \<Rightarrow> int \<Rightarrow> (int \<times> fm_pool option) option" where
  "fm_Init sz mem memsize n clear =
     (if n < 0 then Some (FM_E_NODE_NUM, None)
      else
        let n = (if n = 0 then to_int32 (((memsize - 20) mod 2 ^ 64) div (4 + int sz + 1)) else n)
        in case mem of
          None \<Rightarrow> Some (FM_E_MEM_SIZE, None)
        | Some m \<Rightarrow>
            if n < 0 then None
            else if memsize < to_int32 (20 + 4 * n + int sz * n + int (fm_bit_bytes (nat n))) then Some (FM_E_MEM_SIZE, None)
            else if clear = 1 then
              Some (0, Some \<lparr>fm_hd = \<lparr>iMemSize = memsize, iNodeNum = nat n, iUsedNodeNum = 0, iFreeHead = 0, iFreeTail = nat n - 1\<rparr>,
                fm_free = [0..<nat n], fm_bits = replicate (fm_bit_bytes (nat n)) 0, fm_data = replicate (sz * nat n) 0,
                fm_size = sz, fm_next = 0\<rparr>)
            else if iMemSize (fm_hd m) \<noteq> memsize then Some (FM_E_MEM_SIZE, None)
            else if int (iNodeNum (fm_hd m)) \<noteq> n then Some (FM_E_NODE_NUM, None)
            else Some (0, Some (m\<lparr>fm_next := 0\<rparr>)))"

section \<open>Bits\<close>

text \<open>The byte with the bit of node \<open>i\<close>.\<close>

definition fm_byte :: "fm_pool \<Rightarrow> nat \<Rightarrow> 8 word option" where
  "fm_byte p i =
     (if i div 8 < length (fm_bits p) then Some (fm_bits p ! (i div 8))
      else if i div 8 - length (fm_bits p) < length (fm_data p) then Some (fm_data p ! (i div 8 - length (fm_bits p)))
      else None)"

definition fm_put_byte :: "nat \<Rightarrow> 8 word \<Rightarrow> fm_pool \<Rightarrow> fm_pool" where
  "fm_put_byte i b p =
     (if i div 8 < length (fm_bits p) then p\<lparr>fm_bits := (fm_bits p)[i div 8 := b]\<rparr>
      else p\<lparr>fm_data := (fm_data p)[i div 8 - length (fm_bits p) := b]\<rparr>)"

definition fm_mask :: "nat \<Rightarrow> 8 word" where "fm_mask i = push_bit (i mod 8) 1"

definition fm_used :: "fm_pool \<Rightarrow> nat \<Rightarrow> bool option" where
  "fm_used p i = map_option (\<lambda>b. b AND fm_mask i \<noteq> 0) (fm_byte p i)"

section \<open>Operations\<close>

definition fm_AllocateNode :: "fm_pool \<Rightarrow> (nat option \<times> fm_pool) option" where
  "fm_AllocateNode p =
     (let h = fm_hd p in
      if iNodeNum h = 0 then None
      else if (iFreeHead h + 1) mod iNodeNum h = iFreeTail h then Some (None, p)
      else do {
        i \<leftarrow> arr_get (fm_free p) (int (iFreeHead h));
        b \<leftarrow> fm_byte p i;
        let p = fm_put_byte i (b OR fm_mask i) p;
        Some (Some (i * fm_size p),
          p\<lparr>fm_hd := h\<lparr>iFreeHead := (iFreeHead h + 1) mod iNodeNum h, iUsedNodeNum := iUsedNodeNum h + 1\<rparr>\<rparr>)
      })"

text \<open>The pointer may point anywhere: its distance \<open>d\<close> to the first node is any number.\<close>

definition fm_ReleaseNode :: "int \<Rightarrow> fm_pool \<Rightarrow> (int \<times> fm_pool) option" where
  "fm_ReleaseNode d p =
     (let h = fm_hd p in
      if d < 0 \<or> d > int (iNodeNum h * fm_size p) \<or> d mod int (fm_size p) \<noteq> 0 then Some (FM_E_DATAP_ERR, p)
      else
        let i = nat (d div int (fm_size p)) in do {
          b \<leftarrow> fm_byte p i;
          if b AND fm_mask i = 0 then Some (0, p)
          else do {
            free \<leftarrow> arr_upd (fm_free p) (int (iFreeTail h)) (\<lambda>_. i);
            if iNodeNum h = 0 then None
            else Some (0, (fm_put_byte i (b AND NOT (fm_mask i)) p)\<lparr>fm_free := free,
              fm_hd := h\<lparr>iFreeTail := (iFreeTail h + 1) mod iNodeNum h, iUsedNodeNum := iUsedNodeNum h - 1\<rparr>\<rparr>)
          }
        })"

text \<open>The loop of \<open>GetNextNode\<close>: the first node in use from \<open>i\<close> on, with \<open>k\<close> nodes left to look at.\<close>

fun fm_next_loop :: "fm_pool \<Rightarrow> nat \<Rightarrow> nat \<Rightarrow> nat option option" where
  "fm_next_loop p i 0 = Some None"
| "fm_next_loop p i (Suc k) = do { u \<leftarrow> fm_used p i; if u then Some (Some i) else fm_next_loop p (Suc i) k }"

definition fm_GetNextNode :: "bool \<Rightarrow> fm_pool \<Rightarrow> (nat option \<times> fm_pool) option" where
  "fm_GetNextNode first p =
     (let p = (if first then p\<lparr>fm_next := 0\<rparr> else p) in do {
        r \<leftarrow> fm_next_loop p (fm_next p) (iNodeNum (fm_hd p) - fm_next p);
        case r of None \<Rightarrow> Some (None, p) | Some i \<Rightarrow> Some (Some (i * fm_size p), p\<lparr>fm_next := i + 1\<rparr>)
      })"

text \<open>The number of nodes in use by their bits.\<close>

fun fm_count :: "fm_pool \<Rightarrow> nat list \<Rightarrow> nat option" where
  "fm_count p [] = Some 0"
| "fm_count p (i # is) = do { u \<leftarrow> fm_used p i; n \<leftarrow> fm_count p is; Some (if u then Suc n else n) }"

definition fm_Verify :: "fm_pool \<Rightarrow> int option" where
  "fm_Verify p =
     (let h = fm_hd p; n = iNodeNum h in
      if \<exists>x \<in> set (take n (fm_free p)). x \<ge> n then Some FM_E_VERIFY_CYCLE_LIST_ERR
      else if n = 0 then None
      else if int n - (((int (iFreeTail h) + int n) - int (iFreeHead h)) mod int n + 1) \<noteq> iUsedNodeNum h
      then Some FM_E_VERIFY_USEDNODE_NUM
      else do {
        c \<leftarrow> fm_count p [0..<n];
        if int c \<noteq> iUsedNodeNum h then Some FM_E_VERIFY_USEDBIT_FLAG else Some 0
      })"

text \<open>\<open>VerifyData\<close> computes with \<open>size_t\<close>; the distance of the pointer to the block is at hand.\<close>

definition fm_VerifyData :: "int \<Rightarrow> fm_pool \<Rightarrow> int" where
  "fm_VerifyData d p =
     (let n = int (iNodeNum (fm_hd p));
          memoff = to_int32 (20 + 4 * n + int (fm_bit_bytes (iNodeNum (fm_hd p))) + d);
          off = to_int32 (memoff - 20 - (4 * n - int (fm_bit_bytes (iNodeNum (fm_hd p)))))
      in if (off mod 2 ^ 64) mod int (fm_size p) = 0 then 0 else FM_ERROR)"

definition fm_GetMemSize :: "fm_pool \<Rightarrow> int" where "fm_GetMemSize p = iMemSize (fm_hd p)"
definition fm_GetNodeNum :: "fm_pool \<Rightarrow> nat" where "fm_GetNodeNum p = iNodeNum (fm_hd p)"
definition fm_GetUsedNodeNum :: "fm_pool \<Rightarrow> int" where "fm_GetUsedNodeNum p = iUsedNodeNum (fm_hd p)"

end
