(* ===== verification/FixedPoolSpec.thy ===== *)
theory FixedPoolSpec
  imports FixedPool
begin

text \<open>
  The fixed size pool hands out nodes that are not in use: the invariant of \<open>FixedPool\<close>, what its operations do to
  the set of the nodes in use, and where the code goes wrong at the borders.
\<close>

unbundle bit_operations_syntax

section \<open>Bits\<close>

lemma bit_mask: "bit (fm_mask i) k \<longleftrightarrow> k = i mod 8"
  unfolding fm_mask_def bit_push_bit_iff bit_1_iff possible_bit_word by (auto intro: less_trans [OF mod_less_divisor])

lemma mask_and: "(b :: 8 word) AND fm_mask i \<noteq> 0 \<longleftrightarrow> bit b (i mod 8)"
proof
  assume "b AND fm_mask i \<noteq> 0"
  then obtain k where "bit (b AND fm_mask i) k" unfolding bit_eq_iff by auto
  then show "bit b (i mod 8)" by (auto simp: bit_and_iff bit_mask)
next
  assume "bit b (i mod 8)"
  then have "bit (b AND fm_mask i) (i mod 8)" by (simp add: bit_and_iff bit_mask)
  then show "b AND fm_mask i \<noteq> 0" by auto
qed


lemma bit_put:
  "bit (b OR fm_mask i) k \<longleftrightarrow> bit b k \<or> k = i mod 8"
  "bit (b AND NOT (fm_mask i)) k \<longleftrightarrow> bit b k \<and> k \<noteq> i mod 8"
  by (auto simp: bit_or_iff bit_and_iff bit_not_iff bit_mask dest: bit_imp_le_length)

lemma bit_bytes: "i < n \<Longrightarrow> i div 8 < fm_bit_bytes n"
  unfolding fm_bit_bytes_def by linarith

lemma same_bit: "i div 8 = j div 8 \<Longrightarrow> i mod 8 = j mod 8 \<Longrightarrow> i = (j :: nat)"
  by (metis div_mult_mod_eq)

lemma bits_upd:
  assumes "i div 8 < length bs"
  shows "bit (bs[i div 8 := bs ! (i div 8) OR fm_mask i] ! (j div 8)) (j mod 8) \<longleftrightarrow> bit (bs ! (j div 8)) (j mod 8) \<or> j = i"
    "bit (bs[i div 8 := bs ! (i div 8) AND NOT (fm_mask i)] ! (j div 8)) (j mod 8) \<longleftrightarrow> bit (bs ! (j div 8)) (j mod 8) \<and> j \<noteq> i"
proof -
  have "j div 8 = i div 8 \<Longrightarrow> j mod 8 = i mod 8 \<longleftrightarrow> j = i" using same_bit by metis
  then show "bit (bs[i div 8 := bs ! (i div 8) OR fm_mask i] ! (j div 8)) (j mod 8) \<longleftrightarrow> bit (bs ! (j div 8)) (j mod 8) \<or> j = i"
    "bit (bs[i div 8 := bs ! (i div 8) AND NOT (fm_mask i)] ! (j div 8)) (j mod 8) \<longleftrightarrow> bit (bs ! (j div 8)) (j mod 8) \<and> j \<noteq> i"
    using assms by (cases "j div 8 = i div 8"; auto simp: bit_put)+
qed

text \<open>Nodes of the pool have their bits among the bits.\<close>

lemma fm_used_bits:
  assumes "length (fm_bits p) = fm_bit_bytes n" "i < n"
  shows "fm_used p i = Some (bit (fm_bits p ! (i div 8)) (i mod 8))" "fm_byte p i = Some (fm_bits p ! (i div 8))"
    "fm_put_byte i b p = p\<lparr>fm_bits := (fm_bits p)[i div 8 := b]\<rparr>"
  using bit_bytes [OF assms(2)] assms(1) by (simp_all add: fm_used_def fm_byte_def fm_put_byte_def mask_and)

section \<open>The invariant\<close>

definition fm_inv :: "fm_pool \<Rightarrow> nat set \<Rightarrow> bool" where
  "fm_inv p A \<longleftrightarrow>
     (let h = fm_hd p; n = iNodeNum h; k = ring_count n (iFreeTail h) (iFreeHead h); L = ring_list (fm_free p) (iFreeHead h) k in
      0 < n \<and> 0 < fm_size p \<and> length (fm_free p) = n \<and> length (fm_bits p) = fm_bit_bytes n \<and> iFreeHead h < n \<and> iFreeTail h < n
    \<and> set (fm_free p) \<subseteq> {..<n} \<and> A \<subseteq> {..<n} \<and> distinct L \<and> set L \<inter> A = {} \<and> (n = 1 \<or> 0 < k) \<and> card A + k = n - 1
    \<and> (\<forall>i < n. bit (fm_bits p ! (i div 8)) (i mod 8) \<longleftrightarrow> i \<in> A) \<and> iUsedNodeNum h = int (card A))"

lemma fm_invD:
  assumes "fm_inv p A"
  defines "h \<equiv> fm_hd p"
  shows "0 < iNodeNum h" "0 < fm_size p" "length (fm_free p) = iNodeNum h" "length (fm_bits p) = fm_bit_bytes (iNodeNum h)"
    "iFreeHead h < iNodeNum h" "iFreeTail h < iNodeNum h" "set (fm_free p) \<subseteq> {..<iNodeNum h}" "A \<subseteq> {..<iNodeNum h}"
    "distinct (ring_list (fm_free p) (iFreeHead h) (ring_count (iNodeNum h) (iFreeTail h) (iFreeHead h)))"
    "set (ring_list (fm_free p) (iFreeHead h) (ring_count (iNodeNum h) (iFreeTail h) (iFreeHead h))) \<inter> A = {}"
    "iNodeNum h = 1 \<or> 0 < ring_count (iNodeNum h) (iFreeTail h) (iFreeHead h)"
    "card A + ring_count (iNodeNum h) (iFreeTail h) (iFreeHead h) = iNodeNum h - 1"
    "\<And>i. i < iNodeNum h \<Longrightarrow> bit (fm_bits p ! (i div 8)) (i mod 8) \<longleftrightarrow> i \<in> A" "iUsedNodeNum h = int (card A)"
  using assms by (simp_all add: fm_inv_def Let_def)

lemma fm_Init_inv:
  assumes "fm_Init sz (Some m) memsize n 1 = Some (0, Some p)" "0 < sz" "0 < n"
  shows "fm_inv p {} \<and> iNodeNum (fm_hd p) = nat n \<and> fm_size p = sz"
proof -
  let ?n = "nat n"
  have p: "p = \<lparr>fm_hd = \<lparr>iMemSize = memsize, iNodeNum = ?n, iUsedNodeNum = 0, iFreeHead = 0, iFreeTail = ?n - 1\<rparr>,
                fm_free = [0..<?n], fm_bits = replicate (fm_bit_bytes ?n) 0, fm_data = replicate (sz * ?n) 0,
                fm_size = sz, fm_next = 0\<rparr>"
    using assms(1,3) by (auto simp: fm_Init_def Let_def split: if_splits)
  have n: "0 < ?n" using assms(3) by simp
  have k: "ring_count ?n (?n - 1) 0 = ?n - 1" using n ring_count_full [of "?n - 1" ?n 0] by simp
  have L: "ring_list [0..<?n] 0 (?n - 1) = [0..<?n - 1]"
    using n by (auto simp: ring_list_def intro: map_idI)
  have "i div 8 < fm_bit_bytes ?n" if "i < ?n" for i using bit_bytes that by simp
  then show ?thesis using n k L assms(2) by (auto simp: fm_inv_def p Let_def)
qed

section \<open>Handing out and taking back\<close>

lemma card_less_below: "A \<subseteq> {..<n} \<Longrightarrow> i \<in> A \<Longrightarrow> 0 < card A" for A :: "nat set"
  using finite_subset [of A "{..<n}"] by (auto simp: card_gt_0_iff)

lemma ring_step: "0 < n \<Longrightarrow> h < n \<Longrightarrow> t < n \<Longrightarrow> (h + 1) mod n = t \<longleftrightarrow> n = 1 \<or> ring_count n t h = 1"
  by (auto simp: ring_count_def mod_diff_once mod_Suc_once split: if_splits)

text \<open>A pool of \<open>n\<close> nodes hands out \<open>n - 2\<close> of them.\<close>

lemma Allocate_inv:
  assumes "fm_inv p A"
  shows "if iNodeNum (fm_hd p) \<le> card A + 2 then fm_AllocateNode p = Some (None, p)
    else \<exists>i p'. fm_AllocateNode p = Some (Some (i * fm_size p), p') \<and> i < iNodeNum (fm_hd p) \<and> i \<notin> A \<and> fm_inv p' (insert i A)
         \<and> iNodeNum (fm_hd p') = iNodeNum (fm_hd p) \<and> fm_size p' = fm_size p"
proof -
  note inv = fm_invD [OF assms]
  let ?h = "fm_hd p" let ?n = "iNodeNum ?h" let ?k = "ring_count ?n (iFreeTail ?h) (iFreeHead ?h)"
  let ?L = "ring_list (fm_free p) (iFreeHead ?h) ?k"
  have full: "(iFreeHead ?h + 1) mod ?n = iFreeTail ?h \<longleftrightarrow> ?n \<le> card A + 2"
    using ring_step [OF inv(1,5,6)] inv(1,11,12) by auto
  show ?thesis
  proof (cases "?n \<le> card A + 2")
    case True
    then show ?thesis using full inv(1) by (simp add: fm_AllocateNode_def Let_def)
  next
    case False
    then have k: "0 < ?k" "iFreeHead ?h \<noteq> iFreeTail ?h" using inv(1,11,12) ring_count_zero [OF inv(6,5)] by auto
    define i where "i = fm_free p ! iFreeHead ?h"
    define h' where "h' = ?h\<lparr>iFreeHead := (iFreeHead ?h + 1) mod ?n, iUsedNodeNum := iUsedNodeNum ?h + 1\<rparr>"
    define p' where "p' = p\<lparr>fm_hd := h', fm_bits := (fm_bits p)[i div 8 := fm_bits p ! (i div 8) OR fm_mask i]\<rparr>"
    have "i \<in> set (fm_free p)" using inv(3,5) by (simp add: i_def)
    then have i: "i < ?n" using inv(7) by auto
    note bits = fm_used_bits [OF inv(4) i]
    have alloc: "fm_AllocateNode p = Some (Some (i * fm_size p), p')"
      using False full inv(1,3,5) bits(2,3) by (simp add: fm_AllocateNode_def Let_def i_def [symmetric] p'_def h'_def)
    have "?L = i # ring_list (fm_free p) (Suc (iFreeHead ?h) mod ?n) (?k - 1)"
      using ring_list_Cons [of "fm_free p" "iFreeHead ?h" "?k - 1"] k(1) inv(3,5) by (simp add: i_def)
    moreover have k': "ring_count ?n (iFreeTail ?h) (Suc (iFreeHead ?h) mod ?n) = ?k - 1"
      using ring_count_pop [OF inv(6,5)] k(2) by (metis diff_Suc_1)
    ultimately have L: "?L = i # ring_list (fm_free p) (Suc (iFreeHead ?h) mod ?n) (ring_count ?n (iFreeTail ?h) (Suc (iFreeHead ?h) mod ?n))"
      by simp
    have iA: "i \<notin> A" using inv(10) L by auto
    have fin: "finite A" using inv(8) finite_subset by blast
    have bit': "bit (fm_bits p' ! (j div 8)) (j mod 8) \<longleftrightarrow> j \<in> insert i A" if "j < ?n" for j
      using inv(13) [OF that] bits_upd(1) [of i "fm_bits p" j] bit_bytes [OF i] inv(4) by (auto simp: p'_def)
    have "fm_inv p' (insert i A)"
      using inv L k' k False i iA fin bit' mod_less_divisor [OF inv(1)]
      by (auto simp: fm_inv_def Let_def p'_def h'_def)
    then show ?thesis using alloc i iA False by (auto simp: p'_def h'_def)
  qed
qed

lemma Release_inv:
  assumes "fm_inv p A" "i < iNodeNum (fm_hd p)"
  shows "\<exists>p'. fm_ReleaseNode (int (i * fm_size p)) p = Some (0, p') \<and> fm_inv p' (A - {i})
    \<and> iNodeNum (fm_hd p') = iNodeNum (fm_hd p) \<and> fm_size p' = fm_size p"
proof -
  note inv = fm_invD [OF assms(1)]
  let ?h = "fm_hd p" let ?n = "iNodeNum ?h" let ?k = "ring_count ?n (iFreeTail ?h) (iFreeHead ?h)"
  let ?L = "ring_list (fm_free p) (iFreeHead ?h) ?k"
  note bits = fm_used_bits [OF inv(4) assms(2)]
  let ?b = "fm_bits p ! (i div 8)"
  have ptr: "\<not> (int (i * fm_size p) < 0 \<or> int (i * fm_size p) > int (?n * fm_size p) \<or> int (i * fm_size p) mod int (fm_size p) \<noteq> 0)"
    using mult_le_mono1 [of i ?n "fm_size p"] assms(2) by (simp add: zmod_int [symmetric] del: of_nat_mult)
  have idx: "nat (int (i * fm_size p) div int (fm_size p)) = i" using inv(2) by (simp add: zdiv_int [symmetric])
  show ?thesis
  proof (cases "i \<in> A")
    case False
    then have "?b AND fm_mask i = 0" using inv(13) [OF assms(2)] mask_and by blast
    then have "fm_ReleaseNode (int (i * fm_size p)) p = Some (0, p)"
      using idx bits(2) unfolding fm_ReleaseNode_def Let_def if_not_P [OF ptr] by (simp del: of_nat_mult)
    then show ?thesis using assms(1) False by simp
  next
    case True
    then have b: "?b AND fm_mask i \<noteq> 0" using inv(13) [OF assms(2)] mask_and by blast
    define h' where "h' = ?h\<lparr>iFreeTail := (iFreeTail ?h + 1) mod ?n, iUsedNodeNum := iUsedNodeNum ?h - 1\<rparr>"
    define p' where "p' = p\<lparr>fm_bits := (fm_bits p)[i div 8 := ?b AND NOT (fm_mask i)], fm_free := (fm_free p)[iFreeTail ?h := i], fm_hd := h'\<rparr>"
    have rel: "fm_ReleaseNode (int (i * fm_size p)) p = Some (0, p')"
      using idx bits(2,3) b inv(1,3,6) unfolding fm_ReleaseNode_def Let_def if_not_P [OF ptr]
      by (simp add: p'_def h'_def del: of_nat_mult)
    have fin: "finite A" using inv(8) finite_subset by blast
    then have cA: "0 < card A" "card (A - {i}) = card A - 1" using True by (auto simp: card_gt_0_iff)
    then have kn: "Suc ?k < ?n" using inv(12) by linarith
    then have nf: "Suc (iFreeTail ?h) mod ?n \<noteq> iFreeHead ?h" using ring_count_full [OF inv(6,5)] by linarith
    have k': "ring_count ?n (Suc (iFreeTail ?h) mod ?n) (iFreeHead ?h) = Suc ?k" using ring_count_push [OF inv(6,5) nf] .
    have "(iFreeHead ?h + ?k) mod ?n = iFreeTail ?h" using ring_count_head [OF inv(6,5)] .
    then have L': "ring_list ((fm_free p)[iFreeTail ?h := i]) (iFreeHead ?h) (Suc ?k) = ?L @ [i]"
      using ring_list_push [of ?k "fm_free p" "iFreeHead ?h" i] inv(3) kn by simp
    have iL: "i \<notin> set ?L" using inv(10) True by auto
    have bit': "bit (fm_bits p' ! (j div 8)) (j mod 8) \<longleftrightarrow> j \<in> A - {i}" if "j < ?n" for j
      using inv(13) [OF that] bits_upd(2) [of i "fm_bits p" j] bit_bytes [OF assms(2)] inv(4) by (auto simp: p'_def)
    have free: "set ((fm_free p)[iFreeTail ?h := i]) \<subseteq> {..<?n}" using inv(7) assms(2) set_update_subset_insert [of "fm_free p"] by fastforce
    have "fm_inv p' (A - {i})"
      using inv L' k' kn cA iL bit' free mod_less_divisor [OF inv(1)]
      by (auto simp: fm_inv_def Let_def p'_def h'_def of_nat_diff)
    then show ?thesis using rel by (auto simp: p'_def h'_def)
  qed
qed

lemma fm_count_bits:
  assumes "fm_inv p A" "set is \<subseteq> {..<iNodeNum (fm_hd p)}" "distinct is"
  shows "fm_count p is = Some (card (A \<inter> set is))"
  using assms(2,3)
proof (induction "is")
  case (Cons i "is")
  note inv = fm_invD [OF assms(1)]
  have "i < iNodeNum (fm_hd p)" using Cons.prems(1) by simp
  then have "fm_used p i = Some (i \<in> A)" using fm_used_bits(1) [OF inv(4)] inv(13) by simp
  then show ?case using Cons by (simp add: card_insert_if Int_insert_right)
qed simp

lemma Verify_inv:
  assumes "fm_inv p A"
  shows "fm_Verify p = Some 0"
proof -
  note inv = fm_invD [OF assms]
  let ?h = "fm_hd p" let ?n = "iNodeNum ?h" let ?k = "ring_count ?n (iFreeTail ?h) (iFreeHead ?h)"
  have free: "\<not> (\<exists>x \<in> set (take ?n (fm_free p)). x \<ge> ?n)" using inv(3,7) by auto
  have "(int (iFreeTail ?h) + int ?n) - int (iFreeHead ?h) = int (?n + iFreeTail ?h - iFreeHead ?h)" using inv(5) by (simp add: of_nat_diff)
  then have "((int (iFreeTail ?h) + int ?n) - int (iFreeHead ?h)) mod int ?n = int ?k" by (simp add: ring_count_def zmod_int)
  moreover have "int ?n - (int ?k + 1) = iUsedNodeNum ?h" using inv(1,12,14) by linarith
  moreover have "A \<inter> {0..<?n} = A" using inv(8) by auto
  then have "fm_count p [0..<?n] = Some (card A)" using fm_count_bits [OF assms, of "[0..<?n]"] by (simp add: atLeast0LessThan)
  ultimately show ?thesis using free inv(1,14) by (simp add: fm_Verify_def Let_def)
qed

section \<open>The reachable pools\<close>

inductive fm_reach :: "nat \<Rightarrow> nat \<Rightarrow> fm_pool \<Rightarrow> nat set \<Rightarrow> bool" for sz n where
  fm_init: "fm_Init sz (Some m) memsize (int n) 1 = Some (0, Some p) \<Longrightarrow> fm_reach sz n p {}"
| fm_alloc: "fm_reach sz n p A \<Longrightarrow> fm_AllocateNode p = Some (Some d, p') \<Longrightarrow> fm_reach sz n p' (insert (d div sz) A)"
| fm_release: "fm_reach sz n p A \<Longrightarrow> i < n \<Longrightarrow> fm_ReleaseNode (int (i * sz)) p = Some (c, p') \<Longrightarrow> fm_reach sz n p' (A - {i})"

lemma fm_reach_inv:
  assumes "fm_reach sz n p A" "0 < sz" "0 < n"
  shows "fm_inv p A \<and> iNodeNum (fm_hd p) = n \<and> fm_size p = sz"
  using assms
proof (induction rule: fm_reach.induct)
  case (fm_init m memsize p)
  then show ?case using fm_Init_inv by fastforce
next
  case (fm_alloc p A d p')
  then have inv: "fm_inv p A" "iNodeNum (fm_hd p) = n" "fm_size p = sz" by auto
  then obtain i where "d = i * sz" "fm_inv p' (insert i A)" "iNodeNum (fm_hd p') = n" "fm_size p' = sz"
    using Allocate_inv [OF inv(1)] fm_alloc.hyps(2) by (auto split: if_splits)
  then show ?case using fm_alloc.prems(1) by simp
next
  case (fm_release p A i c p')
  then have inv: "fm_inv p A" "iNodeNum (fm_hd p) = n" "fm_size p = sz" by auto
  then show ?case using Release_inv [OF inv(1), of i] fm_release.hyps(2,3) by auto
qed

text \<open>C37. The pool never hands out a node that is in use: after initialising it for \<open>n\<close> nodes and any calls that take
  nodes and give nodes of the pool back (also ones that are not in use), the next call answers a node outside the set of
  the nodes in use, as long as less than \<open>n - 2\<close> of them are in use, and fails without a change otherwise; giving back
  any node succeeds; the counter is the number of nodes in use, and \<open>Verify\<close> finds no fault.\<close>

theorem fm_pool_hands_out_free_nodes:
  assumes "fm_reach sz n p A" "0 < sz" "0 < n"
  shows "A \<subseteq> {..<n} \<and> fm_GetUsedNodeNum p = int (card A) \<and> fm_Verify p = Some 0
    \<and> (if n \<le> card A + 2 then fm_AllocateNode p = Some (None, p)
       else \<exists>i p'. fm_AllocateNode p = Some (Some (i * sz), p') \<and> i < n \<and> i \<notin> A)
    \<and> (\<forall>i < n. \<exists>p'. fm_ReleaseNode (int (i * sz)) p = Some (0, p'))"
proof -
  have inv: "fm_inv p A" "iNodeNum (fm_hd p) = n" "fm_size p = sz" using fm_reach_inv [OF assms] by blast+
  show ?thesis
    using fm_invD(8,14) [OF inv(1)] Verify_inv [OF inv(1)] Allocate_inv [OF inv(1)] Release_inv [OF inv(1)] inv(2,3)
    by (auto simp: fm_GetUsedNodeNum_def split: if_splits)
qed

definition sample_pool :: fm_pool where
  "sample_pool = \<lparr>fm_hd = \<lparr>iMemSize = 53, iNodeNum = 4, iUsedNodeNum = 0, iFreeHead = 0, iFreeTail = 3\<rparr>,
     fm_free = [0, 1, 2, 3], fm_bits = [0], fm_data = replicate 16 0, fm_size = 4, fm_next = 0\<rparr>"

theorem fm_pool_hands_out_free_nodes_witness:
  "\<exists>p. fm_AllocateNode sample_pool = Some (Some 0, p) \<and> fm_Verify p = Some 0
    \<and> (\<exists>i p'. fm_AllocateNode p = Some (Some (i * 4), p') \<and> i < 4 \<and> i \<noteq> 0)"
proof -
  have "fm_Init 4 (Some sample_pool) 53 (int 4) 1 = Some (0, Some sample_pool)" by code_simp
  then have r: "fm_reach 4 4 sample_pool {}" by (rule fm_init)
  obtain p where p: "fm_AllocateNode sample_pool = Some (Some 0, p)"
    by (auto simp: fm_AllocateNode_def sample_pool_def fm_byte_def Let_def arr_get_def)
  have "fm_reach 4 4 p {0}" using fm_alloc [OF r p] by simp
  from fm_pool_hands_out_free_nodes [OF this] p show ?thesis by auto
qed

section \<open>Walking over the nodes in use\<close>

lemma fm_next_loop_bits:
  assumes "fm_inv p A" "i + k \<le> iNodeNum (fm_hd p)"
  shows "fm_next_loop p i k = Some (if A \<inter> {i..<i + k} = {} then None else Some (Min (A \<inter> {i..<i + k})))"
  using assms(2)
proof (induction k arbitrary: i)
  case (Suc k)
  note inv = fm_invD [OF assms(1)]
  have "fm_used p i = Some (i \<in> A)" using fm_used_bits(1) [OF inv(4)] inv(13) Suc.prems by simp
  moreover have "A \<inter> {i..<i + Suc k} = (if i \<in> A then insert i (A \<inter> {Suc i..<Suc i + k}) else A \<inter> {Suc i..<Suc i + k})"
    by (auto simp: le_less Suc_le_eq)
  moreover have "i \<in> A \<Longrightarrow> Min (A \<inter> {i..<i + Suc k}) = i" by (intro Min_eqI) auto
  ultimately show ?case using Suc.IH [of "Suc i"] Suc.prems by auto
qed simp

text \<open>The first call and the calls after it answer the nodes in use in order, and \<open>NULL\<close> after the last.\<close>

lemma GetNextNode_next:
  assumes "fm_inv p A" and q_def: "q = (if first then 0 else fm_next p)"
  shows "\<exists>p'. fm_GetNextNode first p = Some (if A \<inter> {q..} = {} then None else Some (Min (A \<inter> {q..}) * fm_size p), p')
    \<and> (A \<inter> {q..} \<noteq> {} \<longrightarrow> fm_next p' = Min (A \<inter> {q..}) + 1)"
proof -
  note inv = fm_invD [OF assms(1)]
  let ?n = "iNodeNum (fm_hd p)" and ?p = "p\<lparr>fm_next := q\<rparr>"
  have inv': "fm_inv ?p A" using assms(1) by (simp add: fm_inv_def Let_def)
  have p: "(if first then p\<lparr>fm_next := 0\<rparr> else p) = ?p" by (simp add: q_def)
  have A: "A \<inter> {q..<q + (?n - q)} = A \<inter> {q..}" using inv(8) by auto
  show ?thesis
  proof (cases "q \<le> ?n")
    case True
    then show ?thesis using fm_next_loop_bits [OF inv', of q "?n - q"] A unfolding fm_GetNextNode_def Let_def p by auto
  next
    case False
    then have "?n - q = 0" by simp
    then show ?thesis using A unfolding fm_GetNextNode_def Let_def p by auto
  qed
qed

section \<open>The borders\<close>

text \<open>\<open>ReleaseNode\<close> takes the pointer behind the last node for one of the pool. When the number of nodes is a multiple
  of 8 its bit is a bit of the first node: if that is set, the data of the node is changed, the number of a node that
  does not exist goes to the free list, and the counter is one less.\<close>

lemma release_past_end:
  assumes "fm_inv p A" "8 dvd iNodeNum (fm_hd p)" "fm_data p = b # bs" "bit b 0"
  shows "\<exists>p'. fm_ReleaseNode (int (iNodeNum (fm_hd p) * fm_size p)) p = Some (0, p') \<and> fm_data p' = (b AND NOT 1) # bs
    \<and> fm_GetUsedNodeNum p' = int (card A) - 1 \<and> fm_Verify p' = Some FM_E_VERIFY_CYCLE_LIST_ERR"
proof -
  note inv = fm_invD [OF assms(1)]
  let ?h = "fm_hd p" let ?n = "iNodeNum ?h"
  obtain m where m: "?n = 8 * m" using assms(2) by blast
  then have len: "length (fm_bits p) = m" "?n div 8 = m" using inv(4) by (simp_all add: fm_bit_bytes_def)
  have mask: "fm_mask ?n = 1" using m by (simp add: fm_mask_def)
  have byte: "fm_byte p ?n = Some b" "fm_put_byte ?n c p = p\<lparr>fm_data := c # bs\<rparr>" for c
    using len assms(3) by (simp_all add: fm_byte_def fm_put_byte_def)
  have set: "b AND 1 \<noteq> 0" using mask_and [of b ?n] mask assms(4) m by simp
  have idx: "nat (int (?n * fm_size p) div int (fm_size p)) = ?n" using inv(2) by (simp add: zdiv_int [symmetric])
  have ptr: "\<not> (int (?n * fm_size p) < 0 \<or> int (?n * fm_size p) > int (?n * fm_size p) \<or> int (?n * fm_size p) mod int (fm_size p) \<noteq> 0)"
    by (simp add: zmod_int [symmetric] del: of_nat_mult)
  let ?p = "p\<lparr>fm_data := (b AND NOT 1) # bs, fm_free := (fm_free p)[iFreeTail ?h := ?n],
      fm_hd := ?h\<lparr>iFreeTail := (iFreeTail ?h + 1) mod ?n, iUsedNodeNum := iUsedNodeNum ?h - 1\<rparr>\<rparr>"
  have "fm_ReleaseNode (int (?n * fm_size p)) p = Some (0, ?p)"
    using idx byte set mask inv(1,3,6) unfolding fm_ReleaseNode_def Let_def if_not_P [OF ptr] by (simp del: of_nat_mult)
  moreover have "?n \<in> set (take ?n (fm_free ?p))" using inv(3,6) set_update_memI [of "iFreeTail ?h" "fm_free p" ?n] by simp
  then have "fm_Verify ?p = Some FM_E_VERIFY_CYCLE_LIST_ERR" using inv(1) by (auto simp: fm_Verify_def Let_def)
  ultimately show ?thesis using inv(14) by (simp add: fm_GetUsedNodeNum_def)
qed

text \<open>\<open>VerifyData\<close> subtracts the bytes of the bits with the wrong sign: a pointer to a node is judged by twice the number
  of these bytes.\<close>

lemma to_int32_small: "-(2 ^ 31) \<le> n \<Longrightarrow> n < 2 ^ 31 \<Longrightarrow> to_int32 n = n"
  by (simp add: to_int32_def signed_of_int signed_take_bit_int_eq_self)

lemma VerifyData_wrong:
  assumes "0 < fm_size p" "i < iNodeNum (fm_hd p)"
    and "20 + 4 * iNodeNum (fm_hd p) + 2 * fm_bit_bytes (iNodeNum (fm_hd p)) + i * fm_size p < 2 ^ 31"
  shows "fm_VerifyData (int (i * fm_size p)) p = 0 \<longleftrightarrow> fm_size p dvd 2 * fm_bit_bytes (iNodeNum (fm_hd p))"
proof -
  let ?n = "iNodeNum (fm_hd p)" and ?d = "i * fm_size p"
  let ?u = "fm_bit_bytes ?n"
  define d where "d = int ?d"
  have "int (20 + 4 * ?n + 2 * ?u + ?d) < int (2 ^ 31)" using assms(3) by (simp only: of_nat_less_iff)
  then have lt: "20 + 4 * int ?n + 2 * int ?u + d < 2 ^ 31" "0 \<le> d" by (simp_all add: d_def)
  then have m: "to_int32 (20 + 4 * int ?n + int ?u + d) = 20 + 4 * int ?n + int ?u + d" by (intro to_int32_small) simp_all
  have "to_int32 (20 + 4 * int ?n + int ?u + d - 20 - (4 * int ?n - int ?u)) = 2 * int ?u + d"
    using lt by (subst to_int32_small) simp_all
  moreover have "(2 * int ?u + d) mod 2 ^ 64 = 2 * int ?u + d" using lt by (intro mod_pos_pos_trivial) simp_all
  moreover have "(2 * int ?u + d) mod int (fm_size p) = int ((2 * ?u) mod fm_size p)" by (simp add: zmod_int d_def)
  ultimately have "fm_VerifyData d p = 0 \<longleftrightarrow> (2 * ?u) mod fm_size p = 0"
    using m unfolding fm_VerifyData_def Let_def by (simp add: FM_ERROR_def)
  then show ?thesis by (simp only: d_def dvd_eq_mod_eq_0)
qed

end
