(* ===== verification/RingBytes.thy ===== *)
theory RingBytes
  imports Prelude
begin

text \<open>
  Copies into and out of a block of memory that is used as a ring: a copy that fits, and one in two pieces, are both
  a write to the ring.
\<close>

definition mem_copy :: "'a list \<Rightarrow> nat \<Rightarrow> 'a list \<Rightarrow> 'a list option" where
  "mem_copy m i bs = (if i + length bs \<le> length m then Some (take i m @ bs @ drop (i + length bs) m) else None)"

definition mem_take :: "'a list \<Rightarrow> nat \<Rightarrow> nat \<Rightarrow> 'a list option" where
  "mem_take m i n = (if i + n \<le> length m then Some (take n (drop i m)) else None)"

text \<open>The cells from \<open>p\<close> on, around the end.\<close>

definition ring_put :: "'a list \<Rightarrow> nat \<Rightarrow> 'a list \<Rightarrow> 'a list" where
  "ring_put m p bs = map (\<lambda>j. if ring_count (length m) j p < length bs then bs ! ring_count (length m) j p else m ! j) [0..<length m]"

lemma length_ring_put [simp]: "length (ring_put m p bs) = length m"
  by (simp add: ring_put_def)

lemma nth_ring_put:
  "j < length m \<Longrightarrow> ring_put m p bs ! j = (if ring_count (length m) j p < length bs then bs ! ring_count (length m) j p else m ! j)"
  by (simp add: ring_put_def)

lemma ring_put_Nil [simp]: "ring_put m p [] = m"
  by (rule nth_equalityI) (simp_all add: nth_ring_put)

text \<open>The distance from \<open>p\<close> to \<open>j\<close>.\<close>

lemma ring_dist: "j < c \<Longrightarrow> p < c \<Longrightarrow> ring_count c j p = (if p \<le> j then j - p else c + j - p)"
  by (simp add: ring_count_def mod_diff_once)

lemma mem_copy_ring:
  assumes "i < length m" "i + length bs \<le> length m"
  shows "mem_copy m i bs = Some (ring_put m i bs)"
proof -
  have "take i m @ bs @ drop (i + length bs) m = ring_put m i bs"
  proof (rule nth_equalityI)
    fix j assume "j < length (take i m @ bs @ drop (i + length bs) m)"
    then have j: "j < length m" using assms by simp
    consider "j < i" | "i \<le> j" "j < i + length bs" | "i + length bs \<le> j" by linarith
    then show "(take i m @ bs @ drop (i + length bs) m) ! j = ring_put m i bs ! j"
      using j assms by cases (auto simp: nth_ring_put ring_dist nth_append)
  qed (use assms in simp)
  with assms show ?thesis by (simp add: mem_copy_def)
qed

lemma mem_copy_empty: "i \<le> length m \<Longrightarrow> mem_copy m i [] = Some m"
  by (simp add: mem_copy_def)

text \<open>Writing one thing behind the other.\<close>

lemma ring_put_append:
  assumes "p < length m" "length as + length bs \<le> length m"
  shows "ring_put (ring_put m p as) ((p + length as) mod length m) bs = ring_put m p (as @ bs)"
proof (rule nth_equalityI)
  fix j assume "j < length (ring_put (ring_put m p as) ((p + length as) mod length m) bs)"
  then have j: "j < length m" by simp
  let ?q = "(p + length as) mod length m"
  have la: "length as \<le> length m" using assms(2) by simp
  have q: "?q = (if p + length as < length m then p + length as else p + length as - length m)"
    using mod_add_once [OF assms(1) la] .
  have m: "0 < length m" using assms(1) by linarith
  then have qm: "?q < length m" by simp
  have d: "ring_count (length m) j p < length as + length bs \<and> \<not> ring_count (length m) j p < length as \<longleftrightarrow> ring_count (length m) j ?q < length bs"
    using assms j q qm by (auto simp: ring_dist split: if_splits)
  have e: "\<not> ring_count (length m) j p < length as \<Longrightarrow> ring_count (length m) j ?q < length bs \<Longrightarrow>
      ring_count (length m) j ?q = ring_count (length m) j p - length as"
    using assms j q qm by (auto simp: ring_dist split: if_splits)
  have f: "ring_count (length m) j p < length as \<Longrightarrow> \<not> ring_count (length m) j ?q < length bs" using d by blast
  show "ring_put (ring_put m p as) ?q bs ! j = ring_put m p (as @ bs) ! j"
    using j d e f by (auto simp: nth_ring_put nth_append)
qed simp

text \<open>A copy in two pieces.\<close>

definition mem_split :: "'a list \<Rightarrow> nat \<Rightarrow> nat \<Rightarrow> 'a list \<Rightarrow> 'a list option" where
  "mem_split m i k bs = (if k \<le> length bs then Option.bind (mem_copy m i (take k bs)) (\<lambda>m. mem_copy m 0 (drop k bs)) else None)"

lemma mem_split_ring:
  assumes "i < length m" "length m - i \<le> length bs" "length bs \<le> length m"
  shows "mem_split m i (length m - i) bs = Some (ring_put m i bs)"
proof -
  let ?k = "length m - i"
  have "mem_copy m i (take ?k bs) = Some (ring_put m i (take ?k bs))" using assms by (intro mem_copy_ring) simp_all
  moreover have "mem_copy (ring_put m i (take ?k bs)) 0 (drop ?k bs) = Some (ring_put (ring_put m i (take ?k bs)) 0 (drop ?k bs))"
    using assms by (intro mem_copy_ring) auto
  moreover have "ring_put (ring_put m i (take ?k bs)) 0 (drop ?k bs) = ring_put m i bs"
    using ring_put_append [of i m "take ?k bs" "drop ?k bs"] assms by (simp add: min_absorb2)
  ultimately show ?thesis using assms(2) by (simp add: mem_split_def)
qed

lemma mem_split_empty: "i \<le> length m \<Longrightarrow> 0 < length m \<Longrightarrow> length bs \<le> length m \<Longrightarrow> mem_split m i 0 bs = Some (ring_put m 0 bs)"
  by (simp add: mem_split_def mem_copy_empty mem_copy_ring)

section \<open>Reading the ring\<close>

lemma ring_list_append: "ring_list m p (a + b) = ring_list m p a @ ring_list m ((p + a) mod length m) b"
  by (rule nth_equalityI) (auto simp: ring_list_nth nth_append mod_simps)

lemma mem_take_ring:
  assumes "i + n \<le> length m"
  shows "mem_take m i n = Some (ring_list m i n)"
proof -
  have "take n (drop i m) = ring_list m i n" using assms by (intro nth_equalityI) (auto simp: ring_list_nth)
  with assms show ?thesis by (simp add: mem_take_def)
qed

lemma ring_list_put:
  assumes "p < length m" "length bs + n \<le> length m"
  shows "ring_list (ring_put m p bs) p (length bs) = bs"
    "ring_list (ring_put m p bs) ((p + length bs) mod length m) n = ring_list m ((p + length bs) mod length m) n"
proof -
  have "ring_count (length m) ((p + k) mod length m) p = k" if "k < length m" for k
    using that assms(1) by (auto simp: ring_dist mod_add_once split: if_splits)
  note dist = this
  have m: "0 < length m" using assms(1) by linarith
  show "ring_list (ring_put m p bs) p (length bs) = bs"
    using assms m dist by (intro nth_equalityI) (auto simp: ring_list_nth nth_ring_put)
  show "ring_list (ring_put m p bs) ((p + length bs) mod length m) n = ring_list m ((p + length bs) mod length m) n"
  proof (rule nth_equalityI)
    fix k assume "k < length (ring_list (ring_put m p bs) ((p + length bs) mod length m) n)"
    then have k: "k < n" by simp
    then have "ring_count (length m) ((p + (length bs + k)) mod length m) p = length bs + k" using dist assms(2) by simp
    then show "ring_list (ring_put m p bs) ((p + length bs) mod length m) n ! k = ring_list m ((p + length bs) mod length m) n ! k"
      using k m by (simp add: ring_list_nth nth_ring_put mod_simps add.assoc)
  qed simp
qed

text \<open>Cells that are not written to stay.\<close>

lemma ring_list_put_before:
  assumes "t < length m" "n + length bs \<le> length m"
  shows "ring_list (ring_put m ((t + n) mod length m) bs) t (n + length bs) = ring_list m t n @ bs"
proof -
  let ?p = "(t + n) mod length m"
  have m: "0 < length m" using assms(1) by linarith
  then have p: "?p < length m" by simp
  have "ring_list (ring_put m ?p bs) t n = ring_list m t n"
  proof (rule nth_equalityI)
    fix k assume "k < length (ring_list (ring_put m ?p bs) t n)"
    then have k: "k < n" by simp
    have kl: "(t + k) mod length m < length m" using m by simp
    have "\<not> ring_count (length m) ((t + k) mod length m) ?p < length bs"
      using assms k p kl mod_add_once [of t "length m" k] mod_add_once [of t "length m" n]
      by (auto simp: ring_dist split: if_splits)
    then show "ring_list (ring_put m ?p bs) t n ! k = ring_list m t n ! k"
      using k kl by (simp add: ring_list_nth nth_ring_put)
  qed simp
  moreover have "ring_list (ring_put m ?p bs) ?p (length bs) = bs" using ring_list_put(1) [of ?p m bs 0] p assms(2) by simp
  ultimately show ?thesis by (simp add: ring_list_append)
qed

end
