(* ===== verification/ByteQueue.thy ===== *)
theory ByteQueue
  imports RingBytes BuffTool
begin

text \<open>
  \<open>CShmQueue\<close> of \<open>snslib/comm/shm_queue/shm_queue.cpp\<close>: a queue of byte blocks in shared memory, used as a
  ring. A block is its head (its index and its length), its data and six flag bytes. The indices are not negative in any
  state the operations reach; the subtraction of unsigned indices wraps. \<open>None\<close> is an access outside of the memory,
  a division by zero or a loop that does not end. The semaphore around each operation is left out.
\<close>

record bq =
  bq_len :: nat
  bq_head :: nat
  bq_tail :: nat
  bq_num :: int
  bq_mem :: "byte list"
  bq_size :: nat

definition E_SHM_QUEUE_SEMLOCK :: int where "E_SHM_QUEUE_SEMLOCK = -601"
definition E_SHM_QUEUE_GET_SHM :: int where "E_SHM_QUEUE_GET_SHM = -603"
definition E_SHM_QUEUE_FULL :: int where "E_SHM_QUEUE_FULL = -604"
definition E_SHM_QUEUE_EMPTY :: int where "E_SHM_QUEUE_EMPTY = -605"
definition E_SHM_QUEUE_BUFFLIMIT :: int where "E_SHM_QUEUE_BUFFLIMIT = -606"

definition TAIL_FLAG :: byte where "TAIL_FLAG = 0xAA"

text \<open>The flag behind the data, and the block head in memory.\<close>

definition bq_flag :: "byte list" where "bq_flag = replicate 6 TAIL_FLAG"

definition bq_block_head :: "nat \<Rightarrow> nat \<Rightarrow> byte list" where
  "bq_block_head index len = le_bytes 4 (of_nat index :: 32 word) @ le_bytes 4 (of_nat len :: 32 word)"

definition bh_index :: "byte list \<Rightarrow> int" where "bh_index bs = sint (le_word (take 4 bs) :: 32 word)"
definition bh_len :: "byte list \<Rightarrow> int" where "bh_len bs = sint (le_word (drop 4 bs) :: 32 word)"

section \<open>Starting\<close>

text \<open>What the system answers: whether the segment is new, is there with what it holds, or neither.\<close>

datatype bq_shm = Shm_Created | Shm_Exists bq | Shm_Fails

definition bq_Init :: "int \<Rightarrow> bq_shm \<Rightarrow> nat \<Rightarrow> int \<times> bq option" where
  "bq_Init sem shm sz =
     (if sem \<noteq> 0 then (E_SHM_QUEUE_SEMLOCK, None)
      else case shm of
        Shm_Created \<Rightarrow> (0, Some \<lparr>bq_len = sz, bq_head = 0, bq_tail = 0, bq_num = 0, bq_mem = replicate sz 0, bq_size = sz\<rparr>)
      | Shm_Exists q \<Rightarrow> (0, Some (q\<lparr>bq_size := sz\<rparr>))
      | Shm_Fails \<Rightarrow> (E_SHM_QUEUE_GET_SHM, None))"

section \<open>In and out\<close>

text \<open>The free space, as both operations that put a block compute it.\<close>

definition bq_free :: "bq \<Rightarrow> nat" where
  "bq_free q =
     (if bq_head q < bq_tail q \<or> bq_head q = bq_tail q \<and> bq_num q = 0 then bq_len q - (bq_tail q - bq_head q)
      else if bq_head q > bq_tail q then bq_head q - bq_tail q
      else 0)"

definition bq_usub :: "nat \<Rightarrow> nat \<Rightarrow> nat" where "bq_usub a b = (a + 2 ^ 32 - b) mod 2 ^ 32"

text \<open>The cast \<open>(int)liLeft\<close> of the test whether the data fit in front of the end.\<close>

definition bq_signed :: "nat \<Rightarrow> int" where "bq_signed a = sint (of_nat a :: 32 word)"

definition bq_InQueue :: "byte list \<Rightarrow> bq \<Rightarrow> (int \<times> bq) option" where
  "bq_InQueue data q =
     (let n = length data; total = n + 8 + 6; len = bq_len q; head = bq_head q; tail = bq_tail q;
          st = bq_block_head tail n in
      if bq_free q < total then Some (E_SHM_QUEUE_FULL, q)
      else do {
        m \<leftarrow> (let i = tail; left = len - tail in
              if head > tail \<or> left \<ge> total then do {
                m \<leftarrow> mem_copy (bq_mem q) i st;
                m \<leftarrow> mem_copy m (i + 8) data;
                mem_copy m (i + 8 + n) bq_flag
              }
              else do {
                (m, i, left) \<leftarrow> (if left \<ge> 8
                  then do { m \<leftarrow> mem_copy (bq_mem q) i st; Some (m, (i + 8) mod len, left - 8) }
                  else do {
                    m \<leftarrow> mem_split (bq_mem q) i left st;
                    let i = (8 - left) mod len;
                    Some (m, i, bq_usub head i)
                  });
                (m, i, left) \<leftarrow> (if bq_signed left \<ge> int n
                  then do { m \<leftarrow> mem_copy m i data; Some (m, (i + n) mod len, left - n) }
                  else do {
                    m \<leftarrow> mem_split m i left data;
                    let i = (n - left) mod len;
                    Some (m, i, bq_usub head i)
                  });
                if left \<ge> 6 then mem_copy m i bq_flag else mem_split m i left bq_flag
              });
        if len = 0 then None
        else Some (0, q\<lparr>bq_mem := m, bq_tail := (tail + n + 8 + 6) mod len, bq_num := bq_num q + 1\<rparr>)
      })"

text \<open>A copy of \<open>n\<close> bytes of a block that is put in front; it is split when it would not fit in front of the end.\<close>

definition bq_front_copy :: "nat \<Rightarrow> nat \<Rightarrow> byte list \<Rightarrow> byte list \<times> nat \<Rightarrow> (byte list \<times> nat) option" where
  "bq_front_copy len head bs mi = (case mi of (m, i) \<Rightarrow>
     if i > head \<and> len - i \<ge> length bs \<or> i < head then do { m \<leftarrow> mem_copy m i bs; Some (m, i + length bs) }
     else do { m \<leftarrow> mem_split m i (len - i) bs; Some (m, length bs - (len - i)) })"

definition bq_HeaderInQueue :: "byte list \<Rightarrow> bq \<Rightarrow> (int \<times> bq) option" where
  "bq_HeaderInQueue data q =
     (let n = length data; total = n + 8 + 6; len = bq_len q; head = bq_head q in
      if bq_free q < total then Some (E_SHM_QUEUE_FULL, q)
      else
        let (i, split) = (if bq_tail q \<ge> head then if head \<ge> total then (head - total, False) else (len - (total - head), True)
                          else (head - total, False));
            st = bq_block_head i n
        in do {
          m \<leftarrow> (if \<not> split then do {
                  m \<leftarrow> mem_copy (bq_mem q) i st;
                  m \<leftarrow> mem_copy m (i + 8) data;
                  mem_copy m (i + 8 + n) bq_flag
                }
                else do {
                  mi \<leftarrow> bq_front_copy len head st (bq_mem q, i);
                  mi \<leftarrow> bq_front_copy len head data mi;
                  mi \<leftarrow> bq_front_copy len head bq_flag mi;
                  Some (fst mi)
                });
          Some (0, q\<lparr>bq_mem := m, bq_num := bq_num q + 1, bq_head := i\<rparr>)
        })"

text \<open>The search for six flag bytes in a row, which answers the index behind them.\<close>

partial_function (option) bq_search_flag :: "byte list \<Rightarrow> nat \<Rightarrow> nat \<Rightarrow> nat \<Rightarrow> nat option" where
  "bq_search_flag m len i k = do {
     b \<leftarrow> (if i < length m then Some (m ! i) else None);
     let k = (if b = TAIL_FLAG then k + 1 else 0);
     let i = (i + 1) mod len;
     if k = 6 then Some i else bq_search_flag m len i k
   }"

declare bq_search_flag.simps [code]

definition bq_reset :: "bq \<Rightarrow> bq" where
  "bq_reset q = q\<lparr>bq_len := bq_size q, bq_head := 0, bq_tail := 0, bq_num := 0\<rparr>"

text \<open>The answer is the code, the length of the buffer afterwards, and the data; \<open>buf\<close> says that the buffer is not \<open>NULL\<close>.\<close>

definition bq_OutQueue :: "bool \<Rightarrow> int \<Rightarrow> bq \<Rightarrow> (int \<times> int \<times> byte list \<times> bq) option" where
  "bq_OutQueue buf buflen q =
     (let len = bq_len q; head = bq_head q; m = bq_mem q in
      if bq_num q > 0 \<or> head \<noteq> bq_tail q then do {
        let left = len - head;
        st \<leftarrow> (if left < 8 then do { a \<leftarrow> mem_take m head left; b \<leftarrow> mem_take m 0 (8 - left); Some (a @ b) }
              else mem_take m head 8);
        let i = (if left < 8 then (8 - left) mod len else (head + 8) mod len);
        if buflen < bh_len st then Some (E_SHM_QUEUE_BUFFLIMIT, bh_len st, [], q)
        else if bh_index st \<noteq> int head \<or> \<not> buf then
          (if bq_num q > 0
           then do { h \<leftarrow> bq_search_flag m len i 0; Some (E_SHM_QUEUE_EMPTY, buflen, [], q\<lparr>bq_head := h, bq_num := bq_num q - 1\<rparr>) }
           else Some (E_SHM_QUEUE_EMPTY, buflen, [], bq_reset q))
        else if bh_len st < 0 then Some (E_SHM_QUEUE_EMPTY, buflen, [], bq_reset q)
        else do {
          let n = nat (bh_len st);
          let left = len - i;
          (data, i, left) \<leftarrow> (if left < n
            then do { a \<leftarrow> mem_take m i left; b \<leftarrow> mem_take m 0 (n - left); let i = (n - left) mod len; Some (a @ b, i, len - i) }
            else do { a \<leftarrow> mem_take m i n; Some (a, (i + n) mod len, left - n) });
          flag \<leftarrow> (if left \<ge> 6 then mem_take m i 6
                  else do { a \<leftarrow> mem_take m i left; b \<leftarrow> mem_take m 0 (6 - left); Some (a @ b) });
          Some (if flag = bq_flag then 0 else -1, int n, data,
            q\<lparr>bq_head := (head + n + 8 + 6) mod len, bq_num := bq_num q - 1\<rparr>)
        }
      }
      else Some (E_SHM_QUEUE_EMPTY, buflen, [], q))"

definition bq_GetNum :: "bq \<Rightarrow> int" where "bq_GetNum q = bq_num q"

end
