(* ===== verification/ByteQueueSpec.thy ===== *)
theory ByteQueueSpec
  imports ByteQueue
begin

text \<open>
  The byte queue of \<open>ByteQueue\<close> keeps a list of byte strings: whatever pieces the copies are made of, they are one
  write to the ring, and what comes out is what went in.
\<close>

section \<open>Blocks\<close>

lemma length_block_head [simp]: "length (bq_block_head i n) = 8"
  by (simp add: bq_block_head_def)

lemma length_flag [simp]: "length bq_flag = 6"
  by (simp add: bq_flag_def)

lemma sint_small: "n < 2 ^ 31 \<Longrightarrow> sint (of_nat n :: 32 word) = int n"
proof -
  assume n: "n < 2 ^ 31"
  have "int n < 2 ^ 31" using n by (metis of_nat_less_iff of_nat_numeral of_nat_power)
  then show ?thesis by (simp add: signed_of_nat signed_take_bit_int_eq_self)
qed

lemma block_head_read:
  assumes "i < 2 ^ 31" "n < 2 ^ 31"
  shows "bh_index (bq_block_head i n) = int i" "bh_len (bq_block_head i n) = int n"
  using assms by (simp_all add: bh_index_def bh_len_def bq_block_head_def le_word_bytes_all sint_small)

definition bq_block :: "nat \<Rightarrow> byte list \<Rightarrow> byte list" where
  "bq_block p d = bq_block_head p (length d) @ d @ bq_flag"

lemma length_block [simp]: "length (bq_block p d) = length d + 14"
  by (simp add: bq_block_def)

section \<open>Putting a block behind\<close>

text \<open>After \<open>k\<close> bytes from \<open>tail\<close> on: the index and the count of free bytes behind it, with \<open>r\<close> bytes to come. The write
  has wrapped, has not reached the end, or is right at it.\<close>

definition in_state :: "nat \<Rightarrow> nat \<Rightarrow> nat \<Rightarrow> nat \<Rightarrow> nat \<Rightarrow> nat \<Rightarrow> nat \<Rightarrow> bool" where
  "in_state len head tail k i left r \<longleftrightarrow>
     i + len = tail + k \<and> left = head - i \<and> i + r \<le> head
   \<or> i = tail + k \<and> i < len \<and> left = len - i
   \<or> tail + k = len \<and> i = 0 \<and> left = 0"

lemma usub_small: "b \<le> a \<Longrightarrow> a < 2 ^ 32 \<Longrightarrow> bq_usub a b = a - b"
proof -
  assume ba: "b \<le> a" "a < 2 ^ 32"
  then have "a + 2 ^ 32 - b = 2 ^ 32 + (a - b)" by simp
  then have "bq_usub a b = (2 ^ 32 + (a - b)) mod 2 ^ 32" by (simp only: bq_usub_def)
  also have "\<dots> = (a - b) mod 2 ^ 32" by (rule mod_add_self1)
  also have "\<dots> = a - b" using ba by simp
  finally show ?thesis .
qed

lemma in_state_index:
  assumes "in_state len head tail k i left r" "head < len" "tail < len" "k \<le> len"
  shows "i < len" "i = (tail + k) mod len"
  using assms mod_add_once [OF assms(3,4)] unfolding in_state_def by auto

lemma bq_signed_small: "a < 2 ^ 31 \<Longrightarrow> bq_signed a = int a"
  by (simp add: bq_signed_def signed_of_nat signed_take_bit_int_eq_self)

lemma in_state_signed:
  assumes "in_state len head tail k i left r" "head < len" "len < 2 ^ 31"
  shows "bq_signed left = int left"
proof (rule bq_signed_small)
  have "left \<le> len" using assms(1,2) unfolding in_state_def by auto
  then show "left < 2 ^ 31" using assms(3) by linarith
qed

lemma in_step:
  assumes "in_state len head tail k i left (length bs + r)" "length m = len" "head < len" "tail < len" "len < 2 ^ 31"
    and "tail + k + length bs + r \<le> len + head" "k + length bs + r \<le> len"
  shows "\<exists>i' left'. (if left \<ge> length bs
       then do { m \<leftarrow> mem_copy m i bs; Some (m, (i + length bs) mod len, left - length bs) }
       else do { m \<leftarrow> mem_split m i left bs; let i = (length bs - left) mod len; Some (m, i, bq_usub head i) })
     = Some (ring_put m i bs, i', left') \<and> in_state len head tail (k + length bs) i' left' r"
    "(if left \<ge> length bs then mem_copy m i bs else mem_split m i left bs) = Some (ring_put m i bs)"
proof -
  let ?n = "length bs"
  have k: "k \<le> len" using assms(7) by simp
  note ix = in_state_index [OF assms(1,3,4) k]
  have l0: "0 < length m" using assms(2,4) by linarith
  have "(\<exists>i' left'. (if left \<ge> ?n
       then do { m \<leftarrow> mem_copy m i bs; Some (m, (i + ?n) mod len, left - ?n) }
       else do { m \<leftarrow> mem_split m i left bs; let i = (?n - left) mod len; Some (m, i, bq_usub head i) })
     = Some (ring_put m i bs, i', left') \<and> in_state len head tail (k + ?n) i' left' r)
    \<and> (if left \<ge> ?n then mem_copy m i bs else mem_split m i left bs) = Some (ring_put m i bs)"
  proof (cases "left \<ge> ?n")
    case True
    have fit: "i + ?n \<le> len" using assms(1,3) True ix(1) unfolding in_state_def by auto
    then have cp: "mem_copy m i bs = Some (ring_put m i bs)" using mem_copy_ring [of i m bs] ix(1) assms(2) by simp
    have "in_state len head tail (k + ?n) ((i + ?n) mod len) (left - ?n) r"
    proof (cases "i + ?n = len")
      case True_end: True
      then show ?thesis using assms(1,3) True unfolding in_state_def by auto
    next
      case False
      then show ?thesis using assms(1,3) True fit unfolding in_state_def by auto
    qed
    then show ?thesis using True cp by simp
  next
    case False
    have left: "left = len - i \<and> i = tail + k \<or> tail + k = len \<and> i = 0 \<and> left = 0" using assms(1) False unfolding in_state_def by auto
    have sp: "mem_split m i left bs = Some (ring_put m i bs)"
      using left
    proof
      assume "left = len - i \<and> i = tail + k"
      then show ?thesis using mem_split_ring [of i m bs] ix(1) assms(2,7) False by auto
    next
      assume "tail + k = len \<and> i = 0 \<and> left = 0"
      then show ?thesis using mem_split_empty [of 0 m bs] l0 assms(2,7) by auto
    qed
    have w: "?n - left + len = tail + (k + ?n)" "?n - left + r \<le> head" using left False ix(1) assms(6) by auto
    then have lt: "?n - left < len" using assms(3) by linarith
    then have "in_state len head tail (k + ?n) ((?n - left) mod len) (bq_usub head ((?n - left) mod len)) r"
      using w usub_small [of "?n - left" head] assms(3,5) unfolding in_state_def by auto
    then show ?thesis using False sp by (simp add: Let_def)
  qed
  then show "\<exists>i' left'. (if left \<ge> ?n
       then do { m \<leftarrow> mem_copy m i bs; Some (m, (i + ?n) mod len, left - ?n) }
       else do { m \<leftarrow> mem_split m i left bs; let i = (?n - left) mod len; Some (m, i, bq_usub head i) })
     = Some (ring_put m i bs, i', left') \<and> in_state len head tail (k + ?n) i' left' r"
    "(if left \<ge> ?n then mem_copy m i bs else mem_split m i left bs) = Some (ring_put m i bs)"
    by blast+
qed

text \<open>Three copies one behind the other.\<close>

lemma ring_put_three:
  assumes "p < length m" "length as + length bs + length cs \<le> length m"
  shows "ring_put (ring_put (ring_put m p as) ((p + length as) mod length m) bs) ((p + (length as + length bs)) mod length m) cs
    = ring_put m p (as @ bs @ cs)"
  using ring_put_append [of p m as bs] ring_put_append [of p m "as @ bs" cs] assms by simp

lemma InQueue_put:
  assumes "length (bq_mem q) = bq_len q" "bq_head q < bq_len q" "bq_tail q < bq_len q" "bq_len q < 2 ^ 31"
    and "length data + 14 \<le> bq_free q"
    and "bq_head q > bq_tail q \<Longrightarrow> bq_free q = bq_head q - bq_tail q"
    and "bq_head q \<le> bq_tail q \<Longrightarrow> bq_free q = bq_len q - (bq_tail q - bq_head q)"
  shows "bq_InQueue data q = Some (0, q\<lparr>bq_mem := ring_put (bq_mem q) (bq_tail q) (bq_block (bq_tail q) data),
    bq_tail := (bq_tail q + length data + 14) mod bq_len q, bq_num := bq_num q + 1\<rparr>)"
proof -
  let ?m = "bq_mem q" and ?len = "bq_len q" and ?h = "bq_head q" and ?t = "bq_tail q" and ?n = "length data"
  let ?st = "bq_block_head ?t ?n"
  let ?new = "ring_put ?m ?t (bq_block ?t data)"
  have len0: "?len \<noteq> 0" using assms(2) by linarith
  have total: "?n + 14 \<le> ?len" using assms(2,3,5-7) by (cases "?h > ?t") auto
  have res: "bq_InQueue data q = Some (0, q\<lparr>bq_mem := ?new, bq_tail := (?t + ?n + 14) mod ?len, bq_num := bq_num q + 1\<rparr>)"
    if "(let i = ?t; left = ?len - ?t in
              if ?h > ?t \<or> left \<ge> ?n + 8 + 6 then do {
                m \<leftarrow> mem_copy ?m i ?st;
                m \<leftarrow> mem_copy m (i + 8) data;
                mem_copy m (i + 8 + ?n) bq_flag
              }
              else do {
                (m, i, left) \<leftarrow> (if left \<ge> 8
                  then do { m \<leftarrow> mem_copy ?m i ?st; Some (m, (i + 8) mod ?len, left - 8) }
                  else do {
                    m \<leftarrow> mem_split ?m i left ?st;
                    let i = (8 - left) mod ?len;
                    Some (m, i, bq_usub ?h i)
                  });
                (m, i, left) \<leftarrow> (if bq_signed left \<ge> int ?n
                  then do { m \<leftarrow> mem_copy m i data; Some (m, (i + ?n) mod ?len, left - ?n) }
                  else do {
                    m \<leftarrow> mem_split m i left data;
                    let i = (?n - left) mod ?len;
                    Some (m, i, bq_usub ?h i)
                  });
                if left \<ge> 6 then mem_copy m i bq_flag else mem_split m i left bq_flag
              }) = Some ?new"
    using that assms(5) len0 by (simp add: bq_InQueue_def Let_def add.assoc)
  show ?thesis
  proof (cases "?h > ?t \<or> ?len - ?t \<ge> ?n + 8 + 6")
    case True
    then have fit: "?t + ?n + 14 \<le> ?len" using assms(2,3,5,6) by auto
    have "mem_copy ?m ?t ?st = Some (ring_put ?m ?t ?st)" using fit assms(1) by (intro mem_copy_ring) simp_all
    moreover have "mem_copy (ring_put ?m ?t ?st) (?t + 8) data = Some (ring_put (ring_put ?m ?t ?st) (?t + 8) data)"
      using fit assms(1) by (intro mem_copy_ring) simp_all
    moreover have "mem_copy (ring_put (ring_put ?m ?t ?st) (?t + 8) data) (?t + 8 + ?n) bq_flag
        = Some (ring_put (ring_put (ring_put ?m ?t ?st) (?t + 8) data) (?t + 8 + ?n) bq_flag)"
      using fit assms(1) by (intro mem_copy_ring) simp_all
    moreover have "ring_put (ring_put (ring_put ?m ?t ?st) (?t + 8) data) (?t + 8 + ?n) bq_flag = ?new"
      using ring_put_three [of ?t ?m ?st data bq_flag] assms(1,3) fit total by (simp add: bq_block_def add.assoc)
    ultimately show ?thesis using True by (intro res) (simp add: Let_def)
  next
    case False
    then have ht: "?h \<le> ?t" and sm: "?len - ?t < ?n + 14" by auto
    then have room: "?t + (?n + 14) \<le> ?len + ?h" using assms(2,3,5,7) by auto
    have s0: "in_state ?len ?h ?t 0 ?t (?len - ?t) (length ?st + (?n + 6))" using assms(3) by (simp add: in_state_def)
    obtain i1 l1 where s1: "(if ?len - ?t \<ge> 8
                  then do { m \<leftarrow> mem_copy ?m ?t ?st; Some (m, (?t + 8) mod ?len, ?len - ?t - 8) }
                  else do { m \<leftarrow> mem_split ?m ?t (?len - ?t) ?st; let i = (8 - (?len - ?t)) mod ?len; Some (m, i, bq_usub ?h i) })
        = Some (ring_put ?m ?t ?st, i1, l1)" "in_state ?len ?h ?t 8 i1 l1 (?n + 6)"
      using in_step(1) [OF s0 assms(1,2,3,4), unfolded length_block_head] room total by auto
    note x1 = in_state_index [OF s1(2) assms(2,3)]
    have sg: "(int ?n \<le> bq_signed l1) = (?n \<le> l1)" using in_state_signed [OF s1(2) assms(2,4)] by simp
    obtain i2 l2 where s2: "(if bq_signed l1 \<ge> int ?n
                  then do { m \<leftarrow> mem_copy (ring_put ?m ?t ?st) i1 data; Some (m, (i1 + ?n) mod ?len, l1 - ?n) }
                  else do { m \<leftarrow> mem_split (ring_put ?m ?t ?st) i1 l1 data; let i = (?n - l1) mod ?len; Some (m, i, bq_usub ?h i) })
        = Some (ring_put (ring_put ?m ?t ?st) i1 data, i2, l2)" "in_state ?len ?h ?t (8 + ?n) i2 l2 (length bq_flag + 0)"
      using in_step(1) [OF s1(2) _ assms(2,3,4), of "ring_put ?m ?t ?st"] room total assms(1) unfolding sg by auto
    note x2 = in_state_index [OF s2(2) assms(2,3)]
    have s3: "(if l2 \<ge> 6 then mem_copy (ring_put (ring_put ?m ?t ?st) i1 data) i2 bq_flag
          else mem_split (ring_put (ring_put ?m ?t ?st) i1 data) i2 l2 bq_flag)
        = Some (ring_put (ring_put (ring_put ?m ?t ?st) i1 data) i2 bq_flag)"
      using in_step(2) [OF s2(2) _ assms(2,3,4), of "ring_put (ring_put ?m ?t ?st) i1 data", unfolded length_flag] room total assms(1) by auto
    have "ring_put (ring_put (ring_put ?m ?t ?st) i1 data) i2 bq_flag = ?new"
      using ring_put_three [of ?t ?m ?st data bq_flag] assms(1,3) total x1(2) x2(2) by (simp add: bq_block_def)
    then show ?thesis using False s1(1) s2(1) s3 by (intro res) (simp add: Let_def del: if_split)
  qed
qed

section \<open>Putting a block in front\<close>

text \<open>Before the end of the ring, or behind it; the write ends at \<open>head\<close>.\<close>

definition front_state :: "nat \<Rightarrow> nat \<Rightarrow> nat \<Rightarrow> nat \<Rightarrow> nat \<Rightarrow> nat \<Rightarrow> bool" where
  "front_state len head p k i r \<longleftrightarrow> i = p + k \<and> i \<le> len \<and> head < i \<or> i + len = p + k \<and> i + r = head"

lemma front_step:
  assumes "front_state len head p k i (length bs + r)" "length m = len" "head < len" "p < len" "p + k + length bs + r = len + head"
    and "0 < length bs + r" "k + length bs + r \<le> len"
  shows "\<exists>i'. bq_front_copy len head bs (m, i) = Some (ring_put m ((p + k) mod len) bs, i') \<and> front_state len head p (k + length bs) i' r"
proof -
  let ?n = "length bs"
  have l0: "0 < len" using assms(3) by linarith
  consider (before) "i = p + k" "i < len" "head < i" | (at) "i = p + k" "i = len" | (wrapped) "i + len = p + k" "i + ?n + r = head"
    using assms(1) unfolding front_state_def by fastforce
  then show ?thesis
  proof cases
    case before
    then have ix: "(p + k) mod len = i" by simp
    show ?thesis
    proof (cases "len - i \<ge> ?n")
      case True
      then have "mem_copy m i bs = Some (ring_put m i bs)" using mem_copy_ring [of i m bs] before assms(2) by simp
      then show ?thesis using before True ix by (auto simp: bq_front_copy_def front_state_def)
    next
      case False
      then have "mem_split m i (len - i) bs = Some (ring_put m i bs)" using mem_split_ring [of i m bs] before assms(2,7) by simp
      then show ?thesis using before False ix assms(5) by (auto simp: bq_front_copy_def front_state_def)
    qed
  next
    case at
    then have ix: "(p + k) mod len = 0" by simp
    show ?thesis
    proof (cases "?n = 0")
      case True
      then show ?thesis using at assms(2,3) by (simp add: bq_front_copy_def front_state_def mem_copy_empty)
    next
      case False
      then have "mem_split m i (len - i) bs = Some (ring_put m 0 bs)" using mem_split_empty [of i m bs] at assms(2,7) l0 by simp
      then show ?thesis using at False ix assms(3,5) by (auto simp: bq_front_copy_def front_state_def)
    qed
  next
    case wrapped
    then have i: "i < head" "i < len" using assms(3,6) by auto
    then have ix: "(p + k) mod len = i" using wrapped(1) by (metis mod_add_self2 mod_less)
    have "mem_copy m i bs = Some (ring_put m i bs)" using mem_copy_ring [of i m bs] i wrapped(2) assms(2,3) by simp
    then show ?thesis using wrapped i ix by (auto simp: bq_front_copy_def front_state_def)
  qed
qed

text \<open>The index of a block in front.\<close>

definition front_index :: "nat \<Rightarrow> nat \<Rightarrow> nat \<Rightarrow> nat" where
  "front_index len head k = (if k \<le> head then head - k else len - (k - head))"

lemma HeaderInQueue_put:
  assumes "length (bq_mem q) = bq_len q" "bq_head q < bq_len q" "bq_tail q < bq_len q"
    and "length data + 14 \<le> bq_free q" "length data + 14 < bq_len q"
    and "bq_head q > bq_tail q \<Longrightarrow> bq_free q = bq_head q - bq_tail q"
    and "bq_head q \<le> bq_tail q \<Longrightarrow> bq_free q = bq_len q - (bq_tail q - bq_head q)"
  shows "let p = front_index (bq_len q) (bq_head q) (length data + 14) in
    bq_HeaderInQueue data q = Some (0, q\<lparr>bq_mem := ring_put (bq_mem q) p (bq_block p data), bq_num := bq_num q + 1, bq_head := p\<rparr>)"
proof -
  let ?m = "bq_mem q" and ?len = "bq_len q" and ?h = "bq_head q" and ?n = "length data"
  let ?p = "front_index ?len ?h (?n + 14)"
  let ?st = "bq_block_head ?p ?n"
  let ?new = "ring_put ?m ?p (bq_block ?p data)"
  show ?thesis
  proof (cases "?n + 14 \<le> ?h")
    case True
    then have p: "?p = ?h - (?n + 14)" by (simp add: front_index_def)
    have fit: "?p + (?n + 14) \<le> ?len" "?p < ?len" using True assms(2) p by auto
    have "mem_copy ?m ?p ?st = Some (ring_put ?m ?p ?st)" using fit assms(1) by (intro mem_copy_ring) simp_all
    moreover have "mem_copy (ring_put ?m ?p ?st) (?p + 8) data = Some (ring_put (ring_put ?m ?p ?st) (?p + 8) data)"
      using fit assms(1) by (intro mem_copy_ring) simp_all
    moreover have "mem_copy (ring_put (ring_put ?m ?p ?st) (?p + 8) data) (?p + 8 + ?n) bq_flag
        = Some (ring_put (ring_put (ring_put ?m ?p ?st) (?p + 8) data) (?p + 8 + ?n) bq_flag)"
      using fit assms(1) by (intro mem_copy_ring) simp_all
    moreover have "ring_put (ring_put (ring_put ?m ?p ?st) (?p + 8) data) (?p + 8 + ?n) bq_flag = ?new"
      using ring_put_three [of ?p ?m ?st data bq_flag] assms(1) fit by (simp add: bq_block_def add.assoc)
    ultimately show ?thesis using True assms(4) p by (simp add: bq_HeaderInQueue_def Let_def add.assoc)
  next
    case False
    then have ht: "?h \<le> bq_tail q" using assms(2,4,6) by (cases "?h > bq_tail q") auto
    have p: "?p = ?len - (?n + 14 - ?h)" "?h < ?p" "?p < ?len" "?p + (?n + 14) = ?len + ?h" using False assms(2,5) by (auto simp: front_index_def)
    have s0: "front_state ?len ?h ?p 0 ?p (length ?st + (?n + 6))" using p by (simp add: front_state_def)
    obtain i1 where s1: "bq_front_copy ?len ?h ?st (?m, ?p) = Some (ring_put ?m ?p ?st, i1)" "front_state ?len ?h ?p 8 i1 (?n + 6)"
      using front_step [OF s0 assms(1,2) p(3)] p(3,4) assms(5) by auto
    obtain i2 where s2: "bq_front_copy ?len ?h data (ring_put ?m ?p ?st, i1)
        = Some (ring_put (ring_put ?m ?p ?st) ((?p + 8) mod ?len) data, i2)" "front_state ?len ?h ?p (8 + ?n) i2 (length bq_flag + 0)"
      using front_step [OF s1(2) _ assms(2) p(3), of "ring_put ?m ?p ?st"] p(4) assms(1,5) by auto
    obtain i3 where s3: "bq_front_copy ?len ?h bq_flag (ring_put (ring_put ?m ?p ?st) ((?p + 8) mod ?len) data, i2)
        = Some (ring_put (ring_put (ring_put ?m ?p ?st) ((?p + 8) mod ?len) data) ((?p + (8 + ?n)) mod ?len) bq_flag, i3)"
      using front_step [OF s2(2) _ assms(2) p(3), of "ring_put (ring_put ?m ?p ?st) ((?p + 8) mod ?len) data"] p(4) assms(1,5) by auto
    have "ring_put (ring_put (ring_put ?m ?p ?st) ((?p + 8) mod ?len) data) ((?p + (8 + ?n)) mod ?len) bq_flag = ?new"
      using ring_put_three [of ?p ?m ?st data bq_flag] assms(1,5) p(3) by (simp add: bq_block_def)
    then show ?thesis using False ht s1(1) s2(1) s3 assms(4) p(1) by (simp add: bq_HeaderInQueue_def Let_def add.assoc)
  qed
qed

section \<open>Taking a block out\<close>

lemma read_ring:
  assumes "i < length m" "n \<le> length m"
  shows "length m - i < n \<Longrightarrow> mem_take m i (length m - i) = Some (ring_list m i (length m - i))"
    "length m - i < n \<Longrightarrow> mem_take m 0 (n - (length m - i)) = Some (ring_list m 0 (n - (length m - i)))"
    "length m - i < n \<Longrightarrow> ring_list m i (length m - i) @ ring_list m 0 (n - (length m - i)) = ring_list m i n"
    "n \<le> length m - i \<Longrightarrow> mem_take m i n = Some (ring_list m i n)"
proof -
  show "length m - i < n \<Longrightarrow> mem_take m i (length m - i) = Some (ring_list m i (length m - i))" using assms by (intro mem_take_ring) simp
  show "length m - i < n \<Longrightarrow> mem_take m 0 (n - (length m - i)) = Some (ring_list m 0 (n - (length m - i)))"
    using assms by (intro mem_take_ring) simp
  show "length m - i < n \<Longrightarrow> ring_list m i (length m - i) @ ring_list m 0 (n - (length m - i)) = ring_list m i n"
    using ring_list_append [of m i "length m - i" "n - (length m - i)"] assms by simp
  show "n \<le> length m - i \<Longrightarrow> mem_take m i n = Some (ring_list m i n)" using assms(1) by (intro mem_take_ring) simp
qed

text \<open>The three reads of \<open>OutQueue\<close>.\<close>

lemma read_head:
  assumes "i < length m" "8 \<le> length m"
  shows "(if length m - i < 8 then do { a \<leftarrow> mem_take m i (length m - i); b \<leftarrow> mem_take m 0 (8 - (length m - i)); Some (a @ b) }
     else mem_take m i 8) = Some (ring_list m i 8)"
    "(if length m - i < 8 then (8 - (length m - i)) mod length m else (i + 8) mod length m) = (i + 8) mod length m"
  using read_ring [OF assms] mod_add_once [of i "length m" 8] assms by auto

lemma read_data:
  assumes "i < length m" "n \<le> length m"
  shows "\<exists>i' left'. (if length m - i < n
       then do { a \<leftarrow> mem_take m i (length m - i); b \<leftarrow> mem_take m 0 (n - (length m - i));
                 let i' = (n - (length m - i)) mod length m; Some (a @ b, i', length m - i') }
       else do { a \<leftarrow> mem_take m i n; Some (a, (i + n) mod length m, length m - i - n) })
     = Some (ring_list m i n, i', left') \<and> i' = (i + n) mod length m \<and> i' < length m \<and> (left' = length m - i' \<or> i' = 0 \<and> left' = 0)"
proof (cases "length m - i < n")
  case True
  then have "(i + n) mod length m = n - (length m - i)" "n - (length m - i) < length m" using mod_add_once [OF assms] assms by auto
  then show ?thesis using True read_ring(1-3) [OF assms True] by (simp add: Let_def)
next
  case False
  have "0 < length m" using assms(1) by linarith
  moreover have "(i + n) mod length m = (if i + n < length m then i + n else 0)" using mod_add_once [OF assms] False assms by auto
  ultimately show ?thesis using False read_ring(4) [OF assms] assms by auto
qed

lemma read_flag:
  assumes "i < length m" "6 \<le> length m" "left = length m - i \<or> i = 0 \<and> left = 0"
  shows "(if left \<ge> 6 then mem_take m i 6
          else do { a \<leftarrow> mem_take m i left; b \<leftarrow> mem_take m 0 (6 - left); Some (a @ b) }) = Some (ring_list m i 6)"
  using assms(3)
proof
  assume "left = length m - i"
  then show ?thesis using read_ring [OF assms(1,2)] by auto
next
  assume "i = 0 \<and> left = 0"
  then show ?thesis using mem_take_ring [of 0 6 m] mem_take_ring [of 0 0 m] assms(2) by simp
qed

section \<open>The blocks in the ring\<close>

fun bq_total :: "byte list list \<Rightarrow> nat" where
  "bq_total [] = 0"
| "bq_total (d # ds) = length d + 14 + bq_total ds"

fun bq_bytes :: "nat \<Rightarrow> nat \<Rightarrow> byte list list \<Rightarrow> byte list" where
  "bq_bytes len p [] = []"
| "bq_bytes len p (d # ds) = bq_block p d @ bq_bytes len ((p + length d + 14) mod len) ds"

lemma bq_total_append [simp]: "bq_total (ds @ es) = bq_total ds + bq_total es"
  by (induction ds) simp_all

lemma length_bq_bytes [simp]: "length (bq_bytes len p ds) = bq_total ds"
  by (induction ds arbitrary: p) simp_all

lemma bq_bytes_snoc: "p < len \<Longrightarrow> bq_bytes len p (ds @ [d]) = bq_bytes len p ds @ bq_block ((p + bq_total ds) mod len) d"
proof (induction ds arbitrary: p)
  case (Cons e ds)
  then have "(p + length e + 14) mod len < len" by (metis less_nat_zero_code mod_less_divisor neq0_conv)
  then show ?case using Cons.IH by (simp add: mod_simps add.assoc)
qed simp

definition bq_holds :: "bq \<Rightarrow> byte list list \<Rightarrow> bool" where
  "bq_holds q ds \<longleftrightarrow> length (bq_mem q) = bq_len q \<and> bq_head q < bq_len q \<and> bq_len q < 2 ^ 31 \<and> bq_total ds \<le> bq_len q
    \<and> bq_tail q = (bq_head q + bq_total ds) mod bq_len q \<and> bq_num q = int (length ds)
    \<and> ring_list (bq_mem q) (bq_head q) (bq_total ds) = bq_bytes (bq_len q) (bq_head q) ds"

lemma bq_total_0: "bq_total ds = 0 \<longleftrightarrow> ds = []"
  by (cases ds) simp_all

text \<open>The free space is what the blocks leave.\<close>

lemma bq_free_holds:
  assumes "bq_holds q ds"
  shows "bq_free q = bq_len q - bq_total ds" "bq_tail q < bq_len q"
    "bq_head q > bq_tail q \<Longrightarrow> bq_free q = bq_head q - bq_tail q"
    "ds = [] \<or> bq_total ds < bq_len q \<Longrightarrow> bq_head q \<le> bq_tail q \<Longrightarrow> bq_free q = bq_len q - (bq_tail q - bq_head q)"
proof -
  have a: "bq_head q < bq_len q" "bq_total ds \<le> bq_len q" "bq_num q = int (length ds)" using assms by (simp_all add: bq_holds_def)
  have t: "bq_tail q = (if bq_head q + bq_total ds < bq_len q then bq_head q + bq_total ds else bq_head q + bq_total ds - bq_len q)"
    using assms mod_add_once [OF a(1,2)] by (simp add: bq_holds_def)
  show f: "bq_free q = bq_len q - bq_total ds" using a t bq_total_0 [of ds] by (auto simp: bq_free_def)
  show "bq_tail q < bq_len q" using t a by auto
  show "bq_head q > bq_tail q \<Longrightarrow> bq_free q = bq_head q - bq_tail q" using t f a by auto
  show "ds = [] \<or> bq_total ds < bq_len q \<Longrightarrow> bq_head q \<le> bq_tail q \<Longrightarrow> bq_free q = bq_len q - (bq_tail q - bq_head q)"
    using t f a bq_total_0 [of ds] by auto
qed

lemma InQueue_holds:
  assumes "bq_holds q ds"
  shows "if bq_total ds + length d + 14 \<le> bq_len q then \<exists>q'. bq_InQueue d q = Some (0, q') \<and> bq_holds q' (ds @ [d]) \<and> bq_len q' = bq_len q
    else bq_InQueue d q = Some (E_SHM_QUEUE_FULL, q)"
proof -
  note h = assms [unfolded bq_holds_def] and fr = bq_free_holds [OF assms]
  show ?thesis
  proof (cases "bq_total ds + length d + 14 \<le> bq_len q")
    case True
    let ?q = "q\<lparr>bq_mem := ring_put (bq_mem q) (bq_tail q) (bq_block (bq_tail q) d),
        bq_tail := (bq_tail q + length d + 14) mod bq_len q, bq_num := bq_num q + 1\<rparr>"
    have "bq_InQueue d q = Some (0, ?q)" using InQueue_put [of q d] h fr True by auto
    moreover have "ring_list (bq_mem ?q) (bq_head q) (bq_total ds + length (bq_block (bq_tail q) d))
        = ring_list (bq_mem q) (bq_head q) (bq_total ds) @ bq_block (bq_tail q) d"
      using ring_list_put_before [of "bq_head q" "bq_mem q" "bq_total ds" "bq_block (bq_tail q) d"] h True by simp
    then have "bq_holds ?q (ds @ [d])"
      using h True bq_bytes_snoc [of "bq_head q" "bq_len q" ds d] by (simp add: bq_holds_def mod_simps add.assoc)
    ultimately show ?thesis using True by auto
  next
    case False
    then show ?thesis using fr(1) by (auto simp: bq_InQueue_def Let_def)
  qed
qed

lemma front_index_mod: "k \<le> len \<Longrightarrow> head < len \<Longrightarrow> front_index len head k < len \<or> k = len \<and> head = 0"
  "0 < k \<Longrightarrow> k < len \<Longrightarrow> head < len \<Longrightarrow> front_index len head k < len \<and> (front_index len head k + k) mod len = head"
  by (auto simp: front_index_def)

lemma HeaderInQueue_holds:
  assumes "bq_holds q ds" "length d + 14 < bq_len q"
  shows "if bq_total ds + length d + 14 \<le> bq_len q then \<exists>q'. bq_HeaderInQueue d q = Some (0, q') \<and> bq_holds q' (d # ds) \<and> bq_len q' = bq_len q
    else bq_HeaderInQueue d q = Some (E_SHM_QUEUE_FULL, q)"
proof -
  note h = assms(1) [unfolded bq_holds_def] and fr = bq_free_holds [OF assms(1)]
  show ?thesis
  proof (cases "bq_total ds + length d + 14 \<le> bq_len q")
    case True
    let ?len = "bq_len q" and ?k = "length d + 14"
    let ?p = "front_index ?len (bq_head q) ?k"
    let ?q = "q\<lparr>bq_mem := ring_put (bq_mem q) ?p (bq_block ?p d), bq_num := bq_num q + 1, bq_head := ?p\<rparr>"
    have p: "?p < ?len" "(?p + ?k) mod ?len = bq_head q" using front_index_mod(2) [of ?k ?len "bq_head q"] assms(2) h by auto
    have put: "bq_HeaderInQueue d q = Some (0, ?q)" using HeaderInQueue_put [of q d] h fr True assms(2) by (simp add: Let_def)
    have fit: "length (bq_block ?p d) + bq_total ds \<le> length (bq_mem q)" using True h by simp
    have "ring_list (bq_mem ?q) ?p (?k + bq_total ds) = ring_list (bq_mem ?q) ?p ?k @ ring_list (bq_mem ?q) (bq_head q) (bq_total ds)"
      using ring_list_append [of "bq_mem ?q" ?p ?k "bq_total ds"] p(2) h by simp
    also have "\<dots> = bq_block ?p d @ bq_bytes ?len (bq_head q) ds"
      using ring_list_put [of ?p "bq_mem q" "bq_block ?p d" "bq_total ds"] p h fit by (simp add: add.assoc)
    finally have ring: "ring_list (bq_mem ?q) ?p (?k + bq_total ds) = bq_block ?p d @ bq_bytes ?len (bq_head q) ds" .
    have "(?p + (?k + bq_total ds)) mod ?len = (bq_head q + bq_total ds) mod ?len"
      using p(2) by (metis add.assoc mod_add_left_eq)
    then have "bq_holds ?q (d # ds)" using h p True ring by (simp add: bq_holds_def add.assoc)
    then show ?thesis using put True by auto
  next
    case False
    then show ?thesis using fr(1) by (auto simp: bq_HeaderInQueue_def Let_def)
  qed
qed

text \<open>A block that fills the whole queue cannot be put in front, unless the head is at the start: the index is the head
  itself, and the copies are split there although nothing wraps, with more bytes than there are.\<close>

lemma HeaderInQueue_full_ring:
  assumes "bq_holds q []" "length d + 14 = bq_len q" "0 < bq_head q" "bq_head q + 8 < bq_len q"
  shows "bq_HeaderInQueue d q = None"
proof -
  note h = assms(1) [unfolded bq_holds_def] and fr = bq_free_holds [OF assms(1)]
  have "bq_tail q = bq_head q" using h by simp
  moreover have "length d + 14 \<le> bq_free q" using fr(1) assms(2) by simp
  moreover have "mem_split m (bq_head q) (bq_len q - bq_head q) (bq_block_head i n) = None" for m i n
    using assms(4) unfolding mem_split_def by (intro if_not_P) simp
  ultimately show ?thesis using assms(2-4) h by (simp add: bq_HeaderInQueue_def Let_def bq_front_copy_def add.assoc)
qed

lemma OutQueue_holds:
  assumes "bq_holds q ds"
  shows "case ds of
      [] \<Rightarrow> bq_OutQueue True n q = Some (E_SHM_QUEUE_EMPTY, n, [], q)
    | d # ds' \<Rightarrow> if n < int (length d) then bq_OutQueue True n q = Some (E_SHM_QUEUE_BUFFLIMIT, int (length d), [], q)
        else \<exists>q'. bq_OutQueue True n q = Some (0, int (length d), d, q') \<and> bq_holds q' ds' \<and> bq_len q' = bq_len q"
proof (cases ds)
  case Nil
  then show ?thesis using assms by (simp add: bq_OutQueue_def bq_holds_def Let_def)
next
  case (Cons d ds')
  note h = assms [unfolded bq_holds_def Cons]
  let ?m = "bq_mem q" and ?len = "bq_len q" and ?h = "bq_head q" and ?n = "length d"
  have fit: "?n + 14 \<le> ?len" "?n + 14 + bq_total ds' \<le> ?len" using h by auto
  have len: "length ?m = ?len" "?h < length ?m" "8 \<le> length ?m" "6 \<le> length ?m" "0 < length ?m" using h fit by auto
  have lt: "?h < 2 ^ 31" "?n < 2 ^ 31" using h fit by auto
  let ?i = "(?h + 8) mod ?len"
  have split: "ring_list ?m ?h (8 + (?n + (6 + bq_total ds'))) = ring_list ?m ?h 8 @ ring_list ?m ?i ?n
      @ ring_list ?m ((?i + ?n) mod ?len) 6 @ ring_list ?m ((?h + ?n + 14) mod ?len) (bq_total ds')"
  proof -
    have "((?i + ?n) mod ?len + 6) mod ?len = (?h + ?n + 14) mod ?len" by (simp add: mod_simps ac_simps)
    then show ?thesis
      using ring_list_append [of ?m ?h 8 "?n + (6 + bq_total ds')"] ring_list_append [of ?m ?i ?n "6 + bq_total ds'"]
        ring_list_append [of ?m "(?i + ?n) mod ?len" 6 "bq_total ds'"] by (simp only: len(1))
  qed
  have tot: "8 + (?n + (6 + bq_total ds')) = bq_total (d # ds')" by simp
  have "ring_list ?m ?h 8 @ ring_list ?m ?i ?n @ ring_list ?m ((?i + ?n) mod ?len) 6 @ ring_list ?m ((?h + ?n + 14) mod ?len) (bq_total ds')
      = bq_block_head ?h ?n @ d @ bq_flag @ bq_bytes ?len ((?h + ?n + 14) mod ?len) ds'"
    unfolding split [symmetric] tot using h by (simp add: bq_block_def)
  then have parts: "ring_list ?m ?h 8 = bq_block_head ?h ?n" "ring_list ?m ?i ?n = d" "ring_list ?m ((?i + ?n) mod ?len) 6 = bq_flag"
      "ring_list ?m ((?h + ?n + 14) mod ?len) (bq_total ds') = bq_bytes ?len ((?h + ?n + 14) mod ?len) ds'"
    by (simp_all add: append_eq_append_conv)
  note hd = block_head_read [OF lt]
  note r1 = read_head [OF len(2,3), unfolded len(1) parts(1)]
  show ?thesis
  proof (cases "n < int ?n")
    case True
    then show ?thesis using Cons r1 hd h by (simp add: bq_OutQueue_def Let_def)
  next
    case False
    have il: "?i < length ?m" using len(1,5) by simp
    obtain i' left' where r2: "(if ?len - ?i < ?n
       then do { a \<leftarrow> mem_take ?m ?i (?len - ?i); b \<leftarrow> mem_take ?m 0 (?n - (?len - ?i));
                 let i' = (?n - (?len - ?i)) mod ?len; Some (a @ b, i', ?len - i') }
       else do { a \<leftarrow> mem_take ?m ?i ?n; Some (a, (?i + ?n) mod ?len, ?len - ?i - ?n) }) = Some (d, i', left')"
        "i' = (?i + ?n) mod ?len" "i' < length ?m" "left' = length ?m - i' \<or> i' = 0 \<and> left' = 0"
      using read_data [OF il, of ?n] fit(1) parts(2) unfolding len(1) by auto
    have r3: "(if left' \<ge> 6 then mem_take ?m i' 6
          else do { a \<leftarrow> mem_take ?m i' left'; b \<leftarrow> mem_take ?m 0 (6 - left'); Some (a @ b) }) = Some bq_flag"
      using read_flag [OF r2(3) len(4) r2(4)] r2(2) parts(3) by simp
    let ?q = "q\<lparr>bq_head := (?h + ?n + 8 + 6) mod ?len, bq_num := bq_num q - 1\<rparr>"
    have c: "bq_num q > 0 \<or> ?h \<noteq> bq_tail q" "\<not> (int ?h \<noteq> int ?h \<or> \<not> True)" "\<not> int ?n < 0" using h by simp_all
    have "bq_OutQueue True n q = Some (0, int ?n, d, ?q)"
      unfolding bq_OutQueue_def Let_def if_P [OF c(1)] r1 Option.bind.bind_lunit hd nat_int if_not_P [OF False] if_not_P [OF c(2)]
        if_not_P [OF c(3)] r2(1) [unfolded Let_def] prod.case r3 by simp
    moreover have "bq_holds ?q ds'"
      using h parts(4) fit len(1,5) by (simp add: bq_holds_def mod_simps add.assoc)
    ultimately show ?thesis using Cons False by auto
  qed
qed

section \<open>The queue as a list\<close>

datatype bq_op = BqIn "byte list" | BqFront "byte list" | BqOut int

text \<open>An answer is the code, the length given back, and the data.\<close>

type_synonym bq_answer = "int \<times> int \<times> byte list"

fun bq_step :: "bq_op \<Rightarrow> bq \<Rightarrow> (bq_answer \<times> bq) option" where
  "bq_step (BqIn d) q = map_option (\<lambda>(c, q). ((c, 0, []), q)) (bq_InQueue d q)"
| "bq_step (BqFront d) q = map_option (\<lambda>(c, q). ((c, 0, []), q)) (bq_HeaderInQueue d q)"
| "bq_step (BqOut n) q = map_option (\<lambda>(c, n, d, q). ((c, n, d), q)) (bq_OutQueue True n q)"

fun bq_run :: "bq_op list \<Rightarrow> bq \<Rightarrow> (bq_answer list \<times> bq) option" where
  "bq_run [] q = Some ([], q)"
| "bq_run (op # ops) q = do { (a, q) \<leftarrow> bq_step op q; (as, q) \<leftarrow> bq_run ops q; Some (a # as, q) }"

text \<open>The same on a list of byte strings of which \<open>cap\<close> bytes fit, 14 for each beside its own.\<close>

fun blocks_step :: "nat \<Rightarrow> bq_op \<Rightarrow> byte list list \<Rightarrow> bq_answer \<times> byte list list" where
  "blocks_step cap (BqIn d) ds = (if bq_total ds + length d + 14 \<le> cap then ((0, 0, []), ds @ [d]) else ((E_SHM_QUEUE_FULL, 0, []), ds))"
| "blocks_step cap (BqFront d) ds = (if bq_total ds + length d + 14 \<le> cap then ((0, 0, []), d # ds) else ((E_SHM_QUEUE_FULL, 0, []), ds))"
| "blocks_step cap (BqOut n) [] = ((E_SHM_QUEUE_EMPTY, n, []), [])"
| "blocks_step cap (BqOut n) (d # ds) =
     (if n < int (length d) then ((E_SHM_QUEUE_BUFFLIMIT, int (length d), []), d # ds) else ((0, int (length d), d), ds))"

fun blocks_run :: "nat \<Rightarrow> bq_op list \<Rightarrow> byte list list \<Rightarrow> bq_answer list \<times> byte list list" where
  "blocks_run cap [] ds = ([], ds)"
| "blocks_run cap (op # ops) ds = (let (a, ds) = blocks_step cap op ds; (as, ds) = blocks_run cap ops ds in (a # as, ds))"

definition front_fits :: "nat \<Rightarrow> bq_op \<Rightarrow> bool" where
  "front_fits cap op = (case op of BqFront d \<Rightarrow> length d + 14 < cap | _ \<Rightarrow> True)"

lemma bq_step_holds:
  assumes "bq_holds q ds" "front_fits (bq_len q) op"
  shows "\<exists>q'. bq_step op q = Some (fst (blocks_step (bq_len q) op ds), q') \<and> bq_holds q' (snd (blocks_step (bq_len q) op ds)) \<and> bq_len q' = bq_len q"
proof (cases op)
  case (BqIn d)
  then show ?thesis using InQueue_holds [OF assms(1), of d] assms(1) by (auto split: if_splits)
next
  case (BqFront d)
  then show ?thesis using HeaderInQueue_holds [OF assms(1), of d] assms by (auto simp: front_fits_def split: if_splits)
next
  case (BqOut n)
  then show ?thesis using OutQueue_holds [OF assms(1), of n] assms(1) by (cases ds) (auto split: if_splits)
qed

lemma bq_run_holds:
  "bq_holds q ds \<Longrightarrow> \<forall>op \<in> set ops. front_fits (bq_len q) op \<Longrightarrow>
    \<exists>q'. bq_run ops q = Some (fst (blocks_run (bq_len q) ops ds), q') \<and> bq_holds q' (snd (blocks_run (bq_len q) ops ds))"
proof (induction ops arbitrary: q ds)
  case (Cons op ops)
  obtain q1 where q1: "bq_step op q = Some (fst (blocks_step (bq_len q) op ds), q1)" "bq_holds q1 (snd (blocks_step (bq_len q) op ds))"
      "bq_len q1 = bq_len q"
    using bq_step_holds [OF Cons.prems(1)] Cons.prems(2) by auto
  then show ?case using Cons.IH [OF q1(2)] Cons.prems(2) by (auto simp: split_beta Let_def)
qed simp

lemma bq_Init_holds: "0 < sz \<Longrightarrow> sz < 2 ^ 31 \<Longrightarrow> bq_holds (the (snd (bq_Init 0 Shm_Created sz))) [] \<and> bq_len (the (snd (bq_Init 0 Shm_Created sz))) = sz"
  by (simp add: bq_Init_def bq_holds_def)

text \<open>C24. The byte queue in shared memory is a list of byte strings: for any sequence of operations on a new segment
  of \<open>sz\<close> bytes, the queue answers what the list answers: data is accepted exactly when it fits with its 14 bytes
  of administration, comes out in order and unchanged, wherever the ring was split, a buffer that is too short is told the length
  it needs and takes nothing out, and the number of blocks is right. Data that is put in front is shorter than the queue.\<close>

theorem byte_queue_refines_list:
  assumes "0 < sz" "sz < 2 ^ 31" "\<forall>op \<in> set ops. front_fits sz op"
  shows "\<exists>q. bq_run ops (the (snd (bq_Init 0 Shm_Created sz))) = Some (fst (blocks_run sz ops []), q)
    \<and> bq_GetNum q = int (length (snd (blocks_run sz ops [])))"
proof -
  note i = bq_Init_holds [OF assms(1,2)]
  obtain q where q: "bq_run ops (the (snd (bq_Init 0 Shm_Created sz))) = Some (fst (blocks_run sz ops []), q)"
      "bq_holds q (snd (blocks_run sz ops []))"
    using bq_run_holds [of "the (snd (bq_Init 0 Shm_Created sz))" "[]" ops] i assms(3) by auto
  then show ?thesis by (auto simp: bq_GetNum_def bq_holds_def)
qed

theorem byte_queue_refines_list_witness:
  "\<exists>q. bq_run [BqIn [1, 2], BqIn [3], BqOut 9, BqIn [4, 5, 6], BqFront [], BqOut 9, BqOut 0, BqOut 1, BqOut 3, BqOut 3]
      (the (snd (bq_Init 0 Shm_Created 40)))
    = Some ([(0, 0, []), (0, 0, []), (0, 2, [1, 2]), (0, 0, []), (-604, 0, []), (0, 1, [3]), (-606, 3, []), (-606, 3, []),
             (0, 3, [4, 5, 6]), (-605, 3, [])], q)"
  using byte_queue_refines_list [of 40 "[BqIn [1, 2], BqIn [3], BqOut 9, BqIn [4, 5, 6], BqFront [], BqOut 9, BqOut 0, BqOut 1, BqOut 3, BqOut 3]"]
  by (simp add: front_fits_def E_SHM_QUEUE_FULL_def E_SHM_QUEUE_EMPTY_def E_SHM_QUEUE_BUFFLIMIT_def Let_def) blast

end
