(* ===== verification/Spec2Isabelle.thy ===== *)
theory Spec2Isabelle
  imports ServerRun AppStart ProxyTimer Base64 BuffTool StrTool ShmQueueEx ShmQueueUnique RingQueue HashList ProxyServerRun ServerConfig ClientSpec EpollClient BinaryTreeSpec RBTreeSpec FixedPoolSpec ByteQueueSpec
begin

text \<open>
  The repository holds a small distributed store of sorted sets, the BIS of \<open>bis/src\<close>, and single
  containers. A client sends commands over TCP to a proxy; the proxy frames them, finds the server
  responsible for their key and passes them on over ZeroMQ; the server changes or reads its sorted
  sets, answers to the proxy, and saves the sets to a file; the proxy sends the answer to the
  connection it belongs to.

  \<^bold>\<open>Parts and theories.\<close>

  \<^item> Server. \<open>SkipList\<close> models \<open>bis/src/server/skiplist.h\<close> over an explicit heap of nodes,
    \<open>SortSet\<close> the member-to-score sets of \<open>sort_set\<close>, \<open>Sldb\<close> the object file of \<open>sldb.cpp\<close>, \<open>Db\<close> the
    sets by key with \<open>SaveToFile\<close> and \<open>CheckDbFileAndLoad\<close> of \<open>db.cpp\<close>, \<open>MqMgr\<close> its message queue,
    \<open>Messages\<close> the messages of the \<open>.proto\<close> files, \<open>Server\<close> the handlers and the background save of
    \<open>server.cpp\<close>, \<open>AppBase\<close> the process framework \<open>application_base.cpp\<close> with its loop and signals,
    \<open>AppStart\<close> its command line and process identity file, \<open>ServerRun\<close> server and framework composed:
    the process from its start to its exit.
  \<^item> Proxy. \<open>Memory\<close>, \<open>Buffers\<close> and \<open>BufferSeq\<close> model the buffer classes of \<open>snslib/comm/buffer\<close>
    over a memory of blocks, \<open>Cmd\<close> the package of \<open>cmd.cpp\<close>, \<open>ReqFactor\<close> the keys of requests,
    \<open>ProxyMq\<close> the routing by key of \<open>mq_mgr.cpp\<close>, \<open>ProxyTask\<close> the connection of \<open>task.cpp\<close> (its
    memory, receiving, sending and replies in \<open>ProxyTaskMem\<close>, \<open>ProxyTaskRecv\<close>, \<open>ProxyTaskSend\<close>,
    \<open>ProxyTaskReply\<close>, its runs in \<open>ProxyTaskRun\<close>), \<open>ProxyServer\<close> the main loop of \<open>server.cpp\<close> with
    the descriptors, the task map and the shared pointers, \<open>ProxyServerInv\<close> and \<open>ProxyServerRun\<close> its
    invariant and its runs, \<open>ProxyTimer\<close> its timers and the rest of the epoll wrapper.
  \<^item> Client. \<open>ClientSocket\<close> models \<open>tcp_client.cpp\<close> over a script of what the system calls answer,
    \<open>EpollClient\<close> the same for \<open>epoll_client.cpp\<close>, \<open>Client\<close> the commands of \<open>main.cpp\<close>; \<open>Base64\<close>,
    \<open>BuffTool\<close> and \<open>StrTool\<close> the routines of \<open>pet_util.cpp\<close>.
  \<^item> Configuration. \<open>IniFile\<close> models \<open>include/ini_file.cpp\<close> with the C library functions it calls,
    \<open>ServerConfig\<close> the configurations of proxy and server.
  \<^item> Containers. \<open>ShmQueueEx\<close> and \<open>ShmQueueUnique\<close> model the queues in shared memory, \<open>HashList\<close> the
    hash table in one memory block, \<open>FixedPool\<close> the pool of nodes of one size of
    \<open>snslib/comm/mem_pool\<close> (its facts are in \<open>FixedPoolSpec\<close>), \<open>ByteQueue\<close> the queue of byte blocks of
    \<open>snslib/comm/shm_queue\<close> (\<open>RingBytes\<close> has the copies into a ring, \<open>ByteQueueSpec\<close> the refinement of a
    list of byte strings), \<open>RingQueue\<close> the ring of fixed size,
    \<open>BoundedFifo\<close> the contract the queues share. \<open>BinaryTree\<close> models \<open>binary_tree/binary_tree.h\<close> and
    \<open>RBTree\<close> the insertion of \<open>rb_tree/src/rb_tree.h\<close>, both nodes with pointers to children and
    parent; \<open>PtrTree\<close> holds what they share: trees of addresses in a heap, and contexts, which are
    trees with one subtree left out. \<open>BinaryTreeSpec\<close> shows that the first is a set;
    \<open>RBTreeRotate\<close>, \<open>RBTreeFix\<close> and \<open>RBTreeSpec\<close> show what rotations and \<open>InsertFixup\<close> do to the
    tree, and that the second is a stably sorted list whose height is bounded by its colours.

  A class is a record, its methods are functions on it; a pointer is an address into an explicit heap
  or memory; the system, the libraries (ZeroMQ, the classes protoc generates, \<open>rand\<close>, the clock) are
  arguments. \<open>None\<close> stands for undefined behaviour, an exception or a loop that does not end;
  \<open>partial_function\<close> is used where the loop of the code may run forever, so that a theorem which gives
  \<open>Some\<close> also says that the code returns. Machine integers keep their width.

  \<^bold>\<open>What is shown.\<close> The skip list stays a stably sorted list with exact spans, and its operations are
  those of that list; on it the sets refine a map from member to score as long as no two members have
  the same score; \<open>ss_deleted_member_stays_listed\<close> shows what is lost otherwise. Under the same
  restriction the database refines a map of maps, and it survives saving and loading. Through the
  loop of the framework, as long as set and score messages keep the scores of each key distinct, the
  database is what the messages made of it, and the exit saves exactly this if no child is saving at
  that moment; \<open>ServerRun\<close> models the temporary file which a child and the exit share, and shows how
  a late child replaces the file (\<open>late_child_replaces_the_file\<close>). \<open>bg_step\<close> of \<open>Server\<close> is the
  operating system around the background save: it answers \<open>fork\<close> and \<open>wait3\<close> freely, and the handlers
  tell whether they called them. The proxy keeps its ownership invariant in every run, forwards the packages of a
  connection in order and once, and brings each reply to the connection it names. A request goes
  from a connected client through the proxy to the server and its answer comes back to that client
  and to no other one (\<open>set_request_is_answered\<close> below). \<open>task_flush_loop\<close> and the loops around it run
  on scripts of what the kernel answers, so that no fuel is needed. The queues and the hash table refine bounded lists and maps, the
  pool hands out only nodes that are not in use, the trees keep sets and sorted lists; the
  configuration reader agrees with a declarative lookup; the encodings of \<open>pet_util\<close> are inverses.
  The error theorems state what the code does wrong in general, and their witnesses give inputs
  that show it. Scores are real numbers; only the conversion of the integer bounds of a range query
  rounds as \<open>double\<close> does (\<open>uint64_to_double\<close>).

  \<^bold>\<open>Not modelled.\<close> Logging and usage texts; the routines of \<open>pet_util\<close> that ask the system; the
  deletion of the red-black tree, which is not finished in the code; the other small containers of the
  top level; third-party code (glog, libev, Tokyo Cabinet, quicklz), generated code, and most of the parts
  of snslib that the three programs do not call.
\<close>

section \<open>From the queue to the database and back\<close>

lemma Respone_ok:
  assumes "mq_ok (w_mq w)" "0 \<le> zmq_connect z (src (transApp (w_svr w)))" "\<And>sk m. 0 \<le> zmq_send z sk m"
  obtains q sk where "srv_Respone pc z r w = w\<lparr>w_mq := q\<rparr>" "mq_ok q"
    "objPushSks q (src (transApp (w_svr w))) = Some sk"
    "\<And>d k. objPushSks (w_mq w) d = Some k \<Longrightarrow> objPushSks q d = Some k"
    "mq_sent q = mq_sent (w_mq w) @ [(sk, ser_trans pc (trans_empty\<lparr>client_pos := client_pos (transApp (w_svr w)),
        app_data := ser_rsp pc r\<rparr>))]" "mq_inbox q = mq_inbox (w_mq w)"
proof -
  let ?m = "ser_trans pc (trans_empty\<lparr>client_pos := client_pos (transApp (w_svr w)), app_data := ser_rsp pc r\<rparr>)"
  obtain q sk where "mq_SendMsg z (src (transApp (w_svr w))) ?m (w_mq w) = (zmq_send z sk ?m, q)" "mq_ok q"
      "objPushSks q (src (transApp (w_svr w))) = Some sk"
      "\<And>d k. objPushSks (w_mq w) d = Some k \<Longrightarrow> objPushSks q d = Some k"
      "mq_sent q = mq_sent (w_mq w) @ [(sk, ?m)]" "mq_inbox q = mq_inbox (w_mq w)"
    by (rule mq_SendMsg_ok [OF assms(1-3), of ?m]) (rule that)
  with that show ?thesis by (simp add: srv_Respone_def Let_def)
qed

text \<open>One set request taken from the queue, and one score request.\<close>

lemma set_message:
  assumes "pc_trans pc m1 = Some a" "cmd_id a = 0x1003" "pc_set pc (app_data a) = Some (key, xs)"
    and "db_holds (w_db w) m" "maps_distinct m (set_ops rnds 0 key xs)"
    and "mq_ok (w_mq w)" "\<And>d. 0 \<le> zmq_connect z d" "\<And>sk m. 0 \<le> zmq_send z sk m"
  obtains d q sk where
    "srv_ProcessMQMsg pc z rnds m1 w = Some (w\<lparr>w_svr := (w_svr w)\<lparr>transApp := a\<rparr>, w_db := d, w_mq := q\<rparr>)"
    "db_holds d (m(key := set_scores xs (m key)))" "mq_ok q" "objPushSks q (src a) = Some sk"
    "mq_sent q = mq_sent (w_mq w) @ [(sk, ser_trans pc (trans_empty\<lparr>client_pos := client_pos a,
        app_data := ser_rsp pc (SetBatchRsp 0 '''' (int (length xs)))\<rparr>))]" "mq_inbox q = mq_inbox (w_mq w)"
proof -
  let ?w = "w\<lparr>w_svr := (w_svr w)\<lparr>transApp := a\<rparr>\<rparr>" and ?r = "SetBatchRsp 0 '''' (int (length xs))"
  obtain d where d: "srv_ProcessDbSet pc z rnds ?w = Some (srv_Respone pc z ?r (?w\<lparr>w_db := d\<rparr>))"
      "db_holds d (m(key := set_scores xs (m key)))"
    using ProcessDbSet_holds [of pc ?w key xs m rnds z] assms(3-5) by auto
  obtain q sk where "srv_Respone pc z ?r (?w\<lparr>w_db := d\<rparr>) = ?w\<lparr>w_db := d, w_mq := q\<rparr>" "mq_ok q"
      "objPushSks q (src a) = Some sk"
      "mq_sent q = mq_sent (w_mq w) @ [(sk, ser_trans pc (trans_empty\<lparr>client_pos := client_pos a, app_data := ser_rsp pc ?r\<rparr>))]"
      "mq_inbox q = mq_inbox (w_mq w)"
    by (rule Respone_ok [of "?w\<lparr>w_db := d\<rparr>" z pc ?r]) (use assms(6-8) in simp_all)
  with that d assms(1,2) show ?thesis by (simp add: srv_ProcessMQMsg_def)
qed

lemma score_message:
  assumes "pc_trans pc m1 = Some a" "cmd_id a = 0x1007" "pc_mems pc (app_data a) = Some (key, [mem])"
    and "db_holds (w_db w) m" "m key mem = Some sc" "CHR 0x00 \<notin> set mem"
    and "mq_ok (w_mq w)" "\<And>d. 0 \<le> zmq_connect z d" "\<And>sk m. 0 \<le> zmq_send z sk m"
  obtains d q sk where
    "srv_ProcessMQMsg pc z rnds m1 w = Some (w\<lparr>w_svr := (w_svr w)\<lparr>transApp := a\<rparr>, w_db := d, w_mq := q\<rparr>)"
    "objPushSks q (src a) = Some sk" "\<And>d k. objPushSks (w_mq w) d = Some k \<Longrightarrow> objPushSks q d = Some k"
    "mq_sent q = mq_sent (w_mq w) @ [(sk, ser_trans pc (trans_empty\<lparr>client_pos := client_pos a,
        app_data := ser_rsp pc (GetScoreBatchRsp 0 ''Succ.'' [\<lparr>md_score = sc, md_data = mem\<rparr>])\<rparr>))]"
    "mq_inbox q = mq_inbox (w_mq w)"
proof -
  let ?w = "w\<lparr>w_svr := (w_svr w)\<lparr>transApp := a\<rparr>\<rparr>"
    and ?r = "GetScoreBatchRsp 0 ''Succ.'' [\<lparr>md_score = sc, md_data = mem\<rparr>]"
  let ?d = "snd (db_GetMemScore key mem (w_db w))"
  have c: "c_str mem = mem" using assms(6) by (simp add: c_str_def takeWhile_eq_all_conv) metis
  have "fst (db_GetMemScore key mem (w_db w)) = Some sc" using db_GetMemScore_holds(1) [OF assms(4)] assms(5) by simp
  then have run: "srv_ProcessDbGetScore pc z ?w = Some (srv_Respone pc z ?r (?w\<lparr>w_db := ?d\<rparr>))"
    using assms(3) c by (simp add: srv_ProcessDbGetScore_def split_beta)
  obtain q sk where "srv_Respone pc z ?r (?w\<lparr>w_db := ?d\<rparr>) = ?w\<lparr>w_db := ?d, w_mq := q\<rparr>"
      "objPushSks q (src a) = Some sk" "\<And>d k. objPushSks (w_mq w) d = Some k \<Longrightarrow> objPushSks q d = Some k"
      "mq_sent q = mq_sent (w_mq w) @ [(sk, ser_trans pc (trans_empty\<lparr>client_pos := client_pos a, app_data := ser_rsp pc ?r\<rparr>))]"
      "mq_inbox q = mq_inbox (w_mq w)"
    by (rule Respone_ok [of "?w\<lparr>w_db := ?d\<rparr>" z pc ?r]) (use assms(7-9) in simp_all)
  with that run assms(1,2) show ?thesis by (simp add: srv_ProcessMQMsg_def)
qed

text \<open>C23. A client that sends a set request for one member and then asks for its score: one
  call of \<open>ProcessMQRecv\<close> takes both messages from the queue, and the two replies, sent to the
  sockets of the two senders in this order, are the count 1 and the member with its score.\<close>

theorem server_set_then_score:
  assumes "mq_inbox (w_mq w) = [m1, m2]" "m1 \<noteq> []" "m2 \<noteq> []"
    and "pc_trans pc m1 = Some a1" "cmd_id a1 = 0x1003" "pc_set pc (app_data a1) = Some (key, [\<lparr>md_score = sc, md_data = mem\<rparr>])"
    and "pc_trans pc m2 = Some a2" "cmd_id a2 = 0x1007" "pc_mems pc (app_data a2) = Some (key, [mem])"
    and "CHR 0x00 \<notin> set mem" "db_holds (w_db w) m" "maps_distinct m [DbInsert (rnds 0 0) key sc mem]"
    and "mq_ok (w_mq w)" "\<forall>d. 0 \<le> zmq_connect z d" "\<forall>sk m. 0 \<le> zmq_send z sk m"
  shows "\<exists>w' s1 s2. srv_ProcessMQRecv pc z rnds w = Some (0, w') \<and> mq_inbox (w_mq w') = []
    \<and> objPushSks (w_mq w') (src a1) = Some s1 \<and> objPushSks (w_mq w') (src a2) = Some s2
    \<and> mq_sent (w_mq w') = mq_sent (w_mq w)
      @ [(s1, ser_trans pc (trans_empty\<lparr>client_pos := client_pos a1, app_data := ser_rsp pc (SetBatchRsp 0 '''' 1)\<rparr>)),
         (s2, ser_trans pc (trans_empty\<lparr>client_pos := client_pos a2,
            app_data := ser_rsp pc (GetScoreBatchRsp 0 ''Succ.'' [\<lparr>md_score = sc, md_data = mem\<rparr>])\<rparr>))]"
proof -
  define w0 where "w0 = w\<lparr>w_mq := (w_mq w)\<lparr>mq_inbox := []\<rparr>\<rparr>"
  have recv: "mq_RecvMsgs 10 (w_mq w) = ([m1, m2], (w_mq w)\<lparr>mq_inbox := []\<rparr>)"
    using assms(1-3) by (simp add: RecvMsgs_inbox)
  have w0: "mq_ok (w_mq w0)" "db_holds (w_db w0) m" "mq_inbox (w_mq w0) = []" "mq_sent (w_mq w0) = mq_sent (w_mq w)"
    using assms(11,13) by (simp_all add: w0_def mq_ok_def)
  have dist: "maps_distinct m (set_ops (rnds 0) 0 key [\<lparr>md_score = sc, md_data = mem\<rparr>])"
    using assms(12) by (simp add: set_ops_def)
  note con = assms(14) [rule_format] and snd = assms(15) [rule_format]
  obtain d q s1 where 1: "srv_ProcessMQMsg pc z (rnds 0) m1 w0 = Some (w0\<lparr>w_svr := (w_svr w0)\<lparr>transApp := a1\<rparr>, w_db := d, w_mq := q\<rparr>)"
      "db_holds d (m(key := set_scores [\<lparr>md_score = sc, md_data = mem\<rparr>] (m key)))" "mq_ok q" "objPushSks q (src a1) = Some s1"
      "mq_sent q = mq_sent (w_mq w0) @ [(s1, ser_trans pc (trans_empty\<lparr>client_pos := client_pos a1,
          app_data := ser_rsp pc (SetBatchRsp 0 '''' (int (length [\<lparr>md_score = sc, md_data = mem\<rparr>])))\<rparr>))]" "mq_inbox q = mq_inbox (w_mq w0)"
    by (rule set_message [OF assms(4-6) w0(2) dist w0(1) con snd]) (rule that)
  define w1 where "w1 = w0\<lparr>w_svr := (w_svr w0)\<lparr>transApp := a1\<rparr>, w_db := d, w_mq := q\<rparr>"
  have w1: "db_holds (w_db w1) (m(key := set_scores [\<lparr>md_score = sc, md_data = mem\<rparr>] (m key)))" "mq_ok (w_mq w1)"
      "(m(key := set_scores [\<lparr>md_score = sc, md_data = mem\<rparr>] (m key))) key mem = Some sc"
    using 1 by (simp_all add: w1_def set_scores_def)
  obtain d' q' s2 where 2: "srv_ProcessMQMsg pc z (rnds 1) m2 w1 = Some (w1\<lparr>w_svr := (w_svr w1)\<lparr>transApp := a2\<rparr>, w_db := d', w_mq := q'\<rparr>)"
      "objPushSks q' (src a2) = Some s2" "\<And>d k. objPushSks (w_mq w1) d = Some k \<Longrightarrow> objPushSks q' d = Some k"
      "mq_sent q' = mq_sent (w_mq w1) @ [(s2, ser_trans pc (trans_empty\<lparr>client_pos := client_pos a2,
          app_data := ser_rsp pc (GetScoreBatchRsp 0 ''Succ.'' [\<lparr>md_score = sc, md_data = mem\<rparr>])\<rparr>))]" "mq_inbox q' = mq_inbox (w_mq w1)"
    by (rule score_message [OF assms(7-9) w1(1,3) assms(10) w1(2) con snd]) (rule that)
  have "srv_ProcessMQRecv pc z rnds w = Some (0, w1\<lparr>w_svr := (w_svr w1)\<lparr>transApp := a2\<rparr>, w_db := d', w_mq := q'\<rparr>)"
    using recv 1(1) 2(1) by (simp add: srv_ProcessMQRecv_def w0_def [symmetric] w1_def [symmetric])
  moreover have "objPushSks q' (src a1) = Some s1" using 2(3) 1(4) by (simp add: w1_def)
  ultimately show ?thesis using 1 2 w0
    by (intro exI [of _ "w1\<lparr>w_svr := (w_svr w1)\<lparr>transApp := a2\<rparr>, w_db := d', w_mq := q'\<rparr>"] exI [of _ s1] exI [of _ s2])
      (simp add: w1_def)
qed

definition sample_pc2 :: srv_codec where
  "sample_pc2 = sample_pc\<lparr>pc_trans := (\<lambda>m. Some (if m = ''s'' then \<lparr>cmd_id = 0x1003, client_pos = 1, src = ''p'', app_data = ''''\<rparr>
       else \<lparr>cmd_id = 0x1007, client_pos = 2, src = ''q'', app_data = ''''\<rparr>)),
     pc_mems := (\<lambda>_. Some (''k'', [''b'']))\<rparr>"

theorem server_set_then_score_witness:
  "\<exists>w' s1 s2. srv_ProcessMQRecv sample_pc2 \<lparr>zmq_bind = \<lambda>_. 0, zmq_connect = \<lambda>_. 0, zmq_send = \<lambda>_ _. 1\<rparr> (\<lambda>_ _. rand_flat)
      (sample_world\<lparr>w_mq := mq_new\<lparr>mq_inbox := [''s'', ''g'']\<rparr>\<rparr>) = Some (0, w')
    \<and> mq_sent (w_mq w') = [(s1, ''t''), (s2, ''t'')]"
proof -
  let ?z = "\<lparr>zmq_bind = \<lambda>_. 0, zmq_connect = \<lambda>_. 0, zmq_send = \<lambda>_ _. 1\<rparr>"
  let ?w = "sample_world\<lparr>w_mq := mq_new\<lparr>mq_inbox := [''s'', ''g'']\<rparr>\<rparr>"
  let ?m = "(\<lambda>_. Map.empty)(''k'' := [''a'' \<mapsto> 3])"
  have h: "db_holds (w_db ?w) ?m" using sample_db_holds by (simp add: sample_world_def)
  have dist: "maps_distinct ?m [DbInsert rand_flat ''k'' 5 ''b'']" by (simp add: scores_distinct_def)
  have mq: "mq_ok (w_mq ?w)" "mq_inbox (w_mq ?w) = [''s'', ''g'']" "mq_sent (w_mq ?w) = []"
    by (simp_all add: mq_ok_def mq_new_def)
  show ?thesis
    using server_set_then_score [of ?w "''s''" "''g''" sample_pc2
        "\<lparr>cmd_id = 0x1003, client_pos = 1, src = ''p'', app_data = ''''\<rparr>" "''k''" 5 "''b''"
        "\<lparr>cmd_id = 0x1007, client_pos = 2, src = ''q'', app_data = ''''\<rparr>" ?m "\<lambda>_ _. rand_flat" ?z]
      h dist mq
    by (simp add: sample_pc2_def sample_pc_def) blast
qed


section \<open>From a client through the proxy to the server and back\<close>

lemma client_position: "(of_int (sint pos) :: 32 word) = pos" for pos :: "32 word"
  by simp

text \<open>C5. The whole way: the set request a connected client sends (the message the proxy forwards for it)
  reaches the server, which stores the members and answers to the proxy's address. When the answer
  comes in at the proxy, exactly this client gets it: what it was sent and what now waits in its
  send queue is what it was sent before, then what waited, then the serialised reply, and no other
  task and no other connection changes. The connection stays up, so that nothing of this is lost,
  unless \<open>writev\<close> fails on it or takes no byte. The two message libraries read what the other side
  wrote.\<close>

theorem set_request_is_answered:
  assumes "psrv_inv e [] s" "objTaskMap s pos = Some p" "ps_objs s p = Some (c, t)" "\<not> task_IsTerminate t"
    and "pm_inbox (n_mq (ps_net s)) = []"
    and "request_of e pos (push_sks (n_mq (ps_net s))) (0x1003, req) = [(sk, m1)]" "m1 \<noteq> []" "mq_inbox (w_mq w) = [m1]"
    and "pc_trans pc m1 = Some \<lparr>cmd_id = 0x1003, client_pos = sint pos, src = pull_addr (e_cfg e), app_data = bytes_str req\<rparr>"
    and "pc_set pc (bytes_str req) = Some (key, xs)" "db_holds (w_db w) m" "maps_distinct m (set_ops (rnds 0) 0 key xs)"
    and "mq_ok (w_mq w)" "\<forall>d. 0 \<le> zmq_connect z d" "\<forall>sk m. 0 \<le> zmq_send z sk m"
    and "reply = trans_empty\<lparr>client_pos := sint pos, app_data := ser_rsp pc (SetBatchRsp 0 '''' (int (length xs)))\<rparr>"
    and "ser_trans pc reply \<noteq> []" "rc_trans (e_rc e) (ser_trans pc reply) = Some reply"
  shows "\<exists>w' s1 s' t' pend rest. srv_ProcessMQRecv pc z rnds w = Some (0, w')
    \<and> db_holds (w_db w') (m(key := set_scores xs (m key)))
    \<and> objPushSks (w_mq w') (pull_addr (e_cfg e)) = Some s1 \<and> mq_sent (w_mq w') = mq_sent (w_mq w) @ [(s1, ser_trans pc reply)]
    \<and> psrv_OnMqRecv e (psrv_world (WMessage (ser_trans pc reply)) s) = Some (True, s') \<and> ps_objs s' p = Some (c, t')
    \<and> queue_bytes (t_queue t) (n_mem (ps_net s)) = Some pend
    \<and> c_tx (n_conn (ps_net s') (t_sock t)) @ rest = c_tx (n_conn (ps_net s) (t_sock t)) @ pend
        @ cmd_wire 0 (str_bytes (ser_rsp pc (SetBatchRsp 0 '''' (int (length xs)))))
    \<and> (\<not> task_IsTerminate t' \<longrightarrow> t_sock t' = t_sock t \<and> queue_bytes (t_queue t') (n_mem (ps_net s')) = Some rest)
    \<and> (writes_ok (n_conn (ps_net s) (t_sock t)) \<longrightarrow> \<not> task_IsTerminate t')
    \<and> (\<forall>q. q \<noteq> p \<longrightarrow> ps_objs s' q = ps_objs s q)
    \<and> (\<forall>f. f \<noteq> t_sock t \<longrightarrow> n_conn (ps_net s') f = n_conn (ps_net s) f)"
proof -
  let ?a = "\<lparr>cmd_id = 0x1003, client_pos = sint pos, src = pull_addr (e_cfg e), app_data = bytes_str req\<rparr>"
  define w0 where "w0 = w\<lparr>w_mq := (w_mq w)\<lparr>mq_inbox := []\<rparr>\<rparr>"
  have recv: "mq_RecvMsgs 10 (w_mq w) = ([m1], (w_mq w)\<lparr>mq_inbox := []\<rparr>)"
    using assms(7,8) by (simp add: RecvMsgs_inbox)
  have w0: "mq_ok (w_mq w0)" "db_holds (w_db w0) m" "mq_sent (w_mq w0) = mq_sent (w_mq w)"
    using assms(11,13) by (simp_all add: w0_def mq_ok_def)
  have app: "cmd_id ?a = 0x1003" "pc_set pc (app_data ?a) = Some (key, xs)" using assms(10) by simp_all
  obtain d q s1 where 1: "srv_ProcessMQMsg pc z (rnds 0) m1 w0 = Some (w0\<lparr>w_svr := (w_svr w0)\<lparr>transApp := ?a\<rparr>, w_db := d, w_mq := q\<rparr>)"
      "db_holds d (m(key := set_scores xs (m key)))" "objPushSks q (src ?a) = Some s1"
      "mq_sent q = mq_sent (w_mq w0) @ [(s1, ser_trans pc (trans_empty\<lparr>client_pos := client_pos ?a,
          app_data := ser_rsp pc (SetBatchRsp 0 '''' (int (length xs)))\<rparr>))]"
    by (rule set_message [OF assms(9) app w0(2) assms(12) w0(1) assms(14,15) [rule_format]]) (rule that)
  define w' where "w' = w0\<lparr>w_svr := (w_svr w0)\<lparr>transApp := ?a\<rparr>, w_db := d, w_mq := q\<rparr>"
  have w': "srv_ProcessMQRecv pc z rnds w = Some (0, w')" "db_holds (w_db w') (m(key := set_scores xs (m key)))"
      "objPushSks (w_mq w') (pull_addr (e_cfg e)) = Some s1" "mq_sent (w_mq w') = mq_sent (w_mq w) @ [(s1, ser_trans pc reply)]"
    using recv 1 w0(3) by (simp_all add: srv_ProcessMQRecv_def w0_def [symmetric] w'_def assms(16))
  define s2 where "s2 = psrv_world (WMessage (ser_trans pc reply)) s"
  have s2: "psrv_inv e [] s2" "pm_inbox (n_mq (ps_net s2)) = [ser_trans pc reply]" "ps_objs s2 p = Some (c, t)"
      "n_conn (ps_net s2) = n_conn (ps_net s)" "n_mem (ps_net s2) = n_mem (ps_net s)"
    using world_inv [OF assms(1), of "WMessage (ser_trans pc reply)"] assms(3,5) by (simp_all add: s2_def)
  obtain s' where s': "psrv_OnMqRecv e s2 = Some (True, s')" "all_told (replies_for e [ser_trans pc reply]) s2 s'"
    using OnMqRecv_told [OF s2(1)] s2(2) assms(17) by auto
  have "t_pos t = pos" using objs_okD(2) [OF psrv_invD(1) [OF assms(1)] assms(2)] assms(3) by auto
  then have out: "replies_for e [ser_trans pc reply] (t_pos t) = cmd_wire 0 (str_bytes (app_data reply))"
    using assms(18) by (simp add: assms(16) trans_empty_def reply_wire_def)
  obtain t' where t': "ps_objs s' p = Some (c, t')" "told t (ps_net s2) (cmd_wire 0 (str_bytes (app_data reply))) t' (ps_net s')"
    using all_toldD(1) [OF s'(2) s2(3)] unfolding out by blast
  obtain pend rest where q: "queue_bytes (t_queue t) (n_mem (ps_net s)) = Some pend"
      "c_tx (n_conn (ps_net s') (t_sock t)) @ rest = c_tx (n_conn (ps_net s) (t_sock t)) @ pend @ cmd_wire 0 (str_bytes (app_data reply))"
      "\<not> task_IsTerminate t' \<longrightarrow> t_sock t' = t_sock t \<and> queue_bytes (t_queue t') (n_mem (ps_net s')) = Some rest"
    using told_live [OF t'(2)] assms(4) s2(4,5) by auto
  have p: "objTaskMap s2 (of_int (client_pos reply)) = Some p"
    using assms(2) by (simp add: s2_def assms(16) trans_empty_def)
  have only: "only_told p s2 s'"
    by (rule OnMqRecv_single [OF s2(1,2) assms(17,18) p s'(1)])
  then have "writes_ok (n_conn (ps_net s) (t_sock t)) \<longrightarrow> \<not> task_IsTerminate t'"
    using t'(1) s2(3,4) assms(4) by (auto simp: only_told_def task_IsTerminate_def)
  moreover have "\<forall>q. q \<noteq> p \<longrightarrow> ps_objs s' q = ps_objs s q"
    using only by (simp add: only_told_def s2_def)
  moreover have "\<forall>f. f \<noteq> t_sock t \<longrightarrow> n_conn (ps_net s') f = n_conn (ps_net s) f"
    using only s2(3,4) by (simp add: only_told_def)
  moreover have "app_data reply = ser_rsp pc (SetBatchRsp 0 '''' (int (length xs)))" by (simp add: assms(16))
  ultimately show ?thesis using w' s'(1) t'(1) q unfolding s2_def
    by (intro exI [of _ w'] exI [of _ s1] exI [of _ s'] exI [of _ t'] exI [of _ pend] exI [of _ rest]) simp
qed

definition sample_pc3 :: srv_codec where
  "sample_pc3 = sample_pc\<lparr>pc_trans := (\<lambda>m. Some \<lparr>cmd_id = 0x1003, client_pos = 1, src = ''tcp://*:9001'', app_data = m\<rparr>),
     ser_trans := app_data\<rparr>"

theorem set_request_is_answered_witness:
  "\<exists>s t w' s1 s' t' rest. ps_objs s 0 = Some (1, t) \<and> t_sock t = 5
    \<and> srv_ProcessMQRecv sample_pc3 \<lparr>zmq_bind = \<lambda>_. 0, zmq_connect = \<lambda>_. 0, zmq_send = \<lambda>_ _. 1\<rparr> (\<lambda>_ _. rand_flat)
      (sample_world\<lparr>w_mq := mq_new\<lparr>mq_inbox := [''s'']\<rparr>\<rparr>) = Some (0, w')
    \<and> mq_sent (w_mq w') = [(s1, ''r'')]
    \<and> psrv_OnMqRecv sample_srv_env (psrv_world (WMessage ''r'') s) = Some (True, s')
    \<and> ps_objs s' 0 = Some (1, t') \<and> c_tx (n_conn (ps_net s') 5) @ rest = cmd_wire 0 (str_bytes ''r'')
    \<and> queue_bytes (t_queue t') (n_mem (ps_net s')) = Some rest
    \<and> (\<forall>f. f \<noteq> 5 \<longrightarrow> n_conn (ps_net s') f = n_conn (ps_net s) f)"
proof -
  let ?z = "\<lparr>zmq_bind = \<lambda>_. 0, zmq_connect = \<lambda>_. 0, zmq_send = \<lambda>_ _. 1\<rparr>"
  let ?w = "sample_world\<lparr>w_mq := mq_new\<lparr>mq_inbox := [''s'']\<rparr>\<rparr>" and ?m = "(\<lambda>_. Map.empty)(''k'' := [''a'' \<mapsto> 3])"
  let ?xs = "[\<lparr>md_score = 5, md_data = ''b''\<rparr>]"
  obtain s t where run: "psrv_Run sample_srv_env '''' sample_listen sample_rounds (psrv_new sample_srv_net 16) = Some (0, s)"
      and s: "ps_objs s 0 = Some (1, t)" "t_pos t = 1" "t_sock t = 5" "t_queue t = []" "c_tx (n_conn (ps_net s) 5) = []"
      "pm_inbox (n_mq (ps_net s)) = []" "writes_ok (n_conn (ps_net s) 5)"
    by (rule sample_run_eq) (rule that)
  have inv: "psrv_inv sample_srv_env [] s" by (rule run_inv [OF sample_srv_hyps run]) simp
  have p: "objTaskMap s 1 = Some 0" using objs_okD(1) [OF psrv_invD(1) [OF inv] s(1)] s(2) by (simp add: refs_def split: if_splits)
  have live: "\<not> task_IsTerminate t" using s(3) by (simp add: task_IsTerminate_def)
  have bytes: "bytes_str [0x73] = ''s''" by code_simp
  obtain sk where req: "request_of sample_srv_env 1 (push_sks (n_mq (ps_net s))) (0x1003, [0x73]) = [(sk, ''s'')]"
    by (simp add: request_of_def bytes Let_def rf_GetKeyId_def rf_key_def rf_Parse_def sample_srv_env_def sample_penv_def
        MSG_GET_SCORE_BATCH_REQ_def MSG_SET_BATCH_REQ_def)
  have h: "db_holds (w_db ?w) ?m" using sample_db_holds by (simp add: sample_world_def)
  have dist: "maps_distinct ?m (set_ops (\<lambda>_. rand_flat) 0 ''k'' ?xs)" by (simp add: set_ops_def scores_distinct_def)
  have pc: "pc_trans sample_pc3 ''s'' = Some \<lparr>cmd_id = 0x1003, client_pos = sint (1 :: 32 word),
      src = pull_addr (e_cfg sample_srv_env), app_data = bytes_str [0x73]\<rparr>" "pc_set sample_pc3 (bytes_str [0x73]) = Some (''k'', ?xs)"
    "mq_inbox (w_mq ?w) = [''s'']" "mq_ok (w_mq ?w)" "mq_sent (w_mq ?w) = []"
    by (simp_all add: bytes sample_pc3_def sample_pc_def sample_srv_env_def sample_penv_def sample_cfg_def mq_ok_def mq_new_def)
  let ?reply = "trans_empty\<lparr>client_pos := sint (1 :: 32 word), app_data := ser_rsp sample_pc3 (SetBatchRsp 0 '''' (int (length ?xs)))\<rparr>"
  have r: "ser_trans sample_pc3 ?reply = ''r''" "rc_trans (e_rc sample_srv_env) (ser_trans sample_pc3 ?reply) = Some ?reply"
    "ser_rsp sample_pc3 (SetBatchRsp 0 '''' (int (length ?xs))) = ''r''" "ser_trans sample_pc3 ?reply \<noteq> []"
    by (simp_all add: sample_pc3_def sample_pc_def sample_srv_env_def sample_penv_def trans_empty_def)
  have zs: "\<forall>d. 0 \<le> zmq_connect ?z d" "\<forall>sk m. 0 \<le> zmq_send ?z sk m" "''s'' \<noteq> []"
    by simp_all
  note set_request_is_answered [OF inv p s(1) live s(6) req zs(3) pc(3,1,2) h dist pc(4) zs(1,2) refl r(4,2), unfolded r(1), unfolded r(3) pc(5) s(3-5)]
  then obtain w' s1 s' t' rest where "srv_ProcessMQRecv sample_pc3 ?z (\<lambda>_ _. rand_flat) ?w = Some (0, w')" "mq_sent (w_mq w') = [(s1, ''r'')]"
      "psrv_OnMqRecv sample_srv_env (psrv_world (WMessage ''r'') s) = Some (True, s')"
      "ps_objs s' 0 = Some (1, t')" "c_tx (n_conn (ps_net s') 5) @ rest = cmd_wire 0 (str_bytes ''r'')"
      "queue_bytes (t_queue t') (n_mem (ps_net s')) = Some rest"
      "\<forall>f. f \<noteq> 5 \<longrightarrow> n_conn (ps_net s') f = n_conn (ps_net s) f"
    using s(7) by auto
  with s(1,3) show ?thesis by blast
qed

end
